(* ===== verification/Prelude.thy ===== *)
theory Prelude
  imports Main "HOL-Library.Word"
begin

text \<open>
  Names and generic facts that every component of the library shares: thread identifiers,
  the widths of the C integers, the counting of threads that satisfy a condition (the C code
  keeps such counts in \<open>uint16_t\<close>/\<open>uint32_t\<close> fields), and the collection
  \<open>sync_defs\<close> of the definitions that a critical section unfolds to.
\<close>

named_theorems sync_defs

type_synonym tid = nat
type_synonym addr = nat
type_synonym u8 = "8 word"
type_synonym u16 = "16 word"
type_synonym u32 = "32 word"

section \<open>Counting threads\<close>

definition count_threads :: "tid set \<Rightarrow> ('a \<Rightarrow> bool) \<Rightarrow> (tid \<Rightarrow> 'a) \<Rightarrow> nat" where
  "count_threads T P f = card {t \<in> T. P (f t)}"

lemma count_threads_same:
  assumes "\<And>t. t \<in> T \<Longrightarrow> P (f t) \<longleftrightarrow> Q (g t)"
  shows "count_threads T P f = count_threads T Q g"
proof -
  have "{t \<in> T. P (f t)} = {t \<in> T. Q (g t)}" using assms by blast
  then show ?thesis by (simp add: count_threads_def)
qed

lemma count_threads_le: "finite T \<Longrightarrow> count_threads T P f \<le> card T"
  by (auto simp: count_threads_def intro: card_mono)

lemma count_threads_eq_0: "finite T \<Longrightarrow> count_threads T P f = 0 \<longleftrightarrow> (\<forall>t\<in>T. \<not> P (f t))"
  by (auto simp: count_threads_def)

lemma count_threads_pos: "finite T \<Longrightarrow> 0 < count_threads T P f \<longleftrightarrow> (\<exists>t\<in>T. P (f t))"
  by (auto simp: count_threads_def card_gt_0_iff)

lemma count_threads_mem: "finite T \<Longrightarrow> t \<in> T \<Longrightarrow> P (f t) \<Longrightarrow> 0 < count_threads T P f"
  by (auto simp: count_threads_pos)

lemma count_threads_keep:
  "(P v \<longleftrightarrow> P (f t)) \<Longrightarrow> count_threads T P (f(t := v)) = count_threads T P f"
  by (rule count_threads_same) auto

lemma count_threads_add:
  assumes "finite T" "t \<in> T" "\<not> P (f t)" "P v"
  shows "count_threads T P (f(t := v)) = Suc (count_threads T P f)"
proof -
  have "{x \<in> T. P ((f(t := v)) x)} = insert t {x \<in> T. P (f x)}" using assms by auto
  moreover have "t \<notin> {x \<in> T. P (f x)}" using assms by simp
  ultimately show ?thesis using assms(1) by (simp add: count_threads_def)
qed

lemma count_threads_del:
  assumes "finite T" "t \<in> T" "P (f t)" "\<not> P v"
  shows "Suc (count_threads T P (f(t := v))) = count_threads T P f"
proof -
  have "{x \<in> T. P ((f(t := v)) x)} = {x \<in> T. P (f x)} - {t}" using assms by auto
  moreover have "t \<in> {x \<in> T. P (f x)}" using assms by simp
  ultimately show ?thesis using assms(1)
    by (simp add: count_threads_def card_Suc_Diff1 del: card_Diff_insert)
qed

lemma count_threads_del':
  assumes "finite T" "t \<in> T" "P (f t)" "\<not> P v"
  shows "count_threads T P (f(t := v)) = count_threads T P f - 1"
  using count_threads_del [of T t P f v] assms by simp

lemma count_threads_outside: "t \<notin> T \<Longrightarrow> count_threads T P (f(t := v)) = count_threads T P f"
  by (rule count_threads_same) auto

section \<open>Sums of per-thread depths\<close>

definition sum_threads :: "tid set \<Rightarrow> ('a \<Rightarrow> nat) \<Rightarrow> (tid \<Rightarrow> 'a) \<Rightarrow> nat" where
  "sum_threads T d f = (\<Sum>t\<in>T. d (f t))"

lemma sum_threads_upd:
  assumes "finite T" "t \<in> T"
  shows "sum_threads T d (f(t := v)) + d (f t) = sum_threads T d f + d v"
proof -
  have "sum_threads T d f = d (f t) + (\<Sum>x\<in>T - {t}. d (f x))"
    using assms by (simp add: sum_threads_def sum.remove)
  moreover have "sum_threads T d (f(t := v)) = d v + (\<Sum>x\<in>T - {t}. d ((f(t := v)) x))"
    using assms by (simp add: sum_threads_def sum.remove)
  moreover have "(\<Sum>x\<in>T - {t}. d ((f(t := v)) x)) = (\<Sum>x\<in>T - {t}. d (f x))"
    by (rule sum.cong) auto
  ultimately show ?thesis by simp
qed

lemma sum_threads_ge: "finite T \<Longrightarrow> t \<in> T \<Longrightarrow> d (f t) \<le> sum_threads T d f"
  by (auto simp: sum_threads_def intro: member_le_sum)

lemma sum_threads_zero: "(\<And>t. t \<in> T \<Longrightarrow> d (f t) = 0) \<Longrightarrow> sum_threads T d f = 0"
  by (simp add: sum_threads_def)

lemma sum_threads_eq_0: "finite T \<Longrightarrow> sum_threads T d f = 0 \<longleftrightarrow> (\<forall>t\<in>T. d (f t) = 0)"
  by (simp add: sum_threads_def)

lemma sum_threads_bound:
  assumes "\<And>t. t \<in> T \<Longrightarrow> d (f t) \<le> k"
  shows "sum_threads T d f \<le> card T * k"
  using sum_bounded_above [of T "\<lambda>t. d (f t)" k] assms by (simp add: sum_threads_def)

section \<open>Counters kept in machine words\<close>

lemma of_nat_word16_eq_0: "k < 65536 \<Longrightarrow> (of_nat k = (0::u16)) \<longleftrightarrow> k = 0"
  by (simp add: word_of_nat_eq_0_iff dvd_imp_le nat_dvd_not_less) 
    (metis nat_dvd_not_less gr0I dvd_0_right)

lemma of_nat_u16_inj: "j < 65536 \<Longrightarrow> k < 65536 \<Longrightarrow> (of_nat j = (of_nat k :: u16)) \<longleftrightarrow> j = k"
  by (simp add: word_of_nat_eq_iff take_bit_nat_eq_self)

lemma of_nat_u32_inj:
  "j < 4294967296 \<Longrightarrow> k < 4294967296 \<Longrightarrow> (of_nat j = (of_nat k :: u32)) \<longleftrightarrow> j = k"
  by (simp add: word_of_nat_eq_iff take_bit_nat_eq_self)

lemma unat_u16_less: "unat (m::u16) < 65536"
  using unsigned_less [of m] by simp

lemma unat_u16_pos: "m \<noteq> (0::u16) \<Longrightarrow> Suc 0 \<le> unat m"
  by (simp add: Suc_le_eq unsigned_eq_0_iff flip: neq0_conv)

text \<open>A counter that has not passed its limit.\<close>

lemma u16_limit:
  assumes "k \<le> unat (m::u16)"
  shows "of_nat k = (0::u16) \<longleftrightarrow> k = 0" and "of_nat k = m \<longleftrightarrow> k = unat m" and "k < 65536"
proof -
  show k: "k < 65536" using assms unat_u16_less [of m] by simp
  then show "of_nat k = (0::u16) \<longleftrightarrow> k = 0" by (rule of_nat_word16_eq_0)
  show "of_nat k = m \<longleftrightarrow> k = unat m"
  proof
    assume "of_nat k = m"
    then show "k = unat m" using k by (auto simp: unat_of_nat take_bit_nat_eq_self)
  qed simp
qed

end
