(* ===== verification/Pthreads.thy ===== *)
theory Pthreads
  imports Prelude
begin

text \<open>
  The part of POSIX threads the library is written over: a mutex that protects the fields of an
  object, condition variables, and the operations of the object as critical sections.

  Every synchronisation object of the repository has the same shape: an operation locks the
  object's mutex, reads and writes its fields, and leaves the mutex either by
  \<^verbatim>\<open>pthread_mutex_unlock\<close> (the operation returns) or by \<^verbatim>\<open>pthread_cond_wait\<close>
  (the thread blocks and, when it is woken, continues with the mutex held again). The fields are
  only accessed with the mutex held, so what lies between two of these points is one atomic step:
  a value of type \<open>sect\<close>, computed from the fields. An \<^verbatim>\<open>assert\<close> that fails ends the
  process (\<open>Aborted\<close>).

  POSIX semantics of the condition variables: \<^verbatim>\<open>pthread_cond_broadcast\<close> wakes every
  waiter; \<^verbatim>\<open>pthread_cond_signal\<close> wakes a waiter if there is one, which one is not
  determined; \<^verbatim>\<open>pthread_cond_wait\<close> may also return without a signal (a spurious wake-up,
  the rule \<open>spurious\<close>, present when the flag \<open>sp\<close> of the relation is set). A woken thread
  competes for the mutex with every other thread, in any order.
\<close>

section \<open>Critical sections\<close>

datatype 'cv wakeup = Signal 'cv | Broadcast 'cv

datatype ('s, 'r, 'cv, 'k) sect =
    Unlocked 's 'r "'cv wakeup list"
  | CvWait 's 'cv 'k "'cv wakeup list"
  | Aborted

text \<open>\<open>check b x\<close> is \<^verbatim>\<open>assert(b); x\<close>.\<close>

definition check :: "bool \<Rightarrow> ('s, 'r, 'cv, 'k) sect \<Rightarrow> ('s, 'r, 'cv, 'k) sect" where
  [sync_defs]: "check b x = (if b then x else Aborted)"

text \<open>Signals sent before the rest of the section runs.\<close>

fun after_signals :: "'cv wakeup list \<Rightarrow> ('s, 'r, 'cv, 'k) sect \<Rightarrow> ('s, 'r, 'cv, 'k) sect" where
  "after_signals ss (Unlocked s r ss') = Unlocked s r (ss @ ss')"
| "after_signals ss (CvWait s cv k ss') = CvWait s cv k (ss @ ss')"
| "after_signals ss Aborted = Aborted"

section \<open>Threads of an object\<close>

datatype ('cv, 'k) thread_status =
    Running
  | Blocked 'cv 'k
  | Woken 'k

text \<open>Where a thread will continue inside an operation, whether or not it is already awake.\<close>

fun pending :: "('cv, 'k) thread_status \<Rightarrow> 'k option" where
  "pending Running = None"
| "pending (Blocked cv k) = Some k"
| "pending (Woken k) = Some k"

fun is_blocked :: "('cv, 'k) thread_status \<Rightarrow> bool" where
  "is_blocked (Blocked cv k) = True"
| "is_blocked _ = False"

fun blocked_on :: "'cv \<Rightarrow> ('cv, 'k) thread_status \<Rightarrow> bool" where
  "blocked_on cv (Blocked cv' k) = (cv' = cv)"
| "blocked_on cv _ = False"

fun is_woken :: "('cv, 'k) thread_status \<Rightarrow> bool" where
  "is_woken (Woken k) = True"
| "is_woken _ = False"

fun wake :: "('cv, 'k) thread_status \<Rightarrow> ('cv, 'k) thread_status" where
  "wake (Blocked cv k) = Woken k"
| "wake x = x"

lemma pending_wake [simp]: "pending (wake x) = pending x"
  by (cases x) auto

lemma wake_not_blocked [simp]: "\<not> is_blocked (wake x)" "\<not> blocked_on cv (wake x)"
  by (cases x; simp)+

lemma blocked_on_iff: "blocked_on cv x \<longleftrightarrow> (\<exists>k. x = Blocked cv k)"
  by (cases x) auto

lemma is_blocked_iff: "is_blocked x \<longleftrightarrow> (\<exists>cv. blocked_on cv x)"
  by (cases x) auto

lemma is_woken_wake: "is_woken (wake x) \<longleftrightarrow> is_woken x \<or> is_blocked x"
  by (cases x) auto

lemma pending_None: "pending x = None \<longleftrightarrow> x = Running"
  by (cases x) auto

definition wake_all ::
  "'cv \<Rightarrow> (tid \<Rightarrow> ('cv, 'k) thread_status) \<Rightarrow> tid \<Rightarrow> ('cv, 'k) thread_status" where
  "wake_all cv f = (\<lambda>t. if blocked_on cv (f t) then wake (f t) else f t)"

definition wake_one ::
  "tid \<Rightarrow> (tid \<Rightarrow> ('cv, 'k) thread_status) \<Rightarrow> tid \<Rightarrow> ('cv, 'k) thread_status" where
  "wake_one u f = (\<lambda>t. if t = u then wake (f t) else f t)"

text \<open>\<open>wakes ss f g\<close>: the signals \<open>ss\<close>, delivered in order, can take the threads from \<open>f\<close> to
  \<open>g\<close>. A signal with no waiter is lost.\<close>

fun wakes :: "'cv wakeup list \<Rightarrow> (tid \<Rightarrow> ('cv, 'k) thread_status) \<Rightarrow>
  (tid \<Rightarrow> ('cv, 'k) thread_status) \<Rightarrow> bool" where
  "wakes [] f g \<longleftrightarrow> g = f"
| "wakes (Broadcast cv # ss) f g \<longleftrightarrow> wakes ss (wake_all cv f) g"
| "wakes (Signal cv # ss) f g \<longleftrightarrow>
     (if \<exists>t. blocked_on cv (f t) then \<exists>t. blocked_on cv (f t) \<and> wakes ss (wake_one t f) g
      else wakes ss f g)"

lemma wakes_cases: "wakes ss f g \<Longrightarrow> g t = f t \<or> (is_blocked (f t) \<and> g t = wake (f t))"
proof (induction ss f g rule: wakes.induct)
  case (2 cv ss f g)
  then show ?case by (auto simp: wake_all_def is_blocked_iff split: if_splits)
next
  case (3 cv ss f g)
  show ?case
  proof (cases "\<exists>t. blocked_on cv (f t)")
    case True
    then obtain u where u: "blocked_on cv (f u)" "wakes ss (wake_one u f) g"
      using "3.prems" by auto
    from "3.IH"(1) [OF True u(2)] u(1) show ?thesis
      by (auto simp: wake_one_def is_blocked_iff split: if_splits)
  next
    case False
    then show ?thesis using 3 by simp
  qed
qed simp

lemma wakes_pending: "wakes ss f g \<Longrightarrow> pending (g t) = pending (f t)"
  by (drule wakes_cases [of _ _ _ t]) auto

lemma wakes_running: "wakes ss f g \<Longrightarrow> g t = Running \<longleftrightarrow> f t = Running"
  by (drule wakes_pending [of _ _ _ t]) (metis pending_None)

lemma wakes_blocked_same: "wakes ss f g \<Longrightarrow> is_blocked (g t) \<Longrightarrow> g t = f t"
  by (drule wakes_cases [of _ _ _ t]) auto

lemma wakes_blocked: "wakes ss f g \<Longrightarrow> blocked_on cv (g t) \<Longrightarrow> blocked_on cv (f t)"
  by (drule wakes_cases [of _ _ _ t]) auto

lemma wakes_woken: "wakes ss f g \<Longrightarrow> is_woken (f t) \<Longrightarrow> g t = f t"
  by (drule wakes_cases [of _ _ _ t]) (cases "f t"; auto)

text \<open>A signal to a condition variable with a waiter leaves somebody awake.\<close>

lemma wakes_signal_some:
  assumes "wakes (Signal cv # ss) f g" and "blocked_on cv (f t)"
  shows "\<exists>u. blocked_on cv (f u) \<and> g u = wake (f u)"
proof -
  from assms obtain u where u: "blocked_on cv (f u)" "wakes ss (wake_one u f) g"
    by (auto split: if_splits)
  then have "is_woken (wake_one u f u)" by (auto simp: wake_one_def is_woken_wake is_blocked_iff)
  from wakes_woken [OF u(2) this] u(1) show ?thesis by (auto simp: wake_one_def)
qed

lemma wakes_broadcast_all:
  assumes "wakes (Broadcast cv # ss) f g"
  shows "\<not> blocked_on cv (g t)"
  using assms wakes_blocked [of ss "wake_all cv f" g cv t] by (auto simp: wake_all_def split: if_splits)

lemma wakes_nobody: "wakes ss (\<lambda>_. Running) (\<lambda>_. Running)"
proof (induction ss)
  case (Cons a ss)
  then show ?case by (cases a) (simp_all add: wake_all_def)
qed simp

section \<open>Objects and their executions\<close>

text \<open>
  An object is given by its operations: \<open>enter t op\<close> is the section from the call to the first
  unlock or wait, \<open>resume t k\<close> the section from the return of a wait. The client's use of the
  object is part of the execution: \<open>ghost\<close> records what a thread owns through the object (locks
  held, permits taken), \<open>may_call\<close> is the discipline the clients follow, \<open>on_return\<close> updates
  the record when an operation returns. The ghost value is never read by the code.
\<close>

record ('s, 'g, 'op, 'k, 'cv, 'r) obj =
  enter :: "tid \<Rightarrow> 'op \<Rightarrow> 's \<Rightarrow> ('s, 'r, 'cv, 'k) sect"
  resume :: "tid \<Rightarrow> 'k \<Rightarrow> 's \<Rightarrow> ('s, 'r, 'cv, 'k) sect"
  may_call :: "'g \<Rightarrow> 'op \<Rightarrow> bool"
  on_return :: "'r \<Rightarrow> 'g \<Rightarrow> 'g"

record ('s, 'g, 'k, 'cv) config =
  shared :: 's
  ghost :: "tid \<Rightarrow> 'g"
  status :: "tid \<Rightarrow> ('cv, 'k) thread_status"
  aborted :: bool

text \<open>\<open>finish ob t sec c d\<close>: thread \<open>t\<close> ran the section \<open>sec\<close> in configuration \<open>c\<close>, which can
  end in \<open>d\<close>. The thread itself is not waiting while its signals are delivered.\<close>

fun finish :: "('s, 'g, 'op, 'k, 'cv, 'r) obj \<Rightarrow> tid \<Rightarrow> ('s, 'r, 'cv, 'k) sect \<Rightarrow>
  ('s, 'g, 'k, 'cv) config \<Rightarrow> ('s, 'g, 'k, 'cv) config \<Rightarrow> bool" where
  "finish ob t (Unlocked s r ss) c d \<longleftrightarrow>
     (\<exists>f. wakes ss ((status c)(t := Running)) f \<and>
          d = c\<lparr>shared := s, ghost := (ghost c)(t := on_return ob r (ghost c t)), status := f\<rparr>)"
| "finish ob t (CvWait s cv k ss) c d \<longleftrightarrow>
     (\<exists>f. wakes ss ((status c)(t := Running)) f \<and>
          d = c\<lparr>shared := s, status := f(t := Blocked cv k)\<rparr>)"
| "finish ob t Aborted c d \<longleftrightarrow> d = c\<lparr>aborted := True\<rparr>"

inductive step :: "('s, 'g, 'op, 'k, 'cv, 'r) obj \<Rightarrow> bool \<Rightarrow> tid set \<Rightarrow>
  ('s, 'g, 'k, 'cv) config \<Rightarrow> ('s, 'g, 'k, 'cv) config \<Rightarrow> bool" for ob sp T where
  call: "\<not> aborted c \<Longrightarrow> t \<in> T \<Longrightarrow> status c t = Running \<Longrightarrow> may_call ob (ghost c t) op \<Longrightarrow>
    finish ob t (enter ob t op (shared c)) c d \<Longrightarrow> step ob sp T c d"
| return_from_wait: "\<not> aborted c \<Longrightarrow> t \<in> T \<Longrightarrow> status c t = Woken k \<Longrightarrow>
    finish ob t (resume ob t k (shared c)) c d \<Longrightarrow> step ob sp T c d"
| spurious: "sp \<Longrightarrow> \<not> aborted c \<Longrightarrow> t \<in> T \<Longrightarrow> is_blocked (status c t) \<Longrightarrow>
    step ob sp T c (c\<lparr>status := (status c)(t := wake (status c t))\<rparr>)"

definition start :: "'s \<Rightarrow> 'g \<Rightarrow> ('s, 'g, 'k, 'cv) config" where
  "start s g = \<lparr>shared = s, ghost = (\<lambda>_. g), status = (\<lambda>_. Running), aborted = False\<rparr>"

inductive reach :: "('s, 'g, 'op, 'k, 'cv, 'r) obj \<Rightarrow> bool \<Rightarrow> tid set \<Rightarrow> 's \<Rightarrow> 'g \<Rightarrow>
  ('s, 'g, 'k, 'cv) config \<Rightarrow> bool" for ob sp T s0 g0 where
  reach_start: "reach ob sp T s0 g0 (start s0 g0)"
| reach_step: "reach ob sp T s0 g0 c \<Longrightarrow> step ob sp T c d \<Longrightarrow> reach ob sp T s0 g0 d"

text \<open>Without spurious wake-ups there are fewer executions, so what holds of every reachable
  configuration with them holds without them.\<close>

lemma step_mono: "step ob False T c d \<Longrightarrow> step ob sp T c d"
  by (erule step.cases) (auto intro: step.intros)

lemma reach_mono: "reach ob False T s0 g0 c \<Longrightarrow> reach ob sp T s0 g0 c"
  by (induction rule: reach.induct) (auto intro: reach.intros dest: step_mono)

section \<open>Invariants of objects\<close>

text \<open>
  \<open>keeps\<close> is the proof obligation of one section: whatever the signals wake, the invariant holds
  when the mutex is released, and no assertion failed.
\<close>

fun keeps :: "('s, 'g, 'op, 'k, 'cv, 'r) obj \<Rightarrow>
  ('s \<Rightarrow> (tid \<Rightarrow> 'g) \<Rightarrow> (tid \<Rightarrow> ('cv, 'k) thread_status) \<Rightarrow> bool) \<Rightarrow> tid \<Rightarrow>
  (tid \<Rightarrow> 'g) \<Rightarrow> (tid \<Rightarrow> ('cv, 'k) thread_status) \<Rightarrow> ('s, 'r, 'cv, 'k) sect \<Rightarrow> bool" where
  "keeps ob I t g f (Unlocked s r ss) \<longleftrightarrow>
     (\<forall>h. wakes ss (f(t := Running)) h \<longrightarrow> I s (g(t := on_return ob r (g t))) h)"
| "keeps ob I t g f (CvWait s cv k ss) \<longleftrightarrow>
     (\<forall>h. wakes ss (f(t := Running)) h \<longrightarrow> I s g (h(t := Blocked cv k)))"
| "keeps ob I t g f Aborted \<longleftrightarrow> False"

text \<open>Somebody wakes, whoever the signals choose.\<close>

lemma wakes_some: "\<exists>g. wakes ss f g"
proof (induction ss arbitrary: f)
  case (Cons w ss)
  show ?case
  proof (cases w)
    case (Signal cv)
    show ?thesis
    proof (cases "\<exists>t. blocked_on cv (f t)")
      case True
      then obtain t where "blocked_on cv (f t)" by blast
      moreover obtain g where "wakes ss (wake_one t f) g" using Cons.IH by blast
      ultimately show ?thesis using Signal by auto
    next
      case False
      then show ?thesis using Cons.IH [of f] Signal by simp
    qed
  next
    case (Broadcast cv)
    then show ?thesis using Cons.IH by simp
  qed
next
  case Nil
  show ?case by (rule exI [of _ f]) simp
qed


lemma finish_some: "\<exists>d. finish ob t sec c d"
  using wakes_some by (cases sec) auto

text \<open>An obligation \<open>keeps\<close> from the configurations a section leads to.\<close>

lemma keeps_of_finish:
  assumes "\<And>c d. shared c = s \<Longrightarrow> ghost c = g \<Longrightarrow> status c = f \<Longrightarrow> \<not> aborted c \<Longrightarrow> finish ob t sec c d \<Longrightarrow>
    \<not> aborted d \<and> I (shared d) (ghost d) (status d)"
  shows "keeps ob I t g f sec"
proof -
  let ?c = "\<lparr>shared = s, ghost = g, status = f, aborted = False\<rparr>"
  note as = assms [of ?c, simplified]
  show ?thesis
  proof (cases sec)
    case (Unlocked s1 r ss)
    then show ?thesis using as [of "?c\<lparr>shared := s1, ghost := g(t := on_return ob r (g t)), status := _\<rparr>"] by auto
  next
    case (CvWait s1 cv k ss)
    then show ?thesis using as [of "?c\<lparr>shared := s1, status := _(t := Blocked cv k)\<rparr>"] by auto
  next
    case Aborted
    then show ?thesis using as [of "?c\<lparr>aborted := True\<rparr>"] by simp
  qed
qed

lemma pending_if: "(\<lambda>x. pending (if x = t then y else f x)) = (\<lambda>x. pending (f x))(t := pending y)"
  by auto

text \<open>
  The contract is stated for a family of objects: \<open>p\<close> ranges over the parameters of a run (limits,
  initial field values), \<open>T\<close> over its sets of threads, and \<open>valid p T\<close> says which of them the
  contract covers.
\<close>

locale sync_object =
  fixes valid :: "'p \<Rightarrow> tid set \<Rightarrow> bool"
    and ob :: "'p \<Rightarrow> ('s, 'g, 'op, 'k, 'cv, 'r) obj"
    and sp :: bool
    and s0 :: "'p \<Rightarrow> 's"
    and g0 :: 'g
    and I :: "'p \<Rightarrow> tid set \<Rightarrow> 's \<Rightarrow> (tid \<Rightarrow> 'g) \<Rightarrow> (tid \<Rightarrow> ('cv, 'k) thread_status) \<Rightarrow> bool"
  assumes initially: "\<And>p T. valid p T \<Longrightarrow> I p T (s0 p) (\<lambda>_. g0) (\<lambda>_. Running)"
    and on_call: "\<And>p T s g f t op. valid p T \<Longrightarrow> I p T s g f \<Longrightarrow> t \<in> T \<Longrightarrow> f t = Running \<Longrightarrow>
      may_call (ob p) (g t) op \<Longrightarrow> keeps (ob p) (I p T) t g f (enter (ob p) t op s)"
    and on_resume: "\<And>p T s g f t k. valid p T \<Longrightarrow> I p T s g f \<Longrightarrow> t \<in> T \<Longrightarrow> f t = Woken k \<Longrightarrow>
      keeps (ob p) (I p T) t g f (resume (ob p) t k s)"
    and on_spurious: "\<And>p T s g f t. sp \<Longrightarrow> valid p T \<Longrightarrow> I p T s g f \<Longrightarrow> t \<in> T \<Longrightarrow>
      is_blocked (f t) \<Longrightarrow> I p T s g (f(t := wake (f t)))"
begin

lemma finish_keeps:
  assumes "keeps (ob p) (I p T) t (ghost c) (status c) sec" and "finish (ob p) t sec c d"
    and "\<not> aborted c"
  shows "\<not> aborted d \<and> I p T (shared d) (ghost d) (status d)"
  using assms by (cases sec) auto

lemma reachable:
  assumes valid: "valid p T" and "reach (ob p) sp T (s0 p) g0 c"
  shows "\<not> aborted c \<and> I p T (shared c) (ghost c) (status c)"
  using assms(2)
proof (induction rule: reach.induct)
  case reach_start
  show ?case using initially [OF valid] by (simp add: start_def)
next
  case (reach_step c d)
  from reach_step.hyps(2) show ?case
  proof cases
    case (call t op)
    with reach_step.IH
    have "keeps (ob p) (I p T) t (ghost c) (status c) (enter (ob p) t op (shared c))"
      by (intro on_call [OF valid]) auto
    then show ?thesis using call(5,1) by (rule finish_keeps)
  next
    case (return_from_wait t k)
    with reach_step.IH
    have "keeps (ob p) (I p T) t (ghost c) (status c) (resume (ob p) t k (shared c))"
      by (intro on_resume [OF valid]) auto
    then show ?thesis using return_from_wait(4,1) by (rule finish_keeps)
  next
    case (spurious t)
    with reach_step.IH have "I p T (shared c) (ghost c) ((status c)(t := wake (status c t)))"
      by (intro on_spurious [OF _ valid]) auto
    then show ?thesis using spurious by (simp add: fun_upd_def)
  qed
qed

lemma reachable_inv:
  "valid p T \<Longrightarrow> reach (ob p) sp T (s0 p) g0 c \<Longrightarrow> I p T (shared c) (ghost c) (status c)"
  using reachable by blast

lemma reachable_not_aborted: "valid p T \<Longrightarrow> reach (ob p) sp T (s0 p) g0 c \<Longrightarrow> \<not> aborted c"
  using reachable by blast

end

text \<open>
  Most invariants do not tell a blocked thread from a woken one: they speak of the fields, of what
  the threads own and of where each thread is in its operation (\<open>pending\<close>). Such an invariant is
  kept by every wake-up, spurious or not, which leaves one obligation per section.
\<close>

fun keeps_monitor :: "('s, 'g, 'op, 'k, 'cv, 'r) obj \<Rightarrow>
  ('s \<Rightarrow> (tid \<Rightarrow> 'g) \<Rightarrow> (tid \<Rightarrow> 'k option) \<Rightarrow> bool) \<Rightarrow> tid \<Rightarrow>
  (tid \<Rightarrow> 'g) \<Rightarrow> (tid \<Rightarrow> 'k option) \<Rightarrow> ('s, 'r, 'cv, 'k) sect \<Rightarrow> bool" where
  "keeps_monitor ob I t g w (Unlocked s r ss) \<longleftrightarrow> I s (g(t := on_return ob r (g t))) (w(t := None))"
| "keeps_monitor ob I t g w (CvWait s cv k ss) \<longleftrightarrow> I s g (w(t := Some k))"
| "keeps_monitor ob I t g w Aborted \<longleftrightarrow> False"

lemma keeps_of_monitor:
  assumes "keeps_monitor ob I t g (\<lambda>x. pending (f x)) sec"
  shows "keeps ob (\<lambda>s g f. I s g (\<lambda>x. pending (f x))) t g f sec"
proof (cases sec)
  case (Unlocked s r ss)
  have "(\<lambda>x. pending (h x)) = (\<lambda>x. pending (f x))(t := None)"
    if "wakes ss (f(t := Running)) h" for h
    using wakes_pending [OF that] by (auto simp: fun_eq_iff)
  then show ?thesis using assms Unlocked by auto
next
  case (CvWait s cv k ss)
  have "(\<lambda>x. pending ((h(t := Blocked cv k)) x)) = (\<lambda>x. pending (f x))(t := Some k)"
    if "wakes ss (f(t := Running)) h" for h
    using wakes_pending [OF that] by (auto simp: fun_eq_iff)
  then show ?thesis using assms CvWait by auto
next
  case Aborted
  then show ?thesis using assms by simp
qed

locale sync_monitor =
  fixes valid :: "'p \<Rightarrow> tid set \<Rightarrow> bool"
    and ob :: "'p \<Rightarrow> ('s, 'g, 'op, 'k, 'cv, 'r) obj"
    and s0 :: "'p \<Rightarrow> 's"
    and g0 :: 'g
    and I :: "'p \<Rightarrow> tid set \<Rightarrow> 's \<Rightarrow> (tid \<Rightarrow> 'g) \<Rightarrow> (tid \<Rightarrow> 'k option) \<Rightarrow> bool"
  assumes m_initially: "\<And>p T. valid p T \<Longrightarrow> I p T (s0 p) (\<lambda>_. g0) (\<lambda>_. None)"
    and m_call: "\<And>p T s g w t op. valid p T \<Longrightarrow> I p T s g w \<Longrightarrow> t \<in> T \<Longrightarrow> w t = None \<Longrightarrow>
      may_call (ob p) (g t) op \<Longrightarrow> keeps_monitor (ob p) (I p T) t g w (enter (ob p) t op s)"
    and m_resume: "\<And>p T s g w t k. valid p T \<Longrightarrow> I p T s g w \<Longrightarrow> t \<in> T \<Longrightarrow> w t = Some k \<Longrightarrow>
      keeps_monitor (ob p) (I p T) t g w (resume (ob p) t k s)"

sublocale sync_monitor \<subseteq> mon: sync_object valid ob True s0 g0
  "\<lambda>p T s g f. I p T s g (\<lambda>x. pending (f x))"
proof (unfold_locales, goal_cases)
  case (1 p T)
  then show ?case using m_initially by simp
next
  case (2 p T s g f t op)
  then show ?case by (intro keeps_of_monitor m_call) auto
next
  case (3 p T s g f t k)
  then show ?case by (intro keeps_of_monitor m_resume) auto
next
  case (4 p T s g f t)
  then have "(\<lambda>x. pending ((f(t := wake (f t))) x)) = (\<lambda>x. pending (f x))" by auto
  with 4 show ?case by simp
qed

context sync_monitor begin

lemma monitor_inv:
  "valid p T \<Longrightarrow> reach (ob p) sp T (s0 p) g0 c \<Longrightarrow>
   I p T (shared c) (ghost c) (\<lambda>x. pending (status c x))"
  by (cases sp) (auto dest: mon.reachable_inv reach_mono [of "ob p" T "s0 p" g0 c True])

lemma monitor_not_aborted: "valid p T \<Longrightarrow> reach (ob p) sp T (s0 p) g0 c \<Longrightarrow> \<not> aborted c"
  by (cases sp) (auto dest: mon.reachable_not_aborted reach_mono [of "ob p" T "s0 p" g0 c True])

end

section \<open>No lost wake-ups\<close>

text \<open>
  A lock with one condition variable loses no wake-up when it makes threads wait only while it is
  held, and signals whenever an operation leaves it free and somebody else is inside an operation.
  \<open>hands_over free cv others sec\<close> says so of one section; the conclusion is about the threads: if
  the lock is free and a thread is blocked, some thread has been woken and has yet to run.
\<close>

fun hands_over :: "('s \<Rightarrow> bool) \<Rightarrow> 'cv \<Rightarrow> bool \<Rightarrow> ('s, 'r, 'cv, 'k) sect \<Rightarrow> bool" where
  "hands_over free cv others (Unlocked s r ss) \<longleftrightarrow>
     (free s \<and> others \<longrightarrow> (\<exists>ss'. ss = Signal cv # ss' \<or> ss = Broadcast cv # ss'))"
| "hands_over free cv others (CvWait s cv' k ss) \<longleftrightarrow> \<not> free s \<and> cv' = cv"
| "hands_over free cv others Aborted \<longleftrightarrow> True"

definition others_wait :: "tid set \<Rightarrow> tid \<Rightarrow> (tid \<Rightarrow> 'k option) \<Rightarrow> bool" where
  "others_wait T t w \<longleftrightarrow> (\<exists>u\<in>T. u \<noteq> t \<and> w u \<noteq> None)"

definition awake :: "(tid \<Rightarrow> ('cv, 'k) thread_status) \<Rightarrow> bool" where
  "awake f \<longleftrightarrow> (\<exists>t. is_blocked (f t)) \<longrightarrow> (\<exists>t. is_woken (f t))"

definition waits_on_only :: "tid set \<Rightarrow> 'cv \<Rightarrow> (tid \<Rightarrow> ('cv, 'k) thread_status) \<Rightarrow> bool" where
  "waits_on_only T cv f \<longleftrightarrow>
     (\<forall>t. t \<notin> T \<longrightarrow> f t = Running) \<and> (\<forall>t. is_blocked (f t) \<longrightarrow> blocked_on cv (f t))"

lemma waits_on_only_wakes:
  assumes "waits_on_only T cv f" and "wakes ss (f(t := Running)) h"
  shows "waits_on_only T cv h"
  unfolding waits_on_only_def
proof (intro conjI allI impI)
  fix u assume "u \<notin> T"
  then show "h u = Running"
    using assms wakes_running [OF assms(2), of u] by (simp add: waits_on_only_def)
next
  fix u assume u: "is_blocked (h u)"
  from wakes_blocked_same [OF assms(2) u] u have "h u = f u" by (auto split: if_splits)
  with u assms(1) show "blocked_on cv (h u)" by (simp add: waits_on_only_def)
qed

lemma awake_after_handover:
  assumes only: "waits_on_only T cv f" and wakes: "wakes ss (f(t := Running)) h"
    and signal: "others_wait T t (\<lambda>x. pending (f x)) \<Longrightarrow>
      \<exists>ss'. ss = Signal cv # ss' \<or> ss = Broadcast cv # ss'"
  shows "awake h"
  unfolding awake_def
proof
  assume "\<exists>u. is_blocked (h u)"
  then obtain u where u: "is_blocked (h u)" ..
  from wakes_blocked_same [OF wakes u] u have "h u = f u" and ut: "u \<noteq> t"
    by (auto split: if_splits)
  then have fu: "blocked_on cv (f u)" "u \<in> T"
    using u only by (auto simp: waits_on_only_def)
  then have "others_wait T t (\<lambda>x. pending (f x))"
    using ut by (auto simp: others_wait_def blocked_on_iff)
  then obtain ss' where ss: "ss = Signal cv # ss' \<or> ss = Broadcast cv # ss'" using signal by blast
  have "blocked_on cv (h u)" using fu \<open>h u = f u\<close> by simp
  then have "\<not> wakes (Broadcast cv # ss') (f(t := Running)) h"
    using wakes_broadcast_all [of cv ss' "f(t := Running)" h u] by blast
  with ss have "wakes (Signal cv # ss') (f(t := Running)) h" using wakes by metis
  from wakes_signal_some [OF this, of u] fu ut obtain v where
    "blocked_on cv ((f(t := Running)) v)" "h v = wake ((f(t := Running)) v)" by auto
  then show "\<exists>v. is_woken (h v)" by (metis is_woken_wake is_blocked_iff)
qed

locale sync_lock = sync_monitor valid ob s0 g0 I
  for valid :: "'p \<Rightarrow> tid set \<Rightarrow> bool"
    and ob :: "'p \<Rightarrow> ('s, 'g, 'op, 'k, 'cv, 'r) obj"
    and s0 :: "'p \<Rightarrow> 's" and g0 :: 'g
    and I :: "'p \<Rightarrow> tid set \<Rightarrow> 's \<Rightarrow> (tid \<Rightarrow> 'g) \<Rightarrow> (tid \<Rightarrow> 'k option) \<Rightarrow> bool" +
  fixes free :: "'s \<Rightarrow> bool" and cv :: 'cv
  assumes l_call: "\<And>p T s g w t op. valid p T \<Longrightarrow> I p T s g w \<Longrightarrow> t \<in> T \<Longrightarrow> w t = None \<Longrightarrow>
      may_call (ob p) (g t) op \<Longrightarrow> hands_over free cv (others_wait T t w) (enter (ob p) t op s)"
    and l_resume: "\<And>p T s g w t k. valid p T \<Longrightarrow> I p T s g w \<Longrightarrow> t \<in> T \<Longrightarrow> w t = Some k \<Longrightarrow>
      hands_over free cv (others_wait T t w) (resume (ob p) t k s)"

text \<open>What the lock adds to the invariant of the monitor.\<close>

definition lock_awake :: "('s \<Rightarrow> bool) \<Rightarrow> 'cv \<Rightarrow> tid set \<Rightarrow> 's \<Rightarrow>
  (tid \<Rightarrow> ('cv, 'k) thread_status) \<Rightarrow> bool" where
  "lock_awake free cv T s f \<longleftrightarrow> waits_on_only T cv f \<and> (free s \<longrightarrow> awake f)"

lemma keeps_lock_awake:
  assumes "keeps_monitor ob I t g (\<lambda>x. pending (f x)) sec"
    and "hands_over free cv (others_wait T t (\<lambda>x. pending (f x))) sec"
    and "waits_on_only T cv f" and "t \<in> T"
  shows "keeps ob (\<lambda>s g f. I s g (\<lambda>x. pending (f x)) \<and> lock_awake free cv T s f) t g f sec"
proof (cases sec)
  case (Unlocked s r ss)
  have "lock_awake free cv T s h" if h: "wakes ss (f(t := Running)) h" for h
  proof (unfold lock_awake_def, intro conjI impI)
    show "waits_on_only T cv h" by (rule waits_on_only_wakes [OF assms(3) h])
    assume "free s"
    then show "awake h"
      using assms(2) Unlocked by (intro awake_after_handover [OF assms(3) h]) auto
  qed
  with keeps_of_monitor [OF assms(1)] Unlocked show ?thesis by simp
next
  case (CvWait s cv' k ss)
  then have "\<not> free s" "cv' = cv" using assms(2) by auto
  moreover have "waits_on_only T cv (h(t := Blocked cv k))" if "wakes ss (f(t := Running)) h" for h
    using waits_on_only_wakes [OF assms(3) that] assms(4) by (auto simp: waits_on_only_def)
  ultimately show ?thesis
    using keeps_of_monitor [OF assms(1)] CvWait by (simp add: lock_awake_def)
next
  case Aborted
  with assms(1) show ?thesis by simp
qed

sublocale sync_lock \<subseteq> lock: sync_object valid ob True s0 g0
  "\<lambda>p T s g f. I p T s g (\<lambda>x. pending (f x)) \<and> lock_awake free cv T s f"
proof (unfold_locales, goal_cases)
  case (1 p T)
  then show ?case
    using m_initially by (simp add: lock_awake_def waits_on_only_def awake_def)
next
  case (2 p T s g f t op)
  then show ?case
    by (intro keeps_lock_awake m_call l_call) (auto simp: lock_awake_def)
next
  case (3 p T s g f t k)
  then show ?case
    by (intro keeps_lock_awake m_resume l_resume) (auto simp: lock_awake_def)
next
  case (4 p T s g f t)
  then have "(\<lambda>x. pending ((f(t := wake (f t))) x)) = (\<lambda>x. pending (f x))" by auto
  moreover have "is_woken ((f(t := wake (f t))) t)" using 4 by (simp add: is_woken_wake)
  ultimately show ?case
    using 4 by (auto simp: lock_awake_def waits_on_only_def awake_def)
qed

context sync_lock begin

lemma no_lost_wakeup:
  assumes "valid p T" and "reach (ob p) sp T (s0 p) g0 c"
    and "free (shared c)" and "is_blocked (status c t)"
  shows "\<exists>u\<in>T. is_woken (status c u)"
proof -
  have "reach (ob p) True T (s0 p) g0 c"
    using assms(2) reach_mono [of "ob p" T "s0 p" g0 c True] by (cases sp) auto
  from lock.reachable_inv [OF assms(1) this]
  have "waits_on_only T cv (status c)" "awake (status c)"
    using assms(3) by (auto simp: lock_awake_def)
  then obtain u where "is_woken (status c u)" using assms(4) by (auto simp: awake_def)
  moreover from this \<open>waits_on_only T cv (status c)\<close> have "u \<in> T"
    by (metis waits_on_only_def is_woken.simps(2))
  ultimately show ?thesis by blast
qed

end

text \<open>
  A lock that broadcasts whenever it becomes free leaves nobody blocked while it is free: every
  thread inside an operation is then awake.
\<close>

fun hands_over_all :: "('s \<Rightarrow> bool) \<Rightarrow> 'cv \<Rightarrow> bool \<Rightarrow> ('s, 'r, 'cv, 'k) sect \<Rightarrow> bool" where
  "hands_over_all free cv others (Unlocked s r ss) \<longleftrightarrow>
     (free s \<and> others \<longrightarrow> (\<exists>ss'. ss = Broadcast cv # ss'))"
| "hands_over_all free cv others (CvWait s cv' k ss) \<longleftrightarrow> \<not> free s \<and> cv' = cv"
| "hands_over_all free cv others Aborted \<longleftrightarrow> True"

lemma hands_over_all_some: "hands_over_all free cv others sec \<Longrightarrow> hands_over free cv others sec"
  by (cases sec) auto

definition none_blocked :: "(tid \<Rightarrow> ('cv, 'k) thread_status) \<Rightarrow> bool" where
  "none_blocked f \<longleftrightarrow> (\<forall>t. \<not> is_blocked (f t))"

definition gate_open :: "('s \<Rightarrow> bool) \<Rightarrow> 'cv \<Rightarrow> tid set \<Rightarrow> 's \<Rightarrow>
  (tid \<Rightarrow> ('cv, 'k) thread_status) \<Rightarrow> bool" where
  "gate_open free cv T s f \<longleftrightarrow> waits_on_only T cv f \<and> (free s \<longrightarrow> none_blocked f)"

lemma none_blocked_after_broadcast:
  assumes only: "waits_on_only T cv f" and wakes: "wakes ss (f(t := Running)) h"
    and signal: "others_wait T t (\<lambda>x. pending (f x)) \<Longrightarrow> \<exists>ss'. ss = Broadcast cv # ss'"
  shows "none_blocked h"
  unfolding none_blocked_def
proof (intro allI notI)
  fix u assume u: "is_blocked (h u)"
  from wakes_blocked_same [OF wakes u] u have "h u = f u" and ut: "u \<noteq> t"
    by (auto split: if_splits)
  then have fu: "blocked_on cv (f u)" "u \<in> T"
    using u only by (auto simp: waits_on_only_def)
  then have "others_wait T t (\<lambda>x. pending (f x))"
    using ut by (auto simp: others_wait_def blocked_on_iff)
  then obtain ss' where "ss = Broadcast cv # ss'" using signal by blast
  with wakes have "wakes (Broadcast cv # ss') (f(t := Running)) h" by simp
  from wakes_broadcast_all [OF this, of u] fu \<open>h u = f u\<close> show False by simp
qed

lemma keeps_gate_open:
  assumes "keeps_monitor ob I t g (\<lambda>x. pending (f x)) sec"
    and "hands_over_all free cv (others_wait T t (\<lambda>x. pending (f x))) sec"
    and "waits_on_only T cv f" and "t \<in> T"
  shows "keeps ob (\<lambda>s g f. I s g (\<lambda>x. pending (f x)) \<and> gate_open free cv T s f) t g f sec"
proof (cases sec)
  case (Unlocked s r ss)
  have "gate_open free cv T s h" if h: "wakes ss (f(t := Running)) h" for h
    using waits_on_only_wakes [OF assms(3) h] none_blocked_after_broadcast [OF assms(3) h]
      assms(2) Unlocked by (auto simp: gate_open_def)
  with keeps_of_monitor [OF assms(1)] Unlocked show ?thesis by simp
next
  case (CvWait s cv' k ss)
  then have "\<not> free s" "cv' = cv" using assms(2) by auto
  moreover have "waits_on_only T cv (h(t := Blocked cv k))" if "wakes ss (f(t := Running)) h" for h
    using waits_on_only_wakes [OF assms(3) that] assms(4) by (auto simp: waits_on_only_def)
  ultimately show ?thesis
    using keeps_of_monitor [OF assms(1)] CvWait by (simp add: gate_open_def)
next
  case Aborted
  with assms(1) show ?thesis by simp
qed

locale broadcast_lock = sync_monitor valid ob s0 g0 I
  for valid :: "'p \<Rightarrow> tid set \<Rightarrow> bool"
    and ob :: "'p \<Rightarrow> ('s, 'g, 'op, 'k, 'cv, 'r) obj"
    and s0 :: "'p \<Rightarrow> 's" and g0 :: 'g
    and I :: "'p \<Rightarrow> tid set \<Rightarrow> 's \<Rightarrow> (tid \<Rightarrow> 'g) \<Rightarrow> (tid \<Rightarrow> 'k option) \<Rightarrow> bool" +
  fixes free :: "'s \<Rightarrow> bool" and cv :: 'cv
  assumes b_call: "\<And>p T s g w t op. valid p T \<Longrightarrow> I p T s g w \<Longrightarrow> t \<in> T \<Longrightarrow> w t = None \<Longrightarrow>
      may_call (ob p) (g t) op \<Longrightarrow> hands_over_all free cv (others_wait T t w) (enter (ob p) t op s)"
    and b_resume: "\<And>p T s g w t k. valid p T \<Longrightarrow> I p T s g w \<Longrightarrow> t \<in> T \<Longrightarrow> w t = Some k \<Longrightarrow>
      hands_over_all free cv (others_wait T t w) (resume (ob p) t k s)"

sublocale broadcast_lock \<subseteq> sync_lock valid ob s0 g0 I free cv
  by unfold_locales (auto intro!: hands_over_all_some b_call b_resume)

sublocale broadcast_lock \<subseteq> gate: sync_object valid ob True s0 g0
  "\<lambda>p T s g f. I p T s g (\<lambda>x. pending (f x)) \<and> gate_open free cv T s f"
proof (unfold_locales, goal_cases)
  case (1 p T)
  then show ?case
    using m_initially by (simp add: gate_open_def waits_on_only_def none_blocked_def)
next
  case (2 p T s g f t op)
  then show ?case
    by (intro keeps_gate_open m_call b_call) (auto simp: gate_open_def)
next
  case (3 p T s g f t k)
  then show ?case
    by (intro keeps_gate_open m_resume b_resume) (auto simp: gate_open_def)
next
  case (4 p T s g f t)
  then have "(\<lambda>x. pending ((f(t := wake (f t))) x)) = (\<lambda>x. pending (f x))" by auto
  then show ?case
    using 4 by (auto simp: gate_open_def waits_on_only_def none_blocked_def)
qed

context broadcast_lock begin

lemma free_none_blocked:
  assumes "valid p T" and "reach (ob p) sp T (s0 p) g0 c" and "free (shared c)"
  shows "pending (status c t) = Some k \<longleftrightarrow> status c t = Woken k"
proof -
  have "reach (ob p) True T (s0 p) g0 c"
    using assms(2) reach_mono [of "ob p" T "s0 p" g0 c True] by (cases sp) auto
  from gate.reachable_inv [OF assms(1) this] have "\<not> is_blocked (status c t)"
    using assms(3) by (auto simp: gate_open_def none_blocked_def)
  then show ?thesis by (cases "status c t") auto
qed

end

section \<open>Objects with several condition variables\<close>

text \<open>When the point at which a thread waits determines its condition variable, the invariant of an
  object may speak of the blocked and the woken threads separately, one section at a time.\<close>

definition waits_as :: "tid set \<Rightarrow> ('k \<Rightarrow> 'cv) \<Rightarrow> (tid \<Rightarrow> ('cv, 'k) thread_status) \<Rightarrow> bool" where
  "waits_as T cv_of f \<longleftrightarrow>
     (\<forall>t. t \<notin> T \<longrightarrow> f t = Running) \<and> (\<forall>t cv k. f t = Blocked cv k \<longrightarrow> cv = cv_of k)"

lemma waits_as_wakes:
  assumes "waits_as T cv_of f" and "wakes ss (f(t := Running)) h"
  shows "waits_as T cv_of h"
  unfolding waits_as_def
proof (intro conjI allI impI)
  fix u assume "u \<notin> T"
  then show "h u = Running"
    using assms wakes_running [OF assms(2), of u] by (simp add: waits_as_def)
next
  fix u cv k assume u: "h u = Blocked cv k"
  then have "h u = f u" using wakes_blocked_same [OF assms(2), of u] by (auto split: if_splits)
  with u assms(1) show "cv = cv_of k" by (auto simp: waits_as_def)
qed

lemma waits_as_block: "waits_as T cv_of f \<Longrightarrow> t \<in> T \<Longrightarrow> waits_as T cv_of (f(t := Blocked (cv_of k) k))"
  by (auto simp: waits_as_def)

lemma waits_as_wake: "waits_as T cv_of f \<Longrightarrow> waits_as T cv_of (f(t := wake (f t)))"
  by (cases "f t") (auto simp: waits_as_def)

lemma waits_as_initially [simp]: "waits_as T cv_of (\<lambda>_. Running)"
  by (simp add: waits_as_def)

lemma waits_as_mem: "waits_as T cv_of f \<Longrightarrow> f t \<noteq> Running \<Longrightarrow> t \<in> T"
  by (auto simp: waits_as_def)

lemma waits_as_at: "waits_as T cv_of f \<Longrightarrow> f t = Blocked cv k \<Longrightarrow> cv = cv_of k"
  by (auto simp: waits_as_def)

lemma keeps_conj:
  "keeps ob I t g f sec \<Longrightarrow> keeps ob J t g f sec \<Longrightarrow> keeps ob (\<lambda>s g f. I s g f \<and> J s g f) t g f sec"
  by (cases sec) auto

lemma keeps_mono:
  "keeps ob I t g f sec \<Longrightarrow> (\<And>s g f. I s g f \<Longrightarrow> J s g f) \<Longrightarrow> keeps ob J t g f sec"
  by (cases sec) auto

text \<open>One broadcast wakes exactly the threads blocked on its condition variable.\<close>

lemma wake_all_blocked [simp]: "blocked_on cv (wake_all cv' f t) \<longleftrightarrow> cv \<noteq> cv' \<and> blocked_on cv (f t)"
  by (cases "f t") (auto simp: wake_all_def)

lemma wake_all_woken: "wake_all cv f t = Woken k \<longleftrightarrow> f t = Woken k \<or> f t = Blocked cv k"
  by (cases "f t") (auto simp: wake_all_def)

text \<open>One signal, as an update of the status.\<close>

lemma wake_one_upd: "wake_one u f = f(u := wake (f u))"
  by (auto simp: wake_one_def)

lemma wakes_one_signal:
  "wakes [Signal cv] f h \<longleftrightarrow>
     (if \<exists>t. blocked_on cv (f t) then \<exists>t. blocked_on cv (f t) \<and> h = f(t := wake (f t)) else h = f)"
  by (simp add: wake_one_upd)

lemma waits_as_signal_mem: "waits_as T cv_of f \<Longrightarrow> blocked_on cv (f t) \<Longrightarrow> t \<in> T"
  by (rule waits_as_mem) auto

section \<open>Counting the waiters\<close>

text \<open>The number of threads that wait inside an operation at a point \<open>P\<close> selects: what the code
  keeps in its \<open>n_waited\<close>, \<open>n_reader_waiting\<close>, \<open>thread_wait_count\<close> fields.\<close>

definition waiters :: "tid set \<Rightarrow> ('k \<Rightarrow> bool) \<Rightarrow> (tid \<Rightarrow> 'k option) \<Rightarrow> nat" where
  "waiters T P w = count_threads T (\<lambda>x. \<exists>k. x = Some k \<and> P k) w"

named_theorems waiter_simps

lemma waiters_add [waiter_simps]:
  "finite T \<Longrightarrow> t \<in> T \<Longrightarrow> w t = None \<Longrightarrow> P k \<Longrightarrow>
   waiters T P (w(t := Some k)) = Suc (waiters T P w)"
  unfolding waiters_def by (rule count_threads_add) auto

lemma waiters_add_other [waiter_simps]:
  "w t = None \<Longrightarrow> \<not> P k \<Longrightarrow> waiters T P (w(t := Some k)) = waiters T P w"
  unfolding waiters_def by (rule count_threads_keep) auto

lemma waiters_none [waiter_simps]: "w t = None \<Longrightarrow> waiters T P (w(t := None)) = waiters T P w"
  by (simp add: fun_upd_idem)

lemma waiters_leave:
  "finite T \<Longrightarrow> t \<in> T \<Longrightarrow> w t = Some k \<Longrightarrow> P k \<Longrightarrow>
   waiters T P w = Suc (waiters T P (w(t := None)))"
  unfolding waiters_def by (rule count_threads_del [symmetric]) auto

lemma waiters_leave_word [waiter_simps]:
  "finite T \<Longrightarrow> t \<in> T \<Longrightarrow> w t = Some k \<Longrightarrow> P k \<Longrightarrow>
   (of_nat (waiters T P w) :: 'a::len word) - 1 = of_nat (waiters T P (w(t := None)))"
  by (subst waiters_leave) auto

lemma waiters_back_word [waiter_simps]:
  "finite T \<Longrightarrow> t \<in> T \<Longrightarrow> w t = Some k \<Longrightarrow> P k \<Longrightarrow>
   (of_nat (waiters T P (w(t := None))) :: 'a::len word) + 1 = of_nat (waiters T P w)"
  by (subst (2) waiters_leave) auto

lemma waiters_leave_other [waiter_simps]:
  "w t = Some k \<Longrightarrow> \<not> P k \<Longrightarrow> waiters T P (w(t := None)) = waiters T P w"
  unfolding waiters_def by (rule count_threads_keep) auto

lemma waiters_again [waiter_simps]:
  "w t = Some k \<Longrightarrow> (P k' \<longleftrightarrow> P k) \<Longrightarrow> waiters T P (w(t := Some k')) = waiters T P w"
  unfolding waiters_def by (rule count_threads_keep) auto

lemma waiters_le: "finite T \<Longrightarrow> waiters T P w \<le> card T"
  unfolding waiters_def by (rule count_threads_le)

lemma waiters_pos: "finite T \<Longrightarrow> 0 < waiters T P w \<longleftrightarrow> (\<exists>t\<in>T. \<exists>k. w t = Some k \<and> P k)"
  unfolding waiters_def by (rule count_threads_pos)

lemma waiters_initially [simp]: "waiters T P (\<lambda>_. None) = 0"
  by (simp add: waiters_def count_threads_def)

text \<open>The threads of a run: finitely many, none numbered 0, few enough for a 16-bit count.\<close>

definition thread_ids :: "tid set \<Rightarrow> bool" where
  "thread_ids T \<longleftrightarrow> finite T \<and> 0 \<notin> T \<and> card T < 65536"

lemma thread_ids_finite [dest]: "thread_ids T \<Longrightarrow> finite T"
  by (simp add: thread_ids_def)

lemma thread_ids_card: "thread_ids T \<Longrightarrow> card T < 65536"
  by (simp add: thread_ids_def)

lemma thread_ids_nonzero: "thread_ids T \<Longrightarrow> t \<in> T \<Longrightarrow> t \<noteq> 0"
  by (metis thread_ids_def)

lemma waiters_u16_zero:
  assumes "thread_ids T"
  shows "(of_nat (waiters T P w) = (0::u16)) \<longleftrightarrow> waiters T P w = 0"
proof (rule of_nat_word16_eq_0)
  show "waiters T P w < 65536"
    using waiters_le [of T P w] thread_ids_finite [OF assms] thread_ids_card [OF assms] by simp
qed

end
