(* ===== verification/Schedules.thy ===== *)
theory Schedules
  imports Pthreads
begin

text \<open>
  Executable runs of an object: a schedule says which thread moves, how, and which waiter each
  signal wakes. \<open>execute\<close> runs a schedule and fails where it asks for a step the semantics does not
  have; what it returns is reachable (\<open>execute_reach\<close>). The concrete runs of the library (witnesses,
  deadlocks, the effect of a spurious wake-up) are schedules.
\<close>

datatype 'op event =
    Call tid 'op "tid list"
  | Continue tid "tid list"
  | Spurious tid

fun deliver :: "tid list \<Rightarrow> 'cv wakeup list \<Rightarrow> tid list \<Rightarrow>
  (tid \<Rightarrow> ('cv, 'k) thread_status) \<Rightarrow> (tid \<Rightarrow> ('cv, 'k) thread_status) option" where
  "deliver ts [] picks f = Some f"
| "deliver ts (Broadcast cv # ss) picks f = deliver ts ss picks (wake_all cv f)"
| "deliver ts (Signal cv # ss) picks f =
     (if list_ex (\<lambda>t. blocked_on cv (f t)) ts
      then (case picks of [] \<Rightarrow> None
            | u # picks' \<Rightarrow> if blocked_on cv (f u) then deliver ts ss picks' (wake_one u f) else None)
      else deliver ts ss picks f)"

fun complete :: "('s, 'g, 'op, 'k, 'cv, 'r) obj \<Rightarrow> tid list \<Rightarrow> tid \<Rightarrow> tid list \<Rightarrow>
  ('s, 'r, 'cv, 'k) sect \<Rightarrow> ('s, 'g, 'k, 'cv) config \<Rightarrow> ('s, 'g, 'k, 'cv) config option" where
  "complete ob ts t picks (Unlocked s r ss) c =
     map_option (\<lambda>f. c\<lparr>shared := s, ghost := (ghost c)(t := on_return ob r (ghost c t)), status := f\<rparr>)
       (deliver ts ss picks ((status c)(t := Running)))"
| "complete ob ts t picks (CvWait s cv k ss) c =
     map_option (\<lambda>f. c\<lparr>shared := s, status := f(t := Blocked cv k)\<rparr>)
       (deliver ts ss picks ((status c)(t := Running)))"
| "complete ob ts t picks Aborted c = Some (c\<lparr>aborted := True\<rparr>)"

fun execute1 :: "('s, 'g, 'op, 'k, 'cv, 'r) obj \<Rightarrow> bool \<Rightarrow> tid list \<Rightarrow> 'op event \<Rightarrow>
  ('s, 'g, 'k, 'cv) config \<Rightarrow> ('s, 'g, 'k, 'cv) config option" where
  "execute1 ob sp ts (Call t op picks) c =
     (if \<not> aborted c \<and> t \<in> set ts \<and> pending (status c t) = None \<and> may_call ob (ghost c t) op
      then complete ob ts t picks (enter ob t op (shared c)) c else None)"
| "execute1 ob sp ts (Continue t picks) c =
     (if \<not> aborted c \<and> t \<in> set ts
      then (case status c t of Woken k \<Rightarrow> complete ob ts t picks (resume ob t k (shared c)) c
            | _ \<Rightarrow> None)
      else None)"
| "execute1 ob sp ts (Spurious t) c =
     (if sp \<and> \<not> aborted c \<and> t \<in> set ts \<and> is_blocked (status c t)
      then Some (c\<lparr>status := (status c)(t := wake (status c t))\<rparr>) else None)"

fun execute :: "('s, 'g, 'op, 'k, 'cv, 'r) obj \<Rightarrow> bool \<Rightarrow> tid list \<Rightarrow> 'op event list \<Rightarrow>
  ('s, 'g, 'k, 'cv) config \<Rightarrow> ('s, 'g, 'k, 'cv) config option" where
  "execute ob sp ts [] c = Some c"
| "execute ob sp ts (e # es) c =
     (case execute1 ob sp ts e c of None \<Rightarrow> None | Some d \<Rightarrow> execute ob sp ts es d)"

definition only_in :: "tid list \<Rightarrow> (tid \<Rightarrow> ('cv, 'k) thread_status) \<Rightarrow> bool" where
  "only_in ts f \<longleftrightarrow> (\<forall>t. t \<notin> set ts \<longrightarrow> f t = Running)"

lemma only_in_ex: "only_in ts f \<Longrightarrow> list_ex (\<lambda>t. blocked_on cv (f t)) ts \<longleftrightarrow> (\<exists>t. blocked_on cv (f t))"
  unfolding list_ex_iff only_in_def by (metis blocked_on.simps(2))

lemma deliver_wakes:
  "only_in ts f \<Longrightarrow> deliver ts ss picks f = Some g \<Longrightarrow> wakes ss f g \<and> only_in ts g"
proof (induction ts ss picks f arbitrary: g rule: deliver.induct)
  case (2 ts cv ss picks f)
  have "only_in ts (wake_all cv f)" using "2.prems"(1) by (simp add: only_in_def wake_all_def)
  with 2 show ?case by simp
next
  case (3 ts cv ss picks f)
  show ?case
  proof (cases "list_ex (\<lambda>t. blocked_on cv (f t)) ts")
    case True
    with "3.prems"(2) obtain u picks' where p: "picks = u # picks'" "blocked_on cv (f u)"
        "deliver ts ss picks' (wake_one u f) = Some g"
      by (auto split: list.splits if_splits)
    have "only_in ts (wake_one u f)" using "3.prems"(1) by (simp add: only_in_def wake_one_def)
    from "3.IH"(1) [OF True p(1) p(2) this p(3)] show ?thesis using p(2) by auto
  next
    case False
    with 3 show ?thesis by (simp add: only_in_ex)
  qed
qed simp

lemma complete_finish:
  assumes "only_in ts (status c)" "t \<in> set ts" "complete ob ts t picks sec c = Some d"
  shows "finish ob t sec c d \<and> only_in ts (status d)"
proof -
  have "only_in ts ((status c)(t := Running))" using assms(1) by (simp add: only_in_def)
  note dw = deliver_wakes [OF this]
  show ?thesis
  proof (cases sec)
    case (Unlocked s r ss)
    with assms(3) dw show ?thesis by fastforce
  next
    case (CvWait s cv k ss)
    with assms(2,3) dw show ?thesis by (fastforce simp: only_in_def)
  next
    case Aborted
    with assms(1,3) show ?thesis by auto
  qed
qed

lemma execute1_step:
  assumes "only_in ts (status c)" "execute1 ob sp ts e c = Some d"
  shows "step ob sp (set ts) c d \<and> only_in ts (status d)"
proof (cases e)
  case (Call t op picks)
  with assms(2) have c: "\<not> aborted c" "t \<in> set ts" "status c t = Running" "may_call ob (ghost c t) op"
      "complete ob ts t picks (enter ob t op (shared c)) c = Some d"
    by (auto simp: pending_None split: if_splits)
  from complete_finish [OF assms(1) c(2,5)] c show ?thesis by (blast intro: step.call)
next
  case (Continue t picks)
  with assms(2) obtain k where c: "\<not> aborted c" "t \<in> set ts" "status c t = Woken k"
      "complete ob ts t picks (resume ob t k (shared c)) c = Some d"
    by (auto split: if_splits thread_status.splits)
  from complete_finish [OF assms(1) c(2,4)] c show ?thesis by (blast intro: step.return_from_wait)
next
  case (Spurious t)
  with assms show ?thesis
    by (auto simp: only_in_def intro!: step.spurious split: if_splits)
qed

lemma execute_from:
  "only_in ts (status c) \<Longrightarrow> reach ob sp (set ts) s0 g0 c \<Longrightarrow> execute ob sp ts es c = Some d \<Longrightarrow>
   reach ob sp (set ts) s0 g0 d"
proof (induction es arbitrary: c)
  case (Cons e es)
  then obtain b where b: "execute1 ob sp ts e c = Some b" "execute ob sp ts es b = Some d"
    by (auto split: option.splits)
  from execute1_step [OF Cons.prems(1) b(1)] have "step ob sp (set ts) c b" "only_in ts (status b)"
    by auto
  with Cons.prems(2) b(2) show ?case by (blast intro: Cons.IH reach.reach_step)
qed simp

theorem execute_reach:
  "execute ob sp ts es (start s0 g0) = Some c \<Longrightarrow> reach ob sp (set ts) s0 g0 c"
  by (rule execute_from [OF _ reach.reach_start]) (simp_all add: only_in_def start_def)

text \<open>A run that is evaluated through a view of its last configuration.\<close>

lemma execute_shows:
  assumes "map_option view (execute ob sp ts es (start s0 g0)) = Some v"
  obtains c where "reach ob sp (set ts) s0 g0 c" "view c = v"
proof -
  obtain c where c: "execute ob sp ts es (start s0 g0) = Some c" "view c = v"
    using assms unfolding map_option_eq_Some by blast
  show thesis by (rule that [OF execute_reach [OF c(1)] c(2)])
qed

end
