(* ===== verification/RecMutex.thy ===== *)
theory RecMutex
  imports Schedules
begin

text \<open>
  The recursive mutex of \<^verbatim>\<open>recursive_mutex/rec_mutex.c\<close>: the four operations as critical
  sections, the invariant that ties \<open>n\<close>, \<open>locking_thread\<close> and \<open>n_waited\<close> to the threads, mutual
  exclusion, the absence of lost wake-ups, and the behaviour at the end of the 16-bit counter.
\<close>

section \<open>The code\<close>

record rec_mutex =
  rm_n :: u16
  rm_locking_thread :: tid
  rm_n_waited :: u16

datatype rec_mutex_cv = Rm_cv
datatype rec_mutex_wait = Rm_lock_wait
datatype rec_mutex_result = Rm_locked | Rm_unlocked

type_synonym rec_mutex_sect = "(rec_mutex, rec_mutex_result, rec_mutex_cv, rec_mutex_wait) sect"

text \<open>\<^verbatim>\<open>pthread_t\<close> values are thread numbers; the code uses 0 for "no thread", so no thread of a
  run has number 0.\<close>

definition rec_mutex_init :: "rec_mutex \<Rightarrow> rec_mutex" where
  "rec_mutex_init m = m\<lparr>rm_n := 0, rm_locking_thread := 0, rm_n_waited := 0\<rparr>"

text \<open>The loop of case 3 and what follows it: tested on entry and again after each wait.\<close>

definition rec_mutex_lock_case3 :: "tid \<Rightarrow> rec_mutex \<Rightarrow> rec_mutex_sect" where
  [sync_defs]: "rec_mutex_lock_case3 self m =
     (if rm_locking_thread m \<noteq> 0 \<and> rm_locking_thread m \<noteq> self
      then CvWait (m\<lparr>rm_n_waited := rm_n_waited m + 1\<rparr>) Rm_cv Rm_lock_wait []
      else check (rm_n m = 0) (check (rm_locking_thread m = 0)
             (Unlocked (m\<lparr>rm_n := 1, rm_locking_thread := self\<rparr>) Rm_locked [])))"

definition rec_mutex_lock :: "tid \<Rightarrow> rec_mutex \<Rightarrow> rec_mutex_sect" where
  [sync_defs]: "rec_mutex_lock self m =
     (if rm_n m = 0
      then check (rm_locking_thread m = 0)
             (Unlocked (m\<lparr>rm_n := 1, rm_locking_thread := self\<rparr>) Rm_locked [])
      else if rm_locking_thread m = self
      then check (rm_n m \<noteq> 0) (Unlocked (m\<lparr>rm_n := rm_n m + 1\<rparr>) Rm_locked [])
      else rec_mutex_lock_case3 self m)"

definition rec_mutex_lock_resume :: "tid \<Rightarrow> rec_mutex \<Rightarrow> rec_mutex_sect" where
  [sync_defs]: "rec_mutex_lock_resume self m =
     rec_mutex_lock_case3 self (m\<lparr>rm_n_waited := rm_n_waited m - 1\<rparr>)"

text \<open>
  \<^verbatim>\<open>rec_mutex_unlock\<close>. With \<open>n = 0\<close> it always aborts. For a thread that is not the owner
  (case 3) the body of the loop is \<^verbatim>\<open>assert(0)\<close>; the loop is skipped only when nobody owns the
  mutex, which \<open>n \<noteq> 0\<close> excludes in every state the operations produce, and then the code would
  return with \<^verbatim>\<open>state_mutex\<close> still locked: every other thread would wait forever. That branch
  is given the value \<open>Aborted\<close> too, as a path that never releases the object.
\<close>

definition rec_mutex_unlock :: "tid \<Rightarrow> rec_mutex \<Rightarrow> rec_mutex_sect" where
  [sync_defs]: "rec_mutex_unlock self m =
     (if rm_n m = 0 then Aborted
      else if rm_locking_thread m = self
      then check (rm_n m \<noteq> 0)
             (let m1 = m\<lparr>rm_n := rm_n m - 1\<rparr> in
              if rm_n m1 > 0 then Unlocked m1 Rm_unlocked []
              else Unlocked (m1\<lparr>rm_locking_thread := 0\<rparr>) Rm_unlocked
                     (if rm_n_waited m1 \<noteq> 0 then [Signal Rm_cv] else []))
      else Aborted)"

definition rec_mutex_destroy :: "rec_mutex \<Rightarrow> bool" where
  "rec_mutex_destroy m \<longleftrightarrow> rm_n m = 0 \<and> rm_locking_thread m = 0 \<and> rm_n_waited m = 0"

section \<open>The object\<close>

datatype rec_mutex_op = Rm_lock | Rm_unlock

text \<open>The ghost value of a thread is its recursion depth; the clients unlock only what they locked
  and nest at most \<open>D\<close> locks.\<close>

fun rec_mutex_enter :: "tid \<Rightarrow> rec_mutex_op \<Rightarrow> rec_mutex \<Rightarrow> rec_mutex_sect" where
  "rec_mutex_enter self Rm_lock m = rec_mutex_lock self m"
| "rec_mutex_enter self Rm_unlock m = rec_mutex_unlock self m"

fun rec_mutex_resume :: "tid \<Rightarrow> rec_mutex_wait \<Rightarrow> rec_mutex \<Rightarrow> rec_mutex_sect" where
  "rec_mutex_resume self Rm_lock_wait m = rec_mutex_lock_resume self m"

fun rec_mutex_client :: "nat \<Rightarrow> nat \<Rightarrow> rec_mutex_op \<Rightarrow> bool" where
  "rec_mutex_client D d Rm_lock \<longleftrightarrow> d < D"
| "rec_mutex_client D d Rm_unlock \<longleftrightarrow> 0 < d"

fun rec_mutex_depth :: "rec_mutex_result \<Rightarrow> nat \<Rightarrow> nat" where
  "rec_mutex_depth Rm_locked d = Suc d"
| "rec_mutex_depth Rm_unlocked d = d - 1"

definition rec_mutex_obj :: "nat \<Rightarrow>
  (rec_mutex, nat, rec_mutex_op, rec_mutex_wait, rec_mutex_cv, rec_mutex_result) obj" where
  "rec_mutex_obj D = \<lparr>enter = rec_mutex_enter, resume = rec_mutex_resume,
     may_call = rec_mutex_client D, on_return = rec_mutex_depth\<rparr>"

lemma rec_mutex_obj_simps [simp]:
  "enter (rec_mutex_obj D) = rec_mutex_enter" "resume (rec_mutex_obj D) = rec_mutex_resume"
  "may_call (rec_mutex_obj D) = rec_mutex_client D" "on_return (rec_mutex_obj D) = rec_mutex_depth"
  by (simp_all add: rec_mutex_obj_def)

section \<open>The invariant\<close>

definition rec_mutex_owned :: "tid set \<Rightarrow> nat \<Rightarrow> rec_mutex \<Rightarrow> (tid \<Rightarrow> nat) \<Rightarrow> bool" where
  "rec_mutex_owned T D m g \<longleftrightarrow>
     (if rm_locking_thread m = 0 then rm_n m = 0 \<and> (\<forall>t\<in>T. g t = 0)
      else rm_locking_thread m \<in> T \<and> 0 < g (rm_locking_thread m) \<and> g (rm_locking_thread m) \<le> D \<and>
           rm_n m = of_nat (g (rm_locking_thread m)) \<and>
           (\<forall>t\<in>T. t \<noteq> rm_locking_thread m \<longrightarrow> g t = 0))"

lemma rec_mutex_owner: "rec_mutex_owned T D m g \<Longrightarrow> t \<in> T \<Longrightarrow> 0 < g t \<Longrightarrow> rm_locking_thread m = t"
  by (auto simp: rec_mutex_owned_def split: if_splits)

lemma rec_mutex_wait_eq: "k = Rm_lock_wait"
  by (cases k) simp

definition rec_mutex_inv ::
  "tid set \<Rightarrow> nat \<Rightarrow> rec_mutex \<Rightarrow> (tid \<Rightarrow> nat) \<Rightarrow> (tid \<Rightarrow> rec_mutex_wait option) \<Rightarrow> bool" where
  "rec_mutex_inv T D m g w \<longleftrightarrow> rec_mutex_owned T D m g \<and>
     rm_n_waited m = of_nat (waiters T (\<lambda>_. True) w) \<and>
     (\<forall>t\<in>T. w t \<noteq> None \<longrightarrow> g t = 0)"

lemma rec_mutex_lock_keeps:
  assumes "thread_ids T" "D < 65536"
    and "rec_mutex_inv T D m g w" "t \<in> T" "w t = None" "g t < D"
  shows "keeps_monitor (rec_mutex_obj D) (rec_mutex_inv T D) t g w (rec_mutex_lock t m)"
proof -
  have T: "finite T" "t \<noteq> 0" using assms(1,4) thread_ids_nonzero by auto
  consider "rm_locking_thread m = 0" | "rm_locking_thread m = t" "t \<noteq> 0"
    | "rm_locking_thread m \<noteq> t" "rm_locking_thread m \<noteq> 0" using T by auto
  then show ?thesis
    using assms(2-) T
    by cases (simp_all add: sync_defs rec_mutex_inv_def rec_mutex_owned_def waiter_simps
        of_nat_word16_eq_0)
qed

lemma rec_mutex_resume_keeps:
  assumes "thread_ids T" "D < 65536" "0 < D"
    and "rec_mutex_inv T D m g w" "t \<in> T" "w t = Some Rm_lock_wait"
  shows "keeps_monitor (rec_mutex_obj D) (rec_mutex_inv T D) t g w (rec_mutex_lock_resume t m)"
proof -
  have T: "finite T" "t \<noteq> 0" using assms(1,5) thread_ids_nonzero by auto
  consider "rm_locking_thread m = 0" | "rm_locking_thread m = t" "t \<noteq> 0"
    | "rm_locking_thread m \<noteq> t" "rm_locking_thread m \<noteq> 0" using T by auto
  moreover have "g t = 0" using assms(4-6) by (simp add: rec_mutex_inv_def)
  ultimately show ?thesis
    using assms(2-) T
    by cases (simp_all add: sync_defs rec_mutex_inv_def rec_mutex_owned_def waiter_simps)
qed

lemma rec_mutex_unlock_keeps:
  assumes "thread_ids T" "D < 65536"
    and "rec_mutex_inv T D m g w" "t \<in> T" "w t = None" "0 < g t"
  shows "keeps_monitor (rec_mutex_obj D) (rec_mutex_inv T D) t g w (rec_mutex_unlock t m)"
proof -
  have T: "finite T" "t \<noteq> 0" using assms(1,4) thread_ids_nonzero by auto
  have own: "rm_locking_thread m = t"
    using assms(3,4,6) by (auto simp: rec_mutex_inv_def rec_mutex_owned_def split: if_splits)
  obtain d where d: "g t = Suc d" using assms(6) by (cases "g t") auto
  have "Suc d < 65536" using own T assms(2,3) d
    by (simp add: rec_mutex_inv_def rec_mutex_owned_def)
  then have "(1::u16) + of_nat d \<noteq> 0" "d \<noteq> 0 \<Longrightarrow> of_nat d \<noteq> (0::u16)"
    using of_nat_word16_eq_0 [of "Suc d"] of_nat_word16_eq_0 [of d] by simp_all
  then show ?thesis
    using assms(2-) T own d
    by (cases "d = 0") (simp_all add: sync_defs rec_mutex_inv_def rec_mutex_owned_def waiter_simps
        of_nat_word16_eq_0 word_gt_0)
qed

text \<open>The runs covered: any set of threads a 16-bit count can hold, nesting at most \<open>D\<close> deep, on a
  mutex that \<^verbatim>\<open>rec_mutex_init\<close> has set up in memory of any content.\<close>

definition rec_mutex_valid :: "nat \<times> rec_mutex \<Rightarrow> tid set \<Rightarrow> bool" where
  "rec_mutex_valid p T \<longleftrightarrow> thread_ids T \<and> 0 < fst p \<and> fst p < 65536"

interpretation rec_mutex: sync_monitor rec_mutex_valid "\<lambda>p. rec_mutex_obj (fst p)"
  "\<lambda>p. rec_mutex_init (snd p)" 0 "\<lambda>p T. rec_mutex_inv T (fst p)"
proof (unfold_locales, goal_cases)
  case (1 p T)
  then show ?case
    by (simp add: rec_mutex_inv_def rec_mutex_owned_def rec_mutex_init_def)
next
  case (2 p T s g w t op)
  then show ?case
    by (cases op) (auto simp: rec_mutex_valid_def intro!: rec_mutex_lock_keeps rec_mutex_unlock_keeps)
next
  case (3 p T s g w t k)
  then show ?case
    by (cases k) (auto simp: rec_mutex_valid_def intro!: rec_mutex_resume_keeps)
qed

text \<open>Nobody waits while the mutex is free, and an unlock that frees it signals a waiter.\<close>

lemma rec_mutex_others_counted:
  assumes "rec_mutex_inv T D m g w" "thread_ids T" "t \<in> T" "w t = None" "others_wait T t w"
  shows "rm_n_waited m \<noteq> 0"
proof -
  have "0 < waiters T (\<lambda>_. True) w"
    using assms(2,5) by (auto simp: waiters_pos thread_ids_finite others_wait_def)
  then show ?thesis using assms(1,2) by (simp add: rec_mutex_inv_def waiters_u16_zero)
qed

definition rec_mutex_free :: "rec_mutex \<Rightarrow> bool" where
  "rec_mutex_free m \<longleftrightarrow> rm_locking_thread m = 0"

interpretation rec_lock: sync_lock rec_mutex_valid "\<lambda>p. rec_mutex_obj (fst p)"
  "\<lambda>p. rec_mutex_init (snd p)" 0 "\<lambda>p T. rec_mutex_inv T (fst p)" rec_mutex_free Rm_cv
proof (unfold_locales, goal_cases)
  case (1 p T s g w t op)
  then have "others_wait T t w \<Longrightarrow> rm_n_waited s \<noteq> 0" "t \<noteq> 0"
    using rec_mutex_others_counted [of T "fst p" s g w t] thread_ids_nonzero
    by (auto simp: rec_mutex_valid_def)
  then show ?case
    by (cases op) (auto simp: sync_defs rec_mutex_free_def Let_def)
next
  case (2 p T s g w t k)
  then have "t \<noteq> 0" using thread_ids_nonzero by (auto simp: rec_mutex_valid_def)
  then show ?case
    by (cases k) (auto simp: sync_defs rec_mutex_free_def)
qed

section \<open>Properties\<close>

text \<open>C4. Mutual exclusion: in every execution, spurious wake-ups included, of threads that unlock
  only what they locked and nest at most \<open>D < 2^16\<close> locks, no assertion of the code fails. Either nobody
  owns the recursive mutex, and then \<^verbatim>\<open>locking_thread\<close> and \<^verbatim>\<open>n\<close> are 0, or exactly one thread
  does, and then \<^verbatim>\<open>locking_thread\<close> names it and \<^verbatim>\<open>n\<close> is its recursion depth. \<^verbatim>\<open>n_waited\<close>
  counts the threads that wait, and a thread that waits owns nothing.\<close>

theorem rec_mutex_mutual_exclusion:
  assumes "thread_ids T" "0 < D" "D < 65536"
    and run: "reach (rec_mutex_obj D) sp T (rec_mutex_init m) 0 c"
  shows "\<not> aborted c \<and>
    (if \<forall>t\<in>T. ghost c t = 0 then rm_locking_thread (shared c) = 0 \<and> rm_n (shared c) = 0
     else \<exists>t\<in>T. rm_locking_thread (shared c) = t \<and> t \<noteq> 0 \<and> 0 < ghost c t \<and> ghost c t \<le> D \<and>
            rm_n (shared c) = of_nat (ghost c t) \<and> (\<forall>u\<in>T. u \<noteq> t \<longrightarrow> ghost c u = 0)) \<and>
    rm_n_waited (shared c) = of_nat (card {t \<in> T. pending (status c t) \<noteq> None}) \<and>
    (\<forall>t\<in>T. pending (status c t) \<noteq> None \<longrightarrow> ghost c t = 0)"
proof -
  have v: "rec_mutex_valid (D, m) T" using assms(1-3) by (simp add: rec_mutex_valid_def)
  have inv: "rec_mutex_inv T D (shared c) (ghost c) (\<lambda>x. pending (status c x))"
    using rec_mutex.monitor_inv [OF v] run by simp
  have "waiters T (\<lambda>_. True) w = card {t \<in> T. w t \<noteq> None}" for w :: "tid \<Rightarrow> rec_mutex_wait option"
    by (auto simp: waiters_def count_threads_def intro: arg_cong [of _ _ card])
  moreover have "\<not> aborted c" using rec_mutex.monitor_not_aborted [OF v] run by simp
  ultimately show ?thesis using inv
    by (cases "rm_locking_thread (shared c) = 0") (auto simp: rec_mutex_inv_def rec_mutex_owned_def)
qed

lemma rec_mutex_threads: "thread_ids {1, 2}"
  by (simp add: thread_ids_def)

theorem rec_mutex_mutual_exclusion_witness:
  "\<exists>c. execute (rec_mutex_obj 2) True [1, 2] [Call 1 Rm_lock [], Call 2 Rm_lock [], Call 1 Rm_lock [], Spurious 2,
           Continue 2 [], Call 1 Rm_unlock [], Call 1 Rm_unlock [2], Continue 2 [], Call 2 Rm_unlock [], Call 1 Rm_lock []]
         (start (rec_mutex_init \<lparr>rm_n = 7, rm_locking_thread = 5, rm_n_waited = 3\<rparr>) 0) = Some c \<and>
       \<not> aborted c \<and> rm_locking_thread (shared c) = 1 \<and> rm_n (shared c) = 1 \<and> ghost c 2 = 0"
proof -
  let ?m = "\<lparr>rm_n = 7, rm_locking_thread = 5, rm_n_waited = 3\<rparr>"
  let ?run = "execute (rec_mutex_obj 2) True [1, 2] [Call 1 Rm_lock [], Call 2 Rm_lock [], Call 1 Rm_lock [], Spurious 2,
      Continue 2 [], Call 1 Rm_unlock [], Call 1 Rm_unlock [2], Continue 2 [], Call 2 Rm_unlock [], Call 1 Rm_lock []]
    (start (rec_mutex_init ?m) 0)"
  obtain c where c: "?run = Some c" "ghost c 1 = 1"
    by (simp add: start_def rec_mutex_init_def sync_defs wake_one_def)
  have "reach (rec_mutex_obj 2) True {1, 2} (rec_mutex_init ?m) 0 c" using execute_reach [OF c(1)] by simp
  from rec_mutex_mutual_exclusion [OF rec_mutex_threads _ _ this] c(2)
  have "\<not> aborted c \<and> rm_locking_thread (shared c) = 1 \<and> rm_n (shared c) = 1 \<and> ghost c 2 = 0"
    by (cases "ghost c 2 = 0") (auto simp del: One_nat_def)
  with c(1) show ?thesis by blast
qed

text \<open>No lost wake-up: in every execution, whenever the recursive mutex is free while some
  thread is blocked in \<^verbatim>\<open>rec_mutex_lock\<close>, a thread has been woken and, run next, acquires the
  mutex.\<close>

theorem rec_mutex_no_lost_wakeup:
  assumes "thread_ids T" "0 < D" "D < 65536"
    and run: "reach (rec_mutex_obj D) sp T (rec_mutex_init m) 0 c"
    and "rm_locking_thread (shared c) = 0" "is_blocked (status c t)"
  shows "\<exists>u\<in>T. status c u = Woken Rm_lock_wait \<and>
    rec_mutex_resume u Rm_lock_wait (shared c) =
      Unlocked ((shared c)\<lparr>rm_n := 1, rm_locking_thread := u,
        rm_n_waited := rm_n_waited (shared c) - 1\<rparr>) Rm_locked []"
proof -
  have v: "rec_mutex_valid (D, m) T" using assms(1-3) by (simp add: rec_mutex_valid_def)
  have "rec_mutex_free (shared c)" using assms(5) by (simp add: rec_mutex_free_def)
  then obtain u where u: "u \<in> T" "is_woken (status c u)"
    using rec_lock.no_lost_wakeup [OF v _ _ assms(6)] run by auto
  have "rm_n (shared c) = 0"
    using rec_mutex.monitor_inv [OF v] run assms(5)
    by (simp add: rec_mutex_inv_def rec_mutex_owned_def)
  then show ?thesis
    using u assms(5) by (cases "status c u") (auto simp: sync_defs rec_mutex_wait_eq intro!: bexI [of _ u])
qed

theorem rec_mutex_no_lost_wakeup_witness:
  "\<exists>c. execute (rec_mutex_obj 1) False [1, 2, 3]
         [Call 1 Rm_lock [], Call 2 Rm_lock [], Call 3 Rm_lock [], Call 1 Rm_unlock [3]]
         (start (rec_mutex_init \<lparr>rm_n = 7, rm_locking_thread = 5, rm_n_waited = 3\<rparr>) 0) = Some c \<and>
       is_blocked (status c 2) \<and> (\<exists>u\<in>{1, 2, 3}. status c u = Woken Rm_lock_wait)"
proof -
  let ?run = "execute (rec_mutex_obj 1) False [1, 2, 3]
    [Call 1 Rm_lock [], Call 2 Rm_lock [], Call 3 Rm_lock [], Call 1 Rm_unlock [3]]
    (start (rec_mutex_init \<lparr>rm_n = 7, rm_locking_thread = 5, rm_n_waited = 3\<rparr>) 0)"
  obtain c where c: "?run = Some c" "is_blocked (status c 2)" "rm_locking_thread (shared c) = 0"
    by (simp add: start_def rec_mutex_init_def sync_defs wake_one_def)
  have "thread_ids {1, 2, 3}" by (simp add: thread_ids_def)
  from rec_mutex_no_lost_wakeup [OF this, of 1 False "\<lparr>rm_n = 7, rm_locking_thread = 5, rm_n_waited = 3\<rparr>" c 2] execute_reach [OF c(1)] c
  show ?thesis by auto
qed

text \<open>Ownership of the unlock: \<^verbatim>\<open>rec_mutex_unlock\<close> by a thread that is not the owner fails an
  assertion in every state, and by the owner it decrements the depth, releasing the mutex and
  signalling a waiter exactly when the depth reaches 0.\<close>

theorem rec_mutex_unlock_spec:
  "rec_mutex_unlock self m =
    (if rm_n m = 0 then Aborted
     else if rm_locking_thread m = self
     then (if rm_n m = 1
           then Unlocked (m\<lparr>rm_n := 0, rm_locking_thread := 0\<rparr>) Rm_unlocked
                  (if rm_n_waited m = 0 then [] else [Signal Rm_cv])
           else Unlocked (m\<lparr>rm_n := rm_n m - 1\<rparr>) Rm_unlocked [])
     else Aborted)"
  by (auto simp: sync_defs Let_def word_gt_0)

text \<open>The bound on the depth is needed: the 65536th nested lock by the owner wraps \<^verbatim>\<open>n\<close> to 0
  with \<^verbatim>\<open>locking_thread\<close> still set, and from that state every further lock or unlock, by any
  thread, fails an assertion.\<close>

theorem rec_mutex_depth_overflow:
  "rec_mutex_lock self \<lparr>rm_n = 65535, rm_locking_thread = self, rm_n_waited = k\<rparr> =
     Unlocked \<lparr>rm_n = 0, rm_locking_thread = self, rm_n_waited = k\<rparr> Rm_locked [] \<and>
   (self \<noteq> 0 \<longrightarrow> (\<forall>other op. rec_mutex_enter other op
      \<lparr>rm_n = 0, rm_locking_thread = self, rm_n_waited = k\<rparr> = Aborted))"
proof -
  have "rec_mutex_enter other op \<lparr>rm_n = 0, rm_locking_thread = self, rm_n_waited = k\<rparr> = Aborted"
    if "self \<noteq> 0" for other op
    using that by (cases op) (simp_all add: sync_defs)
  then show ?thesis by (simp add: sync_defs)
qed

theorem rec_mutex_depth_overflow_witness:
  "rec_mutex_enter 2 Rm_lock \<lparr>rm_n = 0, rm_locking_thread = 1, rm_n_waited = 0\<rparr> = Aborted"
  using rec_mutex_depth_overflow [of 1 0] by simp

end
