(* ===== verification/RwSpec.thy ===== *)
theory RwSpec
  imports Schedules
begin

text \<open>
  What the three read-write locks of the repository have in common: the operations, what a thread
  can hold, and the contract (readers exclude writers, and neither exceeds its limit), stated once
  as a locale that each lock's model interprets.
\<close>

datatype rw_op = Rd_lock | Wr_lock | Rw_unlock
datatype rw_result = Rd_granted | Wr_granted | Rw_released
datatype rw_wait = Rd_wait | Wr_wait

text \<open>What a thread holds: a number of read locks and a number of write locks. The client may
  acquire in any order, while it holds fewer than \<open>D\<close> locks, and unlocks only what it holds.\<close>

type_synonym rw_held = "nat \<times> nat"

definition held_locks :: "rw_held \<Rightarrow> nat" where
  "held_locks h = fst h + snd h"

fun rw_client :: "nat \<Rightarrow> rw_held \<Rightarrow> rw_op \<Rightarrow> bool" where
  "rw_client D h Rd_lock \<longleftrightarrow> held_locks h < D"
| "rw_client D h Wr_lock \<longleftrightarrow> held_locks h < D"
| "rw_client D h Rw_unlock \<longleftrightarrow> 0 < held_locks h"

fun rw_hold :: "rw_result \<Rightarrow> rw_held \<Rightarrow> rw_held" where
  "rw_hold Rd_granted (r, w) = (Suc r, w)"
| "rw_hold Wr_granted (r, w) = (r, Suc w)"
| "rw_hold Rw_released (r, w) = (if 0 < w then (r, w - 1) else (r - 1, w))"

definition rd_holds :: "tid set \<Rightarrow> (tid \<Rightarrow> rw_held) \<Rightarrow> nat" where
  "rd_holds T g = sum_threads T fst g"

definition wr_holds :: "tid set \<Rightarrow> (tid \<Rightarrow> rw_held) \<Rightarrow> nat" where
  "wr_holds T g = sum_threads T snd g"

definition rw_exclusive :: "tid set \<Rightarrow> nat \<Rightarrow> nat \<Rightarrow> (tid \<Rightarrow> rw_held) \<Rightarrow> bool" where
  "rw_exclusive T maxr maxw g \<longleftrightarrow>
     (rd_holds T g = 0 \<or> wr_holds T g = 0) \<and> rd_holds T g \<le> maxr \<and> wr_holds T g \<le> maxw"

section \<open>How the holds change\<close>

named_theorems hold_simps

lemma rd_holds_grant_rd [hold_simps]:
  "finite T \<Longrightarrow> t \<in> T \<Longrightarrow> rd_holds T (g(t := rw_hold Rd_granted (g t))) = Suc (rd_holds T g)"
  using sum_threads_upd [of T t fst g "rw_hold Rd_granted (g t)"]
  by (cases "g t") (simp add: rd_holds_def)

lemma wr_holds_grant_rd [hold_simps]:
  "finite T \<Longrightarrow> t \<in> T \<Longrightarrow> wr_holds T (g(t := rw_hold Rd_granted (g t))) = wr_holds T g"
  using sum_threads_upd [of T t snd g "rw_hold Rd_granted (g t)"]
  by (cases "g t") (simp add: wr_holds_def)

lemma rd_holds_grant_wr [hold_simps]:
  "finite T \<Longrightarrow> t \<in> T \<Longrightarrow> rd_holds T (g(t := rw_hold Wr_granted (g t))) = rd_holds T g"
  using sum_threads_upd [of T t fst g "rw_hold Wr_granted (g t)"]
  by (cases "g t") (simp add: rd_holds_def)

lemma wr_holds_grant_wr [hold_simps]:
  "finite T \<Longrightarrow> t \<in> T \<Longrightarrow> wr_holds T (g(t := rw_hold Wr_granted (g t))) = Suc (wr_holds T g)"
  using sum_threads_upd [of T t snd g "rw_hold Wr_granted (g t)"]
  by (cases "g t") (simp add: wr_holds_def)

lemma holds_release_wr:
  assumes "finite T" "t \<in> T" "0 < snd (g t)"
  shows "rd_holds T (g(t := rw_hold Rw_released (g t))) = rd_holds T g"
    and "Suc (wr_holds T (g(t := rw_hold Rw_released (g t)))) = wr_holds T g"
  using sum_threads_upd [OF assms(1,2), of fst g "rw_hold Rw_released (g t)"]
    sum_threads_upd [OF assms(1,2), of snd g "rw_hold Rw_released (g t)"] assms(3)
  by (cases "g t"; simp add: rd_holds_def wr_holds_def)+

lemma holds_release_rd:
  assumes "finite T" "t \<in> T" "snd (g t) = 0" "0 < fst (g t)"
  shows "Suc (rd_holds T (g(t := rw_hold Rw_released (g t)))) = rd_holds T g"
    and "wr_holds T (g(t := rw_hold Rw_released (g t))) = wr_holds T g"
  using sum_threads_upd [OF assms(1,2), of fst g "rw_hold Rw_released (g t)"]
    sum_threads_upd [OF assms(1,2), of snd g "rw_hold Rw_released (g t)"] assms(3,4)
  by (cases "g t"; simp add: rd_holds_def wr_holds_def)+

lemma holds_initially [simp]: "rd_holds T (\<lambda>_. (0, 0)) = 0" "wr_holds T (\<lambda>_. (0, 0)) = 0"
  by (simp_all add: rd_holds_def wr_holds_def sum_threads_def)

lemma rd_holds_ge: "finite T \<Longrightarrow> t \<in> T \<Longrightarrow> fst (g t) \<le> rd_holds T g"
  unfolding rd_holds_def by (rule sum_threads_ge)

lemma wr_holds_ge: "finite T \<Longrightarrow> t \<in> T \<Longrightarrow> snd (g t) \<le> wr_holds T g"
  unfolding wr_holds_def by (rule sum_threads_ge)

lemma wr_holds_0: "finite T \<Longrightarrow> wr_holds T g = 0 \<longleftrightarrow> (\<forall>t\<in>T. snd (g t) = 0)"
  unfolding wr_holds_def by (rule sum_threads_eq_0)

lemma rd_holds_0: "finite T \<Longrightarrow> rd_holds T g = 0 \<longleftrightarrow> (\<forall>t\<in>T. fst (g t) = 0)"
  unfolding rd_holds_def by (rule sum_threads_eq_0)

text \<open>Every thread within its limit keeps the totals within the range of the 16-bit counters.\<close>

definition rw_bounded :: "tid set \<Rightarrow> nat \<Rightarrow> (tid \<Rightarrow> rw_held) \<Rightarrow> bool" where
  "rw_bounded T D g \<longleftrightarrow> (\<forall>t\<in>T. held_locks (g t) \<le> D)"

lemma rw_bounded_total:
  assumes "rw_bounded T D g"
  shows "rd_holds T g + wr_holds T g \<le> card T * D"
proof -
  have "rd_holds T g + wr_holds T g = sum_threads T held_locks g"
    by (simp add: rd_holds_def wr_holds_def sum_threads_def held_locks_def sum.distrib)
  also have "\<dots> \<le> card T * D"
    using assms by (intro sum_threads_bound) (simp add: rw_bounded_def)
  finally show ?thesis .
qed

lemma rw_bounded_hold:
  assumes "rw_bounded T D g" "r = Rw_released \<or> held_locks (g t) < D"
  shows "rw_bounded T D (g(t := rw_hold r (g t)))"
  using assms by (cases "g t"; cases r) (auto simp: rw_bounded_def held_locks_def)

section \<open>The contract\<close>

locale rw_lock_contract = sync_monitor valid ob s0 "(0, 0)" I
  for valid :: "'p \<Rightarrow> tid set \<Rightarrow> bool"
    and ob :: "'p \<Rightarrow> ('s, rw_held, rw_op, rw_wait, 'cv, rw_result) obj"
    and s0 :: "'p \<Rightarrow> 's"
    and I :: "'p \<Rightarrow> tid set \<Rightarrow> 's \<Rightarrow> (tid \<Rightarrow> rw_held) \<Rightarrow> (tid \<Rightarrow> rw_wait option) \<Rightarrow> bool" +
  fixes maxr maxw :: "'p \<Rightarrow> tid set \<Rightarrow> nat"
  assumes exclusive: "\<And>p T s g w. valid p T \<Longrightarrow> I p T s g w \<Longrightarrow>
      finite T \<and> rw_exclusive T (maxr p T) (maxw p T) g"
begin

lemma always_exclusive:
  "valid p T \<Longrightarrow> reach (ob p) sp T (s0 p) (0, 0) c \<Longrightarrow>
   \<not> aborted c \<and> rw_exclusive T (maxr p T) (maxw p T) (ghost c)"
  using exclusive monitor_inv monitor_not_aborted by blast

lemma writer_alone:
  assumes "valid p T" "reach (ob p) sp T (s0 p) (0, 0) c" "t \<in> T" "u \<in> T" "0 < snd (ghost c t)"
  shows "fst (ghost c u) = 0"
proof -
  have "finite T" "rw_exclusive T (maxr p T) (maxw p T) (ghost c)"
    using exclusive [OF assms(1) monitor_inv [OF assms(1,2)]] by auto
  then show ?thesis
    using wr_holds_ge [of T t "ghost c"] rd_holds_ge [of T u "ghost c"] assms(3-5)
    by (auto simp: rw_exclusive_def)
qed

end

end
