(* ===== verification/RwLock.thy ===== *)
theory RwLock
  imports RwSpec
begin

text \<open>
  The recursive read-write lock of \<^verbatim>\<open>rw_locks/rw_locks.c\<close>: one condition variable, a count of
  the locks held, the thread that holds the write lock.
\<close>

section \<open>The code\<close>

record rw_lock =
  rw_n_locks :: u16
  rw_n_reader_waiting :: u16
  rw_n_writer_waiting :: u16
  rw_is_locked_by_reader :: bool
  rw_is_locked_by_writer :: bool
  rw_writer_thread :: tid

datatype rw_cv = Rw_cv

type_synonym rw_sect = "(rw_lock, rw_result, rw_cv, rw_wait) sect"

text \<open>\<^verbatim>\<open>rw_lock_init\<close> does not write \<open>n_locks\<close>: it keeps what the memory held.\<close>

definition rw_lock_init :: "rw_lock \<Rightarrow> rw_lock" where
  "rw_lock_init s = s\<lparr>rw_n_reader_waiting := 0, rw_n_writer_waiting := 0,
     rw_is_locked_by_reader := False, rw_is_locked_by_writer := False, rw_writer_thread := 0\<rparr>"

text \<open>Case 3 of \<^verbatim>\<open>rw_lock_rd_lock\<close>: the loop and what follows it.\<close>

definition rw_lock_rd_case3 :: "rw_lock \<Rightarrow> rw_sect" where
  [sync_defs]: "rw_lock_rd_case3 s =
     (if rw_is_locked_by_writer s
      then check (rw_n_locks s \<noteq> 0) (check (\<not> rw_is_locked_by_reader s)
             (check (rw_writer_thread s \<noteq> 0)
               (CvWait (s\<lparr>rw_n_reader_waiting := rw_n_reader_waiting s + 1\<rparr>) Rw_cv Rd_wait [])))
      else let s1 = (if rw_n_locks s = 0 then s\<lparr>rw_is_locked_by_reader := True\<rparr> else s);
               s2 = s1\<lparr>rw_n_locks := rw_n_locks s1 + 1\<rparr>
           in check (\<not> rw_is_locked_by_writer s2) (check (rw_writer_thread s2 = 0)
                (Unlocked s2 Rd_granted [])))"

definition rw_lock_rd_lock :: "rw_lock \<Rightarrow> rw_sect" where
  [sync_defs]: "rw_lock_rd_lock s =
     (if \<not> rw_is_locked_by_reader s \<and> \<not> rw_is_locked_by_writer s
      then check (rw_n_locks s = 0) (check (\<not> rw_is_locked_by_reader s)
             (check (\<not> rw_is_locked_by_writer s) (check (rw_writer_thread s = 0)
               (Unlocked (s\<lparr>rw_n_locks := rw_n_locks s + 1, rw_is_locked_by_reader := True\<rparr>)
                  Rd_granted []))))
      else if rw_is_locked_by_reader s
      then check (\<not> rw_is_locked_by_writer s) (check (rw_n_locks s \<noteq> 0)
             (check (rw_writer_thread s = 0)
               (Unlocked (s\<lparr>rw_n_locks := rw_n_locks s + 1\<rparr>) Rd_granted [])))
      else rw_lock_rd_case3 s)"

definition rw_lock_rd_lock_resume :: "rw_lock \<Rightarrow> rw_sect" where
  [sync_defs]: "rw_lock_rd_lock_resume s =
     rw_lock_rd_case3 (s\<lparr>rw_n_reader_waiting := rw_n_reader_waiting s - 1\<rparr>)"

definition rw_lock_wakeups :: "rw_lock \<Rightarrow> rw_cv wakeup list" where
  [sync_defs]: "rw_lock_wakeups s =
     (if rw_n_reader_waiting s \<noteq> 0 \<or> rw_n_writer_waiting s \<noteq> 0 then [Broadcast Rw_cv] else [])"

definition rw_lock_unlock :: "tid \<Rightarrow> rw_lock \<Rightarrow> rw_sect" where
  [sync_defs]: "rw_lock_unlock self s =
     check (rw_n_locks s \<noteq> 0)
       (if rw_is_locked_by_writer s
        then check (self = rw_writer_thread s) (check (\<not> rw_is_locked_by_reader s)
               (let s1 = s\<lparr>rw_n_locks := rw_n_locks s - 1\<rparr> in
                if rw_n_locks s1 \<noteq> 0 then Unlocked s1 Rw_released []
                else Unlocked (s1\<lparr>rw_is_locked_by_writer := False, rw_writer_thread := 0\<rparr>)
                       Rw_released (rw_lock_wakeups s1)))
        else if rw_is_locked_by_reader s
        then check (\<not> rw_is_locked_by_writer s) (check (rw_writer_thread s = 0)
               (let s1 = s\<lparr>rw_n_locks := rw_n_locks s - 1\<rparr> in
                if rw_n_locks s1 \<noteq> 0 then Unlocked s1 Rw_released []
                else Unlocked (s1\<lparr>rw_is_locked_by_reader := False\<rparr>)
                       Rw_released (rw_lock_wakeups s1)))
        else Aborted)"

text \<open>Case 3 of \<^verbatim>\<open>rw_lock_wr_lock\<close>.\<close>

definition rw_lock_wr_case3 :: "tid \<Rightarrow> rw_lock \<Rightarrow> rw_sect" where
  [sync_defs]: "rw_lock_wr_case3 self s =
     (let wait = CvWait (s\<lparr>rw_n_writer_waiting := rw_n_writer_waiting s + 1\<rparr>) Rw_cv Wr_wait [] in
      if rw_is_locked_by_reader s
      then check (\<not> rw_is_locked_by_writer s) (check (rw_n_locks s \<noteq> 0)
             (check (rw_writer_thread s = 0) wait))
      else if rw_is_locked_by_writer s
      then check (\<not> rw_is_locked_by_reader s) (check (rw_n_locks s \<noteq> 0)
             (check (rw_writer_thread s \<noteq> 0) wait))
      else check (\<not> rw_is_locked_by_reader s) (check (\<not> rw_is_locked_by_writer s)
             (check (rw_n_locks s = 0) (check (rw_writer_thread s = 0)
               (Unlocked (s\<lparr>rw_is_locked_by_writer := True, rw_n_locks := rw_n_locks s + 1,
                  rw_writer_thread := self\<rparr>) Wr_granted [])))))"

definition rw_lock_wr_lock :: "tid \<Rightarrow> rw_lock \<Rightarrow> rw_sect" where
  [sync_defs]: "rw_lock_wr_lock self s =
     (if \<not> rw_is_locked_by_reader s \<and> \<not> rw_is_locked_by_writer s
      then check (rw_n_locks s = 0) (check (\<not> rw_is_locked_by_reader s)
             (check (\<not> rw_is_locked_by_writer s) (check (rw_writer_thread s = 0)
               (Unlocked (s\<lparr>rw_n_locks := rw_n_locks s + 1, rw_is_locked_by_writer := True,
                  rw_writer_thread := self\<rparr>) Wr_granted []))))
      else if rw_is_locked_by_writer s \<and> rw_writer_thread s = self
      then check (\<not> rw_is_locked_by_reader s) (check (rw_n_locks s \<noteq> 0)
             (Unlocked (s\<lparr>rw_n_locks := rw_n_locks s + 1\<rparr>) Wr_granted []))
      else rw_lock_wr_case3 self s)"

definition rw_lock_wr_lock_resume :: "tid \<Rightarrow> rw_lock \<Rightarrow> rw_sect" where
  [sync_defs]: "rw_lock_wr_lock_resume self s =
     rw_lock_wr_case3 self (s\<lparr>rw_n_writer_waiting := rw_n_writer_waiting s - 1\<rparr>)"

definition rw_lock_destroy :: "rw_lock \<Rightarrow> bool" where
  "rw_lock_destroy s \<longleftrightarrow> rw_n_locks s = 0 \<and> rw_n_reader_waiting s = 0 \<and>
     rw_n_writer_waiting s = 0 \<and> \<not> rw_is_locked_by_writer s \<and> \<not> rw_is_locked_by_reader s \<and>
     rw_writer_thread s = 0"

section \<open>The object\<close>

fun rw_lock_enter :: "tid \<Rightarrow> rw_op \<Rightarrow> rw_lock \<Rightarrow> rw_sect" where
  "rw_lock_enter self Rd_lock s = rw_lock_rd_lock s"
| "rw_lock_enter self Wr_lock s = rw_lock_wr_lock self s"
| "rw_lock_enter self Rw_unlock s = rw_lock_unlock self s"

fun rw_lock_resume :: "tid \<Rightarrow> rw_wait \<Rightarrow> rw_lock \<Rightarrow> rw_sect" where
  "rw_lock_resume self Rd_wait s = rw_lock_rd_lock_resume s"
| "rw_lock_resume self Wr_wait s = rw_lock_wr_lock_resume self s"

definition rw_lock_obj :: "nat \<Rightarrow> (rw_lock, rw_held, rw_op, rw_wait, rw_cv, rw_result) obj" where
  "rw_lock_obj D = \<lparr>enter = rw_lock_enter, resume = rw_lock_resume,
     may_call = rw_client D, on_return = rw_hold\<rparr>"

lemma rw_lock_obj_simps [simp]:
  "enter (rw_lock_obj D) = rw_lock_enter" "resume (rw_lock_obj D) = rw_lock_resume"
  "may_call (rw_lock_obj D) = rw_client D" "on_return (rw_lock_obj D) = rw_hold"
  by (simp_all add: rw_lock_obj_def)

section \<open>The invariant\<close>

text \<open>Which threads hold what, in each of the three modes of the lock.\<close>

definition rw_mode :: "tid set \<Rightarrow> rw_lock \<Rightarrow> (tid \<Rightarrow> rw_held) \<Rightarrow> bool" where
  "rw_mode T s g \<longleftrightarrow>
     (if rw_is_locked_by_writer s
      then \<not> rw_is_locked_by_reader s \<and> rw_writer_thread s \<in> T \<and>
           0 < wr_holds T g \<and> rd_holds T g = 0 \<and>
           (\<forall>t\<in>T. t \<noteq> rw_writer_thread s \<longrightarrow> snd (g t) = 0)
      else rw_writer_thread s = 0 \<and> wr_holds T g = 0 \<and>
           (rw_is_locked_by_reader s \<longleftrightarrow> 0 < rd_holds T g))"

definition rw_counts :: "tid set \<Rightarrow> rw_lock \<Rightarrow> (tid \<Rightarrow> rw_held) \<Rightarrow> (tid \<Rightarrow> rw_wait option) \<Rightarrow> bool" where
  "rw_counts T s g w \<longleftrightarrow>
     rw_n_locks s = of_nat (rd_holds T g + wr_holds T g) \<and>
     rw_n_reader_waiting s = of_nat (waiters T (\<lambda>k. k = Rd_wait) w) \<and>
     rw_n_writer_waiting s = of_nat (waiters T (\<lambda>k. k = Wr_wait) w)"

definition rw_inv ::
  "tid set \<Rightarrow> nat \<Rightarrow> rw_lock \<Rightarrow> (tid \<Rightarrow> rw_held) \<Rightarrow> (tid \<Rightarrow> rw_wait option) \<Rightarrow> bool" where
  "rw_inv T D s g w \<longleftrightarrow> rw_mode T s g \<and> rw_counts T s g w \<and> rw_bounded T D g \<and>
     (\<forall>t\<in>T. w t \<noteq> None \<longrightarrow> held_locks (g t) < D)"

text \<open>A run: threads that a 16-bit count can hold, with all their locks.\<close>

definition rw_run :: "tid set \<Rightarrow> nat \<Rightarrow> bool" where
  "rw_run T D \<longleftrightarrow> thread_ids T \<and> card T * D < 65536"

lemma rw_total_small:
  assumes "rw_run T D" "rw_inv T D s g w"
  shows "rd_holds T g + wr_holds T g < 65536"
  using assms rw_bounded_total [of T D g] by (simp add: rw_run_def rw_inv_def)

lemma rw_n_locks_zero:
  assumes "rw_run T D" "rw_inv T D s g w"
  shows "rw_n_locks s = 0 \<longleftrightarrow> rd_holds T g + wr_holds T g = 0"
proof -
  have "rw_n_locks s = of_nat (rd_holds T g + wr_holds T g)"
    using assms(2) by (simp add: rw_inv_def rw_counts_def)
  then show ?thesis using of_nat_word16_eq_0 [OF rw_total_small [OF assms]] by simp
qed

lemma rw_modes:
  assumes "rw_run T D" "rw_inv T D s g w"
  obtains (free) "\<not> rw_is_locked_by_reader s" "\<not> rw_is_locked_by_writer s"
      "rw_writer_thread s = 0" "rw_n_locks s = 0" "rd_holds T g = 0" "wr_holds T g = 0"
    | (reading) "rw_is_locked_by_reader s" "\<not> rw_is_locked_by_writer s"
      "rw_writer_thread s = 0" "rw_n_locks s \<noteq> 0" "0 < rd_holds T g" "wr_holds T g = 0"
    | (writing) "\<not> rw_is_locked_by_reader s" "rw_is_locked_by_writer s"
      "rw_writer_thread s \<in> T" "rw_writer_thread s \<noteq> 0" "rw_n_locks s \<noteq> 0"
      "rd_holds T g = 0" "0 < wr_holds T g"
      "\<forall>t\<in>T. t \<noteq> rw_writer_thread s \<longrightarrow> snd (g t) = 0"
proof -
  have mode: "rw_mode T s g" using assms(2) by (simp add: rw_inv_def)
  show ?thesis
  proof (cases "rw_is_locked_by_writer s")
    case True
    then show ?thesis
      using mode rw_n_locks_zero [OF assms] assms(1) thread_ids_nonzero
      by (intro writing) (auto simp: rw_mode_def rw_run_def)
  next
    case False
    then show ?thesis
      using mode rw_n_locks_zero [OF assms]
      by (cases "rw_is_locked_by_reader s"; intro free reading) (auto simp: rw_mode_def)
  qed
qed

text \<open>Granting and releasing, in the counters and in the bound.\<close>

lemmas rw_keeps_simps = sync_defs rw_inv_def rw_mode_def rw_counts_def waiter_simps hold_simps

lemma rw_rd_lock_keeps:
  assumes "rw_run T D" "rw_inv T D s g w" "t \<in> T" "w t = None" "held_locks (g t) < D"
  shows "keeps_monitor (rw_lock_obj D) (rw_inv T D) t g w (rw_lock_rd_lock s)"
proof -
  have T: "finite T" using assms(1) by (auto simp: rw_run_def)
  have b: "rw_bounded T D (g(t := rw_hold Rd_granted (g t)))"
    using assms by (intro rw_bounded_hold) (auto simp: rw_inv_def)
  from assms(1,2) show ?thesis
    by (cases rule: rw_modes) (use assms(2-) T b in \<open>simp_all add: rw_keeps_simps\<close>)
qed

lemma rw_rd_resume_keeps:
  assumes "rw_run T D" "rw_inv T D s g w" "t \<in> T" "w t = Some Rd_wait"
  shows "keeps_monitor (rw_lock_obj D) (rw_inv T D) t g w (rw_lock_rd_lock_resume s)"
proof -
  have T: "finite T" using assms(1) by (auto simp: rw_run_def)
  have h: "held_locks (g t) < D" using assms(2-) by (simp add: rw_inv_def)
  then have b: "rw_bounded T D (g(t := rw_hold Rd_granted (g t)))"
    using assms by (intro rw_bounded_hold) (auto simp: rw_inv_def)
  from assms(1,2) show ?thesis
    by (cases rule: rw_modes) (use assms(2-) T b h in \<open>simp_all add: rw_keeps_simps\<close>)
qed

lemma rw_wr_lock_keeps:
  assumes "rw_run T D" "rw_inv T D s g w" "t \<in> T" "w t = None" "held_locks (g t) < D"
  shows "keeps_monitor (rw_lock_obj D) (rw_inv T D) t g w (rw_lock_wr_lock t s)"
proof -
  have T: "finite T" "t \<noteq> 0" using assms(1,3) thread_ids_nonzero by (auto simp: rw_run_def)
  have b: "rw_bounded T D (g(t := rw_hold Wr_granted (g t)))"
    using assms by (intro rw_bounded_hold) (auto simp: rw_inv_def)
  from assms(1,2) show ?thesis
  proof (cases rule: rw_modes)
    case free
    then show ?thesis using assms(2-) T b by (simp add: rw_keeps_simps wr_holds_0)
  next
    case reading
    then show ?thesis using assms(2-) T b by (simp add: rw_keeps_simps Let_def)
  next
    case writing
    then show ?thesis using assms(2-) T b
      by (cases "rw_writer_thread s = t") (simp_all add: rw_keeps_simps Let_def)
  qed
qed

lemma rw_wr_resume_keeps:
  assumes "rw_run T D" "rw_inv T D s g w" "t \<in> T" "w t = Some Wr_wait"
  shows "keeps_monitor (rw_lock_obj D) (rw_inv T D) t g w (rw_lock_wr_lock_resume t s)"
proof -
  have T: "finite T" "t \<noteq> 0" using assms(1,3) thread_ids_nonzero by (auto simp: rw_run_def)
  have h: "held_locks (g t) < D" using assms(2-) by (simp add: rw_inv_def)
  then have b: "rw_bounded T D (g(t := rw_hold Wr_granted (g t)))"
    using assms by (intro rw_bounded_hold) (auto simp: rw_inv_def)
  from assms(1,2) show ?thesis
  proof (cases rule: rw_modes)
    case free
    then show ?thesis using assms(2-) T b h by (simp add: rw_keeps_simps wr_holds_0 Let_def)
  next
    case reading
    then show ?thesis using assms(2-) T b h by (simp add: rw_keeps_simps Let_def)
  next
    case writing
    then show ?thesis using assms(2-) T b h by (simp add: rw_keeps_simps Let_def)
  qed
qed

text \<open>The counter after a release, as a word.\<close>

lemma rw_unlock_keeps:
  assumes "rw_run T D" "rw_inv T D s g w" "t \<in> T" "w t = None" "0 < held_locks (g t)"
  shows "keeps_monitor (rw_lock_obj D) (rw_inv T D) t g w (rw_lock_unlock t s)"
proof -
  have T: "finite T" "t \<noteq> 0" using assms(1,3) thread_ids_nonzero by (auto simp: rw_run_def)
  let ?g = "g(t := rw_hold Rw_released (g t))"
  have b: "rw_bounded T D ?g" using assms by (intro rw_bounded_hold) (auto simp: rw_inv_def)
  from assms(1,2) show ?thesis
  proof (cases rule: rw_modes)
    case free
    then show ?thesis using assms(3,5) T by (simp add: rd_holds_0 wr_holds_0 held_locks_def)
  next
    case reading
    have own: "snd (g t) = 0" "0 < fst (g t)"
      using reading assms(3,5) T by (auto simp: wr_holds_0 held_locks_def)
    have rel: "Suc (rd_holds T ?g) = rd_holds T g" "wr_holds T ?g = wr_holds T g"
      using holds_release_rd [of T t g] T(1) assms(3) own by auto
    have n: "rw_n_locks s - 1 = of_nat (rd_holds T ?g)" "rd_holds T ?g < 65536"
      using rel assms(2) reading rw_total_small [OF assms(1,2)]
      by (auto simp: rw_inv_def rw_counts_def simp flip: rel(1))
    then show ?thesis using reading assms(2-) T b rel
      by (simp add: rw_keeps_simps Let_def of_nat_word16_eq_0)
  next
    case writing
    have own: "0 < snd (g t)"
      using writing assms(3,5) T by (auto simp: rd_holds_0 held_locks_def)
    then have t: "rw_writer_thread s = t" using writing assms(3) by auto
    have rel: "rd_holds T ?g = rd_holds T g" "Suc (wr_holds T ?g) = wr_holds T g"
      using holds_release_wr [of T t g] T(1) assms(3) own by auto
    have n: "rw_n_locks s - 1 = of_nat (wr_holds T ?g)" "wr_holds T ?g < 65536"
      using rel assms(2) writing rw_total_small [OF assms(1,2)]
      by (auto simp: rw_inv_def rw_counts_def simp flip: rel(2))
    then show ?thesis using writing assms(2-) T b rel t
      by (simp add: rw_keeps_simps Let_def of_nat_word16_eq_0)
  qed
qed

section \<open>The contract and the wake-ups\<close>

text \<open>The runs covered: \<^verbatim>\<open>rw_lock_init\<close> on memory whose \<open>n_locks\<close> is 0.\<close>

definition rw_valid :: "nat \<times> rw_lock \<Rightarrow> tid set \<Rightarrow> bool" where
  "rw_valid p T \<longleftrightarrow> rw_run T (fst p) \<and> rw_n_locks (snd p) = 0"

lemma rw_one_writer:
  assumes "rw_run T D" "rw_inv T D s g w" "t \<in> T" "u \<in> T" "0 < snd (g t)" "0 < snd (g u)"
  shows "t = u"
  using assms(1,2)
proof (cases rule: rw_modes)
  case writing
  then show ?thesis using assms(3-6) by (metis less_numeral_extra(3))
qed (use assms wr_holds_0 [of T g] in \<open>auto simp: rw_run_def\<close>)

lemma rw_writer_depth:
  assumes "rw_run T D" "rw_inv T D s g w"
  shows "wr_holds T g \<le> D"
  using assms
proof (cases rule: rw_modes)
  case writing
  have T: "finite T" using assms(1) by (auto simp: rw_run_def)
  let ?u = "rw_writer_thread s"
  have "wr_holds T g = snd (g ?u) + (\<Sum>t\<in>T - {?u}. snd (g t))"
    using writing T by (simp add: wr_holds_def sum_threads_def sum.remove)
  also have "(\<Sum>t\<in>T - {?u}. snd (g t)) = 0" using writing by simp
  finally show ?thesis using assms(2) writing(3)
    by (auto simp: rw_inv_def rw_bounded_def held_locks_def)
qed simp_all

interpretation rw: rw_lock_contract rw_valid "\<lambda>p. rw_lock_obj (fst p)" "\<lambda>p. rw_lock_init (snd p)"
  "\<lambda>p T. rw_inv T (fst p)" "\<lambda>p T. card T * fst p" "\<lambda>p T. fst p"
proof (unfold_locales, goal_cases)
  case (1 p T)
  then show ?case
    by (simp add: rw_valid_def rw_run_def rw_inv_def rw_mode_def rw_counts_def rw_bounded_def
        rw_lock_init_def held_locks_def)
next
  case (2 p T s g w t op)
  then show ?case
    by (cases op) (auto simp: rw_valid_def intro!: rw_rd_lock_keeps rw_wr_lock_keeps rw_unlock_keeps)
next
  case (3 p T s g w t k)
  then show ?case
    by (cases k) (auto simp: rw_valid_def intro!: rw_rd_resume_keeps rw_wr_resume_keeps)
next
  case (4 p T s g w)
  then have run: "rw_run T (fst p)" and inv: "rw_inv T (fst p) s g w" by (auto simp: rw_valid_def)
  have "rd_holds T g + wr_holds T g \<le> card T * fst p"
    using inv by (intro rw_bounded_total) (simp add: rw_inv_def)
  moreover have "rd_holds T g = 0 \<or> wr_holds T g = 0"
    using run inv by (cases rule: rw_modes) auto
  ultimately show ?case
    using rw_writer_depth [OF run inv] run by (auto simp: rw_exclusive_def rw_run_def)
qed

definition rw_free :: "rw_lock \<Rightarrow> bool" where
  "rw_free s \<longleftrightarrow> \<not> rw_is_locked_by_reader s \<and> \<not> rw_is_locked_by_writer s"

lemma rw_others_counted:
  assumes "rw_run T D" "rw_inv T D s g w" "others_wait T t w"
  shows "rw_n_reader_waiting s \<noteq> 0 \<or> rw_n_writer_waiting s \<noteq> 0"
proof -
  have T: "thread_ids T" using assms(1) by (simp add: rw_run_def)
  from assms(3) obtain u k where u: "u \<in> T" "w u = Some k" by (auto simp: others_wait_def)
  then have "0 < waiters T (\<lambda>k. k = Rd_wait) w \<or> 0 < waiters T (\<lambda>k. k = Wr_wait) w"
    using T by (cases k) (auto simp: waiters_pos thread_ids_finite)
  then show ?thesis
    using assms(2) T by (auto simp: rw_inv_def rw_counts_def waiters_u16_zero)
qed

interpretation rw_lock: broadcast_lock rw_valid "\<lambda>p. rw_lock_obj (fst p)"
  "\<lambda>p. rw_lock_init (snd p)" "(0, 0)" "\<lambda>p T. rw_inv T (fst p)" rw_free Rw_cv
proof (unfold_locales, goal_cases)
  case (1 p T s g w t op)
  then have others: "others_wait T t w \<Longrightarrow> rw_n_reader_waiting s \<noteq> 0 \<or> rw_n_writer_waiting s \<noteq> 0"
    using rw_others_counted by (auto simp: rw_valid_def)
  from 1 have "rw_run T (fst p)" "rw_inv T (fst p) s g w" by (auto simp: rw_valid_def)
  then show ?case
    by (cases rule: rw_modes; cases op) (use others in \<open>auto simp: sync_defs rw_free_def Let_def\<close>)
next
  case (2 p T s g w t k)
  then have "rw_run T (fst p)" "rw_inv T (fst p) s g w" by (auto simp: rw_valid_def)
  then show ?case
    by (cases rule: rw_modes; cases k) (auto simp: sync_defs rw_free_def Let_def)
qed

section \<open>Properties\<close>

text \<open>C3. Readers exclude the writer: in every execution of \<^verbatim>\<open>rw_locks.c\<close>, spurious wake-ups
  included, no assertion fails, readers and a writer never hold the lock together, and all write
  locks belong to one thread, which holds at most its nesting bound \<open>D\<close> of them.\<close>

theorem rw_lock_exclusion:
  assumes "rw_run T D" "rw_n_locks m = 0"
    and run: "reach (rw_lock_obj D) sp T (rw_lock_init m) (0, 0) c"
  shows "\<not> aborted c \<and> rw_exclusive T (card T * D) D (ghost c) \<and>
    (\<forall>t\<in>T. \<forall>u\<in>T. 0 < snd (ghost c t) \<longrightarrow> 0 < snd (ghost c u) \<longrightarrow> t = u)"
proof -
  have v: "rw_valid (D, m) T" using assms(1,2) by (simp add: rw_valid_def)
  have "rw_inv T D (shared c) (ghost c) (\<lambda>x. pending (status c x))"
    using rw.monitor_inv [OF v] run by simp
  then show ?thesis
    using rw.always_exclusive [OF v] run rw_one_writer [OF assms(1)] by auto
qed

theorem rw_lock_exclusion_witness:
  "\<exists>c. execute (rw_lock_obj 2) True [1, 2, 3]
         [Call 1 Rd_lock [], Call 2 Rd_lock [], Call 3 Wr_lock [], Spurious 3, Call 1 Rd_lock []]
         (start (rw_lock_init \<lparr>rw_n_locks = 0, rw_n_reader_waiting = 7, rw_n_writer_waiting = 7,
            rw_is_locked_by_reader = True, rw_is_locked_by_writer = True, rw_writer_thread = 9\<rparr>) (0, 0))
         = Some c \<and> ghost c 1 = (2, 0) \<and> rw_exclusive {1, 2, 3} 6 2 (ghost c)"
proof -
  let ?m = "\<lparr>rw_n_locks = 0, rw_n_reader_waiting = 7, rw_n_writer_waiting = 7,
    rw_is_locked_by_reader = True, rw_is_locked_by_writer = True, rw_writer_thread = 9\<rparr>"
  let ?run = "execute (rw_lock_obj 2) True [1, 2, 3]
    [Call 1 Rd_lock [], Call 2 Rd_lock [], Call 3 Wr_lock [], Spurious 3, Call 1 Rd_lock []]
    (start (rw_lock_init ?m) (0, 0))"
  obtain c where c: "?run = Some c" "ghost c 1 = (2, 0)"
    by (simp add: start_def rw_lock_init_def sync_defs held_locks_def)
  have "rw_run {1, 2, 3} 2" by (simp add: rw_run_def thread_ids_def)
  from rw_lock_exclusion [OF this, of ?m True c] execute_reach [OF c(1)] c show ?thesis by simp
qed

text \<open>No lost wake-up: whenever the lock is held by nobody, no thread is blocked in
  \<^verbatim>\<open>rw_lock_rd_lock\<close> or \<^verbatim>\<open>rw_lock_wr_lock\<close>: each thread inside one of them has been
  woken and, whichever runs first, is granted the lock it asked for.\<close>

theorem rw_lock_no_lost_wakeup:
  assumes "rw_run T D" "rw_n_locks m = 0"
    and run: "reach (rw_lock_obj D) sp T (rw_lock_init m) (0, 0) c"
    and "\<not> rw_is_locked_by_reader (shared c)" "\<not> rw_is_locked_by_writer (shared c)"
    and "pending (status c t) = Some k"
  shows "status c t = Woken k \<and> (\<exists>s. rw_lock_resume t k (shared c) =
      Unlocked s (case k of Rd_wait \<Rightarrow> Rd_granted | Wr_wait \<Rightarrow> Wr_granted) [])"
proof -
  have v: "rw_valid (D, m) T" using assms(1,2) by (simp add: rw_valid_def)
  have "rw_free (shared c)" using assms(4,5) by (simp add: rw_free_def)
  then have woken: "status c t = Woken k"
    using rw_lock.free_none_blocked [OF v, of sp c t k] run assms(6) by simp
  have "rw_inv T D (shared c) (ghost c) (\<lambda>x. pending (status c x))"
    using rw.monitor_inv [OF v] run by simp
  with assms(1) have "rw_n_locks (shared c) = 0 \<and> rw_writer_thread (shared c) = 0"
    by (cases rule: rw_modes) (use assms(4,5) in auto)
  with woken show ?thesis
    using assms(4,5) by (cases k) (simp_all add: sync_defs Let_def)
qed

theorem rw_lock_no_lost_wakeup_witness:
  "\<exists>c. execute (rw_lock_obj 1) False [1, 2, 3]
         [Call 1 Wr_lock [], Call 2 Rd_lock [], Call 3 Wr_lock [], Call 1 Rw_unlock []]
         (start (rw_lock_init \<lparr>rw_n_locks = 0, rw_n_reader_waiting = 0, rw_n_writer_waiting = 0,
            rw_is_locked_by_reader = True, rw_is_locked_by_writer = True, rw_writer_thread = 9\<rparr>) (0, 0))
         = Some c \<and> (\<exists>s. rw_lock_resume 3 Wr_wait (shared c) = Unlocked s Wr_granted [])"
proof -
  let ?m = "\<lparr>rw_n_locks = 0, rw_n_reader_waiting = 0, rw_n_writer_waiting = 0,
    rw_is_locked_by_reader = True, rw_is_locked_by_writer = True, rw_writer_thread = 9\<rparr>"
  let ?run = "execute (rw_lock_obj 1) False [1, 2, 3]
    [Call 1 Wr_lock [], Call 2 Rd_lock [], Call 3 Wr_lock [], Call 1 Rw_unlock []]
    (start (rw_lock_init ?m) (0, 0))"
  obtain c where c: "?run = Some c" "\<not> rw_is_locked_by_reader (shared c)"
      "\<not> rw_is_locked_by_writer (shared c)" "pending (status c 3) = Some Wr_wait"
    by (simp add: start_def rw_lock_init_def sync_defs held_locks_def wake_all_def)
  have "rw_run {1, 2, 3} 1" by (simp add: rw_run_def thread_ids_def)
  from rw_lock_no_lost_wakeup [OF this, of ?m False c 3 Wr_wait] execute_reach [OF c(1)] c
  show ?thesis by simp
qed

text \<open>Who is granted the lock at once: in every reachable configuration a read lock is granted
  exactly when nobody holds a write lock, and a write lock exactly when nobody holds a read lock
  and no other thread a write lock. A writer that asks for a read lock is not granted it: it waits
  for itself.\<close>

theorem rw_lock_grants:
  assumes "rw_run T D" "rw_n_locks m = 0"
    and run: "reach (rw_lock_obj D) sp T (rw_lock_init m) (0, 0) c" and "t \<in> T"
  shows "((\<exists>s. rw_lock_rd_lock (shared c) = Unlocked s Rd_granted []) \<longleftrightarrow>
      (\<forall>u\<in>T. snd (ghost c u) = 0)) \<and>
    ((\<exists>s. rw_lock_wr_lock t (shared c) = Unlocked s Wr_granted []) \<longleftrightarrow>
      (\<forall>u\<in>T. fst (ghost c u) = 0 \<and> (u \<noteq> t \<longrightarrow> snd (ghost c u) = 0)))"
proof -
  have v: "rw_valid (D, m) T" using assms(1,2) by (simp add: rw_valid_def)
  have T: "finite T" using assms(1) by (auto simp: rw_run_def)
  have inv: "rw_inv T D (shared c) (ghost c) (\<lambda>x. pending (status c x))"
    using rw.monitor_inv [OF v] run by simp
  from assms(1) inv show ?thesis
  proof (cases rule: rw_modes)
    case free
    then show ?thesis using T by (simp add: sync_defs rd_holds_0 wr_holds_0)
  next
    case reading
    then have "\<exists>u\<in>T. fst (ghost c u) \<noteq> 0" using T rd_holds_0 [of T "ghost c"] by auto
    then show ?thesis using reading T by (auto simp: sync_defs wr_holds_0 Let_def)
  next
    case writing
    then have w: "snd (ghost c (rw_writer_thread (shared c))) \<noteq> 0"
      using T wr_holds_0 [of T "ghost c"] by fastforce
    show ?thesis
    proof (cases "rw_writer_thread (shared c) = t")
      case True
      then show ?thesis using w writing T assms(4) by (auto simp: sync_defs rd_holds_0 Let_def)
    next
      case False
      then show ?thesis using w writing T by (auto simp: sync_defs rd_holds_0 Let_def)
    qed
  qed
qed

theorem rw_lock_grants_witness:
  "\<exists>c. execute (rw_lock_obj 2) False [1, 2] [Call 1 Wr_lock []]
         (start (rw_lock_init \<lparr>rw_n_locks = 0, rw_n_reader_waiting = 0, rw_n_writer_waiting = 0,
            rw_is_locked_by_reader = True, rw_is_locked_by_writer = True, rw_writer_thread = 9\<rparr>) (0, 0))
         = Some c \<and> \<not> (\<exists>s. rw_lock_rd_lock (shared c) = Unlocked s Rd_granted [])"
proof -
  let ?m = "\<lparr>rw_n_locks = 0, rw_n_reader_waiting = 0, rw_n_writer_waiting = 0,
    rw_is_locked_by_reader = True, rw_is_locked_by_writer = True, rw_writer_thread = 9\<rparr>"
  let ?run = "execute (rw_lock_obj 2) False [1, 2] [Call 1 Wr_lock []] (start (rw_lock_init ?m) (0, 0))"
  obtain c where c: "?run = Some c" "snd (ghost c 1) = 1"
    by (simp add: start_def rw_lock_init_def sync_defs held_locks_def)
  have "rw_run {1, 2} 2" by (simp add: rw_run_def thread_ids_def)
  from rw_lock_grants [OF this, of ?m False c 1] execute_reach [OF c(1)] c show ?thesis by auto
qed

text \<open>\<^verbatim>\<open>rw_lock_init\<close> leaves \<^verbatim>\<open>n_locks\<close> as it finds it, and the first lock of either
  kind fails its assertion exactly when that memory was not 0.\<close>

theorem rw_lock_init_unset:
  "(rw_lock_rd_lock (rw_lock_init m) = Aborted \<longleftrightarrow> rw_n_locks m \<noteq> 0) \<and>
   (rw_lock_wr_lock t (rw_lock_init m) = Aborted \<longleftrightarrow> rw_n_locks m \<noteq> 0)"
  by (simp add: sync_defs rw_lock_init_def)

end
