(* ===== verification/RwMonitor.thy ===== *)
theory RwMonitor
  imports RwSpec
begin

text \<open>
  The bounded read-write lock of \<^verbatim>\<open>rw_locks/monitor/rw_locks.c\<close>: at most
  \<^verbatim>\<open>n_max_readers\<close> readers or \<^verbatim>\<open>n_max_writers\<close> writers at a time, a condition variable
  for each kind, and the flags \<^verbatim>\<open>dont_allow_readers\<close>, \<^verbatim>\<open>dont_allow_writers\<close> by which the
  last thread of one kind hands the lock to the other.
\<close>

section \<open>The code\<close>

record rw_mon =
  rwm_dont_allow_readers :: bool
  rwm_dont_allow_writers :: bool
  rwm_n_locks :: u16
  rwm_n_reader_waiting :: u16
  rwm_n_writer_waiting :: u16
  rwm_is_locked_by_reader :: bool
  rwm_is_locked_by_writer :: bool
  rwm_n_max_readers :: u16
  rwm_n_max_writers :: u16

datatype rwm_cv = Cv_reader | Cv_writer

type_synonym rwm_sect = "(rw_mon, rw_result, rwm_cv, rw_wait) sect"

text \<open>\<^verbatim>\<open>rw_lock_init\<close> does not write \<open>n_locks\<close>.\<close>

definition rwm_init :: "rw_mon \<Rightarrow> rw_mon" where
  "rwm_init s = s\<lparr>rwm_dont_allow_readers := False, rwm_dont_allow_writers := False,
     rwm_n_reader_waiting := 0, rwm_n_writer_waiting := 0, rwm_is_locked_by_reader := False,
     rwm_is_locked_by_writer := False, rwm_n_max_readers := 0xFFFF, rwm_n_max_writers := 1\<rparr>"

definition rwm_set_max_readers_writers :: "u16 \<Rightarrow> u16 \<Rightarrow> rw_mon \<Rightarrow> rw_mon" where
  "rwm_set_max_readers_writers max_readers max_writers s =
     s\<lparr>rwm_n_max_readers := max_readers, rwm_n_max_writers := max_writers\<rparr>"

text \<open>Cases 2 and 3 of \<^verbatim>\<open>rw_lock_rd_lock\<close>: the loop and what follows it.\<close>

definition rwm_rd_case23 :: "rw_mon \<Rightarrow> rwm_sect" where
  [sync_defs]: "rwm_rd_case23 s =
     (if rwm_is_locked_by_writer s \<or> rwm_n_locks s = rwm_n_max_readers s \<or> rwm_dont_allow_readers s
      then CvWait (s\<lparr>rwm_n_reader_waiting := rwm_n_reader_waiting s + 1\<rparr>) Cv_reader Rd_wait []
      else let s1 = (if rwm_n_locks s = 0 then s\<lparr>rwm_is_locked_by_reader := True\<rparr> else s);
               s2 = s1\<lparr>rwm_n_locks := rwm_n_locks s1 + 1\<rparr>
           in check (\<not> rwm_is_locked_by_writer s2) (Unlocked s2 Rd_granted []))"

definition rwm_rd_lock :: "rw_mon \<Rightarrow> rwm_sect" where
  [sync_defs]: "rwm_rd_lock s =
     (if \<not> rwm_is_locked_by_reader s \<and> \<not> rwm_is_locked_by_writer s \<and>
         rwm_n_max_readers s \<ge> 1 \<and> \<not> rwm_dont_allow_readers s
      then check (rwm_n_locks s = 0) (check (\<not> rwm_is_locked_by_reader s)
             (check (\<not> rwm_is_locked_by_writer s)
               (Unlocked (s\<lparr>rwm_n_locks := rwm_n_locks s + 1, rwm_is_locked_by_reader := True\<rparr>)
                  Rd_granted [])))
      else rwm_rd_case23 s)"

definition rwm_rd_lock_resume :: "rw_mon \<Rightarrow> rwm_sect" where
  [sync_defs]: "rwm_rd_lock_resume s =
     rwm_rd_case23 (s\<lparr>rwm_n_reader_waiting := rwm_n_reader_waiting s - 1\<rparr>)"

definition rwm_wr_case23 :: "rw_mon \<Rightarrow> rwm_sect" where
  [sync_defs]: "rwm_wr_case23 s =
     (if rwm_is_locked_by_reader s \<or> rwm_n_locks s = rwm_n_max_writers s \<or> rwm_dont_allow_writers s
      then CvWait (s\<lparr>rwm_n_writer_waiting := rwm_n_writer_waiting s + 1\<rparr>) Cv_writer Wr_wait []
      else let s1 = (if rwm_n_locks s = 0 then s\<lparr>rwm_is_locked_by_writer := True\<rparr> else s);
               s2 = s1\<lparr>rwm_n_locks := rwm_n_locks s1 + 1\<rparr>
           in check (\<not> rwm_is_locked_by_reader s2) (Unlocked s2 Wr_granted []))"

definition rwm_wr_lock :: "rw_mon \<Rightarrow> rwm_sect" where
  [sync_defs]: "rwm_wr_lock s =
     (if \<not> rwm_is_locked_by_reader s \<and> \<not> rwm_is_locked_by_writer s \<and>
         rwm_n_max_writers s \<ge> 1 \<and> \<not> rwm_dont_allow_writers s
      then check (rwm_n_locks s = 0) (check (\<not> rwm_is_locked_by_reader s)
             (check (\<not> rwm_is_locked_by_writer s)
               (Unlocked (s\<lparr>rwm_n_locks := rwm_n_locks s + 1, rwm_is_locked_by_writer := True\<rparr>)
                  Wr_granted [])))
      else rwm_wr_case23 s)"

definition rwm_wr_lock_resume :: "rw_mon \<Rightarrow> rwm_sect" where
  [sync_defs]: "rwm_wr_lock_resume s =
     rwm_wr_case23 (s\<lparr>rwm_n_writer_waiting := rwm_n_writer_waiting s - 1\<rparr>)"

text \<open>The two halves of \<^verbatim>\<open>rw_lock_unlock\<close>, after the decrement of \<open>n_locks\<close>.\<close>

definition rwm_writer_exit :: "rw_mon \<Rightarrow> rwm_sect" where
  [sync_defs]: "rwm_writer_exit s =
     (if rwm_n_locks s \<noteq> 0
      then Unlocked s Rw_released (if rwm_n_writer_waiting s \<noteq> 0 then [Signal Cv_writer] else [])
      else if rwm_n_reader_waiting s \<noteq> 0
      then Unlocked (s\<lparr>rwm_dont_allow_writers := True, rwm_dont_allow_readers := False,
             rwm_is_locked_by_writer := False\<rparr>) Rw_released [Broadcast Cv_reader]
      else if rwm_n_writer_waiting s \<noteq> 0
      then Unlocked (s\<lparr>rwm_dont_allow_readers := False, rwm_is_locked_by_writer := False\<rparr>)
             Rw_released [Broadcast Cv_writer]
      else Unlocked (s\<lparr>rwm_dont_allow_readers := False, rwm_is_locked_by_writer := False\<rparr>)
             Rw_released [])"

definition rwm_reader_exit :: "rw_mon \<Rightarrow> rwm_sect" where
  [sync_defs]: "rwm_reader_exit s =
     (if rwm_n_locks s \<noteq> 0
      then Unlocked s Rw_released (if rwm_n_reader_waiting s \<noteq> 0 then [Signal Cv_reader] else [])
      else if rwm_n_writer_waiting s \<noteq> 0
      then Unlocked (s\<lparr>rwm_dont_allow_writers := False, rwm_dont_allow_readers := True,
             rwm_is_locked_by_reader := False\<rparr>) Rw_released [Broadcast Cv_writer]
      else if rwm_n_reader_waiting s \<noteq> 0
      then Unlocked (s\<lparr>rwm_dont_allow_writers := False, rwm_is_locked_by_reader := False\<rparr>)
             Rw_released [Broadcast Cv_reader]
      else Unlocked (s\<lparr>rwm_dont_allow_writers := False, rwm_is_locked_by_reader := False\<rparr>)
             Rw_released [])"

definition rwm_unlock :: "rw_mon \<Rightarrow> rwm_sect" where
  [sync_defs]: "rwm_unlock s =
     check (rwm_n_locks s \<noteq> 0)
       (if rwm_is_locked_by_writer s
        then check (\<not> rwm_is_locked_by_reader s)
               (rwm_writer_exit (s\<lparr>rwm_n_locks := rwm_n_locks s - 1\<rparr>))
        else if rwm_is_locked_by_reader s
        then check (\<not> rwm_is_locked_by_writer s)
               (rwm_reader_exit (s\<lparr>rwm_n_locks := rwm_n_locks s - 1\<rparr>))
        else Aborted)"

definition rwm_destroy :: "rw_mon \<Rightarrow> bool" where
  "rwm_destroy s \<longleftrightarrow> rwm_n_locks s = 0 \<and> rwm_n_reader_waiting s = 0 \<and>
     rwm_n_writer_waiting s = 0 \<and> \<not> rwm_is_locked_by_writer s \<and> \<not> rwm_is_locked_by_reader s"

section \<open>The object\<close>

fun rwm_enter :: "tid \<Rightarrow> rw_op \<Rightarrow> rw_mon \<Rightarrow> rwm_sect" where
  "rwm_enter self Rd_lock s = rwm_rd_lock s"
| "rwm_enter self Wr_lock s = rwm_wr_lock s"
| "rwm_enter self Rw_unlock s = rwm_unlock s"

fun rwm_resume :: "tid \<Rightarrow> rw_wait \<Rightarrow> rw_mon \<Rightarrow> rwm_sect" where
  "rwm_resume self Rd_wait s = rwm_rd_lock_resume s"
| "rwm_resume self Wr_wait s = rwm_wr_lock_resume s"

definition rwm_obj :: "nat \<Rightarrow> (rw_mon, rw_held, rw_op, rw_wait, rwm_cv, rw_result) obj" where
  "rwm_obj D = \<lparr>enter = rwm_enter, resume = rwm_resume, may_call = rw_client D, on_return = rw_hold\<rparr>"

lemma rwm_obj_simps [simp]:
  "enter (rwm_obj D) = rwm_enter" "resume (rwm_obj D) = rwm_resume"
  "may_call (rwm_obj D) = rw_client D" "on_return (rwm_obj D) = rw_hold"
  by (simp_all add: rwm_obj_def)

text \<open>The lock as \<^verbatim>\<open>rw_lock_init\<close> and \<^verbatim>\<open>rw_lock_set_max_readers_writers\<close> leave it.\<close>

definition rwm_setup :: "rw_mon \<Rightarrow> u16 \<Rightarrow> u16 \<Rightarrow> rw_mon" where
  "rwm_setup m mr mw = rwm_set_max_readers_writers mr mw (rwm_init m)"

section \<open>The invariant\<close>

definition rwm_counts :: "tid set \<Rightarrow> rw_mon \<Rightarrow> (tid \<Rightarrow> rw_held) \<Rightarrow> (tid \<Rightarrow> rw_wait option) \<Rightarrow> bool" where
  "rwm_counts T s g w \<longleftrightarrow>
     rwm_n_locks s = of_nat (rd_holds T g + wr_holds T g) \<and>
     rwm_n_reader_waiting s = of_nat (waiters T (\<lambda>k. k = Rd_wait) w) \<and>
     rwm_n_writer_waiting s = of_nat (waiters T (\<lambda>k. k = Wr_wait) w)"

definition rwm_mode :: "tid set \<Rightarrow> rw_mon \<Rightarrow> (tid \<Rightarrow> rw_held) \<Rightarrow> bool" where
  "rwm_mode T s g \<longleftrightarrow>
     (rwm_is_locked_by_reader s \<longleftrightarrow> 0 < rd_holds T g) \<and>
     (rwm_is_locked_by_writer s \<longleftrightarrow> 0 < wr_holds T g) \<and>
     \<not> (rwm_is_locked_by_reader s \<and> rwm_is_locked_by_writer s) \<and>
     (rwm_is_locked_by_reader s \<longrightarrow> \<not> rwm_dont_allow_readers s) \<and>
     (rwm_is_locked_by_writer s \<longrightarrow> \<not> rwm_dont_allow_writers s)"

definition rwm_inv :: "tid set \<Rightarrow> u16 \<Rightarrow> u16 \<Rightarrow> rw_mon \<Rightarrow> (tid \<Rightarrow> rw_held) \<Rightarrow>
  (tid \<Rightarrow> rw_wait option) \<Rightarrow> bool" where
  "rwm_inv T mr mw s g w \<longleftrightarrow> rwm_mode T s g \<and> rwm_counts T s g w \<and>
     rwm_n_max_readers s = mr \<and> rwm_n_max_writers s = mw \<and>
     rd_holds T g \<le> unat mr \<and> wr_holds T g \<le> unat mw"

lemma rwm_modes:
  assumes "rwm_inv T mr mw s g w"
  obtains (free) "\<not> rwm_is_locked_by_reader s" "\<not> rwm_is_locked_by_writer s"
      "rwm_n_locks s = 0" "rd_holds T g = 0" "wr_holds T g = 0"
    | (reading) "rwm_is_locked_by_reader s" "\<not> rwm_is_locked_by_writer s"
      "\<not> rwm_dont_allow_readers s" "rwm_n_locks s = of_nat (rd_holds T g)"
      "0 < rd_holds T g" "rd_holds T g \<le> unat mr" "wr_holds T g = 0"
    | (writing) "\<not> rwm_is_locked_by_reader s" "rwm_is_locked_by_writer s"
      "\<not> rwm_dont_allow_writers s" "rwm_n_locks s = of_nat (wr_holds T g)"
      "0 < wr_holds T g" "wr_holds T g \<le> unat mw" "rd_holds T g = 0"
  using assms unfolding rwm_inv_def rwm_mode_def rwm_counts_def
  by (cases "rwm_is_locked_by_reader s"; cases "rwm_is_locked_by_writer s") auto

lemmas rwm_keeps_simps = sync_defs rwm_inv_def rwm_mode_def rwm_counts_def waiter_simps hold_simps

lemma rwm_rd_lock_keeps:
  assumes "finite T" "rwm_inv T mr mw s g w" "t \<in> T" "w t = None"
  shows "keeps_monitor (rwm_obj D) (rwm_inv T mr mw) t g w (rwm_rd_lock s)"
  using assms(2)
proof (cases rule: rwm_modes)
  case free
  then show ?thesis using assms by (simp add: rwm_keeps_simps Let_def unat_u16_pos)
next
  case reading
  then show ?thesis using assms u16_limit [OF reading(6)]
    by (simp add: rwm_keeps_simps Let_def)
next
  case writing
  then show ?thesis using assms by (simp add: rwm_keeps_simps Let_def)
qed

lemma rwm_rd_resume_keeps:
  assumes "finite T" "rwm_inv T mr mw s g w" "t \<in> T" "w t = Some Rd_wait"
  shows "keeps_monitor (rwm_obj D) (rwm_inv T mr mw) t g w (rwm_rd_lock_resume s)"
  using assms(2)
proof (cases rule: rwm_modes)
  case free
  then show ?thesis using assms by (simp add: rwm_keeps_simps Let_def unat_u16_pos)
next
  case reading
  then show ?thesis using assms u16_limit [OF reading(6)]
    by (simp add: rwm_keeps_simps Let_def)
next
  case writing
  then show ?thesis using assms by (simp add: rwm_keeps_simps Let_def)
qed

lemma rwm_wr_lock_keeps:
  assumes "finite T" "rwm_inv T mr mw s g w" "t \<in> T" "w t = None"
  shows "keeps_monitor (rwm_obj D) (rwm_inv T mr mw) t g w (rwm_wr_lock s)"
  using assms(2)
proof (cases rule: rwm_modes)
  case free
  then show ?thesis using assms by (simp add: rwm_keeps_simps Let_def unat_u16_pos)
next
  case reading
  then show ?thesis using assms by (simp add: rwm_keeps_simps Let_def)
next
  case writing
  then show ?thesis using assms u16_limit [OF writing(6)]
    by (simp add: rwm_keeps_simps Let_def)
qed

lemma rwm_wr_resume_keeps:
  assumes "finite T" "rwm_inv T mr mw s g w" "t \<in> T" "w t = Some Wr_wait"
  shows "keeps_monitor (rwm_obj D) (rwm_inv T mr mw) t g w (rwm_wr_lock_resume s)"
  using assms(2)
proof (cases rule: rwm_modes)
  case free
  then show ?thesis using assms by (simp add: rwm_keeps_simps Let_def unat_u16_pos)
next
  case reading
  then show ?thesis using assms by (simp add: rwm_keeps_simps Let_def)
next
  case writing
  then show ?thesis using assms u16_limit [OF writing(6)]
    by (simp add: rwm_keeps_simps Let_def)
qed

lemma rwm_unlock_keeps:
  assumes "finite T" "rwm_inv T mr mw s g w" "t \<in> T" "w t = None" "0 < held_locks (g t)"
  shows "keeps_monitor (rwm_obj D) (rwm_inv T mr mw) t g w (rwm_unlock s)"
  using assms(2)
proof (cases rule: rwm_modes)
  case free
  then show ?thesis using assms(1,3,5) by (simp add: rd_holds_0 wr_holds_0 held_locks_def)
next
  case reading
  let ?g = "g(t := rw_hold Rw_released (g t))"
  have own: "snd (g t) = 0" "0 < fst (g t)"
    using reading assms(1,3,5) by (auto simp: wr_holds_0 held_locks_def)
  have rel: "rd_holds T g = Suc (rd_holds T ?g)" "wr_holds T ?g = wr_holds T g"
    using holds_release_rd [of T t g] assms(1,3) own by auto
  have le: "rd_holds T ?g \<le> unat mr" using rel(1) reading(6) by simp
  show ?thesis using reading assms(2-4) rel u16_limit(1) [OF reading(6)] u16_limit(1) [OF le]
    by (simp add: rwm_keeps_simps)
next
  case writing
  let ?g = "g(t := rw_hold Rw_released (g t))"
  have own: "0 < snd (g t)"
    using writing assms(1,3,5) by (auto simp: rd_holds_0 held_locks_def)
  have rel: "rd_holds T ?g = rd_holds T g" "wr_holds T g = Suc (wr_holds T ?g)"
    using holds_release_wr [of T t g] assms(1,3) own by auto
  have le: "wr_holds T ?g \<le> unat mw" using rel(2) writing(6) by simp
  show ?thesis using writing assms(2-4) rel u16_limit(1) [OF writing(6)] u16_limit(1) [OF le]
    by (simp add: rwm_keeps_simps)
qed

text \<open>A run: its nesting bound, the memory of the lock, the two limits.\<close>

type_synonym rwm_run = "nat \<times> rw_mon \<times> u16 \<times> u16"

definition rwm_run_obj :: "rwm_run \<Rightarrow> (rw_mon, rw_held, rw_op, rw_wait, rwm_cv, rw_result) obj" where
  "rwm_run_obj p = rwm_obj (fst p)"

definition rwm_run_start :: "rwm_run \<Rightarrow> rw_mon" where
  "rwm_run_start p = (case p of (D, m, mr, mw) \<Rightarrow> rwm_setup m mr mw)"

definition rwm_run_inv :: "rwm_run \<Rightarrow> tid set \<Rightarrow> rw_mon \<Rightarrow> (tid \<Rightarrow> rw_held) \<Rightarrow>
  (tid \<Rightarrow> rw_wait option) \<Rightarrow> bool" where
  "rwm_run_inv p T = (case p of (D, m, mr, mw) \<Rightarrow> rwm_inv T mr mw)"

definition rwm_valid :: "rwm_run \<Rightarrow> tid set \<Rightarrow> bool" where
  "rwm_valid p T \<longleftrightarrow> thread_ids T \<and> rwm_n_locks (fst (snd p)) = 0"

interpretation rwm: rw_lock_contract rwm_valid rwm_run_obj rwm_run_start rwm_run_inv
  "\<lambda>p T. unat (fst (snd (snd p)))" "\<lambda>p T. unat (snd (snd (snd p)))"
proof (unfold_locales, goal_cases)
  case (1 p T)
  then show ?case
    by (cases p) (simp add: rwm_valid_def rwm_run_inv_def rwm_run_start_def rwm_inv_def rwm_mode_def
        rwm_counts_def rwm_setup_def rwm_init_def rwm_set_max_readers_writers_def)
next
  case (2 p T s g w t op)
  then have "finite T" by (auto simp: rwm_valid_def)
  with 2 show ?case
    by (cases p; cases op) (auto simp: rwm_run_inv_def rwm_run_obj_def
        intro!: rwm_rd_lock_keeps rwm_wr_lock_keeps rwm_unlock_keeps)
next
  case (3 p T s g w t k)
  then have "finite T" by (auto simp: rwm_valid_def)
  with 3 show ?case
    by (cases p; cases k) (auto simp: rwm_run_inv_def rwm_run_obj_def
        intro!: rwm_rd_resume_keeps rwm_wr_resume_keeps)
next
  case (4 p T s g w)
  then have "finite T" by (auto simp: rwm_valid_def)
  moreover obtain D m mr mw where p: "p = (D, m, mr, mw)" by (cases p)
  with 4 have "rwm_inv T mr mw s g w" by (simp add: rwm_run_inv_def)
  ultimately show ?case
    using p by (auto simp: rw_exclusive_def rwm_inv_def rwm_mode_def)
qed

section \<open>Handing the lock over\<close>

fun rwm_cv_of :: "rw_wait \<Rightarrow> rwm_cv" where
  "rwm_cv_of Rd_wait = Cv_reader"
| "rwm_cv_of Wr_wait = Cv_writer"

definition rwm_free :: "rw_mon \<Rightarrow> bool" where
  "rwm_free s \<longleftrightarrow> \<not> rwm_is_locked_by_reader s \<and> \<not> rwm_is_locked_by_writer s"

text \<open>While the lock is free, a thread is blocked only if its kind is shut out, and then a thread of
  the other kind has been woken.\<close>

definition rwm_handed :: "rw_mon \<Rightarrow> (tid \<Rightarrow> (rwm_cv, rw_wait) thread_status) \<Rightarrow> bool" where
  "rwm_handed s f \<longleftrightarrow>
     \<not> (rwm_dont_allow_readers s \<and> rwm_dont_allow_writers s) \<and>
     (rwm_dont_allow_readers s \<longrightarrow> (\<exists>u. f u = Woken Wr_wait)) \<and>
     (rwm_dont_allow_writers s \<longrightarrow> (\<exists>u. f u = Woken Rd_wait)) \<and>
     (\<forall>u. blocked_on Cv_reader (f u) \<longrightarrow> rwm_dont_allow_readers s) \<and>
     (\<forall>u. blocked_on Cv_writer (f u) \<longrightarrow> rwm_dont_allow_writers s)"

definition rwm_gate :: "tid set \<Rightarrow> rw_mon \<Rightarrow> (tid \<Rightarrow> (rwm_cv, rw_wait) thread_status) \<Rightarrow> bool" where
  "rwm_gate T s f \<longleftrightarrow> waits_as T rwm_cv_of f \<and> (rwm_free s \<longrightarrow> rwm_handed s f)"

text \<open>A section that leaves the lock held has nothing to hand over.\<close>

lemma rwm_gate_held [simp]:
  assumes "waits_as T rwm_cv_of f" "\<not> rwm_free s"
  shows "keeps ob (\<lambda>s g. rwm_gate T s) t g f (Unlocked s r ss)"
    and "t \<in> T \<Longrightarrow> cv = rwm_cv_of k \<Longrightarrow> keeps ob (\<lambda>s g. rwm_gate T s) t g f (CvWait s cv k ss)"
  using assms waits_as_wakes [OF assms(1)]
  by (auto simp: rwm_gate_def intro!: waits_as_block)

text \<open>A section that blocks while the lock is free: the thread's kind is shut out.\<close>

lemma woken_others:
  assumes "\<exists>u. f u = Woken k'" "f t = Running \<or> f t = Woken k" "k' \<noteq> k"
  shows "\<exists>u. (f(t := x)) u = Woken k'"
proof -
  from assms(1) obtain u where "f u = Woken k'" ..
  then have "(f(t := x)) u = Woken k'" using assms(2,3) by auto
  then show ?thesis ..
qed

lemma rwm_handed_block:
  assumes "rwm_handed s f" "f t = Running \<or> f t = Woken k"
    and "case k of Rd_wait \<Rightarrow> rwm_dont_allow_readers s | Wr_wait \<Rightarrow> rwm_dont_allow_writers s"
    and "rwm_dont_allow_readers s' = rwm_dont_allow_readers s"
    and "rwm_dont_allow_writers s' = rwm_dont_allow_writers s"
  shows "rwm_handed s' (f(t := Blocked (rwm_cv_of k) k))"
  using assms woken_others [of f Rd_wait t k] woken_others [of f Wr_wait t k]
  by (cases k; simp add: rwm_handed_def; blast)

lemma rwm_gate_block:
  assumes "rwm_gate T s f" "rwm_free s" "f t = Running \<or> f t = Woken k" "t \<in> T"
    and "case k of Rd_wait \<Rightarrow> rwm_dont_allow_readers s | Wr_wait \<Rightarrow> rwm_dont_allow_writers s"
    and "rwm_dont_allow_readers s' = rwm_dont_allow_readers s"
    and "rwm_dont_allow_writers s' = rwm_dont_allow_writers s" and "cv = rwm_cv_of k"
  shows "keeps ob (\<lambda>s g. rwm_gate T s) t g f (CvWait s' cv k [])"
  using assms rwm_handed_block [of s f t k s']
  by (simp add: rwm_gate_def waits_as_block)

lemma rwm_lock_gate:
  assumes "rwm_inv T mr mw s g w" "mr \<noteq> 0" "mw \<noteq> 0" "rwm_gate T s f" "t \<in> T" "f t = Running"
  shows "keeps ob (\<lambda>s g. rwm_gate T s) t g f (rwm_rd_lock s)"
    and "keeps ob (\<lambda>s g. rwm_gate T s) t g f (rwm_wr_lock s)"
proof -
  have wa: "waits_as T rwm_cv_of f" using assms(4) by (simp add: rwm_gate_def)
  have lim: "rwm_n_max_readers s = mr" "rwm_n_max_writers s = mw"
    using assms(1) by (auto simp: rwm_inv_def)
  from assms(1) have "keeps ob (\<lambda>s g. rwm_gate T s) t g f (rwm_rd_lock s) \<and>
    keeps ob (\<lambda>s g. rwm_gate T s) t g f (rwm_wr_lock s)"
  proof (cases rule: rwm_modes)
    case free
    then show ?thesis using assms(2,3,5,6) wa lim
      by (auto simp: sync_defs rwm_free_def Let_def simp del: keeps.simps
          intro!: rwm_gate_block [OF assms(4)])
  qed (use assms(5) wa in \<open>auto simp: sync_defs rwm_free_def Let_def simp del: keeps.simps\<close>)
  then show "keeps ob (\<lambda>s g. rwm_gate T s) t g f (rwm_rd_lock s)"
    and "keeps ob (\<lambda>s g. rwm_gate T s) t g f (rwm_wr_lock s)" by auto
qed

lemma rwm_resume_gate:
  assumes "rwm_inv T mr mw s g w" "mr \<noteq> 0" "mw \<noteq> 0" "rwm_gate T s f" "t \<in> T"
  shows "f t = Woken Rd_wait \<Longrightarrow> keeps ob (\<lambda>s g. rwm_gate T s) t g f (rwm_rd_lock_resume s)"
    and "f t = Woken Wr_wait \<Longrightarrow> keeps ob (\<lambda>s g. rwm_gate T s) t g f (rwm_wr_lock_resume s)"
proof -
  have wa: "waits_as T rwm_cv_of f" using assms(4) by (simp add: rwm_gate_def)
  have lim: "rwm_n_max_readers s = mr" "rwm_n_max_writers s = mw"
    using assms(1) by (auto simp: rwm_inv_def)
  from assms(1) have "(f t = Woken Rd_wait \<longrightarrow> keeps ob (\<lambda>s g. rwm_gate T s) t g f (rwm_rd_lock_resume s)) \<and>
    (f t = Woken Wr_wait \<longrightarrow> keeps ob (\<lambda>s g. rwm_gate T s) t g f (rwm_wr_lock_resume s))"
  proof (cases rule: rwm_modes)
    case free
    then show ?thesis using assms(2,3,5) wa lim
      by (auto simp: sync_defs rwm_free_def Let_def simp del: keeps.simps
          intro!: rwm_gate_block [OF assms(4)])
  qed (use assms(5) wa in \<open>auto simp: sync_defs rwm_free_def Let_def simp del: keeps.simps\<close>)
  then show "f t = Woken Rd_wait \<Longrightarrow> keeps ob (\<lambda>s g. rwm_gate T s) t g f (rwm_rd_lock_resume s)"
    and "f t = Woken Wr_wait \<Longrightarrow> keeps ob (\<lambda>s g. rwm_gate T s) t g f (rwm_wr_lock_resume s)" by auto
qed

text \<open>The unlock that leaves the lock free: the counters say which kinds wait.\<close>

lemma rwm_waiting_counted:
  assumes "thread_ids T" "rwm_counts T s g (\<lambda>x. pending (f x))" "waits_as T rwm_cv_of f"
  shows "rwm_n_reader_waiting s \<noteq> 0 \<longleftrightarrow> (\<exists>u. pending (f u) = Some Rd_wait)"
    and "rwm_n_writer_waiting s \<noteq> 0 \<longleftrightarrow> (\<exists>u. pending (f u) = Some Wr_wait)"
proof -
  have "u \<in> T" if "pending (f u) = Some k" for u k
    using that by (intro waits_as_mem [OF assms(3)]) auto
  then show "rwm_n_reader_waiting s \<noteq> 0 \<longleftrightarrow> (\<exists>u. pending (f u) = Some Rd_wait)"
    and "rwm_n_writer_waiting s \<noteq> 0 \<longleftrightarrow> (\<exists>u. pending (f u) = Some Wr_wait)"
    using assms(1,2) waiters_pos [of T _ "\<lambda>x. pending (f x)"]
    by (auto simp: rwm_counts_def waiters_u16_zero thread_ids_finite)
qed

lemma rwm_cv_of_inj: "rwm_cv_of k = rwm_cv_of k' \<Longrightarrow> k = k'"
  by (cases k; cases k') auto

lemma pending_awake:
  assumes "waits_as T rwm_cv_of f" "pending (f u) = Some k"
  shows "wake_all (rwm_cv_of k) f u = Woken k"
  using assms by (cases "f u") (auto simp: wake_all_def waits_as_def)

lemma blocked_pending: "waits_as T rwm_cv_of f \<Longrightarrow> blocked_on (rwm_cv_of k) (f u) \<Longrightarrow> pending (f u) = Some k"
  using rwm_cv_of_inj by (cases "f u") (auto simp: waits_as_def)

lemma rwm_unlock_gate:
  assumes "thread_ids T" "rwm_inv T mr mw s g (\<lambda>x. pending (f x))" "rwm_gate T s f"
    and "t \<in> T" "f t = Running" "rwm_n_locks s \<noteq> 0"
  shows "keeps ob (\<lambda>s g. rwm_gate T s) t g f (rwm_unlock s)"
proof -
  have wa: "waits_as T rwm_cv_of f" using assms(3) by (simp add: rwm_gate_def)
  have f: "f(t := Running) = f" using assms(5) by auto
  have counts: "rwm_counts T s g (\<lambda>x. pending (f x))" using assms(2) by (simp add: rwm_inv_def)
  note cnt = rwm_waiting_counted [OF assms(1) counts wa]
  have wk: "waits_as T rwm_cv_of (wake_all cv f)" for cv
    using waits_as_wakes [OF wa, of "[Broadcast cv]" t] f by simp
  have br: "\<And>u. blocked_on Cv_reader (f u) \<Longrightarrow> rwm_n_reader_waiting s \<noteq> 0"
    and bw: "\<And>u. blocked_on Cv_writer (f u) \<Longrightarrow> rwm_n_writer_waiting s \<noteq> 0"
    using blocked_pending [OF wa, of Rd_wait] blocked_pending [OF wa, of Wr_wait]
    unfolding cnt by auto
  have ar: "rwm_n_reader_waiting s \<noteq> 0 \<Longrightarrow> \<exists>u. wake_all Cv_reader f u = Woken Rd_wait"
    and aw: "rwm_n_writer_waiting s \<noteq> 0 \<Longrightarrow> \<exists>u. wake_all Cv_writer f u = Woken Wr_wait"
    using pending_awake [OF wa, of _ Rd_wait] pending_awake [OF wa, of _ Wr_wait]
    unfolding cnt by auto
  from assms(2) show ?thesis
  proof (cases rule: rwm_modes)
    case free
    then show ?thesis using assms(6) by simp
  next
    case reading
    show ?thesis
    proof (cases "rwm_n_locks s = 1")
      case True
      then show ?thesis using reading wk ar aw br bw wa f
        by (auto simp: sync_defs rwm_gate_def rwm_handed_def rwm_free_def)
    next
      case False
      then show ?thesis using reading(1-3) wa assms(6)
        by (auto simp: sync_defs rwm_free_def simp del: keeps.simps)
    qed
  next
    case writing
    show ?thesis
    proof (cases "rwm_n_locks s = 1")
      case True
      then show ?thesis using writing wk ar aw br bw wa f
        by (auto simp: sync_defs rwm_gate_def rwm_handed_def rwm_free_def)
    next
      case False
      then show ?thesis using writing(1-3) wa assms(6)
        by (auto simp: sync_defs rwm_free_def simp del: keeps.simps)
    qed
  qed
qed

lemma rwm_spurious_gate:
  assumes "rwm_gate T s f" "is_blocked (f t)"
  shows "rwm_gate T s (f(t := wake (f t)))"
proof -
  obtain cv k where t: "f t = Blocked cv k" using assms(2) by (cases "f t") auto
  have keep: "(f(t := wake (f t))) u = Woken k'" if "f u = Woken k'" for u k'
    using that t by auto
  have "rwm_handed s (f(t := wake (f t)))" if "rwm_handed s f"
    using that keep unfolding rwm_handed_def by (metis fun_upd_apply wake_not_blocked(2))
  with assms(1) show ?thesis by (simp add: rwm_gate_def waits_as_wake)
qed

text \<open>The runs in which both kinds may enter at all.\<close>

definition rwm_live :: "rwm_run \<Rightarrow> tid set \<Rightarrow> bool" where
  "rwm_live p T \<longleftrightarrow> rwm_valid p T \<and> fst (snd (snd p)) \<noteq> 0 \<and> snd (snd (snd p)) \<noteq> 0"

interpretation rwm_live: sync_object rwm_live rwm_run_obj True rwm_run_start "(0, 0)"
  "\<lambda>p T s g f. rwm_run_inv p T s g (\<lambda>x. pending (f x)) \<and> rwm_gate T s f"
proof (unfold_locales, goal_cases)
  case (1 p T)
  then show ?case
    using rwm.m_initially [of p T]
    by (cases p) (auto simp: rwm_live_def rwm_gate_def rwm_handed_def rwm_run_start_def rwm_setup_def
        rwm_init_def rwm_set_max_readers_writers_def)
next
  case (2 p T s g f t op)
  obtain D m mr mw where p: "p = (D, m, mr, mw)" by (cases p)
  have inv: "rwm_inv T mr mw s g (\<lambda>x. pending (f x))" and lim: "mr \<noteq> 0" "mw \<noteq> 0" "thread_ids T"
    using 2 p by (auto simp: rwm_live_def rwm_run_inv_def rwm_valid_def)
  have mon: "keeps_monitor (rwm_run_obj p) (rwm_run_inv p T) t g (\<lambda>x. pending (f x))
      (enter (rwm_run_obj p) t op s)"
    using 2 by (intro rwm.m_call) (auto simp: rwm_live_def)
  have "keeps (rwm_run_obj p) (\<lambda>s g. rwm_gate T s) t g f (enter (rwm_run_obj p) t op s)"
  proof (cases op)
    case Rw_unlock
    have "rwm_n_locks s \<noteq> 0"
      using mon Rw_unlock by (auto simp: rwm_run_obj_def sync_defs split: if_splits)
    then show ?thesis
      using 2 Rw_unlock inv lim by (auto simp: rwm_run_obj_def intro!: rwm_unlock_gate)
  qed (use 2 inv lim rwm_lock_gate [OF inv] in \<open>auto simp: rwm_run_obj_def\<close>)
  with keeps_of_monitor [OF mon] show ?case by (rule keeps_conj)
next
  case (3 p T s g f t k)
  obtain D m mr mw where p: "p = (D, m, mr, mw)" by (cases p)
  have inv: "rwm_inv T mr mw s g (\<lambda>x. pending (f x))" and lim: "mr \<noteq> 0" "mw \<noteq> 0"
    using 3 p by (auto simp: rwm_live_def rwm_run_inv_def)
  have "keeps_monitor (rwm_run_obj p) (rwm_run_inv p T) t g (\<lambda>x. pending (f x))
      (resume (rwm_run_obj p) t k s)"
    using 3 by (intro rwm.m_resume) (auto simp: rwm_live_def)
  moreover have "keeps (rwm_run_obj p) (\<lambda>s g. rwm_gate T s) t g f (resume (rwm_run_obj p) t k s)"
    using 3 lim rwm_resume_gate [OF inv] by (cases k) (auto simp: rwm_run_obj_def)
  ultimately show ?case by (intro keeps_conj keeps_of_monitor)
next
  case (4 p T s g f t)
  then have "(\<lambda>x. pending ((f(t := wake (f t))) x)) = (\<lambda>x. pending (f x))" by auto
  with 4 show ?case by (simp add: rwm_spurious_gate)
qed

section \<open>Properties\<close>

text \<open>C2. Bounded concurrency: in every execution of the monitor, spurious wake-ups included, no
  assertion fails, readers and writers never hold it together, and never more than
  \<^verbatim>\<open>n_max_readers\<close> readers or \<^verbatim>\<open>n_max_writers\<close> writers hold it.\<close>

theorem rwm_bounded_exclusion:
  assumes "thread_ids T" "rwm_n_locks m = 0"
    and run: "reach (rwm_obj D) sp T (rwm_setup m mr mw) (0, 0) c"
  shows "\<not> aborted c \<and> rw_exclusive T (unat mr) (unat mw) (ghost c) \<and>
    rwm_n_locks (shared c) = of_nat (rd_holds T (ghost c) + wr_holds T (ghost c))"
proof -
  let ?p = "(D, m, mr, mw)"
  have v: "rwm_valid ?p T" using assms(1,2) by (simp add: rwm_valid_def)
  have run': "reach (rwm_run_obj ?p) sp T (rwm_run_start ?p) (0, 0) c"
    using run by (simp add: rwm_run_obj_def rwm_run_start_def)
  show ?thesis
    using rwm.always_exclusive [OF v run'] rwm.monitor_inv [OF v run']
    by (simp add: rwm_run_inv_def rwm_inv_def rwm_counts_def)
qed

text \<open>A lock in static storage, all zero before \<^verbatim>\<open>rw_lock_init\<close> as in
  \<^verbatim>\<open>bridge.c\<close>.\<close>

definition rwm_static :: rw_mon where
  "rwm_static = \<lparr>rwm_dont_allow_readers = False, rwm_dont_allow_writers = False, rwm_n_locks = 0,
     rwm_n_reader_waiting = 0, rwm_n_writer_waiting = 0, rwm_is_locked_by_reader = False,
     rwm_is_locked_by_writer = False, rwm_n_max_readers = 0, rwm_n_max_writers = 0\<rparr>"

lemmas rwm_run_simps = start_def rwm_setup_def rwm_init_def rwm_set_max_readers_writers_def
  rwm_static_def sync_defs held_locks_def

theorem rwm_bounded_exclusion_witness:
  "\<exists>c. execute (rwm_obj 1) True [1, 2, 3, 4]
         [Call 1 Rd_lock [], Call 2 Rd_lock [], Call 3 Rd_lock [], Call 4 Wr_lock [], Spurious 3]
         (start (rwm_setup rwm_static 2 1) (0, 0)) = Some c \<and>
       rd_holds {1, 2, 3, 4} (ghost c) \<le> 2 \<and> ghost c 2 = (1, 0) \<and> \<not> is_blocked (status c 3)"
proof -
  let ?run = "execute (rwm_obj 1) True [1, 2, 3, 4]
    [Call 1 Rd_lock [], Call 2 Rd_lock [], Call 3 Rd_lock [], Call 4 Wr_lock [], Spurious 3]
    (start (rwm_setup rwm_static 2 1) (0, 0))"
  obtain c where c: "?run = Some c" "ghost c 2 = (1, 0)" "\<not> is_blocked (status c 3)"
    by (simp add: rwm_run_simps)
  have "thread_ids {1, 2, 3, 4}" "rwm_n_locks rwm_static = 0"
    by (simp_all add: thread_ids_def rwm_static_def)
  from rwm_bounded_exclusion [OF this, of 1 True 2 1 c] execute_reach [OF c(1)] c
  show ?thesis by (simp add: rw_exclusive_def)
qed

text \<open>A free monitor with somebody asleep: a thread of the other kind has been woken, and is granted the lock.\<close>

lemma rwm_handed_granted:
  assumes handed: "rwm_handed s f" and free: "\<not> rwm_is_locked_by_reader s" "\<not> rwm_is_locked_by_writer s" "rwm_n_locks s = 0"
    and lim: "rwm_n_max_readers s \<noteq> 0" "rwm_n_max_writers s \<noteq> 0" and t: "f t = Blocked (rwm_cv_of k) k"
  shows "(case k of Rd_wait \<Rightarrow> rwm_dont_allow_readers s | Wr_wait \<Rightarrow> rwm_dont_allow_writers s) \<and>
    (\<exists>u k' s'. u \<noteq> t \<and> k' \<noteq> k \<and> f u = Woken k' \<and> rwm_resume u k' s =
      Unlocked s' (case k' of Rd_wait \<Rightarrow> Rd_granted | Wr_wait \<Rightarrow> Wr_granted) [])"
proof (cases k)
  case Rd_wait
  then have "blocked_on Cv_reader (f t)" using t by simp
  with handed have dr: "rwm_dont_allow_readers s" "\<not> rwm_dont_allow_writers s" by (auto simp: rwm_handed_def)
  then obtain u where u: "f u = Woken Wr_wait" using handed by (auto simp: rwm_handed_def)
  then have "\<exists>s'. rwm_resume u Wr_wait s = Unlocked s' Wr_granted []" "u \<noteq> t"
    using dr free lim t by (auto simp: sync_defs Let_def)
  with u dr Rd_wait show ?thesis by (auto intro!: exI [of _ u] exI [of _ Wr_wait])
next
  case Wr_wait
  then have "blocked_on Cv_writer (f t)" using t by simp
  with handed have dr: "rwm_dont_allow_writers s" "\<not> rwm_dont_allow_readers s" by (auto simp: rwm_handed_def)
  then obtain u where u: "f u = Woken Rd_wait" using handed by (auto simp: rwm_handed_def)
  then have "\<exists>s'. rwm_resume u Rd_wait s = Unlocked s' Rd_granted []" "u \<noteq> t"
    using dr free lim t by (auto simp: sync_defs Let_def)
  with u dr Wr_wait show ?thesis by (auto intro!: exI [of _ u] exI [of _ Rd_wait])
qed

text \<open>C17. The hand-over loses nobody: with both limits positive, whenever the monitor is free and a
  thread is blocked in one of the lock operations, some thread has been woken that is granted the
  lock when it runs next; and the threads still blocked are of the kind that a
  \<^verbatim>\<open>dont_allow\<close> flag shuts out.\<close>

theorem rwm_handover:
  assumes "thread_ids T" "rwm_n_locks m = 0" "mr \<noteq> 0" "mw \<noteq> 0"
    and run: "reach (rwm_obj D) sp T (rwm_setup m mr mw) (0, 0) c"
    and free: "\<not> rwm_is_locked_by_reader (shared c)" "\<not> rwm_is_locked_by_writer (shared c)"
    and "status c t = Blocked cv k"
  shows "(case k of Rd_wait \<Rightarrow> rwm_dont_allow_readers (shared c)
                | Wr_wait \<Rightarrow> rwm_dont_allow_writers (shared c)) \<and>
    (\<exists>u k' s. u \<noteq> t \<and> k' \<noteq> k \<and> status c u = Woken k' \<and> rwm_resume u k' (shared c) =
      Unlocked s (case k' of Rd_wait \<Rightarrow> Rd_granted | Wr_wait \<Rightarrow> Wr_granted) [])"
proof -
  let ?p = "(D, m, mr, mw)"
  have v: "rwm_live ?p T" using assms(1-4) by (simp add: rwm_valid_def rwm_live_def)
  have "reach (rwm_obj D) True T (rwm_setup m mr mw) (0, 0) c"
    using run reach_mono [of "rwm_obj D" T "rwm_setup m mr mw" "(0, 0)" c True] by (cases sp) auto
  then have "reach (rwm_run_obj ?p) True T (rwm_run_start ?p) (0, 0) c"
    by (simp add: rwm_run_obj_def rwm_run_start_def)
  from rwm_live.reachable_inv [OF v this]
  have inv: "rwm_inv T mr mw (shared c) (ghost c) (\<lambda>x. pending (status c x))"
    and gate: "waits_as T rwm_cv_of (status c)" "rwm_handed (shared c) (status c)"
    using free by (auto simp: rwm_run_inv_def rwm_gate_def rwm_free_def)
  have n: "rwm_n_locks (shared c) = 0" using inv by (cases rule: rwm_modes) (use free in auto)
  have lim: "rwm_n_max_readers (shared c) = mr" "rwm_n_max_writers (shared c) = mw"
    using inv by (auto simp: rwm_inv_def)
  have "status c t = Blocked (rwm_cv_of k) k" using gate(1) assms(8) by (simp add: waits_as_def)
  then show ?thesis using rwm_handed_granted [OF gate(2) free n] lim assms(3,4) by simp
qed

theorem rwm_handover_witness:
  "\<exists>c. execute (rwm_obj 1) False [1, 2, 3]
         [Call 1 Wr_lock [], Call 2 Rd_lock [], Call 3 Wr_lock [], Call 1 Rw_unlock []]
         (start (rwm_setup rwm_static 2 1) (0, 0)) = Some c \<and>
       rwm_dont_allow_writers (shared c) \<and> (\<exists>u. status c u = Woken Rd_wait)"
proof -
  let ?run = "execute (rwm_obj 1) False [1, 2, 3]
    [Call 1 Wr_lock [], Call 2 Rd_lock [], Call 3 Wr_lock [], Call 1 Rw_unlock []]
    (start (rwm_setup rwm_static 2 1) (0, 0))"
  obtain c where c: "?run = Some c" "\<not> rwm_is_locked_by_reader (shared c)"
      "\<not> rwm_is_locked_by_writer (shared c)" "status c 3 = Blocked Cv_writer Wr_wait"
    by (simp add: rwm_run_simps wake_all_def)
  have "thread_ids {1, 2, 3}" "rwm_n_locks rwm_static = 0"
    by (simp_all add: thread_ids_def rwm_static_def)
  from rwm_handover [OF this, of 2 1 1 False c 3 Cv_writer Wr_wait] execute_reach [OF c(1)] c
  show ?thesis by (auto split: rw_wait.splits) (metis rw_wait.exhaust)+
qed

end
