(* ===== verification/RwCustom.thy ===== *)
theory RwCustom
  imports RwSpec
begin

text \<open>
  The read-write lock with a bias of \<^verbatim>\<open>customizable_rw_locks/rw_locks.c\<close>: bounded numbers of
  readers and writers as in the monitor, and a \<^verbatim>\<open>biasedness\<close> that selects the condition
  variable on which a thread waits and whom an exiting thread signals.
\<close>

section \<open>The code\<close>

record rw_cust =
  rwc_n_locks :: u16
  rwc_n_reader_waiting :: u16
  rwc_n_writer_waiting :: u16
  rwc_is_locked_by_reader :: bool
  rwc_is_locked_by_writer :: bool
  rwc_n_max_readers :: u16
  rwc_n_max_writers :: u16
  rwc_biasedness :: u8
  rwc_who_used_cs :: bool

datatype rwc_cv = Cv | Cv_readers | Cv_writers

type_synonym rwc_sect = "(rw_cust, rw_result, rwc_cv, rw_wait) sect"

definition bias_neutral :: u8 where [simp]: "bias_neutral = 0"
definition bias_readers :: u8 where [simp]: "bias_readers = 1"
definition bias_writers :: u8 where [simp]: "bias_writers = 2"
definition bias_opposite :: u8 where [simp]: "bias_opposite = 3"

text \<open>\<^verbatim>\<open>rw_lock_init\<close> does not write \<open>n_locks\<close>. The two setters are called, without the
  mutex, before the threads of a run start: the limits and the bias are constant in a run.\<close>

definition rwc_init :: "rw_cust \<Rightarrow> rw_cust" where
  "rwc_init s = s\<lparr>rwc_n_reader_waiting := 0, rwc_n_writer_waiting := 0,
     rwc_is_locked_by_reader := False, rwc_is_locked_by_writer := False,
     rwc_n_max_readers := 0xFFFF, rwc_n_max_writers := 1,
     rwc_biasedness := bias_neutral, rwc_who_used_cs := True\<rparr>"

definition rwc_set_max_readers_writers :: "u16 \<Rightarrow> u16 \<Rightarrow> rw_cust \<Rightarrow> rw_cust" where
  "rwc_set_max_readers_writers max_readers max_writers s =
     s\<lparr>rwc_n_max_readers := max_readers, rwc_n_max_writers := max_writers\<rparr>"

definition rwc_set_biasedness :: "u8 \<Rightarrow> rw_cust \<Rightarrow> rw_cust" where
  "rwc_set_biasedness biasedness s = s\<lparr>rwc_biasedness := biasedness\<rparr>"

definition rwc_was_cs_used_by_reader_last_time :: "rw_cust \<Rightarrow> bool" where
  [sync_defs]: "rwc_was_cs_used_by_reader_last_time s = rwc_who_used_cs s"

definition rwc_was_cs_used_by_writer_last_time :: "rw_cust \<Rightarrow> bool" where
  [sync_defs]: "rwc_was_cs_used_by_writer_last_time s = (\<not> rwc_who_used_cs s)"

text \<open>\<^verbatim>\<open>rw_lock_block_reader_thread\<close> up to its \<open>pthread_cond_wait\<close>, and after it.\<close>

definition rwc_block_reader_thread :: "rw_cust \<Rightarrow> rwc_sect" where
  [sync_defs]: "rwc_block_reader_thread s =
     (let s1 = s\<lparr>rwc_n_reader_waiting := rwc_n_reader_waiting s + 1\<rparr> in
      if rwc_biasedness s = bias_neutral then CvWait s1 Cv Rd_wait []
      else if rwc_biasedness s = bias_readers then CvWait s1 Cv_readers Rd_wait []
      else Aborted)"

definition rwc_unblock_reader_thread :: "rw_cust \<Rightarrow> rw_cust" where
  [sync_defs]: "rwc_unblock_reader_thread s =
     s\<lparr>rwc_n_reader_waiting := rwc_n_reader_waiting s - 1\<rparr>"

text \<open>\<^verbatim>\<open>rw_lock_block_writer_thread\<close>: the case of the writers' bias has no \<^verbatim>\<open>break\<close>, so
  the woken thread falls through into \<^verbatim>\<open>assert(0)\<close> (\<open>None\<close>).\<close>

definition rwc_block_writer_thread :: "rw_cust \<Rightarrow> rwc_sect" where
  [sync_defs]: "rwc_block_writer_thread s =
     (let s1 = s\<lparr>rwc_n_writer_waiting := rwc_n_writer_waiting s + 1\<rparr> in
      if rwc_biasedness s = bias_neutral then CvWait s1 Cv Wr_wait []
      else if rwc_biasedness s = bias_readers then Aborted
      else if rwc_biasedness s = bias_writers then CvWait s1 Cv_writers Wr_wait []
      else Aborted)"

definition rwc_unblock_writer_thread :: "rw_cust \<Rightarrow> rw_cust option" where
  [sync_defs]: "rwc_unblock_writer_thread s =
     (if rwc_biasedness s = bias_writers then None
      else Some (s\<lparr>rwc_n_writer_waiting := rwc_n_writer_waiting s - 1\<rparr>))"

text \<open>\<^verbatim>\<open>rw_lock_signal\<close>: the wake-ups it sends, \<open>None\<close> for the failed assertion. The calls of
  \<^verbatim>\<open>pthread_cond_signal(&rw_lock->cv_readers)\<close> in the branches for waiting writers are the
  code's.\<close>

definition rwc_wakeup :: "bool \<Rightarrow> rwc_cv \<Rightarrow> rwc_cv \<Rightarrow> rwc_cv wakeup list" where
  [sync_defs]: "rwc_wakeup broadcast cv_all cv_one =
     (if broadcast then [Broadcast cv_all] else [Signal cv_one])"

definition rwc_signal :: "rw_cust \<Rightarrow> bool \<Rightarrow> bool \<Rightarrow> rwc_cv wakeup list option" where
  [sync_defs]: "rwc_signal s broadcast exit_thread_is_reader =
     (if rwc_n_reader_waiting s = 0 \<and> rwc_n_writer_waiting s = 0 then Some []
      else if rwc_biasedness s = bias_neutral then Some [Broadcast Cv]
      else if rwc_biasedness s = bias_readers
      then (if rwc_n_reader_waiting s \<noteq> 0 then Some (rwc_wakeup broadcast Cv_readers Cv_readers)
            else Some (rwc_wakeup broadcast Cv_writers Cv_readers))
      else if rwc_biasedness s = bias_writers
      then (if rwc_n_writer_waiting s \<noteq> 0 then Some (rwc_wakeup broadcast Cv_writers Cv_writers)
            else Some (rwc_wakeup broadcast Cv_readers Cv_readers))
      else if rwc_biasedness s = bias_opposite
      then (if exit_thread_is_reader
            then (if rwc_n_writer_waiting s \<noteq> 0
                  then Some (rwc_wakeup broadcast Cv_writers Cv_writers)
                  else Some (rwc_wakeup broadcast Cv_readers Cv_readers))
            else (if rwc_n_reader_waiting s \<noteq> 0
                  then Some (rwc_wakeup broadcast Cv_readers Cv_readers)
                  else Some (rwc_wakeup broadcast Cv_writers Cv_readers)))
      else None)"

text \<open>\<^verbatim>\<open>rw_lock_rd_lock\<close> from its label \<^verbatim>\<open>EVALUATE_ALL_CONDNS_AGAIN2\<close>: both loops come
  back to it, the second by \<^verbatim>\<open>goto\<close>, the first by testing its condition again.\<close>

definition rwc_rd_lock :: "rw_cust \<Rightarrow> rwc_sect" where
  [sync_defs]: "rwc_rd_lock s =
     (if rwc_is_locked_by_writer s \<or> rwc_n_locks s = rwc_n_max_readers s
      then rwc_block_reader_thread s
      else if rwc_n_locks s = 0 \<and> rwc_n_writer_waiting s \<noteq> 0 \<and> rwc_biasedness s = bias_opposite \<and>
        rwc_was_cs_used_by_reader_last_time s
      then rwc_block_reader_thread s
      else let s1 = (if rwc_n_locks s = 0 then s\<lparr>rwc_is_locked_by_reader := True\<rparr> else s)
           in Unlocked (s1\<lparr>rwc_n_locks := rwc_n_locks s1 + 1\<rparr>) Rd_granted [])"

definition rwc_rd_lock_resume :: "rw_cust \<Rightarrow> rwc_sect" where
  [sync_defs]: "rwc_rd_lock_resume s = rwc_rd_lock (rwc_unblock_reader_thread s)"

definition rwc_wr_lock :: "rw_cust \<Rightarrow> rwc_sect" where
  [sync_defs]: "rwc_wr_lock s =
     (if rwc_is_locked_by_reader s \<or> rwc_n_locks s = rwc_n_max_writers s
      then rwc_block_writer_thread s
      else if rwc_n_locks s = 0 \<and> rwc_n_reader_waiting s \<noteq> 0 \<and> rwc_biasedness s = bias_opposite \<and>
        rwc_was_cs_used_by_writer_last_time s
      then rwc_block_writer_thread s
      else let s1 = (if rwc_n_locks s = 0 then s\<lparr>rwc_is_locked_by_writer := True\<rparr> else s)
           in Unlocked (s1\<lparr>rwc_n_locks := rwc_n_locks s1 + 1\<rparr>) Wr_granted [])"

definition rwc_wr_lock_resume :: "rw_cust \<Rightarrow> rwc_sect" where
  [sync_defs]: "rwc_wr_lock_resume s =
     (case rwc_unblock_writer_thread s of None \<Rightarrow> Aborted | Some s1 \<Rightarrow> rwc_wr_lock s1)"

definition rwc_leave :: "rw_cust \<Rightarrow> rwc_cv wakeup list option \<Rightarrow> rwc_sect" where
  [sync_defs]: "rwc_leave s signals =
     (case signals of None \<Rightarrow> Aborted | Some ss \<Rightarrow> Unlocked s Rw_released ss)"

definition rwc_unlock :: "rw_cust \<Rightarrow> rwc_sect" where
  [sync_defs]: "rwc_unlock s =
     check (rwc_n_locks s \<noteq> 0)
       (let s1 = s\<lparr>rwc_n_locks := rwc_n_locks s - 1\<rparr> in
        if rwc_is_locked_by_writer s1
        then (if rwc_n_locks s1 = 0
              then let s2 = s1\<lparr>rwc_is_locked_by_writer := False, rwc_who_used_cs := False\<rparr>
                   in rwc_leave s2 (rwc_signal s2 True False)
              else if rwc_n_writer_waiting s1 \<noteq> 0
              then (if rwc_biasedness s1 = bias_neutral then rwc_leave s1 (rwc_signal s1 True False)
                    else Unlocked s1 Rw_released [Signal Cv_writers])
              else Unlocked s1 Rw_released [])
        else if rwc_is_locked_by_reader s1
        then (if rwc_n_locks s1 = 0
              then let s2 = s1\<lparr>rwc_is_locked_by_reader := False, rwc_who_used_cs := True\<rparr>
                   in rwc_leave s2 (rwc_signal s2 True True)
              else if rwc_n_reader_waiting s1 \<noteq> 0
              then (if rwc_biasedness s1 = bias_neutral then rwc_leave s1 (rwc_signal s1 True True)
                    else Unlocked s1 Rw_released [Signal Cv_readers])
              else Unlocked s1 Rw_released [])
        else Unlocked s1 Rw_released [])"

definition rwc_destroy :: "rw_cust \<Rightarrow> bool" where
  "rwc_destroy s \<longleftrightarrow> rwc_n_locks s = 0 \<and> rwc_n_reader_waiting s = 0 \<and>
     rwc_n_writer_waiting s = 0 \<and> \<not> rwc_is_locked_by_writer s \<and> \<not> rwc_is_locked_by_reader s"

section \<open>The object\<close>

fun rwc_enter :: "tid \<Rightarrow> rw_op \<Rightarrow> rw_cust \<Rightarrow> rwc_sect" where
  "rwc_enter self Rd_lock s = rwc_rd_lock s"
| "rwc_enter self Wr_lock s = rwc_wr_lock s"
| "rwc_enter self Rw_unlock s = rwc_unlock s"

fun rwc_resume :: "tid \<Rightarrow> rw_wait \<Rightarrow> rw_cust \<Rightarrow> rwc_sect" where
  "rwc_resume self Rd_wait s = rwc_rd_lock_resume s"
| "rwc_resume self Wr_wait s = rwc_wr_lock_resume s"

definition rwc_obj :: "nat \<Rightarrow> (rw_cust, rw_held, rw_op, rw_wait, rwc_cv, rw_result) obj" where
  "rwc_obj D = \<lparr>enter = rwc_enter, resume = rwc_resume, may_call = rw_client D, on_return = rw_hold\<rparr>"

lemma rwc_obj_simps [simp]:
  "enter (rwc_obj D) = rwc_enter" "resume (rwc_obj D) = rwc_resume"
  "may_call (rwc_obj D) = rw_client D" "on_return (rwc_obj D) = rw_hold"
  by (simp_all add: rwc_obj_def)

definition rwc_setup :: "rw_cust \<Rightarrow> u16 \<Rightarrow> u16 \<Rightarrow> u8 \<Rightarrow> rw_cust" where
  "rwc_setup m mr mw bias =
     rwc_set_biasedness bias (rwc_set_max_readers_writers mr mw (rwc_init m))"

section \<open>The invariant of the neutral lock\<close>

definition rwc_inv :: "tid set \<Rightarrow> u16 \<Rightarrow> u16 \<Rightarrow> rw_cust \<Rightarrow> (tid \<Rightarrow> rw_held) \<Rightarrow>
  (tid \<Rightarrow> rw_wait option) \<Rightarrow> bool" where
  "rwc_inv T mr mw s g w \<longleftrightarrow>
     (rwc_is_locked_by_reader s \<longleftrightarrow> 0 < rd_holds T g) \<and>
     (rwc_is_locked_by_writer s \<longleftrightarrow> 0 < wr_holds T g) \<and>
     \<not> (rwc_is_locked_by_reader s \<and> rwc_is_locked_by_writer s) \<and>
     rwc_n_locks s = of_nat (rd_holds T g + wr_holds T g) \<and>
     rwc_n_reader_waiting s = of_nat (waiters T (\<lambda>k. k = Rd_wait) w) \<and>
     rwc_n_writer_waiting s = of_nat (waiters T (\<lambda>k. k = Wr_wait) w) \<and>
     rwc_n_max_readers s = mr \<and> rwc_n_max_writers s = mw \<and> rwc_biasedness s = bias_neutral \<and>
     rd_holds T g \<le> unat mr \<and> wr_holds T g \<le> unat mw"

lemma rwc_modes:
  assumes "rwc_inv T mr mw s g w"
  obtains (free) "\<not> rwc_is_locked_by_reader s" "\<not> rwc_is_locked_by_writer s"
      "rwc_n_locks s = 0" "rd_holds T g = 0" "wr_holds T g = 0"
    | (reading) "rwc_is_locked_by_reader s" "\<not> rwc_is_locked_by_writer s"
      "rwc_n_locks s = of_nat (rd_holds T g)"
      "0 < rd_holds T g" "rd_holds T g \<le> unat mr" "wr_holds T g = 0"
    | (writing) "\<not> rwc_is_locked_by_reader s" "rwc_is_locked_by_writer s"
      "rwc_n_locks s = of_nat (wr_holds T g)"
      "0 < wr_holds T g" "wr_holds T g \<le> unat mw" "rd_holds T g = 0"
  using assms unfolding rwc_inv_def
  by (cases "rwc_is_locked_by_reader s"; cases "rwc_is_locked_by_writer s") auto

lemmas rwc_keeps_simps = sync_defs rwc_inv_def waiter_simps hold_simps

lemma rwc_lock_keeps:
  assumes "finite T" "rwc_inv T mr mw s g w" "t \<in> T" "w t = None"
  shows "keeps_monitor (rwc_obj D) (rwc_inv T mr mw) t g w (rwc_rd_lock s)"
    and "keeps_monitor (rwc_obj D) (rwc_inv T mr mw) t g w (rwc_wr_lock s)"
proof -
  from assms(2) have "keeps_monitor (rwc_obj D) (rwc_inv T mr mw) t g w (rwc_rd_lock s) \<and>
    keeps_monitor (rwc_obj D) (rwc_inv T mr mw) t g w (rwc_wr_lock s)"
  proof (cases rule: rwc_modes)
    case free
    then show ?thesis using assms by (simp add: rwc_keeps_simps Let_def unat_u16_pos)
  next
    case reading
    then show ?thesis using assms u16_limit [OF reading(5)]
      by (simp add: rwc_keeps_simps Let_def)
  next
    case writing
    then show ?thesis using assms u16_limit [OF writing(5)]
      by (simp add: rwc_keeps_simps Let_def)
  qed
  then show "keeps_monitor (rwc_obj D) (rwc_inv T mr mw) t g w (rwc_rd_lock s)"
    and "keeps_monitor (rwc_obj D) (rwc_inv T mr mw) t g w (rwc_wr_lock s)" by auto
qed

lemma rwc_rd_resume_keeps:
  assumes "finite T" "rwc_inv T mr mw s g w" "t \<in> T" "w t = Some Rd_wait"
  shows "keeps_monitor (rwc_obj D) (rwc_inv T mr mw) t g w (rwc_rd_lock_resume s)"
  using assms(2)
proof (cases rule: rwc_modes)
  case free
  then show ?thesis using assms by (simp add: rwc_keeps_simps Let_def unat_u16_pos)
next
  case reading
  then show ?thesis using assms u16_limit [OF reading(5)] by (simp add: rwc_keeps_simps Let_def)
next
  case writing
  then show ?thesis using assms by (simp add: rwc_keeps_simps Let_def)
qed

lemma rwc_wr_resume_keeps:
  assumes "finite T" "rwc_inv T mr mw s g w" "t \<in> T" "w t = Some Wr_wait"
  shows "keeps_monitor (rwc_obj D) (rwc_inv T mr mw) t g w (rwc_wr_lock_resume s)"
  using assms(2)
proof (cases rule: rwc_modes)
  case free
  then show ?thesis using assms by (simp add: rwc_keeps_simps Let_def unat_u16_pos)
next
  case reading
  then show ?thesis using assms by (simp add: rwc_keeps_simps Let_def)
next
  case writing
  then show ?thesis using assms u16_limit [OF writing(5)] by (simp add: rwc_keeps_simps Let_def)
qed

lemma rwc_unlock_keeps:
  assumes "finite T" "rwc_inv T mr mw s g w" "t \<in> T" "w t = None" "0 < held_locks (g t)"
  shows "keeps_monitor (rwc_obj D) (rwc_inv T mr mw) t g w (rwc_unlock s)"
  using assms(2)
proof (cases rule: rwc_modes)
  case free
  then show ?thesis using assms(1,3,5) by (simp add: rd_holds_0 wr_holds_0 held_locks_def)
next
  case reading
  let ?g = "g(t := rw_hold Rw_released (g t))"
  have own: "snd (g t) = 0" "0 < fst (g t)"
    using reading assms(1,3,5) by (auto simp: wr_holds_0 held_locks_def)
  have rel: "rd_holds T g = Suc (rd_holds T ?g)" "wr_holds T ?g = wr_holds T g"
    using holds_release_rd [of T t g] assms(1,3) own by auto
  have le: "rd_holds T ?g \<le> unat mr" using rel(1) reading(5) by simp
  show ?thesis using reading assms(2-4) rel u16_limit(1) [OF reading(5)] u16_limit(1) [OF le]
    by (simp add: rwc_keeps_simps Let_def)
next
  case writing
  let ?g = "g(t := rw_hold Rw_released (g t))"
  have own: "0 < snd (g t)"
    using writing assms(1,3,5) by (auto simp: rd_holds_0 held_locks_def)
  have rel: "rd_holds T ?g = rd_holds T g" "wr_holds T g = Suc (wr_holds T ?g)"
    using holds_release_wr [of T t g] assms(1,3) own by auto
  have le: "wr_holds T ?g \<le> unat mw" using rel(2) writing(5) by simp
  show ?thesis using writing assms(2-4) rel u16_limit(1) [OF writing(5)] u16_limit(1) [OF le]
    by (simp add: rwc_keeps_simps Let_def)
qed

section \<open>The contract and the wake-ups\<close>

text \<open>A run: its nesting bound, the memory of the lock, the two limits. The bias is neutral.\<close>

type_synonym rwc_run = "nat \<times> rw_cust \<times> u16 \<times> u16"

definition rwc_run_obj :: "rwc_run \<Rightarrow> (rw_cust, rw_held, rw_op, rw_wait, rwc_cv, rw_result) obj" where
  "rwc_run_obj p = rwc_obj (fst p)"

definition rwc_run_start :: "rwc_run \<Rightarrow> rw_cust" where
  "rwc_run_start p = (case p of (D, m, mr, mw) \<Rightarrow> rwc_setup m mr mw bias_neutral)"

definition rwc_run_inv :: "rwc_run \<Rightarrow> tid set \<Rightarrow> rw_cust \<Rightarrow> (tid \<Rightarrow> rw_held) \<Rightarrow>
  (tid \<Rightarrow> rw_wait option) \<Rightarrow> bool" where
  "rwc_run_inv p T = (case p of (D, m, mr, mw) \<Rightarrow> rwc_inv T mr mw)"

definition rwc_valid :: "rwc_run \<Rightarrow> tid set \<Rightarrow> bool" where
  "rwc_valid p T \<longleftrightarrow> thread_ids T \<and> rwc_n_locks (fst (snd p)) = 0"

interpretation rwc: rw_lock_contract rwc_valid rwc_run_obj rwc_run_start rwc_run_inv
  "\<lambda>p T. unat (fst (snd (snd p)))" "\<lambda>p T. unat (snd (snd (snd p)))"
proof (unfold_locales, goal_cases)
  case (1 p T)
  then show ?case
    by (cases p) (simp add: rwc_valid_def rwc_run_inv_def rwc_run_start_def rwc_inv_def
        rwc_setup_def rwc_init_def rwc_set_max_readers_writers_def rwc_set_biasedness_def)
next
  case (2 p T s g w t op)
  then have "finite T" by (auto simp: rwc_valid_def)
  with 2 show ?case
    by (cases p; cases op) (auto simp: rwc_run_inv_def rwc_run_obj_def
        intro!: rwc_lock_keeps rwc_unlock_keeps)
next
  case (3 p T s g w t k)
  then have "finite T" by (auto simp: rwc_valid_def)
  with 3 show ?case
    by (cases p; cases k) (auto simp: rwc_run_inv_def rwc_run_obj_def
        intro!: rwc_rd_resume_keeps rwc_wr_resume_keeps)
next
  case (4 p T s g w)
  then have "finite T" by (auto simp: rwc_valid_def)
  moreover obtain D m mr mw where p: "p = (D, m, mr, mw)" by (cases p)
  with 4 have "rwc_inv T mr mw s g w" by (simp add: rwc_run_inv_def)
  ultimately show ?case
    using p by (auto simp: rw_exclusive_def rwc_inv_def)
qed

definition rwc_free :: "rw_cust \<Rightarrow> bool" where
  "rwc_free s \<longleftrightarrow> \<not> rwc_is_locked_by_reader s \<and> \<not> rwc_is_locked_by_writer s"

definition rwc_live :: "rwc_run \<Rightarrow> tid set \<Rightarrow> bool" where
  "rwc_live p T \<longleftrightarrow> rwc_valid p T \<and> fst (snd (snd p)) \<noteq> 0 \<and> snd (snd (snd p)) \<noteq> 0"

lemma rwc_others_counted:
  assumes "thread_ids T" "rwc_inv T mr mw s g w" "others_wait T t w"
  shows "rwc_n_reader_waiting s \<noteq> 0 \<or> rwc_n_writer_waiting s \<noteq> 0"
proof -
  from assms(3) obtain u k where u: "u \<in> T" "w u = Some k" by (auto simp: others_wait_def)
  then have "0 < waiters T (\<lambda>k. k = Rd_wait) w \<or> 0 < waiters T (\<lambda>k. k = Wr_wait) w"
    using assms(1) by (cases k) (auto simp: waiters_pos thread_ids_finite)
  then show ?thesis
    using assms(1,2) by (auto simp: rwc_inv_def waiters_u16_zero)
qed

lemma rwc_unlock_hands_over:
  assumes "rwc_inv T mr mw s g w"
    and "others_wait T t w \<Longrightarrow> rwc_n_reader_waiting s \<noteq> 0 \<or> rwc_n_writer_waiting s \<noteq> 0"
    and "rwc_n_locks s \<noteq> 0"
  shows "hands_over_all rwc_free Cv (others_wait T t w) (rwc_unlock s)"
  using assms(1)
proof (cases rule: rwc_modes)
  case free
  then show ?thesis using assms(3) by simp
qed (use assms in \<open>auto simp: sync_defs rwc_inv_def rwc_free_def Let_def\<close>)

interpretation rwc_lock: broadcast_lock rwc_live rwc_run_obj rwc_run_start "(0, 0)" rwc_run_inv
  rwc_free Cv
proof (unfold_locales, goal_cases)
  case (1 p T)
  then show ?case using rwc.m_initially by (simp add: rwc_live_def)
next
  case (2 p T s g w t op)
  then show ?case by (intro rwc.m_call) (auto simp: rwc_live_def)
next
  case (3 p T s g w t k)
  then show ?case by (intro rwc.m_resume) (auto simp: rwc_live_def)
next
  case (4 p T s g w t op)
  obtain D m mr mw where p: "p = (D, m, mr, mw)" by (cases p)
  have T: "thread_ids T" and inv: "rwc_inv T mr mw s g w" and lim: "mr \<noteq> 0" "mw \<noteq> 0"
    using 4 p by (auto simp: rwc_live_def rwc_valid_def rwc_run_inv_def)
  have m: "rwc_n_max_readers s = mr" "rwc_n_max_writers s = mw" "rwc_biasedness s = 0"
    using inv by (auto simp: rwc_inv_def)
  show ?case
  proof (cases op)
    case Rw_unlock
    have "keeps_monitor (rwc_run_obj p) (rwc_run_inv p T) t g w (rwc_unlock s)"
      using 4 Rw_unlock rwc.m_call [of p T s g w t op] by (simp add: rwc_live_def rwc_run_obj_def)
    then have "rwc_n_locks s \<noteq> 0" by (auto simp: sync_defs split: if_splits)
    then show ?thesis
      using Rw_unlock rwc_unlock_hands_over [OF inv rwc_others_counted [OF T inv]]
      by (simp add: rwc_run_obj_def)
  next
    case Rd_lock
    from inv show ?thesis
      by (cases rule: rwc_modes)
        (use Rd_lock m lim in \<open>auto simp: rwc_run_obj_def sync_defs rwc_free_def Let_def\<close>)
  next
    case Wr_lock
    from inv show ?thesis
      by (cases rule: rwc_modes)
        (use Wr_lock m lim in \<open>auto simp: rwc_run_obj_def sync_defs rwc_free_def Let_def\<close>)
  qed
next
  case (5 p T s g w t k)
  obtain D m mr mw where p: "p = (D, m, mr, mw)" by (cases p)
  have inv: "rwc_inv T mr mw s g w" and lim: "mr \<noteq> 0" "mw \<noteq> 0"
    using 5 p by (auto simp: rwc_live_def rwc_valid_def rwc_run_inv_def)
  have m: "rwc_n_max_readers s = mr" "rwc_n_max_writers s = mw" "rwc_biasedness s = 0"
    using inv by (auto simp: rwc_inv_def)
  from inv show ?case
    by (cases rule: rwc_modes; cases k)
      (use m lim in \<open>auto simp: rwc_run_obj_def sync_defs rwc_free_def Let_def\<close>)
qed

section \<open>Properties\<close>

text \<open>With the neutral bias the lock is exclusive and bounded: in every execution, spurious
  wake-ups included, no assertion fails, readers and writers never hold it together, and never
  more than \<^verbatim>\<open>n_max_readers\<close> readers or \<^verbatim>\<open>n_max_writers\<close> writers hold it.\<close>

theorem rwc_neutral_exclusion:
  assumes "thread_ids T" "rwc_n_locks m = 0"
    and run: "reach (rwc_obj D) sp T (rwc_setup m mr mw bias_neutral) (0, 0) c"
  shows "\<not> aborted c \<and> rw_exclusive T (unat mr) (unat mw) (ghost c)"
proof -
  let ?p = "(D, m, mr, mw)"
  have v: "rwc_valid ?p T" using assms(1,2) by (simp add: rwc_valid_def)
  have "reach (rwc_run_obj ?p) sp T (rwc_run_start ?p) (0, 0) c"
    using run by (simp add: rwc_run_obj_def rwc_run_start_def)
  from rwc.always_exclusive [OF v this] show ?thesis by simp
qed

definition rwc_static :: rw_cust where
  "rwc_static = \<lparr>rwc_n_locks = 0, rwc_n_reader_waiting = 0, rwc_n_writer_waiting = 0,
     rwc_is_locked_by_reader = False, rwc_is_locked_by_writer = False, rwc_n_max_readers = 0,
     rwc_n_max_writers = 0, rwc_biasedness = 0, rwc_who_used_cs = False\<rparr>"

lemmas rwc_run_simps = start_def rwc_setup_def rwc_init_def rwc_set_max_readers_writers_def
  rwc_set_biasedness_def rwc_static_def sync_defs held_locks_def

theorem rwc_neutral_exclusion_witness:
  "\<exists>c. execute (rwc_obj 1) True [1, 2, 3]
         [Call 1 Rd_lock [], Call 2 Rd_lock [], Call 3 Wr_lock [], Spurious 3, Continue 3 []]
         (start (rwc_setup rwc_static 2 1 bias_neutral) (0, 0)) = Some c \<and>
       ghost c 2 = (1, 0) \<and> wr_holds {1, 2, 3} (ghost c) \<le> 1"
proof -
  let ?run = "execute (rwc_obj 1) True [1, 2, 3]
    [Call 1 Rd_lock [], Call 2 Rd_lock [], Call 3 Wr_lock [], Spurious 3, Continue 3 []]
    (start (rwc_setup rwc_static 2 1 bias_neutral) (0, 0))"
  obtain c where c: "?run = Some c" "ghost c 2 = (1, 0)" by (simp add: rwc_run_simps)
  have "thread_ids {1, 2, 3}" "rwc_n_locks rwc_static = 0"
    by (simp_all add: thread_ids_def rwc_static_def)
  from rwc_neutral_exclusion [OF this, of 1 True 2 1 c] execute_reach [OF c(1)] c
  show ?thesis by (simp add: rw_exclusive_def)
qed

text \<open>With the neutral bias and positive limits no wake-up is lost: whenever nobody holds the
  lock, every thread inside a lock operation has been woken and, run next, is granted the lock.\<close>

theorem rwc_neutral_no_lost_wakeup:
  assumes "thread_ids T" "rwc_n_locks m = 0" "mr \<noteq> 0" "mw \<noteq> 0"
    and run: "reach (rwc_obj D) sp T (rwc_setup m mr mw bias_neutral) (0, 0) c"
    and free: "\<not> rwc_is_locked_by_reader (shared c)" "\<not> rwc_is_locked_by_writer (shared c)"
    and "pending (status c t) = Some k"
  shows "status c t = Woken k \<and> (\<exists>s. rwc_resume t k (shared c) =
      Unlocked s (case k of Rd_wait \<Rightarrow> Rd_granted | Wr_wait \<Rightarrow> Wr_granted) [])"
proof -
  let ?p = "(D, m, mr, mw)"
  have v: "rwc_live ?p T" using assms(1-4) by (simp add: rwc_valid_def rwc_live_def)
  have run': "reach (rwc_run_obj ?p) sp T (rwc_run_start ?p) (0, 0) c"
    using run by (simp add: rwc_run_obj_def rwc_run_start_def)
  have "rwc_free (shared c)" using free by (simp add: rwc_free_def)
  then have woken: "status c t = Woken k"
    using rwc_lock.free_none_blocked [OF v run'] assms(8) by simp
  have inv: "rwc_inv T mr mw (shared c) (ghost c) (\<lambda>x. pending (status c x))"
    using rwc_lock.monitor_inv [OF v run'] by (simp add: rwc_run_inv_def)
  then have "rwc_n_locks (shared c) = 0" by (cases rule: rwc_modes) (use free in auto)
  moreover have "rwc_n_max_readers (shared c) = mr" "rwc_n_max_writers (shared c) = mw"
    "rwc_biasedness (shared c) = 0" using inv by (auto simp: rwc_inv_def)
  ultimately show ?thesis
    using woken free assms(3,4) by (cases k) (simp_all add: sync_defs Let_def)
qed

theorem rwc_neutral_no_lost_wakeup_witness:
  "\<exists>c. execute (rwc_obj 1) False [1, 2, 3]
         [Call 1 Wr_lock [], Call 2 Rd_lock [], Call 3 Wr_lock [], Call 1 Rw_unlock []]
         (start (rwc_setup rwc_static 2 1 bias_neutral) (0, 0)) = Some c \<and>
       (\<exists>s. rwc_resume 3 Wr_wait (shared c) = Unlocked s Wr_granted [])"
proof -
  let ?run = "execute (rwc_obj 1) False [1, 2, 3]
    [Call 1 Wr_lock [], Call 2 Rd_lock [], Call 3 Wr_lock [], Call 1 Rw_unlock []]
    (start (rwc_setup rwc_static 2 1 bias_neutral) (0, 0))"
  obtain c where c: "?run = Some c" "\<not> rwc_is_locked_by_reader (shared c)"
      "\<not> rwc_is_locked_by_writer (shared c)" "pending (status c 3) = Some Wr_wait"
    by (simp add: rwc_run_simps wake_all_def)
  have "thread_ids {1, 2, 3}" "rwc_n_locks rwc_static = 0"
    by (simp_all add: thread_ids_def rwc_static_def)
  from rwc_neutral_no_lost_wakeup [OF this, of 2 1 1 False c 3 Wr_wait] execute_reach [OF c(1)] c
  show ?thesis by simp
qed

text \<open>Only the neutral bias is usable: with two threads and positive limits, the lock can run
  into a failing assertion exactly when its bias is another one.\<close>

theorem rwc_bias_abort:
  assumes "thread_ids T" "t \<in> T" "u \<in> T" "t \<noteq> u" "rwc_n_locks m = 0" "mr \<noteq> 0" "mw \<noteq> 0" "0 < D"
  shows "(\<exists>c. reach (rwc_obj D) sp T (rwc_setup m mr mw bias) (0, 0) c \<and> aborted c) \<longleftrightarrow>
    bias \<noteq> bias_neutral"
proof
  assume "\<exists>c. reach (rwc_obj D) sp T (rwc_setup m mr mw bias) (0, 0) c \<and> aborted c"
  then obtain c where c: "reach (rwc_obj D) sp T (rwc_setup m mr mw bias) (0, 0) c" "aborted c"
    by blast
  show "bias \<noteq> bias_neutral"
  proof
    assume "bias = bias_neutral"
    let ?p = "(D, m, mr, mw)"
    have v: "rwc_valid ?p T" using assms(1,5) by (simp add: rwc_valid_def)
    have "reach (rwc_run_obj ?p) sp T (rwc_run_start ?p) (0, 0) c"
      using c(1) \<open>bias = bias_neutral\<close> by (simp add: rwc_run_obj_def rwc_run_start_def)
    from rwc.monitor_not_aborted [OF v this] c(2) show False by simp
  qed
next
  assume bias: "bias \<noteq> bias_neutral"
  let ?ob = "rwc_obj D" and ?s = "rwc_setup m mr mw bias"
  define first where "first = (if bias = bias_writers then Wr_lock else Rd_lock)"
  define second where "second = (if bias = bias_writers then Rd_lock else Wr_lock)"
  obtain s r where 1: "rwc_enter t first ?s = Unlocked s r []"
    and 2: "rwc_enter u second s = Aborted"
    using bias assms(5-7)
    by (cases "bias = bias_writers") (simp_all add: first_def second_def rwc_run_simps Let_def)
  let ?c = "(start ?s (0, 0))\<lparr>shared := s, ghost := (\<lambda>_. (0, 0))(t := rw_hold r (0, 0))\<rparr>"
  have "step ?ob sp T (start ?s (0, 0)) ?c"
    using assms(2,8) 1 by (intro step.call [of _ t _ _ first])
      (auto simp: start_def first_def held_locks_def)
  moreover have "step ?ob sp T ?c (?c\<lparr>aborted := True\<rparr>)"
    using assms(3,4,8) 2 by (intro step.call [of _ u _ _ second])
      (auto simp: start_def second_def held_locks_def)
  ultimately have "reach ?ob sp T ?s (0, 0) (?c\<lparr>aborted := True\<rparr>)"
    by (blast intro: reach.intros)
  then show "\<exists>c. reach ?ob sp T ?s (0, 0) c \<and> aborted c" by fastforce
qed

theorem rwc_bias_abort_witness:
  "\<exists>c. reach (rwc_obj 1) False {1, 2} (rwc_setup rwc_static 2 1 bias_opposite) (0, 0) c \<and> aborted c"
  using rwc_bias_abort [of "{1, 2}" 1 2 rwc_static 2 1 1 False bias_opposite]
  by (simp add: thread_ids_def rwc_static_def)

end
