(* ===== verification/Sema.thy ===== *)
theory Sema
  imports Schedules
begin

text \<open>
  The counting semaphore of \<^verbatim>\<open>Semaphores/sema.c\<close>. Its \<^verbatim>\<open>sema_wait\<close> waits once, in an
  \<^verbatim>\<open>if\<close> and not in a loop: the semaphore is correct exactly as long as
  \<^verbatim>\<open>pthread_cond_wait\<close> does not return spuriously.
\<close>

section \<open>The code\<close>

text \<open>\<^verbatim>\<open>permit_counter\<close> is a C \<^verbatim>\<open>int\<close>, taken as an integer: it stays between minus the
  number of threads and the initial value plus the number of posts.\<close>

record sema =
  permit_counter :: int

datatype sema_cv = Sema_cv
datatype sema_wait_point = Sema_wait_point
datatype sema_result = Sema_acquired | Sema_posted

type_synonym sema_sect = "(sema, sema_result, sema_cv, sema_wait_point) sect"

definition sema_init :: "int \<Rightarrow> sema \<Rightarrow> sema" where
  "sema_init permits s = s\<lparr>permit_counter := permits\<rparr>"

text \<open>\<^verbatim>\<open>calloc\<close> in \<^verbatim>\<open>sema_get_new_semaphore\<close>.\<close>

definition sema_get_new_semaphore :: sema where
  "sema_get_new_semaphore = \<lparr>permit_counter = 0\<rparr>"

definition sema_wait :: "sema \<Rightarrow> sema_sect" where
  [sync_defs]: "sema_wait s =
     (let s1 = s\<lparr>permit_counter := permit_counter s - 1\<rparr> in
      if permit_counter s1 < 0 then CvWait s1 Sema_cv Sema_wait_point []
      else Unlocked s1 Sema_acquired [])"

definition sema_wait_resume :: "sema \<Rightarrow> sema_sect" where
  [sync_defs]: "sema_wait_resume s = Unlocked s Sema_acquired []"

definition sema_post :: "sema \<Rightarrow> sema_sect" where
  [sync_defs]: "sema_post s =
     (let any_thread_waiting = permit_counter s < 0;
          s1 = s\<lparr>permit_counter := permit_counter s + 1\<rparr>
      in Unlocked s1 Sema_posted (if any_thread_waiting then [Signal Sema_cv] else []))"

definition sema_destroy :: "sema \<Rightarrow> sema" where
  "sema_destroy s = s\<lparr>permit_counter := 0\<rparr>"

definition sema_getvalue :: "sema \<Rightarrow> int" where
  "sema_getvalue s = permit_counter s"

section \<open>The object\<close>

datatype sema_op = Sema_wait | Sema_post

fun sema_enter :: "tid \<Rightarrow> sema_op \<Rightarrow> sema \<Rightarrow> sema_sect" where
  "sema_enter self Sema_wait s = sema_wait s"
| "sema_enter self Sema_post s = sema_post s"

definition sema_resume :: "tid \<Rightarrow> sema_wait_point \<Rightarrow> sema \<Rightarrow> sema_sect" where
  [sync_defs]: "sema_resume self k s = sema_wait_resume s"

text \<open>Any thread may wait or post at any time; the ghost value counts the waits that have returned
  in a thread and the posts it has made.\<close>

fun sema_count :: "sema_result \<Rightarrow> nat \<times> nat \<Rightarrow> nat \<times> nat" where
  "sema_count Sema_acquired (a, p) = (Suc a, p)"
| "sema_count Sema_posted (a, p) = (a, Suc p)"

definition sema_obj :: "(sema, nat \<times> nat, sema_op, sema_wait_point, sema_cv, sema_result) obj" where
  "sema_obj = \<lparr>enter = sema_enter, resume = sema_resume, may_call = (\<lambda>_ _. True),
     on_return = sema_count\<rparr>"

lemma sema_obj_simps [simp]:
  "enter sema_obj = sema_enter" "resume sema_obj = sema_resume"
  "may_call sema_obj g op" "on_return sema_obj = sema_count"
  by (simp_all add: sema_obj_def)

definition acquired :: "tid set \<Rightarrow> (tid \<Rightarrow> nat \<times> nat) \<Rightarrow> nat" where
  "acquired T g = sum_threads T fst g"

definition posted :: "tid set \<Rightarrow> (tid \<Rightarrow> nat \<times> nat) \<Rightarrow> nat" where
  "posted T g = sum_threads T snd g"

lemma sema_counts:
  assumes "finite T" "t \<in> T"
  shows "acquired T (g(t := sema_count Sema_acquired (g t))) = Suc (acquired T g)"
    and "posted T (g(t := sema_count Sema_acquired (g t))) = posted T g"
    and "acquired T (g(t := sema_count Sema_posted (g t))) = acquired T g"
    and "posted T (g(t := sema_count Sema_posted (g t))) = Suc (posted T g)"
  using sum_threads_upd [OF assms, of fst g "sema_count Sema_acquired (g t)"]
    sum_threads_upd [OF assms, of snd g "sema_count Sema_acquired (g t)"]
    sum_threads_upd [OF assms, of fst g "sema_count Sema_posted (g t)"]
    sum_threads_upd [OF assms, of snd g "sema_count Sema_posted (g t)"]
  by (cases "g t"; simp add: acquired_def posted_def)+

section \<open>The invariant\<close>

definition blocked_threads :: "tid set \<Rightarrow> (tid \<Rightarrow> ('cv, 'k) thread_status) \<Rightarrow> nat" where
  "blocked_threads T f = count_threads T is_blocked f"

definition woken_threads :: "tid set \<Rightarrow> (tid \<Rightarrow> ('cv, 'k) thread_status) \<Rightarrow> nat" where
  "woken_threads T f = count_threads T is_woken f"

lemmas sema_thread_counts = blocked_threads_def woken_threads_def

text \<open>The waiters that are still asleep are the negative part of the counter; every other call is
  paid for by an initial permit or a post.\<close>

definition sema_inv :: "int \<Rightarrow> tid set \<Rightarrow> sema \<Rightarrow> (tid \<Rightarrow> nat \<times> nat) \<Rightarrow>
  (tid \<Rightarrow> (sema_cv, sema_wait_point) thread_status) \<Rightarrow> bool" where
  "sema_inv p T s g f \<longleftrightarrow> waits_as T (\<lambda>_. Sema_cv) f \<and>
     int (blocked_threads T f) = max 0 (- permit_counter s) \<and>
     int (acquired T g + woken_threads T f + blocked_threads T f) =
       p + int (posted T g) - permit_counter s"

lemma status_counts_block:
  assumes "finite T" "t \<in> T" "f t = Running"
  shows "blocked_threads T (f(t := Blocked cv k)) = Suc (blocked_threads T f)"
    and "woken_threads T (f(t := Blocked cv k)) = woken_threads T f"
  using assms by (simp_all add: sema_thread_counts count_threads_add count_threads_keep)

lemma status_counts_wake:
  assumes "finite T" "t \<in> T" "is_blocked (f t)"
  shows "Suc (blocked_threads T (f(t := wake (f t)))) = blocked_threads T f"
    and "woken_threads T (f(t := wake (f t))) = Suc (woken_threads T f)"
  using assms by (cases "f t"; simp add: sema_thread_counts count_threads_add count_threads_del)+

lemma status_counts_return:
  assumes "finite T" "t \<in> T" "f t = Woken k"
  shows "blocked_threads T (f(t := Running)) = blocked_threads T f"
    and "Suc (woken_threads T (f(t := Running))) = woken_threads T f"
  using assms by (simp_all add: sema_thread_counts count_threads_keep count_threads_del)

lemma sema_wait_keeps:
  assumes "finite T" "sema_inv p T s g f" "t \<in> T" "f t = Running"
  shows "keeps sema_obj (sema_inv p T) t g f (sema_wait s)"
  using assms status_counts_block [of T t f Sema_cv Sema_wait_point] sema_counts [of T t g]
  by (auto simp: sync_defs sema_inv_def Let_def fun_upd_idem max_def split: if_splits
      intro!: waits_as_block [where cv_of = "\<lambda>_. Sema_cv"])

lemma sema_resume_keeps:
  assumes "finite T" "sema_inv p T s g f" "t \<in> T" "f t = Woken k"
  shows "keeps sema_obj (sema_inv p T) t g f (sema_wait_resume s)"
  using assms status_counts_return [of T t f k] sema_counts [of T t g]
    waits_as_wakes [of T "\<lambda>_. Sema_cv" f "[]" t]
  by (auto simp: sync_defs sema_inv_def)

lemma sema_post_keeps:
  assumes "finite T" "sema_inv p T s g f" "t \<in> T" "f t = Running"
  shows "keeps sema_obj (sema_inv p T) t g f (sema_post s)"
proof (cases "permit_counter s < 0")
  case False
  then show ?thesis using assms sema_counts [of T t g]
    by (simp add: sync_defs sema_inv_def Let_def fun_upd_idem)
next
  case True
  have wa: "waits_as T (\<lambda>_. Sema_cv) f" using assms(2) by (simp add: sema_inv_def)
  have "0 < blocked_threads T f" using True assms(2) by (simp add: sema_inv_def)
  then have some: "\<exists>u. blocked_on Sema_cv (f u)"
    using assms(1) by (auto simp: blocked_threads_def count_threads_pos is_blocked_iff)
      (metis sema_cv.exhaust)
  have "sema_inv p T (s\<lparr>permit_counter := permit_counter s + 1\<rparr>)
      (g(t := sema_count Sema_posted (g t))) (f(u := wake (f u)))"
    if u: "blocked_on Sema_cv (f u)" for u
  proof -
    have "u \<in> T" "is_blocked (f u)" using waits_as_signal_mem [OF wa u] u by (auto simp: is_blocked_iff)
    from status_counts_wake [where f = f, OF assms(1) this] True assms(2,3) waits_as_wake [OF wa, of u]
      sema_counts [OF assms(1,3)]
    show ?thesis by (simp add: sema_inv_def max_def)
  qed
  then show ?thesis using True some assms(4)
    by (auto simp: sync_defs Let_def fun_upd_idem wakes_one_signal simp del: wakes.simps)
qed

interpretation sema: sync_object "\<lambda>p T. finite T \<and> 0 \<le> p" "\<lambda>p. sema_obj" False
  "\<lambda>p. sema_init p sema_get_new_semaphore" "(0, 0)" sema_inv
proof (unfold_locales, goal_cases)
  case (1 p T)
  then show ?case
    by (simp add: sema_inv_def sema_init_def sema_thread_counts acquired_def posted_def
        sum_threads_def count_threads_def)
next
  case (2 p T s g f t op)
  then show ?case by (cases op) (simp_all add: sema_wait_keeps sema_post_keeps)
next
  case (3 p T s g f t k)
  then show ?case by (simp add: sema_resume_def sema_resume_keeps)
qed simp

section \<open>Properties\<close>

text \<open>C24. Permits: as long as no wait returns spuriously, the waits that have returned never
  exceed the initial permits and the posts, and a thread is blocked only while every permit is
  taken: as many as there are have been acquired or handed to a woken thread.\<close>

theorem sema_permits:
  assumes "finite T" "0 \<le> p"
    and run: "reach sema_obj False T (sema_init p sema_get_new_semaphore) (0, 0) c"
  shows "int (acquired T (ghost c)) \<le> p + int (posted T (ghost c)) \<and>
    (is_blocked (status c t) \<longrightarrow> permit_counter (shared c) < 0 \<and>
      int (acquired T (ghost c) + woken_threads T (status c)) = p + int (posted T (ghost c)))"
proof -
  have inv: "sema_inv p T (shared c) (ghost c) (status c)"
    using sema.reachable_inv [of T p c] assms by simp
  moreover have "0 < blocked_threads T (status c)" if "is_blocked (status c t)"
  proof -
    have "t \<in> T" using inv that by (intro waits_as_mem) (auto simp: sema_inv_def)
    with that assms(1) show ?thesis by (auto simp: blocked_threads_def count_threads_pos)
  qed
  ultimately show ?thesis by (auto simp: sema_inv_def)
qed

theorem sema_permits_witness:
  "\<exists>c. execute sema_obj False [1, 2, 3]
         [Call 1 Sema_wait [], Call 2 Sema_wait [], Call 3 Sema_wait [], Call 1 Sema_post [3]]
         (start (sema_init 1 sema_get_new_semaphore) (0, 0)) = Some c \<and>
       is_blocked (status c 2) \<and> acquired {1, 2, 3} (ghost c) + woken_threads {1, 2, 3} (status c) = 2"
proof -
  let ?run = "execute sema_obj False [1, 2, 3]
    [Call 1 Sema_wait [], Call 2 Sema_wait [], Call 3 Sema_wait [], Call 1 Sema_post [3]]
    (start (sema_init 1 sema_get_new_semaphore) (0, 0))"
  obtain c where c: "?run = Some c" "is_blocked (status c 2)" "ghost c = (\<lambda>_. (0, 0))(1 := (1, 1))"
    by (simp add: start_def sema_init_def sema_get_new_semaphore_def sync_defs Let_def wake_one_def)
  have "posted {1, 2, 3} (ghost c) = 1" by (simp add: c(3) posted_def sum_threads_def)
  with sema_permits [of "{1, 2, 3}" 1 c 2] execute_reach [OF c(1)] c show ?thesis by simp
qed

text \<open>One spurious return of \<^verbatim>\<open>pthread_cond_wait\<close> breaks the semaphore: with one permit and
  no post, two threads have passed \<^verbatim>\<open>sema_wait\<close>.\<close>

theorem sema_spurious_overrun:
  "\<exists>c. reach sema_obj True {1, 2} (sema_init 1 sema_get_new_semaphore) (0, 0) c \<and>
    acquired {1, 2} (ghost c) = 2 \<and> posted {1, 2} (ghost c) = 0"
proof -
  let ?run = "execute sema_obj True [1, 2]
    [Call 1 Sema_wait [], Call 2 Sema_wait [], Spurious 2, Continue 2 []]
    (start (sema_init 1 sema_get_new_semaphore) (0, 0))"
  obtain c where c: "?run = Some c" "ghost c = (\<lambda>_. (0, 0))(1 := (1, 0), 2 := (1, 0))"
    by (simp add: start_def sema_init_def sema_get_new_semaphore_def sync_defs Let_def)
  then show ?thesis
    using execute_reach [OF c(1)] by (auto simp: acquired_def posted_def sum_threads_def)
qed

end
