(* ===== verification/Barrier.thy ===== *)
theory Barrier
  imports Schedules
begin

text \<open>
  The thread barrier of \<^verbatim>\<open>ThreadSyncAdv/threadlib/threadlib.c\<close> (and, line by line the same, of
  \<^verbatim>\<open>ThreadBarrier/threadbarrier.c\<close>): the last of \<open>threshold\<close> threads opens the barrier and
  wakes one waiter, each woken waiter wakes the next, and the last one closes it again for the next
  round.
\<close>

section \<open>The code\<close>

record th_barrier =
  bar_threshold :: u32
  bar_curr_wait_count :: u32
  bar_is_ready_again :: bool

datatype barrier_cv = Bar_cv | Bar_busy_cv
datatype barrier_wait = At_barrier | At_busy
datatype barrier_result = Bar_passed | Bar_signalled

type_synonym barrier_sect = "(th_barrier, barrier_result, barrier_cv, barrier_wait) sect"

definition thread_barrier_init :: "u32 \<Rightarrow> th_barrier" where
  "thread_barrier_init count =
     \<lparr>bar_threshold = count, bar_curr_wait_count = 0, bar_is_ready_again = True\<rparr>"

definition thread_barrier_signal_all :: "th_barrier \<Rightarrow> barrier_sect" where
  [sync_defs]: "thread_barrier_signal_all b =
     (if \<not> bar_is_ready_again b \<or> bar_curr_wait_count b = 0
      then Unlocked b Bar_signalled []
      else Unlocked b Bar_signalled [Signal Bar_cv])"

text \<open>\<^verbatim>\<open>thread_barrier_barricade\<close>: the loop on \<open>busy_cv\<close> and, once through it, the rest up to
  the wait on \<open>cv\<close>; then what follows that wait.\<close>

definition thread_barrier_barricade :: "th_barrier \<Rightarrow> barrier_sect" where
  [sync_defs]: "thread_barrier_barricade b =
     (if \<not> bar_is_ready_again b then CvWait b Bar_busy_cv At_busy []
      else if bar_curr_wait_count b + 1 = bar_threshold b
      then Unlocked (b\<lparr>bar_is_ready_again := False\<rparr>) Bar_passed [Signal Bar_cv]
      else CvWait (b\<lparr>bar_curr_wait_count := bar_curr_wait_count b + 1\<rparr>) Bar_cv At_barrier [])"

definition thread_barrier_resume :: "th_barrier \<Rightarrow> barrier_sect" where
  [sync_defs]: "thread_barrier_resume b =
     (let b1 = b\<lparr>bar_curr_wait_count := bar_curr_wait_count b - 1\<rparr> in
      if bar_curr_wait_count b1 = 0
      then Unlocked (b1\<lparr>bar_is_ready_again := True\<rparr>) Bar_passed [Broadcast Bar_busy_cv]
      else Unlocked b1 Bar_passed [Signal Bar_cv])"

text \<open>\<^verbatim>\<open>thread_barrier_destroy\<close> asserts, without the mutex, that nobody is inside; \<open>None\<close> is a failed
  assertion.\<close>

definition thread_barrier_destroy :: "th_barrier \<Rightarrow> unit option" where
  "thread_barrier_destroy b =
     (if bar_curr_wait_count b = 0 then if bar_is_ready_again b then Some () else None else None)"

section \<open>The object\<close>

datatype barrier_op = Barricade | Signal_all

fun barrier_enter :: "tid \<Rightarrow> barrier_op \<Rightarrow> th_barrier \<Rightarrow> barrier_sect" where
  "barrier_enter self Barricade b = thread_barrier_barricade b"
| "barrier_enter self Signal_all b = thread_barrier_signal_all b"

fun barrier_resume :: "tid \<Rightarrow> barrier_wait \<Rightarrow> th_barrier \<Rightarrow> barrier_sect" where
  "barrier_resume self At_busy b = thread_barrier_barricade b"
| "barrier_resume self At_barrier b = thread_barrier_resume b"

text \<open>The ghost value of a thread counts the barricades it has passed. \<open>sig\<close> says whether clients
  use \<^verbatim>\<open>thread_barrier_signal_all\<close>, which releases the waiting threads early.\<close>

fun barrier_client :: "bool \<Rightarrow> nat \<Rightarrow> barrier_op \<Rightarrow> bool" where
  "barrier_client sig n Barricade = True"
| "barrier_client sig n Signal_all = sig"

fun barrier_count :: "barrier_result \<Rightarrow> nat \<Rightarrow> nat" where
  "barrier_count Bar_passed n = Suc n"
| "barrier_count Bar_signalled n = n"

definition barrier_obj ::
  "bool \<Rightarrow> (th_barrier, nat, barrier_op, barrier_wait, barrier_cv, barrier_result) obj" where
  "barrier_obj sig = \<lparr>enter = barrier_enter, resume = barrier_resume,
     may_call = barrier_client sig, on_return = barrier_count\<rparr>"

lemma barrier_obj_simps [simp]:
  "enter (barrier_obj sig) = barrier_enter" "resume (barrier_obj sig) = barrier_resume"
  "may_call (barrier_obj sig) = barrier_client sig" "on_return (barrier_obj sig) = barrier_count"
  by (simp_all add: barrier_obj_def)

definition passed :: "tid set \<Rightarrow> (tid \<Rightarrow> nat) \<Rightarrow> nat" where
  "passed T g = sum_threads T (\<lambda>n. n) g"

lemma passed_Suc: "finite T \<Longrightarrow> t \<in> T \<Longrightarrow> passed T (g(t := Suc (g t))) = Suc (passed T g)"
  using sum_threads_upd [of T t "\<lambda>n. n" g "Suc (g t)"] by (simp add: passed_def)

section \<open>The invariant\<close>

fun bar_cv_of :: "barrier_wait \<Rightarrow> barrier_cv" where
  "bar_cv_of At_barrier = Bar_cv"
| "bar_cv_of At_busy = Bar_busy_cv"

definition at_barrier :: "tid set \<Rightarrow> (tid \<Rightarrow> (barrier_cv, barrier_wait) thread_status) \<Rightarrow> nat" where
  "at_barrier T f = count_threads T (\<lambda>x. pending x = Some At_barrier) f"

definition leaving :: "tid set \<Rightarrow> (tid \<Rightarrow> (barrier_cv, barrier_wait) thread_status) \<Rightarrow> nat" where
  "leaving T f = count_threads T (\<lambda>x. x = Woken At_barrier) f"

text \<open>While the barrier is closed fewer than \<open>N\<close> threads wait, all asleep; while it is open exactly
  one of the threads that still have to leave is awake. In both cases the passages and the threads
  waiting to leave make complete rounds of \<open>N\<close>.\<close>

definition barrier_inv :: "nat \<Rightarrow> tid set \<Rightarrow> th_barrier \<Rightarrow> (tid \<Rightarrow> nat) \<Rightarrow>
  (tid \<Rightarrow> (barrier_cv, barrier_wait) thread_status) \<Rightarrow> bool" where
  "barrier_inv N T b g f \<longleftrightarrow> waits_as T bar_cv_of f \<and>
     bar_threshold b = of_nat N \<and> bar_curr_wait_count b = of_nat (at_barrier T f) \<and>
     (if bar_is_ready_again b
      then at_barrier T f < N \<and> leaving T f = 0 \<and> (\<forall>u. \<not> blocked_on Bar_busy_cv (f u)) \<and>
           N dvd passed T g
      else 0 < at_barrier T f \<and> at_barrier T f < N \<and> leaving T f = 1 \<and>
           N dvd passed T g + at_barrier T f)"

lemma barrier_counts_block:
  assumes "finite T" "t \<in> T" "f t = Running"
  shows "at_barrier T (f(t := Blocked Bar_cv At_barrier)) = Suc (at_barrier T f)"
    and "leaving T (f(t := Blocked Bar_cv At_barrier)) = leaving T f"
  using assms by (simp_all add: at_barrier_def leaving_def count_threads_add count_threads_keep)

lemma barrier_counts_busy:
  assumes "f t = Running \<or> f t = Woken At_busy"
  shows "at_barrier T (f(t := Blocked Bar_busy_cv At_busy)) = at_barrier T f"
    and "leaving T (f(t := Blocked Bar_busy_cv At_busy)) = leaving T f"
    and "at_barrier T (f(t := Running)) = at_barrier T f"
    and "leaving T (f(t := Running)) = leaving T f"
  using assms by (auto simp: at_barrier_def leaving_def count_threads_keep)

lemma barrier_counts_leave:
  assumes "finite T" "t \<in> T" "f t = Woken At_barrier"
  shows "Suc (at_barrier T (f(t := Running))) = at_barrier T f"
    and "Suc (leaving T (f(t := Running))) = leaving T f"
  using assms by (simp_all add: at_barrier_def leaving_def count_threads_del)

lemma barrier_counts_signal:
  assumes "finite T" "waits_as T bar_cv_of f" "blocked_on Bar_cv (f u)"
  shows "at_barrier T (f(u := wake (f u))) = at_barrier T f"
    and "leaving T (f(u := wake (f u))) = Suc (leaving T f)"
proof -
  have u: "f u = Blocked Bar_cv At_barrier" "u \<in> T"
    using assms(2,3) waits_as_signal_mem [OF assms(2,3)]
    by (auto simp: waits_as_def blocked_on_iff) (metis bar_cv_of.cases bar_cv_of.simps(2) barrier_cv.distinct(1))
  then show "at_barrier T (f(u := wake (f u))) = at_barrier T f"
    and "leaving T (f(u := wake (f u))) = Suc (leaving T f)"
    using assms(1) by (simp_all add: at_barrier_def leaving_def count_threads_add count_threads_keep)
qed

lemma barrier_counts_broadcast:
  "at_barrier T (wake_all Bar_busy_cv f) = at_barrier T f"
  "waits_as T bar_cv_of f \<Longrightarrow> leaving T (wake_all Bar_busy_cv f) = leaving T f"
proof -
  show "at_barrier T (wake_all Bar_busy_cv f) = at_barrier T f"
    unfolding at_barrier_def by (rule count_threads_same) (simp add: wake_all_def)
  assume "waits_as T bar_cv_of f"
  then show "leaving T (wake_all Bar_busy_cv f) = leaving T f"
    unfolding leaving_def by (intro count_threads_same)
      (auto simp: wake_all_woken dest: waits_as_at)
qed

text \<open>A sleeper is left whenever somebody still has to leave and nobody is awake to do so.\<close>

lemma barrier_sleeper:
  assumes "finite T" "waits_as T bar_cv_of f" "0 < at_barrier T f" "leaving T f = 0"
  shows "\<exists>u. blocked_on Bar_cv (f u)"
proof -
  obtain u where u: "u \<in> T" "pending (f u) = Some At_barrier"
    using assms(1,3) by (auto simp: at_barrier_def count_threads_pos)
  moreover have "f u \<noteq> Woken At_barrier"
    using assms(1,4) u(1) by (auto simp: leaving_def count_threads_eq_0)
  ultimately have "f u = Blocked Bar_cv At_barrier"
    by (cases "f u") (auto dest: waits_as_at [OF assms(2)])
  then have "blocked_on Bar_cv (f u)" by simp
  then show ?thesis ..
qed

lemma at_barrier_le: "finite T \<Longrightarrow> at_barrier T f \<le> card T"
  by (simp add: at_barrier_def count_threads_le)

text \<open>A run of the barrier: a threshold of two or more that fits its word.\<close>

definition barrier_valid :: "nat \<Rightarrow> tid set \<Rightarrow> bool" where
  "barrier_valid N T \<longleftrightarrow> finite T \<and> 2 \<le> N \<and> N < 4294967296"

lemma barrier_word:
  assumes "barrier_valid N T" "k < N"
  shows "of_nat k + 1 = (of_nat N :: u32) \<longleftrightarrow> Suc k = N" and "of_nat k = (0::u32) \<longleftrightarrow> k = 0"
proof -
  have "of_nat k + 1 = (of_nat (Suc k) :: u32)" by simp
  then show "of_nat k + 1 = (of_nat N :: u32) \<longleftrightarrow> Suc k = N"
    using assms of_nat_u32_inj [of "Suc k" N] by (simp add: barrier_valid_def del: of_nat_Suc)
  show "of_nat k = (0::u32) \<longleftrightarrow> k = 0"
    using assms of_nat_u32_inj [of k 0] by (simp add: barrier_valid_def)
qed

lemma barrier_signal_opens:
  assumes "finite T" "waits_as T bar_cv_of f" "0 < at_barrier T f" "leaving T f = 0"
    and "\<And>h. waits_as T bar_cv_of h \<Longrightarrow> at_barrier T h = at_barrier T f \<Longrightarrow> leaving T h = 1 \<Longrightarrow>
      Q h"
  shows "\<forall>h. wakes [Signal Bar_cv] f h \<longrightarrow> Q h"
proof (intro allI impI)
  fix h assume "wakes [Signal Bar_cv] f h"
  with barrier_sleeper [OF assms(1-4)] obtain u where u: "blocked_on Bar_cv (f u)"
      "h = f(u := wake (f u))"
    unfolding wakes_one_signal by auto
  with barrier_counts_signal [OF assms(1,2) u(1)] assms(4) show "Q h"
    by (intro assms(5)) (auto simp: waits_as_wake assms(2))
qed

lemma barricade_keeps:
  assumes "barrier_valid N T" "barrier_inv N T b g f" "t \<in> T" "f t = Running \<or> f t = Woken At_busy"
  shows "keeps (barrier_obj False) (barrier_inv N T) t g f (thread_barrier_barricade b)"
proof -
  let ?f = "f(t := Running)"
  have T: "finite T" using assms(1) by (simp add: barrier_valid_def)
  have wa: "waits_as T bar_cv_of f" using assms(2) by (simp add: barrier_inv_def)
  then have wa': "waits_as T bar_cv_of ?f" using waits_as_wakes [OF wa, of "[]" t] by simp
  note cnt = barrier_counts_busy [where f = f, OF assms(4)]
  show ?thesis
  proof (cases "bar_is_ready_again b")
    case False
    have "waits_as T bar_cv_of (f(t := Blocked Bar_busy_cv At_busy))"
      using waits_as_block [OF wa assms(3), of At_busy] by simp
    then show ?thesis using False assms(2) cnt by (simp add: sync_defs barrier_inv_def)
  next
    case True
    then have k: "at_barrier T f < N" "leaving T f = 0" "N dvd passed T g"
      "\<And>u. \<not> blocked_on Bar_busy_cv (f u)"
      using assms(2) by (auto simp: barrier_inv_def)
    have n: "bar_curr_wait_count b + 1 = bar_threshold b \<longleftrightarrow> Suc (at_barrier T f) = N"
      using assms(2) barrier_word(1) [OF assms(1) k(1)] by (simp add: barrier_inv_def)
    show ?thesis
    proof (cases "Suc (at_barrier T f) = N")
      case last: True
      have "0 < at_barrier T f" using last assms(1) by (simp add: barrier_valid_def)
      moreover have "N dvd Suc (passed T g + at_barrier T f)"
        using k(3) last by (metis add_Suc_right dvd_add dvd_refl)
      ultimately have "\<forall>h. wakes [Signal Bar_cv] ?f h \<longrightarrow>
          barrier_inv N T (b\<lparr>bar_is_ready_again := False\<rparr>) (g(t := Suc (g t))) h"
        using T wa' cnt k assms(2) passed_Suc [OF T assms(3)]
        by (intro barrier_signal_opens) (auto simp: barrier_inv_def)
      then show ?thesis using True n last by (simp add: sync_defs del: wakes.simps)
    next
      case more: False
      have "waits_as T bar_cv_of (?f(t := Blocked Bar_cv At_barrier))"
        using waits_as_block [OF wa' assms(3), of At_barrier] by simp
      moreover have "at_barrier T (?f(t := Blocked Bar_cv At_barrier)) = Suc (at_barrier T f)"
        "leaving T (?f(t := Blocked Bar_cv At_barrier)) = leaving T f"
        using barrier_counts_block [OF T assms(3), of ?f] cnt by simp_all
      ultimately show ?thesis using True n more k assms(2)
        by (simp add: sync_defs barrier_inv_def)
    qed
  qed
qed

lemma leave_keeps:
  assumes "barrier_valid N T" "barrier_inv N T b g f" "t \<in> T" "f t = Woken At_barrier"
  shows "keeps (barrier_obj False) (barrier_inv N T) t g f (thread_barrier_resume b)"
proof -
  let ?f = "f(t := Running)" and ?b = "b\<lparr>bar_curr_wait_count := bar_curr_wait_count b - 1\<rparr>"
  have T: "finite T" using assms(1) by (simp add: barrier_valid_def)
  have wa: "waits_as T bar_cv_of ?f"
    using assms(2) waits_as_wakes [of T bar_cv_of f "[]" t] by (simp add: barrier_inv_def)
  note cnt = barrier_counts_leave [where f = f, OF T assms(3,4)]
  have "leaving T f \<noteq> 0" using cnt(2) by simp
  then have k: "at_barrier T f < N" "leaving T f = 1" "N dvd passed T g + at_barrier T f"
    "\<not> bar_is_ready_again b"
    using assms(2) by (auto simp: barrier_inv_def split: if_splits)
  have k': "at_barrier T ?f < N" "leaving T ?f = 0" using k cnt by auto
  have n: "bar_curr_wait_count b - 1 = of_nat (at_barrier T ?f)"
    using assms(2) by (simp add: barrier_inv_def flip: cnt(1))
  have d: "N dvd Suc (passed T g) + at_barrier T ?f" using k(3) by (simp flip: cnt(1))
  note p = passed_Suc [OF T assms(3), of g]
  show ?thesis
  proof (cases "at_barrier T ?f = 0")
    case True
    have "waits_as T bar_cv_of (wake_all Bar_busy_cv ?f)"
      using waits_as_wakes [OF wa, of "[Broadcast Bar_busy_cv]" t] by simp
    then have "barrier_inv N T (?b\<lparr>bar_is_ready_again := True\<rparr>) (g(t := Suc (g t)))
        (wake_all Bar_busy_cv ?f)"
      using k' d p n True assms(2) barrier_counts_broadcast(1) [of T ?f] barrier_counts_broadcast(2) [OF wa]
      by (simp add: barrier_inv_def)
    then show ?thesis using n True by (simp add: sync_defs Let_def)
  next
    case False
    then have nz: "bar_curr_wait_count b - 1 \<noteq> 0" using barrier_word(2) [OF assms(1) k'(1)] n by simp
    have "\<forall>h. wakes [Signal Bar_cv] ?f h \<longrightarrow> barrier_inv N T ?b (g(t := Suc (g t))) h"
      using T wa k k' d p n False assms(2)
      by (intro barrier_signal_opens) (auto simp: barrier_inv_def)
    then show ?thesis using nz by (simp add: sync_defs Let_def del: wakes.simps)
  qed
qed

interpretation barrier: sync_object barrier_valid "\<lambda>N. barrier_obj False" False
  "\<lambda>N. thread_barrier_init (of_nat N)" 0 barrier_inv
proof (unfold_locales, goal_cases)
  case (1 N T)
  then show ?case
    by (simp add: barrier_inv_def thread_barrier_init_def at_barrier_def leaving_def
        count_threads_def passed_def sum_threads_def barrier_valid_def)
next
  case (2 N T b g f t op)
  then show ?case by (cases op) (simp_all add: barricade_keeps)
next
  case (3 N T b g f t k)
  then show ?case by (cases k) (simp_all add: barricade_keeps leave_keeps)
qed simp

section \<open>Properties\<close>

text \<open>C23. The barrier synchronises in rounds: for a threshold \<open>N\<close> of at least 2, as long as no thread calls
  \<^verbatim>\<open>thread_barrier_signal_all\<close> (which releases those who wait before \<open>N\<close> have arrived:
  \<open>barrier_early_release\<close>) and without spurious wake-ups, the passages so far are at
  most the complete rounds of \<open>N\<close> among the arrivals, so no thread passes before \<open>N\<close> have arrived;
  and while the barrier is closed exactly the complete rounds have passed.\<close>

theorem barrier_rounds:
  assumes "barrier_valid N T"
    and run: "reach (barrier_obj False) False T (thread_barrier_init (of_nat N)) 0 c"
  shows "passed T (ghost c) \<le> N * ((passed T (ghost c) + at_barrier T (status c)) div N) \<and>
    (bar_is_ready_again (shared c) \<longrightarrow>
      passed T (ghost c) = N * ((passed T (ghost c) + at_barrier T (status c)) div N))"
proof -
  have inv: "barrier_inv N T (shared c) (ghost c) (status c)"
    using barrier.reachable_inv [OF assms(1)] run by simp
  show ?thesis
  proof (cases "bar_is_ready_again (shared c)")
    case True
    then obtain k where "passed T (ghost c) = N * k" "at_barrier T (status c) < N"
      using inv by (auto simp: barrier_inv_def)
    then show ?thesis by simp
  next
    case False
    then obtain k where "passed T (ghost c) + at_barrier T (status c) = N * k"
      using inv by (auto simp: barrier_inv_def)
    moreover have "0 < N" using assms(1) by (simp add: barrier_valid_def)
    ultimately show ?thesis using False by (simp only: nonzero_mult_div_cancel_left) auto
  qed
qed

theorem barrier_rounds_witness:
  "\<exists>c. execute (barrier_obj False) False [1, 2, 3]
         [Call 1 Barricade [], Call 2 Barricade [], Call 3 Barricade [1], Continue 1 [2], Continue 2 []]
         (start (thread_barrier_init 3) 0) = Some c \<and>
       3 * ((passed {1, 2, 3} (ghost c) + at_barrier {1, 2, 3} (status c)) div 3) = 3"
proof -
  let ?run = "execute (barrier_obj False) False [1, 2, 3]
    [Call 1 Barricade [], Call 2 Barricade [], Call 3 Barricade [1], Continue 1 [2], Continue 2 []]
    (start (thread_barrier_init 3) 0)"
  obtain c where c: "?run = Some c" "bar_is_ready_again (shared c)" "ghost c 1 = 1" "ghost c 2 = 1"
      "ghost c 3 = 1"
    by (simp add: start_def thread_barrier_init_def sync_defs Let_def wake_one_def)
  have "barrier_valid 3 {1, 2, 3}" by (simp add: barrier_valid_def)
  from barrier_rounds [OF this, of c] execute_reach [OF c(1)] c
  show ?thesis by (auto simp: passed_def sum_threads_def)
qed

text \<open>The barrier gets no thread stuck: without spurious wake-ups, while it is open exactly one
  of the waiting threads is awake, its next step leaves the barrier without blocking, and when it
  has closed again no thread is blocked on \<open>busy_cv\<close>.\<close>

theorem barrier_no_stall:
  assumes "barrier_valid N T"
    and run: "reach (barrier_obj False) False T (thread_barrier_init (of_nat N)) 0 c"
  shows "if bar_is_ready_again (shared c) then \<not> blocked_on Bar_busy_cv (status c t)
    else leaving T (status c) = 1 \<and>
      (\<exists>u\<in>T. status c u = Woken At_barrier \<and>
        (\<exists>b ss. barrier_resume u At_barrier (shared c) = Unlocked b Bar_passed ss))"
proof -
  have inv: "barrier_inv N T (shared c) (ghost c) (status c)"
    using barrier.reachable_inv [OF assms(1)] run by simp
  show ?thesis
  proof (cases "bar_is_ready_again (shared c)")
    case False
    then have 1: "leaving T (status c) = 1" using inv by (simp add: barrier_inv_def)
    then obtain u where "u \<in> T" "status c u = Woken At_barrier"
      using assms(1) count_threads_pos [of T "\<lambda>x. x = Woken At_barrier" "status c"]
      by (auto simp: leaving_def barrier_valid_def)
    with False 1 show ?thesis by (auto simp: sync_defs Let_def intro!: bexI [of _ u])
  qed (use inv in \<open>simp add: barrier_inv_def\<close>)
qed

theorem barrier_no_stall_witness:
  "\<exists>c. execute (barrier_obj False) False [1, 2, 3]
         [Call 1 Barricade [], Call 2 Barricade [], Call 3 Barricade [1]]
         (start (thread_barrier_init 3) 0) = Some c \<and>
       is_blocked (status c 2) \<and> leaving {1, 2, 3} (status c) = 1"
proof -
  let ?run = "execute (barrier_obj False) False [1, 2, 3]
    [Call 1 Barricade [], Call 2 Barricade [], Call 3 Barricade [1]] (start (thread_barrier_init 3) 0)"
  obtain c where c: "?run = Some c" "\<not> bar_is_ready_again (shared c)" "is_blocked (status c 2)"
    by (simp add: start_def thread_barrier_init_def sync_defs Let_def wake_one_def)
  have "barrier_valid 3 {1, 2, 3}" by (simp add: barrier_valid_def)
  from barrier_no_stall [OF this, of c 1] execute_reach [OF c(1)] c show ?thesis by simp
qed

definition barrier_once_inv :: "tid set \<Rightarrow> th_barrier \<Rightarrow> (tid \<Rightarrow> nat) \<Rightarrow>
  (tid \<Rightarrow> barrier_wait option) \<Rightarrow> bool" where
  "barrier_once_inv T b g w \<longleftrightarrow> bar_threshold b = 1 \<and> bar_curr_wait_count b = 0 \<and>
     passed T g = (if bar_is_ready_again b then 0 else 1) \<and>
     (\<forall>t. w t = None \<or> w t = Some At_busy)"

interpretation barrier_once: sync_monitor "\<lambda>p T. finite T" "\<lambda>sig. barrier_obj sig"
  "\<lambda>p. thread_barrier_init 1" 0 "\<lambda>p. barrier_once_inv"
proof (unfold_locales, goal_cases)
  case (1 p T)
  then show ?case
    by (simp add: barrier_once_inv_def thread_barrier_init_def passed_def sum_threads_def)
next
  case (2 p T s g w t op)
  then show ?case
    by (cases op) (simp_all add: sync_defs barrier_once_inv_def passed_Suc)
next
  case (3 p T s g w t k)
  then have "\<forall>t. w t = None \<or> w t = Some At_busy" by (simp add: barrier_once_inv_def)
  then have "w t = None \<or> w t = Some At_busy" ..
  with 3 have "k = At_busy" by simp
  with 3 show ?case by (simp add: sync_defs barrier_once_inv_def passed_Suc)
qed

text \<open>A threshold of one closes the barrier for good: at most one barricade is ever passed, in
  every execution, spurious wake-ups included.\<close>

theorem barrier_threshold_one:
  assumes "finite T" "reach (barrier_obj sig) sp T (thread_barrier_init 1) 0 c"
  shows "passed T (ghost c) \<le> 1"
  using barrier_once.monitor_inv [of T sig sp c] assms by (simp add: barrier_once_inv_def)

theorem barrier_threshold_one_witness:
  "\<exists>c. execute (barrier_obj True) True [1, 2]
         [Call 1 Barricade [], Call 2 Barricade [], Spurious 2, Continue 2 [], Call 1 Signal_all []]
         (start (thread_barrier_init 1) 0) = Some c \<and>
       is_blocked (status c 2) \<and> passed {1, 2} (ghost c) \<le> 1"
proof -
  let ?run = "execute (barrier_obj True) True [1, 2]
    [Call 1 Barricade [], Call 2 Barricade [], Spurious 2, Continue 2 [], Call 1 Signal_all []]
    (start (thread_barrier_init 1) 0)"
  obtain c where c: "?run = Some c" "is_blocked (status c 2)"
    by (simp add: start_def thread_barrier_init_def sync_defs)
  from barrier_threshold_one [of "{1, 2}" True True c] execute_reach [OF c(1)] c show ?thesis by simp
qed

text \<open>The barrier relies on \<^verbatim>\<open>pthread_cond_wait\<close> not returning spuriously: with one
  spurious return, and with an early \<^verbatim>\<open>thread_barrier_signal_all\<close>, a thread passes a barrier of
  three that only two threads have reached.\<close>

theorem barrier_early_release:
  "(\<exists>c. reach (barrier_obj False) True {1, 2, 3} (thread_barrier_init 3) 0 c \<and>
      ghost c 1 = 1 \<and> pending (status c 2) = Some At_barrier \<and> status c 3 = Running \<and> ghost c 3 = 0) \<and>
   (\<exists>c. reach (barrier_obj True) False {1, 2, 3} (thread_barrier_init 3) 0 c \<and>
      ghost c 1 = 1 \<and> pending (status c 2) = Some At_barrier \<and> ghost c 3 = 0)"
proof -
  let ?run1 = "execute (barrier_obj False) True [1, 2, 3]
    [Call 1 Barricade [], Call 2 Barricade [], Spurious 1, Continue 1 [2]]
    (start (thread_barrier_init 3) 0)"
  let ?run2 = "execute (barrier_obj True) False [1, 2, 3]
    [Call 1 Barricade [], Call 2 Barricade [], Call 3 Signal_all [1], Continue 1 [2]]
    (start (thread_barrier_init 3) 0)"
  obtain c where c: "?run1 = Some c" "ghost c = (\<lambda>_. 0)(1 := 1)"
      "pending (status c 2) = Some At_barrier" "status c 3 = Running"
    by (simp add: start_def thread_barrier_init_def sync_defs Let_def wake_one_def)
  obtain d where d: "?run2 = Some d" "ghost d 1 = 1" "ghost d 3 = 0"
      "pending (status d 2) = Some At_barrier"
    by (simp add: start_def thread_barrier_init_def sync_defs Let_def wake_one_def)
  show ?thesis using execute_reach [OF c(1)] execute_reach [OF d(1)] c d by auto
qed

text \<open>The barrier can be destroyed exactly when no thread is waiting at it or leaving it. So the thread that
  opens the barrier, and passes it first, cannot destroy it: the others have still to leave.\<close>

theorem barrier_destroy_iff:
  assumes "barrier_valid N T"
    and run: "reach (barrier_obj False) False T (thread_barrier_init (of_nat N)) 0 c"
  shows "thread_barrier_destroy (shared c) = Some () \<longleftrightarrow> at_barrier T (status c) = 0"
proof -
  have inv: "barrier_inv N T (shared c) (ghost c) (status c)"
    using barrier.reachable_inv [OF assms(1)] run by simp
  then have "at_barrier T (status c) < N" by (auto simp: barrier_inv_def split: if_splits)
  from barrier_word(2) [OF assms(1) this] inv show ?thesis
    by (auto simp: thread_barrier_destroy_def barrier_inv_def split: if_splits)
qed

theorem barrier_destroy_iff_witness:
  "\<exists>c. reach (barrier_obj False) False {1, 2} (thread_barrier_init 2) 0 c \<and> ghost c 2 = 1 \<and>
     thread_barrier_destroy (shared c) = None"
proof -
  have "map_option (\<lambda>c. (ghost c 2, status c 1)) (execute (barrier_obj False) False [1, 2]
      [Call 1 Barricade [], Call 2 Barricade [1]] (start (thread_barrier_init 2) 0)) = Some (1, Woken At_barrier)" by code_simp
  then obtain c where c: "reach (barrier_obj False) False (set [1, 2]) (thread_barrier_init 2) 0 c"
    "(ghost c 2, status c 1) = (1, Woken At_barrier)" by (rule execute_shows)
  have "at_barrier {1, 2} (status c) \<noteq> 0" using c(2) by (simp add: at_barrier_def count_threads_eq_0)
  moreover have "barrier_valid 2 {1, 2}" by (simp add: barrier_valid_def)
  ultimately have "thread_barrier_destroy (shared c) \<noteq> Some ()" using barrier_destroy_iff [of 2 "{1, 2}" c] c(1) by simp
  then show ?thesis using c by (intro exI [of _ c]) (auto simp: thread_barrier_destroy_def split: if_splits)
qed

end
