(* ===== verification/FifoSpec.thy ===== *)
theory FifoSpec
  imports Prelude
begin

text \<open>
  The contract of a bounded FIFO queue of non-null pointers, which the two ring buffers of the
  repository implement: the queue of \<^verbatim>\<open>ThreadSyncAdv/threadlib/Fifo_Queue.c\<close> and the one of
  \<^verbatim>\<open>ProducerConsumer/Queue.c\<close>.
\<close>

datatype fifo_op = Enq addr | Deq
datatype fifo_out = Enqueued bool | Dequeued addr

text \<open>The abstract queue: a list, the oldest element first. NULL (0) is refused by an enqueue and
  is what a dequeue of an empty queue returns.\<close>

fun spec_step :: "nat \<Rightarrow> fifo_op \<Rightarrow> addr list \<Rightarrow> fifo_out \<times> addr list" where
  "spec_step cap (Enq x) xs =
     (if x \<noteq> 0 \<and> length xs < cap then (Enqueued True, xs @ [x]) else (Enqueued False, xs))"
| "spec_step cap Deq xs = (case xs of [] \<Rightarrow> (Dequeued 0, []) | x # xs' \<Rightarrow> (Dequeued x, xs'))"

fun spec_run :: "nat \<Rightarrow> fifo_op list \<Rightarrow> addr list \<Rightarrow> fifo_out list \<times> addr list" where
  "spec_run cap [] xs = ([], xs)"
| "spec_run cap (op # ops) xs =
     (let (out, xs1) = spec_step cap op xs; (outs, xs2) = spec_run cap ops xs1 in (out # outs, xs2))"

text \<open>A run of an implementation: \<open>None\<close> when an assertion of the code fails.\<close>

fun fifo_step :: "('q \<Rightarrow> addr \<Rightarrow> (bool \<times> 'q) option) \<Rightarrow> ('q \<Rightarrow> (addr \<times> 'q) option) \<Rightarrow> fifo_op \<Rightarrow> 'q \<Rightarrow>
  (fifo_out \<times> 'q) option" where
  "fifo_step enq deq (Enq x) q = map_option (\<lambda>(b, q'). (Enqueued b, q')) (enq q x)"
| "fifo_step enq deq Deq q = map_option (\<lambda>(x, q'). (Dequeued x, q')) (deq q)"

fun fifo_run :: "('q \<Rightarrow> addr \<Rightarrow> (bool \<times> 'q) option) \<Rightarrow> ('q \<Rightarrow> (addr \<times> 'q) option) \<Rightarrow> fifo_op list \<Rightarrow> 'q \<Rightarrow>
  (fifo_out list \<times> 'q) option" where
  "fifo_run enq deq [] q = Some ([], q)"
| "fifo_run enq deq (op # ops) q =
     (case fifo_step enq deq op q of None \<Rightarrow> None
      | Some (out, q1) \<Rightarrow> map_option (\<lambda>(outs, q2). (out # outs, q2)) (fifo_run enq deq ops q1))"

text \<open>What went in and what came out of a run.\<close>

fun accepted :: "fifo_op list \<Rightarrow> fifo_out list \<Rightarrow> addr list" where
  "accepted (Enq x # ops) (Enqueued True # outs) = x # accepted ops outs"
| "accepted (_ # ops) (_ # outs) = accepted ops outs"
| "accepted _ _ = []"

fun delivered :: "fifo_out list \<Rightarrow> addr list" where
  "delivered (Dequeued x # outs) = (if x = 0 then delivered outs else x # delivered outs)"
| "delivered (_ # outs) = delivered outs"
| "delivered [] = []"

lemma spec_run_fifo:
  "0 \<notin> set xs \<Longrightarrow> spec_run cap ops xs = (outs, ys) \<Longrightarrow> xs @ accepted ops outs = delivered outs @ ys"
proof (induction ops arbitrary: xs outs)
  case (Cons op ops)
  obtain out xs1 where 1: "spec_step cap op xs = (out, xs1)" by force
  obtain outs' where 2: "spec_run cap ops xs1 = (outs', ys)" "outs = out # outs'"
    using Cons.prems(2) 1 by (auto simp: Let_def split: prod.splits)
  have "0 \<notin> set xs1" using 1 Cons.prems(1) by (cases op) (auto split: if_splits list.splits)
  from Cons.IH [OF this 2(1)] show ?case
    using 1 2(2) Cons.prems(1) by (cases op) (auto split: if_splits list.splits)
qed simp

locale bounded_fifo =
  fixes valid :: "'q \<Rightarrow> bool"
    and cap :: "'q \<Rightarrow> nat"
    and contents :: "'q \<Rightarrow> addr list"
    and enq :: "'q \<Rightarrow> addr \<Rightarrow> (bool \<times> 'q) option"
    and deq :: "'q \<Rightarrow> (addr \<times> 'q) option"
  assumes contents_nonnull: "valid q \<Longrightarrow> 0 \<notin> set (contents q)"
    and contents_bounded: "valid q \<Longrightarrow> length (contents q) \<le> cap q"
    and enq_law: "valid q \<Longrightarrow> \<exists>q'. enq q x = Some (x \<noteq> 0 \<and> length (contents q) < cap q, q') \<and>
      valid q' \<and> cap q' = cap q \<and> contents q' = snd (spec_step (cap q) (Enq x) (contents q))"
    and deq_law: "valid q \<Longrightarrow> \<exists>q'. deq q = Some (case contents q of [] \<Rightarrow> 0 | x # xs \<Rightarrow> x, q') \<and>
      valid q' \<and> cap q' = cap q \<and> contents q' = tl (contents q)"
begin

lemma step_refines:
  assumes "valid q"
  shows "\<exists>q'. fifo_step enq deq op q = Some (fst (spec_step (cap q) op (contents q)), q') \<and>
    valid q' \<and> cap q' = cap q \<and> contents q' = snd (spec_step (cap q) op (contents q))"
proof (cases op)
  case (Enq x)
  from enq_law [OF assms, of x] show ?thesis by (auto simp: Enq)
next
  case Deq
  from deq_law [OF assms] show ?thesis by (auto simp: Deq split: list.splits)
qed

lemma run_refines:
  "valid q \<Longrightarrow> \<exists>q'. fifo_run enq deq ops q = Some (fst (spec_run (cap q) ops (contents q)), q') \<and>
    valid q' \<and> cap q' = cap q \<and> contents q' = snd (spec_run (cap q) ops (contents q))"
proof (induction ops arbitrary: q)
  case (Cons op ops)
  obtain out xs1 where 1: "spec_step (cap q) op (contents q) = (out, xs1)" by force
  with step_refines [OF Cons.prems, of op] obtain q1 where
    "fifo_step enq deq op q = Some (out, q1)" "valid q1" "cap q1 = cap q" "contents q1 = xs1" by auto
  with Cons.IH [of q1] 1 show ?case by (auto split: prod.splits)
qed simp

lemma run_fifo:
  assumes "valid q"
  shows "\<exists>outs q'. fifo_run enq deq ops q = Some (outs, q') \<and>
    contents q @ accepted ops outs = delivered outs @ contents q' \<and> length (contents q') \<le> cap q"
proof -
  obtain outs ys where spec: "spec_run (cap q) ops (contents q) = (outs, ys)" by force
  with run_refines [OF assms, of ops] obtain q' where
    q': "fifo_run enq deq ops q = Some (outs, q')" "valid q'" "cap q' = cap q" "contents q' = ys" by auto
  with spec_run_fifo [OF contents_nonnull [OF assms] spec] contents_bounded [OF q'(2)]
  show ?thesis by auto
qed

end

section \<open>Slots of a ring\<close>

lemma map_nth_update_other:
  "(\<And>i. i < c \<Longrightarrow> idx i \<noteq> j) \<Longrightarrow> map (\<lambda>i. (es[j := x]) ! idx i) [0..<c] = map (\<lambda>i. es ! idx i) [0..<c]"
  by (simp add: nth_list_update_neq [of j, OF not_sym])

lemma map_upt_cons: "0 < c \<Longrightarrow> map f [0..<c] = f 0 # map (\<lambda>i. f (Suc i)) [0..<c - 1]"
  by (cases c) (simp_all add: upt_conv_Cons map_Suc_upt [symmetric] del: upt_Suc)

end
