(* ===== verification/FifoQueue.thy ===== *)
theory FifoQueue
  imports FifoSpec
begin

text \<open>
  The ring buffer of \<^verbatim>\<open>ThreadSyncAdv/threadlib/Fifo_Queue.c\<close>. It fills towards lower indices:
  \<open>front\<close> is the slot of the oldest element and \<open>rear\<close> the slot of the youngest. The
  \<^verbatim>\<open>uint32_t\<close> fields never leave the range \<open>0..size\<close> (\<open>fifo_ok\<close>), so they are natural numbers.
\<close>

section \<open>The code\<close>

record fifo_queue =
  fq_front :: nat
  fq_rear :: nat
  fq_count :: nat
  fq_size :: nat
  fq_random_access :: bool
  fq_elem :: "addr list"

text \<open>\<open>None\<close> stands for a failed assertion.\<close>

definition Fifo_initQ :: "nat \<Rightarrow> bool \<Rightarrow> fifo_queue option" where
  "Fifo_initQ sz random_access =
     (if sz = 0 then None
      else Some \<lparr>fq_front = sz - 1, fq_rear = sz - 1, fq_count = 0, fq_size = sz,
             fq_random_access = random_access, fq_elem = replicate sz 0\<rparr>)"

definition is_queue_empty :: "fifo_queue \<Rightarrow> bool" where
  [simp]: "is_queue_empty q \<longleftrightarrow> fq_count q = 0"

definition is_queue_full :: "fifo_queue \<Rightarrow> bool" where
  [simp]: "is_queue_full q \<longleftrightarrow> fq_count q = fq_size q"

definition Fifo_enqueue :: "fifo_queue \<Rightarrow> addr \<Rightarrow> (bool \<times> fifo_queue) option" where
  "Fifo_enqueue q ptr =
     (if fq_random_access q then None
      else if ptr = 0 then Some (False, q)
      else if is_queue_full q then Some (False, q)
      else if is_queue_empty q
      then Some (True, q\<lparr>fq_elem := (fq_elem q)[fq_rear q := ptr], fq_count := fq_count q + 1\<rparr>)
      else if fq_rear q = 0
      then (if fq_front q = fq_size q - 1 \<and> is_queue_full q then Some (False, q)
            else Some (True, q\<lparr>fq_rear := fq_size q - 1,
                   fq_elem := (fq_elem q)[fq_size q - 1 := ptr], fq_count := fq_count q + 1\<rparr>))
      else Some (True, q\<lparr>fq_rear := fq_rear q - 1,
                   fq_elem := (fq_elem q)[fq_rear q - 1 := ptr], fq_count := fq_count q + 1\<rparr>))"

definition Fifo_deque :: "fifo_queue \<Rightarrow> (addr \<times> fifo_queue) option" where
  "Fifo_deque q =
     (if fq_random_access q then None
      else if is_queue_empty q then Some (0, q)
      else let elem = fq_elem q ! fq_front q;
               q1 = q\<lparr>fq_elem := (fq_elem q)[fq_front q := 0]\<rparr>
           in if fq_front q1 = fq_rear q1 then Some (elem, q1\<lparr>fq_count := fq_count q1 - 1\<rparr>)
              else let q2 = (if fq_front q1 = 0 then q1\<lparr>fq_front := fq_size q1 - 1\<rparr>
                             else q1\<lparr>fq_front := fq_front q1 - 1\<rparr>)
                   in Some (elem, q2\<lparr>fq_count := fq_count q2 - 1\<rparr>))"

text \<open>An index past the end is outside the array: the model has no result for it.\<close>

definition Fifo_insert_or_replace_at_index ::
  "fifo_queue \<Rightarrow> addr \<Rightarrow> nat \<Rightarrow> (addr \<times> fifo_queue) option" where
  "Fifo_insert_or_replace_at_index q new_data index =
     (if \<not> fq_random_access q then None
      else if length (fq_elem q) \<le> index then None
      else let ptr = fq_elem q ! index;
               q1 = q\<lparr>fq_elem := (fq_elem q)[index := new_data]\<rparr>
           in if ptr = 0 \<and> new_data \<noteq> 0 then Some (ptr, q1\<lparr>fq_count := fq_count q1 + 1\<rparr>)
              else if ptr \<noteq> 0 \<and> new_data = 0 then Some (ptr, q1\<lparr>fq_count := fq_count q1 - 1\<rparr>)
              else Some (ptr, q1))"

section \<open>The invariant\<close>

text \<open>The slot of the \<open>i\<close>th element, counted from the oldest.\<close>

definition fq_slot :: "nat \<Rightarrow> nat \<Rightarrow> nat \<Rightarrow> nat" where
  "fq_slot n f i = (if i \<le> f then f - i else f + n - i)"

definition fq_contents :: "fifo_queue \<Rightarrow> addr list" where
  "fq_contents q = map (\<lambda>i. fq_elem q ! fq_slot (fq_size q) (fq_front q) i) [0..<fq_count q]"

definition fifo_ok :: "fifo_queue \<Rightarrow> bool" where
  "fifo_ok q \<longleftrightarrow> \<not> fq_random_access q \<and> 0 < fq_size q \<and> length (fq_elem q) = fq_size q \<and>
     fq_front q < fq_size q \<and> fq_count q \<le> fq_size q \<and>
     fq_rear q = fq_slot (fq_size q) (fq_front q) (fq_count q - 1) \<and> 0 \<notin> set (fq_contents q)"

lemma fq_slot_less: "f < n \<Longrightarrow> i < n \<Longrightarrow> fq_slot n f i < n"
  by (auto simp: fq_slot_def)

lemma fq_slot_inj: "f < n \<Longrightarrow> i < n \<Longrightarrow> j < n \<Longrightarrow> fq_slot n f i = fq_slot n f j \<Longrightarrow> i = j"
  by (auto simp: fq_slot_def split: if_splits)

lemma fq_slot_step:
  assumes "f < n" "Suc i < n"
  shows "fq_slot n f (Suc i) = (if fq_slot n f i = 0 then n - 1 else fq_slot n f i - 1)"
  using assms by (auto simp: fq_slot_def)

lemma fq_slot_front:
  assumes "f < n" "Suc i < n"
  shows "fq_slot n (if f = 0 then n - 1 else f - 1) i = fq_slot n f (Suc i)"
  using assms by (auto simp: fq_slot_def)

text \<open>One element more, in the slot after the last.\<close>

lemma fq_push:
  assumes "fifo_ok q" "fq_count q < fq_size q" "x \<noteq> 0" "j = fq_slot (fq_size q) (fq_front q) (fq_count q)"
    and "q' = q\<lparr>fq_rear := j, fq_elem := (fq_elem q)[j := x], fq_count := fq_count q + 1\<rparr>"
  shows "fifo_ok q' \<and> fq_size q' = fq_size q \<and> fq_contents q' = fq_contents q @ [x]"
proof -
  have j: "j < length (fq_elem q)" using assms by (simp add: fifo_ok_def fq_slot_less)
  have other: "fq_slot (fq_size q) (fq_front q) i \<noteq> j" if "i < fq_count q" for i
    using fq_slot_inj [of "fq_front q" "fq_size q" i "fq_count q"] that assms(1,2,4)
    by (auto simp: fifo_ok_def)
  have "fq_contents q' = fq_contents q @ [x]"
    using map_nth_update_other [where c = "fq_count q" and es = "fq_elem q" and x = x, OF other]
      j assms(4,5)
    by (simp add: fq_contents_def)
  then show ?thesis using assms by (auto simp: fifo_ok_def)
qed

lemma Fifo_enqueue_law:
  assumes "fifo_ok q"
  shows "\<exists>q'. Fifo_enqueue q x = Some (x \<noteq> 0 \<and> length (fq_contents q) < fq_size q, q') \<and>
    fifo_ok q' \<and> fq_size q' = fq_size q \<and>
    fq_contents q' = snd (spec_step (fq_size q) (Enq x) (fq_contents q))"
proof -
  have len: "length (fq_contents q) = fq_count q" by (simp add: fq_contents_def)
  consider "x = 0" | "fq_count q = fq_size q" | "x \<noteq> 0" "fq_count q < fq_size q"
    using assms by (cases "x = 0"; cases "fq_count q = fq_size q") (auto simp: fifo_ok_def)
  then show ?thesis
  proof cases
    case 3
    let ?j = "fq_slot (fq_size q) (fq_front q) (fq_count q)"
    let ?q = "q\<lparr>fq_rear := ?j, fq_elem := (fq_elem q)[?j := x], fq_count := fq_count q + 1\<rparr>"
    have "fq_count q \<noteq> 0 \<Longrightarrow> ?j = (if fq_rear q = 0 then fq_size q - 1 else fq_rear q - 1)"
      using fq_slot_step [of "fq_front q" "fq_size q" "fq_count q - 1"] assms 3(2)
      by (simp add: fifo_ok_def)
    moreover have "fq_count q = 0 \<Longrightarrow> ?j = fq_rear q" using assms by (simp add: fifo_ok_def)
    ultimately have "Fifo_enqueue q x = Some (True, ?q)"
      using assms 3 by (simp add: Fifo_enqueue_def fifo_ok_def)
    with fq_push [OF assms 3(2,1) refl refl] 3 len show ?thesis by simp
  qed (use assms len in \<open>auto simp: Fifo_enqueue_def fifo_ok_def\<close>)
qed

lemma Fifo_deque_law:
  assumes "fifo_ok q"
  shows "\<exists>q'. Fifo_deque q = Some (case fq_contents q of [] \<Rightarrow> 0 | x # xs \<Rightarrow> x, q') \<and>
    fifo_ok q' \<and> fq_size q' = fq_size q \<and> fq_contents q' = tl (fq_contents q)"
proof (cases "fq_count q = 0")
  case True
  then show ?thesis using assms by (simp add: Fifo_deque_def fifo_ok_def fq_contents_def)
next
  case False
  let ?n = "fq_size q" and ?f = "fq_front q"
  have f: "?f < ?n" and c: "fq_count q \<le> ?n" using assms by (auto simp: fifo_ok_def)
  have slot0: "fq_slot ?n ?f 0 = ?f" by (simp add: fq_slot_def)
  have head: "fq_contents q = fq_elem q ! ?f # map (\<lambda>i. fq_elem q ! fq_slot ?n ?f (Suc i)) [0..<fq_count q - 1]"
    using False slot0 by (simp add: fq_contents_def map_upt_cons)
  have other: "fq_slot ?n ?f (Suc i) \<noteq> ?f" if "i < fq_count q - 1" for i
  proof -
    have "Suc i < ?n" using that c by simp
    with fq_slot_inj [of ?f ?n "Suc i" 0] f slot0 show ?thesis by auto
  qed
  have tail: "map (\<lambda>i. (fq_elem q)[?f := 0] ! fq_slot ?n ?f (Suc i)) [0..<fq_count q - 1] = tl (fq_contents q)"
    using map_nth_update_other [where c = "fq_count q - 1" and es = "fq_elem q" and x = 0, OF other]
      head by simp
  show ?thesis
  proof (cases "fq_count q = 1")
    case True
    then have "?f = fq_rear q" using assms slot0 by (simp add: fifo_ok_def)
    then show ?thesis using True head assms tail
      by (simp add: Fifo_deque_def fifo_ok_def fq_contents_def)
  next
    case more: False
    have "fq_count q - 1 < ?n" using c False by simp
    then have r: "?f \<noteq> fq_rear q"
      using fq_slot_inj [of ?f ?n "fq_count q - 1" 0] f more False slot0 assms
      by (auto simp: fifo_ok_def)
    define f' where "f' = (if ?f = 0 then ?n - 1 else ?f - 1)"
    let ?q = "q\<lparr>fq_front := f', fq_elem := (fq_elem q)[?f := 0], fq_count := fq_count q - 1\<rparr>"
    have slots: "fq_slot ?n f' i = fq_slot ?n ?f (Suc i)" if "Suc i < fq_count q" for i
      using fq_slot_front [of ?f ?n i] that f c by (simp add: f'_def)
    have "fq_contents ?q = map (\<lambda>i. (fq_elem q)[?f := 0] ! fq_slot ?n f' i) [0..<fq_count q - 1]"
      by (simp add: fq_contents_def)
    also have "\<dots> = map (\<lambda>i. (fq_elem q)[?f := 0] ! fq_slot ?n ?f (Suc i)) [0..<fq_count q - 1]"
      using slots by (intro map_cong) auto
    finally have cont: "fq_contents ?q = tl (fq_contents q)" using tail by simp
    have "f' < ?n" using f by (simp add: f'_def less_imp_diff_less)
    have "Fifo_deque q = Some (fq_elem q ! ?f, ?q)"
      using False r assms by (simp add: Fifo_deque_def fifo_ok_def Let_def f'_def)
    moreover have "0 \<notin> set (fq_contents ?q)"
      unfolding cont using assms head by (simp add: fifo_ok_def)
    then have "fifo_ok ?q"
      using assms slots [of "fq_count q - 2"] more False \<open>f' < ?n\<close>
      by (auto simp: fifo_ok_def Suc_diff_Suc numeral_2_eq_2)
    ultimately show ?thesis using cont head by simp
  qed
qed

interpretation fifo: bounded_fifo fifo_ok fq_size fq_contents Fifo_enqueue Fifo_deque
proof (unfold_locales, goal_cases)
  case (1 q)
  then show ?case by (simp add: fifo_ok_def)
next
  case (2 q)
  then show ?case by (simp add: fifo_ok_def fq_contents_def)
next
  case (3 q x)
  then show ?case by (rule Fifo_enqueue_law)
next
  case (4 q)
  then show ?case by (rule Fifo_deque_law)
qed

section \<open>Slots replaced by index\<close>

definition fifo_slots_ok :: "fifo_queue \<Rightarrow> bool" where
  "fifo_slots_ok q \<longleftrightarrow> fq_random_access q \<and> length (fq_elem q) = fq_size q \<and>
     fq_count q = length (filter (\<lambda>x. x \<noteq> 0) (fq_elem q))"

lemma filter_update_length:
  assumes "i < length xs"
  shows "length (filter P (xs[i := x])) + (if P (xs ! i) then 1 else 0) =
    length (filter P xs) + (if P x then 1 else 0)"
proof -
  have "filter P xs = filter P (take i xs) @ filter P [xs ! i] @ filter P (drop (Suc i) xs)"
    using assms by (metis append.assoc append_Cons append_Nil filter_append id_take_nth_drop)
  moreover have "filter P (xs[i := x]) = filter P (take i xs) @ filter P [x] @ filter P (drop (Suc i) xs)"
    using assms by (simp add: upd_conv_take_nth_drop)
  ultimately show ?thesis by simp
qed

section \<open>Properties\<close>

text \<open>C18. The ring buffer is a bounded FIFO queue: any sequence of enqueues and dequeues on a fresh
  queue gives the results of the abstract queue, no assertion fails, the slots never hold more
  than the size, and what was accepted is what was delivered followed by what is still inside, in
  order. A size of 0 fails the assertion of \<^verbatim>\<open>Fifo_initQ\<close>.\<close>

theorem fifo_queue_correct:
  "case Fifo_initQ sz False of None \<Rightarrow> sz = 0
   | Some q \<Rightarrow> \<exists>outs q'. fifo_run Fifo_enqueue Fifo_deque ops q = Some (outs, q') \<and>
       (outs, fq_contents q') = spec_run sz ops [] \<and> length (fq_contents q') \<le> sz \<and>
       accepted ops outs = delivered outs @ fq_contents q'"
proof (cases "sz = 0")
  case False
  then obtain q where q: "Fifo_initQ sz False = Some q" "fifo_ok q" "fq_contents q = []" "fq_size q = sz"
    by (simp add: Fifo_initQ_def fifo_ok_def fq_contents_def fq_slot_def)
  from fifo.run_refines [OF q(2), of ops] fifo.run_fifo [OF q(2), of ops] q
  show ?thesis by auto
qed (simp add: Fifo_initQ_def)

text \<open>The random-access use of the same structure: replacing a slot by index returns the old
  pointer, changes that slot only and keeps \<open>count\<close> equal to the number of occupied slots; the
  FIFO operations refuse such a queue with a failed assertion.\<close>

theorem fifo_replace_correct:
  assumes "fifo_slots_ok q" "i < fq_size q"
  shows "\<exists>q'. Fifo_insert_or_replace_at_index q x i = Some (fq_elem q ! i, q') \<and>
    fifo_slots_ok q' \<and> fq_elem q' = (fq_elem q)[i := x] \<and>
    Fifo_enqueue q x = None \<and> Fifo_deque q = None"
proof -
  have i: "i < length (fq_elem q)" using assms by (simp add: fifo_slots_ok_def)
  from filter_update_length [OF i, of "\<lambda>x. x \<noteq> 0" x] assms i
  show ?thesis
    by (auto simp: Fifo_insert_or_replace_at_index_def Fifo_enqueue_def Fifo_deque_def
        fifo_slots_ok_def Let_def split: if_splits)
qed

theorem fifo_replace_correct_witness:
  "\<exists>q q'. Fifo_initQ 3 True = Some q \<and>
    Fifo_insert_or_replace_at_index q 7 1 = Some (0, q') \<and> fq_elem q' = [0, 7, 0]"
proof -
  obtain q where q: "Fifo_initQ 3 True = Some q" "fq_elem q = [0, 0, 0]" "fq_size q = 3"
      "fq_random_access q" "fq_count q = 0"
    by (simp add: Fifo_initQ_def numeral_3_eq_3)
  then have "fifo_slots_ok q" by (simp add: fifo_slots_ok_def)
  from fifo_replace_correct [OF this, of 1 7] q show ?thesis by auto
qed

end
