(* ===== verification/PcQueue.thy ===== *)
theory PcQueue
  imports FifoSpec Schedules
begin

text \<open>
  \<^verbatim>\<open>ProducerConsumer/Queue.c\<close>, a ring buffer of five slots that fills towards higher indices,
  and the producers and consumers of \<^verbatim>\<open>Assignment_prod_cons_on_Q_Solution.c\<close>, which fill and
  drain it as a whole.
\<close>

section \<open>The queue\<close>

definition Q_DEFAULT_SIZE :: nat where
  [simp]: "Q_DEFAULT_SIZE = 5"

record pc_queue =
  pq_elem :: "addr list"
  pq_front :: nat
  pq_rear :: nat
  pq_count :: nat

definition initQ :: pc_queue where
  "initQ = \<lparr>pq_elem = replicate Q_DEFAULT_SIZE 0, pq_front = 0, pq_rear = 0, pq_count = 0\<rparr>"

definition pq_is_empty :: "pc_queue \<Rightarrow> bool" where
  [simp]: "pq_is_empty q \<longleftrightarrow> pq_count q = 0"

definition pq_is_full :: "pc_queue \<Rightarrow> bool" where
  [simp]: "pq_is_full q \<longleftrightarrow> pq_count q = Q_DEFAULT_SIZE"

definition enqueue :: "pc_queue \<Rightarrow> addr \<Rightarrow> bool \<times> pc_queue" where
  "enqueue q ptr =
     (if ptr = 0 then (False, q)
      else if pq_is_full q then (False, q)
      else if pq_is_empty q
      then (True, q\<lparr>pq_elem := (pq_elem q)[pq_front q := ptr], pq_count := pq_count q + 1\<rparr>)
      else let q1 = (if pq_rear q = Q_DEFAULT_SIZE - 1 then q\<lparr>pq_rear := 0\<rparr>
                     else q\<lparr>pq_rear := pq_rear q + 1\<rparr>)
           in (True, q1\<lparr>pq_elem := (pq_elem q1)[pq_rear q1 := ptr], pq_count := pq_count q1 + 1\<rparr>))"

definition deque :: "pc_queue \<Rightarrow> addr \<times> pc_queue" where
  "deque q =
     (if pq_is_empty q then (0, q)
      else let elem = pq_elem q ! pq_front q;
               q1 = q\<lparr>pq_elem := (pq_elem q)[pq_front q := 0], pq_count := pq_count q - 1\<rparr>
           in if pq_front q1 = pq_rear q1 then (elem, q1)
              else if pq_front q1 = Q_DEFAULT_SIZE - 1 then (elem, q1\<lparr>pq_front := 0\<rparr>)
              else (elem, q1\<lparr>pq_front := pq_front q1 + 1\<rparr>))"

definition pq_slot :: "nat \<Rightarrow> nat \<Rightarrow> nat" where
  "pq_slot f i = (if f + i < 5 then f + i else f + i - 5)"

definition pq_contents :: "pc_queue \<Rightarrow> addr list" where
  "pq_contents q = map (\<lambda>i. pq_elem q ! pq_slot (pq_front q) i) [0..<pq_count q]"

definition pq_ok :: "pc_queue \<Rightarrow> bool" where
  "pq_ok q \<longleftrightarrow> length (pq_elem q) = 5 \<and> pq_front q < 5 \<and> pq_count q \<le> 5 \<and>
     pq_rear q = pq_slot (pq_front q) (pq_count q - 1) \<and> 0 \<notin> set (pq_contents q)"

lemma pq_slot_inj: "f < 5 \<Longrightarrow> i < 5 \<Longrightarrow> j < 5 \<Longrightarrow> pq_slot f i = pq_slot f j \<Longrightarrow> i = j"
  by (auto simp: pq_slot_def split: if_splits)

lemma pq_slot_step:
  "f < 5 \<Longrightarrow> Suc i < 5 \<Longrightarrow> pq_slot f (Suc i) = (if pq_slot f i = 4 then 0 else Suc (pq_slot f i))"
  by (auto simp: pq_slot_def)

lemma pq_slot_front:
  "f < 5 \<Longrightarrow> Suc i < 5 \<Longrightarrow> pq_slot (if f = 4 then 0 else Suc f) i = pq_slot f (Suc i)"
  by (auto simp: pq_slot_def)

lemma pq_push:
  assumes "pq_ok q" "pq_count q < 5" "x \<noteq> 0" "j = pq_slot (pq_front q) (pq_count q)"
    and "q' = q\<lparr>pq_rear := j, pq_elem := (pq_elem q)[j := x], pq_count := pq_count q + 1\<rparr>"
  shows "pq_ok q' \<and> pq_contents q' = pq_contents q @ [x]"
proof -
  have j: "j < length (pq_elem q)" using assms by (auto simp: pq_ok_def pq_slot_def)
  have other: "pq_slot (pq_front q) i \<noteq> j" if "i < pq_count q" for i
    using pq_slot_inj [of "pq_front q" i "pq_count q"] that assms(1,2,4) by (auto simp: pq_ok_def)
  have "pq_contents q' = pq_contents q @ [x]"
    using map_nth_update_other [where c = "pq_count q" and es = "pq_elem q" and x = x, OF other]
      j assms(4,5) by (simp add: pq_contents_def)
  then show ?thesis using assms by (auto simp: pq_ok_def)
qed

lemma enqueue_law:
  assumes "pq_ok q"
  shows "\<exists>q'. enqueue q x = (x \<noteq> 0 \<and> length (pq_contents q) < 5, q') \<and>
    pq_ok q' \<and> pq_contents q' = snd (spec_step 5 (Enq x) (pq_contents q))"
proof -
  have len: "length (pq_contents q) = pq_count q" by (simp add: pq_contents_def)
  consider "x = 0" | "pq_count q = 5" | "x \<noteq> 0" "pq_count q < 5"
    using assms by (cases "x = 0"; cases "pq_count q = 5") (auto simp: pq_ok_def)
  then show ?thesis
  proof cases
    case 3
    let ?j = "pq_slot (pq_front q) (pq_count q)"
    let ?q = "q\<lparr>pq_rear := ?j, pq_elem := (pq_elem q)[?j := x], pq_count := pq_count q + 1\<rparr>"
    have "pq_count q \<noteq> 0 \<Longrightarrow> ?j = (if pq_rear q = 4 then 0 else pq_rear q + 1)"
      using pq_slot_step [of "pq_front q" "pq_count q - 1"] assms 3(2) by (simp add: pq_ok_def)
    moreover have "pq_count q = 0 \<Longrightarrow> ?j = pq_rear q \<and> ?j = pq_front q"
      using assms by (simp add: pq_ok_def pq_slot_def)
    ultimately have "enqueue q x = (True, ?q)"
      using 3 by (auto simp: enqueue_def Let_def)
    with pq_push [OF assms 3(2,1) refl refl] 3 len show ?thesis by simp
  qed (use assms len in \<open>auto simp: enqueue_def\<close>)
qed

lemma deque_law:
  assumes "pq_ok q"
  shows "\<exists>q'. deque q = (case pq_contents q of [] \<Rightarrow> 0 | x # xs \<Rightarrow> x, q') \<and>
    pq_ok q' \<and> pq_contents q' = tl (pq_contents q)"
proof (cases "pq_count q = 0")
  case True
  then show ?thesis using assms by (simp add: deque_def pq_contents_def)
next
  case False
  let ?f = "pq_front q"
  have f: "?f < 5" and c: "pq_count q \<le> 5" using assms by (auto simp: pq_ok_def)
  have slot0: "pq_slot ?f 0 = ?f" using f by (simp add: pq_slot_def)
  have head: "pq_contents q = pq_elem q ! ?f # map (\<lambda>i. pq_elem q ! pq_slot ?f (Suc i)) [0..<pq_count q - 1]"
    using False slot0 by (simp add: pq_contents_def map_upt_cons)
  have other: "pq_slot ?f (Suc i) \<noteq> ?f" if "i < pq_count q - 1" for i
  proof -
    have "Suc i < 5" using that c by simp
    with pq_slot_inj [of ?f "Suc i" 0] f slot0 show ?thesis by auto
  qed
  have tail: "map (\<lambda>i. (pq_elem q)[?f := 0] ! pq_slot ?f (Suc i)) [0..<pq_count q - 1] = tl (pq_contents q)"
    using map_nth_update_other [where c = "pq_count q - 1" and es = "pq_elem q" and x = 0, OF other]
      head by simp
  show ?thesis
  proof (cases "pq_count q = 1")
    case True
    then have "?f = pq_rear q" using assms slot0 by (simp add: pq_ok_def)
    then show ?thesis using True head assms tail f
      by (simp add: deque_def pq_ok_def pq_contents_def)
  next
    case more: False
    have "pq_count q - 1 < 5" using c False by simp
    then have r: "?f \<noteq> pq_rear q"
      using pq_slot_inj [of ?f "pq_count q - 1" 0] f more False slot0 assms
      by (auto simp: pq_ok_def)
    define f' where "f' = (if ?f = 4 then 0 else Suc ?f)"
    let ?q = "q\<lparr>pq_front := f', pq_elem := (pq_elem q)[?f := 0], pq_count := pq_count q - 1\<rparr>"
    have slots: "pq_slot f' i = pq_slot ?f (Suc i)" if "Suc i < pq_count q" for i
      using pq_slot_front [of ?f i] that f c by (simp add: f'_def)
    have "pq_contents ?q = map (\<lambda>i. (pq_elem q)[?f := 0] ! pq_slot f' i) [0..<pq_count q - 1]"
      by (simp add: pq_contents_def)
    also have "\<dots> = map (\<lambda>i. (pq_elem q)[?f := 0] ! pq_slot ?f (Suc i)) [0..<pq_count q - 1]"
      using slots by (intro map_cong) auto
    finally have cont: "pq_contents ?q = tl (pq_contents q)" using tail by simp
    have "f' < 5" using f by (auto simp: f'_def)
    have "deque q = (pq_elem q ! ?f, ?q)"
      using False r by (simp add: deque_def Let_def f'_def)
    moreover have "0 \<notin> set (pq_contents ?q)"
      unfolding cont using assms head by (simp add: pq_ok_def)
    then have "pq_ok ?q"
      using assms slots [of "pq_count q - 2"] more False \<open>f' < 5\<close>
      by (auto simp: pq_ok_def Suc_diff_Suc numeral_2_eq_2)
    ultimately show ?thesis using cont head by simp
  qed
qed

interpretation pc: bounded_fifo pq_ok "\<lambda>_. Q_DEFAULT_SIZE" pq_contents
  "\<lambda>q x. Some (enqueue q x)" "\<lambda>q. Some (deque q)"
proof (unfold_locales, goal_cases)
  case (1 q)
  then show ?case by (simp add: pq_ok_def)
next
  case (2 q)
  then show ?case by (simp add: pq_ok_def pq_contents_def)
next
  case (3 q x)
  with enqueue_law [of q x] show ?case by auto
next
  case (4 q)
  with deque_law [of q] show ?case by auto
qed

lemma initQ_ok: "pq_ok initQ" "pq_contents initQ = []"
  by (simp_all add: initQ_def pq_ok_def pq_contents_def pq_slot_def)

section \<open>Producers and consumers\<close>

text \<open>\<open>pc_a\<close> is the static counter of \<^verbatim>\<open>new_int\<close> (a C \<^verbatim>\<open>int\<close>, taken below its
  overflow); \<open>pc_eaten\<close> is a history variable of the model: the integers the consumers took, in
  order.\<close>

record pc_state =
  pc_q :: pc_queue
  pc_a :: nat
  pc_eaten :: "addr list"

datatype pc_cv = Q_cv
datatype pc_op = Prod | Cons_all
datatype pc_result = Pc_done

type_synonym pc_sect = "(pc_state, pc_result, pc_cv, pc_op) sect"

text \<open>The two inner loops, which run until the queue is full, respectively empty; \<open>None\<close> is a loop
  that does not end.\<close>

partial_function (option) pc_fill :: "pc_queue \<Rightarrow> nat \<Rightarrow> (pc_queue \<times> nat) option" where
  "pc_fill q a = (if pq_is_full q then Some (q, a) else pc_fill (snd (enqueue q (a + 1))) (a + 1))"

partial_function (option) pc_drain :: "pc_queue \<Rightarrow> addr list \<Rightarrow> (pc_queue \<times> addr list) option" where
  "pc_drain q eaten =
     (if pq_is_empty q then Some (q, eaten) else pc_drain (snd (deque q)) (eaten @ [fst (deque q)]))"

text \<open>\<^verbatim>\<open>prod_fn\<close> and \<^verbatim>\<open>cons_fn\<close>, entered and resumed at the loop on their predicate. A
  thread whose inner loop does not end never releases the mutex (\<open>Aborted\<close>).\<close>

definition prod_fn :: "pc_state \<Rightarrow> pc_sect" where
  [sync_defs]: "prod_fn s =
     (if pq_is_full (pc_q s) then CvWait s Q_cv Prod []
      else check (pq_is_empty (pc_q s))
        (case pc_fill (pc_q s) (pc_a s) of None \<Rightarrow> Aborted
         | Some (q, a) \<Rightarrow> Unlocked (s\<lparr>pc_q := q, pc_a := a\<rparr>) Pc_done [Broadcast Q_cv]))"

definition cons_fn :: "pc_state \<Rightarrow> pc_sect" where
  [sync_defs]: "cons_fn s =
     (if pq_is_empty (pc_q s) then CvWait s Q_cv Cons_all []
      else check (pq_is_full (pc_q s))
        (case pc_drain (pc_q s) (pc_eaten s) of None \<Rightarrow> Aborted
         | Some (q, eaten) \<Rightarrow> Unlocked (s\<lparr>pc_q := q, pc_eaten := eaten\<rparr>) Pc_done [Broadcast Q_cv]))"

fun pc_enter :: "tid \<Rightarrow> pc_op \<Rightarrow> pc_state \<Rightarrow> pc_sect" where
  "pc_enter self Prod s = prod_fn s"
| "pc_enter self Cons_all s = cons_fn s"

definition pc_obj :: "(pc_state, unit, pc_op, pc_op, pc_cv, pc_result) obj" where
  "pc_obj = \<lparr>enter = pc_enter, resume = pc_enter, may_call = (\<lambda>_ _. True), on_return = (\<lambda>_ g. g)\<rparr>"

lemma pc_obj_simps [simp]:
  "enter pc_obj = pc_enter" "resume pc_obj = pc_enter" "may_call pc_obj g op" "on_return pc_obj r g = g"
  by (simp_all add: pc_obj_def)

text \<open>The memory at the start of \<^verbatim>\<open>main\<close>'s threads.\<close>

definition pc_start :: pc_state where
  "pc_start = \<lparr>pc_q = initQ, pc_a = 0, pc_eaten = []\<rparr>"

section \<open>The loops end\<close>

lemma pq_count_contents: "pq_count q = length (pq_contents q)"
  by (simp add: pq_contents_def)

lemma pc_fill_ends:
  assumes "pq_ok q" "5 - pq_count q = n"
  shows "\<exists>q'. pc_fill q a = Some (q', a + n) \<and> pq_ok q' \<and> pq_is_full q' \<and>
    pq_contents q' = pq_contents q @ [a + 1..<a + n + 1]"
  using assms
proof (induction n arbitrary: q a)
  case 0
  then have "pq_is_full q" by (simp add: pq_ok_def)
  with 0 show ?case by (simp add: pc_fill.simps)
next
  case (Suc n)
  then have less: "pq_count q < 5" by simp
  with enqueue_law [OF Suc.prems(1), of "a + 1"] obtain q1 where
    q1: "enqueue q (a + 1) = (True, q1)" "pq_ok q1" "pq_contents q1 = pq_contents q @ [a + 1]"
    by (auto simp: pq_count_contents)
  then have "5 - pq_count q1 = n" using Suc.prems(2) by (simp add: pq_count_contents)
  from Suc.IH [OF q1(2) this, of "a + 1"] q1 less show ?case
    by (subst pc_fill.simps) (auto simp: upt_conv_Cons simp del: upt_Suc)
qed

lemma pc_drain_ends:
  assumes "pq_ok q" "pq_count q = n"
  shows "\<exists>q'. pc_drain q eaten = Some (q', eaten @ pq_contents q) \<and> pq_ok q' \<and> pq_is_empty q'"
  using assms
proof (induction n arbitrary: q eaten)
  case 0
  then show ?case by (simp add: pc_drain.simps pq_contents_def)
next
  case (Suc n)
  then obtain x xs where cs: "pq_contents q = x # xs"
    by (cases "pq_contents q") (auto simp: pq_count_contents)
  with deque_law [OF Suc.prems(1)] obtain q1 where
    q1: "deque q = (x, q1)" "pq_ok q1" "pq_contents q1 = xs" by auto
  then have "pq_count q1 = n" using Suc.prems(2) cs by (simp add: pq_count_contents)
  from Suc.IH [OF q1(2) this, of "eaten @ [x]"] q1 cs Suc.prems(2) show ?case
    by (subst pc_drain.simps) auto
qed

section \<open>The invariant\<close>

definition pc_inv :: "pc_state \<Rightarrow> bool" where
  "pc_inv s \<longleftrightarrow> pq_ok (pc_q s) \<and> (pq_is_empty (pc_q s) \<or> pq_is_full (pc_q s)) \<and>
     pc_eaten s @ pq_contents (pc_q s) = [1..<pc_a s + 1]"

text \<open>Producers sleep only on a full queue and consumers only on an empty one.\<close>

definition pc_asleep :: "pc_state \<Rightarrow> (tid \<Rightarrow> (pc_cv, pc_op) thread_status) \<Rightarrow> bool" where
  "pc_asleep s f \<longleftrightarrow> (\<forall>t cv. (f t = Blocked cv Prod \<longrightarrow> pq_is_full (pc_q s)) \<and>
     (f t = Blocked cv Cons_all \<longrightarrow> pq_is_empty (pc_q s)))"

lemma pc_cv_eq: "cv = Q_cv"
  by (cases cv) simp

lemma pc_asleep_broadcast: "wakes [Broadcast Q_cv] f h \<Longrightarrow> pc_asleep s h"
  by (auto simp: pc_asleep_def wake_all_def pc_cv_eq split: if_splits)
    (metis blocked_on_iff pc_cv_eq wake_not_blocked(2))+

lemma pc_asleep_return: "pc_asleep s f \<Longrightarrow> pc_asleep s (f(t := Running))"
  by (auto simp: pc_asleep_def)

lemma pc_keeps:
  assumes "pc_inv s" "pc_asleep s f"
  shows "keeps pc_obj (\<lambda>s g f. pc_inv s \<and> pc_asleep s f) t g f (pc_enter t op s)"
proof -
  have q: "pq_ok (pc_q s)" using assms(1) by (simp add: pc_inv_def)
  show ?thesis
  proof (cases op)
    case Prod
    show ?thesis
    proof (cases "pq_is_full (pc_q s)")
      case True
      then show ?thesis using assms Prod by (auto simp: prod_fn_def pc_asleep_def)
    next
      case False
      then have e: "pq_is_empty (pc_q s)" "pq_contents (pc_q s) = []"
        using assms(1) by (auto simp: pc_inv_def pq_contents_def)
      with pc_fill_ends [OF q, of 5 "pc_a s"] obtain q' where q': "pc_fill (pc_q s) (pc_a s) = Some (q', pc_a s + 5)"
        "pq_ok q'" "pq_is_full q'" "pq_contents q' = [pc_a s + 1..<pc_a s + 6]"
        by (auto simp: add.commute)
      have "pc_inv (s\<lparr>pc_q := q', pc_a := pc_a s + 5\<rparr>)"
        using q' e assms(1) upt_add_eq_append [of 1 "pc_a s + 1" 5]
        by (auto simp: pc_inv_def add.commute simp del: upt_Suc)
      then show ?thesis using Prod False e q' pc_asleep_broadcast
        by (simp add: prod_fn_def check_def del: wakes.simps)
    qed
  next
    case Cons_all
    show ?thesis
    proof (cases "pq_is_empty (pc_q s)")
      case True
      then show ?thesis using assms Cons_all by (auto simp: cons_fn_def pc_asleep_def)
    next
      case False
      then have full: "pq_is_full (pc_q s)" using assms(1) by (auto simp: pc_inv_def)
      from pc_drain_ends [OF q refl, of "pc_eaten s"] obtain q' where
        q': "pc_drain (pc_q s) (pc_eaten s) = Some (q', pc_eaten s @ pq_contents (pc_q s))"
        "pq_ok q'" "pq_is_empty q'" by auto
      have "pc_inv (s\<lparr>pc_q := q', pc_eaten := pc_eaten s @ pq_contents (pc_q s)\<rparr>)"
        using q' assms(1) by (auto simp: pc_inv_def pq_contents_def)
      then show ?thesis using Cons_all False full q' pc_asleep_broadcast
        by (simp add: cons_fn_def check_def del: wakes.simps)
    qed
  qed
qed

interpretation prod_cons: sync_object "\<lambda>p T. True" "\<lambda>p::unit. pc_obj" True "\<lambda>p. pc_start" "()"
  "\<lambda>p T s g f. pc_inv s \<and> pc_asleep s f"
proof (unfold_locales, goal_cases)
  case (1 p T)
  then show ?case using initQ_ok by (simp add: pc_inv_def pc_asleep_def pc_start_def initQ_def)
next
  case (2 p T s g f t op)
  then show ?case by (simp add: pc_keeps)
next
  case (3 p T s g f t k)
  then show ?case by (simp add: pc_keeps)
next
  case (4 p T s g f t)
  then show ?case by (cases "f t") (auto simp: pc_asleep_def)
qed

section \<open>Properties\<close>

text \<open>The ring of \<^verbatim>\<open>Queue.c\<close> is a bounded FIFO queue of five: any sequence of operations on
  a fresh queue gives the results of the abstract queue, and what was accepted is what was
  delivered followed by what is still inside.\<close>

theorem pc_queue_correct:
  "\<exists>outs q'. fifo_run (\<lambda>q x. Some (enqueue q x)) (\<lambda>q. Some (deque q)) ops initQ = Some (outs, q') \<and>
     (outs, pq_contents q') = spec_run 5 ops [] \<and>
     accepted ops outs = delivered outs @ pq_contents q'"
  using pc.run_refines [OF initQ_ok(1), of ops] pc.run_fifo [OF initQ_ok(1), of ops]
  by (auto simp: initQ_ok(2))

text \<open>C22. Producers and consumers: in every execution of any number of them, spurious wake-ups
  included, no assertion fails and every inner loop ends; between critical sections the queue is
  empty or full; the consumers receive the integers 1, 2, 3, ... each once and in order; a producer
  sleeps only while the queue is full and a consumer only while it is empty.\<close>

theorem producer_consumer_correct:
  assumes "reach pc_obj sp T pc_start () c"
  shows "\<not> aborted c \<and> (pq_is_empty (pc_q (shared c)) \<or> pq_is_full (pc_q (shared c))) \<and>
    pc_eaten (shared c) @ pq_contents (pc_q (shared c)) = [1..<pc_a (shared c) + 1] \<and>
    (status c t = Blocked cv Prod \<longrightarrow> pq_is_full (pc_q (shared c))) \<and>
    (status c t = Blocked cv Cons_all \<longrightarrow> pq_is_empty (pc_q (shared c)))"
proof -
  have "reach pc_obj True T pc_start () c"
    using assms reach_mono [of pc_obj T pc_start "()" c True] by (cases sp) auto
  from prod_cons.reachable [OF TrueI this] show ?thesis
    by (auto simp: pc_inv_def pc_asleep_def)
qed

theorem producer_consumer_correct_witness:
  "\<exists>c. reach pc_obj False {1, 2} pc_start () c \<and> status c 1 = Blocked Q_cv Cons_all \<and>
    pq_is_empty (pc_q (shared c))"
proof -
  obtain c where c: "execute pc_obj False [1, 2] [Call 1 Cons_all []] (start pc_start ()) = Some c"
      "status c 1 = Blocked Q_cv Cons_all"
    by (simp add: start_def pc_start_def initQ_def sync_defs)
  from producer_consumer_correct [of False "{1, 2}" c 1 Q_cv] execute_reach [OF c(1)] c
  show ?thesis by auto
qed

end
