(* ===== verification/Glthread.thy ===== *)
theory Glthread
  imports Prelude
begin

text \<open>
  The intrusive doubly linked list of \<^verbatim>\<open>gluethread/glthread.c\<close>, on an explicit heap: nodes are
  addresses, NULL is 0, and the two fields \<open>left\<close> and \<open>right\<close> are maps from addresses. The
  operations are shown to implement the list operations that the other components use.
\<close>

section \<open>The code\<close>

record gl_heap =
  gl_left :: "addr \<Rightarrow> addr"
  gl_right :: "addr \<Rightarrow> addr"

definition set_left :: "addr \<Rightarrow> addr \<Rightarrow> gl_heap \<Rightarrow> gl_heap" where
  "set_left p v h = h\<lparr>gl_left := (gl_left h)(p := v)\<rparr>"

definition set_right :: "addr \<Rightarrow> addr \<Rightarrow> gl_heap \<Rightarrow> gl_heap" where
  "set_right p v h = h\<lparr>gl_right := (gl_right h)(p := v)\<rparr>"

lemma field_simps_gl [simp]:
  "gl_left (set_left p v h) = (gl_left h)(p := v)" "gl_right (set_left p v h) = gl_right h"
  "gl_right (set_right p v h) = (gl_right h)(p := v)" "gl_left (set_right p v h) = gl_left h"
  by (simp_all add: set_left_def set_right_def)

definition init_glthread :: "addr \<Rightarrow> gl_heap \<Rightarrow> gl_heap" where
  "init_glthread n h = set_right n 0 (set_left n 0 h)"

definition glthread_add_next :: "addr \<Rightarrow> addr \<Rightarrow> gl_heap \<Rightarrow> gl_heap" where
  "glthread_add_next cur new h =
     (if gl_right h cur = 0 then set_left new cur (set_right cur new h)
      else let temp = gl_right h cur
           in set_left temp new (set_right new temp (set_left new cur (set_right cur new h))))"

definition glthread_add_before :: "addr \<Rightarrow> addr \<Rightarrow> gl_heap \<Rightarrow> gl_heap" where
  "glthread_add_before cur new h =
     (if gl_left h cur = 0 then set_left cur new (set_right new cur (set_left new 0 h))
      else let temp = gl_left h cur
           in set_left cur new (set_right new cur (set_left new temp (set_right temp new h))))"

definition remove_glthread :: "addr \<Rightarrow> gl_heap \<Rightarrow> gl_heap" where
  "remove_glthread cur h =
     (if gl_left h cur = 0
      then (if gl_right h cur \<noteq> 0 then set_right cur 0 (set_left (gl_right h cur) 0 h) else h)
      else if gl_right h cur = 0 then set_left cur 0 (set_right (gl_left h cur) 0 h)
      else let h1 = set_right (gl_left h cur) (gl_right h cur) h;
               h2 = set_left (gl_right h1 cur) (gl_left h1 cur) h1
           in set_right cur 0 (set_left cur 0 h2))"

text \<open>The loops \<^verbatim>\<open>ITERATE_GLTHREAD_BEGIN ... END\<close> follow the right pointers from the node after
  the head until NULL; on a cyclic list they do not end (\<open>None\<close>).\<close>

partial_function (option) gl_delete_from :: "addr \<Rightarrow> gl_heap \<Rightarrow> gl_heap option" where
  "gl_delete_from p h =
     (if p = 0 then Some h
      else let next_ptr = gl_right h p in gl_delete_from next_ptr (remove_glthread p h))"

definition delete_glthread_list :: "addr \<Rightarrow> gl_heap \<Rightarrow> gl_heap option" where
  "delete_glthread_list head h = gl_delete_from (gl_right h head) h"

partial_function (option) gl_last_from :: "gl_heap \<Rightarrow> addr \<Rightarrow> addr \<Rightarrow> addr option" where
  "gl_last_from h p prev = (if p = 0 then Some prev else gl_last_from h (gl_right h p) p)"

definition glthread_add_last :: "addr \<Rightarrow> addr \<Rightarrow> gl_heap \<Rightarrow> gl_heap option" where
  "glthread_add_last head new h =
     map_option (\<lambda>prev. if prev \<noteq> 0 then glthread_add_next prev new h else glthread_add_next head new h)
       (gl_last_from h (gl_right h head) 0)"

partial_function (option) gl_count_from :: "gl_heap \<Rightarrow> addr \<Rightarrow> u32 \<Rightarrow> u32 option" where
  "gl_count_from h p c = (if p = 0 then Some c else gl_count_from h (gl_right h p) (c + 1))"

definition get_glthread_list_count :: "addr \<Rightarrow> gl_heap \<Rightarrow> u32 option" where
  "get_glthread_list_count head h = gl_count_from h (gl_right h head) 0"

text \<open>\<open>cmp x y\<close> is the caller's \<^verbatim>\<open>comp_fn\<close> on the structures around the nodes \<open>x\<close>, \<open>y\<close>. The
  loop returns the node after which the new one goes (0 for the head); reaching the end without a
  \<open>prev\<close> would pass NULL on, which a list of two or more nodes excludes.\<close>

partial_function (option) gl_insert_point ::
  "(addr \<Rightarrow> addr \<Rightarrow> int) \<Rightarrow> gl_heap \<Rightarrow> addr \<Rightarrow> addr \<Rightarrow> addr \<Rightarrow> addr option" where
  "gl_insert_point cmp h new cur prev =
     (if cur = 0 then Some prev
      else if cmp new cur \<noteq> -1 then gl_insert_point cmp h new (gl_right h cur) cur
      else Some prev)"

definition glthread_priority_insert ::
  "(addr \<Rightarrow> addr \<Rightarrow> int) \<Rightarrow> addr \<Rightarrow> addr \<Rightarrow> gl_heap \<Rightarrow> gl_heap option" where
  "glthread_priority_insert cmp head new h0 =
     (let h = init_glthread new h0 in
      if gl_right h head = 0 \<and> gl_left h head = 0 then Some (glthread_add_next head new h)
      else if gl_right h head \<noteq> 0 \<and> gl_right h (gl_right h head) = 0
      then (if cmp new (gl_right h head) = -1 then Some (glthread_add_next head new h)
            else Some (glthread_add_next (gl_right h head) new h))
      else map_option (\<lambda>prev. if prev = 0 then glthread_add_next head new h
                              else glthread_add_next prev new h)
             (gl_insert_point cmp h new (gl_right h head) 0))"

definition dequeue_glthread_first :: "addr \<Rightarrow> gl_heap \<Rightarrow> addr \<times> gl_heap" where
  "dequeue_glthread_first head h =
     (if gl_right h head = 0 then (0, h)
      else let temp = gl_right h head in (temp, remove_glthread temp h))"

definition glthread_get_first_node :: "addr \<Rightarrow> gl_heap \<Rightarrow> addr" where
  "glthread_get_first_node head h = gl_right h head"

section \<open>Segments of a list\<close>

definition first :: "addr list \<Rightarrow> addr \<Rightarrow> addr" where
  "first xs d = (case xs of [] \<Rightarrow> d | x # _ \<Rightarrow> x)"

lemma first_simps [simp]: "first [] d = d" "first (x # xs) d = x"
  by (simp_all add: first_def)

lemma first_append [simp]: "first (xs @ ys) d = first xs (first ys d)"
  by (cases xs) auto

fun seg :: "gl_heap \<Rightarrow> addr \<Rightarrow> addr list \<Rightarrow> addr \<Rightarrow> bool" where
  "seg h prev [] nxt = True"
| "seg h prev (x # xs) nxt \<longleftrightarrow> gl_left h x = prev \<and> gl_right h x = first xs nxt \<and> seg h x xs nxt"

lemma seg_append: "seg h prev (xs @ ys) nxt \<longleftrightarrow> seg h prev xs (first ys nxt) \<and> seg h (last (prev # xs)) ys nxt"
  by (induction xs arbitrary: prev) auto

lemma seg_frame:
  assumes "\<And>x. x \<in> set xs \<Longrightarrow> gl_left h' x = gl_left h x \<and> gl_right h' x = gl_right h x"
  shows "seg h' prev xs nxt \<longleftrightarrow> seg h prev xs nxt"
  using assms by (induction xs arbitrary: prev) auto

lemma seg_set_right:
  assumes "seg h prev xs nxt" "xs \<noteq> []" "distinct xs"
    and "\<And>x. x \<in> set xs \<Longrightarrow> gl_left h' x = gl_left h x"
    and "\<And>x. x \<in> set xs \<Longrightarrow> gl_right h' x = (if x = last xs then nxt' else gl_right h x)"
  shows "seg h' prev xs nxt'"
  using assms
proof (induction xs arbitrary: prev)
  case (Cons x xs)
  show ?case
  proof (cases "xs = []")
    case False
    with Cons.prems have "x \<noteq> last xs" by auto
    with Cons False show ?thesis by (cases xs) auto
  qed (use Cons.prems in simp)
qed simp

lemma seg_set_left:
  assumes "seg h prev (x # xs) nxt" "distinct (x # xs)"
    and "gl_left h' x = prev'" "gl_right h' x = gl_right h x"
    and "\<And>y. y \<in> set xs \<Longrightarrow> gl_left h' y = gl_left h y \<and> gl_right h' y = gl_right h y"
  shows "seg h' prev' (x # xs) nxt"
  using assms seg_frame [of xs h' h x nxt] by auto

lemma seg_last: "seg h prev xs nxt \<Longrightarrow> xs \<noteq> [] \<Longrightarrow> gl_right h (last xs) = nxt"
  by (induction xs arbitrary: prev) (auto split: if_splits)

text \<open>\<open>gl_list h head xs\<close>: from the node \<open>head\<close>, the nodes \<open>xs\<close> in this order.\<close>

definition gl_list :: "gl_heap \<Rightarrow> addr \<Rightarrow> addr list \<Rightarrow> bool" where
  "gl_list h head xs \<longleftrightarrow> distinct (head # xs) \<and> 0 \<notin> set (head # xs) \<and> seg h 0 (head # xs) 0"

lemma gl_list_right: "gl_list h head xs \<Longrightarrow> gl_right h head = first xs 0"
  by (simp add: gl_list_def)

lemma gl_list_zero: "gl_list h head xs \<Longrightarrow> gl_right h head = 0 \<longleftrightarrow> xs = []"
  by (cases xs) (auto simp: gl_list_def)

lemma gl_list_left: "gl_list h head xs \<Longrightarrow> gl_left h head = 0"
  by (simp add: gl_list_def)

lemma gl_list_init [simp]: "head \<noteq> 0 \<Longrightarrow> gl_list (init_glthread head h) head []"
  by (simp add: gl_list_def init_glthread_def)

lemma gl_list_node:
  assumes "gl_list h head (xs @ x # ys)"
  shows "gl_left h x = last (head # xs)" "gl_right h x = first ys 0" "x \<noteq> 0" "last (head # xs) \<noteq> 0"
proof -
  have "seg h 0 ((head # xs) @ x # ys) 0" using assms by (simp add: gl_list_def)
  then show "gl_left h x = last (head # xs)" "gl_right h x = first ys 0"
    unfolding seg_append by (auto simp: last_ConsR)
  show "x \<noteq> 0" using assms by (auto simp: gl_list_def)
  have "last (head # xs) \<in> set (head # xs)" by (rule last_in_set) simp
  then show "last (head # xs) \<noteq> 0" using assms by (auto simp: gl_list_def)
qed

section \<open>What the operations do to a list\<close>

lemma gl_insert_seg:
  assumes "gl_list h head (xs @ ys)" "new \<notin> set (head # xs @ ys)" "new \<noteq> 0"
    and "a = last (head # xs)"
    and "gl_left h' = (if ys = [] then (gl_left h)(new := a) else (gl_left h)(new := a, hd ys := new))"
    and "gl_right h' = (gl_right h)(a := new, new := first ys 0)"
  shows "gl_list h' head (xs @ new # ys)"
proof -
  have d: "distinct (head # xs)" "distinct ys" "set (head # xs) \<inter> set ys = {}"
    using assms(1) by (auto simp: gl_list_def)
  have s: "seg h 0 (head # xs) (first ys 0)" "seg h a ys 0"
    using assms(1,4) seg_append [of h 0 "head # xs" ys 0] by (auto simp: gl_list_def last_ConsR)
  have a: "a \<in> set (head # xs)" unfolding assms(4) by (rule last_in_set) simp
  have l: "gl_left h' x = gl_left h x" if "x \<in> set (head # xs)" for x
    using that assms(2,5) d(3) by (cases ys) auto
  have r: "gl_right h' x = (if x = last (head # xs) then new else gl_right h x)"
    if "x \<in> set (head # xs)" for x
    using that assms(2,4,6) by auto
  have "seg h' 0 (head # xs) new" using seg_set_right [OF s(1) _ d(1) l r] by simp
  moreover have "seg h' new ys 0"
  proof (cases ys)
    case (Cons y ys')
    have "a \<notin> set ys" using a d(3) by auto
    moreover have "seg h a (y # ys') 0" "distinct (y # ys')" using s(2) d(2) Cons by auto
    ultimately have "seg h' new (y # ys') 0"
      using Cons assms(2,5,6) by (intro seg_set_left [of h a y ys' 0 h' new]) auto
    then show ?thesis using Cons by simp
  qed simp
  moreover have "gl_left h' new = a" "gl_right h' new = first ys 0"
    using assms(2,5,6) by (cases ys; auto)+
  ultimately have "seg h' 0 ((head # xs) @ new # ys) 0"
    unfolding seg_append using assms(4) by (simp add: last_ConsR)
  then show ?thesis using assms(1-3) by (auto simp: gl_list_def)
qed

lemma last_node: "last (head # xs) \<in> set (head # xs)"
  by (rule last_in_set) simp

lemma add_next_list:
  assumes "gl_list h head (xs @ ys)" "new \<notin> set (head # xs @ ys)" "new \<noteq> 0" "gl_right h new = 0"
    and a: "a = last (head # xs)"
  shows "gl_list (glthread_add_next a new h) head (xs @ new # ys)"
proof -
  have "seg h 0 ((head # xs) @ ys) 0" using assms(1) by (simp add: gl_list_def)
  then have "seg h 0 (head # xs) (first ys 0)" unfolding seg_append ..
  from seg_last [OF this] have ra: "gl_right h a = first ys 0" unfolding a by simp
  have "a \<in> set (head # xs)" unfolding a by (rule last_node)
  then have "new \<noteq> a" using assms(2) by auto
  show ?thesis
  proof (cases ys)
    case Nil
    then have "glthread_add_next a new h = set_left new a (set_right a new h)"
      using ra by (simp add: glthread_add_next_def)
    with gl_insert_seg [OF assms(1-3) a, of "set_left new a (set_right a new h)"] Nil \<open>new \<noteq> a\<close> assms(4)
    show ?thesis by (simp add: fun_eq_iff)
  next
    case (Cons y ys')
    then have y: "y \<noteq> 0" "y \<noteq> new" using assms by (auto simp: gl_list_def)
    let ?h = "set_left y new (set_right new y (set_left new a (set_right a new h)))"
    have "glthread_add_next a new h = ?h"
      using ra Cons y by (simp add: glthread_add_next_def Let_def)
    with gl_insert_seg [OF assms(1-3) a, of ?h] Cons y show ?thesis by simp
  qed
qed

lemma add_before_list:
  assumes "gl_list h head (xs @ x # ys)" "new \<notin> set (head # xs @ x # ys)" "new \<noteq> 0"
  shows "gl_list (glthread_add_before x new h) head (xs @ new # x # ys)"
proof -
  obtain a where a: "a = last (head # xs)" by blast
  note node = gl_list_node [OF assms(1), folded a]
  have "a \<in> set (head # xs)" unfolding a by (rule last_node)
  then have ne: "new \<noteq> a" "x \<noteq> a" using assms(1,2) by (auto simp: gl_list_def)
  let ?h = "set_left x new (set_right new x (set_left new a (set_right a new h)))"
  have "glthread_add_before x new h = ?h"
    using node by (simp add: glthread_add_before_def Let_def)
  with gl_insert_seg [OF assms a, of ?h] ne show ?thesis by simp
qed

text \<open>The heap after a removal from between \<open>a\<close> and \<open>ys\<close>.\<close>

lemma remove_glthread_heap:
  assumes "gl_left h x = a" "a \<noteq> 0" "gl_right h x = first ys 0" "a \<noteq> x" "0 \<notin> set ys" "x \<notin> set ys"
  shows "gl_left (remove_glthread x h) =
      (if ys = [] then (gl_left h)(x := 0) else (gl_left h)(hd ys := a, x := 0))"
    and "gl_right (remove_glthread x h) = (gl_right h)(a := first ys 0, x := 0)"
proof -
  have "gl_left (remove_glthread x h) =
      (if ys = [] then (gl_left h)(x := 0) else (gl_left h)(hd ys := a, x := 0)) \<and>
    gl_right (remove_glthread x h) = (gl_right h)(a := first ys 0, x := 0)"
  proof (cases ys)
    case Nil
    then have "remove_glthread x h = set_left x 0 (set_right a 0 h)"
      using assms by (simp add: remove_glthread_def)
    moreover have "gl_right h x = 0" using Nil assms(3) by simp
    ultimately show ?thesis using Nil assms(4) by (simp add: fun_eq_iff)
  next
    case (Cons y ys')
    then have "remove_glthread x h = set_right x 0 (set_left x 0 (set_left y a (set_right a y h)))"
      using assms by (simp add: remove_glthread_def Let_def)
    then show ?thesis using Cons by simp
  qed
  then show "gl_left (remove_glthread x h) =
      (if ys = [] then (gl_left h)(x := 0) else (gl_left h)(hd ys := a, x := 0))"
    and "gl_right (remove_glthread x h) = (gl_right h)(a := first ys 0, x := 0)" by auto
qed

lemma remove_list:
  assumes "gl_list h head (xs @ x # ys)" "h' = remove_glthread x h"
  shows "gl_list h' head (xs @ ys) \<and> gl_left h' x = 0 \<and> gl_right h' x = 0 \<and>
    (\<forall>z. z \<notin> set (head # xs @ x # ys) \<longrightarrow> gl_left h' z = gl_left h z \<and> gl_right h' z = gl_right h z)"
proof -
  obtain a where a: "a = last (head # xs)" by blast
  note node = gl_list_node [OF assms(1), folded a]
  have d: "distinct (head # xs)" "distinct (x # ys)" "set (head # xs) \<inter> set (x # ys) = {}"
    and nz: "0 \<notin> set ys"
    using assms(1) by (auto simp: gl_list_def)
  have s: "seg h 0 (head # xs) x" "seg h x ys 0"
    using assms(1) seg_append [of h 0 "head # xs" "x # ys" 0] by (auto simp: gl_list_def)
  have am: "a \<in> set (head # xs)" unfolding a by (rule last_node)
  then have ax: "a \<noteq> x" "a \<notin> set ys" using d(3) by auto
  have h': "gl_left h' = (if ys = [] then (gl_left h)(x := 0) else (gl_left h)(hd ys := a, x := 0))"
    "gl_right h' = (gl_right h)(a := first ys 0, x := 0)"
    using remove_glthread_heap [of h x a ys] node nz ax(1) d(2) by (simp_all add: assms(2))
  have l: "gl_left h' z = gl_left h z" if "z \<in> set (head # xs)" for z
    using that h'(1) d(3) by (cases ys) auto
  have r: "gl_right h' z = (if z = last (head # xs) then first ys 0 else gl_right h z)"
    if "z \<in> set (head # xs)" for z
    using that h'(2) d(3) unfolding a [symmetric] by auto
  have "seg h' 0 (head # xs) (first ys 0)" using seg_set_right [OF s(1) _ d(1) l r] by simp
  moreover have "seg h' a ys 0"
  proof (cases ys)
    case (Cons y ys')
    have "seg h x (y # ys') 0" "distinct (y # ys')" using s(2) d(2) Cons by auto
    then have "seg h' a (y # ys') 0"
      using Cons h' ax d(2) by (intro seg_set_left [of h x y ys' 0 h' a]) auto
    then show ?thesis using Cons by simp
  qed simp
  ultimately have "seg h' 0 ((head # xs) @ ys) 0" unfolding seg_append using a by simp
  moreover have "gl_left h' x = 0" "gl_right h' x = 0" using h' by auto
  moreover have "gl_left h' z = gl_left h z \<and> gl_right h' z = gl_right h z"
    if "z \<notin> set (head # xs @ x # ys)" for z
  proof -
    have "z \<noteq> a" "z \<noteq> x" "ys \<noteq> [] \<longrightarrow> z \<noteq> hd ys" using that am by (auto simp: neq_Nil_conv)
    then show ?thesis by (simp add: h')
  qed
  ultimately show ?thesis using assms(1) by (auto simp: gl_list_def)
qed

text \<open>The loops, on a list of known nodes.\<close>

lemma gl_last_from_list:
  "seg h prev xs 0 \<Longrightarrow> 0 \<notin> set xs \<Longrightarrow> gl_last_from h (first xs 0) p = Some (last (p # xs))"
proof (induction xs arbitrary: prev p)
  case Nil
  then show ?case by (simp add: gl_last_from.simps)
next
  case (Cons x xs)
  then show ?case by (subst gl_last_from.simps) auto
qed

lemma gl_count_from_list:
  "seg h prev xs 0 \<Longrightarrow> 0 \<notin> set xs \<Longrightarrow> gl_count_from h (first xs 0) c = Some (c + of_nat (length xs))"
proof (induction xs arbitrary: prev c)
  case Nil
  then show ?case by (simp add: gl_count_from.simps)
next
  case (Cons x xs)
  then show ?case by (subst gl_count_from.simps) (auto simp: add.assoc)
qed

lemma gl_insert_point_list:
  "seg h prev xs 0 \<Longrightarrow> 0 \<notin> set xs \<Longrightarrow>
   gl_insert_point cmp h new (first xs 0) p = Some (last (p # takeWhile (\<lambda>y. cmp new y \<noteq> -1) xs))"
proof (induction xs arbitrary: prev p)
  case Nil
  then show ?case by (simp add: gl_insert_point.simps)
next
  case (Cons x xs)
  then show ?case by (subst gl_insert_point.simps) auto
qed

lemma add_last_list:
  assumes "gl_list h head xs" "new \<notin> set (head # xs)" "new \<noteq> 0" "gl_right h new = 0"
  shows "\<exists>h'. glthread_add_last head new h = Some h' \<and> gl_list h' head (xs @ [new])"
proof -
  have "gl_last_from h (gl_right h head) 0 = Some (last (0 # xs))"
    using gl_last_from_list [of h head xs 0] assms(1) by (simp add: gl_list_def)
  moreover have "xs \<noteq> [] \<Longrightarrow> last xs \<noteq> 0"
    using assms(1) by (metis gl_list_def last_in_set list.set_intros(2))
  ultimately show ?thesis
    using add_next_list [of h head xs "[]" new "last (head # xs)"] assms by (auto simp: glthread_add_last_def)
qed

lemma dequeue_first_list:
  assumes "gl_list h head xs"
  shows "\<exists>h'. dequeue_glthread_first head h = (first xs 0, h') \<and> gl_list h' head (tl xs)"
proof (cases xs)
  case Nil
  then show ?thesis using assms gl_list_zero [OF assms] by (simp add: dequeue_glthread_first_def)
next
  case (Cons x xs')
  then have "gl_right h head = x" "x \<noteq> 0" using gl_list_right [OF assms] assms by (auto simp: gl_list_def)
  then show ?thesis
    using remove_list [of h head "[]" x xs' "remove_glthread x h"] assms Cons
    by (auto simp: dequeue_glthread_first_def)
qed

lemma delete_from_list:
  "gl_list h head xs \<Longrightarrow> \<exists>h'. gl_delete_from (first xs 0) h = Some h' \<and> gl_list h' head [] \<and>
     (\<forall>x\<in>set xs. gl_left h' x = 0 \<and> gl_right h' x = 0) \<and>
     (\<forall>z. z \<notin> set (head # xs) \<longrightarrow> gl_left h' z = gl_left h z \<and> gl_right h' z = gl_right h z)"
proof (induction xs arbitrary: h)
  case Nil
  then show ?case by (simp add: gl_delete_from.simps)
next
  case (Cons x xs)
  have node: "gl_right h x = first xs 0" "x \<noteq> 0" using gl_list_node [of h head "[]" x xs] Cons.prems by auto
  let ?h = "remove_glthread x h"
  have rem: "gl_list ?h head xs" "gl_left ?h x = 0" "gl_right ?h x = 0"
    "\<forall>z. z \<notin> set (head # x # xs) \<longrightarrow> gl_left ?h z = gl_left h z \<and> gl_right ?h z = gl_right h z"
    using remove_list [of h head "[]" x xs ?h] Cons.prems by auto
  from Cons.IH [OF rem(1)] obtain h' where h': "gl_delete_from (first xs 0) ?h = Some h'" "gl_list h' head []"
    "\<forall>y\<in>set xs. gl_left h' y = 0 \<and> gl_right h' y = 0"
    "\<forall>z. z \<notin> set (head # xs) \<longrightarrow> gl_left h' z = gl_left ?h z \<and> gl_right h' z = gl_right ?h z" by blast
  have "x \<notin> set (head # xs)" using Cons.prems by (auto simp: gl_list_def)
  then have "gl_left h' x = 0 \<and> gl_right h' x = 0" using h'(4) rem(2,3) by simp
  moreover have "gl_delete_from (first (x # xs) 0) h = Some h'"
    using h'(1) node by (subst gl_delete_from.simps) (simp add: Let_def)
  ultimately show ?case using h' rem(4) by auto
qed

section \<open>The list as a queue\<close>

text \<open>The interface the thread library uses: a list of nodes behind a head, to which a node that is
  in no list is added, at the end or by priority, and from which the first node is taken.\<close>

definition insert_by :: "(addr \<Rightarrow> addr \<Rightarrow> int) \<Rightarrow> addr \<Rightarrow> addr list \<Rightarrow> addr list" where
  "insert_by cmp x xs =
     takeWhile (\<lambda>y. cmp x y \<noteq> -1) xs @ x # dropWhile (\<lambda>y. cmp x y \<noteq> -1) xs"

lemma init_list:
  assumes "gl_list h head xs" "new \<notin> set (head # xs)"
  shows "gl_list (init_glthread new h) head xs"
proof -
  have "seg (init_glthread new h) 0 (head # xs) 0 \<longleftrightarrow> seg h 0 (head # xs) 0"
    using assms(2) by (intro seg_frame) (auto simp: init_glthread_def)
  then show ?thesis using assms(1) by (simp add: gl_list_def)
qed

lemma priority_insert_list:
  assumes "gl_list h head xs" "new \<notin> set (head # xs)" "new \<noteq> 0"
  shows "\<exists>h'. glthread_priority_insert cmp head new h = Some h' \<and> gl_list h' head (insert_by cmp new xs)"
proof -
  let ?P = "\<lambda>y. cmp new y \<noteq> -1" and ?h = "init_glthread new h"
  let ?before = "takeWhile ?P xs" and ?after = "dropWhile ?P xs"
  have l: "gl_list ?h head xs" by (rule init_list [OF assms(1,2)])
  have new: "gl_right ?h new = 0" by (simp add: init_glthread_def)
  have "gl_list (glthread_add_next (last (head # ?before)) new ?h) head (insert_by cmp new xs)"
    unfolding insert_by_def
    using l assms(2,3) new by (intro add_next_list) auto
  moreover have "glthread_priority_insert cmp head new h =
      Some (glthread_add_next (last (head # ?before)) new ?h)"
  proof -
    consider "xs = []" | x where "xs = [x]" | x y zs where "xs = x # y # zs"
      by (metis neq_Nil_conv)
    then show ?thesis
    proof cases
      case 1
      then show ?thesis using gl_list_right [OF l] gl_list_left [OF l]
        by (simp add: glthread_priority_insert_def)
    next
      case (2 x)
      then have "gl_right ?h head = x" "gl_right ?h x = 0" "x \<noteq> 0"
        using gl_list_right [OF l] gl_list_node [of ?h head "[]" x "[]"] l by auto
      then show ?thesis using 2 by (simp add: glthread_priority_insert_def)
    next
      case (3 x y zs)
      then have r: "gl_right ?h head = x" "gl_right ?h x = y" "x \<noteq> 0" "y \<noteq> 0"
        using gl_list_right [OF l] gl_list_node [of ?h head "[]" x "y # zs"]
          gl_list_node [of ?h head "[x]" y zs] l by auto
      have "seg ?h head xs 0" "0 \<notin> set xs" using l by (auto simp: gl_list_def)
      from gl_insert_point_list [OF this, of cmp new 0] r(1) 3
      have ip: "gl_insert_point cmp ?h new (gl_right ?h head) 0 = Some (last (0 # ?before))" by simp
      have "?before \<noteq> [] \<Longrightarrow> last ?before \<noteq> 0"
        using \<open>0 \<notin> set xs\<close> by (metis last_in_set set_takeWhileD)
      with ip r show ?thesis
        by (auto simp: glthread_priority_insert_def Let_def)
    qed
  qed
  ultimately show ?thesis by blast
qed

text \<open>The nodes come out in an order the comparison function allows.\<close>

definition ordered_by :: "(addr \<Rightarrow> addr \<Rightarrow> int) \<Rightarrow> addr list \<Rightarrow> bool" where
  "ordered_by cmp xs \<longleftrightarrow> sorted_wrt (\<lambda>x y. cmp y x \<noteq> -1) xs"

lemma insert_by_ordered:
  assumes "ordered_by cmp xs"
    and asym: "\<And>x y. cmp x y = -1 \<Longrightarrow> cmp y x \<noteq> -1"
    and trans: "\<And>x y z. cmp x y = -1 \<Longrightarrow> cmp z y \<noteq> -1 \<Longrightarrow> cmp z x \<noteq> -1"
  shows "ordered_by cmp (insert_by cmp x xs)"
  using assms(1)
proof (induction xs)
  case Nil
  then show ?case by (simp add: ordered_by_def insert_by_def)
next
  case (Cons y ys)
  show ?case
  proof (cases "cmp x y = -1")
    case True
    have "cmp z x \<noteq> -1" if "z \<in> set (y # ys)" for z
    proof (cases "z = y")
      case False
      then have "cmp z y \<noteq> -1" using that Cons.prems by (auto simp: ordered_by_def)
      then show ?thesis using trans [OF True] by blast
    qed (use asym [OF True] in simp)
    then show ?thesis using True Cons.prems by (auto simp: ordered_by_def insert_by_def)
  next
    case False
    have set: "set (insert_by cmp x ys) = insert x (set ys)"
      by (auto simp: insert_by_def dest: set_takeWhileD set_dropWhileD)
        (metis Un_iff set_append takeWhile_dropWhile_id)
    have "ordered_by cmp (insert_by cmp x ys)" using Cons by (simp add: ordered_by_def)
    then show ?thesis
      using False Cons.prems set by (auto simp: ordered_by_def insert_by_def)
  qed
qed

locale node_queue =
  fixes rep :: "'h \<Rightarrow> addr list \<Rightarrow> bool"
    and usable :: "'h \<Rightarrow> addr \<Rightarrow> addr list \<Rightarrow> bool"
    and push :: "addr \<Rightarrow> 'h \<Rightarrow> 'h option"
    and pop :: "'h \<Rightarrow> addr \<times> 'h"
    and place :: "addr \<Rightarrow> addr list \<Rightarrow> addr list"
  assumes push_law: "rep h xs \<Longrightarrow> usable h x xs \<Longrightarrow> \<exists>h'. push x h = Some h' \<and> rep h' (place x xs)"
    and pop_law: "rep h xs \<Longrightarrow> \<exists>h'. pop h = (first xs 0, h') \<and> rep h' (tl xs)"
begin

text \<open>Pushing a group of nodes and popping as many gives them back in the order of \<open>place\<close>.\<close>

fun pop_all :: "nat \<Rightarrow> 'h \<Rightarrow> addr list" where
  "pop_all 0 h = []"
| "pop_all (Suc n) h = (let (x, h') = pop h in x # pop_all n h')"

lemma pop_all_list: "rep h xs \<Longrightarrow> pop_all (length xs) h = xs"
proof (induction xs arbitrary: h)
  case (Cons x xs)
  from pop_law [OF Cons.prems] obtain h' where "pop h = (x, h')" "rep h' xs" by auto
  with Cons.IH show ?case by (simp add: Let_def)
qed simp

lemma push_pop_all:
  assumes "rep h xs" "usable h x xs"
  shows "\<exists>h'. push x h = Some h' \<and> rep h' (place x xs) \<and> pop_all (length (place x xs)) h' = place x xs"
  using push_law [OF assms] pop_all_list by blast

end

definition gl_fresh :: "addr \<Rightarrow> gl_heap \<Rightarrow> addr \<Rightarrow> addr list \<Rightarrow> bool" where
  "gl_fresh head h x xs \<longleftrightarrow> x \<notin> set (head # xs) \<and> x \<noteq> 0 \<and> gl_right h x = 0"

interpretation gl_fifo: node_queue "\<lambda>h. gl_list h head" "gl_fresh head" "glthread_add_last head"
  "dequeue_glthread_first head" "\<lambda>x xs. xs @ [x]" for head
  by unfold_locales (auto simp: gl_fresh_def intro!: add_last_list dequeue_first_list)

interpretation gl_prio: node_queue "\<lambda>h. gl_list h head" "gl_fresh head"
  "glthread_priority_insert cmp head" "dequeue_glthread_first head" "insert_by cmp" for cmp head
  by unfold_locales (auto simp: gl_fresh_def intro!: priority_insert_list dequeue_first_list)

section \<open>Properties\<close>

text \<open>C19. The pointer operations implement the list operations. On a well-formed list (all links
  consistent in both directions), with a new node whose \<^verbatim>\<open>right\<close> is NULL: \<^verbatim>\<open>glthread_add_next\<close> inserts it
  behind the head or behind any node, \<^verbatim>\<open>glthread_add_before\<close> before any node, \<^verbatim>\<open>glthread_add_last\<close>
  at the end, and \<^verbatim>\<open>glthread_priority_insert\<close> before the first node it precedes (\<^verbatim>\<open>comp_fn\<close>
  returns -1). \<^verbatim>\<open>remove_glthread\<close> takes out any node, \<^verbatim>\<open>dequeue_glthread_first\<close> the first (NULL from an
  empty list) and \<^verbatim>\<open>delete_glthread_list\<close> all of them, with the links of a removed node cleared and nodes
  outside the list untouched; \<^verbatim>\<open>get_glthread_list_count\<close> counts the nodes. Each leaves a well-formed list of
  exactly the expected nodes in order, and those with a loop return.\<close>

theorem glthread_refines:
  assumes "gl_list h head zs" "new \<notin> set (head # zs)" "new \<noteq> 0" "gl_right h new = 0"
  shows "(\<forall>xs ys. zs = xs @ ys \<longrightarrow> gl_list (glthread_add_next (last (head # xs)) new h) head (xs @ new # ys)) \<and>
    (\<forall>xs x ys. zs = xs @ x # ys \<longrightarrow>
      gl_list (glthread_add_before x new h) head (xs @ new # x # ys) \<and>
      (let h' = remove_glthread x h in gl_list h' head (xs @ ys) \<and> gl_left h' x = 0 \<and> gl_right h' x = 0 \<and>
         (\<forall>z. z \<notin> set (head # zs) \<longrightarrow> gl_left h' z = gl_left h z \<and> gl_right h' z = gl_right h z))) \<and>
    (\<exists>h'. glthread_add_last head new h = Some h' \<and> gl_list h' head (zs @ [new])) \<and>
    (\<forall>comp_fn. \<exists>h'. glthread_priority_insert comp_fn head new h = Some h' \<and>
      gl_list h' head (takeWhile (\<lambda>y. comp_fn new y \<noteq> -1) zs @ new # dropWhile (\<lambda>y. comp_fn new y \<noteq> -1) zs)) \<and>
    (\<exists>h'. dequeue_glthread_first head h = (case zs of [] \<Rightarrow> 0 | z # _ \<Rightarrow> z, h') \<and> gl_list h' head (tl zs)) \<and>
    (\<exists>h'. delete_glthread_list head h = Some h' \<and> gl_list h' head [] \<and>
      (\<forall>z\<in>set zs. gl_left h' z = 0 \<and> gl_right h' z = 0) \<and>
      (\<forall>z. z \<notin> set (head # zs) \<longrightarrow> gl_left h' z = gl_left h z \<and> gl_right h' z = gl_right h z)) \<and>
    get_glthread_list_count head h = Some (of_nat (length zs))"
proof (intro conjI allI impI)
  fix xs ys assume "zs = xs @ ys"
  then show "gl_list (glthread_add_next (last (head # xs)) new h) head (xs @ new # ys)"
    using add_next_list [of h head xs ys new] assms by simp
next
  fix xs x ys assume zs: "zs = xs @ x # ys"
  then show "gl_list (glthread_add_before x new h) head (xs @ new # x # ys)"
    using add_before_list [of h head xs x ys new] assms by simp
  show "let h' = remove_glthread x h in gl_list h' head (xs @ ys) \<and> gl_left h' x = 0 \<and> gl_right h' x = 0 \<and>
      (\<forall>z. z \<notin> set (head # zs) \<longrightarrow> gl_left h' z = gl_left h z \<and> gl_right h' z = gl_right h z)"
    using remove_list [OF assms(1) [unfolded zs] refl] unfolding Let_def zs .
next
  show "\<exists>h'. glthread_add_last head new h = Some h' \<and> gl_list h' head (zs @ [new])"
    by (rule add_last_list [OF assms])
  show "\<exists>h'. glthread_priority_insert comp_fn head new h = Some h' \<and>
      gl_list h' head (takeWhile (\<lambda>y. comp_fn new y \<noteq> -1) zs @ new # dropWhile (\<lambda>y. comp_fn new y \<noteq> -1) zs)" for comp_fn
    using priority_insert_list [OF assms(1-3)] unfolding insert_by_def .
  show "\<exists>h'. dequeue_glthread_first head h = (case zs of [] \<Rightarrow> 0 | z # _ \<Rightarrow> z, h') \<and> gl_list h' head (tl zs)"
    using dequeue_first_list [OF assms(1)] by (cases zs) simp_all
  show "\<exists>h'. delete_glthread_list head h = Some h' \<and> gl_list h' head [] \<and>
      (\<forall>z\<in>set zs. gl_left h' z = 0 \<and> gl_right h' z = 0) \<and>
      (\<forall>z. z \<notin> set (head # zs) \<longrightarrow> gl_left h' z = gl_left h z \<and> gl_right h' z = gl_right h z)"
    using delete_from_list [OF assms(1)] unfolding delete_glthread_list_def gl_list_right [OF assms(1)] .
  show "get_glthread_list_count head h = Some (of_nat (length zs))"
    using gl_count_from_list [of h head zs 0] assms(1) by (simp add: get_glthread_list_count_def gl_list_def)
qed

lemma gl_example:
  "gl_list \<lparr>gl_left = (\<lambda>_. 0)(2 := 1, 3 := 2), gl_right = (\<lambda>_. 0)(1 := 2, 2 := 3)\<rparr> 1 [2, 3]"
  by (simp add: gl_list_def)

theorem glthread_refines_witness:
  "\<exists>h. gl_list h 1 [2, 3] \<and>
    gl_list (glthread_add_next 1 4 h) 1 [4, 2, 3] \<and> gl_list (glthread_add_next 2 4 h) 1 [2, 4, 3] \<and>
    gl_list (glthread_add_before 3 4 h) 1 [2, 4, 3] \<and> gl_list (remove_glthread 2 h) 1 [3] \<and>
    (\<exists>h'. glthread_priority_insert (\<lambda>x y. if y < x then 1 else -1) 1 4 h = Some h' \<and> gl_list h' 1 [2, 3, 4]) \<and>
    fst (dequeue_glthread_first 1 h) = 2 \<and> get_glthread_list_count 1 h = Some 2"
proof -
  let ?h = "\<lparr>gl_left = (\<lambda>_. 0)(2 := 1, 3 := 2), gl_right = (\<lambda>_. 0)(1 := 2, 2 := 3)\<rparr>"
  note all = glthread_refines [OF gl_example, of 4, simplified]
  have "gl_list (glthread_add_next 1 4 ?h) 1 [4, 2, 3]" "gl_list (glthread_add_next 2 4 ?h) 1 [2, 4, 3]"
    using all [THEN conjunct1, rule_format, of "[]" "[2, 3]"] all [THEN conjunct1, rule_format, of "[2]" "[3]"] by simp_all
  moreover have "gl_list (glthread_add_before 3 4 ?h) 1 [2, 4, 3]" "gl_list (remove_glthread 2 ?h) 1 [3]"
    using all [THEN conjunct2, THEN conjunct1, rule_format, of "[2]" 3 "[]"]
      all [THEN conjunct2, THEN conjunct1, rule_format, of "[]" 2 "[3]"] by (simp_all add: Let_def)
  moreover have "\<exists>h'. glthread_priority_insert (\<lambda>x y. if y < x then 1 else -1) 1 4 ?h = Some h' \<and> gl_list h' 1 [2, 3, 4]"
    using all [THEN conjunct2, THEN conjunct2, THEN conjunct2, THEN conjunct1, rule_format, of "\<lambda>x y. if y < x then 1 else -1"]
    by simp
  moreover have "fst (dequeue_glthread_first 1 ?h) = 2" "get_glthread_list_count 1 ?h = Some 2" using all by auto
  ultimately show ?thesis using gl_example by blast
qed

text \<open>Priority insertion: \<^verbatim>\<open>glthread_priority_insert\<close> puts the new node before the first
  node it precedes (\<^verbatim>\<open>comp_fn\<close> returns -1) and after all others, so a list ordered by the
  comparison stays ordered, and with a comparison that never returns -1 it is a plain append; the
  nodes are then dequeued in this order.\<close>

theorem glthread_priority_insert_correct:
  assumes "gl_list h head xs" "new \<notin> set (head # xs)" "new \<noteq> 0" "ordered_by cmp xs"
    and "\<And>x y. cmp x y = -1 \<Longrightarrow> cmp y x \<noteq> -1"
    and "\<And>x y z. cmp x y = -1 \<Longrightarrow> cmp z y \<noteq> -1 \<Longrightarrow> cmp z x \<noteq> -1"
  shows "\<exists>h'. glthread_priority_insert cmp head new h = Some h' \<and>
    gl_list h' head (insert_by cmp new xs) \<and> ordered_by cmp (insert_by cmp new xs) \<and>
    ((\<forall>y. cmp new y \<noteq> -1) \<longrightarrow> insert_by cmp new xs = xs @ [new])"
proof -
  have "(\<forall>y. cmp new y \<noteq> -1) \<longrightarrow> insert_by cmp new xs = xs @ [new]"
    by (simp add: insert_by_def takeWhile_eq_all_conv dropWhile_eq_Nil_conv [THEN iffD2])
  moreover have "ordered_by cmp (insert_by cmp new xs)"
    by (rule insert_by_ordered [OF assms(4)]) (fact assms(5), blast dest: assms(6))
  ultimately show ?thesis using priority_insert_list [OF assms(1-3), of cmp] by blast
qed

theorem glthread_priority_insert_correct_witness:
  "\<exists>h'. glthread_priority_insert (\<lambda>x y. if y < x then -1 else 1) 1 5
      \<lparr>gl_left = (\<lambda>_. 0)(3 := 1, 2 := 3), gl_right = (\<lambda>_. 0)(1 := 3, 3 := 2)\<rparr> = Some h' \<and>
    gl_list h' 1 [5, 3, 2]"
proof -
  let ?cmp = "\<lambda>x y :: addr. if y < x then -1 else 1 :: int"
  let ?h = "\<lparr>gl_left = (\<lambda>_. 0)(3 := 1, 2 := 3), gl_right = (\<lambda>_. 0)(1 := 3, 3 := 2)\<rparr>"
  have l: "gl_list ?h 1 [3, 2]" and o: "ordered_by ?cmp [3, 2]"
    by (simp_all add: gl_list_def ordered_by_def)
  have i: "insert_by ?cmp 5 [3, 2] = [5, 3, 2]" by (simp add: insert_by_def)
  have "\<exists>h'. glthread_priority_insert ?cmp 1 5 ?h = Some h' \<and>
    gl_list h' 1 (insert_by ?cmp 5 [3, 2]) \<and> ordered_by ?cmp (insert_by ?cmp 5 [3, 2]) \<and>
    ((\<forall>y. ?cmp 5 y \<noteq> -1) \<longrightarrow> insert_by ?cmp 5 [3, 2] = [3, 2] @ [5])"
    by (rule glthread_priority_insert_correct [OF l _ _ o]) (auto split: if_splits)
  then show ?thesis unfolding i by blast
qed

end
