(* ===== verification/WaitQueue.thy ===== *)
theory WaitQueue
  imports Schedules Glthread "HOL-Library.Multiset"
begin

text \<open>
  The wait queues of \<^verbatim>\<open>ThreadSyncAdv/threadlib/threadlib.c\<close>: a thread tests a condition of the
  application and waits until it holds, on a condition variable of the queue or, in a priority
  queue, on its own one. A queue is embedded in the application's state; its list of threads is the
  glue-thread list of \<open>Glthread\<close>, here as the list it implements.
\<close>

section \<open>The code\<close>

text \<open>The condition variables: the queue's own and the one of each \<^verbatim>\<open>thread_t\<close>.\<close>

datatype wq_cv = Wq_cv | Thread_cv tid

record wait_queue =
  wq_priority_flag :: bool
  wq_thread_wait_count :: u32
  wq_appln_mutex :: addr
  wq_queue :: "tid list"
  wq_auto_unlock_appln_mutex :: bool

text \<open>\<^verbatim>\<open>wait_queue_init\<close> asserts that a priority queue has a comparison function.\<close>

definition wait_queue_init :: "bool \<Rightarrow> (tid \<Rightarrow> tid \<Rightarrow> int) option \<Rightarrow> wait_queue option" where
  "wait_queue_init priority_flag insert_cmp_fn =
     (if priority_flag \<and> insert_cmp_fn = None then None
      else Some \<lparr>wq_priority_flag = priority_flag, wq_thread_wait_count = 0, wq_appln_mutex = 0,
             wq_queue = [], wq_auto_unlock_appln_mutex = True\<rparr>)"

definition wait_queue_set_auto_unlock_appln_mutex :: "bool \<Rightarrow> wait_queue \<Rightarrow> wait_queue" where
  "wait_queue_set_auto_unlock_appln_mutex state wq = wq\<lparr>wq_auto_unlock_appln_mutex := state\<rparr>"

text \<open>\<^verbatim>\<open>priority_wq_insert_comp_fn\<close>: always 1, so a queue ordered by it is FIFO.\<close>

definition priority_wq_insert_comp_fn :: "tid \<Rightarrow> tid \<Rightarrow> int" where
  "priority_wq_insert_comp_fn new_user_data user_data_from_list = 1"

text \<open>The parts of \<^verbatim>\<open>wait_queue_test_and_wait\<close>: catching the application's mutex, the turn of
  the loop up to its \<^verbatim>\<open>pthread_cond_wait\<close>, and from there to the next test.\<close>

definition wq_catch_mutex :: "addr \<Rightarrow> wait_queue \<Rightarrow> wait_queue option" where
  "wq_catch_mutex mutex wq =
     (if mutex = 0 then None
      else if wq_appln_mutex wq = 0 then Some (wq\<lparr>wq_appln_mutex := mutex\<rparr>)
      else if wq_appln_mutex wq = mutex then Some wq else None)"

definition wq_block :: "(tid \<Rightarrow> tid \<Rightarrow> int) \<Rightarrow> tid \<Rightarrow> wait_queue \<Rightarrow> wait_queue" where
  "wq_block cmp self wq =
     (let wq1 = wq\<lparr>wq_thread_wait_count := wq_thread_wait_count wq + 1\<rparr> in
      if wq_priority_flag wq then wq1\<lparr>wq_queue := insert_by cmp self (wq_queue wq1)\<rparr> else wq1)"

definition wq_block_cv :: "tid \<Rightarrow> wait_queue \<Rightarrow> wq_cv" where
  "wq_block_cv self wq = (if wq_priority_flag wq then Thread_cv self else Wq_cv)"

definition wq_unblock :: "tid \<Rightarrow> wait_queue \<Rightarrow> wait_queue" where
  "wq_unblock self wq =
     (let wq1 = wq\<lparr>wq_thread_wait_count := wq_thread_wait_count wq - 1\<rparr> in
      if wq_priority_flag wq then wq1\<lparr>wq_queue := remove1 self (wq_queue wq1)\<rparr> else wq1)"

text \<open>The loop, for a queue \<open>get s\<close> in the application's state \<open>s\<close>: \<open>blocks\<close> is the application's
  test, \<open>granted\<close> what the application does after the call, in the same critical section when the
  queue does not unlock the mutex.\<close>

definition wq_test_loop :: "('s \<Rightarrow> wait_queue) \<Rightarrow> (wait_queue \<Rightarrow> 's \<Rightarrow> 's) \<Rightarrow> (tid \<Rightarrow> tid \<Rightarrow> int) \<Rightarrow>
  ('s \<Rightarrow> bool) \<Rightarrow> ('s \<Rightarrow> ('s, 'r, wq_cv, 'k) sect) \<Rightarrow> 'k \<Rightarrow> tid \<Rightarrow> 's \<Rightarrow> ('s, 'r, wq_cv, 'k) sect" where
  "wq_test_loop get put cmp blocks granted k self s =
     (if blocks s
      then check (wq_appln_mutex (get s) \<noteq> 0)
             (CvWait (put (wq_block cmp self (get s)) s) (wq_block_cv self (get s)) k [])
      else granted s)"

definition wait_queue_test_and_wait :: "('s \<Rightarrow> wait_queue) \<Rightarrow> (wait_queue \<Rightarrow> 's \<Rightarrow> 's) \<Rightarrow>
  (tid \<Rightarrow> tid \<Rightarrow> int) \<Rightarrow> addr \<Rightarrow> ('s \<Rightarrow> bool) \<Rightarrow> ('s \<Rightarrow> ('s, 'r, wq_cv, 'k) sect) \<Rightarrow> 'k \<Rightarrow> tid \<Rightarrow> 's \<Rightarrow>
  ('s, 'r, wq_cv, 'k) sect" where
  "wait_queue_test_and_wait get put cmp mutex blocks granted k self s =
     (case wq_catch_mutex mutex (get s) of None \<Rightarrow> Aborted
      | Some wq \<Rightarrow> wq_test_loop get put cmp blocks granted k self (put wq s))"

definition wait_queue_resume :: "('s \<Rightarrow> wait_queue) \<Rightarrow> (wait_queue \<Rightarrow> 's \<Rightarrow> 's) \<Rightarrow>
  (tid \<Rightarrow> tid \<Rightarrow> int) \<Rightarrow> ('s \<Rightarrow> bool) \<Rightarrow> ('s \<Rightarrow> ('s, 'r, wq_cv, 'k) sect) \<Rightarrow> 'k \<Rightarrow> tid \<Rightarrow> 's \<Rightarrow>
  ('s, 'r, wq_cv, 'k) sect" where
  "wait_queue_resume get put cmp blocks granted k self s =
     wq_test_loop get put cmp blocks granted k self (put (wq_unblock self (get s)) s)"

text \<open>The signals that \<^verbatim>\<open>wait_queue_signal\<close> and \<^verbatim>\<open>wait_queue_broadcast\<close> send, called with
  the mutex held (\<^verbatim>\<open>lock_mutex\<close> false).\<close>

definition wait_queue_signal :: "wait_queue \<Rightarrow> wq_cv wakeup list" where
  "wait_queue_signal wq =
     (if wq_thread_wait_count wq = 0 then []
      else if \<not> wq_priority_flag wq then [Signal Wq_cv]
      else case wq_queue wq of [] \<Rightarrow> [] | t # _ \<Rightarrow> [Signal (Thread_cv t)])"

definition wait_queue_broadcast :: "wait_queue \<Rightarrow> wq_cv wakeup list" where
  "wait_queue_broadcast wq =
     (if wq_thread_wait_count wq = 0 then []
      else if \<not> wq_priority_flag wq then [Broadcast Wq_cv]
      else map (\<lambda>t. Signal (Thread_cv t)) (wq_queue wq))"

section \<open>The queue and its count\<close>

lemma mset_insert_by: "mset (insert_by cmp x xs) = mset (x # xs)"
proof -
  have "mset xs = mset (takeWhile (\<lambda>y. cmp x y \<noteq> -1) xs) + mset (dropWhile (\<lambda>y. cmp x y \<noteq> -1) xs)"
    by (metis mset_append takeWhile_dropWhile_id)
  then show ?thesis unfolding insert_by_def by simp
qed

lemma set_insert_by [simp]: "set (insert_by cmp x xs) = insert x (set xs)"
  using mset_eq_setD [OF mset_insert_by] by simp

lemma length_insert_by [simp]: "length (insert_by cmp x xs) = Suc (length xs)"
  using mset_eq_length [OF mset_insert_by] by simp

lemma distinct_insert_by [simp]: "distinct (insert_by cmp x xs) \<longleftrightarrow> x \<notin> set xs \<and> distinct xs"
  using mset_eq_imp_distinct_iff [OF mset_insert_by] by simp

text \<open>\<open>wq_holds U wq\<close>: a priority queue whose list is exactly the set \<open>U\<close> of waiting threads.\<close>

definition wq_holds :: "tid set \<Rightarrow> wait_queue \<Rightarrow> bool" where
  "wq_holds U wq \<longleftrightarrow> wq_priority_flag wq \<and> distinct (wq_queue wq) \<and> set (wq_queue wq) = U \<and>
     wq_thread_wait_count wq = of_nat (length (wq_queue wq))"

lemma wq_holds_block: "wq_holds U wq \<Longrightarrow> t \<notin> U \<Longrightarrow> wq_holds (insert t U) (wq_block cmp t wq)"
  by (simp add: wq_holds_def wq_block_def Let_def add.commute)

lemma wq_holds_unblock:
  assumes "wq_holds U wq" "t \<in> U"
  shows "wq_holds (U - {t}) (wq_unblock t wq)"
proof -
  have "length (wq_queue wq) = Suc (length (remove1 t (wq_queue wq)))"
    using assms by (simp add: wq_holds_def length_remove1) (metis length_pos_if_in_set Suc_pred)
  then show ?thesis using assms by (simp add: wq_holds_def wq_unblock_def Let_def)
qed

lemma wq_holds_zero:
  assumes "wq_holds U wq" "finite U" "card U < 65536"
  shows "wq_thread_wait_count wq = 0 \<longleftrightarrow> U = {}"
proof -
  have "length (wq_queue wq) = card U"
    using assms(1) by (metis distinct_card wq_holds_def)
  then have "wq_thread_wait_count wq = 0 \<longleftrightarrow> card U = 0"
    using assms(1,3) of_nat_u32_inj [of "card U" 0] by (simp add: wq_holds_def)
  then show ?thesis using assms(2) by simp
qed

lemma wq_fields [simp]:
  "wq_priority_flag (wq_block cmp t wq) = wq_priority_flag wq"
  "wq_priority_flag (wq_unblock t wq) = wq_priority_flag wq"
  "wq_appln_mutex (wq_block cmp t wq) = wq_appln_mutex wq"
  "wq_appln_mutex (wq_unblock t wq) = wq_appln_mutex wq"
  "wq_auto_unlock_appln_mutex (wq_block cmp t wq) = wq_auto_unlock_appln_mutex wq"
  "wq_auto_unlock_appln_mutex (wq_unblock t wq) = wq_auto_unlock_appln_mutex wq"
  by (simp_all add: wq_block_def wq_unblock_def Let_def)

lemma wq_holds_mutex [simp]: "wq_holds U (wq\<lparr>wq_appln_mutex := m\<rparr>) \<longleftrightarrow> wq_holds U wq"
  by (simp add: wq_holds_def)

text \<open>A signal to a non-empty priority queue, and a broadcast, reach a waiter.\<close>

lemma wakes_thread_signals:
  "wakes (map (\<lambda>t. Signal (Thread_cv t)) ts) f h \<Longrightarrow> (\<And>t. t \<in> set ts \<Longrightarrow> \<forall>u k. f u = Blocked (Thread_cv t) k \<longrightarrow> u = t) \<Longrightarrow>
   t \<in> set ts \<Longrightarrow> \<not> is_blocked (h t) \<or> (\<exists>cv k. f t = Blocked cv k \<and> cv \<noteq> Thread_cv t)"
proof (induction ts arbitrary: f)
  case (Cons s ts)
  show ?case
  proof (cases "\<exists>u. blocked_on (Thread_cv s) (f u)")
    case True
    with Cons.prems(1) obtain u where u: "blocked_on (Thread_cv s) (f u)"
      "wakes (map (\<lambda>t. Signal (Thread_cv t)) ts) (wake_one u f) h" by auto
    then have us: "u = s" using Cons.prems(2) [of s] by (auto simp: blocked_on_iff)
    have prem: "\<And>t. t \<in> set ts \<Longrightarrow> \<forall>u k. wake_one s f u = Blocked (Thread_cv t) k \<longrightarrow> u = t"
      using Cons.prems(2) by (auto simp: wake_one_def split: if_splits)
        (metis is_blocked.simps(1) wake_not_blocked(1))
    show ?thesis
    proof (cases "t = s")
      case True
      have "is_woken (wake_one s f s)"
        using u(1) us by (auto simp: wake_one_def is_woken_wake is_blocked_iff)
      then have "is_woken (h s)" using wakes_woken [OF u(2)] us by metis
      then show ?thesis using True by (cases "h s") auto
    next
      case False
      then have "t \<in> set ts" using Cons.prems(3) by simp
      from Cons.IH [OF _ prem this] u(2) us False show ?thesis by (simp add: wake_one_def)
    qed
  next
    case none: False
    then have w: "wakes (map (\<lambda>t. Signal (Thread_cv t)) ts) f h" using Cons.prems(1) by simp
    show ?thesis
    proof (cases "t = s")
      case True
      then show ?thesis
        using none wakes_cases [OF w, of t] by (cases "f t") (auto simp: blocked_on_iff)
    next
      case False
      with Cons.IH [OF w] Cons.prems(2,3) show ?thesis by auto
    qed
  qed
qed simp

end
