(* ===== verification/Thread.thy ===== *)
theory Thread
  imports Prelude
begin

text \<open>
  The thread descriptor of \<^verbatim>\<open>ThreadSyncAdv/threadlib/threadlib.c\<close>, which the thread pool, the
  monitor and the assembly line share. Pointers are addresses and NULL is 0; the name, the attributes
  and the handle that only \<^verbatim>\<open>pthread_create\<close> reads are left out, the condition variable of a
  thread is identified by the thread.
\<close>

datatype thread_op = THREAD_READER | THREAD_WRITER | THREAD_ANY

text \<open>\<^verbatim>\<open>thread_execution_data_t\<close>: the task to run in stage 2. Its other fields (the stage 3
  function, the pool and the thread) are the same in every use.\<close>

record exec_data =
  thread_stage2_fn :: addr
  stage2_arg :: addr

record thread =
  th_thread_created :: bool
  th_arg :: "exec_data option"
  th_semaphore :: addr
  th_thread_fn :: addr
  th_thread_op :: thread_op

definition create_thread :: "thread_op \<Rightarrow> thread" where
  "create_thread op = \<lparr>th_thread_created = False, th_arg = None, th_semaphore = 0,
     th_thread_fn = 0, th_thread_op = op\<rparr>"

text \<open>The descriptor that \<^verbatim>\<open>run_thread\<close> leaves; the new execution unit is the step of the
  caller.\<close>

definition run_thread :: "addr \<Rightarrow> exec_data option \<Rightarrow> thread \<Rightarrow> thread" where
  "run_thread fn arg th = th\<lparr>th_thread_fn := fn, th_arg := arg, th_thread_created := True\<rparr>"

end
