(* ===== verification/Monitor.thy ===== *)
theory Monitor
  imports WaitQueue Thread
begin

text \<open>
  The monitor of \<^verbatim>\<open>ThreadSyncAdv/threadlib/threadlib.c\<close>: bounded numbers of readers or of
  writers in a resource, two priority wait queues, optional strict alternation, and the deletion of
  the monitor by the last thread that leaves it.
\<close>

section \<open>The code\<close>

datatype resource_status = MON_RES_AVAILABLE | MON_RES_BUSY_BY_READER | MON_RES_BUSY_BY_WRITER

text \<open>\<open>mon_freed\<close> is not a field of the code: it records that \<^verbatim>\<open>free(monitor)\<close> was called.\<close>

record monitor =
  mon_writer_wq :: wait_queue
  mon_reader_wq :: wait_queue
  mon_active_threads_in_cs :: "tid list"
  mon_resource_status :: resource_status
  mon_n_readers_max_limit :: u16
  mon_n_writers_max_limit :: u16
  mon_n_curr_readers :: u16
  mon_n_curr_writers :: u16
  mon_switch_from_readers_to_writers :: u16
  mon_switch_from_writers_to_readers :: u16
  mon_strict_alternation :: bool
  mon_who_accessed_cs_last :: thread_op
  mon_shutdown :: bool
  mon_is_deleted :: bool
  mon_freed :: bool

text \<open>A thread between two critical sections of a call, and how a section ends. A section that
  touches a freed monitor has no defined effect: it ends with \<open>Mon_use_after_free\<close>.\<close>

datatype mon_wait = Mon_wait
datatype mon_result =
    Mon_admitted | Mon_rejected | Mon_granted | Mon_released | Mon_left | Mon_closed | Mon_use_after_free

type_synonym mon_sect = "(monitor, mon_result, wq_cv, mon_wait) sect"

text \<open>The address of \<^verbatim>\<open>monitor_talk_mutex\<close>, some address that is not NULL.\<close>

definition monitor_talk_mutex :: addr where
  "monitor_talk_mutex = 1"

definition monitor_wq_comp_default_fn :: "tid \<Rightarrow> tid \<Rightarrow> int" where
  "monitor_wq_comp_default_fn node1 node2 = 1"

definition monitor_wq_comp_fn :: "(tid \<Rightarrow> tid \<Rightarrow> int) option \<Rightarrow> tid \<Rightarrow> tid \<Rightarrow> int" where
  "monitor_wq_comp_fn cb = (case cb of Some f \<Rightarrow> f | None \<Rightarrow> monitor_wq_comp_default_fn)"

definition monitor_set_wq_auto_mutex_lock_behavior :: "thread_op \<Rightarrow> bool \<Rightarrow> monitor \<Rightarrow> monitor" where
  "monitor_set_wq_auto_mutex_lock_behavior thread_type state m =
     (if thread_type = THREAD_WRITER
      then m\<lparr>mon_writer_wq := wait_queue_set_auto_unlock_appln_mutex state (mon_writer_wq m)\<rparr>
      else m\<lparr>mon_reader_wq := wait_queue_set_auto_unlock_appln_mutex state (mon_reader_wq m)\<rparr>)"

text \<open>\<^verbatim>\<open>init_monitor\<close> on memory \<open>m\<close> (for a NULL argument, the zeroed memory of
  \<^verbatim>\<open>calloc\<close>): the counts of current users and the statistics are not written.\<close>

definition init_monitor :: "monitor \<Rightarrow> u16 \<Rightarrow> u16 \<Rightarrow> (tid \<Rightarrow> tid \<Rightarrow> int) option \<Rightarrow> monitor option" where
  "init_monitor m max_readers max_writers cb =
     (case wait_queue_init True (Some (monitor_wq_comp_fn cb)) of None \<Rightarrow> None
      | Some wq \<Rightarrow>
          Some ((monitor_set_wq_auto_mutex_lock_behavior THREAD_READER False
                  (monitor_set_wq_auto_mutex_lock_behavior THREAD_WRITER False
                    (m\<lparr>mon_reader_wq := wq, mon_writer_wq := wq\<rparr>)))
             \<lparr>mon_active_threads_in_cs := [], mon_resource_status := MON_RES_AVAILABLE,
              mon_n_readers_max_limit := max_readers, mon_n_writers_max_limit := max_writers,
              mon_strict_alternation := False, mon_who_accessed_cs_last := THREAD_ANY,
              mon_shutdown := False, mon_is_deleted := False\<rparr>))"

definition monitor_set_strict_alternation_behavior :: "monitor \<Rightarrow> monitor option" where
  "monitor_set_strict_alternation_behavior m =
     (if mon_n_readers_max_limit m = 1 \<and> mon_n_writers_max_limit m = 1
      then Some (m\<lparr>mon_strict_alternation := True\<rparr>) else None)"

definition monitor_is_resource_available :: "thread_op \<Rightarrow> monitor \<Rightarrow> bool" where
  [sync_defs]: "monitor_is_resource_available k m =
     (let n_max_accessors = (if k = THREAD_READER then mon_n_readers_max_limit m
                             else mon_n_writers_max_limit m);
          max_curr_user_count = (if k = THREAD_READER then mon_n_curr_readers m
                                 else mon_n_curr_writers m);
          below = max_curr_user_count < n_max_accessors
      in case mon_resource_status m of
           MON_RES_AVAILABLE \<Rightarrow>
             (if mon_strict_alternation m \<and> below
              then (case mon_who_accessed_cs_last m of
                      THREAD_ANY \<Rightarrow> below
                    | THREAD_READER \<Rightarrow> k = THREAD_WRITER
                    | THREAD_WRITER \<Rightarrow> k = THREAD_READER)
              else below)
         | MON_RES_BUSY_BY_READER \<Rightarrow> k = THREAD_READER \<and> below
         | MON_RES_BUSY_BY_WRITER \<Rightarrow> k = THREAD_WRITER \<and> below)"

definition monitor_is_resource_not_available :: "thread_op \<Rightarrow> monitor \<Rightarrow> bool" where
  [sync_defs]: "monitor_is_resource_not_available k m = (\<not> monitor_is_resource_available k m)"

text \<open>The test of \<^verbatim>\<open>monitor_check_and_delete_monitor\<close> does not look at \<^verbatim>\<open>shutdown\<close>.\<close>

definition monitor_check_and_delete_monitor :: "monitor \<Rightarrow> monitor" where
  [sync_defs]: "monitor_check_and_delete_monitor m =
     (if wq_thread_wait_count (mon_writer_wq m) \<noteq> 0 \<or> wq_thread_wait_count (mon_reader_wq m) \<noteq> 0 \<or>
         mon_resource_status m \<noteq> MON_RES_AVAILABLE
      then m else m\<lparr>mon_is_deleted := True\<rparr>)"

definition monitor_set_resource_status :: "thread_op option \<Rightarrow> monitor \<Rightarrow> monitor" where
  [sync_defs]: "monitor_set_resource_status access_granted_thread m =
     (case access_granted_thread of
        None \<Rightarrow> monitor_check_and_delete_monitor (m\<lparr>mon_resource_status := MON_RES_AVAILABLE\<rparr>)
      | Some k \<Rightarrow>
          (let m1 = m\<lparr>mon_who_accessed_cs_last := k\<rparr> in
           case k of THREAD_READER \<Rightarrow> m1\<lparr>mon_resource_status := MON_RES_BUSY_BY_READER\<rparr>
                   | THREAD_WRITER \<Rightarrow> m1\<lparr>mon_resource_status := MON_RES_BUSY_BY_WRITER\<rparr>
                   | THREAD_ANY \<Rightarrow> m1))"

text \<open>The wait queue of a thread's kind.\<close>

definition mon_wq :: "thread_op \<Rightarrow> monitor \<Rightarrow> wait_queue" where
  [sync_defs]: "mon_wq k m = (if k = THREAD_READER then mon_reader_wq m else mon_writer_wq m)"

definition mon_put_wq :: "thread_op \<Rightarrow> wait_queue \<Rightarrow> monitor \<Rightarrow> monitor" where
  [sync_defs]: "mon_put_wq k wq m =
     (if k = THREAD_READER then m\<lparr>mon_reader_wq := wq\<rparr> else m\<lparr>mon_writer_wq := wq\<rparr>)"

text \<open>\<^verbatim>\<open>monitor_request_access_permission\<close> has two critical sections. The first tests
  \<^verbatim>\<open>shutdown\<close>; a rejected call returns like a granted one, the caller is not told.\<close>

definition monitor_request_admission :: "tid \<Rightarrow> monitor \<Rightarrow> mon_sect" where
  [sync_defs]: "monitor_request_admission self m =
     check (self \<notin> set (mon_active_threads_in_cs m) \<and> self \<notin> set (wq_queue (mon_reader_wq m)) \<and>
            self \<notin> set (wq_queue (mon_writer_wq m)))
       (Unlocked m (if mon_shutdown m then Mon_rejected else Mon_admitted) [])"

text \<open>The second is the wait queue's loop and what follows it, under the mutex that the wait queues
  of a monitor leave locked.\<close>

definition monitor_grant :: "thread_op \<Rightarrow> tid \<Rightarrow> monitor \<Rightarrow> mon_sect" where
  [sync_defs]: "monitor_grant k self m =
     (let m1 = m\<lparr>mon_active_threads_in_cs := self # mon_active_threads_in_cs m\<rparr>;
          m2 = (if k = THREAD_READER then m1\<lparr>mon_n_curr_readers := mon_n_curr_readers m1 + 1\<rparr>
                else m1\<lparr>mon_n_curr_writers := mon_n_curr_writers m1 + 1\<rparr>);
          m3 = monitor_set_resource_status (Some k) m2;
          max_curr_user_count = (if k = THREAD_READER then mon_n_curr_readers m3
                                 else mon_n_curr_writers m3);
          m4 = (if max_curr_user_count = 1
                then (if k = THREAD_READER
                      then m3\<lparr>mon_switch_from_writers_to_readers := mon_switch_from_writers_to_readers m3 + 1\<rparr>
                      else m3\<lparr>mon_switch_from_readers_to_writers := mon_switch_from_readers_to_writers m3 + 1\<rparr>)
                else m3)
      in Unlocked m4 Mon_granted [])"

definition monitor_request_access_permission ::
  "(tid \<Rightarrow> tid \<Rightarrow> int) \<Rightarrow> thread_op \<Rightarrow> tid \<Rightarrow> monitor \<Rightarrow> mon_sect" where
  [sync_defs]: "monitor_request_access_permission cmp k self m =
     wait_queue_test_and_wait (mon_wq k) (mon_put_wq k) cmp monitor_talk_mutex
       (monitor_is_resource_not_available k) (monitor_grant k self) Mon_wait self m"

definition monitor_request_resume :: "(tid \<Rightarrow> tid \<Rightarrow> int) \<Rightarrow> thread_op \<Rightarrow> tid \<Rightarrow> monitor \<Rightarrow> mon_sect" where
  [sync_defs]: "monitor_request_resume cmp k self m =
     wait_queue_resume (mon_wq k) (mon_put_wq k) cmp
       (monitor_is_resource_not_available k) (monitor_grant k self) Mon_wait self m"

definition monitor_inform_resource_released :: "thread_op \<Rightarrow> tid \<Rightarrow> monitor \<Rightarrow> mon_sect" where
  [sync_defs]: "monitor_inform_resource_released k self m =
     (let m1 = m\<lparr>mon_active_threads_in_cs := remove1 self (mon_active_threads_in_cs m)\<rparr> in
      case k of
        THREAD_READER \<Rightarrow>
          check (mon_n_curr_readers m1 \<noteq> 0)
            (let m2 = m1\<lparr>mon_n_curr_readers := mon_n_curr_readers m1 - 1\<rparr>;
                 m3 = (if mon_n_curr_readers m2 = 0 then monitor_set_resource_status None m2 else m2)
             in Unlocked m3 Mon_released
                  (if wq_thread_wait_count (mon_reader_wq m3) \<noteq> 0 then wait_queue_signal (mon_reader_wq m3)
                   else if mon_n_curr_readers m3 = 0 \<and> wq_thread_wait_count (mon_writer_wq m3) \<noteq> 0
                   then wait_queue_broadcast (mon_writer_wq m3) else []))
      | THREAD_WRITER \<Rightarrow>
          check (mon_n_curr_writers m1 \<noteq> 0)
            (let m2 = m1\<lparr>mon_n_curr_writers := mon_n_curr_writers m1 - 1\<rparr>;
                 m3 = (if mon_n_curr_writers m2 = 0 then monitor_set_resource_status None m2 else m2)
             in Unlocked m3 Mon_released
                  (if wq_thread_wait_count (mon_writer_wq m3) \<noteq> 0 then wait_queue_signal (mon_writer_wq m3)
                   else if mon_n_curr_writers m3 = 0 \<and> wq_thread_wait_count (mon_reader_wq m3) \<noteq> 0
                   then wait_queue_broadcast (mon_reader_wq m3) else []))
      | THREAD_ANY \<Rightarrow> Unlocked m1 Mon_released [])"

text \<open>The end of \<^verbatim>\<open>monitor_inform_resource_released\<close>, after the mutex is released.\<close>

definition monitor_free_if_deleted :: "monitor \<Rightarrow> mon_sect" where
  [sync_defs]: "monitor_free_if_deleted m =
     Unlocked (if mon_is_deleted m then m\<lparr>mon_freed := True\<rparr> else m) Mon_left []"

definition monitor_shut_down :: "monitor \<Rightarrow> mon_sect" where
  [sync_defs]: "monitor_shut_down m = Unlocked (m\<lparr>mon_shutdown := True\<rparr>) Mon_closed []"


section \<open>The object\<close>

datatype mon_op = Mon_admission | Mon_request | Mon_release | Mon_free_check | Mon_shut_down

text \<open>A thread goes round the phases of its use of the monitor; a caller whose request was rejected
  goes on as if it had been granted.\<close>

datatype mon_phase = Outside | Requesting | In_cs | Leaving | Lost

fun mon_client :: "bool \<Rightarrow> mon_phase \<Rightarrow> mon_op \<Rightarrow> bool" where
  "mon_client sd ph Mon_admission \<longleftrightarrow> ph = Outside"
| "mon_client sd ph Mon_request \<longleftrightarrow> ph = Requesting"
| "mon_client sd ph Mon_release \<longleftrightarrow> ph = In_cs"
| "mon_client sd ph Mon_free_check \<longleftrightarrow> ph = Leaving"
| "mon_client sd ph Mon_shut_down \<longleftrightarrow> sd \<and> ph = Outside"

fun mon_progress :: "mon_result \<Rightarrow> mon_phase \<Rightarrow> mon_phase" where
  "mon_progress Mon_admitted ph = Requesting"
| "mon_progress Mon_rejected ph = In_cs"
| "mon_progress Mon_granted ph = In_cs"
| "mon_progress Mon_released ph = Leaving"
| "mon_progress Mon_left ph = Outside"
| "mon_progress Mon_closed ph = ph"
| "mon_progress Mon_use_after_free ph = Lost"

definition unless_freed :: "monitor \<Rightarrow> mon_sect \<Rightarrow> mon_sect" where
  [sync_defs]: "unless_freed m sec = (if mon_freed m then Unlocked m Mon_use_after_free [] else sec)"

fun mon_enter :: "(tid \<Rightarrow> thread_op) \<Rightarrow> (tid \<Rightarrow> tid \<Rightarrow> int) \<Rightarrow> tid \<Rightarrow> mon_op \<Rightarrow> monitor \<Rightarrow> mon_sect" where
  "mon_enter kind cmp self Mon_admission m = unless_freed m (monitor_request_admission self m)"
| "mon_enter kind cmp self Mon_request m =
     unless_freed m (monitor_request_access_permission cmp (kind self) self m)"
| "mon_enter kind cmp self Mon_release m =
     unless_freed m (monitor_inform_resource_released (kind self) self m)"
| "mon_enter kind cmp self Mon_free_check m = unless_freed m (monitor_free_if_deleted m)"
| "mon_enter kind cmp self Mon_shut_down m = unless_freed m (monitor_shut_down m)"

definition mon_resume :: "(tid \<Rightarrow> thread_op) \<Rightarrow> (tid \<Rightarrow> tid \<Rightarrow> int) \<Rightarrow> tid \<Rightarrow> mon_wait \<Rightarrow> monitor \<Rightarrow> mon_sect" where
  [sync_defs]: "mon_resume kind cmp self k m = unless_freed m (monitor_request_resume cmp (kind self) self m)"

definition mon_obj :: "bool \<Rightarrow> (tid \<Rightarrow> thread_op) \<Rightarrow> (tid \<Rightarrow> tid \<Rightarrow> int) \<Rightarrow>
  (monitor, mon_phase, mon_op, mon_wait, wq_cv, mon_result) obj" where
  "mon_obj sd kind cmp = \<lparr>enter = mon_enter kind cmp, resume = mon_resume kind cmp,
     may_call = mon_client sd, on_return = mon_progress\<rparr>"

lemma mon_obj_simps [simp]:
  "enter (mon_obj sd kind cmp) = mon_enter kind cmp" "resume (mon_obj sd kind cmp) = mon_resume kind cmp"
  "may_call (mon_obj sd kind cmp) = mon_client sd" "on_return (mon_obj sd kind cmp) = mon_progress"
  by (simp_all add: mon_obj_def)

lemmas wq_defs = wait_queue_test_and_wait_def wait_queue_resume_def wq_test_loop_def wq_catch_mutex_def
  wq_block_def wq_block_cv_def wq_unblock_def wait_queue_signal_def wait_queue_broadcast_def

text \<open>Zeroed memory, as \<^verbatim>\<open>calloc\<close> returns it.\<close>

definition mon_calloc :: monitor where
  "mon_calloc = (let wq = \<lparr>wq_priority_flag = False, wq_thread_wait_count = 0, wq_appln_mutex = 0,
       wq_queue = [], wq_auto_unlock_appln_mutex = False\<rparr> in
     \<lparr>mon_writer_wq = wq, mon_reader_wq = wq, mon_active_threads_in_cs = [],
      mon_resource_status = MON_RES_AVAILABLE, mon_n_readers_max_limit = 0, mon_n_writers_max_limit = 0,
      mon_n_curr_readers = 0, mon_n_curr_writers = 0, mon_switch_from_readers_to_writers = 0,
      mon_switch_from_writers_to_readers = 0, mon_strict_alternation = False,
      mon_who_accessed_cs_last = THREAD_READER, mon_shutdown = False, mon_is_deleted = False,
      mon_freed = False\<rparr>)"

definition mon_fresh :: "u16 \<Rightarrow> u16 \<Rightarrow> (tid \<Rightarrow> tid \<Rightarrow> int) option \<Rightarrow> monitor" where
  "mon_fresh mr mw cb = the (init_monitor mon_calloc mr mw cb)"

lemmas mon_run_simps = start_def mon_fresh_def init_monitor_def mon_calloc_def
  wait_queue_init_def monitor_set_wq_auto_mutex_lock_behavior_def
  wait_queue_set_auto_unlock_appln_mutex_def sync_defs wq_defs monitor_talk_mutex_def
  insert_by_def monitor_wq_comp_fn_def monitor_wq_comp_default_fn_def wake_one_def

section \<open>The invariant\<close>

text \<open>The users of one kind, and the threads of one kind that wait.\<close>

definition of_kind :: "(tid \<Rightarrow> thread_op) \<Rightarrow> thread_op \<Rightarrow> tid set \<Rightarrow> tid set" where
  "of_kind kind k T = {t \<in> T. kind t = k}"

definition users :: "tid set \<Rightarrow> (tid \<Rightarrow> mon_phase) \<Rightarrow> nat" where
  "users U g = count_threads U (\<lambda>ph. ph = In_cs) g"

definition waits_in :: "tid set \<Rightarrow> (tid \<Rightarrow> 'k option) \<Rightarrow> tid set" where
  "waits_in U w = {t \<in> U. w t \<noteq> None}"

lemma waits_in_simps [simp]:
  "t \<in> U \<Longrightarrow> waits_in U (w(t := Some k)) = insert t (waits_in U w)"
  "t \<notin> U \<Longrightarrow> waits_in U (w(t := x)) = waits_in U w"
  "waits_in U (w(t := None)) = waits_in U w - {t}"
  "t \<in> waits_in U w \<longleftrightarrow> t \<in> U \<and> w t \<noteq> None"
  "waits_in U (\<lambda>_. None) = {}"
  by (auto simp: waits_in_def)

lemma users_simps [simp]:
  "finite U \<Longrightarrow> t \<in> U \<Longrightarrow> g t \<noteq> In_cs \<Longrightarrow> users U (g(t := In_cs)) = Suc (users U g)"
  "g t \<noteq> In_cs \<Longrightarrow> ph \<noteq> In_cs \<Longrightarrow> users U (g(t := ph)) = users U g"
  "t \<notin> U \<Longrightarrow> users U (g(t := ph)) = users U g"
  by (simp_all add: users_def count_threads_add count_threads_keep count_threads_outside)

lemma users_leave: "finite U \<Longrightarrow> t \<in> U \<Longrightarrow> g t = In_cs \<Longrightarrow> ph \<noteq> In_cs \<Longrightarrow>
    users U g = Suc (users U (g(t := ph)))"
  by (simp add: users_def count_threads_del)

lemma users_pos: "finite U \<Longrightarrow> 0 < users U g \<longleftrightarrow> (\<exists>t\<in>U. g t = In_cs)"
  by (simp add: users_def count_threads_pos)

definition mon_counts :: "tid set \<Rightarrow> tid set \<Rightarrow> u16 \<Rightarrow> u16 \<Rightarrow> monitor \<Rightarrow> (tid \<Rightarrow> mon_phase) \<Rightarrow> bool" where
  "mon_counts R W mr mw m g \<longleftrightarrow>
     mon_n_readers_max_limit m = mr \<and> mon_n_writers_max_limit m = mw \<and>
     mon_n_curr_readers m = of_nat (users R g) \<and> users R g \<le> unat mr \<and>
     mon_n_curr_writers m = of_nat (users W g) \<and> users W g \<le> unat mw \<and>
     (case mon_resource_status m of
        MON_RES_AVAILABLE \<Rightarrow> users R g = 0 \<and> users W g = 0
      | MON_RES_BUSY_BY_READER \<Rightarrow> 0 < users R g \<and> users W g = 0
      | MON_RES_BUSY_BY_WRITER \<Rightarrow> users R g = 0 \<and> 0 < users W g)"

definition queue_ok :: "tid set \<Rightarrow> wait_queue \<Rightarrow> bool" where
  "queue_ok U wq \<longleftrightarrow> wq_holds U wq \<and> \<not> wq_auto_unlock_appln_mutex wq \<and>
     (wq_appln_mutex wq = monitor_talk_mutex \<or> wq_appln_mutex wq = 0 \<and> U = {})"

definition mon_inv :: "(tid \<Rightarrow> thread_op) \<Rightarrow> u16 \<Rightarrow> u16 \<Rightarrow> bool \<Rightarrow> tid set \<Rightarrow> monitor \<Rightarrow>
  (tid \<Rightarrow> mon_phase) \<Rightarrow> (tid \<Rightarrow> mon_wait option) \<Rightarrow> bool" where
  "mon_inv kind mr mw strict T m g w \<longleftrightarrow> mon_freed m \<or>
     mon_counts (of_kind kind THREAD_READER T) (of_kind kind THREAD_WRITER T) mr mw m g \<and>
     queue_ok (waits_in (of_kind kind THREAD_READER T) w) (mon_reader_wq m) \<and>
     queue_ok (waits_in (of_kind kind THREAD_WRITER T) w) (mon_writer_wq m) \<and>
     distinct (mon_active_threads_in_cs m) \<and> set (mon_active_threads_in_cs m) = {t \<in> T. g t = In_cs} \<and>
     (\<forall>t. w t \<noteq> None \<longrightarrow> g t = Requesting) \<and>
     \<not> mon_shutdown m \<and> mon_strict_alternation m = strict"

lemma queue_ok_block:
  "queue_ok U wq \<Longrightarrow> t \<notin> U \<Longrightarrow> wq_appln_mutex wq = monitor_talk_mutex \<Longrightarrow>
   queue_ok (insert t U) (wq_block cmp t wq)"
  by (simp add: queue_ok_def wq_holds_block)

lemma queue_ok_unblock: "queue_ok U wq \<Longrightarrow> t \<in> U \<Longrightarrow> queue_ok (U - {t}) (wq_unblock t wq)"
  by (auto simp: queue_ok_def wq_holds_unblock)

lemma queue_ok_mutex: "queue_ok U wq \<Longrightarrow> t \<in> U \<Longrightarrow> wq_appln_mutex wq = monitor_talk_mutex"
  by (auto simp: queue_ok_def)

lemma queue_ok_catch:
  "queue_ok U wq \<Longrightarrow> \<exists>wq'. wq_catch_mutex monitor_talk_mutex wq = Some wq' \<and> queue_ok U wq' \<and>
     wq_appln_mutex wq' = monitor_talk_mutex"
  by (auto simp: queue_ok_def wq_catch_mutex_def monitor_talk_mutex_def)

text \<open>The state a grant leads to.\<close>

lemma monitor_grant_state:
  assumes "k = THREAD_READER \<or> k = THREAD_WRITER"
  shows "\<exists>m'. monitor_grant k self m = Unlocked m' Mon_granted [] \<and>
    mon_active_threads_in_cs m' = self # mon_active_threads_in_cs m \<and>
    mon_n_curr_readers m' = mon_n_curr_readers m + (if k = THREAD_READER then 1 else 0) \<and>
    mon_n_curr_writers m' = mon_n_curr_writers m + (if k = THREAD_READER then 0 else 1) \<and>
    mon_resource_status m' =
      (if k = THREAD_READER then MON_RES_BUSY_BY_READER else MON_RES_BUSY_BY_WRITER) \<and>
    mon_who_accessed_cs_last m' = k \<and>
    mon_reader_wq m' = mon_reader_wq m \<and> mon_writer_wq m' = mon_writer_wq m \<and>
    mon_n_readers_max_limit m' = mon_n_readers_max_limit m \<and>
    mon_n_writers_max_limit m' = mon_n_writers_max_limit m \<and> mon_shutdown m' = mon_shutdown m \<and>
    mon_strict_alternation m' = mon_strict_alternation m \<and> mon_freed m' = mon_freed m"
  using assms by (auto simp: monitor_grant_def monitor_set_resource_status_def Let_def)

lemma word_less_unat: "(of_nat k :: u16) < m \<Longrightarrow> k \<le> unat (m' :: u16) \<Longrightarrow> k < unat m"
  using u16_limit(3) [of k m'] by (simp add: word_less_nat_alt unat_of_nat take_bit_nat_eq_self)

text \<open>An admissible request, granted: the counts stay within the limits and on one side.\<close>

lemma grant_counts:
  assumes "mon_counts R W mr mw m g" "finite R" "finite W" "R \<inter> W = {}" "g t \<noteq> In_cs"
    and "k = THREAD_READER \<and> t \<in> R \<or> k = THREAD_WRITER \<and> t \<in> W"
    and "monitor_is_resource_available k m"
    and "monitor_grant k t m = Unlocked m' r ss"
  shows "mon_counts R W mr mw m' (g(t := In_cs))"
proof -
  have k: "k = THREAD_READER \<or> k = THREAD_WRITER" using assms(6) by auto
  from monitor_grant_state [OF k, of t m] assms(8)
  have m': "mon_n_curr_readers m' = mon_n_curr_readers m + (if k = THREAD_READER then 1 else 0)"
    "mon_n_curr_writers m' = mon_n_curr_writers m + (if k = THREAD_READER then 0 else 1)"
    "mon_resource_status m' = (if k = THREAD_READER then MON_RES_BUSY_BY_READER else MON_RES_BUSY_BY_WRITER)"
    "mon_n_readers_max_limit m' = mon_n_readers_max_limit m"
    "mon_n_writers_max_limit m' = mon_n_writers_max_limit m" by auto
  from assms(6) show ?thesis
  proof
    assume t: "k = THREAD_READER \<and> t \<in> R"
    then have "t \<notin> W" using assms(4) by auto
    moreover have "users W g = 0" "mon_n_curr_readers m < mr"
      using assms(1,7) t by (auto simp: mon_counts_def monitor_is_resource_available_def Let_def
          split: resource_status.splits if_splits)
    moreover from this have "users R g < unat mr"
      using assms(1) by (auto simp: mon_counts_def intro: word_less_unat)
    ultimately show ?thesis using assms(1,2,5) t m' by (simp add: mon_counts_def)
  next
    assume t: "k = THREAD_WRITER \<and> t \<in> W"
    then have "t \<notin> R" using assms(4) by auto
    moreover have "users R g = 0" "mon_n_curr_writers m < mw"
      using assms(1,7) t by (auto simp: mon_counts_def monitor_is_resource_available_def Let_def
          split: resource_status.splits if_splits)
    moreover from this have "users W g < unat mw"
      using assms(1) by (auto simp: mon_counts_def intro: word_less_unat)
    ultimately show ?thesis using assms(1,3,5) t m' by (simp add: mon_counts_def)
  qed
qed

text \<open>One turn of the loop, from a state in which the thread is in no queue and its queue knows the
  mutex: it blocks in its queue or is granted.\<close>

lemma monitor_loop_keeps:
  assumes inv: "mon_inv kind mr mw strict T m g (w(t := None))" and "\<not> mon_freed m" "finite T" "t \<in> T"
    and k: "kind t = THREAD_READER \<or> kind t = THREAD_WRITER" and "g t = Requesting"
    and mutex: "wq_appln_mutex (mon_wq (kind t) m) = monitor_talk_mutex"
  shows "keeps_monitor (mon_obj sd kind cmp) (mon_inv kind mr mw strict T) t g w
    (wq_test_loop (mon_wq (kind t)) (mon_put_wq (kind t)) cmp
      (monitor_is_resource_not_available (kind t)) (monitor_grant (kind t) t) Mon_wait t m)"
proof -
  let ?R = "of_kind kind THREAD_READER T" and ?W = "of_kind kind THREAD_WRITER T"
  have fin: "finite ?R" "finite ?W" "?R \<inter> ?W = {}" using assms(3) by (auto simp: of_kind_def)
  have mem: "(t \<in> ?R \<longleftrightarrow> kind t = THREAD_READER)" "(t \<in> ?W \<longleftrightarrow> kind t = THREAD_WRITER)"
    using assms(4) by (auto simp: of_kind_def)
  have i: "mon_counts ?R ?W mr mw m g"
    "queue_ok (waits_in ?R w - {t}) (mon_reader_wq m)" "queue_ok (waits_in ?W w - {t}) (mon_writer_wq m)"
    "distinct (mon_active_threads_in_cs m)" "set (mon_active_threads_in_cs m) = {t \<in> T. g t = In_cs}"
    "\<forall>u. (w(t := None)) u \<noteq> None \<longrightarrow> g u = Requesting" "\<not> mon_shutdown m" "mon_strict_alternation m = strict"
    using inv assms(2) by (auto simp: mon_inv_def)
  have nz: "monitor_talk_mutex \<noteq> 0" by (simp add: monitor_talk_mutex_def)
  show ?thesis
  proof (cases "monitor_is_resource_available (kind t) m")
    case True
    from monitor_grant_state [OF k, of t m] obtain m' where
      g': "monitor_grant (kind t) t m = Unlocked m' Mon_granted []" and
      f: "mon_active_threads_in_cs m' = t # mon_active_threads_in_cs m"
      "mon_reader_wq m' = mon_reader_wq m" "mon_writer_wq m' = mon_writer_wq m"
      "mon_shutdown m' = mon_shutdown m" "mon_strict_alternation m' = mon_strict_alternation m"
      "mon_freed m' = mon_freed m" by auto
    have "mon_counts ?R ?W mr mw m' (g(t := In_cs))"
      using grant_counts [OF i(1) fin, of t "kind t" m' Mon_granted "[]"] mem k assms(6) True g' by auto
    moreover have "set (mon_active_threads_in_cs m') = {u \<in> T. (g(t := In_cs)) u = In_cs}"
      using f(1) i(5) assms(4) by auto
    moreover have "distinct (mon_active_threads_in_cs m')" using f(1) i(4,5) assms(6) by auto
    ultimately have "mon_inv kind mr mw strict T m' (g(t := In_cs)) (w(t := None))"
      using i f by (auto simp: mon_inv_def)
    then show ?thesis using True g' by (simp add: wq_test_loop_def monitor_is_resource_not_available_def)
  next
    case False
    let ?m = "mon_put_wq (kind t) (wq_block cmp t (mon_wq (kind t) m)) m"
    have "queue_ok (waits_in ?R (w(t := Some Mon_wait))) (mon_reader_wq ?m) \<and>
      queue_ok (waits_in ?W (w(t := Some Mon_wait))) (mon_writer_wq ?m)"
    proof (cases "kind t = THREAD_READER")
      case True
      then have "t \<in> ?R" "t \<notin> ?W" using mem by auto
      then have "waits_in ?W w - {t} = waits_in ?W w" by auto
      moreover have "insert t (waits_in ?R w - {t}) = waits_in ?R (w(t := Some Mon_wait))"
        using \<open>t \<in> ?R\<close> by simp
      ultimately show ?thesis
        using i(2,3) True queue_ok_block [OF i(2), of t cmp] mutex \<open>t \<notin> ?W\<close>
        by (simp add: mon_put_wq_def mon_wq_def)
    next
      case writer: False
      then have "t \<notin> ?R" "t \<in> ?W" using mem k by auto
      then have "waits_in ?R w - {t} = waits_in ?R w" by auto
      moreover have "insert t (waits_in ?W w - {t}) = waits_in ?W (w(t := Some Mon_wait))"
        using \<open>t \<in> ?W\<close> by simp
      ultimately show ?thesis
        using i(2,3) writer queue_ok_block [OF i(3), of t cmp] mutex \<open>t \<notin> ?R\<close>
        by (simp add: mon_put_wq_def mon_wq_def)
    qed
    moreover have "mon_counts ?R ?W mr mw ?m g" using i(1) by (simp add: mon_put_wq_def mon_counts_def)
    ultimately have "mon_inv kind mr mw strict T ?m g (w(t := Some Mon_wait))"
      using i(4-8) assms(6) by (auto simp: mon_inv_def mon_put_wq_def split: if_splits)
    then show ?thesis
      using False mutex nz
      by (simp add: wq_test_loop_def monitor_is_resource_not_available_def check_def)
  qed
qed

lemma monitor_request_keeps:
  assumes inv: "mon_inv kind mr mw strict T m g w" "\<not> mon_freed m" "finite T" "t \<in> T"
    and k: "kind t = THREAD_READER \<or> kind t = THREAD_WRITER" and "g t = Requesting" "w t = None"
  shows "keeps_monitor (mon_obj sd kind cmp) (mon_inv kind mr mw strict T) t g w
    (monitor_request_access_permission cmp (kind t) t m)"
proof -
  have w: "w(t := None) = w" using assms(7) by auto
  have "\<exists>U. queue_ok U (mon_wq (kind t) m)" using inv(1,2) by (auto simp: mon_inv_def mon_wq_def)
  then obtain U wq where wq: "wq_catch_mutex monitor_talk_mutex (mon_wq (kind t) m) = Some wq"
    "wq_appln_mutex wq = monitor_talk_mutex" "queue_ok U (mon_wq (kind t) m)"
    using queue_ok_catch by blast
  then have wq_eq: "wq = (mon_wq (kind t) m)\<lparr>wq_appln_mutex := monitor_talk_mutex\<rparr>"
    by (auto simp: wq_catch_mutex_def split: if_splits)
  let ?m = "mon_put_wq (kind t) wq m"
  have "mon_inv kind mr mw strict T ?m g (w(t := None))"
    using inv(1) by (auto simp: w mon_inv_def mon_counts_def mon_put_wq_def mon_wq_def wq_eq queue_ok_def)
  moreover have "\<not> mon_freed ?m" "wq_appln_mutex (mon_wq (kind t) ?m) = monitor_talk_mutex"
    using inv(2) wq(2) by (simp_all add: mon_put_wq_def mon_wq_def)
  ultimately show ?thesis
    using monitor_loop_keeps [of kind mr mw strict T ?m g w t sd cmp] assms(3-6) wq(1)
    by (simp add: monitor_request_access_permission_def wait_queue_test_and_wait_def)
qed

lemma monitor_resume_keeps:
  assumes inv: "mon_inv kind mr mw strict T m g w" "\<not> mon_freed m" "finite T" "t \<in> T"
    and k: "kind t = THREAD_READER \<or> kind t = THREAD_WRITER" and wt: "w t = Some Mon_wait"
  shows "keeps_monitor (mon_obj sd kind cmp) (mon_inv kind mr mw strict T) t g w
    (monitor_request_resume cmp (kind t) t m)"
proof -
  let ?R = "of_kind kind THREAD_READER T" and ?W = "of_kind kind THREAD_WRITER T"
  let ?m = "mon_put_wq (kind t) (wq_unblock t (mon_wq (kind t) m)) m"
  have i: "queue_ok (waits_in ?R w) (mon_reader_wq m)" "queue_ok (waits_in ?W w) (mon_writer_wq m)"
    "g t = Requesting"
    using inv(1,2) wt by (auto simp: mon_inv_def)
  have q: "queue_ok (waits_in ?R w - {t}) (mon_reader_wq ?m) \<and> queue_ok (waits_in ?W w - {t}) (mon_writer_wq ?m) \<and>
    wq_appln_mutex (mon_wq (kind t) ?m) = monitor_talk_mutex"
  proof (cases "kind t = THREAD_READER")
    case True
    then have t: "t \<in> waits_in ?R w" "waits_in ?W w - {t} = waits_in ?W w"
      using assms(4) wt by (auto simp: of_kind_def)
    then show ?thesis
      using True i queue_ok_unblock [OF i(1) t(1)] queue_ok_mutex [OF i(1) t(1)]
      by (simp add: mon_put_wq_def mon_wq_def)
  next
    case False
    then have t: "t \<in> waits_in ?W w" "waits_in ?R w - {t} = waits_in ?R w"
      using assms(4) wt k by (auto simp: of_kind_def)
    then show ?thesis
      using False i queue_ok_unblock [OF i(2) t(1)] queue_ok_mutex [OF i(2) t(1)]
      by (simp add: mon_put_wq_def mon_wq_def)
  qed
  have "mon_inv kind mr mw strict T ?m g (w(t := None))"
    using inv(1,2) q by (auto simp: mon_inv_def mon_counts_def mon_put_wq_def)
  moreover have "\<not> mon_freed ?m" using inv(2) by (simp add: mon_put_wq_def)
  ultimately show ?thesis
    using monitor_loop_keeps [of kind mr mw strict T ?m g w t sd cmp] assms(3-5) i(3) q
    by (simp add: monitor_request_resume_def wait_queue_resume_def)
qed

text \<open>The state a release leads to, apart from the deletion flag.\<close>

lemma idle_state [simp]:
  "mon_active_threads_in_cs (monitor_set_resource_status None m) = mon_active_threads_in_cs m"
  "mon_n_curr_readers (monitor_set_resource_status None m) = mon_n_curr_readers m"
  "mon_n_curr_writers (monitor_set_resource_status None m) = mon_n_curr_writers m"
  "mon_resource_status (monitor_set_resource_status None m) = MON_RES_AVAILABLE"
  "mon_reader_wq (monitor_set_resource_status None m) = mon_reader_wq m"
  "mon_writer_wq (monitor_set_resource_status None m) = mon_writer_wq m"
  "mon_n_readers_max_limit (monitor_set_resource_status None m) = mon_n_readers_max_limit m"
  "mon_n_writers_max_limit (monitor_set_resource_status None m) = mon_n_writers_max_limit m"
  "mon_shutdown (monitor_set_resource_status None m) = mon_shutdown m"
  "mon_strict_alternation (monitor_set_resource_status None m) = mon_strict_alternation m"
  "mon_freed (monitor_set_resource_status None m) = mon_freed m"
  "mon_who_accessed_cs_last (monitor_set_resource_status None m) = mon_who_accessed_cs_last m"
  by (simp_all add: monitor_set_resource_status_def monitor_check_and_delete_monitor_def)

lemma monitor_release_keeps:
  assumes inv: "mon_inv kind mr mw strict T m g w" "\<not> mon_freed m" "finite T" "t \<in> T"
    and k: "kind t = THREAD_READER \<or> kind t = THREAD_WRITER" and g: "g t = In_cs" and wt: "w t = None"
  shows "keeps_monitor (mon_obj sd kind cmp) (mon_inv kind mr mw strict T) t g w
    (monitor_inform_resource_released (kind t) t m)"
proof -
  let ?R = "of_kind kind THREAD_READER T" and ?W = "of_kind kind THREAD_WRITER T"
  let ?g = "g(t := Leaving)"
  have fin: "finite ?R" "finite ?W" using assms(3) by (auto simp: of_kind_def)
  have w: "w(t := None) = w" using wt by auto
  have i: "mon_counts ?R ?W mr mw m g"
    "queue_ok (waits_in ?R w) (mon_reader_wq m)" "queue_ok (waits_in ?W w) (mon_writer_wq m)"
    "distinct (mon_active_threads_in_cs m)" "set (mon_active_threads_in_cs m) = {t \<in> T. g t = In_cs}"
    "\<forall>u. w u \<noteq> None \<longrightarrow> g u = Requesting" "\<not> mon_shutdown m" "mon_strict_alternation m = strict"
    using inv(1,2) by (auto simp: mon_inv_def)
  have act: "distinct (remove1 t (mon_active_threads_in_cs m))"
    "set (remove1 t (mon_active_threads_in_cs m)) = {u \<in> T. ?g u = In_cs}"
    using i(4,5) by auto
  have wait: "\<forall>u. w u \<noteq> None \<longrightarrow> ?g u = Requesting" using i(6) wt by auto
  show ?thesis
  proof (cases "kind t = THREAD_READER")
    case True
    then have t: "t \<in> ?R" "t \<notin> ?W" using assms(4) by (auto simp: of_kind_def)
    have u: "users ?R g = Suc (users ?R ?g)" using users_leave [of ?R t g] fin t g by simp
    have le: "users ?R g \<le> unat mr" "users ?R ?g \<le> unat mr" using i(1) u by (auto simp: mon_counts_def)
    have st: "mon_resource_status m = MON_RES_BUSY_BY_READER" "users ?W g = 0"
      using i(1) u by (auto simp: mon_counts_def split: resource_status.splits)
    have n: "mon_n_curr_readers m \<noteq> 0" "mon_n_curr_readers m - 1 = of_nat (users ?R ?g)"
      "of_nat (users ?R g) = (1::u16) \<longleftrightarrow> users ?R ?g = 0"
      using i(1) u u16_limit(1) [OF le(1)] u16_limit(1) [OF le(2)] by (simp_all add: mon_counts_def)
    show ?thesis
      using True n i st t le act wait inv(2)
      by (simp add: monitor_inform_resource_released_def Let_def check_def w mon_inv_def mon_counts_def)
  next
    case False
    then have kw: "kind t = THREAD_WRITER" using k by simp
    then have t: "t \<in> ?W" "t \<notin> ?R" using assms(4) by (auto simp: of_kind_def)
    have u: "users ?W g = Suc (users ?W ?g)" using users_leave [of ?W t g] fin t g by simp
    have le: "users ?W g \<le> unat mw" "users ?W ?g \<le> unat mw" using i(1) u by (auto simp: mon_counts_def)
    have st: "mon_resource_status m = MON_RES_BUSY_BY_WRITER" "users ?R g = 0"
      using i(1) u by (auto simp: mon_counts_def split: resource_status.splits)
    have n: "mon_n_curr_writers m \<noteq> 0" "mon_n_curr_writers m - 1 = of_nat (users ?W ?g)"
      "of_nat (users ?W g) = (1::u16) \<longleftrightarrow> users ?W ?g = 0"
      using i(1) u u16_limit(1) [OF le(1)] u16_limit(1) [OF le(2)] by (simp_all add: mon_counts_def)
    show ?thesis
      using kw n i st t le act wait inv(2)
      by (simp add: monitor_inform_resource_released_def Let_def check_def w mon_inv_def mon_counts_def)
  qed
qed

text \<open>The phases outside the critical section do not touch the counts.\<close>

lemma mon_inv_phase:
  assumes "mon_inv kind mr mw strict T m g w" "g t \<noteq> In_cs" "ph \<noteq> In_cs" "w t = None"
  shows "mon_inv kind mr mw strict T m (g(t := ph)) w"
proof -
  have "{u \<in> T. (g(t := ph)) u = In_cs} = {u \<in> T. g u = In_cs}" using assms(2,3) by auto
  moreover have "\<forall>u. w u \<noteq> None \<longrightarrow> (g(t := ph)) u = g u" using assms(4) by auto
  moreover have "mon_counts R W mr mw m (g(t := ph)) \<longleftrightarrow> mon_counts R W mr mw m g" for R W
    using assms(2,3) by (simp add: mon_counts_def split: resource_status.split)
  ultimately show ?thesis using assms(1) unfolding mon_inv_def by simp
qed

lemma mon_inv_lost: "mon_freed m \<Longrightarrow> mon_inv kind mr mw strict T m g w"
  by (simp add: mon_inv_def)

lemma admission_section:
  assumes "mon_inv kind mr mw strict T m g w" "\<not> mon_freed m" "g t = Outside" "w t = None"
  shows "monitor_request_admission t m = Unlocked m Mon_admitted []"
proof -
  have "t \<notin> set (mon_active_threads_in_cs m)" "t \<notin> set (wq_queue (mon_reader_wq m))"
    "t \<notin> set (wq_queue (mon_writer_wq m))" "\<not> mon_shutdown m"
    using assms by (auto simp: mon_inv_def queue_ok_def wq_holds_def)
  then show ?thesis by (simp add: monitor_request_admission_def check_def)
qed

lemma monitor_enter_keeps:
  assumes "mon_inv kind mr mw strict T m g w" "finite T" "t \<in> T"
    and "kind t = THREAD_READER \<or> kind t = THREAD_WRITER" and "w t = None" and "mon_client False (g t) op"
  shows "keeps_monitor (mon_obj False kind cmp) (mon_inv kind mr mw strict T) t g w (mon_enter kind cmp t op m)"
proof (cases "mon_freed m")
  case True
  then have "mon_enter kind cmp t op m = Unlocked m Mon_use_after_free []"
    by (cases op) (simp_all add: unless_freed_def)
  then show ?thesis using mon_inv_lost [OF True] by simp
next
  case False
  have w: "w(t := None) = w" using assms(5) by auto
  show ?thesis
  proof (cases op)
    case Mon_admission
    then have g: "g t = Outside" using assms(6) by simp
    then show ?thesis
      using Mon_admission False mon_inv_phase [OF assms(1), of t Requesting] assms(5) w
        admission_section [where w = w, OF assms(1) False g assms(5)]
      by (simp add: unless_freed_def)
  next
    case Mon_request
    then show ?thesis
      using monitor_request_keeps [OF assms(1) False assms(2-4) _ assms(5)] assms(6) False
      by (simp add: unless_freed_def)
  next
    case Mon_release
    then show ?thesis
      using monitor_release_keeps [OF assms(1) False assms(2-4) _ assms(5)] assms(6) False
      by (simp add: unless_freed_def)
  next
    case Mon_free_check
    then have g: "g t = Leaving" using assms(6) by simp
    have "mon_inv kind mr mw strict T (if mon_is_deleted m then m\<lparr>mon_freed := True\<rparr> else m)
        (g(t := Outside)) w"
      using mon_inv_phase [OF assms(1), of t Outside] assms(5) g by (simp add: mon_inv_lost)
    then show ?thesis using Mon_free_check False w
      by (simp add: unless_freed_def monitor_free_if_deleted_def)
  next
    case Mon_shut_down
    then show ?thesis using assms(6) by simp
  qed
qed

text \<open>A run: finitely many threads, readers and writers; the limits; whether strict alternation is
  set after \<^verbatim>\<open>init_monitor\<close>.\<close>

record mon_run =
  run_kind :: "tid \<Rightarrow> thread_op"
  run_cmp :: "(tid \<Rightarrow> tid \<Rightarrow> int) option"
  run_max_readers :: u16
  run_max_writers :: u16

definition mon_run_obj :: "mon_run \<Rightarrow> (monitor, mon_phase, mon_op, mon_wait, wq_cv, mon_result) obj" where
  "mon_run_obj p = mon_obj False (run_kind p) (monitor_wq_comp_fn (run_cmp p))"

definition mon_run_start :: "mon_run \<Rightarrow> monitor" where
  "mon_run_start p = mon_fresh (run_max_readers p) (run_max_writers p) (run_cmp p)"

definition mon_run_inv :: "mon_run \<Rightarrow> tid set \<Rightarrow> monitor \<Rightarrow> (tid \<Rightarrow> mon_phase) \<Rightarrow>
  (tid \<Rightarrow> mon_wait option) \<Rightarrow> bool" where
  "mon_run_inv p T = mon_inv (run_kind p) (run_max_readers p) (run_max_writers p) False T"

definition mon_valid :: "mon_run \<Rightarrow> tid set \<Rightarrow> bool" where
  "mon_valid p T \<longleftrightarrow> thread_ids T \<and> (\<forall>t\<in>T. run_kind p t = THREAD_READER \<or> run_kind p t = THREAD_WRITER)"

lemma mon_fresh_inv: "mon_inv kind mr mw False T (mon_fresh mr mw cb) (\<lambda>_. Outside) (\<lambda>_. None)"
  by (simp add: mon_inv_def mon_fresh_def init_monitor_def mon_calloc_def wait_queue_init_def Let_def
      monitor_set_wq_auto_mutex_lock_behavior_def wait_queue_set_auto_unlock_appln_mutex_def
      mon_counts_def queue_ok_def wq_holds_def users_def count_threads_def)

lemma mon_wait_eq: "k = Mon_wait"
  by (cases k) simp

interpretation mon: sync_monitor mon_valid mon_run_obj mon_run_start Outside mon_run_inv
proof (unfold_locales, goal_cases)
  case (1 p T)
  then show ?case by (simp add: mon_run_inv_def mon_run_start_def mon_fresh_inv)
next
  case (2 p T s g w t op)
  then have "finite T" by (auto simp: mon_valid_def)
  with 2 show ?case
    by (auto simp: mon_run_inv_def mon_run_obj_def mon_valid_def intro!: monitor_enter_keeps)
next
  case (3 p T s g w t k)
  then have T: "finite T" and kd: "run_kind p t = THREAD_READER \<or> run_kind p t = THREAD_WRITER"
    by (auto simp: mon_valid_def)
  show ?case
  proof (cases "mon_freed s")
    case True
    then show ?thesis by (simp add: mon_run_obj_def mon_resume_def unless_freed_def mon_run_inv_def mon_inv_lost)
  next
    case False
    then show ?thesis
      using 3 T kd monitor_resume_keeps [of "run_kind p" _ _ False T s g w t False "monitor_wq_comp_fn (run_cmp p)"]
      by (simp add: mon_run_obj_def mon_resume_def unless_freed_def mon_run_inv_def mon_wait_eq)
  qed
qed












section \<open>Waking up\<close>

definition own_cv :: "tid set \<Rightarrow> (tid \<Rightarrow> (wq_cv, 'k) thread_status) \<Rightarrow> bool" where
  "own_cv T f \<longleftrightarrow> (\<forall>t. t \<notin> T \<longrightarrow> f t = Running) \<and> (\<forall>t cv k. f t = Blocked cv k \<longrightarrow> cv = Thread_cv t)"

lemma own_cv_wakes:
  assumes "own_cv T f" and "wakes ss (f(t := Running)) h"
  shows "own_cv T h"
  unfolding own_cv_def
proof (intro conjI allI impI)
  fix u assume "u \<notin> T"
  then show "h u = Running"
    using assms wakes_running [OF assms(2), of u] by (simp add: own_cv_def)
next
  fix u cv k assume u: "h u = Blocked cv k"
  then have "h u = f u" using wakes_blocked_same [OF assms(2), of u] by (auto split: if_splits)
  with u assms(1) show "cv = Thread_cv u" by (auto simp: own_cv_def)
qed

definition mon_gate :: "tid set \<Rightarrow> monitor \<Rightarrow> (tid \<Rightarrow> (wq_cv, mon_wait) thread_status) \<Rightarrow> bool" where
  "mon_gate T m f \<longleftrightarrow> own_cv T f \<and>
     (\<not> mon_freed m \<and> mon_resource_status m = MON_RES_AVAILABLE \<longrightarrow> awake f)"

lemma mon_gate_busy [simp]:
  assumes "own_cv T f" "mon_freed m \<or> mon_resource_status m \<noteq> MON_RES_AVAILABLE"
  shows "keeps ob (\<lambda>m g. mon_gate T m) t g f (Unlocked m r ss)"
    and "t \<in> T \<Longrightarrow> keeps ob (\<lambda>m g. mon_gate T m) t g f (CvWait m (Thread_cv t) k ss)"
  using assms own_cv_wakes [OF assms(1)] by (auto simp: mon_gate_def own_cv_def)

lemma mon_gate_same:
  assumes "mon_gate T m f" "f t = Running" "mon_freed m' \<longleftrightarrow> mon_freed m"
    and "mon_resource_status m' = mon_resource_status m"
  shows "keeps ob (\<lambda>m g. mon_gate T m) t g f (Unlocked m' r [])"
  using assms by (simp add: mon_gate_def fun_upd_idem)

text \<open>Signals to threads that wait leave one of them awake.\<close>

lemma signals_awake:
  assumes "own_cv T f" "wakes (map (\<lambda>t. Signal (Thread_cv t)) ts) f h" "t \<in> set ts" "pending (f t) \<noteq> None"
  shows "is_woken (h t)"
proof -
  have "\<not> is_blocked (h t) \<or> (\<exists>cv k. f t = Blocked cv k \<and> cv \<noteq> Thread_cv t)"
    using assms(1,3) by (intro wakes_thread_signals [OF assms(2)]) (auto simp: own_cv_def)
  then have "\<not> is_blocked (h t)" using assms(1) by (auto simp: own_cv_def)
  moreover have "pending (h t) \<noteq> None" using wakes_pending [OF assms(2), of t] assms(4) by simp
  ultimately show ?thesis by (cases "h t") auto
qed

text \<open>The signals of a release are to waiting threads, and there is one whenever somebody waits.\<close>

lemma release_signals:
  assumes "wq_holds A qa" "wq_holds B qb" "finite A" "finite B" "card A < 65536" "card B < 65536"
  shows "\<exists>ts. (if wq_thread_wait_count qa \<noteq> 0 then wait_queue_signal qa
      else if wq_thread_wait_count qb \<noteq> 0 then wait_queue_broadcast qb else []) =
      map (\<lambda>t. Signal (Thread_cv t)) ts \<and> set ts \<subseteq> A \<union> B \<and> (A \<union> B \<noteq> {} \<longrightarrow> ts \<noteq> [])"
proof -
  have z: "wq_thread_wait_count qa = 0 \<longleftrightarrow> A = {}" "wq_thread_wait_count qb = 0 \<longleftrightarrow> B = {}"
    using wq_holds_zero [OF assms(1,3,5)] wq_holds_zero [OF assms(2,4,6)] by auto
  show ?thesis
  proof (cases "A = {}")
    case False
    then obtain a as where as: "wq_queue qa = a # as"
      using assms(1) by (cases "wq_queue qa") (auto simp: wq_holds_def)
    then have "a \<in> A" using assms(1) by (auto simp: wq_holds_def)
    then show ?thesis
      using False z as assms(1) by (intro exI [of _ "[a]"]) (simp add: wait_queue_signal_def wq_holds_def)
  next
    case True
    then show ?thesis
      using z assms(2) by (intro exI [of _ "wq_queue qb"])
        (auto simp: wait_queue_broadcast_def wq_holds_def)
  qed
qed

lemma available_when_idle:
  assumes "mon_counts R W mr mw m g" "mon_resource_status m = MON_RES_AVAILABLE"
    and "\<not> mon_strict_alternation m" "mr \<noteq> 0" "mw \<noteq> 0"
  shows "monitor_is_resource_available k m"
  using assms by (simp add: mon_counts_def monitor_is_resource_available_def Let_def word_gt_0)

lemma monitor_loop_gate:
  assumes "mon_counts R W mr mw m g" "\<not> mon_strict_alternation m" "mr \<noteq> 0" "mw \<noteq> 0"
    and "k = THREAD_READER \<or> k = THREAD_WRITER" and "wq_priority_flag (mon_wq k m)"
    and "wq_appln_mutex (mon_wq k m) \<noteq> 0" and "own_cv T f" "t \<in> T"
  shows "keeps ob (\<lambda>m g. mon_gate T m) t g f
    (wq_test_loop (mon_wq k) (mon_put_wq k) cmp (monitor_is_resource_not_available k)
      (monitor_grant k t) Mon_wait t m)"
proof (cases "monitor_is_resource_available k m")
  case True
  from monitor_grant_state [OF assms(5), of t m] obtain m' where
    "monitor_grant k t m = Unlocked m' Mon_granted []" "mon_resource_status m' \<noteq> MON_RES_AVAILABLE"
    by auto
  then show ?thesis using True assms(8)
    by (simp add: wq_test_loop_def monitor_is_resource_not_available_def del: keeps.simps)
next
  case False
  then have "mon_resource_status m \<noteq> MON_RES_AVAILABLE"
    using available_when_idle [OF assms(1) _ assms(2-4), of k] by blast
  then show ?thesis using False assms(6-9)
    by (simp add: wq_test_loop_def monitor_is_resource_not_available_def check_def wq_block_cv_def
        mon_put_wq_def del: keeps.simps)
qed

text \<open>The release that leaves the resource idle wakes somebody, if anybody waits.\<close>

lemma mon_gate_release:
  assumes "own_cv T f" "f t = Running" "wq_holds A qa" "wq_holds B qb"
    and "A \<union> B = {u \<in> T. pending (f u) \<noteq> None}" "thread_ids T"
  shows "keeps ob (\<lambda>m g. mon_gate T m) t g f (Unlocked m r
    (if wq_thread_wait_count qa \<noteq> 0 then wait_queue_signal qa
     else if wq_thread_wait_count qb \<noteq> 0 then wait_queue_broadcast qb else []))"
proof -
  have T: "finite T" "card T < 65536" using assms(6) by (auto simp: thread_ids_def)
  have ab: "A \<union> B \<subseteq> T" using assms(5) by auto
  then have "card A < 65536" "card B < 65536" "finite A" "finite B"
    using T card_mono [OF T(1), of A] card_mono [OF T(1), of B] finite_subset [of _ T] by auto
  from release_signals [OF assms(3,4) this(3,4,1,2)] obtain ts where
    ts: "(if wq_thread_wait_count qa \<noteq> 0 then wait_queue_signal qa
     else if wq_thread_wait_count qb \<noteq> 0 then wait_queue_broadcast qb else []) =
      map (\<lambda>t. Signal (Thread_cv t)) ts" "set ts \<subseteq> A \<union> B" "A \<union> B \<noteq> {} \<longrightarrow> ts \<noteq> []" by blast
  have "awake h" if h: "wakes (map (\<lambda>t. Signal (Thread_cv t)) ts) (f(t := Running)) h" for h
    unfolding awake_def
  proof
    assume "\<exists>u. is_blocked (h u)"
    then obtain u where "is_blocked (h u)" ..
    moreover from this have "h u = (f(t := Running)) u" using wakes_blocked_same [OF h, of u] by simp
    ultimately have "is_blocked (f u)" by (auto split: if_splits)
    then have "u \<in> A \<union> B" using assms(1,5) by (cases "f u") (auto simp: own_cv_def)
    then obtain v where v: "v \<in> set ts" "v \<in> A \<union> B" using ts(2,3) by (cases ts) auto
    have "f(t := Running) = f" using assms(2) by auto
    then have "is_woken (h v)" using signals_awake [OF assms(1), of ts h v] h v assms(5) by auto
    then show "\<exists>v. is_woken (h v)" ..
  qed
  then show ?thesis using own_cv_wakes [OF assms(1)] unfolding ts(1) by (simp add: mon_gate_def)
qed

lemma monitor_release_gate:
  assumes inv: "mon_inv kind mr mw strict T m g (\<lambda>x. pending (f x))" "\<not> mon_freed m" and gate: "mon_gate T m f"
    and T: "thread_ids T" and ft: "f t = Running" "g t = In_cs"
    and k: "kind t = THREAD_READER \<or> kind t = THREAD_WRITER"
    and kinds: "\<forall>u\<in>T. kind u = THREAD_READER \<or> kind u = THREAD_WRITER" and "t \<in> T"
  shows "keeps ob (\<lambda>m g. mon_gate T m) t g f (monitor_inform_resource_released (kind t) t m)"
proof -
  let ?R = "of_kind kind THREAD_READER T" and ?W = "of_kind kind THREAD_WRITER T"
  let ?w = "\<lambda>x. pending (f x)"
  have own: "own_cv T f" using gate by (simp add: mon_gate_def)
  have i: "mon_counts ?R ?W mr mw m g" "wq_holds (waits_in ?R ?w) (mon_reader_wq m)"
    "wq_holds (waits_in ?W ?w) (mon_writer_wq m)"
    using inv by (auto simp: mon_inv_def queue_ok_def)
  have all: "waits_in ?R ?w \<union> waits_in ?W ?w = {u \<in> T. pending (f u) \<noteq> None}"
    "waits_in ?W ?w \<union> waits_in ?R ?w = {u \<in> T. pending (f u) \<noteq> None}"
    using kinds by (auto simp: waits_in_def of_kind_def)
  have fin: "finite ?R" "finite ?W" using T by (auto simp: of_kind_def thread_ids_finite)
  from k show ?thesis
  proof
    assume kt: "kind t = THREAD_READER"
    then have "0 < users ?R g" using fin ft(2) assms(9) by (auto simp: users_pos of_kind_def)
    then have "mon_n_curr_readers m \<noteq> 0" "mon_resource_status m = MON_RES_BUSY_BY_READER"
      using i(1) u16_limit(1) [of "users ?R g" mr]
      by (auto simp: mon_counts_def split: resource_status.splits)
    moreover let ?m = "monitor_set_resource_status None (m\<lparr>mon_active_threads_in_cs :=
        remove1 t (mon_active_threads_in_cs m), mon_n_curr_readers := mon_n_curr_readers m - 1\<rparr>)"
    have "keeps ob (\<lambda>m g. mon_gate T m) t g f (Unlocked ?m Mon_released
        (if wq_thread_wait_count (mon_reader_wq m) \<noteq> 0 then wait_queue_signal (mon_reader_wq m)
         else if wq_thread_wait_count (mon_writer_wq m) \<noteq> 0 then wait_queue_broadcast (mon_writer_wq m) else []))"
      by (rule mon_gate_release [OF own ft(1) i(2,3) all(1) T])
    ultimately show ?thesis using kt own
      by (cases "mon_n_curr_readers m = 1")
        (auto simp: monitor_inform_resource_released_def check_def Let_def simp del: keeps.simps
          split: if_splits)
  next
    assume kt: "kind t = THREAD_WRITER"
    then have "0 < users ?W g" using fin ft(2) assms(9) by (auto simp: users_pos of_kind_def)
    then have "mon_n_curr_writers m \<noteq> 0" "mon_resource_status m = MON_RES_BUSY_BY_WRITER"
      using i(1) u16_limit(1) [of "users ?W g" mw]
      by (auto simp: mon_counts_def split: resource_status.splits)
    moreover let ?m = "monitor_set_resource_status None (m\<lparr>mon_active_threads_in_cs :=
        remove1 t (mon_active_threads_in_cs m), mon_n_curr_writers := mon_n_curr_writers m - 1\<rparr>)"
    have "keeps ob (\<lambda>m g. mon_gate T m) t g f (Unlocked ?m Mon_released
        (if wq_thread_wait_count (mon_writer_wq m) \<noteq> 0 then wait_queue_signal (mon_writer_wq m)
         else if wq_thread_wait_count (mon_reader_wq m) \<noteq> 0 then wait_queue_broadcast (mon_reader_wq m) else []))"
      by (rule mon_gate_release [OF own ft(1) i(3,2) all(2) T])
    ultimately show ?thesis using kt own
      by (cases "mon_n_curr_writers m = 1")
        (auto simp: monitor_inform_resource_released_def check_def Let_def simp del: keeps.simps
          split: if_splits)
  qed
qed

lemma monitor_sections_gate:
  assumes inv: "mon_inv kind mr mw False T m g (\<lambda>x. pending (f x))" and gate: "mon_gate T m f"
    and T: "thread_ids T" "t \<in> T" and lim: "mr \<noteq> 0" "mw \<noteq> 0"
    and kinds: "\<forall>u\<in>T. kind u = THREAD_READER \<or> kind u = THREAD_WRITER"
  shows "f t = Running \<Longrightarrow> mon_client False (g t) op \<Longrightarrow>
      keeps ob (\<lambda>m g. mon_gate T m) t g f (mon_enter kind cmp t op m)"
    and "f t = Woken Mon_wait \<Longrightarrow> keeps ob (\<lambda>m g. mon_gate T m) t g f (mon_resume kind cmp t kw m)"
proof -
  let ?R = "of_kind kind THREAD_READER T" and ?W = "of_kind kind THREAD_WRITER T"
  let ?w = "\<lambda>x. pending (f x)"
  have own: "own_cv T f" using gate by (simp add: mon_gate_def)
  have k: "kind t = THREAD_READER \<or> kind t = THREAD_WRITER" using kinds T(2) by blast
  show "keeps ob (\<lambda>m g. mon_gate T m) t g f (mon_enter kind cmp t op m)"
    if ft: "f t = Running" and cl: "mon_client False (g t) op"
  proof (cases "mon_freed m")
    case True
    then show ?thesis using own by (cases op) (simp_all add: unless_freed_def del: keeps.simps)
  next
    case False
    then have i: "mon_counts ?R ?W mr mw m g" "queue_ok (waits_in ?R ?w) (mon_reader_wq m)"
      "queue_ok (waits_in ?W ?w) (mon_writer_wq m)" "\<not> mon_strict_alternation m"
      using inv by (auto simp: mon_inv_def)
    show ?thesis
    proof (cases op)
      case Mon_admission
      then show ?thesis
        using admission_section [where w = ?w, OF inv False, of t] ft cl False
        by (simp add: unless_freed_def mon_gate_same [OF gate ft] del: keeps.simps)
    next
      case Mon_request
      have "\<exists>U. queue_ok U (mon_wq (kind t) m)" using i by (auto simp: mon_wq_def)
      then obtain U wq where wq: "wq_catch_mutex monitor_talk_mutex (mon_wq (kind t) m) = Some wq"
        "wq_appln_mutex wq = monitor_talk_mutex" "queue_ok U wq"
        using queue_ok_catch by blast
      let ?m = "mon_put_wq (kind t) wq m"
      have eq: "mon_enter kind cmp t op m = wq_test_loop (mon_wq (kind t)) (mon_put_wq (kind t)) cmp
          (monitor_is_resource_not_available (kind t)) (monitor_grant (kind t) t) Mon_wait t ?m"
        using Mon_request False wq(1)
        by (simp add: unless_freed_def monitor_request_access_permission_def wait_queue_test_and_wait_def)
      have c: "mon_counts ?R ?W mr mw ?m g" "\<not> mon_strict_alternation ?m"
        using i(1,4) by (simp_all add: mon_counts_def mon_put_wq_def)
      have q: "wq_priority_flag (mon_wq (kind t) ?m)" "wq_appln_mutex (mon_wq (kind t) ?m) \<noteq> 0"
        using wq(2,3) by (simp_all add: mon_wq_def mon_put_wq_def queue_ok_def wq_holds_def monitor_talk_mutex_def)
      show ?thesis unfolding eq by (rule monitor_loop_gate [OF c lim k q own T(2)])
    next
      case Mon_release
      then show ?thesis
        using monitor_release_gate [OF inv False gate T(1) ft _ k kinds T(2)] cl False
        by (simp add: unless_freed_def del: keeps.simps)
    next
      case Mon_free_check
      then show ?thesis using own False
        by (simp add: unless_freed_def monitor_free_if_deleted_def mon_gate_same [OF gate ft] del: keeps.simps)
    qed (use cl in simp)
  qed
  show "keeps ob (\<lambda>m g. mon_gate T m) t g f (mon_resume kind cmp t kw m)"
    if ft: "f t = Woken Mon_wait"
  proof (cases "mon_freed m")
    case True
    then show ?thesis using own by (simp add: mon_resume_def unless_freed_def del: keeps.simps)
  next
    case False
    then have i: "mon_counts ?R ?W mr mw m g" "queue_ok (waits_in ?R ?w) (mon_reader_wq m)"
      "queue_ok (waits_in ?W ?w) (mon_writer_wq m)" "\<not> mon_strict_alternation m"
      using inv by (auto simp: mon_inv_def)
    have tw: "kind t = THREAD_READER \<and> t \<in> waits_in ?R ?w \<or> kind t = THREAD_WRITER \<and> t \<in> waits_in ?W ?w"
      using ft T k by (auto simp: waits_in_def of_kind_def)
    let ?wq = "wq_unblock t (mon_wq (kind t) m)" and ?m = "mon_put_wq (kind t) (wq_unblock t (mon_wq (kind t) m)) m"
    obtain U where U: "queue_ok U (mon_wq (kind t) m)" "t \<in> U"
      using tw i(2,3) by (cases "kind t = THREAD_READER") (auto simp: mon_wq_def)
    then have "wq_appln_mutex ?wq \<noteq> 0" "wq_priority_flag ?wq"
      using queue_ok_mutex [OF U]
      by (simp_all add: queue_ok_def wq_holds_def monitor_talk_mutex_def wq_unblock_def)
    then have q: "wq_priority_flag (mon_wq (kind t) ?m)" "wq_appln_mutex (mon_wq (kind t) ?m) \<noteq> 0"
      by (simp_all add: mon_wq_def mon_put_wq_def split: if_splits)
    have c: "mon_counts ?R ?W mr mw ?m g" "\<not> mon_strict_alternation ?m"
      using i(1,4) by (simp_all add: mon_counts_def mon_put_wq_def)
    have eq: "mon_resume kind cmp t kw m = wq_test_loop (mon_wq (kind t)) (mon_put_wq (kind t)) cmp
        (monitor_is_resource_not_available (kind t)) (monitor_grant (kind t) t) Mon_wait t ?m"
      using False by (simp add: mon_resume_def unless_freed_def monitor_request_resume_def wait_queue_resume_def)
    show ?thesis unfolding eq by (rule monitor_loop_gate [OF c lim k q own T(2)])
  qed
qed

definition mon_live :: "mon_run \<Rightarrow> tid set \<Rightarrow> bool" where
  "mon_live p T \<longleftrightarrow> mon_valid p T \<and> run_max_readers p \<noteq> 0 \<and> run_max_writers p \<noteq> 0"

interpretation mon_live: sync_object mon_live mon_run_obj True mon_run_start Outside
  "\<lambda>p T m g f. mon_run_inv p T m g (\<lambda>x. pending (f x)) \<and> mon_gate T m f"
proof (unfold_locales, goal_cases)
  case (1 p T)
  then show ?case
    using mon.m_initially [of p T] by (simp add: mon_live_def mon_gate_def own_cv_def awake_def)
next
  case (2 p T m g f t op)
  then have v: "mon_valid p T" "thread_ids T" "run_max_readers p \<noteq> 0" "run_max_writers p \<noteq> 0"
    and kinds: "\<forall>u\<in>T. run_kind p u = THREAD_READER \<or> run_kind p u = THREAD_WRITER"
    by (auto simp: mon_live_def mon_valid_def)
  have "keeps_monitor (mon_run_obj p) (mon_run_inv p T) t g (\<lambda>x. pending (f x)) (enter (mon_run_obj p) t op m)"
    using 2 v(1) by (intro mon.m_call) auto
  moreover have "keeps (mon_run_obj p) (\<lambda>m g. mon_gate T m) t g f (enter (mon_run_obj p) t op m)"
    unfolding mon_run_obj_def mon_obj_simps
    by (rule monitor_sections_gate(1) [OF _ _ v(2) _ v(3,4) kinds])
      (use 2 in \<open>auto simp: mon_run_inv_def mon_run_obj_def\<close>)
  ultimately show ?case by (intro keeps_conj keeps_of_monitor)
next
  case (3 p T m g f t k)
  then have v: "mon_valid p T" "thread_ids T" "run_max_readers p \<noteq> 0" "run_max_writers p \<noteq> 0"
    and kinds: "\<forall>u\<in>T. run_kind p u = THREAD_READER \<or> run_kind p u = THREAD_WRITER"
    by (auto simp: mon_live_def mon_valid_def)
  have "keeps_monitor (mon_run_obj p) (mon_run_inv p T) t g (\<lambda>x. pending (f x)) (resume (mon_run_obj p) t k m)"
    using 3 v(1) by (intro mon.m_resume) auto
  moreover have "keeps (mon_run_obj p) (\<lambda>m g. mon_gate T m) t g f (resume (mon_run_obj p) t k m)"
    unfolding mon_run_obj_def mon_obj_simps
    by (rule monitor_sections_gate(2) [OF _ _ v(2) _ v(3,4) kinds])
      (use 3 in \<open>auto simp: mon_run_inv_def mon_run_obj_def mon_wait_eq\<close>)
  ultimately show ?case by (intro keeps_conj keeps_of_monitor)
next
  case (4 p T m g f t)
  then have "(\<lambda>x. pending ((f(t := wake (f t))) x)) = (\<lambda>x. pending (f x))" by auto
  moreover have "is_woken ((f(t := wake (f t))) t)" using 4 by (simp add: is_woken_wake)
  then have "awake (f(t := wake (f t)))" unfolding awake_def by blast
  moreover have "own_cv T (f(t := wake (f t)))"
    using 4 by (cases "f t") (auto simp: mon_gate_def own_cv_def)
  ultimately show ?case using 4 by (simp add: mon_gate_def)
qed

section \<open>Properties\<close>



text \<open>C16. Without strict alternation, with positive limits, and in executions of readers and writers in which
  nobody shuts the monitor down, the monitor loses no wake-up as long as it has not been freed: whenever the
  resource is available while a thread is blocked in its request, some thread has been woken and is granted
  access when it runs next. (With strict alternation it does, \<open>monitor_strict_alternation_deadlock\<close>; after the
  code has freed the monitor nobody is woken or let in any more.)\<close>

theorem monitor_no_lost_wakeup:
  assumes "thread_ids T" "\<forall>t\<in>T. kind t = THREAD_READER \<or> kind t = THREAD_WRITER" "mr \<noteq> 0" "mw \<noteq> 0"
    and run: "reach (mon_obj False kind (monitor_wq_comp_fn cb)) sp T (mon_fresh mr mw cb) Outside c"
    and "\<not> mon_freed (shared c)" "mon_resource_status (shared c) = MON_RES_AVAILABLE"
    and "is_blocked (status c t)"
  shows "\<exists>u\<in>T. status c u = Woken Mon_wait \<and> (\<exists>m. mon_resume kind (monitor_wq_comp_fn cb) u Mon_wait
    (shared c) = Unlocked m Mon_granted [])"
proof -
  let ?p = "\<lparr>run_kind = kind, run_cmp = cb, run_max_readers = mr, run_max_writers = mw\<rparr>"
  let ?m = "shared c"
  have v: "mon_live ?p T" using assms(1-4) by (simp add: mon_live_def mon_valid_def)
  have "reach (mon_run_obj ?p) True T (mon_run_start ?p) Outside c"
    using run reach_mono [of "mon_run_obj ?p" T "mon_run_start ?p" Outside c True]
    by (cases sp) (auto simp: mon_run_obj_def mon_run_start_def)
  from mon_live.reachable_inv [OF v this]
  have inv: "mon_inv kind mr mw False T ?m (ghost c) (\<lambda>x. pending (status c x))"
    and gate: "own_cv T (status c)" "awake (status c)"
    using assms(6,7) by (auto simp: mon_run_inv_def mon_gate_def)
  then obtain u where u: "is_woken (status c u)" using assms(8) by (auto simp: awake_def)
  then have uT: "u \<in> T" using gate(1) by (metis is_woken.simps(2) own_cv_def)
  have k: "kind u = THREAD_READER \<or> kind u = THREAD_WRITER" using assms(2) uT by blast
  let ?w = "mon_put_wq (kind u) (wq_unblock u (mon_wq (kind u) ?m)) ?m"
  have "mon_counts (of_kind kind THREAD_READER T) (of_kind kind THREAD_WRITER T) mr mw ?m (ghost c)"
    "\<not> mon_strict_alternation ?m" using inv assms(6) by (auto simp: mon_inv_def)
  then have "mon_counts (of_kind kind THREAD_READER T) (of_kind kind THREAD_WRITER T) mr mw ?w (ghost c)"
    "\<not> mon_strict_alternation ?w" "mon_resource_status ?w = MON_RES_AVAILABLE"
    using assms(7) by (simp_all add: mon_counts_def mon_put_wq_def)
  from available_when_idle [OF this(1,3,2) assms(3,4)]
  have "monitor_is_resource_available (kind u) ?w" .
  moreover obtain m where "monitor_grant (kind u) u ?w = Unlocked m Mon_granted []"
    using monitor_grant_state [OF k, of u ?w] by auto
  ultimately have "\<exists>m. mon_resume kind (monitor_wq_comp_fn cb) u Mon_wait ?m = Unlocked m Mon_granted []"
    using assms(6) by (simp add: mon_resume_def unless_freed_def monitor_request_resume_def
        wait_queue_resume_def wq_test_loop_def monitor_is_resource_not_available_def)
  moreover have "status c u = Woken Mon_wait" using u mon_wait_eq by (cases "status c u") auto
  ultimately show ?thesis using uT by blast
qed

theorem monitor_no_lost_wakeup_witness:
  "\<exists>c. execute (mon_obj False (\<lambda>t. THREAD_WRITER) (monitor_wq_comp_fn None)) False [1, 2, 3]
         [Call 1 Mon_admission [], Call 1 Mon_request [], Call 2 Mon_admission [], Call 2 Mon_request [],
          Call 3 Mon_admission [], Call 3 Mon_request [], Call 1 Mon_release [2]]
         (start (mon_fresh 2 1 None) Outside) = Some c \<and>
       is_blocked (status c 3) \<and> (\<exists>u\<in>{1, 2, 3}. status c u = Woken Mon_wait)"
proof -
  let ?run = "execute (mon_obj False (\<lambda>t. THREAD_WRITER) (monitor_wq_comp_fn None)) False [1, 2, 3]
    [Call 1 Mon_admission [], Call 1 Mon_request [], Call 2 Mon_admission [], Call 2 Mon_request [],
     Call 3 Mon_admission [], Call 3 Mon_request [], Call 1 Mon_release [2]]
    (start (mon_fresh 2 1 None) Outside)"
  obtain c where c: "?run = Some c" "\<not> mon_freed (shared c)" "is_blocked (status c 3)"
      "mon_resource_status (shared c) = MON_RES_AVAILABLE"
    by (simp add: mon_run_simps Let_def)
  have "thread_ids {1, 2, 3}" by (simp add: thread_ids_def)
  from monitor_no_lost_wakeup [OF this, of "\<lambda>t. THREAD_WRITER" 2 1 None False c 3] execute_reach [OF c(1)] c
  show ?thesis by auto
qed

text \<open>Strict alternation can deadlock: with two readers, one writer and both limits 1, a run
  without spurious wake-ups ends with the resource available, every thread blocked in its request,
  and the writer among them although the alternation would admit it. The release of a reader signals
  only the other reader, whose turn it is not.\<close>

theorem monitor_strict_alternation_deadlock:
  "\<exists>m c. monitor_set_strict_alternation_behavior (mon_fresh 1 1 None) = Some m \<and>
     reach (mon_obj False (\<lambda>t. if t = 3 then THREAD_WRITER else THREAD_READER) (monitor_wq_comp_fn None))
       False {1, 2, 3} m Outside c \<and>
     mon_resource_status (shared c) = MON_RES_AVAILABLE \<and>
     monitor_is_resource_available THREAD_WRITER (shared c) \<and>
     is_blocked (status c 1) \<and> is_blocked (status c 2) \<and> is_blocked (status c 3)"
proof -
  let ?kind = "\<lambda>t::tid. if t = 3 then THREAD_WRITER else THREAD_READER"
  define m where "m = (mon_fresh 1 1 None)\<lparr>mon_strict_alternation := True\<rparr>"
  have m: "monitor_set_strict_alternation_behavior (mon_fresh 1 1 None) = Some m"
    by (simp add: m_def monitor_set_strict_alternation_behavior_def mon_run_simps Let_def)
  let ?run = "execute (mon_obj False ?kind (monitor_wq_comp_fn None)) False [1, 2, 3]
    [Call 1 Mon_admission [], Call 1 Mon_request [], Call 2 Mon_admission [], Call 2 Mon_request [],
     Call 3 Mon_admission [], Call 3 Mon_request [], Call 1 Mon_release [2], Call 1 Mon_free_check [],
     Continue 2 [], Call 1 Mon_admission [], Call 1 Mon_request []] (start m Outside)"
  obtain c where "?run = Some c" "mon_resource_status (shared c) = MON_RES_AVAILABLE"
      "monitor_is_resource_available THREAD_WRITER (shared c)"
      "is_blocked (status c 1)" "is_blocked (status c 2)" "is_blocked (status c 3)"
    by (simp add: m_def mon_run_simps Let_def)
  with m execute_reach show ?thesis by fastforce
qed

text \<open>The shut-down breaks the exclusion: \<^verbatim>\<open>monitor_request_access_permission\<close> returns to a
  rejected caller as to a granted one, so after \<^verbatim>\<open>monitor_shut_down\<close> two writers are in a
  resource limited to one, and the release by the rejected one marks the resource available while the
  other is still inside.\<close>

theorem monitor_shutdown_breaks_exclusion:
  "\<exists>c. reach (mon_obj True (\<lambda>_. THREAD_WRITER) (monitor_wq_comp_fn None)) False {1, 2, 3}
      (mon_fresh 5 1 None) Outside c \<and>
    ghost c 1 = In_cs \<and> ghost c 2 = In_cs \<and> mon_n_writers_max_limit (shared c) = 1 \<and>
    (\<exists>m. mon_enter (\<lambda>_. THREAD_WRITER) (monitor_wq_comp_fn None) 2 Mon_release (shared c) =
       Unlocked m Mon_released [] \<and> mon_resource_status m = MON_RES_AVAILABLE)"
proof -
  let ?run = "execute (mon_obj True (\<lambda>_. THREAD_WRITER) (monitor_wq_comp_fn None)) False [1, 2, 3]
    [Call 1 Mon_admission [], Call 1 Mon_request [], Call 3 Mon_shut_down [], Call 2 Mon_admission []]
    (start (mon_fresh 5 1 None) Outside)"
  obtain c where "?run = Some c" "ghost c 1 = In_cs" "ghost c 2 = In_cs"
      "mon_n_writers_max_limit (shared c) = 1"
      "\<exists>m. mon_enter (\<lambda>_. THREAD_WRITER) (monitor_wq_comp_fn None) 2 Mon_release (shared c) =
       Unlocked m Mon_released [] \<and> mon_resource_status m = MON_RES_AVAILABLE"
    by (simp add: mon_run_simps Let_def)
  with execute_reach show ?thesis by fastforce
qed

text \<open>Any monitor is freed by the first thread that leaves it idle, although nobody has shut it
  down, and the next request touches freed memory.\<close>

theorem monitor_freed_without_shutdown:
  "\<exists>c. reach (mon_obj False (\<lambda>_. THREAD_READER) (monitor_wq_comp_fn None)) False {1}
        (mon_fresh 5 1 None) Outside c \<and>
     mon_freed (shared c) \<and> \<not> mon_shutdown (shared c) \<and> ghost c 1 = Lost"
proof -
  let ?run = "execute (mon_obj False (\<lambda>_. THREAD_READER) (monitor_wq_comp_fn None)) False [1]
    [Call 1 Mon_admission [], Call 1 Mon_request [], Call 1 Mon_release [], Call 1 Mon_free_check [],
     Call 1 Mon_admission []] (start (mon_fresh 5 1 None) Outside)"
  obtain c where "?run = Some c" "mon_freed (shared c)" "\<not> mon_shutdown (shared c)" "ghost c 1 = Lost"
    by (simp add: mon_run_simps Let_def)
  then show ?thesis using execute_reach by fastforce
qed

end
