(* ===== verification/ThreadPool.thy ===== *)
theory ThreadPool
  imports Glthread Thread
begin

text \<open>
  The thread pool of \<^verbatim>\<open>ThreadSyncAdv/threadlib/threadlib.c\<close>: callers take a parked thread
  from the pool, hand it a task and wake it, optionally waiting on a semaphore until it has parked
  itself again. A caller works on the thread it took without a lock, so the machine below lets every
  unlocked stretch of \<^verbatim>\<open>thread_pool_thread_stage1_fn\<close> interleave with all other threads.
\<close>

section \<open>The code\<close>

text \<open>The address of the function of a pool thread, some address that is not NULL.\<close>

definition thread_fn_execute_stage2_and_stage3 :: addr where
  "thread_fn_execute_stage2_and_stage3 = 1"

record thread_pool =
  pool_head :: "tid list"
  pool_comp_fn :: "tid \<Rightarrow> tid \<Rightarrow> int"

definition thread_pool_init :: "(tid \<Rightarrow> tid \<Rightarrow> int) \<Rightarrow> thread_pool" where
  "thread_pool_init comp_fn = \<lparr>pool_head = [], pool_comp_fn = comp_fn\<rparr>"

text \<open>\<^verbatim>\<open>glthread_priority_insert\<close> on the list of the pool; see theory \<open>Glthread\<close>.\<close>

definition pool_insert :: "tid \<Rightarrow> thread_pool \<Rightarrow> thread_pool" where
  "pool_insert t p = p\<lparr>pool_head := insert_by (pool_comp_fn p) t (pool_head p)\<rparr>"

text \<open>The node of a thread is unlinked exactly when the thread is not in the pool. \<open>None\<close> stands
  for a failed assertion.\<close>

definition thread_pool_insert_new_thread :: "tid \<Rightarrow> thread \<Rightarrow> thread_pool \<Rightarrow> thread_pool option" where
  "thread_pool_insert_new_thread t th p =
     (if t \<in> set (pool_head p) then None
      else if th_thread_fn th \<noteq> 0 then None
      else Some (pool_insert t p))"

definition thread_pool_get_thread :: "thread_pool \<Rightarrow> tid option \<times> thread_pool" where
  "thread_pool_get_thread p =
     (case pool_head p of [] \<Rightarrow> (None, p) | t # ts \<Rightarrow> (Some t, p\<lparr>pool_head := ts\<rparr>))"

text \<open>The descriptor as \<^verbatim>\<open>thread_pool_thread_stage1_fn\<close> prepares it for a task.\<close>

definition thread_pool_thread_stage1_setup :: "addr \<Rightarrow> addr \<Rightarrow> addr \<Rightarrow> thread \<Rightarrow> thread" where
  "thread_pool_thread_stage1_setup sem fn arg th =
     (let th1 = th\<lparr>th_semaphore := sem\<rparr>;
          data = (case th_arg th1 of None \<Rightarrow> \<lparr>thread_stage2_fn = 0, stage2_arg = 0\<rparr> | Some d \<Rightarrow> d)
      in th1\<lparr>th_thread_fn := thread_fn_execute_stage2_and_stage3,
             th_arg := Some (data\<lparr>thread_stage2_fn := fn, stage2_arg := arg\<rparr>)\<rparr>)"

section \<open>The machine\<close>

text \<open>Where a worker is: before \<^verbatim>\<open>pthread_create\<close>, about to run the task (stage 2), about to park
  (stage 3), waiting on its condition variable, or woken from it.\<close>

datatype worker_pc = Not_created | At_stage2 | At_stage3 | Parked | Signalled

text \<open>Where a caller is inside \<^verbatim>\<open>thread_pool_dispatch_thread\<close>. The number of a dispatch among
  those to its thread is a label of the model.\<close>

datatype caller_pc =
    Idle
  | Got tid addr addr bool
  | Prepared tid addr nat
  | Waiting tid addr nat
  | Notified tid addr nat

text \<open>\<open>tp_dispatched\<close> and \<open>tp_executed\<close> record, per thread, the tasks it was handed and those it has
  run; \<open>tp_aborted\<close> that an assertion failed. Semaphores are allocated at fresh addresses.\<close>

record tp_state =
  tp_pool :: thread_pool
  tp_thread :: "tid \<Rightarrow> thread"
  tp_sem :: "addr \<Rightarrow> nat"
  tp_next_sem :: addr
  tp_worker :: "tid \<Rightarrow> worker_pc"
  tp_caller :: "nat \<Rightarrow> caller_pc"
  tp_dispatched :: "tid \<Rightarrow> exec_data list"
  tp_executed :: "tid \<Rightarrow> exec_data list"
  tp_aborted :: bool

definition set_thread :: "tid \<Rightarrow> thread \<Rightarrow> tp_state \<Rightarrow> tp_state" where
  [simp]: "set_thread t th s = s\<lparr>tp_thread := (tp_thread s)(t := th)\<rparr>"

definition set_worker :: "tid \<Rightarrow> worker_pc \<Rightarrow> tp_state \<Rightarrow> tp_state" where
  [simp]: "set_worker t pc s = s\<lparr>tp_worker := (tp_worker s)(t := pc)\<rparr>"

definition set_caller :: "nat \<Rightarrow> caller_pc \<Rightarrow> tp_state \<Rightarrow> tp_state" where
  [simp]: "set_caller c pc s = s\<lparr>tp_caller := (tp_caller s)(c := pc)\<rparr>"

text \<open>\<^verbatim>\<open>pthread_cond_signal\<close> on the variable of a thread has an effect only while it waits.\<close>

definition tp_signal :: "tid \<Rightarrow> tp_state \<Rightarrow> tp_state" where
  "tp_signal t s = (if tp_worker s t = Parked then set_worker t Signalled s else s)"

definition thread_pool_run_thread :: "tid \<Rightarrow> tp_state \<Rightarrow> tp_state option" where
  "thread_pool_run_thread t s =
     (if t \<in> set (pool_head (tp_pool s)) then None
      else if \<not> th_thread_created (tp_thread s t)
      then Some (set_worker t At_stage2
             (set_thread t (run_thread (th_thread_fn (tp_thread s t)) (th_arg (tp_thread s t)) (tp_thread s t)) s))
      else Some (tp_signal t s))"

definition thread_pool_thread_stage3_fn :: "tid \<Rightarrow> tp_state \<Rightarrow> tp_state" where
  "thread_pool_thread_stage3_fn t s =
     (let s1 = s\<lparr>tp_pool := pool_insert t (tp_pool s)\<rparr>;
          sem = th_semaphore (tp_thread s1 t);
          s2 = (if sem \<noteq> 0 then s1\<lparr>tp_sem := (tp_sem s1)(sem := tp_sem s1 sem + 1)\<rparr> else s1)
      in set_worker t Parked s2)"

datatype tp_event =
    Get nat addr addr bool | Prepare nat | Run nat | Sem_wait nat | Finish nat
  | Stage2 tid | Stage3 tid | Resume tid | Wake_spuriously tid

text \<open>One atomic step; \<open>None\<close> when it is not possible. A dispatch to an empty pool returns without a
  thread and leaves everything as it is.\<close>

fun tp_next :: "bool \<Rightarrow> tp_event \<Rightarrow> tp_state \<Rightarrow> tp_state option" where
  "tp_next sp (Get c fn arg block_caller) s =
     (if tp_caller s c \<noteq> Idle then None
      else case thread_pool_get_thread (tp_pool s) of
             (None, p) \<Rightarrow> Some (s\<lparr>tp_pool := p\<rparr>)
           | (Some t, p) \<Rightarrow> Some (set_caller c (Got t fn arg block_caller)
               (s\<lparr>tp_pool := p, tp_dispatched := (tp_dispatched s)
                    (t := tp_dispatched s t @ [\<lparr>thread_stage2_fn = fn, stage2_arg = arg\<rparr>])\<rparr>)))"
| "tp_next sp (Prepare c) s =
     (case tp_caller s c of
        Got t fn arg block_caller \<Rightarrow>
          (let sem = (if block_caller then tp_next_sem s else 0);
               s1 = (if block_caller
                     then s\<lparr>tp_sem := (tp_sem s)(sem := 0), tp_next_sem := tp_next_sem s + 1\<rparr> else s)
           in Some (set_caller c (Prepared t sem (length (tp_dispatched s t) - 1))
                (set_thread t (thread_pool_thread_stage1_setup sem fn arg (tp_thread s t)) s1)))
      | _ \<Rightarrow> None)"
| "tp_next sp (Run c) s =
     (case tp_caller s c of
        Prepared t sem n \<Rightarrow>
          (case thread_pool_run_thread t s of
             None \<Rightarrow> Some (s\<lparr>tp_aborted := True\<rparr>)
           | Some s1 \<Rightarrow> Some (set_caller c (if sem \<noteq> 0 then Waiting t sem n else Idle) s1))
      | _ \<Rightarrow> None)"
| "tp_next sp (Sem_wait c) s =
     (case tp_caller s c of
        Waiting t sem n \<Rightarrow>
          if tp_sem s sem = 0 then None
          else Some (set_caller c (Notified t sem n) (s\<lparr>tp_sem := (tp_sem s)(sem := tp_sem s sem - 1)\<rparr>))
      | _ \<Rightarrow> None)"
| "tp_next sp (Finish c) s =
     (case tp_caller s c of
        Notified t sem n \<Rightarrow>
          Some (set_caller c Idle (set_thread t ((tp_thread s t)\<lparr>th_semaphore := 0\<rparr>) s))
      | _ \<Rightarrow> None)"
| "tp_next sp (Stage2 t) s =
     (if tp_worker s t \<noteq> At_stage2 then None
      else case th_arg (tp_thread s t) of None \<Rightarrow> None
      | Some d \<Rightarrow> Some (set_worker t At_stage3
          (s\<lparr>tp_executed := (tp_executed s)(t := tp_executed s t @ [d])\<rparr>)))"
| "tp_next sp (Stage3 t) s =
     (if tp_worker s t = At_stage3 then Some (thread_pool_thread_stage3_fn t s) else None)"
| "tp_next sp (Resume t) s =
     (if tp_worker s t = Signalled then Some (set_worker t At_stage2 s) else None)"
| "tp_next sp (Wake_spuriously t) s =
     (if sp \<and> tp_worker s t = Parked then Some (set_worker t Signalled s) else None)"

text \<open>A pool with the new threads \<open>ts\<close>, as the applications set it up.\<close>

fun insert_new_threads :: "tid list \<Rightarrow> thread_pool \<Rightarrow> thread_pool option" where
  "insert_new_threads [] p = Some p"
| "insert_new_threads (t # ts) p =
     (case thread_pool_insert_new_thread t (create_thread THREAD_WRITER) p of None \<Rightarrow> None
      | Some p1 \<Rightarrow> insert_new_threads ts p1)"

definition tp_start :: "thread_pool \<Rightarrow> tp_state" where
  "tp_start p = \<lparr>tp_pool = p, tp_thread = (\<lambda>_. create_thread THREAD_WRITER), tp_sem = (\<lambda>_. 0),
     tp_next_sem = 1, tp_worker = (\<lambda>_. Not_created), tp_caller = (\<lambda>_. Idle),
     tp_dispatched = (\<lambda>_. []), tp_executed = (\<lambda>_. []), tp_aborted = False\<rparr>"

inductive tp_reach :: "bool \<Rightarrow> thread_pool \<Rightarrow> tp_state \<Rightarrow> bool" for sp p where
  start: "tp_reach sp p (tp_start p)"
| step: "tp_reach sp p s \<Longrightarrow> tp_next sp e s = Some s' \<Longrightarrow> tp_reach sp p s'"

fun tp_run :: "bool \<Rightarrow> tp_event list \<Rightarrow> tp_state \<Rightarrow> tp_state option" where
  "tp_run sp [] s = Some s"
| "tp_run sp (e # es) s = (case tp_next sp e s of None \<Rightarrow> None | Some s' \<Rightarrow> tp_run sp es s')"

lemma tp_run_reach: "tp_reach sp p s \<Longrightarrow> tp_run sp es s = Some s' \<Longrightarrow> tp_reach sp p s'"
  by (induction es arbitrary: s) (auto split: option.splits intro: tp_reach.step)

section \<open>The invariant\<close>

definition idle :: "worker_pc \<Rightarrow> bool" where
  "idle pc \<longleftrightarrow> pc = Not_created \<or> pc = Parked"

lemma idle_simps [simp]:
  "idle Not_created" "idle Parked" "\<not> idle At_stage2" "\<not> idle At_stage3" "\<not> idle Signalled"
  by (simp_all add: idle_def)

text \<open>The thread that a caller has taken and not yet started, and the ticket (thread, semaphore,
  number of the dispatch) of a caller that blocks.\<close>

fun holds :: "caller_pc \<Rightarrow> tid option" where
  "holds (Got t _ _ _) = Some t"
| "holds (Prepared t _ _) = Some t"
| "holds _ = None"

fun ticket :: "caller_pc \<Rightarrow> (tid \<times> addr \<times> nat) option" where
  "ticket (Prepared t sem n) = (if sem = 0 then None else Some (t, sem, n))"
| "ticket (Waiting t sem n) = Some (t, sem, n)"
| "ticket (Notified t sem n) = Some (t, sem, n)"
| "ticket _ = None"

text \<open>A thread is in one place: in the pool and idle, with one caller and idle, or busy.\<close>

definition places_ok :: "tid set \<Rightarrow> tp_state \<Rightarrow> bool" where
  "places_ok T s \<longleftrightarrow> distinct (pool_head (tp_pool s)) \<and>
     (\<forall>t. t \<in> set (pool_head (tp_pool s)) \<longrightarrow> idle (tp_worker s t) \<and> (\<forall>c. holds (tp_caller s c) \<noteq> Some t)) \<and>
     (\<forall>c t. holds (tp_caller s c) = Some t \<longrightarrow> idle (tp_worker s t)) \<and>
     (\<forall>c c' t. holds (tp_caller s c) = Some t \<longrightarrow> holds (tp_caller s c') = Some t \<longrightarrow> c = c') \<and>
     (\<forall>t. th_thread_created (tp_thread s t) \<longleftrightarrow> tp_worker s t \<noteq> Not_created) \<and>
     (\<forall>t\<in>T. t \<in> set (pool_head (tp_pool s)) \<or> (\<exists>c. holds (tp_caller s c) = Some t) \<or> \<not> idle (tp_worker s t)) \<and>
     \<not> tp_aborted s"

text \<open>The tasks a thread has been handed are those it has run and at most one more, which its
  caller or the thread itself has.\<close>

definition task_of :: "addr \<Rightarrow> addr \<Rightarrow> exec_data" where
  "task_of fn arg = \<lparr>thread_stage2_fn = fn, stage2_arg = arg\<rparr>"

definition tasks_ok :: "tp_state \<Rightarrow> bool" where
  "tasks_ok s \<longleftrightarrow>
     (\<forall>c t fn arg b. tp_caller s c = Got t fn arg b \<longrightarrow>
        tp_dispatched s t = tp_executed s t @ [task_of fn arg]) \<and>
     (\<forall>c t sem n. tp_caller s c = Prepared t sem n \<longrightarrow>
        (\<exists>d. th_arg (tp_thread s t) = Some d \<and> tp_dispatched s t = tp_executed s t @ [d])) \<and>
     (\<forall>t. tp_worker s t = At_stage2 \<or> tp_worker s t = Signalled \<longrightarrow>
        (\<exists>d. th_arg (tp_thread s t) = Some d \<and> tp_dispatched s t = tp_executed s t @ [d])) \<and>
     (\<forall>t. tp_worker s t = At_stage3 \<longrightarrow> tp_dispatched s t = tp_executed s t) \<and>
     (\<forall>t. idle (tp_worker s t) \<longrightarrow> (\<forall>c. holds (tp_caller s c) \<noteq> Some t) \<longrightarrow>
        tp_dispatched s t = tp_executed s t)"

text \<open>A semaphore is posted only by the thread of its ticket, and only after the task has run.\<close>

definition tickets_ok :: "tp_state \<Rightarrow> bool" where
  "tickets_ok s \<longleftrightarrow> 0 < tp_next_sem s \<and>
     (\<forall>u. th_semaphore (tp_thread s u) < tp_next_sem s) \<and>
     (\<forall>c t sem n. ticket (tp_caller s c) = Some (t, sem, n) \<longrightarrow>
        0 < sem \<and> sem < tp_next_sem s \<and> n < length (tp_dispatched s t) \<and>
        (\<forall>u. th_semaphore (tp_thread s u) = sem \<longrightarrow> u = t) \<and>
        (tp_sem s sem \<noteq> 0 \<or> tp_caller s c = Notified t sem n \<longrightarrow> n < length (tp_executed s t)))"

lemma insert_by_set [simp]: "set (insert_by cmp x xs) = insert x (set xs)"
  by (auto simp: insert_by_def dest: set_takeWhileD set_dropWhileD)
    (metis Un_iff set_append takeWhile_dropWhile_id)

lemma insert_by_distinct: "x \<notin> set xs \<Longrightarrow> distinct xs \<Longrightarrow> distinct (insert_by cmp x xs)"
proof -
  assume x: "x \<notin> set xs" "distinct xs"
  let ?P = "\<lambda>y. cmp x y \<noteq> - 1"
  have "distinct (takeWhile ?P xs @ dropWhile ?P xs)" using x(2) by simp
  then have "set (takeWhile ?P xs) \<inter> set (dropWhile ?P xs) = {}" by (simp only: distinct_append)
  then show ?thesis using x
    by (auto simp: insert_by_def dest: set_takeWhileD set_dropWhileD)
qed

lemmas tp_code = thread_pool_get_thread_def thread_pool_run_thread_def tp_signal_def
  thread_pool_thread_stage1_setup_def thread_pool_thread_stage3_fn_def pool_insert_def run_thread_def Let_def

text \<open>What starting a prepared thread does in a state whose threads are in their places.\<close>

lemma get_step:
  assumes "tp_next sp (Get c fn arg b) s = Some s'"
  shows "tp_caller s c = Idle" "holds (tp_caller s c) = None" "ticket (tp_caller s c) = None"
    "pool_head (tp_pool s) = [] \<and> s' = s \<or> (\<exists>t ts. pool_head (tp_pool s) = t # ts \<and>
      s' = set_caller c (Got t fn arg b) (s\<lparr>tp_pool := (tp_pool s)\<lparr>pool_head := ts\<rparr>,
        tp_dispatched := (tp_dispatched s)(t := tp_dispatched s t @ [task_of fn arg])\<rparr>))"
  using assms by (auto simp: thread_pool_get_thread_def task_of_def split: if_splits list.splits)

lemma task_of_update [simp]: "d\<lparr>thread_stage2_fn := fn, stage2_arg := arg\<rparr> = task_of fn arg"
  by (cases d) (simp add: task_of_def)

lemma prepare_step:
  assumes "tp_next sp (Prepare c) s = Some s'"
  obtains t fn arg b where "tp_caller s c = Got t fn arg b"
    "s' = set_caller c (Prepared t (if b then tp_next_sem s else 0) (length (tp_dispatched s t) - 1))
      (set_thread t ((tp_thread s t)\<lparr>th_semaphore := if b then tp_next_sem s else 0,
         th_thread_fn := thread_fn_execute_stage2_and_stage3, th_arg := Some (task_of fn arg)\<rparr>)
        (if b then s\<lparr>tp_sem := (tp_sem s)(tp_next_sem s := 0), tp_next_sem := tp_next_sem s + 1\<rparr> else s))"
  using assms
  by (cases "tp_caller s c") (auto simp: Let_def thread_pool_thread_stage1_setup_def
      split: option.splits cong: if_cong)

lemma run_step:
  assumes "places_ok T s" "tp_next sp (Run c) s = Some s'"
  obtains t sem n pc th where "tp_caller s c = Prepared t sem n" "t \<notin> set (pool_head (tp_pool s))"
    "idle (tp_worker s t)" "pc = At_stage2 \<or> pc = Signalled \<and> tp_worker s t \<noteq> Not_created"
    "th = (tp_thread s t)\<lparr>th_thread_created := True\<rparr>"
    "s' = set_caller c (if sem \<noteq> 0 then Waiting t sem n else Idle) (set_worker t pc (set_thread t th s))"
proof -
  obtain t sem n where pre: "tp_caller s c = Prepared t sem n"
    using assms(2) by (cases "tp_caller s c") auto
  then have "holds (tp_caller s c) = Some t" by simp
  then have t: "t \<notin> set (pool_head (tp_pool s))" "idle (tp_worker s t)"
    "th_thread_created (tp_thread s t) \<longleftrightarrow> tp_worker s t \<noteq> Not_created"
    using assms(1) by (auto simp: places_ok_def)
  let ?th = "(tp_thread s t)\<lparr>th_thread_created := True\<rparr>"
  show thesis
  proof (cases "tp_worker s t = Not_created")
    case True
    then show ?thesis using that [of t sem n At_stage2 ?th] pre t assms(2)
      by (simp add: thread_pool_run_thread_def run_thread_def)
  next
    case False
    then have "tp_worker s t = Parked" using t(2) by (simp add: idle_def)
    moreover have "?th = tp_thread s t" using False t(3) by simp
    then have "set_thread t ?th s = s" by (simp only: set_thread_def fun_upd_triv) simp
    ultimately show ?thesis using that [of t sem n Signalled ?th] pre t assms(2) False
      by (simp only:) (simp add: thread_pool_run_thread_def tp_signal_def)
  qed
qed

text \<open>Callers that hold threads hold different ones, and none in the pool or at work.\<close>

lemma places_held:
  assumes "places_ok T s" "holds (tp_caller s c) = Some t"
  shows "idle (tp_worker s t)" "t \<notin> set (pool_head (tp_pool s))"
    "tp_caller s c' = Got u fn arg b \<Longrightarrow> c' \<noteq> c \<Longrightarrow> u \<noteq> t"
    "tp_caller s c' = Prepared u sem n \<Longrightarrow> c' \<noteq> c \<Longrightarrow> u \<noteq> t"
proof -
  show "idle (tp_worker s t)" "t \<notin> set (pool_head (tp_pool s))"
    using assms unfolding places_ok_def by blast+
  have "holds (tp_caller s c') = Some u \<Longrightarrow> c' \<noteq> c \<Longrightarrow> u \<noteq> t" for c' u
    using assms unfolding places_ok_def by blast
  from this [of c' u] show "tp_caller s c' = Got u fn arg b \<Longrightarrow> c' \<noteq> c \<Longrightarrow> u \<noteq> t"
    "tp_caller s c' = Prepared u sem n \<Longrightarrow> c' \<noteq> c \<Longrightarrow> u \<noteq> t" by auto
qed

lemma places_not_held:
  assumes "places_ok T s" "\<not> idle (tp_worker s t) \<or> t \<in> set (pool_head (tp_pool s))"
  shows "holds (tp_caller s c) \<noteq> Some t" "tp_caller s c \<noteq> Got t fn arg b" "tp_caller s c \<noteq> Prepared t sem n"
proof -
  show h: "holds (tp_caller s c) \<noteq> Some t" using assms unfolding places_ok_def by blast
  then show "tp_caller s c \<noteq> Got t fn arg b" "tp_caller s c \<noteq> Prepared t sem n" by auto
qed

lemma places_same:
  assumes "places_ok T s" "tp_pool s' = tp_pool s" "tp_worker s' = tp_worker s"
    "\<And>c. holds (tp_caller s' c) = holds (tp_caller s c)"
    "\<And>t. th_thread_created (tp_thread s' t) = th_thread_created (tp_thread s t)"
    "tp_aborted s' = tp_aborted s"
  shows "places_ok T s'"
  using assms by (simp add: places_ok_def)

lemma places_okD:
  assumes "places_ok T s"
  shows "distinct (pool_head (tp_pool s))"
    "t \<in> set (pool_head (tp_pool s)) \<Longrightarrow> idle (tp_worker s t)"
    "holds (tp_caller s c) = Some t \<Longrightarrow> holds (tp_caller s c') = Some t \<Longrightarrow> c = c'"
    "th_thread_created (tp_thread s t) \<longleftrightarrow> tp_worker s t \<noteq> Not_created"
    "t \<in> T \<Longrightarrow> t \<notin> set (pool_head (tp_pool s)) \<Longrightarrow> idle (tp_worker s t) \<Longrightarrow>
      \<exists>c. holds (tp_caller s c) = Some t"
    "\<not> tp_aborted s"
  using assms unfolding places_ok_def by blast+

lemma places_okI:
  assumes "distinct (pool_head (tp_pool s))"
    "\<And>t. t \<in> set (pool_head (tp_pool s)) \<Longrightarrow> idle (tp_worker s t)"
    "\<And>t c. t \<in> set (pool_head (tp_pool s)) \<Longrightarrow> holds (tp_caller s c) \<noteq> Some t"
    "\<And>c t. holds (tp_caller s c) = Some t \<Longrightarrow> idle (tp_worker s t)"
    "\<And>c c' t. holds (tp_caller s c) = Some t \<Longrightarrow> holds (tp_caller s c') = Some t \<Longrightarrow> c = c'"
    "\<And>t. th_thread_created (tp_thread s t) \<longleftrightarrow> tp_worker s t \<noteq> Not_created"
    "\<And>t. t \<in> T \<Longrightarrow> t \<notin> set (pool_head (tp_pool s)) \<Longrightarrow> idle (tp_worker s t) \<Longrightarrow>
      \<exists>c. holds (tp_caller s c) = Some t"
    "\<not> tp_aborted s"
  shows "places_ok T s"
  using assms unfolding places_ok_def by blast

text \<open>A step of a worker moves no caller.\<close>

lemma places_worker:
  assumes "places_ok T s" "\<not> idle (tp_worker s t)"
    and pool: "pool_head (tp_pool s') = (if pc = Parked then insert_by cmp t (pool_head (tp_pool s))
      else pool_head (tp_pool s))" "pc \<noteq> Not_created"
    and same: "tp_worker s' = (tp_worker s)(t := pc)" "tp_caller s' = tp_caller s" "tp_thread s' = tp_thread s"
      "tp_aborted s' = tp_aborted s"
  shows "places_ok T s'"
proof -
  note free = places_not_held [OF assms(1) disjI1 [OF assms(2)]]
  note D = places_okD [OF assms(1)]
  have t: "t \<notin> set (pool_head (tp_pool s))" using assms(2) D(2) by blast
  have idle: "idle pc \<longleftrightarrow> pc = Parked" using pool(2) by (simp add: idle_def)
  show ?thesis
  proof (rule places_okI, goal_cases)
    case 1 show ?case using pool D(1) t by (simp add: insert_by_distinct)
  next
    case (2 u) then show ?case using pool D(2) t by (auto simp: same split: if_splits)
  next
    case (3 u c) then show ?case using pool free places_not_held(1) [OF assms(1), of u]
      by (auto simp: same split: if_splits)
  next
    case (4 c u) then show ?case using free(1) places_held(1) [OF assms(1)] by (auto simp: same)
  next
    case (6 u) then show ?case using D(4) [of u] assms(2) pool(2) by (auto simp: same)
  next
    case (7 u) then show ?case using D(5) [of u] pool idle by (auto simp: same split: if_splits)
  qed (use D(3,6) in \<open>simp_all add: same\<close>)
qed

lemma places_step:
  assumes "places_ok T s" "tp_next False e s = Some s'"
  shows "places_ok T s'"
proof (cases e)
  case (Get c fn arg b)
  note g = get_step [OF assms(2) [unfolded Get]]
  from g(4) show ?thesis
  proof (elim disjE exE conjE)
    fix t ts assume t: "pool_head (tp_pool s) = t # ts"
      and s': "s' = set_caller c (Got t fn arg b) (s\<lparr>tp_pool := (tp_pool s)\<lparr>pool_head := ts\<rparr>,
        tp_dispatched := (tp_dispatched s)(t := tp_dispatched s t @ [task_of fn arg])\<rparr>)"
    have same: "pool_head (tp_pool s') = ts" "tp_worker s' = tp_worker s" "tp_thread s' = tp_thread s"
      "tp_aborted s' = tp_aborted s"
      and hs: "holds (tp_caller s' c') = (if c' = c then Some t else holds (tp_caller s c'))" for c'
      by (simp_all add: s')
    note D = places_okD [OF assms(1)]
    note free = places_not_held(1) [OF assms(1) disjI2]
    have in_pool: "u \<in> set (pool_head (tp_pool s)) \<longleftrightarrow> u = t \<or> u \<in> set ts" for u using t by auto
    show ?thesis
    proof (rule places_okI, goal_cases)
      case 1 show ?case using D(1) t by (simp add: same)
    next
      case (2 u) then show ?case using D(2) [of u] by (simp add: same in_pool)
    next
      case (3 u c')
      then show ?case using D(1) t free [of u c'] by (auto simp: same hs in_pool split: if_splits)
    next
      case (4 c' u)
      then show ?case using D(2) [of t] places_held(1) [OF assms(1), of c' u]
        by (auto simp: same hs in_pool split: if_splits)
    next
      case (5 c1 c2 u)
      then show ?case using D(3) [of c1 u c2] free [of t c1] free [of t c2]
        by (auto simp: hs in_pool split: if_splits)
    next
      case (7 u)
      then show ?case
        using D(5) [of u] g(2) t by (cases "u = t") (auto simp: same hs, metis option.distinct(1))
    qed (simp_all add: same D(4,6))
  qed (use assms(1) in simp)
next
  case (Prepare c)
  from assms(2) [unfolded Prepare] show ?thesis
  proof (rule prepare_step, goal_cases)
    case (1 t fn arg b)
    show ?case using 1 by (intro places_same [OF assms(1)]) auto
  qed
next
  case (Run c)
  from assms(2) [unfolded Run] show ?thesis
  proof (rule run_step [OF assms(1)], goal_cases)
    case (1 t sem n pc th)
    have h: "holds (tp_caller s c) = Some t" using 1(1) by simp
    note held = places_held [OF assms(1) h]
    note D = places_okD [OF assms(1)]
    have same: "tp_pool s' = tp_pool s" "tp_worker s' = (tp_worker s)(t := pc)"
      "tp_thread s' = (tp_thread s)(t := (tp_thread s t)\<lparr>th_thread_created := True\<rparr>)"
      "tp_aborted s' = tp_aborted s"
      and hs: "holds (tp_caller s' c') = (if c' = c then None else holds (tp_caller s c'))"
      and pc: "\<not> idle pc" for c'
      using 1 by auto
    show ?case
    proof (rule places_okI, goal_cases)
      case (4 c' u) then show ?case
        using places_held(1) [OF assms(1)] D(3) [OF h, of c'] by (auto simp: same hs split: if_splits)
    next
      case (7 u) then show ?case
        using D(5) [of u] h pc by (auto simp: same hs split: if_splits) (metis option.inject)
    qed (use D held(2) pc places_not_held(1) [OF assms(1) disjI2] in \<open>auto simp: same hs split: if_splits\<close>)
  qed
next
  case (Sem_wait c)
  show ?thesis using assms(2) Sem_wait
    by (intro places_same [OF assms(1)]) (auto split: caller_pc.splits if_splits)
next
  case (Finish c)
  show ?thesis using assms(2) Finish
    by (intro places_same [OF assms(1)]) (auto split: caller_pc.splits if_splits)
next
  case (Stage2 t)
  then show ?thesis using assms(2)
    by (intro places_worker [OF assms(1), where t = t and pc = At_stage3]) (auto split: option.splits if_splits)
next
  case (Stage3 t)
  then show ?thesis using assms(2)
    by (intro places_worker [OF assms(1), where t = t and pc = Parked and cmp = "pool_comp_fn (tp_pool s)"])
      (auto simp: tp_code split: if_splits)
next
  case (Resume t)
  then show ?thesis using assms(2)
    by (intro places_worker [OF assms(1), where t = t and pc = At_stage2]) (auto split: if_splits)
next
  case (Wake_spuriously t)
  then show ?thesis using assms by simp
qed

lemma tasks_okD:
  assumes "tasks_ok s"
  shows "tp_caller s c = Got t fn arg b \<Longrightarrow> tp_dispatched s t = tp_executed s t @ [task_of fn arg]"
    "tp_caller s c = Prepared t sem n \<Longrightarrow>
      \<exists>d. th_arg (tp_thread s t) = Some d \<and> tp_dispatched s t = tp_executed s t @ [d]"
    "tp_worker s t = At_stage2 \<or> tp_worker s t = Signalled \<Longrightarrow>
      \<exists>d. th_arg (tp_thread s t) = Some d \<and> tp_dispatched s t = tp_executed s t @ [d]"
    "tp_worker s t = At_stage3 \<Longrightarrow> tp_dispatched s t = tp_executed s t"
    "idle (tp_worker s t) \<Longrightarrow> (\<And>c. holds (tp_caller s c) \<noteq> Some t) \<Longrightarrow>
      tp_dispatched s t = tp_executed s t"
  using assms unfolding tasks_ok_def by blast+

lemma tasks_okI:
  assumes "\<And>c t fn arg b. tp_caller s c = Got t fn arg b \<Longrightarrow>
      tp_dispatched s t = tp_executed s t @ [task_of fn arg]"
    "\<And>c t sem n. tp_caller s c = Prepared t sem n \<Longrightarrow>
      \<exists>d. th_arg (tp_thread s t) = Some d \<and> tp_dispatched s t = tp_executed s t @ [d]"
    "\<And>t. tp_worker s t = At_stage2 \<or> tp_worker s t = Signalled \<Longrightarrow>
      \<exists>d. th_arg (tp_thread s t) = Some d \<and> tp_dispatched s t = tp_executed s t @ [d]"
    "\<And>t. tp_worker s t = At_stage3 \<Longrightarrow> tp_dispatched s t = tp_executed s t"
    "\<And>t. idle (tp_worker s t) \<Longrightarrow> (\<And>c. holds (tp_caller s c) \<noteq> Some t) \<Longrightarrow>
      tp_dispatched s t = tp_executed s t"
  shows "tasks_ok s"
  using assms unfolding tasks_ok_def by blast

lemma tasks_same:
  assumes "tasks_ok s" "tp_worker s' = tp_worker s" "tp_dispatched s' = tp_dispatched s"
    "tp_executed s' = tp_executed s" "\<And>t. th_arg (tp_thread s' t) = th_arg (tp_thread s t)"
    "\<And>c. holds (tp_caller s' c) = holds (tp_caller s c)"
    "\<And>c t fn arg b. tp_caller s' c = Got t fn arg b \<Longrightarrow> tp_caller s c = Got t fn arg b"
    "\<And>c t sem n. tp_caller s' c = Prepared t sem n \<Longrightarrow> tp_caller s c = Prepared t sem n"
  shows "tasks_ok s'"
  using tasks_okD [OF assms(1)] by (intro tasks_okI) (auto simp: assms(2-6) dest: assms(7,8))

lemma tasks_step:
  assumes "places_ok T s" "tasks_ok s" "tp_next False e s = Some s'"
  shows "tasks_ok s'"
proof (cases e)
  case (Get c fn arg b)
  note g = get_step [OF assms(3) [unfolded Get]]
  from g(4) show ?thesis
  proof (elim disjE exE conjE)
    fix t ts assume t: "pool_head (tp_pool s) = t # ts"
      and s': "s' = set_caller c (Got t fn arg b) (s\<lparr>tp_pool := (tp_pool s)\<lparr>pool_head := ts\<rparr>,
        tp_dispatched := (tp_dispatched s)(t := tp_dispatched s t @ [task_of fn arg])\<rparr>)"
    then have t: "t \<in> set (pool_head (tp_pool s))" by simp
    then have idle: "idle (tp_worker s t)" using assms(1) unfolding places_ok_def by blast
    note free = places_not_held [OF assms(1) disjI2 [OF t]]
    have eq: "tp_dispatched s t = tp_executed s t" by (rule tasks_okD(5) [OF assms(2) idle free(1)])
    have other: "holds (tp_caller s' c') \<noteq> Some u \<Longrightarrow> holds (tp_caller s c') \<noteq> Some u" for c' u
      using g(2) unfolding s' by (auto split: if_splits)
    show ?thesis
    proof (rule tasks_okI, goal_cases)
      case (5 u) 
      then have "u \<noteq> t" unfolding s' by (metis fun_upd_same holds.simps(1) set_caller_def tp_state.select_convs(6) tp_state.surjective tp_state.update_convs(6))
      then show ?case using 5 other tasks_okD(5) [OF assms(2), of u] by (simp add: s')
    qed (use free idle eq tasks_okD(1-4) [OF assms(2)] in \<open>auto simp: s' split: if_splits\<close>)
  qed (use assms(2) in simp)
next
  case (Prepare c)
  from assms(3) [unfolded Prepare] show ?thesis
  proof (rule prepare_step, goal_cases)
    case (1 t fn arg b)
    have h: "holds (tp_caller s c) = Some t" using 1(1) by simp
    note held = places_held [OF assms(1) h]
    have same: "tp_worker s' = tp_worker s" "tp_executed s' = tp_executed s"
      "tp_dispatched s' = tp_dispatched s"
      and th: "\<And>u. th_arg (tp_thread s' u) = (if u = t then Some (task_of fn arg) else th_arg (tp_thread s u))"
      and cl: "tp_caller s' = (tp_caller s)(c := Prepared t (if b then tp_next_sem s else 0) (length (tp_dispatched s t) - 1))"
      using 1 by auto
    have hs: "holds (tp_caller s' c') = holds (tp_caller s c')" for c' using h by (simp add: cl)
    show ?case
    proof (rule tasks_okI, goal_cases)
      case (2 c' u sem n) then show ?case
        using held(4) tasks_okD(1) [OF assms(2) 1(1)] tasks_okD(2) [OF assms(2)]
        by (cases "c' = c") (auto simp: same th cl)
    next
      case (3 u) then show ?case using held(1) tasks_okD(3) [OF assms(2)] by (auto simp: same th)
    next
      case (5 u) then show ?case using tasks_okD(5) [OF assms(2)] by (simp add: same hs)
    qed (use tasks_okD(1,4) [OF assms(2)] in \<open>auto simp: same cl split: if_splits\<close>)
  qed
next
  case (Run c)
  from assms(3) [unfolded Run] show ?thesis
  proof (rule run_step [OF assms(1)], goal_cases)
    case (1 t sem n pc th)
    have h: "holds (tp_caller s c) = Some t" using 1(1) by simp
    note held = places_held [OF assms(1) h]
    have cl: "tp_caller s' = (tp_caller s)(c := if sem \<noteq> 0 then Waiting t sem n else Idle)" using 1 by auto
    have same: "tp_executed s' = tp_executed s" "tp_dispatched s' = tp_dispatched s"
      "tp_worker s' = (tp_worker s)(t := pc)" "\<And>u. th_arg (tp_thread s' u) = th_arg (tp_thread s u)"
      using 1 by auto
    show ?case
    proof (rule tasks_okI, goal_cases)
      case (1 c' u fn arg b)
      then have "tp_caller s c' = Got u fn arg b" by (auto simp: cl split: if_splits)
      then show ?case using tasks_okD(1) [OF assms(2)] by (simp add: same)
    next
      case (2 c' u sem' n')
      then have "tp_caller s c' = Prepared u sem' n'" by (auto simp: cl split: if_splits)
      then show ?case using tasks_okD(2) [OF assms(2)] by (simp add: same)
    next
      case (3 u)
      then show ?case using tasks_okD(2) [OF assms(2) \<open>tp_caller s c = Prepared t sem n\<close>] tasks_okD(3) [OF assms(2), of u]
        by (cases "u = t") (simp_all add: same)
    next
      case (4 u)
      then show ?case using tasks_okD(4) [OF assms(2), of u] \<open>pc = At_stage2 \<or> _\<close>
        by (cases "u = t") (auto simp add: same)
    next
      case (5 u)
      then have "u \<noteq> t" using \<open>pc = At_stage2 \<or> _\<close> by (auto simp: same)
      moreover have "holds (tp_caller s c') \<noteq> Some u" for c'
        using 5(2) [of c'] h \<open>u \<noteq> t\<close> by (cases "c' = c") (auto simp: cl)
      ultimately show ?case using 5(1) tasks_okD(5) [OF assms(2), of u] by (simp add: same)
    qed
  qed
next
  case (Sem_wait c)
  show ?thesis using assms(3) Sem_wait
    by (intro tasks_same [OF assms(2)]) (auto split: caller_pc.splits if_splits)
next
  case (Finish c)
  show ?thesis using assms(3) Finish
    by (intro tasks_same [OF assms(2)]) (auto split: caller_pc.splits if_splits)
next
  case (Stage2 t)
  then have busy: "\<not> idle (tp_worker s t)" using assms(3) by (auto split: if_splits)
  note free = places_not_held [OF assms(1) disjI1 [OF busy]]
  obtain d where d: "th_arg (tp_thread s t) = Some d"
    "s' = set_worker t At_stage3 (s\<lparr>tp_executed := (tp_executed s)(t := tp_executed s t @ [d])\<rparr>)"
    using assms(3) Stage2 by (auto split: if_splits option.splits)
  moreover have "tp_dispatched s t = tp_executed s t @ [d]"
    using tasks_okD(3) [OF assms(2), of t] d(1) assms(3) Stage2 by (auto split: if_splits)
  ultimately show ?thesis using free tasks_okD [OF assms(2)]
    by (intro tasks_okI) (auto split: if_splits)
next
  case (Stage3 t)
  then have t: "tp_worker s t = At_stage3" "s' = thread_pool_thread_stage3_fn t s"
    using assms(3) by (auto split: if_splits)
  then show ?thesis using tasks_okD [OF assms(2)]
    by (intro tasks_okI) (auto simp: tp_code split: if_splits)
next
  case (Resume t)
  then have "tp_worker s t = Signalled" "s' = set_worker t At_stage2 s"
    using assms(3) by (auto split: if_splits)
  then show ?thesis using tasks_okD [OF assms(2)]
    by (intro tasks_okI) (auto split: if_splits)
next
  case (Wake_spuriously t)
  then show ?thesis using assms by simp
qed

lemma tickets_okD:
  assumes "tickets_ok s"
  shows "0 < tp_next_sem s" "th_semaphore (tp_thread s u) < tp_next_sem s"
    "ticket (tp_caller s c) = Some (t, sem, n) \<Longrightarrow> 0 < sem \<and> sem < tp_next_sem s \<and> n < length (tp_dispatched s t)"
    "ticket (tp_caller s c) = Some (t, sem, n) \<Longrightarrow> th_semaphore (tp_thread s u) = sem \<Longrightarrow> u = t"
    "ticket (tp_caller s c) = Some (t, sem, n) \<Longrightarrow>
      tp_sem s sem \<noteq> 0 \<or> tp_caller s c = Notified t sem n \<Longrightarrow> n < length (tp_executed s t)"
  using assms unfolding tickets_ok_def by blast+

lemma tickets_okI:
  assumes "0 < tp_next_sem s" "\<And>u. th_semaphore (tp_thread s u) < tp_next_sem s"
    "\<And>c t sem n. ticket (tp_caller s c) = Some (t, sem, n) \<Longrightarrow>
      0 < sem \<and> sem < tp_next_sem s \<and> n < length (tp_dispatched s t)"
    "\<And>c t sem n u. ticket (tp_caller s c) = Some (t, sem, n) \<Longrightarrow> th_semaphore (tp_thread s u) = sem \<Longrightarrow> u = t"
    "\<And>c t sem n. ticket (tp_caller s c) = Some (t, sem, n) \<Longrightarrow>
      tp_sem s sem \<noteq> 0 \<or> tp_caller s c = Notified t sem n \<Longrightarrow> n < length (tp_executed s t)"
  shows "tickets_ok s"
  using assms unfolding tickets_ok_def by blast

text \<open>Steps that change no ticket and no semaphore, and in which threads only get on.\<close>

lemma tickets_same:
  assumes "tickets_ok s" "tp_next_sem s' = tp_next_sem s" "tp_sem s' = tp_sem s"
    "\<And>u. th_semaphore (tp_thread s' u) = th_semaphore (tp_thread s u) \<or> th_semaphore (tp_thread s' u) = 0"
    "\<And>c t sem n. ticket (tp_caller s' c) = Some (t, sem, n) \<Longrightarrow> ticket (tp_caller s c) = Some (t, sem, n)"
    "\<And>c t sem n. tp_caller s' c = Notified t sem n \<Longrightarrow> tp_caller s c = Notified t sem n"
    "\<And>t. length (tp_dispatched s t) \<le> length (tp_dispatched s' t)"
    "\<And>t. length (tp_executed s t) \<le> length (tp_executed s' t)"
  shows "tickets_ok s'"
proof (rule tickets_okI, goal_cases)
  case (2 u) then show ?case using assms(2) assms(4) [of u] tickets_okD(1,2) [OF assms(1)] by metis
next
  case (3 c t sem n)
  then show ?case using tickets_okD(3) [OF assms(1) assms(5)] assms(2) assms(7) [of t] by fastforce
next
  case (4 c t sem n u)
  then show ?case using tickets_okD(3,4) [OF assms(1) assms(5)] assms(4) [of u] by fastforce
next
  case (5 c t sem n)
  then show ?case
    using tickets_okD(5) [OF assms(1) assms(5) [OF 5(1)]] assms(3) assms(6) [of c t sem n] assms(8) [of t]
    by auto
qed (use tickets_okD(1) [OF assms(1)] assms(2) in simp)

lemma tickets_step:
  assumes "places_ok T s" "tasks_ok s" "tickets_ok s" "tp_next False e s = Some s'"
  shows "tickets_ok s'"
proof (cases e)
  case (Get c fn arg b)
  note g = get_step [OF assms(4) [unfolded Get]]
  from g(4) show ?thesis
    by (elim disjE exE conjE) (simp add: assms(3), intro tickets_same [OF assms(3)], auto split: if_splits)
next
  case (Prepare c)
  from assms(4) [unfolded Prepare] show ?thesis
  proof (rule prepare_step, goal_cases)
    case (1 t fn arg b)
    let ?sem = "if b then tp_next_sem s else 0"
    have d: "length (tp_dispatched s t) = Suc (length (tp_executed s t))"
      using tasks_okD(1) [OF assms(2) 1(1)] by simp
    have cl: "tp_caller s' = (tp_caller s)(c := Prepared t ?sem (length (tp_dispatched s t) - 1))"
      and next_sem: "tp_next_sem s' = (if b then tp_next_sem s + 1 else tp_next_sem s)"
      and sem: "\<And>k. tp_sem s' k = (if b \<and> k = tp_next_sem s then 0 else tp_sem s k)"
      and th: "\<And>u. th_semaphore (tp_thread s' u) = (if u = t then ?sem else th_semaphore (tp_thread s u))"
      and same: "tp_dispatched s' = tp_dispatched s" "tp_executed s' = tp_executed s"
      using 1 by auto
    note D = tickets_okD [OF assms(3)]
    have old: "ticket (tp_caller s' c') = Some (u, k, n) \<Longrightarrow>
        c' = c \<and> u = t \<and> k = tp_next_sem s \<and> b \<and> n = length (tp_executed s t) \<or>
        c' \<noteq> c \<and> ticket (tp_caller s c') = Some (u, k, n)" for c' u k n
      using d by (auto simp: cl split: if_splits)
    show ?case
    proof (rule tickets_okI, goal_cases)
      case (2 u) then show ?case using D(1) D(2) [of u] by (simp add: next_sem th)
    next
      case (3 c' u k n) then show ?case using old [OF 3] D(1) D(3) [of c' u k n] d
        by (auto simp: next_sem same)
    next
      case (4 c' u k n v)
      then show ?case using old [OF 4(1)] D(2) [of v] D(3) [of c' u k n] D(4) [of c' u k n v]
        by (auto simp: th split: if_splits)
    next
      case (5 c' u k n)
      then show ?case using old [OF 5(1)] D(3) [of c' u k n] D(5) [of c' u k n]
        by (auto simp: sem same cl split: if_splits)
    qed (use D(1) in \<open>simp add: next_sem\<close>)
  qed
next
  case (Run c)
  from assms(4) [unfolded Run] show ?thesis
    by (rule run_step [OF assms(1)]) (intro tickets_same [OF assms(3)]; auto split: if_splits)
next
  case (Sem_wait c)
  then obtain t sem n where w: "tp_caller s c = Waiting t sem n" "tp_sem s sem \<noteq> 0"
    "s' = set_caller c (Notified t sem n) (s\<lparr>tp_sem := (tp_sem s)(sem := tp_sem s sem - 1)\<rparr>)"
    using assms(4) by (auto split: caller_pc.splits if_splits)
  note D = tickets_okD [OF assms(3)]
  have t: "ticket (tp_caller s' c') = ticket (tp_caller s c')" for c' using w by simp
  show ?thesis
  proof (rule tickets_okI, goal_cases)
    case (5 c' u k n)
    then show ?case using D(5) [of c' u k n] D(5) [of c t sem n] w by (auto simp: t split: if_splits)
  next
    case (3 c' u k n) then show ?case using D(3) [of c' u k n] w(3) unfolding t by simp
  next
    case (4 c' u k n v) then show ?case using D(4) [of c' u k n v] w(3) unfolding t by simp
  qed (use D(1,2) w(3) in simp_all)
next
  case (Finish c)
  then show ?thesis using assms(4)
    by (intro tickets_same [OF assms(3)]) (auto split: caller_pc.splits if_splits)
next
  case (Stage2 t)
  then show ?thesis using assms(4)
    by (intro tickets_same [OF assms(3)]) (auto split: option.splits if_splits)
next
  case (Stage3 t)
  then have t: "tp_worker s t = At_stage3" "s' = thread_pool_thread_stage3_fn t s"
    using assms(4) by (auto split: if_splits)
  note D = tickets_okD [OF assms(3)]
  have eq: "tp_dispatched s t = tp_executed s t" by (rule tasks_okD(4) [OF assms(2) t(1)])
  have same: "tp_caller s' = tp_caller s" "tp_thread s' = tp_thread s" "tp_next_sem s' = tp_next_sem s"
    "tp_dispatched s' = tp_dispatched s" "tp_executed s' = tp_executed s"
    and sem: "\<And>k. k \<noteq> th_semaphore (tp_thread s t) \<Longrightarrow> tp_sem s' k = tp_sem s k"
    unfolding t(2) by (simp_all add: thread_pool_thread_stage3_fn_def Let_def)
  show ?thesis
  proof (rule tickets_okI, goal_cases)
    case (5 c u k n)
    show ?case
    proof (cases "k = th_semaphore (tp_thread s t)")
      case True
      have tk: "ticket (tp_caller s c) = Some (u, k, n)" using 5(1) by (simp only: same)
      have "t = u" by (rule D(4) [OF tk True [symmetric]])
      then show ?thesis using D(3) [OF tk] eq by (simp add: same)
    next
      case False
      then show ?thesis using D(5) [of c u k n] 5 by (simp add: same sem)
    qed
  qed (use D in \<open>auto simp: same\<close>)
next
  case (Resume t)
  then show ?thesis using assms(4)
    by (intro tickets_same [OF assms(3)]) (auto split: option.splits if_splits)
next
  case (Wake_spuriously t)
  then show ?thesis using assms by simp
qed

text \<open>The start: new threads go into the pool one by one.\<close>

lemma insert_new_threads_pool:
  "distinct (pool_head p @ ts) \<Longrightarrow> \<exists>p'. insert_new_threads ts p = Some p' \<and>
     set (pool_head p') = set (pool_head p) \<union> set ts \<and> distinct (pool_head p')"
proof (induction ts arbitrary: p)
  case (Cons t ts)
  have "thread_pool_insert_new_thread t (create_thread THREAD_WRITER) p = Some (pool_insert t p)"
    using Cons.prems by (simp add: thread_pool_insert_new_thread_def create_thread_def)
  moreover have "distinct (pool_head (pool_insert t p) @ ts)"
    using Cons.prems by (auto simp: pool_insert_def intro!: insert_by_distinct)
  from Cons.IH [OF this] obtain p' where "insert_new_threads ts (pool_insert t p) = Some p'"
    "set (pool_head p') = insert t (set (pool_head p)) \<union> set ts" "distinct (pool_head p')"
    by (auto simp: pool_insert_def)
  ultimately show ?case by auto
qed simp

lemma tp_invariant:
  assumes "distinct ts" "insert_new_threads ts (thread_pool_init cmp) = Some p" "tp_reach False p s"
  shows "places_ok (set ts) s \<and> tasks_ok s \<and> tickets_ok s"
  using assms(3)
proof (induction rule: tp_reach.induct)
  case start
  have "set (pool_head p) = set ts" "distinct (pool_head p)"
    using insert_new_threads_pool [of "thread_pool_init cmp" ts] assms(1,2)
    by (auto simp: thread_pool_init_def)
  then show ?case
    by (auto simp: tp_start_def places_ok_def tasks_ok_def tickets_ok_def create_thread_def)
next
  case (step s e s')
  then show ?case using places_step tasks_step tickets_step by blast
qed

lemma thread_pool_order:
  assumes "distinct ts" "insert_new_threads ts (thread_pool_init cmp) = Some p" "tp_reach False p s"
  shows "tp_dispatched s t = tp_executed s t \<or> (\<exists>d. tp_dispatched s t = tp_executed s t @ [d])"
proof -
  have Q: "tasks_ok s" using tp_invariant [OF assms] by auto
  show ?thesis
  proof (cases "idle (tp_worker s t)")
    case True
    show ?thesis
    proof (cases "\<exists>c. holds (tp_caller s c) = Some t")
      case True
      then obtain c where "holds (tp_caller s c) = Some t" by blast
      then show ?thesis using tasks_okD(1,2) [OF Q, of c t]
        by (cases "tp_caller s c") auto
    qed (use True tasks_okD(5) [OF Q] in blast)
  next
    case False
    then show ?thesis using tasks_okD(3,4) [OF Q, of t] by (cases "tp_worker s t") auto
  qed
qed

section \<open>Properties\<close>

text \<open>C5. Without spurious wake-ups every dispatched task runs exactly once: in every reachable state,
  with any number of callers, no assertion has failed, each thread has run the tasks it was handed in
  the order of the dispatches, all of them or all but the last, and once no caller and no thread is
  under way all of them, with every thread back in the pool. In particular no signal to a parked
  thread is lost, although it is sent without the mutex.\<close>

theorem thread_pool_exactly_once:
  assumes "distinct ts" "insert_new_threads ts (thread_pool_init cmp) = Some p" "tp_reach False p s"
  shows "\<not> tp_aborted s \<and> distinct (pool_head (tp_pool s)) \<and>
    (tp_dispatched s t = tp_executed s t \<or> (\<exists>d. tp_dispatched s t = tp_executed s t @ [d])) \<and>
    ((\<forall>c. tp_caller s c = Idle) \<and> (\<forall>u. idle (tp_worker s u)) \<longrightarrow>
       tp_dispatched s t = tp_executed s t \<and> set ts \<subseteq> set (pool_head (tp_pool s)))"
proof -
  have P: "places_ok (set ts) s" and Q: "tasks_ok s" using tp_invariant [OF assms] by auto
  have "tp_dispatched s t = tp_executed s t \<or> (\<exists>d. tp_dispatched s t = tp_executed s t @ [d])"
    by (rule thread_pool_order [OF assms])
  moreover have "tp_dispatched s t = tp_executed s t \<and> set ts \<subseteq> set (pool_head (tp_pool s))"
    if "\<forall>c. tp_caller s c = Idle" "\<forall>u. idle (tp_worker s u)"
    using that tasks_okD(5) [OF Q, of t] places_okD(5) [OF P] by fastforce
  ultimately show ?thesis using places_okD(1,6) [OF P] by blast
qed

theorem thread_pool_exactly_once_witness:
  "\<exists>p s. tp_run False [Get 1 10 0 False, Prepare 1, Run 1, Stage2 5, Stage3 5, Get 1 20 0 True, Prepare 1,
       Run 1, Resume 5, Stage2 5, Stage3 5, Sem_wait 1, Finish 1] (tp_start p) = Some s \<and>
     tp_dispatched s 5 = tp_executed s 5 \<and> map thread_stage2_fn (tp_executed s 5) = [10, 20]"
proof -
  let ?p = "\<lparr>pool_head = [5], pool_comp_fn = \<lambda>_ _. - 1\<rparr>"
  let ?run = "tp_run False [Get 1 10 0 False, Prepare 1, Run 1, Stage2 5, Stage3 5, Get 1 20 0 True, Prepare 1,
       Run 1, Resume 5, Stage2 5, Stage3 5, Sem_wait 1, Finish 1] (tp_start ?p)"
  have p: "insert_new_threads [5] (thread_pool_init (\<lambda>_ _. - 1)) = Some ?p"
    by (simp add: thread_pool_init_def thread_pool_insert_new_thread_def pool_insert_def insert_by_def
        create_thread_def)
  obtain s where s: "?run = Some s" "\<forall>c. tp_caller s c = Idle" "\<forall>u. idle (tp_worker s u)"
    "map thread_stage2_fn (tp_executed s 5) = [10, 20]"
    by (simp add: tp_code tp_start_def create_thread_def thread_pool_init_def insert_by_def task_of_def)
  have "tp_reach False ?p s" by (rule tp_run_reach [OF tp_reach.start s(1)])
  then have "tp_dispatched s 5 = tp_executed s 5"
    using thread_pool_exactly_once [OF _ p, of s 5] s(2,3) by simp
  with s show ?thesis by (intro exI [of _ ?p] exI [of _ s] conjI)
qed

text \<open>A blocking dispatch waits for its task: when the caller has been notified, the task it
  dispatched has been run.\<close>

theorem thread_pool_blocking_dispatch:
  assumes "distinct ts" "insert_new_threads ts (thread_pool_init cmp) = Some p" "tp_reach False p s"
    and "tp_caller s c = Notified t sem n"
  shows "n < length (tp_executed s t) \<and> tp_executed s t ! n = tp_dispatched s t ! n"
proof -
  have Q: "tasks_ok s" and R: "tickets_ok s" using tp_invariant [OF assms(1-3)] by auto
  have n: "n < length (tp_executed s t)" using tickets_okD(5) [OF R, of c t sem n] assms(4) by simp
  moreover have "tp_dispatched s t = tp_executed s t \<or> (\<exists>d. tp_dispatched s t = tp_executed s t @ [d])"
    using thread_pool_order [OF assms(1-3)] .
  ultimately show ?thesis by (auto simp: nth_append)
qed

theorem thread_pool_blocking_dispatch_witness:
  "\<exists>p s. tp_run False [Get 1 10 7 True, Prepare 1, Run 1, Stage2 5, Stage3 5, Sem_wait 1] (tp_start p) = Some s \<and>
     tp_caller s 1 = Notified 5 1 0 \<and> 0 < length (tp_executed s 5) \<and>
     tp_executed s 5 ! 0 = \<lparr>thread_stage2_fn = 10, stage2_arg = 7\<rparr>"
proof -
  let ?p = "\<lparr>pool_head = [5], pool_comp_fn = \<lambda>_ _. - 1\<rparr>"
  let ?run = "tp_run False [Get 1 10 7 True, Prepare 1, Run 1, Stage2 5, Stage3 5, Sem_wait 1] (tp_start ?p)"
  have p: "insert_new_threads [5] (thread_pool_init (\<lambda>_ _. - 1)) = Some ?p"
    by (simp add: thread_pool_init_def thread_pool_insert_new_thread_def pool_insert_def insert_by_def
        create_thread_def)
  obtain s where s: "?run = Some s" "tp_caller s 1 = Notified 5 1 0"
    "tp_dispatched s 5 = [\<lparr>thread_stage2_fn = 10, stage2_arg = 7\<rparr>]"
    by (simp add: tp_code tp_start_def create_thread_def thread_pool_init_def insert_by_def task_of_def)
  have "tp_reach False ?p s" by (rule tp_run_reach [OF tp_reach.start s(1)])
  from thread_pool_blocking_dispatch [OF _ p this s(2)]
  have "0 < length (tp_executed s 5) \<and> tp_executed s 5 ! 0 = tp_dispatched s 5 ! 0" by simp
  with s show ?thesis by (intro exI [of _ ?p] exI [of _ s] conjI) simp_all
qed

text \<open>Two blocking callers can lose a notification: a caller resets the semaphore of the thread
  after it was notified, when the next caller may already have stored its own. Here the second caller
  waits for ever: its task has been run, its semaphore is zero, and only new dispatches are possible.\<close>

theorem thread_pool_lost_notification:
  "\<exists>s. tp_run False [Get 1 10 0 True, Prepare 1, Run 1, Stage2 5, Stage3 5, Sem_wait 1,
       Get 2 20 0 True, Prepare 2, Finish 1, Run 2, Resume 5, Stage2 5, Stage3 5]
       (tp_start \<lparr>pool_head = [5], pool_comp_fn = cmp\<rparr>) = Some s \<and>
     map thread_stage2_fn (tp_executed s 5) = [10, 20] \<and>
     tp_caller s 2 = Waiting 5 2 1 \<and> tp_sem s 2 = 0 \<and> th_semaphore (tp_thread s 5) = 0 \<and>
     (\<forall>e. tp_next False e s = None \<or> (\<exists>c fn arg b. e = Get c fn arg b))"
proof -
  obtain s where s: "tp_run False [Get 1 10 0 True, Prepare 1, Run 1, Stage2 5, Stage3 5, Sem_wait 1,
       Get 2 20 0 True, Prepare 2, Finish 1, Run 2, Resume 5, Stage2 5, Stage3 5]
       (tp_start \<lparr>pool_head = [5], pool_comp_fn = cmp\<rparr>) = Some s"
    "map thread_stage2_fn (tp_executed s 5) = [10, 20]" "tp_caller s 2 = Waiting 5 2 1"
    "tp_sem s 2 = 0" "th_semaphore (tp_thread s 5) = 0" "tp_worker s = (\<lambda>_. Not_created)(5 := Parked)"
    "tp_caller s = (\<lambda>_. Idle)(2 := Waiting 5 2 1)"
    by (simp add: tp_code tp_start_def create_thread_def insert_by_def task_of_def fun_eq_iff numeral_eq_Suc)
  have "tp_next False e s = None \<or> (\<exists>c fn arg b. e = Get c fn arg b)" for e
    using s(4) by (cases e) (simp_all add: s(6,7))
  with s(1-5) show ?thesis by (intro exI [of _ s] conjI allI)
qed

text \<open>A parked thread does not test why it was woken: with one spurious wake-up the thread runs
  its last task a second time.\<close>

theorem thread_pool_spurious_rerun:
  "\<exists>s. tp_run True [Get 1 10 0 False, Prepare 1, Run 1, Stage2 5, Stage3 5, Wake_spuriously 5, Resume 5, Stage2 5]
       (tp_start \<lparr>pool_head = [5], pool_comp_fn = cmp\<rparr>) = Some s \<and>
     map thread_stage2_fn (tp_dispatched s 5) = [10] \<and> map thread_stage2_fn (tp_executed s 5) = [10, 10]"
  by (simp add: tp_code tp_start_def create_thread_def insert_by_def task_of_def)

end
