(* ===== verification/EventPair.thy ===== *)
theory EventPair
  imports Prelude
begin

text \<open>
  The event pair of \<^verbatim>\<open>ThreadSyncAdv/threadlib/threadlib.c\<close>: a client and a server that hand
  the turn to each other through two semaphores that start at zero, and a third one on which the
  creator waits for the server. The server and the client of the example that goes with it are the
  users: they share one integer, the request and the response.
\<close>

section \<open>The code\<close>

record event_pair =
  ep_client_sem0 :: nat
  ep_server_sem0 :: nat
  ep_initial_sync_sem0 :: nat

text \<open>\<^verbatim>\<open>sem_wait\<close> takes a permit; \<open>None\<close> while there is none and the caller has to wait.\<close>

definition event_pair_server_init :: "event_pair \<Rightarrow> event_pair" where
  "event_pair_server_init ep = ep\<lparr>ep_server_sem0 := 0, ep_initial_sync_sem0 := 0\<rparr>"

definition event_pair_client_init :: "event_pair \<Rightarrow> event_pair" where
  "event_pair_client_init ep = ep\<lparr>ep_client_sem0 := 0\<rparr>"

definition event_pair_server_wait :: "event_pair \<Rightarrow> event_pair option" where
  "event_pair_server_wait ep =
     (if ep_server_sem0 ep = 0 then None else Some (ep\<lparr>ep_server_sem0 := ep_server_sem0 ep - 1\<rparr>))"

definition event_pair_client_wait :: "event_pair \<Rightarrow> event_pair option" where
  "event_pair_client_wait ep =
     (if ep_client_sem0 ep = 0 then None else Some (ep\<lparr>ep_client_sem0 := ep_client_sem0 ep - 1\<rparr>))"

definition event_pair_server_handoff :: "event_pair \<Rightarrow> event_pair" where
  "event_pair_server_handoff ep = ep\<lparr>ep_client_sem0 := ep_client_sem0 ep + 1\<rparr>"

definition event_pair_client_handoff :: "event_pair \<Rightarrow> event_pair" where
  "event_pair_client_handoff ep = ep\<lparr>ep_server_sem0 := ep_server_sem0 ep + 1\<rparr>"

definition event_pair_initial_sync_wait :: "event_pair \<Rightarrow> event_pair option" where
  "event_pair_initial_sync_wait ep =
     (if ep_initial_sync_sem0 ep = 0 then None
      else Some (ep\<lparr>ep_initial_sync_sem0 := ep_initial_sync_sem0 ep - 1\<rparr>))"

definition event_pair_initial_sync_signal :: "event_pair \<Rightarrow> event_pair" where
  "event_pair_initial_sync_signal ep = ep\<lparr>ep_initial_sync_sem0 := ep_initial_sync_sem0 ep + 1\<rparr>"

section \<open>The users\<close>

datatype server_pc = Srv_absent | Srv_started | Srv_waiting | Srv_serving | Srv_served
datatype client_pc = Cl_absent | Cl_preparing | Cl_waiting | Cl_received | Cl_exited
datatype main_pc = Main_started | Main_syncing | Main_synced | Main_done

record ep_state =
  es_pair :: event_pair
  es_memory :: u32
  es_server :: server_pc
  es_client :: client_pc
  es_main :: main_pc

text \<open>The stretches of \<^verbatim>\<open>server_fn\<close>, \<^verbatim>\<open>client_fn\<close> and \<^verbatim>\<open>main\<close> between calls of the event
  pair; \<open>None\<close> when the thread cannot move.\<close>

fun server_fn :: "ep_state \<Rightarrow> ep_state option" where
  "server_fn s =
     (case es_server s of
        Srv_absent \<Rightarrow> None
      | Srv_started \<Rightarrow>
          Some (s\<lparr>es_pair := event_pair_initial_sync_signal (es_pair s), es_server := Srv_waiting\<rparr>)
      | Srv_waiting \<Rightarrow>
          (case event_pair_server_wait (es_pair s) of None \<Rightarrow> None
           | Some ep \<Rightarrow> Some (s\<lparr>es_pair := ep, es_server := Srv_serving\<rparr>))
      | Srv_serving \<Rightarrow> Some (s\<lparr>es_memory := es_memory s * 2, es_server := Srv_served\<rparr>)
      | Srv_served \<Rightarrow>
          Some (s\<lparr>es_pair := event_pair_server_handoff (es_pair s), es_server := Srv_waiting\<rparr>))"

fun client_fn :: "ep_state \<Rightarrow> ep_state option" where
  "client_fn s =
     (case es_client s of
        Cl_absent \<Rightarrow> None
      | Cl_preparing \<Rightarrow>
          Some (s\<lparr>es_pair := event_pair_client_handoff (es_pair s), es_client := Cl_waiting\<rparr>)
      | Cl_waiting \<Rightarrow>
          (case event_pair_client_wait (es_pair s) of None \<Rightarrow> None
           | Some ep \<Rightarrow> Some (s\<lparr>es_pair := ep, es_client := Cl_received\<rparr>))
      | Cl_received \<Rightarrow>
          Some (s\<lparr>es_client := if es_memory s > 1024 then Cl_exited else Cl_preparing\<rparr>)
      | Cl_exited \<Rightarrow> None)"

fun ep_main :: "ep_state \<Rightarrow> ep_state option" where
  "ep_main s =
     (case es_main s of
        Main_started \<Rightarrow>
          Some (s\<lparr>es_pair := event_pair_server_init (es_pair s), es_server := Srv_started,
                  es_main := Main_syncing\<rparr>)
      | Main_syncing \<Rightarrow>
          (case event_pair_initial_sync_wait (es_pair s) of None \<Rightarrow> None
           | Some ep \<Rightarrow> Some (s\<lparr>es_pair := ep, es_main := Main_synced\<rparr>))
      | Main_synced \<Rightarrow>
          Some (s\<lparr>es_pair := event_pair_client_init (es_pair s), es_client := Cl_preparing,
                  es_main := Main_done\<rparr>)
      | Main_done \<Rightarrow> None)"

definition ep_start :: ep_state where
  "ep_start = \<lparr>es_pair = \<lparr>ep_client_sem0 = 0, ep_server_sem0 = 0, ep_initial_sync_sem0 = 0\<rparr>,
     es_memory = 1, es_server = Srv_absent, es_client = Cl_absent, es_main = Main_started\<rparr>"

text \<open>\<open>ep_reach n s\<close>: the program is in \<open>s\<close> after \<open>n\<close> steps. \<^verbatim>\<open>exit\<close> in the client ends it.\<close>

inductive ep_reach :: "nat \<Rightarrow> ep_state \<Rightarrow> bool" where
  start: "ep_reach 0 ep_start"
| step: "ep_reach n s \<Longrightarrow> es_client s \<noteq> Cl_exited \<Longrightarrow>
    ep_main s = Some s' \<or> server_fn s = Some s' \<or> client_fn s = Some s' \<Longrightarrow> ep_reach (Suc n) s'"

section \<open>The turn\<close>

text \<open>Where the turn is, and how many steps of a round of six it has behind it. Before the client
  runs, the turn is with the creator and the server.\<close>

definition ep_turn :: "ep_state \<Rightarrow> nat \<Rightarrow> bool" where
  "ep_turn s i \<longleftrightarrow> es_main s = Main_done \<and> ep_initial_sync_sem0 (es_pair s) = 0 \<and>
     (ep_client_sem0 (es_pair s), ep_server_sem0 (es_pair s), es_server s, es_client s) =
       [(0, 0, Srv_waiting, Cl_preparing), (0, 1, Srv_waiting, Cl_waiting),
        (0, 0, Srv_serving, Cl_waiting), (0, 0, Srv_served, Cl_waiting),
        (1, 0, Srv_waiting, Cl_waiting), (0, 0, Srv_waiting, Cl_received),
        (0, 0, Srv_waiting, Cl_exited)] ! i"

text \<open>The state after \<open>n\<close> steps: four to start, then rounds of six, of which the third doubles the
  integer.\<close>

definition ep_at :: "nat \<Rightarrow> ep_state \<Rightarrow> bool" where
  "ep_at n s \<longleftrightarrow>
     (if n < 4
      then es_memory s = 1 \<and> es_client s = Cl_absent \<and>
        (ep_client_sem0 (es_pair s), ep_server_sem0 (es_pair s)) = (0, 0) \<and>
        (ep_initial_sync_sem0 (es_pair s), es_server s, es_main s) =
          [(0, Srv_absent, Main_started), (0, Srv_started, Main_syncing),
           (1, Srv_waiting, Main_syncing), (0, Srv_waiting, Main_synced)] ! n
      else if n = 70 then es_memory s = 2048 \<and> ep_turn s 6
      else n < 70 \<and> ep_turn s ((n - 4) mod 6) \<and> es_memory s = 2 ^ ((n - 1) div 6))"

lemmas ep_defs = event_pair_server_init_def event_pair_client_init_def event_pair_server_wait_def
  event_pair_client_wait_def event_pair_server_handoff_def event_pair_client_handoff_def
  event_pair_initial_sync_wait_def event_pair_initial_sync_signal_def

lemma ep_at_round:
  assumes "i < 6"
  shows "ep_at (4 + 6 * k + i) s \<longleftrightarrow>
    (if k = 11 \<and> i = 0 then es_memory s = 2048 \<and> ep_turn s 6
     else k < 11 \<and> ep_turn s i \<and> es_memory s = 2 ^ (if i < 3 then k else k + 1))"
proof -
  have "i < 3 \<Longrightarrow> (4 + 6 * k + i - 1) div 6 = k" "\<not> i < 3 \<Longrightarrow> (4 + 6 * k + i - 1) div 6 = k + 1"
    using assms by presburger+
  then have d: "(4 + 6 * k + i - 1) div 6 = (if i < 3 then k else k + 1)" by simp
  have m: "(4 + 6 * k + i - 4) mod 6 = i" using assms by simp
  have "4 + 6 * k + i = 70 \<longleftrightarrow> k = 11 \<and> i = 0" "4 + 6 * k + i < 70 \<longleftrightarrow> k < 11"
    using assms by presburger+
  then show ?thesis unfolding ep_at_def d m by simp
qed

lemma less_6: "i < (6::nat) \<longleftrightarrow> i = 0 \<or> i = 1 \<or> i = 2 \<or> i = 3 \<or> i = 4 \<or> i = 5" by auto
lemma less_4: "i < (4::nat) \<longleftrightarrow> i = 0 \<or> i = 1 \<or> i = 2 \<or> i = 3" by auto

lemma power_le_1024: "k < 11 \<Longrightarrow> (1024 :: u32) < 2 ^ Suc k \<longleftrightarrow> k = 10"
proof -
  assume "k < 11"
  then have "k = 0 \<or> k = 1 \<or> k = 2 \<or> k = 3 \<or> k = 4 \<or> k = 5 \<or> k = 6 \<or> k = 7 \<or> k = 8 \<or> k = 9 \<or> k = 10"
    by arith
  then show ?thesis by (elim disjE) simp_all
qed

lemma ep_round_step:
  assumes "i < 6" "ep_turn s i" "es_memory s = 2 ^ (if i < 3 then k else k + 1)" "k < 11"
    and "ep_main s = Some s' \<or> server_fn s = Some s' \<or> client_fn s = Some s'"
  shows "ep_at (Suc (4 + 6 * k + i)) s'"
proof (cases "i = 5")
  case True
  then have "ep_at (4 + 6 * Suc k + 0) s'"
    using assms power_le_1024 [of k]
    by (subst ep_at_round) (auto simp: ep_turn_def ep_defs eval_nat_numeral)
  then show ?thesis using True by (simp add: algebra_simps)
next
  case False
  then have i: "Suc i < 6" using assms(1) by simp
  have "ep_at (4 + 6 * k + Suc i) s'"
    using assms False unfolding ep_at_round [OF i]
    by (auto simp: less_6 ep_turn_def ep_defs )
  then show ?thesis by simp
qed

lemma ep_reach_at: "ep_reach n s \<Longrightarrow> ep_at n s"
proof (induction rule: ep_reach.induct)
  case start
  then show ?case by (simp add: ep_at_def ep_start_def)
next
  case (step n s s')
  show ?case
  proof (cases "n < 4")
    case True
    then show ?thesis using step(3,4)
      by (auto simp: less_4 ep_at_def ep_turn_def ep_defs)
  next
    case False
    define k i where "k = (n - 4) div 6" and "i = (n - 4) mod 6"
    then have n: "n = 4 + 6 * k + i" "i < 6" using False by auto
    have r: "ep_turn s i" "k < 11" "es_memory s = 2 ^ (if i < 3 then k else k + 1)"
      using step(4,2) unfolding n(1) ep_at_round [OF n(2)] by (auto simp: ep_turn_def split: if_splits)
    show ?thesis unfolding n(1) by (rule ep_round_step [OF n(2) r(1,3,2) step(3)])
  qed
qed

lemma ep_progress:
  assumes "ep_at n s" "es_client s \<noteq> Cl_exited"
  shows "\<exists>s'. ep_main s = Some s' \<or> server_fn s = Some s' \<or> client_fn s = Some s'"
proof (cases "n < 4")
  case True
  then show ?thesis using assms by (auto simp: less_4 ep_at_def ep_defs)
next
  case False
  define k i where "k = (n - 4) div 6" and "i = (n - 4) mod 6"
  then have n: "n = 4 + 6 * k + i" "i < 6" using False by auto
  have r: "ep_turn s i"
    using assms unfolding n(1) ep_at_round [OF n(2)] by (auto simp: ep_turn_def split: if_splits)
  then show ?thesis using n(2) by (auto simp: less_6 ep_turn_def ep_defs)
qed

section \<open>Properties\<close>

text \<open>C25. The event pair passes the turn and the example ends: the client and the server never work on
  the shared integer at the same time, the program can always go on until the client exits, it does
  so after exactly 70 steps, in every execution, and the client then holds the response 2048.\<close>

theorem event_pair_alternates:
  assumes "ep_reach n s"
  shows "\<not> (es_server s \<in> {Srv_serving, Srv_served} \<and> es_client s \<in> {Cl_preparing, Cl_received}) \<and>
    n \<le> 70 \<and> (es_client s = Cl_exited \<longleftrightarrow> n = 70) \<and> (es_client s = Cl_exited \<longrightarrow> es_memory s = 2048) \<and>
    (es_client s \<noteq> Cl_exited \<longrightarrow>
      (\<exists>s'. ep_main s = Some s' \<or> server_fn s = Some s' \<or> client_fn s = Some s'))"
proof -
  have at: "ep_at n s" by (rule ep_reach_at [OF assms])
  have "\<not> (es_server s \<in> {Srv_serving, Srv_served} \<and> es_client s \<in> {Cl_preparing, Cl_received}) \<and>
    n \<le> 70 \<and> (es_client s = Cl_exited \<longleftrightarrow> n = 70) \<and> (es_client s = Cl_exited \<longrightarrow> es_memory s = 2048)"
  proof (cases "n < 4")
    case True
    then show ?thesis using at by (auto simp: less_4 ep_at_def)
  next
    case False
    define k i where "k = (n - 4) div 6" and "i = (n - 4) mod 6"
    then have n: "n = 4 + 6 * k + i" "i < 6" using False by auto
    have "n = 70 \<longleftrightarrow> k = 11 \<and> i = 0" "k < 11 \<Longrightarrow> n < 70" using n by presburger+
    then show ?thesis using at n(2) unfolding n(1) ep_at_round [OF n(2)]
      by (auto simp: less_6 ep_turn_def split: if_splits)
  qed
  then show ?thesis using ep_progress [OF at] by blast
qed

theorem event_pair_alternates_witness:
  "\<exists>s. ep_reach 2 s \<and> es_server s = Srv_waiting \<and> es_client s \<noteq> Cl_exited \<and>
    (\<exists>s'. ep_main s = Some s' \<or> server_fn s = Some s' \<or> client_fn s = Some s')"
proof -
  have "\<exists>s. ep_reach (Suc 0) s \<and> ep_main ep_start = Some s"
    by (rule exI [of _ "the (ep_main ep_start)"])
      (auto simp: ep_start_def ep_defs intro!: ep_reach.step ep_reach.start)
  then obtain s1 where s1: "ep_reach (Suc 0) s1" "ep_main ep_start = Some s1" by blast
  obtain s2 where s2: "server_fn s1 = Some s2" "es_server s2 = Srv_waiting" "es_client s2 \<noteq> Cl_exited"
    using s1(2) by (auto simp: ep_start_def ep_defs)
  have "es_client s1 \<noteq> Cl_exited" using s1(2) by (auto simp: ep_start_def ep_defs)
  then have "ep_reach 2 s2" using ep_reach.step [OF s1(1)] s2(1) by (simp add: numeral_2_eq_2)
  then show ?thesis using event_pair_alternates s2 by blast
qed

end
