(* ===== verification/AssemblyLine.thy ===== *)
theory AssemblyLine
  imports FifoQueue
begin

text \<open>
  The assembly line of \<^verbatim>\<open>ThreadSyncAdv/threadlib/threadlib.c\<close>: as many worker threads as slots,
  an engine thread that starts the workers for a round and waits for all of them, and applications
  that push objects. A worker works on the object of its slot and then moves on to the slot before,
  so that every object stays in its slot and meets the workers one after the other. The workers run
  without the mutex between their two critical sections; the machine below interleaves them freely.
\<close>

section \<open>The code\<close>

datatype asl_state = ASL_NOT_STARTED | ASL_IN_PROGRESS | ASL_WAIT | ASL_STOPPED

text \<open>Where a worker is: before its initialisation, waiting on its condition variable, woken, about
  to work on its slot, about to take a finished object out, about to move, about to report. And where
  the engine is: not created, created, waiting for the workers, signalled by the last of them, at
  rest, signalled by a push.\<close>

datatype asl_worker_pc = Wk_start | Wk_parked | Wk_woken | Wk_work | Wk_remove | Wk_move | Wk_done
datatype engine_pc = Eng_absent | Eng_started | Eng_waiting | Eng_woken | Eng_idle | Eng_idle_woken

record asl_worker =
  wk_curr_slot :: nat
  wk_work :: addr
  wk_initialized :: bool
  wk_pc :: asl_worker_pc

text \<open>Worker functions and objects are addresses. The workers are numbered in the order of their
  creation; \<open>T0\<close> and \<open>Tn\<close> are such numbers, \<open>None\<close> being NULL. \<open>al_open\<close> records that
  \<^verbatim>\<open>assembly_line_init_worker_threads\<close> has returned. The last three fields are not in the code:
  which functions have been applied to an object, the objects pushed, and the objects passed to
  \<^verbatim>\<open>asl_process_finished_product\<close>.\<close>

record assembly_line =
  al_size :: nat
  al_state :: asl_state
  al_q :: fifo_queue
  al_ready :: nat
  al_work_fns :: "addr list"
  al_wait_lst :: fifo_queue
  al_T0 :: "nat option"
  al_Tn :: "nat option"
  al_workers :: "asl_worker list"
  al_engine :: engine_pc
  al_open :: bool
  al_log :: "addr \<Rightarrow> addr list"
  al_pushed :: "addr list"
  al_finished :: "addr list"

text \<open>\<open>None\<close> stands for a failed assertion or a dereferenced NULL.\<close>

definition assembly_line_get_new_assembly_line :: "nat \<Rightarrow> assembly_line option" where
  "assembly_line_get_new_assembly_line sz =
     (case Fifo_initQ sz True of None \<Rightarrow> None
      | Some q \<Rightarrow> (case Fifo_initQ 50 False of None \<Rightarrow> None
      | Some w \<Rightarrow> Some \<lparr>al_size = sz, al_state = ASL_NOT_STARTED, al_q = q, al_ready = 0,
          al_work_fns = replicate sz 0, al_wait_lst = w, al_T0 = None, al_Tn = None, al_workers = [],
          al_engine = Eng_absent, al_open = False, al_log = (\<lambda>_. []), al_pushed = [], al_finished = []\<rparr>))"

definition assembly_line_register_worker_fns :: "nat \<Rightarrow> addr \<Rightarrow> assembly_line \<Rightarrow> assembly_line" where
  "assembly_line_register_worker_fns slot work_fn al = al\<lparr>al_work_fns := (al_work_fns al)[slot := work_fn]\<rparr>"

definition assembly_line_create_new_worker_thread :: "nat \<Rightarrow> asl_worker" where
  "assembly_line_create_new_worker_thread slot_no =
     \<lparr>wk_curr_slot = slot_no, wk_work = 0, wk_initialized = False, wk_pc = Wk_start\<rparr>"

text \<open>The loop of \<^verbatim>\<open>assembly_line_init_worker_threads\<close>, from worker \<open>i\<close> on.\<close>

fun asl_create_workers :: "nat list \<Rightarrow> assembly_line \<Rightarrow> assembly_line" where
  "asl_create_workers [] al = al"
| "asl_create_workers (i # is) al =
     (let al1 = al\<lparr>al_workers := al_workers al @ [assembly_line_create_new_worker_thread i]\<rparr>;
          al2 = (if i = 0 then al1\<lparr>al_T0 := Some i\<rparr>
                 else if i = al_size al1 - 1 then al1\<lparr>al_Tn := Some i\<rparr> else al1)
      in asl_create_workers is al2)"

definition assembly_line_init_worker_threads :: "assembly_line \<Rightarrow> assembly_line" where
  "assembly_line_init_worker_threads al = asl_create_workers [0..<al_size al] al"

text \<open>Its end: \<^verbatim>\<open>wait_queue_test_and_wait\<close> returns when the test below is false.\<close>

definition asl_wait_until_all_workers_ready :: "assembly_line \<Rightarrow> bool" where
  "asl_wait_until_all_workers_ready al \<longleftrightarrow> al_ready al \<noteq> al_size al"

definition assembly_line_enqueue_new_item :: "addr \<Rightarrow> assembly_line \<Rightarrow> assembly_line option" where
  "assembly_line_enqueue_new_item object al =
     (case al_T0 al of None \<Rightarrow> None
      | Some t \<Rightarrow>
          let slot = wk_curr_slot (al_workers al ! t) in
          if fq_elem (al_q al) ! slot \<noteq> 0 then None
          else (case Fifo_insert_or_replace_at_index (al_q al) object slot of
                  None \<Rightarrow> None
                | Some (_, q) \<Rightarrow> Some (al\<lparr>al_q := q\<rparr>)))"

text \<open>\<^verbatim>\<open>pthread_cond_signal\<close> on the variable of the engine and on those of all workers: without
  effect on a thread that does not wait.\<close>

definition asl_signal_engine :: "assembly_line \<Rightarrow> assembly_line" where
  "asl_signal_engine al =
     al\<lparr>al_engine := (case al_engine al of Eng_waiting \<Rightarrow> Eng_woken | Eng_idle \<Rightarrow> Eng_idle_woken | e \<Rightarrow> e)\<rparr>"

definition asl_signal_workers :: "assembly_line \<Rightarrow> assembly_line" where
  "asl_signal_workers al =
     al\<lparr>al_workers := map (\<lambda>w. if wk_pc w = Wk_parked then w\<lparr>wk_pc := Wk_woken\<rparr> else w) (al_workers al)\<rparr>"

text \<open>\<^verbatim>\<open>asl_engine_fn\<close>, from the top of its loop to a wait, and from a wait on.\<close>

definition asl_engine_round :: "assembly_line \<Rightarrow> assembly_line" where
  "asl_engine_round al =
     (asl_signal_workers (al\<lparr>al_state := ASL_IN_PROGRESS, al_ready := 0\<rparr>))\<lparr>al_engine := Eng_waiting\<rparr>"

definition asl_engine_collect :: "assembly_line \<Rightarrow> assembly_line option" where
  "asl_engine_collect al =
     (if al_ready al \<noteq> al_size al then Some (al\<lparr>al_engine := Eng_waiting\<rparr>)
      else case Fifo_deque (al_wait_lst al) of None \<Rightarrow> None
      | Some (wait_lst_item, w) \<Rightarrow>
          let al1 = al\<lparr>al_wait_lst := w\<rparr> in
          case (if wait_lst_item \<noteq> 0 then assembly_line_enqueue_new_item wait_lst_item al1 else Some al1) of
            None \<Rightarrow> None
          | Some al2 \<Rightarrow>
              if fq_count (al_q al2) \<noteq> 0 then Some (asl_engine_round al2)
              else Some (al2\<lparr>al_state := ASL_WAIT, al_engine := Eng_idle\<rparr>))"

definition assembly_line_engine_start :: "assembly_line \<Rightarrow> assembly_line" where
  "assembly_line_engine_start al =
     (if al_engine al = Eng_absent then al\<lparr>al_engine := Eng_started\<rparr>
      else if al_state al = ASL_WAIT then asl_signal_engine (al\<lparr>al_state := ASL_IN_PROGRESS\<rparr>)
      else al)"

definition assembly_line_push_new_item :: "addr \<Rightarrow> assembly_line \<Rightarrow> assembly_line option" where
  "assembly_line_push_new_item new_item al =
     (if fq_count (al_q al) = 0
      then map_option assembly_line_engine_start (assembly_line_enqueue_new_item new_item al)
      else if \<not> is_queue_full (al_wait_lst al)
      then map_option (\<lambda>(_, w). assembly_line_engine_start (al\<lparr>al_wait_lst := w\<rparr>))
             (Fifo_enqueue (al_wait_lst al) new_item)
      else None)"

text \<open>\<^verbatim>\<open>worker_thread_init\<close>, in the stretches between its critical sections.\<close>

definition set_pc :: "nat \<Rightarrow> asl_worker_pc \<Rightarrow> assembly_line \<Rightarrow> assembly_line" where
  "set_pc i pc al = al\<lparr>al_workers := (al_workers al)[i := (al_workers al ! i)\<lparr>wk_pc := pc\<rparr>]\<rparr>"

definition worker_initialize :: "nat \<Rightarrow> assembly_line \<Rightarrow> assembly_line option" where
  "worker_initialize i al =
     (let w = al_workers al ! i; work = al_work_fns al ! wk_curr_slot w in
      if work = 0 then None
      else Some (al\<lparr>al_workers := (al_workers al)[i := w\<lparr>wk_initialized := True, wk_work := work,
                      wk_pc := Wk_parked\<rparr>], al_ready := al_ready al + 1\<rparr>))"

definition worker_operate :: "nat \<Rightarrow> assembly_line \<Rightarrow> assembly_line" where
  "worker_operate i al =
     (let w = al_workers al ! i; object = fq_elem (al_q al) ! wk_curr_slot w in
      if object = 0 then set_pc i Wk_move al
      else set_pc i (if al_Tn al = Some i then Wk_remove else Wk_move)
             (al\<lparr>al_log := (al_log al)(object := al_log al object @ [wk_work w])\<rparr>))"

definition worker_remove :: "nat \<Rightarrow> assembly_line \<Rightarrow> assembly_line option" where
  "worker_remove i al =
     (case Fifo_insert_or_replace_at_index (al_q al) 0 (wk_curr_slot (al_workers al ! i)) of
        None \<Rightarrow> None
      | Some (finished_obj, q) \<Rightarrow>
          Some (set_pc i Wk_move (al\<lparr>al_q := q, al_finished := al_finished al @ [finished_obj]\<rparr>)))"

definition worker_move :: "nat \<Rightarrow> assembly_line \<Rightarrow> assembly_line" where
  "worker_move i al =
     (let w = al_workers al ! i;
          slot = (if wk_curr_slot w = 0 then al_size al - 1 else wk_curr_slot w - 1)
      in al\<lparr>al_workers := (al_workers al)[i := w\<lparr>wk_curr_slot := slot, wk_pc := Wk_done\<rparr>]\<rparr>)"

definition worker_report :: "nat \<Rightarrow> assembly_line \<Rightarrow> assembly_line" where
  "worker_report i al =
     (let al1 = al\<lparr>al_ready := al_ready al + 1\<rparr>;
          al2 = (if al_ready al1 = al_size al1 then asl_signal_engine al1 else al1)
      in set_pc i Wk_parked al2)"

section \<open>The machine\<close>

datatype asl_event = Init_done | Push addr | Engine_step | Worker_step nat

text \<open>\<open>Inl ()\<close>: the step runs into a failing assertion; \<open>Inr None\<close>: it is not possible.\<close>

type_synonym asl_outcome = "unit + assembly_line option"

definition asserting :: "assembly_line option \<Rightarrow> asl_outcome" where
  "asserting r = (case r of None \<Rightarrow> Inl () | Some al \<Rightarrow> Inr (Some al))"

fun asl_next :: "asl_event \<Rightarrow> assembly_line \<Rightarrow> asl_outcome" where
  "asl_next Init_done al =
     Inr (if al_open al \<or> asl_wait_until_all_workers_ready al then None else Some (al\<lparr>al_open := True\<rparr>))"
| "asl_next (Push x) al =
     (if \<not> al_open al then Inr None
      else asserting (assembly_line_push_new_item x (al\<lparr>al_pushed := al_pushed al @ [x]\<rparr>)))"
| "asl_next Engine_step al =
     (case al_engine al of
        Eng_started \<Rightarrow> Inr (Some (asl_engine_round al))
      | Eng_woken \<Rightarrow> asserting (asl_engine_collect al)
      | Eng_idle_woken \<Rightarrow> Inr (Some (asl_engine_round al))
      | _ \<Rightarrow> Inr None)"
| "asl_next (Worker_step i) al =
     (if length (al_workers al) \<le> i then Inr None
      else case wk_pc (al_workers al ! i) of
        Wk_start \<Rightarrow> asserting (worker_initialize i al)
      | Wk_parked \<Rightarrow> Inr None
      | Wk_woken \<Rightarrow> Inr (Some (set_pc i Wk_work al))
      | Wk_work \<Rightarrow> Inr (Some (worker_operate i al))
      | Wk_remove \<Rightarrow> asserting (worker_remove i al)
      | Wk_move \<Rightarrow> Inr (Some (worker_move i al))
      | Wk_done \<Rightarrow> Inr (Some (worker_report i al)))"

text \<open>A new assembly line with its worker functions, as the applications set it up.\<close>

definition asl_start :: "addr list \<Rightarrow> assembly_line option" where
  "asl_start works =
     map_option (\<lambda>al. assembly_line_init_worker_threads
         (fold (\<lambda>(i, f). assembly_line_register_worker_fns i f) (enumerate 0 works) al))
       (assembly_line_get_new_assembly_line (length works))"

fun asl_run :: "asl_event list \<Rightarrow> assembly_line \<Rightarrow> asl_outcome" where
  "asl_run [] al = Inr (Some al)"
| "asl_run (e # es) al =
     (case asl_next e al of Inr (Some al') \<Rightarrow> asl_run es al' | r \<Rightarrow> r)"

text \<open>What the applications have to respect: objects are new and not NULL, the wait list has room,
  and an object is not pushed onto a line that is empty but has a round in progress.\<close>

definition asl_client :: "asl_event \<Rightarrow> assembly_line \<Rightarrow> bool" where
  "asl_client e al \<longleftrightarrow> (case e of
     Push x \<Rightarrow> x \<noteq> 0 \<and> x \<notin> set (al_pushed al) \<and>
       (if fq_count (al_q al) = 0 then al_state al \<noteq> ASL_IN_PROGRESS else \<not> is_queue_full (al_wait_lst al))
   | _ \<Rightarrow> True)"

inductive asl_reach :: "addr list \<Rightarrow> assembly_line \<Rightarrow> bool" for works where
  start: "asl_start works = Some al \<Longrightarrow> asl_reach works al"
| step: "asl_reach works al \<Longrightarrow> asl_client e al \<Longrightarrow> asl_next e al = Inr (Some al') \<Longrightarrow> asl_reach works al'"

end
