(* ===== verification/AslInvariant.thy ===== *)
theory AslInvariant
  imports AssemblyLine
begin

text \<open>
  Correctness of the assembly line: the ring of slots seen from the first worker, an invariant of
  workers, objects and order, its preservation by every step of a worker, the engine and the
  applications, and the properties that follow.
\<close>

section \<open>The ring seen from the first worker\<close>

text \<open>With \<open>b\<close> the slot of the first worker at the start of a round, element \<open>i\<close> of the rotated
  ring is the object of worker \<open>i\<close>.\<close>

lemma mod_shift_inj:
  assumes "i < n" "j < n" "(b + i) mod n = (b + j) mod (n::nat)"
  shows "i = j"
proof -
  have "rotate b [0..<n] ! i = rotate b [0..<n] ! j" using assms by (simp add: nth_rotate)
  then show ?thesis using assms(1,2) by (simp add: nth_eq_iff_index_eq)
qed

lemma rotate_update:
  assumes "i < length es"
  shows "rotate b (es[(b + i) mod length es := x]) = (rotate b es)[i := x]"
proof (rule nth_equalityI)
  fix j assume "j < length (rotate b (es[(b + i) mod length es := x]))"
  then have j: "j < length es" by simp
  have n: "0 < length es" using assms by (cases es) auto
  have "(b + i) mod length es = (b + j) mod length es \<longleftrightarrow> i = j"
    using mod_shift_inj [OF assms j] by blast
  then show "rotate b (es[(b + i) mod length es := x]) ! j = (rotate b es)[i := x] ! j"
    using assms j n by (simp add: nth_rotate nth_list_update)
qed simp

lemma last_first: "L \<noteq> [] \<Longrightarrow> drop (length L - 1) L @ take (length L - 1) L = last L # butlast L"
  by (cases L rule: rev_cases) auto

lemma rotate_back:
  assumes "es \<noteq> []"
  shows "rotate (b + length es - 1) es = last (rotate b es) # butlast (rotate b es)"
proof -
  let ?L = "rotate b es"
  have n: "length es - 1 < length es" using assms by (cases es) auto
  have "rotate (b + length es - 1) es = rotate (length es - 1) ?L"
    using assms by (cases es) (simp_all add: rotate_rotate add.commute)
  also have "\<dots> = drop (length es - 1) ?L @ take (length es - 1) ?L"
    using n by (simp add: rotate_drop_take)
  also have "\<dots> = last ?L # butlast ?L"
    using last_first [of ?L] assms by simp
  finally show ?thesis .
qed

lemma mod_pred:
  assumes "0 < (n::nat)"
  shows "(if k mod n = 0 then n - 1 else k mod n - 1) = (k + n - 1) mod n"
proof -
  have "k + n - 1 = k + (n - 1)" using assms by simp
  then have eq: "(k + n - 1) mod n = (k mod n + (n - 1)) mod n" by (simp only: mod_add_left_eq)
  show ?thesis
  proof (cases "k mod n = 0")
    case False
    then have "k mod n + (n - 1) = (k mod n - 1) + n" using assms by simp
    moreover have "k mod n - 1 < n" using assms by (simp add: less_imp_diff_less)
    ultimately have "(k mod n + (n - 1)) mod n = k mod n - 1" by (simp only: mod_add_self2 mod_less)
    then show ?thesis unfolding eq using False by simp
  qed (use assms eq in simp)
qed

abbreviation nonnull :: "addr list \<Rightarrow> addr list" where
  "nonnull \<equiv> filter (\<lambda>x. x \<noteq> 0)"

lemma nonnull_distinct:
  assumes "distinct (nonnull L)" "i < length L" "j < length L" "L ! i \<noteq> 0" "L ! i = L ! j"
  shows "i = j"
proof -
  have less: "L ! i \<noteq> L ! j" if "i < j" "j < length L" "L ! i \<noteq> 0" for i j
  proof
    assume eq: "L ! i = L ! j"
    have "L ! i \<in> set (nonnull (take (Suc i) L))" using that by (auto simp: in_set_conv_nth)
    moreover have "L ! j = drop (Suc i) L ! (j - Suc i)" using that by simp
    then have "L ! j \<in> set (nonnull (drop (Suc i) L))"
      using that eq by (auto simp: in_set_conv_nth intro!: exI [of _ "j - Suc i"])
    moreover have "distinct (nonnull (take (Suc i) L) @ nonnull (drop (Suc i) L))"
      using assms(1) by (simp flip: filter_append)
    ultimately show False using eq unfolding distinct_append by auto
  qed
  show ?thesis using less [of i j] less [of j i] assms(2-5) by (cases i j rule: linorder_cases) auto
qed

section \<open>The invariant\<close>

fun in_round :: "engine_pc \<Rightarrow> bool" where
  "in_round Eng_waiting \<longleftrightarrow> True"
| "in_round Eng_woken \<longleftrightarrow> True"
| "in_round _ \<longleftrightarrow> False"

text \<open>The number of worker functions applied to the object of worker \<open>i\<close>.\<close>

definition wk_stage :: "bool \<Rightarrow> nat \<Rightarrow> asl_worker_pc \<Rightarrow> nat" where
  "wk_stage rnd i pc = (if rnd \<and> pc \<noteq> Wk_woken \<and> pc \<noteq> Wk_work then Suc i else i)"

definition worker_ok :: "addr list \<Rightarrow> nat \<Rightarrow> bool \<Rightarrow> bool \<Rightarrow> nat \<Rightarrow> asl_worker \<Rightarrow> bool" where
  "worker_ok works b rnd opn i w \<longleftrightarrow>
     wk_curr_slot w = (if rnd \<and> (wk_pc w = Wk_done \<or> wk_pc w = Wk_parked)
       then (b + i + length works - 1) mod length works else (b + i) mod length works) \<and>
     (wk_pc w \<noteq> Wk_start \<longrightarrow> wk_work w = works ! i) \<and>
     (if rnd then wk_pc w \<noteq> Wk_start \<and> (wk_pc w = Wk_remove \<longrightarrow> Suc i = length works)
      else wk_pc w = Wk_parked \<or> \<not> opn \<and> wk_pc w = Wk_start \<and> b = 0)"

definition workers_ok :: "addr list \<Rightarrow> nat \<Rightarrow> bool \<Rightarrow> bool \<Rightarrow> asl_worker list \<Rightarrow> bool" where
  "workers_ok works b rnd opn ws \<longleftrightarrow> length ws = length works \<and>
     (\<forall>i<length works. worker_ok works b rnd opn i (ws ! i))"

definition objects_ok :: "addr list \<Rightarrow> bool \<Rightarrow> asl_worker list \<Rightarrow> addr list \<Rightarrow> (addr \<Rightarrow> addr list) \<Rightarrow>
  addr list \<Rightarrow> bool" where
  "objects_ok works rnd ws L log fin \<longleftrightarrow> length L = length works \<and>
     (\<forall>i<length works. L ! i \<noteq> 0 \<longrightarrow> log (L ! i) = take (wk_stage rnd i (wk_pc (ws ! i))) works) \<and>
     (rnd \<longrightarrow> (wk_pc (ws ! (length works - 1)) \<in> {Wk_move, Wk_done, Wk_parked} \<longrightarrow> L ! (length works - 1) = 0) \<and>
       (wk_pc (ws ! (length works - 1)) = Wk_remove \<longrightarrow> L ! (length works - 1) \<noteq> 0)) \<and>
     (\<forall>x\<in>set fin. log x = works) \<and> (\<forall>x. x \<noteq> 0 \<longrightarrow> x \<notin> set fin \<longrightarrow> x \<notin> set L \<longrightarrow> log x = [])"

definition order_ok :: "addr list \<Rightarrow> addr list \<Rightarrow> addr list \<Rightarrow> addr list \<Rightarrow> bool" where
  "order_ok L fin waiting pushed \<longleftrightarrow>
     pushed = fin @ nonnull (rev L) @ waiting \<and> distinct pushed \<and> 0 \<notin> set pushed"

definition engine_ok :: "assembly_line \<Rightarrow> bool" where
  "engine_ok al \<longleftrightarrow> (case al_engine al of
     Eng_absent \<Rightarrow> al_state al = ASL_NOT_STARTED \<and> fq_count (al_q al) = 0 \<and> fq_contents (al_wait_lst al) = []
   | Eng_started \<Rightarrow> al_state al = ASL_NOT_STARTED \<and> fq_count (al_q al) \<noteq> 0
   | Eng_waiting \<Rightarrow> al_state al = ASL_IN_PROGRESS \<and> al_ready al < al_size al
   | Eng_woken \<Rightarrow> al_state al = ASL_IN_PROGRESS \<and> al_ready al = al_size al
   | Eng_idle \<Rightarrow> al_state al = ASL_WAIT \<and> fq_count (al_q al) = 0 \<and> fq_contents (al_wait_lst al) = []
   | Eng_idle_woken \<Rightarrow> al_state al = ASL_IN_PROGRESS \<and> fq_count (al_q al) \<noteq> 0) \<and>
   (al_open al \<or> al_engine al = Eng_absent)"

definition frame_ok :: "addr list \<Rightarrow> assembly_line \<Rightarrow> bool" where
  "frame_ok works al \<longleftrightarrow> 2 \<le> length works \<and> 0 \<notin> set works \<and> al_size al = length works \<and> al_work_fns al = works \<and>
     al_T0 al = Some 0 \<and> al_Tn al = Some (length works - 1) \<and>
     fifo_slots_ok (al_q al) \<and> fq_size (al_q al) = length works \<and>
     fifo_ok (al_wait_lst al) \<and> fq_size (al_wait_lst al) = 50 \<and>
     al_ready al = length (filter (\<lambda>w. wk_pc w = Wk_parked) (al_workers al))"

definition asl_inv_at :: "addr list \<Rightarrow> nat \<Rightarrow> assembly_line \<Rightarrow> bool" where
  "asl_inv_at works b al \<longleftrightarrow> frame_ok works al \<and> engine_ok al \<and>
     workers_ok works b (in_round (al_engine al)) (al_open al) (al_workers al) \<and>
     objects_ok works (in_round (al_engine al)) (al_workers al) (rotate b (fq_elem (al_q al))) (al_log al) (al_finished al) \<and>
     order_ok (rotate b (fq_elem (al_q al))) (al_finished al) (fq_contents (al_wait_lst al)) (al_pushed al)"

lemma slots_replace:
  assumes "fifo_slots_ok q" "i < fq_size q"
  shows "\<exists>q'. Fifo_insert_or_replace_at_index q x i = Some (fq_elem q ! i, q') \<and>
    fifo_slots_ok q' \<and> fq_elem q' = (fq_elem q)[i := x] \<and> fq_size q' = fq_size q"
proof -
  have i: "i < length (fq_elem q)" using assms by (simp add: fifo_slots_ok_def)
  from filter_update_length [OF i, of "\<lambda>x. x \<noteq> 0" x] assms i
  show ?thesis
    by (auto simp: Fifo_insert_or_replace_at_index_def fifo_slots_ok_def Let_def split: if_splits)
qed

lemma slots_count:
  "fifo_slots_ok q \<Longrightarrow> fq_count q = length (nonnull (rotate b (fq_elem q)))"
proof -
  let ?es = "fq_elem q"
  assume "fifo_slots_ok q"
  then have "fq_count q = length (nonnull (take (b mod length ?es) ?es @ drop (b mod length ?es) ?es))"
    by (simp add: fifo_slots_ok_def)
  then show ?thesis by (simp only: rotate_drop_take filter_append length_append add.commute)
qed

text \<open>The object of a worker that has not moved.\<close>

lemma slot_object:
  assumes "fifo_slots_ok q" "fq_size q = n" "i < n"
  shows "fq_elem q ! ((b + i) mod n) = rotate b (fq_elem q) ! i" "(b + i) mod n < n"
  using assms by (auto simp: fifo_slots_ok_def nth_rotate)

section \<open>Steps of a worker\<close>

lemma workers_update:
  "workers_ok works b rnd opn ws \<Longrightarrow> i < length works \<Longrightarrow> worker_ok works b rnd opn i w \<Longrightarrow>
    workers_ok works b rnd opn (ws[i := w])"
  by (simp add: workers_ok_def nth_list_update)

lemma workers_at: "workers_ok works b rnd opn ws \<Longrightarrow> i < length works \<Longrightarrow> worker_ok works b rnd opn i (ws ! i)"
  by (simp add: workers_ok_def)

lemma objects_update:
  assumes "objects_ok works rnd ws L log fin" "i < length works" "length ws = length works"
    and "L ! i \<noteq> 0 \<Longrightarrow> wk_stage rnd i (wk_pc w) = wk_stage rnd i (wk_pc (ws ! i))"
    and "rnd \<Longrightarrow> Suc i = length works \<Longrightarrow>
      (wk_pc w \<in> {Wk_move, Wk_done, Wk_parked} \<longrightarrow> L ! i = 0) \<and> (wk_pc w = Wk_remove \<longrightarrow> L ! i \<noteq> 0)"
  shows "objects_ok works rnd (ws[i := w]) L log fin"
proof -
  have "length works - 1 = i \<longleftrightarrow> Suc i = length works" using assms(2) by auto
  with assms show ?thesis unfolding objects_ok_def by (auto simp: nth_list_update)
qed

lemma parked_update:
  assumes "i < length ws"
  shows "length (filter (\<lambda>w. wk_pc w = Wk_parked) (ws[i := w])) + (if wk_pc (ws ! i) = Wk_parked then 1 else 0) =
    length (filter (\<lambda>w. wk_pc w = Wk_parked) ws) + (if wk_pc w = Wk_parked then 1 else 0)"
  by (rule filter_update_length [OF assms])

lemma parked_all:
  assumes "length (filter P ws) = length ws" "i < length ws"
  shows "P (ws ! i)"
  using assms by (metis filter_id_conv length_filter_less nth_mem less_irrefl)

text \<open>A worker that is not waiting is in a round, and the engine waits for it.\<close>

lemma busy_round:
  assumes "asl_inv_at works b al" "i < length (al_workers al)" "wk_pc (al_workers al ! i) \<notin> {Wk_parked, Wk_start}"
  shows "al_engine al = Eng_waiting" "al_open al"
proof -
  have w: "worker_ok works b (in_round (al_engine al)) (al_open al) i (al_workers al ! i)"
    and len: "length (al_workers al) = length works"
    using assms(1,2) by (auto simp: asl_inv_at_def workers_ok_def)
  then have "in_round (al_engine al)" using assms(3) by (auto simp: worker_ok_def split: if_splits)
  moreover have "al_engine al \<noteq> Eng_woken"
  proof
    assume "al_engine al = Eng_woken"
    then have "length (filter (\<lambda>w. wk_pc w = Wk_parked) (al_workers al)) = length (al_workers al)"
      using assms(1) len by (simp add: asl_inv_at_def engine_ok_def frame_ok_def)
    from parked_all [OF this assms(2)] show False using assms(3) by simp
  qed
  ultimately show e: "al_engine al = Eng_waiting" by (cases "al_engine al") auto
  show "al_open al" using assms(1) e by (auto simp: asl_inv_at_def engine_ok_def)
qed

lemma asl_invD:
  assumes "asl_inv_at works b al"
  shows "2 \<le> length works" "al_size al = length works" "length (al_workers al) = length works"
    "al_Tn al = Some (length works - 1)" "al_T0 al = Some 0" "al_work_fns al = works" "0 \<notin> set works"
    "fifo_slots_ok (al_q al)" "fq_size (al_q al) = length works" "length (fq_elem (al_q al)) = length works"
  using assms by (auto simp: asl_inv_at_def frame_ok_def workers_ok_def fifo_slots_ok_def)

text \<open>A step of worker \<open>i\<close> in a round that changes only its own descriptor.\<close>

lemma worker_local:
  assumes inv: "asl_inv_at works b al" and i: "i < length works"
    and busy: "wk_pc (al_workers al ! i) \<notin> {Wk_parked, Wk_start}" and pc: "wk_pc w \<noteq> Wk_parked"
    and w: "worker_ok works b True True i w"
    and stage: "rotate b (fq_elem (al_q al)) ! i \<noteq> 0 \<Longrightarrow>
      wk_stage True i (wk_pc w) = wk_stage True i (wk_pc (al_workers al ! i))"
    and last: "Suc i = length works \<Longrightarrow>
      (wk_pc w \<in> {Wk_move, Wk_done, Wk_parked} \<longrightarrow> rotate b (fq_elem (al_q al)) ! i = 0) \<and>
      (wk_pc w = Wk_remove \<longrightarrow> rotate b (fq_elem (al_q al)) ! i \<noteq> 0)"
  shows "asl_inv_at works b (al\<lparr>al_workers := (al_workers al)[i := w]\<rparr>)"
proof -
  have len: "length (al_workers al) = length works" by (rule asl_invD(3) [OF inv])
  have e: "al_engine al = Eng_waiting" "al_open al" using busy_round [OF inv _ busy] i len by auto
  have "length (filter (\<lambda>w. wk_pc w = Wk_parked) ((al_workers al)[i := w])) =
    length (filter (\<lambda>w. wk_pc w = Wk_parked) (al_workers al))"
    using parked_update [of i "al_workers al" w] busy pc i len by simp
  moreover have "workers_ok works b True True ((al_workers al)[i := w])"
    using inv w i e by (intro workers_update) (auto simp: asl_inv_at_def)
  moreover have "objects_ok works True ((al_workers al)[i := w]) (rotate b (fq_elem (al_q al))) (al_log al) (al_finished al)"
    using inv i e len stage last by (intro objects_update) (auto simp: asl_inv_at_def)
  ultimately show ?thesis using inv e by (simp add: asl_inv_at_def frame_ok_def engine_ok_def)
qed

lemma worker_woken_inv:
  assumes inv: "asl_inv_at works b al" and i: "i < length works" and pc: "wk_pc (al_workers al ! i) = Wk_woken"
  shows "asl_inv_at works b (set_pc i Wk_work al)"
proof -
  have len: "length (al_workers al) = length works" by (rule asl_invD(3) [OF inv])
  have e: "al_engine al = Eng_waiting" "al_open al" using busy_round [OF inv] i len pc by auto
  have "worker_ok works b True True i (al_workers al ! i)"
    using inv e i by (auto simp: asl_inv_at_def intro: workers_at)
  then show ?thesis unfolding set_pc_def
    using pc by (intro worker_local [OF inv i]) (auto simp: worker_ok_def wk_stage_def)
qed

lemma worker_move_inv:
  assumes inv: "asl_inv_at works b al" and i: "i < length works" and pc: "wk_pc (al_workers al ! i) = Wk_move"
  shows "asl_inv_at works b (worker_move i al)"
proof -
  have len: "length (al_workers al) = length works" by (rule asl_invD(3) [OF inv])
  have e: "al_engine al = Eng_waiting" "al_open al" using busy_round [OF inv] i len pc by auto
  have w: "worker_ok works b True True i (al_workers al ! i)"
    using inv e i by (auto simp: asl_inv_at_def intro: workers_at)
  have n: "0 < length works" using asl_invD(1) [OF inv] by linarith
  have O: "objects_ok works True (al_workers al) (rotate b (fq_elem (al_q al))) (al_log al) (al_finished al)"
    using inv e by (simp add: asl_inv_at_def)
  have "rotate b (fq_elem (al_q al)) ! i = 0" if "Suc i = length works"
  proof -
    from that have "length works - 1 = i" by simp
    then show ?thesis using O pc by (simp add: objects_ok_def)
  qed
  then show ?thesis unfolding worker_move_def Let_def
    using w pc mod_pred [OF n, of "b + i"] asl_invD(2) [OF inv]
    by (intro worker_local [OF inv i]) (auto simp: worker_ok_def wk_stage_def)
qed

lemma worker_report_inv:
  assumes inv: "asl_inv_at works b al" and i: "i < length works" and pc: "wk_pc (al_workers al ! i) = Wk_done"
  shows "asl_inv_at works b (worker_report i al)"
proof -
  let ?w = "(al_workers al ! i)\<lparr>wk_pc := Wk_parked\<rparr>" and ?ws = "(al_workers al)[i := (al_workers al ! i)\<lparr>wk_pc := Wk_parked\<rparr>]"
  have len: "length (al_workers al) = length works" by (rule asl_invD(3) [OF inv])
  have e: "al_engine al = Eng_waiting" "al_open al" using busy_round [OF inv] i len pc by auto
  have w: "worker_ok works b True True i (al_workers al ! i)"
    using inv e i by (auto simp: asl_inv_at_def intro: workers_at)
  have "workers_ok works b True True ?ws"
    using inv w i e pc by (intro workers_update) (auto simp: asl_inv_at_def worker_ok_def)
  moreover have "objects_ok works True ?ws (rotate b (fq_elem (al_q al))) (al_log al) (al_finished al)"
  proof (rule objects_update [OF _ i len])
    show O: "objects_ok works True (al_workers al) (rotate b (fq_elem (al_q al))) (al_log al) (al_finished al)"
      using inv e by (simp add: asl_inv_at_def)
    assume "Suc i = length works"
    then have "length works - 1 = i" by simp
    then show "(wk_pc ?w \<in> {Wk_move, Wk_done, Wk_parked} \<longrightarrow> rotate b (fq_elem (al_q al)) ! i = 0) \<and>
      (wk_pc ?w = Wk_remove \<longrightarrow> rotate b (fq_elem (al_q al)) ! i \<noteq> 0)"
      using O pc by (simp add: objects_ok_def)
  qed (simp add: pc wk_stage_def)
  moreover have "length (filter (\<lambda>w. wk_pc w = Wk_parked) ?ws) =
    Suc (length (filter (\<lambda>w. wk_pc w = Wk_parked) (al_workers al)))"
    using parked_update [of i "al_workers al" ?w] pc i len by simp
  moreover have "al_ready al < al_size al" using inv e by (simp add: asl_inv_at_def engine_ok_def)
  ultimately show ?thesis using inv e
    by (auto simp: worker_report_def set_pc_def asl_signal_engine_def asl_inv_at_def frame_ok_def engine_ok_def Let_def)
qed

lemma order_distinct:
  assumes "order_ok L fin waiting pushed"
  shows "distinct (nonnull L)" "x \<in> set L \<Longrightarrow> x \<noteq> 0 \<Longrightarrow> x \<notin> set fin" "x \<in> set waiting \<Longrightarrow> x \<notin> set L \<and> x \<notin> set fin \<and> x \<noteq> 0"
proof -
  have d: "distinct (fin @ nonnull (rev L) @ waiting)" "0 \<notin> set (fin @ nonnull (rev L) @ waiting)"
    using assms unfolding order_ok_def by metis+
  then have "distinct (rev (nonnull L))" by (simp flip: rev_filter)
  then show "distinct (nonnull L)" by simp
  show "x \<in> set L \<Longrightarrow> x \<noteq> 0 \<Longrightarrow> x \<notin> set fin" "x \<in> set waiting \<Longrightarrow> x \<notin> set L \<and> x \<notin> set fin \<and> x \<noteq> 0"
    using d by auto
qed

lemma order_same:
  assumes "order_ok L fin waiting pushed" "fin' @ nonnull (rev L') @ waiting' = fin @ nonnull (rev L) @ waiting"
  shows "order_ok L' fin' waiting' pushed"
  using assms unfolding order_ok_def by metis

text \<open>The work on the object of worker \<open>i\<close>.\<close>

lemma objects_operate:
  assumes "objects_ok works True ws L log fin" "order_ok L fin waiting pushed" "i < length works"
    "length ws = length works" "wk_pc (ws ! i) = Wk_work" "L ! i \<noteq> 0"
    "wk_pc w = (if Suc i = length works then Wk_remove else Wk_move)"
  shows "objects_ok works True (ws[i := w]) L (log(L ! i := log (L ! i) @ [works ! i])) fin"
proof -
  let ?log = "log(L ! i := log (L ! i) @ [works ! i])"
  have L: "length L = length works" using assms(1) by (simp add: objects_ok_def)
  note d = order_distinct [OF assms(2)]
  have "L ! i \<in> set L" using assms(3) L by simp
  then have fin: "L ! i \<notin> set fin" using d(2) assms(6) by blast
  have own: "log (L ! i) = take i works"
    using assms(1,3,5,6) by (simp add: objects_ok_def wk_stage_def)
  have "?log (L ! j) = take (wk_stage True j (wk_pc (ws[i := w] ! j))) works" if j: "j < length works" "L ! j \<noteq> 0" for j
  proof (cases "j = i")
    case True
    then show ?thesis using own assms(3,4,7) by (simp add: wk_stage_def take_Suc_conv_app_nth)
  next
    case False
    then have "L ! j \<noteq> L ! i" using nonnull_distinct [OF d(1), of j i] j assms(3) L by auto
    then show ?thesis using assms(1) j False by (simp add: objects_ok_def)
  qed
  moreover have "(wk_pc (ws[i := w] ! (length works - 1)) \<in> {Wk_move, Wk_done, Wk_parked} \<longrightarrow> L ! (length works - 1) = 0) \<and>
    (wk_pc (ws[i := w] ! (length works - 1)) = Wk_remove \<longrightarrow> L ! (length works - 1) \<noteq> 0)"
  proof (cases "Suc i = length works")
    case True
    then have "length works - 1 = i" by simp
    then show ?thesis using True assms(3,4,6,7) by simp
  next
    case False
    then have "length works - 1 \<noteq> i" using assms(3) by simp
    then show ?thesis using assms(1) by (simp add: objects_ok_def)
  qed
  moreover have "\<forall>x\<in>set fin. ?log x = works" using assms(1) fin by (simp add: objects_ok_def)
  moreover have "\<forall>x. x \<noteq> 0 \<longrightarrow> x \<notin> set fin \<longrightarrow> x \<notin> set L \<longrightarrow> ?log x = []"
    using assms(1) \<open>L ! i \<in> set L\<close> by (simp add: objects_ok_def)
  ultimately show ?thesis using L unfolding objects_ok_def by blast
qed

lemma worker_operate_inv:
  assumes inv: "asl_inv_at works b al" and i: "i < length works" and pc: "wk_pc (al_workers al ! i) = Wk_work"
  shows "asl_inv_at works b (worker_operate i al)"
proof -
  note D = asl_invD [OF inv]
  let ?w = "al_workers al ! i" and ?L = "rotate b (fq_elem (al_q al))"
  have e: "al_engine al = Eng_waiting" "al_open al" using busy_round [OF inv] i D(3) pc by auto
  have w: "worker_ok works b True True i ?w"
    using inv e i by (auto simp: asl_inv_at_def intro: workers_at)
  have obj: "fq_elem (al_q al) ! wk_curr_slot ?w = ?L ! i"
    using w pc slot_object(1) [OF D(8,9) i, of b] by (simp add: worker_ok_def)
  have last: "al_Tn al = Some i \<longleftrightarrow> Suc i = length works" using D(4) i by auto
  show ?thesis
  proof (cases "?L ! i = 0")
    case True
    then have "worker_operate i al = al\<lparr>al_workers := (al_workers al)[i := ?w\<lparr>wk_pc := Wk_move\<rparr>]\<rparr>"
      by (simp add: worker_operate_def obj set_pc_def)
    moreover have "asl_inv_at works b (al\<lparr>al_workers := (al_workers al)[i := ?w\<lparr>wk_pc := Wk_move\<rparr>]\<rparr>)"
      using w pc True by (intro worker_local [OF inv i]) (auto simp: worker_ok_def)
    ultimately show ?thesis by simp
  next
    case False
    let ?v = "?w\<lparr>wk_pc := if Suc i = length works then Wk_remove else Wk_move\<rparr>"
    let ?ws = "(al_workers al)[i := ?v]"
    have eq: "worker_operate i al = al\<lparr>al_workers := ?ws,
        al_log := (al_log al)(?L ! i := al_log al (?L ! i) @ [works ! i])\<rparr>"
      using False w pc last slot_object(1) [OF D(8,9) i, of b]
      by (simp add: worker_operate_def set_pc_def worker_ok_def Let_def)
    have "workers_ok works b True True ?ws"
      using inv w i e pc by (intro workers_update) (auto simp: asl_inv_at_def worker_ok_def)
    moreover have "objects_ok works True ?ws ?L ((al_log al)(?L ! i := al_log al (?L ! i) @ [works ! i])) (al_finished al)"
      using inv e i D(3) pc False by (intro objects_operate) (auto simp: asl_inv_at_def)
    moreover have "length (filter (\<lambda>w. wk_pc w = Wk_parked) ?ws) =
      length (filter (\<lambda>w. wk_pc w = Wk_parked) (al_workers al))"
      using parked_update [of i "al_workers al" ?v] pc i D(3) by simp
    ultimately show ?thesis using inv e unfolding eq
      by (simp add: asl_inv_at_def frame_ok_def engine_ok_def)
  qed
qed

text \<open>The last worker takes a finished object out.\<close>

lemma worker_remove_inv:
  assumes inv: "asl_inv_at works b al" and i: "i < length works" and pc: "wk_pc (al_workers al ! i) = Wk_remove"
  shows "\<exists>al'. worker_remove i al = Some al' \<and> asl_inv_at works b al'"
proof -
  note D = asl_invD [OF inv]
  let ?w = "al_workers al ! i" and ?L = "rotate b (fq_elem (al_q al))"
  have e: "al_engine al = Eng_waiting" "al_open al" using busy_round [OF inv] i D(3) pc by auto
  have w: "worker_ok works b True True i ?w"
    using inv e i by (auto simp: asl_inv_at_def intro: workers_at)
  have last: "length works = Suc i" using w pc by (simp add: worker_ok_def)
  have slot: "wk_curr_slot ?w = (b + i) mod length works" using w pc by (simp add: worker_ok_def)
  note sl = slot_object [OF D(8,9) i, of b]
  obtain q where q: "Fifo_insert_or_replace_at_index (al_q al) 0 (wk_curr_slot ?w) = Some (?L ! i, q)"
    "fifo_slots_ok q" "fq_elem q = (fq_elem (al_q al))[(b + i) mod length works := 0]" "fq_size q = length works"
    using slots_replace [OF D(8), of "(b + i) mod length works" 0] sl D(9) slot by auto
  have rot: "rotate b (fq_elem q) = ?L[i := 0]"
    using rotate_update [of i "fq_elem (al_q al)" b 0] D(10) i q(3) by simp
  let ?v = "?w\<lparr>wk_pc := Wk_move\<rparr>"
  let ?ws = "(al_workers al)[i := ?v]"
  have obj: "objects_ok works True (al_workers al) ?L (al_log al) (al_finished al)"
    and ord: "order_ok ?L (al_finished al) (fq_contents (al_wait_lst al)) (al_pushed al)"
    using inv e by (simp_all add: asl_inv_at_def)
  have x: "?L ! i \<noteq> 0" "al_log al (?L ! i) = works"
    using obj pc last i by (auto simp: objects_ok_def wk_stage_def)
  have L: "?L \<noteq> []" "length ?L = Suc i" using D(10) last by auto
  then have split: "?L = butlast ?L @ [?L ! i]"
    using append_butlast_last_id [of ?L] by (simp add: last_conv_nth)
  have upd: "?L[i := 0] = butlast ?L @ [0]"
    using L by (subst split) (simp add: list_update_append)
  have "order_ok (?L[i := 0]) (al_finished al @ [?L ! i]) (fq_contents (al_wait_lst al)) (al_pushed al)"
  proof -
    have "nonnull (rev ?L) = ?L ! i # nonnull (rev (butlast ?L))" using x(1) by (subst split) simp
    then show ?thesis unfolding upd by (intro order_same [OF ord]) simp
  qed
  moreover have "workers_ok works b True True ?ws"
    using inv w i e pc by (intro workers_update) (auto simp: asl_inv_at_def worker_ok_def)
  moreover have "objects_ok works True ?ws (?L[i := 0]) (al_log al) (al_finished al @ [?L ! i])"
  proof -
    have "set ?L \<subseteq> insert (?L ! i) (set (?L[i := 0]))"
      unfolding upd by (subst split) auto
    then show ?thesis using obj x last i L(2) D(3) unfolding objects_ok_def
      by (auto simp: nth_list_update)
  qed
  moreover have "length (filter (\<lambda>w. wk_pc w = Wk_parked) ?ws) =
      length (filter (\<lambda>w. wk_pc w = Wk_parked) (al_workers al))"
    using parked_update [of i "al_workers al" ?v] pc i D(3) by simp
  ultimately show ?thesis using inv e q(1,2,4) rot
    by (simp add: worker_remove_def set_pc_def asl_inv_at_def frame_ok_def engine_ok_def)
qed

section \<open>Steps of the engine and of the applications\<close>

text \<open>At rest: no round in progress, all workers waiting.\<close>

definition rest_ok :: "addr list \<Rightarrow> nat \<Rightarrow> assembly_line \<Rightarrow> bool" where
  "rest_ok works b al \<longleftrightarrow> frame_ok works al \<and> al_open al \<and> workers_ok works b False True (al_workers al) \<and>
     objects_ok works False (al_workers al) (rotate b (fq_elem (al_q al))) (al_log al) (al_finished al)"

lemma engine_round_inv:
  assumes "rest_ok works b al"
    and ord: "order_ok (rotate b (fq_elem (al_q al))) (al_finished al) (fq_contents (al_wait_lst al)) (al_pushed al)"
  shows "asl_inv_at works b (asl_engine_round al)"
proof -
  let ?ws = "map (\<lambda>w. if wk_pc w = Wk_parked then w\<lparr>wk_pc := Wk_woken\<rparr> else w) (al_workers al)"
  have W: "workers_ok works b False True (al_workers al)" and n: "2 \<le> length works"
    and obj: "objects_ok works False (al_workers al) (rotate b (fq_elem (al_q al))) (al_log al) (al_finished al)"
    using assms(1) by (auto simp: rest_ok_def frame_ok_def)
  have len: "length (al_workers al) = length works" using W by (simp add: workers_ok_def)
  have pc: "wk_pc (al_workers al ! i) = Wk_parked" if "i < length works" for i
    using workers_at [OF W that] by (simp add: worker_ok_def)
  then have all: "\<forall>w\<in>set (al_workers al). wk_pc w = Wk_parked" by (metis in_set_conv_nth len)
  then have "\<forall>w\<in>set ?ws. wk_pc w \<noteq> Wk_parked" by auto
  then have none: "filter (\<lambda>w. wk_pc w = Wk_parked) ?ws = []" by (simp only: filter_empty_conv)
  have "workers_ok works b True True ?ws"
    using W len by (auto simp: workers_ok_def worker_ok_def)
  moreover have "objects_ok works True ?ws (rotate b (fq_elem (al_q al))) (al_log al) (al_finished al)"
  proof -
    have "wk_pc (?ws ! i) = Wk_woken" if "i < length works" for i using pc that len by simp
    moreover have "length works - 1 < length works" using n by simp
    ultimately show ?thesis using obj unfolding objects_ok_def by (simp add: wk_stage_def)
  qed
  moreover have "works \<noteq> []" using n by (cases works) auto
  ultimately show ?thesis using assms none
    by (simp add: asl_engine_round_def asl_signal_workers_def asl_inv_at_def rest_ok_def frame_ok_def engine_ok_def)
qed

text \<open>A new object on an empty first slot.\<close>

lemma enqueue_new_item_rest:
  assumes rest: "rest_ok works b al" and "rotate b (fq_elem (al_q al)) ! 0 = 0" "x \<noteq> 0" "al_log al x = []"
  obtains q where "assembly_line_enqueue_new_item x al = Some (al\<lparr>al_q := q\<rparr>)"
    "rest_ok works b (al\<lparr>al_q := q\<rparr>)" "rotate b (fq_elem q) = (rotate b (fq_elem (al_q al)))[0 := x]"
    "fq_count q \<noteq> 0"
proof -
  let ?L = "rotate b (fq_elem (al_q al))"
  have W: "workers_ok works b False True (al_workers al)" and n: "0 < length works"
    and F: "fifo_slots_ok (al_q al)" "fq_size (al_q al) = length works" "al_T0 al = Some 0"
    and obj: "objects_ok works False (al_workers al) ?L (al_log al) (al_finished al)"
    using rest by (auto simp: rest_ok_def frame_ok_def)
  have len: "length (fq_elem (al_q al)) = length works" using F by (simp add: fifo_slots_ok_def)
  note sl = slot_object [OF F(1,2) n, of b]
  have slot: "wk_curr_slot (al_workers al ! 0) = (b + 0) mod length works"
    using workers_at [OF W n] by (simp add: worker_ok_def)
  obtain q where q: "Fifo_insert_or_replace_at_index (al_q al) x ((b + 0) mod length works) = Some (?L ! 0, q)"
    "fifo_slots_ok q" "fq_elem q = (fq_elem (al_q al))[(b + 0) mod length works := x]" "fq_size q = length works"
    using slots_replace [OF F(1), of "(b + 0) mod length works" x] sl F(2) by auto
  have rot: "rotate b (fq_elem q) = ?L[0 := x]"
    using rotate_update [of 0 "fq_elem (al_q al)" b x] len n q(3) by simp
  have "objects_ok works False (al_workers al) (?L[0 := x]) (al_log al) (al_finished al)"
  proof -
    have "set L \<subseteq> insert 0 (set (L[0 := x]))" if "L ! 0 = 0" for L :: "addr list"
      using that by (cases L) auto
    from this [OF assms(2)] have "set ?L \<subseteq> insert 0 (set (?L[0 := x]))" .
    then show ?thesis using obj assms(3,4) n unfolding objects_ok_def
      by (auto simp: nth_list_update wk_stage_def)
  qed
  then have "rest_ok works b (al\<lparr>al_q := q\<rparr>)" using rest q(2,4) rot by (simp add: rest_ok_def frame_ok_def)
  moreover have "assembly_line_enqueue_new_item x al = Some (al\<lparr>al_q := q\<rparr>)"
    using F(3) slot sl(1) assms(2) q(1) by (simp add: assembly_line_enqueue_new_item_def Let_def)
  moreover have "x \<in> set (rotate b (fq_elem q))" unfolding rot using len n by (simp add: set_update_memI)
  then have "nonnull (rotate b (fq_elem q)) \<noteq> []" using assms(3) by (auto simp: filter_empty_conv)
  then have "fq_count q \<noteq> 0" using slots_count [OF q(2), of b] by simp
  ultimately show thesis using that rot by blast
qed

lemma order_insert:
  assumes "order_ok L fin (x # waiting) pushed" "L \<noteq> []" "L ! 0 = 0"
  shows "order_ok (L[0 := x]) fin waiting pushed"
proof (rule order_same [OF assms(1)])
  have L: "L = 0 # tl L" using assms(2,3) by (cases L) auto
  have "x \<noteq> 0" using order_distinct(3) [OF assms(1), of x] by simp
  moreover have "nonnull (rev L) = nonnull (rev (tl L))" by (subst L) simp
  moreover have "L[0 := x] = x # tl L" by (subst L) simp
  ultimately show "fin @ nonnull (rev (L[0 := x])) @ waiting = fin @ nonnull (rev L) @ x # waiting" by simp
qed

lemma order_push:
  assumes "order_ok L fin waiting pushed" "x \<noteq> 0" "x \<notin> set pushed"
  shows "order_ok L fin (waiting @ [x]) (pushed @ [x])"
proof -
  have p: "pushed = fin @ nonnull (rev L) @ waiting" "distinct pushed" "0 \<notin> set pushed"
    using assms(1) unfolding order_ok_def by blast+
  have "pushed @ [x] = fin @ nonnull (rev L) @ waiting @ [x]" using p(1) by simp
  moreover have "distinct (pushed @ [x])" "0 \<notin> set (pushed @ [x])" using p(2,3) assms(2,3) by simp_all
  ultimately show ?thesis unfolding order_ok_def by blast
qed

text \<open>The end of a round: the ring is seen from the new slot of the first worker.\<close>

lemma round_done:
  assumes inv: "asl_inv_at works b al" and e: "al_engine al = Eng_woken"
  shows "rest_ok works (b + length works - 1) al"
    "rotate (b + length works - 1) (fq_elem (al_q al)) ! 0 = 0"
    "order_ok (rotate (b + length works - 1) (fq_elem (al_q al))) (al_finished al) (fq_contents (al_wait_lst al)) (al_pushed al)"
proof -
  note D = asl_invD [OF inv]
  let ?L = "rotate b (fq_elem (al_q al))" and ?n = "length works"
  have es: "fq_elem (al_q al) \<noteq> []" using D(1,10) by auto
  have L': "rotate (b + ?n - 1) (fq_elem (al_q al)) = last ?L # butlast ?L"
    using rotate_back [OF es, of b] D(10) by simp
  have opn: "al_open al" and ready: "al_ready al = ?n" and W: "workers_ok works b True True (al_workers al)"
    and obj: "objects_ok works True (al_workers al) ?L (al_log al) (al_finished al)"
    and ord: "order_ok ?L (al_finished al) (fq_contents (al_wait_lst al)) (al_pushed al)"
    using inv e D(2) by (auto simp: asl_inv_at_def engine_ok_def)
  have "length (filter (\<lambda>w. wk_pc w = Wk_parked) (al_workers al)) = length (al_workers al)"
    using inv ready D(3) by (simp add: asl_inv_at_def frame_ok_def)
  then have pc: "wk_pc (al_workers al ! i) = Wk_parked" if "i < ?n" for i
    using parked_all [of "\<lambda>w. wk_pc w = Wk_parked" "al_workers al" i] that D(3) by simp
  have last: "last ?L = 0"
    using obj pc [of "?n - 1"] D(1,10) es by (simp add: objects_ok_def last_conv_nth)
  have split: "?L = butlast ?L @ [0]" using append_butlast_last_id [of ?L] es last by simp
  have "workers_ok works (b + ?n - 1) False True (al_workers al)"
    using W pc by (simp add: workers_ok_def worker_ok_def ac_simps)
  moreover have "objects_ok works False (al_workers al) (0 # butlast ?L) (al_log al) (al_finished al)"
  proof -
    have "al_log al ((0 # butlast ?L) ! i) = take i works" if i: "i < ?n" "(0 # butlast ?L) ! i \<noteq> 0" for i
    proof (cases i)
      case (Suc k)
      then have "(0 # butlast ?L) ! i = ?L ! k" using i(1) D(10) by (simp add: nth_butlast)
      then show ?thesis using obj pc [of k] i Suc by (simp add: objects_ok_def wk_stage_def)
    qed (use i in simp)
    moreover have "set (0 # butlast ?L) = set ?L" by (subst (2) split) auto
    moreover have "length (0 # butlast ?L) = ?n" using D(1,10) by simp
    ultimately show ?thesis using obj unfolding objects_ok_def wk_stage_def by (simp only:) simp
  qed
  ultimately show "rest_ok works (b + ?n - 1) al"
    using inv opn unfolding rest_ok_def L' last by (simp add: asl_inv_at_def)
  show "rotate (b + ?n - 1) (fq_elem (al_q al)) ! 0 = 0" unfolding L' last by simp
  have "nonnull (rev (0 # butlast ?L)) = nonnull (rev ?L)" by (subst (2) split) simp
  then show "order_ok (rotate (b + ?n - 1) (fq_elem (al_q al))) (al_finished al) (fq_contents (al_wait_lst al)) (al_pushed al)"
    unfolding L' last by (intro order_same [OF ord]) simp
qed

lemma asl_engine_collect_inv:
  assumes inv: "asl_inv_at works b al" and e: "al_engine al = Eng_woken"
  shows "\<exists>b' al'. asl_engine_collect al = Some al' \<and> asl_inv_at works b' al'"
proof -
  let ?b = "b + length works - 1"
  let ?L = "rotate ?b (fq_elem (al_q al))"
  note rest = round_done [OF inv e]
  have ready: "al_ready al = al_size al" using inv e by (simp add: asl_inv_at_def engine_ok_def)
  have F: "fifo_ok (al_wait_lst al)" "fq_size (al_wait_lst al) = 50"
    using inv by (simp_all add: asl_inv_at_def frame_ok_def)
  obtain w where w: "Fifo_deque (al_wait_lst al) = Some (case fq_contents (al_wait_lst al) of [] \<Rightarrow> 0 | x # xs \<Rightarrow> x, w)"
    "fifo_ok w" "fq_size w = 50" "fq_contents w = tl (fq_contents (al_wait_lst al))"
    using fifo.deq_law [OF F(1)] F(2) by auto
  let ?al = "al\<lparr>al_wait_lst := w\<rparr>"
  have rest1: "rest_ok works ?b ?al" using rest(1) w(2,3) by (simp add: rest_ok_def frame_ok_def)
  show ?thesis
  proof (cases "fq_contents (al_wait_lst al)")
    case Nil
    have ord: "order_ok ?L (al_finished al) (fq_contents w) (al_pushed al)"
      using rest(3) Nil w(4) by simp
    show ?thesis
    proof (cases "fq_count (al_q al) = 0")
      case True
      then have "asl_inv_at works ?b (?al\<lparr>al_state := ASL_WAIT, al_engine := Eng_idle\<rparr>)"
        using rest1 ord Nil w(4) by (simp add: asl_inv_at_def rest_ok_def frame_ok_def engine_ok_def)
      then show ?thesis using True ready w(1) Nil
        by (intro exI [of _ ?b]) (simp add: asl_engine_collect_def)
    next
      case False
      have "asl_inv_at works ?b (asl_engine_round ?al)"
        using rest1 ord by (intro engine_round_inv) simp_all
      then show ?thesis using False ready w(1) Nil
        by (intro exI [of _ ?b]) (simp add: asl_engine_collect_def)
    qed
  next
    case (Cons x xs)
    have x: "x \<noteq> 0" "x \<notin> set ?L" "x \<notin> set (al_finished al)"
      using order_distinct(3) [OF rest(3), of x] Cons by auto
    then have "al_log al x = []"
      using rest(1) by (auto simp: rest_ok_def objects_ok_def)
    then obtain q where q: "assembly_line_enqueue_new_item x ?al = Some (?al\<lparr>al_q := q\<rparr>)"
      "rest_ok works ?b (?al\<lparr>al_q := q\<rparr>)" "rotate ?b (fq_elem q) = ?L[0 := x]" "fq_count q \<noteq> 0"
      using enqueue_new_item_rest [OF rest1, of x] rest(2) x(1) by auto
    have ne: "?L \<noteq> []" using asl_invD(1,10) [OF inv] by auto
    have "order_ok (?L[0 := x]) (al_finished al) xs (al_pushed al)"
      using rest(3) Cons by (intro order_insert [OF _ ne rest(2)]) simp
    then have "asl_inv_at works ?b (asl_engine_round (?al\<lparr>al_q := q\<rparr>))"
      using q(2,3) w(4) Cons by (intro engine_round_inv) simp_all
    then show ?thesis using ready w(1) Cons x(1) q(1,4)
      by (intro exI [of _ ?b]) (simp add: asl_engine_collect_def Let_def)
  qed
qed

lemma order_finished:
  assumes "order_ok L fin waiting pushed" "x \<notin> set pushed"
  shows "x \<notin> set fin"
proof -
  have "pushed = fin @ nonnull (rev L) @ waiting" using assms(1) unfolding order_ok_def by blast
  then have "set fin \<subseteq> set pushed" by (metis Un_upper1 set_append)
  then show ?thesis using assms(2) by blast
qed

lemma asl_resting:
  assumes "asl_inv_at works b al" "\<not> in_round (al_engine al)" "al_open al"
  shows "rest_ok works b al"
  using assms by (simp add: asl_inv_at_def rest_ok_def)

text \<open>A push onto an empty line at rest.\<close>

lemma push_empty_inv:
  assumes inv: "asl_inv_at works b al" and opn: "al_open al" and q0: "fq_count (al_q al) = 0"
    and st: "al_state al \<noteq> ASL_IN_PROGRESS" and x: "x \<noteq> 0" "x \<notin> set (al_pushed al)"
  shows "\<exists>al'. assembly_line_push_new_item x (al\<lparr>al_pushed := al_pushed al @ [x]\<rparr>) = Some al' \<and>
    asl_inv_at works b al'"
proof -
  let ?al = "al\<lparr>al_pushed := al_pushed al @ [x]\<rparr>" and ?L = "rotate b (fq_elem (al_q al))"
  have e: "al_engine al = Eng_absent \<or> al_engine al = Eng_idle" and W: "fq_contents (al_wait_lst al) = []"
    using inv q0 st by (cases "al_engine al"; simp add: asl_inv_at_def engine_ok_def)+
  then have rest: "rest_ok works b ?al"
    using asl_resting [OF inv _ opn] by (auto simp: rest_ok_def frame_ok_def)
  have ord: "order_ok ?L (al_finished al) [] (al_pushed al)" using inv W by (simp add: asl_inv_at_def)
  have ne: "?L \<noteq> []" using asl_invD(1,10) [OF inv] by auto
  have "nonnull ?L = []" using slots_count [OF asl_invD(8) [OF inv], of b] q0 by simp
  then have zero: "\<forall>y\<in>set ?L. y = 0" by (simp add: filter_empty_conv)
  moreover have "?L ! 0 \<in> set ?L" using ne by (intro nth_mem) simp
  ultimately have L0: "?L ! 0 = 0" by blast
  have "x \<notin> set (al_finished al)" by (rule order_finished [OF ord x(2)])
  moreover have "x \<notin> set ?L" using bspec [OF zero, of x] x(1) by blast
  moreover have "objects_ok works (in_round (al_engine al)) (al_workers al) ?L (al_log al) (al_finished al)"
    using inv by (simp only: asl_inv_at_def)
  ultimately have "al_log al x = []" using x(1) unfolding objects_ok_def by blast
  then obtain q where q: "assembly_line_enqueue_new_item x ?al = Some (?al\<lparr>al_q := q\<rparr>)"
    "rest_ok works b (?al\<lparr>al_q := q\<rparr>)" "rotate b (fq_elem q) = ?L[0 := x]" "fq_count q \<noteq> 0"
    using enqueue_new_item_rest [OF rest, of x] L0 x(1) by auto
  have ord': "order_ok (?L[0 := x]) (al_finished al) [] (al_pushed al @ [x])"
    using order_push [OF ord x] by (intro order_insert [OF _ ne L0]) simp
  have "assembly_line_push_new_item x ?al = Some (assembly_line_engine_start (?al\<lparr>al_q := q\<rparr>))"
    using q0 q(1) by (simp add: assembly_line_push_new_item_def)
  moreover have "asl_inv_at works b (assembly_line_engine_start (?al\<lparr>al_q := q\<rparr>))"
    using e q(2-4) ord' W inv opn
    by (auto simp: assembly_line_engine_start_def asl_signal_engine_def asl_inv_at_def rest_ok_def frame_ok_def
        engine_ok_def)
  ultimately show ?thesis by blast
qed

text \<open>A push into the wait list.\<close>

lemma push_wait_inv:
  assumes inv: "asl_inv_at works b al" and q: "fq_count (al_q al) \<noteq> 0"
    and room: "\<not> is_queue_full (al_wait_lst al)" and x: "x \<noteq> 0" "x \<notin> set (al_pushed al)"
  shows "\<exists>al'. assembly_line_push_new_item x (al\<lparr>al_pushed := al_pushed al @ [x]\<rparr>) = Some al' \<and>
    asl_inv_at works b al'"
proof -
  have F: "fifo_ok (al_wait_lst al)" "fq_size (al_wait_lst al) = 50"
    using inv by (simp_all add: asl_inv_at_def frame_ok_def)
  have "length (fq_contents (al_wait_lst al)) < fq_size (al_wait_lst al)"
    using room F(1) by (auto simp: fifo_ok_def fq_contents_def)
  then obtain w where w: "Fifo_enqueue (al_wait_lst al) x = Some (True, w)" "fifo_ok w" "fq_size w = 50"
    "fq_contents w = fq_contents (al_wait_lst al) @ [x]"
    using fifo.enq_law [OF F(1), of x] F(2) x(1) by auto
  let ?al = "al\<lparr>al_pushed := al_pushed al @ [x], al_wait_lst := w\<rparr>"
  have "al_engine al \<noteq> Eng_absent \<and> al_state al \<noteq> ASL_WAIT"
    using inv q by (cases "al_engine al") (auto simp: asl_inv_at_def engine_ok_def)
  then have "assembly_line_push_new_item x (al\<lparr>al_pushed := al_pushed al @ [x]\<rparr>) = Some ?al"
    using q room w(1) by (simp add: assembly_line_push_new_item_def assembly_line_engine_start_def)
  moreover have "order_ok (rotate b (fq_elem (al_q al))) (al_finished al) (fq_contents (al_wait_lst al) @ [x]) (al_pushed al @ [x])"
    using inv x by (intro order_push) (simp_all add: asl_inv_at_def)
  then have "asl_inv_at works b ?al"
    using inv w(2-4) q by (cases "al_engine al") (auto simp: asl_inv_at_def frame_ok_def engine_ok_def)
  ultimately show ?thesis by blast
qed

text \<open>A worker that starts.\<close>

lemma worker_initialize_inv:
  assumes inv: "asl_inv_at works b al" and i: "i < length works" and pc: "wk_pc (al_workers al ! i) = Wk_start"
  shows "\<exists>al'. worker_initialize i al = Some al' \<and> asl_inv_at works b al'"
proof -
  note D = asl_invD [OF inv]
  have w: "worker_ok works b (in_round (al_engine al)) (al_open al) i (al_workers al ! i)"
    using inv i by (auto simp: asl_inv_at_def intro: workers_at)
  then have r: "\<not> in_round (al_engine al)" "\<not> al_open al" "b = 0" "wk_curr_slot (al_workers al ! i) = i"
    using pc i by (auto simp: worker_ok_def split: if_splits)
  have e: "al_engine al = Eng_absent" using inv r(2) by (simp add: asl_inv_at_def engine_ok_def)
  let ?w = "(al_workers al ! i)\<lparr>wk_initialized := True, wk_work := works ! i, wk_pc := Wk_parked\<rparr>"
  have "works ! i \<noteq> 0" using D(7) i by (metis nth_mem)
  then have eq: "worker_initialize i al =
      Some (al\<lparr>al_workers := (al_workers al)[i := ?w], al_ready := al_ready al + 1\<rparr>)"
    using r(4) D(6) by (simp add: worker_initialize_def Let_def)
  have "workers_ok works b False False ((al_workers al)[i := ?w])"
    using inv w i r e by (intro workers_update) (auto simp: asl_inv_at_def worker_ok_def)
  moreover have "objects_ok works False ((al_workers al)[i := ?w]) (rotate b (fq_elem (al_q al))) (al_log al) (al_finished al)"
    using inv i D(3) e by (intro objects_update) (auto simp: asl_inv_at_def wk_stage_def)
  moreover have "length (filter (\<lambda>w. wk_pc w = Wk_parked) ((al_workers al)[i := ?w])) =
    Suc (length (filter (\<lambda>w. wk_pc w = Wk_parked) (al_workers al)))"
    using parked_update [of i "al_workers al" ?w] pc i D(3) by simp
  ultimately show ?thesis using inv e r unfolding eq
    by (auto simp: asl_inv_at_def frame_ok_def engine_ok_def)
qed

lemma init_done_inv:
  assumes inv: "asl_inv_at works b al" and "\<not> al_open al" "\<not> asl_wait_until_all_workers_ready al"
  shows "asl_inv_at works b (al\<lparr>al_open := True\<rparr>)"
proof -
  note D = asl_invD [OF inv]
  have e: "al_engine al = Eng_absent" using inv assms(2) by (simp add: asl_inv_at_def engine_ok_def)
  have "length (filter (\<lambda>w. wk_pc w = Wk_parked) (al_workers al)) = length (al_workers al)"
    using inv assms(3) D(3) by (simp add: asl_inv_at_def frame_ok_def asl_wait_until_all_workers_ready_def)
  then have "wk_pc (al_workers al ! i) = Wk_parked" if "i < length works" for i
    using parked_all [of "\<lambda>w. wk_pc w = Wk_parked" "al_workers al" i] that D(3) by simp
  then have "workers_ok works b False True (al_workers al)"
    using inv e assms(2) by (simp add: asl_inv_at_def workers_ok_def worker_ok_def)
  then show ?thesis using inv e by (auto simp: asl_inv_at_def frame_ok_def engine_ok_def)
qed

lemma asl_next_inv:
  assumes inv: "asl_inv_at works b al" and client: "asl_client e al"
  shows "asl_next e al = Inr None \<or> (\<exists>b' al'. asl_next e al = Inr (Some al') \<and> asl_inv_at works b' al')"
proof (cases e)
  case Init_done
  then show ?thesis using init_done_inv [OF inv] by auto
next
  case (Push x)
  show ?thesis
  proof (cases "al_open al")
    case True
    have "\<exists>al'. assembly_line_push_new_item x (al\<lparr>al_pushed := al_pushed al @ [x]\<rparr>) = Some al' \<and> asl_inv_at works b al'"
    proof (cases "fq_count (al_q al) = 0")
      case q0: True
      then show ?thesis using client Push by (intro push_empty_inv [OF inv True]) (auto simp: asl_client_def)
    next
      case False
      then show ?thesis using client Push by (intro push_wait_inv [OF inv]) (auto simp: asl_client_def)
    qed
    then show ?thesis using Push True by (auto simp: asserting_def)
  qed (simp add: Push)
next
  case Engine_step
  show ?thesis
  proof (cases "al_engine al")
    case Eng_woken
    then show ?thesis using asl_engine_collect_inv [OF inv Eng_woken] Engine_step by (auto simp: asserting_def)
  next
    case Eng_started
    then have "al_open al" using inv by (auto simp: asl_inv_at_def engine_ok_def)
    then have "asl_inv_at works b (asl_engine_round al)" using inv Eng_started
      by (intro engine_round_inv asl_resting) (auto simp: asl_inv_at_def)
    then show ?thesis using Engine_step Eng_started by auto
  next
    case Eng_idle_woken
    then have "al_open al" using inv by (auto simp: asl_inv_at_def engine_ok_def)
    then have "asl_inv_at works b (asl_engine_round al)" using inv Eng_idle_woken
      by (intro engine_round_inv asl_resting) (auto simp: asl_inv_at_def)
    then show ?thesis using Engine_step Eng_idle_woken by auto
  qed (simp_all add: Engine_step)
next
  case (Worker_step i)
  show ?thesis
  proof (cases "i < length works")
    case i: True
    then have "i < length (al_workers al)" using asl_invD(3) [OF inv] by simp
    then show ?thesis using Worker_step
        worker_initialize_inv [OF inv i] worker_woken_inv [OF inv i] worker_operate_inv [OF inv i]
        worker_remove_inv [OF inv i] worker_move_inv [OF inv i] worker_report_inv [OF inv i]
      by (cases "wk_pc (al_workers al ! i)") (auto simp: asserting_def)
  qed (use Worker_step asl_invD(3) [OF inv] in simp)
qed

text \<open>The start.\<close>

lemma register_all:
  assumes "k + length ws \<le> length (al_work_fns al)"
  shows "fold (\<lambda>(i, f). assembly_line_register_worker_fns i f) (enumerate k ws) al =
    al\<lparr>al_work_fns := take k (al_work_fns al) @ ws @ drop (k + length ws) (al_work_fns al)\<rparr>"
  using assms
proof (induction ws arbitrary: k al)
  case (Cons f ws)
  have k: "k < length (al_work_fns al)" using Cons.prems by simp
  then have "take (Suc k) ((al_work_fns al)[k := f]) = take k (al_work_fns al) @ [f]"
    by (simp add: take_Suc_conv_app_nth)
  with Cons.IH [of "Suc k" "assembly_line_register_worker_fns k f al"] Cons.prems
  show ?case by (simp add: assembly_line_register_worker_fns_def)
qed simp

lemma create_workers:
  "asl_create_workers is al =
    al\<lparr>al_workers := al_workers al @ map assembly_line_create_new_worker_thread is,
       al_T0 := if 0 \<in> set is then Some 0 else al_T0 al,
       al_Tn := if 0 < al_size al - 1 \<and> al_size al - 1 \<in> set is then Some (al_size al - 1) else al_Tn al\<rparr>"
proof (induction "is" arbitrary: al)
  case (Cons i "is")
  consider "i = 0" | "i \<noteq> 0" "i = al_size al - 1" | "i \<noteq> 0" "i \<noteq> al_size al - 1" by blast
  then show ?case
    by cases (simp_all add: Cons.IH Let_def flip: not_less)
qed simp

lemma asl_start_inv:
  assumes "2 \<le> length works" "0 \<notin> set works"
  shows "\<exists>al. asl_start works = Some al \<and> asl_inv_at works 0 al"
proof -
  let ?n = "length works"
  obtain q where q: "Fifo_initQ ?n True = Some q" "fifo_slots_ok q" "fq_size q = ?n" "fq_count q = 0"
    "fq_elem q = replicate ?n 0"
    using assms(1) by (cases works) (simp_all add: Fifo_initQ_def fifo_slots_ok_def)
  obtain w where w: "Fifo_initQ 50 False = Some w" "fifo_ok w" "fq_size w = 50" "fq_contents w = []"
    by (simp add: Fifo_initQ_def fifo_ok_def fq_contents_def fq_slot_def)
  obtain al where al: "assembly_line_get_new_assembly_line ?n = Some al" "al_work_fns al = replicate ?n 0"
    "al_size al = ?n" "al_q al = q" "al_wait_lst al = w" "al_workers al = []" "al_engine al = Eng_absent"
    "\<not> al_open al" "al_log al = (\<lambda>_. [])" "al_pushed al = []" "al_finished al = []" "al_ready al = 0"
    "al_state al = ASL_NOT_STARTED"
    using q(1) w(1) by (simp add: assembly_line_get_new_assembly_line_def)
  let ?al = "assembly_line_init_worker_threads (al\<lparr>al_work_fns := works\<rparr>)"
  have "asl_start works = Some ?al"
    using al(1,2) register_all [of 0 works al] by (simp add: asl_start_def)
  moreover have "workers_ok works 0 False False (al_workers ?al)"
    unfolding assembly_line_init_worker_threads_def create_workers
    using al(3,6) by (simp add: workers_ok_def worker_ok_def assembly_line_create_new_worker_thread_def)
  moreover have "filter (\<lambda>w. wk_pc w = Wk_parked) (al_workers ?al) = []"
    unfolding assembly_line_init_worker_threads_def create_workers
    using al(3,6) by (simp add: assembly_line_create_new_worker_thread_def filter_empty_conv)
  moreover have "objects_ok works False (al_workers ?al) (replicate ?n 0) (\<lambda>_. []) []"
    by (simp add: objects_ok_def)
  moreover have "order_ok (replicate ?n 0) [] [] []" by (simp add: order_ok_def)
  moreover have "0 < ?n" "?n - 1 \<in> set [0..<?n]" "0 < ?n - 1" "0 \<in> set [0..<?n]" using assms(1) by auto
  then have "al_T0 ?al = Some 0" "al_Tn ?al = Some (?n - 1)"
    unfolding assembly_line_init_worker_threads_def create_workers using al(3) by simp_all
  moreover have "al_size ?al = ?n" "al_work_fns ?al = works" "al_q ?al = q" "al_wait_lst ?al = w"
    "al_engine ?al = Eng_absent" "\<not> al_open ?al" "al_log ?al = (\<lambda>_. [])" "al_pushed ?al = []"
    "al_finished ?al = []" "al_ready ?al = 0" "al_state ?al = ASL_NOT_STARTED"
    unfolding assembly_line_init_worker_threads_def create_workers using al by simp_all
  ultimately show ?thesis using assms q w
    by (simp add: asl_inv_at_def frame_ok_def engine_ok_def)
qed

lemma asl_reach_inv:
  assumes "2 \<le> length works" "0 \<notin> set works" "asl_reach works al"
  shows "\<exists>b. asl_inv_at works b al"
  using assms(3)
proof (induction rule: asl_reach.induct)
  case (start al)
  then show ?case using asl_start_inv [OF assms(1,2)] by auto
next
  case (step al e al')
  then show ?case using asl_next_inv by fastforce
qed

section \<open>Properties\<close>

text \<open>A run in which the applications respect the line.\<close>

fun asl_play :: "asl_event list \<Rightarrow> assembly_line \<Rightarrow> assembly_line option" where
  "asl_play [] al = Some al"
| "asl_play (e # es) al =
     (if asl_client e al then case asl_next e al of Inr (Some al') \<Rightarrow> asl_play es al' | _ \<Rightarrow> None else None)"

lemma asl_play_reach:
  "asl_reach works al \<Longrightarrow> asl_play es al = Some al' \<Longrightarrow> asl_reach works al'"
  by (induction es arbitrary: al)
    (auto split: if_splits sum.splits option.splits intro: asl_reach.step)

text \<open>A worker that starts, one whole round of a worker without and with a removal, and a line of two
  workers up to the removal of its first object.\<close>

definition asl_open_two :: "asl_event list" where
  "asl_open_two = [Worker_step 0, Worker_step 1, Init_done]"

definition asl_round_two :: "asl_event list" where
  "asl_round_two = Engine_step # replicate 4 (Worker_step 0) @ replicate 4 (Worker_step 1)"

definition asl_last_two :: "asl_event list" where
  "asl_last_two = Engine_step # replicate 4 (Worker_step 0) @ replicate 5 (Worker_step 1) @ [Engine_step]"

text \<open>C6. While the applications respect a line of at least two workers (\<open>asl_client\<close>: objects are new and not
  NULL, the wait list has room, and nothing is pushed onto an emptied line whose round is still in progress;
  \<open>assembly_line_push_race\<close> shows what such a push does) and without spurious wake-ups, every object that
  leaves the line has met all worker functions, each once and in the order of the slots, in every such
  interleaving of the workers, the engine and the applications; and the objects leave the line, pass through
  it and wait in the order in which they were pushed, none lost.\<close>

theorem assembly_line_all_workers_in_order:
  assumes "2 \<le> length works" "0 \<notin> set works" "asl_reach works al"
  shows "(\<forall>x\<in>set (al_finished al). al_log al x = works) \<and>
    (\<exists>line. al_pushed al = al_finished al @ line @ fq_contents (al_wait_lst al) \<and>
      set line = set (fq_elem (al_q al)) - {0} \<and> distinct (al_pushed al))"
proof -
  obtain b where inv: "asl_inv_at works b al" using asl_reach_inv [OF assms] by blast
  have ord: "order_ok (rotate b (fq_elem (al_q al))) (al_finished al) (fq_contents (al_wait_lst al)) (al_pushed al)"
    and obj: "objects_ok works (in_round (al_engine al)) (al_workers al) (rotate b (fq_elem (al_q al)))
      (al_log al) (al_finished al)"
    using inv by (simp_all only: asl_inv_at_def)
  have "\<forall>x\<in>set (al_finished al). al_log al x = works" using obj unfolding objects_ok_def by blast
  moreover have "set (nonnull (rev (rotate b (fq_elem (al_q al))))) = set (fq_elem (al_q al)) - {0}" by auto
  ultimately show ?thesis using ord unfolding order_ok_def by blast
qed

theorem assembly_line_all_workers_in_order_witness:
  "\<exists>al. Option.bind (asl_start [7, 9]) (asl_play (asl_open_two @ [Push 5] @ asl_round_two @ [Push 6] @ asl_last_two)) = Some al \<and>
    al_finished al = [5] \<and> al_log al 5 = [7, 9] \<and> al_log al 6 = [7] \<and> al_pushed al = [5, 6]"
proof -
  let ?es = "asl_open_two @ [Push 5] @ asl_round_two @ [Push 6] @ asl_last_two"
  have "map_option (\<lambda>al. (al_finished al, al_log al 6, al_pushed al)) (Option.bind (asl_start [7, 9]) (asl_play ?es)) =
    Some ([5], [7], [5, 6])"
    by code_simp
  then obtain al where al: "Option.bind (asl_start [7, 9]) (asl_play ?es) = Some al" "al_finished al = [5]"
    "al_log al 6 = [7]" "al_pushed al = [5, 6]"
    by (auto simp: map_option_eq_Some)
  then obtain al0 where "asl_start [7, 9] = Some al0" "asl_play ?es al0 = Some al"
    by (auto simp: bind_eq_Some_conv)
  then have "asl_reach [7, 9] al" by (auto intro: asl_play_reach asl_reach.start)
  from assembly_line_all_workers_in_order [OF _ _ this] al show ?thesis by auto
qed

text \<open>While objects are on the line the queue or the list of waiting objects is not empty, and a worker that has
  not parked, or the engine, can go on.\<close>

lemma asl_line_not_empty:
  assumes inv: "asl_inv_at works b al" and work: "al_finished al \<noteq> al_pushed al"
  shows "\<not> (fq_count (al_q al) = 0 \<and> fq_contents (al_wait_lst al) = [])"
proof
  assume none: "fq_count (al_q al) = 0 \<and> fq_contents (al_wait_lst al) = []"
  then have "nonnull (rotate b (fq_elem (al_q al))) = []"
    using slots_count [OF asl_invD(8) [OF inv], of b] by simp
  then have "nonnull (rev (rotate b (fq_elem (al_q al)))) = []" by (simp flip: rev_filter)
  moreover have "order_ok (rotate b (fq_elem (al_q al))) (al_finished al) (fq_contents (al_wait_lst al)) (al_pushed al)"
    using inv by (simp only: asl_inv_at_def)
  ultimately show False using none work unfolding order_ok_def by simp
qed

lemma asl_somebody_enabled:
  assumes inv: "asl_inv_at works b al" and work: "al_open al" "al_finished al \<noteq> al_pushed al"
  shows "\<exists>e. (e = Engine_step \<or> (\<exists>i. e = Worker_step i)) \<and> asl_next e al \<noteq> Inr None"
proof (cases "al_engine al = Eng_waiting")
  case True
  then have "length (filter (\<lambda>w. wk_pc w = Wk_parked) (al_workers al)) < length (al_workers al)"
    using inv asl_invD(2,3) [OF inv] by (simp add: engine_ok_def asl_inv_at_def frame_ok_def)
  then obtain i where i: "i < length (al_workers al)" "wk_pc (al_workers al ! i) \<noteq> Wk_parked"
    by (metis (mono_tags, lifting) filter_True in_set_conv_nth less_irrefl)
  have "asl_next (Worker_step i) al \<noteq> Inr None"
    using i by (cases "wk_pc (al_workers al ! i)") (auto simp: asserting_def split: option.splits)
  then show ?thesis by blast
next
  case False
  have "engine_ok al" using inv by (simp only: asl_inv_at_def)
  then have "asl_next Engine_step al \<noteq> Inr None"
    using False asl_line_not_empty [OF inv work(2)] work
    by (cases "al_engine al") (auto simp: engine_ok_def asserting_def split: option.splits)
  then show ?thesis by blast
qed

text \<open>C26. While the applications respect the line no assertion fails and no NULL is dereferenced, and as
  long as an object is on the line some worker or the engine can go on.\<close>

theorem assembly_line_no_abort_progress:
  assumes "2 \<le> length works" "0 \<notin> set works" "asl_reach works al"
  shows "(\<forall>e. asl_client e al \<longrightarrow> asl_next e al \<noteq> Inl ()) \<and>
    (al_open al \<and> al_finished al \<noteq> al_pushed al \<longrightarrow>
      (\<exists>e. (e = Engine_step \<or> (\<exists>i. e = Worker_step i)) \<and> (\<exists>al'. asl_next e al = Inr (Some al'))))"
proof (intro conjI impI)
  obtain b where inv: "asl_inv_at works b al" using asl_reach_inv [OF assms] by blast
  note step = asl_next_inv [OF inv]
  show "\<forall>e. asl_client e al \<longrightarrow> asl_next e al \<noteq> Inl ()" using step by fastforce
  assume "al_open al \<and> al_finished al \<noteq> al_pushed al"
  then obtain e where e: "e = Engine_step \<or> (\<exists>i. e = Worker_step i)" "asl_next e al \<noteq> Inr None"
    using asl_somebody_enabled [OF inv] by blast
  then have "asl_client e al" by (auto simp: asl_client_def)
  from step [OF this] e show "\<exists>e. (e = Engine_step \<or> (\<exists>i. e = Worker_step i)) \<and> (\<exists>al'. asl_next e al = Inr (Some al'))" by blast
qed

theorem assembly_line_no_abort_progress_witness:
  "\<exists>al e al'. Option.bind (asl_start [7, 9]) (asl_play (asl_open_two @ [Push 5] @ asl_round_two)) = Some al \<and>
    asl_next (Push 6) al \<noteq> Inl () \<and> asl_next e al = Inr (Some al') \<and> (e = Engine_step \<or> (\<exists>i. e = Worker_step i))"
proof -
  let ?es = "asl_open_two @ [Push 5] @ asl_round_two"
  have "map_option (\<lambda>al. (al_finished al, al_open al, al_pushed al, asl_client (Push 6) al))
      (Option.bind (asl_start [7, 9]) (asl_play ?es)) = Some ([], True, [5], True)"
    by code_simp
  then obtain al where al: "Option.bind (asl_start [7, 9]) (asl_play ?es) = Some al" "al_finished al = []"
    "al_open al" "al_pushed al = [5]" "asl_client (Push 6) al"
    by (auto simp: map_option_eq_Some)
  then obtain al0 where "asl_start [7, 9] = Some al0" "asl_play ?es al0 = Some al"
    by (auto simp: bind_eq_Some_conv)
  then have "asl_reach [7, 9] al" by (auto intro: asl_play_reach asl_reach.start)
  note good = assembly_line_no_abort_progress [OF _ _ this]
  have "asl_next (Push 6) al \<noteq> Inl ()" using good al(5) by (simp del: asl_next.simps)
  moreover have "\<exists>e. (e = Engine_step \<or> (\<exists>i. e = Worker_step i)) \<and> (\<exists>al'. asl_next e al = Inr (Some al'))"
    using good al(2-4) by (simp del: asl_next.simps)
  ultimately show ?thesis using al(1) by blast
qed

text \<open>A push onto a line that has just been emptied, in a round that is still in progress: the object
  is put into the slot that the first worker has just left, and leaves the line without having met the
  first worker.\<close>

theorem assembly_line_push_race:
  "\<exists>al. Option.bind (asl_start [7, 9])
      (\<lambda>al. case asl_run (asl_open_two @ [Push 5] @ asl_round_two @ Engine_step # replicate 2 (Worker_step 0) @
         replicate 3 (Worker_step 1) @ [Push 6] @ replicate 2 (Worker_step 0) @ replicate 2 (Worker_step 1) @
         asl_last_two) al of Inr r \<Rightarrow> r | Inl _ \<Rightarrow> None) = Some al \<and>
    al_finished al = [5, 6] \<and> al_log al 5 = [7, 9] \<and> al_log al 6 = [9]"
proof -
  have "map_option (\<lambda>al. (al_finished al, al_log al 5, al_log al 6)) (Option.bind (asl_start [7, 9])
      (\<lambda>al. case asl_run (asl_open_two @ [Push 5] @ asl_round_two @ Engine_step # replicate 2 (Worker_step 0) @
         replicate 3 (Worker_step 1) @ [Push 6] @ replicate 2 (Worker_step 0) @ replicate 2 (Worker_step 1) @
         asl_last_two) al of Inr r \<Rightarrow> r | Inl _ \<Rightarrow> None)) = Some ([5, 6], [7, 9], [9])"
    by code_simp
  then show ?thesis by (auto simp: map_option_eq_Some)
qed

text \<open>A line with one slot: no worker is ever the last one.\<close>

definition never_last :: "assembly_line \<Rightarrow> bool" where
  "never_last al \<longleftrightarrow> al_Tn al = None \<and> al_finished al = [] \<and> (\<forall>w\<in>set (al_workers al). wk_pc w \<noteq> Wk_remove)"

lemma never_last_frame [simp]:
  "never_last (al\<lparr>al_q := q\<rparr>) = never_last al" "never_last (al\<lparr>al_wait_lst := q\<rparr>) = never_last al"
  "never_last (al\<lparr>al_ready := n\<rparr>) = never_last al" "never_last (al\<lparr>al_state := s\<rparr>) = never_last al"
  "never_last (al\<lparr>al_engine := g\<rparr>) = never_last al" "never_last (al\<lparr>al_log := l\<rparr>) = never_last al"
  "never_last (al\<lparr>al_open := p\<rparr>) = never_last al" "never_last (al\<lparr>al_pushed := xs\<rparr>) = never_last al"
  by (simp_all add: never_last_def)

lemma never_last_enqueue:
  "assembly_line_enqueue_new_item x al = Some al' \<Longrightarrow> never_last al \<Longrightarrow> never_last al'"
  by (auto simp: assembly_line_enqueue_new_item_def Let_def split: option.splits if_splits)

lemma never_last_round: "never_last al \<Longrightarrow> never_last (asl_engine_round al)"
  by (auto simp: asl_engine_round_def asl_signal_workers_def never_last_def)

lemma never_last_collect: "asl_engine_collect al = Some al' \<Longrightarrow> never_last al \<Longrightarrow> never_last al'"
  by (auto simp: asl_engine_collect_def Let_def dest: never_last_enqueue
      intro!: never_last_round split: option.splits if_splits prod.splits)

lemma never_last_push: "assembly_line_push_new_item x al = Some al' \<Longrightarrow> never_last al \<Longrightarrow> never_last al'"
  by (auto simp: assembly_line_push_new_item_def assembly_line_engine_start_def asl_signal_engine_def
      dest: never_last_enqueue split: if_splits)

lemma never_last_step:
  assumes "asl_next e al = Inr (Some al')" and inv: "never_last al"
  shows "never_last al'"
proof (cases e)
  case (Worker_step i)
  have "wk_pc (al_workers al ! i) \<noteq> Wk_remove" if "i < length (al_workers al)"
    using inv that by (simp add: never_last_def)
  then show ?thesis using assms Worker_step
    by (auto simp: asserting_def set_pc_def worker_initialize_def worker_operate_def worker_move_def
        worker_report_def asl_signal_engine_def never_last_def Let_def
        dest!: subsetD [OF set_update_subset_insert] split: if_splits asl_worker_pc.splits option.splits)
next
  case Engine_step
  then show ?thesis using assms by (auto simp: asserting_def dest: never_last_collect
      intro!: never_last_round split: engine_pc.splits option.splits)
next
  case (Push x)
  then show ?thesis using assms
    by (auto simp: asserting_def dest: never_last_push split: if_splits option.splits)
next
  case Init_done
  then show ?thesis using assms by (auto split: if_splits)
qed

text \<open>A line with one worker never finishes an object: its only worker is made the first one and
  the branch that names the last one is not taken.\<close>

theorem assembly_line_single_slot:
  assumes "asl_reach [f] al"
  shows "al_Tn al = None \<and> al_finished al = []"
proof -
  have "never_last al" using assms
  proof (induction rule: asl_reach.induct)
    case (start al)
    then show ?case
      by (auto simp: asl_start_def assembly_line_get_new_assembly_line_def assembly_line_init_worker_threads_def
          assembly_line_register_worker_fns_def assembly_line_create_new_worker_thread_def never_last_def
          split: option.splits)
  next
    case (step al e al')
    then show ?case by (blast intro: never_last_step)
  qed
  then show ?thesis by (simp add: never_last_def)
qed

theorem assembly_line_single_slot_witness:
  "\<exists>al. Option.bind (asl_start [7]) (asl_play ([Worker_step 0, Init_done, Push 5] @ Engine_step #
      replicate 4 (Worker_step 0) @ Engine_step # replicate 4 (Worker_step 0))) = Some al \<and>
    al_finished al = [] \<and> al_log al 5 = [7, 7]"
proof -
  let ?es = "[Worker_step 0, Init_done, Push 5] @ Engine_step # replicate 4 (Worker_step 0) @
    Engine_step # replicate 4 (Worker_step 0)"
  have "map_option (\<lambda>al. al_log al 5) (Option.bind (asl_start [7]) (asl_play ?es)) = Some [7, 7]"
    by code_simp
  then obtain al where al: "Option.bind (asl_start [7]) (asl_play ?es) = Some al" "al_log al 5 = [7, 7]"
    by (auto simp: map_option_eq_Some)
  then obtain al0 where start: "asl_start [7] = Some al0" "asl_play ?es al0 = Some al"
    by (auto simp: bind_eq_Some_conv)
  have "asl_reach [7] al" by (rule asl_play_reach [OF asl_reach.start [OF start(1)] start(2)])
  from assembly_line_single_slot [OF this] al show ?thesis by auto
qed

end
