(* ===== verification/DiningPhil.thy ===== *)
theory DiningPhil
  imports Prelude
begin

text \<open>
  The dining philosophers of \<^verbatim>\<open>DiningPhilosopherProblem/assignment_din_ph_soln.c\<close>: five
  threads and five spoons, each spoon with its own mutex and condition variable. A philosopher waits
  for the left spoon, and gives it back when the right one is in use. A philosopher reads and writes a
  spoon with its mutex held, so a thread is cut at every acquisition of a mutex and at every release;
  the threads are interleaved in every order, and \<^verbatim>\<open>pthread_cond_wait\<close> may return without
  a signal.
\<close>

section \<open>The code\<close>

definition N_PHILOSOPHER :: nat where
  "N_PHILOSOPHER = 5"

text \<open>Where a philosopher is: before the left mutex, with the left mutex held before the test of the
  loop, waiting on the left condition variable, woken; before the right mutex, with the right mutex
  held, giving up (with the right mutex held) before and after locking the left one; about to eat;
  releasing the spoons before the left mutex, before the right one, with both, with the right one.\<close>

datatype phil_pc =
    Ph_start | Ph_left_locked | Ph_left_wait | Ph_left_woken
  | Ph_right_try | Ph_right_locked | Ph_give_up | Ph_give_up_locked
  | Ph_eat | Ph_release | Ph_release_left | Ph_release_both | Ph_release_right

text \<open>A philosopher is his \<^verbatim>\<open>phil_id\<close>, a spoon its \<^verbatim>\<open>spoon_id\<close>; \<open>sp_mutex\<close> is the
  philosopher that holds the mutex.\<close>

record spoon =
  sp_is_used :: bool
  sp_phil :: "nat option"
  sp_mutex :: "nat option"

record din =
  ds_spoon :: "nat \<Rightarrow> spoon"
  ds_pc :: "nat \<Rightarrow> phil_pc"
  ds_eat_count :: "nat \<Rightarrow> u32"

definition phil_get_right_spoon :: "nat \<Rightarrow> nat" where
  "phil_get_right_spoon phil_id = (if phil_id = 0 then N_PHILOSOPHER - 1 else phil_id - 1)"

definition phil_get_left_spoon :: "nat \<Rightarrow> nat" where
  "phil_get_left_spoon phil_id = phil_id"

text \<open>The outcome of a step: a failing assertion, a thread that has to wait, the next state.\<close>

datatype din_outcome = Assert_fails | Disabled | Moved din

definition goto :: "nat \<Rightarrow> phil_pc \<Rightarrow> din \<Rightarrow> din" where
  "goto i pc s = s\<lparr>ds_pc := (ds_pc s)(i := pc)\<rparr>"

definition set_spoon :: "nat \<Rightarrow> spoon \<Rightarrow> din \<Rightarrow> din" where
  "set_spoon k sp s = s\<lparr>ds_spoon := (ds_spoon s)(k := sp)\<rparr>"

definition lock :: "nat \<Rightarrow> nat \<Rightarrow> phil_pc \<Rightarrow> din \<Rightarrow> din_outcome" where
  "lock k i pc s =
     (if sp_mutex (ds_spoon s k) \<noteq> None then Disabled
      else Moved (goto i pc (set_spoon k ((ds_spoon s k)\<lparr>sp_mutex := Some i\<rparr>) s)))"

text \<open>\<^verbatim>\<open>pthread_cond_signal\<close> on the variable of a spoon, for which one philosopher at most
  waits: the one to whom it is the left spoon.\<close>

definition signal :: "nat \<Rightarrow> din \<Rightarrow> din" where
  "signal k s = s\<lparr>ds_pc := (\<lambda>i. if phil_get_left_spoon i = k \<and> ds_pc s i = Ph_left_wait
                                then Ph_left_woken else ds_pc s i)\<rparr>"

text \<open>\<^verbatim>\<open>philosopher_get_access_both_spoons\<close>, from the left mutex to the right one, and from the
  right one on.\<close>

definition access_left :: "nat \<Rightarrow> din \<Rightarrow> din_outcome" where
  "access_left i s =
     (let k = phil_get_left_spoon i; sp = ds_spoon s k in
      if sp_is_used sp \<and> sp_phil sp \<noteq> Some i
      then Moved (goto i Ph_left_wait (set_spoon k (sp\<lparr>sp_mutex := None\<rparr>) s))
      else Moved (goto i Ph_right_try
             (set_spoon k (sp\<lparr>sp_is_used := True, sp_phil := Some i, sp_mutex := None\<rparr>) s)))"

definition access_right :: "nat \<Rightarrow> din \<Rightarrow> din_outcome" where
  "access_right i s =
     (let k = phil_get_right_spoon i; sp = ds_spoon s k in
      if \<not> sp_is_used sp
      then Moved (goto i Ph_eat (set_spoon k (sp\<lparr>sp_is_used := True, sp_phil := Some i, sp_mutex := None\<rparr>) s))
      else if sp_phil sp \<noteq> Some i then Moved (goto i Ph_give_up s)
      else Moved (goto i Ph_eat (set_spoon k (sp\<lparr>sp_mutex := None\<rparr>) s)))"

definition access_give_up :: "nat \<Rightarrow> din \<Rightarrow> din_outcome" where
  "access_give_up i s =
     (let l = phil_get_left_spoon i; r = phil_get_right_spoon i; sp = ds_spoon s l in
      if \<not> sp_is_used sp \<or> sp_phil sp \<noteq> Some i then Assert_fails
      else let s1 = set_spoon l (sp\<lparr>sp_is_used := False, sp_phil := None, sp_mutex := None\<rparr>) s
           in Moved (goto i Ph_start (set_spoon r ((ds_spoon s1 r)\<lparr>sp_mutex := None\<rparr>) s1)))"

definition phil_eat :: "nat \<Rightarrow> din \<Rightarrow> din_outcome" where
  "phil_eat i s =
     (let l = ds_spoon s (phil_get_left_spoon i); r = ds_spoon s (phil_get_right_spoon i) in
      if sp_phil l = Some i \<and> sp_phil r = Some i \<and> sp_is_used l \<and> sp_is_used r
      then Moved (goto i Ph_release (s\<lparr>ds_eat_count := (ds_eat_count s)(i := ds_eat_count s i + 1)\<rparr>))
      else Assert_fails)"

text \<open>\<^verbatim>\<open>philosopher_release_both_spoons\<close>, with both mutexes held.\<close>

definition release_left :: "nat \<Rightarrow> din \<Rightarrow> din_outcome" where
  "release_left i s =
     (let k = phil_get_left_spoon i; l = ds_spoon s k; r = ds_spoon s (phil_get_right_spoon i) in
      if sp_phil l = Some i \<and> sp_is_used l \<and> sp_phil r = Some i \<and> sp_is_used r
      then Moved (signal k (goto i Ph_release_right
             (set_spoon k (l\<lparr>sp_phil := None, sp_is_used := False, sp_mutex := None\<rparr>) s)))
      else Assert_fails)"

definition release_right :: "nat \<Rightarrow> din \<Rightarrow> din_outcome" where
  "release_right i s =
     (let k = phil_get_right_spoon i in
      Moved (signal k (goto i Ph_start
        (set_spoon k ((ds_spoon s k)\<lparr>sp_phil := None, sp_is_used := False, sp_mutex := None\<rparr>) s))))"

text \<open>\<^verbatim>\<open>philosopher_fn\<close>.\<close>

definition philosopher_fn :: "nat \<Rightarrow> din \<Rightarrow> din_outcome" where
  "philosopher_fn i s =
     (case ds_pc s i of
        Ph_start \<Rightarrow> lock (phil_get_left_spoon i) i Ph_left_locked s
      | Ph_left_locked \<Rightarrow> access_left i s
      | Ph_left_wait \<Rightarrow> Disabled
      | Ph_left_woken \<Rightarrow> lock (phil_get_left_spoon i) i Ph_left_locked s
      | Ph_right_try \<Rightarrow> lock (phil_get_right_spoon i) i Ph_right_locked s
      | Ph_right_locked \<Rightarrow> access_right i s
      | Ph_give_up \<Rightarrow> lock (phil_get_left_spoon i) i Ph_give_up_locked s
      | Ph_give_up_locked \<Rightarrow> access_give_up i s
      | Ph_eat \<Rightarrow> phil_eat i s
      | Ph_release \<Rightarrow> lock (phil_get_left_spoon i) i Ph_release_left s
      | Ph_release_left \<Rightarrow> lock (phil_get_right_spoon i) i Ph_release_both s
      | Ph_release_both \<Rightarrow> release_left i s
      | Ph_release_right \<Rightarrow> release_right i s)"

definition din_main :: din where
  "din_main = \<lparr>ds_spoon = (\<lambda>_. \<lparr>sp_is_used = False, sp_phil = None, sp_mutex = None\<rparr>),
     ds_pc = (\<lambda>_. Ph_start), ds_eat_count = (\<lambda>_. 0)\<rparr>"

inductive din_reach :: "din \<Rightarrow> bool" where
  start: "din_reach din_main"
| step: "din_reach s \<Longrightarrow> i < N_PHILOSOPHER \<Longrightarrow> philosopher_fn i s = Moved s' \<Longrightarrow> din_reach s'"
| spurious: "din_reach s \<Longrightarrow> i < N_PHILOSOPHER \<Longrightarrow> ds_pc s i = Ph_left_wait \<Longrightarrow>
    din_reach (goto i Ph_left_woken s)"

fun din_run :: "nat list \<Rightarrow> din \<Rightarrow> din option" where
  "din_run [] s = Some s"
| "din_run (i # is) s =
     (if i < N_PHILOSOPHER then case philosopher_fn i s of Moved s' \<Rightarrow> din_run is s' | _ \<Rightarrow> None else None)"

lemma din_run_reach: "din_reach s \<Longrightarrow> din_run is s = Some s' \<Longrightarrow> din_reach s'"
  by (induction "is" arbitrary: s) (auto split: if_splits din_outcome.splits intro: din_reach.step)

section \<open>The invariant of a spoon\<close>

text \<open>A spoon is described by where its two philosophers are: the one on whose left it lies, and the
  one on whose right.\<close>

fun has_left :: "phil_pc \<Rightarrow> bool" where
  "has_left Ph_right_try \<longleftrightarrow> True"
| "has_left Ph_right_locked \<longleftrightarrow> True"
| "has_left Ph_give_up \<longleftrightarrow> True"
| "has_left Ph_give_up_locked \<longleftrightarrow> True"
| "has_left Ph_eat \<longleftrightarrow> True"
| "has_left Ph_release \<longleftrightarrow> True"
| "has_left Ph_release_left \<longleftrightarrow> True"
| "has_left Ph_release_both \<longleftrightarrow> True"
| "has_left _ \<longleftrightarrow> False"

fun has_right :: "phil_pc \<Rightarrow> bool" where
  "has_right Ph_eat \<longleftrightarrow> True"
| "has_right Ph_release \<longleftrightarrow> True"
| "has_right Ph_release_left \<longleftrightarrow> True"
| "has_right Ph_release_both \<longleftrightarrow> True"
| "has_right Ph_release_right \<longleftrightarrow> True"
| "has_right _ \<longleftrightarrow> False"

fun locks_left :: "phil_pc \<Rightarrow> bool" where
  "locks_left Ph_left_locked \<longleftrightarrow> True"
| "locks_left Ph_give_up_locked \<longleftrightarrow> True"
| "locks_left Ph_release_left \<longleftrightarrow> True"
| "locks_left Ph_release_both \<longleftrightarrow> True"
| "locks_left _ \<longleftrightarrow> False"

fun locks_right :: "phil_pc \<Rightarrow> bool" where
  "locks_right Ph_right_locked \<longleftrightarrow> True"
| "locks_right Ph_give_up \<longleftrightarrow> True"
| "locks_right Ph_give_up_locked \<longleftrightarrow> True"
| "locks_right Ph_release_both \<longleftrightarrow> True"
| "locks_right Ph_release_right \<longleftrightarrow> True"
| "locks_right _ \<longleftrightarrow> False"

text \<open>The philosopher on whose right the spoon lies.\<close>

definition right_user :: "nat \<Rightarrow> nat" where
  "right_user k = (if k = N_PHILOSOPHER - 1 then 0 else Suc k)"

definition spoon_ok :: "nat \<Rightarrow> spoon \<Rightarrow> phil_pc \<Rightarrow> phil_pc \<Rightarrow> bool" where
  "spoon_ok k sp p q \<longleftrightarrow>
     \<not> (has_left p \<and> has_right q) \<and> \<not> (locks_left p \<and> locks_right q) \<and>
     sp_phil sp = (if has_left p then Some k else if has_right q then Some (right_user k) else None) \<and>
     (sp_is_used sp \<longleftrightarrow> has_left p \<or> has_right q) \<and>
     sp_mutex sp = (if locks_left p then Some k else if locks_right q then Some (right_user k) else None) \<and>
     (p = Ph_left_wait \<longrightarrow> has_right q)"

definition din_inv :: "din \<Rightarrow> bool" where
  "din_inv s \<longleftrightarrow> (\<forall>k<N_PHILOSOPHER. spoon_ok k (ds_spoon s k) (ds_pc s k) (ds_pc s (right_user k)))"

lemma right_spoon:
  assumes "i < N_PHILOSOPHER"
  shows "phil_get_right_spoon i < N_PHILOSOPHER" "right_user (phil_get_right_spoon i) = i"
    "phil_get_right_spoon i \<noteq> i" "right_user i \<noteq> i"
  using assms by (auto simp: phil_get_right_spoon_def right_user_def N_PHILOSOPHER_def)

lemma right_user_iff:
  assumes "i < N_PHILOSOPHER" "k < N_PHILOSOPHER"
  shows "right_user k = i \<longleftrightarrow> k = phil_get_right_spoon i"
  using assms by (auto simp: phil_get_right_spoon_def right_user_def N_PHILOSOPHER_def)

text \<open>A step of philosopher \<open>i\<close> concerns two spoons.\<close>

lemma din_invD:
  assumes "din_inv s" "i < N_PHILOSOPHER"
  shows "spoon_ok i (ds_spoon s i) (ds_pc s i) (ds_pc s (right_user i))"
    "spoon_ok (phil_get_right_spoon i) (ds_spoon s (phil_get_right_spoon i)) (ds_pc s (phil_get_right_spoon i)) (ds_pc s i)"
  using assms right_spoon [OF assms(2)] by (auto simp: din_inv_def)

lemma din_inv_update:
  assumes "din_inv s" "i < N_PHILOSOPHER"
    and "spoon_ok i (ds_spoon s' i) pc (ds_pc s (right_user i))"
    and "spoon_ok (phil_get_right_spoon i) (ds_spoon s' (phil_get_right_spoon i)) (ds_pc s (phil_get_right_spoon i)) pc"
    and "ds_pc s' = (ds_pc s)(i := pc)"
    and "\<And>k. k \<noteq> i \<Longrightarrow> k \<noteq> phil_get_right_spoon i \<Longrightarrow> ds_spoon s' k = ds_spoon s k"
  shows "din_inv s'"
  unfolding din_inv_def
proof (intro allI impI)
  fix k assume k: "k < N_PHILOSOPHER"
  consider "k = i" | "k = phil_get_right_spoon i" | "k \<noteq> i" "k \<noteq> phil_get_right_spoon i" by blast
  then show "spoon_ok k (ds_spoon s' k) (ds_pc s' k) (ds_pc s' (right_user k))"
  proof cases
    case 3
    then show ?thesis using assms(1,5,6) k right_user_iff [OF assms(2) k] by (simp add: din_inv_def)
  qed (use assms(3-5) right_spoon [OF assms(2)] in simp_all)
qed

text \<open>A wake-up of a philosopher changes nothing of that; it is safe when the spoon is free or for no
  reason.\<close>

lemma woken_ok:
  "spoon_ok k sp Ph_left_wait q \<Longrightarrow> spoon_ok k sp Ph_left_woken q"
  "spoon_ok k sp p Ph_left_wait \<Longrightarrow> spoon_ok k sp p Ph_left_woken"
  by (auto simp: spoon_ok_def)

lemma din_inv_wake:
  assumes "din_inv s" "i < N_PHILOSOPHER" "ds_pc s i = Ph_left_wait"
  shows "din_inv (goto i Ph_left_woken s)"
  using din_invD [OF assms(1,2)] assms(3)
  by (intro din_inv_update [OF assms(1,2)]) (simp_all add: goto_def woken_ok)

lemma signal_other:
  assumes "ds_pc s k \<noteq> Ph_left_wait"
  shows "signal k s = s"
proof -
  have "(\<lambda>i. if phil_get_left_spoon i = k \<and> ds_pc s i = Ph_left_wait then Ph_left_woken else ds_pc s i) = ds_pc s"
    using assms by (auto simp: phil_get_left_spoon_def)
  then show ?thesis by (simp add: signal_def)
qed

lemma signal_wait: "ds_pc s k = Ph_left_wait \<Longrightarrow> signal k s = goto k Ph_left_woken s"
  by (auto simp: signal_def goto_def phil_get_left_spoon_def intro!: arg_cong [where f = "\<lambda>f. ds_pc_update (\<lambda>_. f) s"])

lemmas din_steps = lock_def access_left_def access_right_def access_give_up_def phil_eat_def
  release_left_def goto_def set_spoon_def phil_get_left_spoon_def Let_def

text \<open>The acquisition of a mutex.\<close>

lemma lock_left_inv:
  assumes inv: "din_inv s" and i: "i < N_PHILOSOPHER" and step: "lock (phil_get_left_spoon i) i pc s = Moved s'"
    and p: "ds_pc s i = p" "\<not> locks_left p" "locks_left pc" "has_left pc = has_left p" "has_right pc = has_right p"
      "locks_right pc = locks_right p" "pc \<noteq> Ph_left_wait" "p \<noteq> Ph_left_wait"
  shows "din_inv s'"
proof -
  note D = din_invD [OF inv i] and r = right_spoon(3) [OF i]
  have m: "sp_mutex (ds_spoon s i) = None"
    and s': "s' = goto i pc (set_spoon i ((ds_spoon s i)\<lparr>sp_mutex := Some i\<rparr>) s)"
    using step by (simp_all add: lock_def phil_get_left_spoon_def split: if_splits)
  have "\<not> locks_right (ds_pc s (right_user i))" using D(1) m by (auto simp: spoon_ok_def split: if_splits)
  then have "spoon_ok i ((ds_spoon s i)\<lparr>sp_mutex := Some i\<rparr>) pc (ds_pc s (right_user i))"
    using D(1) p by (simp add: spoon_ok_def)
  moreover have "spoon_ok (phil_get_right_spoon i) (ds_spoon s (phil_get_right_spoon i)) (ds_pc s (phil_get_right_spoon i)) pc"
    using D(2) p by (simp add: spoon_ok_def)
  ultimately show ?thesis using r unfolding s'
    by (intro din_inv_update [OF inv i]) (simp_all add: goto_def set_spoon_def)
qed

lemma lock_right_inv:
  assumes inv: "din_inv s" and i: "i < N_PHILOSOPHER" and step: "lock (phil_get_right_spoon i) i pc s = Moved s'"
    and p: "ds_pc s i = p" "\<not> locks_right p" "locks_right pc" "has_left pc = has_left p" "has_right pc = has_right p"
      "locks_left pc = locks_left p" "pc \<noteq> Ph_left_wait" "p \<noteq> Ph_left_wait"
  shows "din_inv s'"
proof -
  let ?r = "phil_get_right_spoon i"
  note D = din_invD [OF inv i] and r = right_spoon [OF i]
  have m: "sp_mutex (ds_spoon s ?r) = None"
    and s': "s' = goto i pc (set_spoon ?r ((ds_spoon s ?r)\<lparr>sp_mutex := Some i\<rparr>) s)"
    using step by (simp_all add: lock_def split: if_splits)
  have "\<not> locks_left (ds_pc s ?r)" using D(2) m by (auto simp: spoon_ok_def split: if_splits)
  then have "spoon_ok ?r ((ds_spoon s ?r)\<lparr>sp_mutex := Some i\<rparr>) (ds_pc s ?r) pc"
    using D(2) p r(2) by (simp add: spoon_ok_def)
  moreover have "spoon_ok i (ds_spoon s i) pc (ds_pc s (right_user i))"
    using D(1) p by (simp add: spoon_ok_def)
  ultimately show ?thesis using r(3) unfolding s'
    by (intro din_inv_update [OF inv i]) (simp_all add: goto_def set_spoon_def)
qed

lemma access_left_inv:
  assumes inv: "din_inv s" and i: "i < N_PHILOSOPHER" and pc: "ds_pc s i = Ph_left_locked"
  shows "\<exists>s'. access_left i s = Moved s' \<and> din_inv s'"
proof -
  note D = din_invD [OF inv i] and r = right_spoon [OF i]
  let ?q = "ds_pc s (right_user i)"
  have q: "sp_is_used (ds_spoon s i) \<and> sp_phil (ds_spoon s i) \<noteq> Some i \<longleftrightarrow> has_right ?q"
    using D(1) pc r(4) by (auto simp: spoon_ok_def)
  show ?thesis
  proof (cases "has_right ?q")
    case True
    then have "spoon_ok i ((ds_spoon s i)\<lparr>sp_mutex := None\<rparr>) Ph_left_wait ?q"
      using D(1) pc by (simp add: spoon_ok_def)
    moreover have "spoon_ok (phil_get_right_spoon i) (ds_spoon s (phil_get_right_spoon i)) (ds_pc s (phil_get_right_spoon i)) Ph_left_wait"
      using D(2) pc by (simp add: spoon_ok_def)
    ultimately have "din_inv (goto i Ph_left_wait (set_spoon i ((ds_spoon s i)\<lparr>sp_mutex := None\<rparr>) s))"
      using r(3) by (intro din_inv_update [OF inv i]) (simp_all add: goto_def set_spoon_def)
    then show ?thesis using True q by (simp add: access_left_def phil_get_left_spoon_def Let_def)
  next
    case False
    let ?sp = "(ds_spoon s i)\<lparr>sp_is_used := True, sp_phil := Some i, sp_mutex := None\<rparr>"
    have "spoon_ok i ?sp Ph_right_try ?q" using False D(1) pc by (simp add: spoon_ok_def)
    moreover have "spoon_ok (phil_get_right_spoon i) (ds_spoon s (phil_get_right_spoon i)) (ds_pc s (phil_get_right_spoon i)) Ph_right_try"
      using D(2) pc by (simp add: spoon_ok_def)
    ultimately have "din_inv (goto i Ph_right_try (set_spoon i ?sp s))"
      using r(3) by (intro din_inv_update [OF inv i]) (simp_all add: goto_def set_spoon_def)
    then show ?thesis using False q unfolding access_left_def phil_get_left_spoon_def Let_def by auto
  qed
qed

lemma access_right_inv:
  assumes inv: "din_inv s" and i: "i < N_PHILOSOPHER" and pc: "ds_pc s i = Ph_right_locked"
  shows "\<exists>s'. access_right i s = Moved s' \<and> din_inv s'"
proof -
  let ?r = "phil_get_right_spoon i"
  let ?p = "ds_pc s ?r"
  note D = din_invD [OF inv i] and r = right_spoon [OF i]
  have p: "sp_is_used (ds_spoon s ?r) \<longleftrightarrow> has_left ?p" "has_left ?p \<Longrightarrow> sp_phil (ds_spoon s ?r) \<noteq> Some i"
    using D(2) pc r(3) by (auto simp: spoon_ok_def)
  show ?thesis
  proof (cases "has_left ?p")
    case True
    have "din_inv (goto i Ph_give_up s)"
      using D pc by (intro din_inv_update [OF inv i]) (simp_all add: goto_def spoon_ok_def)
    then show ?thesis using True p by (simp add: access_right_def Let_def)
  next
    case False
    let ?sp = "(ds_spoon s ?r)\<lparr>sp_is_used := True, sp_phil := Some i, sp_mutex := None\<rparr>"
    have "spoon_ok ?r ?sp ?p Ph_eat" using False D(2) pc r(2) by (simp add: spoon_ok_def)
    moreover have "spoon_ok i (ds_spoon s i) Ph_eat (ds_pc s (right_user i))"
      using D(1) pc by (simp add: spoon_ok_def)
    ultimately have "din_inv (goto i Ph_eat (set_spoon ?r ?sp s))"
      using r(3) by (intro din_inv_update [OF inv i]) (simp_all add: goto_def set_spoon_def)
    then show ?thesis using False p by (simp add: access_right_def Let_def)
  qed
qed

lemma access_give_up_inv:
  assumes inv: "din_inv s" and i: "i < N_PHILOSOPHER" and pc: "ds_pc s i = Ph_give_up_locked"
  shows "\<exists>s'. access_give_up i s = Moved s' \<and> din_inv s'"
proof -
  let ?r = "phil_get_right_spoon i"
  note D = din_invD [OF inv i] and r = right_spoon [OF i]
  let ?l = "(ds_spoon s i)\<lparr>sp_is_used := False, sp_phil := None, sp_mutex := None\<rparr>"
  let ?sp = "(ds_spoon s ?r)\<lparr>sp_mutex := None\<rparr>"
  have "spoon_ok i ?l Ph_start (ds_pc s (right_user i))" using D(1) pc by (simp add: spoon_ok_def)
  moreover have "spoon_ok ?r ?sp (ds_pc s ?r) Ph_start" using D(2) pc by (auto simp: spoon_ok_def)
  ultimately have "din_inv (goto i Ph_start (set_spoon ?r ?sp (set_spoon i ?l s)))"
    using r(3) by (intro din_inv_update [OF inv i]) (simp_all add: goto_def set_spoon_def)
  then show ?thesis using D(1) pc r(3)
    by (simp add: access_give_up_def phil_get_left_spoon_def spoon_ok_def set_spoon_def Let_def)
qed

lemma phil_eat_inv:
  assumes inv: "din_inv s" and i: "i < N_PHILOSOPHER" and pc: "ds_pc s i = Ph_eat"
  shows "\<exists>s'. phil_eat i s = Moved s' \<and> din_inv s'"
proof -
  note D = din_invD [OF inv i] and r = right_spoon [OF i]
  have "din_inv (goto i Ph_release (s\<lparr>ds_eat_count := (ds_eat_count s)(i := ds_eat_count s i + 1)\<rparr>))"
    using D pc by (intro din_inv_update [OF inv i]) (simp_all add: goto_def spoon_ok_def)
  then show ?thesis using D pc r(2) by (simp add: phil_eat_def phil_get_left_spoon_def spoon_ok_def Let_def)
qed

lemma release_left_inv:
  assumes inv: "din_inv s" and i: "i < N_PHILOSOPHER" and pc: "ds_pc s i = Ph_release_both"
  shows "\<exists>s'. release_left i s = Moved s' \<and> din_inv s'"
proof -
  note D = din_invD [OF inv i] and r = right_spoon [OF i]
  let ?l = "(ds_spoon s i)\<lparr>sp_phil := None, sp_is_used := False, sp_mutex := None\<rparr>"
  let ?s = "goto i Ph_release_right (set_spoon i ?l s)"
  have "spoon_ok i ?l Ph_release_right (ds_pc s (right_user i))" using D(1) pc by (simp add: spoon_ok_def)
  moreover have "spoon_ok (phil_get_right_spoon i) (ds_spoon s (phil_get_right_spoon i)) (ds_pc s (phil_get_right_spoon i)) Ph_release_right"
    using D(2) pc by (simp add: spoon_ok_def)
  ultimately have "din_inv ?s"
    using r(3) by (intro din_inv_update [OF inv i]) (simp_all add: goto_def set_spoon_def)
  moreover have "signal i ?s = ?s" by (intro signal_other) (simp add: goto_def)
  ultimately show ?thesis using D pc r(2)
    by (simp add: release_left_def phil_get_left_spoon_def spoon_ok_def Let_def)
qed

lemma release_right_inv:
  assumes inv: "din_inv s" and i: "i < N_PHILOSOPHER" and pc: "ds_pc s i = Ph_release_right"
  shows "\<exists>s'. release_right i s = Moved s' \<and> din_inv s'"
proof -
  let ?r = "phil_get_right_spoon i"
  let ?p = "if ds_pc s ?r = Ph_left_wait then Ph_left_woken else ds_pc s ?r"
  note D = din_invD [OF inv i] and r = right_spoon [OF i]
  let ?sp = "(ds_spoon s ?r)\<lparr>sp_phil := None, sp_is_used := False, sp_mutex := None\<rparr>"
  text \<open>The waiting philosopher is woken before the spoon is given back in the proof, at the same time in the code.\<close>
  let ?s0 = "goto ?r ?p s"
  have inv0: "din_inv ?s0"
    using din_inv_wake [OF inv r(1)] inv by (auto simp: goto_def)
  note D0 = din_invD [OF inv0 i]
  have pc0: "ds_pc ?s0 i = Ph_release_right" "ds_pc ?s0 ?r = ?p" "?p \<noteq> Ph_left_wait"
    using pc r(3) by (auto simp: goto_def)
  have "spoon_ok i (ds_spoon s i) Ph_start (ds_pc ?s0 (right_user i))"
    using D0(1) pc0(1) by (simp add: spoon_ok_def goto_def)
  moreover have "spoon_ok ?r ?sp ?p Ph_start"
    using D0(2) unfolding pc0(1,2) using pc0(3) by (simp add: spoon_ok_def goto_def del: split_paired_All)
  ultimately have "din_inv (goto i Ph_start (set_spoon ?r ?sp ?s0))"
    using r(3) pc0(2) by (intro din_inv_update [OF inv0 i]) (simp_all add: goto_def set_spoon_def)
  moreover have "signal ?r (goto i Ph_start (set_spoon ?r ?sp s)) = goto i Ph_start (set_spoon ?r ?sp ?s0)"
  proof (cases "ds_pc s ?r = Ph_left_wait")
    case True
    then show ?thesis using r(3) by (simp add: signal_wait goto_def set_spoon_def fun_upd_twist)
  next
    case False
    then show ?thesis using r(3) by (simp add: signal_other goto_def set_spoon_def)
  qed
  ultimately show ?thesis by (simp add: release_right_def Let_def)
qed

lemma lock_outcome: "lock k i pc s \<noteq> Assert_fails"
  by (simp add: lock_def)

lemma philosopher_fn_inv:
  assumes inv: "din_inv s" and i: "i < N_PHILOSOPHER"
  shows "philosopher_fn i s = Disabled \<or> (\<exists>s'. philosopher_fn i s = Moved s' \<and> din_inv s')"
proof -
  have left: ?thesis if "philosopher_fn i s = lock (phil_get_left_spoon i) i pc s"
    "\<And>s'. lock (phil_get_left_spoon i) i pc s = Moved s' \<Longrightarrow> din_inv s'" for pc
    using that lock_outcome by (cases "lock (phil_get_left_spoon i) i pc s") auto
  have right: ?thesis if "philosopher_fn i s = lock (phil_get_right_spoon i) i pc s"
    "\<And>s'. lock (phil_get_right_spoon i) i pc s = Moved s' \<Longrightarrow> din_inv s'" for pc
    using that lock_outcome by (cases "lock (phil_get_right_spoon i) i pc s") auto
  note go = access_left_inv access_right_inv access_give_up_inv phil_eat_inv release_left_inv release_right_inv
  show ?thesis
  proof (cases "ds_pc s i")
    case Ph_start
    then show ?thesis by (intro left) (auto simp: philosopher_fn_def intro: lock_left_inv [OF inv i])
  next
    case Ph_left_woken
    then show ?thesis by (intro left) (auto simp: philosopher_fn_def intro: lock_left_inv [OF inv i])
  next
    case Ph_give_up
    then show ?thesis by (intro left) (auto simp: philosopher_fn_def intro: lock_left_inv [OF inv i])
  next
    case Ph_release
    then show ?thesis by (intro left) (auto simp: philosopher_fn_def intro: lock_left_inv [OF inv i])
  next
    case Ph_right_try
    then show ?thesis by (intro right) (auto simp: philosopher_fn_def intro: lock_right_inv [OF inv i])
  next
    case Ph_release_left
    then show ?thesis by (intro right) (auto simp: philosopher_fn_def intro: lock_right_inv [OF inv i])
  qed (use go [OF inv i] in \<open>simp_all add: philosopher_fn_def\<close>)
qed

lemma din_start_inv: "din_inv din_main"
  by (simp add: din_inv_def din_main_def spoon_ok_def)

lemma din_reach_inv: "din_reach s \<Longrightarrow> din_inv s"
proof (induction rule: din_reach.induct)
  case (step s i s')
  then show ?case using philosopher_fn_inv [of s i] by auto
qed (simp_all add: din_start_inv din_inv_wake)

text \<open>C9. Whatever the interleaving and the spurious wake-ups, no assertion of the program fails, two
  neighbours never eat at the same time, a philosopher who eats has both his spoons, and one who waits
  for his left spoon waits for a neighbour who eats or is releasing it.\<close>

theorem din_phil_safety:
  assumes "din_reach s" "i < N_PHILOSOPHER"
  shows "philosopher_fn i s \<noteq> Assert_fails \<and>
    \<not> (ds_pc s i = Ph_eat \<and> ds_pc s (phil_get_right_spoon i) = Ph_eat) \<and>
    (ds_pc s i = Ph_eat \<longrightarrow> sp_phil (ds_spoon s (phil_get_left_spoon i)) = Some i \<and>
      sp_phil (ds_spoon s (phil_get_right_spoon i)) = Some i) \<and>
    (ds_pc s i = Ph_left_wait \<longrightarrow> (\<exists>j<N_PHILOSOPHER. phil_get_right_spoon j = i \<and>
      ds_pc s j \<in> {Ph_eat, Ph_release, Ph_release_left, Ph_release_both, Ph_release_right}))"
proof -
  have inv: "din_inv s" by (rule din_reach_inv [OF assms(1)])
  note D = din_invD [OF inv assms(2)]
  have "philosopher_fn i s \<noteq> Assert_fails" using philosopher_fn_inv [OF inv assms(2)] by auto
  moreover have "\<not> (ds_pc s i = Ph_eat \<and> ds_pc s (phil_get_right_spoon i) = Ph_eat)"
    using D(2) by (auto simp: spoon_ok_def)
  moreover have "ds_pc s i = Ph_eat \<longrightarrow> sp_phil (ds_spoon s (phil_get_left_spoon i)) = Some i \<and>
      sp_phil (ds_spoon s (phil_get_right_spoon i)) = Some i"
    using D right_spoon(2) [OF assms(2)] by (auto simp: spoon_ok_def phil_get_left_spoon_def)
  moreover have "\<exists>j<N_PHILOSOPHER. phil_get_right_spoon j = i \<and>
      ds_pc s j \<in> {Ph_eat, Ph_release, Ph_release_left, Ph_release_both, Ph_release_right}"
    if "ds_pc s i = Ph_left_wait"
  proof (intro exI conjI)
    show "right_user i < N_PHILOSOPHER" "phil_get_right_spoon (right_user i) = i"
      using assms(2) by (auto simp: right_user_def phil_get_right_spoon_def)
    have "has_right (ds_pc s (right_user i))" using D(1) that by (simp add: spoon_ok_def)
    then show "ds_pc s (right_user i) \<in> {Ph_eat, Ph_release, Ph_release_left, Ph_release_both, Ph_release_right}"
      by (cases "ds_pc s (right_user i)") simp_all
  qed
  ultimately show ?thesis by blast
qed

theorem din_phil_safety_witness:
  "\<exists>s. din_run [0, 0, 0, 0, 1, 1, 1, 1, 2, 2, 2, 2, 4, 4] din_main = Some s \<and> ds_pc s 0 = Ph_eat \<and>
    ds_pc s 4 = Ph_left_wait \<and> philosopher_fn 0 s \<noteq> Assert_fails \<and> ds_pc s (phil_get_right_spoon 0) \<noteq> Ph_eat"
proof -
  let ?r = "[0, 0, 0, 0, 1, 1, 1, 1, 2, 2, 2, 2, 4, 4]"
  have "map_option (\<lambda>s. (ds_pc s 0, ds_pc s 4)) (din_run ?r din_main) = Some (Ph_eat, Ph_left_wait)"
    by code_simp
  then obtain s where s: "din_run ?r din_main = Some s" "ds_pc s 0 = Ph_eat" "ds_pc s 4 = Ph_left_wait"
    by (auto simp del: din_run.simps)
  have "din_reach s" by (rule din_run_reach [OF din_reach.start s(1)])
  from din_phil_safety [OF this, of 0] s show ?thesis
    by (auto simp: N_PHILOSOPHER_def simp del: din_run.simps)
qed

text \<open>A philosopher who cannot go on waits for the left spoon or for a mutex that is held.\<close>

lemma disabled_cases:
  assumes inv: "din_inv s" and i: "i < N_PHILOSOPHER" and stuck: "philosopher_fn i s = Disabled"
  shows "ds_pc s i = Ph_left_wait \<or>
    (ds_pc s i \<in> {Ph_start, Ph_left_woken, Ph_give_up, Ph_release} \<and> locks_right (ds_pc s (right_user i))) \<or>
    (ds_pc s i \<in> {Ph_right_try, Ph_release_left} \<and> locks_left (ds_pc s (phil_get_right_spoon i)))"
proof -
  note D = din_invD [OF inv i]
  have held: "sp_mutex (ds_spoon s k) \<noteq> None" if "lock k i pc s = Disabled" for k pc
    using that by (simp add: lock_def split: if_splits)
  have l: "locks_right (ds_pc s (right_user i))"
    if "\<not> locks_left (ds_pc s i)" "lock (phil_get_left_spoon i) i pc s = Disabled" for pc
    using held [OF that(2)] D(1) that(1) by (auto simp: phil_get_left_spoon_def spoon_ok_def split: if_splits)
  have r: "locks_left (ds_pc s (phil_get_right_spoon i))"
    if "\<not> locks_right (ds_pc s i)" "lock (phil_get_right_spoon i) i pc s = Disabled" for pc
    using held [OF that(2)] D(2) that(1) by (auto simp: spoon_ok_def split: if_splits)
  note go = access_left_inv [OF inv i] access_right_inv [OF inv i] access_give_up_inv [OF inv i]
    phil_eat_inv [OF inv i] release_left_inv [OF inv i] release_right_inv [OF inv i]
  show ?thesis using stuck go by (cases "ds_pc s i") (auto simp: philosopher_fn_def intro: l r)
qed

lemma five_cases:
  assumes "(i::nat) < 5"
  obtains "i = 0" | "i = 1" | "i = 2" | "i = 3" | "i = 4"
  using assms by (auto simp: less_Suc_eq numeral_eq_Suc)

text \<open>A state in which nobody can go on.\<close>

definition din_stuck :: "din \<Rightarrow> bool" where
  "din_stuck s \<longleftrightarrow> din_inv s \<and> (\<forall>i<N_PHILOSOPHER. philosopher_fn i s = Disabled)"

lemma right_user_less: "i < N_PHILOSOPHER \<Longrightarrow> right_user i < N_PHILOSOPHER"
  by (auto simp: right_user_def)

lemma din_stuck_cases:
  assumes "din_stuck s" "i < N_PHILOSOPHER"
  shows "ds_pc s i = Ph_left_wait \<or>
    (ds_pc s i \<in> {Ph_start, Ph_left_woken, Ph_give_up, Ph_release} \<and> locks_right (ds_pc s (right_user i))) \<or>
    (ds_pc s i \<in> {Ph_right_try, Ph_release_left} \<and> locks_left (ds_pc s (phil_get_right_spoon i)))"
  using assms disabled_cases [of s i] by (auto simp: din_stuck_def)

lemma din_stuck_no_left:
  assumes "din_stuck s" and i: "i < N_PHILOSOPHER"
  shows "\<not> locks_left (ds_pc s i)"
proof
  note C = din_stuck_cases [OF assms(1)]
  assume l: "locks_left (ds_pc s i)"
  then have "ds_pc s i = Ph_release_left" using C [OF i] by (cases "ds_pc s i") auto
  then have "locks_left (ds_pc s (phil_get_right_spoon i))" using C [OF i] by auto
  then have "ds_pc s (phil_get_right_spoon i) = Ph_release_left"
    using C [OF right_spoon(1) [OF i]] by (cases "ds_pc s (phil_get_right_spoon i)") auto
  then show False using din_invD(2) [of s i] i assms(1) \<open>ds_pc s i = Ph_release_left\<close> by (simp add: spoon_ok_def din_stuck_def)
qed

text \<open>The neighbour of a philosopher who does not wait for his left spoon is giving up.\<close>

lemma din_stuck_onward:
  assumes "din_stuck s" and i: "i < N_PHILOSOPHER" "ds_pc s i \<noteq> Ph_left_wait"
  shows "ds_pc s (right_user i) = Ph_give_up"
proof -
  have "locks_right (ds_pc s (right_user i))"
    using din_stuck_cases [OF assms(1) i(1)] din_stuck_no_left [OF assms(1) right_spoon(1) [OF i(1)]] i(2) by blast
  then show ?thesis
    using din_stuck_cases [OF assms(1) right_user_less [OF i(1)]] by (cases "ds_pc s (right_user i)") auto
qed

lemma din_stuck_round:
  assumes "din_stuck s" and i: "i < N_PHILOSOPHER" "ds_pc s i = Ph_give_up"
  shows "\<forall>j<N_PHILOSOPHER. ds_pc s j = Ph_give_up"
proof -
  have go: "ds_pc s (right_user k) = Ph_give_up" if "k < N_PHILOSOPHER" "ds_pc s k = Ph_give_up" for k
    using din_stuck_onward [OF assms(1), of k] that by simp
  have up: "ds_pc s (Suc k) = Ph_give_up" if "Suc k < 5" "ds_pc s k = Ph_give_up" for k
    using go [of k] that by (auto simp: right_user_def N_PHILOSOPHER_def)
  have wrap: "ds_pc s 4 = Ph_give_up \<Longrightarrow> ds_pc s 0 = Ph_give_up"
    using go [of 4] by (simp add: right_user_def N_PHILOSOPHER_def)
  note up4 = up [of 0, simplified] up [of 1, simplified] up [of 2, simplified] up [of 3, simplified]
  have "ds_pc s 0 = Ph_give_up"
    by (rule five_cases [of i]) (use i up4 wrap in \<open>auto simp: N_PHILOSOPHER_def numeral_eq_Suc\<close>)
  then show ?thesis using up4 by (auto simp: N_PHILOSOPHER_def less_Suc_eq numeral_eq_Suc)
qed

lemma din_stuck_all:
  assumes stuck: "din_stuck s"
  shows "\<forall>i<N_PHILOSOPHER. ds_pc s i = Ph_give_up"
proof (cases "ds_pc s 0 = Ph_left_wait")
  case False
  have z: "0 < N_PHILOSOPHER" by (simp add: N_PHILOSOPHER_def)
  show ?thesis by (rule din_stuck_round [OF stuck right_user_less [OF z] din_stuck_onward [OF stuck z False]])
next
  case True
  have z: "0 < N_PHILOSOPHER" by (simp add: N_PHILOSOPHER_def)
  have "has_right (ds_pc s (right_user 0))"
    using True din_invD(1) [of s 0] z stuck by (simp add: spoon_ok_def din_stuck_def)
  then have "ds_pc s (right_user 0) \<noteq> Ph_left_wait" by auto
  note user = right_user_less [OF z]
  show ?thesis by (rule din_stuck_round [OF stuck right_user_less [OF user] din_stuck_onward [OF stuck user \<open>ds_pc s (right_user 0) \<noteq> Ph_left_wait\<close>]])
qed

text \<open>C27. The program can stop for good, and only in one way: all five philosophers have taken their left
  spoon, found the right one in use, and wait for the mutex of their left spoon with that of the right
  one held.\<close>

theorem din_phil_deadlock_iff:
  assumes "din_reach s"
  shows "(\<forall>i<N_PHILOSOPHER. philosopher_fn i s = Disabled) \<longleftrightarrow> (\<forall>i<N_PHILOSOPHER. ds_pc s i = Ph_give_up)"
proof
  have inv: "din_inv s" by (rule din_reach_inv [OF assms])
  assume "\<forall>i<N_PHILOSOPHER. philosopher_fn i s = Disabled"
  then show "\<forall>i<N_PHILOSOPHER. ds_pc s i = Ph_give_up" using inv by (intro din_stuck_all) (simp add: din_stuck_def)
next
  have inv: "din_inv s" by (rule din_reach_inv [OF assms])
  assume all: "\<forall>i<N_PHILOSOPHER. ds_pc s i = Ph_give_up"
  show "\<forall>i<N_PHILOSOPHER. philosopher_fn i s = Disabled"
  proof (intro allI impI)
    fix i assume i: "i < N_PHILOSOPHER"
    then have "sp_mutex (ds_spoon s i) = Some (right_user i)"
      using din_invD(1) [OF inv i] all right_user_less [OF i] by (simp add: spoon_ok_def)
    then show "philosopher_fn i s = Disabled"
      using all i by (simp add: philosopher_fn_def lock_def phil_get_left_spoon_def)
  qed
qed

theorem din_phil_deadlock_iff_witness:
  "\<exists>s. din_run ([0, 0, 1, 1, 2, 2, 3, 3, 4, 4] @ [0, 0, 1, 1, 2, 2, 3, 3, 4, 4]) din_main = Some s \<and>
    (\<forall>i<N_PHILOSOPHER. philosopher_fn i s = Disabled)"
proof -
  let ?r = "[0, 0, 1, 1, 2, 2, 3, 3, 4, 4] @ [0, 0, 1, 1, 2, 2, 3, 3, 4, 4] :: nat list"
  have "map_option (\<lambda>s. map (ds_pc s) [0, 1, 2, 3, 4]) (din_run ?r din_main) = Some [Ph_give_up, Ph_give_up, Ph_give_up, Ph_give_up, Ph_give_up]"
    by code_simp
  then obtain s where s: "din_run ?r din_main = Some s" and m: "map (ds_pc s) [0, 1, 2, 3, 4] = [Ph_give_up, Ph_give_up, Ph_give_up, Ph_give_up, Ph_give_up]"
    unfolding map_option_eq_Some by (elim exE conjE) (rule that)
  from m have f: "ds_pc s 0 = Ph_give_up" "ds_pc s 1 = Ph_give_up" "ds_pc s 2 = Ph_give_up"
    "ds_pc s 3 = Ph_give_up" "ds_pc s 4 = Ph_give_up"
    by simp_all
  have "din_reach s" by (rule din_run_reach [OF din_reach.start s(1)])
  moreover have "\<forall>i<N_PHILOSOPHER. ds_pc s i = Ph_give_up"
    unfolding N_PHILOSOPHER_def
  proof (intro allI impI)
    fix i :: nat assume "i < 5"
    then show "ds_pc s i = Ph_give_up" by (cases rule: five_cases) (simp_all only: f)
  qed
  ultimately have "\<forall>i<N_PHILOSOPHER. philosopher_fn i s = Disabled"
    using din_phil_deadlock_iff [of s] by blast
  with s(1) show ?thesis by blast
qed

end
