(* ===== verification/LinkedList.thy ===== *)
theory LinkedList
  imports Prelude "HOL-Library.Monad_Syntax" "HOL-Library.Multiset"
begin

text \<open>
  The singly linked list of \<^verbatim>\<open>CRUD/LinkedList/LinkedListApi.c\<close>, on an explicit heap with
  allocation and deallocation: nodes are addresses, NULL is 0, a list is a record of its fields, and
  \<open>None\<close> is a fault: a dereferenced NULL or freed node, a failed assertion, an endless loop.
\<close>

section \<open>The heap\<close>

text \<open>\<open>lh_brk\<close> is the next address that \<^verbatim>\<open>calloc\<close> returns; \<^verbatim>\<open>calloc\<close> does not fail.\<close>

record ll_heap =
  lh_data :: "addr \<Rightarrow> addr"
  lh_next :: "addr \<Rightarrow> addr"
  lh_live :: "addr \<Rightarrow> bool"
  lh_brk :: addr

definition rd_data :: "addr \<Rightarrow> ll_heap \<Rightarrow> addr option" where
  "rd_data p h = (if p \<noteq> 0 \<and> lh_live h p then Some (lh_data h p) else None)"

definition rd_next :: "addr \<Rightarrow> ll_heap \<Rightarrow> addr option" where
  "rd_next p h = (if p \<noteq> 0 \<and> lh_live h p then Some (lh_next h p) else None)"

definition wr_data :: "addr \<Rightarrow> addr \<Rightarrow> ll_heap \<Rightarrow> ll_heap option" where
  "wr_data p v h = (if p \<noteq> 0 \<and> lh_live h p then Some (h\<lparr>lh_data := (lh_data h)(p := v)\<rparr>) else None)"

definition wr_next :: "addr \<Rightarrow> addr \<Rightarrow> ll_heap \<Rightarrow> ll_heap option" where
  "wr_next p v h = (if p \<noteq> 0 \<and> lh_live h p then Some (h\<lparr>lh_next := (lh_next h)(p := v)\<rparr>) else None)"

definition free_node :: "addr \<Rightarrow> ll_heap \<Rightarrow> ll_heap option" where
  "free_node p h = (if p \<noteq> 0 \<and> lh_live h p then Some (h\<lparr>lh_live := (lh_live h)(p := False)\<rparr>) else None)"

section \<open>The code\<close>

text \<open>A list; \<open>None\<close> in place of a list is the NULL pointer, \<open>None\<close> in place of a comparison function
  as well.\<close>

record ll =
  ll_node_count :: u32
  ll_head :: addr
  ll_comparison_fn :: "(addr \<Rightarrow> addr \<Rightarrow> int) option"
  ll_order_comparison_fn :: "(addr \<Rightarrow> addr \<Rightarrow> int) option"

definition init_singly_ll :: ll where
  "init_singly_ll = \<lparr>ll_node_count = 0, ll_head = 0, ll_comparison_fn = None, ll_order_comparison_fn = None\<rparr>"

definition singly_ll_init_node :: "addr \<Rightarrow> ll_heap \<Rightarrow> addr \<times> ll_heap" where
  "singly_ll_init_node data h =
     (lh_brk h, h\<lparr>lh_data := (lh_data h)(lh_brk h := data), lh_next := (lh_next h)(lh_brk h := 0),
                  lh_live := (lh_live h)(lh_brk h := True), lh_brk := lh_brk h + 1\<rparr>)"

definition inc_node_count :: "ll \<Rightarrow> ll" where
  "inc_node_count l = l\<lparr>ll_node_count := ll_node_count l + 1\<rparr>"

definition dec_node_count :: "ll \<Rightarrow> ll" where
  "dec_node_count l = l\<lparr>ll_node_count := ll_node_count l - 1\<rparr>"

definition singly_ll_add_node :: "ll option \<Rightarrow> addr \<Rightarrow> ll_heap \<Rightarrow> (int \<times> ll option \<times> ll_heap) option" where
  "singly_ll_add_node lp node h =
     (case lp of None \<Rightarrow> Some (-1, None, h)
      | Some l \<Rightarrow>
          if node = 0 then Some (-1, Some l, h)
          else if ll_head l = 0 then Some (0, Some (inc_node_count (l\<lparr>ll_head := node\<rparr>)), h)
          else do {
            h1 \<leftarrow> wr_next node (ll_head l) h;
            Some (0, Some (inc_node_count (l\<lparr>ll_head := node\<rparr>)), h1)
          })"

fun ll_scan_nodes :: "nat \<Rightarrow> addr \<Rightarrow> addr \<Rightarrow> ll_heap \<Rightarrow> addr option" where
  "ll_scan_nodes 0 head data h = Some 0"
| "ll_scan_nodes (Suc k) head data h = do {
     d \<leftarrow> rd_data head h;
     if d = data then Some head
     else do { n \<leftarrow> rd_next head h; ll_scan_nodes k n data h }
   }"

definition singly_ll_get_node_by_data_ptr :: "ll option \<Rightarrow> addr \<Rightarrow> ll_heap \<Rightarrow> addr option" where
  "singly_ll_get_node_by_data_ptr lp data h =
     (case lp of None \<Rightarrow> Some 0
      | Some l \<Rightarrow> if ll_head l = 0 then Some 0 else ll_scan_nodes (unat (ll_node_count l)) (ll_head l) data h)"

definition singly_ll_add_node_by_val :: "ll option \<Rightarrow> addr \<Rightarrow> ll_heap \<Rightarrow> (int \<times> ll option \<times> ll_heap) option" where
  "singly_ll_add_node_by_val lp data h = do {
     n \<leftarrow> singly_ll_get_node_by_data_ptr lp data h;
     if n \<noteq> 0 then Some (-1, lp, h)
     else let (node, h1) = singly_ll_init_node data h in singly_ll_add_node lp node h1
   }"

text \<open>The loops \<^verbatim>\<open>while(trav->next != node)\<close> and \<^verbatim>\<open>while(trav != NULL)\<close>.\<close>

partial_function (option) ll_find_prev :: "ll_heap \<Rightarrow> addr \<Rightarrow> addr \<Rightarrow> addr option" where
  "ll_find_prev h node trav =
     Option.bind (rd_next trav h) (\<lambda>n. if n = node then Some trav else ll_find_prev h node n)"

partial_function (option) ll_scan :: "(addr \<Rightarrow> bool) \<Rightarrow> ll_heap \<Rightarrow> addr \<Rightarrow> addr option" where
  "ll_scan P h trav =
     (if trav = 0 then Some 0
      else Option.bind (rd_data trav h) (\<lambda>d. if P d then Some trav
           else Option.bind (rd_next trav h) (\<lambda>n. ll_scan P h n)))"

definition singly_ll_delete_node :: "ll option \<Rightarrow> addr \<Rightarrow> ll_heap \<Rightarrow> (int \<times> ll option \<times> ll_heap) option" where
  "singly_ll_delete_node lp node h =
     (case lp of None \<Rightarrow> Some (-1, None, h)
      | Some l \<Rightarrow>
          if ll_head l = 0 \<or> node = 0 then Some (0, Some l, h)
          else do {
            nxt \<leftarrow> rd_next node h;
            if nxt \<noteq> 0 then do {
              d \<leftarrow> rd_data nxt h;
              h1 \<leftarrow> wr_data node d h;
              n2 \<leftarrow> rd_next nxt h1;
              h2 \<leftarrow> wr_next node n2 h1;
              h3 \<leftarrow> free_node nxt h2;
              Some (0, Some (dec_node_count l), h3)
            }
            else if ll_node_count l = 1 \<and> ll_head l = node then do {
              h1 \<leftarrow> free_node node h;
              Some (0, Some (dec_node_count (l\<lparr>ll_head := 0\<rparr>)), h1)
            }
            else do {
              trav \<leftarrow> ll_find_prev h node (ll_head l);
              h1 \<leftarrow> wr_next trav 0 h;
              h2 \<leftarrow> free_node node h1;
              Some (0, Some (dec_node_count l), h2)
            }
          })"

text \<open>The loop of \<^verbatim>\<open>singly_ll_remove_node\<close> with \<open>k\<close> iterations left: the predecessor of \<open>node\<close>,
  or \<open>None\<close> inside when the loop ends without it.\<close>

fun ll_remove_scan :: "nat \<Rightarrow> addr \<Rightarrow> addr \<Rightarrow> addr \<Rightarrow> ll_heap \<Rightarrow> addr option option" where
  "ll_remove_scan 0 prev head node h = Some None"
| "ll_remove_scan (Suc k) prev head node h =
     (if head \<noteq> node then do { n \<leftarrow> rd_next head h; ll_remove_scan k head n node h }
      else Some (Some prev))"

definition singly_ll_remove_node :: "ll option \<Rightarrow> addr \<Rightarrow> ll_heap \<Rightarrow> (int \<times> ll option \<times> ll_heap) option" where
  "singly_ll_remove_node lp node h =
     (case lp of None \<Rightarrow> Some (0, None, h)
      | Some l \<Rightarrow>
          if ll_head l = 0 then Some (0, Some l, h)
          else if node = 0 then Some (-1, Some l, h)
          else if ll_head l = node then do {
            n \<leftarrow> rd_next node h;
            h1 \<leftarrow> wr_next node 0 h;
            Some (0, Some (dec_node_count (l\<lparr>ll_head := n\<rparr>)), h1)
          }
          else do {
            n \<leftarrow> rd_next (ll_head l) h;
            r \<leftarrow> ll_remove_scan (unat (ll_node_count l) - 1) (ll_head l) n node h;
            (case r of None \<Rightarrow> Some (-1, Some l, h)
             | Some prev \<Rightarrow> do {
                 n2 \<leftarrow> rd_next node h;
                 h1 \<leftarrow> wr_next prev n2 h;
                 h2 \<leftarrow> wr_next node 0 h1;
                 Some (0, Some (dec_node_count l), h2)
               })
          })"

text \<open>\<^verbatim>\<open>memcmp(a, b, size) == 0\<close> on the memory \<open>mem\<close> of the data.\<close>

definition memcmp_eq :: "(addr \<Rightarrow> u8) \<Rightarrow> nat \<Rightarrow> addr \<Rightarrow> addr \<Rightarrow> bool" where
  "memcmp_eq mem sz a b \<longleftrightarrow> map (\<lambda>i. mem (a + i)) [0..<sz] = map (\<lambda>i. mem (b + i)) [0..<sz]"

text \<open>The three operations that look for a node and take it out: the number of nodes taken out.\<close>

definition ll_take_out ::
  "(ll option \<Rightarrow> addr \<Rightarrow> ll_heap \<Rightarrow> (int \<times> ll option \<times> ll_heap) option) \<Rightarrow> (addr \<Rightarrow> bool) \<Rightarrow>
   ll option \<Rightarrow> ll_heap \<Rightarrow> (u32 \<times> ll option \<times> ll_heap) option" where
  "ll_take_out op P lp h =
     (case lp of None \<Rightarrow> Some (0, None, h)
      | Some l \<Rightarrow>
          if ll_head l = 0 then Some (0, Some l, h)
          else do {
            trav \<leftarrow> ll_scan P h (ll_head l);
            if trav = 0 then Some (ll_node_count l - ll_node_count l, Some l, h)
            else do {
              (r, lp', h1) \<leftarrow> op (Some l) trav h;
              l' \<leftarrow> lp';
              Some (ll_node_count l - ll_node_count l', Some l', h1)
            }
          })"

definition singly_ll_delete_node_by_value ::
  "(addr \<Rightarrow> u8) \<Rightarrow> ll option \<Rightarrow> addr \<Rightarrow> nat \<Rightarrow> ll_heap \<Rightarrow> (u32 \<times> ll option \<times> ll_heap) option" where
  "singly_ll_delete_node_by_value mem lp data sz = ll_take_out singly_ll_delete_node (\<lambda>d. memcmp_eq mem sz d data) lp"

definition singly_ll_remove_node_by_value ::
  "(addr \<Rightarrow> u8) \<Rightarrow> ll option \<Rightarrow> addr \<Rightarrow> nat \<Rightarrow> ll_heap \<Rightarrow> (u32 \<times> ll option \<times> ll_heap) option" where
  "singly_ll_remove_node_by_value mem lp data sz = ll_take_out singly_ll_remove_node (\<lambda>d. memcmp_eq mem sz d data) lp"

definition singly_ll_remove_node_by_dataptr ::
  "ll option \<Rightarrow> addr \<Rightarrow> ll_heap \<Rightarrow> (u32 \<times> ll option \<times> ll_heap) option" where
  "singly_ll_remove_node_by_dataptr lp data = ll_take_out singly_ll_remove_node (\<lambda>d. d = data) lp"

definition is_singly_ll_empty :: "ll option \<Rightarrow> bool option" where
  "is_singly_ll_empty lp = map_option (\<lambda>l. ll_node_count l = 0) lp"

partial_function (option) ll_reverse_loop :: "addr \<Rightarrow> addr \<Rightarrow> ll_heap \<Rightarrow> (addr \<times> ll_heap) option" where
  "ll_reverse_loop p1 p2 h =
     Option.bind (rd_next p2 h) (\<lambda>p3. Option.bind (wr_next p2 p1 h) (\<lambda>h1.
       if p3 = 0 then Some (p2, h1) else ll_reverse_loop p2 p3 h1))"

definition reverse_singly_ll :: "ll option \<Rightarrow> ll_heap \<Rightarrow> (ll \<times> ll_heap) option" where
  "reverse_singly_ll lp h = do {
     l \<leftarrow> lp;
     if ll_node_count l = 0 \<or> ll_node_count l = 1 then Some (l, h)
     else do {
       p2 \<leftarrow> rd_next (ll_head l) h;
       h1 \<leftarrow> wr_next (ll_head l) 0 h;
       (p1, h2) \<leftarrow> ll_reverse_loop (ll_head l) p2 h1;
       Some (l\<lparr>ll_head := p1\<rparr>, h2)
     }
   }"

partial_function (option) ll_free_loop :: "addr \<Rightarrow> addr \<Rightarrow> ll_heap \<Rightarrow> ll_heap option" where
  "ll_free_loop head nxt h =
     Option.bind (free_node head h) (\<lambda>h1. if nxt = 0 then Some h1
       else Option.bind (rd_next nxt h1) (\<lambda>n. ll_free_loop nxt n h1))"

definition delete_singly_ll :: "ll option \<Rightarrow> ll_heap \<Rightarrow> (ll option \<times> ll_heap) option" where
  "delete_singly_ll lp h =
     (case lp of None \<Rightarrow> Some (None, h)
      | Some l \<Rightarrow>
          if ll_node_count l = 0 then Some (Some l, h)
          else do {
            n \<leftarrow> rd_next (ll_head l) h;
            h1 \<leftarrow> ll_free_loop (ll_head l) n h;
            Some (Some (l\<lparr>ll_node_count := 0, ll_head := 0\<rparr>), h1)
          })"

definition singly_ll_set_comparison_fn :: "ll option \<Rightarrow> (addr \<Rightarrow> addr \<Rightarrow> int) option \<Rightarrow> ll option" where
  "singly_ll_set_comparison_fn lp f = map_option (\<lambda>l. l\<lparr>ll_comparison_fn := f\<rparr>) lp"

definition singly_ll_set_order_comparison_fn :: "ll option \<Rightarrow> (addr \<Rightarrow> addr \<Rightarrow> int) option \<Rightarrow> ll option" where
  "singly_ll_set_order_comparison_fn lp f = map_option (\<lambda>l. l\<lparr>ll_order_comparison_fn := f\<rparr>) lp"

text \<open>The loop \<^verbatim>\<open>ITERATE_LIST_BEGIN ... END\<close> with the body of \<^verbatim>\<open>singly_ll_search_by_key\<close>, and
  with that of \<^verbatim>\<open>copy_singly_ll\<close> (\<open>skip\<close>) and \<^verbatim>\<open>union_singly_ll\<close>.\<close>

partial_function (option) ll_search_loop ::
  "(addr \<Rightarrow> addr \<Rightarrow> int) option \<Rightarrow> addr \<Rightarrow> ll_heap \<Rightarrow> addr \<Rightarrow> addr option" where
  "ll_search_loop cmp key h node =
     (if node = 0 then Some 0
      else Option.bind (rd_next node h) (\<lambda>n. Option.bind (rd_data node h) (\<lambda>d. Option.bind cmp (\<lambda>f.
        if f d key \<noteq> 0 then Some d else ll_search_loop cmp key h n))))"

definition singly_ll_search_by_key :: "ll option \<Rightarrow> addr \<Rightarrow> ll_heap \<Rightarrow> addr option" where
  "singly_ll_search_by_key lp key h = do {
     l \<leftarrow> lp;
     if key = 0 then Some 0 else ll_search_loop (ll_comparison_fn l) key h (ll_head l)
   }"

partial_function (option) ll_add_all ::
  "bool \<Rightarrow> addr \<Rightarrow> ll option \<Rightarrow> ll_heap \<Rightarrow> (ll option \<times> ll_heap) option" where
  "ll_add_all skip node lp h =
     (if node = 0 then Some (lp, h)
      else Option.bind (rd_next node h) (\<lambda>n. Option.bind (rd_data node h) (\<lambda>d.
        if skip \<and> d = 0 then ll_add_all skip n lp h
        else Option.bind (singly_ll_add_node_by_val lp d h) (\<lambda>(r, lp', h'). ll_add_all skip n lp' h'))))"

text \<open>Of two different lists \<open>src\<close> and \<open>dst\<close>.\<close>

definition copy_singly_ll :: "ll option \<Rightarrow> ll option \<Rightarrow> ll_heap \<Rightarrow> (ll option \<times> ll_heap) option" where
  "copy_singly_ll src dst h =
     (case (src, dst) of
        (Some s, Some d) \<Rightarrow> do {
          (d1, h1) \<leftarrow> delete_singly_ll (Some d) h;
          (d2, h2) \<leftarrow> ll_add_all True (ll_head s) d1 h1;
          d3 \<leftarrow> singly_ll_set_comparison_fn d2 (ll_comparison_fn s);
          Some (Some d3, h2)
        }
      | _ \<Rightarrow> Some (dst, h))"

definition union_singly_ll :: "ll option \<Rightarrow> ll option \<Rightarrow> ll_heap \<Rightarrow> (ll option \<times> ll_heap) option" where
  "union_singly_ll list1 list2 h =
     (case list1 of None \<Rightarrow> Some (list2, h)
      | Some l1 \<Rightarrow> (case list2 of None \<Rightarrow> Some (list1, h)
      | Some l2 \<Rightarrow> do {
          res \<leftarrow> singly_ll_set_comparison_fn (Some init_singly_ll)
                   (if ll_comparison_fn l1 \<noteq> None then ll_comparison_fn l1 else ll_comparison_fn l2);
          (res1, h1) \<leftarrow> ll_add_all False (ll_head l1) (Some res) h;
          ll_add_all False (ll_head l2) res1 h1
        }))"

definition singly_ll_delete_node_by_data_ptr :: "ll option \<Rightarrow> addr \<Rightarrow> ll_heap \<Rightarrow> (ll option \<times> ll_heap) option" where
  "singly_ll_delete_node_by_data_ptr lp data h =
     (if data = 0 then Some (lp, h)
      else do {
        node \<leftarrow> singly_ll_get_node_by_data_ptr lp data h;
        if node = 0 then Some (lp, h)
        else do {
          (r, lp', h1) \<leftarrow> singly_ll_remove_node lp node h;
          h2 \<leftarrow> free_node node h1;
          Some (lp', h2)
        }
      })"

text \<open>The loop of \<^verbatim>\<open>singly_ll_add_ordered_data\<close>: the nodes between which the new one goes.\<close>

partial_function (option) ll_order_scan ::
  "(addr \<Rightarrow> addr \<Rightarrow> int) \<Rightarrow> addr \<Rightarrow> ll_heap \<Rightarrow> addr \<Rightarrow> addr \<Rightarrow> (addr \<times> addr) option" where
  "ll_order_scan cmp data h prev cur =
     (if cur = 0 then Some (prev, 0)
      else Option.bind (rd_next cur h) (\<lambda>n. Option.bind (rd_data cur h) (\<lambda>d.
        if cmp data d \<noteq> -1 then ll_order_scan cmp data h cur n else Some (prev, cur))))"

definition singly_ll_add_ordered_data :: "ll option \<Rightarrow> addr \<Rightarrow> ll_heap \<Rightarrow> (ll option \<times> ll_heap) option" where
  "singly_ll_add_ordered_data lp data h = do {
     l \<leftarrow> lp;
     if ll_node_count l = 0 then map_option (\<lambda>(r, l', h'). (l', h')) (singly_ll_add_node_by_val lp data h)
     else do {
       cmp \<leftarrow> ll_comparison_fn l;
       d \<leftarrow> rd_data (ll_head l) h;
       if ll_node_count l = 1 then
         (if cmp d data = -1 then map_option (\<lambda>(r, l', h'). (l', h')) (singly_ll_add_node_by_val lp data h)
          else let (new_node, h1) = singly_ll_init_node data h in do {
            h2 \<leftarrow> wr_next (ll_head l) new_node h1;
            Some (Some (inc_node_count l), h2)
          })
       else if cmp data d = -1 then
         (let (new_node, h1) = singly_ll_init_node data h in do {
            h2 \<leftarrow> wr_next new_node (ll_head l) h1;
            Some (Some (inc_node_count (l\<lparr>ll_head := new_node\<rparr>)), h2)
          })
       else do {
         (prev, nxt) \<leftarrow> ll_order_scan cmp data h 0 (ll_head l);
         let (new_node, h1) = singly_ll_init_node data h in
         if nxt \<noteq> 0 then do {
           h2 \<leftarrow> wr_next new_node nxt h1;
           h3 \<leftarrow> wr_next prev new_node h2;
           Some (Some (inc_node_count l), h3)
         }
         else do {
           h2 \<leftarrow> wr_next prev new_node h1;
           Some (Some (inc_node_count l), h2)
         }
       }
     }
   }"

end
