(* ===== verification/LinkedListSpec.thy ===== *)
theory LinkedListSpec
  imports LinkedList
begin

text \<open>
  Correctness of the singly linked list: well-formed lists in the heap, what every operation does to
  one, the interface \<open>node_remover\<close> of the operations that take a node out, and the properties.
\<close>

section \<open>Lists in the heap\<close>

fun lseg :: "ll_heap \<Rightarrow> addr \<Rightarrow> addr list \<Rightarrow> addr \<Rightarrow> bool" where
  "lseg h p [] q \<longleftrightarrow> p = q"
| "lseg h p (x # xs) q \<longleftrightarrow> p = x \<and> x \<noteq> 0 \<and> lh_live h x \<and> lseg h (lh_next h x) xs q"

text \<open>The first node of a list, or NULL.\<close>

definition hd0 :: "addr list \<Rightarrow> addr" where
  "hd0 xs = (case xs of [] \<Rightarrow> 0 | x # _ \<Rightarrow> x)"

lemma hd0_simps [simp]: "hd0 [] = 0" "hd0 (x # xs) = x"
  by (simp_all add: hd0_def)

lemma lseg_append: "lseg h p (xs @ ys) r \<longleftrightarrow> (\<exists>q. lseg h p xs q \<and> lseg h q ys r)"
  by (induction xs arbitrary: p) auto

lemma lseg_hd0: "lseg h p xs 0 \<Longrightarrow> p = hd0 xs"
  by (cases xs) auto

lemma lseg_hd0': "lseg h p xs 0 \<Longrightarrow> lseg h (hd0 xs) xs 0"
  by (cases xs) auto

lemma lseg_split: "lseg h p (xs @ ys) 0 \<longleftrightarrow> lseg h p xs (hd0 ys) \<and> lseg h (hd0 ys) ys 0"
  unfolding lseg_append by (auto dest: lseg_hd0)

lemma lseg_frame:
  assumes "lseg h p xs q"
    and "\<And>x. x \<in> set xs \<Longrightarrow> lh_next h' x = lh_next h x \<and> lh_live h' x"
  shows "lseg h' p xs q"
  using assms by (induction xs arbitrary: p) auto

lemma lseg_update: "lseg h p xs q \<Longrightarrow> b \<notin> set xs \<Longrightarrow> lseg (h\<lparr>lh_next := (lh_next h)(b := v)\<rparr>) p xs q"
  by (induction xs arbitrary: p) auto

lemma lseg_mem: "lseg h p xs q \<Longrightarrow> x \<in> set xs \<Longrightarrow> x \<noteq> 0 \<and> lh_live h x"
  by (induction xs arbitrary: p) auto

lemma lseg_last: "lseg h p xs q \<Longrightarrow> xs \<noteq> [] \<Longrightarrow> lh_next h (last xs) = q"
  by (induction xs arbitrary: p) auto

text \<open>The last node of a segment is given another successor.\<close>

lemma lseg_relink:
  assumes "lseg h p xs q" "xs \<noteq> []" "distinct xs" "lh_next h' (last xs) = q'"
    and "\<And>x. x \<in> set xs \<Longrightarrow> lh_live h' x"
    and "\<And>x. x \<in> set xs \<Longrightarrow> x \<noteq> last xs \<Longrightarrow> lh_next h' x = lh_next h x"
  shows "lseg h' p xs q'"
  using assms
proof (induction xs arbitrary: p)
  case (Cons x xs)
  show ?case
  proof (cases "xs = []")
    case False
    with Cons.prems have "x \<noteq> last xs" by auto
    with Cons False show ?thesis by auto
  qed (use Cons.prems in simp)
qed simp

definition heap_ok :: "ll_heap \<Rightarrow> bool" where
  "heap_ok h \<longleftrightarrow> 0 < lh_brk h \<and> (\<forall>p. lh_live h p \<longrightarrow> 0 < p \<and> p < lh_brk h)"

text \<open>\<open>ll_ok h l ns\<close>: the nodes of the list are \<open>ns\<close>; \<open>ll_rep h l ns ds\<close>: and \<open>ds\<close> their data.\<close>

definition ll_ok :: "ll_heap \<Rightarrow> ll \<Rightarrow> addr list \<Rightarrow> bool" where
  "ll_ok h l ns \<longleftrightarrow> lseg h (ll_head l) ns 0 \<and> distinct ns \<and> ll_node_count l = of_nat (length ns) \<and>
     length ns < 4294967296 \<and> heap_ok h"

definition ll_rep :: "ll_heap \<Rightarrow> ll \<Rightarrow> addr list \<Rightarrow> addr list \<Rightarrow> bool" where
  "ll_rep h l ns ds \<longleftrightarrow> ll_ok h l ns \<and> map (lh_data h) ns = ds"

lemma ll_ok_head: "ll_ok h l ns \<Longrightarrow> ll_head l = hd0 ns"
  by (auto simp: ll_ok_def dest: lseg_hd0)

lemma ll_ok_null: "ll_ok h l ns \<Longrightarrow> ll_head l = 0 \<longleftrightarrow> ns = []"
  by (cases ns) (auto simp: ll_ok_def)

lemma ll_ok_count: "ll_ok h l ns \<Longrightarrow> unat (ll_node_count l) = length ns"
  by (simp add: ll_ok_def unat_of_nat take_bit_nat_eq_self)

lemma ll_ok_count_eq:
  "ll_ok h l ns \<Longrightarrow> ll_node_count l = 0 \<longleftrightarrow> ns = []" "ll_ok h l ns \<Longrightarrow> ll_node_count l = 1 \<longleftrightarrow> length ns = 1"
  using of_nat_u32_inj [of "length ns" 0] of_nat_u32_inj [of "length ns" 1] by (auto simp: ll_ok_def)

lemma ll_ok_mem: "ll_ok h l ns \<Longrightarrow> x \<in> set ns \<Longrightarrow> x \<noteq> 0 \<and> lh_live h x \<and> x < lh_brk h"
  by (auto simp: ll_ok_def heap_ok_def dest: lseg_mem)

lemma init_singly_ll_rep: "heap_ok h \<Longrightarrow> ll_rep h init_singly_ll [] []"
  by (simp add: ll_rep_def ll_ok_def init_singly_ll_def)

lemmas rd_wr = rd_data_def rd_next_def wr_data_def wr_next_def free_node_def

text \<open>A new node.\<close>

lemma init_node_facts:
  assumes "heap_ok h" "singly_ll_init_node data h = (n, h')"
  shows "n = lh_brk h" "n \<noteq> 0" "\<not> lh_live h n" "lh_live h' n" "lh_data h' n = data" "lh_next h' n = 0" "heap_ok h'"
    "x \<noteq> n \<Longrightarrow> lh_data h' x = lh_data h x \<and> lh_next h' x = lh_next h x \<and> lh_live h' x = lh_live h x"
  using assms by (auto simp: singly_ll_init_node_def heap_ok_def less_Suc_eq split: if_splits)

section \<open>Searching\<close>

definition found :: "addr option \<Rightarrow> addr" where
  "found r = (case r of None \<Rightarrow> 0 | Some x \<Rightarrow> x)"

lemma found_simps [simp]: "found None = 0" "found (Some x) = x"
  by (simp_all add: found_def)

lemma scan_nodes_seg:
  "lseg h p ns 0 \<Longrightarrow> ll_scan_nodes (length ns) p data h = Some (found (find (\<lambda>x. lh_data h x = data) ns))"
  by (induction ns arbitrary: p) (auto simp: rd_wr)

lemma scan_seg: "lseg h p ns 0 \<Longrightarrow> ll_scan P h p = Some (found (find (\<lambda>x. P (lh_data h x)) ns))"
  by (induction ns arbitrary: p) (auto simp: rd_wr ll_scan.simps)

lemma get_node_rep:
  "ll_ok h l ns \<Longrightarrow> singly_ll_get_node_by_data_ptr (Some l) data h = Some (found (find (\<lambda>x. lh_data h x = data) ns))"
  using ll_ok_null [of h l ns] ll_ok_count [of h l ns]
  by (auto simp: singly_ll_get_node_by_data_ptr_def ll_ok_def scan_nodes_seg)

lemma find_cases:
  assumes "ll_ok h l ns"
  obtains "found (find Q ns) = 0" "\<forall>x\<in>set ns. \<not> Q x"
  | xs x ys where "found (find Q ns) = x" "ns = xs @ x # ys" "Q x" "\<forall>y\<in>set xs. \<not> Q y" "x \<noteq> 0"
proof (cases "find Q ns")
  case None
  then have "\<forall>x\<in>set ns. \<not> Q x" by (simp add: find_None_iff)
  then show thesis using that(1) None by simp
next
  case (Some x)
  then obtain i where i: "i < length ns" "Q (ns ! i)" "x = ns ! i" "\<forall>j<i. \<not> Q (ns ! j)"
    by (auto simp: find_Some_iff)
  have "ns = take i ns @ x # drop (Suc i) ns" using i by (simp add: id_take_nth_drop)
  moreover have "\<forall>y\<in>set (take i ns). \<not> Q y" using i by (auto simp: in_set_conv_nth)
  moreover have "x \<noteq> 0" using ll_ok_mem [OF assms, of x] i by simp
  moreover have "found (find Q ns) = x" using Some by simp
  moreover have "Q x" using i by simp
  ultimately show thesis using that(2) by blast
qed

section \<open>Adding\<close>

lemma add_front_ok:
  assumes ok: "ll_ok h l ns" and room: "Suc (length ns) < 4294967296"
    and new: "n \<notin> set ns" "n \<noteq> 0" "lh_live h' n" "lh_next h' n = ll_head l" "heap_ok h'"
    and frame: "\<And>x. x \<in> set ns \<Longrightarrow> lh_next h' x = lh_next h x \<and> lh_live h' x"
  shows "ll_ok h' (inc_node_count (l\<lparr>ll_head := n\<rparr>)) (n # ns)"
proof -
  have "lseg h' (ll_head l) ns 0" using ok frame by (auto simp: ll_ok_def intro: lseg_frame)
  then show ?thesis using ok room new by (simp add: ll_ok_def inc_node_count_def)
qed

lemma fresh_notin: "ll_ok h l ns \<Longrightarrow> lh_brk h \<notin> set ns"
  using ll_ok_mem by fastforce

text \<open>What is preserved for the nodes of other lists: all that is alive and not in \<open>ns\<close>.\<close>

definition frames :: "addr list \<Rightarrow> ll_heap \<Rightarrow> ll_heap \<Rightarrow> bool" where
  "frames ns h h' \<longleftrightarrow> heap_ok h' \<and> lh_brk h \<le> lh_brk h' \<and>
     (\<forall>x. lh_live h x \<longrightarrow> x \<notin> set ns \<longrightarrow> lh_live h' x \<and> lh_next h' x = lh_next h x \<and> lh_data h' x = lh_data h x)"

lemma frames_ok:
  assumes "frames ns h h'" "ll_ok h k ms" "set ms \<inter> set ns = {}"
  shows "ll_ok h' k ms" "map (lh_data h') ms = map (lh_data h) ms"
proof -
  have f: "lh_live h' x \<and> lh_next h' x = lh_next h x \<and> lh_data h' x = lh_data h x" if "x \<in> set ms" for x
    using that assms ll_ok_mem [OF assms(2) that] by (auto simp: frames_def)
  then have "lseg h' (ll_head k) ms 0" using assms(2) by (auto simp: ll_ok_def intro: lseg_frame)
  then show "ll_ok h' k ms" using assms(1,2) by (simp add: ll_ok_def frames_def)
  show "map (lh_data h') ms = map (lh_data h) ms" using f by simp
qed

lemma add_node_by_val_rep:
  assumes rep: "ll_rep h l ns ds" and room: "Suc (length ds) < 4294967296"
  shows "data \<in> set ds \<Longrightarrow> singly_ll_add_node_by_val (Some l) data h = Some (-1, Some l, h)"
    and "data \<notin> set ds \<Longrightarrow> \<exists>l' h' n. singly_ll_add_node_by_val (Some l) data h = Some (0, Some l', h') \<and>
      ll_rep h' l' (n # ns) (data # ds) \<and> n = lh_brk h \<and> frames ns h h' \<and>
      ll_comparison_fn l' = ll_comparison_fn l"
proof -
  have ok: "ll_ok h l ns" and ds: "ds = map (lh_data h) ns" using rep by (auto simp: ll_rep_def)
  have H: "heap_ok h" using ok by (simp add: ll_ok_def)
  show "singly_ll_add_node_by_val (Some l) data h = Some (-1, Some l, h)" if "data \<in> set ds"
    using get_node_rep [OF ok, of data] that ds
    by (cases rule: find_cases [OF ok, of "\<lambda>x. lh_data h x = data"]) (auto simp: singly_ll_add_node_by_val_def)
  show "\<exists>l' h' n. singly_ll_add_node_by_val (Some l) data h = Some (0, Some l', h') \<and>
      ll_rep h' l' (n # ns) (data # ds) \<and> n = lh_brk h \<and> frames ns h h' \<and> ll_comparison_fn l' = ll_comparison_fn l"
    if "data \<notin> set ds"
  proof -
    have none: "found (find (\<lambda>x. lh_data h x = data) ns) = 0"
      by (cases rule: find_cases [OF ok, of "\<lambda>x. lh_data h x = data"]) (use that ds in auto)
    obtain n h1 where new: "singly_ll_init_node data h = (n, h1)" by (cases "singly_ll_init_node data h")
    note N = init_node_facts [OF H new]
    have notin: "n \<notin> set ns" using fresh_notin [OF ok] N(1) by simp
    let ?l = "inc_node_count (l\<lparr>ll_head := n\<rparr>)" and ?h = "h1\<lparr>lh_next := (lh_next h1)(n := ll_head l)\<rparr>"
    have "heap_ok ?h" using N(7) by (simp add: heap_ok_def)
    then have ok': "ll_ok ?h ?l (n # ns)"
      using ok room ds notin N ll_ok_mem [OF ok] by (intro add_front_ok) auto
    have "lh_data ?h x = lh_data h x" if "x \<in> set ns" for x using N(8) [of x] that notin by auto
    then have "map (lh_data ?h) (n # ns) = data # ds" using N(5) ds by simp
    with ok' have "ll_rep ?h ?l (n # ns) (data # ds)" by (simp add: ll_rep_def)
    moreover have "singly_ll_add_node (Some l) n h1 = Some (0, Some ?l, ?h)"
    proof (cases "ll_head l = 0")
      case True
      then have "?h = h1" using N(6) by (simp add: fun_upd_idem)
      then show ?thesis using True N(2) by (simp add: singly_ll_add_node_def)
    next
      case False
      then show ?thesis using N(2,4) by (simp add: singly_ll_add_node_def wr_next_def)
    qed
    moreover have "frames ns h ?h"
      using N(1,3,8) new \<open>heap_ok ?h\<close> by (auto simp: frames_def singly_ll_init_node_def)
    ultimately show ?thesis using get_node_rep [OF ok, of data] none new N(1)
      by (auto simp: singly_ll_add_node_by_val_def inc_node_count_def)
  qed
qed

section \<open>Taking out\<close>

lemma find_prev_seg:
  "lseg h p (xs @ a # b # ys) q \<Longrightarrow> distinct (xs @ a # b # ys) \<Longrightarrow> ll_find_prev h b p = Some a"
proof (induction xs arbitrary: p)
  case Nil
  then show ?case by (simp add: ll_find_prev.simps rd_wr)
next
  case (Cons x xs)
  have "lh_next h x \<noteq> b" using Cons.prems by (cases xs) auto
  then show ?case using Cons by (subst ll_find_prev.simps) (simp add: rd_wr)
qed

lemma remove_scan_seg:
  "lseg h head (xs @ node # ys) 0 \<Longrightarrow> node \<notin> set xs \<Longrightarrow> length xs < k \<Longrightarrow>
    ll_remove_scan k prev head node h = Some (Some (last (prev # xs)))"
proof (induction xs arbitrary: k head prev)
  case Nil
  then show ?case by (cases k) auto
next
  case (Cons x xs)
  then obtain k' where k: "k = Suc k'" by (cases k) auto
  have "ll_remove_scan k' x (lh_next h x) node h = Some (Some (last (x # xs)))"
    using Cons k by simp
  then show ?case using Cons.prems k by (simp add: rd_wr)
qed

lemma remove_scan_none:
  "lseg h head xs 0 \<Longrightarrow> node \<notin> set xs \<Longrightarrow> k = length xs \<Longrightarrow> ll_remove_scan k prev head node h = Some None"
proof (induction xs arbitrary: k head prev)
  case (Cons x xs)
  then show ?case by (simp add: rd_wr)
qed simp

lemma dec_count: "dec_node_count (l\<lparr>ll_head := p\<rparr>) = (dec_node_count l)\<lparr>ll_head := p\<rparr>"
  by (simp add: dec_node_count_def)

text \<open>A node is unlinked, its contents and the other nodes' data being kept.\<close>

lemma unlink_ok:
  assumes ok: "ll_ok h l (xs @ x # ys)" and H: "heap_ok h'"
    and live: "\<And>z. z \<in> set (xs @ ys) \<Longrightarrow> lh_live h' z"
    and first: "xs = [] \<Longrightarrow> hp = hd0 ys" and rest: "xs \<noteq> [] \<Longrightarrow> hp = ll_head l \<and> lh_next h' (last xs) = hd0 ys"
    and frame: "\<And>z. z \<in> set (xs @ ys) \<Longrightarrow> xs = [] \<or> z \<noteq> last xs \<Longrightarrow> lh_next h' z = lh_next h z"
  shows "ll_ok h' ((dec_node_count l)\<lparr>ll_head := hp\<rparr>) (xs @ ys)"
proof -
  have s: "lseg h (ll_head l) xs x" "lseg h (hd0 ys) ys 0" and d: "distinct (xs @ x # ys)"
    using ok by (auto simp: ll_ok_def lseg_split [of h _ xs "x # ys"] intro: lseg_hd0')
  have ys: "lseg h' (hd0 ys) ys 0"
  proof (rule lseg_frame [OF s(2)])
    fix z assume z: "z \<in> set ys"
    then have "xs = [] \<or> z \<noteq> last xs" using d by (auto dest: last_in_set)
    then show "lh_next h' z = lh_next h z \<and> lh_live h' z" using frame live z by simp
  qed
  have "lseg h' hp (xs @ ys) 0"
  proof (cases "xs = []")
    case True
    then show ?thesis using ys first by simp
  next
    case False
    have "lseg h' (ll_head l) xs (hd0 ys)"
    proof (rule lseg_relink [OF s(1) False])
      show "distinct xs" using d by simp
      show "lh_next h' (last xs) = hd0 ys" using rest [OF False] by simp
    qed (use live frame in simp_all)
    then show ?thesis using ys rest [OF False] unfolding lseg_split by simp
  qed
  moreover have "of_nat (length (xs @ x # ys)) - 1 = (of_nat (length (xs @ ys)) :: u32)" by simp
  then have "ll_node_count l - 1 = of_nat (length (xs @ ys))" using ok by (simp add: ll_ok_def)
  ultimately show ?thesis using ok H d by (simp add: ll_ok_def dec_node_count_def)
qed

lemma remove_node_rep:
  assumes rep: "ll_rep h l (xs @ x # ys) ds"
  shows "\<exists>l' h'. singly_ll_remove_node (Some l) x h = Some (0, Some l', h') \<and>
    ll_rep h' l' (xs @ ys) (map (lh_data h) (xs @ ys)) \<and> lh_live h' = lh_live h \<and> lh_next h' x = 0 \<and>
    lh_data h' = lh_data h \<and> frames (xs @ x # ys) h h'"
proof -
  have ok: "ll_ok h l (xs @ x # ys)" using rep by (simp add: ll_rep_def)
  have s: "lseg h (ll_head l) (xs @ x # ys) 0" and d: "distinct (xs @ x # ys)" and H: "heap_ok h"
    using ok by (auto simp: ll_ok_def)
  have mem: "z \<noteq> 0 \<and> lh_live h z" if "z \<in> set (xs @ x # ys)" for z using ll_ok_mem [OF ok that] by simp
  have x: "x \<noteq> 0" "lh_live h x" "lh_next h x = hd0 ys"
    using s mem unfolding lseg_split [of h _ xs] by (auto dest: lseg_hd0)
  show ?thesis
  proof (cases xs)
    case Nil
    then have hd: "ll_head l = x" using s by simp
    let ?h = "h\<lparr>lh_next := (lh_next h)(x := 0)\<rparr>" and ?l = "(dec_node_count l)\<lparr>ll_head := hd0 ys\<rparr>"
    have "ll_ok ?h ?l ([] @ ys)"
      using ok H d x mem Nil by (intro unlink_ok [of h l "[]" x]) (auto simp: heap_ok_def)
    then show ?thesis using hd x Nil H
      by (auto simp: singly_ll_remove_node_def rd_wr ll_rep_def frames_def dec_count heap_ok_def)
  next
    case (Cons y zs)
    then have hd: "ll_head l = y" "y \<noteq> x" "y \<noteq> 0" using s d mem by auto
    have L: "last xs \<noteq> 0" "lh_live h (last xs)" "last xs \<noteq> x" "last xs \<in> set xs"
      using mem d Cons by (auto simp: last_ConsR split: if_splits dest: last_in_set)
    have "lseg h (lh_next h y) (zs @ x # ys) 0" using s Cons by simp
    moreover have "x \<notin> set zs" using d Cons by simp
    ultimately have scan: "ll_remove_scan (unat (ll_node_count l) - 1) y (lh_next h y) x h = Some (Some (last xs))"
      unfolding Cons by (intro remove_scan_seg) (use Cons ll_ok_count [OF ok] in auto)
    let ?h = "h\<lparr>lh_next := (lh_next h)(last xs := hd0 ys, x := 0)\<rparr>" and ?l = "(dec_node_count l)\<lparr>ll_head := ll_head l\<rparr>"
    have "ll_ok ?h ?l (xs @ ys)"
      using ok H d x mem Cons L hd by (intro unlink_ok [of h l xs x]) (auto simp: heap_ok_def)
    moreover have "?l = dec_node_count l" by (simp add: dec_node_count_def)
    moreover have "singly_ll_remove_node (Some l) x h = Some (0, Some (dec_node_count l), ?h)"
      using hd x(1-3) L scan mem [of y] Cons by (simp add: singly_ll_remove_node_def rd_wr del: ll_remove_scan.simps last.simps)
    ultimately show ?thesis using x H L by (auto simp: ll_rep_def frames_def heap_ok_def)
  qed
qed

lemma remove_node_absent:
  assumes ok: "ll_ok h l ns" and x: "x \<notin> set ns" "x \<noteq> 0"
  shows "singly_ll_remove_node (Some l) x h = Some (if ns = [] then 0 else -1, Some l, h)"
proof (cases ns)
  case Nil
  then show ?thesis using ll_ok_null [OF ok] by (simp add: singly_ll_remove_node_def)
next
  case (Cons y zs)
  have s: "lseg h (ll_head l) (y # zs) 0" using ok Cons by (simp add: ll_ok_def)
  then have "ll_remove_scan (length zs) y (lh_next h y) x h = Some None"
    using x Cons by (intro remove_scan_none) auto
  then show ?thesis using s x Cons ll_ok_count [OF ok] ll_ok_mem [OF ok, of y]
    by (auto simp: singly_ll_remove_node_def rd_wr simp del: ll_remove_scan.simps)
qed

text \<open>Deleting a node keeps its place but, unless it is the last one, frees its successor instead.\<close>

lemma delete_node_rep:
  assumes rep: "ll_rep h l (xs @ x # ys) ds"
  shows "\<exists>l' h'. singly_ll_delete_node (Some l) x h = Some (0, Some l', h') \<and>
    ll_rep h' l' (xs @ (case ys of [] \<Rightarrow> [] | _ # zs \<Rightarrow> x # zs)) (map (lh_data h) (xs @ ys)) \<and>
    \<not> lh_live h' (case ys of [] \<Rightarrow> x | y # _ \<Rightarrow> y)"
proof -
  have ok: "ll_ok h l (xs @ x # ys)" using rep by (simp add: ll_rep_def)
  have s: "lseg h (ll_head l) (xs @ x # ys) 0" and d: "distinct (xs @ x # ys)" and H: "heap_ok h"
    using ok by (auto simp: ll_ok_def)
  have mem: "z \<noteq> 0 \<and> lh_live h z" if "z \<in> set (xs @ x # ys)" for z using ll_ok_mem [OF ok that] by simp
  have x: "x \<noteq> 0" "lh_live h x" "lh_next h x = hd0 ys" "ll_head l \<noteq> 0"
    using s mem ll_ok_null [OF ok] unfolding lseg_split [of h _ xs] by (auto dest: lseg_hd0)
  show ?thesis
  proof (cases ys)
    case (Cons y zs)
    have y: "y \<noteq> 0" "lh_live h y" "lh_next h y = hd0 zs" "y \<noteq> x"
      using s mem d Cons unfolding lseg_split [of h _ "xs @ [x]"] lseg_split [of h _ xs]
      by (auto dest: lseg_hd0)
    let ?h = "h\<lparr>lh_data := (lh_data h)(x := lh_data h y), lh_next := (lh_next h)(x := hd0 zs),
      lh_live := (lh_live h)(y := False)\<rparr>"
    have ok': "ll_ok h l ((xs @ [x]) @ y # zs)" using ok Cons by simp
    have "ll_ok ?h ((dec_node_count l)\<lparr>ll_head := ll_head l\<rparr>) ((xs @ [x]) @ zs)"
      using ok' H d mem Cons y x by (intro unlink_ok [of h l "xs @ [x]" y]) (auto simp: heap_ok_def)
    moreover have "(dec_node_count l)\<lparr>ll_head := ll_head l\<rparr> = dec_node_count l" by (simp add: dec_node_count_def)
    moreover have "map (lh_data ?h) (xs @ x # zs) = map (lh_data h) (xs @ ys)"
      using d Cons by auto
    ultimately show ?thesis using x y Cons
      by (auto simp: singly_ll_delete_node_def rd_wr ll_rep_def)
  next
    case Nil
    show ?thesis
    proof (cases xs rule: rev_cases)
      case xs: Nil
      let ?h = "h\<lparr>lh_live := (lh_live h)(x := False)\<rparr>"
      have "ll_ok ?h ((dec_node_count l)\<lparr>ll_head := 0\<rparr>) ([] @ [])"
        using ok H xs Nil by (intro unlink_ok [of h l "[]" x]) (auto simp: heap_ok_def)
      moreover have "ll_node_count l = 1" "ll_head l = x" using ok s xs Nil by (auto simp: ll_ok_def)
      ultimately show ?thesis using x xs Nil
        by (auto simp: singly_ll_delete_node_def rd_wr ll_rep_def dec_count)
    next
      case (snoc as a)
      have a: "a \<noteq> 0" "lh_live h a" "a \<noteq> x" using mem d snoc by auto
      have prev: "ll_find_prev h x (ll_head l) = Some a"
        using find_prev_seg [of h "ll_head l" as a x "[]" 0] s d snoc Nil by simp
      have cnt: "ll_node_count l \<noteq> 1" using ll_ok_count_eq(2) [OF ok] snoc by simp
      let ?h = "h\<lparr>lh_next := (lh_next h)(a := 0), lh_live := (lh_live h)(x := False)\<rparr>"
      have "ll_ok ?h ((dec_node_count l)\<lparr>ll_head := ll_head l\<rparr>) (xs @ [])"
        using ok H d mem snoc Nil by (intro unlink_ok [of h l xs x]) (auto simp: heap_ok_def)
      moreover have "(dec_node_count l)\<lparr>ll_head := ll_head l\<rparr> = dec_node_count l" by (simp add: dec_node_count_def)
      ultimately show ?thesis using x a prev cnt Nil
        by (auto simp: singly_ll_delete_node_def rd_wr ll_rep_def)
    qed
  qed
qed

section \<open>Reversing and deleting a list\<close>

lemma reverse_loop_seg:
  "lseg h p1 as 0 \<Longrightarrow> lseg h p2 (b # bs) 0 \<Longrightarrow> distinct (as @ b # bs) \<Longrightarrow>
    \<exists>h'. ll_reverse_loop p1 p2 h = Some (last (b # bs), h') \<and> lseg h' (last (b # bs)) (rev (b # bs) @ as) 0 \<and>
      lh_data h' = lh_data h \<and> lh_live h' = lh_live h \<and> lh_brk h' = lh_brk h"
proof (induction bs arbitrary: p1 p2 as b h)
  case Nil
  let ?h = "h\<lparr>lh_next := (lh_next h)(b := p1)\<rparr>"
  have "lseg ?h p1 as 0" using Nil by (intro lseg_update) simp_all
  moreover have "ll_reverse_loop p1 p2 h = Some (b, ?h)"
    using Nil by (subst ll_reverse_loop.simps) (auto simp: rd_wr)
  ultimately show ?case using Nil by auto
next
  case (Cons c cs)
  let ?h = "h\<lparr>lh_next := (lh_next h)(b := p1)\<rparr>"
  have "lseg ?h p1 as 0" using Cons.prems by (intro lseg_update) simp_all
  then have as: "lseg ?h b (b # as) 0" using Cons.prems by simp
  have "lseg h c (c # cs) 0" using Cons.prems by simp
  then have cs: "lseg ?h c (c # cs) 0"
    by (rule lseg_frame) (use Cons.prems in \<open>auto dest: lseg_mem\<close>)
  have "ll_reverse_loop p1 p2 h = ll_reverse_loop b c ?h"
    using Cons.prems by (subst ll_reverse_loop.simps) (simp add: rd_wr)
  then show ?case using Cons.IH [OF as cs] Cons.prems by simp
qed

lemma reverse_rep:
  assumes rep: "ll_rep h l ns ds"
  shows "\<exists>l' h'. reverse_singly_ll (Some l) h = Some (l', h') \<and> ll_rep h' l' (rev ns) (rev ds)"
proof -
  have ok: "ll_ok h l ns" and ds: "ds = map (lh_data h) ns" using rep by (auto simp: ll_rep_def)
  have s: "lseg h (ll_head l) ns 0" and d: "distinct ns" and H: "heap_ok h" using ok by (auto simp: ll_ok_def)
  consider "ns = []" | x where "ns = [x]" | x y zs where "ns = x # y # zs"
    by (cases ns rule: remdups_adj.cases) auto
  then show ?thesis
  proof cases
    case 3
    let ?h = "h\<lparr>lh_next := (lh_next h)(x := 0)\<rparr>"
    have x: "ll_head l = x" "x \<noteq> 0" "lh_live h x" "lh_next h x = y" using s 3 by auto
    have a: "lseg ?h x [x] 0" using x by simp
    have "lseg h y (y # zs) 0" using s 3 by simp
    then have b: "lseg ?h y (y # zs) 0" by (rule lseg_frame) (use d 3 s in \<open>auto dest: lseg_mem\<close>)
    obtain h' where h': "ll_reverse_loop x y ?h = Some (last (y # zs), h')"
      "lseg h' (last (y # zs)) (rev (y # zs) @ [x]) 0" "lh_data h' = lh_data h" "lh_live h' = lh_live h"
      "lh_brk h' = lh_brk h"
      using reverse_loop_seg [OF a b] d 3 by auto
    have "\<not> (ll_node_count l = 0 \<or> ll_node_count l = 1)" using ll_ok_count_eq [OF ok] 3 by simp
    then have "reverse_singly_ll (Some l) h = Some (l\<lparr>ll_head := last (y # zs)\<rparr>, h')"
      using x h'(1) by (simp add: reverse_singly_ll_def rd_wr del: last.simps)
    moreover have "ll_rep h' (l\<lparr>ll_head := last (y # zs)\<rparr>) (rev ns) (rev ds)"
      using ok ds 3 h' by (simp add: ll_rep_def ll_ok_def heap_ok_def rev_map del: last.simps)
    ultimately show ?thesis by blast
  qed (use rep ll_ok_count_eq [OF ok] ds in \<open>auto simp: reverse_singly_ll_def\<close>)
qed

lemma free_loop_seg:
  "lseg h p (x # xs) 0 \<Longrightarrow> distinct (x # xs) \<Longrightarrow>
    ll_free_loop x (hd0 xs) h = Some (h\<lparr>lh_live := (\<lambda>q. q \<notin> set (x # xs) \<and> lh_live h q)\<rparr>)"
proof (induction xs arbitrary: p x h)
  case Nil
  have "(lh_live h)(x := False) = (\<lambda>q. q \<noteq> x \<and> lh_live h q)" by (rule ext) simp
  then show ?case using Nil by (simp add: ll_free_loop.simps rd_wr)
next
  case (Cons y ys)
  let ?h = "h\<lparr>lh_live := (lh_live h)(x := False)\<rparr>"
  have s: "lseg h y (y # ys) 0" "x \<noteq> 0" "lh_live h x" using Cons.prems by auto
  have "lseg ?h y (y # ys) 0"
    by (rule lseg_frame [OF s(1)]) (use Cons.prems in \<open>auto dest: lseg_mem\<close>)
  note IH = Cons.IH [OF this]
  have "lh_next h y = hd0 ys" using s by (auto dest: lseg_hd0)
  then have "ll_free_loop x y h = ll_free_loop y (hd0 ys) ?h"
    using s Cons.prems by (subst ll_free_loop.simps) (auto simp: rd_wr)
  also have "\<dots> = Some (?h\<lparr>lh_live := (\<lambda>q. q \<notin> set (y # ys) \<and> lh_live ?h q)\<rparr>)"
    using IH Cons.prems by simp
  also have "(\<lambda>q. q \<notin> set (y # ys) \<and> lh_live ?h q) = (\<lambda>q. q \<notin> set (x # y # ys) \<and> lh_live h q)" by auto
  finally show ?case by simp
qed

lemma delete_all_rep:
  assumes rep: "ll_rep h l ns ds"
  shows "\<exists>l' h'. delete_singly_ll (Some l) h = Some (Some l', h') \<and> ll_rep h' l' [] [] \<and> frames ns h h' \<and>
    (\<forall>x\<in>set ns. \<not> lh_live h' x) \<and> lh_brk h' = lh_brk h"
proof -
  have ok: "ll_ok h l ns" using rep by (simp add: ll_rep_def)
  show ?thesis
  proof (cases ns)
    case Nil
    then show ?thesis using rep ll_ok_count_eq(1) [OF ok] by (auto simp: delete_singly_ll_def ll_rep_def ll_ok_def frames_def)
  next
    case (Cons x xs)
    have s: "lseg h (ll_head l) (x # xs) 0" "distinct (x # xs)" "heap_ok h" using ok Cons by (auto simp: ll_ok_def)
    have hd: "ll_head l = x" "rd_next x h = Some (hd0 xs)" using s by (auto simp: rd_wr dest: lseg_hd0)
    have "ll_node_count l \<noteq> 0" using ll_ok_count_eq(1) [OF ok] Cons by simp
    then have "delete_singly_ll (Some l) h =
        Some (Some (l\<lparr>ll_node_count := 0, ll_head := 0\<rparr>), h\<lparr>lh_live := (\<lambda>q. q \<notin> set (x # xs) \<and> lh_live h q)\<rparr>)"
      using free_loop_seg [OF s(1,2)] hd by (simp add: delete_singly_ll_def)
    then show ?thesis using s(3) Cons by (auto simp: ll_rep_def ll_ok_def frames_def heap_ok_def)
  qed
qed

section \<open>Taking out by data\<close>

fun remove_first :: "('a \<Rightarrow> bool) \<Rightarrow> 'a list \<Rightarrow> 'a list" where
  "remove_first P [] = []"
| "remove_first P (x # xs) = (if P x then xs else x # remove_first P xs)"

lemma remove_first_none: "\<forall>x\<in>set xs. \<not> P x \<Longrightarrow> remove_first P xs = xs"
  by (induction xs) auto

lemma remove_first_split: "\<forall>x\<in>set xs. \<not> P x \<Longrightarrow> P y \<Longrightarrow> remove_first P (xs @ y # ys) = xs @ ys"
  by (induction xs) auto

lemma remove_first_eq: "remove_first (\<lambda>d. d = x) xs = remove1 x xs"
  by (induction xs) auto

text \<open>What the operations by data rely on: an operation that takes the contents of one node out.\<close>

locale node_remover =
  fixes op :: "ll option \<Rightarrow> addr \<Rightarrow> ll_heap \<Rightarrow> (int \<times> ll option \<times> ll_heap) option"
  assumes takes_out: "ll_rep h l (xs @ x # ys) ds \<Longrightarrow> \<exists>l' h' ns'. op (Some l) x h = Some (0, Some l', h') \<and>
    ll_rep h' l' ns' (map (lh_data h) (xs @ ys))"
begin

lemma take_out_rep:
  assumes rep: "ll_rep h l ns ds"
  shows "\<exists>l' h' ns'. ll_take_out op P (Some l) h = Some (if \<exists>d\<in>set ds. P d then 1 else 0, Some l', h') \<and>
    ll_rep h' l' ns' (remove_first P ds)"
proof -
  have ok: "ll_ok h l ns" and ds: "ds = map (lh_data h) ns" using rep by (auto simp: ll_rep_def)
  have s: "lseg h (ll_head l) ns 0" using ok by (simp add: ll_ok_def)
  note scan = scan_seg [OF s, of P]
  show ?thesis
  proof (cases rule: find_cases [OF ok, of "\<lambda>x. P (lh_data h x)"])
    case 1
    then have "\<forall>d\<in>set ds. \<not> P d" using ds by auto
    then show ?thesis using rep scan 1(1) ll_ok_null [OF ok]
      by (auto simp: ll_take_out_def remove_first_none)
  next
    case (2 xs x ys)
    obtain l' h' ns' where r: "op (Some l) x h = Some (0, Some l', h')"
      "ll_rep h' l' ns' (map (lh_data h) (xs @ ys))"
      using takes_out [of h l xs x ys ds] rep 2(2) by blast
    have ds': "\<exists>d\<in>set ds. P d" "remove_first P ds = map (lh_data h) (xs @ ys)"
      using 2(2-4) ds remove_first_split [of "map (lh_data h) xs" P "lh_data h x" "map (lh_data h) ys"] by auto
    have "length ns' = length (xs @ ys)" using r(2) by (auto simp: ll_rep_def dest: arg_cong [where f = length])
    then have c: "ll_node_count l - ll_node_count l' = 1"
      using ok r(2) 2(2) by (simp add: ll_ok_def ll_rep_def)
    have "ll_head l \<noteq> 0" using ll_ok_null [OF ok] 2(2) by simp
    then have "ll_take_out op P (Some l) h = Some (1, Some l', h')"
      using scan 2(1,5) r(1) c by (simp add: ll_take_out_def)
    then show ?thesis using r(2) ds' by auto
  qed
qed

end

interpretation delete_node: node_remover singly_ll_delete_node
proof
  show "\<exists>l' h' ns'. singly_ll_delete_node (Some l) x h = Some (0, Some l', h') \<and>
      ll_rep h' l' ns' (map (lh_data h) (xs @ ys))" if "ll_rep h l (xs @ x # ys) ds" for h l xs x ys ds
    using delete_node_rep [OF that] by blast
qed

interpretation remove_node: node_remover singly_ll_remove_node
proof
  show "\<exists>l' h' ns'. singly_ll_remove_node (Some l) x h = Some (0, Some l', h') \<and>
      ll_rep h' l' ns' (map (lh_data h) (xs @ ys))" if "ll_rep h l (xs @ x # ys) ds" for h l xs x ys ds
    using remove_node_rep [OF that] by blast
qed

section \<open>Copy and union\<close>

lemma add_all_rep:
  "ll_rep h l ns ds \<Longrightarrow> lseg h p ms 0 \<Longrightarrow> set ms \<inter> set ns = {} \<Longrightarrow> length ds + length ms < 4294967296 \<Longrightarrow>
    \<exists>l' h' ns'. ll_add_all skip p (Some l) h = Some (Some l', h') \<and>
      ll_rep h' l' ns' (fold List.insert (filter (\<lambda>d. \<not> (skip \<and> d = 0)) (map (lh_data h) ms)) ds) \<and>
      frames ns h h' \<and> (\<forall>x\<in>set ns'. x \<in> set ns \<or> lh_brk h \<le> x) \<and> ll_comparison_fn l' = ll_comparison_fn l"
proof (induction ms arbitrary: p h l ns ds)
  case Nil
  then have "heap_ok h" by (simp add: ll_rep_def ll_ok_def)
  then show ?case using Nil by (auto simp: ll_add_all.simps frames_def)
next
  case (Cons x xs)
  have x: "p = x" "x \<noteq> 0" "rd_next p h = Some (lh_next h x)" "rd_data p h = Some (lh_data h x)"
    and xs: "lseg h (lh_next h x) xs 0" "lh_live h x"
    using Cons.prems(2) by (auto simp: rd_wr)
  show ?case
  proof (cases "skip \<and> lh_data h x = 0")
    case True
    then have "ll_add_all skip p (Some l) h = ll_add_all skip (lh_next h x) (Some l) h"
      using x by (subst ll_add_all.simps) simp
    then show ?thesis using Cons.IH [OF Cons.prems(1) xs(1)] Cons.prems True by simp
  next
    case keep: False
    have room: "Suc (length ds) < 4294967296" using Cons.prems(4) by simp
    note add = add_node_by_val_rep [OF Cons.prems(1) room, of "lh_data h x"]
    show ?thesis
    proof (cases "lh_data h x \<in> set ds")
      case True
      then have "ll_add_all skip p (Some l) h = ll_add_all skip (lh_next h x) (Some l) h"
        using x keep add(1) by (subst ll_add_all.simps) auto
      then show ?thesis using Cons.IH [OF Cons.prems(1) xs(1)] Cons.prems keep True by simp
    next
      case False
      obtain l1 h1 n where a: "singly_ll_add_node_by_val (Some l) (lh_data h x) h = Some (0, Some l1, h1)"
        "ll_rep h1 l1 (n # ns) (lh_data h x # ds)" "n = lh_brk h" "frames ns h h1" "ll_comparison_fn l1 = ll_comparison_fn l"
        using add(2) [OF False] by blast
      have xs_mem: "lh_live h z \<and> z \<notin> set ns" if "z \<in> set xs" for z
        using Cons.prems(2,3) that by (auto dest: lseg_mem)
      then have same: "lh_next h1 z = lh_next h z \<and> lh_live h1 z \<and> lh_data h1 z = lh_data h z" if "z \<in> set xs" for z
        using a(4) that by (simp add: frames_def)
      have s1: "lseg h1 (lh_next h x) xs 0" by (rule lseg_frame [OF xs(1)]) (use same in simp)
      have H: "heap_ok h" using Cons.prems(1) by (simp add: ll_rep_def ll_ok_def)
      have "n \<notin> set xs" using xs_mem H a(3) by (auto simp: heap_ok_def)
      then have "set xs \<inter> set (n # ns) = {}" using Cons.prems(3) by auto
      moreover have "length (lh_data h x # ds) + length xs < 4294967296" using Cons.prems(4) by simp
      ultimately obtain l2 h2 ns2 where r: "ll_add_all skip (lh_next h x) (Some l1) h1 = Some (Some l2, h2)"
        "ll_rep h2 l2 ns2 (fold List.insert (filter (\<lambda>d. \<not> (skip \<and> d = 0)) (map (lh_data h1) xs)) (lh_data h x # ds))"
        "frames (n # ns) h1 h2" "\<forall>z\<in>set ns2. z \<in> set (n # ns) \<or> lh_brk h1 \<le> z" "ll_comparison_fn l2 = ll_comparison_fn l1"
        using Cons.IH [OF a(2) s1] by blast
      have same_map: "map (lh_data h1) xs = map (lh_data h) xs" using same by simp
      have "List.insert (lh_data h x) ds = lh_data h x # ds" using False by simp
      then have "fold List.insert (filter (\<lambda>d. \<not> (skip \<and> d = 0)) (map (lh_data h) (x # xs))) ds =
          fold List.insert (filter (\<lambda>d. \<not> (skip \<and> d = 0)) (map (lh_data h1) xs)) (lh_data h x # ds)"
        using keep unfolding same_map by simp
      moreover have "frames ns h h2"
      proof -
        have "\<not> lh_live h n" using H a(3) by (auto simp: heap_ok_def)
        then show ?thesis using a(4) r(3) unfolding frames_def by (metis le_trans set_ConsD)
      qed
      moreover have "lh_brk h \<le> lh_brk h1" using a(4) by (simp add: frames_def)
      then have "\<forall>z\<in>set ns2. z \<in> set ns \<or> lh_brk h \<le> z" using r(4) a(3) by fastforce
      moreover have "ll_add_all skip p (Some l) h = Some (Some l2, h2)"
        using x keep a(1) r(1) by (subst ll_add_all.simps) auto
      ultimately show ?thesis using r(2,5) a(5)
        by (intro exI [of _ l2] exI [of _ h2] exI [of _ ns2] conjI) (simp_all only:)
    qed
  qed
qed

lemma delete_by_data_ptr_rep:
  assumes rep: "ll_rep h l ns ds" and "data \<noteq> 0"
  shows "\<exists>l' h' ns'. singly_ll_delete_node_by_data_ptr (Some l) data h = Some (Some l', h') \<and>
    ll_rep h' l' ns' (remove1 data ds)"
proof -
  have ok: "ll_ok h l ns" and ds: "ds = map (lh_data h) ns" using rep by (auto simp: ll_rep_def)
  show ?thesis
  proof (cases rule: find_cases [OF ok, of "\<lambda>x. lh_data h x = data"])
    case 1
    then have "data \<notin> set ds" using ds by auto
    then show ?thesis using rep get_node_rep [OF ok, of data] 1(1)
      by (auto simp: singly_ll_delete_node_by_data_ptr_def remove1_idem)
  next
    case (2 xs x ys)
    obtain l' h' where r: "singly_ll_remove_node (Some l) x h = Some (0, Some l', h')"
      "ll_rep h' l' (xs @ ys) (map (lh_data h) (xs @ ys))" "lh_live h' = lh_live h" "lh_data h' = lh_data h"
      using remove_node_rep [of h l xs x ys ds] rep 2(2) by blast
    have d: "x \<notin> set (xs @ ys)" "lh_live h x" using ok ll_ok_mem [OF ok, of x] 2(2) by (auto simp: ll_ok_def)
    let ?h = "h'\<lparr>lh_live := (lh_live h')(x := False)\<rparr>"
    have "lseg h' (ll_head l') (xs @ ys) 0" using r(2) by (simp add: ll_rep_def ll_ok_def)
    then have "lseg ?h (ll_head l') (xs @ ys) 0"
      by (rule lseg_frame) (use d(1) r(2) in \<open>auto simp: ll_rep_def dest: ll_ok_mem\<close>)
    then have "ll_rep ?h l' (xs @ ys) (map (lh_data h) (xs @ ys))"
      using r(2) by (simp add: ll_rep_def ll_ok_def heap_ok_def)
    moreover have "remove1 data ds = map (lh_data h) (xs @ ys)"
      using 2(2,3,4) ds remove_first_split [of "map (lh_data h) xs" "\<lambda>d. d = data" "lh_data h x" "map (lh_data h) ys"]
      by (auto simp: remove_first_eq)
    ultimately show ?thesis using get_node_rep [OF ok, of data] 2(1,5) r(1,3) d(2) assms(2)
      by (auto simp: singly_ll_delete_node_by_data_ptr_def free_node_def)
  qed
qed

section \<open>Ordered insertion\<close>

lemma order_scan_seg:
  "lseg h p ns 0 \<Longrightarrow> ll_order_scan cmp data h prev p =
    Some (last (prev # takeWhile (\<lambda>x. cmp data (lh_data h x) \<noteq> -1) ns),
          hd0 (dropWhile (\<lambda>x. cmp data (lh_data h x) \<noteq> -1) ns))"
proof (induction ns arbitrary: p prev)
  case (Cons x xs)
  then show ?case by (subst ll_order_scan.simps) (auto simp: rd_wr)
qed (simp add: ll_order_scan.simps)

lemma insert_ok:
  assumes ok: "ll_ok h l (xs @ ys)" and room: "Suc (length (xs @ ys)) < 4294967296" and xs: "xs \<noteq> []"
    and new: "n \<notin> set (xs @ ys)" "n \<noteq> 0" "lh_live h' n" "lh_next h' n = hd0 ys" "lh_next h' (last xs) = n" "heap_ok h'"
    and live: "\<And>z. z \<in> set (xs @ ys) \<Longrightarrow> lh_live h' z"
    and frame: "\<And>z. z \<in> set (xs @ ys) \<Longrightarrow> z \<noteq> last xs \<Longrightarrow> lh_next h' z = lh_next h z"
  shows "ll_ok h' (inc_node_count l) (xs @ n # ys)"
proof -
  have s: "lseg h (ll_head l) xs (hd0 ys)" "lseg h (hd0 ys) ys 0" and d: "distinct (xs @ ys)"
    using ok by (auto simp: ll_ok_def lseg_split)
  have "lseg h' (ll_head l) xs n"
    by (rule lseg_relink [OF s(1) xs]) (use d new(5) live frame in simp_all)
  moreover have "lseg h' (hd0 ys) ys 0"
  proof (rule lseg_frame [OF s(2)])
    fix z assume z: "z \<in> set ys"
    moreover have "set xs \<inter> set ys = {}" using d by simp
    ultimately have "z \<noteq> last xs" using last_in_set [OF xs] by blast
    then show "lh_next h' z = lh_next h z \<and> lh_live h' z" using frame live z by simp
  qed
  ultimately have "lseg h' (ll_head l) (xs @ n # ys) 0"
    unfolding lseg_split [of h' _ xs] using new(2-4) by simp
  then show ?thesis using ok room d new(1,6) by (simp add: ll_ok_def inc_node_count_def)
qed

definition order_insert :: "(addr \<Rightarrow> addr \<Rightarrow> int) \<Rightarrow> addr \<Rightarrow> addr list \<Rightarrow> addr list" where
  "order_insert cmp data ds =
     takeWhile (\<lambda>x. cmp data x \<noteq> -1) ds @ data # dropWhile (\<lambda>x. cmp data x \<noteq> -1) ds"

text \<open>The new node is put behind a node of the list.\<close>

lemma insert_rep:
  assumes rep: "ll_rep h l (xs @ ys) ds" and room: "Suc (length (xs @ ys)) < 4294967296" and xs: "xs \<noteq> []"
    and new: "singly_ll_init_node data h = (n, h1)"
    and h': "h' = h1\<lparr>lh_next := (lh_next h1)(n := hd0 ys, last xs := n)\<rparr>"
  shows "ll_rep h' (inc_node_count l) (xs @ n # ys) (map (lh_data h) xs @ data # map (lh_data h) ys)"
    "last xs \<noteq> 0" "lh_live h1 (last xs)" "last xs \<noteq> n"
proof -
  have ok: "ll_ok h l (xs @ ys)" and H: "heap_ok h" using rep by (auto simp: ll_rep_def ll_ok_def)
  note N = init_node_facts [OF H new]
  have notin: "n \<notin> set (xs @ ys)" using fresh_notin [OF ok] N(1) by simp
  have last: "last xs \<in> set (xs @ ys)" using xs by simp
  then show l: "last xs \<noteq> n" using notin by auto
  show "last xs \<noteq> 0" "lh_live h1 (last xs)" using ll_ok_mem [OF ok last] N(8) [OF l] by auto
  have old: "lh_data h1 z = lh_data h z \<and> lh_next h1 z = lh_next h z \<and> lh_live h1 z" if "z \<in> set (xs @ ys)" for z
  proof -
    have "z \<noteq> n" using that notin by auto
    then show ?thesis using N(8) [of z] ll_ok_mem [OF ok that] by simp
  qed
  have "heap_ok h'" using N(7) by (simp add: h' heap_ok_def)
  then have "ll_ok h' (inc_node_count l) (xs @ n # ys)"
    using notin N(2,4) l old by (intro insert_ok [OF ok room xs]) (auto simp: h')
  moreover have "map (lh_data h') xs = map (lh_data h) xs" "map (lh_data h') ys = map (lh_data h) ys"
    using old by (simp_all add: h')
  ultimately show "ll_rep h' (inc_node_count l) (xs @ n # ys) (map (lh_data h) xs @ data # map (lh_data h) ys)"
    using N(5) by (simp add: ll_rep_def h')
qed

lemma add_ordered_one:
  assumes rep: "ll_rep h l [x] [d]" and cmp: "ll_comparison_fn l = Some cmp"
  shows "\<exists>l' h' ns'. singly_ll_add_ordered_data (Some l) data h = Some (Some l', h') \<and>
    ll_rep h' l' ns' (if cmp d data = -1 then List.insert data [d] else [d, data])"
proof -
  have ok: "ll_ok h l [x]" and H: "heap_ok h" and x: "x \<noteq> 0" "lh_live h x" "ll_head l = x" "lh_data h x = d"
    using rep by (auto simp: ll_rep_def ll_ok_def)
  have c: "ll_node_count l \<noteq> 0" "ll_node_count l = 1" using ll_ok_count_eq [OF ok] by auto
  show ?thesis
  proof (cases "cmp d data = -1")
    case True
    note add = add_node_by_val_rep [OF rep, of data]
    show ?thesis
    proof (cases "data \<in> set [d]")
      case True
      then show ?thesis using add(1) rep \<open>cmp d data = -1\<close> c cmp x by (auto simp: singly_ll_add_ordered_data_def rd_wr)
    next
      case False
      then obtain l' h' n where "singly_ll_add_node_by_val (Some l) data h = Some (0, Some l', h')" "ll_rep h' l' (n # [x]) [data, d]"
        using add(2) by auto
      then show ?thesis using False \<open>cmp d data = -1\<close> c cmp x by (auto simp: singly_ll_add_ordered_data_def rd_wr)
    qed
  next
    case False
    obtain n h1 where new: "singly_ll_init_node data h = (n, h1)" by (cases "singly_ll_init_node data h")
    let ?h = "h1\<lparr>lh_next := (lh_next h1)(n := hd0 [], last [x] := n)\<rparr>"
    have ins: "ll_rep ?h (inc_node_count l) ([x] @ n # []) (map (lh_data h) [x] @ data # map (lh_data h) [])"
      "last [x] \<noteq> 0" "lh_live h1 (last [x])" "last [x] \<noteq> n"
      by (rule insert_rep [where l = l and xs = "[x]" and ys = "[]" and ds = "[d]" and h = h, OF _ _ _ new]; (use rep in simp)?)+
    have "?h = h1\<lparr>lh_next := (lh_next h1)(x := n)\<rparr>"
      using init_node_facts(6) [OF H new] by (simp add: fun_upd_idem)
    then show ?thesis using False c cmp x ins new
      by (auto simp: singly_ll_add_ordered_data_def rd_wr)
  qed
qed

lemma add_ordered_rep:
  assumes rep: "ll_rep h l ns ds" and len: "length ds \<noteq> 1" and room: "Suc (length ds) < 4294967296"
    and cmp: "ll_comparison_fn l = Some cmp"
  shows "\<exists>l' h' ns'. singly_ll_add_ordered_data (Some l) data h = Some (Some l', h') \<and>
    ll_rep h' l' ns' (order_insert cmp data ds)"
proof -
  have ok: "ll_ok h l ns" and H: "heap_ok h" and ds: "ds = map (lh_data h) ns"
    using rep by (auto simp: ll_rep_def ll_ok_def)
  have s: "lseg h (ll_head l) ns 0" using ok by (simp add: ll_ok_def)
  obtain n h1 where new: "singly_ll_init_node data h = (n, h1)" by (cases "singly_ll_init_node data h")
  note N = init_node_facts [OF H new]
  show ?thesis
  proof (cases ns)
    case Nil
    then obtain l' h' m where "singly_ll_add_node_by_val (Some l) data h = Some (0, Some l', h')" "ll_rep h' l' (m # ns) (data # ds)"
      using add_node_by_val_rep(2) [OF rep room, of data] ds by auto
    then show ?thesis using Nil ds ll_ok_count_eq(1) [OF ok]
      by (auto simp: singly_ll_add_ordered_data_def order_insert_def)
  next
    case (Cons x xs)
    have x: "ll_head l = x" "x \<noteq> 0" "lh_live h x" using s Cons by auto
    have c: "ll_node_count l \<noteq> 0" "ll_node_count l \<noteq> 1" using ll_ok_count_eq [OF ok] len ds Cons by auto
    show ?thesis
    proof (cases "cmp data (lh_data h x) = -1")
      case True
      let ?h = "h1\<lparr>lh_next := (lh_next h1)(n := ll_head l)\<rparr>" and ?l = "inc_node_count (l\<lparr>ll_head := n\<rparr>)"
      have notin: "n \<notin> set ns" using fresh_notin [OF ok] N(1) by simp
      have old: "lh_data h1 z = lh_data h z \<and> lh_next h1 z = lh_next h z \<and> lh_live h1 z" if "z \<in> set ns" for z
      proof -
        have "z \<noteq> n" using that notin by auto
        then show ?thesis using N(8) [of z] ll_ok_mem [OF ok that] by simp
      qed
      have "ll_ok ?h ?l (n # ns)"
        using ok room ds notin N(2,4,7) old by (intro add_front_ok) (auto simp: heap_ok_def)
      moreover have "map (lh_data ?h) (n # ns) = order_insert cmp data ds"
        using True Cons ds old N(5) by (simp add: order_insert_def)
      ultimately have "ll_rep ?h ?l (n # ns) (order_insert cmp data ds)" by (simp add: ll_rep_def)
      then show ?thesis using True c cmp x new N(2,4)
        by (auto simp: singly_ll_add_ordered_data_def rd_wr)
    next
      case False
      let ?Q = "\<lambda>z. cmp data (lh_data h z) \<noteq> -1"
      let ?xs = "takeWhile ?Q ns" and ?ys = "dropWhile ?Q ns"
      have xs: "?xs \<noteq> []" using False Cons by simp
      have scan: "ll_order_scan cmp data h 0 (ll_head l) = Some (last ?xs, hd0 ?ys)"
        using order_scan_seg [OF s, of cmp data 0] xs by simp
      let ?h = "h1\<lparr>lh_next := (lh_next h1)(n := hd0 ?ys, last ?xs := n)\<rparr>"
      have rep': "ll_rep h l (?xs @ ?ys) ds" "Suc (length (?xs @ ?ys)) < 4294967296" using rep room ds by simp_all
      note ins = insert_rep [OF rep' xs new refl]
      have "map (lh_data h) ?xs @ data # map (lh_data h) ?ys = order_insert cmp data ds"
        using ds by (simp add: order_insert_def takeWhile_map dropWhile_map comp_def)
      then have "ll_rep ?h (inc_node_count l) (?xs @ n # ?ys) (order_insert cmp data ds)" using ins(1) by simp
      moreover have "singly_ll_add_ordered_data (Some l) data h = Some (Some (inc_node_count l), ?h)"
      proof (cases "hd0 ?ys = 0")
        case True
        then have "(lh_next h1)(n := hd0 ?ys) = lh_next h1" using N(6) by (simp add: fun_upd_idem)
        then show ?thesis using False True c cmp x new scan ins(2-4) N(2,4)
          by (simp add: singly_ll_add_ordered_data_def rd_wr)
      next
        case ys: False
        then show ?thesis using False c cmp x new scan ins(2-4) N(2,4)
          by (simp add: singly_ll_add_ordered_data_def rd_wr)
      qed
      ultimately show ?thesis by blast
    qed
  qed
qed

section \<open>Properties\<close>

text \<open>C10. The operations by data implement the operations of lists without duplicates, with the return
  codes of the interface and without a fault, on every well-formed list: insertion at the front unless
  present, the first node that matches taken out (unlinked or freed), reversal, deletion of all nodes.\<close>

theorem linked_list_refines:
  assumes rep: "ll_rep h l ns ds" and room: "Suc (length ds) < 4294967296" and data: "data \<noteq> 0"
  shows "(\<exists>l' h' ns'. singly_ll_add_node_by_val (Some l) data h = Some (if data \<in> set ds then -1 else 0, Some l', h') \<and> ll_rep h' l' ns' (List.insert data ds)) \<and>
    (\<exists>l' h' ns'. singly_ll_remove_node_by_dataptr (Some l) data h = Some (if data \<in> set ds then 1 else 0, Some l', h') \<and> ll_rep h' l' ns' (remove1 data ds)) \<and>
    (\<exists>l' h' ns'. singly_ll_remove_node_by_value mem (Some l) data sz h = Some (if \<exists>d\<in>set ds. memcmp_eq mem sz d data then 1 else 0, Some l', h') \<and> ll_rep h' l' ns' (remove_first (\<lambda>d. memcmp_eq mem sz d data) ds)) \<and>
    (\<exists>l' h' ns'. singly_ll_delete_node_by_value mem (Some l) data sz h = Some (if \<exists>d\<in>set ds. memcmp_eq mem sz d data then 1 else 0, Some l', h') \<and> ll_rep h' l' ns' (remove_first (\<lambda>d. memcmp_eq mem sz d data) ds)) \<and>
    (\<exists>l' h' ns'. singly_ll_delete_node_by_data_ptr (Some l) data h = Some (Some l', h') \<and> ll_rep h' l' ns' (remove1 data ds)) \<and>
    (\<exists>l' h'. reverse_singly_ll (Some l) h = Some (l', h') \<and> ll_rep h' l' (rev ns) (rev ds)) \<and>
    (\<exists>l' h'. delete_singly_ll (Some l) h = Some (Some l', h') \<and> ll_rep h' l' [] [] \<and> (\<forall>x\<in>set ns. \<not> lh_live h' x))"
    (is "?add \<and> ?remove \<and> ?remval \<and> ?delval \<and> ?delptr \<and> ?rev \<and> ?del")
proof (intro conjI)
  show ?add
  proof (cases "data \<in> set ds")
    case True
    then show ?thesis using add_node_by_val_rep(1) [OF rep room] rep by auto
  next
    case False
    then show ?thesis using add_node_by_val_rep(2) [OF rep room False] by auto
  qed
  show ?remove using remove_node.take_out_rep [OF rep, of "\<lambda>d. d = data"]
    by (simp add: singly_ll_remove_node_by_dataptr_def remove_first_eq)
  show ?remval using remove_node.take_out_rep [OF rep] by (simp add: singly_ll_remove_node_by_value_def)
  show ?delval using delete_node.take_out_rep [OF rep] by (simp add: singly_ll_delete_node_by_value_def)
  show ?delptr by (rule delete_by_data_ptr_rep [OF rep data])
  show ?rev by (rule reverse_rep [OF rep])
  show ?del using delete_all_rep [OF rep] by blast
qed

text \<open>A heap without nodes, and a list built in it.\<close>

definition ll_empty_heap :: ll_heap where
  "ll_empty_heap = \<lparr>lh_data = (\<lambda>_. 0), lh_next = (\<lambda>_. 0), lh_live = (\<lambda>_. False), lh_brk = 1\<rparr>"

lemma ll_empty_heap_ok: "heap_ok ll_empty_heap"
  by (simp add: heap_ok_def ll_empty_heap_def)

fun ll_adds :: "addr list \<Rightarrow> ll option \<Rightarrow> ll_heap \<Rightarrow> (ll option \<times> ll_heap) option" where
  "ll_adds [] lp h = Some (lp, h)"
| "ll_adds (d # ds) lp h = do { (r, lp', h') \<leftarrow> singly_ll_add_node_by_val lp d h; ll_adds ds lp' h' }"

lemma ll_adds_rep:
  "ll_rep h l ns ds \<Longrightarrow> length ds + length xs < 4294967296 \<Longrightarrow> distinct (xs @ ds) \<Longrightarrow>
    \<exists>l' h' ns'. ll_adds xs (Some l) h = Some (Some l', h') \<and> ll_rep h' l' ns' (rev xs @ ds) \<and>
      ll_comparison_fn l' = ll_comparison_fn l"
proof (induction xs arbitrary: l h ns ds)
  case (Cons x xs)
  have "Suc (length ds) < 4294967296" "x \<notin> set ds" using Cons.prems by auto
  then obtain l1 h1 n where a: "singly_ll_add_node_by_val (Some l) x h = Some (0, Some l1, h1)"
    "ll_rep h1 l1 (n # ns) (x # ds)" "ll_comparison_fn l1 = ll_comparison_fn l"
    using add_node_by_val_rep(2) [OF Cons.prems(1)] by blast
  then show ?case using Cons.IH [OF a(2)] Cons.prems by auto
qed auto

theorem linked_list_refines_witness:
  "\<exists>l h ns l' h'. ll_adds [5, 6, 7] (Some init_singly_ll) ll_empty_heap = Some (Some l, h) \<and> ll_rep h l ns [7, 6, 5] \<and>
    reverse_singly_ll (Some l) h = Some (l', h') \<and> ll_rep h' l' (rev ns) [5, 6, 7] \<and>
    (\<exists>l2 h2. singly_ll_delete_node_by_data_ptr (Some l) 6 h = Some (Some l2, h2))"
proof -
  obtain l h ns where l: "ll_adds [5, 6, 7] (Some init_singly_ll) ll_empty_heap = Some (Some l, h)" "ll_rep h l ns [7, 6, 5]"
    using ll_adds_rep [OF init_singly_ll_rep [OF ll_empty_heap_ok], of "[5, 6, 7]"] by auto
  from linked_list_refines [OF l(2), of 6]
  have "\<exists>l' h' ns'. singly_ll_delete_node_by_data_ptr (Some l) 6 h = Some (Some l', h') \<and> ll_rep h' l' ns' (remove1 6 [7, 6, 5])"
    "\<exists>l' h'. reverse_singly_ll (Some l) h = Some (l', h') \<and> ll_rep h' l' (rev ns) (rev [7, 6, 5])"
    by simp_all
  with l show ?thesis by fastforce
qed

text \<open>Copying makes the destination hold the data of the source, NULL apart, each once, and a union
  those of both lists; the sources are unchanged and there is no fault.\<close>

theorem linked_list_copy_union:
  assumes "ll_rep h s ms xs" "ll_rep h d ns ds" "set ms \<inter> set ns = {}" "length xs + length ds < 4294967296"
  shows "(\<exists>d' h' ns'. copy_singly_ll (Some s) (Some d) h = Some (Some d', h') \<and> ll_rep h' d' ns' (fold List.insert (filter (\<lambda>x. x \<noteq> 0) xs) []) \<and> ll_rep h' s ms xs \<and> ll_comparison_fn d' = ll_comparison_fn s) \<and>
    (\<exists>r h' ns'. union_singly_ll (Some s) (Some d) h = Some (Some r, h') \<and> ll_rep h' r ns' (fold List.insert (xs @ ds) []) \<and> ll_rep h' s ms xs \<and> ll_rep h' d ns ds)"
    (is "?copy \<and> ?union")
proof -
  have xs: "xs = map (lh_data h) ms" "ll_ok h s ms" and ds: "ds = map (lh_data h) ns" "ll_ok h d ns"
    using assms(1,2) by (auto simp: ll_rep_def)
  have seg: "lseg h (ll_head s) ms 0" using xs(2) by (simp add: ll_ok_def)
  have ?copy
  proof -
    obtain d1 h1 where del: "delete_singly_ll (Some d) h = Some (Some d1, h1)" "ll_rep h1 d1 [] []" "frames ns h h1"
      using delete_all_rep [OF assms(2)] by blast
    have s1: "ll_ok h1 s ms" "map (lh_data h1) ms = xs" using frames_ok [OF del(3) xs(2) assms(3)] xs(1) by simp_all
    have "lseg h1 (ll_head s) ms 0" using s1(1) by (simp add: ll_ok_def)
    moreover have "length ([]::addr list) + length ms < 4294967296" using assms(4) xs(1) by simp
    ultimately obtain d2 h2 ns2 where add: "ll_add_all True (ll_head s) (Some d1) h1 = Some (Some d2, h2)"
      "ll_rep h2 d2 ns2 (fold List.insert (filter (\<lambda>x. \<not> (True \<and> x = 0)) (map (lh_data h1) ms)) [])" "frames [] h1 h2"
      using add_all_rep [OF del(2), of "ll_head s" ms True] by auto
    have "ll_rep h2 s ms xs" using frames_ok [OF add(3) s1(1)] s1(2) by (simp add: ll_rep_def)
    then show ?thesis using del(1) add s1(2)
      by (auto simp: copy_singly_ll_def singly_ll_set_comparison_fn_def ll_rep_def ll_ok_def)
  qed
  moreover have ?union
  proof -
    let ?f = "if ll_comparison_fn s \<noteq> None then ll_comparison_fn s else ll_comparison_fn d"
    have H: "heap_ok h" using xs(2) by (simp add: ll_ok_def)
    have "ll_rep h (init_singly_ll\<lparr>ll_comparison_fn := ?f\<rparr>) [] []"
      using init_singly_ll_rep [OF H] by (simp add: ll_rep_def ll_ok_def)
    moreover have "length ([]::addr list) + length ms < 4294967296" using assms(4) xs(1) by simp
    ultimately obtain r1 h1 ns1 where a: "ll_add_all False (ll_head s) (Some (init_singly_ll\<lparr>ll_comparison_fn := ?f\<rparr>)) h = Some (Some r1, h1)"
      "ll_rep h1 r1 ns1 (fold List.insert xs [])" "frames [] h h1" "\<forall>x\<in>set ns1. lh_brk h \<le> x"
      using add_all_rep [of h "init_singly_ll\<lparr>ll_comparison_fn := ?f\<rparr>" "[]" "[]" "ll_head s" ms False] seg xs(1) by auto
    have s1: "ll_ok h1 s ms" "map (lh_data h1) ms = xs" and d1: "ll_ok h1 d ns" "map (lh_data h1) ns = ds"
      using frames_ok [OF a(3) xs(2)] frames_ok [OF a(3) ds(2)] xs(1) ds(1) by simp_all
    have old: "x < lh_brk h" if "x \<in> set ms \<union> set ns" for x
      using that ll_ok_mem [OF xs(2)] ll_ok_mem [OF ds(2)] by blast
    then have disj: "set ns \<inter> set ns1 = {}" "set ms \<inter> set ns1 = {}" using a(4) by fastforce+
    have seg1: "lseg h1 (ll_head d) ns 0" using d1(1) by (simp add: ll_ok_def)
    have "length (fold List.insert xs []) \<le> length xs"
    proof -
      have "length (fold List.insert xs ys) \<le> length xs + length ys" for ys :: "addr list"
      proof (induction xs arbitrary: ys)
        case (Cons x xs)
        have "length (List.insert x ys) \<le> Suc (length ys)" by (simp add: List.insert_def)
        then show ?case using Cons.IH [of "List.insert x ys"] by simp
      qed simp
      from this [of "[]"] show ?thesis by simp
    qed
    then have "length (fold List.insert xs []) + length ns < 4294967296" using assms(4) ds(1) by simp
    then obtain r2 h2 ns2 where b: "ll_add_all False (ll_head d) (Some r1) h1 = Some (Some r2, h2)"
      "ll_rep h2 r2 ns2 (fold List.insert ds (fold List.insert xs []))" "frames ns1 h1 h2"
      using add_all_rep [OF a(2) seg1 disj(1), of False] d1(2) by auto
    have "ll_rep h2 s ms xs" "ll_rep h2 d ns ds"
      using frames_ok [OF b(3) s1(1) disj(2)] frames_ok [OF b(3) d1(1) disj(1)] s1(2) d1(2)
      by (simp_all add: ll_rep_def)
    moreover have "union_singly_ll (Some s) (Some d) h = Some (Some r2, h2)"
      using a(1) b(1) by (simp add: union_singly_ll_def singly_ll_set_comparison_fn_def)
    ultimately show ?thesis using b(2) by auto
  qed
  ultimately show ?thesis by blast
qed

theorem linked_list_copy_union_witness:
  "\<exists>s h ms d' h'. ll_adds [5, 6] (Some init_singly_ll) ll_empty_heap = Some (Some s, h) \<and> ll_rep h s ms [6, 5] \<and>
    copy_singly_ll (Some s) (Some init_singly_ll) h = Some (Some d', h') \<and> (\<exists>ns'. ll_rep h' d' ns' [5, 6])"
proof -
  obtain s h ms where s: "ll_adds [5, 6] (Some init_singly_ll) ll_empty_heap = Some (Some s, h)" "ll_rep h s ms [6, 5]"
    using ll_adds_rep [OF init_singly_ll_rep [OF ll_empty_heap_ok], of "[5, 6]"] by auto
  have "ll_rep h init_singly_ll [] []" using s(2) by (intro init_singly_ll_rep) (simp add: ll_rep_def ll_ok_def)
  from linked_list_copy_union [OF s(2) this]
  have "\<exists>d' h' ns'. copy_singly_ll (Some s) (Some init_singly_ll) h = Some (Some d', h') \<and>
      ll_rep h' d' ns' (fold List.insert (filter (\<lambda>x. x \<noteq> 0) [6, 5]) [])"
    by auto
  with s show ?thesis by fastforce
qed

lemma order_insert_mset: "mset (order_insert cmp data ds) = add_mset data (mset ds)"
  unfolding order_insert_def by (induction ds) auto

text \<open>Ordered insertion into a list with no node or with at least two puts the new data behind all that
  are not greater: an ordered list stays ordered, nothing is lost.\<close>

theorem linked_list_add_ordered:
  fixes key :: "addr \<Rightarrow> int"
  assumes rep: "ll_rep h l ns ds" and len: "length ds \<noteq> 1" and room: "Suc (length ds) < 4294967296"
    and fn: "ll_comparison_fn l = Some (\<lambda>a b. if key a < key b then -1 else if key a = key b then 0 else 1)"
    and sorted: "sorted (map key ds)"
  shows "\<exists>l' h' ns' ds'. singly_ll_add_ordered_data (Some l) data h = Some (Some l', h') \<and>
    ll_rep h' l' ns' ds' \<and> sorted (map key ds') \<and> mset ds' = add_mset data (mset ds)"
proof -
  let ?cmp = "\<lambda>a b. if key a < key b then -1 else if key a = key b then 0 else 1 :: int"
  let ?P = "\<lambda>x. key x \<le> key data"
  have P: "(\<lambda>x. ?cmp data x \<noteq> -1) = ?P" by auto
  have "mset (order_insert ?cmp data ds) = add_mset data (mset ds)"
    by (simp only: order_insert_mset)
  moreover have "sorted (map key (order_insert ?cmp data ds))"
  proof -
    have "sorted (map key (takeWhile ?P ds @ data # dropWhile ?P ds))"
      using sorted
    proof (induction ds)
      case (Cons x xs)
      show ?case
      proof (cases "key x \<le> key data")
        case True
        let ?r = "takeWhile ?P xs @ data # dropWhile ?P xs"
        have "\<forall>y\<in>set ?r. key x \<le> key y" using Cons.prems True
          by (auto dest: set_takeWhileD set_dropWhileD)
        moreover have "sorted (map key ?r)" using Cons by simp
        ultimately have "sorted (map key (x # ?r))" by (simp del: set_append map_append)
        then show ?thesis using True by simp
      qed (use Cons.prems in auto)
    qed simp
    then show ?thesis unfolding order_insert_def P .
  qed
  ultimately show ?thesis using add_ordered_rep [OF rep len room fn, of data] by blast
qed

theorem linked_list_add_ordered_witness:
  "\<exists>l h l' h'. ll_adds [9, 5] (singly_ll_set_comparison_fn (Some init_singly_ll)
        (Some (\<lambda>a b. if int a < int b then -1 else if int a = int b then 0 else 1))) ll_empty_heap = Some (Some l, h) \<and>
    singly_ll_add_ordered_data (Some l) 7 h = Some (Some l', h') \<and>
    (\<exists>ns' ds'. ll_rep h' l' ns' ds' \<and> sorted (map int ds') \<and> mset ds' = {#5, 7, 9#})"
proof -
  let ?cmp = "\<lambda>a b. if int a < int b then -1 else if int a = int b then 0 else 1 :: int"
  let ?l0 = "init_singly_ll\<lparr>ll_comparison_fn := Some ?cmp\<rparr>"
  have "ll_rep ll_empty_heap ?l0 [] []"
    using init_singly_ll_rep [OF ll_empty_heap_ok] by (simp add: ll_rep_def ll_ok_def)
  then obtain l h ns where l: "ll_adds [9, 5] (Some ?l0) ll_empty_heap = Some (Some l, h)" "ll_rep h l ns [5, 9]"
    "ll_comparison_fn l = Some ?cmp"
    using ll_adds_rep [of ll_empty_heap ?l0 "[]" "[]" "[9, 5]"] by auto
  obtain l' h' ns' ds' where "singly_ll_add_ordered_data (Some l) 7 h = Some (Some l', h')"
    "ll_rep h' l' ns' ds'" "sorted (map int ds')" "mset ds' = add_mset 7 (mset [5, 9])"
    using linked_list_add_ordered [OF l(2) _ _ l(3), of 7] by auto
  moreover have "mset ds' = {#5, 7, 9#}" using calculation(4) by (simp add: add_mset_commute)
  ultimately show ?thesis using l(1) by (auto simp: singly_ll_set_comparison_fn_def)
qed

text \<open>With exactly one node the test is the wrong way round: greater data goes before it, smaller data
  behind it.\<close>

theorem linked_list_add_ordered_one_node:
  assumes "ll_rep h l [x] [d]" "key d \<noteq> key data"
    and "ll_comparison_fn l = Some (\<lambda>a b. if key a < key b then -1 else if key a = (key b :: int) then 0 else 1)"
  shows "\<exists>l' h' ns' ds'. singly_ll_add_ordered_data (Some l) data h = Some (Some l', h') \<and>
    ll_rep h' l' ns' ds' \<and> \<not> sorted (map key ds')"
proof -
  have "d \<noteq> data" using assms(2) by auto
  then have "\<not> sorted (map key (if (if key d < key data then -1 else if key d = key data then 0 else 1) = (-1::int)
    then List.insert data [d] else [d, data]))"
    using assms(2) by auto
  then show ?thesis using add_ordered_one [OF assms(1,3), of data] by blast
qed

end
