(* ===== verification/Crud.thy ===== *)
theory Crud
  imports Prelude
begin

text \<open>
  The container of reference-counted students of \<^verbatim>\<open>CRUD/\<close>: threads that read, update, create
  and delete students, a reader-writer lock for the list and one for every student, and a reference
  count that decides who frees a student. A thread is cut at every acquisition and release of a lock,
  at every use of the spin lock of a reference count and at every access of a student; the threads are
  interleaved in every order. The list holds the addresses of the students in the order of the nodes;
  its insertion and its removal are those of \<^verbatim>\<open>CRUD/LinkedList\<close>.
\<close>

section \<open>The code\<close>

text \<open>A \<^verbatim>\<open>pthread_rwlock_t\<close>: held by a number of readers (none: free) or by a writer.\<close>

datatype rwl = Rd_held nat | Wr_held

text \<open>\<^verbatim>\<open>ref_count_t\<close> without its spin lock, which makes each operation one step.\<close>

definition ref_count_init :: u32 where
  "ref_count_init = 0"

definition ref_count_inc :: "u32 \<Rightarrow> u32" where
  "ref_count_inc r = r + 1"

definition ref_count_dec :: "u32 \<Rightarrow> (bool \<times> u32) option" where
  "ref_count_dec r = (if r = 0 then None else let r' = r - 1 in Some (r' = 0, r'))"

definition ref_count_destroy :: "u32 \<Rightarrow> bool" where
  "ref_count_destroy r \<longleftrightarrow> r = 0"

definition thread_using_object :: "u32 \<Rightarrow> u32" where
  "thread_using_object r = ref_count_inc r"

definition thread_using_object_done :: "u32 \<Rightarrow> (bool \<times> u32) option" where
  "thread_using_object_done r = ref_count_dec r"

record student =
  st_roll_no :: u32
  st_total_marks :: u32
  st_ref_count :: u32
  st_rw_lock :: rwl

text \<open>A thread that reads or updates: with the list locked for reading before the look-up, with the
  student found, with its reference counted, with both locks, with the lock of the student before and
  after its work; then, like a deleting thread, with its reference only, and about to destroy. A
  creating thread: with the list locked for writing, with a new student, with it in the list, with its
  reference counted. A deleting thread: with the list locked, with the student taken out, with its own
  reference counted, with the reference of the list dropped.\<close>

datatype access = Read_access | Write_access

datatype crud_pc =
    Crud_idle
  | Acc_looking access u32 | Acc_found access addr | Acc_using access addr | Acc_locked access addr
  | Acc_working access addr | Acc_worked access addr
  | Crud_done addr | Crud_destroy addr
  | Cre_looking u32 | Cre_new addr | Cre_inserted addr | Cre_counted
  | Del_looking u32 | Del_removed addr | Del_using addr | Del_dropped addr

text \<open>\<open>cr_stud\<close> holds the students that are allocated, \<open>cr_brk\<close> is the next address that
  \<^verbatim>\<open>calloc\<close> returns. The counter \<^verbatim>\<open>student_object_count\<close> is never read and is left out.\<close>

record crud =
  cr_lst :: "addr list"
  cr_lock :: rwl
  cr_stud :: "addr \<Rightarrow> student option"
  cr_brk :: addr
  cr_pc :: "tid \<Rightarrow> crud_pc"

text \<open>A fault (a failed assertion, an access of a student that is not allocated, a lock destroyed while
  held), a thread that has to wait, the next state.\<close>

datatype crud_outcome = Crud_fault | Crud_wait | Crud_to crud

definition student_malloc :: "u32 \<Rightarrow> crud \<Rightarrow> addr \<times> crud" where
  "student_malloc roll_no c =
     (cr_brk c, c\<lparr>cr_stud := (cr_stud c)(cr_brk c \<mapsto> \<lparr>st_roll_no = roll_no, st_total_marks = 0,
        st_ref_count = ref_count_init, st_rw_lock = Rd_held 0\<rparr>), cr_brk := cr_brk c + 1\<rparr>)"

definition student_destroy :: "addr \<Rightarrow> crud \<Rightarrow> crud option" where
  "student_destroy s c = (case cr_stud c s of None \<Rightarrow> None
     | Some st \<Rightarrow> if st_ref_count st = 0 \<and> ref_count_destroy (st_ref_count st) \<and> st_rw_lock st = Rd_held 0
                  then Some (c\<lparr>cr_stud := (cr_stud c)(s := None)\<rparr>) else None)"

text \<open>The look-up reads every student up to the one it returns; \<open>None\<close> is a fault, 0 is NULL.\<close>

fun student_find :: "(addr \<Rightarrow> student option) \<Rightarrow> u32 \<Rightarrow> addr list \<Rightarrow> addr option" where
  "student_find studs roll_no [] = Some 0"
| "student_find studs roll_no (s # ss) =
     (case studs s of None \<Rightarrow> None
      | Some st \<Rightarrow> if st_roll_no st = roll_no then Some s else student_find studs roll_no ss)"

definition student_lst_lookup :: "u32 \<Rightarrow> crud \<Rightarrow> addr option" where
  "student_lst_lookup roll_no c = student_find (cr_stud c) roll_no (cr_lst c)"

definition student_lst_insert :: "addr \<Rightarrow> crud \<Rightarrow> (bool \<times> crud) option" where
  "student_lst_insert s c =
     (case cr_stud c s of None \<Rightarrow> None
      | Some st \<Rightarrow> (case student_lst_lookup (st_roll_no st) c of None \<Rightarrow> None
      | Some s2 \<Rightarrow> if s2 \<noteq> 0 then Some (False, c)
                   else Some (True, c\<lparr>cr_lst := List.insert s (cr_lst c)\<rparr>)))"

definition student_lst_remove :: "u32 \<Rightarrow> crud \<Rightarrow> (addr \<times> crud) option" where
  "student_lst_remove roll_no c =
     (case student_lst_lookup roll_no c of None \<Rightarrow> None
      | Some s \<Rightarrow> if s = 0 then Some (0, c) else Some (s, c\<lparr>cr_lst := remove1 s (cr_lst c)\<rparr>))"

definition to_pc :: "tid \<Rightarrow> crud_pc \<Rightarrow> crud \<Rightarrow> crud" where
  "to_pc t pc c = c\<lparr>cr_pc := (cr_pc c)(t := pc)\<rparr>"

text \<open>The student at an address is changed, or the access is a fault.\<close>

definition with_student :: "addr \<Rightarrow> crud \<Rightarrow> (student \<Rightarrow> crud_outcome) \<Rightarrow> crud_outcome" where
  "with_student s c k = (case cr_stud c s of None \<Rightarrow> Crud_fault | Some st \<Rightarrow> k st)"

definition put_student :: "addr \<Rightarrow> student \<Rightarrow> crud \<Rightarrow> crud" where
  "put_student s st c = c\<lparr>cr_stud := (cr_stud c)(s \<mapsto> st)\<rparr>"

fun rw_rdlock :: "rwl \<Rightarrow> rwl option" where
  "rw_rdlock (Rd_held n) = Some (Rd_held (n + 1))"
| "rw_rdlock Wr_held = None"

fun rw_wrlock :: "rwl \<Rightarrow> rwl option" where
  "rw_wrlock (Rd_held n) = (if n = 0 then Some Wr_held else None)"
| "rw_wrlock Wr_held = None"

fun rw_unlock :: "rwl \<Rightarrow> rwl" where
  "rw_unlock (Rd_held n) = Rd_held (n - 1)"
| "rw_unlock Wr_held = Rd_held 0"

fun rw_acquire :: "access \<Rightarrow> rwl \<Rightarrow> rwl option" where
  "rw_acquire Read_access l = rw_rdlock l"
| "rw_acquire Write_access l = rw_wrlock l"

definition unlock_list :: "crud \<Rightarrow> crud" where
  "unlock_list c = c\<lparr>cr_lock := rw_unlock (cr_lock c)\<rparr>"

text \<open>The start of a round of a thread: a roll number is drawn and the list is locked.\<close>

definition MAX_ROLL_NO :: u32 where
  "MAX_ROLL_NO = 10"

definition start_round :: "access \<Rightarrow> (u32 \<Rightarrow> crud_pc) \<Rightarrow> u32 \<Rightarrow> tid \<Rightarrow> crud \<Rightarrow> crud_outcome" where
  "start_round a pc rnd t c =
     (case rw_acquire a (cr_lock c) of None \<Rightarrow> Crud_wait
      | Some l \<Rightarrow> Crud_to (to_pc t (pc (rnd mod MAX_ROLL_NO)) (c\<lparr>cr_lock := l\<rparr>)))"

definition INCR :: u32 where
  "INCR = 5"

text \<open>What a reading and an updating thread do with the student.\<close>

fun student_work :: "access \<Rightarrow> student \<Rightarrow> student" where
  "student_work Read_access st = st"
| "student_work Write_access st = st\<lparr>st_total_marks := (st_total_marks st + INCR) mod 100\<rparr>"

text \<open>\<^verbatim>\<open>reader_fn\<close> (\<open>Read_access\<close>) and \<^verbatim>\<open>update_fn\<close> (\<open>Write_access\<close>).\<close>

definition access_step :: "access \<Rightarrow> tid \<Rightarrow> crud \<Rightarrow> crud_pc \<Rightarrow> crud_outcome" where
  "access_step a t c pc =
     (case pc of
        Acc_looking _ r \<Rightarrow>
          (case student_lst_lookup r c of None \<Rightarrow> Crud_fault
           | Some s \<Rightarrow> if s = 0 then Crud_to (to_pc t Crud_idle (unlock_list c))
                       else Crud_to (to_pc t (Acc_found a s) c))
      | Acc_found _ s \<Rightarrow> with_student s c (\<lambda>st.
          Crud_to (to_pc t (Acc_using a s) (put_student s (st\<lparr>st_ref_count := thread_using_object (st_ref_count st)\<rparr>) c)))
      | Acc_using _ s \<Rightarrow> with_student s c (\<lambda>st.
          (case rw_acquire a (st_rw_lock st) of None \<Rightarrow> Crud_wait
           | Some l \<Rightarrow> Crud_to (to_pc t (Acc_locked a s) (put_student s (st\<lparr>st_rw_lock := l\<rparr>) c))))
      | Acc_locked _ s \<Rightarrow> Crud_to (to_pc t (Acc_working a s) (unlock_list c))
      | Acc_working _ s \<Rightarrow> with_student s c (\<lambda>st.
          Crud_to (to_pc t (Acc_worked a s) (put_student s (student_work a st) c)))
      | Acc_worked _ s \<Rightarrow> with_student s c (\<lambda>st.
          Crud_to (to_pc t (Crud_done s) (put_student s (st\<lparr>st_rw_lock := rw_unlock (st_rw_lock st)\<rparr>) c)))
      | _ \<Rightarrow> Crud_wait)"

text \<open>The end of a reading, updating and deleting thread.\<close>

definition done_step :: "tid \<Rightarrow> crud \<Rightarrow> addr \<Rightarrow> crud_outcome" where
  "done_step t c s = with_student s c (\<lambda>st.
     (case thread_using_object_done (st_ref_count st) of None \<Rightarrow> Crud_fault
      | Some (zero, r) \<Rightarrow> Crud_to (to_pc t (if zero then Crud_destroy s else Crud_idle)
                                  (put_student s (st\<lparr>st_ref_count := r\<rparr>) c))))"

definition destroy_step :: "tid \<Rightarrow> crud \<Rightarrow> addr \<Rightarrow> crud_outcome" where
  "destroy_step t c s =
     (case student_destroy s c of None \<Rightarrow> Crud_fault | Some c' \<Rightarrow> Crud_to (to_pc t Crud_idle c'))"

definition create_fn :: "tid \<Rightarrow> crud \<Rightarrow> crud_pc \<Rightarrow> crud_outcome" where
  "create_fn t c pc =
     (case pc of
        Cre_looking r \<Rightarrow>
          (case student_lst_lookup r c of None \<Rightarrow> Crud_fault
           | Some s \<Rightarrow> if s \<noteq> 0 then Crud_to (to_pc t Crud_idle (unlock_list c))
                       else let (new_stud, c1) = student_malloc r c in Crud_to (to_pc t (Cre_new new_stud) c1))
      | Cre_new s \<Rightarrow>
          (case student_lst_insert s c of None \<Rightarrow> Crud_fault
           | Some (ok, c1) \<Rightarrow> if ok then Crud_to (to_pc t (Cre_inserted s) c1) else Crud_fault)
      | Cre_inserted s \<Rightarrow> with_student s c (\<lambda>st.
          Crud_to (to_pc t Cre_counted (put_student s (st\<lparr>st_ref_count := ref_count_inc (st_ref_count st)\<rparr>) c)))
      | Cre_counted \<Rightarrow> Crud_to (to_pc t Crud_idle (unlock_list c))
      | _ \<Rightarrow> Crud_wait)"

definition delete_fn :: "tid \<Rightarrow> crud \<Rightarrow> crud_pc \<Rightarrow> crud_outcome" where
  "delete_fn t c pc =
     (case pc of
        Del_looking r \<Rightarrow>
          (case student_lst_remove r c of None \<Rightarrow> Crud_fault
           | Some (s, c1) \<Rightarrow> if s = 0 then Crud_to (to_pc t Crud_idle (unlock_list c1))
                             else Crud_to (to_pc t (Del_removed s) c1))
      | Del_removed s \<Rightarrow> with_student s c (\<lambda>st.
          Crud_to (to_pc t (Del_using s) (put_student s (st\<lparr>st_ref_count := thread_using_object (st_ref_count st)\<rparr>) c)))
      | Del_using s \<Rightarrow> with_student s c (\<lambda>st.
          (case ref_count_dec (st_ref_count st) of None \<Rightarrow> Crud_fault
           | Some (zero, r) \<Rightarrow> if zero then Crud_fault
               else Crud_to (to_pc t (Del_dropped s) (put_student s (st\<lparr>st_ref_count := r\<rparr>) c))))
      | Del_dropped s \<Rightarrow> Crud_to (to_pc t (Crud_done s) (unlock_list c))
      | _ \<Rightarrow> Crud_wait)"

text \<open>The next step of a thread; \<open>rnd\<close> is what \<^verbatim>\<open>rand()\<close> returns.\<close>

datatype crud_role = Reader_th | Update_th | Create_th | Delete_th

definition crud_next :: "crud_role \<Rightarrow> u32 \<Rightarrow> tid \<Rightarrow> crud \<Rightarrow> crud_outcome" where
  "crud_next role rnd t c =
     (case cr_pc c t of
        Crud_idle \<Rightarrow>
          (case role of
             Reader_th \<Rightarrow> start_round Read_access (Acc_looking Read_access) rnd t c
           | Update_th \<Rightarrow> start_round Read_access (Acc_looking Write_access) rnd t c
           | Create_th \<Rightarrow> start_round Write_access Cre_looking rnd t c
           | Delete_th \<Rightarrow> start_round Write_access Del_looking rnd t c)
      | Acc_looking a r \<Rightarrow> access_step a t c (cr_pc c t)
      | Acc_found a s \<Rightarrow> access_step a t c (cr_pc c t)
      | Acc_using a s \<Rightarrow> access_step a t c (cr_pc c t)
      | Acc_locked a s \<Rightarrow> access_step a t c (cr_pc c t)
      | Acc_working a s \<Rightarrow> access_step a t c (cr_pc c t)
      | Acc_worked a s \<Rightarrow> access_step a t c (cr_pc c t)
      | Crud_done s \<Rightarrow> done_step t c s
      | Crud_destroy s \<Rightarrow> destroy_step t c s
      | Cre_looking r \<Rightarrow> create_fn t c (cr_pc c t)
      | Cre_new s \<Rightarrow> create_fn t c (cr_pc c t)
      | Cre_inserted s \<Rightarrow> create_fn t c (cr_pc c t)
      | Cre_counted \<Rightarrow> create_fn t c (cr_pc c t)
      | Del_looking r \<Rightarrow> delete_fn t c (cr_pc c t)
      | Del_removed s \<Rightarrow> delete_fn t c (cr_pc c t)
      | Del_using s \<Rightarrow> delete_fn t c (cr_pc c t)
      | Del_dropped s \<Rightarrow> delete_fn t c (cr_pc c t))"

definition crud_main :: crud where
  "crud_main = \<lparr>cr_lst = [], cr_lock = Rd_held 0, cr_stud = (\<lambda>_. None), cr_brk = 1, cr_pc = (\<lambda>_. Crud_idle)\<rparr>"

text \<open>Any number of threads, each with its role.\<close>

inductive crud_reach :: "tid set \<Rightarrow> (tid \<Rightarrow> crud_role) \<Rightarrow> crud \<Rightarrow> bool" for T role where
  start: "crud_reach T role crud_main"
| step: "crud_reach T role c \<Longrightarrow> t \<in> T \<Longrightarrow> crud_next (role t) rnd t c = Crud_to c' \<Longrightarrow> crud_reach T role c'"

fun crud_run :: "(tid \<Rightarrow> crud_role) \<Rightarrow> (tid \<times> u32) list \<Rightarrow> crud \<Rightarrow> crud option" where
  "crud_run role [] c = Some c"
| "crud_run role ((t, rnd) # es) c =
     (case crud_next (role t) rnd t c of Crud_to c' \<Rightarrow> crud_run role es c' | _ \<Rightarrow> None)"

lemma crud_run_reach:
  "crud_reach T role c \<Longrightarrow> fst ` set es \<subseteq> T \<Longrightarrow> crud_run role es c = Some c' \<Longrightarrow> crud_reach T role c'"
proof (induction es arbitrary: c)
  case (Cons e es)
  obtain t rnd where e: "e = (t, rnd)" by (cases e)
  then obtain c1 where c1: "crud_next (role t) rnd t c = Crud_to c1" "crud_run role es c1 = Some c'"
    using Cons.prems(3) by (auto split: crud_outcome.splits)
  have "crud_reach T role c1" using crud_reach.step [OF Cons.prems(1) _ c1(1)] Cons.prems(2) e by simp
  then show ?case using Cons.IH [of c1] Cons.prems(2) c1(2) by simp
qed simp

end
