(* ===== verification/CrudInvariant.thy ===== *)
theory CrudInvariant
  imports Crud
begin

text \<open>
  The invariant of the container of \<^verbatim>\<open>CRUD/\<close> and the steps of the threads that have a student. Every
  thread weighs, at its point of the code, what it has of a student (references, the student's lock) and
  of the list's lock; the invariant says that the reference counts and the locks agree with the sums of
  the weights.
\<close>

section \<open>What a thread has of a student and of the list\<close>

fun pc_stud :: "crud_pc \<Rightarrow> addr option" where
  "pc_stud (Acc_found a s) = Some s" | "pc_stud (Acc_using a s) = Some s" | "pc_stud (Acc_locked a s) = Some s"
| "pc_stud (Acc_working a s) = Some s" | "pc_stud (Acc_worked a s) = Some s"
| "pc_stud (Crud_done s) = Some s" | "pc_stud (Crud_destroy s) = Some s"
| "pc_stud (Cre_new s) = Some s" | "pc_stud (Cre_inserted s) = Some s"
| "pc_stud (Del_removed s) = Some s" | "pc_stud (Del_using s) = Some s" | "pc_stud (Del_dropped s) = Some s"
| "pc_stud _ = None"

text \<open>References counted for the thread (the one of the list, once taken out, included), a reference of
  the list not counted yet, the only user of the student, the student known to be in the list or not in
  it, the lock of the student held for reading or for writing, the same for the list.\<close>

fun refs :: "crud_pc \<Rightarrow> nat" where
  "refs (Acc_using a s) = 1" | "refs (Acc_locked a s) = 1" | "refs (Acc_working a s) = 1"
| "refs (Acc_worked a s) = 1" | "refs (Crud_done s) = 1"
| "refs (Del_removed s) = 1" | "refs (Del_using s) = 2" | "refs (Del_dropped s) = 1"
| "refs _ = 0"

fun owes :: "crud_pc \<Rightarrow> nat" where
  "owes (Cre_inserted s) = 1" | "owes _ = 0"

fun sole :: "crud_pc \<Rightarrow> nat" where
  "sole (Cre_new s) = 1" | "sole (Cre_inserted s) = 1" | "sole (Crud_destroy s) = 1" | "sole _ = 0"

fun inside :: "crud_pc \<Rightarrow> nat" where
  "inside (Acc_found a s) = 1" | "inside (Cre_inserted s) = 1" | "inside _ = 0"

fun outside :: "crud_pc \<Rightarrow> nat" where
  "outside (Cre_new s) = 1" | "outside (Crud_destroy s) = 1" | "outside (Del_removed s) = 1"
| "outside (Del_using s) = 1" | "outside (Del_dropped s) = 1" | "outside _ = 0"

fun stud_rd_holds :: "crud_pc \<Rightarrow> nat" where
  "stud_rd_holds (Acc_locked Read_access s) = 1" | "stud_rd_holds (Acc_working Read_access s) = 1"
| "stud_rd_holds (Acc_worked Read_access s) = 1" | "stud_rd_holds _ = 0"

fun stud_wr_holds :: "crud_pc \<Rightarrow> nat" where
  "stud_wr_holds (Acc_locked Write_access s) = 1" | "stud_wr_holds (Acc_working Write_access s) = 1"
| "stud_wr_holds (Acc_worked Write_access s) = 1" | "stud_wr_holds _ = 0"

fun list_rd :: "crud_pc \<Rightarrow> nat" where
  "list_rd (Acc_looking a r) = 1" | "list_rd (Acc_found a s) = 1" | "list_rd (Acc_using a s) = 1"
| "list_rd (Acc_locked a s) = 1" | "list_rd _ = 0"

fun list_wr :: "crud_pc \<Rightarrow> nat" where
  "list_wr (Cre_looking r) = 1" | "list_wr (Cre_new s) = 1" | "list_wr (Cre_inserted s) = 1" | "list_wr Cre_counted = 1"
| "list_wr (Del_looking r) = 1" | "list_wr (Del_removed s) = 1" | "list_wr (Del_using s) = 1" | "list_wr (Del_dropped s) = 1"
| "list_wr _ = 0"

definition at_stud :: "(crud_pc \<Rightarrow> nat) \<Rightarrow> addr \<Rightarrow> crud_pc \<Rightarrow> nat" where
  "at_stud w s pc = (if pc_stud pc = Some s then w pc else 0)"

definition wsum :: "tid set \<Rightarrow> (crud_pc \<Rightarrow> nat) \<Rightarrow> addr \<Rightarrow> (tid \<Rightarrow> crud_pc) \<Rightarrow> nat" where
  "wsum T w s f = sum_threads T (at_stud w s) f"

lemma wsum_upd:
  "finite T \<Longrightarrow> t \<in> T \<Longrightarrow> wsum T w s (f(t := pc)) + at_stud w s (f t) = wsum T w s f + at_stud w s pc"
  by (simp add: wsum_def sum_threads_upd)

lemma wsum_other:
  assumes "finite T" "t \<in> T" "pc_stud (f t) \<noteq> Some s" "pc_stud pc \<noteq> Some s"
  shows "wsum T w s (f(t := pc)) = wsum T w s f"
  using wsum_upd [OF assms(1,2), of w s f pc] assms(3,4) by (simp add: at_stud_def)

lemma wsum_ge: "finite T \<Longrightarrow> t \<in> T \<Longrightarrow> pc_stud (f t) = Some s \<Longrightarrow> w (f t) \<le> wsum T w s f"
  using sum_threads_ge [of T t "at_stud w s" f] by (simp add: wsum_def at_stud_def)

lemma wsum_zero: "(\<And>t. t \<in> T \<Longrightarrow> pc_stud (f t) = Some s \<Longrightarrow> w (f t) = 0) \<Longrightarrow> wsum T w s f = 0"
  unfolding wsum_def by (intro sum_threads_zero) (simp add: at_stud_def)

lemma wsum_eq_0:
  "finite T \<Longrightarrow> wsum T w s f = 0 \<longleftrightarrow> (\<forall>t\<in>T. pc_stud (f t) = Some s \<longrightarrow> w (f t) = 0)"
  by (auto simp: wsum_def at_stud_def sum_threads_eq_0)

lemma wsum_one_unique:
  assumes "finite T" "wsum T (\<lambda>_. 1) s f = 1" "t \<in> T" "pc_stud (f t) = Some s" "u \<in> T" "pc_stud (f u) = Some s"
  shows "t = u"
proof (rule ccontr)
  assume "t \<noteq> u"
  have "(\<Sum>x\<in>{t, u}. at_stud (\<lambda>_. 1) s (f x)) \<le> (\<Sum>x\<in>T. at_stud (\<lambda>_. 1) s (f x))"
    using assms by (intro sum_mono2) auto
  then show False using \<open>t \<noteq> u\<close> assms by (simp add: wsum_def sum_threads_def at_stud_def)
qed

lemma wsum_le: "finite T \<Longrightarrow> (\<And>pc. w pc \<le> k) \<Longrightarrow> wsum T w s f \<le> card T * k"
  unfolding wsum_def by (intro sum_threads_bound) (simp add: at_stud_def)

section \<open>The invariant\<close>

fun rw_ok :: "rwl \<Rightarrow> nat \<Rightarrow> nat \<Rightarrow> bool" where
  "rw_ok (Rd_held n) nr nw \<longleftrightarrow> n = nr \<and> nw = 0"
| "rw_ok Wr_held nr nw \<longleftrightarrow> nr = 0 \<and> nw = 1"

definition stud_ok :: "tid set \<Rightarrow> (tid \<Rightarrow> crud_pc) \<Rightarrow> addr list \<Rightarrow> addr \<Rightarrow> student \<Rightarrow> bool" where
  "stud_ok T f lst s st \<longleftrightarrow>
     (\<exists>k. st_ref_count st = of_nat k \<and> k + wsum T owes s f = (if s \<in> set lst then 1 else 0) + wsum T refs s f) \<and>
     rw_ok (st_rw_lock st) (wsum T stud_rd_holds s f) (wsum T stud_wr_holds s f) \<and>
     (wsum T sole s f \<noteq> 0 \<longrightarrow> wsum T (\<lambda>_. 1) s f = 1) \<and>
     (wsum T inside s f \<noteq> 0 \<longrightarrow> s \<in> set lst) \<and> (wsum T outside s f \<noteq> 0 \<longrightarrow> s \<notin> set lst) \<and>
     (s \<in> set lst \<or> wsum T (\<lambda>_. 1) s f \<noteq> 0)"

lemma stud_okI:
  assumes "st_ref_count st = of_nat k" "k + wsum T owes s f = (if s \<in> set lst then 1 else 0) + wsum T refs s f"
    "rw_ok (st_rw_lock st) (wsum T stud_rd_holds s f) (wsum T stud_wr_holds s f)"
    "wsum T sole s f \<noteq> 0 \<Longrightarrow> wsum T (\<lambda>_. 1) s f = 1"
    "wsum T inside s f \<noteq> 0 \<Longrightarrow> s \<in> set lst" "wsum T outside s f \<noteq> 0 \<Longrightarrow> s \<notin> set lst"
    "s \<in> set lst \<or> wsum T (\<lambda>_. 1) s f \<noteq> 0"
  shows "stud_ok T f lst s st"
  using assms unfolding stud_ok_def by blast

definition roll :: "crud \<Rightarrow> addr \<Rightarrow> u32 option" where
  "roll c s = map_option st_roll_no (cr_stud c s)"

definition crud_inv :: "tid set \<Rightarrow> crud \<Rightarrow> bool" where
  "crud_inv T c \<longleftrightarrow>
     rw_ok (cr_lock c) (sum_threads T list_rd (cr_pc c)) (sum_threads T list_wr (cr_pc c)) \<and>
     distinct (map (roll c) (cr_lst c)) \<and>
     (\<forall>s\<in>set (cr_lst c). cr_stud c s \<noteq> None) \<and>
     (\<forall>t\<in>T. \<forall>s. pc_stud (cr_pc c t) = Some s \<longrightarrow> cr_stud c s \<noteq> None) \<and>
     (\<forall>t\<in>T. \<forall>s. cr_pc c t = Cre_new s \<longrightarrow> roll c s \<notin> roll c ` set (cr_lst c)) \<and>
     (\<forall>s st. cr_stud c s = Some st \<longrightarrow> 0 < s \<and> s < cr_brk c \<and> stud_ok T (cr_pc c) (cr_lst c) s st) \<and>
     0 < cr_brk c"

lemma crud_invD:
  assumes "crud_inv T c"
  shows "rw_ok (cr_lock c) (sum_threads T list_rd (cr_pc c)) (sum_threads T list_wr (cr_pc c))"
    "distinct (map (roll c) (cr_lst c))" "distinct (cr_lst c)"
    "s \<in> set (cr_lst c) \<Longrightarrow> cr_stud c s \<noteq> None"
    "t \<in> T \<Longrightarrow> pc_stud (cr_pc c t) = Some s \<Longrightarrow> cr_stud c s \<noteq> None"
    "t \<in> T \<Longrightarrow> cr_pc c t = Cre_new s \<Longrightarrow> roll c s \<notin> roll c ` set (cr_lst c)"
    "cr_stud c s = Some st \<Longrightarrow> 0 < s \<and> s < cr_brk c"
    "cr_stud c s = Some st \<Longrightarrow> stud_ok T (cr_pc c) (cr_lst c) s st"
    "0 < cr_brk c"
  using assms unfolding crud_inv_def by (blast dest: distinct_map [THEN iffD1])+

text \<open>A step of thread \<open>t\<close> concerns one student, \<open>s0\<close>.\<close>

lemma crud_inv_step:
  assumes inv: "crud_inv T c" and T: "finite T" "t \<in> T"
    and pc: "cr_pc c' = (cr_pc c)(t := pc)"
    and focus: "pc_stud (cr_pc c t) = None \<or> pc_stud (cr_pc c t) = Some s0" "pc_stud pc = None \<or> pc_stud pc = Some s0"
    and other: "\<And>s. s \<noteq> s0 \<Longrightarrow> cr_stud c' s = cr_stud c s" "\<And>s. s \<noteq> s0 \<Longrightarrow> s \<in> set (cr_lst c') \<longleftrightarrow> s \<in> set (cr_lst c)"
    and brk: "cr_brk c \<le> cr_brk c'"
    and lock: "rw_ok (cr_lock c') (sum_threads T list_rd (cr_pc c')) (sum_threads T list_wr (cr_pc c'))"
    and rolls: "distinct (map (roll c') (cr_lst c'))"
    and new: "\<And>u s. u \<in> T \<Longrightarrow> cr_pc c' u = Cre_new s \<Longrightarrow> roll c' s \<notin> roll c' ` set (cr_lst c')"
    and some: "\<And>st. cr_stud c' s0 = Some st \<Longrightarrow> 0 < s0 \<and> s0 < cr_brk c' \<and> stud_ok T (cr_pc c') (cr_lst c') s0 st"
    and none: "cr_stud c' s0 = None \<Longrightarrow> s0 \<notin> set (cr_lst c') \<and> (\<forall>u\<in>T. pc_stud (cr_pc c' u) \<noteq> Some s0)"
  shows "crud_inv T c'"
  unfolding crud_inv_def
proof (intro conjI ballI allI impI)
  note D = crud_invD [OF inv]
  show "rw_ok (cr_lock c') (sum_threads T list_rd (cr_pc c')) (sum_threads T list_wr (cr_pc c'))" by (rule lock)
  show "distinct (map (roll c') (cr_lst c'))" by (rule rolls)
  show "0 < cr_brk c'" using D(9) brk by simp
  show "cr_stud c' s \<noteq> None" if "s \<in> set (cr_lst c')" for s
    using that other D(4) [of s] none by (cases "s = s0") auto
  show "cr_stud c' s \<noteq> None" if u: "u \<in> T" "pc_stud (cr_pc c' u) = Some s" for u s
  proof (cases "s = s0")
    case True
    then show ?thesis using none u by blast
  next
    case False
    then have "u \<noteq> t" using u focus(2) pc by auto
    then show ?thesis using False other(1) D(5) [OF u(1)] u(2) pc by simp
  qed
  show "roll c' s \<notin> roll c' ` set (cr_lst c')" if "u \<in> T" "cr_pc c' u = Cre_new s" for u s
    using new that by blast
  fix s st assume st: "cr_stud c' s = Some st"
  show "0 < s"
    using some st other(1) D(7) by (cases "s = s0") auto
  show "s < cr_brk c'"
    using some st other(1) D(7) [of s st] brk by (cases "s = s0") auto
  show "stud_ok T (cr_pc c') (cr_lst c') s st"
  proof (cases "s = s0")
    case False
    then have "wsum T w s (cr_pc c') = wsum T w s (cr_pc c)" for w
      unfolding pc using focus by (intro wsum_other [OF T]) auto
    then show ?thesis using D(8) [of s st] st other False by (simp add: stud_ok_def)
  qed (use some st in blast)
qed

text \<open>Steps that leave list, students and memory as they are.\<close>

lemma crud_inv_pc:
  assumes inv: "crud_inv T c" and T: "finite T" "t \<in> T"
    and none: "pc_stud (cr_pc c t) = None" "pc_stud pc = None"
    and lock: "rw_ok l (sum_threads T list_rd ((cr_pc c)(t := pc))) (sum_threads T list_wr ((cr_pc c)(t := pc)))"
  shows "crud_inv T (to_pc t pc (c\<lparr>cr_lock := l\<rparr>))"
proof -
  note D = crud_invD [OF inv]
  have r: "roll (to_pc t pc (c\<lparr>cr_lock := l\<rparr>)) = roll c" by (auto simp: to_pc_def roll_def)
  have z: "cr_stud c 0 = None" using D(7) [of 0] by (cases "cr_stud c 0") auto
  show ?thesis
  proof (rule crud_inv_step [OF inv T, of _ pc 0])
    show "roll (to_pc t pc (c\<lparr>cr_lock := l\<rparr>)) s \<notin> roll (to_pc t pc (c\<lparr>cr_lock := l\<rparr>)) ` set (cr_lst (to_pc t pc (c\<lparr>cr_lock := l\<rparr>)))"
      if "u \<in> T" "cr_pc (to_pc t pc (c\<lparr>cr_lock := l\<rparr>)) u = Cre_new s" for u s
      using that D(6) [of u s] none(2) unfolding r by (auto simp: to_pc_def split: if_splits)
    show "0 \<notin> set (cr_lst (to_pc t pc (c\<lparr>cr_lock := l\<rparr>))) \<and> (\<forall>u\<in>T. pc_stud (cr_pc (to_pc t pc (c\<lparr>cr_lock := l\<rparr>)) u) \<noteq> Some 0)"
      using D(4) [of 0] D(5) [of _ 0] z none by (auto simp: to_pc_def split: if_splits)
    show "distinct (map (roll (to_pc t pc (c\<lparr>cr_lock := l\<rparr>))) (cr_lst (to_pc t pc (c\<lparr>cr_lock := l\<rparr>))))"
      using D(2) unfolding r by (simp add: to_pc_def)
  qed (use assms z in \<open>auto simp: to_pc_def\<close>)
qed

lemma to_pc_simps [simp]:
  "cr_pc (to_pc t pc c) = (cr_pc c)(t := pc)" "cr_lst (to_pc t pc c) = cr_lst c" "cr_lock (to_pc t pc c) = cr_lock c"
  "cr_stud (to_pc t pc c) = cr_stud c" "cr_brk (to_pc t pc c) = cr_brk c"
  by (simp_all add: to_pc_def)

lemma put_student_simps [simp]:
  "cr_pc (put_student s st c) = cr_pc c" "cr_lst (put_student s st c) = cr_lst c" "cr_lock (put_student s st c) = cr_lock c"
  "cr_stud (put_student s st c) = (cr_stud c)(s \<mapsto> st)" "cr_brk (put_student s st c) = cr_brk c"
  by (simp_all add: put_student_def)

lemma put_same: "cr_stud c s = Some st \<Longrightarrow> put_student s st c = c"
  by (simp add: put_student_def fun_upd_idem)

text \<open>A step that changes one student, the point of the thread and perhaps the lock of the list.\<close>

lemma crud_inv_move:
  assumes inv: "crud_inv T c" and T: "finite T" "t \<in> T" and st: "cr_stud c s = Some st"
    and old: "pc_stud (cr_pc c t) = Some s" and pc: "pc_stud pc = None \<or> pc_stud pc = Some s" "\<And>x. pc \<noteq> Cre_new x"
    and roll: "st_roll_no st' = st_roll_no st"
    and lock: "rw_ok l (sum_threads T list_rd ((cr_pc c)(t := pc))) (sum_threads T list_wr ((cr_pc c)(t := pc)))"
    and ok: "stud_ok T ((cr_pc c)(t := pc)) (cr_lst c) s st'"
  shows "crud_inv T (to_pc t pc (put_student s st' (c\<lparr>cr_lock := l\<rparr>)))"
proof -
  note D = crud_invD [OF inv]
  let ?c = "to_pc t pc (put_student s st' (c\<lparr>cr_lock := l\<rparr>))"
  have r: "roll ?c = roll c" using st roll by (auto simp: roll_def)
  show ?thesis
  proof (rule crud_inv_step [OF inv T, of _ pc s])
    show "roll ?c x \<notin> roll ?c ` set (cr_lst ?c)" if "u \<in> T" "cr_pc ?c u = Cre_new x" for u x
      using that D(6) [of u x] pc(2) unfolding r by (auto split: if_splits)
  qed (use assms D(2) D(7) [OF st] in \<open>auto simp: r\<close>)
qed

lemma move_to:
  assumes "finite T" "t \<in> T" "pc_stud (f t) = Some s" "pc_stud pc = Some s"
  shows "wsum T w s (f(t := pc)) + w (f t) = wsum T w s f + w pc" "w (f t) \<le> wsum T w s f"
  using wsum_upd [OF assms(1,2), of w s f pc] wsum_ge [of T t f s w] assms by (simp_all add: at_stud_def)

lemma move_off:
  assumes "finite T" "t \<in> T" "pc_stud (f t) = Some s" "pc_stud pc = None"
  shows "wsum T w s (f(t := pc)) + w (f t) = wsum T w s f" "w (f t) \<le> wsum T w s f"
  using wsum_upd [OF assms(1,2), of w s f pc] wsum_ge [of T t f s w] assms by (simp_all add: at_stud_def)

lemma list_lock_facts:
  assumes "finite T" "t \<in> T"
  shows "sum_threads T w (f(t := pc)) + w (f t) = sum_threads T w f + w pc" "w (f t) \<le> sum_threads T w f"
  using sum_threads_upd [of T t w f pc] sum_threads_ge [of T t w f] assms by simp_all

lemma same_list_lock:
  assumes "crud_inv T c" "finite T" "t \<in> T" "list_rd pc = list_rd (cr_pc c t)" "list_wr pc = list_wr (cr_pc c t)"
  shows "rw_ok (cr_lock c) (sum_threads T list_rd ((cr_pc c)(t := pc))) (sum_threads T list_wr ((cr_pc c)(t := pc)))"
  using crud_invD(1) [OF assms(1)] list_lock_facts(1) [of T t list_rd "cr_pc c" pc]
    list_lock_facts(1) [of T t list_wr "cr_pc c" pc] assms(2-5) by simp

lemma unlock_list_ok:
  assumes "crud_inv T c" "finite T" "t \<in> T" "list_rd (cr_pc c t) + list_wr (cr_pc c t) = 1" "list_rd pc = 0" "list_wr pc = 0"
  shows "rw_ok (rw_unlock (cr_lock c)) (sum_threads T list_rd ((cr_pc c)(t := pc))) (sum_threads T list_wr ((cr_pc c)(t := pc)))"
  using crud_invD(1) [OF assms(1)] list_lock_facts(1) [of T t list_rd "cr_pc c" pc] list_lock_facts(2) [of T t list_rd "cr_pc c"]
    list_lock_facts(1) [of T t list_wr "cr_pc c" pc] list_lock_facts(2) [of T t list_wr "cr_pc c"] assms(2-6)
  by (cases "cr_lock c") auto

lemma stud_okD:
  assumes "stud_ok T f lst s st" "finite T" "card T < 1073741824"
  obtains k where "st_ref_count st = of_nat k" "k + wsum T owes s f = (if s \<in> set lst then 1 else 0) + wsum T refs s f"
    "k < 4294967295" "st_ref_count st = 0 \<longleftrightarrow> k = 0"
proof -
  obtain k where k: "st_ref_count st = of_nat k" "k + wsum T owes s f = (if s \<in> set lst then 1 else 0) + wsum T refs s f"
    using assms(1) by (auto simp: stud_ok_def)
  have "refs pc \<le> 2" for pc by (cases pc) simp_all
  then have "wsum T refs s f \<le> card T * 2" by (rule wsum_le [OF assms(2)])
  then have less: "k < 4294967295" using k(2) assms(3) by (simp split: if_splits)
  then have "(of_nat k :: u32) = 0 \<longleftrightarrow> k = 0" using of_nat_u32_inj [of k 0] by simp
  with that k less show thesis by simp
qed

lemma count_le: "finite T \<Longrightarrow> (\<And>pc. w pc \<le> v pc) \<Longrightarrow> wsum T w s f \<le> wsum T v s f"
  unfolding wsum_def sum_threads_def by (intro sum_mono) (simp add: at_stud_def)

text \<open>A counted reference is dropped or taken.\<close>

lemma dec_facts:
  assumes "finite T" "card T < 1073741824" "stud_ok T f lst s st"
    "ref_count_dec (st_ref_count st) = None"
  shows "(if s \<in> set lst then 1 else 0) + wsum T refs s f = wsum T owes s f"
proof -
  obtain k where k: "st_ref_count st = of_nat k" "k + wsum T owes s f = (if s \<in> set lst then 1 else 0) + wsum T refs s f"
    "st_ref_count st = 0 \<longleftrightarrow> k = 0"
    by (rule stud_okD [OF assms(3,1,2)])
  have "st_ref_count st = 0" using assms(4) by (simp add: ref_count_dec_def Let_def split: if_splits)
  then show ?thesis using k by simp
qed

text \<open>A user that is not the only one of its kind excludes the only ones.\<close>

lemma not_sole:
  assumes ok: "stud_ok T f lst s st" and T: "finite T" "t \<in> T" "pc_stud (f t) = Some s" "sole (f t) = 0"
  shows "wsum T sole s f = 0" "wsum T owes s f = 0"
proof -
  show z: "wsum T sole s f = 0"
  proof (rule ccontr)
    assume ne: "wsum T sole s f \<noteq> 0"
    then obtain u where u: "u \<in> T" "pc_stud (f u) = Some s" "sole (f u) \<noteq> 0"
      using wsum_eq_0 [OF T(1), of sole s f] by auto
    have "wsum T (\<lambda>_. 1) s f = 1" using ok ne by (simp add: stud_ok_def)
    from wsum_one_unique [OF T(1) this T(2,3) u(1,2)] show False using T(4) u(3) by simp
  qed
  have "owes pc \<le> sole pc" for pc by (cases pc) simp_all
  from count_le [of T owes sole s f] T(1) this z show "wsum T owes s f = 0" by simp
qed

section \<open>The steps on a student\<close>

text \<open>The changes of weights of a step from one point with the student to another.\<close>

lemma stud_ok_move:
  assumes ok: "stud_ok T f lst s st" and T: "finite T" "t \<in> T" "pc_stud (f t) = Some s" "pc_stud pc = Some s"
    and refc: "st_ref_count st' = st_ref_count st + of_nat j" "owes (f t) + refs pc = refs (f t) + owes pc + j"
    and lock: "\<And>nr nw. stud_rd_holds (f t) \<le> nr \<Longrightarrow> stud_wr_holds (f t) \<le> nw \<Longrightarrow> rw_ok (st_rw_lock st) nr nw \<Longrightarrow>
      rw_ok (st_rw_lock st') (nr - stud_rd_holds (f t) + stud_rd_holds pc) (nw - stud_wr_holds (f t) + stud_wr_holds pc)"
    and sole: "sole pc \<le> sole (f t)" and ins: "inside pc \<le> inside (f t)" and out: "outside pc \<le> outside (f t)"
  shows "stud_ok T (f(t := pc)) lst s st'"
proof -
  have W: "wsum T w s (f(t := pc)) + w (f t) = wsum T w s f + w pc" "w (f t) \<le> wsum T w s f" for w
    using move_to [of T t f s pc w] T by blast+
  obtain k where k: "st_ref_count st = of_nat k" "k + wsum T owes s f = (if s \<in> set lst then 1 else 0) + wsum T refs s f"
    using ok by (auto simp: stud_ok_def)
  have O: "rw_ok (st_rw_lock st) (wsum T stud_rd_holds s f) (wsum T stud_wr_holds s f)" "wsum T sole s f \<noteq> 0 \<Longrightarrow> wsum T (\<lambda>_. 1) s f = 1"
    "wsum T inside s f \<noteq> 0 \<Longrightarrow> s \<in> set lst" "wsum T outside s f \<noteq> 0 \<Longrightarrow> s \<notin> set lst"
    "s \<in> set lst \<or> wsum T (\<lambda>_. 1) s f \<noteq> 0"
    using ok unfolding stud_ok_def by blast+
  show ?thesis
  proof (rule stud_okI [where k = "k + j"])
    show "k + j + wsum T owes s (f(t := pc)) = (if s \<in> set lst then 1 else 0) + wsum T refs s (f(t := pc))"
      using k(2) W(1) [of owes] W(1) [of refs] refc(2) by (simp split: if_splits)
    have "wsum T w s (f(t := pc)) = wsum T w s f - w (f t) + w pc" for w
      using W [of w] by linarith
    then show "rw_ok (st_rw_lock st') (wsum T stud_rd_holds s (f(t := pc))) (wsum T stud_wr_holds s (f(t := pc)))"
      using lock [OF W(2) W(2) O(1)] by simp
    show "wsum T (\<lambda>_. 1) s (f(t := pc)) = 1" if "wsum T sole s (f(t := pc)) \<noteq> 0"
      using that W(1) [of sole] sole O(2) W(1) [of "\<lambda>_. 1"] by simp
    show "s \<in> set lst" if "wsum T inside s (f(t := pc)) \<noteq> 0" using that W(1) [of inside] ins O(3) by simp
    show "s \<notin> set lst" if "wsum T outside s (f(t := pc)) \<noteq> 0" using that W(1) [of outside] out O(4) by simp
    show "s \<in> set lst \<or> wsum T (\<lambda>_. 1) s (f(t := pc)) \<noteq> 0" using O(5) W(1) [of "\<lambda>_. 1"] by simp
  qed (simp add: refc(1) k(1))
qed

lemma student_of:
  assumes "crud_inv T c" "t \<in> T" "pc_stud (cr_pc c t) = Some s"
  obtains st where "cr_stud c s = Some st" "stud_ok T (cr_pc c) (cr_lst c) s st"
proof -
  obtain st where "cr_stud c s = Some st" using crud_invD(5) [OF assms] by auto
  with that crud_invD(8) [OF assms(1) this] show thesis by blast
qed

lemma acc_found_step:
  assumes inv: "crud_inv T c" and T: "finite T" "t \<in> T" and pc: "cr_pc c t = Acc_found a s"
  shows "\<exists>c'. access_step a t c (cr_pc c t) = Crud_to c' \<and> crud_inv T c'"
proof -
  have p: "pc_stud (cr_pc c t) = Some s" using pc by simp
  obtain st where st: "cr_stud c s = Some st" "stud_ok T (cr_pc c) (cr_lst c) s st" by (rule student_of [OF inv T(2) p])
  let ?st = "st\<lparr>st_ref_count := thread_using_object (st_ref_count st)\<rparr>"
  have "stud_ok T ((cr_pc c)(t := Acc_using a s)) (cr_lst c) s ?st"
    using pc by (intro stud_ok_move [OF st(2) T p, where j = 1]) (simp_all add: thread_using_object_def ref_count_inc_def)
  then have "crud_inv T (to_pc t (Acc_using a s) (put_student s ?st (c\<lparr>cr_lock := cr_lock c\<rparr>)))"
    using p pc same_list_lock [OF inv T, of "Acc_using a s"] by (intro crud_inv_move [OF inv T st(1)]) auto
  then show ?thesis using pc st by (simp add: access_step_def with_student_def)
qed

lemma acc_using_step:
  assumes inv: "crud_inv T c" and T: "finite T" "t \<in> T" and pc: "cr_pc c t = Acc_using a s"
  shows "access_step a t c (cr_pc c t) = Crud_wait \<or> (\<exists>c'. access_step a t c (cr_pc c t) = Crud_to c' \<and> crud_inv T c')"
proof -
  have p: "pc_stud (cr_pc c t) = Some s" using pc by simp
  obtain st where st: "cr_stud c s = Some st" "stud_ok T (cr_pc c) (cr_lst c) s st" by (rule student_of [OF inv T(2) p])
  show ?thesis
  proof (cases "rw_acquire a (st_rw_lock st)")
    case None
    then show ?thesis using pc st(1) by (simp add: access_step_def with_student_def)
  next
    case (Some l)
    let ?st = "st\<lparr>st_rw_lock := l\<rparr>"
    have "stud_ok T ((cr_pc c)(t := Acc_locked a s)) (cr_lst c) s ?st"
    proof (rule stud_ok_move [OF st(2) T p, where j = 0])
      show "rw_ok (st_rw_lock ?st) (nr - stud_rd_holds (cr_pc c t) + stud_rd_holds (Acc_locked a s)) (nw - stud_wr_holds (cr_pc c t) + stud_wr_holds (Acc_locked a s))"
        if "rw_ok (st_rw_lock st) nr nw" for nr nw
        using Some that pc by (cases a; cases "st_rw_lock st") (auto split: if_splits)
    qed (use pc in simp_all)
    then have "crud_inv T (to_pc t (Acc_locked a s) (put_student s ?st (c\<lparr>cr_lock := cr_lock c\<rparr>)))"
      using p pc same_list_lock [OF inv T, of "Acc_locked a s"] by (intro crud_inv_move [OF inv T st(1)]) auto
    then show ?thesis using pc st Some by (simp add: access_step_def with_student_def)
  qed
qed

lemma acc_locked_step:
  assumes inv: "crud_inv T c" and T: "finite T" "t \<in> T" and pc: "cr_pc c t = Acc_locked a s"
  shows "\<exists>c'. access_step a t c (cr_pc c t) = Crud_to c' \<and> crud_inv T c'"
proof -
  have p: "pc_stud (cr_pc c t) = Some s" using pc by simp
  obtain st where st: "cr_stud c s = Some st" "stud_ok T (cr_pc c) (cr_lst c) s st" by (rule student_of [OF inv T(2) p])
  have "stud_ok T ((cr_pc c)(t := Acc_working a s)) (cr_lst c) s st"
    using pc by (intro stud_ok_move [OF st(2) T p, where j = 0]) (cases a; simp)+
  then have "crud_inv T (to_pc t (Acc_working a s) (put_student s st (c\<lparr>cr_lock := rw_unlock (cr_lock c)\<rparr>)))"
    using p pc unlock_list_ok [OF inv T, of "Acc_working a s"] by (intro crud_inv_move [OF inv T st(1)]) auto
  then show ?thesis using pc st(1) by (simp add: access_step_def unlock_list_def put_same)
qed

lemma acc_working_step:
  assumes inv: "crud_inv T c" and T: "finite T" "t \<in> T" and pc: "cr_pc c t = Acc_working a s"
  shows "\<exists>c'. access_step a t c (cr_pc c t) = Crud_to c' \<and> crud_inv T c'"
proof -
  have p: "pc_stud (cr_pc c t) = Some s" using pc by simp
  obtain st where st: "cr_stud c s = Some st" "stud_ok T (cr_pc c) (cr_lst c) s st" by (rule student_of [OF inv T(2) p])
  have "stud_ok T ((cr_pc c)(t := Acc_worked a s)) (cr_lst c) s (student_work a st)"
    using pc by (intro stud_ok_move [OF st(2) T p, where j = 0]) (cases a; simp)+
  then have "crud_inv T (to_pc t (Acc_worked a s) (put_student s (student_work a st) (c\<lparr>cr_lock := cr_lock c\<rparr>)))"
    using p pc same_list_lock [OF inv T, of "Acc_worked a s"] by (intro crud_inv_move [OF inv T st(1)]) (cases a; auto)+
  then show ?thesis using pc st by (simp add: access_step_def with_student_def)
qed

lemma acc_worked_step:
  assumes inv: "crud_inv T c" and T: "finite T" "t \<in> T" and pc: "cr_pc c t = Acc_worked a s"
  shows "\<exists>c'. access_step a t c (cr_pc c t) = Crud_to c' \<and> crud_inv T c'"
proof -
  have p: "pc_stud (cr_pc c t) = Some s" using pc by simp
  obtain st where st: "cr_stud c s = Some st" "stud_ok T (cr_pc c) (cr_lst c) s st" by (rule student_of [OF inv T(2) p])
  let ?st = "st\<lparr>st_rw_lock := rw_unlock (st_rw_lock st)\<rparr>"
  have "stud_ok T ((cr_pc c)(t := Crud_done s)) (cr_lst c) s ?st"
  proof (rule stud_ok_move [OF st(2) T p, where j = 0])
    show "rw_ok (st_rw_lock ?st) (nr - stud_rd_holds (cr_pc c t) + stud_rd_holds (Crud_done s)) (nw - stud_wr_holds (cr_pc c t) + stud_wr_holds (Crud_done s))"
      if "rw_ok (st_rw_lock st) nr nw" "stud_rd_holds (cr_pc c t) \<le> nr" "stud_wr_holds (cr_pc c t) \<le> nw" for nr nw
      using that pc by (cases a; cases "st_rw_lock st") auto
  qed (use pc in simp_all)
  then have "crud_inv T (to_pc t (Crud_done s) (put_student s ?st (c\<lparr>cr_lock := cr_lock c\<rparr>)))"
    using p pc same_list_lock [OF inv T, of "Crud_done s"] by (intro crud_inv_move [OF inv T st(1)]) auto
  then show ?thesis using pc st by (simp add: access_step_def with_student_def)
qed

lemma del_removed_step:
  assumes inv: "crud_inv T c" and T: "finite T" "t \<in> T" and pc: "cr_pc c t = Del_removed s"
  shows "\<exists>c'. delete_fn t c (cr_pc c t) = Crud_to c' \<and> crud_inv T c'"
proof -
  have p: "pc_stud (cr_pc c t) = Some s" using pc by simp
  obtain st where st: "cr_stud c s = Some st" "stud_ok T (cr_pc c) (cr_lst c) s st" by (rule student_of [OF inv T(2) p])
  let ?st = "st\<lparr>st_ref_count := thread_using_object (st_ref_count st)\<rparr>"
  have "stud_ok T ((cr_pc c)(t := Del_using s)) (cr_lst c) s ?st"
    using pc by (intro stud_ok_move [OF st(2) T p, where j = 1]) (simp_all add: thread_using_object_def ref_count_inc_def)
  then have "crud_inv T (to_pc t (Del_using s) (put_student s ?st (c\<lparr>cr_lock := cr_lock c\<rparr>)))"
    using p pc same_list_lock [OF inv T, of "Del_using s"] by (intro crud_inv_move [OF inv T st(1)]) auto
  then show ?thesis using pc st by (simp add: delete_fn_def with_student_def)
qed

lemma del_dropped_step:
  assumes inv: "crud_inv T c" and T: "finite T" "t \<in> T" and pc: "cr_pc c t = Del_dropped s"
  shows "\<exists>c'. delete_fn t c (cr_pc c t) = Crud_to c' \<and> crud_inv T c'"
proof -
  have p: "pc_stud (cr_pc c t) = Some s" using pc by simp
  obtain st where st: "cr_stud c s = Some st" "stud_ok T (cr_pc c) (cr_lst c) s st" by (rule student_of [OF inv T(2) p])
  have "stud_ok T ((cr_pc c)(t := Crud_done s)) (cr_lst c) s st"
    using pc by (intro stud_ok_move [OF st(2) T p, where j = 0]) simp_all
  then have "crud_inv T (to_pc t (Crud_done s) (put_student s st (c\<lparr>cr_lock := rw_unlock (cr_lock c)\<rparr>)))"
    using p pc unlock_list_ok [OF inv T, of "Crud_done s"] by (intro crud_inv_move [OF inv T st(1)]) auto
  then show ?thesis using pc st(1) by (simp add: delete_fn_def unlock_list_def put_same)
qed

lemma refs_users: "finite T \<Longrightarrow> wsum T refs s f \<noteq> 0 \<Longrightarrow> wsum T (\<lambda>_. 1) s f \<noteq> 0"
  by (auto simp: wsum_eq_0)

lemma refs_le: "refs pc \<le> 2"
  by (cases pc) simp_all

text \<open>The last reference: nobody else uses the student.\<close>

lemma last_reference:
  assumes ok: "stud_ok T f lst s st" and T: "finite T" "t \<in> T" "pc_stud (f t) = Some s"
    and zero: "s \<notin> set lst" "wsum T refs s f = refs (f t)" "wsum T sole s f = 0"
  shows "wsum T (\<lambda>_. 1) s f = 1"
proof -
  have "pc_stud (f u) \<noteq> Some s" if u: "u \<in> T" "u \<noteq> t" for u
  proof
    assume us: "pc_stud (f u) = Some s"
    have "(\<Sum>x\<in>{t, u}. at_stud refs s (f x)) \<le> (\<Sum>x\<in>T. at_stud refs s (f x))"
      using T u by (intro sum_mono2) auto
    then have "refs (f u) = 0" using zero(2) u us T(3) by (simp add: wsum_def sum_threads_def at_stud_def)
    moreover have "sole (f u) = 0" using zero(3) wsum_eq_0 [OF T(1), of sole s f] u us by auto
    moreover have "inside (f u) = 0"
      using ok zero(1) wsum_eq_0 [OF T(1), of inside s f] u us by (auto simp: stud_ok_def)
    ultimately show False using us by (cases "f u") auto
  qed
  then have "(\<Sum>x\<in>T - {t}. at_stud (\<lambda>_. 1) s (f x)) = 0" by (intro sum.neutral) (simp add: at_stud_def)
  then show ?thesis using T sum.remove [of T t "\<lambda>x. at_stud (\<lambda>_. 1) s (f x)"]
    by (simp add: wsum_def sum_threads_def at_stud_def)
qed

lemma dec_step_facts:
  assumes ok: "stud_ok T f lst s st" and T: "finite T" "t \<in> T" "card T < 1073741824" "pc_stud (f t) = Some s"
    and w: "refs (f t) \<noteq> 0" "sole (f t) = 0"
  obtains k where "ref_count_dec (st_ref_count st) = Some (k = 0, of_nat k)"
    "Suc k = (if s \<in> set lst then 1 else 0) + wsum T refs s f" "wsum T owes s f = 0" "wsum T sole s f = 0"
proof -
  obtain k where k: "st_ref_count st = of_nat k" "k + wsum T owes s f = (if s \<in> set lst then 1 else 0) + wsum T refs s f"
    "k < 4294967295" "st_ref_count st = 0 \<longleftrightarrow> k = 0"
    by (rule stud_okD [OF ok T(1,3)])
  note N = not_sole [OF ok T(1,2,4) w(2)]
  have "refs (f t) \<le> wsum T refs s f" using wsum_ge [of T t f s refs] T by simp
  then obtain j where j: "k = Suc j" using k(2) N(2) w(1) by (cases k) auto
  have r: "st_ref_count st - 1 = of_nat j" using k(1) j by simp
  have "(of_nat j :: u32) = 0 \<longleftrightarrow> j = 0" using of_nat_u32_inj [of j 0] k(3) j by simp
  then have "ref_count_dec (st_ref_count st) = Some (j = 0, of_nat j)"
    using k(4) j r by (simp add: ref_count_dec_def Let_def)
  then show thesis using that k(2) N j by simp
qed

lemma done_step_inv:
  assumes inv: "crud_inv T c" and T: "finite T" "t \<in> T" "card T < 1073741824" and pc: "cr_pc c t = Crud_done s"
  shows "\<exists>c'. done_step t c s = Crud_to c' \<and> crud_inv T c'"
proof -
  have p: "pc_stud (cr_pc c t) = Some s" using pc by simp
  obtain st where st: "cr_stud c s = Some st" "stud_ok T (cr_pc c) (cr_lst c) s st" by (rule student_of [OF inv T(2) p])
  obtain k where k: "ref_count_dec (st_ref_count st) = Some (k = 0, of_nat k)"
    "Suc k = (if s \<in> set (cr_lst c) then 1 else 0) + wsum T refs s (cr_pc c)" "wsum T owes s (cr_pc c) = 0"
    "wsum T sole s (cr_pc c) = 0"
    by (rule dec_step_facts [OF st(2) T p]) (use pc in simp_all)
  let ?st = "st\<lparr>st_ref_count := of_nat k\<rparr>" and ?pc = "if k = 0 then Crud_destroy s else Crud_idle"
  let ?f = "(cr_pc c)(t := ?pc)"
  have O: "rw_ok (st_rw_lock st) (wsum T stud_rd_holds s (cr_pc c)) (wsum T stud_wr_holds s (cr_pc c))"
    "wsum T inside s (cr_pc c) \<noteq> 0 \<Longrightarrow> s \<in> set (cr_lst c)" "wsum T outside s (cr_pc c) \<noteq> 0 \<Longrightarrow> s \<notin> set (cr_lst c)"
    using st(2) unfolding stud_ok_def by blast+
  have "stud_ok T ?f (cr_lst c) s ?st"
  proof (cases "k = 0")
    case True
    have "1 \<le> wsum T refs s (cr_pc c)" using move_to(2) [of T t "cr_pc c" s "Crud_done s" refs] T p pc by simp
    then have z: "s \<notin> set (cr_lst c)" "wsum T refs s (cr_pc c) = refs (cr_pc c t)"
      using k(2) True pc by (auto split: if_splits)
    have one: "wsum T (\<lambda>_. 1) s (cr_pc c) = 1" by (rule last_reference [OF st(2) T(1,2) p z k(4)])
    have W: "wsum T w s ?f + w (cr_pc c t) = wsum T w s (cr_pc c) + w (Crud_destroy s)" for w
      using move_to(1) [of T t "cr_pc c" s "Crud_destroy s" w] T p True by simp
    show ?thesis
      using True k z one O W [of owes] W [of refs] W [of stud_rd_holds] W [of stud_wr_holds] W [of inside] W [of "\<lambda>_. 1"] pc
      by (intro stud_okI [where k = 0]) simp_all
  next
    case False
    have W: "wsum T w s ?f + w (cr_pc c t) = wsum T w s (cr_pc c)" for w
      using move_off(1) [of T t "cr_pc c" s Crud_idle w] T p False by simp
    have "s \<in> set (cr_lst c) \<or> wsum T refs s ?f \<noteq> 0" using k(2) False W [of refs] pc by (auto split: if_splits)
    then have "s \<in> set (cr_lst c) \<or> wsum T (\<lambda>_. 1) s ?f \<noteq> 0" using refs_users [OF T(1)] by blast
    then show ?thesis
      using False k O W [of owes] W [of refs] W [of stud_rd_holds] W [of stud_wr_holds] W [of inside] W [of outside] W [of sole] pc
      by (intro stud_okI [where k = k]) simp_all
  qed
  then have "crud_inv T (to_pc t ?pc (put_student s ?st (c\<lparr>cr_lock := cr_lock c\<rparr>)))"
    using p pc same_list_lock [OF inv T(1,2), of ?pc] by (intro crud_inv_move [OF inv T(1,2) st(1)]) auto
  then show ?thesis using k(1) st(1) by (simp add: done_step_def with_student_def thread_using_object_done_def)
qed

lemma del_using_step:
  assumes inv: "crud_inv T c" and T: "finite T" "t \<in> T" "card T < 1073741824" and pc: "cr_pc c t = Del_using s"
  shows "\<exists>c'. delete_fn t c (cr_pc c t) = Crud_to c' \<and> crud_inv T c'"
proof -
  have p: "pc_stud (cr_pc c t) = Some s" using pc by simp
  obtain st where st: "cr_stud c s = Some st" "stud_ok T (cr_pc c) (cr_lst c) s st" by (rule student_of [OF inv T(2) p])
  obtain k where k: "ref_count_dec (st_ref_count st) = Some (k = 0, of_nat k)"
    "Suc k = (if s \<in> set (cr_lst c) then 1 else 0) + wsum T refs s (cr_pc c)" "wsum T owes s (cr_pc c) = 0"
    "wsum T sole s (cr_pc c) = 0"
    by (rule dec_step_facts [OF st(2) T p]) (use pc in simp_all)
  let ?st = "st\<lparr>st_ref_count := of_nat k\<rparr>" and ?f = "(cr_pc c)(t := Del_dropped s)"
  have W: "wsum T w s ?f + w (cr_pc c t) = wsum T w s (cr_pc c) + w (Del_dropped s)" "w (cr_pc c t) \<le> wsum T w s (cr_pc c)" for w
    using move_to [of T t "cr_pc c" s "Del_dropped s" w] T p by simp_all
  have "k \<noteq> 0" using k(2) W(2) [of refs] pc by (auto split: if_splits)
  have O: "rw_ok (st_rw_lock st) (wsum T stud_rd_holds s (cr_pc c)) (wsum T stud_wr_holds s (cr_pc c))"
    "wsum T inside s (cr_pc c) \<noteq> 0 \<Longrightarrow> s \<in> set (cr_lst c)" "wsum T outside s (cr_pc c) \<noteq> 0 \<Longrightarrow> s \<notin> set (cr_lst c)"
    "s \<in> set (cr_lst c) \<or> wsum T (\<lambda>_. 1) s (cr_pc c) \<noteq> 0"
    using st(2) unfolding stud_ok_def by blast+
  have "stud_ok T ?f (cr_lst c) s ?st"
    using k O W(1) [of owes] W(1) [of refs] W(1) [of stud_rd_holds] W(1) [of stud_wr_holds] W(1) [of inside] W(1) [of outside]
      W(1) [of sole] W(1) [of "\<lambda>_. 1"] pc
    by (intro stud_okI [where k = k]) simp_all
  then have "crud_inv T (to_pc t (Del_dropped s) (put_student s ?st (c\<lparr>cr_lock := cr_lock c\<rparr>)))"
    using p pc same_list_lock [OF inv T(1,2), of "Del_dropped s"] by (intro crud_inv_move [OF inv T(1,2) st(1)]) auto
  then show ?thesis using k(1) st(1) pc \<open>k \<noteq> 0\<close> by (simp add: delete_fn_def with_student_def)
qed

lemma cre_inserted_step:
  assumes inv: "crud_inv T c" and T: "finite T" "t \<in> T" and pc: "cr_pc c t = Cre_inserted s"
  shows "\<exists>c'. create_fn t c (cr_pc c t) = Crud_to c' \<and> crud_inv T c'"
proof -
  have p: "pc_stud (cr_pc c t) = Some s" using pc by simp
  obtain st where st: "cr_stud c s = Some st" "stud_ok T (cr_pc c) (cr_lst c) s st" by (rule student_of [OF inv T(2) p])
  let ?st = "st\<lparr>st_ref_count := ref_count_inc (st_ref_count st)\<rparr>" and ?f = "(cr_pc c)(t := Cre_counted)"
  have W: "wsum T w s ?f + w (cr_pc c t) = wsum T w s (cr_pc c)" "w (cr_pc c t) \<le> wsum T w s (cr_pc c)" for w
    using move_off [of T t "cr_pc c" s Cre_counted w] T p by simp_all
  obtain k where k: "st_ref_count st = of_nat k" "k + wsum T owes s (cr_pc c) = (if s \<in> set (cr_lst c) then 1 else 0) + wsum T refs s (cr_pc c)"
    using st(2) by (auto simp: stud_ok_def)
  have "wsum T sole s (cr_pc c) \<noteq> 0" "wsum T inside s (cr_pc c) \<noteq> 0" using W(2) [of sole] W(2) [of inside] pc by simp_all
  then have O: "rw_ok (st_rw_lock st) (wsum T stud_rd_holds s (cr_pc c)) (wsum T stud_wr_holds s (cr_pc c))"
    "wsum T (\<lambda>_. 1) s (cr_pc c) = 1" "s \<in> set (cr_lst c)"
    "wsum T outside s (cr_pc c) = 0"
    using st(2) unfolding stud_ok_def by blast+
  then have none: "wsum T (\<lambda>_. 1) s ?f = 0" using W(1) [of "\<lambda>_. 1"] by simp
  then have "wsum T sole s ?f = 0" using wsum_eq_0 [OF T(1)] by auto
  then have "stud_ok T ?f (cr_lst c) s ?st"
    using k O W(1) [of owes] W(1) [of refs] W(1) [of stud_rd_holds] W(1) [of stud_wr_holds] W(1) [of inside] W(1) [of outside] pc
    by (intro stud_okI [where k = "Suc k"]) (simp_all add: ref_count_inc_def)
  then have "crud_inv T (to_pc t Cre_counted (put_student s ?st (c\<lparr>cr_lock := cr_lock c\<rparr>)))"
    using p pc same_list_lock [OF inv T, of Cre_counted] by (intro crud_inv_move [OF inv T st(1)]) auto
  then show ?thesis using st(1) pc by (simp add: create_fn_def with_student_def)
qed

lemma destroy_step_inv:
  assumes inv: "crud_inv T c" and T: "finite T" "t \<in> T" "card T < 1073741824" and pc: "cr_pc c t = Crud_destroy s"
  shows "\<exists>c'. destroy_step t c s = Crud_to c' \<and> crud_inv T c'"
proof -
  note D = crud_invD [OF inv]
  have p: "pc_stud (cr_pc c t) = Some s" using pc by simp
  obtain st where st: "cr_stud c s = Some st" "stud_ok T (cr_pc c) (cr_lst c) s st" by (rule student_of [OF inv T(2) p])
  have W: "w (cr_pc c t) \<le> wsum T w s (cr_pc c)" for w
    using move_to(2) [of T t "cr_pc c" s "Crud_destroy s" w] T p by simp
  have "wsum T sole s (cr_pc c) \<noteq> 0" "wsum T outside s (cr_pc c) \<noteq> 0" using W [of sole] W [of outside] pc by simp_all
  then have O: "rw_ok (st_rw_lock st) (wsum T stud_rd_holds s (cr_pc c)) (wsum T stud_wr_holds s (cr_pc c))"
    "wsum T (\<lambda>_. 1) s (cr_pc c) = 1" "s \<notin> set (cr_lst c)"
    using st(2) unfolding stud_ok_def by blast+
  have alone: "u = t" if "u \<in> T" "pc_stud (cr_pc c u) = Some s" for u
    using wsum_one_unique [OF T(1) O(2) that(1) that(2) T(2) p] .
  have z: "wsum T w s (cr_pc c) = 0" if "w (Crud_destroy s) = 0" for w
    by (rule wsum_zero) (use alone that pc in auto)
  obtain k where k: "k + wsum T owes s (cr_pc c) = (if s \<in> set (cr_lst c) then 1 else 0) + wsum T refs s (cr_pc c)"
    "st_ref_count st = 0 \<longleftrightarrow> k = 0"
    by (rule stud_okD [OF st(2) T(1,3)])
  have ref: "st_ref_count st = 0" using k z [of owes] z [of refs] O(3) by simp
  have lock: "st_rw_lock st = Rd_held 0" using O(1) z [of stud_rd_holds] z [of stud_wr_holds] by (cases "st_rw_lock st") auto
  let ?c = "to_pc t Crud_idle (c\<lparr>cr_stud := (cr_stud c)(s := None)\<rparr>)"
  have r: "roll ?c x = roll c x" if "x \<noteq> s" for x using that by (simp add: roll_def)
  have ne: "x \<noteq> s" if "x \<in> set (cr_lst c)" for x using that O(3) by auto
  have "crud_inv T ?c"
  proof (rule crud_inv_step [OF inv T(1,2), of _ Crud_idle s])
    show "distinct (map (roll ?c) (cr_lst ?c))"
    proof -
      have "map (roll ?c) (cr_lst c) = map (roll c) (cr_lst c)" by (rule map_cong [OF refl r [OF ne]])
      moreover have "cr_lst ?c = cr_lst c" by simp
      ultimately show ?thesis using D(2) by metis
    qed
    show "roll ?c x \<notin> roll ?c ` set (cr_lst ?c)" if "u \<in> T" "cr_pc ?c u = Cre_new x" for u x
    proof -
      have u: "u \<noteq> t" "cr_pc c u = Cre_new x" using that(2) by (auto split: if_splits)
      then have "x \<noteq> s" using alone [of u] that(1) by auto
      moreover have "roll ?c ` set (cr_lst c) = roll c ` set (cr_lst c)" by (rule image_cong [OF refl r [OF ne]])
      ultimately show ?thesis using D(6) [OF that(1) u(2)] r by simp
    qed
    show "s \<notin> set (cr_lst ?c) \<and> (\<forall>u\<in>T. pc_stud (cr_pc ?c u) \<noteq> Some s)" using O(3) alone by auto
  qed (use pc same_list_lock [OF inv T(1,2), of Crud_idle] in auto)
  then show ?thesis using st(1) ref lock
    by (simp add: destroy_step_def student_destroy_def ref_count_destroy_def)
qed

end
