(* ===== verification/CrudSpec.thy ===== *)
theory CrudSpec
  imports CrudInvariant
begin

text \<open>
  The remaining steps of the container of \<^verbatim>\<open>CRUD/\<close> (look-up, creation, removal), the preservation of
  its invariant in every execution, and its properties.
\<close>

lemma list_exclusive:
  assumes inv: "crud_inv T c" and T: "finite T" "t \<in> T" "u \<in> T" "t \<noteq> u" and wr: "list_wr (cr_pc c u) \<noteq> 0"
  shows "list_rd (cr_pc c t) = 0" "list_wr (cr_pc c t) = 0"
proof -
  note ok = crud_invD(1) [OF inv]
  have "list_wr (cr_pc c u) \<le> sum_threads T list_wr (cr_pc c)" "list_rd (cr_pc c t) \<le> sum_threads T list_rd (cr_pc c)"
    by (rule sum_threads_ge [OF T(1,3)], rule sum_threads_ge [OF T(1,2)])
  then have s: "sum_threads T list_wr (cr_pc c) = 1" "list_rd (cr_pc c t) = 0"
    using ok wr by (cases "cr_lock c"; simp)+
  have "(\<Sum>x\<in>{t, u}. list_wr (cr_pc c x)) \<le> (\<Sum>x\<in>T. list_wr (cr_pc c x))"
    using T by (intro sum_mono2) auto
  then show "list_wr (cr_pc c t) = 0" using s(1) wr T(4) by (simp add: sum_threads_def)
  show "list_rd (cr_pc c t) = 0" by (rule s(2))
qed

lemma only_user:
  assumes T: "finite T" "t \<in> T" "pc_stud (f t) = Some s" and one: "wsum T (\<lambda>_. 1) s f = 1"
  shows "wsum T w s f = w (f t)"
proof -
  have "at_stud w s (f u) = 0" if "u \<in> T - {t}" for u
    using wsum_one_unique [OF T(1) one _ _ T(2,3), of u] that by (auto simp: at_stud_def)
  then have "(\<Sum>u\<in>T - {t}. at_stud w s (f u)) = 0" by (intro sum.neutral) blast
  then show ?thesis using T sum.remove [of T t "\<lambda>x. at_stud w s (f x)"]
    by (simp add: wsum_def sum_threads_def at_stud_def)
qed

lemma join:
  assumes "finite T" "t \<in> T" "pc_stud (f t) = None" "pc_stud pc = Some s"
  shows "wsum T w s (f(t := pc)) = wsum T w s f + w pc"
  using wsum_upd [OF assms(1,2), of w s f pc] assms(3,4) by (simp add: at_stud_def)

section \<open>The look-up\<close>

lemma student_find_total:
  assumes "\<And>s. s \<in> set ss \<Longrightarrow> studs s \<noteq> None \<and> s \<noteq> 0"
  shows "\<exists>s. student_find studs r ss = Some s \<and>
    (if s = 0 then Some r \<notin> (map_option st_roll_no \<circ> studs) ` set ss
     else s \<in> set ss \<and> map_option st_roll_no (studs s) = Some r)"
  using assms
proof (induction ss)
  case (Cons x xs)
  then obtain s where s: "student_find studs r xs = Some s"
    "if s = 0 then Some r \<notin> (map_option st_roll_no \<circ> studs) ` set xs
     else s \<in> set xs \<and> map_option st_roll_no (studs s) = Some r" by auto
  obtain st where st: "studs x = Some st" "x \<noteq> 0" using Cons.prems [of x] by auto
  show ?case
  proof (cases "st_roll_no st = r")
    case True
    then show ?thesis using st by simp
  next
    case False
    then show ?thesis using st s by (cases "s = 0") auto
  qed
qed simp

lemma lookup_total:
  assumes inv: "crud_inv T c"
  obtains s where "student_lst_lookup r c = Some s"
    "if s = 0 then Some r \<notin> roll c ` set (cr_lst c) else s \<in> set (cr_lst c) \<and> roll c s = Some r"
proof -
  have "cr_stud c s \<noteq> None \<and> s \<noteq> 0" if "s \<in> set (cr_lst c)" for s
    using crud_invD(4) [OF inv that] crud_invD(7) [OF inv, of s] by auto
  note find = student_find_total [of "cr_lst c" "cr_stud c" r, OF this]
  have roll_eq: "roll c = map_option st_roll_no \<circ> cr_stud c" by (simp add: fun_eq_iff roll_def)
  from find
  have "\<exists>s. student_find (cr_stud c) r (cr_lst c) = Some s \<and>
    (if s = 0 then Some r \<notin> roll c ` set (cr_lst c) else s \<in> set (cr_lst c) \<and> roll c s = Some r)"
    unfolding roll_eq comp_apply .
  with that show thesis unfolding student_lst_lookup_def by blast
qed

lemma leave_list:
  assumes "crud_inv T c" "finite T" "t \<in> T" "pc_stud (cr_pc c t) = None" "list_rd (cr_pc c t) + list_wr (cr_pc c t) = 1"
  shows "crud_inv T (to_pc t Crud_idle (unlock_list c))"
  unfolding unlock_list_def using assms unlock_list_ok [OF assms(1,2,3,5), of Crud_idle] by (intro crud_inv_pc) auto

text \<open>A student of the list that another thread finds while it holds the list is not in creation.\<close>

lemma found_not_sole:
  assumes inv: "crud_inv T c" and T: "finite T" "t \<in> T" and lst: "s \<in> set (cr_lst c)" and st: "cr_stud c s = Some st"
    and held: "list_rd (cr_pc c t) + list_wr (cr_pc c t) = 1" and pc: "pc_stud (cr_pc c t) = None"
  shows "wsum T sole s (cr_pc c) = 0"
proof (rule wsum_zero)
  fix u assume u: "u \<in> T" "pc_stud (cr_pc c u) = Some s"
  have ut: "t \<noteq> u" using u pc by auto
  have "wsum T outside s (cr_pc c) = 0" using crud_invD(8) [OF inv st] lst by (auto simp: stud_ok_def)
  then have "outside (cr_pc c u) = 0" using wsum_eq_0 [OF T(1)] u by auto
  moreover have "list_wr (cr_pc c u) = 0" using list_exclusive [OF inv T u(1) ut] held by (cases "list_wr (cr_pc c u) = 0") simp_all
  ultimately show "sole (cr_pc c u) = 0" by (cases "cr_pc c u") simp_all
qed

lemma acc_looking_step:
  assumes inv: "crud_inv T c" and T: "finite T" "t \<in> T" and pc: "cr_pc c t = Acc_looking a r"
  shows "\<exists>c'. access_step a t c (cr_pc c t) = Crud_to c' \<and> crud_inv T c'"
proof -
  note D = crud_invD [OF inv]
  obtain s where s: "student_lst_lookup r c = Some s"
    "if s = 0 then Some r \<notin> roll c ` set (cr_lst c) else s \<in> set (cr_lst c) \<and> roll c s = Some r"
    by (rule lookup_total [OF inv])
  show ?thesis
  proof (cases "s = 0")
    case True
    then show ?thesis using leave_list [OF inv T] s pc by (simp add: access_step_def)
  next
    case False
    then have lst: "s \<in> set (cr_lst c)" using s(2) by simp
    obtain st where st: "cr_stud c s = Some st" using D(4) [OF lst] by auto
    have J: "wsum T w s ((cr_pc c)(t := Acc_found a s)) = wsum T w s (cr_pc c) + w (Acc_found a s)" for w
      using join [of T t "cr_pc c" "Acc_found a s" s w] T pc by simp
    have z: "wsum T sole s (cr_pc c) = 0" using pc by (intro found_not_sole [OF inv T lst st]) simp_all
    let ?c = "to_pc t (Acc_found a s) c"
    have r: "roll ?c = roll c" by (auto simp: roll_def)
    have ok: "stud_ok T ((cr_pc c)(t := Acc_found a s)) (cr_lst c) s st"
      using D(8) [OF st] z lst unfolding stud_ok_def J by simp
    have "crud_inv T ?c"
    proof (rule crud_inv_step [OF inv T, of _ "Acc_found a s" s])
      show "roll ?c x \<notin> roll ?c ` set (cr_lst ?c)" if "u \<in> T" "cr_pc ?c u = Cre_new x" for u x
        using that D(6) [of u x] unfolding r by (auto split: if_splits)
    qed (use ok st D(2) D(7) [OF st] pc same_list_lock [OF inv T, of "Acc_found a s"] in \<open>auto simp: r\<close>)
    then show ?thesis using s(1) False pc by (simp add: access_step_def)
  qed
qed

lemma fresh_student:
  assumes inv: "crud_inv T c"
  shows "cr_stud c (cr_brk c) = None" "cr_brk c \<notin> set (cr_lst c)" "u \<in> T \<Longrightarrow> pc_stud (cr_pc c u) \<noteq> Some (cr_brk c)"
proof -
  show n: "cr_stud c (cr_brk c) = None"
    using crud_invD(7) [OF inv, of "cr_brk c"] by (cases "cr_stud c (cr_brk c)") auto
  show "cr_brk c \<notin> set (cr_lst c)" using crud_invD(4) [OF inv, of "cr_brk c"] n by blast
  show "pc_stud (cr_pc c u) \<noteq> Some (cr_brk c)" if "u \<in> T" using crud_invD(5) [OF inv that] n by blast
qed

lemma cre_looking_step:
  assumes inv: "crud_inv T c" and T: "finite T" "t \<in> T" and pc: "cr_pc c t = Cre_looking r"
  shows "\<exists>c'. create_fn t c (cr_pc c t) = Crud_to c' \<and> crud_inv T c'"
proof -
  note D = crud_invD [OF inv] and F = fresh_student [OF inv]
  obtain s where s: "student_lst_lookup r c = Some s"
    "if s = 0 then Some r \<notin> roll c ` set (cr_lst c) else s \<in> set (cr_lst c) \<and> roll c s = Some r"
    by (rule lookup_total [OF inv])
  show ?thesis
  proof (cases "s = 0")
    case False
    then show ?thesis using leave_list [OF inv T] s(1) pc by (simp add: create_fn_def)
  next
    case True
    let ?n = "cr_brk c"
    let ?c = "to_pc t (Cre_new ?n) (snd (student_malloc r c))"
    have z: "wsum T w ?n (cr_pc c) = 0" for w by (rule wsum_zero) (use F(3) in blast)
    have J: "wsum T w ?n ((cr_pc c)(t := Cre_new ?n)) = w (Cre_new ?n)" for w
      using join [of T t "cr_pc c" "Cre_new ?n" ?n w] T pc z [of w] by simp
    have r: "roll ?c x = roll c x" if "x \<noteq> ?n" for x using that by (simp add: roll_def student_malloc_def)
    have rn: "roll ?c ?n = Some r" by (simp add: roll_def student_malloc_def)
    have ne: "x \<noteq> ?n" if "x \<in> set (cr_lst c)" for x using that F(2) by blast
    have m: "map (roll ?c) (cr_lst c) = map (roll c) (cr_lst c)" by (rule map_cong [OF refl r [OF ne]])
    have i: "roll ?c ` set (cr_lst c) = roll c ` set (cr_lst c)" by (rule image_cong [OF refl r [OF ne]])
    have l: "cr_lst ?c = cr_lst c" by (simp add: student_malloc_def)
    have p: "cr_pc ?c = (cr_pc c)(t := Cre_new ?n)" by (simp add: student_malloc_def)
    have b: "cr_brk ?c = Suc ?n" by (simp add: student_malloc_def)
    have "crud_inv T ?c"
    proof (rule crud_inv_step [OF inv T p, of ?n])
      show "distinct (map (roll ?c) (cr_lst ?c))" unfolding l m by (rule D(2))
      show "roll ?c x \<notin> roll ?c ` set (cr_lst ?c)" if "u \<in> T" "cr_pc ?c u = Cre_new x" for u x
      proof (cases "u = t")
        case True
        then have "x = ?n" using that(2) by simp
        then show ?thesis unfolding l i using rn s(2) \<open>s = 0\<close> by simp
      next
        case False
        then have u: "cr_pc c u = Cre_new x" using that(2) by (simp add: student_malloc_def)
        then have "x \<noteq> ?n" using F(3) [OF that(1)] by auto
        then show ?thesis unfolding l i using D(6) [OF that(1) u] r by simp
      qed
      show "0 < ?n \<and> ?n < cr_brk ?c \<and> stud_ok T (cr_pc ?c) (cr_lst ?c) ?n st" if st: "cr_stud ?c ?n = Some st" for st
      proof (intro conjI)
        show "0 < ?n" by (rule D(9))
        show "?n < cr_brk ?c" using b by simp
        show "stud_ok T (cr_pc ?c) (cr_lst ?c) ?n st"
          unfolding l p using st F(2)
          by (intro stud_okI [where k = 0]) (auto simp: J student_malloc_def ref_count_init_def)
      qed
    qed (use pc b l p same_list_lock [OF inv T, of "Cre_new ?n"] in \<open>auto simp: student_malloc_def\<close>)
    then show ?thesis using s(1) True pc by (simp add: create_fn_def student_malloc_def)
  qed
qed

lemma cre_new_step:
  assumes inv: "crud_inv T c" and T: "finite T" "t \<in> T" and pc: "cr_pc c t = Cre_new s"
  shows "\<exists>c'. create_fn t c (cr_pc c t) = Crud_to c' \<and> crud_inv T c'"
proof -
  note D = crud_invD [OF inv]
  have ps: "pc_stud (cr_pc c t) = Some s" using pc by simp
  obtain st where st: "cr_stud c s = Some st" "stud_ok T (cr_pc c) (cr_lst c) s st" by (rule student_of [OF inv T(2) ps])
  have new: "roll c s \<notin> roll c ` set (cr_lst c)" by (rule D(6) [OF T(2) pc])
  have rs: "roll c s = Some (st_roll_no st)" using st(1) by (simp add: roll_def)
  obtain x where x: "student_lst_lookup (st_roll_no st) c = Some x"
    "if x = 0 then Some (st_roll_no st) \<notin> roll c ` set (cr_lst c) else x \<in> set (cr_lst c) \<and> roll c x = Some (st_roll_no st)"
    by (rule lookup_total [OF inv])
  have "x = 0"
  proof (rule ccontr)
    assume "x \<noteq> 0"
    then have "x \<in> set (cr_lst c)" "roll c x = roll c s" using x(2) rs by simp_all
    then show False using new by (metis imageI)
  qed
  have nl: "s \<notin> set (cr_lst c)" using new by blast
  let ?c = "to_pc t (Cre_inserted s) (c\<lparr>cr_lst := s # cr_lst c\<rparr>)" and ?f = "(cr_pc c)(t := Cre_inserted s)"
  have ins: "student_lst_insert s c = Some (True, c\<lparr>cr_lst := s # cr_lst c\<rparr>)"
    using st(1) x(1) \<open>x = 0\<close> nl by (simp add: student_lst_insert_def)
  have W: "wsum T w s ?f + w (cr_pc c t) = wsum T w s (cr_pc c) + w (Cre_inserted s)" "w (cr_pc c t) \<le> wsum T w s (cr_pc c)" for w
    using move_to [of T t "cr_pc c" s "Cre_inserted s" w] T ps by simp_all
  have "wsum T sole s (cr_pc c) \<noteq> 0" using W(2) [of sole] pc by simp
  then have one: "wsum T (\<lambda>_. 1) s (cr_pc c) = 1" using st(2) unfolding stud_ok_def by blast
  have z: "wsum T w s ?f = w (Cre_inserted s)" for w
    using W(1) [of w] only_user [OF T ps one, of w] by simp
  obtain k where k: "st_ref_count st = of_nat k" "k + wsum T owes s (cr_pc c) = (if s \<in> set (cr_lst c) then 1 else 0) + wsum T refs s (cr_pc c)"
    using st(2) by (auto simp: stud_ok_def)
  have k0: "k = 0" using k(2) nl only_user [OF T ps one, of owes] only_user [OF T ps one, of refs] pc by simp
  have rw: "rw_ok (st_rw_lock st) 0 0"
    using st(2) only_user [OF T ps one, of stud_rd_holds] only_user [OF T ps one, of stud_wr_holds] pc by (simp add: stud_ok_def)
  have ok: "stud_ok T ?f (s # cr_lst c) s st"
    using k(1) k0 rw by (intro stud_okI [where k = 0]) (auto simp: z)
  have r: "roll ?c = roll c" by (auto simp: roll_def)
  have "crud_inv T ?c"
  proof (rule crud_inv_step [OF inv T, of _ "Cre_inserted s" s])
    show "distinct (map (roll ?c) (cr_lst ?c))" using D(2) new unfolding r by simp
    show "roll ?c x \<notin> roll ?c ` set (cr_lst ?c)" if "u \<in> T" "cr_pc ?c u = Cre_new x" for u x
      using that list_exclusive(2) [OF inv T that(1)] pc by (cases "u = t") auto
  qed (use ok st D(7) [OF st(1)] pc same_list_lock [OF inv T, of "Cre_inserted s"] in auto)
  then show ?thesis using ins pc by (simp add: create_fn_def)
qed

lemma del_looking_step:
  assumes inv: "crud_inv T c" and T: "finite T" "t \<in> T" and pc: "cr_pc c t = Del_looking r"
  shows "\<exists>c'. delete_fn t c (cr_pc c t) = Crud_to c' \<and> crud_inv T c'"
proof -
  note D = crud_invD [OF inv]
  obtain s where s: "student_lst_lookup r c = Some s"
    "if s = 0 then Some r \<notin> roll c ` set (cr_lst c) else s \<in> set (cr_lst c) \<and> roll c s = Some r"
    by (rule lookup_total [OF inv])
  show ?thesis
  proof (cases "s = 0")
    case True
    then show ?thesis using leave_list [OF inv T] s(1) pc by (simp add: delete_fn_def student_lst_remove_def)
  next
    case False
    then have lst: "s \<in> set (cr_lst c)" using s(2) by simp
    obtain st where st: "cr_stud c s = Some st" using D(4) [OF lst] by auto
    let ?f = "(cr_pc c)(t := Del_removed s)" and ?l = "remove1 s (cr_lst c)"
    let ?c = "to_pc t (Del_removed s) (c\<lparr>cr_lst := ?l\<rparr>)"
    have set_l: "set ?l = set (cr_lst c) - {s}" using D(3) by (simp add: set_remove1_eq)
    have J: "wsum T w s ?f = wsum T w s (cr_pc c) + w (Del_removed s)" for w
      using join [of T t "cr_pc c" "Del_removed s" s w] T pc by simp
    have z: "wsum T sole s (cr_pc c) = 0" using pc by (intro found_not_sole [OF inv T lst st]) simp_all
    have zi: "wsum T inside s (cr_pc c) = 0"
    proof (rule wsum_zero)
      fix u assume u: "u \<in> T" "pc_stud (cr_pc c u) = Some s"
      then have "u \<noteq> t" using pc by auto
      then have "list_rd (cr_pc c u) = 0" "list_wr (cr_pc c u) = 0"
        using list_exclusive [OF inv T(1) u(1) T(2)] pc by simp_all
      then show "inside (cr_pc c u) = 0" by (cases "cr_pc c u") simp_all
    qed
    have ok: "stud_ok T ?f ?l s st"
    proof -
      have O: "rw_ok (st_rw_lock st) (wsum T stud_rd_holds s (cr_pc c)) (wsum T stud_wr_holds s (cr_pc c))"
        using D(8) [OF st] by (simp add: stud_ok_def)
      obtain k where k: "st_ref_count st = of_nat k" "k + wsum T owes s (cr_pc c) = Suc (wsum T refs s (cr_pc c))"
        using D(8) [OF st] lst by (auto simp: stud_ok_def)
      show ?thesis using k O z zi set_l by (intro stud_okI [where k = k]) (simp_all add: J)
    qed
    have r: "roll ?c = roll c" by (auto simp: roll_def)
    have "crud_inv T ?c"
    proof (rule crud_inv_step [OF inv T, of _ "Del_removed s" s])
      have "inj_on (roll c) (set ?l)" using D(2) set_l by (auto simp: distinct_map inj_on_def)
      then show "distinct (map (roll ?c) (cr_lst ?c))" using D(3) unfolding r by (simp add: distinct_map)
      show "roll ?c x \<notin> roll ?c ` set (cr_lst ?c)" if "u \<in> T" "cr_pc ?c u = Cre_new x" for u x
        using that list_exclusive(2) [OF inv T that(1)] pc by (cases "u = t") auto
    qed (use ok st D(7) [OF st] pc set_l same_list_lock [OF inv T, of "Del_removed s"] in auto)
    then show ?thesis using s(1) False pc by (simp add: delete_fn_def student_lst_remove_def)
  qed
qed

section \<open>All steps\<close>

lemma take_list:
  assumes inv: "crud_inv T c" and T: "finite T" "t \<in> T" and pc: "cr_pc c t = Crud_idle"
    and l: "rw_acquire a (cr_lock c) = Some l" and pc': "pc_stud pc = None"
    "list_rd pc = (if a = Read_access then 1 else 0)" "list_wr pc = (if a = Read_access then 0 else 1)"
  shows "crud_inv T (to_pc t pc (c\<lparr>cr_lock := l\<rparr>))"
proof (rule crud_inv_pc [OF inv T])
  show "rw_ok l (sum_threads T list_rd ((cr_pc c)(t := pc))) (sum_threads T list_wr ((cr_pc c)(t := pc)))"
    using crud_invD(1) [OF inv] list_lock_facts(1) [OF T, of list_rd "cr_pc c" pc] list_lock_facts(1) [OF T, of list_wr "cr_pc c" pc]
      l pc' pc by (cases a; cases "cr_lock c") (auto split: if_splits)
qed (use pc pc' in simp_all)

lemma start_round_inv:
  assumes inv: "crud_inv T c" and T: "finite T" "t \<in> T" and pc: "cr_pc c t = Crud_idle"
    and pc': "\<And>r. pc_stud (pc r) = None"
    "\<And>r. list_rd (pc r) = (if a = Read_access then 1 else 0)" "\<And>r. list_wr (pc r) = (if a = Read_access then 0 else 1)"
  shows "start_round a pc rnd t c = Crud_wait \<or> (\<exists>c'. start_round a pc rnd t c = Crud_to c' \<and> crud_inv T c')"
  using take_list [OF inv T pc _ pc'] by (auto simp: start_round_def split: option.splits)

lemma cre_counted_step:
  assumes inv: "crud_inv T c" and T: "finite T" "t \<in> T" and pc: "cr_pc c t = Cre_counted"
  shows "\<exists>c'. create_fn t c (cr_pc c t) = Crud_to c' \<and> crud_inv T c'"
  using leave_list [OF inv T] pc by (simp add: create_fn_def)

lemma crud_next_inv:
  assumes inv: "crud_inv T c" and T: "finite T" "t \<in> T" "card T < 1073741824"
  shows "crud_next r rnd t c = Crud_wait \<or> (\<exists>c'. crud_next r rnd t c = Crud_to c' \<and> crud_inv T c')"
proof (cases "cr_pc c t")
  case Crud_idle
  have "start_round Read_access (Acc_looking a) rnd t c = Crud_wait \<or>
      (\<exists>c'. start_round Read_access (Acc_looking a) rnd t c = Crud_to c' \<and> crud_inv T c')" for a
    by (rule start_round_inv [OF inv T(1,2) Crud_idle]) simp_all
  moreover have "start_round Write_access Cre_looking rnd t c = Crud_wait \<or>
      (\<exists>c'. start_round Write_access Cre_looking rnd t c = Crud_to c' \<and> crud_inv T c')"
    by (rule start_round_inv [OF inv T(1,2) Crud_idle]) simp_all
  moreover have "start_round Write_access Del_looking rnd t c = Crud_wait \<or>
      (\<exists>c'. start_round Write_access Del_looking rnd t c = Crud_to c' \<and> crud_inv T c')"
    by (rule start_round_inv [OF inv T(1,2) Crud_idle]) simp_all
  ultimately show ?thesis using Crud_idle unfolding crud_next_def by (cases r) simp_all
next
  case (Acc_looking a x)
  then show ?thesis using acc_looking_step [OF inv T(1,2) Acc_looking] by (simp add: crud_next_def)
next
  case (Acc_found a x)
  then show ?thesis using acc_found_step [OF inv T(1,2) Acc_found] by (simp add: crud_next_def)
next
  case (Acc_using a x)
  then show ?thesis using acc_using_step [OF inv T(1,2) Acc_using] by (simp add: crud_next_def)
next
  case (Acc_locked a x)
  then show ?thesis using acc_locked_step [OF inv T(1,2) Acc_locked] by (simp add: crud_next_def)
next
  case (Acc_working a x)
  then show ?thesis using acc_working_step [OF inv T(1,2) Acc_working] by (simp add: crud_next_def)
next
  case (Acc_worked a x)
  then show ?thesis using acc_worked_step [OF inv T(1,2) Acc_worked] by (simp add: crud_next_def)
next
  case (Crud_done x)
  then show ?thesis using done_step_inv [OF inv T Crud_done] by (simp add: crud_next_def)
next
  case (Crud_destroy x)
  then show ?thesis using destroy_step_inv [OF inv T Crud_destroy] by (simp add: crud_next_def)
next
  case (Cre_looking x)
  then show ?thesis using cre_looking_step [OF inv T(1,2) Cre_looking] by (simp add: crud_next_def)
next
  case (Cre_new x)
  then show ?thesis using cre_new_step [OF inv T(1,2) Cre_new] by (simp add: crud_next_def)
next
  case (Cre_inserted x)
  then show ?thesis using cre_inserted_step [OF inv T(1,2) Cre_inserted] by (simp add: crud_next_def)
next
  case Cre_counted
  then show ?thesis using cre_counted_step [OF inv T(1,2) Cre_counted] by (simp add: crud_next_def)
next
  case (Del_looking x)
  then show ?thesis using del_looking_step [OF inv T(1,2) Del_looking] by (simp add: crud_next_def)
next
  case (Del_removed x)
  then show ?thesis using del_removed_step [OF inv T(1,2) Del_removed] by (simp add: crud_next_def)
next
  case (Del_using x)
  then show ?thesis using del_using_step [OF inv T Del_using] by (simp add: crud_next_def)
next
  case (Del_dropped x)
  then show ?thesis using del_dropped_step [OF inv T(1,2) Del_dropped] by (simp add: crud_next_def)
qed

lemma crud_main_inv: "crud_inv T crud_main"
  by (simp add: crud_inv_def crud_main_def sum_threads_zero)

lemma crud_reach_inv:
  assumes "crud_reach T role c" "finite T" "card T < 1073741824"
  shows "crud_inv T c"
  using assms(1)
proof induction
  case (step c t rnd c')
  then show ?case using crud_next_inv [OF step.IH assms(2) step.hyps(2) assms(3), of "role t" rnd] by auto
qed (rule crud_main_inv)

text \<open>A step moves one thread, and a creating thread takes no part in reading, updating or deleting.\<close>

fun creating :: "crud_pc \<Rightarrow> bool" where
  "creating Crud_idle = True" | "creating (Cre_looking r) = True" | "creating (Cre_new s) = True"
| "creating (Cre_inserted s) = True" | "creating Cre_counted = True" | "creating _ = False"

lemma crud_next_moves:
  assumes "crud_next r rnd t c = Crud_to c'"
  shows "\<exists>pc. cr_pc c' = (cr_pc c)(t := pc) \<and> (r = Create_th \<longrightarrow> creating (cr_pc c t) \<longrightarrow> creating pc)"
  using assms
  by (cases "cr_pc c t"; cases r)
    (auto simp: crud_next_def start_round_def access_step_def create_fn_def delete_fn_def done_step_def destroy_step_def
      with_student_def unlock_list_def student_malloc_def student_lst_insert_def student_lst_remove_def student_destroy_def
      split: option.splits if_splits prod.splits)

lemma creator_pc:
  assumes "crud_reach T role c" "role u = Create_th"
  shows "creating (cr_pc c u)"
  using assms(1)
proof induction
  case (step c t rnd c')
  then show ?case using crud_next_moves [OF step.hyps(3)] assms(2) by (cases "u = t") auto
qed (simp add: crud_main_def)

fun twice :: "crud_pc \<Rightarrow> nat" where
  "twice (Del_using s) = 1" | "twice _ = 0"

lemma twice_le: "twice pc \<le> list_wr pc" "twice pc \<le> outside pc"
  by (cases pc; simp)+

lemma twice_bound:
  assumes inv: "crud_inv T c" and T: "finite T" and st: "cr_stud c s = Some st"
  shows "(if s \<in> set (cr_lst c) then 1 else 0) + wsum T twice s (cr_pc c) \<le> 1"
proof -
  have "wsum T twice s (cr_pc c) \<le> sum_threads T list_wr (cr_pc c)"
    unfolding wsum_def sum_threads_def at_stud_def
    by (intro sum_mono) (simp add: twice_le)
  also have "\<dots> \<le> 1" using crud_invD(1) [OF inv] by (cases "cr_lock c") simp_all
  finally have "wsum T twice s (cr_pc c) \<le> 1" .
  moreover have "wsum T twice s (cr_pc c) = 0" if "s \<in> set (cr_lst c)"
  proof -
    have "wsum T twice s (cr_pc c) \<le> wsum T outside s (cr_pc c)" by (rule count_le [OF T twice_le(2)])
    then show ?thesis using crud_invD(8) [OF inv st] that by (auto simp: stud_ok_def)
  qed
  ultimately show ?thesis by auto
qed

lemma refs_le_roles:
  assumes "finite T" "\<And>u. role u = Create_th \<Longrightarrow> creating (f u)"
  shows "wsum T refs s f \<le> card {u \<in> T. role u \<noteq> Create_th} + wsum T twice s f"
proof -
  have "at_stud refs s (f u) \<le> (if role u \<noteq> Create_th then 1 else 0) + at_stud twice s (f u)" for u
    using assms(2) [of u] by (cases "f u") (auto simp: at_stud_def)
  then have "wsum T refs s f \<le> (\<Sum>u\<in>T. (if role u \<noteq> Create_th then 1 else 0) + at_stud twice s (f u))"
    unfolding wsum_def sum_threads_def by (intro sum_mono) blast
  also have "\<dots> = card {u \<in> T. role u \<noteq> Create_th} + wsum T twice s f"
    using assms(1) by (simp add: sum.distrib wsum_def sum_threads_def Int_def flip: sum.inter_filter)
  finally show ?thesis .
qed

lemma user_exists: "finite T \<Longrightarrow> wsum T (\<lambda>_. 1) s f \<noteq> 0 \<Longrightarrow> \<exists>t\<in>T. pc_stud (f t) = Some s"
  by (auto simp: wsum_eq_0)

lemma crud_count:
  assumes inv: "crud_inv T c" and T: "finite T" "card T < 1073741824" and st: "cr_stud c s = Some st"
  shows "unat (st_ref_count st) + wsum T owes s (cr_pc c) =
    (if s \<in> set (cr_lst c) then 1 else 0) + wsum T refs s (cr_pc c)"
proof -
  obtain k where k: "st_ref_count st = of_nat k"
    "k + wsum T owes s (cr_pc c) = (if s \<in> set (cr_lst c) then 1 else 0) + wsum T refs s (cr_pc c)" "k < 4294967295"
    by (rule stud_okD [OF crud_invD(8) [OF inv st] T])
  have "unat (of_nat k :: u32) = k" using k(3) by (simp add: unat_of_nat)
  then show ?thesis using k by simp
qed

lemma crud_somebody_moves:
  assumes inv: "crud_inv T c" and T: "finite T" "T \<noteq> {}" "card T < 1073741824"
  shows "\<exists>t\<in>T. \<forall>rnd. \<exists>c'. crud_next (role t) rnd t c = Crud_to c'"
proof -
  have go: "\<exists>c'. crud_next (role t) rnd t c = Crud_to c'" if "t \<in> T" "crud_next (role t) rnd t c \<noteq> Crud_wait" for t rnd
    using crud_next_inv [OF inv T(1) that(1) T(3), of "role t" rnd] that(2) by blast
  show ?thesis
  proof (cases "\<exists>t\<in>T. cr_pc c t \<noteq> Crud_idle \<and> (\<forall>a s. cr_pc c t \<noteq> Acc_using a s)")
    case True
    then obtain t where t: "t \<in> T" "cr_pc c t \<noteq> Crud_idle" "\<And>a s. cr_pc c t \<noteq> Acc_using a s" by blast
    have "crud_next (role t) rnd t c \<noteq> Crud_wait" for rnd
      using t(2,3) by (cases "cr_pc c t")
        (auto simp: crud_next_def access_step_def create_fn_def delete_fn_def done_step_def destroy_step_def with_student_def
          Let_def split: option.splits prod.splits if_splits)
    then show ?thesis using t(1) go by blast
  next
    case False
    then have only: "cr_pc c u = Crud_idle \<or> (\<exists>a s. cr_pc c u = Acc_using a s)" if "u \<in> T" for u using that by blast
    show ?thesis
    proof (cases "\<exists>t\<in>T. \<exists>a s. cr_pc c t = Acc_using a s")
      case True
      then obtain t a s where t: "t \<in> T" "cr_pc c t = Acc_using a s" by blast
      then obtain st where st: "cr_stud c s = Some st" "stud_ok T (cr_pc c) (cr_lst c) s st"
        using student_of [OF inv t(1), of s] by auto
      have "wsum T stud_rd_holds s (cr_pc c) = 0" by (rule wsum_zero) (use only in force)
      moreover have "wsum T stud_wr_holds s (cr_pc c) = 0" by (rule wsum_zero) (use only in force)
      ultimately have "st_rw_lock st = Rd_held 0" using st(2) by (cases "st_rw_lock st") (auto simp: stud_ok_def)
      then have "crud_next (role t) rnd t c \<noteq> Crud_wait" for rnd
        using t(2) st(1) by (cases a) (simp_all add: crud_next_def access_step_def with_student_def)
      then show ?thesis using t(1) go by blast
    next
      case False
      then have idle: "cr_pc c u = Crud_idle" if "u \<in> T" for u using only that by blast
      obtain t where t: "t \<in> T" using T(2) by blast
      have "sum_threads T list_rd (cr_pc c) = 0" "sum_threads T list_wr (cr_pc c) = 0"
        by (rule sum_threads_zero, simp add: idle)+
      then have "cr_lock c = Rd_held 0" using crud_invD(1) [OF inv] by (cases "cr_lock c") auto
      then have "crud_next (role t) rnd t c \<noteq> Crud_wait" for rnd
        using idle [OF t] by (cases "role t") (simp_all add: crud_next_def start_round_def)
      then show ?thesis using t go by blast
    qed
  qed
qed

lemma crud_working_exclusive:
  assumes inv: "crud_inv T c" and T: "finite T" "t \<in> T" "u \<in> T" "t \<noteq> u"
    and w: "cr_pc c t = Acc_working Write_access s"
  shows "cr_pc c u \<noteq> Acc_working a s"
proof
  assume u: "cr_pc c u = Acc_working a s"
  obtain st where st: "stud_ok T (cr_pc c) (cr_lst c) s st" using student_of [OF inv T(2), of s] w by auto
  have rw: "rw_ok (st_rw_lock st) (wsum T stud_rd_holds s (cr_pc c)) (wsum T stud_wr_holds s (cr_pc c))"
    using st by (simp add: stud_ok_def)
  have W: "stud_wr_holds (cr_pc c t) \<le> wsum T stud_wr_holds s (cr_pc c)" "stud_rd_holds (cr_pc c u) \<le> wsum T stud_rd_holds s (cr_pc c)"
    by (rule wsum_ge; use T w u in simp)+
  have "(\<Sum>x\<in>{t, u}. at_stud stud_wr_holds s (cr_pc c x)) \<le> (\<Sum>x\<in>T. at_stud stud_wr_holds s (cr_pc c x))"
    using T by (intro sum_mono2) auto
  then show False using rw W T(4) w u
    by (cases a; cases "st_rw_lock st") (simp_all add: wsum_def sum_threads_def at_stud_def)
qed

section \<open>An execution\<close>

text \<open>The four threads of the program, in executions of roll number 3: the student is created, a reader
  reads it while it is deleted.\<close>

fun crud_four :: "tid \<Rightarrow> crud_role" where
  "crud_four t = (if t = 0 then Reader_th else if t = 1 then Update_th else if t = 2 then Create_th else Delete_th)"

abbreviation crud_rounds :: "tid list \<Rightarrow> (tid \<times> u32) list" where
  "crud_rounds ts \<equiv> map (\<lambda>t. (t, 3)) ts"

abbreviation crud_threads :: "tid set" where
  "crud_threads \<equiv> {0, 1, 2, 3}"

lemma crud_run_result:
  assumes "map_option f (crud_run role es crud_main) = Some v" "fst ` set es \<subseteq> T"
  obtains c where "crud_reach T role c" "f c = v"
proof -
  obtain c where run: "crud_run role es crud_main = Some c" and c: "f c = v"
    using assms(1) unfolding map_option_eq_Some by blast
  show thesis by (rule that [OF crud_run_reach [OF crud_reach.start assms(2) run] c])
qed

text \<open>A reader at work on a student that has been deleted; a reader and a writer about to lock a student;
  a writer at work.\<close>

lemma crud_deferred:
  obtains c st where "crud_reach crud_threads crud_four c" "cr_pc c 0 = Acc_working Read_access 1" "cr_lst c = []"
    "cr_stud c 1 = Some st" "st_ref_count st = 1"
proof -
  have "map_option (\<lambda>c. (cr_pc c 0, cr_lst c, map_option st_ref_count (cr_stud c 1)))
      (crud_run crud_four (crud_rounds [2, 2, 2, 2, 2, 0, 0, 0, 0, 0, 3, 3, 3, 3, 3, 3]) crud_main) =
    Some (Acc_working Read_access 1, [], Some 1)"
    by code_simp
  then show thesis by (rule crud_run_result [where T = crud_threads]) (use that in auto)
qed

lemma crud_two_users:
  obtains c st where "crud_reach crud_threads crud_four c" "cr_stud c 1 = Some st" "st_ref_count st = 3"
proof -
  have "map_option (\<lambda>c. map_option st_ref_count (cr_stud c 1))
      (crud_run crud_four (crud_rounds [2, 2, 2, 2, 2, 0, 0, 0, 1, 1, 1]) crud_main) = Some (Some 3)"
    by code_simp
  then show thesis by (rule crud_run_result [where T = crud_threads]) (use that in auto)
qed

lemma crud_writer:
  obtains c where "crud_reach crud_threads crud_four c" "cr_pc c 1 = Acc_working Write_access 1" "cr_pc c 0 = Acc_using Read_access 1"
proof -
  have "map_option (\<lambda>c. (cr_pc c 1, cr_pc c 0))
      (crud_run crud_four (crud_rounds [2, 2, 2, 2, 2, 1, 1, 1, 1, 1, 0, 0, 0]) crud_main) =
    Some (Acc_working Write_access 1, Acc_using Read_access 1)"
    by code_simp
  then show thesis by (rule crud_run_result [where T = crud_threads]) (use that in auto)
qed

section \<open>Properties\<close>

text \<open>C7. No thread ever uses a student that has been freed, no assertion of the reference counts or of
  the creating and deleting threads fails, and no lock is destroyed while it is held: in every execution
  of any number of threads (below two to the thirtieth) with any roles, the next step of every thread,
  whatever roll number it draws, is a step or a wait and never a fault.\<close>

theorem crud_no_use_after_free:
  assumes "crud_reach T role c" "finite T" "card T < 1073741824" "t \<in> T"
  shows "crud_next (role t) rnd t c \<noteq> Crud_fault"
  using crud_next_inv [OF crud_reach_inv [OF assms(1-3)] assms(2,4,3), of "role t" rnd] by auto

theorem crud_no_use_after_free_witness:
  "\<exists>c. crud_reach crud_threads crud_four c \<and> cr_pc c 0 = Acc_working Read_access 1 \<and> 1 \<notin> set (cr_lst c) \<and>
    crud_next Reader_th 7 0 c \<noteq> Crud_fault"
proof (rule crud_deferred)
  fix c st
  assume c: "crud_reach crud_threads crud_four c" "cr_pc c 0 = Acc_working Read_access 1" "cr_lst c = []"
  then show ?thesis using crud_no_use_after_free [OF c(1), of 0 7] by (intro exI [of _ c]) simp
qed

text \<open>C8. The reference count of a student that is allocated is one for the list, while the student is in
  it, and one for every thread that uses it (two for the deleting thread between its two steps, and none
  yet for the list until the creating thread has counted it). A student that is not in the list is in the
  hands of some thread, and no two students of the list have the same roll number: when all threads are
  between two rounds no student is leaked, every reference count is one and every lock is free.\<close>

theorem crud_reference_counts:
  assumes "crud_reach T role c" "finite T" "card T < 1073741824" "cr_stud c s = Some st"
  shows "unat (st_ref_count st) + wsum T owes s (cr_pc c) = (if s \<in> set (cr_lst c) then 1 else 0) + wsum T refs s (cr_pc c) \<and>
    (s \<in> set (cr_lst c) \<or> (\<exists>t\<in>T. pc_stud (cr_pc c t) = Some s)) \<and>
    distinct (map (roll c) (cr_lst c)) \<and>
    ((\<forall>t\<in>T. cr_pc c t = Crud_idle) \<longrightarrow> s \<in> set (cr_lst c) \<and> unat (st_ref_count st) = 1 \<and> st_rw_lock st = Rd_held 0)"
proof -
  have inv: "crud_inv T c" by (rule crud_reach_inv [OF assms(1-3)])
  note cnt = crud_count [OF inv assms(2-4)] and ok = crud_invD(8) [OF inv assms(4)]
  have u: "s \<in> set (cr_lst c) \<or> (\<exists>t\<in>T. pc_stud (cr_pc c t) = Some s)"
    using ok user_exists [OF assms(2), of s "cr_pc c"] by (auto simp: stud_ok_def)
  have "s \<in> set (cr_lst c) \<and> unat (st_ref_count st) = 1 \<and> st_rw_lock st = Rd_held 0"
    if idle: "\<forall>t\<in>T. cr_pc c t = Crud_idle"
  proof -
    have z: "wsum T w s (cr_pc c) = 0" for w by (rule wsum_zero) (use idle in simp)
    have rw: "rw_ok (st_rw_lock st) 0 0" using ok z [of stud_rd_holds] z [of stud_wr_holds] by (simp add: stud_ok_def)
    show ?thesis using u idle cnt z [of owes] z [of refs] rw by (cases "st_rw_lock st") auto
  qed
  then show ?thesis using cnt u crud_invD(2) [OF inv] by blast
qed

theorem crud_reference_counts_witness:
  "\<exists>c st. crud_reach crud_threads crud_four c \<and> cr_stud c 1 = Some st \<and> cr_lst c = [] \<and> st_ref_count st = 1 \<and>
    wsum crud_threads refs 1 (cr_pc c) = Suc (wsum crud_threads owes 1 (cr_pc c))"
proof (rule crud_deferred)
  fix c st
  assume c: "crud_reach crud_threads crud_four c" "cr_lst c = []" "cr_stud c 1 = Some st" "st_ref_count st = 1"
  then show ?thesis using crud_reference_counts [OF c(1) _ _ c(3)] by (intro exI [of _ c] exI [of _ st]) simp
qed

text \<open>A reference count is at most one more than the number of threads that do not create; for the
  four threads of the program it never exceeds four, the bound that the comment of the program names.\<close>

theorem crud_reference_bound:
  assumes "crud_reach T role c" "finite T" "card T < 1073741824" "cr_stud c s = Some st"
  shows "unat (st_ref_count st) \<le> 1 + card {t \<in> T. role t \<noteq> Create_th}"
proof -
  have inv: "crud_inv T c" by (rule crud_reach_inv [OF assms(1-3)])
  have "wsum T refs s (cr_pc c) \<le> card {t \<in> T. role t \<noteq> Create_th} + wsum T twice s (cr_pc c)"
    by (rule refs_le_roles [OF assms(2) creator_pc [OF assms(1)]])
  then show ?thesis using crud_count [OF inv assms(2-4)] twice_bound [OF inv assms(2,4)] by linarith
qed

theorem crud_reference_bound_witness:
  "\<exists>c st. crud_reach crud_threads crud_four c \<and> cr_stud c 1 = Some st \<and> st_ref_count st = 3 \<and> unat (st_ref_count st) \<le> 4"
proof (rule crud_two_users)
  fix c st
  assume c: "crud_reach crud_threads crud_four c" "cr_stud c 1 = Some st" "st_ref_count st = 3"
  have "{t \<in> crud_threads. crud_four t \<noteq> Create_th} = {0, 1, 3}" by auto
  then show ?thesis using crud_reference_bound [OF c(1) _ _ c(2)] c by (intro exI [of _ c] exI [of _ st]) simp
qed

text \<open>While a thread updates a student no other thread reads or updates it.\<close>

theorem crud_update_exclusive:
  assumes "crud_reach T role c" "finite T" "card T < 1073741824" "t \<in> T" "u \<in> T" "t \<noteq> u"
    "cr_pc c t = Acc_working Write_access s"
  shows "cr_pc c u \<noteq> Acc_working a s"
  by (rule crud_working_exclusive [OF crud_reach_inv [OF assms(1-3)] assms(2,4-7)])

theorem crud_update_exclusive_witness:
  "\<exists>c. crud_reach crud_threads crud_four c \<and> cr_pc c 1 = Acc_working Write_access 1 \<and> cr_pc c 0 = Acc_using Read_access 1 \<and>
    cr_pc c 0 \<noteq> Acc_working Read_access 1"
proof (rule crud_writer)
  fix c
  assume c: "crud_reach crud_threads crud_four c" "cr_pc c 1 = Acc_working Write_access 1" "cr_pc c 0 = Acc_using Read_access 1"
  have "cr_pc c 0 \<noteq> Acc_working Read_access 1"
    by (rule crud_update_exclusive [OF c(1) _ _ _ _ _ c(2)]) simp_all
  with c show ?thesis by blast
qed

text \<open>C29. The locks never deadlock: in every reachable state some thread can make its next step, whatever
  roll number is drawn.\<close>

theorem crud_no_deadlock:
  assumes "crud_reach T role c" "finite T" "T \<noteq> {}" "card T < 1073741824"
  shows "\<exists>t\<in>T. \<forall>rnd. \<exists>c'. crud_next (role t) rnd t c = Crud_to c'"
  by (rule crud_somebody_moves [OF crud_reach_inv [OF assms(1,2,4)] assms(2-4)])

theorem crud_no_deadlock_witness:
  "\<exists>c. crud_reach crud_threads crud_four c \<and> cr_pc c 1 = Acc_working Write_access 1 \<and> cr_pc c 0 = Acc_using Read_access 1 \<and>
    (\<exists>t\<in>crud_threads. \<forall>rnd. \<exists>c'. crud_next (crud_four t) rnd t c = Crud_to c')"
proof (rule crud_writer)
  fix c
  assume c: "crud_reach crud_threads crud_four c" "cr_pc c 1 = Acc_working Write_access 1" "cr_pc c 0 = Acc_using Read_access 1"
  have "\<exists>t\<in>crud_threads. \<forall>rnd. \<exists>c'. crud_next (crud_four t) rnd t c = Crud_to c'"
    by (rule crud_no_deadlock [OF c(1)]) simp_all
  with c show ?thesis by blast
qed

end
