(* ===== verification/MapReduce.thy ===== *)
theory MapReduce
  imports Prelude
begin

text \<open>
  Map-reduce, from \<^verbatim>\<open>ThreadSyncAdv/threadlib/CourseDev/section_thread_map_reduce/threadlib.c\<close>: the
  thread that calls \<^verbatim>\<open>map_reduce_start\<close> splits the data, runs a thread per mapper, waits on a wait
  queue until the last of them has finished, runs the reducer and waits for it on a semaphore. The
  functions that the application registers are fields of the object, as in the code; a pointer to a
  vector is an option, \<open>None\<close> for NULL.
\<close>

section \<open>The object\<close>

text \<open>\<^verbatim>\<open>mr_iovec_t\<close>: the data that \<^verbatim>\<open>base\<close> points to (\<open>None\<close> for NULL) and its length.\<close>

record 'v mr_iovec =
  iov_base :: "'v option"
  iov_data_len :: u32

definition MAP_REDUCE_MAX_MAPPER :: nat where
  "MAP_REDUCE_MAX_MAPPER = 8"

text \<open>The wait queue of this stage of the library: it has the application's mutex or not yet, and the
  number of threads that wait.\<close>

record mr_wait_queue =
  mwq_appln_mutex :: bool
  mwq_thread_wait_count :: u32

text \<open>The calls of the application's clean-up functions and of its output reader, in order.\<close>

datatype 'v mr_event =
    Output_read "'v mr_iovec" | Input_cleaned "'v mr_iovec" | Result_cleaned "'v mr_iovec" | Output_cleaned "'v mr_iovec"

record 'v map_reduce =
  mr_n_mappers :: u8
  mr_app_data :: "'v mr_iovec option"
  mr_input_data_splitter :: "('v mr_iovec option \<Rightarrow> 'v mr_iovec option list \<Rightarrow> nat \<Rightarrow> 'v mr_iovec option list) option"
  mr_mapper_fn :: "('v mr_iovec option \<Rightarrow> 'v mr_iovec option \<Rightarrow> 'v mr_iovec option) option"
  mr_mappers_in_progress :: u8
  mr_wq_until_all_mappers_finish :: mr_wait_queue
  mr_mapper_input_array :: "'v mr_iovec option list"
  mr_mapper_result_array :: "'v mr_iovec option list"
  mr_mapper_thread_array :: "tid list"
  mr_reducer_thread :: tid
  mr_reducer_result :: "'v mr_iovec"
  mr_reducer_fn :: "('v mr_iovec option list \<Rightarrow> nat \<Rightarrow> 'v mr_iovec \<Rightarrow> 'v mr_iovec) option"
  mr_reducer_finished_semaphore :: nat
  mr_is_reducer_in_progress :: bool
  mr_reducer_output_reader :: bool
  mr_mapper_input_array_cleanup :: bool
  mr_mapper_output_array_cleanup :: bool
  mr_reducer_output_cleanup :: bool

definition mr_wait_queue_init :: mr_wait_queue where
  "mr_wait_queue_init = \<lparr>mwq_appln_mutex = False, mwq_thread_wait_count = 0\<rparr>"

definition map_reduce_init :: "u8 \<Rightarrow> 'v map_reduce" where
  "map_reduce_init n_mappers =
     \<lparr>mr_n_mappers = n_mappers, mr_app_data = None, mr_input_data_splitter = None, mr_mapper_fn = None,
      mr_mappers_in_progress = n_mappers, mr_wq_until_all_mappers_finish = mr_wait_queue_init,
      mr_mapper_input_array = replicate MAP_REDUCE_MAX_MAPPER None,
      mr_mapper_result_array = replicate MAP_REDUCE_MAX_MAPPER None,
      mr_mapper_thread_array = replicate MAP_REDUCE_MAX_MAPPER 0, mr_reducer_thread = 0,
      mr_reducer_result = \<lparr>iov_base = None, iov_data_len = 0\<rparr>, mr_reducer_fn = None,
      mr_reducer_finished_semaphore = 0, mr_is_reducer_in_progress = False, mr_reducer_output_reader = False,
      mr_mapper_input_array_cleanup = False, mr_mapper_output_array_cleanup = False, mr_reducer_output_cleanup = False\<rparr>"

definition map_reduce_set_data_splitter ::
  "('v mr_iovec option \<Rightarrow> 'v mr_iovec option list \<Rightarrow> nat \<Rightarrow> 'v mr_iovec option list) \<Rightarrow> 'v map_reduce \<Rightarrow> 'v map_reduce" where
  "map_reduce_set_data_splitter f m = m\<lparr>mr_input_data_splitter := Some f\<rparr>"

definition map_reduce_set_app_data :: "'v mr_iovec option \<Rightarrow> 'v map_reduce \<Rightarrow> 'v map_reduce" where
  "map_reduce_set_app_data app_data m = m\<lparr>mr_app_data := app_data\<rparr>"

definition map_reduce_set_mapper_fn ::
  "('v mr_iovec option \<Rightarrow> 'v mr_iovec option \<Rightarrow> 'v mr_iovec option) \<Rightarrow> 'v map_reduce \<Rightarrow> 'v map_reduce" where
  "map_reduce_set_mapper_fn f m = m\<lparr>mr_mapper_fn := Some f\<rparr>"

text \<open>\<open>None\<close>: the assertion fails, or the index is outside the array.\<close>

definition map_reduce_set_mapper_input :: "nat \<Rightarrow> 'v mr_iovec option \<Rightarrow> 'v map_reduce \<Rightarrow> 'v map_reduce option" where
  "map_reduce_set_mapper_input index inp m =
     (if index < length (mr_mapper_input_array m) \<and> mr_mapper_input_array m ! index = None
      then Some (m\<lparr>mr_mapper_input_array := (mr_mapper_input_array m)[index := inp]\<rparr>) else None)"

definition map_reduce_set_reducer_fn ::
  "('v mr_iovec option list \<Rightarrow> nat \<Rightarrow> 'v mr_iovec \<Rightarrow> 'v mr_iovec) \<Rightarrow> 'v map_reduce \<Rightarrow> 'v map_reduce" where
  "map_reduce_set_reducer_fn f m = m\<lparr>mr_reducer_fn := Some f\<rparr>"

definition map_reduce_set_reducer_output_reader :: "bool \<Rightarrow> 'v map_reduce \<Rightarrow> 'v map_reduce" where
  "map_reduce_set_reducer_output_reader f m = m\<lparr>mr_reducer_output_reader := f\<rparr>"

definition map_reduce_register_cleanup_fns :: "bool \<Rightarrow> bool \<Rightarrow> bool \<Rightarrow> 'v map_reduce \<Rightarrow> 'v map_reduce" where
  "map_reduce_register_cleanup_fns inp outp red m =
     m\<lparr>mr_mapper_input_array_cleanup := inp, mr_mapper_output_array_cleanup := outp, mr_reducer_output_cleanup := red\<rparr>"

text \<open>The test of the wait queue, and \<^verbatim>\<open>map_reduce_is_in_progress\<close>.\<close>

definition wq_is_any_mapper_in_progress :: "'v map_reduce \<Rightarrow> bool" where
  "wq_is_any_mapper_in_progress m \<longleftrightarrow> mr_mappers_in_progress m \<noteq> 0"

definition map_reduce_is_in_progress :: "'v map_reduce \<Rightarrow> bool" where
  "map_reduce_is_in_progress m \<longleftrightarrow> mr_mappers_in_progress m \<noteq> 0 \<or> mr_is_reducer_in_progress m"

text \<open>The loops of \<^verbatim>\<open>map_reduce_cleanup\<close> over the first \<open>n\<close> entries of an array of vectors.\<close>

fun cleanup_vectors :: "bool \<Rightarrow> ('v mr_iovec \<Rightarrow> 'v mr_event) \<Rightarrow> nat \<Rightarrow> 'v mr_iovec option list \<Rightarrow>
  'v mr_iovec option list \<times> 'v mr_event list" where
  "cleanup_vectors registered called 0 vs = (vs, [])"
| "cleanup_vectors registered called (Suc n) [] = ([], [])"
| "cleanup_vectors registered called (Suc n) (v # vs) =
     (let (vs', evs) = cleanup_vectors registered called n vs in
      case v of Some x \<Rightarrow> if registered then (None # vs', called x # evs) else (v # vs', evs)
      | None \<Rightarrow> (v # vs', evs))"

fun cleanup_threads :: "nat \<Rightarrow> tid list \<Rightarrow> tid list" where
  "cleanup_threads 0 ts = ts"
| "cleanup_threads (Suc n) [] = []"
| "cleanup_threads (Suc n) (t # ts) = 0 # cleanup_threads n ts"

definition map_reduce_cleanup :: "'v map_reduce \<Rightarrow> 'v map_reduce \<times> 'v mr_event list" where
  "map_reduce_cleanup m =
     (let n = unat (mr_n_mappers m);
          (inputs, evs1) = cleanup_vectors (mr_mapper_input_array_cleanup m) Input_cleaned n (mr_mapper_input_array m);
          (results, evs2) = cleanup_vectors (mr_mapper_output_array_cleanup m) Result_cleaned n (mr_mapper_result_array m);
          m1 = m\<lparr>mr_mapper_input_array := inputs, mr_mapper_result_array := results,
                 mr_mapper_thread_array := cleanup_threads n (mr_mapper_thread_array m)\<rparr>;
          (m2, evs3) = (if iov_data_len (mr_reducer_result m) \<noteq> 0 \<and> mr_reducer_output_cleanup m
                        then (m1\<lparr>mr_reducer_result := \<lparr>iov_base = None, iov_data_len = 0\<rparr>\<rparr>,
                              [Output_cleaned (mr_reducer_result m)]) else (m1, []))
      in (m2\<lparr>mr_reducer_thread := 0\<rparr>, evs1 @ evs2 @ evs3))"

section \<open>The threads\<close>

datatype main_pc = Mr_ready | Mr_creating nat | Mr_blocked | Mr_woken | Mr_launching | Mr_sem_waiting
  | Mr_reading | Mr_cleaning | Mr_returned
datatype mapper_pc = Mp_absent | Mp_started | Mp_mapped | Mp_finished
datatype reducer_pc = Rd_absent | Rd_started | Rd_running | Rd_reduced | Rd_posting | Rd_finished

record 'v mr_state =
  ms_mr :: "'v map_reduce"
  ms_main :: main_pc
  ms_mapper :: "nat \<Rightarrow> mapper_pc"
  ms_reducer :: reducer_pc
  ms_events :: "'v mr_event list"

datatype 'v mr_outcome = Mr_fault | Mr_wait | Mr_to "'v mr_state"

text \<open>\<^verbatim>\<open>wait_queue_test_and_wait\<close> of the starting thread, from the test to the next wait or, when
  no mapper is in progress, to the release of the mutex after the assertion.\<close>

definition mr_test_and_wait :: "'v mr_state \<Rightarrow> 'v mr_outcome" where
  "mr_test_and_wait s =
     (let m = ms_mr s; wq = mr_wq_until_all_mappers_finish m in
      if wq_is_any_mapper_in_progress m
      then Mr_to (s\<lparr>ms_mr := m\<lparr>mr_wq_until_all_mappers_finish := wq\<lparr>mwq_thread_wait_count := mwq_thread_wait_count wq + 1\<rparr>\<rparr>,
                    ms_main := Mr_blocked\<rparr>)
      else if mr_mappers_in_progress m = 0 then Mr_to (s\<lparr>ms_main := Mr_launching\<rparr>) else Mr_fault)"

text \<open>\<^verbatim>\<open>wait_queue_broadcast\<close>, called with the mutex held: the only thread that can wait is the
  starting one.\<close>

definition mr_wait_queue_broadcast :: "'v mr_state \<Rightarrow> 'v mr_state" where
  "mr_wait_queue_broadcast s =
     (let wq = mr_wq_until_all_mappers_finish (ms_mr s) in
      if \<not> mwq_appln_mutex wq then s
      else if mwq_thread_wait_count wq = 0 then s
      else if ms_main s = Mr_blocked then s\<lparr>ms_main := Mr_woken\<rparr> else s)"

text \<open>The steps of \<^verbatim>\<open>map_reduce_start\<close>. Mapper \<open>i\<close> runs in thread \<open>i + 1\<close>, the reducer in thread
  \<open>n_mappers + 1\<close>.\<close>

fun map_reduce_start :: "'v mr_state \<Rightarrow> 'v mr_outcome" where
  "map_reduce_start s =
     (let m = ms_mr s; n = unat (mr_n_mappers m) in
      case ms_main s of
        Mr_ready \<Rightarrow>
          (if mr_mappers_in_progress m = mr_n_mappers m \<and> mr_mapper_fn m \<noteq> None
           then case mr_input_data_splitter m of None \<Rightarrow> Mr_fault
                | Some split \<Rightarrow>
                    Mr_to (s\<lparr>ms_mr := m\<lparr>mr_mapper_input_array := split (mr_app_data m) (mr_mapper_input_array m) n,
                                         mr_mappers_in_progress := mr_n_mappers m\<rparr>, ms_main := Mr_creating 0\<rparr>)
           else Mr_fault)
      | Mr_creating i \<Rightarrow>
          (if i < n
           then if i < length (mr_mapper_thread_array m) \<and> mr_mapper_thread_array m ! i = 0
                then Mr_to (s\<lparr>ms_mr := m\<lparr>mr_mapper_thread_array := (mr_mapper_thread_array m)[i := i + 1]\<rparr>,
                              ms_mapper := (ms_mapper s)(i := Mp_started), ms_main := Mr_creating (i + 1)\<rparr>)
                else Mr_fault
           else mr_test_and_wait (s\<lparr>ms_mr := m\<lparr>mr_wq_until_all_mappers_finish :=
                  (mr_wq_until_all_mappers_finish m)\<lparr>mwq_appln_mutex := True\<rparr>\<rparr>\<rparr>))
      | Mr_blocked \<Rightarrow> Mr_wait
      | Mr_woken \<Rightarrow>
          mr_test_and_wait (s\<lparr>ms_mr := m\<lparr>mr_wq_until_all_mappers_finish := (mr_wq_until_all_mappers_finish m)
            \<lparr>mwq_thread_wait_count := mwq_thread_wait_count (mr_wq_until_all_mappers_finish m) - 1\<rparr>\<rparr>\<rparr>)
      | Mr_launching \<Rightarrow>
          Mr_to (s\<lparr>ms_mr := m\<lparr>mr_reducer_thread := n + 1\<rparr>, ms_reducer := Rd_started, ms_main := Mr_sem_waiting\<rparr>)
      | Mr_sem_waiting \<Rightarrow>
          (if mr_reducer_finished_semaphore m = 0 then Mr_wait
           else Mr_to (s\<lparr>ms_mr := m\<lparr>mr_reducer_finished_semaphore := mr_reducer_finished_semaphore m - 1\<rparr>,
                         ms_main := Mr_reading\<rparr>))
      | Mr_reading \<Rightarrow>
          Mr_to (s\<lparr>ms_events := ms_events s @ (if mr_reducer_output_reader m then [Output_read (mr_reducer_result m)] else []),
                   ms_main := Mr_cleaning\<rparr>)
      | Mr_cleaning \<Rightarrow>
          (let (m', evs) = map_reduce_cleanup m in
           Mr_to (s\<lparr>ms_mr := m', ms_events := ms_events s @ evs, ms_main := Mr_returned\<rparr>))
      | Mr_returned \<Rightarrow> Mr_wait)"

fun mapper_wrapper :: "nat \<Rightarrow> 'v mr_state \<Rightarrow> 'v mr_outcome" where
  "mapper_wrapper i s =
     (let m = ms_mr s in
      case ms_mapper s i of
        Mp_absent \<Rightarrow> Mr_wait
      | Mp_started \<Rightarrow>
          (case mr_mapper_fn m of None \<Rightarrow> Mr_fault
           | Some f \<Rightarrow>
               if i < length (mr_mapper_input_array m) \<and> i < length (mr_mapper_result_array m)
               then Mr_to (s\<lparr>ms_mr := m\<lparr>mr_mapper_result_array := (mr_mapper_result_array m)
                        [i := f (mr_mapper_input_array m ! i) (mr_mapper_result_array m ! i)]\<rparr>,
                      ms_mapper := (ms_mapper s)(i := Mp_mapped)\<rparr>)
               else Mr_fault)
      | Mp_mapped \<Rightarrow>
          Mr_to ((mr_wait_queue_broadcast (s\<lparr>ms_mr := m\<lparr>mr_mappers_in_progress := mr_mappers_in_progress m - 1\<rparr>\<rparr>))
            \<lparr>ms_mapper := (ms_mapper s)(i := Mp_finished)\<rparr>)
      | Mp_finished \<Rightarrow> Mr_wait)"

fun reducer_wrapper :: "'v mr_state \<Rightarrow> 'v mr_outcome" where
  "reducer_wrapper s =
     (let m = ms_mr s in
      case ms_reducer s of
        Rd_absent \<Rightarrow> Mr_wait
      | Rd_started \<Rightarrow> Mr_to (s\<lparr>ms_mr := m\<lparr>mr_is_reducer_in_progress := True\<rparr>, ms_reducer := Rd_running\<rparr>)
      | Rd_running \<Rightarrow>
          (case mr_reducer_fn m of None \<Rightarrow> Mr_fault
           | Some f \<Rightarrow> Mr_to (s\<lparr>ms_mr := m\<lparr>mr_reducer_result :=
                                 f (mr_mapper_result_array m) (unat (mr_n_mappers m)) (mr_reducer_result m)\<rparr>,
                               ms_reducer := Rd_reduced\<rparr>))
      | Rd_reduced \<Rightarrow> Mr_to (s\<lparr>ms_mr := m\<lparr>mr_is_reducer_in_progress := False\<rparr>, ms_reducer := Rd_posting\<rparr>)
      | Rd_posting \<Rightarrow>
          Mr_to (s\<lparr>ms_mr := m\<lparr>mr_reducer_finished_semaphore := mr_reducer_finished_semaphore m + 1\<rparr>, ms_reducer := Rd_finished\<rparr>)
      | Rd_finished \<Rightarrow> Mr_wait)"

datatype mr_thread = Mr_main_th | Mr_mapper_th nat | Mr_reducer_th

fun mr_next :: "mr_thread \<Rightarrow> 'v mr_state \<Rightarrow> 'v mr_outcome" where
  "mr_next Mr_main_th s = map_reduce_start s"
| "mr_next (Mr_mapper_th i) s = mapper_wrapper i s"
| "mr_next Mr_reducer_th s = reducer_wrapper s"

definition mr_call :: "'v map_reduce \<Rightarrow> 'v mr_state" where
  "mr_call m = \<lparr>ms_mr = m, ms_main = Mr_ready, ms_mapper = (\<lambda>_. Mp_absent), ms_reducer = Rd_absent, ms_events = []\<rparr>"

text \<open>\<open>mr_reach sp m k s\<close>: a call of \<^verbatim>\<open>map_reduce_start\<close> on \<open>m\<close> is in state \<open>s\<close> after \<open>k\<close> steps; with
  \<open>sp\<close> the wait may also end spuriously.\<close>

inductive mr_reach :: "bool \<Rightarrow> 'v map_reduce \<Rightarrow> nat \<Rightarrow> 'v mr_state \<Rightarrow> bool" for sp m where
  start: "mr_reach sp m 0 (mr_call m)"
| step: "mr_reach sp m k s \<Longrightarrow> mr_next t s = Mr_to s' \<Longrightarrow> mr_reach sp m (Suc k) s'"
| spurious: "mr_reach sp m k s \<Longrightarrow> sp \<Longrightarrow> ms_main s = Mr_blocked \<Longrightarrow> mr_reach sp m (Suc k) (s\<lparr>ms_main := Mr_woken\<rparr>)"

fun mr_run :: "mr_thread list \<Rightarrow> 'v mr_state \<Rightarrow> 'v mr_state option" where
  "mr_run [] s = Some s"
| "mr_run (t # ts) s = (case mr_next t s of Mr_to s' \<Rightarrow> mr_run ts s' | _ \<Rightarrow> None)"

lemma mr_run_reach:
  "mr_reach sp m k s \<Longrightarrow> mr_run ts s = Some s' \<Longrightarrow> mr_reach sp m (k + length ts) s'"
proof (induction ts arbitrary: k s)
  case (Cons t ts)
  then obtain s1 where "mr_next t s = Mr_to s1" "mr_run ts s1 = Some s'" by (auto split: mr_outcome.splits)
  then show ?case using Cons.IH [OF mr_reach.step [OF Cons.prems(1)]] by simp
qed simp

end
