(* ===== verification/MapReduceSpec.thy ===== *)
theory MapReduceSpec
  imports MapReduce
begin

text \<open>
  The correctness of map-reduce: the sequential computation that the threads implement, the invariant
  of every interleaving, which describes the object by the points at which the threads are, progress
  and the number of steps, and the properties.
\<close>

section \<open>The sequential computation\<close>

text \<open>An object on which \<^verbatim>\<open>map_reduce_start\<close> can be called: prepared by the init and set functions, with
  no more mappers than the arrays have room for. The splitter writes into the array it is given.\<close>

definition mr_prepared :: "'v map_reduce \<Rightarrow> bool" where
  "mr_prepared m \<longleftrightarrow> unat (mr_n_mappers m) \<le> MAP_REDUCE_MAX_MAPPER \<and> mr_mappers_in_progress m = mr_n_mappers m \<and>
     mr_mapper_fn m \<noteq> None \<and> mr_reducer_fn m \<noteq> None \<and>
     (\<exists>split. mr_input_data_splitter m = Some split \<and>
        length (split (mr_app_data m) (mr_mapper_input_array m) (unat (mr_n_mappers m))) = MAP_REDUCE_MAX_MAPPER) \<and>
     length (mr_mapper_result_array m) = MAP_REDUCE_MAX_MAPPER \<and>
     length (mr_mapper_thread_array m) = MAP_REDUCE_MAX_MAPPER \<and>
     (\<forall>i < unat (mr_n_mappers m). mr_mapper_thread_array m ! i = 0) \<and>
     mr_reducer_finished_semaphore m = 0 \<and> \<not> mr_is_reducer_in_progress m \<and>
     mr_wq_until_all_mappers_finish m = mr_wait_queue_init"

definition mr_inputs :: "'v map_reduce \<Rightarrow> 'v mr_iovec option list" where
  "mr_inputs m = the (mr_input_data_splitter m) (mr_app_data m) (mr_mapper_input_array m) (unat (mr_n_mappers m))"

text \<open>The results when the mappers of \<open>D\<close> have run, and the result of the reducer over all.\<close>

definition mr_results :: "'v map_reduce \<Rightarrow> (nat \<Rightarrow> bool) \<Rightarrow> 'v mr_iovec option list" where
  "mr_results m D = map (\<lambda>i. if D i then the (mr_mapper_fn m) (mr_inputs m ! i) (mr_mapper_result_array m ! i)
     else mr_mapper_result_array m ! i) [0..<MAP_REDUCE_MAX_MAPPER]"

definition mr_output :: "'v map_reduce \<Rightarrow> 'v mr_iovec" where
  "mr_output m = the (mr_reducer_fn m) (mr_results m (\<lambda>i. i < unat (mr_n_mappers m))) (unat (mr_n_mappers m)) (mr_reducer_result m)"

definition some_values :: "'a option list \<Rightarrow> 'a list" where
  "some_values xs = map the (filter (\<lambda>x. x \<noteq> None) xs)"

text \<open>What the caller observes: the output is read, then every input, every result and the output are
  cleaned up, each where it is there and a function is registered for it.\<close>

definition mr_sequential :: "'v map_reduce \<Rightarrow> 'v mr_event list" where
  "mr_sequential m =
     (let n = unat (mr_n_mappers m); out = mr_output m in
      (if mr_reducer_output_reader m then [Output_read out] else []) @
      (if mr_mapper_input_array_cleanup m then map Input_cleaned (some_values (take n (mr_inputs m))) else []) @
      (if mr_mapper_output_array_cleanup m
       then map Result_cleaned (some_values (take n (mr_results m (\<lambda>i. i < n)))) else []) @
      (if iov_data_len out \<noteq> 0 \<and> mr_reducer_output_cleanup m then [Output_cleaned out] else []))"

lemma cleanup_vectors_events:
  "n \<le> length vs \<Longrightarrow> snd (cleanup_vectors reg called n vs) = (if reg then map called (some_values (take n vs)) else [])"
  by (induction reg called n vs rule: cleanup_vectors.induct)
    (auto simp: some_values_def Let_def split: prod.splits option.splits)

lemma cleanup_vectors_entries:
  "n \<le> length vs \<Longrightarrow> fst (cleanup_vectors reg called n vs) = (if reg then replicate n None else take n vs) @ drop n vs"
  by (induction reg called n vs rule: cleanup_vectors.induct) (auto simp: Let_def split: prod.splits option.splits)

lemma cleanup_threads_zero: "n \<le> length ts \<Longrightarrow> i < n \<Longrightarrow> cleanup_threads n ts ! i = 0"
proof (induction n ts arbitrary: i rule: cleanup_threads.induct)
  case (3 n t ts)
  then show ?case by (cases i) auto
qed auto

section \<open>The invariant\<close>

definition mapped :: "mapper_pc \<Rightarrow> bool" where
  "mapped p \<longleftrightarrow> p = Mp_mapped \<or> p = Mp_finished"

definition pending :: "nat \<Rightarrow> (nat \<Rightarrow> mapper_pc) \<Rightarrow> nat" where
  "pending n f = count_threads {..<n} (\<lambda>p. p \<noteq> Mp_finished) f"

fun created :: "nat \<Rightarrow> main_pc \<Rightarrow> nat" where
  "created n (Mr_creating i) = i" | "created n Mr_ready = 0" | "created n _ = n"

definition before_reducer :: "main_pc \<Rightarrow> bool" where
  "before_reducer p \<longleftrightarrow> p \<in> {Mr_blocked, Mr_woken, Mr_launching} \<or> (\<exists>i. p = Mr_creating i)"

definition mr_shape :: "'v map_reduce \<Rightarrow> (nat \<Rightarrow> mapper_pc) \<Rightarrow> main_pc \<Rightarrow> reducer_pc \<Rightarrow> 'v map_reduce" where
  "mr_shape m f p r =
     (let n = unat (mr_n_mappers m) in
      m\<lparr>mr_mappers_in_progress := of_nat (pending n f),
        mr_wq_until_all_mappers_finish := \<lparr>mwq_appln_mutex = (\<forall>i. p \<noteq> Mr_creating i),
          mwq_thread_wait_count = (if p = Mr_blocked \<or> p = Mr_woken then 1 else 0)\<rparr>,
        mr_mapper_input_array := mr_inputs m, mr_mapper_result_array := mr_results m (\<lambda>i. mapped (f i)),
        mr_mapper_thread_array := map (\<lambda>i. if i < created n p then i + 1 else mr_mapper_thread_array m ! i) [0..<MAP_REDUCE_MAX_MAPPER],
        mr_reducer_thread := (if before_reducer p then mr_reducer_thread m else n + 1),
        mr_reducer_result := (if r \<in> {Rd_reduced, Rd_posting, Rd_finished} then mr_output m else mr_reducer_result m),
        mr_reducer_finished_semaphore := (if r = Rd_finished \<and> p = Mr_sem_waiting then 1 else 0),
        mr_is_reducer_in_progress := (r \<in> {Rd_running, Rd_reduced})\<rparr>)"

definition mr_middle :: "'v map_reduce \<Rightarrow> 'v mr_state \<Rightarrow> bool" where
  "mr_middle m s \<longleftrightarrow>
     (let n = unat (mr_n_mappers m); f = ms_mapper s; p = ms_main s; r = ms_reducer s in
      p \<notin> {Mr_ready, Mr_returned} \<and> ms_mr s = mr_shape m f p r \<and>
      created n p \<le> n \<and> (\<forall>i. f i = Mp_absent \<longleftrightarrow> created n p \<le> i) \<and>
      (before_reducer p \<longleftrightarrow> r = Rd_absent) \<and>
      (p = Mr_blocked \<longrightarrow> pending n f \<noteq> 0) \<and>
      (p \<in> {Mr_launching, Mr_sem_waiting, Mr_reading, Mr_cleaning} \<longrightarrow> pending n f = 0) \<and>
      (p \<in> {Mr_reading, Mr_cleaning} \<longrightarrow> r = Rd_finished) \<and>
      ms_events s = (if p = Mr_cleaning \<and> mr_reducer_output_reader m then [Output_read (mr_output m)] else []))"

definition mr_end :: "'v map_reduce \<Rightarrow> 'v mr_state \<Rightarrow> bool" where
  "mr_end m s \<longleftrightarrow>
     (let n = unat (mr_n_mappers m) in
      ms_main s = Mr_returned \<and> ms_events s = mr_sequential m \<and> mr_mappers_in_progress (ms_mr s) = 0 \<and>
      (\<forall>i<n. mr_mapper_thread_array (ms_mr s) ! i = 0) \<and> mr_reducer_thread (ms_mr s) = 0 \<and>
      mr_n_mappers (ms_mr s) = mr_n_mappers m \<and>
      (\<forall>i. ms_mapper s i = (if i < n then Mp_finished else Mp_absent)) \<and> ms_reducer s = Rd_finished)"

definition mr_inv :: "'v map_reduce \<Rightarrow> 'v mr_state \<Rightarrow> bool" where
  "mr_inv m s \<longleftrightarrow> s = mr_call m \<or> mr_middle m s \<or> mr_end m s"

lemma mr_prepared_facts:
  assumes "mr_prepared m"
  shows "unat (mr_n_mappers m) \<le> 8" "mr_mapper_fn m \<noteq> None" "mr_reducer_fn m \<noteq> None"
    "mr_input_data_splitter m \<noteq> None" "length (mr_inputs m) = 8" "length (mr_mapper_result_array m) = 8"
    "length (mr_mapper_thread_array m) = 8" "mr_mappers_in_progress m = mr_n_mappers m"
  using assms by (auto simp: mr_prepared_def mr_inputs_def MAP_REDUCE_MAX_MAPPER_def)

lemma of_nat_u8_0: "k \<le> 8 \<Longrightarrow> (of_nat k = (0::u8)) \<longleftrightarrow> k = 0"
  by (auto simp: word_of_nat_eq_0_iff dest: dvd_imp_le)

lemma pending_le: "pending n f \<le> n"
  using count_threads_le [of "{..<n}" "\<lambda>p. p \<noteq> Mp_finished" f] by (simp add: pending_def)

lemma pending_0: "pending n f = 0 \<longleftrightarrow> (\<forall>i<n. f i = Mp_finished)"
  by (auto simp: pending_def count_threads_eq_0)

lemma pending_keep: "v \<noteq> Mp_finished \<Longrightarrow> f i \<noteq> Mp_finished \<Longrightarrow> pending n (f(i := v)) = pending n f"
  unfolding pending_def by (rule count_threads_keep) simp

lemma pending_finish: "i < n \<Longrightarrow> f i \<noteq> Mp_finished \<Longrightarrow> Suc (pending n (f(i := Mp_finished))) = pending n f"
  unfolding pending_def by (rule count_threads_del) auto

lemma pending_absent: "(\<And>i. i < n \<Longrightarrow> f i = Mp_absent) \<Longrightarrow> pending n f = n"
proof -
  assume "\<And>i. i < n \<Longrightarrow> f i = Mp_absent"
  then have "{t \<in> {..<n}. f t \<noteq> Mp_finished} = {..<n}" by auto
  then show ?thesis by (simp add: pending_def count_threads_def)
qed

lemma length_mr_results: "length (mr_results m D) = 8"
  by (simp add: mr_results_def MAP_REDUCE_MAX_MAPPER_def)

lemma mr_results_upd:
  assumes "i < 8" "\<not> D i"
  shows "(mr_results m D)[i := the (mr_mapper_fn m) (mr_inputs m ! i) (mr_results m D ! i)] = mr_results m (D(i := True))"
  using assms by (intro nth_equalityI) (auto simp: mr_results_def MAP_REDUCE_MAX_MAPPER_def nth_list_update)

lemma mr_middleI:
  assumes "p \<notin> {Mr_ready, Mr_returned}" "created (unat (mr_n_mappers m)) p \<le> unat (mr_n_mappers m)"
    "\<And>i. f i = Mp_absent \<longleftrightarrow> created (unat (mr_n_mappers m)) p \<le> i" "before_reducer p \<longleftrightarrow> r = Rd_absent"
    "p = Mr_blocked \<Longrightarrow> pending (unat (mr_n_mappers m)) f \<noteq> 0"
    "p \<in> {Mr_launching, Mr_sem_waiting, Mr_reading, Mr_cleaning} \<Longrightarrow> pending (unat (mr_n_mappers m)) f = 0"
    "p \<in> {Mr_reading, Mr_cleaning} \<Longrightarrow> r = Rd_finished"
    "evs = (if p = Mr_cleaning \<and> mr_reducer_output_reader m then [Output_read (mr_output m)] else [])"
    "c = mr_shape m f p r"
  shows "mr_middle m \<lparr>ms_mr = c, ms_main = p, ms_mapper = f, ms_reducer = r, ms_events = evs\<rparr>"
  using assms unfolding mr_middle_def Let_def by simp

lemma mr_middleD:
  assumes "mr_middle m s"
  shows "ms_mr s = mr_shape m (ms_mapper s) (ms_main s) (ms_reducer s)"
    "created (unat (mr_n_mappers m)) (ms_main s) \<le> unat (mr_n_mappers m)"
    "ms_mapper s i = Mp_absent \<longleftrightarrow> created (unat (mr_n_mappers m)) (ms_main s) \<le> i"
    "before_reducer (ms_main s) \<longleftrightarrow> ms_reducer s = Rd_absent"
    "ms_main s = Mr_blocked \<Longrightarrow> pending (unat (mr_n_mappers m)) (ms_mapper s) \<noteq> 0"
    "ms_main s \<in> {Mr_launching, Mr_sem_waiting, Mr_reading, Mr_cleaning} \<Longrightarrow> pending (unat (mr_n_mappers m)) (ms_mapper s) = 0"
    "ms_main s \<in> {Mr_reading, Mr_cleaning} \<Longrightarrow> ms_reducer s = Rd_finished"
    "ms_events s = (if ms_main s = Mr_cleaning \<and> mr_reducer_output_reader m then [Output_read (mr_output m)] else [])"
    "ms_main s \<notin> {Mr_ready, Mr_returned}"
  using assms unfolding mr_middle_def Let_def by blast+

lemma mr_shape_fields [simp]:
  "mr_n_mappers (mr_shape m f p r) = mr_n_mappers m" "mr_mapper_fn (mr_shape m f p r) = mr_mapper_fn m"
  "mr_reducer_fn (mr_shape m f p r) = mr_reducer_fn m"
  "mr_mappers_in_progress (mr_shape m f p r) = of_nat (pending (unat (mr_n_mappers m)) f)"
  "mr_reducer_output_reader (mr_shape m f p r) = mr_reducer_output_reader m"
  "mr_mapper_input_array (mr_shape m f p r) = mr_inputs m"
  "mr_mapper_result_array (mr_shape m f p r) = mr_results m (\<lambda>i. mapped (f i))"
  by (simp_all add: mr_shape_def Let_def)

lemma mr_start_ready:
  assumes "mr_prepared m"
  shows "\<exists>s'. map_reduce_start (mr_call m) = Mr_to s' \<and> mr_middle m s' \<and> ms_main s' = Mr_creating 0 \<and>
    ms_mapper s' = (\<lambda>_. Mp_absent) \<and> ms_reducer s' = Rd_absent"
proof -
  note P = mr_prepared_facts [OF assms]
  obtain f split where f: "mr_mapper_fn m = Some f" "mr_input_data_splitter m = Some split" using P(2,4) by auto
  have sem: "mr_reducer_finished_semaphore m = 0" "\<not> mr_is_reducer_in_progress m"
    "mr_wq_until_all_mappers_finish m = mr_wait_queue_init"
    using assms by (simp_all add: mr_prepared_def)
  have pend: "pending n (\<lambda>_. Mp_absent) = n" for n by (rule pending_absent) simp
  have "mr_results m (\<lambda>_. False) = mr_mapper_result_array m"
    using P(6) by (intro nth_equalityI) (simp_all add: mr_results_def MAP_REDUCE_MAX_MAPPER_def)
  moreover have "map (\<lambda>i. if i < 0 then i + 1 else mr_mapper_thread_array m ! i) [0..<8] = mr_mapper_thread_array m"
    using P(7) by (intro nth_equalityI) simp_all
  ultimately have shape: "m\<lparr>mr_mapper_input_array := mr_inputs m, mr_mappers_in_progress := mr_n_mappers m\<rparr> =
      mr_shape m (\<lambda>_. Mp_absent) (Mr_creating 0) Rd_absent"
    using sem pend unfolding mr_shape_def Let_def
    by (intro map_reduce.equality) (simp_all add: mapped_def before_reducer_def mr_wait_queue_init_def MAP_REDUCE_MAX_MAPPER_def)
  have "mr_middle m \<lparr>ms_mr = m\<lparr>mr_mapper_input_array := mr_inputs m, mr_mappers_in_progress := mr_n_mappers m\<rparr>,
      ms_main = Mr_creating 0, ms_mapper = (\<lambda>_. Mp_absent), ms_reducer = Rd_absent, ms_events = []\<rparr>"
    by (rule mr_middleI) (simp_all add: shape before_reducer_def)
  then show ?thesis using f P(8) by (simp add: mr_call_def mr_inputs_def)
qed

lemma mr_start_creating:
  assumes prep: "mr_prepared m" and mid: "mr_middle m s" and p: "ms_main s = Mr_creating i" and i: "i < unat (mr_n_mappers m)"
  shows "\<exists>s'. map_reduce_start s = Mr_to s' \<and> mr_middle m s' \<and> ms_main s' = Mr_creating (Suc i) \<and>
    ms_mapper s' = (ms_mapper s)(i := Mp_started) \<and> ms_reducer s' = ms_reducer s"
proof -
  note P = mr_prepared_facts [OF prep] and D = mr_middleD [OF mid]
  let ?n = "unat (mr_n_mappers m)" and ?f = "(ms_mapper s)(i := Mp_started)"
  have i8: "i < 8" using i P(1) by simp
  have fi: "ms_mapper s i = Mp_absent" using D(3) [of i] p by simp
  have r: "ms_reducer s = Rd_absent" using D(4) p by (simp add: before_reducer_def)
  have ths: "mr_mapper_thread_array (ms_mr s) =
      map (\<lambda>j. if j < i then j + 1 else mr_mapper_thread_array m ! j) [0..<8]"
    using D(1) p by (simp add: mr_shape_def Let_def MAP_REDUCE_MAX_MAPPER_def)
  have zero: "mr_mapper_thread_array m ! i = 0" using prep i by (simp add: mr_prepared_def)
  have ths': "(mr_mapper_thread_array (ms_mr s))[i := i + 1] =
      map (\<lambda>j. if j < Suc i then j + 1 else mr_mapper_thread_array m ! j) [0..<8]"
    (is "?l = ?r")
  proof (rule nth_equalityI)
    show "?l ! j = ?r ! j" if "j < length ?l" for j
      using that i8 unfolding ths by (cases "j = i") auto
  qed (simp add: ths)
  have pend: "pending ?n ?f = pending ?n (ms_mapper s)" by (rule pending_keep) (simp_all add: fi)
  have D': "mapped (?f j) = mapped (ms_mapper s j)" for j using fi by (simp add: mapped_def)
  have shape: "(ms_mr s)\<lparr>mr_mapper_thread_array := (mr_mapper_thread_array (ms_mr s))[i := i + 1]\<rparr> =
      mr_shape m ?f (Mr_creating (Suc i)) Rd_absent"
    unfolding ths' unfolding D(1) p r mr_shape_def Let_def pend D'
    by (intro map_reduce.equality) (simp_all add: before_reducer_def MAP_REDUCE_MAX_MAPPER_def)
  have "mr_middle m \<lparr>ms_mr = (ms_mr s)\<lparr>mr_mapper_thread_array := (mr_mapper_thread_array (ms_mr s))[i := i + 1]\<rparr>,
      ms_main = Mr_creating (Suc i), ms_mapper = ?f, ms_reducer = Rd_absent, ms_events = ms_events s\<rparr>"
  proof (rule mr_middleI)
    show "(?f j = Mp_absent) = (created ?n (Mr_creating (Suc i)) \<le> j)" for j using D(3) [of j] p by auto
    show "(ms_mr s)\<lparr>mr_mapper_thread_array := (mr_mapper_thread_array (ms_mr s))[i := i + 1]\<rparr> =
      mr_shape m ?f (Mr_creating (Suc i)) Rd_absent" by (rule shape)
  qed (use i D(8) p in \<open>simp_all add: before_reducer_def\<close>)
  moreover have "map_reduce_start s = Mr_to \<lparr>ms_mr = (ms_mr s)\<lparr>mr_mapper_thread_array := (mr_mapper_thread_array (ms_mr s))[i := i + 1]\<rparr>,
      ms_main = Mr_creating (Suc i), ms_mapper = ?f, ms_reducer = Rd_absent, ms_events = ms_events s\<rparr>"
    using p i i8 ths zero r D(1) by (simp add: Let_def)
  ultimately show ?thesis using r by auto
qed

lemma mr_test_and_wait_step:
  assumes prep: "mr_prepared m" and mid: "mr_middle m s"
    and p: "created (unat (mr_n_mappers m)) (ms_main s) = unat (mr_n_mappers m)" "before_reducer (ms_main s)"
    and c: "c = (ms_mr s)\<lparr>mr_wq_until_all_mappers_finish := \<lparr>mwq_appln_mutex = True, mwq_thread_wait_count = 0\<rparr>\<rparr>"
  shows "\<exists>s'. mr_test_and_wait (s\<lparr>ms_mr := c\<rparr>) = Mr_to s' \<and> mr_middle m s' \<and>
    ms_main s' \<in> {Mr_blocked, Mr_launching} \<and> ms_mapper s' = ms_mapper s \<and> ms_reducer s' = ms_reducer s"
proof -
  note P = mr_prepared_facts [OF prep] and D = mr_middleD [OF mid]
  let ?n = "unat (mr_n_mappers m)" and ?f = "ms_mapper s"
  have r: "ms_reducer s = Rd_absent" using D(4) p(2) by simp
  have ev: "ms_events s = []" using D(8) p(2) by (auto simp: before_reducer_def)
  have pend: "(of_nat (pending ?n ?f) :: u8) = 0 \<longleftrightarrow> pending ?n ?f = 0"
    using pending_le [of ?n ?f] P(1) by (intro of_nat_u8_0) simp
  have abs: "?f j = Mp_absent \<longleftrightarrow> ?n \<le> j" for j using D(3) p(1) by simp
  have shape: "c\<lparr>mr_wq_until_all_mappers_finish := \<lparr>mwq_appln_mutex = True, mwq_thread_wait_count = k\<rparr>\<rparr> = mr_shape m ?f q Rd_absent"
    if "k = (if q = Mr_blocked then 1 else 0)" "q \<in> {Mr_blocked, Mr_launching}" for k q
    using that p r unfolding c D(1) mr_shape_def Let_def
    by (intro map_reduce.equality) (auto simp: before_reducer_def)
  show ?thesis
  proof (cases "pending ?n ?f = 0")
    case True
    have "mr_middle m \<lparr>ms_mr = c, ms_main = Mr_launching, ms_mapper = ?f, ms_reducer = Rd_absent, ms_events = []\<rparr>"
      using True abs shape [of 0 Mr_launching] by (intro mr_middleI) (simp_all add: before_reducer_def c)
    moreover have "mr_test_and_wait (s\<lparr>ms_mr := c\<rparr>) =
        Mr_to \<lparr>ms_mr = c, ms_main = Mr_launching, ms_mapper = ?f, ms_reducer = Rd_absent, ms_events = []\<rparr>"
      using True r ev D(1) by (simp add: mr_test_and_wait_def wq_is_any_mapper_in_progress_def c Let_def)
    ultimately show ?thesis using r by auto
  next
    case False
    let ?c = "c\<lparr>mr_wq_until_all_mappers_finish := \<lparr>mwq_appln_mutex = True, mwq_thread_wait_count = 1\<rparr>\<rparr>"
    have "mr_middle m \<lparr>ms_mr = ?c, ms_main = Mr_blocked, ms_mapper = ?f, ms_reducer = Rd_absent, ms_events = []\<rparr>"
      using False abs shape [of 1 Mr_blocked] by (intro mr_middleI) (simp_all add: before_reducer_def)
    moreover have "mr_test_and_wait (s\<lparr>ms_mr := c\<rparr>) =
        Mr_to \<lparr>ms_mr = ?c, ms_main = Mr_blocked, ms_mapper = ?f, ms_reducer = Rd_absent, ms_events = []\<rparr>"
      using False pend r ev D(1) by (simp add: mr_test_and_wait_def wq_is_any_mapper_in_progress_def c Let_def)
    ultimately show ?thesis using r by auto
  qed
qed

lemma mr_wq_shape: "mr_wq_until_all_mappers_finish (mr_shape m f p r) =
  \<lparr>mwq_appln_mutex = (\<forall>i. p \<noteq> Mr_creating i), mwq_thread_wait_count = (if p = Mr_blocked \<or> p = Mr_woken then 1 else 0)\<rparr>"
  by (simp add: mr_shape_def Let_def)

lemma mr_start_waiting:
  assumes prep: "mr_prepared m" and mid: "mr_middle m s"
    and p: "ms_main s = Mr_creating (unat (mr_n_mappers m)) \<or> ms_main s = Mr_woken"
  shows "\<exists>s'. map_reduce_start s = Mr_to s' \<and> mr_middle m s' \<and>
    ms_main s' \<in> {Mr_blocked, Mr_launching} \<and> ms_mapper s' = ms_mapper s \<and> ms_reducer s' = ms_reducer s"
proof -
  note D = mr_middleD [OF mid]
  let ?c = "(ms_mr s)\<lparr>mr_wq_until_all_mappers_finish := \<lparr>mwq_appln_mutex = True, mwq_thread_wait_count = 0\<rparr>\<rparr>"
  have "map_reduce_start s = mr_test_and_wait (s\<lparr>ms_mr := ?c\<rparr>)"
    using p D(1) by (auto simp: Let_def mr_wq_shape)
  then show ?thesis
    using mr_test_and_wait_step [OF prep mid _ _ refl] p by (auto simp: before_reducer_def)
qed

lemma mr_start_launching:
  assumes mid: "mr_middle m s" and p: "ms_main s = Mr_launching"
  shows "\<exists>s'. map_reduce_start s = Mr_to s' \<and> mr_middle m s' \<and> ms_main s' = Mr_sem_waiting \<and>
    ms_mapper s' = ms_mapper s \<and> ms_reducer s' = Rd_started"
proof -
  note D = mr_middleD [OF mid]
  let ?n = "unat (mr_n_mappers m)"
  have r: "ms_reducer s = Rd_absent" using D(4) p by (simp add: before_reducer_def)
  have "mr_middle m \<lparr>ms_mr = (ms_mr s)\<lparr>mr_reducer_thread := ?n + 1\<rparr>, ms_main = Mr_sem_waiting, ms_mapper = ms_mapper s,
      ms_reducer = Rd_started, ms_events = ms_events s\<rparr>"
  proof (rule mr_middleI)
    show "(ms_mr s)\<lparr>mr_reducer_thread := ?n + 1\<rparr> = mr_shape m (ms_mapper s) Mr_sem_waiting Rd_started"
      unfolding D(1) p r mr_shape_def Let_def by (intro map_reduce.equality) (simp_all add: before_reducer_def)
  qed (use D(3,6,8) p in \<open>auto simp: before_reducer_def\<close>)
  moreover have "map_reduce_start s = Mr_to \<lparr>ms_mr = (ms_mr s)\<lparr>mr_reducer_thread := ?n + 1\<rparr>, ms_main = Mr_sem_waiting,
      ms_mapper = ms_mapper s, ms_reducer = Rd_started, ms_events = ms_events s\<rparr>"
    using p D(1) by (simp add: Let_def)
  ultimately show ?thesis by auto
qed

lemma mr_sem_shape: "mr_reducer_finished_semaphore (mr_shape m f p r) = (if r = Rd_finished \<and> p = Mr_sem_waiting then 1 else 0)"
  by (simp add: mr_shape_def Let_def)

lemma mr_start_sem_waiting:
  assumes mid: "mr_middle m s" and p: "ms_main s = Mr_sem_waiting" and r: "ms_reducer s = Rd_finished"
  shows "\<exists>s'. map_reduce_start s = Mr_to s' \<and> mr_middle m s' \<and> ms_main s' = Mr_reading \<and>
    ms_mapper s' = ms_mapper s \<and> ms_reducer s' = Rd_finished"
proof -
  note D = mr_middleD [OF mid]
  let ?c = "(ms_mr s)\<lparr>mr_reducer_finished_semaphore := 0\<rparr>"
  have "mr_middle m \<lparr>ms_mr = ?c, ms_main = Mr_reading, ms_mapper = ms_mapper s, ms_reducer = Rd_finished, ms_events = ms_events s\<rparr>"
  proof (rule mr_middleI)
    show "?c = mr_shape m (ms_mapper s) Mr_reading Rd_finished"
      unfolding D(1) p r mr_shape_def Let_def by (intro map_reduce.equality) (simp_all add: before_reducer_def)
  qed (use D(3,6,8) p in \<open>auto simp: before_reducer_def\<close>)
  moreover have "map_reduce_start s = Mr_to \<lparr>ms_mr = ?c, ms_main = Mr_reading, ms_mapper = ms_mapper s,
      ms_reducer = Rd_finished, ms_events = ms_events s\<rparr>"
    using p r D(1) by (simp add: Let_def mr_sem_shape)
  ultimately show ?thesis by auto
qed

lemma mr_output_shape: "mr_reducer_result (mr_shape m f p Rd_finished) = mr_output m"
  by (simp add: mr_shape_def Let_def)

lemma mr_start_reading:
  assumes mid: "mr_middle m s" and p: "ms_main s = Mr_reading"
  shows "\<exists>s'. map_reduce_start s = Mr_to s' \<and> mr_middle m s' \<and> ms_main s' = Mr_cleaning \<and>
    ms_mapper s' = ms_mapper s \<and> ms_reducer s' = ms_reducer s"
proof -
  note D = mr_middleD [OF mid]
  have r: "ms_reducer s = Rd_finished" using D(7) p by simp
  let ?e = "if mr_reducer_output_reader m then [Output_read (mr_output m)] else []"
  have "mr_middle m \<lparr>ms_mr = ms_mr s, ms_main = Mr_cleaning, ms_mapper = ms_mapper s, ms_reducer = Rd_finished, ms_events = ?e\<rparr>"
  proof (rule mr_middleI)
    show "ms_mr s = mr_shape m (ms_mapper s) Mr_cleaning Rd_finished"
      unfolding D(1) p r mr_shape_def Let_def by (intro map_reduce.equality) (simp_all add: before_reducer_def)
  qed (use D(3,6) p in \<open>auto simp: before_reducer_def\<close>)
  moreover have "map_reduce_start s = Mr_to \<lparr>ms_mr = ms_mr s, ms_main = Mr_cleaning, ms_mapper = ms_mapper s,
      ms_reducer = Rd_finished, ms_events = ?e\<rparr>"
    using p r D(1,8) by (simp add: Let_def mr_output_shape)
  ultimately show ?thesis using r by auto
qed

lemma mr_start_cleaning:
  assumes prep: "mr_prepared m" and mid: "mr_middle m s" and p: "ms_main s = Mr_cleaning"
  shows "\<exists>s'. map_reduce_start s = Mr_to s' \<and> mr_end m s' \<and> ms_mapper s' = ms_mapper s \<and> ms_reducer s' = ms_reducer s"
proof -
  note D = mr_middleD [OF mid] and P = mr_prepared_facts [OF prep]
  let ?n = "unat (mr_n_mappers m)"
  have r: "ms_reducer s = Rd_finished" using D(7) p by simp
  have pend: "pending ?n (ms_mapper s) = 0" using D(6) p by simp
  then have fin: "ms_mapper s i = (if i < ?n then Mp_finished else Mp_absent)" for i
    using D(3) [of i] p by (auto simp: pending_0)
  have res: "mr_results m (\<lambda>i. mapped (ms_mapper s i)) = mr_results m (\<lambda>i. i < ?n)"
    by (simp add: mr_results_def mapped_def fin)
  obtain m' evs where c: "map_reduce_cleanup (ms_mr s) = (m', evs)" by (cases "map_reduce_cleanup (ms_mr s)")
  have fields: "mr_mapper_input_array_cleanup (ms_mr s) = mr_mapper_input_array_cleanup m"
    "mr_mapper_output_array_cleanup (ms_mr s) = mr_mapper_output_array_cleanup m"
    "mr_reducer_output_cleanup (ms_mr s) = mr_reducer_output_cleanup m"
    "mr_mapper_input_array (ms_mr s) = mr_inputs m" "mr_mapper_result_array (ms_mr s) = mr_results m (\<lambda>i. i < ?n)"
    "mr_reducer_result (ms_mr s) = mr_output m" "mr_n_mappers (ms_mr s) = mr_n_mappers m"
    "mr_mappers_in_progress (ms_mr s) = 0" "length (mr_mapper_thread_array (ms_mr s)) = 8"
    using D(1) res pend r by (simp_all add: mr_shape_def Let_def MAP_REDUCE_MAX_MAPPER_def)
  have e1: "snd (cleanup_vectors (mr_mapper_input_array_cleanup m) Input_cleaned ?n (mr_inputs m)) =
      (if mr_mapper_input_array_cleanup m then map Input_cleaned (some_values (take ?n (mr_inputs m))) else [])"
    by (rule cleanup_vectors_events) (use P(1,5) in simp)
  have e2: "snd (cleanup_vectors (mr_mapper_output_array_cleanup m) Result_cleaned ?n (mr_results m (\<lambda>i. i < ?n))) =
      (if mr_mapper_output_array_cleanup m then map Result_cleaned (some_values (take ?n (mr_results m (\<lambda>i. i < ?n)))) else [])"
    by (rule cleanup_vectors_events) (use P(1) in \<open>simp add: length_mr_results\<close>)
  have evs: "ms_events s @ evs = mr_sequential m"
    using c e1 e2 fields(1-7) D(8) p
    by (auto simp: map_reduce_cleanup_def mr_sequential_def Let_def split: prod.splits if_splits)
  have m': "mr_mappers_in_progress m' = 0" "mr_mapper_thread_array m' = cleanup_threads ?n (mr_mapper_thread_array (ms_mr s))"
    "mr_reducer_thread m' = 0" "mr_n_mappers m' = mr_n_mappers m"
    using c fields(7,8) by (auto simp: map_reduce_cleanup_def Let_def split: prod.splits if_splits)
  have "mr_end m (s\<lparr>ms_mr := m', ms_events := ms_events s @ evs, ms_main := Mr_returned\<rparr>)"
    using evs m' fin r fields(9) P(1) by (simp add: mr_end_def Let_def cleanup_threads_zero)
  then show ?thesis using p c by (simp add: Let_def)
qed

lemma mr_mapper_in_range:
  assumes "mr_middle m s" "ms_mapper s i \<noteq> Mp_absent"
  shows "i < unat (mr_n_mappers m)"
  using mr_middleD(2,3) [OF assms(1)] assms(2) by (meson not_le order_trans)

lemma mr_mapper_started:
  assumes prep: "mr_prepared m" and mid: "mr_middle m s" and fi: "ms_mapper s i = Mp_started"
  shows "\<exists>s'. mapper_wrapper i s = Mr_to s' \<and> mr_middle m s' \<and> ms_main s' = ms_main s \<and>
    ms_mapper s' = (ms_mapper s)(i := Mp_mapped) \<and> ms_reducer s' = ms_reducer s"
proof -
  note P = mr_prepared_facts [OF prep] and D = mr_middleD [OF mid]
  let ?n = "unat (mr_n_mappers m)" and ?f = "(ms_mapper s)(i := Mp_mapped)"
  obtain g where g: "mr_mapper_fn m = Some g" using P(2) by auto
  have i: "i < ?n" using mr_mapper_in_range [OF mid] fi by simp
  then have i8: "i < 8" using P(1) by simp
  let ?R = "mr_results m (\<lambda>i. mapped (ms_mapper s i))"
  let ?c = "(ms_mr s)\<lparr>mr_mapper_result_array := ?R[i := g (mr_inputs m ! i) (?R ! i)]\<rparr>"
  have "(\<lambda>j. mapped (?f j)) = (\<lambda>j. mapped (ms_mapper s j))(i := True)" by (auto simp: mapped_def)
  moreover have "?R[i := the (mr_mapper_fn m) (mr_inputs m ! i) (?R ! i)] =
      mr_results m ((\<lambda>j. mapped (ms_mapper s j))(i := True))"
    by (rule mr_results_upd) (use i8 fi in \<open>auto simp: mapped_def\<close>)
  ultimately have res: "?R[i := g (mr_inputs m ! i) (?R ! i)] = mr_results m (\<lambda>j. mapped (?f j))" using g by simp
  have pend: "pending ?n ?f = pending ?n (ms_mapper s)" by (rule pending_keep) (simp_all add: fi)
  have "mr_middle m \<lparr>ms_mr = ?c, ms_main = ms_main s, ms_mapper = ?f, ms_reducer = ms_reducer s, ms_events = ms_events s\<rparr>"
  proof (rule mr_middleI)
    show "(?f j = Mp_absent) = (created ?n (ms_main s) \<le> j)" for j using D(3) [of j] fi by (cases "j = i") auto
    show "?c = mr_shape m ?f (ms_main s) (ms_reducer s)"
      unfolding res unfolding D(1) mr_shape_def Let_def pend by (intro map_reduce.equality) simp_all
    show "pending ?n ?f \<noteq> 0" if "ms_main s = Mr_blocked" using D(5) that pend by simp
    show "pending ?n ?f = 0" if "ms_main s \<in> {Mr_launching, Mr_sem_waiting, Mr_reading, Mr_cleaning}"
      using D(6) [OF that] pend by simp
  qed (use D(2,4,7,8,9) in auto)
  moreover have "mapper_wrapper i s = Mr_to \<lparr>ms_mr = ?c, ms_main = ms_main s, ms_mapper = ?f, ms_reducer = ms_reducer s,
      ms_events = ms_events s\<rparr>"
    using fi g i8 P(5) D(1) by (simp add: Let_def length_mr_results)
  ultimately show ?thesis by auto
qed

lemma mr_mapper_mapped:
  assumes prep: "mr_prepared m" and mid: "mr_middle m s" and fi: "ms_mapper s i = Mp_mapped"
  shows "\<exists>s'. mapper_wrapper i s = Mr_to s' \<and> mr_middle m s' \<and>
    ms_main s' = (if ms_main s = Mr_blocked then Mr_woken else ms_main s) \<and>
    ms_mapper s' = (ms_mapper s)(i := Mp_finished) \<and> ms_reducer s' = ms_reducer s"
proof -
  note P = mr_prepared_facts [OF prep] and D = mr_middleD [OF mid]
  let ?n = "unat (mr_n_mappers m)" and ?f = "(ms_mapper s)(i := Mp_finished)"
    and ?p = "if ms_main s = Mr_blocked then Mr_woken else ms_main s"
  have i: "i < ?n" using mr_mapper_in_range [OF mid] fi by simp
  have pend: "pending ?n (ms_mapper s) = Suc (pending ?n ?f)" using pending_finish [OF i] fi by simp
  let ?c = "(ms_mr s)\<lparr>mr_mappers_in_progress := mr_mappers_in_progress (ms_mr s) - 1\<rparr>"
  have dec: "mr_mappers_in_progress (ms_mr s) - 1 = of_nat (pending ?n ?f)" using D(1) pend by simp
  have D': "mapped (?f j) = mapped (ms_mapper s j)" for j using fi by (simp add: mapped_def)
  have none: "ms_main s \<notin> {Mr_launching, Mr_sem_waiting, Mr_reading, Mr_cleaning}" using D(6) pend by auto
  have "mr_middle m \<lparr>ms_mr = ?c, ms_main = ?p, ms_mapper = ?f, ms_reducer = ms_reducer s, ms_events = ms_events s\<rparr>"
  proof (rule mr_middleI)
    show "(?f j = Mp_absent) = (created ?n ?p \<le> j)" for j using D(3) [of j] fi by (cases "j = i") auto
    show "?c = mr_shape m ?f ?p (ms_reducer s)"
      unfolding dec unfolding D(1) mr_shape_def Let_def D' by (intro map_reduce.equality) (auto simp: before_reducer_def)
    show "pending ?n ?f = 0" if "?p \<in> {Mr_launching, Mr_sem_waiting, Mr_reading, Mr_cleaning}"
      using none that by (auto split: if_splits)
  qed (use D(2,4,7,8,9) in \<open>auto simp: before_reducer_def split: if_splits\<close>)
  moreover have "mapper_wrapper i s = Mr_to \<lparr>ms_mr = ?c, ms_main = ?p, ms_mapper = ?f, ms_reducer = ms_reducer s,
      ms_events = ms_events s\<rparr>"
    using fi D(1) by (cases "ms_main s") (simp_all add: Let_def mr_wait_queue_broadcast_def mr_wq_shape)
  ultimately show ?thesis by auto
qed

lemma mr_reducer_step:
  assumes prep: "mr_prepared m" and mid: "mr_middle m s" and r: "ms_reducer s \<notin> {Rd_absent, Rd_finished}"
  shows "\<exists>s'. reducer_wrapper s = Mr_to s' \<and> mr_middle m s' \<and> ms_main s' = ms_main s \<and> ms_mapper s' = ms_mapper s \<and>
    (ms_reducer s, ms_reducer s') \<in> {(Rd_started, Rd_running), (Rd_running, Rd_reduced), (Rd_reduced, Rd_posting), (Rd_posting, Rd_finished)}"
proof -
  note P = mr_prepared_facts [OF prep] and D = mr_middleD [OF mid]
  let ?n = "unat (mr_n_mappers m)"
  obtain g where g: "mr_reducer_fn m = Some g" using P(3) by auto
  have p: "ms_main s = Mr_sem_waiting"
    using r D(4,7,9) by (cases "ms_main s") (auto simp: before_reducer_def)
  have pend: "pending ?n (ms_mapper s) = 0" using D(6) p by simp
  then have "mapped (ms_mapper s i) = (i < ?n)" for i
    using D(3) [of i] p by (auto simp: pending_0 mapped_def)
  then have res: "mr_results m (\<lambda>i. mapped (ms_mapper s i)) = mr_results m (\<lambda>i. i < ?n)" by simp
  define c where "c = (case ms_reducer s of
      Rd_started \<Rightarrow> (ms_mr s)\<lparr>mr_is_reducer_in_progress := True\<rparr>
    | Rd_running \<Rightarrow> (ms_mr s)\<lparr>mr_reducer_result := mr_output m\<rparr>
    | Rd_reduced \<Rightarrow> (ms_mr s)\<lparr>mr_is_reducer_in_progress := False\<rparr>
    | _ \<Rightarrow> (ms_mr s)\<lparr>mr_reducer_finished_semaphore := 1\<rparr>)"
  define q where "q = (case ms_reducer s of Rd_started \<Rightarrow> Rd_running | Rd_running \<Rightarrow> Rd_reduced
    | Rd_reduced \<Rightarrow> Rd_posting | _ \<Rightarrow> Rd_finished)"
  have "mr_middle m \<lparr>ms_mr = c, ms_main = Mr_sem_waiting, ms_mapper = ms_mapper s, ms_reducer = q, ms_events = []\<rparr>"
  proof (rule mr_middleI)
    show "c = mr_shape m (ms_mapper s) Mr_sem_waiting q"
      using r unfolding c_def q_def unfolding D(1) p mr_shape_def Let_def
      by (cases "ms_reducer s") (auto intro!: map_reduce.equality)
    show "(ms_mapper s j = Mp_absent) = (created ?n Mr_sem_waiting \<le> j)" for j using D(3) [of j] p by simp
  qed (use pend r in \<open>auto simp: before_reducer_def q_def split: reducer_pc.splits\<close>)
  moreover have "mr_reducer_result (mr_shape m (ms_mapper s) Mr_sem_waiting Rd_running) = mr_reducer_result m"
    by (simp add: mr_shape_def Let_def)
  then have "reducer_wrapper s = Mr_to \<lparr>ms_mr = c, ms_main = Mr_sem_waiting, ms_mapper = ms_mapper s, ms_reducer = q, ms_events = []\<rparr>"
    using r p g D(1,8) res unfolding c_def q_def
    by (cases "ms_reducer s") (simp_all add: Let_def mr_sem_shape mr_output_def)
  ultimately show ?thesis using p r unfolding q_def by (cases "ms_reducer s") auto
qed

section \<open>Progress and termination\<close>

fun main_rank :: "nat \<Rightarrow> main_pc \<Rightarrow> nat" where
  "main_rank n Mr_ready = 8 + n" | "main_rank n (Mr_creating i) = 7 + (n - i)" | "main_rank n Mr_woken = 6"
| "main_rank n Mr_blocked = 5" | "main_rank n Mr_launching = 4" | "main_rank n Mr_sem_waiting = 3"
| "main_rank n Mr_reading = 2" | "main_rank n Mr_cleaning = 1" | "main_rank n Mr_returned = 0"

fun mapper_rank :: "mapper_pc \<Rightarrow> nat" where
  "mapper_rank Mp_absent = 3" | "mapper_rank Mp_started = 3" | "mapper_rank Mp_mapped = 2" | "mapper_rank Mp_finished = 0"

fun reducer_rank :: "reducer_pc \<Rightarrow> nat" where
  "reducer_rank Rd_absent = 4" | "reducer_rank Rd_started = 4" | "reducer_rank Rd_running = 3"
| "reducer_rank Rd_reduced = 2" | "reducer_rank Rd_posting = 1" | "reducer_rank Rd_finished = 0"

definition mr_work :: "nat \<Rightarrow> 'v mr_state \<Rightarrow> nat" where
  "mr_work n s = main_rank n (ms_main s) + sum_threads {..<n} mapper_rank (ms_mapper s) + reducer_rank (ms_reducer s)"

lemma mapper_work:
  assumes "i < n"
  shows "sum_threads {..<n} mapper_rank (f(i := v)) + mapper_rank (f i) = sum_threads {..<n} mapper_rank f + mapper_rank v"
  using assms by (intro sum_threads_upd) simp_all

lemma mr_main_step:
  assumes prep: "mr_prepared m" and mid: "mr_middle m s"
  shows "map_reduce_start s = Mr_wait \<or>
    (\<exists>s'. map_reduce_start s = Mr_to s' \<and> mr_inv m s' \<and> mr_work (unat (mr_n_mappers m)) s' < mr_work (unat (mr_n_mappers m)) s)"
proof (cases "ms_main s")
  case Mr_ready
  then show ?thesis using mr_middleD(9) [OF mid] by simp
next
  case (Mr_creating i)
  show ?thesis
  proof (cases "i < unat (mr_n_mappers m)")
    case True
    have "ms_mapper s i = Mp_absent" using mr_middleD(3) [OF mid] Mr_creating by simp
    then show ?thesis using mr_start_creating [OF prep mid Mr_creating True] Mr_creating mapper_work [OF True, of "ms_mapper s" Mp_started] True
      by (auto simp: mr_work_def mr_inv_def)
  next
    case False
    then have "i = unat (mr_n_mappers m)" using mr_middleD(2) [OF mid] Mr_creating by simp
    then show ?thesis using mr_start_waiting [OF prep mid] Mr_creating by (auto simp: mr_work_def mr_inv_def)
  qed
next
  case Mr_blocked
  then show ?thesis by simp
next
  case Mr_woken
  then show ?thesis using mr_start_waiting [OF prep mid] by (auto simp: mr_work_def mr_inv_def)
next
  case Mr_launching
  have "ms_reducer s = Rd_absent" using mr_middleD(4) [OF mid] Mr_launching by (simp add: before_reducer_def)
  then show ?thesis using mr_start_launching [OF mid Mr_launching] Mr_launching by (auto simp: mr_work_def mr_inv_def)
next
  case Mr_sem_waiting
  show ?thesis
  proof (cases "ms_reducer s = Rd_finished")
    case True
    then show ?thesis using mr_start_sem_waiting [OF mid Mr_sem_waiting True] Mr_sem_waiting by (auto simp: mr_work_def mr_inv_def)
  next
    case False
    then show ?thesis using Mr_sem_waiting mr_middleD(1) [OF mid] by (simp add: Let_def mr_sem_shape)
  qed
next
  case Mr_reading
  then show ?thesis using mr_start_reading [OF mid Mr_reading] by (auto simp: mr_work_def mr_inv_def)
next
  case Mr_cleaning
  then show ?thesis using mr_start_cleaning [OF prep mid Mr_cleaning] by (auto simp: mr_work_def mr_inv_def mr_end_def Let_def)
next
  case Mr_returned
  then show ?thesis by simp
qed

lemma mr_mapper_step:
  assumes prep: "mr_prepared m" and mid: "mr_middle m s"
  shows "mapper_wrapper i s = Mr_wait \<or>
    (\<exists>s'. mapper_wrapper i s = Mr_to s' \<and> mr_inv m s' \<and> mr_work (unat (mr_n_mappers m)) s' < mr_work (unat (mr_n_mappers m)) s)"
proof (cases "ms_mapper s i")
  case Mp_started
  have i: "i < unat (mr_n_mappers m)" using mr_mapper_in_range [OF mid] Mp_started by simp
  show ?thesis using mr_mapper_started [OF prep mid Mp_started] Mp_started mapper_work [OF i, of "ms_mapper s" Mp_mapped]
    by (auto simp: mr_work_def mr_inv_def)
next
  case Mp_mapped
  have i: "i < unat (mr_n_mappers m)" using mr_mapper_in_range [OF mid] Mp_mapped by simp
  show ?thesis using mr_mapper_mapped [OF prep mid Mp_mapped] Mp_mapped mapper_work [OF i, of "ms_mapper s" Mp_finished]
    by (auto simp: mr_work_def mr_inv_def split: if_splits)
qed simp_all

lemma mr_step_ok:
  assumes prep: "mr_prepared m" and inv: "mr_inv m s"
  shows "mr_next t s = Mr_wait \<or>
    (\<exists>s'. mr_next t s = Mr_to s' \<and> mr_inv m s' \<and> mr_work (unat (mr_n_mappers m)) s' < mr_work (unat (mr_n_mappers m)) s)"
proof -
  consider "s = mr_call m" | "mr_middle m s" | "mr_end m s" using inv by (auto simp: mr_inv_def)
  then show ?thesis
  proof cases
    case 1
  have "sum_threads {..<n} mapper_rank (\<lambda>_. Mp_absent) = 3 * n" for n by (simp add: sum_threads_def)
  then show ?thesis using mr_start_ready [OF prep] 1
    by (cases t) (auto simp: mr_call_def mr_work_def mr_inv_def Let_def simp del: map_reduce_start.simps)
next
    case mid: 2
  show ?thesis
  proof (cases t)
    case Mr_main_th
    then show ?thesis using mr_main_step [OF prep mid] by (simp del: map_reduce_start.simps)
  next
    case (Mr_mapper_th i)
    then show ?thesis using mr_mapper_step [OF prep mid, of i] by (simp del: mapper_wrapper.simps)
  next
    case Mr_reducer_th
    show ?thesis
    proof (cases "ms_reducer s \<in> {Rd_absent, Rd_finished}")
      case True
      then show ?thesis using Mr_reducer_th by (auto simp: Let_def)
    next
      case False
      then show ?thesis using mr_reducer_step [OF prep mid False] Mr_reducer_th
        by (auto simp: mr_work_def mr_inv_def simp del: reducer_wrapper.simps)
    qed
  qed
next
    case 3
  then show ?thesis by (cases t) (auto simp: mr_end_def Let_def)
qed
qed

lemma mr_spurious_inv:
  assumes "mr_middle m s" "ms_main s = Mr_blocked"
  shows "mr_middle m (s\<lparr>ms_main := Mr_woken\<rparr>)"
proof -
  note D = mr_middleD [OF assms(1)]
  have "mr_middle m \<lparr>ms_mr = ms_mr s, ms_main = Mr_woken, ms_mapper = ms_mapper s, ms_reducer = ms_reducer s, ms_events = ms_events s\<rparr>"
  proof (rule mr_middleI)
    show "ms_mr s = mr_shape m (ms_mapper s) Mr_woken (ms_reducer s)"
      unfolding D(1) mr_shape_def Let_def assms(2) by (intro map_reduce.equality) (auto simp: before_reducer_def)
  qed (use D(2,3,4,8) assms(2) in \<open>auto simp: before_reducer_def\<close>)
  moreover have e: "s\<lparr>ms_main := Mr_woken\<rparr> = \<lparr>ms_mr = ms_mr s, ms_main = Mr_woken, ms_mapper = ms_mapper s,
      ms_reducer = ms_reducer s, ms_events = ms_events s\<rparr>" by (cases s) simp
  ultimately show ?thesis by (rule ssubst [rotated])
qed

lemma mr_reach_inv:
  assumes prep: "mr_prepared m" and r: "mr_reach sp m k s"
  shows "mr_inv m s"
  using r
proof induction
  case (step k s t s')
  then show ?case using mr_step_ok [OF prep step.IH, of t] by auto
next
  case (spurious k s)
  then show ?case using mr_spurious_inv by (auto simp: mr_inv_def mr_call_def mr_end_def Let_def)
qed (simp add: mr_inv_def)

lemma mr_reach_work:
  assumes prep: "mr_prepared m" and r: "mr_reach False m k s"
  shows "k + mr_work (unat (mr_n_mappers m)) s \<le> 4 * unat (mr_n_mappers m) + 12"
  using r
proof induction
  case start
  show ?case by (simp add: mr_work_def mr_call_def sum_threads_def)
next
  case (step k s t s')
  then show ?case using mr_step_ok [OF prep mr_reach_inv [OF prep step.hyps(1)], of t] by auto
qed simp

lemma mr_somebody_moves:
  assumes prep: "mr_prepared m" and inv: "mr_inv m s" and main: "ms_main s \<noteq> Mr_returned"
  shows "\<exists>t s'. mr_next t s = Mr_to s'"
proof -
  have "\<exists>t. mr_next t s \<noteq> Mr_wait"
  proof (cases "mr_middle m s")
    case False
    then have "s = mr_call m" using inv main by (auto simp: mr_inv_def mr_end_def Let_def)
    then show ?thesis using mr_start_ready [OF prep] by (metis mr_next.simps(1) mr_outcome.distinct(5))
  next
    case mid: True
    note D = mr_middleD [OF mid]
    show ?thesis
    proof (cases "ms_main s = Mr_blocked")
      case True
      then obtain i where i: "i < unat (mr_n_mappers m)" "ms_mapper s i \<noteq> Mp_finished" using D(5) by (auto simp: pending_0)
      moreover have "ms_mapper s i \<noteq> Mp_absent" using D(3) [of i] i(1) True by simp
      ultimately have "mapper_wrapper i s \<noteq> Mr_wait"
        by (cases "ms_mapper s i") (auto simp: Let_def split: option.splits)
      then show ?thesis by (intro exI [of _ "Mr_mapper_th i"]) (simp del: mapper_wrapper.simps)
    next
      case nb: False
      show ?thesis
      proof (cases "ms_main s = Mr_sem_waiting \<and> ms_reducer s \<noteq> Rd_finished")
        case True
        then have "ms_reducer s \<noteq> Rd_absent" using D(4) by (auto simp: before_reducer_def)
        then have "reducer_wrapper s \<noteq> Mr_wait" using mr_reducer_step [OF prep mid] True by fastforce
        then show ?thesis by (intro exI [of _ Mr_reducer_th]) (simp del: reducer_wrapper.simps)
      next
        case False
        then have "map_reduce_start s \<noteq> Mr_wait"
          using nb main D(1,9) by (cases "ms_main s")
            (auto simp: Let_def mr_test_and_wait_def mr_sem_shape map_reduce_cleanup_def split: prod.splits)
        then show ?thesis by (intro exI [of _ Mr_main_th]) (simp del: map_reduce_start.simps)
      qed
    qed
  qed
  then show ?thesis using mr_step_ok [OF prep inv] by blast
qed

section \<open>An execution\<close>

text \<open>Two mappers that square the two halves of the data, a reducer that adds.\<close>

definition mr_nat_iovec :: "nat \<Rightarrow> nat mr_iovec" where
  "mr_nat_iovec x = \<lparr>iov_base = Some x, iov_data_len = 4\<rparr>"

definition mr_value :: "nat mr_iovec option \<Rightarrow> nat" where
  "mr_value v = (case v of None \<Rightarrow> 0 | Some x \<Rightarrow> the (iov_base x))"

definition mr_demo :: "nat map_reduce" where
  "mr_demo = map_reduce_register_cleanup_fns True True True (map_reduce_set_reducer_output_reader True
     (map_reduce_set_reducer_fn (\<lambda>results n old. mr_nat_iovec (sum_list (map mr_value (take n results))))
     (map_reduce_set_mapper_fn (\<lambda>inp old. Some (mr_nat_iovec (mr_value inp * mr_value inp)))
     (map_reduce_set_data_splitter (\<lambda>app_data inputs n. inputs[0 := Some (mr_nat_iovec 3), 1 := Some (mr_nat_iovec 4)])
     (map_reduce_init 2)))))"

definition mr_demo_schedule :: "mr_thread list" where
  "mr_demo_schedule = [Mr_main_th, Mr_main_th, Mr_main_th, Mr_main_th, Mr_mapper_th 1, Mr_mapper_th 1, Mr_main_th,
     Mr_mapper_th 0, Mr_mapper_th 0, Mr_main_th, Mr_main_th, Mr_reducer_th, Mr_reducer_th, Mr_reducer_th, Mr_reducer_th,
     Mr_main_th, Mr_main_th, Mr_main_th]"

lemmas mr_demo_defs = mr_demo_def map_reduce_register_cleanup_fns_def map_reduce_set_reducer_output_reader_def
  map_reduce_set_reducer_fn_def map_reduce_set_mapper_fn_def map_reduce_set_data_splitter_def map_reduce_init_def

lemma mr_demo_prepared: "mr_prepared mr_demo"
  by (auto simp: mr_prepared_def mr_demo_defs MAP_REDUCE_MAX_MAPPER_def)

lemma mr_demo_reach:
  assumes "map_option g (mr_run ts (mr_call mr_demo)) = Some v"
  obtains s where "mr_reach False mr_demo (length ts) s" "g s = v"
proof -
  obtain s where run: "mr_run ts (mr_call mr_demo) = Some s" and s: "g s = v"
    using assms unfolding map_option_eq_Some by blast
  show thesis by (rule that [OF _ s]) (use mr_run_reach [OF mr_reach.start run, of False] in simp)
qed

section \<open>Properties\<close>

text \<open>C13. The concurrent execution is equivalent to the sequential one: whatever the interleaving of
  the mappers, the reducer and the caller, when \<^verbatim>\<open>map_reduce_start\<close> returns the output reader has
  seen the reducer's result over the results of all mappers, then each input, each result and the
  output have been cleaned up, each exactly once, in that order, and all threads have finished. The
  object cannot be used a second time: with at least one mapper, a second start fails an assertion.\<close>

theorem map_reduce_sequential:
  assumes "mr_prepared m" "mr_reach sp m k s" "ms_main s = Mr_returned"
  shows "ms_events s = mr_sequential m \<and>
    (\<forall>i < unat (mr_n_mappers m). ms_mapper s i = Mp_finished) \<and> ms_reducer s = Rd_finished \<and>
    (mr_n_mappers m \<noteq> 0 \<longrightarrow> map_reduce_start (mr_call (ms_mr s)) = Mr_fault)"
proof -
  have "mr_end m s"
    using mr_reach_inv [OF assms(1,2)] assms(3) by (auto simp: mr_inv_def mr_call_def mr_middle_def Let_def)
  then show ?thesis by (auto simp: mr_end_def Let_def mr_call_def)
qed

theorem map_reduce_sequential_witness:
  "\<exists>s. mr_reach False mr_demo 18 s \<and> ms_main s = Mr_returned \<and> ms_events s = mr_sequential mr_demo \<and>
    ms_events s = [Output_read (mr_nat_iovec 25), Input_cleaned (mr_nat_iovec 3), Input_cleaned (mr_nat_iovec 4),
      Result_cleaned (mr_nat_iovec 9), Result_cleaned (mr_nat_iovec 16), Output_cleaned (mr_nat_iovec 25)] \<and>
    map_reduce_start (mr_call (ms_mr s)) = Mr_fault"
proof -
  have "map_option (\<lambda>s. (ms_main s, ms_events s)) (mr_run mr_demo_schedule (mr_call mr_demo)) = Some (Mr_returned,
      [Output_read (mr_nat_iovec 25), Input_cleaned (mr_nat_iovec 3), Input_cleaned (mr_nat_iovec 4),
       Result_cleaned (mr_nat_iovec 9), Result_cleaned (mr_nat_iovec 16), Output_cleaned (mr_nat_iovec 25)])"
    by code_simp
  then obtain s where s: "mr_reach False mr_demo (length mr_demo_schedule) s" "(ms_main s, ms_events s) = (Mr_returned,
      [Output_read (mr_nat_iovec 25), Input_cleaned (mr_nat_iovec 3), Input_cleaned (mr_nat_iovec 4),
       Result_cleaned (mr_nat_iovec 9), Result_cleaned (mr_nat_iovec 16), Output_cleaned (mr_nat_iovec 25)])"
    by (rule mr_demo_reach)
  have "length mr_demo_schedule = 18" "mr_n_mappers mr_demo \<noteq> 0" by (simp_all add: mr_demo_schedule_def mr_demo_defs)
  then show ?thesis using map_reduce_sequential [OF mr_demo_prepared s(1)] s by (intro exI [of _ s]) simp
qed

text \<open>C21. Without spurious wake-ups every execution with \<open>n\<close> mappers ends after at most \<open>4 n + 12\<close>
  steps, and as long as the caller has not returned, some thread can go on: \<^verbatim>\<open>map_reduce_start\<close>
  always returns.\<close>

theorem map_reduce_terminates:
  assumes "mr_prepared m" "mr_reach False m k s"
  shows "k \<le> 4 * unat (mr_n_mappers m) + 12 \<and> (ms_main s \<noteq> Mr_returned \<longrightarrow> (\<exists>t s'. mr_next t s = Mr_to s'))"
  using mr_reach_work [OF assms] mr_somebody_moves [OF assms(1) mr_reach_inv [OF assms]] by auto

theorem map_reduce_terminates_witness:
  "\<exists>s. mr_reach False mr_demo 4 s \<and> ms_main s = Mr_blocked \<and> (\<exists>t s'. mr_next t s = Mr_to s')"
proof -
  have "map_option ms_main (mr_run (take 4 mr_demo_schedule) (mr_call mr_demo)) = Some Mr_blocked" by code_simp
  then obtain s where s: "mr_reach False mr_demo (length (take 4 mr_demo_schedule)) s" "ms_main s = Mr_blocked"
    by (rule mr_demo_reach)
  have "length (take 4 mr_demo_schedule) = 4" by (simp add: mr_demo_schedule_def)
  then show ?thesis using map_reduce_terminates [OF mr_demo_prepared s(1)] s by (intro exI [of _ s]) simp
qed

text \<open>No assertion of the code fails, no access is outside an array and no NULL function is
  called, and the reducer runs only when every mapper has finished, over the results of all of them,
  spurious wake-ups included.\<close>

theorem map_reduce_reducer_last:
  assumes "mr_prepared m" "mr_reach sp m k s"
  shows "mr_next t s \<noteq> Mr_fault \<and>
    (ms_reducer s \<noteq> Rd_absent \<longrightarrow> (\<forall>i < unat (mr_n_mappers m). ms_mapper s i = Mp_finished)) \<and>
    (ms_reducer s \<notin> {Rd_absent, Rd_finished} \<longrightarrow>
       mr_mapper_result_array (ms_mr s) = mr_results m (\<lambda>i. i < unat (mr_n_mappers m)))"
proof -
  have inv: "mr_inv m s" by (rule mr_reach_inv [OF assms])
  have "(\<forall>i < unat (mr_n_mappers m). ms_mapper s i = Mp_finished) \<and>
    (ms_reducer s \<noteq> Rd_finished \<longrightarrow> mr_mapper_result_array (ms_mr s) = mr_results m (\<lambda>i. i < unat (mr_n_mappers m)))"
    if r: "ms_reducer s \<noteq> Rd_absent"
  proof (cases "mr_middle m s")
    case True
    note D = mr_middleD [OF True]
    have p: "ms_main s \<in> {Mr_sem_waiting, Mr_reading, Mr_cleaning}"
      using r D(4,9) by (cases "ms_main s") (auto simp: before_reducer_def)
    then have pend: "pending (unat (mr_n_mappers m)) (ms_mapper s) = 0" using D(6) by auto
    then have "mapped (ms_mapper s i) = (i < unat (mr_n_mappers m))" for i
      using D(3) [of i] p by (auto simp: pending_0 mapped_def)
    then show ?thesis using pend D(1) by (simp add: pending_0)
  next
    case False
    then show ?thesis using inv r by (auto simp: mr_inv_def mr_call_def mr_end_def Let_def)
  qed
  then show ?thesis using mr_step_ok [OF assms(1) inv, of t] by auto
qed

theorem map_reduce_reducer_last_witness:
  "\<exists>s. mr_reach False mr_demo 12 s \<and> ms_reducer s = Rd_running \<and> ms_mapper s 1 = Mp_finished \<and> mr_next Mr_reducer_th s \<noteq> Mr_fault"
proof -
  have "map_option ms_reducer (mr_run (take 12 mr_demo_schedule) (mr_call mr_demo)) = Some Rd_running" by code_simp
  then obtain s where s: "mr_reach False mr_demo (length (take 12 mr_demo_schedule)) s" "ms_reducer s = Rd_running"
    by (rule mr_demo_reach)
  have "length (take 12 mr_demo_schedule) = 12" "1 < unat (mr_n_mappers mr_demo)" by (simp_all add: mr_demo_schedule_def mr_demo_defs)
  then show ?thesis using map_reduce_reducer_last [OF mr_demo_prepared s(1), of Mr_reducer_th] s by (intro exI [of _ s]) simp
qed

text \<open>\<^verbatim>\<open>map_reduce_is_in_progress\<close> says no while the work is going on: between the end of the
  last mapper and the start of the reducer neither a mapper nor the reducer counts as in progress.\<close>

theorem map_reduce_progress_gap:
  assumes "mr_prepared m" "mr_reach sp m k s" "ms_main s = Mr_launching"
  shows "\<not> map_reduce_is_in_progress (ms_mr s) \<and> ms_reducer s = Rd_absent \<and> ms_events s = []"
proof -
  have mid: "mr_middle m s"
    using mr_reach_inv [OF assms(1,2)] assms(3) by (auto simp: mr_inv_def mr_call_def mr_end_def Let_def)
  note D = mr_middleD [OF mid]
  have r: "ms_reducer s = Rd_absent" using D(4) assms(3) by (simp add: before_reducer_def)
  have "\<not> mr_is_reducer_in_progress (ms_mr s)" using D(1) r by (simp add: mr_shape_def Let_def)
  then show ?thesis using D(1,6,8) assms(3) r by (simp add: map_reduce_is_in_progress_def)
qed

theorem map_reduce_progress_gap_witness:
  "\<exists>s. mr_reach False mr_demo 10 s \<and> ms_main s = Mr_launching \<and> \<not> map_reduce_is_in_progress (ms_mr s)"
proof -
  have "map_option ms_main (mr_run (take 10 mr_demo_schedule) (mr_call mr_demo)) = Some Mr_launching" by code_simp
  then obtain s where s: "mr_reach False mr_demo (length (take 10 mr_demo_schedule)) s" "ms_main s = Mr_launching"
    by (rule mr_demo_reach)
  have "length (take 10 mr_demo_schedule) = 10" by (simp add: mr_demo_schedule_def)
  then show ?thesis using map_reduce_progress_gap [OF mr_demo_prepared s(1,2)] s by (intro exI [of _ s]) simp
qed

text \<open>The number of mappers is not compared with the room in the arrays: with more than eight
  mappers the caller runs past the end of \<^verbatim>\<open>mapper_thread_array\<close>.\<close>

theorem map_reduce_too_many_mappers:
  assumes "MAP_REDUCE_MAX_MAPPER < unat n"
  shows "\<exists>k s. mr_reach False (map_reduce_set_mapper_fn f (map_reduce_set_data_splitter split (map_reduce_init n))) k s \<and>
    ms_main s = Mr_creating MAP_REDUCE_MAX_MAPPER \<and> map_reduce_start s = Mr_fault"
proof -
  let ?m = "map_reduce_set_mapper_fn f (map_reduce_set_data_splitter split (map_reduce_init n))"
  note defs = map_reduce_set_mapper_fn_def map_reduce_set_data_splitter_def map_reduce_init_def MAP_REDUCE_MAX_MAPPER_def
  have "i \<le> 8 \<Longrightarrow> \<exists>k s. mr_reach False ?m k s \<and> ms_main s = Mr_creating i \<and> mr_n_mappers (ms_mr s) = n \<and>
      length (mr_mapper_thread_array (ms_mr s)) = 8 \<and> (\<forall>j\<in>{i..<8}. mr_mapper_thread_array (ms_mr s) ! j = 0)" for i
  proof (induction i)
    case 0
    obtain s where s: "mr_next Mr_main_th (mr_call ?m) = Mr_to s" "ms_main s = Mr_creating 0" "mr_n_mappers (ms_mr s) = n"
      "mr_mapper_thread_array (ms_mr s) = replicate 8 0"
      by (simp add: mr_call_def defs)
    then show ?case using mr_reach.step [OF mr_reach.start s(1)] by (intro exI [of _ 1] exI [of _ s]) auto
  next
    case (Suc i)
    then obtain k s where s: "mr_reach False ?m k s" "ms_main s = Mr_creating i" "mr_n_mappers (ms_mr s) = n"
      "length (mr_mapper_thread_array (ms_mr s)) = 8" "\<forall>j\<in>{i..<8}. mr_mapper_thread_array (ms_mr s) ! j = 0" by auto
    then obtain s' where s': "mr_next Mr_main_th s = Mr_to s'" "ms_main s' = Mr_creating (Suc i)" "mr_n_mappers (ms_mr s') = n"
      "mr_mapper_thread_array (ms_mr s') = (mr_mapper_thread_array (ms_mr s))[i := Suc i]"
      using Suc.prems assms by (simp add: Let_def MAP_REDUCE_MAX_MAPPER_def)
    then show ?case using mr_reach.step [OF s(1) s'(1)] s(4,5) by (intro exI [of _ "Suc k"] exI [of _ s']) auto
  qed
  from this [of 8] obtain k s where s: "mr_reach False ?m k s" "ms_main s = Mr_creating 8" "mr_n_mappers (ms_mr s) = n"
    "length (mr_mapper_thread_array (ms_mr s)) = 8" by auto
  then have "map_reduce_start s = Mr_fault" using assms by (simp add: Let_def MAP_REDUCE_MAX_MAPPER_def)
  then show ?thesis using s(1,2) unfolding MAP_REDUCE_MAX_MAPPER_def by blast
qed

theorem map_reduce_too_many_mappers_witness:
  "\<exists>k s. mr_reach False (map_reduce_set_mapper_fn (\<lambda>inp old. inp)
      (map_reduce_set_data_splitter (\<lambda>app inputs n. inputs) (map_reduce_init 9 :: nat map_reduce))) k s \<and>
    ms_main s = Mr_creating MAP_REDUCE_MAX_MAPPER \<and> map_reduce_start s = Mr_fault"
  by (rule map_reduce_too_many_mappers) (simp add: MAP_REDUCE_MAX_MAPPER_def)

end
