(* ===== verification/RtTable.thy ===== *)
theory RtTable
  imports Prelude "HOL-Library.Monad_Syntax"
begin

text \<open>
  The routing table with notifications of \<^verbatim>\<open>ThreadBasics/NFC/rt.c\<close>, \<^verbatim>\<open>rt.h\<close>, \<^verbatim>\<open>notif.c\<close> and
  \<^verbatim>\<open>notif.h\<close>: entries in a doubly linked list on a heap, each with a chain of subscribers whose
  functions are called when the entry is added, changed or deleted. The code has no lock: an operation
  is one step. A call of a subscriber is recorded with what it is told: the entry, the operation and the
  subscriber's number. \<open>None\<close> is a fault: a dereferenced NULL or freed entry, a failed assertion, an
  endless loop.
\<close>

section \<open>Notification chains\<close>

definition MAX_NOTIF_KEY_SIZE :: nat where
  "MAX_NOTIF_KEY_SIZE = 64"

datatype nfc_op = NFC_UNKNOWN | NFC_SUB | NFC_ADD | NFC_MOD | NFC_DEL

definition nfc_get_str_op_code :: "nfc_op \<Rightarrow> string" where
  "nfc_get_str_op_code nfc_op_code = (case nfc_op_code of
      NFC_UNKNOWN \<Rightarrow> ''NFC_UNKNOWN'' | NFC_SUB \<Rightarrow> ''NFC_SUB'' | NFC_ADD \<Rightarrow> ''NFC_ADD''
    | NFC_MOD \<Rightarrow> ''NFC_MOD'' | NFC_DEL \<Rightarrow> ''NFC_DEL'')"

text \<open>A key is the list of its bytes; \<open>app_cb\<close> is the address of the application's function.\<close>

record notif_chain_elem =
  nfce_key :: "u8 list"
  nfce_key_size :: nat
  nfce_subs_id :: u32
  nfce_is_key_set :: bool
  nfce_app_cb :: addr

text \<open>The elements are linked by the list of \<open>Glthread\<close>, here the list it implements.\<close>

record notif_chain =
  nfc_name :: string
  nfc_notif_chain_head :: "notif_chain_elem list"

record 'a nfc_call =
  call_cb :: addr
  call_arg :: 'a
  call_op :: nfc_op
  call_subs_id :: u32

definition nfc_create_new_notif_chain :: "string option \<Rightarrow> notif_chain" where
  "nfc_create_new_notif_chain notif_chain_name =
     \<lparr>nfc_name = (case notif_chain_name of None \<Rightarrow> [] | Some n \<Rightarrow> take 64 n), nfc_notif_chain_head = []\<rparr>"

definition nfc_register_notif_chain :: "notif_chain \<Rightarrow> notif_chain_elem \<Rightarrow> notif_chain" where
  "nfc_register_notif_chain nfc nfce = nfc\<lparr>nfc_notif_chain_head := nfce # nfc_notif_chain_head nfc\<rparr>"

definition nfc_delete_all_nfce :: "notif_chain \<Rightarrow> notif_chain" where
  "nfc_delete_all_nfce nfc = nfc\<lparr>nfc_notif_chain_head := []\<rparr>"

definition app_cb :: "'a \<Rightarrow> nfc_op \<Rightarrow> notif_chain_elem \<Rightarrow> 'a nfc_call" where
  "app_cb arg op nfce = \<lparr>call_cb = nfce_app_cb nfce, call_arg = arg, call_op = op, call_subs_id = nfce_subs_id nfce\<rparr>"

definition nfc_invoke_notif_chain ::
  "notif_chain \<Rightarrow> 'a \<Rightarrow> u8 list option \<Rightarrow> nat \<Rightarrow> nfc_op \<Rightarrow> 'a nfc_call list option" where
  "nfc_invoke_notif_chain nfc arg key key_size nfc_op_code =
     (if nfc_notif_chain_head nfc = [] then Some []
      else if key_size \<le> MAX_NOTIF_KEY_SIZE
      then Some (map (app_cb arg nfc_op_code) (filter (\<lambda>nfce.
             if \<not> (key \<noteq> None \<and> key_size \<noteq> 0 \<and> nfce_is_key_set nfce \<and> key_size = nfce_key_size nfce) then True
             else take key_size (the key) = take key_size (nfce_key nfce)) (nfc_notif_chain_head nfc)))
      else None)"

section \<open>The table\<close>

text \<open>Texts in arrays of 16 and 32 bytes: \<^verbatim>\<open>strncpy\<close> and \<^verbatim>\<open>strncmp\<close> take that many characters.\<close>

record rt_entry =
  re_dest :: string
  re_mask :: u8
  re_gw_ip :: string
  re_oif :: string
  re_created :: bool
  re_prev :: addr
  re_next :: addr
  re_nfc :: "notif_chain option"

type_synonym rt_heap = "addr \<Rightarrow> rt_entry option"

text \<open>The table with the heap of its entries, the next address \<^verbatim>\<open>calloc\<close> returns, and the calls made.\<close>

record rt_table =
  rt_head :: addr
  rt_heap :: rt_heap
  rt_brk :: addr
  rt_calls :: "rt_entry nfc_call list"

definition rd_entry :: "addr \<Rightarrow> rt_heap \<Rightarrow> rt_entry option" where
  "rd_entry p h = (if p = 0 then None else h p)"

definition wr_entry :: "addr \<Rightarrow> (rt_entry \<Rightarrow> rt_entry) \<Rightarrow> rt_heap \<Rightarrow> rt_heap option" where
  "wr_entry p f h = map_option (\<lambda>e. h(p \<mapsto> f e)) (rd_entry p h)"

text \<open>What a subscriber sees of an entry: not its place in the list.\<close>

definition row :: "rt_entry \<Rightarrow> rt_entry" where
  "row e = e\<lparr>re_prev := 0, re_next := 0\<rparr>"

definition rt_init_rt_table :: "rt_table \<Rightarrow> rt_table" where
  "rt_init_rt_table s = s\<lparr>rt_head := 0\<rparr>"

definition rt_key_eq :: "string \<Rightarrow> u8 \<Rightarrow> rt_entry \<Rightarrow> bool" where
  "rt_key_eq dest msk e \<longleftrightarrow> take 16 (re_dest e) = take 16 dest \<and> re_mask e = msk"

text \<open>The loop over the table that looks for a key; 0 is NULL.\<close>

partial_function (option) rt_find :: "rt_heap \<Rightarrow> string \<Rightarrow> u8 \<Rightarrow> addr \<Rightarrow> addr option" where
  "rt_find h dest msk p =
     (if p = 0 then Some 0
      else Option.bind (rd_entry p h) (\<lambda>e. if rt_key_eq dest msk e then Some p else rt_find h dest msk (re_next e)))"

definition rt_look_up_rt_entry :: "rt_table \<Rightarrow> string \<Rightarrow> u8 \<Rightarrow> addr option" where
  "rt_look_up_rt_entry s dest msk = rt_find (rt_heap s) dest msk (rt_head s)"

definition rt_entry_remove :: "rt_table \<Rightarrow> addr \<Rightarrow> rt_table option" where
  "rt_entry_remove s p = do {
     e \<leftarrow> rd_entry p (rt_heap s);
     if re_prev e = 0
     then if re_next e \<noteq> 0
          then do {
            h1 \<leftarrow> wr_entry (re_next e) (\<lambda>x. x\<lparr>re_prev := 0\<rparr>) (rt_heap s);
            h2 \<leftarrow> wr_entry p (\<lambda>x. x\<lparr>re_next := 0\<rparr>) h1;
            Some (s\<lparr>rt_head := re_next e, rt_heap := h2\<rparr>)
          }
          else Some (s\<lparr>rt_head := 0\<rparr>)
     else if re_next e = 0
     then do {
       h1 \<leftarrow> wr_entry (re_prev e) (\<lambda>x. x\<lparr>re_next := 0\<rparr>) (rt_heap s);
       h2 \<leftarrow> wr_entry p (\<lambda>x. x\<lparr>re_prev := 0\<rparr>) h1;
       Some (s\<lparr>rt_heap := h2\<rparr>)
     }
     else do {
       h1 \<leftarrow> wr_entry (re_prev e) (\<lambda>x. x\<lparr>re_next := re_next e\<rparr>) (rt_heap s);
       h2 \<leftarrow> wr_entry (re_next e) (\<lambda>x. x\<lparr>re_prev := re_prev e\<rparr>) h1;
       h3 \<leftarrow> wr_entry p (\<lambda>x. x\<lparr>re_prev := 0, re_next := 0\<rparr>) h2;
       Some (s\<lparr>rt_heap := h3\<rparr>)
     }
   }"

text \<open>\<^verbatim>\<open>nfc_invoke_notif_chain\<close> for an entry, without key.\<close>

definition rt_notify :: "rt_table \<Rightarrow> addr \<Rightarrow> nfc_op \<Rightarrow> rt_table option" where
  "rt_notify s p op = do {
     e \<leftarrow> rd_entry p (rt_heap s);
     nfc \<leftarrow> re_nfc e;
     cs \<leftarrow> nfc_invoke_notif_chain nfc (row e) None 0 op;
     Some (s\<lparr>rt_calls := rt_calls s @ cs\<rparr>)
   }"

definition rt_new_entry :: "string \<Rightarrow> u8 \<Rightarrow> rt_entry" where
  "rt_new_entry dest msk = \<lparr>re_dest = take 16 dest, re_mask = msk, re_gw_ip = [], re_oif = [], re_created = False,
     re_prev = 0, re_next = 0, re_nfc = Some (nfc_create_new_notif_chain None)\<rparr>"

definition set_text :: "(string \<Rightarrow> rt_entry \<Rightarrow> rt_entry) \<Rightarrow> nat \<Rightarrow> string option \<Rightarrow> rt_entry \<Rightarrow> rt_entry" where
  "set_text put n text e = (case text of None \<Rightarrow> e | Some t \<Rightarrow> put (take n t) e)"

definition rt_add_or_update_rt_entry ::
  "rt_table \<Rightarrow> string \<Rightarrow> u8 \<Rightarrow> string option \<Rightarrow> string option \<Rightarrow> (addr \<times> rt_table) option" where
  "rt_add_or_update_rt_entry s dest msk gw_ip oif = do {
     found \<leftarrow> rt_look_up_rt_entry s dest msk;
     let new_entry = (found = 0);
     let p = (if new_entry then rt_brk s else found);
     let s1 = (if new_entry
               then s\<lparr>rt_heap := (rt_heap s)(p \<mapsto> rt_new_entry dest msk), rt_brk := rt_brk s + 1\<rparr> else s);
     h2 \<leftarrow> wr_entry p (\<lambda>e. set_text (\<lambda>t x. x\<lparr>re_oif := t\<rparr>) 32 oif (set_text (\<lambda>t x. x\<lparr>re_gw_ip := t\<rparr>) 16 gw_ip e)) (rt_heap s1);
     s3 \<leftarrow> (if new_entry
            then do {
              let head = rt_head s1;
              h3 \<leftarrow> wr_entry p (\<lambda>e. e\<lparr>re_prev := 0, re_next := head\<rparr>) h2;
              h4 \<leftarrow> (if head \<noteq> 0 then wr_entry head (\<lambda>e. e\<lparr>re_prev := p\<rparr>) h3 else Some h3);
              Some (s1\<lparr>rt_head := p, rt_heap := h4\<rparr>)
            }
            else Some (s1\<lparr>rt_heap := h2\<rparr>));
     s4 \<leftarrow> (if gw_ip \<noteq> None \<or> oif \<noteq> None then rt_notify s3 p NFC_MOD else Some s3);
     Some (p, s4)
   }"

definition rt_delete_rt_entry :: "rt_table \<Rightarrow> string \<Rightarrow> u8 \<Rightarrow> (bool \<times> rt_table) option" where
  "rt_delete_rt_entry s dest msk = do {
     p \<leftarrow> rt_find (rt_heap s) dest msk (rt_head s);
     if p = 0 then Some (False, s)
     else do {
       s1 \<leftarrow> rt_entry_remove s p;
       s2 \<leftarrow> rt_notify s1 p NFC_DEL;
       h3 \<leftarrow> wr_entry p (\<lambda>e. e\<lparr>re_nfc := map_option nfc_delete_all_nfce (re_nfc e)\<rparr>) (rt_heap s2);
       h4 \<leftarrow> wr_entry p (\<lambda>e. e\<lparr>re_nfc := None\<rparr>) h3;
       Some (True, s2\<lparr>rt_heap := h4(p := None)\<rparr>)
     }
   }"

definition rt_table_register_for_notification ::
  "rt_table \<Rightarrow> string \<Rightarrow> u8 \<Rightarrow> nat \<Rightarrow> addr \<Rightarrow> u32 \<Rightarrow> rt_table option" where
  "rt_table_register_for_notification s dest msk key_size cb subs_id = do {
     found \<leftarrow> rt_look_up_rt_entry s dest msk;
     let new_entry_created = (found = 0);
     (p, s1) \<leftarrow> (if new_entry_created then rt_add_or_update_rt_entry s dest msk None None else Some (found, s));
     let nfce = \<lparr>nfce_key = [], nfce_key_size = 0, nfce_subs_id = subs_id, nfce_is_key_set = False, nfce_app_cb = cb\<rparr>;
     if key_size \<le> MAX_NOTIF_KEY_SIZE
     then do {
       e \<leftarrow> rd_entry p (rt_heap s1);
       nfc \<leftarrow> re_nfc e;
       h2 \<leftarrow> wr_entry p (\<lambda>e. e\<lparr>re_nfc := Some (nfc_register_notif_chain nfc nfce)\<rparr>) (rt_heap s1);
       e2 \<leftarrow> rd_entry p h2;
       let s2 = s1\<lparr>rt_heap := h2\<rparr>;
       Some (if new_entry_created then s2 else s2\<lparr>rt_calls := rt_calls s2 @ [app_cb (row e2) NFC_ADD nfce]\<rparr>)
     }
     else None
   }"

end
