(* ===== verification/RtTableSpec.thy ===== *)
theory RtTableSpec
  imports RtTable
begin

text \<open>
  The routing table of \<open>RtTable\<close> implements a list of rows with distinct keys: every operation of the code
  keeps the doubly linked list well formed, does to the rows what the abstract operation does, and calls
  the subscribers the abstract operation calls.
\<close>

section \<open>Doubly linked segments\<close>

text \<open>\<open>dseg h pv p ps l q\<close>: from \<open>p\<close>, whose predecessor is \<open>pv\<close>, the nodes \<open>ps\<close> are linked both ways; the
  last one is \<open>l\<close> (\<open>pv\<close> if there is none) and its successor \<open>q\<close>.\<close>

fun dseg :: "rt_heap \<Rightarrow> addr \<Rightarrow> addr \<Rightarrow> addr list \<Rightarrow> addr \<Rightarrow> addr \<Rightarrow> bool" where
  "dseg h pv p [] l q \<longleftrightarrow> l = pv \<and> p = q"
| "dseg h pv p (a # as) l q \<longleftrightarrow> p = a \<and> a \<noteq> 0 \<and> (\<exists>e. h a = Some e \<and> re_prev e = pv \<and> dseg h a (re_next e) as l q)"

lemma dseg_append: "dseg h pv p (as @ bs) l q \<longleftrightarrow> (\<exists>m r. dseg h pv p as m r \<and> dseg h m r bs l q)"
  by (induction as arbitrary: pv p) auto

definition links :: "rt_heap \<Rightarrow> addr \<Rightarrow> (addr \<times> addr) option" where
  "links h p = map_option (\<lambda>e. (re_prev e, re_next e)) (h p)"

lemma dseg_cong: "(\<And>a. a \<in> set ps \<Longrightarrow> links h' a = links h a) \<Longrightarrow> dseg h' pv p ps l q = dseg h pv p ps l q"
proof (induction ps arbitrary: pv p)
  case (Cons a ps)
  then have "links h' a = links h a" "\<And>pv p. dseg h' pv p ps l q = dseg h pv p ps l q" by simp_all
  then show ?case by (cases "h a"; cases "h' a") (auto simp: links_def)
qed simp

lemma dseg_upd_other: "a \<notin> set ps \<Longrightarrow> dseg (h(a := v)) pv p ps l q = dseg h pv p ps l q"
  by (rule dseg_cong) (auto simp: links_def)

lemma dseg_in_heap: "dseg h pv p ps l q \<Longrightarrow> a \<in> set ps \<Longrightarrow> a \<noteq> 0 \<and> h a \<noteq> None"
  by (induction ps arbitrary: pv p) auto

lemma dseg_last: "dseg h pv p ps l q \<Longrightarrow> l = (if ps = [] then pv else last ps)"
  by (induction ps arbitrary: pv p) auto

lemma dseg_first: "dseg h pv p ps l q \<Longrightarrow> p = (if ps = [] then q else hd ps)"
  by (cases ps) auto

lemma dseg_set_prev:
  assumes "dseg h pv p (b # bs) l q" "b \<notin> set bs" "h b = Some e"
  shows "dseg (h(b \<mapsto> e\<lparr>re_prev := pv'\<rparr>)) pv' p (b # bs) l q"
proof -
  have "dseg (h(b \<mapsto> e\<lparr>re_prev := pv'\<rparr>)) b (re_next e) bs l q = dseg h b (re_next e) bs l q"
    using assms(2) by (intro dseg_cong) (auto simp: links_def)
  then show ?thesis using assms by simp
qed

lemma dseg_set_next:
  assumes "dseg h pv p ps l q" "ps \<noteq> []" "distinct ps" "h l = Some e"
  shows "dseg (h(l \<mapsto> e\<lparr>re_next := q'\<rparr>)) pv p ps l q'"
  using assms
proof (induction ps arbitrary: pv p)
  case (Cons a ps)
  obtain ea where ea: "h a = Some ea" "p = a" "a \<noteq> 0" "re_prev ea = pv" "dseg h a (re_next ea) ps l q" using Cons.prems(1) by auto
  show ?case
  proof (cases "ps = []")
    case True
    then show ?thesis using ea Cons.prems(4) by auto
  next
    case False
    then have "l \<in> set ps" using dseg_last [OF ea(5)] by simp
    then have "l \<noteq> a" using Cons.prems(3) by auto
    then show ?thesis using Cons.IH [OF ea(5) False _ Cons.prems(4)] Cons.prems(3) ea by simp
  qed
qed simp

text \<open>A segment between its first and last part.\<close>

lemma dseg_split:
  assumes "dseg h pv p (as @ a # bs) l q"
  obtains e where "h a = Some e" "a \<noteq> 0" "dseg h pv p as (re_prev e) a" "dseg h a (re_next e) bs l q"
  using assms by (auto simp: dseg_append)

section \<open>The table and its rows\<close>

definition rt_rep :: "rt_table \<Rightarrow> addr list \<Rightarrow> rt_entry list \<Rightarrow> bool" where
  "rt_rep s ps rows \<longleftrightarrow>
     (\<exists>l. dseg (rt_heap s) 0 (rt_head s) ps l 0) \<and> distinct ps \<and>
     map (\<lambda>p. map_option row (rt_heap s p)) ps = map Some rows \<and>
     dom (rt_heap s) = set ps \<and> (\<forall>p\<in>set ps. p < rt_brk s) \<and> 0 < rt_brk s"

lemma row_simps [simp]:
  "row (e\<lparr>re_prev := x\<rparr>) = row e" "row (e\<lparr>re_next := x\<rparr>) = row e" "row (row e) = row e"
  "re_dest (row e) = re_dest e" "re_mask (row e) = re_mask e" "re_gw_ip (row e) = re_gw_ip e" "re_oif (row e) = re_oif e"
  "re_nfc (row e) = re_nfc e" "re_prev (row e) = 0" "re_next (row e) = 0"
  by (simp_all add: row_def)

lemma rt_key_eq_row [simp]: "rt_key_eq d m (row e) = rt_key_eq d m e"
  by (simp add: rt_key_eq_def)

lemma rt_repD:
  assumes "rt_rep s ps rows"
  obtains l where "dseg (rt_heap s) 0 (rt_head s) ps l 0" "distinct ps" "map (\<lambda>p. map_option row (rt_heap s p)) ps = map Some rows"
    "dom (rt_heap s) = set ps" "\<And>p. p \<in> set ps \<Longrightarrow> p < rt_brk s" "0 < rt_brk s" "0 \<notin> set ps"
proof -
  obtain l where l: "dseg (rt_heap s) 0 (rt_head s) ps l 0" using assms by (auto simp: rt_rep_def)
  have "0 \<notin> set ps" using dseg_in_heap [OF l, of 0] by blast
  with l assms that show thesis by (auto simp: rt_rep_def)
qed

lemma rt_find_dseg:
  "dseg h pv p ps l 0 \<Longrightarrow>
    rt_find h d m p = Some (case find (\<lambda>a. rt_key_eq d m (the (h a))) ps of None \<Rightarrow> 0 | Some a \<Rightarrow> a)"
proof (induction ps arbitrary: pv p)
  case Nil
  then show ?case by (subst rt_find.simps) simp
next
  case (Cons a ps)
  then obtain e where e: "h a = Some e" "p = a" "a \<noteq> 0" "dseg h a (re_next e) ps l 0" by auto
  show ?case using Cons.IH [OF e(4)] e by (subst rt_find.simps) (simp add: rd_entry_def)
qed

text \<open>A look-up finds the place of the first row with the key.\<close>

lemma rt_find_row:
  assumes rep: "rt_rep s ps rows"
  shows "(rt_find (rt_heap s) d m (rt_head s) = Some 0 \<and> \<not> (\<exists>e\<in>set rows. rt_key_eq d m e)) \<or>
    (\<exists>as a bs ras e rbs. rt_find (rt_heap s) d m (rt_head s) = Some a \<and> a \<noteq> 0 \<and> ps = as @ a # bs \<and> rows = ras @ row e # rbs \<and>
       length ras = length as \<and> rt_heap s a = Some e \<and> rt_key_eq d m e \<and> (\<forall>x\<in>set ras. \<not> rt_key_eq d m x))"
proof -
  obtain l where D: "dseg (rt_heap s) 0 (rt_head s) ps l 0" "map (\<lambda>p. map_option row (rt_heap s p)) ps = map Some rows" "0 \<notin> set ps"
    by (rule rt_repD [OF rep]) blast
  let ?P = "\<lambda>a. rt_key_eq d m (the (rt_heap s a))"
  have len: "length rows = length ps" using D(2) by (metis length_map)
  have nth: "\<exists>e. rt_heap s (ps ! i) = Some e \<and> rows ! i = row e" if "i < length ps" for i
    using arg_cong [OF D(2), of "\<lambda>xs. xs ! i"] that len by auto
  have key: "rt_key_eq d m (rows ! i) = ?P (ps ! i)" if "i < length ps" for i using nth [OF that] by auto
  show ?thesis
  proof (cases "find ?P ps")
    case None
    then have "\<not> ?P (ps ! i)" if "i < length ps" for i using that by (simp add: find_None_iff)
    then have "\<not> (\<exists>e\<in>set rows. rt_key_eq d m e)" using key len by (metis in_set_conv_nth)
    then show ?thesis using rt_find_dseg [OF D(1), of d m] None by simp
  next
    case (Some a)
    then obtain i where i: "i < length ps" "?P (ps ! i)" "a = ps ! i" "\<forall>j<i. \<not> ?P (ps ! j)" by (auto simp: find_Some_iff)
    obtain e where e: "rt_heap s a = Some e" "rows ! i = row e" using nth [OF i(1)] i(3) by auto
    have "ps = take i ps @ a # drop (Suc i) ps" using i(1,3) by (simp add: id_take_nth_drop)
    moreover have "rows = take i rows @ row e # drop (Suc i) rows" using i(1) e(2) len by (metis id_take_nth_drop)
    moreover have "\<not> rt_key_eq d m x" if "x \<in> set (take i rows)" for x
    proof -
      obtain j where "j < i" "x = rows ! j" using \<open>x \<in> set (take i rows)\<close> i(1) len by (auto simp: in_set_conv_nth)
      then show ?thesis using i(1,4) key [of j] by simp
    qed
    moreover have "a \<noteq> 0" using D(3) i(1,3) by (metis nth_mem)
    moreover have "length (take i rows) = length (take i ps)" using len by simp
    ultimately show ?thesis using rt_find_dseg [OF D(1), of d m] Some e(1) i(2,3)
      by (intro disjI2 exI [of _ "take i ps"] exI [of _ a] exI [of _ "drop (Suc i) ps"] exI [of _ "take i rows"]
          exI [of _ e] exI [of _ "drop (Suc i) rows"]) simp
  qed
qed

lemma map_row_fun_upd:
  "a \<notin> set ps \<Longrightarrow> map (\<lambda>p. map_option row ((h(a := v)) p)) ps = map (\<lambda>p. map_option row (h p)) ps"
  by (induction ps) auto

text \<open>The parts of the rows that belong to the parts of the list.\<close>

lemma rt_rep_parts:
  assumes "rt_rep s (as @ a # bs) (ras @ r # rbs)" "length ras = length as"
  shows "map (\<lambda>p. map_option row (rt_heap s p)) as = map Some ras" "map_option row (rt_heap s a) = Some r"
    "map (\<lambda>p. map_option row (rt_heap s p)) bs = map Some rbs"
  using assms unfolding rt_rep_def by (simp_all add: append_eq_append_conv)

lemma rt_rep_set_row:
  assumes rep: "rt_rep s (as @ a # bs) (ras @ r # rbs)" "length ras = length as" and e: "rt_heap s a = Some e"
    and f: "re_prev e' = re_prev e" "re_next e' = re_next e"
  shows "rt_rep (s\<lparr>rt_heap := (rt_heap s)(a \<mapsto> e')\<rparr>) (as @ a # bs) (ras @ row e' # rbs)"
proof -
  obtain l where D: "dseg (rt_heap s) 0 (rt_head s) (as @ a # bs) l 0" "distinct (as @ a # bs)" "dom (rt_heap s) = set (as @ a # bs)"
    "\<And>p. p \<in> set (as @ a # bs) \<Longrightarrow> p < rt_brk s" "0 < rt_brk s"
    by (rule rt_repD [OF rep(1)]) blast
  have "links ((rt_heap s)(a \<mapsto> e')) p = links (rt_heap s) p" for p using e f by (simp add: links_def)
  then have "dseg ((rt_heap s)(a \<mapsto> e')) 0 (rt_head s) (as @ a # bs) l 0" using D(1) dseg_cong by metis
  moreover have "map (\<lambda>p. map_option row (((rt_heap s)(a \<mapsto> e')) p)) (as @ a # bs) = map Some (ras @ row e' # rbs)"
    using D(2) rt_rep_parts [OF rep] by (simp add: map_row_fun_upd del: fun_upd_apply) simp
  ultimately show ?thesis using D unfolding rt_rep_def by (auto simp: e)
qed

lemma rt_rep_calls [simp]: "rt_rep (s\<lparr>rt_calls := cs\<rparr>) ps rows = rt_rep s ps rows"
  by (simp add: rt_rep_def)

lemma rt_rep_cons:
  assumes rep: "rt_rep s ps rows" and p: "p = rt_brk s"
    and h: "h = (rt_heap s)(p \<mapsto> e\<lparr>re_prev := 0, re_next := rt_head s\<rparr>)"
    and h': "h' = (if rt_head s = 0 then h else h(rt_head s \<mapsto> (the (rt_heap s (rt_head s)))\<lparr>re_prev := p\<rparr>))"
  shows "rt_rep (s\<lparr>rt_brk := p + 1, rt_head := p, rt_heap := h'\<rparr>) (p # ps) (row e # rows)"
proof -
  obtain l where D: "dseg (rt_heap s) 0 (rt_head s) ps l 0" "distinct ps" "map (\<lambda>p. map_option row (rt_heap s p)) ps = map Some rows"
    "dom (rt_heap s) = set ps" "\<And>p. p \<in> set ps \<Longrightarrow> p < rt_brk s" "0 < rt_brk s" "0 \<notin> set ps"
    by (rule rt_repD [OF rep]) blast
  have new: "p \<notin> set ps" "p \<noteq> 0" using D(5,6) p by blast+
  show ?thesis
  proof (cases ps)
    case Nil
    then have hd0: "rt_head s = 0" "rows = []" using D(1,3) by simp_all
    then have "h' = (rt_heap s)(p \<mapsto> e\<lparr>re_prev := 0, re_next := 0\<rparr>)" using h h' by simp
    then show ?thesis using D(4) new hd0 Nil by (auto simp: rt_rep_def)
  next
    case (Cons b bs)
    have b: "rt_head s = b" "b \<noteq> 0" "b \<noteq> p" using D(1) Cons new by auto
    then obtain eb where eb: "rt_heap s b = Some eb" using D(4) Cons by auto
    have h'eq: "h' = ((rt_heap s)(b \<mapsto> eb\<lparr>re_prev := p\<rparr>))(p \<mapsto> e\<lparr>re_prev := 0, re_next := b\<rparr>)"
      using h h' b eb by (simp add: fun_upd_twist)
    have "dseg ((rt_heap s)(b \<mapsto> eb\<lparr>re_prev := p\<rparr>)) p b ps l 0"
      using dseg_set_prev [of "rt_heap s" 0 b b bs l 0 eb p] D(1,2) eb b(1) Cons by simp
    then have "dseg h' p b ps l 0" using new(1) by (simp add: h'eq dseg_upd_other)
    then have dseg: "dseg h' 0 p (p # ps) l 0" using new(2) by (simp add: h'eq)
    have "map_option row (h' x) = map_option row (rt_heap s x)" if "x \<in> set ps" for x
      using that new(1) eb by (auto simp: h'eq)
    then have rows: "map (\<lambda>x. map_option row (h' x)) (p # ps) = map Some (row e # rows)"
      using D(3) by (simp add: h'eq cong: map_cong)
    have dom: "dom h' = set (p # ps)" using D(4) eb by (auto simp: h'eq)
    show ?thesis
      unfolding rt_rep_def using dseg rows dom D(2,5) new p by (auto intro: less_SucI)
  qed
qed

lemma rt_rep_remove:
  assumes rep: "rt_rep s (as @ a # bs) (ras @ r # rbs)" "length ras = length as" and e: "rt_heap s a = Some e"
  shows "\<exists>s1 e1. rt_entry_remove s a = Some s1 \<and> rt_heap s1 a = Some e1 \<and> row e1 = row e \<and> rt_calls s1 = rt_calls s \<and>
    rt_rep (s1\<lparr>rt_heap := (rt_heap s1)(a := None)\<rparr>) (as @ bs) (ras @ rbs)"
proof -
  obtain l where D: "dseg (rt_heap s) 0 (rt_head s) (as @ a # bs) l 0" "distinct (as @ a # bs)" "dom (rt_heap s) = set (as @ a # bs)"
    "\<And>p. p \<in> set (as @ a # bs) \<Longrightarrow> p < rt_brk s" "0 < rt_brk s" "0 \<notin> set (as @ a # bs)"
    by (rule rt_repD [OF rep(1)]) blast
  let ?h = "rt_heap s"
  have S: "dseg ?h 0 (rt_head s) as (re_prev e) a" "dseg ?h a (re_next e) bs l 0" "a \<noteq> 0"
    using dseg_split [OF D(1)] e by auto
  have pe: "re_prev e = (if as = [] then 0 else last as)" "re_next e = (if bs = [] then 0 else hd bs)"
    using dseg_last [OF S(1)] dseg_first [OF S(2)] .
  have in0: "x \<in> set (as @ a # bs) \<Longrightarrow> x \<noteq> 0" for x using D(6) by metis
  have nz: "as \<noteq> [] \<Longrightarrow> last as \<noteq> 0" "bs \<noteq> [] \<Longrightarrow> hd bs \<noteq> 0"
    by (rule in0; simp)+
  obtain el eb where el: "as \<noteq> [] \<Longrightarrow> ?h (last as) = Some el" and eb: "bs \<noteq> [] \<Longrightarrow> ?h (hd bs) = Some eb"
    using dseg_in_heap [OF D(1), of "last as"] dseg_in_heap [OF D(1), of "hd bs"]
    by (metis Un_iff last_in_set list.set_intros(2) list.set_sel(1) not_None_eq set_append)
  have neq: "as \<noteq> [] \<Longrightarrow> last as \<noteq> a" "bs \<noteq> [] \<Longrightarrow> hd bs \<noteq> a" "as \<noteq> [] \<Longrightarrow> bs \<noteq> [] \<Longrightarrow> last as \<noteq> hd bs"
    "as \<noteq> [] \<Longrightarrow> last as \<notin> set bs" "bs \<noteq> [] \<Longrightarrow> hd bs \<notin> set as"
    using D(2) by (auto dest: last_in_set hd_in_set)
  define h1 where "h1 = (if as = [] then ?h else ?h(last as \<mapsto> el\<lparr>re_next := re_next e\<rparr>))"
  define h2 where "h2 = (if bs = [] then h1 else h1(hd bs \<mapsto> eb\<lparr>re_prev := re_prev e\<rparr>))"
  define hd' where "hd' = (if as = [] then re_next e else rt_head s)"
  have "dseg h1 0 hd' as (re_prev e) (re_next e)"
    using dseg_set_next [OF S(1), of el "re_next e"] S(1) D(2) el pe(1) by (auto simp: h1_def hd'_def)
  then have A: "dseg h2 0 hd' as (re_prev e) (re_next e)"
    using neq(5) by (simp add: h2_def dseg_upd_other)
  have "dseg h1 a (re_next e) bs l 0"
    using S(2) neq(4) by (simp add: h1_def dseg_upd_other)
  then have B: "\<exists>l'. dseg h2 (re_prev e) (re_next e) bs l' 0"
  proof (cases bs)
    case Nil
    then show ?thesis using pe(2) by (simp add: h2_def)
  next
    case (Cons b bs')
    have "h1 b = Some eb" using eb neq(3) Cons by (auto simp: h1_def)
    then show ?thesis using dseg_set_prev [of h1 a "re_next e" b bs' l 0 eb "re_prev e"] \<open>dseg h1 a (re_next e) bs l 0\<close> D(2) Cons
      by (auto simp: h2_def)
  qed
  obtain l' where C: "dseg h2 0 hd' (as @ bs) l' 0" using A B by (auto simp: dseg_append)
  obtain s1 e1 where s1: "rt_entry_remove s a = Some s1" "rt_heap s1 a = Some e1" "row e1 = row e" "rt_calls s1 = rt_calls s"
    "rt_head s1 = hd'" "rt_brk s1 = rt_brk s" "\<And>x. x \<noteq> a \<Longrightarrow> rt_heap s1 x = h2 x"
  proof (cases "as = []"; cases "bs = []")
    assume "as = []" "bs = []"
    then show thesis using that e S(3) pe by (simp add: rt_entry_remove_def rd_entry_def wr_entry_def h1_def h2_def hd'_def)
  next
    assume "as = []" "bs \<noteq> []"
    then show thesis using that [of _ "e\<lparr>re_next := 0\<rparr>"] e S(3) pe nz neq eb
      by (simp add: rt_entry_remove_def rd_entry_def wr_entry_def h1_def h2_def hd'_def)
  next
    assume "as \<noteq> []" "bs = []"
    then show thesis using that [of _ "e\<lparr>re_prev := 0\<rparr>"] e S(3) pe nz neq el
      by (simp add: rt_entry_remove_def rd_entry_def wr_entry_def h1_def h2_def hd'_def)
  next
    assume "as \<noteq> []" "bs \<noteq> []"
    then show thesis using that [of _ "e\<lparr>re_prev := 0, re_next := 0\<rparr>"] e S(3) pe nz neq el eb
      by (simp add: rt_entry_remove_def rd_entry_def wr_entry_def h1_def h2_def hd'_def)
  qed
  let ?h' = "(rt_heap s1)(a := None)"
  have h': "?h' x = h2 x" if "x \<in> set (as @ bs)" for x using that s1(7) D(2) by auto
  have "dseg ?h' 0 hd' (as @ bs) l' 0" using C h' by (subst dseg_cong [of _ _ h2]) (simp_all add: links_def)
  moreover have r1: "map_option row (h1 x) = map_option row (?h x)" for x
    unfolding h1_def by (cases "as = []"; cases "x = last as") (simp_all add: el)
  have r2: "map_option row (h2 x) = map_option row (h1 x)" for x
  proof (cases "bs = [] \<or> x \<noteq> hd bs")
    case False
    then have "h1 x = Some eb" using eb neq(3) by (cases "as = []") (simp_all add: h1_def)
    then show ?thesis using False by (simp add: h2_def)
  qed (auto simp: h2_def)
  have rows: "map_option row (?h' x) = map_option row (?h x)" if "x \<in> set (as @ bs)" for x
    unfolding h' [OF that] r2 r1 by (rule refl)
  have "map (\<lambda>x. map_option row (?h' x)) (as @ bs) = map (\<lambda>x. map_option row (?h x)) (as @ bs)"
    by (rule map_cong [OF refl rows])
  then have "map (\<lambda>x. map_option row (?h' x)) (as @ bs) = map Some (ras @ rbs)" using rt_rep_parts [OF rep] by simp
  moreover have "dom ?h' = set (as @ bs)"
  proof -
    have "(h2 x = None) = (?h x = None)" for x using r1 [of x] r2 [of x] by (metis option.map_disc_iff)
    then have "dom h2 = dom ?h" by (simp add: dom_def)
    then have "dom ?h' = dom ?h - {a}" using s1(7) by (auto simp: dom_def)
    then show ?thesis using D(2,3) by auto
  qed
  ultimately have "rt_rep (s1\<lparr>rt_heap := ?h'\<rparr>) (as @ bs) (ras @ rbs)"
    unfolding rt_rep_def using D(2,4,5) s1(5,6) by auto
  with s1 show ?thesis by blast
qed

section \<open>The abstract table\<close>

text \<open>A row is an entry without its links; a table is the list of its rows. Each abstract operation
  gives the rows after it and the calls it makes.\<close>

definition rt_key :: "rt_entry \<Rightarrow> string \<times> u8" where
  "rt_key e = (re_dest e, re_mask e)"

definition rows_ok :: "rt_entry list \<Rightarrow> bool" where
  "rows_ok rows \<longleftrightarrow> distinct (map rt_key rows) \<and> (\<forall>e\<in>set rows. re_nfc e \<noteq> None \<and> take 16 (re_dest e) = re_dest e)"

definition rt_update :: "string option \<Rightarrow> string option \<Rightarrow> rt_entry \<Rightarrow> rt_entry" where
  "rt_update gw_ip oif e = set_text (\<lambda>t x. x\<lparr>re_oif := t\<rparr>) 32 oif (set_text (\<lambda>t x. x\<lparr>re_gw_ip := t\<rparr>) 16 gw_ip e)"

definition rt_subscribe :: "notif_chain_elem \<Rightarrow> rt_entry \<Rightarrow> rt_entry" where
  "rt_subscribe nfce e = e\<lparr>re_nfc := map_option (\<lambda>nfc. nfc_register_notif_chain nfc nfce) (re_nfc e)\<rparr>"

definition subscription :: "addr \<Rightarrow> u32 \<Rightarrow> notif_chain_elem" where
  "subscription cb subs_id =
     \<lparr>nfce_key = [], nfce_key_size = 0, nfce_subs_id = subs_id, nfce_is_key_set = False, nfce_app_cb = cb\<rparr>"

definition calls_of :: "nfc_op \<Rightarrow> rt_entry \<Rightarrow> rt_entry nfc_call list" where
  "calls_of op e = (case re_nfc e of None \<Rightarrow> [] | Some nfc \<Rightarrow> map (app_cb e op) (nfc_notif_chain_head nfc))"

definition on_key :: "string \<Rightarrow> u8 \<Rightarrow> (rt_entry \<Rightarrow> rt_entry) \<Rightarrow> rt_entry list \<Rightarrow> rt_entry list" where
  "on_key dest msk f rows = map (\<lambda>e. if rt_key_eq dest msk e then f e else e) rows"

definition has_key :: "string \<Rightarrow> u8 \<Rightarrow> rt_entry list \<Rightarrow> bool" where
  "has_key dest msk rows \<longleftrightarrow> (\<exists>e\<in>set rows. rt_key_eq dest msk e)"

definition spec_add :: "string \<Rightarrow> u8 \<Rightarrow> string option \<Rightarrow> string option \<Rightarrow> rt_entry list \<Rightarrow> rt_entry list \<times> rt_entry nfc_call list" where
  "spec_add dest msk gw_ip oif rows =
     (if has_key dest msk rows
      then (on_key dest msk (rt_update gw_ip oif) rows,
            if gw_ip \<noteq> None \<or> oif \<noteq> None
            then concat (map (calls_of NFC_MOD) (map (rt_update gw_ip oif) (filter (rt_key_eq dest msk) rows))) else [])
      else (rt_update gw_ip oif (rt_new_entry dest msk) # rows, []))"

definition spec_delete :: "string \<Rightarrow> u8 \<Rightarrow> rt_entry list \<Rightarrow> rt_entry list \<times> rt_entry nfc_call list" where
  "spec_delete dest msk rows =
     (filter (\<lambda>e. \<not> rt_key_eq dest msk e) rows, concat (map (calls_of NFC_DEL) (filter (rt_key_eq dest msk) rows)))"

definition spec_register :: "string \<Rightarrow> u8 \<Rightarrow> notif_chain_elem \<Rightarrow> rt_entry list \<Rightarrow> rt_entry list \<times> rt_entry nfc_call list" where
  "spec_register dest msk nfce rows =
     (if has_key dest msk rows
      then (on_key dest msk (rt_subscribe nfce) rows,
            map (\<lambda>e. app_cb (rt_subscribe nfce e) NFC_ADD nfce) (filter (rt_key_eq dest msk) rows))
      else (rt_subscribe nfce (rt_new_entry dest msk) # rows, []))"

section \<open>Rows with unique keys\<close>

lemma rt_update_simps [simp]:
  "row (rt_update gw oif e) = rt_update gw oif (row e)" "re_nfc (rt_update gw oif e) = re_nfc e"
  "re_prev (rt_update gw oif e) = re_prev e" "re_next (rt_update gw oif e) = re_next e"
  "rt_key (rt_update gw oif e) = rt_key e" "re_dest (rt_update gw oif e) = re_dest e"
  "re_mask (rt_update gw oif e) = re_mask e"
  by (auto simp: rt_update_def set_text_def row_def rt_key_def split: option.splits)

lemma rt_subscribe_simps [simp]:
  "row (rt_subscribe n e) = rt_subscribe n (row e)" "re_prev (rt_subscribe n e) = re_prev e" "re_next (rt_subscribe n e) = re_next e"
  "rt_key (rt_subscribe n e) = rt_key e" "re_dest (rt_subscribe n e) = re_dest e"
  "re_mask (rt_subscribe n e) = re_mask e"
  "re_nfc (rt_subscribe n e) = map_option (\<lambda>nfc. nfc_register_notif_chain nfc n) (re_nfc e)"
  by (simp_all add: rt_subscribe_def row_def rt_key_def)

lemma rt_key_eq_key: "take 16 (re_dest e) = re_dest e \<Longrightarrow> rt_key_eq d m e \<longleftrightarrow> rt_key e = (take 16 d, m)"
  by (auto simp: rt_key_eq_def rt_key_def)

lemma unique_key:
  assumes "rows_ok (ras @ r # rbs)" "rt_key_eq d m r" "x \<in> set ras \<union> set rbs"
  shows "\<not> rt_key_eq d m x"
proof -
  have "rt_key r \<noteq> rt_key x" "take 16 (re_dest x) = re_dest x" "take 16 (re_dest r) = re_dest r"
    using assms(1,3) by (auto simp: rows_ok_def)
  then show ?thesis using assms(2) by (simp add: rt_key_eq_key)
qed

lemma filter_key:
  assumes "rows_ok (ras @ r # rbs)" "rt_key_eq d m r"
  shows "filter (rt_key_eq d m) (ras @ r # rbs) = [r]" "filter (\<lambda>e. \<not> rt_key_eq d m e) (ras @ r # rbs) = ras @ rbs"
    "on_key d m f (ras @ r # rbs) = ras @ f r # rbs" "has_key d m (ras @ r # rbs)"
  using unique_key [OF assms] assms(2) by (auto simp: on_key_def has_key_def filter_empty_conv map_idI)

lemma rows_ok_set:
  assumes "rows_ok (ras @ r # rbs)" "rt_key r' = rt_key r" "re_nfc r' \<noteq> None"
  shows "rows_ok (ras @ r' # rbs)"
  using assms by (auto simp: rows_ok_def rt_key_def)

lemma rows_ok_cons:
  assumes "rows_ok rows" "\<not> has_key d m rows" "rt_key r = (take 16 d, m)" "re_nfc r \<noteq> None"
  shows "rows_ok (r # rows)"
proof -
  have "rt_key x \<noteq> rt_key r" if "x \<in> set rows" for x
    using assms(1,2,3) that by (auto simp: has_key_def rows_ok_def rt_key_eq_key)
  then have "rt_key r \<notin> rt_key ` set rows" by (metis imageE)
  moreover have "take 16 (re_dest r) = re_dest r" using assms(3) by (simp add: rt_key_def)
  ultimately show ?thesis using assms(1,4) by (simp add: rows_ok_def)
qed

lemma rows_ok_del: "rows_ok (ras @ r # rbs) \<Longrightarrow> rows_ok (ras @ rbs)"
  by (auto simp: rows_ok_def)

section \<open>The operations implement the abstract ones\<close>

lemma rt_find_cases:
  assumes "rt_rep s ps rows"
  obtains (none) "rt_find (rt_heap s) d m (rt_head s) = Some 0" "\<not> has_key d m rows"
  | (found) as a bs ras e rbs where "rt_find (rt_heap s) d m (rt_head s) = Some a" "a \<noteq> 0" "ps = as @ a # bs"
      "rows = ras @ row e # rbs" "length ras = length as" "rt_heap s a = Some e" "rt_key_eq d m (row e)"
  using rt_find_row [OF assms, of d m] unfolding has_key_def by auto

lemma rt_notify_ok:
  assumes "rt_heap s a = Some e" "a \<noteq> 0" "re_nfc e \<noteq> None"
  shows "rt_notify s a op = Some (s\<lparr>rt_calls := rt_calls s @ calls_of op (row e)\<rparr>)"
proof -
  obtain nfc where "re_nfc e = Some nfc" using assms(3) by auto
  then show ?thesis using assms(1,2)
    by (simp add: rt_notify_def rd_entry_def nfc_invoke_notif_chain_def calls_of_def MAX_NOTIF_KEY_SIZE_def)
qed

lemma rt_add_new:
  assumes rep: "rt_rep s ps rows" and look: "rt_find (rt_heap s) d m (rt_head s) = Some 0"
  shows "\<exists>s' e. rt_add_or_update_rt_entry s d m gw oif = Some (rt_brk s, s') \<and> rt_brk s \<noteq> 0 \<and> rt_heap s' (rt_brk s) = Some e \<and>
    row e = rt_update gw oif (rt_new_entry d m) \<and> rt_rep s' (rt_brk s # ps) (row e # rows) \<and> rt_calls s' = rt_calls s"
proof -
  obtain l where D: "dseg (rt_heap s) 0 (rt_head s) ps l 0" "dom (rt_heap s) = set ps" "\<And>p. p \<in> set ps \<Longrightarrow> p < rt_brk s" "0 < rt_brk s"
    by (rule rt_repD [OF rep]) blast
  let ?p = "rt_brk s" and ?e = "rt_update gw oif (rt_new_entry d m)"
  define h3 where "h3 = (rt_heap s)(?p \<mapsto> ?e\<lparr>re_prev := 0, re_next := rt_head s\<rparr>)"
  define h4 where "h4 = (if rt_head s = 0 then h3 else h3(rt_head s \<mapsto> (the (rt_heap s (rt_head s)))\<lparr>re_prev := ?p\<rparr>))"
  let ?s3 = "s\<lparr>rt_brk := ?p + 1, rt_head := ?p, rt_heap := h4\<rparr>"
  have rep': "rt_rep ?s3 (?p # ps) (row ?e # rows)" by (rule rt_rep_cons [OF rep refl h3_def h4_def])
  have np: "?p \<notin> set ps" using D(3) by blast
  have hd: "rt_head s \<noteq> 0 \<Longrightarrow> rt_head s \<noteq> ?p \<and> rt_heap s (rt_head s) \<noteq> None"
    using dseg_first [OF D(1)] D(2) np by (cases ps) auto
  have new: "row ?e = ?e" by (simp add: rt_new_entry_def row_def)
  have hp: "h4 ?p = Some (?e\<lparr>re_prev := 0, re_next := rt_head s\<rparr>)" using hd by (auto simp: h4_def h3_def)
  have "rt_add_or_update_rt_entry s d m gw oif =
      (if gw \<noteq> None \<or> oif \<noteq> None then map_option (\<lambda>s4. (?p, s4)) (rt_notify ?s3 ?p NFC_MOD) else Some (?p, ?s3))"
    using look hd D(4) by (cases "rt_head s = 0")
      (auto simp: rt_add_or_update_rt_entry_def rt_look_up_rt_entry_def wr_entry_def rd_entry_def h4_def h3_def
        rt_update_def [symmetric] map_conv_bind_option comp_def Let_def)
  moreover have "rt_notify ?s3 ?p NFC_MOD = Some (?s3\<lparr>rt_calls := rt_calls s\<rparr>)"
    using rt_notify_ok [of ?s3 ?p, OF _ _ , of "?e\<lparr>re_prev := 0, re_next := rt_head s\<rparr>" NFC_MOD] hp D(4)
    by (simp add: rt_new_entry_def calls_of_def nfc_create_new_notif_chain_def)
  ultimately have "rt_add_or_update_rt_entry s d m gw oif = Some (?p, ?s3)" by simp
  then show ?thesis using rep' hp new D(4) by (intro exI [of _ ?s3] exI [of _ "?e\<lparr>re_prev := 0, re_next := rt_head s\<rparr>"]) simp
qed

theorem rt_add_refines:
  assumes rep: "rt_rep s ps rows" and ok: "rows_ok rows"
  shows "\<exists>p s' ps'. rt_add_or_update_rt_entry s d m gw oif = Some (p, s') \<and> rt_rep s' ps' (fst (spec_add d m gw oif rows)) \<and>
    rows_ok (fst (spec_add d m gw oif rows)) \<and> rt_calls s' = rt_calls s @ snd (spec_add d m gw oif rows)"
proof (rule rt_find_cases [OF rep, of d m])
  assume none: "rt_find (rt_heap s) d m (rt_head s) = Some 0" "\<not> has_key d m rows"
  have "rows_ok (rt_update gw oif (rt_new_entry d m) # rows)"
    by (rule rows_ok_cons [OF ok none(2)]) (simp_all add: rt_new_entry_def rt_key_def)
  then show ?thesis using rt_add_new [OF rep none(1), of gw oif] none(2) by (auto simp: spec_add_def)
next
  fix as a bs ras e rbs
  assume f: "rt_find (rt_heap s) d m (rt_head s) = Some a" "a \<noteq> 0" "ps = as @ a # bs" "rows = ras @ row e # rbs"
    "length ras = length as" "rt_heap s a = Some e" "rt_key_eq d m (row e)"
  let ?e = "rt_update gw oif e" and ?s3 = "s\<lparr>rt_heap := (rt_heap s)(a \<mapsto> rt_update gw oif e)\<rparr>"
  have nfc: "re_nfc e \<noteq> None" using ok f(4) by (auto simp: rows_ok_def)
  note F = filter_key [OF ok [unfolded f(4)] f(7)]
  have rep': "rt_rep ?s3 ps (ras @ row ?e # rbs)" unfolding f(3)
    by (rule rt_rep_set_row [OF rep [unfolded f(3,4)] f(5,6)]) simp_all
  have "rows_ok (ras @ row ?e # rbs)" by (rule rows_ok_set [OF ok [unfolded f(4)]]) (use nfc in \<open>simp_all add: rt_key_def\<close>)
  moreover have "rt_add_or_update_rt_entry s d m gw oif =
      (if gw \<noteq> None \<or> oif \<noteq> None then map_option (\<lambda>s4. (a, s4)) (rt_notify ?s3 a NFC_MOD) else Some (a, ?s3))"
    using f(1,2,6) by (auto simp: rt_add_or_update_rt_entry_def rt_look_up_rt_entry_def wr_entry_def rd_entry_def
        rt_update_def [symmetric] map_conv_bind_option comp_def Let_def)
  moreover have "rt_notify ?s3 a NFC_MOD = Some (?s3\<lparr>rt_calls := rt_calls s @ calls_of NFC_MOD (row ?e)\<rparr>)"
    using rt_notify_ok [of ?s3 a ?e NFC_MOD] f(2) nfc by simp
  ultimately show ?thesis using rep' F by (auto simp: spec_add_def f(4))
qed

lemma rt_delete_refines:
  assumes rep: "rt_rep s ps rows" and ok: "rows_ok rows"
  shows "\<exists>s' ps'. rt_delete_rt_entry s d m = Some (has_key d m rows, s') \<and> rt_rep s' ps' (fst (spec_delete d m rows)) \<and>
    rows_ok (fst (spec_delete d m rows)) \<and> rt_calls s' = rt_calls s @ snd (spec_delete d m rows)"
proof (rule rt_find_cases [OF rep, of d m])
  assume none: "rt_find (rt_heap s) d m (rt_head s) = Some 0" "\<not> has_key d m rows"
  then have "filter (\<lambda>e. \<not> rt_key_eq d m e) rows = rows" "filter (rt_key_eq d m) rows = []"
    by (auto simp: has_key_def filter_id_conv filter_empty_conv)
  then show ?thesis using none rep ok by (auto simp: rt_delete_rt_entry_def spec_delete_def)
next
  fix as a bs ras e rbs
  assume f: "rt_find (rt_heap s) d m (rt_head s) = Some a" "a \<noteq> 0" "ps = as @ a # bs" "rows = ras @ row e # rbs"
    "length ras = length as" "rt_heap s a = Some e" "rt_key_eq d m (row e)"
  obtain s1 e1 where s1: "rt_entry_remove s a = Some s1" "rt_heap s1 a = Some e1" "row e1 = row e" "rt_calls s1 = rt_calls s"
    "rt_rep (s1\<lparr>rt_heap := (rt_heap s1)(a := None)\<rparr>) (as @ bs) (ras @ rbs)"
    using rt_rep_remove [OF rep [unfolded f(3,4)] f(5,6)] by blast
  have nfc: "re_nfc e1 \<noteq> None" using arg_cong [OF s1(3), of re_nfc] ok f(4) by (auto simp: rows_ok_def)
  note F = filter_key [OF ok [unfolded f(4)] f(7)]
  have "rt_delete_rt_entry s d m = Some (True, s1\<lparr>rt_calls := rt_calls s @ calls_of NFC_DEL (row e), rt_heap := (rt_heap s1)(a := None)\<rparr>)"
    using f(1,2) s1(1-4) rt_notify_ok [OF s1(2) f(2) nfc, of NFC_DEL]
    by (simp add: rt_delete_rt_entry_def wr_entry_def rd_entry_def)
  moreover have "rt_rep (s1\<lparr>rt_calls := rt_calls s @ calls_of NFC_DEL (row e), rt_heap := (rt_heap s1)(a := None)\<rparr>) (as @ bs) (ras @ rbs)"
    using s1(5) by (simp add: rt_rep_def)
  moreover have "rows_ok (ras @ rbs)" using ok f(4) rows_ok_del by blast
  ultimately show ?thesis using F f(4) unfolding spec_delete_def by (intro exI conjI) (assumption | simp)+
qed

lemma rt_register_refines:
  assumes rep: "rt_rep s ps rows" and ok: "rows_ok rows" and size: "key_size \<le> 64"
  shows "\<exists>s' ps'. rt_table_register_for_notification s d m key_size cb i = Some s' \<and>
    rt_rep s' ps' (fst (spec_register d m (subscription cb i) rows)) \<and> rows_ok (fst (spec_register d m (subscription cb i) rows)) \<and>
    rt_calls s' = rt_calls s @ snd (spec_register d m (subscription cb i) rows)"
proof (rule rt_find_cases [OF rep, of d m])
  assume none: "rt_find (rt_heap s) d m (rt_head s) = Some 0" "\<not> has_key d m rows"
  obtain s1 e where s1: "rt_add_or_update_rt_entry s d m None None = Some (rt_brk s, s1)" "rt_brk s \<noteq> 0"
    "rt_heap s1 (rt_brk s) = Some e" "row e = rt_update None None (rt_new_entry d m)"
    "rt_rep s1 (rt_brk s # ps) (row e # rows)" "rt_calls s1 = rt_calls s"
    using rt_add_new [OF rep none(1), of None None] by blast
  have new: "row e = rt_new_entry d m" using s1(4) by (simp add: rt_update_def set_text_def)
  have new_parts: "re_nfc (row e) = Some (nfc_create_new_notif_chain None)" "re_dest (row e) = take 16 d" "re_mask (row e) = m"
    unfolding new by (simp_all add: rt_new_entry_def)
  then have nfc: "re_nfc e = Some (nfc_create_new_notif_chain None)" by simp
  let ?e = "rt_subscribe (subscription cb i) e"
  have "rt_table_register_for_notification s d m key_size cb i = Some (s1\<lparr>rt_heap := (rt_heap s1)(rt_brk s \<mapsto> ?e)\<rparr>)"
    using none(1) s1(1-3) size nfc
    by (simp add: rt_table_register_for_notification_def rt_look_up_rt_entry_def wr_entry_def rd_entry_def MAX_NOTIF_KEY_SIZE_def
        subscription_def rt_subscribe_def Let_def)
  moreover have "rt_rep (s1\<lparr>rt_heap := (rt_heap s1)(rt_brk s \<mapsto> ?e)\<rparr>) (rt_brk s # ps) (row ?e # rows)"
    using rt_rep_set_row [of s1 "[]" "rt_brk s" ps "[]" "row e" rows e ?e] s1(3,5) by simp
  moreover have "rows_ok (row ?e # rows)"
    by (rule rows_ok_cons [OF ok none(2)])
      (use nfc new_parts in \<open>simp_all add: rt_key_def rt_subscribe_def\<close>)
  ultimately show ?thesis using none(2) s1(6) new by (auto simp: spec_register_def)
next
  fix as a bs ras e rbs
  assume f: "rt_find (rt_heap s) d m (rt_head s) = Some a" "a \<noteq> 0" "ps = as @ a # bs" "rows = ras @ row e # rbs"
    "length ras = length as" "rt_heap s a = Some e" "rt_key_eq d m (row e)"
  let ?e = "rt_subscribe (subscription cb i) e"
  have "re_nfc e \<noteq> None" using ok f(4) by (auto simp: rows_ok_def)
  then obtain nfc where nfc: "re_nfc e = Some nfc" by auto
  note F = filter_key [OF ok [unfolded f(4)] f(7)]
  let ?s = "s\<lparr>rt_heap := (rt_heap s)(a \<mapsto> ?e), rt_calls := rt_calls s @ [app_cb (row ?e) NFC_ADD (subscription cb i)]\<rparr>"
  have "rt_table_register_for_notification s d m key_size cb i = Some ?s"
    using f(1,2,6) size nfc
    by (simp add: rt_table_register_for_notification_def rt_look_up_rt_entry_def wr_entry_def rd_entry_def MAX_NOTIF_KEY_SIZE_def
        subscription_def rt_subscribe_def Let_def)
  moreover have "rt_rep ?s ps (ras @ row ?e # rbs)" unfolding f(3)
    using rt_rep_set_row [OF rep [unfolded f(3,4)] f(5,6), of ?e] by simp
  moreover have "rows_ok (ras @ row ?e # rbs)"
    by (rule rows_ok_set [OF ok [unfolded f(4)]]) (use nfc in \<open>simp_all add: rt_key_def rt_subscribe_def\<close>)
  ultimately show ?thesis using F by (auto simp: spec_register_def f(4))
qed

section \<open>Sequences of operations\<close>

datatype rt_op = Rt_add string u8 "string option" "string option" | Rt_delete string u8 | Rt_register string u8 nat addr u32

fun rt_exec :: "rt_op \<Rightarrow> rt_table \<Rightarrow> rt_table option" where
  "rt_exec (Rt_add d m gw oif) s = map_option snd (rt_add_or_update_rt_entry s d m gw oif)"
| "rt_exec (Rt_delete d m) s = map_option snd (rt_delete_rt_entry s d m)"
| "rt_exec (Rt_register d m key_size cb i) s = rt_table_register_for_notification s d m key_size cb i"

fun rt_exec_all :: "rt_op list \<Rightarrow> rt_table \<Rightarrow> rt_table option" where
  "rt_exec_all [] s = Some s"
| "rt_exec_all (op # ops) s = Option.bind (rt_exec op s) (rt_exec_all ops)"

fun spec_exec :: "rt_op \<Rightarrow> rt_entry list \<Rightarrow> rt_entry list \<times> rt_entry nfc_call list" where
  "spec_exec (Rt_add d m gw oif) rows = spec_add d m gw oif rows"
| "spec_exec (Rt_delete d m) rows = spec_delete d m rows"
| "spec_exec (Rt_register d m key_size cb i) rows = spec_register d m (subscription cb i) rows"

fun spec_exec_all :: "rt_op list \<Rightarrow> rt_entry list \<Rightarrow> rt_entry list \<times> rt_entry nfc_call list" where
  "spec_exec_all [] rows = (rows, [])"
| "spec_exec_all (op # ops) rows =
     (let (rows1, calls1) = spec_exec op rows; (rows2, calls2) = spec_exec_all ops rows1 in (rows2, calls1 @ calls2))"

fun rt_op_ok :: "rt_op \<Rightarrow> bool" where
  "rt_op_ok (Rt_register d m key_size cb i) \<longleftrightarrow> key_size \<le> 64" | "rt_op_ok _ \<longleftrightarrow> True"

definition rt_empty :: rt_table where
  "rt_empty = rt_init_rt_table \<lparr>rt_head = 0, rt_heap = Map.empty, rt_brk = 1, rt_calls = []\<rparr>"

lemma rt_exec_refines:
  assumes "rt_rep s ps rows" "rows_ok rows" "rt_op_ok op"
  shows "\<exists>s' ps'. rt_exec op s = Some s' \<and> rt_rep s' ps' (fst (spec_exec op rows)) \<and> rows_ok (fst (spec_exec op rows)) \<and>
    rt_calls s' = rt_calls s @ snd (spec_exec op rows)"
proof (cases op)
  case (Rt_add d m gw oif)
  then show ?thesis using rt_add_refines [OF assms(1,2), of d m gw oif] by auto
next
  case (Rt_delete d m)
  then show ?thesis using rt_delete_refines [OF assms(1,2), of d m] by auto
next
  case (Rt_register d m k cb i)
  then show ?thesis using rt_register_refines [OF assms(1,2), of k d m cb i] assms(3) by auto
qed

lemma spec_exec_all_Cons:
  "fst (spec_exec_all (op # ops) rows) = fst (spec_exec_all ops (fst (spec_exec op rows)))"
  "snd (spec_exec_all (op # ops) rows) = snd (spec_exec op rows) @ snd (spec_exec_all ops (fst (spec_exec op rows)))"
  by (simp_all add: Let_def split: prod.splits)

lemma rt_exec_all_refines:
  "rt_rep s ps rows \<Longrightarrow> rows_ok rows \<Longrightarrow> \<forall>op\<in>set ops. rt_op_ok op \<Longrightarrow>
    \<exists>s' ps'. rt_exec_all ops s = Some s' \<and> rt_rep s' ps' (fst (spec_exec_all ops rows)) \<and> rows_ok (fst (spec_exec_all ops rows)) \<and>
      rt_calls s' = rt_calls s @ snd (spec_exec_all ops rows)"
proof (induction ops arbitrary: s ps rows)
  case (Cons op ops)
  obtain s1 ps1 where s1: "rt_exec op s = Some s1" "rt_rep s1 ps1 (fst (spec_exec op rows))" "rows_ok (fst (spec_exec op rows))"
    "rt_calls s1 = rt_calls s @ snd (spec_exec op rows)"
    using rt_exec_refines [OF Cons.prems(1,2), of op] Cons.prems(3) by auto
  obtain s2 ps2 where s2: "rt_exec_all ops s1 = Some s2" "rt_rep s2 ps2 (fst (spec_exec_all ops (fst (spec_exec op rows))))"
    "rows_ok (fst (spec_exec_all ops (fst (spec_exec op rows))))"
    "rt_calls s2 = rt_calls s1 @ snd (spec_exec_all ops (fst (spec_exec op rows)))"
    using Cons.IH [OF s1(2,3)] Cons.prems(3) by auto
  show ?case unfolding spec_exec_all_Cons using s1 s2 by (intro exI [of _ s2] exI [of _ ps2]) simp
qed auto

lemma rt_empty_rep: "rt_rep rt_empty [] []" "rows_ok []" "rt_calls rt_empty = []"
  by (simp_all add: rt_empty_def rt_init_rt_table_def rt_rep_def rows_ok_def)

text \<open>A subscription holds from its registration until the entry is deleted.\<close>

definition subscribed :: "string \<Rightarrow> u8 \<Rightarrow> notif_chain_elem \<Rightarrow> rt_entry list \<Rightarrow> bool" where
  "subscribed d m n rows \<longleftrightarrow> (\<exists>e\<in>set rows. \<exists>nfc. rt_key_eq d m e \<and> re_nfc e = Some nfc \<and> n \<in> set (nfc_notif_chain_head nfc))"

fun deletes :: "string \<Rightarrow> u8 \<Rightarrow> rt_op \<Rightarrow> bool" where
  "deletes d m (Rt_delete d' m') \<longleftrightarrow> take 16 d' = take 16 d \<and> m' = m" | "deletes d m _ \<longleftrightarrow> False"

lemma rt_key_eq_simps [simp]:
  "rt_key_eq d m (rt_update gw oif e) = rt_key_eq d m e" "rt_key_eq d m (rt_subscribe n e) = rt_key_eq d m e"
  "rt_key_eq d m (rt_new_entry d m)"
  by (simp_all add: rt_key_eq_def rt_new_entry_def)

lemma subscribed_register:
  assumes "rows_ok rows"
  shows "subscribed d m n (fst (spec_register d m n rows))"
proof (cases "has_key d m rows")
  case True
  then obtain e where e: "e \<in> set rows" "rt_key_eq d m e" by (auto simp: has_key_def)
  then obtain nfc where nfc: "re_nfc e = Some nfc" using assms by (auto simp: rows_ok_def)
  have "rt_subscribe n e \<in> set (on_key d m (rt_subscribe n) rows)" using e by (force simp: on_key_def)
  then show ?thesis using True e(2) nfc
    by (auto simp: subscribed_def spec_register_def nfc_register_notif_chain_def intro!: bexI [of _ "rt_subscribe n e"])
next
  case False
  then show ?thesis
    by (simp add: subscribed_def spec_register_def rt_key_eq_def rt_new_entry_def nfc_register_notif_chain_def rt_subscribe_def)
qed

lemma subscribed_on_key:
  assumes "subscribed d m n rows" "\<And>e. rt_key_eq d m (f e) = rt_key_eq d m e"
    "\<And>e nfc. re_nfc e = Some nfc \<Longrightarrow> \<exists>nfc'. re_nfc (f e) = Some nfc' \<and> set (nfc_notif_chain_head nfc) \<subseteq> set (nfc_notif_chain_head nfc')"
  shows "subscribed d m n (on_key d' m' f rows)"
proof -
  obtain e nfc where e: "e \<in> set rows" "rt_key_eq d m e" "re_nfc e = Some nfc" "n \<in> set (nfc_notif_chain_head nfc)"
    using assms(1) by (auto simp: subscribed_def)
  obtain nfc' where "re_nfc (f e) = Some nfc'" "n \<in> set (nfc_notif_chain_head nfc')" using assms(3) [OF e(3)] e(4) by auto
  then show ?thesis unfolding subscribed_def on_key_def
    using e assms(2) by (intro bexI [of _ "if rt_key_eq d' m' e then f e else e"]) auto
qed

lemma subscribed_step:
  assumes "subscribed d m n rows" "\<not> deletes d m op"
  shows "subscribed d m n (fst (spec_exec op rows))"
proof (cases op)
  case (Rt_add d' m' gw oif)
  have "subscribed d m n (on_key d' m' (rt_update gw oif) rows)" by (rule subscribed_on_key [OF assms(1)]) simp_all
  then show ?thesis using Rt_add assms(1) by (auto simp: spec_add_def subscribed_def)
next
  case (Rt_delete d' m')
  then have "\<not> (take 16 d' = take 16 d \<and> m' = m)" using assms(2) by simp
  then have "rt_key_eq d m e \<Longrightarrow> \<not> rt_key_eq d' m' e" for e by (auto simp: rt_key_eq_def)
  then show ?thesis using Rt_delete assms(1) by (auto simp: spec_delete_def subscribed_def)
next
  case (Rt_register d' m' k cb i)
  have "subscribed d m n (on_key d' m' (rt_subscribe (subscription cb i)) rows)"
    by (rule subscribed_on_key [OF assms(1)]) (auto simp: nfc_register_notif_chain_def)
  then show ?thesis using Rt_register assms(1) by (auto simp: spec_register_def subscribed_def)
qed

lemma spec_exec_all_append:
  "fst (spec_exec_all (xs @ ys) rows) = fst (spec_exec_all ys (fst (spec_exec_all xs rows)))"
  "snd (spec_exec_all (xs @ ys) rows) = snd (spec_exec_all xs rows) @ snd (spec_exec_all ys (fst (spec_exec_all xs rows)))"
  by (induction xs arbitrary: rows) (simp_all add: spec_exec_all_Cons del: spec_exec_all.simps(2))

lemma subscribed_all:
  "subscribed d m n rows \<Longrightarrow> \<forall>op\<in>set ops. \<not> deletes d m op \<Longrightarrow> subscribed d m n (fst (spec_exec_all ops rows))"
proof (induction ops arbitrary: rows)
  case (Cons op ops)
  then have "subscribed d m n (fst (spec_exec op rows))" by (intro subscribed_step) auto
  then show ?case using Cons.IH [of "fst (spec_exec op rows)"] Cons.prems(2) by (simp add: spec_exec_all_Cons del: spec_exec_all.simps(2))
qed simp

text \<open>An update with data, and a deletion, call the subscriber.\<close>

lemma subscribed_called:
  assumes "subscribed d m n rows" "gw \<noteq> None \<or> oif \<noteq> None"
  shows "\<exists>e\<in>set rows. rt_key_eq d m e \<and> app_cb (rt_update gw oif e) NFC_MOD n \<in> set (snd (spec_add d m gw oif rows)) \<and>
    app_cb e NFC_DEL n \<in> set (snd (spec_delete d m rows))"
proof -
  obtain e nfc where e: "e \<in> set rows" "rt_key_eq d m e" "re_nfc e = Some nfc" "n \<in> set (nfc_notif_chain_head nfc)"
    using assms(1) by (auto simp: subscribed_def)
  then have h: "has_key d m rows" by (auto simp: has_key_def)
  have "app_cb (rt_update gw oif e) NFC_MOD n \<in> set (calls_of NFC_MOD (rt_update gw oif e))"
    "app_cb e NFC_DEL n \<in> set (calls_of NFC_DEL e)" using e(3,4) by (auto simp: calls_of_def)
  then show ?thesis using e(1,2) h assms(2) by (intro bexI [OF _ e(1)]) (auto simp: spec_add_def spec_delete_def)
qed

section \<open>Properties of the table\<close>

text \<open>C14. From the empty table, every sequence of additions, deletions and registrations runs without a fault,
  leaves a list that is linked both ways and holds exactly the rows of the abstract table, with distinct keys,
  and calls the subscribers exactly as the abstract table does.\<close>

theorem rt_table_refines:
  assumes "\<forall>op\<in>set ops. rt_op_ok op"
  shows "\<exists>s ps. rt_exec_all ops rt_empty = Some s \<and> rt_rep s ps (fst (spec_exec_all ops [])) \<and>
    distinct (map rt_key (fst (spec_exec_all ops []))) \<and> rt_calls s = snd (spec_exec_all ops [])"
  using rt_exec_all_refines [OF rt_empty_rep(1,2) assms] by (auto simp: rt_empty_rep(3) rows_ok_def)

definition rt_demo :: "rt_op list" where
  "rt_demo = [Rt_register ''122.1.1.1'' 32 0 7 1, Rt_add ''122.1.1.1'' 32 (Some ''10.1.1.1'') (Some ''eth1''),
     Rt_add ''122.1.1.2'' 32 (Some ''10.1.1.2'') None, Rt_delete ''122.1.1.1'' 32]"

theorem rt_table_refines_witness:
  "\<exists>s ps. rt_exec_all rt_demo rt_empty = Some s \<and> rt_rep s ps (fst (spec_exec_all rt_demo [])) \<and>
    distinct (map rt_key (fst (spec_exec_all rt_demo []))) \<and> rt_calls s = snd (spec_exec_all rt_demo [])"
  by (rule rt_table_refines) (simp add: rt_demo_def)

text \<open>After a registration for a key and operations that do not delete the key, an update of the entry
  with data calls the subscriber with \<open>NFC_MOD\<close> and the updated entry, and a deletion calls it with
  \<open>NFC_DEL\<close>; the entry the subscriber is shown has the key.\<close>

theorem rt_subscriber_notified:
  assumes "\<forall>op\<in>set (xs @ Rt_register d m k cb i # ys). rt_op_ok op" "\<forall>op\<in>set ys. \<not> deletes d m op"
    "gw \<noteq> None \<or> oif \<noteq> None"
  shows "\<exists>s1 s2 s3 e. rt_exec_all (xs @ Rt_register d m k cb i # ys) rt_empty = Some s1 \<and>
    rt_exec (Rt_add d m gw oif) s1 = Some s2 \<and> rt_exec (Rt_delete d m) s1 = Some s3 \<and> rt_key_eq d m e \<and>
    app_cb (rt_update gw oif e) NFC_MOD (subscription cb i) \<in> set (drop (length (rt_calls s1)) (rt_calls s2)) \<and>
    app_cb e NFC_DEL (subscription cb i) \<in> set (drop (length (rt_calls s1)) (rt_calls s3))"
proof -
  let ?old = "fst (spec_exec_all xs [])" and ?new = "fst (spec_exec_all (xs @ Rt_register d m k cb i # ys) [])"
  have ok0: "rows_ok ?old" using rt_exec_all_refines [OF rt_empty_rep(1,2), of xs] assms(1) by auto
  obtain s1 ps1 where s1: "rt_exec_all (xs @ Rt_register d m k cb i # ys) rt_empty = Some s1" "rt_rep s1 ps1 ?new" "rows_ok ?new"
    using rt_exec_all_refines [OF rt_empty_rep(1,2) assms(1)] by blast
  have rows: "?new = fst (spec_exec_all ys (fst (spec_register d m (subscription cb i) ?old)))"
    by (simp add: spec_exec_all_append spec_exec_all_Cons del: spec_exec_all.simps(2))
  have "subscribed d m (subscription cb i) ?new" unfolding rows
    by (rule subscribed_all [OF subscribed_register [OF ok0] assms(2)])
  from subscribed_called [OF this assms(3)] obtain e where e: "rt_key_eq d m e"
    "app_cb (rt_update gw oif e) NFC_MOD (subscription cb i) \<in> set (snd (spec_add d m gw oif ?new))"
    "app_cb e NFC_DEL (subscription cb i) \<in> set (snd (spec_delete d m ?new))" by blast
  obtain s2 where "rt_exec (Rt_add d m gw oif) s1 = Some s2" "rt_calls s2 = rt_calls s1 @ snd (spec_add d m gw oif ?new)"
    using rt_exec_refines [OF s1(2,3), of "Rt_add d m gw oif"] by auto
  moreover obtain s3 where "rt_exec (Rt_delete d m) s1 = Some s3" "rt_calls s3 = rt_calls s1 @ snd (spec_delete d m ?new)"
    using rt_exec_refines [OF s1(2,3), of "Rt_delete d m"] by auto
  ultimately show ?thesis using s1(1) e by (intro exI [of _ s1] exI [of _ s2] exI [of _ s3] exI [of _ e]) simp
qed

theorem rt_subscriber_notified_witness:
  "\<exists>s1 s2 s3 e. rt_exec_all ([Rt_add ''122.1.1.1'' 32 None None] @ Rt_register ''122.1.1.1'' 32 0 7 1 #
      [Rt_delete ''122.1.1.2'' 32]) rt_empty = Some s1 \<and>
    rt_exec (Rt_add ''122.1.1.1'' 32 (Some ''10.1.1.1'') None) s1 = Some s2 \<and> rt_exec (Rt_delete ''122.1.1.1'' 32) s1 = Some s3 \<and>
    rt_key_eq ''122.1.1.1'' 32 e \<and>
    app_cb (rt_update (Some ''10.1.1.1'') None e) NFC_MOD (subscription 7 1) \<in> set (drop (length (rt_calls s1)) (rt_calls s2)) \<and>
    app_cb e NFC_DEL (subscription 7 1) \<in> set (drop (length (rt_calls s1)) (rt_calls s3))"
  by (rule rt_subscriber_notified) simp_all

text \<open>A key that only has subscribers has an entry nobody added: the second subscriber to register for
  it is called with \<open>NFC_ADD\<close> and an entry without gateway and interface.\<close>

theorem rt_placeholder_add:
  assumes "k1 \<le> 64" "k2 \<le> 64"
  shows "\<exists>s. rt_exec_all [Rt_register d m k1 cb1 i1, Rt_register d m k2 cb2 i2] rt_empty = Some s \<and>
    map (\<lambda>c. (call_cb c, call_op c, re_dest (call_arg c), re_gw_ip (call_arg c), re_oif (call_arg c), call_subs_id c)) (rt_calls s) =
      [(cb2, NFC_ADD, take 16 d, [], [], i2)]"
proof -
  obtain s ps where "rt_exec_all [Rt_register d m k1 cb1 i1, Rt_register d m k2 cb2 i2] rt_empty = Some s"
    "rt_calls s = snd (spec_exec_all [Rt_register d m k1 cb1 i1, Rt_register d m k2 cb2 i2] [])"
    using rt_exec_all_refines [OF rt_empty_rep(1,2), of "[Rt_register d m k1 cb1 i1, Rt_register d m k2 cb2 i2]"] assms
    by (auto simp: rt_empty_rep(3) simp del: rt_exec_all.simps spec_exec_all.simps)
  then show ?thesis
    by (intro exI [of _ s]) (simp add: spec_exec_all_Cons spec_register_def has_key_def app_cb_def subscription_def rt_new_entry_def
        rt_subscribe_def rt_key_eq_def del: rt_exec_all.simps spec_exec_all.simps(2))
qed

theorem rt_placeholder_add_witness:
  "\<exists>s. rt_exec_all [Rt_register ''122.1.1.1'' 32 0 7 1, Rt_register ''122.1.1.1'' 32 0 8 2] rt_empty = Some s \<and>
    map (\<lambda>c. (call_cb c, call_op c, re_dest (call_arg c), re_gw_ip (call_arg c), re_oif (call_arg c), call_subs_id c)) (rt_calls s) =
      [(8, NFC_ADD, take 16 ''122.1.1.1'', [], [], 2)]"
  by (rule rt_placeholder_add) simp_all

section \<open>The entries of the heap are well formed\<close>

definition entry_fits :: "rt_entry \<Rightarrow> bool" where
  "entry_fits e \<longleftrightarrow> length (re_dest e) \<le> 16 \<and> length (re_gw_ip e) \<le> 16 \<and> length (re_oif e) \<le> 32 \<and> re_nfc e \<noteq> None"

lemma entry_fits_row [simp]: "entry_fits (row e) = entry_fits e"
  by (simp add: entry_fits_def)

lemma entry_fits_update: "entry_fits e \<Longrightarrow> entry_fits (rt_update gw oif e)"
  by (auto simp: entry_fits_def rt_update_def set_text_def split: option.splits)

lemma entry_fits_subscribe: "entry_fits e \<Longrightarrow> entry_fits (rt_subscribe n e)"
  by (auto simp: entry_fits_def rt_subscribe_def)

lemma entry_fits_new: "entry_fits (rt_new_entry d m)"
  by (simp add: entry_fits_def rt_new_entry_def)

lemmas entry_fits_intros = entry_fits_update entry_fits_subscribe entry_fits_new

lemma spec_exec_fits: "Ball (set rows) entry_fits \<Longrightarrow> Ball (set (fst (spec_exec op rows))) entry_fits"
  by (cases op) (auto simp: spec_add_def spec_delete_def spec_register_def on_key_def intro!: entry_fits_intros)

lemma spec_exec_all_fits: "Ball (set rows) entry_fits \<Longrightarrow> Ball (set (fst (spec_exec_all ops rows))) entry_fits"
proof (induction ops arbitrary: rows)
  case (Cons op ops)
  show ?case unfolding spec_exec_all_Cons by (rule Cons.IH [OF spec_exec_fits [OF Cons.prems]])
qed simp

text \<open>A pointer of an entry is NULL or leads to an entry that points back.\<close>

definition links_back :: "rt_heap \<Rightarrow> addr \<Rightarrow> rt_entry \<Rightarrow> bool" where
  "links_back h p e \<longleftrightarrow>
     (re_next e = 0 \<or> (\<exists>x. h (re_next e) = Some x \<and> re_prev x = p)) \<and>
     (re_prev e = 0 \<or> (\<exists>x. h (re_prev e) = Some x \<and> re_next x = p))"

lemma dseg_links_back:
  assumes "dseg h 0 p ps l 0" "a \<in> set ps" "h a = Some e"
  shows "links_back h a e"
proof -
  obtain as bs where ps: "ps = as @ a # bs" using split_list [OF assms(2)] by blast
  have D: "dseg h 0 p as (re_prev e) a" "dseg h a (re_next e) bs l 0"
    using dseg_split [OF assms(1) [unfolded ps]] assms(3) by auto
  have "re_next e = 0 \<or> (\<exists>x. h (re_next e) = Some x \<and> re_prev x = a)" using D(2) by (cases bs) auto
  moreover have "re_prev e = 0 \<or> (\<exists>x. h (re_prev e) = Some x \<and> re_next x = a)"
  proof (cases as rule: rev_cases)
    case (snoc cs c)
    then show ?thesis using D(1) by (auto simp: dseg_append)
  qed (use D(1) in simp)
  ultimately show ?thesis by (simp add: links_back_def)
qed

text \<open>C20. Every entry on the heap is well formed after any sequence of operations: its texts fit the arrays
  of 16, 16 and 32 bytes, it has a notification chain, its links are NULL or lead to an entry that links
  back to it, and the head of the table is NULL or an entry without predecessor.\<close>

theorem rt_heap_well_formed:
  assumes "\<forall>op\<in>set ops. rt_op_ok op"
  shows "\<exists>s. rt_exec_all ops rt_empty = Some s \<and>
    (\<forall>p e. rt_heap s p = Some e \<longrightarrow> p \<noteq> 0 \<and> entry_fits e \<and> links_back (rt_heap s) p e) \<and>
    (rt_head s = 0 \<or> (\<exists>e. rt_heap s (rt_head s) = Some e \<and> re_prev e = 0))"
proof -
  let ?new = "fst (spec_exec_all ops [])"
  obtain s ps where s: "rt_exec_all ops rt_empty = Some s" "rt_rep s ps ?new"
    using rt_exec_all_refines [OF rt_empty_rep(1,2) assms] by blast
  obtain l where D: "dseg (rt_heap s) 0 (rt_head s) ps l 0" "map (\<lambda>p. map_option row (rt_heap s p)) ps = map Some ?new"
    "dom (rt_heap s) = set ps" "0 \<notin> set ps"
    by (rule rt_repD [OF s(2)]) blast
  have "p \<noteq> 0 \<and> entry_fits e \<and> links_back (rt_heap s) p e" if p: "rt_heap s p = Some e" for p e
  proof -
    have mem: "p \<in> set ps" using p D(3) by blast
    then have "map_option row (rt_heap s p) \<in> Some ` set ?new" using arg_cong [OF D(2), of set] by auto
    then have "entry_fits (row e)" using spec_exec_all_fits [of "[]" ops] p by auto
    then show ?thesis using dseg_links_back [OF D(1) mem p] mem D(4) by (metis entry_fits_row)
  qed
  moreover have "rt_head s = 0 \<or> (\<exists>e. rt_heap s (rt_head s) = Some e \<and> re_prev e = 0)" using D(1) by (cases ps) auto
  ultimately show ?thesis using s(1) by blast
qed

theorem rt_heap_well_formed_witness:
  "\<exists>s. rt_exec_all rt_demo rt_empty = Some s \<and>
    (\<forall>p e. rt_heap s p = Some e \<longrightarrow> p \<noteq> 0 \<and> entry_fits e \<and> links_back (rt_heap s) p e) \<and>
    (rt_head s = 0 \<or> (\<exists>e. rt_heap s (rt_head s) = Some e \<and> re_prev e = 0))"
  by (rule rt_heap_well_formed) (simp add: rt_demo_def)

end
