(* ===== verification/NfcUtils.thy ===== *)
theory NfcUtils
  imports Prelude
begin

unbundle bit_operations_syntax

text \<open>
  The utilities of \<^verbatim>\<open>ThreadBasics/NFC/utils.c\<close> and \<^verbatim>\<open>utils.h\<close>: a buffer of type-length-value
  records, IP addresses between text and number, and the masking of a prefix. A buffer is a list of
  bytes and a pointer into it an offset, which may leave it: a read or write outside is a fault. A plain
  \<^verbatim>\<open>char\<close> is signed, as it is for gcc on x86.
\<close>

section \<open>Records in a buffer\<close>

definition TLV_OVERHEAD_SIZE :: int where
  "TLV_OVERHEAD_SIZE = 2"

definition read_byte :: "u8 list \<Rightarrow> int \<Rightarrow> u8 option" where
  "read_byte buff p = (if 0 \<le> p \<and> nat p < length buff then Some (buff ! nat p) else None)"

fun write_bytes :: "u8 list \<Rightarrow> int \<Rightarrow> u8 list \<Rightarrow> u8 list option" where
  "write_bytes buff p [] = Some buff"
| "write_bytes buff p (b # bs) =
     (if 0 \<le> p \<and> nat p < length buff then write_bytes (buff[nat p := b]) (p + 1) bs else None)"

text \<open>\<^verbatim>\<open>tlv_buffer_insert_tlv\<close> at offset \<open>p\<close>: the buffer after it and the offset it returns.\<close>

definition tlv_buffer_insert_tlv :: "u8 list \<Rightarrow> int \<Rightarrow> u8 \<Rightarrow> u8 \<Rightarrow> u8 list \<Rightarrow> (u8 list \<times> int) option" where
  "tlv_buffer_insert_tlv buff p tlv_no data_len data =
     (case write_bytes buff p [tlv_no] of None \<Rightarrow> None
      | Some buff1 \<Rightarrow> (case write_bytes buff1 (p + 1) [data_len] of None \<Rightarrow> None
      | Some buff2 \<Rightarrow>
          if unat data_len \<le> length data
          then map_option (\<lambda>b. (b, p + TLV_OVERHEAD_SIZE + uint data_len))
                 (write_bytes buff2 (p + TLV_OVERHEAD_SIZE) (take (unat data_len) data))
          else None))"

text \<open>The loop of \<^verbatim>\<open>ITERATE_TLV_BEGIN\<close> in \<^verbatim>\<open>tlv_buffer_get_particular_tlv\<close>, with the counter
  \<^verbatim>\<open>_len\<close> and the pointer \<^verbatim>\<open>tlv_ptr\<close>; the outer option is \<open>None\<close> if it never ends.\<close>

datatype tlv_result = Tlv_fault | Tlv_none | Tlv_found int u8

partial_function (option) tlv_iterate :: "u8 list \<Rightarrow> u32 \<Rightarrow> u8 \<Rightarrow> u32 \<Rightarrow> int \<Rightarrow> tlv_result option" where
  "tlv_iterate buff tlv_buff_size tlv_no len tlv_ptr =
     (if len < tlv_buff_size
      then case read_byte buff (tlv_ptr - TLV_OVERHEAD_SIZE) of None \<Rightarrow> Some Tlv_fault
           | Some tlv_type \<Rightarrow> (case read_byte buff (tlv_ptr - TLV_OVERHEAD_SIZE + 1) of None \<Rightarrow> Some Tlv_fault
           | Some tlv_len \<Rightarrow>
               if sint tlv_type \<noteq> uint tlv_no
               then tlv_iterate buff tlv_buff_size tlv_no (len + ucast tlv_len + of_int TLV_OVERHEAD_SIZE)
                      (tlv_ptr + TLV_OVERHEAD_SIZE + sint tlv_len)
               else Some (Tlv_found tlv_ptr tlv_len))
      else Some Tlv_none)"

definition tlv_buffer_get_particular_tlv :: "u8 list \<Rightarrow> u32 \<Rightarrow> u8 \<Rightarrow> tlv_result option" where
  "tlv_buffer_get_particular_tlv tlv_buff tlv_buff_size tlv_no =
     tlv_iterate tlv_buff tlv_buff_size tlv_no 0 TLV_OVERHEAD_SIZE"

section \<open>Addresses\<close>

text \<open>\<^verbatim>\<open>inet_ntop\<close> and \<^verbatim>\<open>inet_pton\<close> for \<^verbatim>\<open>AF_INET\<close>: four numbers of at most 255, without superfluous
  zeros, between dots; the bytes in the order of the network.\<close>

definition digit_char :: "nat \<Rightarrow> char" where
  "digit_char d = (''0123456789'') ! d"

fun decimal :: "nat \<Rightarrow> string" where
  "decimal n = (if n < 10 then [digit_char n] else decimal (n div 10) @ [digit_char (n mod 10)])"

definition digit_value :: "char \<Rightarrow> nat option" where
  "digit_value c = (if c \<in> set ''0123456789'' then Some (length (takeWhile (\<lambda>d. d \<noteq> c) ''0123456789'')) else None)"

fun decimal_value :: "nat \<Rightarrow> string \<Rightarrow> nat option" where
  "decimal_value acc [] = Some acc"
| "decimal_value acc (c # cs) = (case digit_value c of None \<Rightarrow> None | Some d \<Rightarrow> decimal_value (10 * acc + d) cs)"

fun split_dots :: "string \<Rightarrow> string list" where
  "split_dots [] = [[]]"
| "split_dots (c # cs) = (if c = CHR ''.'' then [] # split_dots cs
     else case split_dots cs of [] \<Rightarrow> [[c]] | p # ps \<Rightarrow> (c # p) # ps)"

definition octet :: "string \<Rightarrow> u8 option" where
  "octet s = (if s = [] \<or> (length s > 1 \<and> hd s = CHR ''0'') then None
     else case decimal_value 0 s of None \<Rightarrow> None | Some v \<Rightarrow> if v < 256 then Some (of_nat v) else None)"

fun inet_ntop :: "u8 \<times> u8 \<times> u8 \<times> u8 \<Rightarrow> string" where
  "inet_ntop (a, b, c, d) = decimal (unat a) @ ''.'' @ decimal (unat b) @ ''.'' @ decimal (unat c) @ ''.'' @ decimal (unat d)"

definition inet_pton :: "string \<Rightarrow> (u8 \<times> u8 \<times> u8 \<times> u8) option" where
  "inet_pton s = (case map octet (split_dots s) of
      [Some a, Some b, Some c, Some d] \<Rightarrow> Some (a, b, c, d) | _ \<Rightarrow> None)"

text \<open>The bytes of a \<^verbatim>\<open>uint32_t\<close> in memory on a little-endian machine, and \<^verbatim>\<open>htonl\<close> there.\<close>

definition load_u32 :: "u8 \<times> u8 \<times> u8 \<times> u8 \<Rightarrow> u32" where
  "load_u32 = (\<lambda>(a, b, c, d). ucast a OR push_bit 8 (ucast b) OR push_bit 16 (ucast c) OR push_bit 24 (ucast d))"

definition store_u32 :: "u32 \<Rightarrow> u8 \<times> u8 \<times> u8 \<times> u8" where
  "store_u32 w = (ucast w, ucast (drop_bit 8 w), ucast (drop_bit 16 w), ucast (drop_bit 24 w))"

definition htonl :: "u32 \<Rightarrow> u32" where
  "htonl w = (case store_u32 w of (a, b, c, d) \<Rightarrow> load_u32 (d, c, b, a))"

definition tcp_ip_covert_ip_n_to_p :: "u32 \<Rightarrow> string" where
  "tcp_ip_covert_ip_n_to_p ip_addr = take 15 (inet_ntop (store_u32 (htonl ip_addr)))"

text \<open>If \<^verbatim>\<open>inet_pton\<close> refuses the text, the number stays 0.\<close>

definition tcp_ip_covert_ip_p_to_n :: "string \<Rightarrow> u32" where
  "tcp_ip_covert_ip_p_to_n ip_addr =
     (let binary_prefix = (case inet_pton ip_addr of None \<Rightarrow> 0 | Some bytes \<Rightarrow> load_u32 bytes) in htonl binary_prefix)"

text \<open>\<open>None\<close>: a shift by 32 or more, or by a negative amount, which C leaves undefined.\<close>

definition apply_mask :: "string \<Rightarrow> u8 \<Rightarrow> string option" where
  "apply_mask prefix msk =
     (if sint msk = 32 then Some (take 15 prefix)
      else let binary_prefix = tcp_ip_covert_ip_p_to_n prefix in
        if 0 \<le> 32 - sint msk \<and> 32 - sint msk < 32
        then let subnet_mask = push_bit (nat (32 - sint msk)) (- 1) :: u32
             in Some (tcp_ip_covert_ip_n_to_p (binary_prefix AND subnet_mask))
        else None)"

section \<open>The rest\<close>

definition layer2_fill_with_broadcast_mac :: "u8 list \<Rightarrow> u8 list" where
  "layer2_fill_with_broadcast_mac mac = mac[0 := 0xFF, 1 := 0xFF, 2 := 0xFF, 3 := 0xFF, 4 := 0xFF, 5 := 0xFF]"

text \<open>\<^verbatim>\<open>IS_MAC_BROADCAST_ADDR\<close> on an array of \<^verbatim>\<open>char\<close>: each element is promoted to \<^verbatim>\<open>int\<close> with its sign.\<close>

definition IS_MAC_BROADCAST_ADDR :: "u8 list \<Rightarrow> bool" where
  "IS_MAC_BROADCAST_ADDR mac \<longleftrightarrow> (\<forall>i<6. sint (mac ! i) = 0xFF)"

text \<open>\<^verbatim>\<open>get_new_ifindex\<close>: the static counter before and after, which is also the value returned.\<close>

definition get_new_ifindex :: "u32 \<Rightarrow> u32" where
  "get_new_ifindex ifindex = ifindex + 1"

end
