(* ===== verification/NfcUtilsSpec.thy ===== *)
theory NfcUtilsSpec
  imports NfcUtils
begin

text \<open>
  The properties of \<^verbatim>\<open>ThreadBasics/NFC/utils.c\<close>: the round trips of addresses between number and
  text and of records in a buffer, the masking of a prefix, the end of the search, and what the signed
  \<^verbatim>\<open>char\<close> of the search breaks.
\<close>

section \<open>Bytes of a word\<close>

lemma load_store: "load_u32 (store_u32 w) = w"
proof (rule bit_word_eqI)
  fix n assume "n < LENGTH(32)"
  then consider "n < 8" | "8 \<le> n" "n < 16" | "16 \<le> n" "n < 24" | "24 \<le> n" "n < 32" by fastforce
  then show "bit (load_u32 (store_u32 w)) n \<longleftrightarrow> bit w n"
    by cases (auto simp: load_u32_def store_u32_def bit_simps)
qed

lemma bit_u8_beyond: "8 \<le> n \<Longrightarrow> \<not> bit (b :: u8) n"
  using bit_imp_le_length [of b n] by auto

lemma store_load: "store_u32 (load_u32 bs) = bs"
proof -
  obtain a b c d where bs: "bs = (a, b, c, d)" by (cases bs)
  have "(ucast (load_u32 bs) :: u8) = a" "(ucast (drop_bit 8 (load_u32 bs)) :: u8) = b"
    "(ucast (drop_bit 16 (load_u32 bs)) :: u8) = c" "(ucast (drop_bit 24 (load_u32 bs)) :: u8) = d"
    unfolding bs load_u32_def by (rule bit_word_eqI; auto simp: bit_simps bit_u8_beyond)+
  then show ?thesis by (simp add: store_u32_def bs)
qed

lemma htonl_htonl: "htonl (htonl w) = w"
proof -
  obtain a b c d where s: "store_u32 w = (a, b, c, d)" by (cases "store_u32 w")
  then show ?thesis using load_store [of w] by (simp add: htonl_def store_load)
qed

section \<open>Decimal numbers\<close>

declare decimal.simps [simp del]

lemma digit_roundtrip: "d < 10 \<Longrightarrow> digit_value (digit_char d) = Some d"
proof -
  have "\<forall>d\<in>{0..<10}. digit_value (digit_char d) = Some d" by code_simp
  then show "d < 10 \<Longrightarrow> digit_value (digit_char d) = Some d" by simp
qed

lemma digit_char_value: "digit_value c = Some d \<Longrightarrow> d < 10 \<and> digit_char d = c"
proof -
  have "\<forall>c\<in>set ''0123456789''. case digit_value c of None \<Rightarrow> False | Some d \<Rightarrow> d < 10 \<and> digit_char d = c" by code_simp
  then show "digit_value c = Some d \<Longrightarrow> d < 10 \<and> digit_char d = c"
    by (auto simp: digit_value_def split: if_splits option.splits)
qed

lemma decimal_value_append: "decimal_value acc (xs @ ys) = Option.bind (decimal_value acc xs) (\<lambda>v. decimal_value v ys)"
  by (induction acc xs rule: decimal_value.induct) (auto split: option.splits)

lemma decimal_value_decimal: "decimal_value 0 (decimal n) = Some n"
proof (induction n rule: decimal.induct)
  case (1 n)
  show ?case
  proof (cases "n < 10")
    case True
    then show ?thesis by (subst decimal.simps) (simp add: digit_roundtrip)
  next
    case False
    then have "decimal_value 0 (decimal (n div 10)) = Some (n div 10)" using 1 by simp
    then show ?thesis using False
      by (subst decimal.simps) (simp add: decimal_value_append digit_roundtrip)
  qed
qed

lemma decimal_nonempty: "decimal n \<noteq> []"
  by (subst decimal.simps) simp

lemma decimal_hd: "10 \<le> n \<Longrightarrow> hd (decimal n) \<noteq> CHR ''0''"
proof (induction n rule: decimal.induct)
  case (1 n)
  have z: "digit_char d \<noteq> CHR ''0''" if "0 < d" "d < 10" for d
  proof -
    have "\<forall>d\<in>{1..<10}. digit_char d \<noteq> CHR ''0''" by code_simp
    then show ?thesis using that by simp
  qed
  have e: "decimal n = decimal (n div 10) @ [digit_char (n mod 10)]" using 1(2) by (subst decimal.simps) simp
  show ?case
  proof (cases "n div 10 < 10")
    case True
    then have "decimal (n div 10) = [digit_char (n div 10)]" by (subst decimal.simps) simp
    then show ?thesis using z [of "n div 10"] True 1(2) by (simp add: e)
  next
    case False
    then show ?thesis using 1 decimal_nonempty [of "n div 10"] by (simp add: e hd_append)
  qed
qed

lemma decimal_no_dot: "CHR ''.'' \<notin> set (decimal n)"
proof (induction n rule: decimal.induct)
  case (1 n)
  have "digit_char d \<noteq> CHR ''.''" if "d < 10" for d
  proof -
    have "\<forall>d\<in>{0..<10}. digit_char d \<noteq> CHR ''.''" by code_simp
    then show ?thesis using that by simp
  qed
  from this [of n] this [of "n mod 10"] show ?case using 1 by (subst decimal.simps) auto
qed

text \<open>A text of digits without superfluous zeros is the decimal of its value.\<close>

lemma decimal_of_value:
  "s \<noteq> [] \<Longrightarrow> length s = 1 \<or> hd s \<noteq> CHR ''0'' \<Longrightarrow> decimal_value 0 s = Some v \<Longrightarrow>
    decimal v = s \<and> (hd s \<noteq> CHR ''0'' \<longrightarrow> 0 < v)"
proof (induction s arbitrary: v rule: rev_induct)
  case (snoc c s)
  obtain u d where u: "decimal_value 0 s = Some u" "digit_value c = Some d" "v = 10 * u + d"
    using snoc.prems(3) by (auto simp: decimal_value_append bind_eq_Some_conv split: option.splits)
  have d: "d < 10" "digit_char d = c" using digit_char_value [OF u(2)] by auto
  show ?case
  proof (cases "s = []")
    case True
    have "digit_char 0 = CHR ''0''" by code_simp
    then show ?thesis using True u d by (subst decimal.simps) (auto intro: gr0I)
  next
    case False
    then have h: "hd s \<noteq> CHR ''0''" using snoc.prems(2) by (cases s) auto
    then have IH: "decimal u = s" "0 < u" using snoc.IH [OF False _ u(1)] by auto
    then have "decimal v = decimal (v div 10) @ [digit_char (v mod 10)]" using u(3) by (subst decimal.simps) simp
    then show ?thesis using IH u(3) d by simp
  qed
qed simp

lemma octet_decimal: "octet (decimal (unat b)) = Some b"
proof -
  have "length (decimal (unat b)) > 1 \<longrightarrow> hd (decimal (unat b)) \<noteq> CHR ''0''"
  proof
    assume l: "length (decimal (unat b)) > 1"
    have "10 \<le> unat b"
    proof (rule ccontr)
      assume "\<not> 10 \<le> unat b"
      then have "length (decimal (unat b)) = 1" by (subst decimal.simps) simp
      with l show False by simp
    qed
    then show "hd (decimal (unat b)) \<noteq> CHR ''0''" by (rule decimal_hd)
  qed
  moreover have "unat b < 256" using unsigned_less [of b] by simp
  ultimately show ?thesis by (simp add: octet_def decimal_nonempty decimal_value_decimal)
qed

lemma decimal_octet: "octet s = Some b \<Longrightarrow> decimal (unat b) = s"
proof -
  assume o: "octet s = Some b"
  then obtain v where v: "s \<noteq> []" "\<not> (length s > 1 \<and> hd s = CHR ''0'')" "decimal_value 0 s = Some v" "v < 256" "b = of_nat v"
    by (auto simp: octet_def split: if_splits option.splits)
  have "unat b = v" using v(4,5) by (simp add: unat_of_nat)
  moreover have "length s = 1 \<or> hd s \<noteq> CHR ''0''" using v(1,2) by (cases s) auto
  ultimately show ?thesis using decimal_of_value [OF v(1) _ v(3)] by simp
qed

lemma decimal_octet_length: "n < 256 \<Longrightarrow> length (decimal n) \<le> 3"
  by (subst decimal.simps, subst decimal.simps, subst decimal.simps) auto

section \<open>Dotted quads\<close>

fun join_dots :: "string list \<Rightarrow> string" where
  "join_dots [] = []" | "join_dots [p] = p" | "join_dots (p # q # ps) = p @ CHR ''.'' # join_dots (q # ps)"

lemma split_dots_nonempty: "split_dots s \<noteq> []"
  by (induction s) (auto split: list.splits)

lemma join_split_dots: "join_dots (split_dots s) = s"
proof (induction s)
  case (Cons c cs)
  then show ?case using split_dots_nonempty [of cs] by (cases "split_dots cs"; cases "tl (split_dots cs)") auto
qed simp

lemma split_dots_no_dot: "CHR ''.'' \<notin> set s \<Longrightarrow> split_dots s = [s]"
  by (induction s) auto

lemma split_dots_append: "CHR ''.'' \<notin> set p \<Longrightarrow> split_dots (p @ CHR ''.'' # s) = p # split_dots s"
  by (induction p) auto

lemma inet_roundtrip: "inet_pton (inet_ntop bs) = Some bs"
proof -
  obtain a b c d where bs: "bs = (a, b, c, d)" by (cases bs)
  show ?thesis
    by (simp add: bs inet_pton_def split_dots_append split_dots_no_dot decimal_no_dot octet_decimal)
qed

lemma inet_text: "inet_pton s = Some bs \<Longrightarrow> inet_ntop bs = s"
proof -
  assume "inet_pton s = Some bs"
  then obtain p q r t a b c d where s: "split_dots s = [p, q, r, t]" "octet p = Some a" "octet q = Some b" "octet r = Some c"
      "octet t = Some d" "bs = (a, b, c, d)"
    unfolding inet_pton_def by (auto split: list.splits option.splits)
  then show ?thesis using join_split_dots [of s] by (simp add: decimal_octet)
qed

lemma inet_ntop_length: "length (inet_ntop bs) \<le> 15"
proof -
  obtain a b c d where bs: "bs = (a, b, c, d)" by (cases bs)
  have "length (decimal (unat x)) \<le> 3" for x :: u8 using decimal_octet_length unsigned_less [of x] by simp
  from this [of a] this [of b] this [of c] this [of d] show ?thesis by (simp add: bs)
qed

lemma ip_number: "tcp_ip_covert_ip_p_to_n (tcp_ip_covert_ip_n_to_p w) = w"
  by (simp add: tcp_ip_covert_ip_p_to_n_def tcp_ip_covert_ip_n_to_p_def inet_ntop_length inet_roundtrip load_store htonl_htonl)

lemma ip_text: "inet_pton s \<noteq> None \<Longrightarrow> tcp_ip_covert_ip_n_to_p (tcp_ip_covert_ip_p_to_n s) = s"
proof -
  assume "inet_pton s \<noteq> None"
  then obtain bs where bs: "inet_pton s = Some bs" by auto
  have t: "inet_ntop bs = s" by (rule inet_text [OF bs])
  show ?thesis using inet_ntop_length [of bs]
    unfolding tcp_ip_covert_ip_p_to_n_def tcp_ip_covert_ip_n_to_p_def bs Let_def option.case htonl_htonl store_load t by simp
qed

section \<open>Masks\<close>

lemma apply_mask_number:
  assumes "apply_mask p msk = Some q" "length p \<le> 15"
  shows "1 \<le> sint msk \<and> sint msk \<le> 32 \<and>
    tcp_ip_covert_ip_p_to_n q = tcp_ip_covert_ip_p_to_n p AND push_bit (nat (32 - sint msk)) (- 1) \<and> apply_mask q msk = Some q"
proof (cases "sint msk = 32")
  case True
  then show ?thesis using assms by (simp add: apply_mask_def)
next
  case False
  then show ?thesis using assms
    by (auto simp: apply_mask_def Let_def ip_number and.assoc split: if_splits)
qed

section \<open>Records\<close>

text \<open>A record is its type and its data. A client writes records one behind the other.\<close>

type_synonym tlv = "u8 \<times> u8 list"

fun tlv_insert_all :: "u8 list \<Rightarrow> int \<Rightarrow> tlv list \<Rightarrow> (u8 list \<times> int) option" where
  "tlv_insert_all buff p [] = Some (buff, p)"
| "tlv_insert_all buff p ((t, d) # ts) =
     (case tlv_buffer_insert_tlv buff p t (of_nat (length d)) d of None \<Rightarrow> None
      | Some (buff', p') \<Rightarrow> tlv_insert_all buff' p' ts)"

fun tlv_bytes :: "tlv \<Rightarrow> u8 list" where
  "tlv_bytes (t, d) = t # of_nat (length d) # d"

definition tlv_size :: "tlv list \<Rightarrow> nat" where
  "tlv_size ts = length (concat (map tlv_bytes ts))"

text \<open>The first record of a type; the search compares the type as a signed character, so it sees none of
  the types from 128 on.\<close>

definition tlv_first :: "u8 \<Rightarrow> tlv list \<Rightarrow> tlv option" where
  "tlv_first no ts = find (\<lambda>r. fst r = no \<and> unat no < 128) ts"

lemma tlv_size_simps [simp]: "tlv_size [] = 0" "tlv_size ((t, d) # ts) = 2 + length d + tlv_size ts"
  by (simp_all add: tlv_size_def)

lemma write_bytes_app:
  "length mid = length bs \<Longrightarrow> write_bytes (pre @ mid @ post) (int (length pre)) bs = Some (pre @ bs @ post)"
proof (induction bs arbitrary: pre mid)
  case (Cons b bs)
  then obtain m ms where mid: "mid = m # ms" "length ms = length bs" by (cases mid) auto
  have "(pre @ (m # ms) @ post)[length pre := b] = (pre @ [b]) @ ms @ post" by (simp add: list_update_append)
  then show ?case using Cons.IH [OF mid(2), of "pre @ [b]"] mid by (simp add: add.commute)
qed simp

lemma insert_tlv_app:
  assumes "length mid = 2 + length d" "length d < 256"
  shows "tlv_buffer_insert_tlv (pre @ mid @ post) (int (length pre)) t (of_nat (length d)) d =
    Some (pre @ tlv_bytes (t, d) @ post, int (length pre) + 2 + int (length d))"
proof -
  obtain x y ms where mid: "mid = x # y # ms" "length ms = length d"
    using assms(1) by (cases mid; cases "tl mid") auto
  let ?l = "of_nat (length d) :: u8"
  have l: "unat ?l = length d" using assms(2) by (simp add: unat_of_nat)
  then have ul: "uint ?l = int (length d)" by (simp add: uint_nat)
  have w1: "write_bytes (pre @ mid @ post) (int (length pre)) [t] = Some (pre @ [t] @ y # ms @ post)"
    using write_bytes_app [of "[x]" "[t]" pre "y # ms @ post"] mid by simp
  have w2: "write_bytes (pre @ [t] @ y # ms @ post) (int (length pre) + 1) [?l] = Some (pre @ [t, ?l] @ ms @ post)"
    using write_bytes_app [of "[y]" "[?l]" "pre @ [t]" "ms @ post"] by (simp add: add.commute)
  have w3: "write_bytes (pre @ [t, ?l] @ ms @ post) (int (length pre) + TLV_OVERHEAD_SIZE) d = Some (pre @ [t, ?l] @ d @ post)"
    using write_bytes_app [of ms d "pre @ [t, ?l]" post] mid(2) by (simp add: TLV_OVERHEAD_SIZE_def add.commute)
  show ?thesis
    unfolding tlv_buffer_insert_tlv_def w1 option.case w2 using l ul w3 by (simp add: TLV_OVERHEAD_SIZE_def)
qed

lemma tlv_insert_all_app:
  "\<forall>r\<in>set ts. length (snd r) < 256 \<Longrightarrow> length mid = tlv_size ts \<Longrightarrow>
    tlv_insert_all (pre @ mid @ post) (int (length pre)) ts =
      Some (pre @ concat (map tlv_bytes ts) @ post, int (length pre) + int (tlv_size ts))"
proof (induction ts arbitrary: pre mid)
  case (Cons r ts)
  obtain t d where r: "r = (t, d)" by (cases r)
  define m1 m2 where "m1 = take (2 + length d) mid" and "m2 = drop (2 + length d) mid"
  have m: "mid = m1 @ m2" "length m1 = 2 + length d" "length m2 = tlv_size ts"
    using Cons.prems(2) r by (simp_all add: m1_def m2_def)
  have "tlv_buffer_insert_tlv (pre @ m1 @ (m2 @ post)) (int (length pre)) t (of_nat (length d)) d =
      Some (pre @ tlv_bytes (t, d) @ (m2 @ post), int (length pre) + 2 + int (length d))"
    by (rule insert_tlv_app) (use m Cons.prems(1) r in auto)
  moreover have "tlv_insert_all ((pre @ tlv_bytes r) @ m2 @ post) (int (length (pre @ tlv_bytes r))) ts =
      Some ((pre @ tlv_bytes r) @ concat (map tlv_bytes ts) @ post, int (length (pre @ tlv_bytes r)) + int (tlv_size ts))"
    by (rule Cons.IH) (use Cons.prems(1) m(3) in auto)
  ultimately show ?case using r m(1) by (simp add: add.commute add.left_commute)
qed simp

text \<open>A plain \<^verbatim>\<open>char\<close> as a number.\<close>

lemma sint_char: "sint (b :: u8) = (if unat b < 128 then int (unat b) else int (unat b) - 256)"
proof -
  have w: "word_of_int (int (unat b)) = b" by simp
  have s: "sint b = (int (unat b) + 128) mod 256 - 128" using int_word_sint [where 'a = 8, of "int (unat b)"] unfolding w by simp
  have small: "(int k + 128) mod 256 = int k + 128" if "k < 128" for k using that by simp
  have large: "(int k + 128) mod 256 = int k - 128" if k: "128 \<le> k" "k < 256" for k
  proof -
    have e: "int k + 128 = int (k - 128) + 256" using k by simp
    show ?thesis unfolding e mod_add_self2 using k by simp
  qed
  have "unat b < 256" using unsigned_less [of b] by simp
  then show ?thesis unfolding s using small [of "unat b"] large [of "unat b"] by simp
qed
lemma u32_less: "a < b \<Longrightarrow> b < 4294967296 \<Longrightarrow> (of_nat a :: u32) < of_nat b"
  by (simp add: word_less_nat_alt unat_of_nat take_bit_nat_eq_self)

lemma read_byte_app: "read_byte (pre @ b # post) (int (length pre)) = Some b"
  by (simp add: read_byte_def nth_append)

lemma tlv_skip:
  assumes "len < sz" "read_byte buff (p - TLV_OVERHEAD_SIZE) = Some t" "read_byte buff (p - TLV_OVERHEAD_SIZE + 1) = Some l"
    "sint t \<noteq> uint no"
  shows "tlv_iterate buff sz no len p =
    tlv_iterate buff sz no (len + ucast l + of_int TLV_OVERHEAD_SIZE) (p + TLV_OVERHEAD_SIZE + sint l)"
  by (subst tlv_iterate.simps) (simp add: assms)

text \<open>The search over the records behind \<open>pre\<close>.\<close>

lemma sint_char_eq: "sint t = uint no \<longleftrightarrow> t = no \<and> unat no < 128" for t no :: u8
proof -
  have s: "sint t = (if unat t < 128 then int (unat t) else int (unat t) - 256)" by (rule sint_char)
  have no: "uint no = int (unat no)" and t: "unat t < 256" using unsigned_less [of t] by simp_all
  have key: "(if a < 128 then int a else int a - 256) = int b \<longleftrightarrow> a = b \<and> b < 128" if "a < 256" for a b using that by auto
  have "sint t = uint no \<longleftrightarrow> unat t = unat no \<and> unat no < 128" unfolding s no by (rule key [OF t])
  then show ?thesis by (simp only: word_unat_eq_iff)
qed

lemma tlv_iterate_records:
  assumes "\<forall>r\<in>set ts. length (snd r) < 128" "length pre + tlv_size ts < 4294967296"
  shows "case tlv_first no ts of
      None \<Rightarrow> tlv_iterate (pre @ concat (map tlv_bytes ts) @ post) (of_nat (length pre + tlv_size ts)) no
                (of_nat (length pre)) (int (length pre) + 2) = Some Tlv_none
    | Some r \<Rightarrow> \<exists>p. tlv_iterate (pre @ concat (map tlv_bytes ts) @ post) (of_nat (length pre + tlv_size ts)) no
                (of_nat (length pre)) (int (length pre) + 2) = Some (Tlv_found (int p) (of_nat (length (snd r)))) \<and>
                take (length (snd r)) (drop p (pre @ concat (map tlv_bytes ts) @ post)) = snd r"
  using assms
proof (induction ts arbitrary: pre)
  case Nil
  then show ?case by (subst tlv_iterate.simps) (simp add: tlv_first_def)
next
  case (Cons r ts)
  obtain t d where r: "r = (t, d)" by (cases r)
  have plain: "length d < 128" using Cons.prems(1) r by simp
  let ?l = "of_nat (length d) :: u8"
  let ?buff = "pre @ concat (map tlv_bytes (r # ts)) @ post" and ?size = "of_nat (length pre + tlv_size (r # ts)) :: u32"
  have l: "unat ?l = length d" using plain by (simp add: unat_of_nat)
  have less: "(of_nat (length pre) :: u32) < ?size"
    by (rule u32_less) (use Cons.prems(2) r in simp_all)
  have type: "read_byte ?buff (int (length pre) + 2 - TLV_OVERHEAD_SIZE) = Some t"
    using read_byte_app [of pre t "?l # d @ concat (map tlv_bytes ts) @ post"] r by (simp add: TLV_OVERHEAD_SIZE_def)
  have len: "read_byte ?buff (int (length pre) + 2 - TLV_OVERHEAD_SIZE + 1) = Some ?l"
    using read_byte_app [of "pre @ [t]" ?l "d @ concat (map tlv_bytes ts) @ post"] r by (simp add: TLV_OVERHEAD_SIZE_def add.commute)
  have eq: "sint t = uint no \<longleftrightarrow> t = no \<and> unat no < 128" by (rule sint_char_eq)
  show ?case
  proof (cases "t = no \<and> unat no < 128")
    case True
    have "tlv_iterate ?buff ?size no (of_nat (length pre)) (int (length pre) + 2) = Some (Tlv_found (int (length pre + 2)) ?l)"
      using less type len eq True by (subst tlv_iterate.simps) simp
    then show ?thesis using True r by (intro exI [of _ "length pre + 2"] | simp add: tlv_first_def)+
  next
    case False
    let ?pre = "pre @ tlv_bytes r"
    have c1: "(of_nat (length pre) :: u32) + ucast ?l + of_int TLV_OVERHEAD_SIZE = of_nat (length ?pre)"
    proof -
      have "(of_nat (unat ?l) :: u32) = ucast ?l" by (rule of_nat_unat)
      then have u: "ucast ?l = (of_nat (length d) :: u32)" unfolding l by (rule sym)
      show ?thesis unfolding u using r by (simp add: TLV_OVERHEAD_SIZE_def)
    qed
    have c2: "int (length pre) + 2 + TLV_OVERHEAD_SIZE + sint ?l = int (length ?pre) + 2"
      using l plain r by (simp add: sint_char TLV_OVERHEAD_SIZE_def)
    have step: "tlv_iterate ?buff ?size no (of_nat (length pre)) (int (length pre) + 2) =
        tlv_iterate ?buff ?size no (of_nat (length ?pre)) (int (length ?pre) + 2)"
      using tlv_skip [OF less type len, of no] eq False unfolding c1 c2 by blast
    have b: "?buff = ?pre @ concat (map tlv_bytes ts) @ post" by simp
    have sz: "length pre + tlv_size (r # ts) = length ?pre + tlv_size ts" using r by simp
    have f: "tlv_first no (r # ts) = tlv_first no ts" using False r by (auto simp: tlv_first_def)
    have prems: "\<forall>r\<in>set ts. length (snd r) < 128" "length ?pre + tlv_size ts < 4294967296"
      using Cons.prems sz by auto
    show ?thesis using Cons.IH [OF prems] unfolding step f unfolding b sz .
  qed
qed

lemma tlv_iterate_high:
  "tlv_iterate buff sz no len p = Some r \<Longrightarrow> 128 \<le> unat no \<Longrightarrow> r = Tlv_fault \<or> r = Tlv_none"
proof (induction rule: tlv_iterate.raw_induct [rotated, consumes 1])
  case (1 iter buff sz no len p r)
  have "sint t \<noteq> uint no" for t :: u8
  proof -
    have "sint t < 128" using sint_lt [of t] by simp
    moreover have "uint no = int (unat no)" by simp
    ultimately show ?thesis using 1(3) by linarith
  qed
  then show ?case using 1 by (auto split: if_splits option.splits)
qed

lemma tlv_iterate_returns:
  "unat sz < 4294967040 \<Longrightarrow> \<exists>r. tlv_iterate buff sz no len p = Some r"
proof (induction "unat sz - unat len" arbitrary: len p rule: less_induct)
  case less
  show ?case
  proof (cases "len < sz")
    case False
    then show ?thesis by (subst tlv_iterate.simps) simp
  next
    case True
    have next_len: "unat (len + ucast l + of_int TLV_OVERHEAD_SIZE) = unat len + unat l + 2" for l :: u8
    proof -
      have l: "unat l < 256" using unsigned_less [of l] by simp
      then have "unat (ucast l :: u32) = unat l" by (simp add: unsigned_ucast_eq take_bit_nat_eq_self)
      moreover have "unat len < unat sz" using True by (simp add: word_less_nat_alt)
      ultimately show ?thesis using less.prems l by (simp add: TLV_OVERHEAD_SIZE_def unat_word_ariths)
    qed
    have "\<exists>r. tlv_iterate buff sz no (len + ucast l + of_int TLV_OVERHEAD_SIZE) q = Some r" for l :: u8 and q
      by (rule less.hyps) (use True less.prems next_len [of l] in \<open>simp_all add: word_less_nat_alt\<close>)
    then show ?thesis by (subst tlv_iterate.simps) (auto split: option.splits)
  qed
qed

section \<open>Properties\<close>

text \<open>A number is recovered from its text, and a text that is a dotted quad from its number.\<close>

theorem ip_address_roundtrip:
  "tcp_ip_covert_ip_p_to_n (tcp_ip_covert_ip_n_to_p w) = w \<and>
   (inet_pton s \<noteq> None \<longrightarrow> tcp_ip_covert_ip_n_to_p (tcp_ip_covert_ip_p_to_n s) = s)"
  using ip_number ip_text by blast

theorem ip_address_roundtrip_witness:
  "tcp_ip_covert_ip_n_to_p (tcp_ip_covert_ip_p_to_n ''192.168.0.17'') = ''192.168.0.17'' \<and> inet_pton ''192.168.0.017'' = None"
proof -
  have "inet_pton ''192.168.0.17'' \<noteq> None" "inet_pton ''192.168.0.017'' = None" by code_simp+
  then show ?thesis using ip_address_roundtrip by blast
qed

text \<open>\<^verbatim>\<open>apply_mask\<close> yields the text of the address whose bits behind the mask are cleared, is
  idempotent, and is defined for masks of 1 to 32 only: for a mask of 0, that of a default route, it
  shifts a 32-bit number by 32.\<close>

theorem apply_mask_correct:
  assumes "length prefix \<le> 15"
  shows "case apply_mask prefix msk of
      None \<Rightarrow> sint msk < 1 \<or> 32 < sint msk
    | Some q \<Rightarrow> 1 \<le> sint msk \<and> sint msk \<le> 32 \<and>
        tcp_ip_covert_ip_p_to_n q = tcp_ip_covert_ip_p_to_n prefix AND push_bit (nat (32 - sint msk)) (- 1) \<and>
        apply_mask q msk = Some q"
proof (cases "apply_mask prefix msk")
  case None
  then show ?thesis by (auto simp: apply_mask_def Let_def split: if_splits)
next
  case (Some q)
  then show ?thesis using apply_mask_number [OF Some assms] by simp
qed

theorem apply_mask_correct_witness:
  "apply_mask ''122.1.1.1'' 24 = Some ''122.1.1.0'' \<and>
   tcp_ip_covert_ip_p_to_n ''122.1.1.0'' = tcp_ip_covert_ip_p_to_n ''122.1.1.1'' AND push_bit 8 (- 1) \<and>
   apply_mask ''0.0.0.0'' 0 = None"
proof -
  have e: "apply_mask ''122.1.1.1'' 24 = Some ''122.1.1.0''" "apply_mask ''0.0.0.0'' 0 = None"
    "nat (32 - sint (24 :: u8)) = 8" by code_simp+
  show ?thesis using apply_mask_correct [of "''122.1.1.1''" 24] unfolding e by simp
qed

text \<open>C15. What is written is found: records of any types with values shorter than 128 bytes, written one
  behind the other into a buffer that has room for them, are looked up by type. For a type below 128 the
  first record of that type is found, with its length and its data, and a type that was not written is not
  found. A record with a type from 128 on is stepped over and never found (see \<open>tlv_signed_char\<close>, also for
  longer values).\<close>

theorem tlv_roundtrip:
  assumes "\<forall>r\<in>set ts. length (snd r) < 128" "tlv_size ts \<le> length buff" "tlv_size ts < 4294967296"
  shows "\<exists>buff'. tlv_insert_all buff 0 ts = Some (buff', int (tlv_size ts)) \<and> length buff' = length buff \<and>
    drop (tlv_size ts) buff' = drop (tlv_size ts) buff \<and>
    (case find (\<lambda>r. fst r = no \<and> unat no < 128) ts of
       None \<Rightarrow> tlv_buffer_get_particular_tlv buff' (of_nat (tlv_size ts)) no = Some Tlv_none
     | Some r \<Rightarrow> \<exists>p. tlv_buffer_get_particular_tlv buff' (of_nat (tlv_size ts)) no = Some (Tlv_found (int p) (of_nat (length (snd r)))) \<and>
         take (length (snd r)) (drop p buff') = snd r)"
proof -
  let ?b = "concat (map tlv_bytes ts) @ drop (tlv_size ts) buff"
  have "\<forall>r\<in>set ts. length (snd r) < 256" using assms(1) by auto
  then have "tlv_insert_all buff 0 ts = Some (?b, int (tlv_size ts))"
    using tlv_insert_all_app [of ts "take (tlv_size ts) buff" "[]" "drop (tlv_size ts) buff"] assms(2) by simp
  moreover have "length ?b = length buff" "drop (tlv_size ts) ?b = drop (tlv_size ts) buff"
    using assms(2) by (simp_all add: tlv_size_def)
  ultimately show ?thesis
    using tlv_iterate_records [OF assms(1), where pre = "[]" and no = no and post = "drop (tlv_size ts) buff"] assms(3)
    unfolding tlv_buffer_get_particular_tlv_def TLV_OVERHEAD_SIZE_def tlv_first_def
    by (intro exI [of _ ?b]) (cases "find (\<lambda>r. fst r = no \<and> unat no < 128) ts"; simp)
qed

theorem tlv_roundtrip_witness:
  "\<exists>buff' p. tlv_insert_all (replicate 12 0) 0 [(7, [1, 2]), (200, [3]), (9, [4]), (7, [])] = Some (buff', 12) \<and>
    tlv_buffer_get_particular_tlv buff' 12 9 = Some (Tlv_found (int p) 1) \<and> take 1 (drop p buff') = [4]"
  using tlv_roundtrip [of "[(7, [1, 2]), (200, [3]), (9, [4]), (7, [])]" "replicate 12 0" 9]
  by (auto simp del: tlv_insert_all.simps)

text \<open>The search ends, for every buffer of less than 4294967040 bytes, whatever it contains.\<close>

theorem tlv_search_returns:
  assumes "unat tlv_buff_size < 4294967040"
  shows "\<exists>r. tlv_buffer_get_particular_tlv tlv_buff tlv_buff_size tlv_no = Some r"
  unfolding tlv_buffer_get_particular_tlv_def by (rule tlv_iterate_returns [OF assms])

theorem tlv_search_returns_witness:
  "\<exists>r. tlv_buffer_get_particular_tlv [1, 0, 200] 65535 5 = Some r"
  by (rule tlv_search_returns) simp

text \<open>The type and the length of a record are read into variables of type \<^verbatim>\<open>char\<close>, which is signed:
  a record with a type of 128 or more is never found, whatever the buffer, and the search steps
  backwards over a value of 128 to 253 bytes and reads in front of the buffer.\<close>

theorem tlv_signed_char:
  assumes "unat t < 128" "t \<noteq> no" "128 \<le> length d" "length d < 254" "tlv_size [(t, d)] < unat sz"
  shows "tlv_buffer_get_particular_tlv (tlv_bytes (t, d) @ rest) sz no = Some Tlv_fault \<and>
    (128 \<le> unat high \<longrightarrow> tlv_buffer_get_particular_tlv buff sz' high \<noteq> Some (Tlv_found p l))"
proof -
  let ?l = "of_nat (length d) :: u8" and ?buff = "tlv_bytes (t, d) @ rest"
  have l: "unat ?l = length d" using assms(4) by (simp add: unat_of_nat)
  have s: "sint ?l = int (length d) - 256" using l assms(3) by (simp add: sint_char)
  have eq: "sint t \<noteq> uint no" using assms(1,2) sint_char [of t] by (simp add: word_uint_eq_iff)
  have z: "(0 :: u32) < sz" using assms(5) by (simp add: word_less_nat_alt)
  have "tlv_iterate ?buff sz no 0 TLV_OVERHEAD_SIZE =
      tlv_iterate ?buff sz no (ucast ?l + of_int TLV_OVERHEAD_SIZE) (TLV_OVERHEAD_SIZE + TLV_OVERHEAD_SIZE + sint ?l)"
    using tlv_skip [OF z, of ?buff TLV_OVERHEAD_SIZE t ?l no] eq by (simp add: read_byte_def TLV_OVERHEAD_SIZE_def)
  moreover have "(ucast ?l + of_int TLV_OVERHEAD_SIZE :: u32) < sz"
  proof -
    have "(of_nat (unat ?l) :: u32) = ucast ?l" by (rule of_nat_unat)
    then have u: "ucast ?l = (of_nat (length d) :: u32)" unfolding l by (rule sym)
    have "(of_nat (length d + 2) :: u32) < sz"
      using assms(4,5) by (simp add: word_less_nat_alt unat_word_ariths unat_of_nat)
    then show ?thesis unfolding u by (simp add: TLV_OVERHEAD_SIZE_def add.commute)
  qed
  moreover have "read_byte ?buff (TLV_OVERHEAD_SIZE + TLV_OVERHEAD_SIZE + sint ?l - TLV_OVERHEAD_SIZE) = None"
    using s assms(4) by (simp add: read_byte_def TLV_OVERHEAD_SIZE_def)
  ultimately have "tlv_iterate ?buff sz no 0 TLV_OVERHEAD_SIZE = Some Tlv_fault"
    by (subst (asm) (2) tlv_iterate.simps) simp
  then show ?thesis
    using tlv_iterate_high [of buff sz' high 0 TLV_OVERHEAD_SIZE] unfolding tlv_buffer_get_particular_tlv_def by fastforce
qed

theorem tlv_signed_char_witness:
  "tlv_buffer_get_particular_tlv (tlv_bytes (1, replicate 200 0) @ [2, 0]) 204 2 = Some Tlv_fault \<and>
   tlv_buffer_get_particular_tlv [130, 0] 2 130 \<noteq> Some (Tlv_found 2 0)"
  using tlv_signed_char [of 1 2 "replicate 200 0" 204 "[2, 0]" 130 "[130, 0]" 2 2 0] by simp

text \<open>The broadcast address that was filled in is not recognised in an array of \<^verbatim>\<open>char\<close>.\<close>

lemma broadcast_mac_not_recognised:
  "length mac = 6 \<Longrightarrow> \<not> IS_MAC_BROADCAST_ADDR (layer2_fill_with_broadcast_mac mac)"
  by (auto simp: IS_MAC_BROADCAST_ADDR_def layer2_fill_with_broadcast_mac_def intro!: exI [of _ 0])

end
