(* ===== verification/CrudMgr.thy ===== *)
theory CrudMgr
  imports Schedules
begin

unbundle bit_operations_syntax

text \<open>
  The library of \<^verbatim>\<open>ThreadSafeCruds/CrudMgr.cpp\<close> and \<^verbatim>\<open>CrudMgr.h\<close>: a manager and the nodes
  it knows, whose readers, writers, creators and deleters are synchronised by the library. A node has
  nine states, kept as the bits of \<^verbatim>\<open>crud_node_status\<close> with a counter each, and is in the list
  of the manager for every state it is in. The lists are linked by \<open>Glthread\<close>; here they are the lists
  it implements, and the glue of a node is empty if the node is not in the list.

  A request is a section of \<open>Pthreads\<close>: from the acquisition of the node's mutex (of the manager's,
  for a create and the second half of a delete) to its release or to a wait; the sections of the manager's
  mutex inside it are part of it. A deletion and the release of a created or deleted node have two
  halves, with no mutex held between them. An assertion that fails, \<open>IMPOSSIBLE_CASE\<close> and a node that
  does not exist are \<open>Aborted\<close> (\<open>None\<close> in a function on the state). Printing is left out.
\<close>

section \<open>States of a node\<close>

datatype crud_node_state =
    crud_node_pending_read | crud_node_read_in_progress
  | crud_node_pending_write | crud_node_write_in_progress
  | crud_node_pending_delete | crud_node_delete_in_progress
  | crud_node_pending_create | crud_node_create_in_progress
  | crud_node_no_op

fun crud_node_state_val :: "crud_node_state \<Rightarrow> u32" where
  "crud_node_state_val crud_node_pending_read = 1"
| "crud_node_state_val crud_node_read_in_progress = 2"
| "crud_node_state_val crud_node_pending_write = 4"
| "crud_node_state_val crud_node_write_in_progress = 8"
| "crud_node_state_val crud_node_pending_delete = 16"
| "crud_node_state_val crud_node_delete_in_progress = 32"
| "crud_node_state_val crud_node_pending_create = 64"
| "crud_node_state_val crud_node_create_in_progress = 128"
| "crud_node_state_val crud_node_no_op = 256"

fun crud_node_state_to_index :: "crud_node_state \<Rightarrow> nat" where
  "crud_node_state_to_index crud_node_pending_read = 0"
| "crud_node_state_to_index crud_node_read_in_progress = 1"
| "crud_node_state_to_index crud_node_pending_write = 2"
| "crud_node_state_to_index crud_node_write_in_progress = 3"
| "crud_node_state_to_index crud_node_pending_delete = 4"
| "crud_node_state_to_index crud_node_delete_in_progress = 5"
| "crud_node_state_to_index crud_node_pending_create = 6"
| "crud_node_state_to_index crud_node_create_in_progress = 7"
| "crud_node_state_to_index crud_node_no_op = 8"

definition crud_node_index_to_crud_node_state :: "nat \<Rightarrow> crud_node_state option" where
  "crud_node_index_to_crud_node_state i =
     (if i = 0 then Some crud_node_pending_read
      else if i = 1 then Some crud_node_read_in_progress
      else if i = 2 then Some crud_node_pending_write
      else if i = 3 then Some crud_node_write_in_progress
      else if i = 4 then Some crud_node_pending_delete
      else if i = 5 then Some crud_node_delete_in_progress
      else if i = 6 then Some crud_node_pending_create
      else if i = 7 then Some crud_node_create_in_progress
      else if i = 8 then Some crud_node_no_op
      else None)"

fun crud_node_state_str :: "crud_node_state \<Rightarrow> string" where
  "crud_node_state_str crud_node_pending_read = ''crud_node_pending_read''"
| "crud_node_state_str crud_node_read_in_progress = ''crud_node_read_in_progress''"
| "crud_node_state_str crud_node_pending_write = ''crud_node_pending_write''"
| "crud_node_state_str crud_node_write_in_progress = ''crud_node_write_in_progress''"
| "crud_node_state_str crud_node_pending_delete = ''crud_node_pending_delete''"
| "crud_node_state_str crud_node_delete_in_progress = ''crud_node_delete_in_progress''"
| "crud_node_state_str crud_node_pending_create = ''crud_node_pending_create''"
| "crud_node_state_str crud_node_create_in_progress = ''crud_node_create_in_progress''"
| "crud_node_state_str crud_node_no_op = ''crud_node_no_op''"

datatype crud_op_type = CRUD_DELETE | CRUD_CREATE | CRUD_READ | CRUD_WRITE | CRUD_OP_NONE

record crud_node =
  cn_id :: u16
  cn_status :: u32
  cn_curr_op :: crud_op_type
  cn_counter :: "nat \<Rightarrow> u8"

text \<open>The manager, with the memory that holds the nodes and the static counter of the identifiers.\<close>

record crud_mgr =
  cm_n_crud_nodes :: "64 word"
  cm_crud_nodes_list :: "nat \<Rightarrow> addr list"
  cm_nodes :: "addr \<Rightarrow> crud_node option"
  cm_crud_node_id :: u16

definition node_at :: "addr \<Rightarrow> crud_mgr \<Rightarrow> crud_node option" where
  "node_at p s = (if p = 0 then None else cm_nodes s p)"

definition put_node :: "addr \<Rightarrow> crud_node \<Rightarrow> crud_mgr \<Rightarrow> crud_mgr" where
  "put_node p n s = s\<lparr>cm_nodes := (cm_nodes s)(p \<mapsto> n)\<rparr>"

text \<open>\<^verbatim>\<open>crud_node_get_unique_id\<close>: the identifier and the state after it.\<close>

definition crud_node_get_unique_id :: "crud_mgr \<Rightarrow> u16 \<times> crud_mgr" where
  "crud_node_get_unique_id s = (cm_crud_node_id s, s\<lparr>cm_crud_node_id := cm_crud_node_id s + 1\<rparr>)"

definition crud_node_status_set_flag :: "crud_node_state \<Rightarrow> crud_node \<Rightarrow> crud_node" where
  "crud_node_status_set_flag st n = n\<lparr>cn_status := cn_status n OR crud_node_state_val st\<rparr>"

definition crud_node_status_unset_flag :: "crud_node_state \<Rightarrow> crud_node \<Rightarrow> crud_node" where
  "crud_node_status_unset_flag st n = n\<lparr>cn_status := cn_status n AND NOT (crud_node_state_val st)\<rparr>"

definition crud_node_is_status_set :: "crud_node \<Rightarrow> crud_node_state \<Rightarrow> bool" where
  "crud_node_is_status_set n st \<longleftrightarrow> cn_status n AND crud_node_state_val st \<noteq> 0"

definition crud_node_in_use :: "crud_node \<Rightarrow> bool" where
  "crud_node_in_use n \<longleftrightarrow>
     crud_node_is_status_set n crud_node_pending_read \<or>
     crud_node_is_status_set n crud_node_read_in_progress \<or>
     crud_node_is_status_set n crud_node_pending_write \<or>
     crud_node_is_status_set n crud_node_write_in_progress \<or>
     crud_node_is_status_set n crud_node_pending_delete \<or>
     crud_node_is_status_set n crud_node_delete_in_progress \<or>
     crud_node_is_status_set n crud_node_pending_create \<or>
     crud_node_is_status_set n crud_node_create_in_progress"

definition crud_node_get_state_counter :: "crud_node \<Rightarrow> crud_node_state \<Rightarrow> u8" where
  "crud_node_get_state_counter n st = cn_counter n (crud_node_state_to_index st)"

text \<open>The assertion of \<^verbatim>\<open>crud_node_state_verify\<close>.\<close>

definition crud_node_state_verify :: "addr \<Rightarrow> crud_node_state \<Rightarrow> bool \<Rightarrow> crud_node \<Rightarrow> crud_mgr \<Rightarrow> bool" where
  "crud_node_state_verify p st is_present n s =
     (let index = crud_node_state_to_index st in
      if is_present
      then crud_node_is_status_set n st \<and> cn_counter n index > 0 \<and> p \<in> set (cm_crud_nodes_list s index)
      else \<not> crud_node_is_status_set n st \<and> cn_counter n index = 0 \<and> p \<notin> set (cm_crud_nodes_list s index))"

text \<open>What entering and leaving a state does to \<^verbatim>\<open>curr_op\<close>.\<close>

definition enter_curr_op :: "crud_node_state \<Rightarrow> crud_node \<Rightarrow> crud_node" where
  "enter_curr_op st n = (case st of
      crud_node_read_in_progress \<Rightarrow> n\<lparr>cn_curr_op := CRUD_READ\<rparr>
    | crud_node_write_in_progress \<Rightarrow> n\<lparr>cn_curr_op := CRUD_WRITE\<rparr>
    | crud_node_delete_in_progress \<Rightarrow> n\<lparr>cn_curr_op := CRUD_DELETE\<rparr>
    | crud_node_create_in_progress \<Rightarrow> n\<lparr>cn_curr_op := CRUD_CREATE\<rparr>
    | crud_node_no_op \<Rightarrow> n\<lparr>cn_curr_op := CRUD_OP_NONE\<rparr>
    | _ \<Rightarrow> n)"

definition exit_curr_op :: "crud_node_state \<Rightarrow> crud_node \<Rightarrow> crud_node" where
  "exit_curr_op st n = (case st of
      crud_node_read_in_progress \<Rightarrow> n\<lparr>cn_curr_op := CRUD_OP_NONE\<rparr>
    | crud_node_write_in_progress \<Rightarrow> n\<lparr>cn_curr_op := CRUD_OP_NONE\<rparr>
    | crud_node_delete_in_progress \<Rightarrow> n\<lparr>cn_curr_op := CRUD_OP_NONE\<rparr>
    | crud_node_create_in_progress \<Rightarrow> n\<lparr>cn_curr_op := CRUD_OP_NONE\<rparr>
    | _ \<Rightarrow> n)"

definition set_counter :: "crud_node_state \<Rightarrow> u8 \<Rightarrow> crud_node \<Rightarrow> crud_node" where
  "set_counter st c n = n\<lparr>cn_counter := (cn_counter n)(crud_node_state_to_index st := c)\<rparr>"

definition list_add :: "addr \<Rightarrow> crud_node_state \<Rightarrow> crud_mgr \<Rightarrow> crud_mgr" where
  "list_add p st s = (let i = crud_node_state_to_index st in
     s\<lparr>cm_crud_nodes_list := (cm_crud_nodes_list s)(i := p # cm_crud_nodes_list s i)\<rparr>)"

definition list_remove :: "addr \<Rightarrow> crud_node_state \<Rightarrow> crud_mgr \<Rightarrow> crud_mgr" where
  "list_remove p st s = (let i = crud_node_state_to_index st in
     s\<lparr>cm_crud_nodes_list := (cm_crud_nodes_list s)(i := remove1 p (cm_crud_nodes_list s i))\<rparr>)"

text \<open>States only one thread may be in: entering such a state again fails an assertion.\<close>

definition entered_once :: "crud_node_state \<Rightarrow> bool" where
  "entered_once st \<longleftrightarrow> st = crud_node_write_in_progress \<or> st = crud_node_delete_in_progress \<or>
     st = crud_node_pending_create \<or> st = crud_node_create_in_progress \<or> st = crud_node_no_op"

text \<open>Entering a state leaves \<^verbatim>\<open>crud_node_no_op\<close>, and leaving the last state enters it.\<close>

function (sequential)
  crud_node_enter_state :: "addr \<Rightarrow> crud_node_state \<Rightarrow> crud_mgr \<Rightarrow> crud_mgr option" and
  crud_node_exit_state :: "addr \<Rightarrow> crud_node_state \<Rightarrow> crud_mgr \<Rightarrow> crud_mgr option" where
  "crud_node_enter_state p st s =
     (case node_at p s of None \<Rightarrow> None | Some n \<Rightarrow>
      if crud_node_is_status_set n st
      then if entered_once st then None
           else Some (put_node p (set_counter st (crud_node_get_state_counter n st + 1) n) s)
      else if \<not> crud_node_state_verify p st False n s then None
      else let n1 = set_counter st 1 (crud_node_status_set_flag st (enter_curr_op st n));
               s1 = list_add p st (put_node p n1 s)
           in if st \<noteq> crud_node_no_op \<and> crud_node_is_status_set n1 crud_node_no_op
              then crud_node_exit_state p crud_node_no_op s1
              else Some s1)"
| "crud_node_exit_state p st s =
     (case node_at p s of None \<Rightarrow> None | Some n \<Rightarrow>
      if \<not> crud_node_state_verify p st True n s then None
      else let n1 = set_counter st (crud_node_get_state_counter n st - 1) n in
        if crud_node_get_state_counter n1 st \<noteq> 0 then Some (put_node p n1 s)
        else let n2 = exit_curr_op st (crud_node_status_unset_flag st n1);
                 s2 = list_remove p st (put_node p n2 s)
             in if \<not> crud_node_in_use n2
                then map_option (\<lambda>s3. s3\<lparr>cm_nodes := (cm_nodes s3)(p := map_option (\<lambda>x. x\<lparr>cn_curr_op := CRUD_OP_NONE\<rparr>) (cm_nodes s3 p))\<rparr>)
                       (crud_node_enter_state p crud_node_no_op s2)
                else Some s2)"
  by pat_completeness auto
termination
  by (relation "measure (\<lambda>x. case x of Inl (p, st, s) \<Rightarrow> if st = crud_node_no_op then 0 else 2 | Inr _ \<Rightarrow> 1)") auto

section \<open>Requests\<close>

datatype crud_cv = rdrs_cv addr | writers_cv addr | delete_thread_cv addr | create_thread_cv addr

text \<open>What a call, or the half of one, returns: access, a rejection, the end of the first half of a
  deletion or of the release of a created or deleted node, the end of a release.\<close>

datatype crud_result =
    Crud_granted crud_op_type addr
  | Crud_rejected
  | Crud_submitted addr
  | Crud_half_released addr
  | Crud_released

text \<open>Where a thread waits.\<close>

datatype crud_wait = Wait_read addr | Wait_write addr | Wait_delete addr | Wait_delete_second addr | Wait_create addr

type_synonym crud_sect = "(crud_mgr, crud_result, crud_cv, crud_wait) sect"

definition entering :: "addr \<Rightarrow> crud_node_state \<Rightarrow> crud_mgr \<Rightarrow> (crud_mgr \<Rightarrow> crud_sect) \<Rightarrow> crud_sect" where
  "entering p st s k = (case crud_node_enter_state p st s of None \<Rightarrow> Aborted | Some s1 \<Rightarrow> k s1)"

definition exiting :: "addr \<Rightarrow> crud_node_state \<Rightarrow> crud_mgr \<Rightarrow> (crud_mgr \<Rightarrow> crud_sect) \<Rightarrow> crud_sect" where
  "exiting p st s k = (case crud_node_exit_state p st s of None \<Rightarrow> Aborted | Some s1 \<Rightarrow> k s1)"

definition with_node :: "addr \<Rightarrow> crud_mgr \<Rightarrow> (crud_node \<Rightarrow> crud_sect) \<Rightarrow> crud_sect" where
  "with_node p s k = (case node_at p s of None \<Rightarrow> Aborted | Some n \<Rightarrow> k n)"

text \<open>The tests by which a request is rejected at once.\<close>

definition crud_rejects :: "crud_node \<Rightarrow> bool" where
  "crud_rejects n \<longleftrightarrow>
     crud_node_is_status_set n crud_node_pending_delete \<or>
     crud_node_is_status_set n crud_node_pending_create \<or>
     crud_node_is_status_set n crud_node_delete_in_progress \<or>
     crud_node_is_status_set n crud_node_create_in_progress"

text \<open>One round of the loop of \<^verbatim>\<open>crud_request_read\<close>, to the return or the next wait.\<close>

definition crud_read_loop :: "addr \<Rightarrow> crud_mgr \<Rightarrow> crud_sect" where
  "crud_read_loop p s = with_node p s (\<lambda>n.
     if crud_node_is_status_set n crud_node_pending_delete
     then Unlocked s Crud_rejected [Broadcast (rdrs_cv p), Broadcast (writers_cv p), Signal (delete_thread_cv p)]
     else if crud_node_is_status_set n crud_node_pending_create then Aborted
     else if crud_node_is_status_set n crud_node_delete_in_progress then Aborted
     else if crud_node_is_status_set n crud_node_create_in_progress then Aborted
     else if crud_node_is_status_set n crud_node_write_in_progress
     then entering p crud_node_pending_read s (\<lambda>s1. CvWait s1 (rdrs_cv p) (Wait_read p) [])
     else if crud_node_is_status_set n crud_node_no_op
     then check (\<not> crud_node_in_use n)
            (entering p crud_node_read_in_progress s (\<lambda>s1. Unlocked s1 (Crud_granted CRUD_READ p) []))
     else if crud_node_is_status_set n crud_node_read_in_progress
     then entering p crud_node_read_in_progress s (\<lambda>s1. Unlocked s1 (Crud_granted CRUD_READ p) [])
     else if crud_node_is_status_set n crud_node_pending_read
     then entering p crud_node_read_in_progress s (\<lambda>s1. Unlocked s1 (Crud_granted CRUD_READ p) [])
     else if crud_node_is_status_set n crud_node_pending_write
     then entering p crud_node_pending_read s (\<lambda>s1. CvWait s1 (rdrs_cv p) (Wait_read p) [])
     else Aborted)"

definition crud_request_read :: "addr \<Rightarrow> crud_mgr \<Rightarrow> crud_sect" where
  "crud_request_read p s = with_node p s (\<lambda>n.
     if crud_rejects n then Unlocked s Crud_rejected [] else crud_read_loop p s)"

definition crud_read_resume :: "addr \<Rightarrow> crud_mgr \<Rightarrow> crud_sect" where
  "crud_read_resume p s = exiting p crud_node_pending_read s (crud_read_loop p)"

definition crud_write_loop :: "addr \<Rightarrow> crud_mgr \<Rightarrow> crud_sect" where
  "crud_write_loop p s = with_node p s (\<lambda>n.
     if crud_node_is_status_set n crud_node_pending_delete
     then Unlocked s Crud_rejected [Broadcast (rdrs_cv p), Broadcast (writers_cv p), Signal (delete_thread_cv p)]
     else if crud_node_is_status_set n crud_node_pending_create then Aborted
     else if crud_node_is_status_set n crud_node_delete_in_progress then Aborted
     else if crud_node_is_status_set n crud_node_create_in_progress then Aborted
     else if crud_node_is_status_set n crud_node_write_in_progress
     then entering p crud_node_pending_write s (\<lambda>s1. CvWait s1 (writers_cv p) (Wait_write p) [])
     else if crud_node_is_status_set n crud_node_no_op
     then check (\<not> crud_node_in_use n)
            (entering p crud_node_write_in_progress s (\<lambda>s1. Unlocked s1 (Crud_granted CRUD_WRITE p) []))
     else if crud_node_is_status_set n crud_node_read_in_progress
     then entering p crud_node_pending_write s (\<lambda>s1. CvWait s1 (writers_cv p) (Wait_write p) [])
     else if crud_node_is_status_set n crud_node_pending_read
     then entering p crud_node_write_in_progress s (\<lambda>s1. Unlocked s1 (Crud_granted CRUD_WRITE p) [])
     else if crud_node_is_status_set n crud_node_pending_write
     then entering p crud_node_write_in_progress s (\<lambda>s1. Unlocked s1 (Crud_granted CRUD_WRITE p) [])
     else Aborted)"

definition crud_request_write :: "addr \<Rightarrow> crud_mgr \<Rightarrow> crud_sect" where
  "crud_request_write p s = with_node p s (\<lambda>n.
     if crud_rejects n then Unlocked s Crud_rejected [] else crud_write_loop p s)"

definition crud_write_resume :: "addr \<Rightarrow> crud_mgr \<Rightarrow> crud_sect" where
  "crud_write_resume p s = exiting p crud_node_pending_write s (crud_write_loop p)"

text \<open>\<^verbatim>\<open>crud_request_create\<close> holds the mutex of the manager.\<close>

definition crud_request_create :: "addr \<Rightarrow> crud_mgr \<Rightarrow> crud_sect" where
  "crud_request_create p s =
     (if cm_crud_nodes_list s (crud_node_state_to_index crud_node_create_in_progress) \<noteq> [] \<or>
         cm_crud_nodes_list s (crud_node_state_to_index crud_node_delete_in_progress) \<noteq> []
      then entering p crud_node_pending_create s (\<lambda>s1. CvWait s1 (create_thread_cv p) (Wait_create p) [])
      else entering p crud_node_create_in_progress s (\<lambda>s1. Unlocked s1 (Crud_granted CRUD_CREATE p) []))"

definition crud_create_resume :: "addr \<Rightarrow> crud_mgr \<Rightarrow> crud_sect" where
  "crud_create_resume p s = exiting p crud_node_pending_create s (crud_request_create p)"

text \<open>The loop of \<^verbatim>\<open>crud_request_delete\<close> under the node's mutex, and what follows it up to the
  release of that mutex. While the node is read, the thread waits on \<^verbatim>\<open>rdrs_cv\<close>.\<close>

definition crud_delete_loop :: "addr \<Rightarrow> crud_mgr \<Rightarrow> crud_sect" where
  "crud_delete_loop p s = with_node p s (\<lambda>n.
     if crud_node_is_status_set n crud_node_write_in_progress
     then entering p crud_node_pending_delete s (\<lambda>s1. CvWait s1 (delete_thread_cv p) (Wait_delete p) [])
     else if crud_node_is_status_set n crud_node_read_in_progress
     then entering p crud_node_pending_delete s (\<lambda>s1. CvWait s1 (rdrs_cv p) (Wait_delete p) [])
     else if crud_node_is_status_set n crud_node_pending_read
     then entering p crud_node_pending_delete s (\<lambda>s1. CvWait s1 (delete_thread_cv p) (Wait_delete p) [])
     else if crud_node_is_status_set n crud_node_pending_write
     then entering p crud_node_pending_delete s (\<lambda>s1. CvWait s1 (delete_thread_cv p) (Wait_delete p) [])
     else if crud_rejects n then Unlocked s Crud_rejected []
     else check (crud_node_state_verify p crud_node_no_op True n s)
            (entering p crud_node_pending_delete s (\<lambda>s1. Unlocked s1 (Crud_submitted p) [])))"

definition crud_request_delete :: "addr \<Rightarrow> crud_mgr \<Rightarrow> crud_sect" where
  "crud_request_delete p s = with_node p s (\<lambda>n.
     if crud_rejects n then Unlocked s Crud_rejected [] else crud_delete_loop p s)"

definition crud_delete_resume :: "addr \<Rightarrow> crud_mgr \<Rightarrow> crud_sect" where
  "crud_delete_resume p s = exiting p crud_node_pending_delete s (crud_delete_loop p)"

text \<open>The second half of \<^verbatim>\<open>crud_request_delete\<close>, under the mutex of the manager only.\<close>

definition crud_delete_second :: "addr \<Rightarrow> crud_mgr \<Rightarrow> crud_sect" where
  "crud_delete_second p s =
     (if cm_crud_nodes_list s (crud_node_state_to_index crud_node_create_in_progress) \<noteq> [] \<or>
         cm_crud_nodes_list s (crud_node_state_to_index crud_node_delete_in_progress) \<noteq> []
      then entering p crud_node_pending_delete s (\<lambda>s1. CvWait s1 (delete_thread_cv p) (Wait_delete_second p) [])
      else exiting p crud_node_pending_delete s (\<lambda>s1.
             entering p crud_node_delete_in_progress s1 (\<lambda>s2. Unlocked s2 (Crud_granted CRUD_DELETE p) [])))"

definition crud_delete_second_resume :: "addr \<Rightarrow> crud_mgr \<Rightarrow> crud_sect" where
  "crud_delete_second_resume p s = exiting p crud_node_pending_delete s (crud_delete_second p)"

section \<open>Release\<close>

text \<open>The first half of the release of a node that has been created or deleted.\<close>

definition crud_release_create_delete :: "addr \<Rightarrow> crud_node_state \<Rightarrow> crud_mgr \<Rightarrow> crud_sect" where
  "crud_release_create_delete p st s = exiting p st s (\<lambda>s1. with_node p s1 (\<lambda>n.
     check (\<not> crud_node_in_use n) (Unlocked s1 (Crud_half_released p) [])))"

text \<open>The second half, under the mutex of the manager: one thread that waits to create or to delete
  is signalled.\<close>

definition crud_release_second :: "addr \<Rightarrow> crud_mgr \<Rightarrow> crud_sect" where
  "crud_release_second p s =
     check (cm_crud_nodes_list s (crud_node_state_to_index crud_node_create_in_progress) = [])
       (check (cm_crud_nodes_list s (crud_node_state_to_index crud_node_delete_in_progress) = [])
         (Unlocked s Crud_released
            (case cm_crud_nodes_list s (crud_node_state_to_index crud_node_pending_create) of
               p2 # _ \<Rightarrow> [Signal (create_thread_cv p2)]
             | [] \<Rightarrow> (case cm_crud_nodes_list s (crud_node_state_to_index crud_node_pending_delete) of
                        p2 # _ \<Rightarrow> [Signal (delete_thread_cv p2)] | [] \<Rightarrow> []))))"

text \<open>Whom the last reader and the writer of a node wake.\<close>

definition crud_release_wakes :: "addr \<Rightarrow> crud_node \<Rightarrow> crud_cv wakeup list" where
  "crud_release_wakes p n =
     (if crud_node_is_status_set n crud_node_pending_read then [Broadcast (rdrs_cv p)]
      else if crud_node_is_status_set n crud_node_pending_write then [Signal (writers_cv p)]
      else if crud_node_is_status_set n crud_node_pending_delete then [Signal (delete_thread_cv p)]
      else [])"

definition crud_release_read :: "addr \<Rightarrow> crud_mgr \<Rightarrow> crud_sect" where
  "crud_release_read p s = exiting p crud_node_read_in_progress s (\<lambda>s1. with_node p s1 (\<lambda>n.
     if crud_node_is_status_set n crud_node_read_in_progress then Unlocked s1 Crud_released []
     else Unlocked s1 Crud_released (crud_release_wakes p n)))"

definition crud_release_write :: "addr \<Rightarrow> crud_mgr \<Rightarrow> crud_sect" where
  "crud_release_write p s = exiting p crud_node_write_in_progress s (\<lambda>s1. with_node p s1 (\<lambda>n.
     Unlocked s1 Crud_released (crud_release_wakes p n)))"

definition crud_request_release :: "addr \<Rightarrow> crud_mgr \<Rightarrow> crud_sect" where
  "crud_request_release p s = with_node p s (\<lambda>n. case cn_curr_op n of
      CRUD_OP_NONE \<Rightarrow> Aborted
    | CRUD_CREATE \<Rightarrow> crud_release_create_delete p crud_node_create_in_progress s
    | CRUD_DELETE \<Rightarrow> crud_release_create_delete p crud_node_delete_in_progress s
    | CRUD_READ \<Rightarrow> crud_release_read p s
    | CRUD_WRITE \<Rightarrow> crud_release_write p s)"

section \<open>Initialisation and destruction\<close>

definition crud_mgr_init :: "crud_mgr \<Rightarrow> crud_mgr" where
  "crud_mgr_init s = s\<lparr>cm_n_crud_nodes := 0, cm_crud_nodes_list := (\<lambda>_. [])\<rparr>"

definition crud_node_init :: "addr \<Rightarrow> crud_mgr \<Rightarrow> crud_mgr option" where
  "crud_node_init p s =
     (let n = \<lparr>cn_id = 0, cn_status = 0, cn_curr_op = CRUD_DELETE, cn_counter = (\<lambda>_. 0)\<rparr>;
          s1 = (put_node p n s)\<lparr>cm_n_crud_nodes := cm_n_crud_nodes s + 1\<rparr> in
      case crud_node_enter_state p crud_node_no_op s1 of None \<Rightarrow> None
      | Some s2 \<Rightarrow> (let (i, s3) = crud_node_get_unique_id s2 in
          map_option (\<lambda>n2. put_node p (n2\<lparr>cn_id := i\<rparr>) s3) (node_at p s3)))"

text \<open>\<^verbatim>\<open>crud_node_destroy\<close>; the pointer of the node to its manager is cleared with the node.\<close>

definition crud_node_destroy :: "addr \<Rightarrow> crud_mgr \<Rightarrow> crud_mgr option" where
  "crud_node_destroy p s = (case node_at p s of None \<Rightarrow> None | Some n \<Rightarrow>
     if cn_curr_op n = CRUD_OP_NONE \<and> \<not> crud_node_in_use n \<and>
        (\<forall>i\<in>set [0..<8]. p \<notin> set (cm_crud_nodes_list s i)) \<and> p \<in> set (cm_crud_nodes_list s 8)
     then let s1 = list_remove p crud_node_no_op s
          in Some (s1\<lparr>cm_n_crud_nodes := cm_n_crud_nodes s1 - 1, cm_nodes := (cm_nodes s1)(p := None)\<rparr>)
     else None)"

definition crud_mgr_destroy :: "crud_mgr \<Rightarrow> bool" where
  "crud_mgr_destroy s \<longleftrightarrow> cm_n_crud_nodes s = 0 \<and> (\<forall>i\<in>set [0..<9]. cm_crud_nodes_list s i = [])"

section \<open>The library as an object\<close>

datatype crud_call =
    Request_read addr | Request_write addr | Request_create addr | Request_delete addr
  | Delete_second addr | Release addr | Release_second addr

text \<open>What a thread has of the library: nothing, access to a node, or a call it is in the middle of.\<close>

datatype crud_held = Holds_nothing | Holds crud_op_type addr | Delete_half addr | Release_half addr

fun crud_enter :: "tid \<Rightarrow> crud_call \<Rightarrow> crud_mgr \<Rightarrow> crud_sect" where
  "crud_enter self (Request_read p) s = crud_request_read p s"
| "crud_enter self (Request_write p) s = crud_request_write p s"
| "crud_enter self (Request_create p) s = crud_request_create p s"
| "crud_enter self (Request_delete p) s = crud_request_delete p s"
| "crud_enter self (Delete_second p) s = crud_delete_second p s"
| "crud_enter self (Release p) s = crud_request_release p s"
| "crud_enter self (Release_second p) s = crud_release_second p s"

fun crud_resume :: "tid \<Rightarrow> crud_wait \<Rightarrow> crud_mgr \<Rightarrow> crud_sect" where
  "crud_resume self (Wait_read p) s = crud_read_resume p s"
| "crud_resume self (Wait_write p) s = crud_write_resume p s"
| "crud_resume self (Wait_create p) s = crud_create_resume p s"
| "crud_resume self (Wait_delete p) s = crud_delete_resume p s"
| "crud_resume self (Wait_delete_second p) s = crud_delete_second_resume p s"

fun holds_node :: "crud_held \<Rightarrow> addr \<Rightarrow> bool" where
  "holds_node (Holds k q) p \<longleftrightarrow> q = p"
| "holds_node _ p \<longleftrightarrow> False"

fun crud_client :: "(crud_call \<Rightarrow> bool) \<Rightarrow> crud_held \<Rightarrow> crud_call \<Rightarrow> bool" where
  "crud_client allow g (Delete_second p) \<longleftrightarrow> allow (Delete_second p) \<and> g = Delete_half p"
| "crud_client allow g (Release p) \<longleftrightarrow> allow (Release p) \<and> holds_node g p"
| "crud_client allow g (Release_second p) \<longleftrightarrow> allow (Release_second p) \<and> g = Release_half p"
| "crud_client allow g op \<longleftrightarrow> allow op \<and> g = Holds_nothing"

fun crud_hold :: "crud_result \<Rightarrow> crud_held \<Rightarrow> crud_held" where
  "crud_hold (Crud_granted k p) g = Holds k p"
| "crud_hold (Crud_submitted p) g = Delete_half p"
| "crud_hold (Crud_half_released p) g = Release_half p"
| "crud_hold _ g = Holds_nothing"

text \<open>The clients call only what \<open>allow\<close> says.\<close>

definition crud_obj :: "(crud_call \<Rightarrow> bool) \<Rightarrow> (crud_mgr, crud_held, crud_call, crud_wait, crud_cv, crud_result) obj" where
  "crud_obj allow = \<lparr>enter = crud_enter, resume = crud_resume, may_call = crud_client allow, on_return = crud_hold\<rparr>"

lemma crud_obj_simps [simp]:
  "enter (crud_obj allow) = crud_enter" "resume (crud_obj allow) = crud_resume"
  "may_call (crud_obj allow) = crud_client allow" "on_return (crud_obj allow) = crud_hold"
  by (simp_all add: crud_obj_def)

text \<open>A manager with new nodes at the addresses \<open>ps\<close>.\<close>

fun crud_nodes_init :: "addr list \<Rightarrow> crud_mgr \<Rightarrow> crud_mgr option" where
  "crud_nodes_init [] s = Some s"
| "crud_nodes_init (p # ps) s = (case crud_node_init p s of None \<Rightarrow> None | Some s1 \<Rightarrow> crud_nodes_init ps s1)"

definition crud_memory :: crud_mgr where
  "crud_memory = \<lparr>cm_n_crud_nodes = 0, cm_crud_nodes_list = (\<lambda>_. []), cm_nodes = Map.empty, cm_crud_node_id = 1\<rparr>"

definition crud_setup :: "addr list \<Rightarrow> crud_mgr" where
  "crud_setup ps = the (crud_nodes_init ps (crud_mgr_init crud_memory))"

end
