(* ===== verification/CrudMgrNode.thy ===== *)
theory CrudMgrNode
  imports CrudMgr
begin

text \<open>
  The state of a node of \<open>CrudMgr\<close> is nine counts: the bits of the status, the counters, the lists of the
  manager and \<^verbatim>\<open>curr_op\<close> say the same, and entering and leaving a state adds one to a count or takes
  one away. Initialisation and destruction of nodes and manager.
\<close>

section \<open>The bits of the status\<close>

lemma val_exp: "crud_node_state_val st = 2 ^ crud_node_state_to_index st"
  by (cases st) simp_all

lemma index_less: "crud_node_state_to_index st < 9"
  by (cases st) simp_all

lemma index_inj [simp]: "crud_node_state_to_index st = crud_node_state_to_index st' \<longleftrightarrow> st = st'"
  by (cases st; cases st') simp_all

lemma index_round_trip: "crud_node_index_to_crud_node_state i = Some st \<longleftrightarrow> i = crud_node_state_to_index st"
  by (cases st) (auto simp: crud_node_index_to_crud_node_state_def)

lemma status_bit: "crud_node_is_status_set n st \<longleftrightarrow> bit (cn_status n) (crud_node_state_to_index st)"
proof -
  have "cn_status n AND 2 ^ k = (if bit (cn_status n) k then 2 ^ k else 0)" if "k < 32" for k
    by (rule bit_word_eqI) (use that in \<open>auto simp: bit_and_iff bit_exp_iff\<close>)
  moreover have "(2::u32) ^ k \<noteq> 0" if "k < 32" for k
    using that by (simp add: exp_eq_zero_iff not_le)
  ultimately show ?thesis using index_less [of st] by (simp add: crud_node_is_status_set_def val_exp)
qed

lemma bit_val: "bit (crud_node_state_val st) (crud_node_state_to_index st') \<longleftrightarrow> st = st'"
  using index_less [of st'] by (auto simp: val_exp bit_exp_iff)

lemma status_set_flag [simp]:
  "crud_node_is_status_set (crud_node_status_set_flag st n) st' \<longleftrightarrow> st = st' \<or> crud_node_is_status_set n st'"
  by (auto simp: status_bit crud_node_status_set_flag_def bit_or_iff bit_val)

lemma status_unset_flag [simp]:
  "crud_node_is_status_set (crud_node_status_unset_flag st n) st' \<longleftrightarrow> st \<noteq> st' \<and> crud_node_is_status_set n st'"
  using index_less [of st'] by (auto simp: status_bit crud_node_status_unset_flag_def bit_and_iff bit_not_iff bit_val)

lemma in_use_iff: "crud_node_in_use n \<longleftrightarrow> (\<exists>st. st \<noteq> crud_node_no_op \<and> crud_node_is_status_set n st)"
  unfolding crud_node_in_use_def by (metis crud_node_state.exhaust crud_node_state.distinct)

lemma node_fields [simp]:
  "cn_status (enter_curr_op st n) = cn_status n" "cn_counter (enter_curr_op st n) = cn_counter n"
  "cn_status (exit_curr_op st n) = cn_status n" "cn_counter (exit_curr_op st n) = cn_counter n"
  "cn_curr_op (set_counter st c n) = cn_curr_op n" "cn_status (set_counter st c n) = cn_status n"
  "cn_curr_op (crud_node_status_set_flag st n) = cn_curr_op n" "cn_counter (crud_node_status_set_flag st n) = cn_counter n"
  "cn_curr_op (crud_node_status_unset_flag st n) = cn_curr_op n" "cn_counter (crud_node_status_unset_flag st n) = cn_counter n"
  by (cases st; simp add: enter_curr_op_def exit_curr_op_def set_counter_def crud_node_status_set_flag_def
      crud_node_status_unset_flag_def)+

lemma status_only:
  "crud_node_is_status_set (enter_curr_op st n) = crud_node_is_status_set n"
  "crud_node_is_status_set (exit_curr_op st n) = crud_node_is_status_set n"
  "crud_node_is_status_set (set_counter st c n) = crud_node_is_status_set n"
  "crud_node_is_status_set (n\<lparr>cn_curr_op := k\<rparr>) = crud_node_is_status_set n"
  by (simp_all add: crud_node_is_status_set_def fun_eq_iff)

lemma counter_set [simp]:
  "crud_node_get_state_counter (set_counter st c n) st' = (if st = st' then c else crud_node_get_state_counter n st')"
  by (simp add: crud_node_get_state_counter_def set_counter_def)

lemma counter_only [simp]:
  "crud_node_get_state_counter (enter_curr_op st n) = crud_node_get_state_counter n"
  "crud_node_get_state_counter (exit_curr_op st n) = crud_node_get_state_counter n"
  "crud_node_get_state_counter (crud_node_status_set_flag st n) = crud_node_get_state_counter n"
  "crud_node_get_state_counter (crud_node_status_unset_flag st n) = crud_node_get_state_counter n"
  "crud_node_get_state_counter (n\<lparr>cn_curr_op := k\<rparr>) = crud_node_get_state_counter n"
  by (simp_all add: crud_node_get_state_counter_def fun_eq_iff)

section \<open>A node as nine counts\<close>

text \<open>How many threads are in each state of a node but \<^verbatim>\<open>crud_node_no_op\<close>, in which the node is
  when no thread is in any other.\<close>

type_synonym crud_counts = "crud_node_state \<Rightarrow> nat"

definition counts_in_use :: "crud_counts \<Rightarrow> bool" where
  "counts_in_use c \<longleftrightarrow> (\<exists>st. st \<noteq> crud_node_no_op \<and> c st \<noteq> 0)"

definition full_counts :: "crud_counts \<Rightarrow> crud_counts" where
  "full_counts c st = (if st = crud_node_no_op then (if counts_in_use c then 0 else 1) else c st)"

text \<open>The fields, the lists and the counts agree.\<close>

definition shows_counts :: "addr \<Rightarrow> crud_counts \<Rightarrow> crud_node \<Rightarrow> crud_mgr \<Rightarrow> bool" where
  "shows_counts p c n s \<longleftrightarrow>
     (\<forall>st. c st < 256 \<and> crud_node_get_state_counter n st = of_nat (c st) \<and>
        (crud_node_is_status_set n st \<longleftrightarrow> c st \<noteq> 0) \<and>
        (p \<in> set (cm_crud_nodes_list s (crud_node_state_to_index st)) \<longleftrightarrow> c st \<noteq> 0) \<and>
        distinct (cm_crud_nodes_list s (crud_node_state_to_index st)))"

definition node_is :: "addr \<Rightarrow> crud_counts \<Rightarrow> crud_op_type \<Rightarrow> crud_mgr \<Rightarrow> bool" where
  "node_is p c k s \<longleftrightarrow>
     (\<exists>n. node_at p s = Some n \<and> shows_counts p (full_counts c) n s \<and> cn_curr_op n = k)"

text \<open>What an operation on node \<open>p\<close> leaves alone.\<close>

definition same_elsewhere :: "addr \<Rightarrow> crud_mgr \<Rightarrow> crud_mgr \<Rightarrow> bool" where
  "same_elsewhere p s s' \<longleftrightarrow>
     (\<forall>q. q \<noteq> p \<longrightarrow> cm_nodes s' q = cm_nodes s q \<and>
        (\<forall>i. q \<in> set (cm_crud_nodes_list s' i) \<longleftrightarrow> q \<in> set (cm_crud_nodes_list s i))) \<and>
     (\<forall>i. distinct (cm_crud_nodes_list s i) \<longrightarrow> distinct (cm_crud_nodes_list s' i))"

lemma same_elsewhere_refl [simp]: "same_elsewhere p s s"
  by (simp add: same_elsewhere_def)

lemma same_elsewhere_trans: "same_elsewhere p s s1 \<Longrightarrow> same_elsewhere p s1 s2 \<Longrightarrow> same_elsewhere p s s2"
  by (simp add: same_elsewhere_def)

lemma node_is_elsewhere: "node_is q c k s \<Longrightarrow> same_elsewhere p s s' \<Longrightarrow> q \<noteq> p \<Longrightarrow> node_is q c k s'"
  unfolding node_is_def shows_counts_def same_elsewhere_def node_at_def by (auto split: if_splits)

lemma of_nat_u8_eq_0: "k < 256 \<Longrightarrow> (of_nat k = (0::u8)) \<longleftrightarrow> k = 0"
  by (auto simp: word_of_nat_eq_0_iff elim: dvdE)

lemma verify_present:
  "shows_counts p c n s \<Longrightarrow> crud_node_state_verify p st True n s \<longleftrightarrow> c st \<noteq> 0"
  "shows_counts p c n s \<Longrightarrow> crud_node_state_verify p st False n s \<longleftrightarrow> c st = 0"
  by (auto simp: shows_counts_def crud_node_state_verify_def crud_node_get_state_counter_def Let_def of_nat_u8_eq_0
      word_neq_0_conv [symmetric])

lemma list_add_simps [simp]:
  "cm_nodes (list_add p st s) = cm_nodes s" "cm_nodes (list_remove p st s) = cm_nodes s"
  "cm_crud_nodes_list (list_add p st s) i = (if i = crud_node_state_to_index st then p # cm_crud_nodes_list s i else cm_crud_nodes_list s i)"
  "cm_crud_nodes_list (list_remove p st s) i = (if i = crud_node_state_to_index st then remove1 p (cm_crud_nodes_list s i) else cm_crud_nodes_list s i)"
  "cm_nodes (put_node p n s) = (cm_nodes s)(p \<mapsto> n)" "cm_crud_nodes_list (put_node p n s) = cm_crud_nodes_list s"
  "node_at p (put_node p n s) = (if p = 0 then None else Some n)"
  "node_at q (list_add p st s) = node_at q s" "node_at q (list_remove p st s) = node_at q s"
  by (simp_all add: list_add_def list_remove_def put_node_def node_at_def Let_def)

declare crud_node_enter_state.simps [simp del] crud_node_exit_state.simps [simp del]

lemma shows_upd:
  assumes "shows_counts p c n s" "v < 256"
    and "\<And>st'. crud_node_get_state_counter n' st' = (if st' = st then of_nat v else crud_node_get_state_counter n st')"
    and "\<And>st'. crud_node_is_status_set n' st' \<longleftrightarrow> (if st' = st then v \<noteq> 0 else crud_node_is_status_set n st')"
    and "\<And>st'. st' \<noteq> st \<Longrightarrow> cm_crud_nodes_list s' (crud_node_state_to_index st') = cm_crud_nodes_list s (crud_node_state_to_index st')"
    and "p \<in> set (cm_crud_nodes_list s' (crud_node_state_to_index st)) \<longleftrightarrow> v \<noteq> 0"
    and "distinct (cm_crud_nodes_list s' (crud_node_state_to_index st))"
  shows "shows_counts p (c(st := v)) n' s'"
  unfolding shows_counts_def
proof
  fix st'
  show "(c(st := v)) st' < 256 \<and> crud_node_get_state_counter n' st' = of_nat ((c(st := v)) st') \<and>
    (crud_node_is_status_set n' st' \<longleftrightarrow> (c(st := v)) st' \<noteq> 0) \<and>
    (p \<in> set (cm_crud_nodes_list s' (crud_node_state_to_index st')) \<longleftrightarrow> (c(st := v)) st' \<noteq> 0) \<and>
    distinct (cm_crud_nodes_list s' (crud_node_state_to_index st'))"
    using assms by (cases "st' = st") (auto simp: shows_counts_def)
qed

lemma shows_at: "shows_counts p c n s \<Longrightarrow> c st < 256 \<and> crud_node_get_state_counter n st = of_nat (c st) \<and>
    (crud_node_is_status_set n st \<longleftrightarrow> c st \<noteq> 0) \<and> (p \<in> set (cm_crud_nodes_list s (crud_node_state_to_index st)) \<longleftrightarrow> c st \<noteq> 0) \<and>
    distinct (cm_crud_nodes_list s (crud_node_state_to_index st))"
  by (simp add: shows_counts_def)

lemma shows_counter:
  assumes "shows_counts p c n s" "v < 256" "c st \<noteq> 0" "v \<noteq> 0"
  shows "shows_counts p (c(st := v)) (set_counter st (of_nat v) n) (put_node p (set_counter st (of_nat v) n) s)"
  using shows_at [OF assms(1), of st] assms by (intro shows_upd [OF assms(1,2)]) (auto simp: status_only)

lemma shows_enter_new:
  assumes "shows_counts p c n s" "c st = 0"
  shows "shows_counts p (c(st := 1)) (set_counter st 1 (crud_node_status_set_flag st (enter_curr_op st n)))
    (list_add p st (put_node p (set_counter st 1 (crud_node_status_set_flag st (enter_curr_op st n))) s))"
  using shows_at [OF assms(1), of st] assms(2) by (intro shows_upd [OF assms(1)]) (auto simp: status_only)

lemma shows_exit_last:
  assumes "shows_counts p c n s"
  shows "shows_counts p (c(st := 0)) (exit_curr_op st (crud_node_status_unset_flag st (set_counter st 0 n)))
    (list_remove p st (put_node p (exit_curr_op st (crud_node_status_unset_flag st (set_counter st 0 n))) s))"
  using shows_at [OF assms, of st] by (intro shows_upd [OF assms]) (auto simp: status_only)

lemma shows_curr_op: "shows_counts p c (n\<lparr>cn_curr_op := k\<rparr>) s \<longleftrightarrow> shows_counts p c n s"
  by (simp add: shows_counts_def status_only)

lemma shows_put_node [simp]: "shows_counts p c n (put_node p n' s) \<longleftrightarrow> shows_counts p c n s"
  by (simp add: shows_counts_def)

lemma shows_nodes [simp]: "shows_counts p c n (s\<lparr>cm_nodes := h\<rparr>) \<longleftrightarrow> shows_counts p c n s"
  by (simp add: shows_counts_def)

lemma same_put_node: "same_elsewhere p s s' \<Longrightarrow> same_elsewhere p s (put_node p n s')"
  by (simp add: same_elsewhere_def)

lemma same_list_add: "same_elsewhere p s s' \<Longrightarrow> p \<notin> set (cm_crud_nodes_list s (crud_node_state_to_index st)) \<Longrightarrow>
    cm_crud_nodes_list s' (crud_node_state_to_index st) = cm_crud_nodes_list s (crud_node_state_to_index st) \<Longrightarrow>
    same_elsewhere p s (list_add p st s')"
  by (auto simp: same_elsewhere_def)

lemma same_list_remove: "same_elsewhere p s s' \<Longrightarrow> same_elsewhere p s (list_remove p st s')"
  by (auto simp: same_elsewhere_def dest: notin_set_remove1)

text \<open>The operation of a node as its states change.\<close>

definition op_entered :: "crud_node_state \<Rightarrow> crud_op_type \<Rightarrow> crud_op_type" where
  "op_entered st k = (case st of crud_node_read_in_progress \<Rightarrow> CRUD_READ | crud_node_write_in_progress \<Rightarrow> CRUD_WRITE
     | crud_node_delete_in_progress \<Rightarrow> CRUD_DELETE | crud_node_create_in_progress \<Rightarrow> CRUD_CREATE
     | crud_node_no_op \<Rightarrow> CRUD_OP_NONE | _ \<Rightarrow> k)"

definition op_exited :: "crud_node_state \<Rightarrow> crud_op_type \<Rightarrow> crud_op_type" where
  "op_exited st k = (if st \<in> {crud_node_read_in_progress, crud_node_write_in_progress, crud_node_delete_in_progress,
      crud_node_create_in_progress} then CRUD_OP_NONE else k)"

lemma curr_op_entered: "cn_curr_op (enter_curr_op st n) = op_entered st (cn_curr_op n)"
  by (cases st) (simp_all add: enter_curr_op_def op_entered_def)

lemma curr_op_exited: "cn_curr_op (exit_curr_op st n) = op_exited st (cn_curr_op n)"
  by (cases st) (simp_all add: exit_curr_op_def op_exited_def)

section \<open>Entering and leaving a state\<close>

lemma full_counts_use [simp]: "st \<noteq> crud_node_no_op \<Longrightarrow> full_counts c st = c st"
  by (simp add: full_counts_def)

lemma full_counts_no_op: "full_counts c crud_node_no_op = (if counts_in_use c then 0 else 1)"
  by (simp add: full_counts_def)

lemma counts_in_use_upd: "st \<noteq> crud_node_no_op \<Longrightarrow> v \<noteq> 0 \<Longrightarrow> counts_in_use (c(st := v))"
  by (auto simp: counts_in_use_def)

lemma full_counts_upd:
  assumes "st \<noteq> crud_node_no_op" "counts_in_use (c(st := v)) \<longleftrightarrow> counts_in_use c"
  shows "full_counts (c(st := v)) = (full_counts c)(st := v)"
  using assms by (auto simp: full_counts_def fun_eq_iff)

lemma node_in_use: "shows_counts p (full_counts c) n s \<Longrightarrow> crud_node_in_use n \<longleftrightarrow> counts_in_use c"
  by (auto simp: in_use_iff counts_in_use_def shows_counts_def)

lemma crud_node_enter_is:
  assumes node: "node_is p c k s" and st: "st \<noteq> crud_node_no_op" "c st < 255" "entered_once st \<Longrightarrow> c st = 0"
  shows "\<exists>s'. crud_node_enter_state p st s = Some s' \<and>
    node_is p (c(st := c st + 1)) (if c st = 0 then op_entered st k else k) s' \<and> same_elsewhere p s s'"
proof -
  obtain n where n: "node_at p s = Some n" "shows_counts p (full_counts c) n s" "cn_curr_op n = k"
    using node by (auto simp: node_is_def)
  have p0: "p \<noteq> 0" using n(1) by (auto simp: node_at_def split: if_splits)
  note at = shows_at [OF n(2), of st]
  have use: "counts_in_use (c(st := c st + 1))" by (rule counts_in_use_upd) (use st(1) in auto)
  show ?thesis
  proof (cases "c st = 0")
    case False
    let ?n = "set_counter st (of_nat (c st + 1)) n"
    have once: "\<not> entered_once st" using st(3) False by blast
    have "counts_in_use c" using False st(1) by (auto simp: counts_in_use_def)
    then have full: "full_counts (c(st := c st + 1)) = (full_counts c)(st := c st + 1)"
      using st(1) use by (intro full_counts_upd) auto
    have "shows_counts p (full_counts (c(st := c st + 1))) ?n (put_node p ?n s)"
      unfolding full by (rule shows_counter [OF n(2)]) (use False st in auto)
    moreover have "crud_node_enter_state p st s = Some (put_node p ?n s)"
      using n(1) False st(1,2) once at by (subst crud_node_enter_state.simps) (simp add: algebra_simps)
    ultimately show ?thesis using False n(3) p0 by (auto simp: node_is_def same_put_node)
  next
    case True
    let ?n = "set_counter st 1 (crud_node_status_set_flag st (enter_curr_op st n))"
    let ?s = "list_add p st (put_node p ?n s)"
    have new: "shows_counts p ((full_counts c)(st := 1)) ?n ?s" by (rule shows_enter_new [OF n(2)]) (use True st(1) in simp)
    have op: "cn_curr_op ?n = op_entered st k" using n(3) by (simp add: curr_op_entered)
    have same: "same_elsewhere p s ?s" by (rule same_list_add [OF same_put_node]) (use at True st(1) in auto)
    have enter: "crud_node_enter_state p st s =
        (if crud_node_is_status_set ?n crud_node_no_op then crud_node_exit_state p crud_node_no_op ?s else Some ?s)"
      using n(1) True st(1) at verify_present(2) [OF n(2), of st] by (subst crud_node_enter_state.simps) (simp add: Let_def)
    show ?thesis
    proof (cases "counts_in_use c")
      case in_use: True
      have "full_counts (c(st := c st + 1)) = (full_counts c)(st := 1)" using True st(1) use in_use full_counts_upd [of st c 1] by simp
      moreover have "\<not> crud_node_is_status_set ?n crud_node_no_op"
        using shows_at [OF new, of crud_node_no_op] st(1) in_use by (simp add: full_counts_no_op)
      ultimately show ?thesis using enter new op same True p0 by (auto simp: node_is_def)
    next
      case free: False
      let ?n2 = "exit_curr_op crud_node_no_op (crud_node_status_unset_flag crud_node_no_op (set_counter crud_node_no_op 0 ?n))"
      let ?s2 = "list_remove p crud_node_no_op (put_node p ?n2 ?s)"
      have full: "full_counts (c(st := c st + 1)) = ((full_counts c)(st := 1))(crud_node_no_op := 0)"
        using use True st(1) by (auto simp: full_counts_def fun_eq_iff)
      have exit: "shows_counts p (full_counts (c(st := c st + 1))) ?n2 ?s2" unfolding full by (rule shows_exit_last [OF new])
      have "crud_node_in_use ?n2" using node_in_use [OF exit] use by simp
      moreover have "crud_node_is_status_set ?n crud_node_no_op" "crud_node_get_state_counter ?n crud_node_no_op = 1"
        "crud_node_state_verify p crud_node_no_op True ?n ?s"
        using shows_at [OF new, of crud_node_no_op] verify_present(1) [OF new, of crud_node_no_op] st(1) free
        by (simp_all add: full_counts_no_op)
      ultimately have "crud_node_enter_state p st s = Some ?s2"
        using enter p0 by (simp add: crud_node_exit_state.simps)
      moreover have "cn_curr_op ?n2 = op_entered st k" using op by (simp add: curr_op_exited op_exited_def)
      moreover have "same_elsewhere p s ?s2" by (intro same_list_remove same_put_node same)
      ultimately show ?thesis using exit True p0 by (auto simp: node_is_def)
    qed
  qed
qed

lemma crud_node_exit_is:
  assumes node: "node_is p c k s" and st: "st \<noteq> crud_node_no_op" "c st \<noteq> 0"
  shows "\<exists>s'. crud_node_exit_state p st s = Some s' \<and> same_elsewhere p s s' \<and>
    node_is p (c(st := c st - 1))
      (if c st \<noteq> 1 then k else if counts_in_use (c(st := 0)) then op_exited st k else CRUD_OP_NONE) s'"
proof -
  obtain n where n: "node_at p s = Some n" "shows_counts p (full_counts c) n s" "cn_curr_op n = k"
    using node by (auto simp: node_is_def)
  have p0: "p \<noteq> 0" using n(1) by (auto simp: node_at_def split: if_splits)
  note at = shows_at [OF n(2), of st]
  have use: "counts_in_use c" using st by (auto simp: counts_in_use_def)
  have lim: "c st < 256" using at st(1) by simp
  have dec: "crud_node_get_state_counter n st - 1 = of_nat (c st - 1)"
    using at st by (cases "c st") simp_all
  have ver: "crud_node_state_verify p st True n s" using verify_present(1) [OF n(2), of st] st by simp
  show ?thesis
  proof (cases "c st = 1")
    case False
    let ?n = "set_counter st (of_nat (c st - 1)) n"
    have full: "full_counts (c(st := c st - 1)) = (full_counts c)(st := c st - 1)"
      using st(1) use counts_in_use_upd [of st "c st - 1" c] False st(2) by (intro full_counts_upd) auto
    have "shows_counts p (full_counts (c(st := c st - 1))) ?n (put_node p ?n s)"
      unfolding full by (rule shows_counter [OF n(2)]) (use False st lim in auto)
    moreover have "(of_nat (c st - 1) :: u8) \<noteq> 0" using of_nat_u8_eq_0 [of "c st - 1"] False st(2) lim by simp
    then have "crud_node_exit_state p st s = Some (put_node p ?n s)"
      using n(1) ver dec by (subst crud_node_exit_state.simps) (simp add: Let_def)
    ultimately show ?thesis using False n(3) p0 by (auto simp: node_is_def same_put_node)
  next
    case True
    let ?n = "exit_curr_op st (crud_node_status_unset_flag st (set_counter st 0 n))"
    let ?s = "list_remove p st (put_node p ?n s)"
    have new: "shows_counts p ((full_counts c)(st := 0)) ?n ?s" by (rule shows_exit_last [OF n(2)])
    have op: "cn_curr_op ?n = op_exited st k" using n(3) by (simp add: curr_op_exited)
    have same: "same_elsewhere p s ?s" by (intro same_list_remove same_put_node same_elsewhere_refl)
    have iu: "crud_node_in_use ?n \<longleftrightarrow> counts_in_use (c(st := 0))"
      using new st(1) by (auto simp: in_use_iff counts_in_use_def shows_counts_def)
    have exit: "crud_node_exit_state p st s =
        (if counts_in_use (c(st := 0)) then Some ?s else
           map_option (\<lambda>s3. s3\<lparr>cm_nodes := (cm_nodes s3)(p := map_option (\<lambda>x. x\<lparr>cn_curr_op := CRUD_OP_NONE\<rparr>) (cm_nodes s3 p))\<rparr>)
             (crud_node_enter_state p crud_node_no_op ?s))"
      using n(1) ver dec True iu by (subst crud_node_exit_state.simps) (simp add: Let_def)
    show ?thesis
    proof (cases "counts_in_use (c(st := 0))")
      case in_use: True
      have "full_counts (c(st := 0)) = (full_counts c)(st := 0)" by (rule full_counts_upd [OF st(1)]) (simp add: use in_use)
      then show ?thesis using exit new op same True p0 in_use by (auto simp: node_is_def)
    next
      case free: False
      let ?n2 = "set_counter crud_node_no_op 1 (crud_node_status_set_flag crud_node_no_op (enter_curr_op crud_node_no_op ?n))"
      let ?s2 = "list_add p crud_node_no_op (put_node p ?n2 ?s)"
      let ?s3 = "?s2\<lparr>cm_nodes := (cm_nodes ?s2)(p := map_option (\<lambda>x. x\<lparr>cn_curr_op := CRUD_OP_NONE\<rparr>) (cm_nodes ?s2 p))\<rparr>"
      have zero: "((full_counts c)(st := 0)) crud_node_no_op = 0" using use st(1) by (simp add: full_counts_no_op)
      have full: "full_counts (c(st := 0)) = ((full_counts c)(st := 0))(crud_node_no_op := 1)"
        using free st(1) by (auto simp: full_counts_def fun_eq_iff)
      have shows2: "shows_counts p (full_counts (c(st := 0))) ?n2 ?s2" unfolding full by (rule shows_enter_new [OF new zero])
      have "crud_node_enter_state p crud_node_no_op ?s = Some ?s2"
        using shows_at [OF new, of crud_node_no_op] verify_present(2) [OF new, of crud_node_no_op] zero p0
        by (subst crud_node_enter_state.simps) (simp add: Let_def)
      then have exit2: "crud_node_exit_state p st s = Some ?s3" using exit free by simp
      have "node_at p ?s3 = Some (?n2\<lparr>cn_curr_op := CRUD_OP_NONE\<rparr>)" using p0 by (simp add: node_at_def)
      moreover have "shows_counts p (full_counts (c(st := 0))) (?n2\<lparr>cn_curr_op := CRUD_OP_NONE\<rparr>) ?s3"
        using shows2 by (simp add: shows_curr_op)
      ultimately have node3: "node_is p (c(st := 0)) CRUD_OP_NONE ?s3" by (auto simp: node_is_def)
      have "same_elsewhere p s ?s2" using shows_at [OF new, of crud_node_no_op] zero
        by (intro same_elsewhere_trans [OF same same_list_add]) (auto intro!: same_put_node)
      then have "same_elsewhere p s ?s3" by (auto simp: same_elsewhere_def)
      with exit2 node3 show ?thesis using True free by (intro exI [of _ ?s3]) simp
    qed
  qed
qed

section \<open>New nodes\<close>

definition no_counts :: crud_counts where
  "no_counts = (\<lambda>_. 0)"

lemma no_counts_at: "no_counts st = 0" "\<not> counts_in_use no_counts"
  by (simp_all add: no_counts_def counts_in_use_def)

lemma crud_node_init_is:
  assumes "p \<noteq> 0" "\<And>i. p \<notin> set (cm_crud_nodes_list s i)" "\<And>i. distinct (cm_crud_nodes_list s i)"
  shows "\<exists>s'. crud_node_init p s = Some s' \<and> node_is p no_counts CRUD_OP_NONE s' \<and> same_elsewhere p s s' \<and>
    (\<forall>i. distinct (cm_crud_nodes_list s' i)) \<and> cm_n_crud_nodes s' = cm_n_crud_nodes s + 1"
proof -
  let ?n = "\<lparr>cn_id = 0, cn_status = 0, cn_curr_op = CRUD_DELETE, cn_counter = (\<lambda>_. 0)\<rparr>"
  let ?s = "(put_node p ?n s)\<lparr>cm_n_crud_nodes := cm_n_crud_nodes s + 1\<rparr>"
  let ?n2 = "set_counter crud_node_no_op 1 (crud_node_status_set_flag crud_node_no_op (enter_curr_op crud_node_no_op ?n))"
  let ?s2 = "list_add p crud_node_no_op (put_node p ?n2 ?s)"
  let ?s3 = "?s2\<lparr>cm_crud_node_id := cm_crud_node_id ?s2 + 1\<rparr>"
  have zero: "shows_counts p (\<lambda>_. 0) ?n ?s"
    using assms by (simp add: shows_counts_def crud_node_is_status_set_def crud_node_get_state_counter_def)
  have full: "full_counts no_counts = (\<lambda>_. 0)(crud_node_no_op := 1)" by (auto simp: full_counts_def no_counts_at fun_eq_iff)
  have new: "shows_counts p (full_counts no_counts) ?n2 ?s2" unfolding full by (rule shows_enter_new [OF zero]) simp
  have at: "node_at p ?s = Some ?n" using assms(1) by (simp add: node_at_def)
  have enter: "crud_node_enter_state p crud_node_no_op ?s = Some ?s2"
    using at shows_at [OF zero, of crud_node_no_op] verify_present(2) [OF zero, of crud_node_no_op]
    by (subst crud_node_enter_state.simps) (simp add: Let_def)
  have at3: "node_at p ?s3 = Some ?n2" using assms(1) by (simp add: node_at_def)
  let ?n4 = "?n2\<lparr>cn_id := cm_crud_node_id ?s2\<rparr>"
  have init: "crud_node_init p s = Some (put_node p ?n4 ?s3)"
    using enter at3 unfolding crud_node_init_def Let_def by (simp add: crud_node_get_unique_id_def del: list_add_simps(3))
  have "shows_counts p (full_counts no_counts) ?n4 (put_node p ?n4 ?s3)"
    using new by (simp add: shows_counts_def crud_node_is_status_set_def crud_node_get_state_counter_def)
  then have "node_is p no_counts CRUD_OP_NONE (put_node p ?n4 ?s3)"
    using assms(1) by (simp add: node_is_def node_at_def curr_op_entered op_entered_def)
  moreover have "same_elsewhere p s (put_node p ?n4 ?s3)" using assms(2) by (auto simp: same_elsewhere_def)
  moreover have "distinct (cm_crud_nodes_list (put_node p ?n4 ?s3) i)" for i using assms(2,3) by simp
  moreover have "cm_n_crud_nodes (put_node p ?n4 ?s3) = cm_n_crud_nodes s + 1" by (simp add: put_node_def list_add_def Let_def)
  ultimately show ?thesis using init by blast
qed

lemma crud_nodes_init_is:
  assumes "distinct ps" "0 \<notin> set ps" "\<And>p i. p \<in> set ps \<Longrightarrow> p \<notin> set (cm_crud_nodes_list s i)" "\<And>i. distinct (cm_crud_nodes_list s i)"
  shows "\<exists>s'. crud_nodes_init ps s = Some s' \<and> (\<forall>p\<in>set ps. node_is p no_counts CRUD_OP_NONE s') \<and>
    (\<forall>q. q \<notin> set ps \<longrightarrow> cm_nodes s' q = cm_nodes s q \<and> (\<forall>i. q \<in> set (cm_crud_nodes_list s' i) \<longleftrightarrow> q \<in> set (cm_crud_nodes_list s i))) \<and>
    (\<forall>i. distinct (cm_crud_nodes_list s' i)) \<and> cm_n_crud_nodes s' = cm_n_crud_nodes s + of_nat (length ps)"
  using assms
proof (induction ps arbitrary: s)
  case (Cons p ps)
  obtain s1 where s1: "crud_node_init p s = Some s1" "node_is p no_counts CRUD_OP_NONE s1" "same_elsewhere p s s1"
    "\<forall>i. distinct (cm_crud_nodes_list s1 i)" "cm_n_crud_nodes s1 = cm_n_crud_nodes s + 1"
    using crud_node_init_is [of p s] Cons.prems by auto
  have "q \<notin> set (cm_crud_nodes_list s1 i)" if q: "q \<in> set ps" for q i
  proof -
    have "q \<noteq> p" "q \<notin> set (cm_crud_nodes_list s i)" using q Cons.prems(1,3) by auto
    then show ?thesis using s1(3) by (simp add: same_elsewhere_def)
  qed
  then obtain s2 where s2: "crud_nodes_init ps s1 = Some s2" "\<forall>q\<in>set ps. node_is q no_counts CRUD_OP_NONE s2"
    "\<forall>q. q \<notin> set ps \<longrightarrow> cm_nodes s2 q = cm_nodes s1 q \<and> (\<forall>i. q \<in> set (cm_crud_nodes_list s2 i) \<longleftrightarrow> q \<in> set (cm_crud_nodes_list s1 i))"
    "\<forall>i. distinct (cm_crud_nodes_list s2 i)" "cm_n_crud_nodes s2 = cm_n_crud_nodes s1 + of_nat (length ps)"
    using Cons.IH [of s1] Cons.prems s1(4) by auto
  have "node_is p no_counts CRUD_OP_NONE s2"
    using s1(2) s2(3,4) Cons.prems(1) by (auto simp: node_is_def shows_counts_def node_at_def split: if_splits)
  then show ?case using s1 s2 by (auto simp: same_elsewhere_def)
qed simp

lemma crud_setup_is:
  assumes "distinct ps" "0 \<notin> set ps" "p \<in> set ps"
  shows "node_is p no_counts CRUD_OP_NONE (crud_setup ps)"
  using crud_nodes_init_is [of ps "crud_mgr_init crud_memory"] assms
  by (auto simp: crud_setup_def crud_mgr_init_def)

section \<open>The states of a node\<close>

text \<open>C12. Entering and leaving a state of a node is counting: on a node whose fields and lists show the counts
  \<open>c\<close>, entering a state adds one to its count and leaving takes one away, with \<^verbatim>\<open>crud_node_no_op\<close> and
  \<^verbatim>\<open>curr_op\<close> kept in step and every other node left alone; a state for one thread only cannot be
  entered twice, and a state nobody is in cannot be left.\<close>

theorem crud_node_states_refine:
  assumes "node_is p c k s" "st \<noteq> crud_node_no_op"
  shows "(c st < 255 \<and> (entered_once st \<longrightarrow> c st = 0) \<longrightarrow>
      (\<exists>s'. crud_node_enter_state p st s = Some s' \<and> same_elsewhere p s s' \<and>
         node_is p (c(st := c st + 1)) (if c st = 0 then op_entered st k else k) s')) \<and>
    (entered_once st \<and> c st \<noteq> 0 \<longrightarrow> crud_node_enter_state p st s = None) \<and>
    (c st \<noteq> 0 \<longrightarrow>
      (\<exists>s'. crud_node_exit_state p st s = Some s' \<and> same_elsewhere p s s' \<and>
         node_is p (c(st := c st - 1))
           (if c st \<noteq> 1 then k else if counts_in_use (c(st := 0)) then op_exited st k else CRUD_OP_NONE) s')) \<and>
    (c st = 0 \<longrightarrow> crud_node_exit_state p st s = None)"
proof -
  obtain n where n: "node_at p s = Some n" "shows_counts p (full_counts c) n s" using assms(1) by (auto simp: node_is_def)
  have "crud_node_enter_state p st s = None" if "entered_once st" "c st \<noteq> 0"
    using that n(1) shows_at [OF n(2), of st] assms(2) by (simp add: crud_node_enter_state.simps)
  moreover have "crud_node_exit_state p st s = None" if "c st = 0"
    using that n(1) verify_present(1) [OF n(2), of st] assms(2) by (simp add: crud_node_exit_state.simps)
  ultimately show ?thesis using crud_node_enter_is [OF assms] crud_node_exit_is [OF assms] by blast
qed

theorem crud_node_states_refine_witness:
  "\<exists>s'. crud_node_enter_state 1 crud_node_read_in_progress (crud_setup [1, 2]) = Some s' \<and>
    node_is 1 (no_counts(crud_node_read_in_progress := 1)) CRUD_READ s' \<and> same_elsewhere 1 (crud_setup [1, 2]) s'"
proof -
  have "node_is 1 no_counts CRUD_OP_NONE (crud_setup [1, 2])" by (rule crud_setup_is) simp_all
  from crud_node_states_refine [OF this, of crud_node_read_in_progress] show ?thesis
    by (auto simp: no_counts_at op_entered_def entered_once_def)
qed

section \<open>From the initialisation to the destruction\<close>

fun crud_nodes_destroy :: "addr list \<Rightarrow> crud_mgr \<Rightarrow> crud_mgr option" where
  "crud_nodes_destroy [] s = Some s"
| "crud_nodes_destroy (p # ps) s = (case crud_node_destroy p s of None \<Rightarrow> None | Some s1 \<Rightarrow> crud_nodes_destroy ps s1)"

lemma index_surj:
  assumes "i < 9"
  shows "\<exists>st. i = crud_node_state_to_index st"
proof -
  have "i = 0 \<or> i = 1 \<or> i = 2 \<or> i = 3 \<or> i = 4 \<or> i = 5 \<or> i = 6 \<or> i = 7 \<or> i = 8" using assms by arith
  then show ?thesis by (metis crud_node_state_to_index.simps)
qed

lemma crud_node_destroy_is:
  assumes "node_is p no_counts CRUD_OP_NONE s"
  shows "\<exists>s'. crud_node_destroy p s = Some s' \<and> same_elsewhere p s s' \<and> (\<forall>i<9. p \<notin> set (cm_crud_nodes_list s' i)) \<and>
    cm_n_crud_nodes s' = cm_n_crud_nodes s - 1"
proof -
  obtain n where n: "node_at p s = Some n" "shows_counts p (full_counts no_counts) n s" "cn_curr_op n = CRUD_OP_NONE"
    using assms by (auto simp: node_is_def)
  have "p \<in> set (cm_crud_nodes_list s i) \<longleftrightarrow> i = 8" "distinct (cm_crud_nodes_list s i)" if i: "i < 9" for i
  proof -
    obtain st where st: "i = crud_node_state_to_index st" using index_surj [OF i] by blast
    show "p \<in> set (cm_crud_nodes_list s i) \<longleftrightarrow> i = 8" "distinct (cm_crud_nodes_list s i)"
      using shows_at [OF n(2), of st] unfolding st by (cases st; simp add: full_counts_def no_counts_at)+
  qed
  note lists = this
  have "\<not> crud_node_in_use n" using node_in_use [OF n(2)] by (simp add: no_counts_at)
  let ?s = "(list_remove p crud_node_no_op s)\<lparr>cm_n_crud_nodes := cm_n_crud_nodes s - 1, cm_nodes := (cm_nodes s)(p := None)\<rparr>"
  have "crud_node_destroy p s = Some ?s"
    using n(1,3) \<open>\<not> crud_node_in_use n\<close> lists by (simp add: crud_node_destroy_def Let_def list_remove_def)
  moreover have "same_elsewhere p s ?s" by (auto simp: same_elsewhere_def dest: notin_set_remove1)
  moreover have "p \<notin> set (cm_crud_nodes_list ?s i)" if "i < 9" for i
    using lists [OF that] by (cases "i = 8") auto
  ultimately show ?thesis by (intro exI [of _ ?s]) simp
qed

lemma crud_nodes_destroy_is:
  "distinct ps \<Longrightarrow> \<forall>p\<in>set ps. node_is p no_counts CRUD_OP_NONE s \<Longrightarrow>
    \<exists>s'. crud_nodes_destroy ps s = Some s' \<and> cm_n_crud_nodes s' = cm_n_crud_nodes s - of_nat (length ps) \<and>
      (\<forall>i<9. \<forall>q. q \<in> set (cm_crud_nodes_list s' i) \<longrightarrow> q \<in> set (cm_crud_nodes_list s i) \<and> q \<notin> set ps)"
proof (induction ps arbitrary: s)
  case (Cons p ps)
  obtain s1 where s1: "crud_node_destroy p s = Some s1" "same_elsewhere p s s1" "\<forall>i<9. p \<notin> set (cm_crud_nodes_list s1 i)"
    "cm_n_crud_nodes s1 = cm_n_crud_nodes s - 1"
    using crud_node_destroy_is [of p s] Cons.prems by auto
  have "\<forall>q\<in>set ps. node_is q no_counts CRUD_OP_NONE s1" using Cons.prems node_is_elsewhere [OF _ s1(2)] by auto
  then obtain s2 where s2: "crud_nodes_destroy ps s1 = Some s2" "cm_n_crud_nodes s2 = cm_n_crud_nodes s1 - of_nat (length ps)"
    "\<forall>i<9. \<forall>q. q \<in> set (cm_crud_nodes_list s2 i) \<longrightarrow> q \<in> set (cm_crud_nodes_list s1 i) \<and> q \<notin> set ps"
    using Cons.IH [of s1] Cons.prems(1) by auto
  have "q \<in> set (cm_crud_nodes_list s i)" if "q \<in> set (cm_crud_nodes_list s1 i)" "i < 9" for q i
    using that s1(2,3) by (cases "q = p") (auto simp: same_elsewhere_def)
  then show ?case using s1 s2 by (fastforce simp: algebra_simps)
qed simp

text \<open>A manager whose nodes have all been initialised and then destroyed, in any order, counts no node and
  has empty lists: its own destruction succeeds.\<close>

theorem crud_mgr_lifecycle:
  assumes "distinct ps" "0 \<notin> set ps" "distinct qs" "set qs = set ps"
  shows "\<exists>s s'. crud_nodes_init ps (crud_mgr_init m) = Some s \<and> cm_n_crud_nodes s = of_nat (length ps) \<and>
    crud_nodes_destroy qs s = Some s' \<and> crud_mgr_destroy s'"
proof -
  obtain s where s: "crud_nodes_init ps (crud_mgr_init m) = Some s" "\<forall>p\<in>set ps. node_is p no_counts CRUD_OP_NONE s"
    "\<forall>q. q \<notin> set ps \<longrightarrow> (\<forall>i. q \<in> set (cm_crud_nodes_list s i) \<longleftrightarrow> q \<in> set (cm_crud_nodes_list (crud_mgr_init m) i))"
    "cm_n_crud_nodes s = of_nat (length ps)"
    using crud_nodes_init_is [OF assms(1,2), of "crud_mgr_init m"] by (auto simp: crud_mgr_init_def)
  obtain s' where s': "crud_nodes_destroy qs s = Some s'" "cm_n_crud_nodes s' = cm_n_crud_nodes s - of_nat (length qs)"
    "\<forall>i<9. \<forall>q. q \<in> set (cm_crud_nodes_list s' i) \<longrightarrow> q \<in> set (cm_crud_nodes_list s i) \<and> q \<notin> set qs"
    using crud_nodes_destroy_is [OF assms(3), of s] s(2) assms(4) by auto
  have "length qs = length ps" using assms(1,3,4) distinct_card [of ps] distinct_card [of qs] by simp
  then have n: "cm_n_crud_nodes s' = 0" using s(4) s'(2) by simp
  have "cm_crud_nodes_list s' i = []" if "i < 9" for i
  proof -
    have "q \<notin> set (cm_crud_nodes_list s' i)" for q
      using s'(3) that s(3) assms(4) by (auto simp: crud_mgr_init_def)
    then show ?thesis by (cases "cm_crud_nodes_list s' i") auto
  qed
  then show ?thesis using s(1,4) s'(1) n by (intro exI [of _ s] exI [of _ s']) (simp add: crud_mgr_destroy_def)
qed

theorem crud_mgr_lifecycle_witness:
  "\<exists>s s'. crud_nodes_init [1, 2, 3] (crud_mgr_init crud_memory) = Some s \<and> cm_n_crud_nodes s = 3 \<and>
    crud_nodes_destroy [2, 3, 1] s = Some s' \<and> crud_mgr_destroy s'"
  using crud_mgr_lifecycle [of "[1, 2, 3]" "[2, 3, 1]" crud_memory] by (simp add: insert_commute)

end
