(* ===== verification/CrudMgrRw.thy ===== *)
theory CrudMgrRw
  imports CrudMgrNode
begin

text \<open>
  Readers and writers of the nodes of a manager: exclusion, no failed assertion, and who is awake.
\<close>

section \<open>A node that is read and written\<close>

definition rw_counts :: "nat \<Rightarrow> nat \<Rightarrow> nat \<Rightarrow> nat \<Rightarrow> crud_counts" where
  "rw_counts pr r pw w st = (case st of crud_node_pending_read \<Rightarrow> pr | crud_node_read_in_progress \<Rightarrow> r
     | crud_node_pending_write \<Rightarrow> pw | crud_node_write_in_progress \<Rightarrow> w | _ \<Rightarrow> 0)"

definition rw_op :: "nat \<Rightarrow> nat \<Rightarrow> crud_op_type" where
  "rw_op r w = (if 0 < r then CRUD_READ else if 0 < w then CRUD_WRITE else CRUD_OP_NONE)"

text \<open>\<open>pr\<close> and \<open>pw\<close> threads wait to read and to write, \<open>r\<close> and \<open>w\<close> do.\<close>

definition rw_node :: "addr \<Rightarrow> nat \<Rightarrow> nat \<Rightarrow> nat \<Rightarrow> nat \<Rightarrow> crud_mgr \<Rightarrow> bool" where
  "rw_node p pr r pw w s \<longleftrightarrow> node_is p (rw_counts pr r pw w) (rw_op r w) s \<and> (w = 0 \<or> w = 1 \<and> r = 0)"

lemma rw_counts_at [simp]:
  "rw_counts pr r pw w crud_node_pending_read = pr" "rw_counts pr r pw w crud_node_read_in_progress = r"
  "rw_counts pr r pw w crud_node_pending_write = pw" "rw_counts pr r pw w crud_node_write_in_progress = w"
  "rw_counts pr r pw w crud_node_pending_delete = 0" "rw_counts pr r pw w crud_node_delete_in_progress = 0"
  "rw_counts pr r pw w crud_node_pending_create = 0" "rw_counts pr r pw w crud_node_create_in_progress = 0"
  "rw_counts pr r pw w crud_node_no_op = 0"
  by (simp_all add: rw_counts_def)

lemma rw_counts_upd [simp]:
  "(rw_counts pr r pw w)(crud_node_pending_read := x) = rw_counts x r pw w"
  "(rw_counts pr r pw w)(crud_node_read_in_progress := x) = rw_counts pr x pw w"
  "(rw_counts pr r pw w)(crud_node_pending_write := x) = rw_counts pr r x w"
  "(rw_counts pr r pw w)(crud_node_write_in_progress := x) = rw_counts pr r pw x"
  by (auto simp: fun_eq_iff rw_counts_def split: crud_node_state.splits)

lemma rw_counts_in_use [simp]: "counts_in_use (rw_counts pr r pw w) \<longleftrightarrow> 0 < pr + r + pw + w"
proof -
  have "(\<exists>st. st \<noteq> crud_node_no_op \<and> rw_counts pr r pw w st \<noteq> 0) \<longleftrightarrow> pr \<noteq> 0 \<or> r \<noteq> 0 \<or> pw \<noteq> 0 \<or> w \<noteq> 0"
  proof
    assume "\<exists>st. st \<noteq> crud_node_no_op \<and> rw_counts pr r pw w st \<noteq> 0"
    then obtain st where "rw_counts pr r pw w st \<noteq> 0" by blast
    then show "pr \<noteq> 0 \<or> r \<noteq> 0 \<or> pw \<noteq> 0 \<or> w \<noteq> 0" by (cases st) simp_all
  next
    assume "pr \<noteq> 0 \<or> r \<noteq> 0 \<or> pw \<noteq> 0 \<or> w \<noteq> 0"
    then show "\<exists>st. st \<noteq> crud_node_no_op \<and> rw_counts pr r pw w st \<noteq> 0"
      using rw_counts_at(1-4) [of pr r pw w] by (metis crud_node_state.distinct)
  qed
  then show ?thesis by (auto simp: counts_in_use_def)
qed

text \<open>The flags a request tests.\<close>

lemma rw_node_flags:
  assumes "rw_node p pr r pw w s"
  obtains n where "node_at p s = Some n" "cn_curr_op n = rw_op r w"
    "\<And>st. crud_node_is_status_set n st \<longleftrightarrow> full_counts (rw_counts pr r pw w) st \<noteq> 0"
    "crud_node_in_use n \<longleftrightarrow> 0 < pr + r + pw + w" "\<not> crud_rejects n"
proof -
  obtain n where n: "node_at p s = Some n" "shows_counts p (full_counts (rw_counts pr r pw w)) n s" "cn_curr_op n = rw_op r w"
    using assms by (auto simp: rw_node_def node_is_def)
  then have "crud_node_is_status_set n st \<longleftrightarrow> full_counts (rw_counts pr r pw w) st \<noteq> 0" for st by (simp add: shows_counts_def)
  with n node_in_use [OF n(2)] show thesis by (intro that [of n]) (auto simp: crud_rejects_def)
qed

text \<open>Entering and leaving the four states.\<close>

lemma rw_enter:
  assumes "rw_node p pr r pw w s"
  shows "pr < 255 \<Longrightarrow> \<exists>s'. crud_node_enter_state p crud_node_pending_read s = Some s' \<and> rw_node p (pr + 1) r pw w s' \<and> same_elsewhere p s s'"
    and "r < 255 \<Longrightarrow> w = 0 \<Longrightarrow> \<exists>s'. crud_node_enter_state p crud_node_read_in_progress s = Some s' \<and> rw_node p pr (r + 1) pw w s' \<and> same_elsewhere p s s'"
    and "pw < 255 \<Longrightarrow> \<exists>s'. crud_node_enter_state p crud_node_pending_write s = Some s' \<and> rw_node p pr r (pw + 1) w s' \<and> same_elsewhere p s s'"
    and "r = 0 \<Longrightarrow> w = 0 \<Longrightarrow> \<exists>s'. crud_node_enter_state p crud_node_write_in_progress s = Some s' \<and> rw_node p pr r pw 1 s' \<and> same_elsewhere p s s'"
proof -
  have node: "node_is p (rw_counts pr r pw w) (rw_op r w) s" and w: "w = 0 \<or> w = 1 \<and> r = 0" using assms by (auto simp: rw_node_def)
  note enter = crud_node_enter_is [OF node]
  show "\<exists>s'. crud_node_enter_state p crud_node_pending_read s = Some s' \<and> rw_node p (pr + 1) r pw w s' \<and> same_elsewhere p s s'" if "pr < 255"
    using enter [of crud_node_pending_read] w that by (auto simp: rw_node_def op_entered_def entered_once_def cong: if_cong)
  show "\<exists>s'. crud_node_enter_state p crud_node_read_in_progress s = Some s' \<and> rw_node p pr (r + 1) pw w s' \<and> same_elsewhere p s s'"
    if "r < 255" "w = 0"
    using enter [of crud_node_read_in_progress] w that
    by (auto simp: rw_node_def op_entered_def rw_op_def entered_once_def split: if_splits cong: if_cong)
  show "\<exists>s'. crud_node_enter_state p crud_node_pending_write s = Some s' \<and> rw_node p pr r (pw + 1) w s' \<and> same_elsewhere p s s'" if "pw < 255"
    using enter [of crud_node_pending_write] w that by (auto simp: rw_node_def op_entered_def entered_once_def cong: if_cong)
  show "\<exists>s'. crud_node_enter_state p crud_node_write_in_progress s = Some s' \<and> rw_node p pr r pw 1 s' \<and> same_elsewhere p s s'"
    if "r = 0" "w = 0"
    using enter [of crud_node_write_in_progress] w that
    by (auto simp: rw_node_def op_entered_def rw_op_def entered_once_def cong: if_cong)
qed

lemma rw_exit:
  assumes "rw_node p pr r pw w s"
  shows "pr \<noteq> 0 \<Longrightarrow> \<exists>s'. crud_node_exit_state p crud_node_pending_read s = Some s' \<and> rw_node p (pr - 1) r pw w s' \<and> same_elsewhere p s s'"
    and "r \<noteq> 0 \<Longrightarrow> \<exists>s'. crud_node_exit_state p crud_node_read_in_progress s = Some s' \<and> rw_node p pr (r - 1) pw w s' \<and> same_elsewhere p s s'"
    and "pw \<noteq> 0 \<Longrightarrow> \<exists>s'. crud_node_exit_state p crud_node_pending_write s = Some s' \<and> rw_node p pr r (pw - 1) w s' \<and> same_elsewhere p s s'"
    and "w \<noteq> 0 \<Longrightarrow> \<exists>s'. crud_node_exit_state p crud_node_write_in_progress s = Some s' \<and> rw_node p pr r pw 0 s' \<and> same_elsewhere p s s'"
proof -
  have node: "node_is p (rw_counts pr r pw w) (rw_op r w) s" and w: "w = 0 \<or> w = 1 \<and> r = 0" using assms by (auto simp: rw_node_def)
  note exit = crud_node_exit_is [OF node]
  show "\<exists>s'. crud_node_exit_state p crud_node_pending_read s = Some s' \<and> rw_node p (pr - 1) r pw w s' \<and> same_elsewhere p s s'" if "pr \<noteq> 0"
    using exit [of crud_node_pending_read] w that by (auto simp: rw_node_def op_exited_def rw_op_def split: if_splits cong: if_cong)
  show "\<exists>s'. crud_node_exit_state p crud_node_read_in_progress s = Some s' \<and> rw_node p pr (r - 1) pw w s' \<and> same_elsewhere p s s'" if "r \<noteq> 0"
    using exit [of crud_node_read_in_progress] w that by (auto simp: rw_node_def op_exited_def rw_op_def split: if_splits cong: if_cong)
  show "\<exists>s'. crud_node_exit_state p crud_node_pending_write s = Some s' \<and> rw_node p pr r (pw - 1) w s' \<and> same_elsewhere p s s'" if "pw \<noteq> 0"
    using exit [of crud_node_pending_write] w that by (auto simp: rw_node_def op_exited_def rw_op_def split: if_splits cong: if_cong)
  show "\<exists>s'. crud_node_exit_state p crud_node_write_in_progress s = Some s' \<and> rw_node p pr r pw 0 s' \<and> same_elsewhere p s s'" if "w \<noteq> 0"
    using exit [of crud_node_write_in_progress] w that by (auto simp: rw_node_def op_exited_def rw_op_def split: if_splits cong: if_cong)
qed

section \<open>The requests on a node that is read and written\<close>

lemma with_node_at: "node_at p s = Some n \<Longrightarrow> with_node p s k = k n"
  by (simp add: with_node_def)

lemma crud_read_loop_rw:
  assumes "rw_node p pr r pw w s" "pr < 255" "r < 255"
  shows "if w \<noteq> 0 \<or> r = 0 \<and> pr = 0 \<and> pw \<noteq> 0
    then \<exists>s'. crud_read_loop p s = CvWait s' (rdrs_cv p) (Wait_read p) [] \<and> rw_node p (pr + 1) r pw w s' \<and> same_elsewhere p s s'
    else \<exists>s'. crud_read_loop p s = Unlocked s' (Crud_granted CRUD_READ p) [] \<and> rw_node p pr (r + 1) pw w s' \<and> same_elsewhere p s s'"
proof -
  obtain n where n: "node_at p s = Some n" "\<And>st. crud_node_is_status_set n st \<longleftrightarrow> full_counts (rw_counts pr r pw w) st \<noteq> 0"
    "crud_node_in_use n \<longleftrightarrow> 0 < pr + r + pw + w"
    by (rule rw_node_flags [OF assms(1)]) blast
  have w: "w = 0 \<or> w = 1 \<and> r = 0" using assms(1) by (auto simp: rw_node_def)
  note loop = crud_read_loop_def with_node_at [OF n(1)] entering_def check_def n(2,3) full_counts_no_op
  show ?thesis
  proof (cases "w \<noteq> 0 \<or> r = 0 \<and> pr = 0 \<and> pw \<noteq> 0")
    case True
    then show ?thesis using rw_enter(1) [OF assms(1,2)] by (auto simp: loop)
  next
    case False
    then show ?thesis using rw_enter(2) [OF assms(1,3)] by (auto simp: loop)
  qed
qed

lemma crud_write_loop_rw:
  assumes "rw_node p pr r pw w s" "pw < 255"
  shows "if w \<noteq> 0 \<or> r \<noteq> 0
    then \<exists>s'. crud_write_loop p s = CvWait s' (writers_cv p) (Wait_write p) [] \<and> rw_node p pr r (pw + 1) w s' \<and> same_elsewhere p s s'
    else \<exists>s'. crud_write_loop p s = Unlocked s' (Crud_granted CRUD_WRITE p) [] \<and> rw_node p pr r pw 1 s' \<and> same_elsewhere p s s'"
proof -
  obtain n where n: "node_at p s = Some n" "\<And>st. crud_node_is_status_set n st \<longleftrightarrow> full_counts (rw_counts pr r pw w) st \<noteq> 0"
    "crud_node_in_use n \<longleftrightarrow> 0 < pr + r + pw + w"
    by (rule rw_node_flags [OF assms(1)]) blast
  have w: "w = 0 \<or> w = 1 \<and> r = 0" using assms(1) by (auto simp: rw_node_def)
  note loop = crud_write_loop_def with_node_at [OF n(1)] entering_def check_def n(2,3) full_counts_no_op
  show ?thesis
  proof (cases "w \<noteq> 0 \<or> r \<noteq> 0")
    case True
    then show ?thesis using rw_enter(3) [OF assms(1,2)] by (auto simp: loop)
  next
    case False
    then show ?thesis using rw_enter(4) [OF assms(1)] by (auto simp: loop)
  qed
qed

lemma crud_request_rw:
  assumes "rw_node p pr r pw w s"
  shows "crud_request_read p s = crud_read_loop p s" "crud_request_write p s = crud_write_loop p s"
proof -
  obtain n where "node_at p s = Some n" "\<not> crud_rejects n" by (rule rw_node_flags [OF assms]) blast
  then show "crud_request_read p s = crud_read_loop p s" "crud_request_write p s = crud_write_loop p s"
    by (simp_all add: crud_request_read_def crud_request_write_def with_node_at)
qed

lemma crud_resume_rw:
  assumes "rw_node p pr r pw w s"
  shows "pr \<noteq> 0 \<Longrightarrow> \<exists>s1. crud_read_resume p s = crud_read_loop p s1 \<and> rw_node p (pr - 1) r pw w s1 \<and> same_elsewhere p s s1"
    and "pw \<noteq> 0 \<Longrightarrow> \<exists>s1. crud_write_resume p s = crud_write_loop p s1 \<and> rw_node p pr r (pw - 1) w s1 \<and> same_elsewhere p s s1"
  using rw_exit(1,3) [OF assms] by (fastforce simp: crud_read_resume_def crud_write_resume_def exiting_def)+

text \<open>Whom a release wakes.\<close>

definition rw_wakes :: "addr \<Rightarrow> nat \<Rightarrow> nat \<Rightarrow> crud_cv wakeup list" where
  "rw_wakes p pr pw = (if pr \<noteq> 0 then [Broadcast (rdrs_cv p)] else if pw \<noteq> 0 then [Signal (writers_cv p)] else [])"

lemma crud_release_wakes_rw: "rw_node p pr r pw w s \<Longrightarrow> node_at p s = Some n \<Longrightarrow> crud_release_wakes p n = rw_wakes p pr pw"
  by (elim rw_node_flags) (auto simp: crud_release_wakes_def rw_wakes_def)

lemma crud_release_rw:
  assumes "rw_node p pr r pw w s" "r + w \<noteq> 0"
  shows "\<exists>s'. crud_request_release p s = Unlocked s' Crud_released (if r \<le> 1 then rw_wakes p pr pw else []) \<and>
    rw_node p pr (r - 1) pw 0 s' \<and> same_elsewhere p s s'"
proof -
  obtain n where n: "node_at p s = Some n" "cn_curr_op n = rw_op r w" by (rule rw_node_flags [OF assms(1)]) blast
  have w: "w = 0 \<or> w = 1 \<and> r = 0" using assms(1) by (auto simp: rw_node_def)
  show ?thesis
  proof (cases "r = 0")
    case True
    then have wr: "w = 1" "cn_curr_op n = CRUD_WRITE" using w assms(2) n(2) by (auto simp: rw_op_def)
    obtain s' where s': "crud_node_exit_state p crud_node_write_in_progress s = Some s'" "rw_node p pr r pw 0 s'" "same_elsewhere p s s'"
      using rw_exit(4) [OF assms(1)] wr(1) by auto
    obtain n' where n': "node_at p s' = Some n'" by (rule rw_node_flags [OF s'(2)]) blast
    have "crud_request_release p s = Unlocked s' Crud_released (rw_wakes p pr pw)"
      using n(1) wr(2) s'(1) n' crud_release_wakes_rw [OF s'(2) n']
      by (simp add: crud_request_release_def crud_release_write_def exiting_def with_node_at)
    then show ?thesis using s' True by simp
  next
    case False
    then have rd: "w = 0" "cn_curr_op n = CRUD_READ" using w n(2) by (auto simp: rw_op_def)
    obtain s' where s': "crud_node_exit_state p crud_node_read_in_progress s = Some s'" "rw_node p pr (r - 1) pw w s'" "same_elsewhere p s s'"
      using rw_exit(2) [OF assms(1) False] by auto
    obtain n' where n': "node_at p s' = Some n'" "\<And>st. crud_node_is_status_set n' st \<longleftrightarrow> full_counts (rw_counts pr (r - 1) pw w) st \<noteq> 0"
      by (rule rw_node_flags [OF s'(2)]) blast
    have "crud_request_release p s = Unlocked s' Crud_released (if r \<le> 1 then rw_wakes p pr pw else [])"
      using n(1) rd(2) s'(1) n' crud_release_wakes_rw [OF s'(2) n'(1)] False
      by (simp add: crud_request_release_def crud_release_read_def exiting_def with_node_at)
    then show ?thesis using s' rd(1) by simp
  qed
qed

section \<open>Readers and writers\<close>

text \<open>The calls of readers and writers of the nodes \<open>ps\<close>, and what holds of the threads and the nodes.\<close>

fun rw_calls :: "addr list \<Rightarrow> crud_call \<Rightarrow> bool" where
  "rw_calls ps (Request_read p) \<longleftrightarrow> p \<in> set ps"
| "rw_calls ps (Request_write p) \<longleftrightarrow> p \<in> set ps"
| "rw_calls ps (Release p) \<longleftrightarrow> p \<in> set ps"
| "rw_calls ps _ \<longleftrightarrow> False"

definition crud_readers :: "tid set \<Rightarrow> addr \<Rightarrow> (tid \<Rightarrow> crud_held) \<Rightarrow> nat" where
  "crud_readers T p g = count_threads T (\<lambda>x. x = Holds CRUD_READ p) g"

definition crud_writers :: "tid set \<Rightarrow> addr \<Rightarrow> (tid \<Rightarrow> crud_held) \<Rightarrow> nat" where
  "crud_writers T p g = count_threads T (\<lambda>x. x = Holds CRUD_WRITE p) g"

definition pending_readers :: "tid set \<Rightarrow> addr \<Rightarrow> (tid \<Rightarrow> crud_wait option) \<Rightarrow> nat" where
  "pending_readers T p w = waiters T (\<lambda>k. k = Wait_read p) w"

definition pending_writers :: "tid set \<Rightarrow> addr \<Rightarrow> (tid \<Rightarrow> crud_wait option) \<Rightarrow> nat" where
  "pending_writers T p w = waiters T (\<lambda>k. k = Wait_write p) w"

definition rw_at :: "tid set \<Rightarrow> crud_mgr \<Rightarrow> (tid \<Rightarrow> crud_held) \<Rightarrow> (tid \<Rightarrow> crud_wait option) \<Rightarrow> addr \<Rightarrow> bool" where
  "rw_at T s g w p \<longleftrightarrow>
     rw_node p (pending_readers T p w) (crud_readers T p g) (pending_writers T p w) (crud_writers T p g) s"

definition rw_thread :: "addr list \<Rightarrow> crud_held \<Rightarrow> crud_wait option \<Rightarrow> bool" where
  "rw_thread ps h k \<longleftrightarrow>
     (case k of None \<Rightarrow> h = Holds_nothing \<or> (\<exists>p\<in>set ps. h = Holds CRUD_READ p \<or> h = Holds CRUD_WRITE p)
      | Some x \<Rightarrow> h = Holds_nothing \<and> (\<exists>p\<in>set ps. x = Wait_read p \<or> x = Wait_write p))"

definition rw_inv :: "addr list \<Rightarrow> tid set \<Rightarrow> crud_mgr \<Rightarrow> (tid \<Rightarrow> crud_held) \<Rightarrow> (tid \<Rightarrow> crud_wait option) \<Rightarrow> bool" where
  "rw_inv ps T s g w \<longleftrightarrow> (\<forall>p\<in>set ps. rw_at T s g w p) \<and> (\<forall>t\<in>T. rw_thread ps (g t) (w t))"

definition rw_valid :: "addr list \<Rightarrow> tid set \<Rightarrow> bool" where
  "rw_valid ps T \<longleftrightarrow> distinct ps \<and> 0 \<notin> set ps \<and> finite T \<and> card T < 256"

text \<open>A thread moves at one node.\<close>

definition only_at :: "addr \<Rightarrow> crud_held \<Rightarrow> crud_wait option \<Rightarrow> bool" where
  "only_at p h k \<longleftrightarrow>
     (\<forall>q. q \<noteq> p \<longrightarrow> h \<noteq> Holds CRUD_READ q \<and> h \<noteq> Holds CRUD_WRITE q \<and> k \<noteq> Some (Wait_read q) \<and> k \<noteq> Some (Wait_write q))"

lemmas rw_count_defs = crud_readers_def crud_writers_def pending_readers_def pending_writers_def waiters_def

lemma rw_at_elsewhere:
  assumes "rw_at T s g w q" "q \<noteq> p" "same_elsewhere p s s'" "only_at p (g t) (w t)" "only_at p h k"
  shows "rw_at T s' (g(t := h)) (w(t := k)) q"
proof -
  have "crud_readers T q (g(t := h)) = crud_readers T q g" "crud_writers T q (g(t := h)) = crud_writers T q g"
    "pending_readers T q (w(t := k)) = pending_readers T q w" "pending_writers T q (w(t := k)) = pending_writers T q w"
    using assms(2,4,5) unfolding rw_count_defs only_at_def by (auto intro!: count_threads_keep)
  then show ?thesis using assms(1-3) node_is_elsewhere by (auto simp: rw_at_def rw_node_def)
qed

lemma rw_inv_move:
  assumes "rw_inv ps T s g w" "same_elsewhere p s s'" "only_at p (g t) (w t)" "only_at p h k" "rw_thread ps h k"
    and "rw_node p (pending_readers T p (w(t := k))) (crud_readers T p (g(t := h)))
      (pending_writers T p (w(t := k))) (crud_writers T p (g(t := h))) s'"
  shows "rw_inv ps T s' (g(t := h)) (w(t := k))"
  unfolding rw_inv_def
proof (intro conjI ballI)
  fix q assume "q \<in> set ps"
  then show "rw_at T s' (g(t := h)) (w(t := k)) q"
    using rw_at_elsewhere [where T = T and g = g and w = w and t = t and h = h and k = k and p = p and s = s and s' = s' and q = q] assms(2-4) assms(1,6) by (cases "q = p") (auto simp: rw_inv_def rw_at_def)
next
  fix u assume "u \<in> T"
  then show "rw_thread ps ((g(t := h)) u) ((w(t := k)) u)" using assms(1,5) by (auto simp: rw_inv_def)
qed

lemma count_threads_less:
  assumes "finite T" "t \<in> T" "\<not> P (f t)"
  shows "count_threads T P f < card T"
  unfolding count_threads_def using assms by (intro psubset_card_mono) auto

lemma rw_counts_less:
  assumes "finite T" "t \<in> T"
  shows "g t \<noteq> Holds CRUD_READ p \<Longrightarrow> crud_readers T p g < card T"
    and "w t \<noteq> Some (Wait_read p) \<Longrightarrow> pending_readers T p w < card T"
    and "w t \<noteq> Some (Wait_write p) \<Longrightarrow> pending_writers T p w < card T"
  unfolding rw_count_defs using assms by (auto intro!: count_threads_less)

text \<open>How the counts change.\<close>

lemma rw_counts_take:
  assumes "finite T" "t \<in> T"
  shows "g t \<noteq> Holds CRUD_READ p \<Longrightarrow> crud_readers T p (g(t := Holds CRUD_READ p)) = crud_readers T p g + 1"
    and "g t \<noteq> Holds CRUD_WRITE p \<Longrightarrow> crud_writers T p (g(t := Holds CRUD_WRITE p)) = crud_writers T p g + 1"
    and "w t \<noteq> Some (Wait_read p) \<Longrightarrow> pending_readers T p (w(t := Some (Wait_read p))) = pending_readers T p w + 1"
    and "w t \<noteq> Some (Wait_write p) \<Longrightarrow> pending_writers T p (w(t := Some (Wait_write p))) = pending_writers T p w + 1"
  unfolding rw_count_defs using assms by (auto simp: count_threads_add)

lemma rw_counts_drop:
  assumes "finite T" "t \<in> T"
  shows "g t = Holds CRUD_READ p \<Longrightarrow> h \<noteq> Holds CRUD_READ p \<Longrightarrow> crud_readers T p (g(t := h)) = crud_readers T p g - 1"
    and "g t = Holds CRUD_READ p \<Longrightarrow> crud_readers T p g \<noteq> 0"
    and "g t = Holds CRUD_WRITE p \<Longrightarrow> h \<noteq> Holds CRUD_WRITE p \<Longrightarrow> crud_writers T p (g(t := h)) = crud_writers T p g - 1"
    and "g t = Holds CRUD_WRITE p \<Longrightarrow> crud_writers T p g \<noteq> 0"
    and "w t = Some (Wait_read p) \<Longrightarrow> k \<noteq> Some (Wait_read p) \<Longrightarrow> pending_readers T p (w(t := k)) = pending_readers T p w - 1"
    and "w t = Some (Wait_read p) \<Longrightarrow> pending_readers T p w \<noteq> 0"
    and "w t = Some (Wait_write p) \<Longrightarrow> k \<noteq> Some (Wait_write p) \<Longrightarrow> pending_writers T p (w(t := k)) = pending_writers T p w - 1"
    and "w t = Some (Wait_write p) \<Longrightarrow> pending_writers T p w \<noteq> 0"
  unfolding rw_count_defs using assms
  by (auto simp: count_threads_eq_0 count_threads_del' simp del: neq0_conv)

lemma rw_counts_keep:
  "g t \<noteq> Holds CRUD_READ p \<Longrightarrow> h \<noteq> Holds CRUD_READ p \<Longrightarrow> crud_readers T p (g(t := h)) = crud_readers T p g"
  "g t \<noteq> Holds CRUD_WRITE p \<Longrightarrow> h \<noteq> Holds CRUD_WRITE p \<Longrightarrow> crud_writers T p (g(t := h)) = crud_writers T p g"
  "w t \<noteq> Some (Wait_read p) \<Longrightarrow> k \<noteq> Some (Wait_read p) \<Longrightarrow> pending_readers T p (w(t := k)) = pending_readers T p w"
  "w t \<noteq> Some (Wait_write p) \<Longrightarrow> k \<noteq> Some (Wait_write p) \<Longrightarrow> pending_writers T p (w(t := k)) = pending_writers T p w"
  unfolding rw_count_defs by (auto intro!: count_threads_keep)

lemma rw_counts_same:
  "g t = h \<Longrightarrow> g(t := h) = g" "w t = k \<Longrightarrow> w(t := k) = w"
  by auto

text \<open>The loops keep the invariant, started by a thread that waits nowhere: a call, or a return from a
  wait after the thread has left the state it waited in.\<close>

lemma rw_read_loop_keeps:
  assumes v: "rw_valid ps T" and inv: "rw_inv ps T s0 g w" and t: "t \<in> T" "p \<in> set ps" "g t = Holds_nothing"
    and wt: "w t = None \<or> w t = Some (Wait_read p)" and same: "same_elsewhere p s0 s"
    and node: "rw_node p (pending_readers T p (w(t := None))) (crud_readers T p g) (pending_writers T p w) (crud_writers T p g) s"
  shows "keeps_monitor (crud_obj (rw_calls ps)) (rw_inv ps T) t g w (crud_read_loop p s)"
proof -
  have fin: "finite T" "card T < 256" using v by (auto simp: rw_valid_def)
  have lim: "pending_readers T p (w(t := None)) < 255" "crud_readers T p g < 255"
    using rw_counts_less(2) [OF fin(1) t(1), of "w(t := None)" p] rw_counts_less(1) [OF fin(1) t(1), of g p] fin(2) t(3) by auto
  have at: "only_at p (g t) (w t)" using t(3) wt by (auto simp: only_at_def)
  note move = rw_inv_move [OF inv same_elsewhere_trans [OF same] at]
  have g: "g(t := Holds_nothing) = g" using t(3) by auto
  have pw: "pending_writers T p (w(t := k)) = pending_writers T p w" if "k \<noteq> Some (Wait_write p)" for k
    using wt that by (intro rw_counts_keep) auto
  show ?thesis
  proof (cases "crud_writers T p g \<noteq> 0 \<or> crud_readers T p g = 0 \<and> pending_readers T p (w(t := None)) = 0 \<and> pending_writers T p w \<noteq> 0")
    case True
    then obtain s' where s': "crud_read_loop p s = CvWait s' (rdrs_cv p) (Wait_read p) []"
      "rw_node p (pending_readers T p (w(t := None)) + 1) (crud_readers T p g) (pending_writers T p w) (crud_writers T p g) s'"
      "same_elsewhere p s s'"
      using crud_read_loop_rw [OF node lim] by auto
    have "pending_readers T p (w(t := Some (Wait_read p))) = pending_readers T p (w(t := None)) + 1"
      using rw_counts_take(3) [OF fin(1) t(1), of "w(t := None)" p] by simp
    then have "rw_inv ps T s' (g(t := Holds_nothing)) (w(t := Some (Wait_read p)))"
      using s' t(2) by (intro move) (auto simp: only_at_def rw_thread_def g pw)
    then show ?thesis using s'(1) by (simp add: g)
  next
    case False
    then obtain s' where s': "crud_read_loop p s = Unlocked s' (Crud_granted CRUD_READ p) []"
      "rw_node p (pending_readers T p (w(t := None))) (crud_readers T p g + 1) (pending_writers T p w) (crud_writers T p g) s'"
      "same_elsewhere p s s'"
      using crud_read_loop_rw [OF node lim] by auto
    have "rw_inv ps T s' (g(t := Holds CRUD_READ p)) (w(t := None))"
      using s' t(2,3) rw_counts_take(1) [OF fin(1) t(1), of g p]
      by (intro move) (auto simp: only_at_def rw_thread_def pw rw_counts_keep)
    then show ?thesis using s'(1) by simp
  qed
qed

lemma rw_write_loop_keeps:
  assumes v: "rw_valid ps T" and inv: "rw_inv ps T s0 g w" and t: "t \<in> T" "p \<in> set ps" "g t = Holds_nothing"
    and wt: "w t = None \<or> w t = Some (Wait_write p)" and same: "same_elsewhere p s0 s"
    and node: "rw_node p (pending_readers T p w) (crud_readers T p g) (pending_writers T p (w(t := None))) (crud_writers T p g) s"
  shows "keeps_monitor (crud_obj (rw_calls ps)) (rw_inv ps T) t g w (crud_write_loop p s)"
proof -
  have fin: "finite T" "card T < 256" using v by (auto simp: rw_valid_def)
  have lim: "pending_writers T p (w(t := None)) < 255"
    using rw_counts_less(3) [OF fin(1) t(1), of "w(t := None)" p] fin(2) by simp
  have at: "only_at p (g t) (w t)" using t(3) wt by (auto simp: only_at_def)
  note move = rw_inv_move [OF inv same_elsewhere_trans [OF same] at]
  have g: "g(t := Holds_nothing) = g" using t(3) by auto
  have pr: "pending_readers T p (w(t := k)) = pending_readers T p w" if "k \<noteq> Some (Wait_read p)" for k
    using wt that by (intro rw_counts_keep) auto
  show ?thesis
  proof (cases "crud_writers T p g \<noteq> 0 \<or> crud_readers T p g \<noteq> 0")
    case True
    then obtain s' where s': "crud_write_loop p s = CvWait s' (writers_cv p) (Wait_write p) []"
      "rw_node p (pending_readers T p w) (crud_readers T p g) (pending_writers T p (w(t := None)) + 1) (crud_writers T p g) s'"
      "same_elsewhere p s s'"
      using crud_write_loop_rw [OF node lim] by auto
    have "pending_writers T p (w(t := Some (Wait_write p))) = pending_writers T p (w(t := None)) + 1"
      using rw_counts_take(4) [OF fin(1) t(1), of "w(t := None)" p] by simp
    then have "rw_inv ps T s' (g(t := Holds_nothing)) (w(t := Some (Wait_write p)))"
      using s' t(2) by (intro move) (auto simp: only_at_def rw_thread_def g pr)
    then show ?thesis using s'(1) by (simp add: g)
  next
    case False
    then obtain s' where s': "crud_write_loop p s = Unlocked s' (Crud_granted CRUD_WRITE p) []"
      "rw_node p (pending_readers T p w) (crud_readers T p g) (pending_writers T p (w(t := None))) 1 s'"
      "same_elsewhere p s s'"
      using crud_write_loop_rw [OF node lim] by auto
    have "rw_inv ps T s' (g(t := Holds CRUD_WRITE p)) (w(t := None))"
      using s' t(2,3) False rw_counts_take(2) [OF fin(1) t(1), of g p]
      by (intro move) (auto simp: only_at_def rw_thread_def pr rw_counts_keep)
    then show ?thesis using s'(1) by simp
  qed
qed

lemma rw_release_keeps:
  assumes v: "rw_valid ps T" and inv: "rw_inv ps T s g w" and t: "t \<in> T" "p \<in> set ps" "holds_node (g t) p" "w t = None"
  shows "\<exists>s'. crud_request_release p s =
      Unlocked s' Crud_released (if crud_readers T p g \<le> 1 then rw_wakes p (pending_readers T p w) (pending_writers T p w) else []) \<and>
    rw_inv ps T s' (g(t := Holds_nothing)) (w(t := None))"
proof -
  have fin: "finite T" using v by (auto simp: rw_valid_def)
  have node: "rw_node p (pending_readers T p w) (crud_readers T p g) (pending_writers T p w) (crud_writers T p g) s"
    and th: "rw_thread ps (g t) (w t)" using inv t(1,2) by (auto simp: rw_inv_def rw_at_def)
  have held: "g t = Holds CRUD_READ p \<or> g t = Holds CRUD_WRITE p"
    using th t(3,4) by (cases "g t") (auto simp: rw_thread_def)
  have w: "crud_writers T p g = 0 \<or> crud_writers T p g = 1 \<and> crud_readers T p g = 0" using node by (simp add: rw_node_def)
  have some: "crud_readers T p g + crud_writers T p g \<noteq> 0"
    using held rw_counts_drop(2,4) [OF fin t(1), of g p] by auto
  obtain s' where s': "crud_request_release p s =
      Unlocked s' Crud_released (if crud_readers T p g \<le> 1 then rw_wakes p (pending_readers T p w) (pending_writers T p w) else [])"
    "rw_node p (pending_readers T p w) (crud_readers T p g - 1) (pending_writers T p w) 0 s'" "same_elsewhere p s s'"
    using crud_release_rw [OF node some] by auto
  have counts: "crud_readers T p (g(t := Holds_nothing)) = crud_readers T p g - 1" "crud_writers T p (g(t := Holds_nothing)) = 0"
    using held w rw_counts_drop(2,4) [OF fin t(1), of g p] rw_counts_drop(1,3) [OF fin t(1), of g p Holds_nothing] rw_counts_keep(1,2) [of g t p Holds_nothing] by auto
  have "w(t := None) = w" using t(4) by auto
  then have "rw_inv ps T s' (g(t := Holds_nothing)) (w(t := None))"
    using held t(4) s'(2) by (intro rw_inv_move [OF inv s'(3)]) (auto simp: only_at_def rw_thread_def counts)
  with s'(1) show ?thesis by blast
qed

lemma rw_call_keeps:
  assumes v: "rw_valid ps T" and inv: "rw_inv ps T s g w" and t: "t \<in> T" "w t = None" "crud_client (rw_calls ps) (g t) op"
  shows "keeps_monitor (crud_obj (rw_calls ps)) (rw_inv ps T) t g w (crud_enter t op s)"
proof -
  have wt: "w(t := None) = w" using t(2) by auto
  show ?thesis
  proof (cases op)
    case (Request_read p)
    then have p: "p \<in> set ps" "g t = Holds_nothing" using t(3) by auto
    then have node: "rw_node p (pending_readers T p w) (crud_readers T p g) (pending_writers T p w) (crud_writers T p g) s"
      using inv by (auto simp: rw_inv_def rw_at_def)
    then show ?thesis using rw_read_loop_keeps [OF v inv t(1) p _ same_elsewhere_refl] t(2) wt Request_read
      by (simp add: crud_request_rw(1) [OF node])
  next
    case (Request_write p)
    then have p: "p \<in> set ps" "g t = Holds_nothing" using t(3) by auto
    then have node: "rw_node p (pending_readers T p w) (crud_readers T p g) (pending_writers T p w) (crud_writers T p g) s"
      using inv by (auto simp: rw_inv_def rw_at_def)
    then show ?thesis using rw_write_loop_keeps [OF v inv t(1) p _ same_elsewhere_refl] t(2) wt Request_write
      by (simp add: crud_request_rw(2) [OF node])
  next
    case (Release p)
    then have "p \<in> set ps" "holds_node (g t) p" using t(3) by auto
    from rw_release_keeps [OF v inv t(1) this t(2)] Release show ?thesis by auto
  qed (use t(3) in auto)
qed

lemma rw_resume_keeps:
  assumes v: "rw_valid ps T" and inv: "rw_inv ps T s g w" and t: "t \<in> T" "w t = Some k"
  shows "keeps_monitor (crud_obj (rw_calls ps)) (rw_inv ps T) t g w (crud_resume t k s)"
proof -
  have fin: "finite T" using v by (auto simp: rw_valid_def)
  obtain p where p: "p \<in> set ps" "k = Wait_read p \<or> k = Wait_write p" "g t = Holds_nothing"
  proof -
    have "rw_thread ps (g t) (Some k)" using inv t by (auto simp: rw_inv_def)
    then show thesis using that by (auto simp: rw_thread_def)
  qed
  then have node: "rw_node p (pending_readers T p w) (crud_readers T p g) (pending_writers T p w) (crud_writers T p g) s"
    using inv by (auto simp: rw_inv_def rw_at_def)
  show ?thesis
  proof (cases "k = Wait_read p")
    case True
    have cnt: "pending_readers T p w \<noteq> 0" "pending_readers T p (w(t := None)) = pending_readers T p w - 1"
      using rw_counts_drop(5) [OF fin t(1), of w p None] rw_counts_drop(6) [OF fin t(1), of w p] t(2) True by auto
    obtain s1 where s1: "crud_read_resume p s = crud_read_loop p s1"
      "rw_node p (pending_readers T p w - 1) (crud_readers T p g) (pending_writers T p w) (crud_writers T p g) s1"
      "same_elsewhere p s s1"
      using crud_resume_rw(1) [OF node cnt(1)] by blast
    show ?thesis using rw_read_loop_keeps [OF v inv t(1) p(1,3) _ s1(3)] s1 cnt(2) t(2) True by simp
  next
    case False
    then have k: "k = Wait_write p" using p(2) by simp
    have cnt: "pending_writers T p w \<noteq> 0" "pending_writers T p (w(t := None)) = pending_writers T p w - 1"
      using rw_counts_drop(7) [OF fin t(1), of w p None] rw_counts_drop(8) [OF fin t(1), of w p] t(2) k by auto
    obtain s1 where s1: "crud_write_resume p s = crud_write_loop p s1"
      "rw_node p (pending_readers T p w) (crud_readers T p g) (pending_writers T p w - 1) (crud_writers T p g) s1"
      "same_elsewhere p s s1"
      using crud_resume_rw(2) [OF node cnt(1)] by blast
    show ?thesis using rw_write_loop_keeps [OF v inv t(1) p(1,3) _ s1(3)] s1 cnt(2) t(2) k by simp
  qed
qed

lemma rw_start_inv:
  assumes "rw_valid ps T"
  shows "rw_inv ps T (crud_setup ps) (\<lambda>_. Holds_nothing) (\<lambda>_. None)"
proof -
  have "crud_readers T p (\<lambda>_. Holds_nothing) = 0" "crud_writers T p (\<lambda>_. Holds_nothing) = 0"
    "pending_readers T p (\<lambda>_. None) = 0" "pending_writers T p (\<lambda>_. None) = 0" for p
    by (simp_all add: rw_count_defs count_threads_def)
  moreover have "rw_counts 0 0 0 0 = no_counts" by (auto simp: rw_counts_def no_counts_def split: crud_node_state.splits)
  ultimately show ?thesis
    using assms crud_setup_is [of ps] by (auto simp: rw_inv_def rw_at_def rw_node_def rw_op_def rw_thread_def rw_valid_def)
qed

interpretation crud_rw: sync_monitor rw_valid "\<lambda>ps. crud_obj (rw_calls ps)" crud_setup Holds_nothing rw_inv
  by unfold_locales (simp_all add: rw_start_inv rw_call_keeps rw_resume_keeps)

text \<open>C11. In every execution of requests to read, to write and to release (nobody requests to create or to
  delete a node: see \<open>crud_release_race\<close> and \<open>crud_delete_gap\<close> for those) on any number of nodes, by fewer than
  256 threads, spurious wake-ups included, no assertion of the library fails; at a node one thread writes and none reads, or none
  writes; \<^verbatim>\<open>curr_op\<close> says which, so that a release ends what was granted; and the flags and the
  counters of the node count the threads that read, write and wait.\<close>

theorem crud_rw_exclusion:
  assumes "rw_valid ps T" "reach (crud_obj (rw_calls ps)) sp T (crud_setup ps) Holds_nothing c" "p \<in> set ps"
  shows "\<not> aborted c \<and> (crud_writers T p (ghost c) = 0 \<or> crud_writers T p (ghost c) = 1 \<and> crud_readers T p (ghost c) = 0) \<and>
    (\<exists>n. node_at p (shared c) = Some n \<and> cn_curr_op n = rw_op (crud_readers T p (ghost c)) (crud_writers T p (ghost c)) \<and>
       (\<forall>st. let k = full_counts (rw_counts (pending_readers T p (\<lambda>x. pending (status c x))) (crud_readers T p (ghost c))
                (pending_writers T p (\<lambda>x. pending (status c x))) (crud_writers T p (ghost c))) st in
          k < 256 \<and> crud_node_get_state_counter n st = of_nat k \<and> (crud_node_is_status_set n st \<longleftrightarrow> k \<noteq> 0)))"
proof -
  have "rw_at T (shared c) (ghost c) (\<lambda>x. pending (status c x)) p"
    using crud_rw.monitor_inv [OF assms(1,2)] assms(3) by (auto simp: rw_inv_def)
  then show ?thesis using crud_rw.monitor_not_aborted [OF assms(1,2)]
    by (auto simp: rw_at_def rw_node_def node_is_def shows_counts_def Let_def)
qed

section \<open>Who is awake\<close>

fun crud_cv_of :: "crud_wait \<Rightarrow> crud_cv" where
  "crud_cv_of (Wait_read p) = rdrs_cv p"
| "crud_cv_of (Wait_write p) = writers_cv p"
| "crud_cv_of (Wait_delete p) = delete_thread_cv p"
| "crud_cv_of (Wait_delete_second p) = delete_thread_cv p"
| "crud_cv_of (Wait_create p) = create_thread_cv p"

definition waits_at :: "addr \<Rightarrow> (crud_cv, crud_wait) thread_status \<Rightarrow> bool" where
  "waits_at p x \<longleftrightarrow> pending x = Some (Wait_read p) \<or> pending x = Some (Wait_write p)"

text \<open>If nobody reads or writes a node and a thread is blocked at it, a thread has been woken at it, or both
  readers and writers wait.\<close>

definition rw_awake :: "tid set \<Rightarrow> (tid \<Rightarrow> crud_held) \<Rightarrow> (tid \<Rightarrow> (crud_cv, crud_wait) thread_status) \<Rightarrow> addr \<Rightarrow> bool" where
  "rw_awake T g f p \<longleftrightarrow>
     (crud_readers T p g = 0 \<and> crud_writers T p g = 0 \<and> (\<exists>u. waits_at p (f u) \<and> is_blocked (f u)) \<longrightarrow>
       (\<exists>u. waits_at p (f u) \<and> is_woken (f u)) \<or>
       (\<exists>u v. pending (f u) = Some (Wait_read p) \<and> pending (f v) = Some (Wait_write p)))"

definition rw_gate :: "addr list \<Rightarrow> tid set \<Rightarrow> (tid \<Rightarrow> crud_held) \<Rightarrow> (tid \<Rightarrow> (crud_cv, crud_wait) thread_status) \<Rightarrow> bool" where
  "rw_gate ps T g f \<longleftrightarrow> waits_as T crud_cv_of f \<and> (\<forall>p\<in>set ps. rw_awake T g f p)"

lemma rw_awake_cong:
  assumes "rw_awake T g f q" "crud_readers T q g' = crud_readers T q g" "crud_writers T q g' = crud_writers T q g"
    and "\<And>u. waits_at q (f u) \<or> waits_at q (f' u) \<Longrightarrow> f' u = f u"
  shows "rw_awake T g' f' q"
proof -
  have "waits_at q (f' u) = waits_at q (f u)" for u using assms(4) [of u] by auto
  moreover have "is_blocked (f' u) = is_blocked (f u)" "is_woken (f' u) = is_woken (f u)" "pending (f' u) = pending (f u)"
    if "waits_at q (f u)" for u using assms(4) [of u] that by auto
  ultimately show ?thesis using assms(1-3) unfolding rw_awake_def by (metis waits_at_def)
qed

lemma waits_at_inj: "waits_at p x \<Longrightarrow> waits_at q x \<Longrightarrow> p = q"
  by (auto simp: waits_at_def)

text \<open>A thread that moves at node \<open>p\<close> and sends no signals.\<close>

lemma rw_gate_move:
  assumes "rw_gate ps T g f" "t \<in> T" "f t = Running \<or> waits_at p (f t)"
    and g': "\<And>q. q \<noteq> p \<Longrightarrow> crud_readers T q g' = crud_readers T q g" "\<And>q. q \<noteq> p \<Longrightarrow> crud_writers T q g' = crud_writers T q g"
    and x: "x = Running \<or> (\<exists>k. x = Blocked (crud_cv_of k) k) \<and> waits_at p x"
    and p: "rw_awake T g' (f(t := x)) p"
  shows "rw_gate ps T g' (f(t := x))"
  unfolding rw_gate_def
proof (intro conjI ballI)
  show "waits_as T crud_cv_of (f(t := x))" using assms(1,2) x by (auto simp: rw_gate_def waits_as_def)
next
  fix q assume q: "q \<in> set ps"
  show "rw_awake T g' (f(t := x)) q"
  proof (cases "q = p")
    case False
    have "\<not> waits_at q (f t)" "\<not> waits_at q x" using assms(3) x False waits_at_inj [of p _ q] by (auto simp: waits_at_def)
    then have same: "(f(t := x)) u = f u" if "waits_at q (f u) \<or> waits_at q ((f(t := x)) u)" for u
      using that by (cases "u = t") simp_all
    have "rw_awake T g f q" using assms(1) q by (simp add: rw_gate_def)
    then show ?thesis by (rule rw_awake_cong [OF _ g' [OF False] same])
  qed (use p in simp)
qed

lemma rw_awake_busy: "crud_readers T p g \<noteq> 0 \<or> crud_writers T p g \<noteq> 0 \<Longrightarrow> rw_awake T g f p"
  by (auto simp: rw_awake_def)

lemma rw_pending_thread:
  assumes "finite T" "pending_writers T p (\<lambda>x. pending (f x)) \<noteq> 0"
  shows "\<exists>u. pending (f u) = Some (Wait_write p)"
  using assms waiters_pos [OF assms(1), of "\<lambda>k. k = Wait_write p" "\<lambda>x. pending (f x)"] by (auto simp: pending_writers_def)

lemma rw_pending_reader:
  assumes "finite T" "pending_readers T p (\<lambda>x. pending (f x)) \<noteq> 0"
  shows "\<exists>u\<in>T. pending (f u) = Some (Wait_read p)"
  using assms waiters_pos [OF assms(1), of "\<lambda>k. k = Wait_read p" "\<lambda>x. pending (f x)"] by (auto simp: pending_readers_def)

lemma crud_elsewhere_counts:
  assumes "g t = Holds_nothing"
  shows "q \<noteq> p \<Longrightarrow> crud_readers T q (g(t := Holds k p)) = crud_readers T q g"
    and "q \<noteq> p \<Longrightarrow> crud_writers T q (g(t := Holds k p)) = crud_writers T q g"
  using assms by (auto intro!: rw_counts_keep)

lemma rw_read_loop_gate:
  assumes v: "finite T" and gate: "rw_gate ps T g f" and t: "t \<in> T" "g t = Holds_nothing" "f t = Running \<or> waits_at p (f t)"
    and node: "rw_node p pr (crud_readers T p g) (pending_writers T p ((\<lambda>x. pending (f x))(t := None))) (crud_writers T p g) s"
    and lim: "pr < 255" "crud_readers T p g < 255"
  shows "keeps (crud_obj a) (\<lambda>s g f. rw_gate ps T g f) t g f (crud_read_loop p s)"
proof (cases "crud_writers T p g \<noteq> 0 \<or> crud_readers T p g = 0 \<and> pr = 0 \<and> pending_writers T p ((\<lambda>x. pending (f x))(t := None)) \<noteq> 0")
  case True
  then obtain s' where s': "crud_read_loop p s = CvWait s' (rdrs_cv p) (Wait_read p) []"
    using crud_read_loop_rw [OF node lim] by auto
  let ?f = "f(t := Blocked (rdrs_cv p) (Wait_read p))"
  have "rw_awake T g ?f p"
  proof (cases "crud_writers T p g = 0")
    case no_writer: True
    have upd: "(\<lambda>x. pending (f x))(t := None) = (\<lambda>x. pending ((f(t := Running)) x))" by auto
    have "pending_writers T p (\<lambda>x. pending ((f(t := Running)) x)) \<noteq> 0" using True no_writer unfolding upd by simp
    from rw_pending_thread [OF v this] obtain u where u: "pending ((f(t := Running)) u) = Some (Wait_write p)" by blast
    then have "pending (?f u) = Some (Wait_write p)" by (auto split: if_splits)
    moreover have "pending (?f t) = Some (Wait_read p)" by simp
    ultimately show ?thesis unfolding rw_awake_def by blast
  qed (simp add: rw_awake_busy)
  then have "rw_gate ps T g ?f"
    by (intro rw_gate_move [OF gate t(1,3)]) (auto simp: waits_at_def intro!: exI [of _ "Wait_read p"])
  then show ?thesis using s' by simp
next
  case False
  then obtain s' where s': "crud_read_loop p s = Unlocked s' (Crud_granted CRUD_READ p) []"
    using crud_read_loop_rw [OF node lim] by auto
  have "crud_readers T p (g(t := Holds CRUD_READ p)) \<noteq> 0" using rw_counts_take(1) [OF v t(1), of g p] t(2) by simp
  then have "rw_gate ps T (g(t := Holds CRUD_READ p)) (f(t := Running))"
    using t(2) by (intro rw_gate_move [OF gate t(1,3)]) (simp_all add: crud_elsewhere_counts rw_awake_busy)
  then show ?thesis using s' by simp
qed

lemma rw_write_loop_gate:
  assumes v: "finite T" and gate: "rw_gate ps T g f" and t: "t \<in> T" "g t = Holds_nothing" "f t = Running \<or> waits_at p (f t)"
    and node: "rw_node p pr (crud_readers T p g) pw (crud_writers T p g) s" and lim: "pw < 255"
  shows "keeps (crud_obj a) (\<lambda>s g f. rw_gate ps T g f) t g f (crud_write_loop p s)"
proof (cases "crud_writers T p g \<noteq> 0 \<or> crud_readers T p g \<noteq> 0")
  case True
  then obtain s' where s': "crud_write_loop p s = CvWait s' (writers_cv p) (Wait_write p) []"
    using crud_write_loop_rw [OF node lim] by auto
  have "rw_gate ps T g (f(t := Blocked (writers_cv p) (Wait_write p)))"
    using True by (intro rw_gate_move [OF gate t(1,3)]) (auto simp: waits_at_def rw_awake_busy intro!: exI [of _ "Wait_write p"])
  then show ?thesis using s' by simp
next
  case False
  then obtain s' where s': "crud_write_loop p s = Unlocked s' (Crud_granted CRUD_WRITE p) []"
    using crud_write_loop_rw [OF node lim] by auto
  have "crud_writers T p (g(t := Holds CRUD_WRITE p)) \<noteq> 0" using rw_counts_take(2) [OF v t(1), of g p] t(2) by simp
  then have "rw_gate ps T (g(t := Holds CRUD_WRITE p)) (f(t := Running))"
    using t(2) by (intro rw_gate_move [OF gate t(1,3)]) (simp_all add: crud_elsewhere_counts rw_awake_busy)
  then show ?thesis using s' by simp
qed

text \<open>What a release wakes.\<close>

lemma rw_wakes_elsewhere:
  assumes "waits_as T crud_cv_of f" "wakes (rw_wakes p pr pw) f h" "q \<noteq> p" "waits_at q (f u) \<or> waits_at q (h u)"
  shows "h u = f u"
proof -
  have "\<not> blocked_on (rdrs_cv p) (f u)" "\<not> blocked_on (writers_cv p) (f u)"
  proof -
    have "waits_at q (f u)" using assms(4) wakes_pending [OF assms(2), of u] by (auto simp: waits_at_def)
    then show "\<not> blocked_on (rdrs_cv p) (f u)" "\<not> blocked_on (writers_cv p) (f u)"
      using waits_as_at [OF assms(1), of u] assms(3) by (auto simp: waits_at_def blocked_on_iff)
  qed
  then show ?thesis using assms(2) by (auto simp: rw_wakes_def wake_all_def wake_one_def split: if_splits)
qed

lemma rw_wakes_awake:
  assumes T: "finite T" and wa: "waits_as T crud_cv_of f"
    and wakes: "wakes (rw_wakes p (pending_readers T p (\<lambda>x. pending (f x))) (pending_writers T p (\<lambda>x. pending (f x)))) f h"
    and b: "waits_at p (h u)" "is_blocked (h u)"
  shows "\<exists>u. waits_at p (h u) \<and> is_woken (h u)"
proof (cases "pending_readers T p (\<lambda>x. pending (f x)) = 0")
  case False
  then obtain v where v: "v \<in> T" "pending (f v) = Some (Wait_read p)" using rw_pending_reader [OF T] by blast
  have h: "h = wake_all (rdrs_cv p) f" using wakes False by (simp add: rw_wakes_def)
  have "h v = Woken (Wait_read p)"
  proof (cases "f v")
    case (Blocked cv k)
    then have "k = Wait_read p" "cv = rdrs_cv p" using v(2) waits_as_at [OF wa Blocked] by simp_all
    then show ?thesis using Blocked by (simp add: h wake_all_def)
  qed (use v(2) in \<open>simp_all add: h wake_all_def\<close>)
  then show ?thesis by (intro exI [of _ v]) (simp add: waits_at_def)
next
  case True
  have fu: "h u = f u" using wakes_blocked_same [OF wakes b(2)] by simp
  have mem: "u \<in> T" using fu b(2) by (intro waits_as_mem [OF wa]) auto
  have "pending (f u) \<noteq> Some (Wait_read p)"
    using True mem T by (auto simp: pending_readers_def waiters_def count_threads_eq_0)
  then have "pending (f u) = Some (Wait_write p)" using b(1) fu by (auto simp: waits_at_def)
  then have bw: "blocked_on (writers_cv p) (f u)" using fu b(2) waits_as_at [OF wa, of u] by (cases "f u") auto
  have "pending_writers T p (\<lambda>x. pending (f x)) \<noteq> 0"
    using mem T \<open>pending (f u) = Some (Wait_write p)\<close> by (auto simp: pending_writers_def waiters_def count_threads_eq_0)
  then obtain v where v: "blocked_on (writers_cv p) (f v)" "h = f(v := wake (f v))"
    using wakes True bw by (auto simp: rw_wakes_def wake_one_upd split: if_splits)
  then obtain k where k: "f v = Blocked (writers_cv p) k" by (auto simp: blocked_on_iff)
  then have "crud_cv_of k = writers_cv p" using waits_as_at [OF wa, of v] by simp
  then have "k = Wait_write p" by (cases k) auto
  then have "h v = Woken (Wait_write p)" using v k by simp
  then show ?thesis by (intro exI [of _ v]) (simp add: waits_at_def)
qed

lemma rw_release_gate:
  assumes T: "finite T" and gate: "rw_gate ps T g f" and t: "t \<in> T" "f t = Running" "g t = Holds k p"
    and ss: "crud_readers T p g \<le> 1 \<Longrightarrow> ss = rw_wakes p (pending_readers T p (\<lambda>x. pending (f x))) (pending_writers T p (\<lambda>x. pending (f x)))"
      "\<not> crud_readers T p g \<le> 1 \<Longrightarrow> ss = []"
    and wakes: "wakes ss (f(t := Running)) h"
  shows "rw_gate ps T (g(t := Holds_nothing)) h"
proof -
  have f: "f(t := Running) = f" using t(2) by auto
  have wa: "waits_as T crud_cv_of f" using gate by (simp add: rw_gate_def)
  have other: "crud_readers T q (g(t := Holds_nothing)) = crud_readers T q g" "crud_writers T q (g(t := Holds_nothing)) = crud_writers T q g"
    if "q \<noteq> p" for q using that t(3) by (auto intro!: rw_counts_keep)
  show ?thesis
  proof (cases "crud_readers T p g \<le> 1")
    case False
    then have h: "h = f" using wakes ss f by simp
    have "crud_readers T p (g(t := Holds_nothing)) \<noteq> 0"
      using False rw_counts_drop(1) [OF T t(1), of g p Holds_nothing] rw_counts_keep(1) [of g t p Holds_nothing]
      by (cases "g t = Holds CRUD_READ p") auto
    then have "rw_gate ps T (g(t := Holds_nothing)) (f(t := Running))"
      using t other by (intro rw_gate_move [OF gate t(1)]) (auto simp: rw_awake_busy)
    then show ?thesis by (simp add: h f)
  next
    case True
    have ws: "wakes (rw_wakes p (pending_readers T p (\<lambda>x. pending (f x))) (pending_writers T p (\<lambda>x. pending (f x)))) f h"
      using wakes ss(1) [OF True] f by simp
    show ?thesis unfolding rw_gate_def
    proof (intro conjI ballI)
      show "waits_as T crud_cv_of h" by (rule waits_as_wakes [OF wa, of _ t]) (use wakes f in simp)
    next
      fix q assume q: "q \<in> set ps"
      show "rw_awake T (g(t := Holds_nothing)) h q"
      proof (cases "q = p")
        case True
        then show ?thesis using rw_wakes_awake [OF T wa ws] unfolding rw_awake_def by blast
      next
        case False
        have "rw_awake T g f q" using gate q by (simp add: rw_gate_def)
        then show ?thesis by (rule rw_awake_cong [OF _ other [OF False] rw_wakes_elsewhere [OF wa ws False]])
      qed
    qed
  qed
qed

lemma rw_spurious_gate:
  assumes "rw_gate ps T g f" "is_blocked (f t)"
  shows "rw_gate ps T g (f(t := wake (f t)))"
proof -
  have "rw_awake T g (f(t := wake (f t))) p" if p: "p \<in> set ps" for p
  proof -
    have old: "rw_awake T g f p" using assms(1) p by (simp add: rw_gate_def)
    have pend: "pending ((f(t := wake (f t))) u) = pending (f u)" for u by simp
    show ?thesis
    proof (cases "waits_at p (f t)")
      case True
      then have "waits_at p ((f(t := wake (f t))) t)" "is_woken ((f(t := wake (f t))) t)"
        using assms(2) by (simp_all add: waits_at_def is_woken_wake)
      then show ?thesis unfolding rw_awake_def by blast
    next
      case False
      then have "(f(t := wake (f t))) u = f u" if "waits_at p (f u) \<or> waits_at p ((f(t := wake (f t))) u)" for u
        using that by (cases "u = t") (auto simp: waits_at_def)
      then show ?thesis by (intro rw_awake_cong [OF old]) auto
    qed
  qed
  then show ?thesis using assms(1) by (auto simp: rw_gate_def waits_as_wake)
qed

lemma rw_inv_node:
  assumes "rw_inv ps T s g w" "p \<in> set ps"
  shows "rw_node p (pending_readers T p w) (crud_readers T p g) (pending_writers T p w) (crud_writers T p g) s"
  using assms by (auto simp: rw_inv_def rw_at_def)

lemma rw_call_gate:
  assumes v: "rw_valid ps T" and inv: "rw_inv ps T s g (\<lambda>x. pending (f x))" and gate: "rw_gate ps T g f"
    and t: "t \<in> T" "f t = Running" "crud_client (rw_calls ps) (g t) op"
  shows "keeps (crud_obj (rw_calls ps)) (\<lambda>s g f. rw_gate ps T g f) t g f (crud_enter t op s)"
proof -
  have fin: "finite T" "card T < 256" using v by (auto simp: rw_valid_def)
  have w: "(\<lambda>x. pending (f x))(t := None) = (\<lambda>x. pending (f x))" using t(2) by auto
  show ?thesis
  proof (cases op)
    case (Request_read p)
    then have p: "p \<in> set ps" "g t = Holds_nothing" using t(3) by auto
    note node = rw_inv_node [OF inv p(1)]
    have "pending_readers T p (\<lambda>x. pending (f x)) < 255" "crud_readers T p g < 255"
      using rw_counts_less(2) [OF fin(1) t(1), of "\<lambda>x. pending (f x)" p] rw_counts_less(1) [OF fin(1) t(1), of g p] fin(2) p(2) t(2) by auto
    then show ?thesis using rw_read_loop_gate [OF fin(1) gate t(1) p(2)] node t(2) Request_read
      by (simp add: w crud_request_rw(1) [OF node])
  next
    case (Request_write p)
    then have p: "p \<in> set ps" "g t = Holds_nothing" using t(3) by auto
    note node = rw_inv_node [OF inv p(1)]
    have "pending_writers T p (\<lambda>x. pending (f x)) < 255"
      using rw_counts_less(3) [OF fin(1) t(1), of "\<lambda>x. pending (f x)" p] fin(2) t(2) by auto
    then show ?thesis using rw_write_loop_gate [OF fin(1) gate t(1) p(2) _ node] t(2) Request_write
      by (simp add: crud_request_rw(2) [OF node])
  next
    case (Release p)
    then have p: "p \<in> set ps" "holds_node (g t) p" using t(3) by auto
    then obtain k where k: "g t = Holds k p" by (cases "g t") auto
    let ?ss = "if crud_readers T p g \<le> 1
        then rw_wakes p (pending_readers T p (\<lambda>x. pending (f x))) (pending_writers T p (\<lambda>x. pending (f x))) else []"
    obtain s' where "crud_request_release p s = Unlocked s' Crud_released ?ss"
      using rw_release_keeps [OF v inv t(1) p] t(2) by auto
    moreover have "rw_gate ps T (g(t := Holds_nothing)) h" if "wakes ?ss (f(t := Running)) h" for h
      by (rule rw_release_gate [OF fin(1) gate t(1,2) k _ _ that]) simp_all
    ultimately show ?thesis using Release by simp
  qed (use t(3) in auto)
qed

lemma rw_resume_gate:
  assumes v: "rw_valid ps T" and inv: "rw_inv ps T s g (\<lambda>x. pending (f x))" and gate: "rw_gate ps T g f"
    and t: "t \<in> T" "f t = Woken k"
  shows "keeps (crud_obj (rw_calls ps)) (\<lambda>s g f. rw_gate ps T g f) t g f (crud_resume t k s)"
proof -
  let ?w = "\<lambda>x. pending (f x)"
  have fin: "finite T" "card T < 256" using v by (auto simp: rw_valid_def)
  obtain p where p: "p \<in> set ps" "k = Wait_read p \<or> k = Wait_write p" "g t = Holds_nothing"
  proof -
    have "rw_thread ps (g t) (Some k)" using inv t by (force simp: rw_inv_def)
    then show thesis using that by (auto simp: rw_thread_def)
  qed
  note node = rw_inv_node [OF inv p(1)]
  have at: "f t = Running \<or> waits_at p (f t)" using p(2) t(2) by (auto simp: waits_at_def)
  show ?thesis
  proof (cases "k = Wait_read p")
    case True
    have cnt: "pending_readers T p ?w \<noteq> 0" using rw_counts_drop(6) [OF fin(1) t(1), of ?w p] t(2) True by simp
    obtain s1 where s1: "crud_read_resume p s = crud_read_loop p s1"
      "rw_node p (pending_readers T p ?w - 1) (crud_readers T p g) (pending_writers T p ?w) (crud_writers T p g) s1"
      using crud_resume_rw(1) [OF node cnt(1)] by blast
    have lim: "pending_readers T p ?w - 1 < 255" "crud_readers T p g < 255"
      using rw_counts_less(1) [OF fin(1) t(1), of g p] fin p(3) waiters_le [OF fin(1), of "\<lambda>k. k = Wait_read p" ?w]
      by (auto simp: pending_readers_def)
    have "pending_writers T p (?w(t := None)) = pending_writers T p ?w" using t(2) True by (intro rw_counts_keep) auto
    then show ?thesis using rw_read_loop_gate [OF fin(1) gate t(1) p(3) at _ lim] s1 True by simp
  next
    case False
    then have k: "k = Wait_write p" using p(2) by simp
    have cnt: "pending_writers T p ?w \<noteq> 0" using rw_counts_drop(8) [OF fin(1) t(1), of ?w p] t(2) k by simp
    obtain s1 where s1: "crud_write_resume p s = crud_write_loop p s1"
      "rw_node p (pending_readers T p ?w) (crud_readers T p g) (pending_writers T p ?w - 1) (crud_writers T p g) s1"
      using crud_resume_rw(2) [OF node cnt(1)] by blast
    have lim: "pending_writers T p ?w - 1 < 255"
      using fin waiters_le [OF fin(1), of "\<lambda>k. k = Wait_write p" ?w] by (auto simp: pending_writers_def)
    show ?thesis using rw_write_loop_gate [OF fin(1) gate t(1) p(3) at s1(2) lim] s1(1) k by simp
  qed
qed

interpretation crud_rw_gate: sync_object rw_valid "\<lambda>ps. crud_obj (rw_calls ps)" True crud_setup Holds_nothing
  "\<lambda>ps T s g f. rw_inv ps T s g (\<lambda>x. pending (f x)) \<and> rw_gate ps T g f"
proof (unfold_locales, goal_cases)
  case (1 ps T)
  then show ?case using rw_start_inv by (auto simp: rw_gate_def rw_awake_def)
next
  case (2 ps T s g f t op)
  then show ?case by (intro keeps_conj keeps_of_monitor) (simp_all add: rw_call_keeps rw_call_gate)
next
  case (3 ps T s g f t k)
  then show ?case by (intro keeps_conj keeps_of_monitor) (simp_all add: rw_resume_keeps rw_resume_gate)
next
  case (4 ps T s g f t)
  then have "(\<lambda>x. pending ((f(t := wake (f t))) x)) = (\<lambda>x. pending (f x))" by auto
  with 4 show ?case by (simp add: rw_spurious_gate)
qed

text \<open>C28. Readers and writers at a node can only be stuck together: in every execution of requests to read, to
  write and to release (nobody requests to create or to delete; a deletion can get lost, \<open>crud_delete_lost\<close>),
  if nobody reads or writes the node and a reader or a writer is blocked at it, then some thread has been woken there and has yet to run, or both readers and
  writers wait.\<close>

theorem crud_rw_wakeups:
  assumes "rw_valid ps T" "reach (crud_obj (rw_calls ps)) sp T (crud_setup ps) Holds_nothing c" "p \<in> set ps"
    and "crud_readers T p (ghost c) = 0" "crud_writers T p (ghost c) = 0"
    and "status c t = Blocked cv k" "k = Wait_read p \<or> k = Wait_write p"
  shows "(\<exists>u. status c u = Woken (Wait_read p) \<or> status c u = Woken (Wait_write p)) \<or>
    (\<exists>u v. pending (status c u) = Some (Wait_read p) \<and> pending (status c v) = Some (Wait_write p))"
proof -
  have "reach (crud_obj (rw_calls ps)) True T (crud_setup ps) Holds_nothing c"
    using assms(2) reach_mono [of "crud_obj (rw_calls ps)" T "crud_setup ps" Holds_nothing c True] by (cases sp) auto
  from crud_rw_gate.reachable_inv [OF assms(1) this] have gate: "rw_awake T (ghost c) (status c) p"
    using assms(3) by (simp add: rw_gate_def)
  have "waits_at p (status c t)" "is_blocked (status c t)" using assms(6,7) by (auto simp: waits_at_def)
  then have "(\<exists>u. waits_at p (status c u) \<and> is_woken (status c u)) \<or>
      (\<exists>u v. pending (status c u) = Some (Wait_read p) \<and> pending (status c v) = Some (Wait_write p))"
    using gate assms(4,5) unfolding rw_awake_def by blast
  moreover have "x = Woken (Wait_read p) \<or> x = Woken (Wait_write p)" if "waits_at p x" "is_woken x" for x :: "(crud_cv, crud_wait) thread_status"
    using that by (cases x) (auto simp: waits_at_def)
  ultimately show ?thesis by blast
qed

end
