(* ===== verification/CrudMgrSpec.thy ===== *)
theory CrudMgrSpec
  imports CrudMgrRw
begin

text \<open>
  Creation and deletion in \<open>CrudMgr\<close>: at most one at a time in the whole manager. Then what goes wrong: readers
  and writers that are stuck together, a deletion whose wake-up is lost, the races of the second halves, and the
  overflow of a counter. Last, concrete runs for the theorems on readers and writers.
\<close>

section \<open>Creation and deletion in the whole manager\<close>

lemma crud_node_exit_no_op_lists:
  assumes "crud_node_exit_state p crud_node_no_op s = Some s'" "i \<noteq> 8"
  shows "cm_crud_nodes_list s' i = cm_crud_nodes_list s i"
  using assms by (auto simp: crud_node_exit_state.simps crud_node_enter_state.simps [of p crud_node_no_op] Let_def
      split: option.splits if_splits)

lemma crud_node_enter_lists:
  assumes "crud_node_enter_state p st s = Some s'" "i \<noteq> 8"
  shows "cm_crud_nodes_list s' i = cm_crud_nodes_list s i \<or>
    i = crud_node_state_to_index st \<and> cm_crud_nodes_list s' i = p # cm_crud_nodes_list s i"
  using assms crud_node_exit_no_op_lists [OF _ assms(2), of p _ s']
  by (fastforce simp: crud_node_enter_state.simps [of p st] Let_def split: option.splits if_splits)

lemma crud_node_exit_lists:
  assumes "crud_node_exit_state p st s = Some s'" "i \<noteq> 8"
  shows "cm_crud_nodes_list s' i = cm_crud_nodes_list s i \<or>
    i = crud_node_state_to_index st \<and> cm_crud_nodes_list s' i = remove1 p (cm_crud_nodes_list s i)"
proof -
  have no_op: "cm_crud_nodes_list s1 i = cm_crud_nodes_list s0 i" if "crud_node_enter_state p crud_node_no_op s0 = Some s1" for s0 s1
    using crud_node_enter_lists [OF that assms(2)] assms(2) by auto
  show ?thesis using assms
    by (auto simp: crud_node_exit_state.simps [of p st] Let_def split: option.splits if_splits dest!: no_op)
qed

text \<open>The nodes that are being created or deleted.\<close>

definition changing :: "crud_mgr \<Rightarrow> nat" where
  "changing s = length (cm_crud_nodes_list s (crud_node_state_to_index crud_node_create_in_progress)) +
     length (cm_crud_nodes_list s (crud_node_state_to_index crud_node_delete_in_progress))"

lemma length_remove1_le: "length (remove1 x xs) \<le> length xs"
  by (induction xs) auto

lemma changing_exit: "crud_node_exit_state p st s = Some s' \<Longrightarrow> changing s' \<le> changing s"
  using crud_node_exit_lists [of p st s s' 5] crud_node_exit_lists [of p st s s' 7]
    length_remove1_le [of p "cm_crud_nodes_list s 5"] length_remove1_le [of p "cm_crud_nodes_list s 7"]
  by (auto simp: changing_def)

lemma changing_enter:
  assumes "crud_node_enter_state p st s = Some s'"
  shows "changing s' \<le> changing s \<or>
    (st = crud_node_create_in_progress \<or> st = crud_node_delete_in_progress) \<and> changing s' = changing s + 1"
proof -
  have "crud_node_state_to_index st = 5 \<longleftrightarrow> st = crud_node_delete_in_progress" "crud_node_state_to_index st = 7 \<longleftrightarrow> st = crud_node_create_in_progress"
    by (cases st; simp)+
  then show ?thesis
    using crud_node_enter_lists [OF assms, of 5] crud_node_enter_lists [OF assms, of 7] by (auto simp: changing_def)
qed

fun sect_bound :: "nat \<Rightarrow> crud_sect \<Rightarrow> bool" where
  "sect_bound k (Unlocked s r ss) \<longleftrightarrow> changing s \<le> k"
| "sect_bound k (CvWait s cv w ss) \<longleftrightarrow> changing s \<le> k"
| "sect_bound k Aborted \<longleftrightarrow> True"

lemma sect_bound_entering:
  assumes "changing s \<le> k" "st \<noteq> crud_node_create_in_progress" "st \<noteq> crud_node_delete_in_progress"
    and "\<And>s1. changing s1 \<le> k \<Longrightarrow> sect_bound k (f s1)"
  shows "sect_bound k (entering p st s f)"
  using assms changing_enter [of p st s] by (fastforce simp: entering_def split: option.splits)

lemma sect_bound_exiting:
  assumes "changing s \<le> k" "\<And>s1. changing s1 \<le> k \<Longrightarrow> sect_bound k (f s1)"
  shows "sect_bound k (exiting p st s f)"
  using assms changing_exit [of p st s] by (fastforce simp: exiting_def split: option.splits)

lemma sect_bound_entering_change:
  assumes "changing s = 0" "\<And>s1. changing s1 \<le> 1 \<Longrightarrow> sect_bound 1 (f s1)"
  shows "sect_bound 1 (entering p st s f)"
  using assms changing_enter [of p st s] by (fastforce simp: entering_def split: option.splits)

lemma sect_bound_with_node: "(\<And>n. sect_bound k (f n)) \<Longrightarrow> sect_bound k (with_node p s f)"
  by (simp add: with_node_def split: option.splits)

lemma sect_bound_check: "sect_bound k x \<Longrightarrow> sect_bound k (check b x)"
  by (simp add: check_def)

lemmas sect_bound_intros = sect_bound_entering sect_bound_exiting sect_bound_with_node sect_bound_check

lemma crud_loops_bound:
  assumes "changing s \<le> k"
  shows "sect_bound k (crud_read_loop p s)" "sect_bound k (crud_write_loop p s)" "sect_bound k (crud_delete_loop p s)"
  unfolding crud_read_loop_def crud_write_loop_def crud_delete_loop_def
  using assms by (auto intro!: sect_bound_intros split: if_splits)

lemma crud_create_bound:
  assumes "changing s \<le> 1"
  shows "sect_bound 1 (crud_request_create p s)"
proof (cases "changing s = 0")
  case True
  then show ?thesis by (auto simp: crud_request_create_def changing_def simp del: One_nat_def intro!: sect_bound_entering_change)
next
  case False
  then show ?thesis using assms by (auto simp: crud_request_create_def changing_def simp del: One_nat_def intro!: sect_bound_entering)
qed

lemma crud_delete_second_bound:
  assumes "changing s \<le> 1"
  shows "sect_bound 1 (crud_delete_second p s)"
proof (cases "changing s = 0")
  case True
  have "sect_bound 1 (entering p crud_node_delete_in_progress s1 (\<lambda>s2. Unlocked s2 (Crud_granted CRUD_DELETE p) []))"
    if "crud_node_exit_state p crud_node_pending_delete s = Some s1" for s1
    using changing_exit [OF that] True by (intro sect_bound_entering_change) simp_all
  then show ?thesis using True by (auto simp: crud_delete_second_def changing_def exiting_def simp del: One_nat_def split: option.splits)
next
  case False
  then show ?thesis using assms by (auto simp: crud_delete_second_def changing_def simp del: One_nat_def intro!: sect_bound_entering)
qed

lemma crud_release_bound:
  assumes "changing s \<le> k"
  shows "sect_bound k (crud_request_release p s)" "sect_bound k (crud_release_second p s)"
  unfolding crud_request_release_def crud_release_create_delete_def crud_release_read_def crud_release_write_def crud_release_second_def
  using assms by (auto intro!: sect_bound_intros split: crud_op_type.splits if_splits)

lemma crud_sections_bound:
  assumes "changing s \<le> 1"
  shows "sect_bound 1 (crud_enter t op s)" "sect_bound 1 (crud_resume t k s)"
proof -
  show "sect_bound 1 (crud_enter t op s)"
    by (cases op) (auto simp: assms crud_request_read_def crud_request_write_def crud_request_delete_def
        simp del: One_nat_def intro!: sect_bound_with_node crud_loops_bound crud_create_bound crud_delete_second_bound crud_release_bound)
  show "sect_bound 1 (crud_resume t k s)"
    by (cases k) (auto simp: assms crud_read_resume_def crud_write_resume_def crud_create_resume_def crud_delete_resume_def
        crud_delete_second_resume_def simp del: One_nat_def intro!: sect_bound_exiting crud_loops_bound crud_create_bound crud_delete_second_bound)
qed

lemma finish_bound:
  assumes "finish ob t sec c d" "sect_bound k sec" "changing (shared c) \<le> k"
  shows "changing (shared d) \<le> k"
  using assms by (cases sec) auto

lemma crud_setup_changing: "changing s = 0 \<Longrightarrow> crud_nodes_init ps s = Some s' \<Longrightarrow> changing s' = 0"
proof (induction ps arbitrary: s)
  case (Cons p ps)
  then obtain s1 where s1: "crud_node_init p s = Some s1" "crud_nodes_init ps s1 = Some s'" by (auto split: option.splits)
  have "changing s1 = 0"
    using s1(1) Cons.prems(1) changing_enter [of p crud_node_no_op]
    by (fastforce simp: crud_node_init_def crud_node_get_unique_id_def Let_def changing_def put_node_def split: option.splits)
  then show ?case using Cons.IH s1(2) by blast
qed simp

text \<open>Whatever the threads request, of whatever nodes, at most one node of the manager is being created or
  deleted at any time.\<close>

theorem crud_create_delete_exclusive:
  assumes "distinct ps" "0 \<notin> set ps" "reach (crud_obj allow) sp T (crud_setup ps) Holds_nothing c"
  shows "length (cm_crud_nodes_list (shared c) (crud_node_state_to_index crud_node_create_in_progress)) +
    length (cm_crud_nodes_list (shared c) (crud_node_state_to_index crud_node_delete_in_progress)) \<le> 1"
proof -
  have start0: "changing (crud_setup ps) = 0"
    using crud_nodes_init_is [of ps "crud_mgr_init crud_memory"] assms(1,2) crud_setup_changing [of "crud_mgr_init crud_memory" ps]
    by (auto simp: crud_setup_def crud_mgr_init_def changing_def)
  from assms(3) have "changing (shared c) \<le> 1"
  proof (induction rule: reach.induct)
    case (reach_step c d)
    then have c: "changing (shared c) \<le> 1" by simp
    from reach_step.hyps(2) show ?case
    proof cases
      case (call t op)
      then show ?thesis using finish_bound [OF call(5)] crud_sections_bound [OF c] c by simp
    next
      case (return_from_wait t k)
      then show ?thesis using finish_bound [OF return_from_wait(4)] crud_sections_bound [OF c] c by simp
    next
      case (spurious t)
      then show ?thesis using c by simp
    qed
  qed (simp add: start_def start0)
  then show ?thesis by (simp add: changing_def)
qed

section \<open>What goes wrong\<close>

text \<open>Concrete runs.\<close>

lemma crud_demo:
  assumes "map_option g (execute (crud_obj allow) False ts es (start (crud_setup ps) Holds_nothing)) = Some v"
  obtains c where "reach (crud_obj allow) False (set ts) (crud_setup ps) Holds_nothing c" "g c = v"
proof -
  obtain c where c: "execute (crud_obj allow) False ts es (start (crud_setup ps) Holds_nothing) = Some c" "g c = v"
    using assms unfolding map_option_eq_Some by blast
  show thesis by (rule that [OF execute_reach [OF c(1)] c(2)])
qed

definition crud_view :: "tid list \<Rightarrow> (crud_mgr, crud_held, crud_wait, crud_cv) config \<Rightarrow>
  (crud_held \<times> (crud_cv, crud_wait) thread_status) list \<times> bool" where
  "crud_view ts c = (map (\<lambda>t. (ghost c t, status c t)) ts, aborted c)"

text \<open>Threads that do not take part.\<close>

lemma reach_outside:
  assumes "reach ob sp T s0 g0 c" "t \<notin> T"
  shows "status c t = Running \<and> ghost c t = g0"
  using assms(1)
proof (induction rule: reach.induct)
  case (reach_step c d)
  have fin: "status d t = Running \<and> ghost d t = g0" if "finish ob u sec c d" "u \<in> T" for u sec
    using that assms(2) reach_step.IH by (cases sec) (auto simp: wakes_running)
  from reach_step.hyps(2) show ?case by cases (use fin reach_step.IH assms(2) in auto)
qed (simp add: start_def)

text \<open>A reader and a writer that wait for the same writer: its release wakes the reader, which waits again
  because a writer waits; both wait for ever, nobody uses the node, and no thread has been woken.\<close>

theorem crud_rw_stuck:
  "\<exists>c. reach (crud_obj (rw_calls [1])) False {1, 2, 3} (crud_setup [1]) Holds_nothing c \<and>
    ghost c 1 = Holds_nothing \<and> ghost c 2 = Holds_nothing \<and> ghost c 3 = Holds_nothing \<and>
    status c 1 = Running \<and> status c 2 = Blocked (rdrs_cv 1) (Wait_read 1) \<and> status c 3 = Blocked (writers_cv 1) (Wait_write 1)"
proof -
  have "map_option (crud_view [1, 2, 3]) (execute (crud_obj (rw_calls [1])) False [1, 2, 3]
      [Call 1 (Request_write 1) [], Call 2 (Request_read 1) [], Call 3 (Request_write 1) [], Call 1 (Release 1) [], Continue 2 []]
      (start (crud_setup [1]) Holds_nothing)) =
    Some ([(Holds_nothing, Running), (Holds_nothing, Blocked (rdrs_cv 1) (Wait_read 1)),
      (Holds_nothing, Blocked (writers_cv 1) (Wait_write 1))], False)" by code_simp
  then obtain c where c: "reach (crud_obj (rw_calls [1])) False (set [1, 2, 3]) (crud_setup [1]) Holds_nothing c"
    "crud_view [1, 2, 3] c = ([(Holds_nothing, Running), (Holds_nothing, Blocked (rdrs_cv 1) (Wait_read 1)),
      (Holds_nothing, Blocked (writers_cv 1) (Wait_write 1))], False)"
    by (rule crud_demo)
  then show ?thesis by (intro exI [of _ c]) (simp add: crud_view_def)
qed

text \<open>The calls on one node but creations.\<close>

fun node_calls :: "addr \<Rightarrow> crud_call \<Rightarrow> bool" where
  "node_calls p (Request_create q) \<longleftrightarrow> False"
| "node_calls p (Request_read q) \<longleftrightarrow> q = p" | "node_calls p (Request_write q) \<longleftrightarrow> q = p"
| "node_calls p (Request_delete q) \<longleftrightarrow> q = p" | "node_calls p (Delete_second q) \<longleftrightarrow> q = p"
| "node_calls p (Release q) \<longleftrightarrow> q = p" | "node_calls p (Release_second q) \<longleftrightarrow> q = p"

text \<open>A deletion that is requested while the node is read waits on \<^verbatim>\<open>rdrs_cv\<close>, and the last
  reader signals \<^verbatim>\<open>delete_thread_cv\<close>: without spurious wake-ups the deleting thread never runs
  again, every later request to read, write or delete is rejected, and nothing ever changes.\<close>

theorem crud_delete_lost:
  "\<exists>c. reach (crud_obj (node_calls 1)) False {1, 2} (crud_setup [1]) Holds_nothing c \<and>
    status c = (\<lambda>t. Running)(2 := Blocked (rdrs_cv 1) (Wait_delete 1)) \<and> ghost c = (\<lambda>t. Holds_nothing) \<and>
    (\<forall>t. crud_enter t (Request_read 1) (shared c) = Unlocked (shared c) Crud_rejected [] \<and>
         crud_enter t (Request_write 1) (shared c) = Unlocked (shared c) Crud_rejected [] \<and>
         crud_enter t (Request_delete 1) (shared c) = Unlocked (shared c) Crud_rejected []) \<and>
    {d. \<exists>T. step (crud_obj (node_calls 1)) False T c d} \<subseteq> {c}"
proof -
  let ?run = "execute (crud_obj (node_calls 1)) False [1, 2]
    [Call 1 (Request_read 1) [], Call 2 (Request_delete 1) [], Call 1 (Release 1) []] (start (crud_setup [1]) Holds_nothing)"
  have "map_option (\<lambda>c. (crud_view [1, 2] c, map_option crud_rejects (node_at 1 (shared c)))) ?run =
    Some (([(Holds_nothing, Running), (Holds_nothing, Blocked (rdrs_cv 1) (Wait_delete 1))], False), Some True)" by code_simp
  then obtain c where c: "?run = Some c" "crud_view [1, 2] c = ([(Holds_nothing, Running), (Holds_nothing, Blocked (rdrs_cv 1) (Wait_delete 1))], False)"
    "map_option crud_rejects (node_at 1 (shared c)) = Some True"
    unfolding map_option_eq_Some by blast
  obtain n where n: "node_at 1 (shared c) = Some n" "crud_rejects n" using c(3) by auto
  have reach: "reach (crud_obj (node_calls 1)) False {1, 2} (crud_setup [1]) Holds_nothing c" using execute_reach [OF c(1)] by simp
  have outside: "status c t = Running \<and> ghost c t = Holds_nothing" if "t \<notin> {1, 2}" for t
    using reach that by (rule reach_outside)
  have st: "status c 1 = Running" "status c 2 = Blocked (rdrs_cv 1) (Wait_delete 1)" "ghost c 1 = Holds_nothing" "ghost c 2 = Holds_nothing"
    using c(2) by (simp_all add: crud_view_def)
  have run: "status c t = Running" if "t \<noteq> 2" for t using outside [of t] st(1) that by (cases "t = 1") auto
  have held: "ghost c t = Holds_nothing" for t using outside [of t] st(3,4) by (cases "t = 1"; cases "t = 2") auto
  have reject: "crud_enter t op (shared c) = Unlocked (shared c) Crud_rejected []"
    if "op \<in> {Request_read 1, Request_write 1, Request_delete 1}" for t op
    using that n by (auto simp: crud_request_read_def crud_request_write_def crud_request_delete_def with_node_def)
  have same: "d = c" if "step (crud_obj (node_calls 1)) False T c d" for T d
    using that
  proof cases
    case (call t op)
    then have "op \<in> {Request_read 1, Request_write 1, Request_delete 1}" using held [of t] by (cases op) auto
    then have "finish (crud_obj (node_calls 1)) t (Unlocked (shared c) Crud_rejected []) c d" using call(5) reject [of op t] by simp
    moreover have "(ghost c)(t := Holds_nothing) = ghost c" "(status c)(t := Running) = status c" using held [of t] call(3) by auto
    ultimately show ?thesis by simp
  next
    case (return_from_wait t k)
    then show ?thesis using run [of t] st(2) by (cases "t = 2") auto
  qed simp
  have "status c = (\<lambda>t. Running)(2 := Blocked (rdrs_cv 1) (Wait_delete 1))" "ghost c = (\<lambda>t. Holds_nothing)"
    using run st(2) held by auto
  moreover have "\<forall>t. crud_enter t (Request_read 1) (shared c) = Unlocked (shared c) Crud_rejected [] \<and>
      crud_enter t (Request_write 1) (shared c) = Unlocked (shared c) Crud_rejected [] \<and>
      crud_enter t (Request_delete 1) (shared c) = Unlocked (shared c) Crud_rejected []" using reject by blast
  moreover have "{d. \<exists>T. step (crud_obj (node_calls 1)) False T c d} \<subseteq> {c}" using same by blast
  ultimately show ?thesis using reach by blast
qed

text \<open>Between the two halves of the release of a created or deleted node the manager is free, and another
  thread may begin to create or delete: then the assertion of the second half fails.\<close>

theorem crud_release_race:
  "\<exists>c. reach (crud_obj (\<lambda>_. True)) False {1, 2} (crud_setup [1, 2]) Holds_nothing c \<and> aborted c"
proof -
  have "map_option aborted (execute (crud_obj (\<lambda>_. True)) False [1, 2]
      [Call 1 (Request_create 1) [], Call 1 (Release 1) [], Call 2 (Request_create 2) [], Call 1 (Release_second 1) []]
      (start (crud_setup [1, 2]) Holds_nothing)) = Some True" by code_simp
  then obtain c where c: "reach (crud_obj (\<lambda>_. True)) False (set [1, 2]) (crud_setup [1, 2]) Holds_nothing c" "aborted c"
    by (rule crud_demo) simp
  then show ?thesis by (intro exI [of _ c]) simp
qed

text \<open>The second half of a deletion does not hold the mutex of the node. Between the two changes of state
  it makes, the node shows no operation: a request to read or to write that looks at the node then is
  granted, and the deletion is granted too.\<close>

theorem crud_delete_gap:
  assumes "node_is p (no_counts(crud_node_pending_delete := 1)) CRUD_OP_NONE s"
  shows "\<exists>s1. crud_node_exit_state p crud_node_pending_delete s = Some s1 \<and>
    (\<exists>s2 s3 n. crud_request_read p s1 = Unlocked s2 (Crud_granted CRUD_READ p) [] \<and>
       crud_node_enter_state p crud_node_delete_in_progress s2 = Some s3 \<and> node_at p s3 = Some n \<and>
       crud_node_is_status_set n crud_node_read_in_progress \<and> crud_node_is_status_set n crud_node_delete_in_progress \<and>
       cn_curr_op n = CRUD_DELETE) \<and>
    (\<exists>s2. crud_request_write p s1 = Unlocked s2 (Crud_granted CRUD_WRITE p) [])"
proof -
  have upd: "no_counts(crud_node_pending_delete := 0) = no_counts" by (auto simp: no_counts_def)
  obtain s1 where s1: "crud_node_exit_state p crud_node_pending_delete s = Some s1" "node_is p no_counts CRUD_OP_NONE s1"
    using crud_node_exit_is [OF assms, of crud_node_pending_delete] by (auto simp: upd no_counts_at)
  have "rw_counts 0 0 0 0 = no_counts" by (auto simp: rw_counts_def no_counts_def split: crud_node_state.splits)
  then have node: "rw_node p 0 0 0 0 s1" using s1(2) by (simp add: rw_node_def rw_op_def)
  obtain s2 where s2: "crud_request_read p s1 = Unlocked s2 (Crud_granted CRUD_READ p) []" "rw_node p 0 1 0 0 s2"
    using crud_read_loop_rw [OF node] by (auto simp: crud_request_rw(1) [OF node])
  obtain s3 where s3: "crud_node_enter_state p crud_node_delete_in_progress s2 = Some s3"
    "node_is p ((rw_counts 0 1 0 0)(crud_node_delete_in_progress := 1)) CRUD_DELETE s3"
    using crud_node_enter_is [of p "rw_counts 0 1 0 0" "rw_op 1 0" s2 crud_node_delete_in_progress] s2(2)
    by (auto simp: rw_node_def op_entered_def)
  obtain n where n: "node_at p s3 = Some n" "cn_curr_op n = CRUD_DELETE"
    "\<And>st. crud_node_is_status_set n st \<longleftrightarrow> full_counts ((rw_counts 0 1 0 0)(crud_node_delete_in_progress := 1)) st \<noteq> 0"
    using s3(2) by (auto simp: node_is_def shows_counts_def)
  obtain s2' where "crud_request_write p s1 = Unlocked s2' (Crud_granted CRUD_WRITE p) []"
    using crud_write_loop_rw [OF node] by (auto simp: crud_request_rw(2) [OF node])
  then show ?thesis using s1(1) s2(1) s3(1) n by auto
qed

theorem crud_delete_gap_witness:
  "\<exists>s s1 s2. crud_request_delete 1 (crud_setup [1]) = Unlocked s (Crud_submitted 1) [] \<and>
    crud_node_exit_state 1 crud_node_pending_delete s = Some s1 \<and>
    crud_request_read 1 s1 = Unlocked s2 (Crud_granted CRUD_READ 1) []"
proof -
  have init: "node_is 1 no_counts CRUD_OP_NONE (crud_setup [1])" by (rule crud_setup_is) simp_all
  obtain s where s: "crud_node_enter_state 1 crud_node_pending_delete (crud_setup [1]) = Some s"
    "node_is 1 (no_counts(crud_node_pending_delete := 1)) CRUD_OP_NONE s"
    using crud_node_enter_is [OF init, of crud_node_pending_delete] by (auto simp: no_counts_at op_entered_def)
  obtain n where n: "node_at 1 (crud_setup [1]) = Some n" "shows_counts 1 (full_counts no_counts) n (crud_setup [1])"
    using init by (auto simp: node_is_def)
  have "\<And>st. crud_node_is_status_set n st \<longleftrightarrow> st = crud_node_no_op"
    using n(2) by (auto simp: shows_counts_def full_counts_def no_counts_at)
  moreover have "crud_node_state_verify 1 crud_node_no_op True n (crud_setup [1])"
    using verify_present(1) [OF n(2)] by (simp add: full_counts_def no_counts_at)
  ultimately have "crud_request_delete 1 (crud_setup [1]) = Unlocked s (Crud_submitted 1) []"
    using n(1) s(1) by (simp add: crud_request_delete_def crud_delete_loop_def with_node_def crud_rejects_def check_def entering_def)
  with crud_delete_gap [OF s(2)] show ?thesis by blast
qed

section \<open>Too many readers\<close>

lemma crud_readers_granted:
  assumes "p \<noteq> 0"
  shows "k \<le> 255 \<Longrightarrow> \<exists>c. reach (crud_obj (rw_calls [p])) False {1..256} (crud_setup [p]) Holds_nothing c \<and> \<not> aborted c \<and>
    (\<forall>t. status c t = Running \<and> ghost c t = (if t \<in> {1..k} then Holds CRUD_READ p else Holds_nothing)) \<and>
    rw_node p 0 k 0 0 (shared c)"
proof (induction k)
  case 0
  have "rw_counts 0 0 0 0 = no_counts" by (auto simp: rw_counts_def no_counts_def split: crud_node_state.splits)
  then have "rw_node p 0 0 0 0 (crud_setup [p])" using crud_setup_is [of "[p]" p] assms by (simp add: rw_node_def rw_op_def)
  then show ?case by (intro exI [of _ "start (crud_setup [p]) Holds_nothing"]) (simp add: start_def reach_start [unfolded start_def])
next
  case (Suc k)
  then obtain c where c: "reach (crud_obj (rw_calls [p])) False {1..256} (crud_setup [p]) Holds_nothing c" "\<not> aborted c"
    "\<And>t. status c t = Running" "\<And>t. ghost c t = (if t \<in> {1..k} then Holds CRUD_READ p else Holds_nothing)"
    "rw_node p 0 k 0 0 (shared c)" by auto
  obtain s' where s': "crud_read_loop p (shared c) = Unlocked s' (Crud_granted CRUD_READ p) []" "rw_node p 0 (k + 1) 0 0 s'"
    using crud_read_loop_rw [OF c(5)] Suc.prems by auto
  let ?d = "c\<lparr>shared := s', ghost := (ghost c)(Suc k := Holds CRUD_READ p), status := (status c)(Suc k := Running)\<rparr>"
  have "step (crud_obj (rw_calls [p])) False {1..256} c ?d"
    by (rule step.call [of c "Suc k" _ _ "Request_read p"]) (use c Suc.prems s'(1) in \<open>simp_all add: crud_request_rw(1) [OF c(5)]\<close>)
  then have "reach (crud_obj (rw_calls [p])) False {1..256} (crud_setup [p]) Holds_nothing ?d" using c(1) by (rule reach.reach_step [rotated])
  then show ?case using c(2-4) s'(2) by (intro exI [of _ ?d]) (auto simp: le_Suc_eq)
qed

text \<open>The counter of the readers has eight bits: 256 threads that read a node at the same time bring it
  to 0, and the first of them that releases the node fails an assertion.\<close>

theorem crud_reader_overflow:
  assumes "p \<noteq> 0"
  shows "\<exists>c. reach (crud_obj (rw_calls [p])) False {1..256} (crud_setup [p]) Holds_nothing c \<and>
    (\<forall>t\<in>{1..256}. ghost c t = Holds CRUD_READ p) \<and>
    map_option (\<lambda>n. crud_node_get_state_counter n crud_node_read_in_progress) (node_at p (shared c)) = Some 0 \<and>
    (\<forall>t. crud_enter t (Release p) (shared c) = Aborted)"
proof -
  obtain c where c: "reach (crud_obj (rw_calls [p])) False {1..256} (crud_setup [p]) Holds_nothing c" "\<not> aborted c"
    "\<And>t. status c t = Running" "\<And>t. ghost c t = (if t \<in> {1..255} then Holds CRUD_READ p else Holds_nothing)"
    "rw_node p 0 255 0 0 (shared c)"
    using crud_readers_granted [OF assms, of 255] by auto
  obtain n where n: "node_at p (shared c) = Some n" "shows_counts p (full_counts (rw_counts 0 255 0 0)) n (shared c)" "cn_curr_op n = CRUD_READ"
    using c(5) by (auto simp: rw_node_def node_is_def rw_op_def)
  note at = shows_at [OF n(2), of crud_node_read_in_progress]
  have flags: "crud_node_is_status_set n st \<longleftrightarrow> full_counts (rw_counts 0 255 0 0) st \<noteq> 0" for st using shows_at [OF n(2), of st] by simp
  have "(256 :: u8) = 0" by code_simp
  then have full: "set_counter st 256 n = set_counter st 0 n" for st n by metis
  let ?n = "set_counter crud_node_read_in_progress 0 n" and ?s = "put_node p (set_counter crud_node_read_in_progress 0 n) (shared c)"
  have "crud_node_enter_state p crud_node_read_in_progress (shared c) = Some ?s"
    using n(1) at by (simp add: crud_node_enter_state.simps entered_once_def full)
  then have read: "crud_request_read p (shared c) = Unlocked ?s (Crud_granted CRUD_READ p) []"
    using n(1) by (simp add: crud_request_rw(1) [OF c(5)] crud_read_loop_def with_node_def entering_def flags full_counts_no_op)
  let ?d = "c\<lparr>shared := ?s, ghost := (ghost c)(256 := Holds CRUD_READ p), status := (status c)(256 := Running)\<rparr>"
  have "step (crud_obj (rw_calls [p])) False {1..256} c ?d"
    by (rule step.call [of c 256 _ _ "Request_read p"]) (use c(2,3,4) read in simp_all)
  then have reach: "reach (crud_obj (rw_calls [p])) False {1..256} (crud_setup [p]) Holds_nothing ?d" using c(1) by (rule reach.reach_step [rotated])
  have "crud_node_exit_state p crud_node_read_in_progress ?s = None"
    by (simp add: crud_node_exit_state.simps crud_node_state_verify_def set_counter_def)
  then have "crud_request_release p ?s = Aborted"
    using n(3) by (simp add: crud_request_release_def with_node_def crud_release_read_def exiting_def)
  then show ?thesis using reach c(4) assms by (intro exI [of _ ?d]) auto
qed

theorem crud_reader_overflow_witness:
  "\<exists>c. reach (crud_obj (rw_calls [7])) False {1..256} (crud_setup [7]) Holds_nothing c \<and>
    (\<forall>t\<in>{1..256}. ghost c t = Holds CRUD_READ 7) \<and>
    map_option (\<lambda>n. crud_node_get_state_counter n crud_node_read_in_progress) (node_at 7 (shared c)) = Some 0 \<and>
    (\<forall>t. crud_enter t (Release 7) (shared c) = Aborted)"
  by (rule crud_reader_overflow) simp

section \<open>Concrete runs for the theorems\<close>

theorem crud_rw_exclusion_witness:
  "\<exists>c n. reach (crud_obj (rw_calls [1, 2])) False {1, 2, 3} (crud_setup [1, 2]) Holds_nothing c \<and>
    ghost c 1 = Holds CRUD_WRITE 1 \<and> status c 2 = Blocked (rdrs_cv 1) (Wait_read 1) \<and> ghost c 3 = Holds CRUD_READ 2 \<and>
    \<not> aborted c \<and> crud_writers {1, 2, 3} 1 (ghost c) = 1 \<and> node_at 1 (shared c) = Some n \<and> cn_curr_op n = CRUD_WRITE"
proof -
  have "map_option (\<lambda>c. (ghost c 1, ghost c 2, ghost c 3, status c 2))
      (execute (crud_obj (rw_calls [1, 2])) False [1, 2, 3]
        [Call 1 (Request_write 1) [], Call 2 (Request_read 1) [], Call 3 (Request_read 2) []] (start (crud_setup [1, 2]) Holds_nothing)) =
    Some (Holds CRUD_WRITE 1, Holds_nothing, Holds CRUD_READ 2, Blocked (rdrs_cv 1) (Wait_read 1))" by code_simp
  then obtain c where c: "reach (crud_obj (rw_calls [1, 2])) False (set [1, 2, 3]) (crud_setup [1, 2]) Holds_nothing c"
    "(ghost c 1, ghost c 2, ghost c 3, status c 2) = (Holds CRUD_WRITE 1, Holds_nothing, Holds CRUD_READ 2, Blocked (rdrs_cv 1) (Wait_read 1))"
    by (rule crud_demo)
  then have reach: "reach (crud_obj (rw_calls [1, 2])) False {1, 2, 3} (crud_setup [1, 2]) Holds_nothing c" by simp
  have "rw_valid [1, 2] {1, 2, 3}" by (simp add: rw_valid_def)
  note ex = crud_rw_exclusion [OF this reach, of 1]
  have "crud_writers {1, 2, 3} 1 (ghost c) \<noteq> 0" using rw_counts_drop(4) [of "{1, 2, 3}" 1 "ghost c" 1] c(2) by simp
  then have w: "crud_writers {1, 2, 3} 1 (ghost c) = 1" "crud_readers {1, 2, 3} 1 (ghost c) = 0" using ex by auto
  moreover obtain n where "node_at 1 (shared c) = Some n" "cn_curr_op n = CRUD_WRITE" using ex w by (auto simp: rw_op_def)
  ultimately show ?thesis using reach c(2) ex by auto
qed

theorem crud_rw_wakeups_witness:
  "\<exists>c. reach (crud_obj (rw_calls [1])) False {1, 2, 3} (crud_setup [1]) Holds_nothing c \<and>
    status c 3 = Blocked (writers_cv 1) (Wait_write 1) \<and> ghost c 1 = Holds_nothing \<and>
    ((\<exists>u. status c u = Woken (Wait_read 1) \<or> status c u = Woken (Wait_write 1)) \<or>
     (\<exists>u v. pending (status c u) = Some (Wait_read 1) \<and> pending (status c v) = Some (Wait_write 1)))"
proof -
  have "map_option (\<lambda>c. (ghost c 1, ghost c 2, ghost c 3, status c 3))
      (execute (crud_obj (rw_calls [1])) False [1, 2, 3]
        [Call 1 (Request_write 1) [], Call 2 (Request_write 1) [], Call 3 (Request_write 1) [], Call 1 (Release 1) [2]]
        (start (crud_setup [1]) Holds_nothing)) =
    Some (Holds_nothing, Holds_nothing, Holds_nothing, Blocked (writers_cv 1) (Wait_write 1))" by code_simp
  then obtain c where c: "reach (crud_obj (rw_calls [1])) False (set [1, 2, 3]) (crud_setup [1]) Holds_nothing c"
    "(ghost c 1, ghost c 2, ghost c 3, status c 3) = (Holds_nothing, Holds_nothing, Holds_nothing, Blocked (writers_cv 1) (Wait_write 1))"
    by (rule crud_demo)
  then have reach: "reach (crud_obj (rw_calls [1])) False {1, 2, 3} (crud_setup [1]) Holds_nothing c" by simp
  have v: "rw_valid [1] {1, 2, 3}" by (simp add: rw_valid_def)
  have free: "crud_readers {1, 2, 3} 1 (ghost c) = 0" "crud_writers {1, 2, 3} 1 (ghost c) = 0"
    using c(2) by (auto simp: crud_readers_def crud_writers_def count_threads_eq_0)
  have "status c 3 = Blocked (writers_cv 1) (Wait_write 1)" using c(2) by simp
  from crud_rw_wakeups [OF v reach _ free this] reach c(2) show ?thesis by auto
qed

theorem crud_create_delete_exclusive_witness:
  "\<exists>c. reach (crud_obj (\<lambda>_. True)) False {1, 2} (crud_setup [1, 2]) Holds_nothing c \<and>
    ghost c 1 = Holds CRUD_CREATE 1 \<and> status c 2 = Blocked (create_thread_cv 2) (Wait_create 2) \<and>
    length (cm_crud_nodes_list (shared c) (crud_node_state_to_index crud_node_create_in_progress)) +
      length (cm_crud_nodes_list (shared c) (crud_node_state_to_index crud_node_delete_in_progress)) \<le> 1"
proof -
  have "map_option (\<lambda>c. (ghost c 1, status c 2)) (execute (crud_obj (\<lambda>_. True)) False [1, 2]
      [Call 1 (Request_create 1) [], Call 2 (Request_create 2) []] (start (crud_setup [1, 2]) Holds_nothing)) =
    Some (Holds CRUD_CREATE 1, Blocked (create_thread_cv 2) (Wait_create 2))" by code_simp
  then obtain c where c: "reach (crud_obj (\<lambda>_. True)) False (set [1, 2]) (crud_setup [1, 2]) Holds_nothing c"
    "(ghost c 1, status c 2) = (Holds CRUD_CREATE 1, Blocked (create_thread_cv 2) (Wait_create 2))"
    by (rule crud_demo)
  then have "reach (crud_obj (\<lambda>_. True)) False {1, 2} (crud_setup [1, 2]) Holds_nothing c" by simp
  from crud_create_delete_exclusive [OF _ _ this] this c(2) show ?thesis by auto
qed

end
