(* ===== verification/CrudApp.thy ===== *)
theory CrudApp
  imports CrudMgrRw NfcUtilsSpec
begin

text \<open>
  The application of \<^verbatim>\<open>ThreadSafeCruds/testapp.cpp\<close>: students in a list, each with a node of the
  CRUD manager, and threads that read, write and delete them through the library of \<open>CrudMgr\<close>. A thread
  is a program of points; what it does between two calls of the library are steps of its own, one for
  each access to a student, and its calls are the sections of the library. The state of the library is
  the configuration \<open>ap_lib\<close>, whose executions \<open>CrudMgrRw\<close> speaks of: the properties of the application
  are composed from those of the library.

  A student is freed together with the node inside it: the memory at an address is a student as long as
  the library has a node there. An assertion that fails and an access to a freed student end the
  application (\<open>ap_failed\<close>, or an abort of the library). The lists are linked by \<open>Glthread\<close>; here they
  are the lists it implements.
\<close>

section \<open>Addresses of students\<close>

text \<open>\<^verbatim>\<open>rand\<close> returns a number that is not negative.\<close>

definition getRandomInt :: "nat \<Rightarrow> int \<Rightarrow> int \<Rightarrow> int" where
  "getRandomInt rand lower upper = int rand mod (upper - lower + 1) + lower"

type_synonym ip_bytes = "u8 \<times> u8 \<times> u8 \<times> u8"

definition print_ip_addr :: "ip_bytes \<Rightarrow> string" where
  "print_ip_addr ip_addr = inet_ntop (store_u32 (htonl (load_u32 ip_addr)))"

text \<open>The statements of \<^verbatim>\<open>flip_ip_addr\<close> on \<^verbatim>\<open>temp\<close> and the bytes of the address.\<close>

fun flip_stmt :: "nat \<Rightarrow> u8 \<times> ip_bytes \<Rightarrow> u8 \<times> ip_bytes" where
  "flip_stmt n (temp, b0, b1, b2, b3) =
     (if n = 0 then (b0, b0, b1, b2, b3)
      else if n = 1 then (temp, b3, b1, b2, b3)
      else if n = 2 then (temp, b0, b1, b2, temp)
      else if n = 3 then (b1, b0, b1, b2, b3)
      else if n = 4 then (temp, b0, b2, b2, b3)
      else (temp, b0, b1, temp, b3))"

fun flip_stmts :: "nat \<Rightarrow> u8 \<times> ip_bytes \<Rightarrow> u8 \<times> ip_bytes" where
  "flip_stmts 0 x = x"
| "flip_stmts (Suc n) x = flip_stmt n (flip_stmts n x)"

definition flip_ip_addr :: "ip_bytes \<Rightarrow> ip_bytes" where
  "flip_ip_addr ip_addr = snd (flip_stmts 6 (0, ip_addr))"

section \<open>State\<close>

datatype app_role = Rdr | Writer | Deleter

text \<open>Where a thread is. At \<open>At_request\<close>, \<open>At_second_half\<close>, \<open>At_release\<close> and \<open>At_release_second\<close> it calls
  the library, or is inside that call.\<close>

datatype app_pc =
    At_lookup | At_request addr | At_second_half addr | At_rejected addr | At_assert addr
  | At_print addr | At_flip nat u8 addr | At_print_after addr | At_remove addr
  | At_release addr | At_release_second addr | At_free addr

record crud_app =
  ap_lib :: "(crud_mgr, crud_held, crud_wait, crud_cv) config"
  ap_lst :: "addr list"
  ap_rollno :: "addr \<Rightarrow> int"
  ap_ip :: "addr \<Rightarrow> ip_bytes"
  ap_pc :: "tid \<Rightarrow> app_pc"
  ap_out :: "(addr \<times> string) list"
  ap_failed :: bool

definition stud_lst_add_new_student :: "addr \<Rightarrow> crud_app \<Rightarrow> crud_app" where
  "stud_lst_add_new_student p x = x\<lparr>ap_lst := p # ap_lst x\<rparr>"

fun lookup_from :: "addr list \<Rightarrow> (addr \<Rightarrow> int) \<Rightarrow> int \<Rightarrow> addr option" where
  "lookup_from [] rollno_of rollno = None"
| "lookup_from (p # ps) rollno_of rollno = (if rollno_of p = rollno then Some p else lookup_from ps rollno_of rollno)"

definition stud_lst_lookup_student :: "crud_app \<Rightarrow> int \<Rightarrow> addr option" where
  "stud_lst_lookup_student x rollno = lookup_from (ap_lst x) (ap_rollno x) rollno"

definition remove_student :: "addr \<Rightarrow> crud_app \<Rightarrow> crud_app" where
  "remove_student p x = x\<lparr>ap_lst := remove1 p (ap_lst x)\<rparr>"

definition stud_lst_remove_student :: "int \<Rightarrow> crud_app \<Rightarrow> addr option \<times> crud_app" where
  "stud_lst_remove_student rollno x = (case stud_lst_lookup_student x rollno of
      None \<Rightarrow> (None, x) | Some p \<Rightarrow> (Some p, remove_student p x))"

definition app_lib_obj :: "(crud_mgr, crud_held, crud_call, crud_wait, crud_cv, crud_result) obj" where
  "app_lib_obj = crud_obj (\<lambda>_. True)"

definition stud_at :: "addr \<Rightarrow> crud_app \<Rightarrow> crud_node option" where
  "stud_at p x = node_at p (shared (ap_lib x))"

text \<open>A step that uses the student at \<open>p\<close>.\<close>

definition with_stud :: "addr \<Rightarrow> crud_app \<Rightarrow> (crud_node \<Rightarrow> crud_app) \<Rightarrow> crud_app" where
  "with_stud p x k = (case stud_at p x of None \<Rightarrow> x\<lparr>ap_failed := True\<rparr> | Some n \<Rightarrow> k n)"

definition goto_pc :: "tid \<Rightarrow> app_pc \<Rightarrow> crud_app \<Rightarrow> crud_app" where
  "goto_pc t l x = x\<lparr>ap_pc := (ap_pc x)(t := l)\<rparr>"

definition print_student :: "addr \<Rightarrow> crud_app \<Rightarrow> crud_app" where
  "print_student p x = x\<lparr>ap_out := ap_out x @ [(p, print_ip_addr (ap_ip x p))]\<rparr>"

text \<open>\<^verbatim>\<open>free (stud)\<close>.\<close>

definition free_student :: "addr \<Rightarrow> crud_app \<Rightarrow> crud_app" where
  "free_student p x = (let c = ap_lib x in
     x\<lparr>ap_lib := c\<lparr>shared := (shared c)\<lparr>cm_nodes := (cm_nodes (shared c))(p := None)\<rparr>\<rparr>\<rparr>)"

section \<open>The threads\<close>

text \<open>Reading, writing and deleting: what the request grants, the call it makes and what follows.\<close>

fun role_op :: "app_role \<Rightarrow> crud_op_type" where
  "role_op Rdr = CRUD_READ"
| "role_op Writer = CRUD_WRITE"
| "role_op Deleter = CRUD_DELETE"

fun role_request :: "app_role \<Rightarrow> addr \<Rightarrow> crud_call" where
  "role_request Rdr p = Request_read p"
| "role_request Writer p = Request_write p"
| "role_request Deleter p = Request_delete p"

fun app_call :: "app_role \<Rightarrow> app_pc \<Rightarrow> crud_call option" where
  "app_call r (At_request p) = Some (role_request r p)"
| "app_call r (At_second_half p) = Some (Delete_second p)"
| "app_call r (At_release p) = Some (Release p)"
| "app_call r (At_release_second p) = Some (Release_second p)"
| "app_call r _ = None"

fun app_returns :: "app_role \<Rightarrow> app_pc \<Rightarrow> crud_result \<Rightarrow> app_pc" where
  "app_returns r l (Crud_granted k p) = At_assert p"
| "app_returns r l (Crud_submitted p) = At_second_half p"
| "app_returns r l (Crud_half_released p) = At_release_second p"
| "app_returns r (At_request p) Crud_rejected = At_rejected p"
| "app_returns r (At_release_second p) Crud_released = At_free p"
| "app_returns r l _ = At_lookup"

fun pc_after :: "app_role \<Rightarrow> app_pc \<Rightarrow> crud_sect \<Rightarrow> app_pc" where
  "pc_after r l (Unlocked s res ss) = app_returns r l res"
| "pc_after r l _ = l"

text \<open>The steps outside the library.\<close>

fun app_local :: "app_role \<Rightarrow> tid \<Rightarrow> app_pc \<Rightarrow> crud_app \<Rightarrow> crud_app option" where
  "app_local r t (At_rejected p) x = Some (with_stud p x (\<lambda>n. goto_pc t At_lookup x))"
| "app_local r t (At_assert p) x = Some (with_stud p x (\<lambda>n.
     if cn_curr_op n = role_op r then goto_pc t (if r = Deleter then At_remove p else At_print p) x
     else x\<lparr>ap_failed := True\<rparr>))"
| "app_local r t (At_print p) x = Some (with_stud p x (\<lambda>n.
     goto_pc t (if r = Writer then At_flip 0 0 p else At_release p) (print_student p x)))"
| "app_local r t (At_flip n temp p) x = Some (with_stud p x (\<lambda>_.
     let (temp', ip) = flip_stmt n (temp, ap_ip x p) in
     goto_pc t (if n < 5 then At_flip (n + 1) temp' p else At_print_after p) (x\<lparr>ap_ip := (ap_ip x)(p := ip)\<rparr>)))"
| "app_local r t (At_print_after p) x = Some (with_stud p x (\<lambda>n. goto_pc t (At_release p) (print_student p x)))"
| "app_local r t (At_remove p) x = Some (with_stud p x (\<lambda>n. goto_pc t (At_release p) (remove_student p x)))"
| "app_local r t (At_free p) x = Some (with_stud p x (\<lambda>n. goto_pc t At_lookup (free_student p x)))"
| "app_local r t _ x = None"

definition app_ended :: "crud_app \<Rightarrow> bool" where
  "app_ended x \<longleftrightarrow> ap_failed x \<or> aborted (ap_lib x)"

text \<open>A section of the library by thread \<open>t\<close>, with the library in \<open>d\<close> after it.\<close>

definition after_section :: "(tid \<Rightarrow> app_role) \<Rightarrow> tid \<Rightarrow> crud_sect \<Rightarrow>
  (crud_mgr, crud_held, crud_wait, crud_cv) config \<Rightarrow> crud_app \<Rightarrow> crud_app" where
  "after_section role t sec d x = goto_pc t (pc_after (role t) (ap_pc x t) sec) (x\<lparr>ap_lib := d\<rparr>)"

definition lookup_step :: "tid \<Rightarrow> nat \<Rightarrow> crud_app \<Rightarrow> crud_app" where
  "lookup_step t rand x = (case stud_lst_lookup_student x (getRandomInt rand 1 2) of
      None \<Rightarrow> x | Some p \<Rightarrow> goto_pc t (At_request p) x)"

inductive app_step :: "(tid \<Rightarrow> app_role) \<Rightarrow> bool \<Rightarrow> tid set \<Rightarrow> crud_app \<Rightarrow> crud_app \<Rightarrow> bool" for role sp T where
  look_up: "\<not> app_ended x \<Longrightarrow> t \<in> T \<Longrightarrow> ap_pc x t = At_lookup \<Longrightarrow> app_step role sp T x (lookup_step t rand x)"
| call_library: "\<not> app_ended x \<Longrightarrow> t \<in> T \<Longrightarrow> status (ap_lib x) t = Running \<Longrightarrow> app_call (role t) (ap_pc x t) = Some op \<Longrightarrow>
    sec = crud_enter t op (shared (ap_lib x)) \<Longrightarrow> finish app_lib_obj t sec (ap_lib x) d \<Longrightarrow>
    app_step role sp T x (after_section role t sec d x)"
| leave_wait: "\<not> app_ended x \<Longrightarrow> t \<in> T \<Longrightarrow> status (ap_lib x) t = Woken k \<Longrightarrow>
    sec = crud_resume t k (shared (ap_lib x)) \<Longrightarrow> finish app_lib_obj t sec (ap_lib x) d \<Longrightarrow>
    app_step role sp T x (after_section role t sec d x)"
| wake_up: "sp \<Longrightarrow> \<not> app_ended x \<Longrightarrow> t \<in> T \<Longrightarrow> is_blocked (status (ap_lib x) t) \<Longrightarrow>
    app_step role sp T x (x\<lparr>ap_lib := (ap_lib x)\<lparr>status := (status (ap_lib x))(t := wake (status (ap_lib x) t))\<rparr>\<rparr>)"
| by_itself: "\<not> app_ended x \<Longrightarrow> t \<in> T \<Longrightarrow> status (ap_lib x) t = Running \<Longrightarrow>
    app_local (role t) t (ap_pc x t) x = Some y \<Longrightarrow> app_step role sp T x y"

inductive app_reach :: "(tid \<Rightarrow> app_role) \<Rightarrow> bool \<Rightarrow> tid set \<Rightarrow> crud_app \<Rightarrow> crud_app \<Rightarrow> bool" for role sp T x0 where
  app_reach_start: "app_reach role sp T x0 x0"
| app_reach_step: "app_reach role sp T x0 x \<Longrightarrow> app_step role sp T x y \<Longrightarrow> app_reach role sp T x0 y"

section \<open>The main program\<close>

text \<open>A manager and an empty list.\<close>

definition stud_lst_get_new_lst :: crud_app where
  "stud_lst_get_new_lst = \<lparr>ap_lib = start (crud_mgr_init crud_memory) Holds_nothing, ap_lst = [], ap_rollno = (\<lambda>_. 0),
     ap_ip = (\<lambda>_. (0, 0, 0, 0)), ap_pc = (\<lambda>_. At_lookup), ap_out = [], ap_failed = False\<rparr>"

definition stud_get_new_object :: "addr \<Rightarrow> crud_app \<Rightarrow> crud_app option" where
  "stud_get_new_object p x = map_option (\<lambda>s. x\<lparr>ap_lib := (ap_lib x)\<lparr>shared := s\<rparr>\<rparr>) (crud_node_init p (shared (ap_lib x)))"

text \<open>New students with their roll numbers and addresses; the memory \<^verbatim>\<open>calloc\<close> returns is given.\<close>

fun new_students :: "(addr \<times> int \<times> u32) list \<Rightarrow> crud_app \<Rightarrow> crud_app option" where
  "new_students [] x = Some x"
| "new_students ((p, rollno, ip) # xs) x = (case stud_get_new_object p x of None \<Rightarrow> None
     | Some y \<Rightarrow> new_students xs (stud_lst_add_new_student p
         (y\<lparr>ap_rollno := (ap_rollno y)(p := rollno), ap_ip := (ap_ip y)(p := store_u32 ip)\<rparr>)))"

definition main_students :: "addr list \<Rightarrow> (addr \<times> int \<times> u32) list" where
  "main_students ps = zip ps [(1, 16909060), (2, 84281096), (3, 185339150), (4, 252711186), (5, 353769240), (6, 421141276)]"

definition app_main :: "addr list \<Rightarrow> crud_app" where
  "app_main ps = the (new_students (main_students ps) stud_lst_get_new_lst)"

end
