(* ===== verification/CrudAppSpec.thy ===== *)
theory CrudAppSpec
  imports CrudApp
begin

text \<open>
  What the threads of \<open>CrudApp\<close> rely on the library for: up to the first request for a deletion the execution
  of the application is an execution of the library by readers and writers, so exclusion at a node holds, and
  with it no assertion of the application fails and every address printed is whole. What a deletion breaks.
\<close>

section \<open>Addresses\<close>

lemma getRandomInt_range: "lower \<le> upper \<Longrightarrow> lower \<le> getRandomInt rand lower upper \<and> getRandomInt rand lower upper \<le> upper"
  using pos_mod_bound [of "upper - lower + 1" "int rand"] by (simp add: getRandomInt_def)

lemma flip_stmts_6: "flip_stmts 6 (temp, ip) = (fst (flip_stmts 6 (0, ip)), flip_ip_addr ip)"
  by (cases ip) (simp add: flip_ip_addr_def eval_nat_numeral)

lemma flip_ip_addr_reverses: "flip_ip_addr (a, b, c, d) = (d, c, b, a)"
  by (simp add: flip_ip_addr_def eval_nat_numeral)

lemma flip_flip: "flip_ip_addr (flip_ip_addr ip) = ip"
  by (cases ip) (simp add: flip_ip_addr_reverses)

text \<open>The address of a student at rest.\<close>

definition whole :: "ip_bytes \<Rightarrow> ip_bytes \<Rightarrow> bool" where
  "whole ip0 ip \<longleftrightarrow> ip = ip0 \<or> ip = flip_ip_addr ip0"

lemma whole_flip: "whole ip0 ip \<Longrightarrow> whole ip0 (flip_ip_addr ip)"
  by (auto simp: whole_def flip_flip)

definition whole_line :: "ip_bytes \<Rightarrow> string \<Rightarrow> bool" where
  "whole_line ip0 str \<longleftrightarrow> str = print_ip_addr ip0 \<or> str = print_ip_addr (flip_ip_addr ip0)"

lemma whole_line_print: "whole ip0 ip \<Longrightarrow> whole_line ip0 (print_ip_addr ip)"
  by (auto simp: whole_def whole_line_def)

text \<open>A flip under way: \<open>n\<close> of its statements are done.\<close>

definition half_flipped :: "ip_bytes \<Rightarrow> nat \<Rightarrow> u8 \<Rightarrow> ip_bytes \<Rightarrow> bool" where
  "half_flipped ip0 n temp ip \<longleftrightarrow> n < 6 \<and> (\<exists>temp0 v. whole ip0 v \<and> (temp, ip) = flip_stmts n (temp0, v))"

lemma half_flipped_start: "whole ip0 ip \<Longrightarrow> half_flipped ip0 0 temp ip"
  unfolding half_flipped_def by (intro conjI exI [of _ temp] exI [of _ ip]) auto

lemma half_flipped_step:
  assumes "half_flipped ip0 n temp ip" "flip_stmt n (temp, ip) = (temp', ip')"
  shows "if n < 5 then half_flipped ip0 (n + 1) temp' ip' else whole ip0 ip'"
proof -
  obtain temp0 v where v: "whole ip0 v" "(temp, ip) = flip_stmts n (temp0, v)" "n < 6" using assms(1) by (auto simp: half_flipped_def)
  then have eq: "(temp', ip') = flip_stmts (n + 1) (temp0, v)" using assms(2) by simp
  show ?thesis
  proof (cases "n < 5")
    case True
    have "half_flipped ip0 (n + 1) temp' ip'" unfolding half_flipped_def
      using v(1) eq True by (intro conjI exI [of _ temp0] exI [of _ v]) simp_all
    then show ?thesis using True by simp
  next
    case False
    then have "n + 1 = 6" using v(3) by simp
    then have "ip' = flip_ip_addr v" using eq flip_stmts_6 [of temp0 v] by (simp del: flip_stmts.simps)
    then show ?thesis using False whole_flip [OF v(1)] by simp
  qed
qed

section \<open>What readers and writers get from the library\<close>

definition grants_or_waits :: "crud_op_type \<Rightarrow> addr \<Rightarrow> crud_wait \<Rightarrow> crud_sect \<Rightarrow> bool" where
  "grants_or_waits k p w sec \<longleftrightarrow>
     (\<exists>s ss. sec = Unlocked s (Crud_granted k p) ss) \<or> (\<exists>s cv ss. sec = CvWait s cv w ss)"

fun role_wait :: "app_role \<Rightarrow> addr \<Rightarrow> crud_wait" where
  "role_wait Rdr p = Wait_read p"
| "role_wait Writer p = Wait_write p"
| "role_wait Deleter p = Wait_delete p"

lemma rw_limits:
  assumes "rw_valid ps T" "rw_inv ps T s g w" "t \<in> T" "p \<in> set ps" "g t = Holds_nothing"
  shows "w t = None \<Longrightarrow> pending_readers T p w < 255 \<and> pending_writers T p w < 255"
    and "w t = Some (Wait_read p) \<Longrightarrow> pending_readers T p w - 1 < 255 \<and> pending_readers T p w \<noteq> 0"
    and "w t = Some (Wait_write p) \<Longrightarrow> pending_writers T p w - 1 < 255 \<and> pending_writers T p w \<noteq> 0"
    and "crud_readers T p g < 255"
proof -
  have fin: "finite T" "card T < 256" using assms(1) by (auto simp: rw_valid_def)
  show "pending_readers T p w < 255 \<and> pending_writers T p w < 255" if "w t = None"
    using rw_counts_less(2,3) [OF fin(1) assms(3), of w p] fin(2) that by simp
  show "pending_readers T p w - 1 < 255 \<and> pending_readers T p w \<noteq> 0" if "w t = Some (Wait_read p)"
    using waiters_le [OF fin(1), of "\<lambda>k. k = Wait_read p" w] rw_counts_drop(6) [of T t w p] fin that assms(3)
    by (auto simp: pending_readers_def)
  show "pending_writers T p w - 1 < 255 \<and> pending_writers T p w \<noteq> 0" if "w t = Some (Wait_write p)"
    using waiters_le [OF fin(1), of "\<lambda>k. k = Wait_write p" w] rw_counts_drop(8) [of T t w p] fin that assms(3)
    by (auto simp: pending_writers_def)
  show "crud_readers T p g < 255" using rw_counts_less(1) [OF fin(1) assms(3), of g p] assms(5) fin(2) by simp
qed

lemma read_loop_outcome:
  assumes "rw_node p pr r pw w s" "pr < 255" "r < 255"
  shows "grants_or_waits CRUD_READ p (Wait_read p) (crud_read_loop p s)"
  using crud_read_loop_rw [OF assms] by (auto simp: grants_or_waits_def split: if_splits)

lemma write_loop_outcome:
  assumes "rw_node p pr r pw w s" "pw < 255"
  shows "grants_or_waits CRUD_WRITE p (Wait_write p) (crud_write_loop p s)"
  using crud_write_loop_rw [OF assms] by (auto simp: grants_or_waits_def split: if_splits)

lemma request_outcome:
  assumes inv: "rw_valid ps T" "rw_inv ps T s g w" and t: "t \<in> T" "p \<in> set ps" "g t = Holds_nothing" "w t = None" and r: "r \<noteq> Deleter"
  shows "grants_or_waits (role_op r) p (role_wait r p) (crud_enter t (role_request r p) s)"
proof -
  have node: "rw_node p (pending_readers T p w) (crud_readers T p g) (pending_writers T p w) (crud_writers T p g) s"
    using inv(2) t(2) by (simp add: rw_inv_def rw_at_def)
  note lim = rw_limits [OF inv t(1-3)]
  show ?thesis using read_loop_outcome [OF node] write_loop_outcome [OF node] lim(1) [OF t(4)] lim(4) r
    by (cases r) (simp_all add: crud_request_rw [OF node])
qed

lemma resume_outcome:
  assumes inv: "rw_valid ps T" "rw_inv ps T s g w" and t: "t \<in> T" "p \<in> set ps" "g t = Holds_nothing"
    and w: "w t = Some (role_wait r p)" and r: "r \<noteq> Deleter"
  shows "grants_or_waits (role_op r) p (role_wait r p) (crud_resume t (role_wait r p) s)"
proof -
  have node: "rw_node p (pending_readers T p w) (crud_readers T p g) (pending_writers T p w) (crud_writers T p g) s"
    using inv(2) t(2) by (simp add: rw_inv_def rw_at_def)
  note lim = rw_limits [OF inv t(1-3)]
  show ?thesis
  proof (cases r)
    case Rdr
    with crud_resume_rw(1) [OF node] lim(2) w obtain s1 where "crud_read_resume p s = crud_read_loop p s1"
      "rw_node p (pending_readers T p w - 1) (crud_readers T p g) (pending_writers T p w) (crud_writers T p g) s1" by auto
    then show ?thesis using read_loop_outcome [of p _ _ _ _ s1] lim(2,4) w Rdr by simp
  next
    case Writer
    with crud_resume_rw(2) [OF node] lim(3) w obtain s1 where "crud_write_resume p s = crud_write_loop p s1"
      "rw_node p (pending_readers T p w) (crud_readers T p g) (pending_writers T p w - 1) (crud_writers T p g) s1" by auto
    then show ?thesis using write_loop_outcome [of p _ _ _ _ s1] lim(3) w Writer by simp
  qed (use r in simp)
qed

text \<open>Exclusion, thread by thread.\<close>

lemma rw_exclusive:
  assumes "rw_valid ps T" "rw_inv ps T s g w" "p \<in> set ps" "t \<in> T" "u \<in> T"
    and "g t = Holds CRUD_WRITE p" "g u = Holds k p" "k = CRUD_READ \<or> k = CRUD_WRITE"
  shows "u = t"
proof (rule ccontr)
  assume "u \<noteq> t"
  have fin: "finite T" using assms(1) by (simp add: rw_valid_def)
  have node: "crud_writers T p g = 0 \<or> crud_writers T p g = 1 \<and> crud_readers T p g = 0"
    using assms(2,3) by (auto simp: rw_inv_def rw_at_def rw_node_def)
  have t: "crud_writers T p g \<noteq> 0" using rw_counts_drop(4) [of T t g p] fin assms(4,6) by simp
  show False
  proof (cases "k = CRUD_READ")
    case True
    then show False using rw_counts_drop(2) [of T u g p] fin assms(5,7) node t by simp
  next
    case False
    then have "{t, u} \<subseteq> {x \<in> T. g x = Holds CRUD_WRITE p}" using assms(4-8) by auto
    from card_mono [OF _ this] have "2 \<le> crud_writers T p g"
      using fin \<open>u \<noteq> t\<close> by (simp add: crud_writers_def count_threads_def)
    then show False using node by simp
  qed
qed

lemma granted_op:
  assumes "rw_valid ps T" "rw_inv ps T s g w" "p \<in> set ps" "t \<in> T" "g t = Holds k p" "k = CRUD_READ \<or> k = CRUD_WRITE"
  shows "\<exists>n. node_at p s = Some n \<and> cn_curr_op n = k"
proof -
  have fin: "finite T" using assms(1) by (simp add: rw_valid_def)
  have node: "rw_node p (pending_readers T p w) (crud_readers T p g) (pending_writers T p w) (crud_writers T p g) s"
    using assms(2,3) by (auto simp: rw_inv_def rw_at_def)
  then have ex: "crud_writers T p g = 0 \<or> crud_writers T p g = 1 \<and> crud_readers T p g = 0" by (simp add: rw_node_def)
  obtain n where n: "node_at p s = Some n" "cn_curr_op n = rw_op (crud_readers T p g) (crud_writers T p g)"
    by (rule rw_node_flags [OF node]) blast
  have "rw_op (crud_readers T p g) (crud_writers T p g) = k"
    using assms(4-6) rw_counts_drop(2,4) [of T t g p] fin ex by (auto simp: rw_op_def)
  with n show ?thesis by simp
qed

section \<open>The invariant before the first deletion\<close>

text \<open>A deleting thread is in the library, or has come back from it.\<close>

definition deleting :: "(tid \<Rightarrow> app_role) \<Rightarrow> tid set \<Rightarrow> crud_app \<Rightarrow> bool" where
  "deleting role T x \<longleftrightarrow> (\<exists>t\<in>T. role t = Deleter \<and> (pending (status (ap_lib x) t) \<noteq> None \<or>
     (case ap_pc x t of At_lookup \<Rightarrow> False | At_request p \<Rightarrow> False | _ \<Rightarrow> True)))"

text \<open>The executions up to, and including, the first step by which a deleting thread requests a deletion.\<close>

inductive app_reach_until :: "(tid \<Rightarrow> app_role) \<Rightarrow> bool \<Rightarrow> tid set \<Rightarrow> crud_app \<Rightarrow> crud_app \<Rightarrow> bool" for role sp T x0 where
  until_start: "app_reach_until role sp T x0 x0"
| until_step: "app_reach_until role sp T x0 x \<Longrightarrow> \<not> deleting role T x \<Longrightarrow> app_step role sp T x y \<Longrightarrow> app_reach_until role sp T x0 y"

text \<open>Without deleting threads these are all executions.\<close>

lemma app_reach_until_all:
  "app_reach role sp T x0 x \<Longrightarrow> \<forall>t\<in>T. role t \<noteq> Deleter \<Longrightarrow> app_reach_until role sp T x0 x"
  by (induction rule: app_reach.induct) (auto simp: deleting_def intro: app_reach_until.intros)

text \<open>Before the first deletion a deleting thread only looks up students.\<close>

fun app_thread :: "addr set \<Rightarrow> app_role \<Rightarrow> app_pc \<Rightarrow> crud_held \<Rightarrow> crud_wait option \<Rightarrow> bool" where
  "app_thread P r At_lookup g w \<longleftrightarrow> g = Holds_nothing \<and> w = None"
| "app_thread P r (At_request p) g w \<longleftrightarrow> p \<in> P \<and> g = Holds_nothing \<and> (w = None \<or> r \<noteq> Deleter \<and> w = Some (role_wait r p))"
| "app_thread P r (At_assert p) g w \<longleftrightarrow> p \<in> P \<and> r \<noteq> Deleter \<and> g = Holds (role_op r) p \<and> w = None"
| "app_thread P r (At_print p) g w \<longleftrightarrow> p \<in> P \<and> r \<noteq> Deleter \<and> g = Holds (role_op r) p \<and> w = None"
| "app_thread P r (At_flip n temp p) g w \<longleftrightarrow> p \<in> P \<and> r = Writer \<and> g = Holds CRUD_WRITE p \<and> w = None"
| "app_thread P r (At_print_after p) g w \<longleftrightarrow> p \<in> P \<and> r = Writer \<and> g = Holds CRUD_WRITE p \<and> w = None"
| "app_thread P r (At_release p) g w \<longleftrightarrow> p \<in> P \<and> r \<noteq> Deleter \<and> g = Holds (role_op r) p \<and> w = None"
| "app_thread P r _ g w \<longleftrightarrow> False"

text \<open>The student at \<open>p\<close>: half flipped while a thread flips it, whole otherwise.\<close>

definition ip_inv :: "tid set \<Rightarrow> (addr \<Rightarrow> ip_bytes) \<Rightarrow> crud_app \<Rightarrow> addr \<Rightarrow> bool" where
  "ip_inv T ip0 x p \<longleftrightarrow>
     (\<forall>t\<in>T. \<forall>n temp. ap_pc x t = At_flip n temp p \<longrightarrow> half_flipped (ip0 p) n temp (ap_ip x p)) \<and>
     ((\<forall>t\<in>T. \<forall>n temp. ap_pc x t \<noteq> At_flip n temp p) \<longrightarrow> whole (ip0 p) (ap_ip x p))"

definition app_inv :: "addr list \<Rightarrow> addr set \<Rightarrow> (addr \<Rightarrow> ip_bytes) \<Rightarrow> (tid \<Rightarrow> app_role) \<Rightarrow> tid set \<Rightarrow> crud_app \<Rightarrow> bool" where
  "app_inv ps P ip0 role T x \<longleftrightarrow>
     reach (crud_obj (rw_calls ps)) True T (crud_setup ps) Holds_nothing (ap_lib x) \<and>
     \<not> ap_failed x \<and>
     (\<forall>t\<in>T. app_thread P (role t) (ap_pc x t) (ghost (ap_lib x) t) (pending (status (ap_lib x) t))) \<and>
     (\<forall>p\<in>P. ip_inv T ip0 x p) \<and>
     (\<forall>(p, str)\<in>set (ap_out x). p \<in> P \<and> whole_line (ip0 p) str) \<and>
     (\<forall>rand p. stud_lst_lookup_student x (getRandomInt rand 1 2) = Some p \<longrightarrow> p \<in> P)"


lemma finish_app_lib: "finish app_lib_obj t sec c d = finish (crud_obj allow) t sec c d"
  by (cases sec) (simp_all add: app_lib_obj_def)

lemma finish_others:
  assumes "finish ob t sec c d" "u \<noteq> t"
  shows "ghost d u = ghost c u \<and> pending (status d u) = pending (status c u)"
  using assms by (cases sec) (auto simp: wakes_pending)

lemma finish_self:
  assumes "finish ob t sec c d"
  shows "sec = Unlocked s r ss \<Longrightarrow> ghost d t = on_return ob r (ghost c t) \<and> pending (status d t) = None"
    and "sec = CvWait s cv k ss \<Longrightarrow> ghost d t = ghost c t \<and> pending (status d t) = Some k"
  using assms by (auto simp: wakes_pending)

lemma goto_pc_simps [simp]:
  "ap_lib (goto_pc t l x) = ap_lib x" "ap_lst (goto_pc t l x) = ap_lst x" "ap_rollno (goto_pc t l x) = ap_rollno x"
  "ap_ip (goto_pc t l x) = ap_ip x" "ap_out (goto_pc t l x) = ap_out x" "ap_failed (goto_pc t l x) = ap_failed x"
  "ap_pc (goto_pc t l x) = (ap_pc x)(t := l)"
  by (simp_all add: goto_pc_def)

lemma goto_pc_same: "ap_pc x t = l \<Longrightarrow> goto_pc t l x = x"
  by (cases x) (auto simp: goto_pc_def fun_upd_idem)

lemma lookup_student_same:
  "ap_lst y = ap_lst x \<Longrightarrow> ap_rollno y = ap_rollno x \<Longrightarrow> stud_lst_lookup_student y = stud_lst_lookup_student x"
  by (rule ext) (simp add: stud_lst_lookup_student_def)

lemma app_lib_inv: "rw_valid ps T \<Longrightarrow> app_inv ps P ip0 role T x \<Longrightarrow>
    rw_inv ps T (shared (ap_lib x)) (ghost (ap_lib x)) (\<lambda>u. pending (status (ap_lib x) u))"
  by (rule crud_rw.monitor_inv) (auto simp: app_inv_def)

lemma app_lib_not_aborted: "rw_valid ps T \<Longrightarrow> app_inv ps P ip0 role T x \<Longrightarrow> \<not> app_ended x"
  unfolding app_ended_def using crud_rw.monitor_not_aborted by (auto simp: app_inv_def)

text \<open>A thread moves between points at which it flips nothing, and the library may move with it.\<close>

lemma app_inv_library:
  assumes inv: "app_inv ps P ip0 role T x" and t: "t \<in> T" "\<And>n temp p. ap_pc x t \<noteq> At_flip n temp p" "\<And>n temp p. l \<noteq> At_flip n temp p"
    and d: "reach (crud_obj (rw_calls ps)) True T (crud_setup ps) Holds_nothing d"
    and others: "\<And>u. u \<noteq> t \<Longrightarrow> ghost d u = ghost (ap_lib x) u \<and> pending (status d u) = pending (status (ap_lib x) u)"
    and self: "app_thread P (role t) l (ghost d t) (pending (status d t))"
  shows "app_inv ps P ip0 role T (goto_pc t l (x\<lparr>ap_lib := d\<rparr>))"
proof -
  have flips: "ap_pc (goto_pc t l (x\<lparr>ap_lib := d\<rparr>)) u = At_flip n temp p \<longleftrightarrow> ap_pc x u = At_flip n temp p" for u n temp p
    using t by simp
  have "ip_inv T ip0 (goto_pc t l (x\<lparr>ap_lib := d\<rparr>)) p \<longleftrightarrow> ip_inv T ip0 x p" for p
    unfolding ip_inv_def flips by simp
  moreover have "stud_lst_lookup_student (goto_pc t l (x\<lparr>ap_lib := d\<rparr>)) = stud_lst_lookup_student x"
    by (rule lookup_student_same) simp_all
  moreover have "app_thread P (role u) (ap_pc (goto_pc t l (x\<lparr>ap_lib := d\<rparr>)) u) (ghost d u) (pending (status d u))" if "u \<in> T" for u
    using inv others [of u] self that by (auto simp: app_inv_def)
  ultimately show ?thesis using inv d by (auto simp: app_inv_def)
qed

lemma app_inv_goto:
  assumes "app_inv ps P ip0 role T x" "t \<in> T" "\<And>n temp p. ap_pc x t \<noteq> At_flip n temp p" "\<And>n temp p. l \<noteq> At_flip n temp p"
    and "app_thread P (role t) l (ghost (ap_lib x) t) (pending (status (ap_lib x) t))"
  shows "app_inv ps P ip0 role T (goto_pc t l x)"
  using app_inv_library [OF assms(1-4), of "ap_lib x"] assms(1,5) by (simp add: app_inv_def)

text \<open>A section of the library.\<close>

lemma app_inv_section:
  assumes inv: "app_inv ps P ip0 role T x" and t: "t \<in> T" and r: "role t \<noteq> Deleter" and fin: "finish app_lib_obj t sec (ap_lib x) d"
    and lib: "step (crud_obj (rw_calls ps)) True T (ap_lib x) d"
    and sec: "ap_pc x t = At_request p \<and> grants_or_waits (role_op (role t)) p (role_wait (role t) p) sec \<or>
      ap_pc x t = At_release p \<and> (\<exists>s ss. sec = Unlocked s Crud_released ss)"
  shows "app_inv ps P ip0 role T (after_section role t sec d x)"
proof -
  let ?l = "pc_after (role t) (ap_pc x t) sec"
  have th: "app_thread P (role t) (ap_pc x t) (ghost (ap_lib x) t) (pending (status (ap_lib x) t))"
    using inv t by (simp add: app_inv_def)
  have "app_thread P (role t) ?l (ghost d t) (pending (status d t)) \<and> (\<forall>n temp q. ap_pc x t \<noteq> At_flip n temp q \<and> ?l \<noteq> At_flip n temp q)"
    using sec th r fin finish_self [OF fin] unfolding grants_or_waits_def by (auto simp: app_lib_obj_def)
  moreover have "reach (crud_obj (rw_calls ps)) True T (crud_setup ps) Holds_nothing d"
    using inv lib by (auto simp: app_inv_def intro: reach_step)
  ultimately show ?thesis unfolding after_section_def
    by (intro app_inv_library [OF inv t]) (auto simp: finish_others [OF fin])
qed


lemma app_inv_call:
  assumes v: "rw_valid ps T" "P \<subseteq> set ps" and inv: "app_inv ps P ip0 role T x" and t: "t \<in> T" "role t \<noteq> Deleter"
    and run: "status (ap_lib x) t = Running" "app_call (role t) (ap_pc x t) = Some op"
    and sec: "sec = crud_enter t op (shared (ap_lib x))" "finish app_lib_obj t sec (ap_lib x) d"
  shows "app_inv ps P ip0 role T (after_section role t sec d x)"
proof -
  note lib = app_lib_inv [OF v(1) inv]
  have not: "\<not> aborted (ap_lib x)" using app_lib_not_aborted [OF v(1) inv] by (simp add: app_ended_def)
  have th: "app_thread P (role t) (ap_pc x t) (ghost (ap_lib x) t) (pending (status (ap_lib x) t))"
    using inv t(1) by (simp add: app_inv_def)
  have pc: "\<exists>p. p \<in> P \<and> (ap_pc x t = At_request p \<and> op = role_request (role t) p \<and> ghost (ap_lib x) t = Holds_nothing \<or>
      ap_pc x t = At_release p \<and> op = Release p \<and> ghost (ap_lib x) t = Holds (role_op (role t)) p)"
    using th run by (cases "ap_pc x t") auto
  then have may: "may_call (crud_obj (rw_calls ps)) (ghost (ap_lib x) t) op"
    using v(2) t(2) by (cases "role t") auto
  have "step (crud_obj (rw_calls ps)) True T (ap_lib x) d"
    using not t(1) run(1) may sec by (intro step.call [where t = t and op = op]) (simp_all add: finish_app_lib [of _ _ _ _ "rw_calls ps"])
  moreover have "\<exists>p. ap_pc x t = At_request p \<and> grants_or_waits (role_op (role t)) p (role_wait (role t) p) sec \<or>
      ap_pc x t = At_release p \<and> (\<exists>s ss. sec = Unlocked s Crud_released ss)"
  proof -
    obtain p where p: "p \<in> set ps" "ap_pc x t = At_request p \<and> op = role_request (role t) p \<and> ghost (ap_lib x) t = Holds_nothing \<or>
      ap_pc x t = At_release p \<and> op = Release p \<and> ghost (ap_lib x) t = Holds (role_op (role t)) p" using pc v(2) by blast
    then show ?thesis
      using request_outcome [OF v(1) lib t(1) p(1) _ _ t(2)] rw_release_keeps [OF v(1) lib t(1) p(1)] run(1) sec(1) by fastforce
  qed
  ultimately show ?thesis using app_inv_section [OF inv t sec(2)] by blast
qed

lemma app_inv_resume:
  assumes v: "rw_valid ps T" "P \<subseteq> set ps" and inv: "app_inv ps P ip0 role T x" and t: "t \<in> T" "role t \<noteq> Deleter"
    and run: "status (ap_lib x) t = Woken k"
    and sec: "sec = crud_resume t k (shared (ap_lib x))" "finish app_lib_obj t sec (ap_lib x) d"
  shows "app_inv ps P ip0 role T (after_section role t sec d x)"
proof -
  note lib = app_lib_inv [OF v(1) inv]
  have not: "\<not> aborted (ap_lib x)" using app_lib_not_aborted [OF v(1) inv] by (simp add: app_ended_def)
  have th: "app_thread P (role t) (ap_pc x t) (ghost (ap_lib x) t) (pending (status (ap_lib x) t))"
    using inv t(1) by (simp add: app_inv_def)
  then obtain p where p: "p \<in> P" "ap_pc x t = At_request p" "k = role_wait (role t) p" "ghost (ap_lib x) t = Holds_nothing"
    using run by (cases "ap_pc x t") auto
  have "step (crud_obj (rw_calls ps)) True T (ap_lib x) d"
    using not t(1) run sec by (intro step.return_from_wait [where t = t and k = k]) (simp_all add: finish_app_lib [of _ _ _ _ "rw_calls ps"])
  moreover have "grants_or_waits (role_op (role t)) p (role_wait (role t) p) sec"
    using resume_outcome [OF v(1) lib t(1) _ p(4) _ t(2)] p(1,3) v(2) run sec(1) by auto
  ultimately show ?thesis using app_inv_section [OF inv t sec(2)] p(2) by blast
qed

lemma app_inv_spurious:
  assumes inv: "app_inv ps P ip0 role T x" and t: "t \<in> T" "is_blocked (status (ap_lib x) t)" and not: "\<not> app_ended x"
  shows "app_inv ps P ip0 role T (x\<lparr>ap_lib := (ap_lib x)\<lparr>status := (status (ap_lib x))(t := wake (status (ap_lib x) t))\<rparr>\<rparr>)"
proof -
  let ?d = "(ap_lib x)\<lparr>status := (status (ap_lib x))(t := wake (status (ap_lib x) t))\<rparr>"
  have th: "app_thread P (role t) (ap_pc x t) (ghost (ap_lib x) t) (pending (status (ap_lib x) t))"
    using inv t(1) by (simp add: app_inv_def)
  then obtain p where p: "ap_pc x t = At_request p" using t(2) by (cases "ap_pc x t"; cases "status (ap_lib x) t") auto
  have "step (crud_obj (rw_calls ps)) True T (ap_lib x) ?d"
    using not t by (intro step.spurious) (auto simp: app_ended_def)
  then have "reach (crud_obj (rw_calls ps)) True T (crud_setup ps) Holds_nothing ?d"
    using inv by (auto simp: app_inv_def intro: reach_step)
  from app_inv_library [OF inv t(1) _ _ this, of "At_request p"] th p
  have "app_inv ps P ip0 role T (goto_pc t (At_request p) (x\<lparr>ap_lib := ?d\<rparr>))" by simp
  moreover have "goto_pc t (At_request p) (x\<lparr>ap_lib := ?d\<rparr>) = x\<lparr>ap_lib := ?d\<rparr>"
    using p by (intro goto_pc_same) simp
  ultimately show ?thesis by simp
qed


text \<open>Steps outside the library.\<close>

lemma app_inv_lookup:
  assumes inv: "app_inv ps P ip0 role T x" and t: "t \<in> T" "ap_pc x t = At_lookup"
  shows "app_inv ps P ip0 role T (lookup_step t rand x)"
proof (cases "stud_lst_lookup_student x (getRandomInt rand 1 2)")
  case None
  then show ?thesis using inv by (simp add: lookup_step_def)
next
  case (Some p)
  then have p: "p \<in> P" using inv unfolding app_inv_def by blast
  have "app_thread P (role t) (ap_pc x t) (ghost (ap_lib x) t) (pending (status (ap_lib x) t))"
    using inv t(1) by (simp add: app_inv_def)
  then have "app_inv ps P ip0 role T (goto_pc t (At_request p) x)"
    using app_inv_goto [OF inv t(1), of "At_request p"] t(2) p by simp
  then show ?thesis using Some by (simp add: lookup_step_def)
qed

lemma app_thread_held:
  assumes "app_thread P r l g w" "l = At_assert p \<or> l = At_print p \<or> l = At_flip n temp p \<or> l = At_print_after p"
  shows "p \<in> P" "g = Holds (role_op r) p"
  using assms by (cases r; auto)+

lemma app_stud_at:
  assumes "rw_valid ps T" "P \<subseteq> set ps" "app_inv ps P ip0 role T x" "t \<in> T" "role t \<noteq> Deleter"
    and "p \<in> P" "ghost (ap_lib x) t = Holds (role_op (role t)) p"
  shows "\<exists>n. stud_at p x = Some n \<and> cn_curr_op n = role_op (role t)"
proof -
  have "role_op (role t) = CRUD_READ \<or> role_op (role t) = CRUD_WRITE" using assms(5) by (cases "role t") auto
  then show ?thesis unfolding stud_at_def
    using granted_op [OF assms(1) app_lib_inv [OF assms(1,3)]] assms(2,4,6,7) by blast
qed

text \<open>Who holds a node while somebody flips the address of its student flips it himself.\<close>

lemma flipper_alone:
  assumes "rw_valid ps T" "P \<subseteq> set ps" "app_inv ps P ip0 role T x" "t \<in> T" "role t \<noteq> Deleter"
    and "ghost (ap_lib x) t = Holds (role_op (role t)) p" "u \<in> T" "ap_pc x u = At_flip n temp p"
  shows "u = t"
proof -
  have "app_thread P (role u) (ap_pc x u) (ghost (ap_lib x) u) (pending (status (ap_lib x) u))"
    using assms(3,7) by (simp add: app_inv_def)
  then have "ghost (ap_lib x) u = Holds CRUD_WRITE p" "p \<in> set ps" using assms(2,8) by auto
  moreover have "role_op (role t) = CRUD_READ \<or> role_op (role t) = CRUD_WRITE" using assms(5) by (cases "role t") auto
  ultimately show ?thesis using rw_exclusive [OF assms(1) app_lib_inv [OF assms(1,3)] _ assms(7,4)] assms(6) by metis
qed

lemma app_inv_print:
  assumes inv: "app_inv ps P ip0 role T x" and p: "p \<in> P" "whole (ip0 p) (ap_ip x p)"
  shows "app_inv ps P ip0 role T (print_student p x)"
proof -
  have "stud_lst_lookup_student (print_student p x) = stud_lst_lookup_student x"
    by (rule lookup_student_same) (simp_all add: print_student_def)
  moreover have "ip_inv T ip0 (print_student p x) q = ip_inv T ip0 x q" for q by (simp add: ip_inv_def print_student_def)
  ultimately show ?thesis using inv p whole_line_print [OF p(2)] unfolding app_inv_def by (auto simp: print_student_def)
qed

lemma app_inv_flip:
  assumes v: "rw_valid ps T" "P \<subseteq> set ps" and inv: "app_inv ps P ip0 role T x" and t: "t \<in> T" "role t \<noteq> Deleter"
    and pc: "ap_pc x t = At_flip n temp p" and flip: "flip_stmt n (temp, ap_ip x p) = (temp', ip)"
  shows "app_inv ps P ip0 role T (goto_pc t (if n < 5 then At_flip (n + 1) temp' p else At_print_after p) (x\<lparr>ap_ip := (ap_ip x)(p := ip)\<rparr>))"
    (is "app_inv ps P ip0 role T ?y")
proof -
  have th: "app_thread P (role t) (ap_pc x t) (ghost (ap_lib x) t) (pending (status (ap_lib x) t))"
    using inv t(1) by (simp add: app_inv_def)
  note held = app_thread_held [OF th, of p n temp]
  have alone: "u = t" if "u \<in> T" "ap_pc x u = At_flip m temp'' p" for u m temp''
    using flipper_alone [OF v inv t _ that] held(2) pc by simp
  have "half_flipped (ip0 p) n temp (ap_ip x p)" using inv t(1) pc held(1) by (auto simp: app_inv_def ip_inv_def)
  from half_flipped_step [OF this flip]
  have next_flip: "if n < 5 then half_flipped (ip0 p) (n + 1) temp' ip else whole (ip0 p) ip" .
  have "ip_inv T ip0 ?y q" if q: "q \<in> P" for q
  proof (cases "q = p")
    case True
    have "ap_pc ?y u = At_flip m temp'' p \<longleftrightarrow> u = t \<and> n < 5 \<and> m = n + 1 \<and> temp'' = temp'" if "u \<in> T" for u m temp''
      using alone [OF that] by (cases "u = t") auto
    then show ?thesis using next_flip t(1) True unfolding ip_inv_def by (auto split: if_splits)
  next
    case False
    have "ap_pc ?y u = At_flip m temp'' q \<longleftrightarrow> ap_pc x u = At_flip m temp'' q" for u m temp''
      using False pc by auto
    moreover have "ap_ip ?y q = ap_ip x q" using False by simp
    moreover have "ip_inv T ip0 x q" using inv q by (simp add: app_inv_def)
    ultimately show ?thesis unfolding ip_inv_def by simp
  qed
  moreover have "app_thread P (role u) (ap_pc ?y u) (ghost (ap_lib ?y) u) (pending (status (ap_lib ?y) u))" if "u \<in> T" for u
  proof (cases "u = t")
    case True
    then show ?thesis using th pc by auto
  next
    case False
    then show ?thesis using inv that by (simp add: app_inv_def)
  qed
  moreover have "stud_lst_lookup_student ?y = stud_lst_lookup_student x" by (rule lookup_student_same) simp_all
  ultimately show ?thesis using inv unfolding app_inv_def by auto
qed

lemma app_inv_start_flip:
  assumes v: "rw_valid ps T" "P \<subseteq> set ps" and inv: "app_inv ps P ip0 role T x" and t: "t \<in> T" "role t = Writer"
    and pc: "ap_pc x t = At_print p" and ip: "whole (ip0 p) (ap_ip x p)"
  shows "app_inv ps P ip0 role T (goto_pc t (At_flip 0 0 p) x)" (is "app_inv ps P ip0 role T ?y")
proof -
  have th: "app_thread P (role t) (ap_pc x t) (ghost (ap_lib x) t) (pending (status (ap_lib x) t))"
    using inv t(1) by (simp add: app_inv_def)
  have alone: "u = t" if "u \<in> T" "ap_pc x u = At_flip m temp'' p" for u m temp''
    using flipper_alone [OF v inv t(1) _ _ that] app_thread_held [OF th, of p] t(2) pc by simp
  have "ip_inv T ip0 ?y q" if q: "q \<in> P" for q
  proof (cases "q = p")
    case True
    have "ap_pc ?y u = At_flip m temp'' p \<longleftrightarrow> u = t \<and> m = 0 \<and> temp'' = 0" if "u \<in> T" for u m temp''
      using alone [OF that] by (cases "u = t") auto
    then show ?thesis using half_flipped_start [OF ip] t(1) True unfolding ip_inv_def by auto
  next
    case False
    have "ap_pc ?y u = At_flip m temp'' q \<longleftrightarrow> ap_pc x u = At_flip m temp'' q" for u m temp''
      using False pc by auto
    moreover have "ip_inv T ip0 x q" using inv q by (simp add: app_inv_def)
    ultimately show ?thesis unfolding ip_inv_def by simp
  qed
  moreover have "app_thread P (role u) (ap_pc ?y u) (ghost (ap_lib ?y) u) (pending (status (ap_lib ?y) u))" if "u \<in> T" for u
  proof (cases "u = t")
    case True
    then show ?thesis using th pc t(2) by simp
  next
    case False
    then show ?thesis using inv that by (simp add: app_inv_def)
  qed
  moreover have "stud_lst_lookup_student ?y = stud_lst_lookup_student x" by (rule lookup_student_same) simp_all
  ultimately show ?thesis using inv unfolding app_inv_def by auto
qed


lemma app_inv_local:
  assumes v: "rw_valid ps T" "P \<subseteq> set ps" and inv: "app_inv ps P ip0 role T x" and t: "t \<in> T" "role t \<noteq> Deleter"
    and y: "app_local (role t) t (ap_pc x t) x = Some y"
  shows "app_inv ps P ip0 role T y"
proof -
  have th: "app_thread P (role t) (ap_pc x t) (ghost (ap_lib x) t) (pending (status (ap_lib x) t))"
    using inv t(1) by (simp add: app_inv_def)
  note held = app_thread_held [OF th] and stud = app_stud_at [OF v inv t] and printed = app_inv_print [OF inv]
  have whole: "whole (ip0 p) (ap_ip x p)" if p: "p \<in> P" "ghost (ap_lib x) t = Holds (role_op (role t)) p" "\<And>n temp. ap_pc x t \<noteq> At_flip n temp p" for p
    using flipper_alone [OF v inv t p(2)] p(1,3) inv unfolding app_inv_def ip_inv_def by blast
  show ?thesis
  proof (cases "ap_pc x t")
    case (At_assert p)
    then obtain n where n: "stud_at p x = Some n" "cn_curr_op n = role_op (role t)" using stud held [of p] by auto
    then have "app_inv ps P ip0 role T (goto_pc t (At_print p) x)"
      using At_assert th by (intro app_inv_goto [OF inv t(1)]) auto
    then show ?thesis using y n At_assert t(2) by (auto simp: with_stud_def)
  next
    case (At_print p)
    then have p: "p \<in> P" "ghost (ap_lib x) t = Holds (role_op (role t)) p" using held [of p] by auto
    then obtain n where n: "stud_at p x = Some n" using stud by blast
    have ip: "whole (ip0 p) (ap_ip x p)" using whole [OF p] At_print by simp
    have pc: "ap_pc (print_student p x) t = At_print p" using At_print by (simp add: print_student_def)
    show ?thesis
    proof (cases "role t = Writer")
      case True
      have "app_inv ps P ip0 role T (goto_pc t (At_flip 0 0 p) (print_student p x))"
        using ip by (intro app_inv_start_flip [OF v printed [OF p(1) ip] t(1) True pc]) (simp add: print_student_def)
      then show ?thesis using y n At_print True by (simp add: with_stud_def)
    next
      case False
      have "app_inv ps P ip0 role T (goto_pc t (At_release p) (print_student p x))"
        using pc th At_print by (intro app_inv_goto [OF printed [OF p(1) ip] t(1)]) (auto simp: print_student_def)
      then show ?thesis using y n At_print False by (simp add: with_stud_def)
    qed
  next
    case (At_flip n temp p)
    then obtain m where m: "stud_at p x = Some m" using stud held [of p n temp] by auto
    obtain temp' ip where flip: "flip_stmt n (temp, ap_ip x p) = (temp', ip)" by (cases "flip_stmt n (temp, ap_ip x p)")
    from app_inv_flip [OF v inv t At_flip flip] show ?thesis using y m At_flip flip by (simp add: with_stud_def)
  next
    case (At_print_after p)
    then have p: "p \<in> P" "ghost (ap_lib x) t = Holds (role_op (role t)) p" using held [of p] by auto
    then obtain n where n: "stud_at p x = Some n" using stud by blast
    have ip: "whole (ip0 p) (ap_ip x p)" using whole [OF p] At_print_after by simp
    have "app_inv ps P ip0 role T (goto_pc t (At_release p) (print_student p x))"
      using th At_print_after by (intro app_inv_goto [OF printed [OF p(1) ip] t(1)]) (auto simp: print_student_def)
    then show ?thesis using y n At_print_after by (simp add: with_stud_def)
  qed (use th y in auto)
qed

text \<open>A request for a deletion, the first one, fails no assertion.\<close>

lemma delete_request_outcome:
  assumes "rw_node p pr r pw w s"
  shows "(\<exists>s1 cv. crud_request_delete p s = CvWait s1 cv (Wait_delete p) []) \<or>
    (\<exists>s1. crud_request_delete p s = Unlocked s1 (Crud_submitted p) [])"
proof -
  obtain n where n: "node_at p s = Some n" "shows_counts p (full_counts (rw_counts pr r pw w)) n s"
    using assms by (auto simp: rw_node_def node_is_def)
  have flag: "crud_node_is_status_set n st \<longleftrightarrow> full_counts (rw_counts pr r pw w) st \<noteq> 0" for st
    using n(2) by (simp add: shows_counts_def)
  have rejects: "\<not> crud_rejects n" by (simp add: crud_rejects_def flag)
  obtain s1 where s1: "crud_node_enter_state p crud_node_pending_delete s = Some s1"
    using crud_node_enter_is [of p "rw_counts pr r pw w" "rw_op r w" s crud_node_pending_delete] assms
    by (auto simp: rw_node_def)
  have "r = 0 \<and> w = 0 \<and> pr = 0 \<and> pw = 0 \<Longrightarrow> \<not> counts_in_use (rw_counts pr r pw w)"
    by (auto simp: counts_in_use_def rw_counts_def split: crud_node_state.splits)
  then have "r = 0 \<and> w = 0 \<and> pr = 0 \<and> pw = 0 \<Longrightarrow> crud_node_state_verify p crud_node_no_op True n s"
    using verify_present(1) [OF n(2), of crud_node_no_op] by (simp add: full_counts_no_op)
  then show ?thesis
    by (simp add: crud_request_delete_def crud_delete_loop_def with_node_at [OF n(1)] rejects flag entering_def s1 check_def)
qed

lemma app_deleter_call:
  assumes v: "rw_valid ps T" "P \<subseteq> set ps" and inv: "app_inv ps P ip0 role T x" and t: "t \<in> T" "role t = Deleter"
    and run: "status (ap_lib x) t = Running" "app_call (role t) (ap_pc x t) = Some op"
    and sec: "sec = crud_enter t op (shared (ap_lib x))" "finish app_lib_obj t sec (ap_lib x) d"
  shows "deleting role T (after_section role t sec d x) \<and> \<not> app_ended (after_section role t sec d x)"
proof -
  have th: "app_thread P (role t) (ap_pc x t) (ghost (ap_lib x) t) (pending (status (ap_lib x) t))"
    using inv t(1) by (simp add: app_inv_def)
  then obtain p where p: "p \<in> set ps" "ap_pc x t = At_request p" using t(2) run(2) v(2) by (cases "ap_pc x t") auto
  have "rw_node p (pending_readers T p (\<lambda>u. pending (status (ap_lib x) u))) (crud_readers T p (ghost (ap_lib x)))
      (pending_writers T p (\<lambda>u. pending (status (ap_lib x) u))) (crud_writers T p (ghost (ap_lib x))) (shared (ap_lib x))"
    using app_lib_inv [OF v(1) inv] p(1) by (simp add: rw_inv_def rw_at_def)
  from delete_request_outcome [OF this] consider
    (waits) s1 cv where "sec = CvWait s1 cv (Wait_delete p) []" | (submitted) s1 where "sec = Unlocked s1 (Crud_submitted p) []"
    using run(2) sec(1) p(2) t(2) by auto
  moreover have "\<not> app_ended x" by (rule app_lib_not_aborted [OF v(1) inv])
  moreover have "deleting role T (after_section role t sec d x)"
    if "pending (status d t) \<noteq> None \<or> pc_after (role t) (ap_pc x t) sec = At_second_half p"
    unfolding deleting_def using t that by (intro bexI [of _ t]) (auto simp: after_section_def)
  ultimately show ?thesis
    using sec(2) p(2) by cases (auto simp: app_ended_def after_section_def)
qed

lemma app_inv_step:
  assumes v: "rw_valid ps T" "P \<subseteq> set ps" and inv: "app_inv ps P ip0 role T x" and step: "app_step role sp T x y"
  shows "app_inv ps P ip0 role T y \<or> deleting role T y \<and> \<not> app_ended y \<and> ap_out y = ap_out x"
proof -
  have th: "app_thread P (role t) (ap_pc x t) (ghost (ap_lib x) t) (pending (status (ap_lib x) t))" if "t \<in> T" for t
    using inv that by (simp add: app_inv_def)
  show ?thesis using step
  proof cases
    case (look_up t rand)
    then show ?thesis using app_inv_lookup [OF inv] by simp
  next
    case (call_library t op sec d)
    then show ?thesis using app_inv_call [OF v inv] app_deleter_call [OF v inv]
      by (cases "role t = Deleter") (auto simp: after_section_def)
  next
    case (leave_wait t k sec d)
    then have "role t \<noteq> Deleter" using th [of t] by (cases "ap_pc x t") auto
    then show ?thesis using leave_wait app_inv_resume [OF v inv] by blast
  next
    case (wake_up t)
    then show ?thesis using app_inv_spurious [OF inv] by simp
  next
    case (by_itself t)
    then have "role t \<noteq> Deleter" using th [of t] by (cases "ap_pc x t") auto
    then show ?thesis using by_itself app_inv_local [OF v inv] by blast
  qed
qed

lemma app_inv_until:
  assumes v: "rw_valid ps T" "P \<subseteq> set ps" and start: "app_inv ps P ip0 role T x0" and "app_reach_until role sp T x0 x"
  shows "(deleting role T x \<or> app_inv ps P ip0 role T x) \<and> \<not> app_ended x \<and>
    (\<forall>(p, str)\<in>set (ap_out x). p \<in> P \<and> whole_line (ip0 p) str)"
  using assms(4)
proof induction
  case until_start
  then show ?case using start app_lib_not_aborted [OF v(1) start] by (simp add: app_inv_def)
next
  case (until_step x y)
  then have "app_inv ps P ip0 role T x" by blast
  from app_inv_step [OF v this until_step(3)] show ?case
  proof
    assume "app_inv ps P ip0 role T y"
    then show ?thesis using app_lib_not_aborted [OF v(1)] by (auto simp: app_inv_def)
  next
    assume "deleting role T y \<and> \<not> app_ended y \<and> ap_out y = ap_out x"
    then show ?thesis using until_step.IH by simp
  qed
qed

section \<open>The main program\<close>

lemma new_students_shows:
  assumes "crud_nodes_init (map fst xs) (shared (ap_lib x)) = Some s"
  shows "new_students xs x = Some (x\<lparr>ap_lib := (ap_lib x)\<lparr>shared := s\<rparr>, ap_lst := rev (map fst xs) @ ap_lst x,
    ap_rollno := fold (\<lambda>(p, r, ip) f. f(p := r)) xs (ap_rollno x), ap_ip := fold (\<lambda>(p, r, ip) f. f(p := store_u32 ip)) xs (ap_ip x)\<rparr>)"
  using assms
proof (induction xs arbitrary: x)
  case Nil
  then show ?case by (cases x) simp
next
  case (Cons e xs)
  obtain p r ip where e: "e = (p, r, ip)" by (cases e)
  with Cons.prems obtain s1 where s1: "crud_node_init p (shared (ap_lib x)) = Some s1" "crud_nodes_init (map fst xs) s1 = Some s"
    by (auto split: option.splits)
  let ?y = "stud_lst_add_new_student p (x\<lparr>ap_lib := (ap_lib x)\<lparr>shared := s1\<rparr>, ap_rollno := (ap_rollno x)(p := r), ap_ip := (ap_ip x)(p := store_u32 ip)\<rparr>)"
  have "crud_nodes_init (map fst xs) (shared (ap_lib ?y)) = Some s" using s1(2) by (simp add: stud_lst_add_new_student_def)
  from Cons.IH [OF this] show ?case using e s1(1) by (simp add: stud_get_new_object_def stud_lst_add_new_student_def)
qed


text \<open>The students a thread can look up are the first two of the six.\<close>

lemma main_lookup:
  assumes "distinct ps" "ps = [a, b, c, d, e, f]" "stud_lst_lookup_student y (getRandomInt rand 1 2) = Some p"
    and "ap_lst y = rev ps" "ap_rollno y = fold (\<lambda>(p, r, ip) f. f(p := r)) (main_students ps) g"
  shows "p = a \<or> p = b"
proof -
  have "getRandomInt rand 1 2 = 1 \<or> getRandomInt rand 1 2 = 2" using getRandomInt_range [of 1 2 rand] by auto
  then show ?thesis using assms by (auto simp: stud_lst_lookup_student_def main_students_def split: if_splits)
qed

definition main_ip :: "addr list \<Rightarrow> addr \<Rightarrow> ip_bytes" where
  "main_ip ps p = (if p = ps ! 0 then store_u32 16909060 else store_u32 84281096)"

lemma app_main_starts:
  assumes ps: "length ps = 6" "distinct ps" "0 \<notin> set ps"
  shows "ap_lib (app_main ps) = start (crud_setup ps) Holds_nothing" "ap_failed (app_main ps) = False" "ap_out (app_main ps) = []"
    and "ap_pc (app_main ps) = (\<lambda>_. At_lookup)" "ap_lst (app_main ps) = rev ps"
    and "ap_rollno (app_main ps) = fold (\<lambda>(p, r, ip) f. f(p := r)) (main_students ps) (\<lambda>_. 0)"
    and "ap_ip (app_main ps) = fold (\<lambda>(p, r, ip) f. f(p := store_u32 ip)) (main_students ps) (\<lambda>_. (0, 0, 0, 0))"
proof -
  have fst: "map fst (main_students ps) = ps" using ps(1) by (simp add: main_students_def)
  obtain s where s: "crud_nodes_init ps (crud_mgr_init crud_memory) = Some s"
    using crud_nodes_init_is [of ps "crud_mgr_init crud_memory"] ps(2,3) by (auto simp: crud_mgr_init_def)
  have lib: "shared (ap_lib stud_lst_get_new_lst) = crud_mgr_init crud_memory" by (simp add: stud_lst_get_new_lst_def start_def)
  note main = new_students_shows [of "main_students ps" stud_lst_get_new_lst s, unfolded fst lib, OF s]
  show "ap_lib (app_main ps) = start (crud_setup ps) Holds_nothing" "ap_failed (app_main ps) = False" "ap_out (app_main ps) = []"
    "ap_pc (app_main ps) = (\<lambda>_. At_lookup)" "ap_lst (app_main ps) = rev ps"
    "ap_rollno (app_main ps) = fold (\<lambda>(p, r, ip) f. f(p := r)) (main_students ps) (\<lambda>_. 0)"
    "ap_ip (app_main ps) = fold (\<lambda>(p, r, ip) f. f(p := store_u32 ip)) (main_students ps) (\<lambda>_. (0, 0, 0, 0))"
    unfolding app_main_def main by (simp_all add: stud_lst_get_new_lst_def start_def crud_setup_def s)
qed

lemma app_main_inv:
  assumes v: "rw_valid ps T" and ps: "length ps = 6"
  shows "app_inv ps {ps ! 0, ps ! 1} (main_ip ps) role T (app_main ps)"
proof -
  obtain a b c d e f where abc: "ps = [a, b, c, d, e, f]" using ps by (auto simp: numeral_eq_Suc length_Suc_conv)
  have dist: "distinct ps" "0 \<notin> set ps" using v by (auto simp: rw_valid_def)
  note x = app_main_starts [OF ps dist]
  have "ap_ip (app_main ps) a = main_ip ps a" "ap_ip (app_main ps) b = main_ip ps b"
    unfolding x(7) using dist(1) by (auto simp: abc main_students_def main_ip_def)
  then have "ap_ip (app_main ps) p = main_ip ps p" if "p \<in> {ps ! 0, ps ! 1}" for p using that abc by auto
  then have "ip_inv T (main_ip ps) (app_main ps) p" if "p \<in> {ps ! 0, ps ! 1}" for p
    using that unfolding ip_inv_def x(4) whole_def by simp
  moreover have "p \<in> {ps ! 0, ps ! 1}" if "stud_lst_lookup_student (app_main ps) (getRandomInt rand 1 2) = Some p" for rand p
    using main_lookup [OF dist(1) abc that x(5,6)] abc by auto
  ultimately show ?thesis unfolding app_inv_def using reach_start by (auto simp: x start_def)
qed

lemma main_lines:
  "print_ip_addr (store_u32 16909060) = ''1.2.3.4''" "print_ip_addr (flip_ip_addr (store_u32 16909060)) = ''4.3.2.1''"
  "print_ip_addr (store_u32 84281096) = ''5.6.7.8''" "print_ip_addr (flip_ip_addr (store_u32 84281096)) = ''8.7.6.5''"
  by code_simp+

text \<open>C36. The whole application, composed with the library: any number of readers, writers and deleting threads
  (fewer than 256), started as \<^verbatim>\<open>main\<close> starts them, in every execution up to and including the step by
  which a deleting thread first requests a deletion, spurious wake-ups included. No assertion of the
  application or of the library fails, no access is to a freed student, and every address printed is one of
  the two a student has between flips: nobody sees an address of which some bytes are flipped. Without deleting
  threads these are all executions (\<open>app_reach_until_all\<close>); behind the first deletion it need not hold any more
  (\<open>crud_app_freed\<close>).\<close>

theorem crud_app_whole:
  assumes "rw_valid ps T" "length ps = 6" "app_reach_until role sp T (app_main ps) x"
  shows "\<not> app_ended x \<and>
    set (ap_out x) \<subseteq> {ps ! 0} \<times> {''1.2.3.4'', ''4.3.2.1''} \<union> {ps ! 1} \<times> {''5.6.7.8'', ''8.7.6.5''}"
proof -
  have P: "{ps ! 0, ps ! 1} \<subseteq> set ps" using assms(2) by auto
  have ne: "ps ! 1 \<noteq> ps ! 0" using assms(1,2) by (simp add: rw_valid_def nth_eq_iff_index_eq)
  note inv = app_inv_until [OF assms(1) P app_main_inv [OF assms(1,2)] assms(3)]
  have "e \<in> {ps ! 0} \<times> {''1.2.3.4'', ''4.3.2.1''} \<union> {ps ! 1} \<times> {''5.6.7.8'', ''8.7.6.5''}" if "e \<in> set (ap_out x)" for e
  proof -
    obtain p str where e: "e = (p, str)" by (cases e)
    with inv that have p: "p = ps ! 0 \<or> p = ps ! 1" "whole_line (main_ip ps p) str" by auto
    then show ?thesis unfolding e whole_line_def main_ip_def using ne main_lines by auto
  qed
  then show ?thesis using inv by blast
qed

section \<open>Runs\<close>

datatype app_event = Finds tid nat | Acts tid "tid list"

definition app_acts :: "(tid \<Rightarrow> app_role) \<Rightarrow> tid list \<Rightarrow> tid \<Rightarrow> tid list \<Rightarrow> crud_sect \<Rightarrow> crud_app \<Rightarrow> crud_app option" where
  "app_acts role ts t picks sec x =
     map_option (\<lambda>d. after_section role t sec d x) (complete app_lib_obj ts t picks sec (ap_lib x))"

fun app_execute1 :: "(tid \<Rightarrow> app_role) \<Rightarrow> tid list \<Rightarrow> app_event \<Rightarrow> crud_app \<Rightarrow> crud_app option" where
  "app_execute1 role ts (Finds t rand) x =
     (if \<not> app_ended x \<and> t \<in> set ts \<and> ap_pc x t = At_lookup then Some (lookup_step t rand x) else None)"
| "app_execute1 role ts (Acts t picks) x =
     (if app_ended x \<or> t \<notin> set ts then None
      else case status (ap_lib x) t of
        Blocked cv k \<Rightarrow> None
      | Woken k \<Rightarrow> app_acts role ts t picks (crud_resume t k (shared (ap_lib x))) x
      | Running \<Rightarrow> (case app_call (role t) (ap_pc x t) of
            Some op \<Rightarrow> app_acts role ts t picks (crud_enter t op (shared (ap_lib x))) x
          | None \<Rightarrow> app_local (role t) t (ap_pc x t) x))"

fun app_execute :: "(tid \<Rightarrow> app_role) \<Rightarrow> tid list \<Rightarrow> app_event list \<Rightarrow> crud_app \<Rightarrow> crud_app option" where
  "app_execute role ts [] x = Some x"
| "app_execute role ts (e # es) x = (case app_execute1 role ts e x of None \<Rightarrow> None | Some y \<Rightarrow> app_execute role ts es y)"

lemma app_local_status: "app_local r t l x = Some y \<Longrightarrow> status (ap_lib y) = status (ap_lib x)"
  by (cases l) (auto simp: with_stud_def goto_pc_def print_student_def remove_student_def free_student_def Let_def
      split: option.splits if_splits prod.splits)

lemma app_execute1_step:
  assumes only: "only_in ts (status (ap_lib x))" and ex: "app_execute1 role ts e x = Some y"
  shows "app_step role sp (set ts) x y \<and> only_in ts (status (ap_lib y))"
proof (cases e)
  case (Finds t rand)
  then show ?thesis using assms look_up [of x t "set ts" role sp rand]
    by (auto simp: lookup_step_def goto_pc_def split: if_splits option.splits)
next
  case (Acts t picks)
  then have t: "\<not> app_ended x" "t \<in> set ts" using ex by (auto split: if_splits)
  have acts: "\<exists>d. y = after_section role t sec d x \<and> finish app_lib_obj t sec (ap_lib x) d \<and> only_in ts (status (ap_lib y))"
    if acts: "app_acts role ts t picks sec x = Some y" for sec
  proof -
    obtain d where d: "complete app_lib_obj ts t picks sec (ap_lib x) = Some d" "y = after_section role t sec d x"
      using acts unfolding app_acts_def map_option_eq_Some by blast
    then show ?thesis using complete_finish [OF only t(2) d(1)] by (auto simp: after_section_def)
  qed
  show ?thesis
  proof (cases "status (ap_lib x) t")
    case Running
    show ?thesis
    proof (cases "app_call (role t) (ap_pc x t)")
      case None
      then have y: "app_local (role t) t (ap_pc x t) x = Some y" using ex Acts t Running by simp
      then show ?thesis using by_itself [where role = role, OF t Running y] only app_local_status [OF y] by simp
    next
      case (Some op)
      then have "app_acts role ts t picks (crud_enter t op (shared (ap_lib x))) x = Some y" using ex Acts t Running by simp
      from acts [OF this] show ?thesis using call_library [where role = role, OF t Running Some refl] by blast
    qed
  next
    case (Blocked cv k)
    then show ?thesis using ex Acts t by simp
  next
    case (Woken k)
    then have "app_acts role ts t picks (crud_resume t k (shared (ap_lib x))) x = Some y" using ex Acts t by simp
    from acts [OF this] show ?thesis using leave_wait [where role = role, OF t Woken refl] by blast
  qed
qed

lemma app_execute_from:
  "only_in ts (status (ap_lib x)) \<Longrightarrow> app_reach role sp (set ts) x0 x \<Longrightarrow> app_execute role ts es x = Some y \<Longrightarrow>
   app_reach role sp (set ts) x0 y"
proof (induction es arbitrary: x)
  case (Cons e es)
  then obtain z where z: "app_execute1 role ts e x = Some z" "app_execute role ts es z = Some y" by (auto split: option.splits)
  from app_execute1_step [OF Cons.prems(1) z(1)] have "app_step role sp (set ts) x z" "only_in ts (status (ap_lib z))" by auto
  with Cons.prems(2) z(2) show ?case by (blast intro: Cons.IH app_reach_step)
qed simp

text \<open>A schedule that ends with the first deletion request.\<close>

fun app_execute_until :: "(tid \<Rightarrow> app_role) \<Rightarrow> tid list \<Rightarrow> app_event list \<Rightarrow> crud_app \<Rightarrow> crud_app option" where
  "app_execute_until role ts [] x = Some x"
| "app_execute_until role ts (e # es) x = (if deleting role (set ts) x then None else
     case app_execute1 role ts e x of None \<Rightarrow> None | Some y \<Rightarrow> app_execute_until role ts es y)"

lemma app_execute_until_from:
  "only_in ts (status (ap_lib x)) \<Longrightarrow> app_reach_until role sp (set ts) x0 x \<Longrightarrow> app_execute_until role ts es x = Some y \<Longrightarrow>
   app_reach_until role sp (set ts) x0 y"
proof (induction es arbitrary: x)
  case (Cons e es)
  then obtain z where z: "\<not> deleting role (set ts) x" "app_execute1 role ts e x = Some z" "app_execute_until role ts es z = Some y"
    by (auto split: option.splits if_splits)
  from app_execute1_step [OF Cons.prems(1) z(2)] have "app_step role sp (set ts) x z" "only_in ts (status (ap_lib z))" by auto
  with Cons.prems(2) z(1,3) show ?case by (blast intro: Cons.IH until_step)
qed simp

lemma app_execute_shows:
  assumes "map_option view (app_execute role ts es x0) = Some v" "only_in ts (status (ap_lib x0))"
  obtains x where "app_reach role sp (set ts) x0 x" "view x = v"
proof -
  obtain x where x: "app_execute role ts es x0 = Some x" "view x = v" using assms(1) unfolding map_option_eq_Some by blast
  show thesis by (rule that [OF app_execute_from [OF assms(2) app_reach_start x(1)] x(2)])
qed


lemma only_in_main: "length ps = 6 \<Longrightarrow> distinct ps \<Longrightarrow> 0 \<notin> set ps \<Longrightarrow> only_in ts (status (ap_lib (app_main ps)))"
  by (simp add: app_main_starts start_def only_in_def)

definition two_roles :: "app_role \<Rightarrow> app_role \<Rightarrow> tid \<Rightarrow> app_role" where
  "two_roles r s t = (if t = 1 then r else s)"

text \<open>A writer that waits for a reader, and the whole round of both.\<close>

definition app_round :: "app_event list" where
  "app_round = [Finds 1 0, Finds 2 0, Acts 1 [], Acts 2 [], Acts 1 [], Acts 1 [], Acts 1 [2], Acts 2 []] @ replicate 10 (Acts 2 [])"

definition three_roles :: "tid \<Rightarrow> app_role" where
  "three_roles t = (if t = 1 then Rdr else if t = 2 then Writer else Deleter)"

lemma crud_app_round:
  "\<exists>x. app_reach_until three_roles False {1, 2, 3} (app_main [1, 2, 3, 4, 5, 6]) x \<and>
     ap_out x = [(1, ''1.2.3.4''), (1, ''1.2.3.4''), (1, ''4.3.2.1'')] \<and> deleting three_roles {1, 2, 3} x"
proof -
  let ?x0 = "app_main [1, 2, 3, 4, 5, 6]" and ?view = "\<lambda>x. (ap_out x, deleting three_roles {1, 2, 3} x)"
  have "map_option ?view (app_execute_until three_roles [1, 2, 3] (Finds 3 0 # app_round @ [Acts 3 []]) ?x0) =
    Some ([(1, ''1.2.3.4''), (1, ''1.2.3.4''), (1, ''4.3.2.1'')], True)" by code_simp
  then obtain x where x: "app_execute_until three_roles [1, 2, 3] (Finds 3 0 # app_round @ [Acts 3 []]) ?x0 = Some x"
    "?view x = ([(1, ''1.2.3.4''), (1, ''1.2.3.4''), (1, ''4.3.2.1'')], True)" unfolding map_option_eq_Some by blast
  moreover have "only_in [1, 2, 3] (status (ap_lib ?x0))" by (rule only_in_main) simp_all
  ultimately have "app_reach_until three_roles False (set [1, 2, 3]) ?x0 x"
    using app_execute_until_from [OF _ until_start x(1)] by blast
  with x(2) show ?thesis by auto
qed

theorem crud_app_whole_witness:
  "\<exists>x. app_reach_until three_roles False {1, 2, 3} (app_main [1, 2, 3, 4, 5, 6]) x \<and> deleting three_roles {1, 2, 3} x \<and>
     ap_out x = [(1, ''1.2.3.4''), (1, ''1.2.3.4''), (1, ''4.3.2.1'')] \<and> \<not> app_ended x \<and>
     set (ap_out x) \<subseteq> {1} \<times> {''1.2.3.4'', ''4.3.2.1''} \<union> {2} \<times> {''5.6.7.8'', ''8.7.6.5''}"
proof -
  obtain x where x: "app_reach_until three_roles False {1, 2, 3} (app_main [1, 2, 3, 4, 5, 6]) x"
    "ap_out x = [(1, ''1.2.3.4''), (1, ''1.2.3.4''), (1, ''4.3.2.1'')]" "deleting three_roles {1, 2, 3} x" using crud_app_round by blast
  have "rw_valid [1, 2, 3, 4, 5, 6] {1, 2, 3}" by (simp add: rw_valid_def)
  from crud_app_whole [OF this _ x(1)]
  have "\<not> app_ended x" "set (ap_out x) \<subseteq> {1} \<times> {''1.2.3.4'', ''4.3.2.1''} \<union> {2} \<times> {''5.6.7.8'', ''8.7.6.5''}"
    by (simp_all del: One_nat_def)
  with x show ?thesis by (intro exI [of _ x] conjI)
qed

text \<open>With a deleting thread a reader can look up a student, the student can be deleted and freed, and the
  reader then requests access to a node that is no more. The manager still lists the freed node as idle: it
  was not destroyed.\<close>

definition app_delete_run :: "app_event list" where
  "app_delete_run = [Finds 1 0, Finds 2 0] @ replicate 7 (Acts 2 []) @ [Acts 1 []]"

theorem crud_app_freed:
  "\<exists>x. app_reach (two_roles Rdr Deleter) False {1, 2} (app_main [1, 2, 3, 4, 5, 6]) x \<and>
     aborted (ap_lib x) \<and> ap_pc x 1 = At_request 1 \<and> ap_pc x 2 = At_lookup \<and> stud_at 1 x = None \<and>
     1 \<in> set (cm_crud_nodes_list (shared (ap_lib x)) (crud_node_state_to_index crud_node_no_op))"
proof -
  let ?x0 = "app_main [1, 2, 3, 4, 5, 6]"
  let ?view = "\<lambda>x. (aborted (ap_lib x), ap_pc x 1, ap_pc x 2, stud_at 1 x = None,
    1 \<in> set (cm_crud_nodes_list (shared (ap_lib x)) (crud_node_state_to_index crud_node_no_op)))"
  have "map_option ?view (app_execute (two_roles Rdr Deleter) [1, 2] app_delete_run ?x0) = Some (True, At_request 1, At_lookup, True, True)"
    by code_simp
  moreover have "only_in [1, 2] (status (ap_lib ?x0))" by (rule only_in_main) simp_all
  ultimately obtain x where "app_reach (two_roles Rdr Deleter) False (set [1, 2]) ?x0 x"
    "?view x = (True, At_request 1, At_lookup, True, True)" by (rule app_execute_shows)
  then show ?thesis by auto
qed

end
