(* ===== verification/Vaccination.thy ===== *)
theory Vaccination
  imports Schedules
begin

text \<open>
  The vaccination centre of \<^verbatim>\<open>rw_locks/monitor/covidVaccination/covidVaccMonitor.c\<close>: a monitor
  that admits citizens of four kinds, each up to a limit of its own. A citizen that has to wait is in the
  waiting list of its kind and on the condition variable of its kind; a citizen that leaves chooses
  another from the waiting lists, takes it out and signals the condition variable of its kind.

  The intrusive waiting lists are the lists of \<open>Glthread\<close>. Thread \<open>t\<close> runs \<^verbatim>\<open>vaccination_drive\<close>
  for the citizen with address \<open>t\<close>.
\<close>

section \<open>The code\<close>

datatype citizen_type_t = TEENAGER_T | ADULT_T | SR_ADULT_T | OLD_T

record citizen =
  ct_age :: u8
  ct_is_vaccinated :: bool

definition citizen_type :: "citizen \<Rightarrow> citizen_type_t" where
  "citizen_type c =
     (if ct_age c \<ge> 13 \<and> ct_age c \<le> 19 then TEENAGER_T
      else if ct_age c \<ge> 20 \<and> ct_age c \<le> 35 then ADULT_T
      else if ct_age c \<ge> 36 \<and> ct_age c \<le> 60 then SR_ADULT_T
      else OLD_T)"

text \<open>The monitor of the centre, with the memory that holds the citizens.\<close>

record covid_center =
  cc_max_allowed :: "citizen_type_t \<Rightarrow> u16"
  cc_current :: "citizen_type_t \<Rightarrow> u16"
  cc_waiting_list :: "citizen_type_t \<Rightarrow> addr list"
  cc_citizens :: "addr \<Rightarrow> citizen"

definition ctype_at :: "addr \<Rightarrow> covid_center \<Rightarrow> citizen_type_t" where
  "ctype_at p s = citizen_type (cc_citizens s p)"

text \<open>The first citizen of the first list that is not empty, taken out of its list.\<close>

fun dequeue_first_of :: "citizen_type_t list \<Rightarrow> covid_center \<Rightarrow> addr option \<times> covid_center" where
  "dequeue_first_of [] s = (None, s)"
| "dequeue_first_of (k # ks) s = (case cc_waiting_list s k of
      [] \<Rightarrow> dequeue_first_of ks s
    | p # ps \<Rightarrow> (Some p, s\<lparr>cc_waiting_list := (cc_waiting_list s)(k := ps)\<rparr>))"

definition default_next_citizen :: "addr \<Rightarrow> covid_center \<Rightarrow> addr option \<times> covid_center" where
  "default_next_citizen p s = (case ctype_at p s of
      TEENAGER_T \<Rightarrow> dequeue_first_of [TEENAGER_T, ADULT_T, SR_ADULT_T, OLD_T] s
    | ADULT_T \<Rightarrow> dequeue_first_of [ADULT_T, SR_ADULT_T, OLD_T, TEENAGER_T] s
    | SR_ADULT_T \<Rightarrow> dequeue_first_of [SR_ADULT_T, OLD_T, TEENAGER_T, ADULT_T] s
    | OLD_T \<Rightarrow> dequeue_first_of [OLD_T, TEENAGER_T, ADULT_T, SR_ADULT_T] s)"

definition Covid_Center_init :: "covid_center \<Rightarrow> covid_center" where
  "Covid_Center_init s = s\<lparr>cc_max_allowed := (\<lambda>_. 1), cc_waiting_list := (\<lambda>_. []), cc_current := (\<lambda>_. 0)\<rparr>"

definition Covid_Center_Set_Capacity :: "citizen_type_t \<Rightarrow> u16 \<Rightarrow> covid_center \<Rightarrow> covid_center" where
  "Covid_Center_Set_Capacity k limit s = s\<lparr>cc_max_allowed := (cc_max_allowed s)(k := limit)\<rparr>"

datatype covid_cv = Covid_cv citizen_type_t
datatype covid_wait = Enter_wait
datatype covid_result = Entered citizen_type_t | Not_entered | Vaccinated | Exited

type_synonym covid_sect = "(covid_center, covid_result, covid_cv, covid_wait) sect"

text \<open>The loop of \<^verbatim>\<open>Enter_Covid_Vaccination_Center\<close> and what follows it.\<close>

definition enter_loop :: "addr \<Rightarrow> covid_center \<Rightarrow> covid_sect" where
  [sync_defs]: "enter_loop p s = (let k = ctype_at p s in
     if cc_max_allowed s k = cc_current s k then CvWait s (Covid_cv k) Enter_wait []
     else Unlocked (s\<lparr>cc_waiting_list := (cc_waiting_list s)(k := remove1 p (cc_waiting_list s k)),
                      cc_current := (cc_current s)(k := cc_current s k + 1)\<rparr>) (Entered k) [])"

definition Enter_Covid_Vaccination_Center :: "addr \<Rightarrow> covid_center \<Rightarrow> covid_sect" where
  [sync_defs]: "Enter_Covid_Vaccination_Center p s =
     (if ct_is_vaccinated (cc_citizens s p) then Unlocked s Not_entered []
      else let k = ctype_at p s in
        enter_loop p (s\<lparr>cc_waiting_list := (cc_waiting_list s)(k := cc_waiting_list s k @ [p])\<rparr>))"

definition Exit_Covid_Vaccination_Center :: "addr \<Rightarrow> covid_center \<Rightarrow> covid_sect" where
  [sync_defs]: "Exit_Covid_Vaccination_Center p s =
     check (ct_is_vaccinated (cc_citizens s p))
       (let k = ctype_at p s;
            (waiting, s2) = default_next_citizen p (s\<lparr>cc_current := (cc_current s)(k := cc_current s k - 1)\<rparr>)
        in Unlocked s2 Exited
             (case waiting of None \<Rightarrow> [] | Some q \<Rightarrow> [Signal (Covid_cv (ctype_at q s2))]))"

definition Citizen_Apply_Vaccine :: "addr \<Rightarrow> covid_center \<Rightarrow> covid_sect" where
  [sync_defs]: "Citizen_Apply_Vaccine p s =
     check (\<not> ct_is_vaccinated (cc_citizens s p))
       (Unlocked (s\<lparr>cc_citizens := (cc_citizens s)(p := (cc_citizens s p)\<lparr>ct_is_vaccinated := True\<rparr>)\<rparr>) Vaccinated [])"

section \<open>The threads\<close>

datatype covid_op = Enter_op | Vaccine_op | Exit_op

fun covid_enter :: "tid \<Rightarrow> covid_op \<Rightarrow> covid_center \<Rightarrow> covid_sect" where
  "covid_enter self Enter_op s = Enter_Covid_Vaccination_Center self s"
| "covid_enter self Vaccine_op s = Citizen_Apply_Vaccine self s"
| "covid_enter self Exit_op s = Exit_Covid_Vaccination_Center self s"

definition covid_resume :: "tid \<Rightarrow> covid_wait \<Rightarrow> covid_center \<Rightarrow> covid_sect" where
  [sync_defs]: "covid_resume self k s = enter_loop self s"

text \<open>Where a thread is in \<^verbatim>\<open>vaccination_drive\<close>, and for which kind of citizen it has entered.\<close>

datatype drive_point = At_enter | At_vaccine "citizen_type_t option" | At_exit "citizen_type_t option" | Gone_home

fun vaccination_drive :: "drive_point \<Rightarrow> covid_op \<Rightarrow> bool" where
  "vaccination_drive At_enter op \<longleftrightarrow> op = Enter_op"
| "vaccination_drive (At_vaccine k) op \<longleftrightarrow> op = Vaccine_op"
| "vaccination_drive (At_exit k) op \<longleftrightarrow> op = Exit_op"
| "vaccination_drive Gone_home op \<longleftrightarrow> False"

fun drive_next :: "covid_result \<Rightarrow> drive_point \<Rightarrow> drive_point" where
  "drive_next (Entered k) g = At_vaccine (Some k)"
| "drive_next Not_entered g = At_vaccine None"
| "drive_next Vaccinated (At_vaccine k) = At_exit k"
| "drive_next _ g = Gone_home"

definition covid_obj :: "(covid_center, drive_point, covid_op, covid_wait, covid_cv, covid_result) obj" where
  "covid_obj = \<lparr>enter = covid_enter, resume = covid_resume, may_call = vaccination_drive, on_return = drive_next\<rparr>"

lemma covid_obj_simps [simp]:
  "enter covid_obj = covid_enter" "resume covid_obj = covid_resume"
  "may_call covid_obj = vaccination_drive" "on_return covid_obj = drive_next"
  by (simp_all add: covid_obj_def)

text \<open>The centre that \<^verbatim>\<open>main\<close> sets up: the limits \<open>lim\<close>, and citizens of the ages \<open>age\<close>.\<close>

definition covid_setup :: "(citizen_type_t \<Rightarrow> u16) \<times> (addr \<Rightarrow> u8) \<Rightarrow> covid_center" where
  "covid_setup par = (case par of (lim, age) \<Rightarrow>
     Covid_Center_Set_Capacity OLD_T (lim OLD_T) (Covid_Center_Set_Capacity SR_ADULT_T (lim SR_ADULT_T)
       (Covid_Center_Set_Capacity ADULT_T (lim ADULT_T) (Covid_Center_Set_Capacity TEENAGER_T (lim TEENAGER_T)
         (Covid_Center_init \<lparr>cc_max_allowed = (\<lambda>_. 0), cc_current = (\<lambda>_. 0), cc_waiting_list = (\<lambda>_. []),
            cc_citizens = (\<lambda>p. \<lparr>ct_age = age p, ct_is_vaccinated = False\<rparr>)\<rparr>)))))"

definition kind_of :: "(addr \<Rightarrow> u8) \<Rightarrow> addr \<Rightarrow> citizen_type_t" where
  "kind_of age p = citizen_type \<lparr>ct_age = age p, ct_is_vaccinated = False\<rparr>"

lemma covid_setup_fields:
  "cc_max_allowed (covid_setup (lim, age)) = lim" "cc_current (covid_setup (lim, age)) k = 0"
  "cc_waiting_list (covid_setup (lim, age)) k = []"
  "cc_citizens (covid_setup (lim, age)) p = \<lparr>ct_age = age p, ct_is_vaccinated = False\<rparr>"
proof -
  have "((((\<lambda>_. 1)(TEENAGER_T := lim TEENAGER_T))(ADULT_T := lim ADULT_T))(SR_ADULT_T := lim SR_ADULT_T))(OLD_T := lim OLD_T) = lim"
    by (rule ext, case_tac x) auto
  then show "cc_max_allowed (covid_setup (lim, age)) = lim"
    by (simp add: covid_setup_def Covid_Center_Set_Capacity_def Covid_Center_init_def)
qed (simp_all add: covid_setup_def Covid_Center_Set_Capacity_def Covid_Center_init_def)

section \<open>The limits\<close>

fun in_centre :: "citizen_type_t \<Rightarrow> drive_point \<Rightarrow> bool" where
  "in_centre k (At_vaccine k') \<longleftrightarrow> k' = Some k"
| "in_centre k (At_exit k') \<longleftrightarrow> k' = Some k"
| "in_centre k _ \<longleftrightarrow> False"

definition inside :: "tid set \<Rightarrow> citizen_type_t \<Rightarrow> (tid \<Rightarrow> drive_point) \<Rightarrow> nat" where
  "inside T k g = count_threads T (in_centre k) g"

text \<open>What is known of a single thread: its citizen is vaccinated exactly after the vaccine, it is inside
  as a citizen of its own kind, and it waits only on the way in.\<close>

fun drive_ok :: "citizen_type_t \<Rightarrow> bool \<Rightarrow> drive_point \<Rightarrow> bool" where
  "drive_ok k vacc At_enter \<longleftrightarrow> \<not> vacc"
| "drive_ok k vacc (At_vaccine k') \<longleftrightarrow> \<not> vacc \<and> k' = Some k"
| "drive_ok k vacc (At_exit k') \<longleftrightarrow> vacc \<and> k' = Some k"
| "drive_ok k vacc Gone_home \<longleftrightarrow> vacc"

definition covid_inv :: "(citizen_type_t \<Rightarrow> u16) \<times> (addr \<Rightarrow> u8) \<Rightarrow> tid set \<Rightarrow> covid_center \<Rightarrow>
  (tid \<Rightarrow> drive_point) \<Rightarrow> (tid \<Rightarrow> covid_wait option) \<Rightarrow> bool" where
  "covid_inv par T s g w \<longleftrightarrow> cc_max_allowed s = fst par \<and>
     (\<forall>p. ct_age (cc_citizens s p) = snd par p) \<and>
     (\<forall>k. cc_current s k = of_nat (inside T k g) \<and> inside T k g \<le> unat (fst par k)) \<and>
     (\<forall>t. drive_ok (kind_of (snd par) t) (ct_is_vaccinated (cc_citizens s t)) (g t)) \<and>
     (\<forall>t. w t \<noteq> None \<longrightarrow> g t = At_enter)"

lemma ctype_at_kind: "ct_age (cc_citizens s p) = age p \<Longrightarrow> ctype_at p s = kind_of age p"
  by (simp add: ctype_at_def kind_of_def citizen_type_def)

lemma inside_enter:
  assumes "finite T" "t \<in> T" "g t = At_enter"
  shows "inside T k (g(t := At_vaccine (Some k'))) = (if k = k' then Suc (inside T k g) else inside T k g)"
  using assms by (simp add: inside_def count_threads_add count_threads_keep)

lemma inside_vaccine: "g t = At_vaccine k' \<Longrightarrow> inside T k (g(t := At_exit k')) = inside T k g"
  unfolding inside_def by (rule count_threads_keep) simp

lemma inside_exit:
  assumes "finite T" "t \<in> T" "g t = At_exit (Some k')"
  shows "inside T k g = (if k = k' then Suc (inside T k (g(t := Gone_home))) else inside T k (g(t := Gone_home)))"
  using assms count_threads_del [of T t "in_centre k" g Gone_home]
  by (cases "k = k'") (simp_all add: inside_def count_threads_keep)

lemma covid_inv_age: "covid_inv par T s g w \<Longrightarrow> ctype_at p s = kind_of (snd par) p"
  by (intro ctype_at_kind) (simp add: covid_inv_def)

text \<open>The waiting lists play no part in the limits.\<close>

lemma covid_inv_lists: "covid_inv par T (s\<lparr>cc_waiting_list := wl\<rparr>) g w \<longleftrightarrow> covid_inv par T s g w"
  by (simp add: covid_inv_def)

lemma enter_loop_keeps:
  assumes "finite T" "covid_inv par T s g w" "t \<in> T" "g t = At_enter"
  shows "keeps_monitor covid_obj (covid_inv par T) t g w (enter_loop t s)"
proof -
  let ?k = "kind_of (snd par) t"
  have age: "ctype_at t s = ?k" using assms(2) by (rule covid_inv_age)
  show ?thesis
  proof (cases "cc_max_allowed s ?k = cc_current s ?k")
    case True
    then show ?thesis using assms(2,4) by (simp add: enter_loop_def age Let_def covid_inv_def)
  next
    case False
    have "inside T ?k g \<le> unat (fst par ?k)" "of_nat (inside T ?k g) \<noteq> fst par ?k"
      using assms(2) False by (auto simp: covid_inv_def)
    then have "inside T ?k g \<noteq> unat (fst par ?k)" using u16_limit(2) by blast
    then have "Suc (inside T ?k g) \<le> unat (fst par ?k)" using \<open>inside T ?k g \<le> _\<close> by simp
    moreover have "\<not> ct_is_vaccinated (cc_citizens s t)" using assms(2,4) by (metis covid_inv_def drive_ok.simps(1))
    ultimately show ?thesis using assms False inside_enter [of T t g, OF assms(1,3,4)]
      by (simp add: enter_loop_def age Let_def covid_inv_def add.commute)
  qed
qed

lemma dequeue_first_of_fields:
  "cc_max_allowed (snd (dequeue_first_of ks s)) = cc_max_allowed s" "cc_current (snd (dequeue_first_of ks s)) = cc_current s"
  "cc_citizens (snd (dequeue_first_of ks s)) = cc_citizens s"
  by (induction ks) (simp_all split: list.splits)

lemma covid_inv_next: "covid_inv par T (snd (default_next_citizen p s)) g w \<longleftrightarrow> covid_inv par T s g w"
  by (simp add: default_next_citizen_def covid_inv_def dequeue_first_of_fields del: dequeue_first_of.simps split: citizen_type_t.splits)

lemma covid_call_keeps:
  assumes "finite T" "covid_inv par T s g w" "t \<in> T" "w t = None" "vaccination_drive (g t) op"
  shows "keeps_monitor covid_obj (covid_inv par T) t g w (covid_enter t op s)"
proof (cases op)
  case Enter_op
  then have g: "g t = At_enter" using assms(5) by (cases "g t") auto
  moreover have "\<not> ct_is_vaccinated (cc_citizens s t)" using assms(2) g by (metis covid_inv_def drive_ok.simps(1))
  ultimately show ?thesis using Enter_op assms
    by (auto simp: Enter_Covid_Vaccination_Center_def Let_def covid_inv_lists intro!: enter_loop_keeps)
next
  case Vaccine_op
  then obtain k where g: "g t = At_vaccine k" using assms(5) by (cases "g t") auto
  have ok: "drive_ok (kind_of (snd par) t) (ct_is_vaccinated (cc_citizens s t)) (g t)"
    using assms(2) by (simp add: covid_inv_def)
  then show ?thesis using Vaccine_op assms(2,4) g inside_vaccine [of g t k T]
    by (auto simp: Citizen_Apply_Vaccine_def check_def covid_inv_def)
next
  case Exit_op
  then obtain k' where g': "g t = At_exit k'" using assms(5) by (cases "g t") auto
  let ?k = "kind_of (snd par) t"
  let ?s = "s\<lparr>cc_current := (cc_current s)(?k := cc_current s ?k - 1)\<rparr>"
  have ok: "drive_ok ?k (ct_is_vaccinated (cc_citizens s t)) (g t)" using assms(2) by (simp add: covid_inv_def)
  then have v: "ct_is_vaccinated (cc_citizens s t)" and g: "g t = At_exit (Some ?k)" using g' by auto
  have age: "ctype_at t s = ?k" using assms(2) by (rule covid_inv_age)
  have ins: "inside T k g = (if k = ?k then Suc (inside T k (g(t := Gone_home))) else inside T k (g(t := Gone_home)))" for k
    using inside_exit [of T t g, OF assms(1,3) g] .
  have old: "cc_max_allowed s = fst par" "\<And>p. ct_age (cc_citizens s p) = snd par p"
    "\<And>k. cc_current s k = of_nat (inside T k g)" "\<And>k. inside T k g \<le> unat (fst par k)"
    "\<And>u. drive_ok (kind_of (snd par) u) (ct_is_vaccinated (cc_citizens s u)) (g u)" "\<And>u. w u \<noteq> None \<Longrightarrow> g u = At_enter"
    using assms(2) by (simp_all add: covid_inv_def)
  have "cc_current ?s k = of_nat (inside T k (g(t := Gone_home)))" "inside T k (g(t := Gone_home)) \<le> unat (fst par k)" for k
    using old(3,4) [of k] ins [of k] by (auto split: if_splits)
  then have "covid_inv par T ?s (g(t := Gone_home)) (w(t := None))"
    using old(1,2,5,6) v unfolding covid_inv_def by simp
  then have "covid_inv par T (snd (default_next_citizen t ?s)) (g(t := Gone_home)) (w(t := None))"
    by (simp add: covid_inv_next)
  then show ?thesis using Exit_op v g by (simp add: Exit_Covid_Vaccination_Center_def check_def age Let_def case_prod_beta)
qed

interpretation covid: sync_monitor "\<lambda>par T. finite T" "\<lambda>par. covid_obj" covid_setup At_enter covid_inv
proof (unfold_locales, goal_cases)
  case (1 par T)
  then show ?case
    by (cases par) (simp add: covid_inv_def covid_setup_fields inside_def count_threads_def)
next
  case (2 par T s g w t op)
  then show ?case by (simp add: covid_call_keeps)
next
  case (3 par T s g w t k)
  then show ?case by (simp add: covid_resume_def) (auto intro!: enter_loop_keeps simp: covid_inv_def)
qed

section \<open>Room for everybody\<close>

definition enough_room :: "(citizen_type_t \<Rightarrow> u16) \<times> (addr \<Rightarrow> u8) \<Rightarrow> tid set \<Rightarrow> bool" where
  "enough_room par T \<longleftrightarrow> (\<forall>k. card {t \<in> T. kind_of (snd par) t = k} \<le> unat (fst par k))"

lemma room_to_enter:
  assumes "finite T" "covid_inv par T s g w" "enough_room par T" "t \<in> T" "g t = At_enter"
  shows "cc_max_allowed s (ctype_at t s) \<noteq> cc_current s (ctype_at t s)"
proof -
  let ?k = "kind_of (snd par) t"
  have ok: "drive_ok (kind_of (snd par) u) (ct_is_vaccinated (cc_citizens s u)) (g u)" for u
    using assms(2) by (simp add: covid_inv_def)
  have kind: "kind_of (snd par) u = ?k" if "in_centre ?k (g u)" for u using ok [of u] that by (cases "g u") auto
  have "{u \<in> T. in_centre ?k (g u)} \<subseteq> {u \<in> T. kind_of (snd par) u = ?k}" using kind by blast
  moreover have "t \<notin> {u \<in> T. in_centre ?k (g u)}" using assms(5) by simp
  ultimately have "{u \<in> T. in_centre ?k (g u)} \<subset> {u \<in> T. kind_of (snd par) u = ?k}" using assms(4) by blast
  then have "inside T ?k g < card {u \<in> T. kind_of (snd par) u = ?k}"
    unfolding inside_def count_threads_def using assms(1) by (intro psubset_card_mono) auto
  then have less: "inside T ?k g < unat (fst par ?k)" using assms(3) by (auto simp: enough_room_def intro: less_le_trans)
  then have "of_nat (inside T ?k g) \<noteq> fst par ?k" using u16_limit(2) [of "inside T ?k g" "fst par ?k"] by simp
  then show ?thesis using assms(2) by (simp add: covid_inv_age [OF assms(2)]) (auto simp: covid_inv_def)
qed

interpretation room: sync_monitor "\<lambda>par T. finite T \<and> enough_room par T" "\<lambda>par. covid_obj" covid_setup At_enter
  "\<lambda>par T s g w. covid_inv par T s g w \<and> w = (\<lambda>_. None)"
proof (unfold_locales, goal_cases)
  case (1 par T)
  then show ?case using covid.m_initially by simp
next
  case (2 par T s g w t op)
  then have keeps: "keeps_monitor covid_obj (covid_inv par T) t g w (covid_enter t op s)"
    by (intro covid_call_keeps) auto
  have enter: "\<exists>s1 r ss. enter_loop t (s\<lparr>cc_waiting_list := wl\<rparr>) = Unlocked s1 r ss" if "op = Enter_op" for wl
  proof -
    have "g t = At_enter" using 2 that by (cases "g t") auto
    then have "cc_max_allowed s (ctype_at t s) \<noteq> cc_current s (ctype_at t s)" using 2 by (intro room_to_enter [of T par s g w]) auto
    then show ?thesis by (simp add: enter_loop_def Let_def ctype_at_def)
  qed
  have "\<exists>s1 r ss. covid_enter t op s = Unlocked s1 r ss"
  proof (cases op)
    case Enter_op
    then show ?thesis using enter by (simp add: Enter_Covid_Vaccination_Center_def Let_def)
  next
    case Vaccine_op
    then show ?thesis using keeps by (auto simp: Citizen_Apply_Vaccine_def check_def split: if_splits)
  next
    case Exit_op
    then show ?thesis using keeps
      by (auto simp: Exit_Covid_Vaccination_Center_def check_def Let_def case_prod_beta split: if_splits)
  qed
  then obtain s1 r ss where "covid_enter t op s = Unlocked s1 r ss" by blast
  then show ?case using keeps 2 by (simp add: fun_upd_idem)
next
  case (3 par T s g w t k)
  then show ?case by simp
qed

section \<open>Properties\<close>

text \<open>C38. The limits of the centre: whatever the ages of the citizens, the limits, the interleaving of the
  threads and the spurious wake-ups, no assertion fails, the number of citizens of a kind who are inside is
  the counter of the monitor and never above the limit of the kind, and who goes home is vaccinated.\<close>

theorem covid_limits:
  assumes "finite T" "reach covid_obj sp T (covid_setup (lim, age)) At_enter c"
  shows "\<not> aborted c \<and>
    (\<forall>k. inside T k (ghost c) \<le> unat (lim k) \<and> cc_current (shared c) k = of_nat (inside T k (ghost c))) \<and>
    (\<forall>t. ghost c t = Gone_home \<longrightarrow> ct_is_vaccinated (cc_citizens (shared c) t))"
proof -
  have "covid_inv (lim, age) T (shared c) (ghost c) (\<lambda>x. pending (status c x))"
    using covid.monitor_inv [where p = "(lim, age)", OF assms] by simp
  moreover from this have "\<forall>t. ghost c t = Gone_home \<longrightarrow> ct_is_vaccinated (cc_citizens (shared c) t)"
    by (metis covid_inv_def drive_ok.simps(4))
  ultimately show ?thesis using covid.monitor_not_aborted [where p = "(lim, age)", OF assms]
    by (simp add: covid_inv_def)
qed

text \<open>With room for everybody nobody ever waits, and as long as a citizen has not gone home its thread can
  go on.\<close>

theorem covid_room_progress:
  assumes "finite T" "enough_room (lim, age) T" "reach covid_obj sp T (covid_setup (lim, age)) At_enter c"
  shows "(\<forall>t. status c t = Running) \<and> (\<forall>t\<in>T. ghost c t \<noteq> Gone_home \<longrightarrow> (\<exists>d. step covid_obj sp T c d))"
proof -
  have inv: "covid_inv (lim, age) T (shared c) (ghost c) (\<lambda>x. pending (status c x))" "(\<lambda>x. pending (status c x)) = (\<lambda>_. None)"
    "\<not> aborted c"
    using room.monitor_inv [where p = "(lim, age)", OF _ assms(3)] room.monitor_not_aborted [where p = "(lim, age)", OF _ assms(3)] assms by auto
  have run: "status c t = Running" for t using inv(2) by (metis pending_None)
  have "\<exists>d. step covid_obj sp T c d" if t: "t \<in> T" "ghost c t \<noteq> Gone_home" for t
  proof -
    obtain op where op: "vaccination_drive (ghost c t) op" using t(2) by (cases "ghost c t") auto
    have "keeps_monitor covid_obj (\<lambda>s g w. covid_inv (lim, age) T s g w \<and> w = (\<lambda>_. None)) t (ghost c) (\<lambda>_. None) (covid_enter t op (shared c))"
      using room.m_call [of T "(lim, age)" "shared c" "ghost c" "\<lambda>_. None" t op] assms inv t op by simp
    then obtain s1 r ss where sec: "covid_enter t op (shared c) = Unlocked s1 r ss"
      by (cases "covid_enter t op (shared c)") (auto dest: fun_cong [of _ _ t])
    have all: "status c = (\<lambda>_. Running)" using run by auto
    have "wakes ss (status c) (status c)" unfolding all by (rule wakes_nobody)
    then have "\<exists>d. finish covid_obj t (covid_enter t op (shared c)) c d" using run by (auto simp: sec fun_upd_idem)
    then obtain d where "finish covid_obj t (covid_enter t op (shared c)) c d" ..
    then have "step covid_obj sp T c d" using inv(3) t op run by (intro step.call [of c t]) auto
    then show ?thesis ..
  qed
  then show ?thesis using run by blast
qed

text \<open>Runs of the centre, seen from a list of threads.\<close>

definition covid_view :: "tid list \<Rightarrow> (covid_center, drive_point, covid_wait, covid_cv) config \<Rightarrow>
  (drive_point \<times> (covid_cv, covid_wait) thread_status) list \<times> bool" where
  "covid_view ts c = (map (\<lambda>t. (ghost c t, status c t)) ts, aborted c)"

text \<open>A configuration in which nothing can happen any more.\<close>

lemma covid_stuck:
  assumes "\<And>t. t \<in> T \<Longrightarrow> (ghost c t = Gone_home \<and> status c t = Running) \<or> is_blocked (status c t)"
  shows "\<not> step covid_obj False T c d"
proof
  assume "step covid_obj False T c d"
  then show False
  proof cases
    case (call t op)
    then show False using assms [of t] by auto
  next
    case (return_from_wait t k)
    then show False using assms [of t] by auto
  qed simp
qed

text \<open>Lost wake-ups. A citizen who leaves takes another out of the waiting lists, and who has been
  taken out but cannot enter (because the place is of another kind, or because another thread was woken
  by the signal) waits again without being in a list: nobody will ever wake its thread. In both runs each
  kind has one place and all threads but one have gone home; the centre is empty and the last
  thread waits for ever.\<close>

theorem covid_lost_wakeups:
  "(\<exists>c. reach covid_obj False {1, 2, 3} (covid_setup (\<lambda>_. 1, \<lambda>p. if p = 3 then 14 else 30)) At_enter c \<and>
     status c 2 = Blocked (Covid_cv ADULT_T) Enter_wait \<and> ghost c 1 = Gone_home \<and> ghost c 3 = Gone_home \<and>
     {d. step covid_obj False {1, 2, 3} c d} = {}) \<and>
   (\<exists>c. reach covid_obj False {1, 2, 3} (covid_setup (\<lambda>_. 1, \<lambda>p. 30)) At_enter c \<and>
     status c 2 = Blocked (Covid_cv ADULT_T) Enter_wait \<and> ghost c 1 = Gone_home \<and> ghost c 3 = Gone_home \<and>
     {d. step covid_obj False {1, 2, 3} c d} = {})"
proof -
  let ?stop = "([(Gone_home, Running), (At_enter, Blocked (Covid_cv ADULT_T) Enter_wait), (Gone_home, Running)], False)"
  have stuck: "status c 2 = Blocked (Covid_cv ADULT_T) Enter_wait \<and> ghost c 1 = Gone_home \<and> ghost c 3 = Gone_home \<and>
     {d. step covid_obj False {1, 2, 3} c d} = {}" if view: "covid_view [1, 2, 3] c = ?stop" for c
  proof -
    have "\<not> step covid_obj False {1, 2, 3} c d" for d by (rule covid_stuck) (use view in \<open>auto simp: covid_view_def\<close>)
    then show ?thesis using view by (simp add: covid_view_def)
  qed
  have "map_option (covid_view [1, 2, 3]) (execute covid_obj False [1, 2, 3]
      [Call 1 Enter_op [], Call 2 Enter_op [], Call 3 Enter_op [], Call 3 Vaccine_op [], Call 3 Exit_op [2],
       Continue 2 [], Call 1 Vaccine_op [], Call 1 Exit_op []]
      (start (covid_setup (\<lambda>_. 1, \<lambda>p. if p = 3 then 14 else 30)) At_enter)) = Some ?stop" by code_simp
  then obtain c1 where c1: "reach covid_obj False (set [1, 2, 3]) (covid_setup (\<lambda>_. 1, \<lambda>p. if p = 3 then 14 else 30)) At_enter c1"
    "covid_view [1, 2, 3] c1 = ?stop" by (rule execute_shows)
  have "map_option (covid_view [1, 2, 3]) (execute covid_obj False [1, 2, 3]
      [Call 1 Enter_op [], Call 2 Enter_op [], Call 3 Enter_op [], Call 1 Vaccine_op [], Call 1 Exit_op [3],
       Continue 3 [], Call 3 Vaccine_op [], Call 3 Exit_op []]
      (start (covid_setup (\<lambda>_. 1, \<lambda>p. 30)) At_enter)) = Some ?stop" by code_simp
  then obtain c2 where c2: "reach covid_obj False (set [1, 2, 3]) (covid_setup (\<lambda>_. 1, \<lambda>p. 30)) At_enter c2"
    "covid_view [1, 2, 3] c2 = ?stop" by (rule execute_shows)
  show ?thesis using c1(1) stuck [OF c1(2)] c2(1) stuck [OF c2(2)] by simp blast
qed

theorem covid_limits_witness:
  "\<exists>c. reach covid_obj True {1, 2} (covid_setup (\<lambda>_. 1, \<lambda>p. 30)) At_enter c \<and> ghost c 1 = Gone_home \<and>
    ct_is_vaccinated (cc_citizens (shared c) 1) \<and> inside {1, 2} ADULT_T (ghost c) \<le> 1"
proof -
  have "map_option (covid_view [1, 2]) (execute covid_obj False [1, 2]
      [Call 1 Enter_op [], Call 2 Enter_op [], Call 1 Vaccine_op [], Call 1 Exit_op [2], Continue 2 []]
      (start (covid_setup (\<lambda>_. 1, \<lambda>p. 30)) At_enter)) =
    Some ([(Gone_home, Running), (At_vaccine (Some ADULT_T), Running)], False)" by code_simp
  then obtain c where c: "reach covid_obj False (set [1, 2]) (covid_setup (\<lambda>_. 1, \<lambda>p. 30)) At_enter c"
    "covid_view [1, 2] c = ([(Gone_home, Running), (At_vaccine (Some ADULT_T), Running)], False)" by (rule execute_shows)
  have run: "reach covid_obj True {1, 2} (covid_setup (\<lambda>_. 1, \<lambda>p. 30)) At_enter c"
    using reach_mono [OF c(1)] by simp
  have "unat (1 :: u16) = 1" by simp
  with covid_limits [OF _ run] c(2) run show ?thesis by (intro exI [of _ c]) (auto simp: covid_view_def)
qed

text \<open>A limit that is set below the number of citizens inside is never met again: the test of the loop is
  an equation, and every later citizen is admitted until the counter has gone round.\<close>

lemma covid_capacity_lowered:
  assumes "limit < cc_current s k" "ctype_at p s = k" "\<not> ct_is_vaccinated (cc_citizens s p)"
  shows "\<exists>s1. Enter_Covid_Vaccination_Center p (Covid_Center_Set_Capacity k limit s) = Unlocked s1 (Entered k) []"
  using assms by (auto simp: sync_defs Let_def Covid_Center_Set_Capacity_def ctype_at_def)

text \<open>The ages below 13 count as old.\<close>

lemma citizen_type_child: "ct_age c < 13 \<Longrightarrow> citizen_type c = OLD_T"
  by (auto simp: citizen_type_def word_le_nat_alt word_less_nat_alt)

end
