(* ===== verification/OldMonitor.thy ===== *)
theory OldMonitor
  imports Schedules
begin

text \<open>
  The first version of the monitor, \<^verbatim>\<open>Monitors/monitor.c\<close>: readers and writers of a resource, each
  thread with a condition variable of its own, a list of the readers and one of the writers that wait,
  and a list of the threads that use the resource. A thread that has been woken takes itself out of the
  list it waited in, but does not add itself to the list of users, and it waits once and not in a
  loop. So the monitor is exclusive for writers alone, and not when readers are woken.

  The intrusive lists are the lists of \<open>Glthread\<close>; a thread has one glue, so it is in one list at most.
\<close>

section \<open>The code\<close>

datatype thread_op_type = THREAD_READER | THREAD_WRITER

datatype resource_status = MON_RES_AVAILABLE | MON_RES_BUSY_BY_READER | MON_RES_BUSY_BY_WRITER

record res_monitor =
  om_writer_thread_wait_q :: "tid list"
  om_reader_thread_wait_q :: "tid list"
  om_resource_using_threads_q :: "tid list"
  om_resource_status :: resource_status
  om_thread_op :: "tid \<Rightarrow> thread_op_type"

text \<open>\<^verbatim>\<open>init_monitor\<close>; the operations of the threads are fields of the threads.\<close>

definition om_init_monitor :: "(tid \<Rightarrow> thread_op_type) \<Rightarrow> res_monitor" where
  "om_init_monitor ops = \<lparr>om_writer_thread_wait_q = [], om_reader_thread_wait_q = [], om_resource_using_threads_q = [],
     om_resource_status = MON_RES_AVAILABLE, om_thread_op = ops\<rparr>"

datatype om_cv = Thread_cv tid
datatype om_wait = Om_wait
datatype om_result = Om_granted | Om_released

type_synonym om_sect = "(res_monitor, om_result, om_cv, om_wait) sect"

definition busy_by :: "thread_op_type \<Rightarrow> resource_status" where
  "busy_by op = (if op = THREAD_READER then MON_RES_BUSY_BY_READER else MON_RES_BUSY_BY_WRITER)"

text \<open>\<^verbatim>\<open>remove_glthread\<close> of the glue of a thread: out of the list it is in, if any.\<close>

definition unlink_thread :: "tid \<Rightarrow> res_monitor \<Rightarrow> res_monitor" where
  "unlink_thread t m = m\<lparr>om_writer_thread_wait_q := remove1 t (om_writer_thread_wait_q m),
     om_reader_thread_wait_q := remove1 t (om_reader_thread_wait_q m),
     om_resource_using_threads_q := remove1 t (om_resource_using_threads_q m)\<rparr>"

definition om_wait_list_client_thread :: "tid \<Rightarrow> res_monitor \<Rightarrow> om_sect" where
  "om_wait_list_client_thread t m =
     CvWait (if om_thread_op m t = THREAD_READER
             then m\<lparr>om_reader_thread_wait_q := t # om_reader_thread_wait_q m\<rparr>
             else m\<lparr>om_writer_thread_wait_q := t # om_writer_thread_wait_q m\<rparr>) (Thread_cv t) Om_wait []"

definition om_request_access_permission :: "tid \<Rightarrow> res_monitor \<Rightarrow> om_sect" where
  "om_request_access_permission t m =
     (if om_resource_status m = MON_RES_AVAILABLE
      then Unlocked (m\<lparr>om_resource_status := busy_by (om_thread_op m t),
                       om_resource_using_threads_q := t # om_resource_using_threads_q m\<rparr>) Om_granted []
      else if om_thread_op m t = THREAD_READER \<and> om_resource_status m = MON_RES_BUSY_BY_READER
      then Unlocked (m\<lparr>om_resource_using_threads_q := t # om_resource_using_threads_q m\<rparr>) Om_granted []
      else om_wait_list_client_thread t m)"

text \<open>What follows the wait.\<close>

definition om_request_resumed :: "tid \<Rightarrow> res_monitor \<Rightarrow> om_sect" where
  "om_request_resumed t m =
     Unlocked (unlink_thread t (m\<lparr>om_resource_status := busy_by (om_thread_op m t)\<rparr>)) Om_granted []"

text \<open>The loop that wakes the readers: the monitor after it, and the signals.\<close>

fun om_awaken_readers :: "tid list \<Rightarrow> res_monitor \<Rightarrow> res_monitor \<times> om_cv wakeup list" where
  "om_awaken_readers [] m = (m, [])"
| "om_awaken_readers (r # rs) m =
     (let (m', ss) = om_awaken_readers rs
            (m\<lparr>om_reader_thread_wait_q := rs, om_resource_status := MON_RES_BUSY_BY_READER\<rparr>)
      in (m', Signal (Thread_cv r) # ss))"

definition om_inform_resource_released :: "tid \<Rightarrow> res_monitor \<Rightarrow> om_sect" where
  "om_inform_resource_released t m0 =
     (let m = unlink_thread t m0 in
      if om_resource_using_threads_q m \<noteq> [] then Unlocked m Om_released []
      else if om_reader_thread_wait_q m = []
      then (case om_writer_thread_wait_q m of
              [] \<Rightarrow> Unlocked (m\<lparr>om_resource_status := MON_RES_AVAILABLE\<rparr>) Om_released []
            | w # ws \<Rightarrow> Unlocked (m\<lparr>om_writer_thread_wait_q := ws, om_resource_status := MON_RES_BUSY_BY_WRITER\<rparr>)
                          Om_released [Signal (Thread_cv w)])
      else (let (m', ss) = om_awaken_readers (om_reader_thread_wait_q m) m in Unlocked m' Om_released ss))"

section \<open>The object\<close>

datatype om_op = Om_request | Om_release

fun om_enter :: "tid \<Rightarrow> om_op \<Rightarrow> res_monitor \<Rightarrow> om_sect" where
  "om_enter self Om_request m = om_request_access_permission self m"
| "om_enter self Om_release m = om_inform_resource_released self m"

definition om_resume :: "tid \<Rightarrow> om_wait \<Rightarrow> res_monitor \<Rightarrow> om_sect" where
  "om_resume self k m = om_request_resumed self m"

text \<open>A thread requests when it does not use the resource, and releases when it does.\<close>

datatype om_use = Idle | Using

fun om_client :: "om_use \<Rightarrow> om_op \<Rightarrow> bool" where
  "om_client g Om_request \<longleftrightarrow> g = Idle"
| "om_client g Om_release \<longleftrightarrow> g = Using"

fun om_note :: "om_result \<Rightarrow> om_use \<Rightarrow> om_use" where
  "om_note Om_granted g = Using"
| "om_note Om_released g = Idle"

definition om_obj :: "(res_monitor, om_use, om_op, om_wait, om_cv, om_result) obj" where
  "om_obj = \<lparr>enter = om_enter, resume = om_resume, may_call = om_client, on_return = om_note\<rparr>"

lemma om_obj_simps [simp]:
  "enter om_obj = om_enter" "resume om_obj = om_resume" "may_call om_obj = om_client" "on_return om_obj = om_note"
  by (simp_all add: om_obj_def)

section \<open>Writers only\<close>

text \<open>A writer owns the resource from the moment it is woken.\<close>

definition om_owns :: "(tid \<Rightarrow> om_use) \<Rightarrow> (tid \<Rightarrow> (om_cv, om_wait) thread_status) \<Rightarrow> tid \<Rightarrow> bool" where
  "om_owns g f t \<longleftrightarrow> g t = Using \<or> is_woken (f t)"

definition own_cvs :: "(tid \<Rightarrow> (om_cv, om_wait) thread_status) \<Rightarrow> bool" where
  "own_cvs f \<longleftrightarrow> (\<forall>t. is_blocked (f t) \<longrightarrow> f t = Blocked (Thread_cv t) Om_wait)"

lemma own_cvs_simps [simp]:
  "own_cvs f \<Longrightarrow> own_cvs (f(t := Running))" "own_cvs f \<Longrightarrow> own_cvs (f(t := Woken k))"
  "own_cvs f \<Longrightarrow> own_cvs (f(t := Blocked (Thread_cv t) Om_wait))"
  by (simp_all add: own_cvs_def)

definition om_inv :: "(tid \<Rightarrow> thread_op_type) \<Rightarrow> tid set \<Rightarrow> res_monitor \<Rightarrow> (tid \<Rightarrow> om_use) \<Rightarrow>
  (tid \<Rightarrow> (om_cv, om_wait) thread_status) \<Rightarrow> bool" where
  "om_inv ops T m g f \<longleftrightarrow> om_thread_op m = ops \<and> om_reader_thread_wait_q m = [] \<and>
     distinct (om_writer_thread_wait_q m) \<and> (\<forall>t. t \<in> set (om_writer_thread_wait_q m) \<longleftrightarrow> is_blocked (f t)) \<and>
     own_cvs f \<and> (\<forall>t. g t = Using \<longrightarrow> f t = Running) \<and>
     (if om_resource_status m = MON_RES_AVAILABLE
      then (\<forall>t. \<not> om_owns g f t) \<and> om_writer_thread_wait_q m = [] \<and> om_resource_using_threads_q m = []
      else om_resource_status m = MON_RES_BUSY_BY_WRITER \<and>
           (\<exists>t. om_owns g f = (\<lambda>u. u = t) \<and> (om_resource_using_threads_q m = [] \<or> om_resource_using_threads_q m = [t])))"

lemma om_request_keeps:
  assumes "\<forall>t\<in>T. ops t = THREAD_WRITER" "om_inv ops T m g f" "t \<in> T" "f t = Running" "g t = Idle"
  shows "keeps om_obj (om_inv ops T) t g f (om_request_access_permission t m)"
proof (cases "om_resource_status m = MON_RES_AVAILABLE")
  case True
  then have none: "\<And>u. \<not> om_owns g f u" "om_writer_thread_wait_q m = []" "om_resource_using_threads_q m = []"
    using assms(2) by (auto simp: om_inv_def)
  have "om_owns (g(t := Using)) f = (\<lambda>u. u = t)" using none(1) by (auto simp: om_owns_def fun_eq_iff)
  then show ?thesis using True assms none
    by (auto simp: om_request_access_permission_def busy_by_def om_inv_def fun_upd_idem)
next
  case False
  then obtain u where u: "om_owns g f = (\<lambda>v. v = u)" "om_resource_using_threads_q m = [] \<or> om_resource_using_threads_q m = [u]"
    using assms(2) by (auto simp: om_inv_def)
  have "om_owns g (f(t := Blocked (Thread_cv t) Om_wait)) = om_owns g f"
    using assms(4,5) by (auto simp: om_owns_def fun_eq_iff)
  then show ?thesis using False assms u
    by (auto simp: om_request_access_permission_def om_wait_list_client_thread_def om_inv_def fun_upd_idem)
qed

lemma om_resumed_keeps:
  assumes "\<forall>t\<in>T. ops t = THREAD_WRITER" "om_inv ops T m g f" "t \<in> T" "f t = Woken k"
  shows "keeps om_obj (om_inv ops T) t g f (om_request_resumed t m)"
proof -
  have own: "om_owns g f t" using assms(4) by (simp add: om_owns_def)
  then obtain u where "om_resource_status m = MON_RES_BUSY_BY_WRITER" "om_owns g f = (\<lambda>v. v = u)"
    "om_resource_using_threads_q m = [] \<or> om_resource_using_threads_q m = [u]"
    using assms(2) by (auto simp: om_inv_def split: if_splits)
  then have st: "om_resource_status m = MON_RES_BUSY_BY_WRITER" "om_owns g f = (\<lambda>v. v = t)"
    "om_resource_using_threads_q m = [] \<or> om_resource_using_threads_q m = [t]" using own by auto
  have inv: "om_thread_op m = ops" "om_reader_thread_wait_q m = []" "distinct (om_writer_thread_wait_q m)" "own_cvs f"
    "\<And>v. v \<in> set (om_writer_thread_wait_q m) \<longleftrightarrow> is_blocked (f v)" "\<And>v. g v = Using \<Longrightarrow> f v = Running"
    using assms(2) unfolding om_inv_def by blast+
  let ?m = "unlink_thread t (m\<lparr>om_resource_status := busy_by (om_thread_op m t)\<rparr>)"
  have m: "om_thread_op ?m = ops" "om_reader_thread_wait_q ?m = []" "om_writer_thread_wait_q ?m = om_writer_thread_wait_q m"
    "om_resource_status ?m = MON_RES_BUSY_BY_WRITER" "om_resource_using_threads_q ?m = []"
    using inv(1,2) inv(5) [of t] assms(1,3,4) st(3) by (auto simp: unlink_thread_def busy_by_def remove1_idem)
  have "om_owns (g(t := Using)) (f(t := Running)) = (\<lambda>v. v = t)" using st(2) by (auto simp: om_owns_def fun_eq_iff)
  moreover have "is_blocked ((f(t := Running)) v) \<longleftrightarrow> is_blocked (f v)" for v using assms(4) by simp
  moreover have "(f(t := Running)) v = Running" if "(g(t := Using)) v = Using" for v using inv(6) [of v] that by (cases "v = t") auto
  ultimately have "om_inv ops T ?m (g(t := Using)) (f(t := Running))"
    unfolding om_inv_def m using inv(3,5) own_cvs_simps(1) [OF inv(4)] by (simp add: exI [of _ t])
  then show ?thesis by (simp add: om_request_resumed_def)
qed

lemma wakes_own_cv:
  assumes "own_cvs f" "is_blocked (f w)"
  shows "wakes [Signal (Thread_cv w)] f h \<longleftrightarrow> h = f(w := Woken Om_wait)"
proof -
  have fw: "f w = Blocked (Thread_cv w) Om_wait" using assms by (simp add: own_cvs_def)
  have "blocked_on (Thread_cv w) (f u) \<longleftrightarrow> u = w" for u
  proof
    assume u: "blocked_on (Thread_cv w) (f u)"
    then have "is_blocked (f u)" by (auto simp: is_blocked_iff)
    then have "f u = Blocked (Thread_cv u) Om_wait" using assms(1) by (simp add: own_cvs_def)
    then show "u = w" using u by simp
  qed (simp add: fw)
  moreover have "wake_one w f = f(w := Woken Om_wait)" using fw by (auto simp: wake_one_def)
  ultimately show ?thesis by auto
qed

lemma om_release_keeps:
  assumes "\<forall>t\<in>T. ops t = THREAD_WRITER" "om_inv ops T m g f" "t \<in> T" "f t = Running" "g t = Using"
  shows "keeps om_obj (om_inv ops T) t g f (om_inform_resource_released t m)"
proof -
  have own: "om_owns g f t" using assms(5) by (simp add: om_owns_def)
  then obtain u where "om_resource_status m = MON_RES_BUSY_BY_WRITER" "om_owns g f = (\<lambda>v. v = u)"
    "om_resource_using_threads_q m = [] \<or> om_resource_using_threads_q m = [u]"
    using assms(2) by (auto simp: om_inv_def split: if_splits)
  then have st: "om_owns g f = (\<lambda>v. v = t)" "remove1 t (om_resource_using_threads_q m) = []" using own by auto
  have wq: "remove1 t (om_writer_thread_wait_q m) = om_writer_thread_wait_q m" "om_reader_thread_wait_q m = []"
    using assms(2,4) by (auto simp: om_inv_def remove1_idem)
  have fr: "f(t := Running) = f" using assms(4) by (simp add: fun_upd_idem)
  have only: "g v \<noteq> Using \<and> \<not> is_woken (f v)" if "v \<noteq> t" for v using fun_cong [OF st(1), of v] that by (simp add: om_owns_def)
  show ?thesis
  proof (cases "om_writer_thread_wait_q m")
    case Nil
    have "\<not> om_owns (g(t := Idle)) f v" for v using only [of v] assms(4) by (auto simp: om_owns_def)
    then show ?thesis using assms wq st(2) Nil
      by (auto simp: om_inform_resource_released_def unlink_thread_def Let_def om_inv_def fr)
  next
    case (Cons w ws)
    have cvs: "own_cvs f" and w: "is_blocked (f w)"
      and q: "distinct (w # ws)" "\<And>v. v \<in> set (w # ws) \<longleftrightarrow> is_blocked (f v)"
      using assms(2) Cons by (auto simp: om_inv_def)
    have sec: "om_inform_resource_released t m = Unlocked (m\<lparr>om_writer_thread_wait_q := ws,
        om_resource_using_threads_q := [], om_resource_status := MON_RES_BUSY_BY_WRITER\<rparr>) Om_released [Signal (Thread_cv w)]"
      using Cons wq st(2) by (simp add: om_inform_resource_released_def unlink_thread_def Let_def)
    have wt: "w \<noteq> t" using w assms(4) by auto
    have "om_owns (g(t := Idle)) (f(w := Woken Om_wait)) = (\<lambda>v. v = w)"
      using only assms(4) wt by (auto simp: om_owns_def fun_eq_iff)
    moreover have "v \<in> set ws \<longleftrightarrow> is_blocked ((f(w := Woken Om_wait)) v)" for v using q(1) q(2) [of v] by auto
    moreover have "g w \<noteq> Using" using only [OF wt] by simp
    ultimately have "om_inv ops T (m\<lparr>om_writer_thread_wait_q := ws, om_resource_using_threads_q := [],
        om_resource_status := MON_RES_BUSY_BY_WRITER\<rparr>) (g(t := Idle)) (f(w := Woken Om_wait))"
      using assms(2,4) q(1) cvs wq(2) unfolding om_inv_def by auto
    then show ?thesis by (simp only: sec keeps.simps om_obj_simps om_note.simps fr wakes_own_cv [OF cvs w] om_enter.simps simp_thms)
  qed
qed

interpretation om: sync_object "\<lambda>ops T. \<forall>t\<in>T. ops t = THREAD_WRITER" "\<lambda>ops. om_obj" False om_init_monitor Idle om_inv
proof (unfold_locales, goal_cases)
  case (1 ops T)
  then show ?case by (simp add: om_inv_def om_init_monitor_def om_owns_def own_cvs_def)
next
  case (2 ops T m g f t op)
  then show ?case by (cases op) (simp_all add: om_request_keeps om_release_keeps)
next
  case (3 ops T m g f t k)
  then show ?case by (simp add: om_resume_def om_resumed_keeps)
qed simp

section \<open>Properties\<close>

text \<open>Among writers, and as long as no wait returns spuriously, the monitor is exclusive, and it loses
  no wake-up: while a thread is blocked, some thread uses the resource or has been woken to use it.\<close>

theorem om_writers_exclusive:
  assumes "\<forall>t\<in>T. ops t = THREAD_WRITER" "reach om_obj False T (om_init_monitor ops) Idle c"
  shows "\<not> aborted c \<and> (\<forall>t u. ghost c t = Using \<and> ghost c u = Using \<longrightarrow> t = u) \<and>
    ((\<exists>t. is_blocked (status c t)) \<longrightarrow> (\<exists>!u. ghost c u = Using \<or> is_woken (status c u)))"
proof -
  have inv: "om_inv ops T (shared c) (ghost c) (status c)" using om.reachable_inv [OF assms] .
  have own: "t = u" if "om_owns (ghost c) (status c) t" "om_owns (ghost c) (status c) u" for t u
    using inv that by (auto simp: om_inv_def split: if_splits)
  have "\<exists>u. om_owns (ghost c) (status c) u" if "is_blocked (status c t)" for t
  proof -
    have "t \<in> set (om_writer_thread_wait_q (shared c))" using inv that by (simp add: om_inv_def)
    then have "om_resource_status (shared c) \<noteq> MON_RES_AVAILABLE" using inv by (auto simp: om_inv_def)
    then show ?thesis using inv by (auto simp: om_inv_def)
  qed
  then have "(\<exists>t. is_blocked (status c t)) \<longrightarrow> (\<exists>!u. om_owns (ghost c) (status c) u)" using own by blast
  then show ?thesis using own om.reachable_not_aborted [OF assms] unfolding om_owns_def by blast
qed

definition om_view :: "tid list \<Rightarrow> (res_monitor, om_use, om_wait, om_cv) config \<Rightarrow>
  (om_use \<times> (om_cv, om_wait) thread_status) list" where
  "om_view ts c = map (\<lambda>t. (ghost c t, status c t)) ts"

theorem om_writers_exclusive_witness:
  "\<exists>c. reach om_obj False {1, 2} (om_init_monitor (\<lambda>_. THREAD_WRITER)) Idle c \<and> is_blocked (status c 2) \<and>
    (\<exists>!u. ghost c u = Using \<or> is_woken (status c u))"
proof -
  have "map_option (om_view [1, 2]) (execute om_obj False [1, 2] [Call 1 Om_request [], Call 2 Om_request []]
      (start (om_init_monitor (\<lambda>_. THREAD_WRITER)) Idle)) =
    Some [(Using, Running), (Idle, Blocked (Thread_cv 2) Om_wait)]" by code_simp
  then obtain c where c: "reach om_obj False (set [1, 2]) (om_init_monitor (\<lambda>_. THREAD_WRITER)) Idle c"
    "om_view [1, 2] c = [(Using, Running), (Idle, Blocked (Thread_cv 2) Om_wait)]" by (rule execute_shows)
  have run: "reach om_obj False {1, 2} (om_init_monitor (\<lambda>_. THREAD_WRITER)) Idle c" using c(1) by simp
  have b: "is_blocked (status c 2)" using c(2) by (simp add: om_view_def)
  then show ?thesis using om_writers_exclusive [of "{1, 2}" "\<lambda>_. THREAD_WRITER" c] run by blast
qed

text \<open>Readers that have been woken are not in the list of users: when the first of them releases, the
  resource is marked available, and a writer is admitted while the other reads. A single
  spurious wake-up lets two writers in.\<close>

theorem om_readers_not_exclusive:
  "(\<exists>c. reach om_obj False {1, 2, 3} (om_init_monitor (\<lambda>t. if t = 1 then THREAD_WRITER else THREAD_READER)) Idle c \<and>
     ghost c 1 = Using \<and> ghost c 3 = Using) \<and>
   (\<exists>c. reach om_obj True {1, 2} (om_init_monitor (\<lambda>t. THREAD_WRITER)) Idle c \<and> ghost c 1 = Using \<and> ghost c 2 = Using)"
proof -
  have "map_option (om_view [1, 2, 3]) (execute om_obj False [1, 2, 3]
      [Call 1 Om_request [], Call 2 Om_request [], Call 3 Om_request [], Call 1 Om_release [3, 2],
       Continue 2 [], Continue 3 [], Call 2 Om_release [], Call 1 Om_request []]
      (start (om_init_monitor (\<lambda>t. if t = 1 then THREAD_WRITER else THREAD_READER)) Idle)) =
    Some [(Using, Running), (Idle, Running), (Using, Running)]" by code_simp
  then obtain c where c: "reach om_obj False (set [1, 2, 3]) (om_init_monitor (\<lambda>t. if t = 1 then THREAD_WRITER else THREAD_READER)) Idle c"
    "om_view [1, 2, 3] c = [(Using, Running), (Idle, Running), (Using, Running)]" by (rule execute_shows)
  have "map_option (om_view [1, 2]) (execute om_obj True [1, 2]
      [Call 1 Om_request [], Call 2 Om_request [], Spurious 2, Continue 2 []]
      (start (om_init_monitor (\<lambda>t. THREAD_WRITER)) Idle)) = Some [(Using, Running), (Using, Running)]" by code_simp
  then obtain d where d: "reach om_obj True (set [1, 2]) (om_init_monitor (\<lambda>t. THREAD_WRITER)) Idle d"
    "om_view [1, 2] d = [(Using, Running), (Using, Running)]" by (rule execute_shows)
  show ?thesis
  proof (intro conjI)
    show "\<exists>c. reach om_obj False {1, 2, 3} (om_init_monitor (\<lambda>t. if t = 1 then THREAD_WRITER else THREAD_READER)) Idle c \<and>
      ghost c 1 = Using \<and> ghost c 3 = Using" using c by (intro exI [of _ c]) (simp add: om_view_def)
    show "\<exists>c. reach om_obj True {1, 2} (om_init_monitor (\<lambda>t. THREAD_WRITER)) Idle c \<and> ghost c 1 = Using \<and> ghost c 2 = Using"
      using d by (intro exI [of _ d]) (simp add: om_view_def)
  qed
qed

end
