(* ===== verification/ThreadPause.thy ===== *)
theory ThreadPause
  imports Schedules
begin

unbundle bit_operations_syntax

text \<open>
  Pausing a thread at points of its own choice, in two versions. The first, of
  \<^verbatim>\<open>ThreadSyncAdv/threadlib/CourseDev/section_thread_pause/threadlib.c\<close>, keeps the state of the thread
  in three bits of \<^verbatim>\<open>flags\<close>; it refines a machine with four states. The second, of
  \<^verbatim>\<open>ThreadPausing/thread_pause.c\<close>, also lets the caller wait until the thread has paused, but never
  clears \<^verbatim>\<open>should_pause\<close>: a thread that has paused never goes on.
\<close>

section \<open>Bits (\<^verbatim>\<open>bitsop.h\<close>)\<close>

definition IS_BIT_SET :: "u32 \<Rightarrow> u32 \<Rightarrow> bool" where "IS_BIT_SET n b \<longleftrightarrow> n AND b \<noteq> 0"

definition UNSET_BIT :: "u32 \<Rightarrow> u32 \<Rightarrow> u32" where "UNSET_BIT n b = n AND (b XOR 0xFFFFFFFF)"

definition SET_BIT :: "u32 \<Rightarrow> u32 \<Rightarrow> u32" where "SET_BIT n b = n OR b"

definition THREAD_F_RUNNING :: u32 where "THREAD_F_RUNNING = push_bit 0 1"
definition THREAD_F_MARKED_FOR_PAUSE :: u32 where "THREAD_F_MARKED_FOR_PAUSE = push_bit 1 1"
definition THREAD_F_PAUSED :: u32 where "THREAD_F_PAUSED = push_bit 2 1"

lemmas pause_bits = IS_BIT_SET_def UNSET_BIT_def SET_BIT_def
  THREAD_F_RUNNING_def THREAD_F_MARKED_FOR_PAUSE_def THREAD_F_PAUSED_def

section \<open>The code with flags\<close>

record pausable =
  pt_thread_created :: bool
  pt_arg :: addr
  pt_thread_fn :: addr
  pt_thread_pause_fn :: addr
  pt_pause_arg :: addr
  pt_flags :: u32

definition thread_create :: "pausable \<Rightarrow> pausable" where
  "thread_create t = t\<lparr>pt_thread_created := False, pt_arg := 0, pt_thread_fn := 0, pt_flags := 0,
     pt_thread_pause_fn := 0, pt_pause_arg := 0\<rparr>"

definition thread_run :: "addr \<Rightarrow> addr \<Rightarrow> pausable \<Rightarrow> pausable" where
  "thread_run fn arg t = t\<lparr>pt_thread_fn := fn, pt_arg := arg, pt_thread_created := True,
     pt_flags := SET_BIT (pt_flags t) THREAD_F_RUNNING\<rparr>"

definition thread_set_pause_fn :: "addr \<Rightarrow> addr \<Rightarrow> pausable \<Rightarrow> pausable" where
  "thread_set_pause_fn fn arg t = t\<lparr>pt_thread_pause_fn := fn, pt_pause_arg := arg\<rparr>"

text \<open>The sections of the calls. \<^verbatim>\<open>thread_test_and_pause\<close> returns at once or after the pause function
  has been called with its argument; a pause function that is NULL is a fault.\<close>

datatype pause_cv = Pausable_cv
datatype pause_wait = Pausable_wait
datatype pause_result = Returned | Returned_from addr addr

type_synonym pause_sect = "(pausable, pause_result, pause_cv, pause_wait) sect"

definition thread_pause :: "pausable \<Rightarrow> pause_sect" where
  "thread_pause t =
     (if IS_BIT_SET (pt_flags t) THREAD_F_RUNNING
      then Unlocked (t\<lparr>pt_flags := SET_BIT (pt_flags t) THREAD_F_MARKED_FOR_PAUSE\<rparr>) Returned []
      else Unlocked t Returned [])"

definition thread_resume :: "pausable \<Rightarrow> pause_sect" where
  "thread_resume t =
     Unlocked t Returned (if IS_BIT_SET (pt_flags t) THREAD_F_PAUSED then [Signal Pausable_cv] else [])"

definition thread_test_and_pause :: "pausable \<Rightarrow> pause_sect" where
  "thread_test_and_pause t =
     (if IS_BIT_SET (pt_flags t) THREAD_F_MARKED_FOR_PAUSE
      then (let t1 = t\<lparr>pt_flags := SET_BIT (pt_flags t) THREAD_F_PAUSED\<rparr>;
                t2 = t1\<lparr>pt_flags := UNSET_BIT (pt_flags t1) THREAD_F_MARKED_FOR_PAUSE\<rparr>;
                t3 = t2\<lparr>pt_flags := UNSET_BIT (pt_flags t2) THREAD_F_RUNNING\<rparr>
            in CvWait t3 Pausable_cv Pausable_wait [])
      else Unlocked t Returned [])"

definition thread_test_and_pause_resume :: "pausable \<Rightarrow> pause_sect" where
  "thread_test_and_pause_resume t =
     (let t1 = t\<lparr>pt_flags := SET_BIT (pt_flags t) THREAD_F_RUNNING\<rparr>;
          t2 = t1\<lparr>pt_flags := UNSET_BIT (pt_flags t1) THREAD_F_PAUSED\<rparr>
      in check (pt_thread_pause_fn t2 \<noteq> 0)
           (Unlocked t2 (Returned_from (pt_thread_pause_fn t2) (pt_pause_arg t2)) []))"

text \<open>The thread, which tests and pauses, and any number of others, which pause and resume it: the
  thread is the only one that waits. An event says who moves.\<close>

datatype pause_event = Ev_pause | Ev_resume | Ev_test | Ev_continue | Ev_spurious

record pause_config =
  pz_thread :: pausable
  pz_worker :: "(pause_cv, pause_wait) thread_status"
  pz_calls :: "(addr \<times> addr) list"

definition pause_start :: "addr \<Rightarrow> addr \<Rightarrow> addr \<Rightarrow> addr \<Rightarrow> pausable \<Rightarrow> pause_config" where
  "pause_start fn arg pfn parg memory = \<lparr>pz_thread = thread_run fn arg (thread_set_pause_fn pfn parg (thread_create memory)),
     pz_worker = Running, pz_calls = []\<rparr>"

text \<open>A section of another thread, and one of the thread itself.\<close>

fun other_does :: "pause_sect \<Rightarrow> pause_config \<Rightarrow> pause_config option" where
  "other_does (Unlocked t r ss) c =
     Some (c\<lparr>pz_thread := t, pz_worker := (if ss = [] then pz_worker c else wake (pz_worker c))\<rparr>)"
| "other_does _ c = None"

fun worker_does :: "pause_sect \<Rightarrow> pause_config \<Rightarrow> pause_config option" where
  "worker_does (Unlocked t r ss) c =
     Some (c\<lparr>pz_thread := t, pz_worker := Running,
       pz_calls := (case r of Returned \<Rightarrow> pz_calls c | Returned_from fn arg \<Rightarrow> pz_calls c @ [(fn, arg)])\<rparr>)"
| "worker_does (CvWait t cv k ss) c = Some (c\<lparr>pz_thread := t, pz_worker := Blocked cv k\<rparr>)"
| "worker_does Aborted c = None"

fun pause_next :: "pause_event \<Rightarrow> pause_config \<Rightarrow> pause_config option" where
  "pause_next Ev_pause c = other_does (thread_pause (pz_thread c)) c"
| "pause_next Ev_resume c = other_does (thread_resume (pz_thread c)) c"
| "pause_next Ev_test c = (if pz_worker c = Running then worker_does (thread_test_and_pause (pz_thread c)) c else None)"
| "pause_next Ev_continue c =
     (if is_woken (pz_worker c) then worker_does (thread_test_and_pause_resume (pz_thread c)) c else None)"
| "pause_next Ev_spurious c = (if is_blocked (pz_worker c) then Some (c\<lparr>pz_worker := wake (pz_worker c)\<rparr>) else None)"

fun pause_run :: "pause_event list \<Rightarrow> pause_config \<Rightarrow> pause_config option" where
  "pause_run [] c = Some c"
| "pause_run (e # es) c = (case pause_next e c of None \<Rightarrow> None | Some d \<Rightarrow> pause_run es d)"

section \<open>What the calls promise\<close>

datatype pause_state = Going | Marked | Asleep | Awake

fun spec_next :: "pause_event \<Rightarrow> pause_state \<Rightarrow> pause_state option" where
  "spec_next Ev_pause a = Some (if a = Going then Marked else a)"
| "spec_next Ev_resume a = Some (if a = Asleep then Awake else a)"
| "spec_next Ev_test a = (if a = Going then Some Going else if a = Marked then Some Asleep else None)"
| "spec_next Ev_continue a = (if a = Awake then Some Going else None)"
| "spec_next Ev_spurious a = (if a = Asleep then Some Awake else None)"

fun spec_run :: "pause_event list \<Rightarrow> pause_state \<Rightarrow> pause_state option" where
  "spec_run [] a = Some a"
| "spec_run (e # es) a = (case spec_next e a of None \<Rightarrow> None | Some b \<Rightarrow> spec_run es b)"

text \<open>The flags and the place of the thread in each state.\<close>

fun state_flags :: "pause_state \<Rightarrow> u32" where
  "state_flags Going = 1" | "state_flags Marked = 3" | "state_flags Asleep = 4" | "state_flags Awake = 4"

fun state_worker :: "pause_state \<Rightarrow> (pause_cv, pause_wait) thread_status" where
  "state_worker Going = Running" | "state_worker Marked = Running"
| "state_worker Asleep = Blocked Pausable_cv Pausable_wait" | "state_worker Awake = Woken Pausable_wait"

definition in_state :: "pausable \<Rightarrow> pause_state \<Rightarrow> (addr \<times> addr) list \<Rightarrow> pause_config" where
  "in_state t a calls = \<lparr>pz_thread = t\<lparr>pt_flags := state_flags a\<rparr>, pz_worker = state_worker a, pz_calls = calls\<rparr>"

lemma pause_next_refines:
  assumes "pt_thread_pause_fn t \<noteq> 0"
  shows "pause_next e (in_state t a calls) =
    map_option (\<lambda>b. in_state t b (if e = Ev_continue then calls @ [(pt_thread_pause_fn t, pt_pause_arg t)] else calls))
      (spec_next e a)"
  using assms by (cases e; cases a)
    (simp_all add: in_state_def thread_pause_def thread_resume_def thread_test_and_pause_def
      thread_test_and_pause_resume_def pause_bits Let_def check_def)

lemma pause_run_refines:
  assumes "pt_thread_pause_fn t \<noteq> 0"
  shows "pause_run es (in_state t a calls) = map_option
    (\<lambda>b. in_state t b (calls @ replicate (count_list es Ev_continue) (pt_thread_pause_fn t, pt_pause_arg t))) (spec_run es a)"
proof (induction es arbitrary: a calls)
  case (Cons e es)
  show ?case using Cons.IH
    by (cases "spec_next e a") (simp_all add: pause_next_refines [OF assms] option.map_comp comp_def)
qed simp

lemma pause_start_in_state: "pause_start fn arg pfn parg memory = in_state (pz_thread (pause_start fn arg pfn parg memory)) Going []"
  by (simp add: pause_start_def in_state_def thread_run_def thread_set_pause_fn_def thread_create_def pause_bits)

text \<open>The flags refine a machine of four states (going, marked for a pause, asleep, awake again): for
  every sequence of calls, steps of the thread and spurious wake-ups, the code can run it exactly if the
  machine can, the flags and the place of the thread are those of the machine's state (so the thread is
  never both running and paused, and waits exactly when it is paused), and the pause function has been
  called once, with its argument, for every time the thread went on.\<close>

theorem thread_pause_refines:
  assumes "pfn \<noteq> 0"
  shows "map_option (\<lambda>c. (pt_flags (pz_thread c), pz_worker c, pz_calls c)) (pause_run es (pause_start fn arg pfn parg memory)) =
    map_option (\<lambda>a. (state_flags a, state_worker a, replicate (count_list es Ev_continue) (pfn, parg))) (spec_run es Going)"
proof -
  let ?t = "pz_thread (pause_start fn arg pfn parg memory)"
  have t: "pt_thread_pause_fn ?t = pfn" "pt_pause_arg ?t = parg"
    by (simp_all add: pause_start_def thread_run_def thread_set_pause_fn_def)
  show ?thesis using assms pause_run_refines [of ?t es Going "[]"]
    by (subst pause_start_in_state) (simp add: t option.map_comp comp_def in_state_def)
qed

theorem thread_pause_refines_witness:
  "map_option (\<lambda>c. (pt_flags (pz_thread c), pz_worker c, pz_calls c))
     (pause_run [Ev_pause, Ev_test, Ev_resume, Ev_continue, Ev_pause]
       (pause_start 10 0 20 30 \<lparr>pt_thread_created = False, pt_arg = 0, pt_thread_fn = 0, pt_thread_pause_fn = 0,
          pt_pause_arg = 0, pt_flags = 0\<rparr>)) = Some (3, Running, [(20, 30)])"
  by (simp add: thread_pause_refines del: pause_run.simps)

text \<open>A resumption that comes before the thread has come to its test is lost: the thread pauses after it.\<close>

lemma thread_resume_too_early:
  assumes "pt_thread_pause_fn t \<noteq> 0"
  shows "pause_run [Ev_pause, Ev_resume, Ev_test] (in_state t Going calls) = Some (in_state t Asleep calls)"
  using pause_run_refines [OF assms, of "[Ev_pause, Ev_resume, Ev_test]" Going calls] by simp

text \<open>A thread that sleeps goes on after one resumption.\<close>

lemma thread_resume_wakes:
  assumes "pt_thread_pause_fn t \<noteq> 0"
  shows "pause_run [Ev_resume, Ev_continue] (in_state t Asleep calls) =
    Some (in_state t Going (calls @ [(pt_thread_pause_fn t, pt_pause_arg t)]))"
  using pause_run_refines [OF assms, of "[Ev_resume, Ev_continue]" Asleep calls] by simp

text \<open>A thread whose pause function has not been set is a fault when it goes on.\<close>

lemma thread_pause_fn_missing:
  assumes "pt_thread_pause_fn t = 0"
  shows "pause_next Ev_continue (in_state t Awake calls) = None"
  using assms by (simp add: in_state_def thread_test_and_pause_resume_def Let_def check_def)

section \<open>The code with a structure\<close>

record thread_pause_struct =
  tps_should_pause :: bool

definition thread_pause_struct_init :: "thread_pause_struct \<Rightarrow> thread_pause_struct" where
  "thread_pause_struct_init s = s\<lparr>tps_should_pause := False\<rparr>"

datatype tps_cv = Tps_pause_cv | Tps_notif_cv
datatype tps_wait = Tps_notif_wait | Tps_pause_wait

type_synonym tps_sect = "(thread_pause_struct, unit, tps_cv, tps_wait) sect"

definition tps_thread_pause :: "thread_pause_struct \<Rightarrow> tps_sect" where
  [sync_defs]: "tps_thread_pause s =
     (if tps_should_pause s then Unlocked s () []
      else CvWait (s\<lparr>tps_should_pause := True\<rparr>) Tps_notif_cv Tps_notif_wait [])"

definition tps_thread_resume :: "thread_pause_struct \<Rightarrow> tps_sect" where
  [sync_defs]: "tps_thread_resume s = Unlocked s () [Signal Tps_pause_cv]"

definition tps_pause_loop :: "thread_pause_struct \<Rightarrow> tps_sect" where
  [sync_defs]: "tps_pause_loop s = (if tps_should_pause s then CvWait s Tps_pause_cv Tps_pause_wait [] else Unlocked s () [])"

definition tps_thread_test_and_pause :: "thread_pause_struct \<Rightarrow> tps_sect" where
  [sync_defs]: "tps_thread_test_and_pause s =
     (if \<not> tps_should_pause s then Unlocked s () []
      else after_signals [Signal Tps_notif_cv] (tps_pause_loop s))"

definition thread_destroy_pause_struct :: "thread_pause_struct \<Rightarrow> thread_pause_struct option" where
  "thread_destroy_pause_struct s = (if \<not> tps_should_pause s then Some s else None)"

datatype tps_op = Tps_pause | Tps_resume | Tps_test

fun tps_enter :: "tid \<Rightarrow> tps_op \<Rightarrow> thread_pause_struct \<Rightarrow> tps_sect" where
  "tps_enter self Tps_pause s = tps_thread_pause s"
| "tps_enter self Tps_resume s = tps_thread_resume s"
| "tps_enter self Tps_test s = tps_thread_test_and_pause s"

fun tps_continue :: "tid \<Rightarrow> tps_wait \<Rightarrow> thread_pause_struct \<Rightarrow> tps_sect" where
  "tps_continue self Tps_notif_wait s = Unlocked s () []"
| "tps_continue self Tps_pause_wait s = tps_pause_loop s"

definition tps_obj :: "(thread_pause_struct, unit, tps_op, tps_wait, tps_cv, unit) obj" where
  "tps_obj = \<lparr>enter = tps_enter, resume = tps_continue, may_call = (\<lambda>_ _. True), on_return = (\<lambda>_ g. g)\<rparr>"

lemma tps_obj_simps [simp]:
  "enter tps_obj = tps_enter" "resume tps_obj = tps_continue" "may_call tps_obj g op" "on_return tps_obj r g = g"
  by (simp_all add: tps_obj_def)

text \<open>\<^verbatim>\<open>should_pause\<close> is never cleared, and a thread that waits for its resumption finds it set.\<close>

definition tps_inv :: "unit \<Rightarrow> tid set \<Rightarrow> thread_pause_struct \<Rightarrow> (tid \<Rightarrow> unit) \<Rightarrow> (tid \<Rightarrow> tps_wait option) \<Rightarrow> bool" where
  "tps_inv p T s g w \<longleftrightarrow> (\<forall>t. w t \<noteq> None \<longrightarrow> tps_should_pause s)"

interpretation tps: sync_monitor "\<lambda>p T. True" "\<lambda>p. tps_obj" "\<lambda>p. thread_pause_struct_init \<lparr>tps_should_pause = False\<rparr>" "()" tps_inv
proof (unfold_locales, goal_cases)
  case (1 p T)
  then show ?case by (simp add: tps_inv_def)
next
  case (2 p T s g w t op)
  then show ?case by (cases op) (auto simp: tps_inv_def sync_defs split: if_splits)
next
  case (3 p T s g w t k)
  then show ?case by (cases k) (auto simp: tps_inv_def sync_defs split: if_splits)
qed

lemma tps_step_waits:
  assumes "step tps_obj sp T c d" "tps_should_pause (shared c)" "pending (status c t) = Some Tps_pause_wait"
  shows "tps_should_pause (shared d) \<and> pending (status d t) = Some Tps_pause_wait"
  using assms(1)
proof cases
  case (call u op)
  then have "u \<noteq> t" using assms(3) by auto
  then show ?thesis using call(5) assms(2,3)
    by (cases op) (auto simp: sync_defs dest: wakes_pending [of _ _ _ t] simp del: wakes.simps)
next
  case (return_from_wait u k)
  show ?thesis
  proof (cases "u = t")
    case True
    then show ?thesis using return_from_wait assms(2,3) by (auto simp: sync_defs)
  next
    case False
    then show ?thesis using return_from_wait(4) assms(2,3) by (cases k) (auto simp: sync_defs)
  qed
next
  case (spurious u)
  then show ?thesis using assms by auto
qed

text \<open>A thread that has paused never goes on, whatever the other threads call, how often they resume it
  and whatever spurious wake-ups there are; and the structure can never be destroyed.\<close>

theorem tps_paused_for_ever:
  assumes "reach tps_obj sp T (thread_pause_struct_init \<lparr>tps_should_pause = False\<rparr>) () c"
    and "pending (status c t) = Some Tps_pause_wait" and "(step tps_obj sp T)\<^sup>*\<^sup>* c d"
  shows "pending (status d t) = Some Tps_pause_wait \<and> thread_destroy_pause_struct (shared d) = None"
proof -
  have "tps_should_pause (shared c)" using tps.monitor_inv [where p = "()", OF _ assms(1)] assms(2) by (auto simp: tps_inv_def)
  with assms(3,2) have "tps_should_pause (shared d) \<and> pending (status d t) = Some Tps_pause_wait"
    by (induction rule: rtranclp_induct) (auto dest: tps_step_waits)
  then show ?thesis by (simp add: thread_destroy_pause_struct_def)
qed

theorem tps_paused_for_ever_witness:
  "\<exists>c d. (step tps_obj False {1, 2})\<^sup>*\<^sup>* c d \<and> status c 2 = Blocked Tps_pause_cv Tps_pause_wait \<and>
    status d 2 = Woken Tps_pause_wait \<and> thread_destroy_pause_struct (shared d) = None"
proof -
  let ?s = "thread_pause_struct_init \<lparr>tps_should_pause = False\<rparr>"
  have "map_option (\<lambda>c. map (status c) [1, 2]) (execute tps_obj False [1, 2]
      [Call 1 Tps_pause [], Call 2 Tps_test [1], Continue 1 []] (start ?s ())) =
    Some [Running, Blocked Tps_pause_cv Tps_pause_wait]" by code_simp
  then obtain c where c0: "reach tps_obj False (set [1, 2]) ?s () c" "map (status c) [1, 2] = [Running, Blocked Tps_pause_cv Tps_pause_wait]"
    by (rule execute_shows)
  then have c: "reach tps_obj False (set [1, 2]) ?s () c" "status c 1 = Running" "status c 2 = Blocked Tps_pause_cv Tps_pause_wait"
    by simp_all
  have run: "reach tps_obj False {1, 2} ?s () c" using c(1) by simp
  have na: "\<not> aborted c" using tps.monitor_not_aborted [OF TrueI run] .
  let ?d = "c\<lparr>status := (status c)(2 := Woken Tps_pause_wait)\<rparr>"
  have "blocked_on Tps_pause_cv (((status c)(1 := Running)) 2)" using c(3) by simp
  then have w: "wakes [Signal Tps_pause_cv] ((status c)(1 := Running)) ((status c)(2 := Woken Tps_pause_wait))"
    using c(2,3) by (auto simp: wake_one_def fun_eq_iff intro!: exI [of _ 2])
  have "finish tps_obj 1 (enter tps_obj 1 Tps_resume (shared c)) c ?d"
    unfolding tps_obj_simps tps_enter.simps tps_thread_resume_def finish.simps fun_upd_triv
    by (rule exI, rule conjI, rule w) simp
  then have "step tps_obj False {1, 2} c ?d" using na c(2) by (intro step.call [of c 1 "{1, 2}" tps_obj Tps_resume]) auto
  then have star: "(step tps_obj False {1, 2})\<^sup>*\<^sup>* c ?d" by simp
  have "thread_destroy_pause_struct (shared ?d) = None"
    using tps_paused_for_ever [OF run _ star, of 2] c(3) by simp
  then show ?thesis using star c(3) by (intro exI [of _ c] exI [of _ ?d]) simp
qed

end
