(* ===== verification/StageLine.thy ===== *)
theory StageLine
  imports Prelude
begin

text \<open>
  The first version of the assembly line, \<^verbatim>\<open>AssemblyLine/asl.c\<close>: a tree of stages, each with a queue
  of objects and a worker thread. A worker takes the first object of its queue, calls the processing
  function of the stage, and puts the object into the queue of the next stage, or emits it.

  The queue of a stage is accessed with the stage's mutex held, the counter and the flag of the line
  with the line's mutex held, and a worker that waits or wakes takes both: every step below has one access
  to the line's fields. The glue lists are the lists of \<open>Glthread\<close>, the processing functions and their
  memory are parameters. The flag \<open>ln_failed\<close> stands for an assertion that fails and for the use of a stage
  that is freed or NULL; \<open>ln_pushed\<close>, \<open>ln_log\<close> and \<open>ln_emitted\<close> record what has been put into
  the first stage, which stage processed what, and what has been emitted.
\<close>

section \<open>Stages\<close>

text \<open>A stage. The fan-out is a \<^verbatim>\<open>uint8_t\<close> that is set once and only compared.\<close>

record asl_stage =
  sg_fanout :: nat
  sg_next_stage :: "addr list"
  sg_object_queue :: "addr list"

text \<open>Where the worker of a stage is: before the test of its queue, with an object, with an object and the
  stage it goes to (0 if it leaves the line), waiting, woken, or cancelled.\<close>

datatype worker_at = W_test | W_busy addr | W_routed addr addr | W_waiting | W_woken | W_dead

text \<open>A client between the two parts of \<^verbatim>\<open>asl_enqueue\<close>, and in \<^verbatim>\<open>asl_destroy\<close>.\<close>

datatype client_at =
    C_idle | C_admitted addr
  | C_destroy_waiting | C_destroy_woken | C_cleanup "addr list" | C_join addr "addr list" | C_destroyed

record 'm line =
  ln_accept_new_object :: bool
  ln_n_workers_in_operation :: u8
  ln_root_stage :: addr
  ln_stages :: "addr \<Rightarrow> asl_stage option"
  ln_worker :: "addr \<Rightarrow> worker_at"
  ln_cancelled :: "addr \<Rightarrow> bool"
  ln_client :: "tid \<Rightarrow> client_at"
  ln_failed :: bool
  ln_mem :: 'm
  ln_pushed :: "addr list"
  ln_log :: "(addr \<times> addr) list"
  ln_emitted :: "addr list"

definition asl_create_new :: "'m \<Rightarrow> 'm line" where
  "asl_create_new m = \<lparr>ln_accept_new_object = True, ln_n_workers_in_operation = 0, ln_root_stage = 0,
     ln_stages = Map.empty, ln_worker = (\<lambda>_. W_dead), ln_cancelled = (\<lambda>_. False), ln_client = (\<lambda>_. C_idle),
     ln_failed = False, ln_mem = m, ln_pushed = [], ln_log = [], ln_emitted = []\<rparr>"

text \<open>\<^verbatim>\<open>asl_workers_in_operation\<close>: a decrement signals the thread that destroys the line.\<close>

definition wake_destroyer :: "client_at \<Rightarrow> client_at" where
  "wake_destroyer a = (if a = C_destroy_waiting then C_destroy_woken else a)"

definition asl_workers_in_operation :: "bool \<Rightarrow> 'm line \<Rightarrow> 'm line" where
  "asl_workers_in_operation increment c =
     (if increment then c\<lparr>ln_n_workers_in_operation := ln_n_workers_in_operation c + 1\<rparr>
      else let c1 = c\<lparr>ln_n_workers_in_operation := ln_n_workers_in_operation c - 1\<rparr> in
        if ln_accept_new_object c = False then c1\<lparr>ln_client := wake_destroyer \<circ> ln_client c1\<rparr> else c1)"

text \<open>\<^verbatim>\<open>asl_create_new_stage\<close> returns when the worker has counted itself.\<close>

definition asl_create_new_stage :: "addr \<Rightarrow> nat \<Rightarrow> 'm line \<Rightarrow> 'm line" where
  "asl_create_new_stage p fanout c = asl_workers_in_operation True
     (c\<lparr>ln_stages := (ln_stages c)(p \<mapsto> \<lparr>sg_fanout = fanout, sg_next_stage = replicate fanout 0, sg_object_queue = []\<rparr>),
        ln_worker := (ln_worker c)(p := W_test)\<rparr>)"

definition asl_add_root_stage :: "addr \<Rightarrow> 'm line \<Rightarrow> 'm line option" where
  "asl_add_root_stage p c = (if ln_root_stage c = 0 then Some (c\<lparr>ln_root_stage := p\<rparr>) else None)"

text \<open>The loop of \<^verbatim>\<open>asl_add_child_stage\<close>: the first free place.\<close>

fun put_first_free :: "addr \<Rightarrow> addr list \<Rightarrow> addr list option" where
  "put_first_free q [] = None"
| "put_first_free q (x # xs) = (if x \<noteq> 0 then map_option ((#) x) (put_first_free q xs) else Some (q # xs))"

definition asl_add_child_stage :: "addr \<Rightarrow> addr \<Rightarrow> 'm line \<Rightarrow> 'm line option" where
  "asl_add_child_stage p q c = (case ln_stages c p of None \<Rightarrow> None | Some sg \<Rightarrow>
     map_option (\<lambda>ns. c\<lparr>ln_stages := (ln_stages c)(p \<mapsto> sg\<lparr>sg_next_stage := ns\<rparr>)\<rparr>) (put_first_free q (sg_next_stage sg)))"

definition fail :: "'m line \<Rightarrow> 'm line" where
  "fail c = c\<lparr>ln_failed := True\<rparr>"

text \<open>\<^verbatim>\<open>asl_stage_enqueue\<close>: the worker is signalled if the queue was empty.\<close>

definition wake_worker :: "worker_at \<Rightarrow> worker_at" where
  "wake_worker w = (if w = W_waiting then W_woken else w)"

definition asl_stage_enqueue :: "addr \<Rightarrow> addr \<Rightarrow> 'm line \<Rightarrow> 'm line" where
  "asl_stage_enqueue p obj c = (case ln_stages c p of None \<Rightarrow> fail c | Some sg \<Rightarrow>
     c\<lparr>ln_worker := (if sg_object_queue sg = [] then (ln_worker c)(p := wake_worker (ln_worker c p)) else ln_worker c),
       ln_stages := (ln_stages c)(p \<mapsto> sg\<lparr>sg_object_queue := sg_object_queue sg @ [obj]\<rparr>)\<rparr>)"

section \<open>The worker\<close>

type_synonym 'm stage_processing = "addr \<Rightarrow> asl_stage \<Rightarrow> addr \<Rightarrow> 'm \<Rightarrow> addr \<times> 'm"

definition set_worker :: "addr \<Rightarrow> worker_at \<Rightarrow> 'm line \<Rightarrow> 'm line" where
  "set_worker p w c = c\<lparr>ln_worker := (ln_worker c)(p := w)\<rparr>"

text \<open>One step of \<^verbatim>\<open>worker_thread_fn\<close>. The wait is where a cancelled worker ends. If the processing
  function gives no stage, the object goes to the first one.\<close>

definition worker_thread_fn :: "'m stage_processing \<Rightarrow> addr \<Rightarrow> 'm line \<Rightarrow> 'm line option" where
  "worker_thread_fn cbk p c = (case ln_stages c p of None \<Rightarrow> None | Some sg \<Rightarrow>
     (case ln_worker c p of
        W_test \<Rightarrow> (case sg_object_queue sg of
            [] \<Rightarrow> Some (set_worker p W_waiting (asl_workers_in_operation False c))
          | obj # objs \<Rightarrow> Some (set_worker p (W_busy obj)
              (c\<lparr>ln_stages := (ln_stages c)(p \<mapsto> sg\<lparr>sg_object_queue := objs\<rparr>)\<rparr>)))
      | W_waiting \<Rightarrow> if ln_cancelled c p then Some (set_worker p W_dead c) else None
      | W_woken \<Rightarrow> Some (set_worker p W_test (asl_workers_in_operation True c))
      | W_busy obj \<Rightarrow>
          (let (q, m) = cbk p sg obj (ln_mem c); c1 = c\<lparr>ln_mem := m, ln_log := ln_log c @ [(p, obj)]\<rparr> in
           if q \<noteq> 0 then Some (set_worker p (W_routed obj q) c1)
           else if sg_fanout sg = 0 then Some (fail c1)
           else Some (set_worker p (W_routed obj (sg_next_stage sg ! 0)) c1))
      | W_routed obj q \<Rightarrow>
          if q = 0 then Some (set_worker p W_test (c\<lparr>ln_emitted := ln_emitted c @ [obj]\<rparr>))
          else Some (asl_stage_enqueue q obj (set_worker p W_test c))
      | W_dead \<Rightarrow> None))"

section \<open>Clients\<close>

definition set_client :: "tid \<Rightarrow> client_at \<Rightarrow> 'm line \<Rightarrow> 'm line" where
  "set_client t a c = c\<lparr>ln_client := (ln_client c)(t := a)\<rparr>"

text \<open>\<^verbatim>\<open>asl_enqueue\<close> tests the flag, releases the mutex, and enqueues the object.\<close>

definition asl_enqueue :: "tid \<Rightarrow> addr \<Rightarrow> 'm line \<Rightarrow> 'm line" where
  "asl_enqueue t obj c = (if \<not> ln_accept_new_object c then c else set_client t (C_admitted obj) c)"

definition asl_enqueue_second :: "tid \<Rightarrow> addr \<Rightarrow> 'm line \<Rightarrow> 'm line" where
  "asl_enqueue_second t obj c =
     set_client t C_idle (asl_stage_enqueue (ln_root_stage c) obj (c\<lparr>ln_pushed := ln_pushed c @ [obj]\<rparr>))"

text \<open>\<^verbatim>\<open>asl_traverse_all_stages\<close>: the stages below \<open>p\<close> from the place \<open>i\<close> of its array on, and \<open>p\<close>.\<close>

partial_function (option) asl_traverse_all_stages :: "(addr \<Rightarrow> asl_stage option) \<Rightarrow> addr \<Rightarrow> nat \<Rightarrow> addr list option" where
  "asl_traverse_all_stages st p i = Option.bind (st p) (\<lambda>sg.
     if i < sg_fanout sg
     then (if sg_next_stage sg ! i \<noteq> 0
           then Option.bind (asl_traverse_all_stages st (sg_next_stage sg ! i) 0) (\<lambda>xs.
                Option.bind (asl_traverse_all_stages st p (i + 1)) (\<lambda>ys. Some (xs @ ys)))
           else asl_traverse_all_stages st p (i + 1))
     else Some [p])"

declare asl_traverse_all_stages.simps [code]

text \<open>The loop of \<^verbatim>\<open>asl_destroy\<close>, and what follows it.\<close>

definition destroy_loop :: "tid \<Rightarrow> 'm line \<Rightarrow> 'm line" where
  "destroy_loop t c =
     (if ln_n_workers_in_operation c \<noteq> 0 then set_client t C_destroy_waiting c
      else case asl_traverse_all_stages (ln_stages c) (ln_root_stage c) 0 of
        None \<Rightarrow> fail c | Some ps \<Rightarrow> set_client t (C_cleanup ps) c)"

definition asl_destroy :: "tid \<Rightarrow> 'm line \<Rightarrow> 'm line" where
  "asl_destroy t c = destroy_loop t (c\<lparr>ln_accept_new_object := False\<rparr>)"

text \<open>\<^verbatim>\<open>asl_stage_cleanup\<close>: the worker is cancelled, joined, and the stage is freed.\<close>

definition asl_stage_cleanup :: "tid \<Rightarrow> addr \<Rightarrow> addr list \<Rightarrow> 'm line \<Rightarrow> 'm line" where
  "asl_stage_cleanup t p ps c =
     (if ln_stages c p = None then fail c
      else set_client t (C_join p ps) (c\<lparr>ln_cancelled := (ln_cancelled c)(p := True)\<rparr>))"

definition asl_stage_joined :: "tid \<Rightarrow> addr \<Rightarrow> addr list \<Rightarrow> 'm line \<Rightarrow> 'm line option" where
  "asl_stage_joined t p ps c =
     (if ln_worker c p = W_dead
      then Some (set_client t (C_cleanup ps) (c\<lparr>ln_stages := (ln_stages c)(p := None)\<rparr>)) else None)"

definition client_step :: "tid \<Rightarrow> 'm line \<Rightarrow> 'm line option" where
  "client_step t c = (case ln_client c t of
      C_idle \<Rightarrow> None
    | C_admitted obj \<Rightarrow> Some (asl_enqueue_second t obj c)
    | C_destroy_waiting \<Rightarrow> None
    | C_destroy_woken \<Rightarrow> Some (destroy_loop t c)
    | C_cleanup [] \<Rightarrow> Some (if ln_n_workers_in_operation c = 0 then set_client t C_destroyed c else fail c)
    | C_cleanup (p # ps) \<Rightarrow> Some (asl_stage_cleanup t p ps c)
    | C_join p ps \<Rightarrow> asl_stage_joined t p ps c
    | C_destroyed \<Rightarrow> None)"

section \<open>Runs\<close>

datatype line_event =
    Ev_worker addr | Ev_worker_spurious addr
  | Ev_enqueue tid addr | Ev_destroy tid | Ev_client tid | Ev_client_spurious tid

fun line_next :: "'m stage_processing \<Rightarrow> line_event \<Rightarrow> 'm line \<Rightarrow> 'm line option" where
  "line_next cbk (Ev_worker p) c = worker_thread_fn cbk p c"
| "line_next cbk (Ev_worker_spurious p) c =
     (if ln_worker c p = W_waiting \<and> ln_stages c p \<noteq> None then Some (set_worker p W_woken c) else None)"
| "line_next cbk (Ev_enqueue t obj) c = (if ln_client c t = C_idle then Some (asl_enqueue t obj c) else None)"
| "line_next cbk (Ev_destroy t) c = (if ln_client c t = C_idle then Some (asl_destroy t c) else None)"
| "line_next cbk (Ev_client t) c = client_step t c"
| "line_next cbk (Ev_client_spurious t) c =
     (if ln_client c t = C_destroy_waiting then Some (set_client t C_destroy_woken c) else None)"

fun line_run :: "'m stage_processing \<Rightarrow> line_event list \<Rightarrow> 'm line \<Rightarrow> 'm line option" where
  "line_run cbk [] c = Some c"
| "line_run cbk (e # es) c =
     (if ln_failed c then None else case line_next cbk e c of None \<Rightarrow> None | Some d \<Rightarrow> line_run cbk es d)"

fun no_destroy :: "line_event \<Rightarrow> bool" where
  "no_destroy (Ev_destroy t) \<longleftrightarrow> False"
| "no_destroy _ \<longleftrightarrow> True"

end
