(* ===== verification/StageLineSpec.thy ===== *)
theory StageLineSpec
  imports StageLine "HOL-Library.Sublist"
begin

text \<open>
  Correctness of the line of \<open>StageLine\<close> whose stages form a chain, for every interleaving of the
  workers, any number of clients and spurious wake-ups, as long as nobody destroys the line: no object is
  lost or duplicated, every stage processes all objects in the order they were pushed in, and the line
  stands still only when it is empty. The example of \<^verbatim>\<open>AssemblyLine/testapp.c\<close>. What
  \<^verbatim>\<open>asl_destroy\<close> does to objects on the line.
\<close>

section \<open>The objects on a chain of stages\<close>

fun hand :: "worker_at \<Rightarrow> addr list" where
  "hand (W_busy obj) = [obj]"
| "hand (W_routed obj q) = [obj]"
| "hand _ = []"

fun routed :: "worker_at \<Rightarrow> addr list" where
  "routed (W_routed obj q) = [obj]"
| "routed _ = []"

definition queue_at :: "'m line \<Rightarrow> addr \<Rightarrow> addr list" where
  "queue_at c p = (case ln_stages c p of None \<Rightarrow> [] | Some sg \<Rightarrow> sg_object_queue sg)"

definition contents :: "'m line \<Rightarrow> addr \<Rightarrow> addr list" where
  "contents c p = hand (ln_worker c p) @ queue_at c p"

definition processed :: "'m line \<Rightarrow> addr \<Rightarrow> addr list" where
  "processed c p = map snd (filter (\<lambda>x. fst x = p) (ln_log c))"

text \<open>What has passed the stages before \<open>ps\<close>, in order: what has been emitted, and what is in \<open>ps\<close>.\<close>

fun flow :: "'m line \<Rightarrow> addr list \<Rightarrow> addr list" where
  "flow c [] = ln_emitted c"
| "flow c (p # ps) = flow c ps @ contents c p"

definition first_of :: "addr list \<Rightarrow> addr" where
  "first_of ps = (case ps of [] \<Rightarrow> 0 | q # _ \<Rightarrow> q)"

lemma first_of_simps [simp]: "first_of [] = 0" "first_of (q # qs) = q"
  by (simp_all add: first_of_def)

fun worker_ok :: "addr \<Rightarrow> addr list \<Rightarrow> worker_at \<Rightarrow> bool" where
  "worker_ok q objs W_dead \<longleftrightarrow> False"
| "worker_ok q objs W_waiting \<longleftrightarrow> objs = []"
| "worker_ok q objs (W_routed obj r) \<longleftrightarrow> r = q"
| "worker_ok q objs _ \<longleftrightarrow> True"

definition stage_ok :: "'m line \<Rightarrow> addr \<Rightarrow> addr \<Rightarrow> bool" where
  "stage_ok c p q \<longleftrightarrow> p \<noteq> 0 \<and> \<not> ln_cancelled c p \<and>
     (\<exists>sg. ln_stages c p = Some sg \<and> 0 < sg_fanout sg \<and> sg_next_stage sg ! 0 = q) \<and> worker_ok q (queue_at c p) (ln_worker c p)"

fun chain_ok :: "'m line \<Rightarrow> addr list \<Rightarrow> bool" where
  "chain_ok c [] \<longleftrightarrow> True"
| "chain_ok c (p # ps) \<longleftrightarrow> stage_ok c p (first_of ps) \<and> processed c p = flow c ps @ routed (ln_worker c p) \<and> chain_ok c ps"

text \<open>Stages that a step does not concern.\<close>

definition same_at :: "'m line \<Rightarrow> 'm line \<Rightarrow> addr \<Rightarrow> bool" where
  "same_at c d p \<longleftrightarrow> ln_stages d p = ln_stages c p \<and> ln_worker d p = ln_worker c p \<and>
     ln_cancelled d p = ln_cancelled c p \<and> processed d p = processed c p"

lemma same_at_ok: "same_at c d p \<Longrightarrow> stage_ok d p q = stage_ok c p q" "same_at c d p \<Longrightarrow> contents d p = contents c p"
  by (simp_all add: same_at_def stage_ok_def contents_def queue_at_def)

text \<open>A step at the stages \<open>vs\<close> that keeps what flows into them leaves the stages before them as they are.\<close>

lemma chain_frame:
  assumes "chain_ok c (xs @ vs)" "chain_ok d vs" "flow d vs = flow c vs" "\<forall>x\<in>set xs. same_at c d x"
  shows "chain_ok d (xs @ vs) \<and> flow d (xs @ vs) = flow c (xs @ vs)"
  using assms(1,4)
proof (induction xs)
  case Nil
  then show ?case using assms by simp
next
  case (Cons x xs)
  then have IH: "chain_ok d (xs @ vs) \<and> flow d (xs @ vs) = flow c (xs @ vs)" by simp
  have "same_at c d x" using Cons.prems by simp
  then show ?case using IH Cons.prems(1) same_at_ok(1) [of c d x "first_of (xs @ vs)"] same_at_ok(2) [of c d x]
    by (simp add: same_at_def)
qed

lemma chain_frame_end:
  assumes "chain_ok c ys" "\<forall>x\<in>set ys. same_at c d x" "ln_emitted d = ln_emitted c"
  shows "chain_ok d ys \<and> flow d ys = flow c ys"
  using chain_frame [of c ys "[]" d] assms by simp

lemma chain_suffix: "chain_ok c (xs @ vs) \<Longrightarrow> chain_ok c vs"
  by (induction xs) auto

section \<open>The workers in operation\<close>

fun in_operation :: "worker_at \<Rightarrow> bool" where
  "in_operation W_test = True" | "in_operation (W_busy obj) = True" | "in_operation (W_routed obj q) = True"
| "in_operation _ = False"

definition n_in_operation :: "'m line \<Rightarrow> addr list \<Rightarrow> nat" where
  "n_in_operation c ps = length (filter (\<lambda>p. in_operation (ln_worker c p)) ps)"

section \<open>The invariant\<close>

definition line_inv :: "addr list \<Rightarrow> 'm line \<Rightarrow> bool" where
  "line_inv ps c \<longleftrightarrow> distinct ps \<and> ps \<noteq> [] \<and> ln_root_stage c = first_of ps \<and> \<not> ln_failed c \<and> ln_accept_new_object c \<and>
     (\<forall>t. ln_client c t = C_idle \<or> (\<exists>obj. ln_client c t = C_admitted obj)) \<and> (\<forall>p. p \<notin> set ps \<longrightarrow> ln_stages c p = None) \<and>
     chain_ok c ps \<and> ln_pushed c = flow c ps \<and> ln_n_workers_in_operation c = of_nat (n_in_operation c ps)"

text \<open>The processing functions send an object to the next stage or leave the choice to the line.\<close>

definition follows_line :: "'m stage_processing \<Rightarrow> bool" where
  "follows_line cbk \<longleftrightarrow> (\<forall>p sg obj m. fst (cbk p sg obj m) = 0 \<or> fst (cbk p sg obj m) = sg_next_stage sg ! 0)"

text \<open>A step that concerns only the stages \<open>vs\<close>, and puts nothing into the first stage.\<close>

lemma line_inv_at:
  assumes "line_inv (xs @ vs) c" "\<forall>x\<in>set xs. same_at c d x" "vs \<noteq> []"
    and fields: "ln_root_stage d = ln_root_stage c" "ln_failed d = ln_failed c" "ln_accept_new_object d = ln_accept_new_object c"
      "ln_client d = ln_client c" "ln_pushed d = ln_pushed c"
    and stages: "\<And>q. q \<notin> set vs \<Longrightarrow> ln_stages d q = ln_stages c q"
    and at: "chain_ok d vs" "flow d vs = flow c vs"
    and n: "ln_n_workers_in_operation d + of_nat (n_in_operation c vs) = ln_n_workers_in_operation c + of_nat (n_in_operation d vs)"
  shows "line_inv (xs @ vs) d"
proof -
  have old: "distinct (xs @ vs)" "ln_root_stage c = first_of (xs @ vs)" "\<not> ln_failed c" "ln_accept_new_object c"
    "\<forall>t. ln_client c t = C_idle \<or> (\<exists>obj. ln_client c t = C_admitted obj)" "\<And>q. q \<notin> set (xs @ vs) \<Longrightarrow> ln_stages c q = None"
    "chain_ok c (xs @ vs)" "ln_pushed c = flow c (xs @ vs)" "ln_n_workers_in_operation c = of_nat (n_in_operation c (xs @ vs))"
    using assms(1) unfolding line_inv_def by blast+
  have all: "chain_ok d (xs @ vs)" "flow d (xs @ vs) = flow c (xs @ vs)" using chain_frame [OF old(7) at assms(2)] by auto
  have "filter (\<lambda>p. in_operation (ln_worker d p)) xs = filter (\<lambda>p. in_operation (ln_worker c p)) xs"
    using assms(2) by (intro filter_cong) (auto simp: same_at_def)
  then have "ln_n_workers_in_operation d = of_nat (n_in_operation d (xs @ vs))"
    using n old(9) by (simp add: n_in_operation_def algebra_simps)
  moreover have "ln_stages d q = None" if "q \<notin> set (xs @ vs)" for q using old(6) [OF that] stages [of q] that by auto
  ultimately show ?thesis unfolding line_inv_def using old(1-5,8) assms(3) fields all by auto
qed

lemma line_inv_split:
  assumes "line_inv (xs @ p # ys) c"
  shows "stage_ok c p (first_of ys)" "processed c p = flow c ys @ routed (ln_worker c p)" "chain_ok c ys"
    "p \<notin> set xs" "p \<notin> set ys" "distinct ys" "set xs \<inter> set ys = {}"
  using assms chain_suffix [of c xs "p # ys"] by (auto simp: line_inv_def)

text \<open>A step that concerns one stage only, keeps its contents, and emits nothing.\<close>

lemma line_inv_one:
  fixes c d :: "'m line"
  assumes inv: "line_inv (xs @ p # ys) c"
    and fields: "ln_root_stage d = ln_root_stage c" "ln_failed d = ln_failed c" "ln_accept_new_object d = ln_accept_new_object c"
      "ln_client d = ln_client c" "ln_pushed d = ln_pushed c" "ln_emitted d = ln_emitted c"
    and rest: "\<And>q. q \<noteq> p \<Longrightarrow> ln_stages d q = ln_stages c q \<and> ln_worker d q = ln_worker c q \<and> processed d q = processed c q"
      "ln_cancelled d = ln_cancelled c"
    and at: "stage_ok d p (first_of ys)" "contents d p = contents c p" "processed d p = flow c ys @ routed (ln_worker d p)"
    and n: "ln_n_workers_in_operation d + (if in_operation (ln_worker c p) then 1 else 0) =
      ln_n_workers_in_operation c + (if in_operation (ln_worker d p) then 1 else 0)"
  shows "line_inv (xs @ p # ys) d"
proof (rule line_inv_at [OF inv])
  note split = line_inv_split [OF inv]
  have same: "same_at c d x" if "x \<noteq> p" for x using rest that by (simp add: same_at_def)
  have ys: "chain_ok d ys \<and> flow d ys = flow c ys" using chain_frame_end [OF split(3)] same split(5) fields(6) by metis
  show "chain_ok d (p # ys)" "flow d (p # ys) = flow c (p # ys)" using ys at by auto
  show "\<forall>x\<in>set xs. same_at c d x" using same split(4) by metis
  have "filter (\<lambda>p. in_operation (ln_worker d p)) ys = filter (\<lambda>p. in_operation (ln_worker c p)) ys"
  proof (rule filter_cong [OF refl])
    fix x assume "x \<in> set ys"
    then have "x \<noteq> p" using split(5) by blast
    then show "in_operation (ln_worker d x) = in_operation (ln_worker c x)" using rest(1) by simp
  qed
  then show "ln_n_workers_in_operation d + of_nat (n_in_operation c (p # ys)) = ln_n_workers_in_operation c + of_nat (n_in_operation d (p # ys))"
    using n by (cases "in_operation (ln_worker c p)"; cases "in_operation (ln_worker d p)")
      (simp_all add: n_in_operation_def algebra_simps)
qed (use fields rest in auto)

lemma processed_log: "processed (c\<lparr>ln_log := ln_log c @ [(p, obj)]\<rparr>) q = processed c q @ (if q = p then [obj] else [])"
  by (simp add: processed_def)

lemma worker_test_keeps:
  assumes "line_inv (xs @ p # ys) c" "ln_worker c p = W_test" "worker_thread_fn cbk p c = Some d"
  shows "line_inv (xs @ p # ys) d"
proof -
  note split = line_inv_split [OF assms(1)]
  obtain sg where sg: "ln_stages c p = Some sg" "0 < sg_fanout sg" "sg_next_stage sg ! 0 = first_of ys" "p \<noteq> 0" "\<not> ln_cancelled c p"
    using split(1) by (auto simp: stage_ok_def)
  have acc: "ln_accept_new_object c" using assms(1) by (simp add: line_inv_def)
  show ?thesis
  proof (cases "sg_object_queue sg")
    case Nil
    then have "d = set_worker p W_waiting (c\<lparr>ln_n_workers_in_operation := ln_n_workers_in_operation c - 1\<rparr>)"
      using assms(2,3) sg acc by (simp add: worker_thread_fn_def asl_workers_in_operation_def)
    then show ?thesis using split assms(2) sg Nil
      by (intro line_inv_one [OF assms(1)])
        (auto simp: set_worker_def stage_ok_def contents_def queue_at_def processed_def)
  next
    case (Cons obj objs)
    then have "d = set_worker p (W_busy obj) (c\<lparr>ln_stages := (ln_stages c)(p \<mapsto> sg\<lparr>sg_object_queue := objs\<rparr>)\<rparr>)"
      using assms(2,3) sg by (simp add: worker_thread_fn_def)
    then show ?thesis using split assms(2) sg Cons
      by (intro line_inv_one [OF assms(1)])
        (auto simp: set_worker_def stage_ok_def contents_def queue_at_def processed_def)
  qed
qed

lemma worker_woken_keeps:
  assumes "line_inv (xs @ p # ys) c" "ln_worker c p = W_woken" "worker_thread_fn cbk p c = Some d"
  shows "line_inv (xs @ p # ys) d"
proof -
  note split = line_inv_split [OF assms(1)]
  have "d = set_worker p W_test (c\<lparr>ln_n_workers_in_operation := ln_n_workers_in_operation c + 1\<rparr>)"
    using assms(2,3) by (auto simp: worker_thread_fn_def asl_workers_in_operation_def split: option.splits)
  then show ?thesis using split assms(2)
    by (intro line_inv_one [OF assms(1)])
      (auto simp: set_worker_def stage_ok_def contents_def queue_at_def processed_def)
qed

lemma worker_busy_keeps:
  assumes "line_inv (xs @ p # ys) c" "follows_line cbk" "ln_worker c p = W_busy obj" "worker_thread_fn cbk p c = Some d"
  shows "line_inv (xs @ p # ys) d"
proof -
  note split = line_inv_split [OF assms(1)]
  obtain sg where sg: "ln_stages c p = Some sg" "0 < sg_fanout sg" "sg_next_stage sg ! 0 = first_of ys" "p \<noteq> 0" "\<not> ln_cancelled c p"
    using split(1) by (auto simp: stage_ok_def)
  obtain q m where q: "cbk p sg obj (ln_mem c) = (q, m)" by fastforce
  have "q = 0 \<or> q = first_of ys" using assms(2) q sg(3) unfolding follows_line_def by (metis fst_conv)
  then have d: "d = set_worker p (W_routed obj (first_of ys)) (c\<lparr>ln_mem := m, ln_log := ln_log c @ [(p, obj)]\<rparr>)"
    using assms(3,4) sg(1-3) q by (auto simp: worker_thread_fn_def Let_def split: if_splits)
  have log: "processed d x = processed c x @ (if x = p then [obj] else [])" for x by (simp add: d set_worker_def processed_def)
  show ?thesis
    by (rule line_inv_one [OF assms(1)])
      (use split assms(3) sg in \<open>auto simp: log\<close>, auto simp: d set_worker_def stage_ok_def contents_def queue_at_def)
qed

text \<open>An object that leaves the line, and one that goes to the next stage.\<close>

lemma worker_emit_keeps:
  assumes "line_inv (xs @ [p]) c" "ln_worker c p = W_routed obj 0" "worker_thread_fn cbk p c = Some d"
  shows "line_inv (xs @ [p]) d"
proof -
  note split = line_inv_split [OF assms(1)]
  have d: "d = set_worker p W_test (c\<lparr>ln_emitted := ln_emitted c @ [obj]\<rparr>)"
    using assms(2,3) by (auto simp: worker_thread_fn_def split: option.splits)
  have proc: "processed d x = processed c x" for x by (simp add: d set_worker_def processed_def)
  show ?thesis
  proof (rule line_inv_at [OF assms(1)])
    show "chain_ok d [p]" using split(1,2) assms(2) by (simp add: proc) (simp add: d set_worker_def stage_ok_def queue_at_def)
    show "flow d [p] = flow c [p]" using assms(2) by (simp add: d set_worker_def contents_def queue_at_def)
    show "\<forall>x\<in>set xs. same_at c d x" using split(4) by (auto simp: same_at_def proc) (auto simp: d set_worker_def)
    show "ln_n_workers_in_operation d + of_nat (n_in_operation c [p]) = ln_n_workers_in_operation c + of_nat (n_in_operation d [p])"
      using assms(2) by (simp add: d set_worker_def n_in_operation_def)
  qed (simp_all add: d set_worker_def)
qed

lemma wake_worker_ok: "worker_ok r objs w \<Longrightarrow> objs = [] \<Longrightarrow> worker_ok r [obj] (wake_worker w)"
  "worker_ok r objs w \<Longrightarrow> objs \<noteq> [] \<Longrightarrow> worker_ok r (objs @ [obj]) w"
  "hand (wake_worker w) = hand w" "routed (wake_worker w) = routed w" "in_operation (wake_worker w) = in_operation w"
  by (cases w; simp add: wake_worker_def)+

lemma enqueue_at:
  fixes c :: "'m line"
  assumes ok: "stage_ok c q r" and d: "d = asl_stage_enqueue q obj c"
  shows "stage_ok d q r" "contents d q = contents c q @ [obj]" "routed (ln_worker d q) = routed (ln_worker c q)"
    "in_operation (ln_worker d q) = in_operation (ln_worker c q)" "\<And>x. processed d x = processed c x"
    "\<And>x. x \<noteq> q \<Longrightarrow> same_at c d x" "ln_root_stage d = ln_root_stage c" "ln_failed d = ln_failed c"
    "ln_accept_new_object d = ln_accept_new_object c" "ln_client d = ln_client c" "ln_pushed d = ln_pushed c"
    "ln_emitted d = ln_emitted c" "ln_n_workers_in_operation d = ln_n_workers_in_operation c"
    "\<And>x. x \<noteq> q \<Longrightarrow> ln_stages d x = ln_stages c x" "\<And>x. x \<noteq> q \<Longrightarrow> ln_worker d x = ln_worker c x"
proof -
  obtain sg where sg: "ln_stages c q = Some sg" "0 < sg_fanout sg" "sg_next_stage sg ! 0 = r" "q \<noteq> 0" "\<not> ln_cancelled c q"
    "worker_ok r (sg_object_queue sg) (ln_worker c q)" using ok by (auto simp: stage_ok_def queue_at_def)
  let ?w = "if sg_object_queue sg = [] then wake_worker (ln_worker c q) else ln_worker c q"
  have d': "d = c\<lparr>ln_worker := (ln_worker c)(q := ?w), ln_stages := (ln_stages c)(q \<mapsto> sg\<lparr>sg_object_queue := sg_object_queue sg @ [obj]\<rparr>)\<rparr>"
    by (simp add: d asl_stage_enqueue_def sg(1) fun_upd_idem)
  have w: "worker_ok r (sg_object_queue sg @ [obj]) ?w" "hand ?w = hand (ln_worker c q)" "routed ?w = routed (ln_worker c q)"
    "in_operation ?w = in_operation (ln_worker c q)" using wake_worker_ok(1,2) [of r "sg_object_queue sg" "ln_worker c q" obj] sg(6)
    by (auto simp: wake_worker_ok(3-5))
  show "stage_ok d q r" using sg w(1) by (simp add: d' stage_ok_def queue_at_def)
  show "contents d q = contents c q @ [obj]" using sg(1) w(2) by (simp add: d' contents_def queue_at_def)
  show "routed (ln_worker d q) = routed (ln_worker c q)" "in_operation (ln_worker d q) = in_operation (ln_worker c q)"
    using w(3,4) by (simp_all add: d')
  show "ln_failed d = ln_failed c" by (simp add: d')
qed (simp_all add: d asl_stage_enqueue_def processed_def same_at_def fail_def split: option.splits)

lemma worker_transfer_keeps:
  assumes "line_inv (xs @ p # q # zs) c" "ln_worker c p = W_routed obj q" "worker_thread_fn cbk p c = Some d"
  shows "line_inv (xs @ p # q # zs) d"
proof -
  note split = line_inv_split [OF assms(1)]
  have inv': "line_inv ((xs @ [p]) @ q # zs) c" using assms(1) by simp
  note split' = line_inv_split [OF inv']
  let ?c = "set_worker p W_test c"
  have pq: "p \<noteq> q" "q \<notin> set zs" using split'(4,5) by auto
  have qok: "stage_ok c q (first_of zs)" by (rule split'(1))
  then have "q \<noteq> 0" by (simp add: stage_ok_def)
  then have d: "d = asl_stage_enqueue q obj ?c"
    using assms(2,3) by (auto simp: worker_thread_fn_def split: option.splits)
  have "stage_ok ?c q (first_of zs)" using qok pq by (simp add: stage_ok_def set_worker_def queue_at_def)
  note at = enqueue_at [OF this d]
  have c: "processed ?c x = processed c x" "ln_worker ?c p = W_test" for x by (simp_all add: set_worker_def processed_def)
  have c_at: "same_at c ?c x" if "x \<noteq> p" for x using that by (simp add: same_at_def set_worker_def processed_def)
  have same: "same_at c d x" if "x \<noteq> p" "x \<noteq> q" for x using c_at [OF that(1)] at(6) [OF that(2)] by (simp add: same_at_def)
  have p: "stage_ok d p q" "contents d p = queue_at c p" "contents c p = obj # queue_at c p" "routed (ln_worker d p) = []" "processed d p = processed c p"
    using split(1) assms(2) pq at(6) [OF pq(1)] c at(5) [of p]
    by (auto simp: same_at_def stage_ok_def queue_at_def contents_def set_worker_def)
  have cq: "contents ?c q = contents c q" "ln_worker ?c q = ln_worker c q" using pq by (simp_all add: contents_def queue_at_def set_worker_def)
  have same_zs: "\<forall>x\<in>set zs. same_at c d x"
  proof
    fix x assume "x \<in> set zs"
    then have "x \<noteq> p" "x \<noteq> q" using split'(5) split(5) by auto
    then show "same_at c d x" by (rule same)
  qed
  have "ln_emitted d = ln_emitted c" using at(12) by (simp add: set_worker_def)
  then have zs: "chain_ok d zs \<and> flow d zs = flow c zs" by (rule chain_frame_end [OF split'(3) same_zs])
  show ?thesis
  proof (rule line_inv_at [OF assms(1)])
    show "flow d (p # q # zs) = flow c (p # q # zs)" using zs p(2,3) at(2) cq by simp
    show "chain_ok d (p # q # zs)"
      using zs p at(1,2,3,5) cq split(2) split'(2) assms(2) by (simp add: c)
    show "\<forall>x\<in>set xs. same_at c d x"
    proof
      fix x assume "x \<in> set xs"
      then have "x \<noteq> p" "x \<noteq> q" using split(4) split'(4) by auto
      then show "same_at c d x" by (rule same)
    qed
    have "filter (\<lambda>x. in_operation (ln_worker d x)) zs = filter (\<lambda>x. in_operation (ln_worker c x)) zs"
      using same_zs by (intro filter_cong) (auto simp: same_at_def)
    moreover have "ln_worker d p = W_test" using at(15) [OF pq(1)] c(2) by simp
    ultimately show "ln_n_workers_in_operation d + of_nat (n_in_operation c (p # q # zs)) =
      ln_n_workers_in_operation c + of_nat (n_in_operation d (p # q # zs))"
      using assms(2) at(4,13) cq by (simp add: n_in_operation_def set_worker_def)
  qed (use at in \<open>auto simp: set_worker_def\<close>)
qed

lemma worker_keeps:
  assumes "line_inv ps c" "follows_line cbk" "worker_thread_fn cbk p c = Some d"
  shows "line_inv ps d"
proof -
  have "ln_stages c p \<noteq> None" using assms(3) by (cases "ln_stages c p") (auto simp: worker_thread_fn_def)
  then have "p \<in> set ps" using assms(1) by (auto simp: line_inv_def)
  then obtain xs ys where ps: "ps = xs @ p # ys" by (meson split_list)
  note inv = assms(1) [unfolded ps]
  note split = line_inv_split [OF inv]
  show ?thesis
  proof (cases "ln_worker c p")
    case W_test
    then show ?thesis unfolding ps by (rule worker_test_keeps [OF inv _ assms(3)])
  next
    case (W_busy obj)
    then show ?thesis unfolding ps by (rule worker_busy_keeps [OF inv assms(2) _ assms(3)])
  next
    case (W_routed obj q)
    then have q: "q = first_of ys" using split(1) by (simp add: stage_ok_def)
    show ?thesis
    proof (cases ys)
      case Nil
      then show ?thesis using inv assms(3) W_routed q unfolding ps Nil by (auto intro: worker_emit_keeps)
    next
      case (Cons q' zs)
      then show ?thesis using inv assms(3) W_routed q unfolding ps Cons by (auto intro: worker_transfer_keeps)
    qed
  next
    case W_waiting
    then show ?thesis using split(1) assms(3) by (auto simp: worker_thread_fn_def stage_ok_def)
  next
    case W_woken
    then show ?thesis unfolding ps by (rule worker_woken_keeps [OF inv _ assms(3)])
  next
    case W_dead
    then show ?thesis using split(1) by (simp add: stage_ok_def)
  qed
qed

text \<open>An object that a client puts into the first stage.\<close>

lemma enqueue_keeps:
  assumes "line_inv ps c"
  shows "line_inv ps (asl_enqueue_second t obj c)"
proof -
  obtain p ys where ps: "ps = [] @ p # ys" using assms by (cases ps) (auto simp: line_inv_def)
  note inv = assms [unfolded ps]
  note split = line_inv_split [OF inv]
  have root: "ln_root_stage c = p" using assms by (simp add: line_inv_def ps)
  let ?c = "c\<lparr>ln_pushed := ln_pushed c @ [obj]\<rparr>"
  define e where "e = asl_stage_enqueue p obj ?c"
  have d: "asl_enqueue_second t obj c = set_client t C_idle e" by (simp add: asl_enqueue_second_def root e_def)
  have "stage_ok ?c p (first_of ys)" using split(1) by (simp add: stage_ok_def queue_at_def)
  note at = enqueue_at [OF this e_def]
  have same: "same_at c e x" if "x \<noteq> p" for x using at(6) [OF that] by (simp add: same_at_def processed_def)
  have "\<forall>x\<in>set ys. same_at c e x" using same split(5) by metis
  moreover have "ln_emitted e = ln_emitted c" using at(12) by simp
  ultimately have ys: "chain_ok e ys \<and> flow e ys = flow c ys" by (rule chain_frame_end [OF split(3)])
  have e_at: "contents e p = contents c p @ [obj]" "processed e p = processed c p" "routed (ln_worker e p) = routed (ln_worker c p)"
    using at(2,3) at(5) [of p] by (simp_all add: contents_def queue_at_def processed_def)
  then have "chain_ok e (p # ys)" using ys at(1) split(2) by simp
  moreover have "flow e (p # ys) = flow c (p # ys) @ [obj]" using ys e_at by simp
  moreover have "n_in_operation e (p # ys) = n_in_operation c (p # ys)"
  proof -
    have "in_operation (ln_worker e x) = in_operation (ln_worker c x)" for x
      using at(4) at(15) [of x] by (cases "x = p") auto
    then show ?thesis by (simp add: n_in_operation_def)
  qed
  moreover have "ln_stages e x = None" if "x \<notin> set (p # ys)" for x
    using that at(14) [of x] inv by (auto simp: line_inv_def)
  ultimately have "line_inv (p # ys) e" using inv at(7-13) by (simp add: line_inv_def)
  then have "line_inv ps e" by (simp add: ps)
  moreover have chain: "chain_ok (set_client t C_idle e) vs \<longleftrightarrow> chain_ok e vs" "flow (set_client t C_idle e) vs = flow e vs" for vs
  proof (induction vs)
    case (Cons x xs)
    case 1
    show ?case using Cons by (simp add: set_client_def stage_ok_def contents_def queue_at_def processed_def)
  next
    case (Cons x xs)
    case 2
    show ?case using Cons by (simp add: set_client_def contents_def queue_at_def)
  qed (simp_all add: set_client_def)
  ultimately show ?thesis unfolding d line_inv_def chain by (simp add: set_client_def n_in_operation_def)
qed

lemma spurious_keeps:
  assumes "line_inv ps c" "ln_worker c p = W_waiting" "ln_stages c p \<noteq> None"
  shows "line_inv ps (set_worker p W_woken c)"
proof -
  have "p \<in> set ps" using assms(1,3) by (auto simp: line_inv_def)
  then obtain xs ys where ps: "ps = xs @ p # ys" by (meson split_list)
  note inv = assms(1) [unfolded ps]
  show ?thesis unfolding ps using line_inv_split [OF inv] assms(2)
    by (intro line_inv_one [OF inv]) (auto simp: set_worker_def stage_ok_def contents_def queue_at_def processed_def)
qed

lemma admitted_keeps:
  assumes "line_inv ps c"
  shows "line_inv ps (set_client t (C_admitted obj) c)"
proof -
  let ?d = "set_client t (C_admitted obj) c"
  have "chain_ok ?d vs = chain_ok c vs \<and> flow ?d vs = flow c vs" for vs
    by (induction vs) (simp_all add: set_client_def stage_ok_def contents_def queue_at_def processed_def)
  then show ?thesis using assms by (simp add: line_inv_def) (simp add: set_client_def n_in_operation_def)
qed

lemma line_next_keeps:
  assumes "line_inv ps c" "follows_line cbk" "no_destroy e" "line_next cbk e c = Some d"
  shows "line_inv ps d"
proof (cases e)
  case (Ev_worker p)
  then show ?thesis using assms by (auto intro: worker_keeps)
next
  case (Ev_worker_spurious p)
  then show ?thesis using assms by (auto intro: spurious_keeps split: if_splits)
next
  case (Ev_enqueue t obj)
  then show ?thesis using assms by (auto simp: asl_enqueue_def intro: admitted_keeps split: if_splits)
next
  case (Ev_client t)
  have "ln_client c t = C_idle \<or> (\<exists>obj. ln_client c t = C_admitted obj)" using assms(1) by (simp add: line_inv_def)
  then show ?thesis using assms(1,4) Ev_client by (auto simp: client_step_def intro: enqueue_keeps)
next
  case (Ev_client_spurious t)
  have "ln_client c t = C_idle \<or> (\<exists>obj. ln_client c t = C_admitted obj)" using assms(1) by (simp add: line_inv_def)
  then show ?thesis using assms(4) Ev_client_spurious by (auto split: if_splits)
qed (use assms in auto)

lemma line_run_keeps:
  "line_run cbk es c = Some d \<Longrightarrow> line_inv ps c \<Longrightarrow> follows_line cbk \<Longrightarrow> list_all no_destroy es \<Longrightarrow> line_inv ps d"
proof (induction es arbitrary: c)
  case (Cons e es)
  then obtain b where "line_next cbk e c = Some b" "line_run cbk es b = Some d" by (auto split: option.splits if_splits)
  with Cons show ?case using line_next_keeps [of ps c cbk e b] by auto
qed simp

section \<open>Building the line\<close>

fun create_stages :: "addr list \<Rightarrow> 'm line \<Rightarrow> 'm line" where
  "create_stages [] c = c"
| "create_stages (p # ps) c = create_stages ps (asl_create_new_stage p 1 c)"

fun add_children :: "addr list \<Rightarrow> 'm line \<Rightarrow> 'm line option" where
  "add_children (p # q # ps) c = Option.bind (asl_add_child_stage p q c) (add_children (q # ps))"
| "add_children _ c = Some c"

text \<open>A chain of stages, as \<^verbatim>\<open>main\<close> of \<^verbatim>\<open>testapp.c\<close> builds it.\<close>

definition build_chain :: "addr list \<Rightarrow> 'm \<Rightarrow> 'm line option" where
  "build_chain ps m = Option.bind (asl_add_root_stage (hd ps) (create_stages ps (asl_create_new m))) (add_children ps)"

definition new_stage :: "addr \<Rightarrow> asl_stage" where
  "new_stage q = \<lparr>sg_fanout = 1, sg_next_stage = [q], sg_object_queue = []\<rparr>"

lemma create_stages_is:
  "create_stages ps c = c\<lparr>ln_n_workers_in_operation := ln_n_workers_in_operation c + of_nat (length ps),
     ln_stages := (\<lambda>p. if p \<in> set ps then Some (new_stage 0) else ln_stages c p),
     ln_worker := (\<lambda>p. if p \<in> set ps then W_test else ln_worker c p)\<rparr>"
  by (induction ps arbitrary: c)
    (auto simp: asl_create_new_stage_def asl_workers_in_operation_def new_stage_def fun_eq_iff algebra_simps intro!: line.equality)

fun linked :: "(addr \<Rightarrow> asl_stage option) \<Rightarrow> addr list \<Rightarrow> bool" where
  "linked st [] \<longleftrightarrow> True"
| "linked st (p # ps) \<longleftrightarrow> st p = Some (new_stage (first_of ps)) \<and> linked st ps"

lemma linked_other: "p \<notin> set ps \<Longrightarrow> linked (st(p \<mapsto> x)) ps = linked st ps"
  by (induction ps) auto

lemma add_children_is:
  assumes "distinct ps" "\<forall>p\<in>set ps. ln_stages c p = Some (new_stage 0)" "0 \<notin> set ps"
  shows "\<exists>st. add_children ps c = Some (c\<lparr>ln_stages := st\<rparr>) \<and> linked st ps \<and> (\<forall>p. p \<notin> set ps \<longrightarrow> st p = ln_stages c p)"
  using assms
proof (induction ps c rule: add_children.induct [case_names more none one])
  case (more p q ps c)
  let ?c = "c\<lparr>ln_stages := (ln_stages c)(p \<mapsto> new_stage q)\<rparr>"
  have "ln_stages c p = Some (new_stage 0)" using more(3) by simp
  then have add: "asl_add_child_stage p q c = Some ?c" by (simp add: asl_add_child_stage_def) (simp add: new_stage_def)
  have "\<exists>st. add_children (q # ps) ?c = Some (?c\<lparr>ln_stages := st\<rparr>) \<and> linked st (q # ps) \<and>
      (\<forall>x. x \<notin> set (q # ps) \<longrightarrow> st x = ln_stages ?c x)"
    by (rule more(1) [OF add]) (use more(2-4) in auto)
  then obtain st where st: "add_children (q # ps) ?c = Some (?c\<lparr>ln_stages := st\<rparr>)" "linked st (q # ps)"
    "\<forall>x. x \<notin> set (q # ps) \<longrightarrow> st x = ln_stages ?c x" by blast
  then show ?case using add more(2) by (intro exI [of _ st]) auto
next
  case (none c)
  then show ?case by (intro exI [of _ "ln_stages c"]) simp
next
  case (one p c)
  then show ?case by (intro exI [of _ "ln_stages c"]) simp
qed

lemma new_chain_ok:
  assumes "linked (ln_stages c) ps" "0 \<notin> set ps" "\<forall>p\<in>set ps. ln_worker c p = W_test" "\<And>p. \<not> ln_cancelled c p"
    "ln_log c = []" "ln_emitted c = []"
  shows "chain_ok c ps \<and> flow c ps = []"
  using assms by (induction ps) (auto simp: stage_ok_def contents_def queue_at_def processed_def new_stage_def)

lemma build_chain_inv:
  assumes "distinct ps" "ps \<noteq> []" "0 \<notin> set ps"
  shows "\<exists>c. build_chain ps m = Some c \<and> line_inv ps c \<and> ln_mem c = m \<and> ln_log c = []"
proof -
  let ?c = "(create_stages ps (asl_create_new m))\<lparr>ln_root_stage := hd ps\<rparr>"
  have new: "ln_stages ?c p = (if p \<in> set ps then Some (new_stage 0) else None)" "\<not> ln_cancelled ?c p" "ln_client ?c t = C_idle"
    "ln_log ?c = []" "ln_emitted ?c = []" "ln_pushed ?c = []" "ln_n_workers_in_operation ?c = of_nat (length ps)"
    "ln_worker ?c p = (if p \<in> set ps then W_test else W_dead)" "\<not> ln_failed ?c" "ln_accept_new_object ?c" "ln_mem ?c = m" for p t
    by (simp_all add: create_stages_is asl_create_new_def)
  obtain st where st: "add_children ps ?c = Some (?c\<lparr>ln_stages := st\<rparr>)" "linked st ps" "\<forall>p. p \<notin> set ps \<longrightarrow> st p = None"
    using add_children_is [of ps ?c] assms new by auto
  let ?d = "?c\<lparr>ln_stages := st\<rparr>"
  have "asl_add_root_stage (hd ps) (create_stages ps (asl_create_new m)) = Some ?c"
    by (simp add: asl_add_root_stage_def create_stages_is asl_create_new_def)
  then have build: "build_chain ps m = Some ?d" using st(1) by (simp add: build_chain_def)
  have chain: "chain_ok ?d ps \<and> flow ?d ps = []" by (rule new_chain_ok) (use st new assms in auto)
  have "filter (\<lambda>p. in_operation (ln_worker ?d p)) ps = ps" using new by (intro filter_True) auto
  then have "n_in_operation ?d ps = length ps" by (simp only: n_in_operation_def)
  then have "line_inv ps ?d" using chain st new assms by (cases ps) (auto simp: line_inv_def)
  then show ?thesis using build new by auto
qed

section \<open>The line empties\<close>

text \<open>What a worker and the objects of a stage with \<open>k\<close> stages to go still have to do.\<close>

fun worker_work :: "nat \<Rightarrow> worker_at \<Rightarrow> nat" where
  "worker_work k W_test = 1"
| "worker_work k (W_busy obj) = 6 * k - 1"
| "worker_work k (W_routed obj q) = 6 * k - 2"
| "worker_work k W_woken = 2"
| "worker_work k _ = 0"

fun work :: "'m line \<Rightarrow> addr list \<Rightarrow> nat" where
  "work c [] = 0"
| "work c (p # ps) = 6 * Suc (length ps) * length (queue_at c p) + worker_work (Suc (length ps)) (ln_worker c p) + work c ps"

lemma work_same: "\<forall>x\<in>set vs. same_at c d x \<Longrightarrow> work d vs = work c vs"
  by (induction vs) (auto simp: same_at_def queue_at_def)

lemma work_frame: "\<forall>x\<in>set xs. same_at c d x \<Longrightarrow> work d vs < work c vs \<Longrightarrow> work d (xs @ vs) < work c (xs @ vs)"
  by (induction xs) (auto simp: same_at_def queue_at_def)

lemma enqueue_work:
  assumes "stage_ok c q r" "k \<noteq> 0"
  shows "6 * k * length (queue_at (asl_stage_enqueue q obj c) q) + worker_work k (ln_worker (asl_stage_enqueue q obj c) q)
    \<le> 6 * k * length (queue_at c q) + worker_work k (ln_worker c q) + 6 * k + 2"
proof -
  obtain sg where "ln_stages c q = Some sg" using assms(1) by (auto simp: stage_ok_def)
  then show ?thesis by (cases "ln_worker c q") (auto simp: asl_stage_enqueue_def queue_at_def wake_worker_def)
qed

lemma worker_work_less:
  assumes "line_inv (xs @ p # ys) c" "follows_line cbk" "worker_thread_fn cbk p c = Some d"
  shows "work d (xs @ p # ys) < work c (xs @ p # ys)"
proof -
  note split = line_inv_split [OF assms(1)]
  obtain sg where sg: "ln_stages c p = Some sg" "0 < sg_fanout sg" "sg_next_stage sg ! 0 = first_of ys" "p \<noteq> 0" "\<not> ln_cancelled c p"
    using split(1) by (auto simp: stage_ok_def)
  have acc: "ln_accept_new_object c" using assms(1) by (simp add: line_inv_def)
  let ?k = "Suc (length ys)"
  have one: "work d (xs @ p # ys) < work c (xs @ p # ys)"
    if "\<And>x. x \<noteq> p \<Longrightarrow> queue_at d x = queue_at c x \<and> ln_worker d x = ln_worker c x"
      "6 * ?k * length (queue_at d p) + worker_work ?k (ln_worker d p) < 6 * ?k * length (queue_at c p) + worker_work ?k (ln_worker c p)"
  proof -
    have same: "work d vs = work c vs" if "p \<notin> set vs" for vs
      using that \<open>\<And>x. x \<noteq> p \<Longrightarrow> queue_at d x = queue_at c x \<and> ln_worker d x = ln_worker c x\<close> by (induction vs) auto
    have "work d (zs @ p # ys) < work c (zs @ p # ys)" if "p \<notin> set zs" for zs
      using that
    proof (induction zs)
      case Nil
      then show ?case using same [OF split(5)] \<open>6 * ?k * _ + _ < _\<close> by simp
    next
      case (Cons z zs)
      then show ?case using \<open>\<And>x. x \<noteq> p \<Longrightarrow> queue_at d x = queue_at c x \<and> ln_worker d x = ln_worker c x\<close> [of z] by simp
    qed
    then show ?thesis using split(4) .
  qed
  show ?thesis
  proof (cases "ln_worker c p")
    case W_test
    then show ?thesis using assms(3) sg acc
      by (intro one) (auto simp: worker_thread_fn_def asl_workers_in_operation_def set_worker_def queue_at_def split: list.splits)
  next
    case (W_busy obj)
    then show ?thesis using assms(3) sg
      by (intro one) (auto simp: worker_thread_fn_def Let_def set_worker_def queue_at_def split: prod.splits if_splits)
  next
    case W_woken
    then show ?thesis using assms(3) sg
      by (intro one) (auto simp: worker_thread_fn_def asl_workers_in_operation_def set_worker_def queue_at_def)
  next
    case W_waiting
    then show ?thesis using assms(3) sg by (simp add: worker_thread_fn_def)
  next
    case W_dead
    then show ?thesis using assms(3) sg by (simp add: worker_thread_fn_def)
  next
    case (W_routed obj q)
    then have q: "q = first_of ys" using split(1) by (simp add: stage_ok_def)
    show ?thesis
    proof (cases ys)
      case Nil
      then show ?thesis using assms(3) sg W_routed q
        by (intro one) (auto simp: worker_thread_fn_def set_worker_def queue_at_def)
    next
      case (Cons q' zs)
      have inv': "line_inv ((xs @ [p]) @ q # zs) c" using assms(1) Cons q by simp
      note split' = line_inv_split [OF inv']
      let ?c = "set_worker p W_test c"
      have pq: "p \<noteq> q" "q \<notin> set zs" "p \<notin> set zs" using split'(4,5) split(5) Cons q by auto
      have "q \<noteq> 0" using split'(1) by (simp add: stage_ok_def)
      then have d: "d = asl_stage_enqueue q obj ?c" using assms(3) sg W_routed by (simp add: worker_thread_fn_def)
      have ok: "stage_ok ?c q (first_of zs)" using split'(1) pq by (simp add: stage_ok_def set_worker_def queue_at_def)
      note at = enqueue_at [OF ok d]
      have same: "same_at c d x" if "x \<noteq> p" "x \<noteq> q" for x
        using at(6) [OF that(2)] that(1) by (simp add: same_at_def set_worker_def processed_def)
      have "work d zs = work c zs"
      proof (rule work_same, rule ballI)
        fix x assume "x \<in> set zs"
        then show "same_at c d x" using pq by (intro same) auto
      qed
      moreover have "queue_at d p = queue_at c p" "ln_worker d p = W_test"
        using at(14,15) [OF pq(1)] by (simp_all add: queue_at_def set_worker_def)
      moreover have "queue_at ?c q = queue_at c q" "ln_worker ?c q = ln_worker c q" using pq by (simp_all add: queue_at_def set_worker_def)
      moreover have "6 * Suc (length zs) * length (queue_at d q) + worker_work (Suc (length zs)) (ln_worker d q)
          \<le> 6 * Suc (length zs) * length (queue_at ?c q) + worker_work (Suc (length zs)) (ln_worker ?c q) + 6 * Suc (length zs) + 2"
        unfolding d by (rule enqueue_work [OF ok]) simp
      ultimately have "work d (p # q # zs) < work c (p # q # zs)" using W_routed by simp
      moreover have "\<forall>x\<in>set xs. same_at c d x"
      proof
        fix x assume "x \<in> set xs"
        then have "x \<noteq> p" "x \<noteq> q" using split(4) split'(4) by auto
        then show "same_at c d x" by (rule same)
      qed
      ultimately show ?thesis using work_frame [of xs c d "p # q # zs"] Cons q by simp
    qed
  qed
qed

section \<open>Properties\<close>

lemma flow_prefix: "prefix (flow c vs) (flow c (xs @ vs))"
  by (induction xs) (auto intro: prefix_order.trans)

lemma chain_processed:
  assumes "chain_ok c ps" "p \<in> set ps"
  shows "prefix (ln_emitted c) (processed c p) \<and> prefix (processed c p) (flow c ps)"
proof -
  obtain xs ys where ps: "ps = xs @ p # ys" using assms(2) by (meson split_list)
  have proc: "processed c p = flow c ys @ routed (ln_worker c p)" using assms(1) chain_suffix [of c xs "p # ys"] by (simp add: ps)
  have "prefix (ln_emitted c) (flow c ys)" using flow_prefix [of c "[]" ys] by simp
  moreover have "prefix (routed w) (hand w)" for w by (cases w) simp_all
  then have "prefix (routed (ln_worker c p)) (contents c p)" by (simp add: contents_def prefix_prefix)
  then have "prefix (processed c p) (flow c (p # ys))" by (simp add: proc)
  ultimately have "prefix (ln_emitted c) (processed c p)" by (simp add: proc)
  moreover have "prefix (processed c p) (flow c ps)"
    unfolding ps by (rule prefix_order.trans [OF \<open>prefix (processed c p) (flow c (p # ys))\<close> flow_prefix])
  ultimately show ?thesis ..
qed

lemma built_run_inv:
  assumes "distinct ps" "ps \<noteq> []" "0 \<notin> set ps" "follows_line cbk" "list_all no_destroy es"
    and run: "Option.bind (build_chain ps m) (line_run cbk es) = Some c"
  shows "line_inv ps c"
  using run build_chain_inv [OF assms(1-3), of m] line_run_keeps [OF _ _ assms(4,5)] by (auto simp: bind_eq_Some_conv)

text \<open>C39. The line in order: a line of any stages in a chain, whose processing functions send an object to
  the next stage or leave that to the line, whatever the interleaving of its workers and of any number of
  clients and the spurious wake-ups: no assertion fails and no freed stage is used; what has been pushed is
  what has been emitted followed by what is on the line, in order; and each stage has processed the first
  of the objects, in the order they were pushed, among them all that have been emitted.\<close>

theorem stage_line_order:
  assumes "distinct ps" "ps \<noteq> []" "0 \<notin> set ps" "follows_line cbk" "list_all no_destroy es"
    and "Option.bind (build_chain ps m) (line_run cbk es) = Some c"
  shows "\<not> ln_failed c \<and> ln_pushed c = ln_emitted c @ concat (map (contents c) (rev ps)) \<and>
    (\<forall>p\<in>set ps. prefix (ln_emitted c) (processed c p) \<and> prefix (processed c p) (ln_pushed c))"
proof -
  have inv: "line_inv ps c" by (rule built_run_inv [OF assms])
  have "flow c vs = ln_emitted c @ concat (map (contents c) (rev vs))" for vs by (induction vs) auto
  then show ?thesis using inv chain_processed [of c ps] by (simp add: line_inv_def)
qed

text \<open>C40. The line empties: on a chain of stages whose objects follow it, from any state that it reaches without a
  destruction (after one, objects can be lost: \<open>stage_line_destroy_race\<close>), the workers alone make at most \<open>work c ps\<close> more steps
  (six for every stage an object has still to pass, and two for a worker), and when no worker can make a step
  all objects that have been pushed have been emitted.\<close>

theorem stage_line_drains:
  assumes "distinct ps" "ps \<noteq> []" "0 \<notin> set ps" "follows_line cbk" "list_all no_destroy es"
    and "Option.bind (build_chain ps m) (line_run cbk es) = Some c" and "line_run cbk (map Ev_worker qs) c = Some d"
  shows "length qs \<le> work c ps \<and> ((\<forall>p\<in>set ps. worker_thread_fn cbk p d = None) \<longrightarrow> ln_emitted d = ln_pushed c)"
proof -
  have inv: "line_inv ps c" by (rule built_run_inv [OF assms(1-6)])
  have pushed: "ln_pushed d = ln_pushed c" if "worker_thread_fn cbk q c = Some d" for q and c d :: "'a line"
    using that by (auto simp: worker_thread_fn_def set_worker_def asl_workers_in_operation_def asl_stage_enqueue_def fail_def Let_def
        split: option.splits worker_at.splits list.splits if_splits prod.splits)
  have "length qs + work d ps \<le> work c ps \<and> line_inv ps d \<and> ln_pushed d = ln_pushed c"
    using inv assms(7)
  proof (induction qs arbitrary: c)
    case (Cons q qs)
    then obtain b where b: "worker_thread_fn cbk q c = Some b" "line_run cbk (map Ev_worker qs) b = Some d"
      by (auto split: if_splits option.splits)
    have "ln_stages c q \<noteq> None" using b(1) by (cases "ln_stages c q") (auto simp: worker_thread_fn_def)
    then have "q \<in> set ps" using Cons.prems(1) by (auto simp: line_inv_def)
    then obtain xs ys where ps: "ps = xs @ q # ys" by (meson split_list)
    have "work b ps < work c ps" using worker_work_less [OF _ assms(4) b(1)] Cons.prems(1) by (simp add: ps)
    moreover have "line_inv ps b" by (rule worker_keeps [OF Cons.prems(1) assms(4) b(1)])
    ultimately show ?case using Cons.IH [OF _ b(2)] pushed [OF b(1)] by auto
  qed simp
  then have d: "length qs \<le> work c ps" "line_inv ps d" "ln_pushed d = ln_pushed c" by auto
  have "contents d p = []" if p: "p \<in> set ps" "worker_thread_fn cbk p d = None" for p
  proof -
    obtain xs ys where ps: "ps = xs @ p # ys" using p(1) by (meson split_list)
    have "stage_ok d p (first_of ys)" using line_inv_split(1) d(2) by (simp add: ps)
    then obtain sg where "ln_stages d p = Some sg" "worker_ok (first_of ys) (queue_at d p) (ln_worker d p)" "\<not> ln_cancelled d p"
      by (auto simp: stage_ok_def)
    then show ?thesis using p(2)
      by (auto simp: worker_thread_fn_def contents_def queue_at_def Let_def split: worker_at.splits list.splits if_splits prod.splits)
  qed
  moreover have "flow d vs = ln_emitted d @ concat (map (contents d) (rev vs))" for vs by (induction vs) auto
  ultimately show ?thesis using d by (auto simp: line_inv_def)
qed

text \<open>The counter is the number of workers that neither wait nor have just been woken, as long as there are
  fewer than 256 stages.\<close>

lemma stage_line_counter:
  assumes "line_inv ps c" "length ps < 256"
  shows "unat (ln_n_workers_in_operation c) = n_in_operation c ps"
proof -
  have "n_in_operation c ps < 256" using assms(2) length_filter_le [of "\<lambda>p. in_operation (ln_worker c p)" ps]
    unfolding n_in_operation_def by linarith
  then show ?thesis using assms(1) by (simp add: line_inv_def unat_of_nat take_bit_nat_eq_self)
qed

section \<open>The cars of \<^verbatim>\<open>testapp.c\<close>\<close>

unbundle bit_operations_syntax

text \<open>The memory of the cars holds their flags; the processing functions add one each, and return the
  next stage, but for the engine, which leaves it to the line.\<close>

definition car_processing :: "u8 \<Rightarrow> addr \<Rightarrow> addr \<Rightarrow> (addr \<Rightarrow> u8) \<Rightarrow> addr \<times> (addr \<Rightarrow> u8)" where
  "car_processing flag q obj cars = (q, cars(obj := cars obj OR flag))"

definition Car_Add_Wheels :: "asl_stage \<Rightarrow> addr \<Rightarrow> (addr \<Rightarrow> u8) \<Rightarrow> addr \<times> (addr \<Rightarrow> u8)" where
  "Car_Add_Wheels sg = car_processing 1 (sg_next_stage sg ! 0)"
definition Car_Add_Paint :: "asl_stage \<Rightarrow> addr \<Rightarrow> (addr \<Rightarrow> u8) \<Rightarrow> addr \<times> (addr \<Rightarrow> u8)" where
  "Car_Add_Paint sg = car_processing 2 (sg_next_stage sg ! 0)"
definition Car_Add_WindShield :: "asl_stage \<Rightarrow> addr \<Rightarrow> (addr \<Rightarrow> u8) \<Rightarrow> addr \<times> (addr \<Rightarrow> u8)" where
  "Car_Add_WindShield sg = car_processing 4 (sg_next_stage sg ! 0)"
definition Car_Add_Engine :: "asl_stage \<Rightarrow> addr \<Rightarrow> (addr \<Rightarrow> u8) \<Rightarrow> addr \<times> (addr \<Rightarrow> u8)" where
  "Car_Add_Engine sg = car_processing 8 0"
definition Car_Testing_Done :: "asl_stage \<Rightarrow> addr \<Rightarrow> (addr \<Rightarrow> u8) \<Rightarrow> addr \<times> (addr \<Rightarrow> u8)" where
  "Car_Testing_Done sg = car_processing 16 (sg_next_stage sg ! 0)"

text \<open>The stages of \<^verbatim>\<open>main\<close>, at the addresses 1 to 5 in the order of the line: wheels, wind shield,
  paint, engine, testing.\<close>

definition car_cbk :: "(addr \<Rightarrow> u8) stage_processing" where
  "car_cbk p sg = (if p = 1 then Car_Add_Wheels sg else if p = 2 then Car_Add_WindShield sg else if p = 3 then Car_Add_Paint sg
     else if p = 4 then Car_Add_Engine sg else Car_Testing_Done sg)"

definition car_flag :: "addr \<Rightarrow> u8" where
  "car_flag p = (if p = 1 then 1 else if p = 2 then 4 else if p = 3 then 2 else if p = 4 then 8 else 16)"

lemmas car_defs = car_cbk_def Car_Add_Wheels_def Car_Add_Paint_def Car_Add_WindShield_def Car_Add_Engine_def Car_Testing_Done_def
  car_processing_def

lemma car_cbk_follows: "follows_line car_cbk"
  by (simp add: follows_line_def car_defs)

lemma car_cbk_memory: "snd (car_cbk p sg obj cars) = cars(obj := cars obj OR car_flag p)"
  by (simp add: car_defs car_flag_def)

text \<open>What a stage has added to a car stays there.\<close>

definition cars_marked :: "(addr \<Rightarrow> u8) line \<Rightarrow> bool" where
  "cars_marked c \<longleftrightarrow> (\<forall>(p, obj) \<in> set (ln_log c). ln_mem c obj AND car_flag p = car_flag p)"

lemma and_or_absorb: "(x OR f) AND f = (f :: u8)"
  by (rule bit_eqI) (simp add: bit_simps)

lemma and_or_keep: "x AND f = f \<Longrightarrow> (x OR g) AND f = (f :: u8)"
  by (rule bit_eqI) (drule bit_eq_iff [THEN iffD1], auto simp: bit_simps)

lemma and_join: "x AND f = f \<Longrightarrow> x AND g = g \<Longrightarrow> x AND (f OR g) = (f OR g :: u8)"
  by (simp add: bit.conj_disj_distrib)

lemma cars_marked_next:
  assumes "line_next car_cbk e c = Some d" "cars_marked c"
  shows "cars_marked d"
proof -
  have same: "cars_marked d" if "ln_log d = ln_log c" "ln_mem d = ln_mem c" using that assms(2) by (simp add: cars_marked_def)
  show ?thesis
  proof (cases "\<exists>p obj. e = Ev_worker p \<and> ln_worker c p = W_busy obj")
    case True
    then obtain p obj where e: "e = Ev_worker p" "ln_worker c p = W_busy obj" by blast
    then obtain sg where sg: "ln_stages c p = Some sg" using assms(1) by (cases "ln_stages c p") (auto simp: worker_thread_fn_def)
    have "ln_log d = ln_log c @ [(p, obj)] \<and> ln_mem d = snd (car_cbk p sg obj (ln_mem c))"
      using assms(1) e sg
      by (cases "car_cbk p sg obj (ln_mem c)") (auto simp: worker_thread_fn_def Let_def set_worker_def fail_def split: if_splits)
    then show ?thesis using assms(2)
      by (auto simp: cars_marked_def car_cbk_memory and_or_keep and_or_absorb)
  next
    case False
    have "ln_log d = ln_log c \<and> ln_mem d = ln_mem c"
    proof (cases e)
      case (Ev_worker p)
      then show ?thesis using False assms(1)
        by (auto simp: worker_thread_fn_def set_worker_def asl_workers_in_operation_def asl_stage_enqueue_def fail_def Let_def
            split: option.splits worker_at.splits list.splits if_splits)
    next
      case (Ev_enqueue t obj)
      then show ?thesis using assms(1) by (auto simp: asl_enqueue_def set_client_def split: if_splits)
    next
      case (Ev_destroy t)
      then show ?thesis using assms(1)
        by (auto simp: asl_destroy_def destroy_loop_def set_client_def fail_def split: if_splits option.splits)
    next
      case (Ev_client t)
      then show ?thesis using assms(1)
        by (auto simp: client_step_def asl_enqueue_second_def asl_stage_enqueue_def destroy_loop_def asl_stage_cleanup_def asl_stage_joined_def
            set_client_def fail_def split: client_at.splits list.splits if_splits option.splits)
    qed (use assms(1) in \<open>auto simp: set_worker_def set_client_def split: if_splits\<close>)
    then show ?thesis using same by blast
  qed
qed

lemma cars_marked_run: "line_run car_cbk es c = Some d \<Longrightarrow> cars_marked c \<Longrightarrow> cars_marked d"
  by (induction es arbitrary: c) (auto dest: cars_marked_next split: option.splits if_splits)

text \<open>Every car that has left the line of \<^verbatim>\<open>testapp.c\<close> has got its wheels, its wind shield, its paint and
  its engine and has been tested, and the cars leave in the order in which they were pushed.\<close>

theorem cars_complete:
  assumes "list_all no_destroy es" and run: "Option.bind (build_chain [1, 2, 3, 4, 5] (\<lambda>_. 0)) (line_run car_cbk es) = Some c"
  shows "prefix (ln_emitted c) (ln_pushed c) \<and> (\<forall>car\<in>set (ln_emitted c). ln_mem c car AND 31 = 31)"
proof -
  have order: "ln_pushed c = ln_emitted c @ concat (map (contents c) (rev [1, 2, 3, 4, 5]))"
    "\<And>p. p \<in> set [1, 2, 3, 4, 5] \<Longrightarrow> prefix (ln_emitted c) (processed c p)"
    using stage_line_order [OF _ _ _ car_cbk_follows assms] by auto
  obtain b where b0: "build_chain [1, 2, 3, 4, 5] (\<lambda>_ :: addr. 0 :: u8) = Some b" "ln_log b = []"
    using build_chain_inv [of "[1, 2, 3, 4, 5]" "\<lambda>_ :: addr. 0 :: u8"] by auto
  then have b: "line_run car_cbk es b = Some c" using run by (simp only: Option.bind.simps)
  have marked: "cars_marked c" by (rule cars_marked_run [OF b]) (simp add: cars_marked_def b0(2))
  have flag: "ln_mem c car AND car_flag p = car_flag p" if "car \<in> set (ln_emitted c)" "p \<in> set [1, 2, 3, 4, 5]" for car p
  proof -
    have "car \<in> set (processed c p)" using order(2) [OF that(2)] that(1) set_mono_prefix by blast
    then show ?thesis using marked by (auto simp: processed_def cars_marked_def)
  qed
  have "ln_mem c car AND 31 = 31" if "car \<in> set (ln_emitted c)" for car
  proof -
    have "ln_mem c car AND (1 OR (4 OR (2 OR (8 OR 16)))) = (1 OR (4 OR (2 OR (8 OR 16))))"
      using flag [OF that, of 1] flag [OF that, of 2] flag [OF that, of 3] flag [OF that, of 4] flag [OF that, of 5]
      by (intro and_join) (simp_all add: car_flag_def)
    then show ?thesis by simp
  qed
  then show ?thesis using order(1) by (auto simp: prefix_def)
qed

text \<open>Runs: one car through the whole line of five stages.\<close>

definition one_car :: "line_event list" where
  "one_car = [Ev_enqueue 9 101, Ev_client 9] @ concat (map (\<lambda>p. [Ev_worker p, Ev_worker p, Ev_worker p]) [1, 2, 3, 4, 5])"

definition line_view :: "'m line \<Rightarrow> addr list \<times> addr list \<times> bool \<times> u8" where
  "line_view c = (ln_pushed c, ln_emitted c, ln_failed c, ln_n_workers_in_operation c)"

lemma one_car_run:
  "map_option (\<lambda>c. (line_view c, ln_mem c 101)) (Option.bind (build_chain [1, 2, 3, 4, 5] (\<lambda>_. 0)) (line_run car_cbk one_car)) =
    Some (([101], [101], False, 5), 31)"
  by code_simp

theorem cars_complete_witness:
  "\<exists>c. Option.bind (build_chain [1, 2, 3, 4, 5] (\<lambda>_. 0)) (line_run car_cbk one_car) = Some c \<and> ln_emitted c = [101] \<and>
    ln_mem c 101 AND 31 = 31"
proof -
  obtain c where c: "Option.bind (build_chain [1, 2, 3, 4, 5] (\<lambda>_. 0)) (line_run car_cbk one_car) = Some c" "ln_emitted c = [101]"
    using one_car_run unfolding map_option_eq_Some by (auto simp: line_view_def)
  have "list_all no_destroy one_car" by (simp add: one_car_def)
  then show ?thesis using cars_complete [OF _ c(1)] c by simp
qed

theorem stage_line_order_witness:
  "\<exists>c. Option.bind (build_chain [1, 2, 3, 4, 5] (\<lambda>_. 0)) (line_run car_cbk one_car) = Some c \<and> ln_emitted c = [101] \<and>
    prefix (ln_emitted c) (processed c 3)"
proof -
  obtain c where c: "Option.bind (build_chain [1, 2, 3, 4, 5] (\<lambda>_. 0)) (line_run car_cbk one_car) = Some c" "ln_emitted c = [101]"
    using one_car_run unfolding map_option_eq_Some by (auto simp: line_view_def)
  have "list_all no_destroy one_car" by (simp add: one_car_def)
  then show ?thesis using stage_line_order [OF _ _ _ car_cbk_follows _ c(1)] c by simp
qed

text \<open>\<^verbatim>\<open>main\<close> of \<^verbatim>\<open>testapp.c\<close> pushes three cars and destroys the line at once. The worker of the first
  stage is signalled but has not counted itself when \<^verbatim>\<open>asl_destroy\<close> looks at the counter: the line is taken to
  be idle, and the stages are freed, the last first; then the worker of the first stage puts the first car into the
  freed second stage.\<close>

definition push_three :: "line_event list" where
  "push_three = map Ev_worker [1, 2, 3, 4, 5] @ concat (map (\<lambda>car. [Ev_enqueue 9 car, Ev_client 9]) [101, 102, 103])"

definition destroy_early :: "line_event list" where
  "destroy_early = Ev_destroy 9 # concat (map (\<lambda>p. [Ev_client 9, Ev_worker p, Ev_client 9]) [5, 4, 3, 2]) @ map Ev_worker [1, 1, 1, 1]"

theorem stage_line_destroy_race:
  "\<exists>c. Option.bind (build_chain [1, 2, 3, 4, 5] (\<lambda>_. 0)) (line_run car_cbk (push_three @ destroy_early)) = Some c \<and>
    ln_failed c \<and> ln_pushed c = [101, 102, 103] \<and> ln_emitted c = [] \<and> ln_stages c 2 = None"
proof -
  have "map_option (\<lambda>c. (line_view c, ln_stages c 2)) (Option.bind (build_chain [1, 2, 3, 4, 5] (\<lambda>_. 0))
      (line_run car_cbk (push_three @ destroy_early))) = Some (([101, 102, 103], [], True, 1), None)" by code_simp
  then show ?thesis unfolding map_option_eq_Some by (auto simp: line_view_def)
qed

theorem stage_line_drains_witness:
  "\<exists>c d. Option.bind (build_chain [1, 2, 3, 4, 5] (\<lambda>_. 0)) (line_run car_cbk push_three) = Some c \<and>
    line_run car_cbk (map Ev_worker [1, 1, 1, 1]) c = Some d \<and> 4 \<le> work c [1, 2, 3, 4, 5]"
proof -
  have "map_option (\<lambda>d. ln_pushed d) (Option.bind (Option.bind (build_chain [1, 2, 3, 4, 5] (\<lambda>_. 0)) (line_run car_cbk push_three))
      (line_run car_cbk (map Ev_worker [1, 1, 1, 1]))) = Some [101, 102, 103]" by code_simp
  then obtain c d where c: "Option.bind (build_chain [1, 2, 3, 4, 5] (\<lambda>_. 0)) (line_run car_cbk push_three) = Some c"
    "line_run car_cbk (map Ev_worker [1, 1, 1, 1]) c = Some d"
    unfolding map_option_eq_Some bind_eq_Some_conv by blast
  have "list_all no_destroy push_three" by (simp add: push_three_def)
  from stage_line_drains [OF _ _ _ car_cbk_follows this c] have "4 \<le> work c [1, 2, 3, 4, 5]" by simp
  with c show ?thesis by blast
qed

end
