(* ===== verification/FifoWaitQueue.thy ===== *)
theory FifoWaitQueue
  imports Schedules
begin

text \<open>
  The wait queues of
  \<^verbatim>\<open>ThreadSyncAdv/threadlib/CourseDev/section_thread_wait_queues/threadlib.c\<close>, which may be
  FIFO: every waiting thread then has a condition variable of its own, and a signal takes the first of
  them out of a list. A program uses the queue as a gate, like \<^verbatim>\<open>fifo_wait_q_demo.c\<close>: threads
  wait while \<^verbatim>\<open>barrier_enabled\<close> is set, and other calls set it, signal and broadcast.

  The list is linked by \<open>Glthread\<close>; here it is the list it implements, and the glue of a variable that
  has been dequeued is empty. A condition variable is known by the number of its allocation, which is
  also the number the code prints.
\<close>

section \<open>The code\<close>

datatype fw_cv = Queue_cv | Own_cv nat

text \<open>\<open>'m\<close> are the pointers to mutexes; \<^verbatim>\<open>cv_id\<close> is the static counter of \<^verbatim>\<open>cv_get_new_cv\<close>.\<close>

record 'm fifo_wq =
  fw_thread_wait_count :: u32
  fw_appln_mutex :: "'m option"
  fw_fifo_thread_q :: "nat list"
  fw_is_fifo_enabled :: bool
  fw_cv_id :: nat

definition fw_init :: "bool \<Rightarrow> 'm fifo_wq \<Rightarrow> 'm fifo_wq" where
  "fw_init is_fifo wq = wq\<lparr>fw_thread_wait_count := 0, fw_appln_mutex := None, fw_fifo_thread_q := [],
     fw_is_fifo_enabled := is_fifo\<rparr>"

definition cv_get_new_cv :: "'m fifo_wq \<Rightarrow> nat \<times> 'm fifo_wq" where
  "cv_get_new_cv wq = (fw_cv_id wq + 1, wq\<lparr>fw_cv_id := fw_cv_id wq + 1\<rparr>)"

text \<open>The turn of the loop of \<^verbatim>\<open>wait_queue_test_and_wait\<close> up to the wait, with the local variable
  \<^verbatim>\<open>cv\<close> before and after it, and what the loop does after the wait.\<close>

definition fw_block :: "nat option \<Rightarrow> 'm fifo_wq \<Rightarrow> nat option \<times> 'm fifo_wq" where
  "fw_block cv wq =
     (let (cv1, wq1) = (if fw_is_fifo_enabled wq
          then (case cv of Some i \<Rightarrow> (cv, wq) | None \<Rightarrow> (let (i, wq') = cv_get_new_cv wq in (Some i, wq')))
          else (cv, wq));
          wq2 = (case cv1 of Some i \<Rightarrow> if fw_is_fifo_enabled wq1 then wq1\<lparr>fw_fifo_thread_q := fw_fifo_thread_q wq1 @ [i]\<rparr> else wq1
            | None \<Rightarrow> wq1)
      in (cv1, wq2\<lparr>fw_thread_wait_count := fw_thread_wait_count wq2 + 1\<rparr>))"

definition fw_waits_on :: "nat option \<Rightarrow> 'm fifo_wq \<Rightarrow> fw_cv" where
  "fw_waits_on cv wq = (case cv of Some i \<Rightarrow> if fw_is_fifo_enabled wq then Own_cv i else Queue_cv | None \<Rightarrow> Queue_cv)"

definition fw_unblock :: "nat option \<Rightarrow> 'm fifo_wq \<Rightarrow> 'm fifo_wq" where
  "fw_unblock cv wq =
     (let wq1 = (case cv of Some i \<Rightarrow> if fw_is_fifo_enabled wq then wq\<lparr>fw_fifo_thread_q := remove1 i (fw_fifo_thread_q wq)\<rparr> else wq
        | None \<Rightarrow> wq)
      in wq1\<lparr>fw_thread_wait_count := fw_thread_wait_count wq1 - 1\<rparr>)"

text \<open>The queue after a signal and a broadcast, called with the mutex held, and what they wake.\<close>

definition fw_signal :: "'m fifo_wq \<Rightarrow> 'm fifo_wq \<times> fw_cv wakeup list" where
  "fw_signal wq =
     (if fw_appln_mutex wq = None \<or> fw_thread_wait_count wq = 0 then (wq, [])
      else if fw_is_fifo_enabled wq
      then (case fw_fifo_thread_q wq of [] \<Rightarrow> (wq, []) | i # q \<Rightarrow> (wq\<lparr>fw_fifo_thread_q := q\<rparr>, [Signal (Own_cv i)]))
      else (wq, [Signal Queue_cv]))"

definition fw_broadcast :: "'m fifo_wq \<Rightarrow> 'm fifo_wq \<times> fw_cv wakeup list" where
  "fw_broadcast wq =
     (if fw_appln_mutex wq = None \<or> fw_thread_wait_count wq = 0 then (wq, [])
      else if fw_is_fifo_enabled wq
      then (wq\<lparr>fw_fifo_thread_q := []\<rparr>, map (\<lambda>i. Signal (Own_cv i)) (fw_fifo_thread_q wq))
      else (wq, [Broadcast Queue_cv]))"

definition fw_destroy :: "'m fifo_wq \<Rightarrow> 'm fifo_wq" where
  "fw_destroy wq = wq\<lparr>fw_appln_mutex := None\<rparr>"

section \<open>A gate\<close>

text \<open>The application: one mutex, \<^verbatim>\<open>barrier_enabled\<close> and the queue.\<close>

record fw_gate =
  fg_barrier_enabled :: bool
  fg_wq :: "unit fifo_wq"

datatype fw_call = Pass_gate | Set_gate bool | Signal_gate | Broadcast_gate

datatype fw_wait = Fw_wait "nat option"

type_synonym fw_sect = "(fw_gate, unit, fw_cv, fw_wait) sect"

text \<open>\<^verbatim>\<open>is_barrier_enabled\<close>; the caller holds the mutex after it.\<close>

definition is_barrier_enabled :: "fw_gate \<Rightarrow> bool" where
  "is_barrier_enabled s = fg_barrier_enabled s"

text \<open>The loop from one test to the next, and after it the release of the mutex by the thread.\<close>

definition fw_loop :: "nat option \<Rightarrow> fw_gate \<Rightarrow> fw_sect" where
  "fw_loop cv s =
     (if is_barrier_enabled s
      then let (cv1, wq1) = fw_block cv (fg_wq s)
           in CvWait (s\<lparr>fg_wq := wq1\<rparr>) (fw_waits_on cv1 wq1) (Fw_wait cv1) []
      else Unlocked s () [])"

definition fw_test_and_wait :: "fw_gate \<Rightarrow> fw_sect" where
  "fw_test_and_wait s = fw_loop None (s\<lparr>fg_wq := (fg_wq s)\<lparr>fw_appln_mutex := Some ()\<rparr>\<rparr>)"

fun fw_enter :: "tid \<Rightarrow> fw_call \<Rightarrow> fw_gate \<Rightarrow> fw_sect" where
  "fw_enter self Pass_gate s = fw_test_and_wait s"
| "fw_enter self (Set_gate b) s = Unlocked (s\<lparr>fg_barrier_enabled := b\<rparr>) () []"
| "fw_enter self Signal_gate s = (let (wq, ss) = fw_signal (fg_wq s) in Unlocked (s\<lparr>fg_wq := wq\<rparr>) () ss)"
| "fw_enter self Broadcast_gate s = (let (wq, ss) = fw_broadcast (fg_wq s) in Unlocked (s\<lparr>fg_wq := wq\<rparr>) () ss)"

fun fw_resume :: "tid \<Rightarrow> fw_wait \<Rightarrow> fw_gate \<Rightarrow> fw_sect" where
  "fw_resume self (Fw_wait cv) s = fw_loop cv (s\<lparr>fg_wq := fw_unblock cv (fg_wq s)\<rparr>)"

definition fw_obj :: "(fw_gate, unit, fw_call, fw_wait, fw_cv, unit) obj" where
  "fw_obj = \<lparr>enter = fw_enter, resume = fw_resume, may_call = (\<lambda>g op. True), on_return = (\<lambda>r g. g)\<rparr>"

lemma fw_obj_simps [simp]:
  "enter fw_obj = fw_enter" "resume fw_obj = fw_resume" "may_call fw_obj g op" "on_return fw_obj r g = g"
  by (simp_all add: fw_obj_def)

definition fw_setup :: "bool \<Rightarrow> bool \<Rightarrow> fw_gate" where
  "fw_setup is_fifo enabled = \<lparr>fg_barrier_enabled = enabled,
     fg_wq = fw_init is_fifo \<lparr>fw_thread_wait_count = 0, fw_appln_mutex = None, fw_fifo_thread_q = [],
       fw_is_fifo_enabled = False, fw_cv_id = 0\<rparr>\<rparr>"


section \<open>The order of the waiting threads\<close>

text \<open>\<open>ts\<close> are the blocked threads in the order of the list of condition variables.\<close>

definition fw_waiting :: "(tid \<Rightarrow> (fw_cv, fw_wait) thread_status) \<Rightarrow> nat list \<Rightarrow> tid list \<Rightarrow> bool" where
  "fw_waiting f q ts \<longleftrightarrow> distinct ts \<and> set ts = {t. is_blocked (f t)} \<and>
     list_all2 (\<lambda>i t. f t = Blocked (Own_cv i) (Fw_wait (Some i))) q ts"

text \<open>The numbers of the variables and the count, for the threads inside \<^verbatim>\<open>wait_queue_test_and_wait\<close>.\<close>

definition fw_base :: "tid set \<Rightarrow> unit fifo_wq \<Rightarrow> (tid \<Rightarrow> fw_wait option) \<Rightarrow> bool" where
  "fw_base T wq w \<longleftrightarrow> fw_is_fifo_enabled wq \<and>
     (\<forall>t. w t \<noteq> None \<longrightarrow> t \<in> T \<and> fw_appln_mutex wq \<noteq> None) \<and>
     (\<forall>t k. w t = Some k \<longrightarrow> (\<exists>i. k = Fw_wait (Some i) \<and> i \<le> fw_cv_id wq)) \<and>
     (\<forall>t u k. w t = Some k \<longrightarrow> w u = Some k \<longrightarrow> t = u) \<and>
     fw_thread_wait_count wq = of_nat (waiters T (\<lambda>_. True) w)"

definition fw_inv :: "tid set \<Rightarrow> fw_gate \<Rightarrow> (tid \<Rightarrow> unit) \<Rightarrow> (tid \<Rightarrow> (fw_cv, fw_wait) thread_status) \<Rightarrow> bool" where
  "fw_inv T s g f \<longleftrightarrow> fw_base T (fg_wq s) (\<lambda>x. pending (f x)) \<and> (\<exists>ts. fw_waiting f (fw_fifo_thread_q (fg_wq s)) ts)"

lemma fw_waiting_length: "fw_waiting f q ts \<Longrightarrow> length q = length ts"
  by (auto simp: fw_waiting_def dest: list_all2_lengthD)

lemma fw_waiting_mem: "fw_waiting f q ts \<Longrightarrow> i \<in> set q \<longleftrightarrow> (\<exists>t. f t = Blocked (Own_cv i) (Fw_wait (Some i)))"
  unfolding fw_waiting_def list_all2_conv_all_nth in_set_conv_nth set_eq_iff
  by (metis fw_cv.inject is_blocked.simps(1) mem_Collect_eq thread_status.inject(1) in_set_conv_nth)

text \<open>No two threads wait on one variable, so a signal to it wakes the one that does.\<close>

definition one_each :: "(tid \<Rightarrow> (fw_cv, fw_wait) thread_status) \<Rightarrow> bool" where
  "one_each f \<longleftrightarrow> (\<forall>t u cv. blocked_on cv (f t) \<longrightarrow> blocked_on cv (f u) \<longrightarrow> t = u)"

lemma one_each_wake: "one_each f \<Longrightarrow> one_each (f(t := wake (f t)))"
  unfolding one_each_def by auto

lemma wakes_own:
  "list_all2 (\<lambda>i t. f t = Blocked (Own_cv i) (Fw_wait (Some i))) q ts \<Longrightarrow> distinct ts \<Longrightarrow> one_each f \<Longrightarrow>
   wakes (map (\<lambda>i. Signal (Own_cv i)) q) f h \<Longrightarrow> h = (\<lambda>u. if u \<in> set ts then wake (f u) else f u)"
proof (induction ts arbitrary: f q)
  case Nil
  then show ?case by auto
next
  case (Cons t ts)
  then obtain i q' where q: "q = i # q'" "f t = Blocked (Own_cv i) (Fw_wait (Some i))"
    "list_all2 (\<lambda>i t. f t = Blocked (Own_cv i) (Fw_wait (Some i))) q' ts" by (auto simp: list_all2_Cons2)
  have on: "blocked_on (Own_cv i) (f t)" using q(2) by simp
  then have "\<exists>u. blocked_on (Own_cv i) (f u) \<and> wakes (map (\<lambda>i. Signal (Own_cv i)) q') (wake_one u f) h"
    using Cons.prems(4) q(1) by (simp split: if_splits)
  then obtain u where u: "blocked_on (Own_cv i) (f u)" "wakes (map (\<lambda>i. Signal (Own_cv i)) q') (wake_one u f) h" by blast
  then have "u = t" using on Cons.prems(3) by (auto simp: one_each_def)
  let ?f = "f(t := wake (f t))"
  have wk: "wakes (map (\<lambda>i. Signal (Own_cv i)) q') ?f h" using u(2) \<open>u = t\<close> by (simp add: wake_one_upd)
  have l2: "list_all2 (\<lambda>i t. ?f t = Blocked (Own_cv i) (Fw_wait (Some i))) q' ts"
    using q(3) Cons.prems(2) by (auto elim!: list.rel_mono_strong)
  have "distinct ts" using Cons.prems(2) by simp
  from Cons.IH [OF l2 this one_each_wake [OF Cons.prems(3)] wk]
  have "h = (\<lambda>u. if u \<in> set ts then wake (?f u) else ?f u)" .
  then show ?case using Cons.prems(2) by (auto simp: fun_eq_iff)
qed

lemma fw_inv_own:
  assumes "fw_inv T s g f" "f t = Blocked cv k"
  obtains i where "cv = Own_cv i" "k = Fw_wait (Some i)" "i \<in> set (fw_fifo_thread_q (fg_wq s))"
proof -
  obtain ts where ts: "fw_waiting f (fw_fifo_thread_q (fg_wq s)) ts" using assms(1) by (auto simp: fw_inv_def)
  then have "t \<in> set ts" using assms(2) by (simp add: fw_waiting_def)
  then obtain n where n: "n < length ts" "ts ! n = t" by (auto simp: in_set_conv_nth)
  let ?i = "fw_fifo_thread_q (fg_wq s) ! n"
  have "f t = Blocked (Own_cv ?i) (Fw_wait (Some ?i))" "?i \<in> set (fw_fifo_thread_q (fg_wq s))"
    using ts n fw_waiting_length [OF ts] by (auto simp: fw_waiting_def list_all2_conv_all_nth)
  then show thesis using assms(2) that by simp
qed

lemma fw_inv_one_each:
  assumes "fw_inv T s g f"
  shows "one_each f"
proof -
  have "t = u" if a: "f t = Blocked cv k" "f u = Blocked cv l" for t u cv k l
  proof -
    obtain i where i: "cv = Own_cv i" "k = Fw_wait (Some i)" using fw_inv_own [OF assms a(1)] by blast
    obtain j where j: "cv = Own_cv j" "l = Fw_wait (Some j)" using fw_inv_own [OF assms a(2)] by blast
    have "pending (f t) = Some k" "pending (f u) = Some k" using a i j by auto
    then show ?thesis using assms unfolding fw_inv_def fw_base_def by blast
  qed
  then show ?thesis by (auto simp: one_each_def blocked_on_iff)
qed

text \<open>What the calls do to the waiting threads.\<close>

fun gate_spec :: "fw_call \<Rightarrow> tid \<Rightarrow> bool \<Rightarrow> tid list \<Rightarrow> tid list" where
  "gate_spec Pass_gate t enabled ts = (if enabled then ts @ [t] else ts)"
| "gate_spec (Set_gate b) t enabled ts = ts"
| "gate_spec Signal_gate t enabled ts = tl ts"
| "gate_spec Broadcast_gate t enabled ts = []"

text \<open>\<open>t\<close> begins to wait, at the end of the list.\<close>

lemma fw_waiting_add:
  assumes "fw_waiting f q ts" "\<not> is_blocked (f t)"
  shows "fw_waiting (f(t := Blocked (Own_cv i) (Fw_wait (Some i)))) (q @ [i]) (ts @ [t])"
proof -
  have t: "t \<notin> set ts" using assms by (simp add: fw_waiting_def)
  then have "list_all2 (\<lambda>j u. (f(t := Blocked (Own_cv i) (Fw_wait (Some i)))) u = Blocked (Own_cv j) (Fw_wait (Some j))) q ts"
    using assms(1) unfolding fw_waiting_def by (auto elim!: list.rel_mono_strong)
  then show ?thesis using assms t by (auto simp: fw_waiting_def list_all2_appendI)
qed

lemma fw_waiting_other: "fw_waiting f q ts \<Longrightarrow> \<not> is_blocked (f t) \<Longrightarrow> \<not> is_blocked x \<Longrightarrow> fw_waiting (f(t := x)) q ts"
  unfolding fw_waiting_def by (auto elim!: list.rel_mono_strong split: if_splits)

text \<open>The threads \<open>us\<close>, the first of those that wait, are woken.\<close>

lemma fw_waiting_woken:
  assumes "fw_waiting f (q1 @ q2) (us @ ts)" "length q1 = length us" "one_each f" "wakes (map (\<lambda>i. Signal (Own_cv i)) q1) f h"
  shows "fw_waiting h q2 ts" and "h = (\<lambda>u. if u \<in> set us then wake (f u) else f u)"
proof -
  have l2: "list_all2 (\<lambda>i t. f t = Blocked (Own_cv i) (Fw_wait (Some i))) q1 us"
    "list_all2 (\<lambda>i t. f t = Blocked (Own_cv i) (Fw_wait (Some i))) q2 ts" and dist: "distinct (us @ ts)"
    using assms(1,2) by (auto simp: fw_waiting_def list_all2_append)
  show h: "h = (\<lambda>u. if u \<in> set us then wake (f u) else f u)" using wakes_own [OF l2(1) _ assms(3,4)] dist by simp
  have "list_all2 (\<lambda>i t. h t = Blocked (Own_cv i) (Fw_wait (Some i))) q2 ts"
    using l2(2) dist by (auto simp: h elim!: list.rel_mono_strong)
  moreover have "set ts = {t. is_blocked (h t)}" using assms(1) dist by (auto simp: fw_waiting_def h)
  ultimately show "fw_waiting h q2 ts" using dist by (simp add: fw_waiting_def)
qed


text \<open>A thread that is about to test, having left the queue or not yet entered it.\<close>

definition fw_ready :: "nat option \<Rightarrow> 'm fifo_wq \<Rightarrow> (tid \<Rightarrow> fw_wait option) \<Rightarrow> bool" where
  "fw_ready cv wq w \<longleftrightarrow> fw_appln_mutex wq \<noteq> None \<and>
     (case cv of None \<Rightarrow> True | Some i \<Rightarrow> i \<le> fw_cv_id wq \<and> (\<forall>u. w u \<noteq> Some (Fw_wait (Some i))))"

lemma fw_base_block:
  assumes base: "fw_base T wq w" and t: "finite T" "t \<in> T" "w t = None" and ready: "fw_ready cv wq w"
  obtains i wq' where "fw_block cv wq = (Some i, wq')" "fw_waits_on (Some i) wq' = Own_cv i"
    "fw_fifo_thread_q wq' = fw_fifo_thread_q wq @ [i]" "fw_base T wq' (w(t := Some (Fw_wait (Some i))))"
proof -
  have fifo: "fw_is_fifo_enabled wq" using base by (simp add: fw_base_def)
  define i where "i = (case cv of Some j \<Rightarrow> j | None \<Rightarrow> fw_cv_id wq + 1)"
  define wq' where "wq' = wq\<lparr>fw_cv_id := max i (fw_cv_id wq), fw_fifo_thread_q := fw_fifo_thread_q wq @ [i],
    fw_thread_wait_count := fw_thread_wait_count wq + 1\<rparr>"
  have fresh: "w u \<noteq> Some (Fw_wait (Some i))" for u
    using ready base by (cases cv) (fastforce simp: fw_ready_def fw_base_def i_def)+
  have "fw_block cv wq = (Some i, wq')"
    using fifo ready by (cases cv) (auto simp: fw_block_def cv_get_new_cv_def i_def wq'_def fw_ready_def max_def Let_def)
  moreover have "fw_waits_on (Some i) wq' = Own_cv i" using fifo by (simp add: fw_waits_on_def wq'_def)
  moreover have "fw_base T wq' (w(t := Some (Fw_wait (Some i))))"
  proof -
    have "waiters T (\<lambda>_. True) (w(t := Some (Fw_wait (Some i)))) = Suc (waiters T (\<lambda>_. True) w)"
      using t by (simp add: waiters_add)
    moreover have "\<exists>j. k = Fw_wait (Some j) \<and> j \<le> max i (fw_cv_id wq)" if "(w(t := Some (Fw_wait (Some i)))) u = Some k" for u k
      using that base by (cases "u = t") (fastforce simp: fw_base_def)+
    ultimately show ?thesis using base t ready fresh unfolding fw_base_def wq'_def fw_ready_def by (simp add: add.commute) blast
  qed
  ultimately show thesis using that by (simp add: wq'_def)
qed

lemma fw_base_unblock:
  assumes base: "fw_base T wq w" and t: "finite T" "w t = Some k" and q: "\<And>i. k = Fw_wait (Some i) \<Longrightarrow> i \<notin> set (fw_fifo_thread_q wq)"
  obtains i wq' where "k = Fw_wait (Some i)" "fw_unblock (Some i) wq = wq'" "fw_fifo_thread_q wq' = fw_fifo_thread_q wq"
    "fw_base T wq' (w(t := None))" "fw_ready (Some i) wq' (w(t := None))"
proof -
  obtain i where i: "k = Fw_wait (Some i)" "i \<le> fw_cv_id wq" using base t(2) unfolding fw_base_def by blast
  have T: "t \<in> T" "fw_appln_mutex wq \<noteq> None" using base t(2) unfolding fw_base_def by blast+
  let ?wq = "fw_unblock (Some i) wq"
  have wq: "?wq = wq\<lparr>fw_fifo_thread_q := fw_fifo_thread_q wq, fw_thread_wait_count := fw_thread_wait_count wq - 1\<rparr>"
    using base q [OF i(1)] by (simp add: fw_unblock_def fw_base_def remove1_idem)
  have "waiters T (\<lambda>_. True) w = Suc (waiters T (\<lambda>_. True) (w(t := None)))"
    using waiters_add [of T t "w(t := None)" "\<lambda>_. True" k] t T by (simp add: fun_upd_idem)
  then have "fw_base T ?wq (w(t := None))" using base unfolding fw_base_def wq by auto
  moreover have "fw_ready (Some i) ?wq (w(t := None))"
    using i T(2) base t(2) unfolding fw_ready_def wq fw_base_def by auto
  ultimately show thesis using that [OF i(1) refl] by (simp add: wq)
qed


lemma fw_base_other: "fw_base T wq w \<Longrightarrow> w t = None \<Longrightarrow> fw_base T wq (w(t := None))"
  by (simp add: fun_upd_idem)

text \<open>The test of a thread that is not blocked.\<close>

lemma fw_loop_finish:
  assumes base: "fw_base T (fg_wq s) ((\<lambda>x. pending (f x))(t := None))" and t: "finite T" "t \<in> T" "\<not> is_blocked (f t)"
    and ready: "fw_ready cv (fg_wq s) ((\<lambda>x. pending (f x))(t := None))" and ts: "fw_waiting f (fw_fifo_thread_q (fg_wq s)) ts"
    and c: "status c = f" and fin: "finish fw_obj t (fw_loop cv s) c d"
  shows "fw_base T (fg_wq (shared d)) (\<lambda>x. pending (status d x))"
    and "fw_waiting (status d) (fw_fifo_thread_q (fg_wq (shared d))) (if fg_barrier_enabled s then ts @ [t] else ts)"
    and "\<not> aborted c \<Longrightarrow> \<not> aborted d"
proof -
  let ?w = "(\<lambda>x. pending (f x))(t := None)"
  have w: "?w t = None" by simp
  obtain i wq' where b: "fw_block cv (fg_wq s) = (Some i, wq')" "fw_waits_on (Some i) wq' = Own_cv i"
    "fw_fifo_thread_q wq' = fw_fifo_thread_q (fg_wq s) @ [i]" "fw_base T wq' (?w(t := Some (Fw_wait (Some i))))"
    by (rule fw_base_block [OF base t(1,2) w ready])
  show "fw_base T (fg_wq (shared d)) (\<lambda>x. pending (status d x))"
    using fin b base c by (auto simp: fw_loop_def is_barrier_enabled_def pending_if split: if_splits)
  show "fw_waiting (status d) (fw_fifo_thread_q (fg_wq (shared d))) (if fg_barrier_enabled s then ts @ [t] else ts)"
    using fin b c fw_waiting_other [OF ts t(3), of Running] fw_waiting_add [OF ts t(3), of i]
    by (auto simp: fw_loop_def is_barrier_enabled_def split: if_splits)
  show "\<not> aborted c \<Longrightarrow> \<not> aborted d"
    using fin b by (auto simp: fw_loop_def is_barrier_enabled_def split: if_splits)
qed


text \<open>The first thread of the list, or all of it, is woken.\<close>

definition fw_wakes_first :: "nat \<Rightarrow> unit fifo_wq \<Rightarrow> unit fifo_wq \<times> fw_cv wakeup list \<Rightarrow> bool" where
  "fw_wakes_first n wq r \<longleftrightarrow> r = (wq\<lparr>fw_fifo_thread_q := drop n (fw_fifo_thread_q wq)\<rparr>, map (\<lambda>i. Signal (Own_cv i)) (take n (fw_fifo_thread_q wq)))"

lemma fw_signals_first:
  assumes base: "fw_base T wq (\<lambda>x. pending (f x))" and T: "finite T" "card T < 2 ^ 32" and ts: "fw_waiting f (fw_fifo_thread_q wq) ts"
  shows "fw_wakes_first 1 wq (fw_signal wq)" "fw_wakes_first (length (fw_fifo_thread_q wq)) wq (fw_broadcast wq)"
proof -
  have fifo: "fw_is_fifo_enabled wq" using base by (simp add: fw_base_def)
  have "fw_appln_mutex wq \<noteq> None \<and> fw_thread_wait_count wq \<noteq> 0" if some: "fw_fifo_thread_q wq \<noteq> []"
  proof -
    obtain t where t: "t \<in> set ts" using some fw_waiting_length [OF ts] by (cases ts) auto
    then have p: "pending (f t) \<noteq> None" using ts by (auto simp: fw_waiting_def is_blocked_iff blocked_on_iff)
    then have "t \<in> T" "fw_appln_mutex wq \<noteq> None" using base by (auto simp: fw_base_def)
    moreover have "0 < waiters T (\<lambda>_. True) (\<lambda>x. pending (f x))" using T(1) p \<open>t \<in> T\<close> by (auto simp: waiters_pos)
    moreover have "waiters T (\<lambda>_. True) (\<lambda>x. pending (f x)) < 2 ^ 32"
      using waiters_le [OF T(1), of "\<lambda>_. True" "\<lambda>x. pending (f x)"] T(2) by linarith
    ultimately show ?thesis using base unfolding fw_base_def by (auto simp: word_of_nat_eq_0_iff dest: dvd_imp_le)
  qed
  note open_queue = this
  have "fw_wakes_first 1 wq (fw_signal wq) \<and> fw_wakes_first (length (fw_fifo_thread_q wq)) wq (fw_broadcast wq)"
  proof (cases "fw_fifo_thread_q wq")
    case Nil
    then show ?thesis using fifo unfolding fw_wakes_first_def fw_signal_def fw_broadcast_def by (cases wq) auto
  next
    case (Cons i q)
    then show ?thesis using fifo open_queue unfolding fw_wakes_first_def fw_signal_def fw_broadcast_def by auto
  qed
  then show "fw_wakes_first 1 wq (fw_signal wq)" "fw_wakes_first (length (fw_fifo_thread_q wq)) wq (fw_broadcast wq)" by auto
qed

lemma fw_wake_finish:
  assumes base: "fw_base T (fg_wq s) (\<lambda>x. pending (status c x))" and one: "one_each (status c)" and run: "status c t = Running"
    and ts: "fw_waiting (status c) (fw_fifo_thread_q (fg_wq s)) ts" and r: "fw_wakes_first n (fg_wq s) (wq, ss)"
    and fin: "finish fw_obj t (Unlocked (s\<lparr>fg_wq := wq\<rparr>) () ss) c d"
  shows "fw_base T (fg_wq (shared d)) (\<lambda>x. pending (status d x))"
    and "fw_waiting (status d) (fw_fifo_thread_q (fg_wq (shared d))) (drop n ts)"
proof -
  have d: "shared d = s\<lparr>fg_wq := wq\<rparr>" "wakes ss (status c) (status d)" using fin run by (auto simp: fun_upd_idem)
  have wq: "wq = (fg_wq s)\<lparr>fw_fifo_thread_q := drop n (fw_fifo_thread_q (fg_wq s))\<rparr>"
    "ss = map (\<lambda>i. Signal (Own_cv i)) (take n (fw_fifo_thread_q (fg_wq s)))" using r by (simp_all add: fw_wakes_first_def)
  have "(\<lambda>x. pending (status d x)) = (\<lambda>x. pending (status c x))" using wakes_pending [OF d(2)] by auto
  then show "fw_base T (fg_wq (shared d)) (\<lambda>x. pending (status d x))" using base by (simp add: d(1) wq(1) fw_base_def)
  have "fw_waiting (status c) (take n (fw_fifo_thread_q (fg_wq s)) @ drop n (fw_fifo_thread_q (fg_wq s))) (take n ts @ drop n ts)"
    using ts by simp
  from fw_waiting_woken(1) [OF this _ one d(2) [unfolded wq(2)]] fw_waiting_length [OF ts]
  show "fw_waiting (status d) (fw_fifo_thread_q (fg_wq (shared d))) (drop n ts)" by (simp add: d(1) wq(1))
qed

text \<open>Calls and returns from waits.\<close>

lemma fw_call_finish:
  assumes T: "finite T" "card T < 2 ^ 32" "t \<in> T" and inv: "fw_inv T (shared c) g (status c)" and run: "status c t = Running"
    and ts: "fw_waiting (status c) (fw_fifo_thread_q (fg_wq (shared c))) ts" and fin: "finish fw_obj t (fw_enter t op (shared c)) c d"
  shows "fw_base T (fg_wq (shared d)) (\<lambda>x. pending (status d x))"
    and "fw_waiting (status d) (fw_fifo_thread_q (fg_wq (shared d))) (gate_spec op t (fg_barrier_enabled (shared c)) ts)"
    and "\<not> aborted c \<Longrightarrow> \<not> aborted d"
proof -
  let ?s = "shared c" and ?w = "\<lambda>x. pending (status c x)"
  have base: "fw_base T (fg_wq ?s) ?w" using inv by (simp add: fw_inv_def)
  note one = fw_inv_one_each [OF inv] and first = fw_signals_first [OF base T(1,2) ts]
  have drop: "drop (length (fw_fifo_thread_q (fg_wq ?s))) ts = []" using fw_waiting_length [OF ts] by simp
  have w: "?w(t := None) = ?w" using run by auto
  let ?s1 = "?s\<lparr>fg_wq := (fg_wq ?s)\<lparr>fw_appln_mutex := Some ()\<rparr>\<rparr>"
  have pass: "fw_base T (fg_wq ?s1) (?w(t := None))" "fw_ready None (fg_wq ?s1) (?w(t := None))"
    using base unfolding w by (auto simp: fw_base_def fw_ready_def)
  have ts1: "fw_waiting (status c) (fw_fifo_thread_q (fg_wq ?s1)) ts" using ts by simp
  have nb: "\<not> is_blocked (status c t)" using run by simp
  note loop = fw_loop_finish [OF pass(1) T(1,3) nb pass(2) ts1 refl]
  show "fw_base T (fg_wq (shared d)) (\<lambda>x. pending (status d x))"
    and "fw_waiting (status d) (fw_fifo_thread_q (fg_wq (shared d))) (gate_spec op t (fg_barrier_enabled ?s) ts)"
    and "\<not> aborted c \<Longrightarrow> \<not> aborted d"
  proof (atomize (full), cases op)
    case Pass_gate
    then have "finish fw_obj t (fw_loop None ?s1) c d" using fin by (simp add: fw_test_and_wait_def)
    from loop [OF this] Pass_gate show "fw_base T (fg_wq (shared d)) (\<lambda>x. pending (status d x)) \<and>
      fw_waiting (status d) (fw_fifo_thread_q (fg_wq (shared d))) (gate_spec op t (fg_barrier_enabled ?s) ts) \<and> (\<not> aborted c \<longrightarrow> \<not> aborted d)" by simp
  next
    case (Set_gate b)
    then show "fw_base T (fg_wq (shared d)) (\<lambda>x. pending (status d x)) \<and>
      fw_waiting (status d) (fw_fifo_thread_q (fg_wq (shared d))) (gate_spec op t (fg_barrier_enabled ?s) ts) \<and> (\<not> aborted c \<longrightarrow> \<not> aborted d)"
      using fin run base ts by (auto simp: fun_upd_idem)
  next
    case Signal_gate
    obtain wq ss where r: "fw_signal (fg_wq ?s) = (wq, ss)" by (cases "fw_signal (fg_wq ?s)")
    then have f: "finish fw_obj t (Unlocked (?s\<lparr>fg_wq := wq\<rparr>) () ss) c d" using fin Signal_gate by simp
    from fw_wake_finish [OF base one run ts first(1) [unfolded r] f] f Signal_gate
    show "fw_base T (fg_wq (shared d)) (\<lambda>x. pending (status d x)) \<and>
      fw_waiting (status d) (fw_fifo_thread_q (fg_wq (shared d))) (gate_spec op t (fg_barrier_enabled ?s) ts) \<and> (\<not> aborted c \<longrightarrow> \<not> aborted d)"
      by (auto simp: drop_Suc)
  next
    case Broadcast_gate
    obtain wq ss where r: "fw_broadcast (fg_wq ?s) = (wq, ss)" by (cases "fw_broadcast (fg_wq ?s)")
    then have f: "finish fw_obj t (Unlocked (?s\<lparr>fg_wq := wq\<rparr>) () ss) c d" using fin Broadcast_gate by simp
    from fw_wake_finish [OF base one run ts first(2) [unfolded r] f] f Broadcast_gate
    show "fw_base T (fg_wq (shared d)) (\<lambda>x. pending (status d x)) \<and>
      fw_waiting (status d) (fw_fifo_thread_q (fg_wq (shared d))) (gate_spec op t (fg_barrier_enabled ?s) ts) \<and> (\<not> aborted c \<longrightarrow> \<not> aborted d)"
      by (auto simp: drop)
  qed
qed


lemma fw_resume_finish:
  assumes T: "finite T" "t \<in> T" and inv: "fw_inv T (shared c) g (status c)" and run: "status c t = Woken k"
    and ts: "fw_waiting (status c) (fw_fifo_thread_q (fg_wq (shared c))) ts" and fin: "finish fw_obj t (fw_resume t k (shared c)) c d"
  shows "fw_base T (fg_wq (shared d)) (\<lambda>x. pending (status d x))"
    and "fw_waiting (status d) (fw_fifo_thread_q (fg_wq (shared d))) (if fg_barrier_enabled (shared c) then ts @ [t] else ts)"
    and "\<not> aborted c \<Longrightarrow> \<not> aborted d"
proof -
  let ?s = "shared c"
  have base: "fw_base T (fg_wq ?s) (\<lambda>x. pending (status c x))" using inv by (simp add: fw_inv_def)
  have out: "i \<notin> set (fw_fifo_thread_q (fg_wq ?s))" if "k = Fw_wait (Some i)" for i
  proof
    assume "i \<in> set (fw_fifo_thread_q (fg_wq ?s))"
    then obtain u where u: "status c u = Blocked (Own_cv i) (Fw_wait (Some i))" using fw_waiting_mem [OF ts] by blast
    then have "pending (status c u) = Some k" "pending (status c t) = Some k" using that run by simp_all
    then have "u = t" using base unfolding fw_base_def by blast
    then show False using u run by simp
  qed
  have p: "pending (status c t) = Some k" using run by simp
  obtain i wq' where i: "k = Fw_wait (Some i)" "fw_unblock (Some i) (fg_wq ?s) = wq'" "fw_fifo_thread_q wq' = fw_fifo_thread_q (fg_wq ?s)"
    "fw_base T wq' ((\<lambda>x. pending (status c x))(t := None))" "fw_ready (Some i) wq' ((\<lambda>x. pending (status c x))(t := None))"
    by (rule fw_base_unblock [OF base T(1) p out])
  have f: "finish fw_obj t (fw_loop (Some i) (?s\<lparr>fg_wq := wq'\<rparr>)) c d" using fin i(1,2) by simp
  have nb: "\<not> is_blocked (status c t)" using run by simp
  have "fw_base T (fg_wq (?s\<lparr>fg_wq := wq'\<rparr>)) ((\<lambda>x. pending (status c x))(t := None))"
    "fw_ready (Some i) (fg_wq (?s\<lparr>fg_wq := wq'\<rparr>)) ((\<lambda>x. pending (status c x))(t := None))"
    "fw_waiting (status c) (fw_fifo_thread_q (fg_wq (?s\<lparr>fg_wq := wq'\<rparr>))) ts" using i(3-5) ts by simp_all
  note loop = fw_loop_finish [OF this(1) T nb this(2,3) refl f]
  show "fw_base T (fg_wq (shared d)) (\<lambda>x. pending (status d x))"
    and "fw_waiting (status d) (fw_fifo_thread_q (fg_wq (shared d))) (if fg_barrier_enabled ?s then ts @ [t] else ts)"
    and "\<not> aborted c \<Longrightarrow> \<not> aborted d" using loop by simp_all
qed

definition fw_valid :: "bool \<Rightarrow> tid set \<Rightarrow> bool" where
  "fw_valid enabled T \<longleftrightarrow> finite T \<and> card T < 2 ^ 32"

lemma fw_start_inv: "fw_inv T (fw_setup True enabled) g (\<lambda>_. Running)"
  by (simp add: fw_inv_def fw_base_def fw_setup_def fw_init_def fw_waiting_def)

interpretation fw_gates: sync_object fw_valid "\<lambda>_. fw_obj" False "fw_setup True" "()" "\<lambda>_. fw_inv"
proof (unfold_locales, goal_cases)
  case (1 p T)
  show ?case by (rule fw_start_inv)
next
  case (2 p T s g f t op)
  then obtain ts where ts: "fw_waiting f (fw_fifo_thread_q (fg_wq s)) ts" by (auto simp: fw_inv_def)
  show ?case
  proof (rule keeps_of_finish, unfold fw_obj_simps)
    fix c d assume c: "shared c = s" "ghost c = g" "status c = f" "\<not> aborted c" "finish fw_obj t (fw_enter t op s) c d"
    have fin: "finite T" "card T < 2 ^ 32" using 2 by (auto simp: fw_valid_def)
    from fw_call_finish [OF fin 2(3), of c g ts op d] 2 c ts
    show "\<not> aborted d \<and> fw_inv T (shared d) (ghost d) (status d)" by (auto simp: fw_inv_def)
  qed
next
  case (3 p T s g f t k)
  then obtain ts where ts: "fw_waiting f (fw_fifo_thread_q (fg_wq s)) ts" by (auto simp: fw_inv_def)
  show ?case
  proof (rule keeps_of_finish, unfold fw_obj_simps)
    fix c d assume c: "shared c = s" "ghost c = g" "status c = f" "\<not> aborted c" "finish fw_obj t (fw_resume t k s) c d"
    have fin: "finite T" using 3 by (auto simp: fw_valid_def)
    from fw_resume_finish [OF fin 3(3), of c g k ts d] 3 c ts
    show "\<not> aborted d \<and> fw_inv T (shared d) (ghost d) (status d)" by (auto simp: fw_inv_def)
  qed
qed simp

text \<open>C32. A FIFO wait queue refines a queue of threads: in every execution without spurious wake-ups, with
  fewer than 2 to the 32 threads, the blocked threads are those of an abstract queue, in the order of the list of
  condition variables; a thread that must wait goes to its end, a signal wakes its first thread and no
  other, a broadcast wakes all of it.\<close>

theorem fifo_gate_order:
  assumes "fw_valid b T" "reach fw_obj False T (fw_setup True b) () c"
  shows "\<exists>ts. fw_waiting (status c) (fw_fifo_thread_q (fg_wq (shared c))) ts \<and> \<not> aborted c \<and>
    (\<forall>t op d. t \<in> T \<longrightarrow> status c t = Running \<longrightarrow> finish fw_obj t (fw_enter t op (shared c)) c d \<longrightarrow>
       fw_waiting (status d) (fw_fifo_thread_q (fg_wq (shared d))) (gate_spec op t (fg_barrier_enabled (shared c)) ts)) \<and>
    (\<forall>t k d. t \<in> T \<longrightarrow> status c t = Woken k \<longrightarrow> finish fw_obj t (fw_resume t k (shared c)) c d \<longrightarrow>
       fw_waiting (status d) (fw_fifo_thread_q (fg_wq (shared d))) (gate_spec Pass_gate t (fg_barrier_enabled (shared c)) ts))"
proof -
  have T: "finite T" "card T < 2 ^ 32" using assms(1) by (auto simp: fw_valid_def)
  note inv = fw_gates.reachable_inv [OF assms]
  then obtain ts where "fw_waiting (status c) (fw_fifo_thread_q (fg_wq (shared c))) ts" by (auto simp: fw_inv_def)
  then show ?thesis
    using fw_call_finish(2) [OF T _ inv] fw_resume_finish(2) [OF T(1) _ inv] fw_gates.reachable_not_aborted [OF assms]
    by (intro exI [of _ ts]) simp
qed

text \<open>Three threads wait, a signal wakes the first, who passes when the gate is open.\<close>

theorem fifo_gate_order_witness:
  "\<exists>c. reach fw_obj False {1, 2, 3, 4} (fw_setup True True) () c \<and> map (status c) [1, 2, 3] =
     [Woken (Fw_wait (Some 1)), Blocked (Own_cv 2) (Fw_wait (Some 2)), Blocked (Own_cv 3) (Fw_wait (Some 3))] \<and>
     (\<exists>ts. fw_waiting (status c) (fw_fifo_thread_q (fg_wq (shared c))) ts)"
proof -
  have "map_option (\<lambda>c. map (status c) [1, 2, 3]) (execute fw_obj False [1, 2, 3, 4]
      [Call 1 Pass_gate [], Call 2 Pass_gate [], Call 3 Pass_gate [], Call 4 Signal_gate [1], Call 4 (Set_gate False) []]
      (start (fw_setup True True) ())) =
    Some [Woken (Fw_wait (Some 1)), Blocked (Own_cv 2) (Fw_wait (Some 2)), Blocked (Own_cv 3) (Fw_wait (Some 3))]"
    by code_simp
  then obtain c where c: "reach fw_obj False (set [1, 2, 3, 4]) (fw_setup True True) () c" "map (status c) [1, 2, 3] =
     [Woken (Fw_wait (Some 1)), Blocked (Own_cv 2) (Fw_wait (Some 2)), Blocked (Own_cv 3) (Fw_wait (Some 3))]"
    by (rule execute_shows)
  have "fw_valid True (set [1, 2, 3, 4])" by (simp add: fw_valid_def)
  from fifo_gate_order [OF this c(1)] c show ?thesis by auto
qed

end
