(* ===== verification/TrafficLight.thy ===== *)
theory TrafficLight
  imports FifoWaitQueue
begin

text \<open>
  The traffic light of
  \<^verbatim>\<open>ThreadSyncAdv/threadlib/CourseDev/section_thread_wait_queues/TrafficLightProblem\<close>: threads that
  stop at a red light, in a wait queue for each direction, and a menu that switches the lights.

  Four mutexes are in play, one for each direction, and what one of them protects depends on who locks
  which. So here the steps are those between two accesses to a mutex, a light or a queue. The condition
  \<^verbatim>\<open>thread_block_on_tr_light\<close> of every direction locks
  \<^verbatim>\<open>tr_light_face->mutex\<close>, the mutex of the first face, \<^verbatim>\<open>EAST\<close>; the menu locks the mutex of
  the face it switches.
\<close>

section \<open>The code\<close>

datatype tr_light_col = RED | YELLOW | GREEN

datatype dirn = EAST | WEST | NORTH | SOUTH

text \<open>A mutex is known by its direction; \<open>fc_mutex\<close> is its owner.\<close>

record tr_light_face =
  fc_light :: "tr_light_col \<Rightarrow> bool"
  fc_mutex :: "tid option"
  fc_wq :: "dirn fifo_wq"

text \<open>The points of a thread in \<^verbatim>\<open>thread_move\<close> and the calls it makes, and of the menu.\<close>

datatype tl_pc =
    Tl_enter | Tl_locked | Tl_catch bool | Tl_test bool | Tl_wait | Tl_asleep | Tl_woken | Tl_back
  | Tl_retest | Tl_run | Tl_unlock
  | Menu | Menu_lock dirn tr_light_col | Menu_set dirn tr_light_col nat | Menu_broadcast dirn tr_light_col nat | Menu_unlock dirn

record tr_light =
  tl_face :: "dirn \<Rightarrow> tr_light_face"
  tl_pc :: "tid \<Rightarrow> tl_pc"
  tl_log :: "tid list"

definition tr_light_init :: "(dirn \<Rightarrow> tr_light_face) \<Rightarrow> dirn \<Rightarrow> tr_light_face" where
  "tr_light_init faces d = (faces d)\<lparr>fc_light := (\<lambda>_. False), fc_mutex := None, fc_wq := fw_init False (fc_wq (faces d))\<rparr>"

definition colours :: "tr_light_col list" where
  "colours = [RED, YELLOW, GREEN]"

text \<open>One turn of the loop of \<^verbatim>\<open>tr_light_set_status\<close>, without the broadcast.\<close>

definition set_colour :: "tr_light_col \<Rightarrow> tr_light_col \<Rightarrow> tr_light_face \<Rightarrow> tr_light_face" where
  "set_colour col col_it face = face\<lparr>fc_light := (fc_light face)(col_it := (col_it = col))\<rparr>"

text \<open>\<^verbatim>\<open>tr_light_set_status\<close> called alone: the face and what is woken.\<close>

definition tr_light_set_status :: "tr_light_col \<Rightarrow> bool \<Rightarrow> tr_light_face \<Rightarrow> tr_light_face \<times> fw_cv wakeup list" where
  "tr_light_set_status col on face =
     (if \<not> on then (face\<lparr>fc_light := (fc_light face)(col := False)\<rparr>, [])
      else fold (\<lambda>col_it (f, ss). let f1 = set_colour col col_it f in
          if col_it = col \<and> col = GREEN then (let (wq, ss') = fw_broadcast (fc_wq f1) in (f1\<lparr>fc_wq := wq\<rparr>, ss @ ss'))
          else (f1, ss)) colours (face, []))"

definition thread_block_on_tr_light :: "dirn \<Rightarrow> tr_light \<Rightarrow> bool" where
  "thread_block_on_tr_light d x = fc_light (tl_face x d) RED"

text \<open>The choices of the menu; another number leaves direction and colour undefined.\<close>

definition user_choice :: "nat \<Rightarrow> (dirn \<times> tr_light_col) option" where
  "user_choice choice =
     (if choice = 1 then Some (EAST, RED) else if choice = 2 then Some (EAST, YELLOW) else if choice = 3 then Some (EAST, GREEN)
      else if choice = 4 then Some (WEST, RED) else if choice = 5 then Some (WEST, YELLOW) else if choice = 6 then Some (WEST, GREEN)
      else if choice = 7 then Some (NORTH, RED) else if choice = 8 then Some (NORTH, YELLOW) else if choice = 9 then Some (NORTH, GREEN)
      else if choice = 10 then Some (SOUTH, RED) else if choice = 11 then Some (SOUTH, YELLOW) else if choice = 12 then Some (SOUTH, GREEN)
      else None)"

definition tl_goto :: "tid \<Rightarrow> tl_pc \<Rightarrow> tr_light \<Rightarrow> tr_light" where
  "tl_goto t l x = x\<lparr>tl_pc := (tl_pc x)(t := l)\<rparr>"

definition on_face :: "dirn \<Rightarrow> (tr_light_face \<Rightarrow> tr_light_face) \<Rightarrow> tr_light \<Rightarrow> tr_light" where
  "on_face d f x = x\<lparr>tl_face := (tl_face x)(d := f (tl_face x d))\<rparr>"

definition on_wq :: "dirn \<Rightarrow> (dirn fifo_wq \<Rightarrow> dirn fifo_wq) \<Rightarrow> tr_light \<Rightarrow> tr_light" where
  "on_wq d f = on_face d (\<lambda>face. face\<lparr>fc_wq := f (fc_wq face)\<rparr>)"

text \<open>\<^verbatim>\<open>pthread_mutex_lock\<close> and \<^verbatim>\<open>pthread_mutex_unlock\<close> of the mutex of a face; a thread that finds the
  mutex taken has no step.\<close>

definition tl_lock :: "tid \<Rightarrow> dirn \<Rightarrow> tr_light \<Rightarrow> tr_light option" where
  "tl_lock t m x = (if fc_mutex (tl_face x m) = None then Some (on_face m (\<lambda>f. f\<lparr>fc_mutex := Some t\<rparr>) x) else None)"

definition tl_release :: "dirn \<Rightarrow> tr_light \<Rightarrow> tr_light" where
  "tl_release m x = on_face m (\<lambda>f. f\<lparr>fc_mutex := None\<rparr>) x"

text \<open>A broadcast to the queue of \<open>d\<close> wakes its threads.\<close>

definition tl_wake :: "(tid \<Rightarrow> dirn) \<Rightarrow> dirn \<Rightarrow> fw_cv wakeup list \<Rightarrow> tr_light \<Rightarrow> tr_light" where
  "tl_wake th d ss x = (if ss = [] then x
     else x\<lparr>tl_pc := (\<lambda>t. if tl_pc x t = Tl_asleep \<and> th t = d then Tl_woken else tl_pc x t)\<rparr>)"

text \<open>A step of thread \<open>t\<close>; \<open>th t\<close> is its \<^verbatim>\<open>th_dirn\<close>. The menu takes \<open>choice\<close>.\<close>

fun tl_step :: "(tid \<Rightarrow> dirn) \<Rightarrow> nat \<Rightarrow> tid \<Rightarrow> tl_pc \<Rightarrow> tr_light \<Rightarrow> tr_light option" where
  "tl_step th choice t Tl_enter x = map_option (tl_goto t Tl_locked) (tl_lock t EAST x)"
| "tl_step th choice t Tl_locked x = Some (tl_goto t (Tl_catch (thread_block_on_tr_light (th t) x)) x)"
| "tl_step th choice t (Tl_catch b) x = Some (tl_goto t (Tl_test b) (on_wq (th t) (\<lambda>wq. wq\<lparr>fw_appln_mutex := Some EAST\<rparr>) x))"
| "tl_step th choice t (Tl_test b) x =
     (if b then Some (tl_goto t Tl_wait (on_wq (th t) (\<lambda>wq. snd (fw_block None wq)) x)) else Some (tl_goto t Tl_run x))"
| "tl_step th choice t Tl_wait x =
     map_option (\<lambda>m. tl_goto t Tl_asleep (tl_release m x)) (fw_appln_mutex (fc_wq (tl_face x (th t))))"
| "tl_step th choice t Tl_asleep x = None"
| "tl_step th choice t Tl_woken x =
     Option.bind (fw_appln_mutex (fc_wq (tl_face x (th t)))) (\<lambda>m. map_option (tl_goto t Tl_back) (tl_lock t m x))"
| "tl_step th choice t Tl_back x = Some (tl_goto t Tl_retest (on_wq (th t) (fw_unblock None) x))"
| "tl_step th choice t Tl_retest x = Some (tl_goto t (Tl_test (thread_block_on_tr_light (th t) x)) x)"
| "tl_step th choice t Tl_run x = Some (tl_goto t Tl_unlock (x\<lparr>tl_log := tl_log x @ [t]\<rparr>))"
| "tl_step th choice t Tl_unlock x =
     map_option (\<lambda>m. tl_goto t Tl_enter (tl_release m x)) (fw_appln_mutex (fc_wq (tl_face x (th t))))"
| "tl_step th choice t Menu x = map_option (\<lambda>(d, col). tl_goto t (Menu_lock d col) x) (user_choice choice)"
| "tl_step th choice t (Menu_lock d col) x = map_option (tl_goto t (Menu_set d col 0)) (tl_lock t d x)"
| "tl_step th choice t (Menu_set d col k) x =
     (if k < length colours
      then Some (tl_goto t (if colours ! k = col \<and> col = GREEN then Menu_broadcast d col k else Menu_set d col (k + 1))
             (on_face d (set_colour col (colours ! k)) x))
      else Some (tl_goto t (Menu_unlock d) x))"
| "tl_step th choice t (Menu_broadcast d col k) x =
     (let (wq, ss) = fw_broadcast (fc_wq (tl_face x d))
      in Some (tl_goto t (Menu_set d col (k + 1)) (tl_wake th d ss (on_wq d (\<lambda>_. wq) x))))"
| "tl_step th choice t (Menu_unlock d) x = Some (tl_goto t Menu (tl_release d x))"

text \<open>Thread 0 is the main thread, with the menu; \<open>T\<close> are the others. A wait may end by itself.\<close>

definition tl_main :: tr_light where
  "tl_main = \<lparr>tl_face = tr_light_init (\<lambda>_. \<lparr>fc_light = (\<lambda>_. False), fc_mutex = None,
     fc_wq = \<lparr>fw_thread_wait_count = 0, fw_appln_mutex = None, fw_fifo_thread_q = [], fw_is_fifo_enabled = False, fw_cv_id = 0\<rparr>\<rparr>),
     tl_pc = (\<lambda>t. if t = 0 then Menu else Tl_enter), tl_log = []\<rparr>"

inductive tl_reach :: "(tid \<Rightarrow> dirn) \<Rightarrow> tid set \<Rightarrow> tr_light \<Rightarrow> bool" for th T where
  tl_start: "tl_reach th T tl_main"
| tl_moves: "tl_reach th T x \<Longrightarrow> t \<in> insert 0 T \<Longrightarrow> tl_step th choice t (tl_pc x t) x = Some y \<Longrightarrow> tl_reach th T y"
| tl_spurious: "tl_reach th T x \<Longrightarrow> t \<in> T \<Longrightarrow> tl_pc x t = Tl_asleep \<Longrightarrow> tl_reach th T (tl_goto t Tl_woken x)"

section \<open>Faces and threads\<close>

lemma tl_goto_simps [simp]:
  "tl_face (tl_goto t l x) = tl_face x" "tl_pc (tl_goto t l x) = (tl_pc x)(t := l)"
  by (simp_all add: tl_goto_def)

lemma on_face_simps [simp]:
  "tl_face (on_face d f x) = (tl_face x)(d := f (tl_face x d))" "tl_pc (on_face d f x) = tl_pc x"
  by (simp_all add: on_face_def)

lemma on_wq_simps [simp]:
  "tl_pc (on_wq d f x) = tl_pc x"
  "tl_face (on_wq d f x) = (tl_face x)(d := (tl_face x d)\<lparr>fc_wq := f (fc_wq (tl_face x d))\<rparr>)"
  by (simp_all add: on_wq_def)

lemma tl_release_simps [simp]:
  "tl_pc (tl_release m x) = tl_pc x" "tl_face (tl_release m x) = (tl_face x)(m := (tl_face x m)\<lparr>fc_mutex := None\<rparr>)"
  by (simp_all add: tl_release_def)

lemma tl_lock_Some: "tl_lock t m x = Some y \<longleftrightarrow> fc_mutex (tl_face x m) = None \<and> y = on_face m (\<lambda>f. f\<lparr>fc_mutex := Some t\<rparr>) x"
  by (auto simp: tl_lock_def)

text \<open>The points at which a thread holds the mutex of \<^verbatim>\<open>EAST\<close>, at which its queue has the mutex, at
  which it is counted, and at which it will sleep or sleeps.\<close>

fun tl_holds :: "tl_pc \<Rightarrow> bool" where
  "tl_holds Tl_enter = False" | "tl_holds Tl_asleep = False" | "tl_holds Tl_woken = False"
| "tl_holds Tl_locked = True" | "tl_holds (Tl_catch b) = True" | "tl_holds (Tl_test b) = True" | "tl_holds Tl_wait = True"
| "tl_holds Tl_back = True" | "tl_holds Tl_retest = True" | "tl_holds Tl_run = True" | "tl_holds Tl_unlock = True"
| "tl_holds _ = False"

fun tl_caught :: "tl_pc \<Rightarrow> bool" where
  "tl_caught (Tl_test b) = True" | "tl_caught Tl_wait = True" | "tl_caught Tl_asleep = True" | "tl_caught Tl_woken = True"
| "tl_caught Tl_back = True" | "tl_caught Tl_retest = True" | "tl_caught Tl_run = True" | "tl_caught Tl_unlock = True"
| "tl_caught _ = False"

fun tl_counted :: "tl_pc \<Rightarrow> bool" where
  "tl_counted Tl_wait = True" | "tl_counted Tl_asleep = True" | "tl_counted Tl_woken = True" | "tl_counted Tl_back = True"
| "tl_counted _ = False"

fun tl_stops :: "tl_pc \<Rightarrow> bool" where
  "tl_stops (Tl_catch b) = b" | "tl_stops (Tl_test b) = b" | "tl_stops Tl_wait = True" | "tl_stops Tl_asleep = True"
| "tl_stops _ = False"

fun tl_menu :: "tl_pc \<Rightarrow> bool" where
  "tl_menu Menu = True" | "tl_menu (Menu_lock d c) = True" | "tl_menu (Menu_set d c k) = True"
| "tl_menu (Menu_broadcast d c k) = True" | "tl_menu (Menu_unlock d) = True"
| "tl_menu _ = False"

fun menu_holds :: "dirn \<Rightarrow> tl_pc \<Rightarrow> bool" where
  "menu_holds d (Menu_set d' c k) = (d' = d)" | "menu_holds d (Menu_broadcast d' c k) = (d' = d)"
| "menu_holds d (Menu_unlock d') = (d' = d)"
| "menu_holds d _ = False"


section \<open>The face of \<^verbatim>\<open>EAST\<close>\<close>

definition tl_valid :: "tid set \<Rightarrow> bool" where
  "tl_valid T \<longleftrightarrow> finite T \<and> card T < 2 ^ 32 \<and> (\<forall>t\<in>T. t \<noteq> 0)"

definition tl_roles :: "tid set \<Rightarrow> tr_light \<Rightarrow> bool" where
  "tl_roles T x \<longleftrightarrow> (\<forall>t\<in>T. \<not> tl_menu (tl_pc x t)) \<and> tl_menu (tl_pc x 0)"

definition tl_mutex :: "tid set \<Rightarrow> tr_light \<Rightarrow> bool" where
  "tl_mutex T x \<longleftrightarrow> (\<forall>t. fc_mutex (tl_face x EAST) = Some t \<longleftrightarrow>
     (t \<in> T \<and> tl_holds (tl_pc x t)) \<or> (t = 0 \<and> menu_holds EAST (tl_pc x 0)))"

definition tl_queues :: "(tid \<Rightarrow> dirn) \<Rightarrow> tid set \<Rightarrow> tr_light \<Rightarrow> bool" where
  "tl_queues th T x \<longleftrightarrow> (\<forall>t\<in>T. tl_caught (tl_pc x t) \<longrightarrow> fw_appln_mutex (fc_wq (tl_face x (th t))) = Some EAST) \<and>
     (\<forall>d. \<not> fw_is_fifo_enabled (fc_wq (tl_face x d)))"

definition tl_count :: "(tid \<Rightarrow> dirn) \<Rightarrow> tid set \<Rightarrow> tr_light \<Rightarrow> bool" where
  "tl_count th T x \<longleftrightarrow> fw_thread_wait_count (fc_wq (tl_face x EAST)) = of_nat (count_threads {t \<in> T. th t = EAST} tl_counted (tl_pc x))"

definition tl_base :: "(tid \<Rightarrow> dirn) \<Rightarrow> tid set \<Rightarrow> tr_light \<Rightarrow> bool" where
  "tl_base th T x \<longleftrightarrow> tl_roles T x \<and> tl_mutex T x \<and> tl_queues th T x \<and> tl_count th T x"

lemma fw_block_counts: "\<not> fw_is_fifo_enabled wq \<Longrightarrow> snd (fw_block None wq) = wq\<lparr>fw_thread_wait_count := fw_thread_wait_count wq + 1\<rparr>"
  by (simp add: fw_block_def)

lemma fw_unblock_counts: "fw_unblock None wq = wq\<lparr>fw_thread_wait_count := fw_thread_wait_count wq - 1\<rparr>"
  by (simp add: fw_unblock_def)

lemma fw_broadcast_same: "\<not> fw_is_fifo_enabled wq \<Longrightarrow> fst (fw_broadcast wq) = wq"
  by (simp add: fw_broadcast_def)

lemma tl_base_start: "tl_valid T \<Longrightarrow> tl_base th T tl_main"
  using count_threads_eq_0 [of "{t \<in> T. th t = EAST}" tl_counted "tl_pc tl_main"]
  by (auto simp: tl_base_def tl_roles_def tl_mutex_def tl_queues_def tl_count_def tl_main_def tr_light_init_def fw_init_def tl_valid_def)

lemma tl_mutex_owner: "tl_mutex T x \<Longrightarrow> t \<in> T \<Longrightarrow> tl_holds (tl_pc x t) \<Longrightarrow> fc_mutex (tl_face x EAST) = Some t"
  "tl_mutex T x \<Longrightarrow> menu_holds EAST (tl_pc x 0) \<Longrightarrow> fc_mutex (tl_face x EAST) = Some 0"
  by (simp_all add: tl_mutex_def)

text \<open>What a step of a thread \<open>t\<close> of \<open>T\<close> may do.\<close>

lemma tl_move_mutex:
  assumes "tl_mutex T x" "t \<in> T" "t \<noteq> 0" "tl_pc y = (tl_pc x)(t := l)"
    and "fc_mutex (tl_face y EAST) = (if tl_holds l then Some t else if tl_holds (tl_pc x t) then None else fc_mutex (tl_face x EAST))"
    and "tl_holds l \<Longrightarrow> fc_mutex (tl_face x EAST) = None \<or> fc_mutex (tl_face x EAST) = Some t"
  shows "tl_mutex T y"
proof -
  show ?thesis
  proof (cases "tl_holds l \<or> tl_holds (tl_pc x t)")
    case True
    then have own: "fc_mutex (tl_face x EAST) = None \<or> fc_mutex (tl_face x EAST) = Some t"
      using assms(6) tl_mutex_owner(1) [OF assms(1,2)] by auto
    have other: "t' = t" if "t' \<in> T" "tl_holds (tl_pc x t')" for t'
      using tl_mutex_owner(1) [OF assms(1) that] own by simp
    have menu: "\<not> menu_holds EAST (tl_pc x 0)" using tl_mutex_owner(2) [OF assms(1)] own assms(3) by auto
    have y: "(u \<in> T \<and> tl_holds (tl_pc y u)) \<or> (u = 0 \<and> menu_holds EAST (tl_pc y 0)) \<longleftrightarrow> u = t \<and> tl_holds l" for u
      using other [of u] menu assms(2-4) by (cases "u = t") auto
    have "fc_mutex (tl_face y EAST) = (if tl_holds l then Some t else None)" using assms(5) True by auto
    then show ?thesis unfolding tl_mutex_def y by auto
  next
    case False
    have "(u \<in> T \<and> tl_holds (tl_pc y u)) \<longleftrightarrow> (u \<in> T \<and> tl_holds (tl_pc x u))" for u using False assms(4) by simp
    moreover have "tl_pc y 0 = tl_pc x 0" using assms(3,4) by simp
    moreover have "fc_mutex (tl_face y EAST) = fc_mutex (tl_face x EAST)" using assms(5) False by simp
    ultimately show ?thesis using assms(1) unfolding tl_mutex_def by simp
  qed
qed

lemma tl_move_count:
  assumes "tl_count th T x" "tl_valid T" "t \<in> T" "tl_pc y = (tl_pc x)(t := l)"
    and "fw_thread_wait_count (fc_wq (tl_face y EAST)) = (if th t \<noteq> EAST \<or> tl_counted l = tl_counted (tl_pc x t)
      then fw_thread_wait_count (fc_wq (tl_face x EAST))
      else if tl_counted l then fw_thread_wait_count (fc_wq (tl_face x EAST)) + 1 else fw_thread_wait_count (fc_wq (tl_face x EAST)) - 1)"
  shows "tl_count th T y"
proof -
  let ?E = "{t \<in> T. th t = EAST}"
  have fin: "finite ?E" using assms(2) by (simp add: tl_valid_def)
  consider "t \<notin> ?E" | "t \<in> ?E" "tl_counted l = tl_counted (tl_pc x t)" | "t \<in> ?E" "tl_counted l" "\<not> tl_counted (tl_pc x t)"
    | "t \<in> ?E" "\<not> tl_counted l" "tl_counted (tl_pc x t)" by blast
  then show ?thesis
  proof cases
    case 1
    then show ?thesis using assms by (simp add: tl_count_def count_threads_outside)
  next
    case 2
    then show ?thesis using assms by (simp add: tl_count_def count_threads_keep)
  next
    case 3
    then show ?thesis using assms count_threads_add [OF fin 3(1), of tl_counted "tl_pc x" l] by (simp add: tl_count_def)
  next
    case 4
    then have "Suc (count_threads ?E tl_counted (tl_pc y)) = count_threads ?E tl_counted (tl_pc x)"
      using count_threads_del [OF fin 4(1), of tl_counted "tl_pc x" l] assms(4) by simp
    from this [symmetric] have "(of_nat (count_threads ?E tl_counted (tl_pc x)) :: u32) = 1 + of_nat (count_threads ?E tl_counted (tl_pc y))"
      by (simp only: of_nat_Suc)
    moreover have "fw_thread_wait_count (fc_wq (tl_face y EAST)) = fw_thread_wait_count (fc_wq (tl_face x EAST)) - 1"
      using assms(5) 4 by simp
    ultimately show ?thesis using assms(1) unfolding tl_count_def by simp
  qed
qed

lemma tl_move_queues:
  assumes "tl_queues th T x" "tl_pc y = (tl_pc x)(t := l)" "tl_caught l \<Longrightarrow> fw_appln_mutex (fc_wq (tl_face y (th t))) = Some EAST"
    and "\<And>d. fw_appln_mutex (fc_wq (tl_face y d)) = fw_appln_mutex (fc_wq (tl_face x d)) \<or> fw_appln_mutex (fc_wq (tl_face y d)) = Some EAST"
    and "\<And>d. fw_is_fifo_enabled (fc_wq (tl_face y d)) = fw_is_fifo_enabled (fc_wq (tl_face x d))"
  shows "tl_queues th T y"
  using assms unfolding tl_queues_def by (metis fun_upd_apply)

lemma tl_base_thread:
  assumes base: "tl_base th T x" and T: "tl_valid T" "t \<in> T" and y: "tl_step th choice t (tl_pc x t) x = Some y"
  shows "tl_base th T y"
proof -
  have b: "tl_roles T x" "tl_mutex T x" "tl_queues th T x" "tl_count th T x" using base by (auto simp: tl_base_def)
  have 0: "t \<noteq> 0" using T by (auto simp: tl_valid_def)
  have nm: "\<not> tl_menu (tl_pc x t)" using b(1) T by (auto simp: tl_roles_def)
  have caught: "fw_appln_mutex (fc_wq (tl_face x (th t))) = Some EAST" if "tl_caught (tl_pc x t)" using b(3) T that by (simp add: tl_queues_def)
  have nf: "\<not> fw_is_fifo_enabled (fc_wq (tl_face x d))" for d using b(3) by (simp add: tl_queues_def)
  note own = tl_mutex_owner(1) [OF b(2) T(2)]
  let ?l = "tl_pc y t"
  have l': "tl_pc y = (tl_pc x)(t := ?l)" "\<not> tl_menu ?l"
    "fc_mutex (tl_face y EAST) = (if tl_holds ?l then Some t else if tl_holds (tl_pc x t) then None else fc_mutex (tl_face x EAST))"
    "tl_holds ?l \<Longrightarrow> fc_mutex (tl_face x EAST) = None \<or> fc_mutex (tl_face x EAST) = Some t"
    "fw_thread_wait_count (fc_wq (tl_face y EAST)) = (if th t \<noteq> EAST \<or> tl_counted ?l = tl_counted (tl_pc x t)
      then fw_thread_wait_count (fc_wq (tl_face x EAST))
      else if tl_counted ?l then fw_thread_wait_count (fc_wq (tl_face x EAST)) + 1 else fw_thread_wait_count (fc_wq (tl_face x EAST)) - 1)"
    "tl_caught ?l \<Longrightarrow> fw_appln_mutex (fc_wq (tl_face y (th t))) = Some EAST"
    "\<And>d. fw_appln_mutex (fc_wq (tl_face y d)) = fw_appln_mutex (fc_wq (tl_face x d)) \<or> fw_appln_mutex (fc_wq (tl_face y d)) = Some EAST"
    "\<And>d. fw_is_fifo_enabled (fc_wq (tl_face y d)) = fw_is_fifo_enabled (fc_wq (tl_face x d))"
    using y nm caught nf own
    by (cases "tl_pc x t"; auto simp: tl_lock_Some fw_block_counts fw_unblock_counts bind_eq_Some_conv split: if_splits)+
  define l where "l = ?l"
  note l = l' [folded l_def]
  have "tl_roles T y" using b(1) l(1,2) 0 by (auto simp: tl_roles_def)
  then show ?thesis
    using tl_move_mutex [OF b(2) T(2) 0 l(1,3,4)] tl_move_queues [OF b(3) l(1,6-8)] tl_move_count [OF b(4) T l(1,5)]
    by (simp add: tl_base_def)
qed


text \<open>A step of the menu.\<close>

lemma tl_base_menu:
  assumes base: "tl_base th T x" and T: "tl_valid T" and y: "tl_step th choice 0 (tl_pc x 0) x = Some y"
  shows "tl_base th T y"
proof -
  have b: "tl_roles T x" "tl_mutex T x" "tl_queues th T x" "tl_count th T x" using base by (auto simp: tl_base_def)
  have m: "tl_menu (tl_pc x 0)" using b(1) by (simp add: tl_roles_def)
  have T0: "t \<noteq> 0" if "t \<in> T" for t using T that by (auto simp: tl_valid_def)
  have nf: "\<not> fw_is_fifo_enabled (fc_wq (tl_face x d))" for d using b(3) by (simp add: tl_queues_def)
  have wq: "fst (fw_broadcast (fc_wq (tl_face x d))) = fc_wq (tl_face x d)" for d using nf by (rule fw_broadcast_same)
  have queue: "fc_wq (tl_face y d) = fc_wq (tl_face x d)" for d
    using y m wq by (cases "tl_pc x 0") (auto simp: tl_lock_Some tl_wake_def set_colour_def split_beta split: if_splits)
  have pcs: "tl_pc y t = tl_pc x t \<or> tl_pc x t = Tl_asleep \<and> tl_pc y t = Tl_woken" if "t \<in> T" for t
    using y m T0 [OF that] by (cases "tl_pc x 0") (auto simp: tl_lock_Some tl_wake_def split_beta split: if_splits)
  have menu: "tl_menu (tl_pc y 0)"
    using y m by (cases "tl_pc x 0") (auto simp: tl_lock_Some tl_wake_def split_beta split: if_splits)
  have mutex: "fc_mutex (tl_face y EAST) = (if menu_holds EAST (tl_pc y 0) then Some 0
      else if menu_holds EAST (tl_pc x 0) then None else fc_mutex (tl_face x EAST)) \<and>
    (menu_holds EAST (tl_pc y 0) \<longrightarrow> menu_holds EAST (tl_pc x 0) \<or> fc_mutex (tl_face x EAST) = None)"
    using y m tl_mutex_owner(2) [OF b(2)]
    by (cases "tl_pc x 0") (auto simp: tl_lock_Some tl_wake_def set_colour_def split_beta split: if_splits)
  have same: "tl_holds (tl_pc y t) = tl_holds (tl_pc x t) \<and> tl_caught (tl_pc y t) = tl_caught (tl_pc x t) \<and>
      tl_counted (tl_pc y t) = tl_counted (tl_pc x t) \<and> tl_menu (tl_pc y t) = tl_menu (tl_pc x t)" if "t \<in> T" for t
    using pcs [OF that] by auto
  have "tl_roles T y" using b(1) same menu by (simp add: tl_roles_def)
  moreover have "tl_queues th T y" using b(3) same queue by (simp add: tl_queues_def)
  moreover have "count_threads {t \<in> T. th t = EAST} tl_counted (tl_pc y) = count_threads {t \<in> T. th t = EAST} tl_counted (tl_pc x)"
    using same by (intro count_threads_same) auto
  then have "tl_count th T y" using b(4) queue by (simp add: tl_count_def)
  moreover have "tl_mutex T y"
  proof (cases "menu_holds EAST (tl_pc y 0) \<or> menu_holds EAST (tl_pc x 0)")
    case True
    then have "fc_mutex (tl_face x EAST) = None \<or> fc_mutex (tl_face x EAST) = Some 0"
      using mutex tl_mutex_owner(2) [OF b(2)] by auto
    then have "\<not> tl_holds (tl_pc x t)" if "t \<in> T" for t using tl_mutex_owner(1) [OF b(2) that] T0 [OF that] by auto
    then show ?thesis using mutex True same unfolding tl_mutex_def by auto
  next
    case False
    then show ?thesis using mutex same b(2) unfolding tl_mutex_def by simp blast
  qed
  ultimately show ?thesis by (simp add: tl_base_def)
qed

lemma tl_base_spurious:
  assumes base: "tl_base th T x" and T: "tl_valid T" and t: "t \<in> T" "tl_pc x t = Tl_asleep"
  shows "tl_base th T (tl_goto t Tl_woken x)"
proof -
  have "tl_roles T x" "tl_mutex T x" "tl_queues th T x" "tl_count th T x" using base by (auto simp: tl_base_def)
  moreover have "t \<noteq> 0" using T t(1) by (auto simp: tl_valid_def)
  moreover have "count_threads {t \<in> T. th t = EAST} tl_counted ((tl_pc x)(t := Tl_woken)) = count_threads {t \<in> T. th t = EAST} tl_counted (tl_pc x)"
    using t(2) by (intro count_threads_keep) simp
  ultimately show ?thesis using t
    by (auto simp: tl_base_def tl_roles_def tl_mutex_def tl_queues_def tl_count_def)
qed

section \<open>Nobody sleeps at a green light of \<^verbatim>\<open>EAST\<close>\<close>

text \<open>The lights of the face while the menu switches them.\<close>

fun menu_lights :: "tl_pc \<Rightarrow> (tr_light_col \<Rightarrow> bool) \<Rightarrow> bool" where
  "menu_lights (Menu_set d c k) L \<longleftrightarrow> (if d = EAST then k \<le> 3 \<and> (\<forall>j<k. L (colours ! j) = (colours ! j = c)) else L GREEN \<longrightarrow> \<not> L RED)"
| "menu_lights (Menu_broadcast d c k) L \<longleftrightarrow> (if d = EAST then k = 2 \<and> c = GREEN \<and> L GREEN \<and> \<not> L RED \<and> \<not> L YELLOW else L GREEN \<longrightarrow> \<not> L RED)"
| "menu_lights _ L \<longleftrightarrow> (L GREEN \<longrightarrow> \<not> L RED)"

fun menu_done :: "tl_pc \<Rightarrow> bool" where
  "menu_done (Menu_set d c k) \<longleftrightarrow> d = EAST \<longrightarrow> k = 3"
| "menu_done (Menu_broadcast d c k) \<longleftrightarrow> d \<noteq> EAST"
| "menu_done _ \<longleftrightarrow> True"

definition tl_inv :: "(tid \<Rightarrow> dirn) \<Rightarrow> tid set \<Rightarrow> tr_light \<Rightarrow> bool" where
  "tl_inv th T x \<longleftrightarrow> tl_base th T x \<and> menu_lights (tl_pc x 0) (fc_light (tl_face x EAST)) \<and>
     (menu_done (tl_pc x 0) \<and> fc_light (tl_face x EAST) GREEN \<longrightarrow> (\<forall>t\<in>T. th t = EAST \<longrightarrow> \<not> tl_stops (tl_pc x t)))"


lemma all_below: "(\<forall>j<Suc 0. P j) \<longleftrightarrow> P 0" "(\<forall>j<Suc (Suc 0). P j) \<longleftrightarrow> P 0 \<and> P (Suc 0)"
  "(\<forall>j<Suc (Suc (Suc 0)). P j) \<longleftrightarrow> P 0 \<and> P (Suc 0) \<and> P (Suc (Suc 0))"
  by (auto simp: less_Suc_eq)

lemma menu_lights_done: "menu_lights l L \<Longrightarrow> menu_done l \<Longrightarrow> L GREEN \<Longrightarrow> \<not> L RED"
  by (cases l) (auto simp: numeral_3_eq_3 all_below colours_def split: if_splits)

lemma tl_step_thread_lights:
  "\<not> tl_menu (tl_pc x t) \<Longrightarrow> tl_step th choice t (tl_pc x t) x = Some y \<Longrightarrow>
   fc_light (tl_face y d) = fc_light (tl_face x d) \<and> (\<forall>u. u \<noteq> t \<longrightarrow> tl_pc y u = tl_pc x u) \<and>
   (tl_stops (tl_pc y t) \<longrightarrow> tl_stops (tl_pc x t) \<or> fc_light (tl_face x (th t)) RED)"
  by (cases "tl_pc x t") (auto simp: tl_lock_Some bind_eq_Some_conv thread_block_on_tr_light_def split: if_splits)

lemma tl_inv_thread:
  assumes inv: "tl_inv th T x" and T: "tl_valid T" "t \<in> T" and y: "tl_step th choice t (tl_pc x t) x = Some y"
  shows "tl_inv th T y"
proof -
  have base: "tl_base th T x" and l: "menu_lights (tl_pc x 0) (fc_light (tl_face x EAST))" using inv by (auto simp: tl_inv_def)
  have nm: "\<not> tl_menu (tl_pc x t)" using base T(2) by (auto simp: tl_base_def tl_roles_def)
  have t0: "0 \<noteq> t" using T by (auto simp: tl_valid_def)
  note step = tl_step_thread_lights [OF nm y]
  have m: "tl_pc y 0 = tl_pc x 0" using step t0 by blast
  have light: "fc_light (tl_face y EAST) = fc_light (tl_face x EAST)" using step by blast
  have "\<not> tl_stops (tl_pc y u)" if "menu_done (tl_pc x 0)" "fc_light (tl_face x EAST) GREEN" "u \<in> T" "th u = EAST" for u
  proof -
    have "\<not> tl_stops (tl_pc x u)" using inv that by (simp add: tl_inv_def)
    moreover have "\<not> fc_light (tl_face x EAST) RED" using menu_lights_done [OF l that(1,2)] .
    ultimately show ?thesis using step that(4) by (cases "u = t") auto
  qed
  then show ?thesis using tl_base_thread [OF base T y] l unfolding tl_inv_def m light by blast
qed

text \<open>The broadcast reaches every thread that sleeps at \<^verbatim>\<open>EAST\<close>.\<close>

lemma broadcast_wakes:
  assumes base: "tl_base th T x" and T: "tl_valid T" and pc: "tl_pc x 0 = Menu_broadcast EAST c k"
    and y: "tl_step th choice 0 (tl_pc x 0) x = Some y" and t: "t \<in> T" "th t = EAST"
  shows "\<not> tl_stops (tl_pc y t)"
proof -
  let ?wq = "fc_wq (tl_face x EAST)"
  have b: "tl_mutex T x" "tl_queues th T x" "tl_count th T x" using base by (auto simp: tl_base_def)
  have t0: "t \<noteq> 0" using T t(1) by (auto simp: tl_valid_def)
  have "fc_mutex (tl_face x EAST) = Some 0" using tl_mutex_owner(2) [OF b(1)] pc by simp
  then have nh: "\<not> tl_holds (tl_pc x t)" using tl_mutex_owner(1) [OF b(1) t(1)] t0 by auto
  show ?thesis
  proof (cases "tl_pc x t = Tl_asleep")
    case True
    have "fw_appln_mutex ?wq = Some EAST" using b(2) t True by (fastforce simp: tl_queues_def)
    moreover have "fw_thread_wait_count ?wq \<noteq> 0"
    proof -
      let ?E = "{t \<in> T. th t = EAST}"
      have fin: "finite T" "card T < 2 ^ 32" using T by (auto simp: tl_valid_def)
      have "0 < count_threads ?E tl_counted (tl_pc x)" using count_threads_mem [of ?E t tl_counted "tl_pc x"] fin t True by simp
      moreover have "count_threads ?E tl_counted (tl_pc x) < 2 ^ 32"
        using count_threads_le [of ?E tl_counted "tl_pc x"] card_mono [of T ?E] fin by fastforce
      ultimately show ?thesis using b(3) by (auto simp: tl_count_def word_of_nat_eq_0_iff dest: dvd_imp_le)
    qed
    moreover have "\<not> fw_is_fifo_enabled ?wq" using b(2) by (simp add: tl_queues_def)
    ultimately have "fw_broadcast ?wq = (?wq, [Broadcast Queue_cv])" by (simp add: fw_broadcast_def)
    then show ?thesis using y pc True t t0 by (auto simp: tl_wake_def)
  next
    case False
    have "tl_pc y t = tl_pc x t \<or> tl_pc y t = Tl_woken" using y pc t0 by (auto simp: tl_wake_def split_beta split: if_splits)
    moreover have "\<not> tl_stops (tl_pc x t)" using nh False by (cases "tl_pc x t") auto
    ultimately show ?thesis by auto
  qed
qed

lemma tl_step_menu_lights:
  assumes "tl_menu (tl_pc x 0)" "tl_step th choice 0 (tl_pc x 0) x = Some y" "menu_lights (tl_pc x 0) (fc_light (tl_face x EAST))"
  shows "menu_lights (tl_pc y 0) (fc_light (tl_face y EAST))"
    and "menu_done (tl_pc y 0) \<Longrightarrow> fc_light (tl_face y EAST) GREEN \<Longrightarrow>
      (\<exists>c k. tl_pc x 0 = Menu_broadcast EAST c k) \<or> menu_done (tl_pc x 0) \<and> fc_light (tl_face x EAST) GREEN"
    and "t \<noteq> 0 \<Longrightarrow> tl_stops (tl_pc y t) \<Longrightarrow> tl_stops (tl_pc x t)"
proof -
  have k: "k = 0 \<or> k = 1 \<or> k = 2" if "k < 3" for k :: nat using that by auto
  show "menu_lights (tl_pc y 0) (fc_light (tl_face y EAST))"
    and "menu_done (tl_pc y 0) \<Longrightarrow> fc_light (tl_face y EAST) GREEN \<Longrightarrow>
      (\<exists>c k. tl_pc x 0 = Menu_broadcast EAST c k) \<or> menu_done (tl_pc x 0) \<and> fc_light (tl_face x EAST) GREEN"
  proof (atomize (full), cases "tl_pc x 0")
    case (Menu_set d c k)
    show "menu_lights (tl_pc y 0) (fc_light (tl_face y EAST)) \<and> (menu_done (tl_pc y 0) \<longrightarrow> fc_light (tl_face y EAST) GREEN \<longrightarrow>
      (\<exists>c k. tl_pc x 0 = Menu_broadcast EAST c k) \<or> menu_done (tl_pc x 0) \<and> fc_light (tl_face x EAST) GREEN)"
    proof (cases "k < 3")
      case True
      show ?thesis using k [OF True] assms Menu_set
        by (cases c; elim disjE) (auto simp: colours_def set_colour_def all_below numeral_3_eq_3 numeral_2_eq_2 split: if_splits)
    next
      case False
      then show ?thesis using assms Menu_set by (auto simp: colours_def all_below numeral_3_eq_3 split: if_splits)
    qed
  qed (use assms in \<open>auto simp: tl_lock_Some tl_wake_def split_beta colours_def all_below numeral_3_eq_3 numeral_2_eq_2 less_Suc_eq split: if_splits\<close>)
  show "t \<noteq> 0 \<Longrightarrow> tl_stops (tl_pc y t) \<Longrightarrow> tl_stops (tl_pc x t)"
    using assms(1,2) by (cases "tl_pc x 0") (auto simp: tl_lock_Some tl_wake_def split_beta split: if_splits)
qed


lemma tl_inv_menu:
  assumes inv: "tl_inv th T x" and T: "tl_valid T" and y: "tl_step th choice 0 (tl_pc x 0) x = Some y"
  shows "tl_inv th T y"
proof -
  have base: "tl_base th T x" and l: "menu_lights (tl_pc x 0) (fc_light (tl_face x EAST))" using inv by (auto simp: tl_inv_def)
  have m: "tl_menu (tl_pc x 0)" using base by (simp add: tl_base_def tl_roles_def)
  note lights = tl_step_menu_lights [OF m y l]
  have "\<not> tl_stops (tl_pc y t)" if green: "menu_done (tl_pc y 0)" "fc_light (tl_face y EAST) GREEN" and t: "t \<in> T" "th t = EAST" for t
  proof (cases "\<exists>c k. tl_pc x 0 = Menu_broadcast EAST c k")
    case True
    then show ?thesis using broadcast_wakes [OF base T _ y t] by blast
  next
    case False
    then have "menu_done (tl_pc x 0)" "fc_light (tl_face x EAST) GREEN" using lights(2) [OF green] by auto
    then have "\<not> tl_stops (tl_pc x t)" using inv t by (simp add: tl_inv_def)
    then show ?thesis using lights(3) [of t] T t(1) by (auto simp: tl_valid_def)
  qed
  then show ?thesis using tl_base_menu [OF base T y] lights(1) unfolding tl_inv_def by blast
qed

lemma tl_inv_reach:
  assumes T: "tl_valid T" and "tl_reach th T x"
  shows "tl_inv th T x"
  using assms(2)
proof (induction rule: tl_reach.induct)
  case tl_start
  show ?case using tl_base_start [OF T, of th] by (auto simp: tl_inv_def tl_main_def tr_light_init_def)
next
  case (tl_moves x t choice y)
  then show ?case using T tl_inv_thread [of th T x t choice y] tl_inv_menu [of th T x choice y] by blast
next
  case (tl_spurious x t)
  then have "tl_inv th T x" "t \<noteq> 0" using T by (auto simp: tl_valid_def)
  then show ?case using T tl_base_spurious [of th T x t] tl_spurious by (auto simp: tl_inv_def)
qed

text \<open>C33. Whatever the threads of the four directions and the menu do, step by step, spurious wake-ups included:
  while the light of \<^verbatim>\<open>EAST\<close> is green and the menu is not in the middle of switching it, no thread
  sleeps or goes to sleep there, and the red light is off.\<close>

theorem tl_east_green:
  assumes "tl_valid T" "tl_reach th T x" "fc_light (tl_face x EAST) GREEN" "fc_mutex (tl_face x EAST) \<noteq> Some 0"
    and "t \<in> T" "th t = EAST"
  shows "tl_pc x t \<noteq> Tl_asleep \<and> tl_pc x t \<noteq> Tl_wait \<and> \<not> fc_light (tl_face x EAST) RED"
proof -
  have inv: "tl_inv th T x" by (rule tl_inv_reach [OF assms(1,2)])
  have "\<not> menu_holds EAST (tl_pc x 0)"
    using inv assms(4) tl_mutex_owner(2) [of T x] by (auto simp: tl_inv_def tl_base_def)
  then have "menu_done (tl_pc x 0)" by (cases "tl_pc x 0") auto
  then have "\<not> tl_stops (tl_pc x t)" "\<not> fc_light (tl_face x EAST) RED"
    using inv assms(3,5,6) menu_lights_done [of "tl_pc x 0"] by (auto simp: tl_inv_def)
  then show ?thesis by auto
qed

section \<open>Runs\<close>

text \<open>A schedule: the thread that moves and, for the menu, its choice.\<close>

fun tl_run :: "(tid \<Rightarrow> dirn) \<Rightarrow> (tid \<times> nat) list \<Rightarrow> tr_light \<Rightarrow> tr_light option" where
  "tl_run th [] x = Some x"
| "tl_run th ((t, choice) # es) x = Option.bind (tl_step th choice t (tl_pc x t) x) (tl_run th es)"

lemma tl_run_reach: "tl_reach th T x \<Longrightarrow> fst ` set es \<subseteq> insert 0 T \<Longrightarrow> tl_run th es x = Some y \<Longrightarrow> tl_reach th T y"
proof (induction es arbitrary: x)
  case (Cons e es)
  obtain t choice where e: "e = (t, choice)" by (cases e)
  with Cons.prems(3) obtain z where z: "tl_step th choice t (tl_pc x t) x = Some z" "tl_run th es z = Some y"
    by (auto simp: bind_eq_Some_conv)
  have "tl_reach th T z" by (rule tl_moves [OF Cons.prems(1) _ z(1)]) (use Cons.prems(2) e in auto)
  then show ?case using Cons.IH Cons.prems(2) z(2) by simp
qed simp

lemma tl_run_shows:
  assumes "map_option view (tl_run th es tl_main) = Some v" "fst ` set es \<subseteq> insert 0 T"
  obtains x where "tl_reach th T x" "view x = v"
proof -
  obtain x where x: "tl_run th es tl_main = Some x" "view x = v" using assms(1) unfolding map_option_eq_Some by blast
  show thesis by (rule that [OF tl_run_reach [OF tl_start assms(2) x(1)] x(2)])
qed

text \<open>The menu alone does what \<^verbatim>\<open>tr_light_set_status\<close> says: one light is on.\<close>

lemma set_status_one_light: "fc_light (fst (tr_light_set_status col True face)) = (\<lambda>c. c = col)"
proof
  fix c
  show "fc_light (fst (tr_light_set_status col True face)) c = (c = col)"
    by (cases col; cases c) (simp_all add: tr_light_set_status_def colours_def set_colour_def split_beta)
qed

lemma menu_sets_status:
  assumes "tl_pc x 0 = Menu_set d col 0"
  shows "\<exists>y. tl_run th (replicate (if col = GREEN then 4 else 3) (0, n)) x = Some y \<and> tl_pc y 0 = Menu_set d col 3 \<and>
    tl_face y d = fst (tr_light_set_status col True (tl_face x d))"
  using assms
  by (cases col) (simp_all add: eval_nat_numeral tr_light_set_status_def colours_def split_beta Let_def tl_wake_def)

text \<open>\<open>menu_run n\<close>: the menu takes choice \<open>n\<close> and the whole switch.\<close>

definition menu_run :: "nat \<Rightarrow> (tid \<times> nat) list" where
  "menu_run n = replicate (if n mod 3 = 0 then 8 else 7) (0, n)"

definition tl_at :: "dirn \<Rightarrow> tr_light \<Rightarrow> tl_pc \<times> tl_pc \<times> bool list \<times> bool" where
  "tl_at d x = (tl_pc x 0, tl_pc x 1, map (fc_light (tl_face x d)) colours,
     list_all (\<lambda>m. fc_mutex (tl_face x m) = None) [EAST, WEST, NORTH, SOUTH])"

theorem tl_east_green_witness:
  "\<exists>x. tl_reach (\<lambda>_. EAST) {1} x \<and> fc_light (tl_face x EAST) GREEN \<and> fc_mutex (tl_face x EAST) = None \<and>
     tl_pc x 1 = Tl_woken \<and> tl_pc x 1 \<noteq> Tl_asleep \<and> tl_pc x 1 \<noteq> Tl_wait \<and> \<not> fc_light (tl_face x EAST) RED"
proof -
  let ?es = "menu_run 1 @ replicate 5 (1, 0) @ menu_run 3"
  have "map_option (tl_at EAST) (tl_run (\<lambda>_. EAST) ?es tl_main) = Some (Menu, Tl_woken, [False, False, True], True)" by code_simp
  moreover have "fst ` set ?es \<subseteq> insert 0 {1}" by (auto simp: menu_run_def)
  ultimately obtain x where x: "tl_reach (\<lambda>_. EAST) {1} x" "tl_at EAST x = (Menu, Tl_woken, [False, False, True], True)"
    by (rule tl_run_shows)
  then have v: "fc_light (tl_face x EAST) GREEN" "fc_mutex (tl_face x EAST) = None" "tl_pc x 1 = Tl_woken"
    by (auto simp: tl_at_def colours_def)
  have "tl_valid {1}" by (simp add: tl_valid_def)
  from tl_east_green [OF this x(1) v(1), of 1] v x(1) show ?thesis by auto
qed

text \<open>In another direction the test of a thread and the switch of the light are under different mutexes: a
  thread that has found the light of \<^verbatim>\<open>WEST\<close> red goes to sleep after the menu has switched it to green
  and sent its broadcast. In any direction, a switch from red to yellow ends the condition to wait without
  a broadcast.\<close>

theorem tl_lost_wakeups:
  "(\<exists>x. tl_reach (\<lambda>_. WEST) {1} x \<and> tl_pc x 0 = Menu \<and> tl_pc x 1 = Tl_asleep \<and> map (fc_light (tl_face x WEST)) colours = [False, False, True] \<and>
     map (\<lambda>m. fc_mutex (tl_face x m)) [EAST, WEST, NORTH, SOUTH] = [None, None, None, None]) \<and>
   (\<exists>x. tl_reach (\<lambda>_. EAST) {1} x \<and> tl_pc x 0 = Menu \<and> tl_pc x 1 = Tl_asleep \<and> map (fc_light (tl_face x EAST)) colours = [False, True, False] \<and>
     map (\<lambda>m. fc_mutex (tl_face x m)) [EAST, WEST, NORTH, SOUTH] = [None, None, None, None])"
proof -
  let ?ws = "menu_run 4 @ replicate 3 (1, 0) @ menu_run 6 @ replicate 2 (1, 0)" and ?es = "menu_run 1 @ replicate 5 (1, 0) @ menu_run 2"
  have "map_option (tl_at WEST) (tl_run (\<lambda>_. WEST) ?ws tl_main) = Some (Menu, Tl_asleep, [False, False, True], True)" by code_simp
  moreover have "fst ` set ?ws \<subseteq> insert 0 {1}" by (auto simp: menu_run_def)
  ultimately obtain w where w: "tl_reach (\<lambda>_. WEST) {1} w" "tl_at WEST w = (Menu, Tl_asleep, [False, False, True], True)"
    by (rule tl_run_shows)
  have "map_option (tl_at EAST) (tl_run (\<lambda>_. EAST) ?es tl_main) = Some (Menu, Tl_asleep, [False, True, False], True)" by code_simp
  moreover have "fst ` set ?es \<subseteq> insert 0 {1}" by (auto simp: menu_run_def)
  ultimately obtain x where x: "tl_reach (\<lambda>_. EAST) {1} x" "tl_at EAST x = (Menu, Tl_asleep, [False, True, False], True)"
    by (rule tl_run_shows)
  show ?thesis
  proof
    show "\<exists>x. tl_reach (\<lambda>_. WEST) {1} x \<and> tl_pc x 0 = Menu \<and> tl_pc x 1 = Tl_asleep \<and>
      map (fc_light (tl_face x WEST)) colours = [False, False, True] \<and>
      map (\<lambda>m. fc_mutex (tl_face x m)) [EAST, WEST, NORTH, SOUTH] = [None, None, None, None]"
      using w by (intro exI [of _ w]) (simp add: tl_at_def)
    show "\<exists>x. tl_reach (\<lambda>_. EAST) {1} x \<and> tl_pc x 0 = Menu \<and> tl_pc x 1 = Tl_asleep \<and>
      map (fc_light (tl_face x EAST)) colours = [False, True, False] \<and>
      map (\<lambda>m. fc_mutex (tl_face x m)) [EAST, WEST, NORTH, SOUTH] = [None, None, None, None]"
      using x by (intro exI [of _ x]) (simp add: tl_at_def)
  qed
qed

end
