(* ===== verification/Bridge.thy ===== *)
theory Bridge
  imports RwMonitor
begin

text \<open>
  The bridge of \<^verbatim>\<open>rw_locks/monitor/bridge.c\<close>: vehicles from the left and from the right cross a bridge
  under the read-write lock of \<open>RwMonitor\<close>, as its readers and its writers, and count themselves in two
  integers under a mutex of their own. The lock is the configuration \<open>br_monitor\<close>, whose executions
  \<open>RwMonitor\<close> speaks of; between its calls a vehicle makes steps of its own, one for each access to the
  mutex or the counters.
\<close>

section \<open>The code\<close>

datatype vehicle_type = LR | RL

text \<open>The points of \<^verbatim>\<open>ArriveBridge\<close>, \<^verbatim>\<open>bridge_access\<close> and \<^verbatim>\<open>ExitBridge\<close>. At \<open>B_arrive\<close> and
  \<open>B_exit_release\<close> the vehicle calls the lock, or is inside the call.\<close>

datatype br_pc =
    B_arrive | B_arrive_lock | B_arrive_count | B_arrive_unlock
  | B_access_lock | B_access_check | B_access_unlock
  | B_exit_lock | B_exit_release | B_exit_count | B_exit_unlock

record bridge =
  br_monitor :: "(rw_mon, rw_held, rw_wait, rwm_cv) config"
  br_check_mutex :: "tid option"
  br_n_LR :: int
  br_n_RL :: int
  br_pc :: "tid \<Rightarrow> br_pc"
  br_failed :: bool

definition br_goto :: "tid \<Rightarrow> br_pc \<Rightarrow> bridge \<Rightarrow> bridge" where
  "br_goto t l x = x\<lparr>br_pc := (br_pc x)(t := l)\<rparr>"

definition br_lock :: "tid \<Rightarrow> br_pc \<Rightarrow> bridge \<Rightarrow> bridge option" where
  "br_lock t l x = (if br_check_mutex x = None then Some (br_goto t l (x\<lparr>br_check_mutex := Some t\<rparr>)) else None)"

definition br_unlock :: "tid \<Rightarrow> br_pc \<Rightarrow> bridge \<Rightarrow> bridge" where
  "br_unlock t l x = br_goto t l (x\<lparr>br_check_mutex := None\<rparr>)"

definition br_count :: "vehicle_type \<Rightarrow> int \<Rightarrow> bridge \<Rightarrow> bridge" where
  "br_count v d x = (case v of LR \<Rightarrow> x\<lparr>br_n_LR := br_n_LR x + d\<rparr> | RL \<Rightarrow> x\<lparr>br_n_RL := br_n_RL x + d\<rparr>)"

text \<open>The assertions of \<^verbatim>\<open>bridge_access\<close>.\<close>

definition bridge_ok :: "bridge \<Rightarrow> bool" where
  "bridge_ok x \<longleftrightarrow>
     (br_n_LR x \<ge> 0 \<and> br_n_RL x \<ge> 0) \<and>
     (br_n_LR x = 0 \<and> br_n_RL x \<le> uint (rwm_n_max_writers (shared (br_monitor x))) \<or>
      br_n_LR x \<le> uint (rwm_n_max_readers (shared (br_monitor x))) \<and> br_n_RL x = 0)"

fun br_local :: "vehicle_type \<Rightarrow> tid \<Rightarrow> br_pc \<Rightarrow> bridge \<Rightarrow> bridge option" where
  "br_local v t B_arrive_lock x = br_lock t B_arrive_count x"
| "br_local v t B_arrive_count x = Some (br_goto t B_arrive_unlock (br_count v 1 x))"
| "br_local v t B_arrive_unlock x = Some (br_unlock t B_access_lock x)"
| "br_local v t B_access_lock x = br_lock t B_access_check x"
| "br_local v t B_access_check x = Some (if bridge_ok x then br_goto t B_access_unlock x else x\<lparr>br_failed := True\<rparr>)"
| "br_local v t B_access_unlock x = Some (br_unlock t B_exit_lock x)"
| "br_local v t B_exit_lock x = br_lock t B_exit_release x"
| "br_local v t B_exit_count x = Some (br_goto t B_exit_unlock (br_count v (- 1) x))"
| "br_local v t B_exit_unlock x = Some (br_unlock t B_arrive x)"
| "br_local v t B_arrive x = None"
| "br_local v t B_exit_release x = None"

fun br_call :: "vehicle_type \<Rightarrow> br_pc \<Rightarrow> rw_op option" where
  "br_call LR B_arrive = Some Rd_lock"
| "br_call RL B_arrive = Some Wr_lock"
| "br_call v B_exit_release = Some Rw_unlock"
| "br_call v _ = None"

fun br_after :: "br_pc \<Rightarrow> rwm_sect \<Rightarrow> br_pc" where
  "br_after B_arrive (Unlocked s r ss) = B_arrive_lock"
| "br_after B_exit_release (Unlocked s r ss) = B_exit_count"
| "br_after l _ = l"

definition br_ended :: "bridge \<Rightarrow> bool" where
  "br_ended x \<longleftrightarrow> br_failed x \<or> aborted (br_monitor x)"

definition br_section :: "tid \<Rightarrow> rwm_sect \<Rightarrow> (rw_mon, rw_held, rw_wait, rwm_cv) config \<Rightarrow> bridge \<Rightarrow> bridge" where
  "br_section t sec d x = br_goto t (br_after (br_pc x t) sec) (x\<lparr>br_monitor := d\<rparr>)"

text \<open>A step of the vehicle \<open>t\<close>, whose direction is \<open>v t\<close>; the rules \<open>br_resumes\<close> and \<open>br_wakes\<close> are the
  return from a wait inside the lock and a spurious wake-up.\<close>

inductive br_step :: "(tid \<Rightarrow> vehicle_type) \<Rightarrow> tid set \<Rightarrow> tid \<Rightarrow> bridge \<Rightarrow> bridge \<Rightarrow> bool" for v T where
  br_calls: "\<not> br_ended x \<Longrightarrow> t \<in> T \<Longrightarrow> status (br_monitor x) t = Running \<Longrightarrow> br_call (v t) (br_pc x t) = Some op \<Longrightarrow>
    sec = rwm_enter t op (shared (br_monitor x)) \<Longrightarrow> finish (rwm_obj 1) t sec (br_monitor x) d \<Longrightarrow>
    br_step v T t x (br_section t sec d x)"
| br_resumes: "\<not> br_ended x \<Longrightarrow> t \<in> T \<Longrightarrow> status (br_monitor x) t = Woken k \<Longrightarrow>
    sec = rwm_resume t k (shared (br_monitor x)) \<Longrightarrow> finish (rwm_obj 1) t sec (br_monitor x) d \<Longrightarrow>
    br_step v T t x (br_section t sec d x)"
| br_moves: "\<not> br_ended x \<Longrightarrow> t \<in> T \<Longrightarrow> status (br_monitor x) t = Running \<Longrightarrow> br_local (v t) t (br_pc x t) x = Some y \<Longrightarrow>
    br_step v T t x y"

inductive br_reach :: "(tid \<Rightarrow> vehicle_type) \<Rightarrow> tid set \<Rightarrow> bridge \<Rightarrow> bridge \<Rightarrow> bool" for v T x0 where
  br_starts: "br_reach v T x0 x0"
| br_steps: "br_reach v T x0 x \<Longrightarrow> br_step v T t x y \<Longrightarrow> br_reach v T x0 y"
| br_wakes: "br_reach v T x0 x \<Longrightarrow> \<not> br_ended x \<Longrightarrow> t \<in> T \<Longrightarrow> is_blocked (status (br_monitor x) t) \<Longrightarrow>
    br_reach v T x0 (x\<lparr>br_monitor := (br_monitor x)\<lparr>status := (status (br_monitor x))(t := wake (status (br_monitor x) t))\<rparr>\<rparr>)"

text \<open>The static bridge after \<^verbatim>\<open>rw_lock_init\<close> and \<^verbatim>\<open>rw_lock_set_max_readers_writers\<close>, which
  \<^verbatim>\<open>main\<close> calls with 1 and 1.\<close>

definition bridge_main :: "u16 \<Rightarrow> u16 \<Rightarrow> bridge" where
  "bridge_main mr mw = \<lparr>br_monitor = start (rwm_setup rwm_static mr mw) (0, 0), br_check_mutex = None, br_n_LR = 0, br_n_RL = 0,
     br_pc = (\<lambda>_. B_arrive), br_failed = False\<rparr>"

section \<open>The invariant\<close>

definition crossing :: "vehicle_type \<Rightarrow> rw_held" where
  "crossing v = (case v of LR \<Rightarrow> (1, 0) | RL \<Rightarrow> (0, 1))"

definition arriving :: "vehicle_type \<Rightarrow> rw_wait" where
  "arriving v = (case v of LR \<Rightarrow> Rd_wait | RL \<Rightarrow> Wr_wait)"

fun br_thread :: "vehicle_type \<Rightarrow> br_pc \<Rightarrow> rw_held \<Rightarrow> rw_wait option \<Rightarrow> bool" where
  "br_thread v B_arrive g w \<longleftrightarrow> g = (0, 0) \<and> (w = None \<or> w = Some (arriving v))"
| "br_thread v B_exit_count g w \<longleftrightarrow> g = (0, 0) \<and> w = None"
| "br_thread v B_exit_unlock g w \<longleftrightarrow> g = (0, 0) \<and> w = None"
| "br_thread v _ g w \<longleftrightarrow> g = crossing v \<and> w = None"

fun br_checks :: "br_pc \<Rightarrow> bool" where
  "br_checks B_arrive_count = True" | "br_checks B_arrive_unlock = True" | "br_checks B_access_check = True"
| "br_checks B_access_unlock = True" | "br_checks B_exit_release = True" | "br_checks B_exit_count = True"
| "br_checks B_exit_unlock = True" | "br_checks _ = False"

fun br_counted :: "br_pc \<Rightarrow> bool" where
  "br_counted B_arrive = False" | "br_counted B_arrive_lock = False" | "br_counted B_arrive_count = False"
| "br_counted B_exit_unlock = False" | "br_counted _ = True"

definition br_mutex :: "tid set \<Rightarrow> bridge \<Rightarrow> bool" where
  "br_mutex T x \<longleftrightarrow> (\<forall>t. br_check_mutex x = Some t \<longleftrightarrow> t \<in> T \<and> br_checks (br_pc x t))"

definition br_counts :: "(tid \<Rightarrow> vehicle_type) \<Rightarrow> tid set \<Rightarrow> bridge \<Rightarrow> bool" where
  "br_counts v T x \<longleftrightarrow> br_n_LR x = int (count_threads {t \<in> T. v t = LR} br_counted (br_pc x)) \<and>
     br_n_RL x = int (count_threads {t \<in> T. v t = RL} br_counted (br_pc x))"

definition br_rule :: "u16 \<Rightarrow> u16 \<Rightarrow> bridge \<Rightarrow> bool" where
  "br_rule mr mw x \<longleftrightarrow> br_n_LR x = 0 \<and> br_n_RL x \<le> uint mw \<or> br_n_RL x = 0 \<and> br_n_LR x \<le> uint mr"

definition br_inv :: "(tid \<Rightarrow> vehicle_type) \<Rightarrow> tid set \<Rightarrow> u16 \<Rightarrow> u16 \<Rightarrow> bridge \<Rightarrow> bool" where
  "br_inv v T mr mw x \<longleftrightarrow>
     reach (rwm_obj 1) True T (rwm_setup rwm_static mr mw) (0, 0) (br_monitor x) \<and> \<not> br_failed x \<and>
     (\<forall>t\<in>T. br_thread (v t) (br_pc x t) (ghost (br_monitor x) t) (pending (status (br_monitor x) t))) \<and>
     br_mutex T x \<and> br_counts v T x \<and> br_rule mr mw x"

lemma br_goto_simps [simp]:
  "br_monitor (br_goto t l x) = br_monitor x" "br_check_mutex (br_goto t l x) = br_check_mutex x" "br_n_LR (br_goto t l x) = br_n_LR x"
  "br_n_RL (br_goto t l x) = br_n_RL x" "br_failed (br_goto t l x) = br_failed x" "br_pc (br_goto t l x) = (br_pc x)(t := l)"
  by (simp_all add: br_goto_def)

lemma br_count_simps [simp]:
  "br_monitor (br_count v d x) = br_monitor x" "br_check_mutex (br_count v d x) = br_check_mutex x"
  "br_failed (br_count v d x) = br_failed x" "br_pc (br_count v d x) = br_pc x"
  "br_n_LR (br_count v d x) = (if v = LR then br_n_LR x + d else br_n_LR x)"
  "br_n_RL (br_count v d x) = (if v = RL then br_n_RL x + d else br_n_RL x)"
  by (cases v; simp add: br_count_def)+

lemma br_lib_inv:
  assumes "thread_ids T" "br_inv v T mr mw x"
  shows "rwm_inv T mr mw (shared (br_monitor x)) (ghost (br_monitor x)) (\<lambda>u. pending (status (br_monitor x) u))"
    and "\<not> br_ended x"
proof -
  let ?p = "(1, rwm_static, mr, mw)"
  have v: "rwm_valid ?p T" using assms(1) by (simp add: rwm_valid_def rwm_static_def)
  have "reach (rwm_run_obj ?p) True T (rwm_run_start ?p) (0, 0) (br_monitor x)"
    using assms(2) by (simp add: br_inv_def rwm_run_obj_def rwm_run_start_def)
  from rwm.monitor_inv [OF v this] rwm.monitor_not_aborted [OF v this]
  show "rwm_inv T mr mw (shared (br_monitor x)) (ghost (br_monitor x)) (\<lambda>u. pending (status (br_monitor x) u))"
    "\<not> br_ended x" using assms(2) by (simp_all add: rwm_run_inv_def br_ended_def br_inv_def)
qed

lemma br_not_aborted:
  assumes "thread_ids T" "reach (rwm_obj 1) True T (rwm_setup rwm_static mr mw) (0, 0) c"
  shows "\<not> aborted c"
proof -
  let ?p = "(1, rwm_static, mr, mw)"
  have "rwm_valid ?p T" using assms(1) by (simp add: rwm_valid_def rwm_static_def)
  then show ?thesis using rwm.monitor_not_aborted [of ?p T True c] assms(2) by (simp add: rwm_run_obj_def rwm_run_start_def)
qed

text \<open>The lock grants or makes wait; an unlock returns.\<close>

lemma rwm_outcomes:
  "rwm_rd_lock s = sec \<Longrightarrow> sec \<noteq> Aborted \<Longrightarrow> (\<exists>s ss. sec = Unlocked s Rd_granted ss) \<or> (\<exists>s cv ss. sec = CvWait s cv Rd_wait ss)"
  "rwm_rd_lock_resume s = sec \<Longrightarrow> sec \<noteq> Aborted \<Longrightarrow> (\<exists>s ss. sec = Unlocked s Rd_granted ss) \<or> (\<exists>s cv ss. sec = CvWait s cv Rd_wait ss)"
  "rwm_wr_lock s = sec \<Longrightarrow> sec \<noteq> Aborted \<Longrightarrow> (\<exists>s ss. sec = Unlocked s Wr_granted ss) \<or> (\<exists>s cv ss. sec = CvWait s cv Wr_wait ss)"
  "rwm_wr_lock_resume s = sec \<Longrightarrow> sec \<noteq> Aborted \<Longrightarrow> (\<exists>s ss. sec = Unlocked s Wr_granted ss) \<or> (\<exists>s cv ss. sec = CvWait s cv Wr_wait ss)"
  "rwm_unlock s = sec \<Longrightarrow> sec \<noteq> Aborted \<Longrightarrow> \<exists>s ss. sec = Unlocked s Rw_released ss"
  by (auto simp: sync_defs Let_def split: if_splits)


section \<open>Steps keep the invariant\<close>

lemma br_owner: "br_mutex T x \<Longrightarrow> u \<in> T \<Longrightarrow> br_checks (br_pc x u) \<Longrightarrow> br_check_mutex x = Some u"
  by (simp add: br_mutex_def)

lemma br_mutex_move:
  assumes "br_mutex T x" "t \<in> T" "br_pc y = (br_pc x)(t := l)"
    and "br_check_mutex y = (if br_checks l then Some t else if br_checks (br_pc x t) then None else br_check_mutex x)"
    and "br_checks l \<Longrightarrow> br_check_mutex x = None \<or> br_check_mutex x = Some t"
  shows "br_mutex T y"
proof (cases "br_checks l \<or> br_checks (br_pc x t)")
  case True
  have own: "br_check_mutex x = Some u" if "u \<in> T" "br_checks (br_pc x u)" for u using assms(1) that by (simp add: br_mutex_def)
  have "br_check_mutex x = None \<or> br_check_mutex x = Some t" using True assms(2,5) own by auto
  then have other: "u = t" if "u \<in> T" "br_checks (br_pc x u)" for u using own [OF that] by auto
  have "u \<in> T \<and> br_checks (br_pc y u) \<longleftrightarrow> u = t \<and> br_checks l" for u
    using other [of u] assms(2,3) by (cases "u = t") auto
  moreover have "br_check_mutex y = (if br_checks l then Some t else None)" using assms(4) True by auto
  ultimately show ?thesis unfolding br_mutex_def by auto
next
  case False
  then have "br_checks (br_pc y u) = br_checks (br_pc x u)" "br_check_mutex y = br_check_mutex x" for u using assms(3,4) by simp_all
  then show ?thesis using assms(1) unfolding br_mutex_def by simp
qed

lemma br_count_move:
  assumes "finite T" "t \<in> T"
  shows "int (count_threads {u \<in> T. v u = k} P (f(t := l))) = int (count_threads {u \<in> T. v u = k} P f) +
    (if v t \<noteq> k \<or> P l = P (f t) then 0 else if P l then 1 else - 1)"
proof -
  let ?E = "{u \<in> T. v u = k}"
  have fin: "finite ?E" using assms(1) by simp
  consider "t \<notin> ?E" | "t \<in> ?E" "P l = P (f t)" | "t \<in> ?E" "P l" "\<not> P (f t)" | "t \<in> ?E" "\<not> P l" "P (f t)" by blast
  then show ?thesis
  proof cases
    case 1
    then show ?thesis using assms(2) by (simp add: count_threads_outside)
  next
    case 2
    then show ?thesis by (simp add: count_threads_keep)
  next
    case 3
    then show ?thesis using count_threads_add [OF fin 3(1), of P f l] by simp
  next
    case 4
    then show ?thesis using count_threads_del [OF fin 4(1), of P f l] by simp
  qed
qed

lemma br_inv_move:
  assumes inv: "br_inv v T mr mw x" and T: "finite T" "t \<in> T" and pc: "br_pc y = (br_pc x)(t := l)" and ok: "\<not> br_failed y"
    and lib: "reach (rwm_obj 1) True T (rwm_setup rwm_static mr mw) (0, 0) (br_monitor y)"
    and others: "\<And>u. u \<noteq> t \<Longrightarrow> ghost (br_monitor y) u = ghost (br_monitor x) u \<and>
      pending (status (br_monitor y) u) = pending (status (br_monitor x) u)"
    and self: "br_thread (v t) l (ghost (br_monitor y) t) (pending (status (br_monitor y) t))"
    and mutex: "br_check_mutex y = (if br_checks l then Some t else if br_checks (br_pc x t) then None else br_check_mutex x)"
      "br_checks l \<Longrightarrow> br_check_mutex x = None \<or> br_check_mutex x = Some t"
    and counts: "br_n_LR y = br_n_LR x + (if v t \<noteq> LR \<or> br_counted l = br_counted (br_pc x t) then 0 else if br_counted l then 1 else - 1)"
      "br_n_RL y = br_n_RL x + (if v t \<noteq> RL \<or> br_counted l = br_counted (br_pc x t) then 0 else if br_counted l then 1 else - 1)"
    and rule: "br_rule mr mw y"
  shows "br_inv v T mr mw y"
proof -
  have "br_mutex T y" using br_mutex_move [OF _ T(2) pc mutex] inv by (simp add: br_inv_def)
  moreover have "br_counts v T y"
    using inv counts br_count_move [OF T, of v _ br_counted "br_pc x" l] unfolding br_counts_def br_inv_def pc by simp
  moreover have "br_thread (v u) (br_pc y u) (ghost (br_monitor y) u) (pending (status (br_monitor y) u))" if "u \<in> T" for u
    using inv others [of u] self that pc by (cases "u = t") (auto simp: br_inv_def)
  ultimately show ?thesis using lib ok rule by (auto simp: br_inv_def)
qed

text \<open>A vehicle that counts itself holds the lock and the mutex, and so does every vehicle that is counted hold the
  lock: the rule holds after it.\<close>

lemma br_rule_count:
  assumes "thread_ids T" and inv: "br_inv v T mr mw x" and t: "t \<in> T" "br_pc x t = B_arrive_count"
  shows "br_rule mr mw (br_count (v t) 1 x)"
proof -
  let ?g = "ghost (br_monitor x)"
  have fin: "finite T" using assms(1) by auto
  have thread: "br_thread (v u) (br_pc x u) (?g u) (pending (status (br_monitor x) u))" if "u \<in> T" for u
    using inv that by (simp add: br_inv_def)
  have mutex: "br_mutex T x" using inv by (simp add: br_inv_def)
  have alone: "u = t" if "u \<in> T" "br_checks (br_pc x u)" for u
    using br_owner [OF mutex that] br_owner [OF mutex t(1)] t(2) by simp
  have nc: "br_pc x u \<noteq> B_exit_count" if "u \<in> T" for u
  proof
    assume c: "br_pc x u = B_exit_count"
    then have "u = t" using alone [OF that] by simp
    then show False using c t(2) by simp
  qed
  have on: "?g u = crossing (v u)" if "u \<in> T" "br_counted (br_pc x u) \<or> u = t" for u
    using that(2) thread [OF that(1)] nc [OF that(1)] t(2) by (cases "br_pc x u") simp_all
  have le: "count_threads {u \<in> T. v u = LR} br_counted ((br_pc x)(t := B_arrive_unlock)) \<le> rd_holds T ?g"
    "count_threads {u \<in> T. v u = RL} br_counted ((br_pc x)(t := B_arrive_unlock)) \<le> wr_holds T ?g"
  proof -
    have card_le: "card {u \<in> T. v u = k \<and> (br_counted (br_pc x u) \<or> u = t)} \<le> sum_threads T sel ?g"
      if sel1: "\<And>u. v u = k \<Longrightarrow> sel (crossing (v u)) = 1" for k and sel :: "rw_held \<Rightarrow> nat"
    proof -
      let ?A = "{u \<in> T. v u = k \<and> (br_counted (br_pc x u) \<or> u = t)}"
      have "sel (?g u) = 1" if "u \<in> ?A" for u
      proof -
        have "?g u = crossing (v u)" using on [of u] that by auto
        then show ?thesis using sel1 [of u] that by simp
      qed
      then have "(\<Sum>u\<in>?A. sel (?g u)) = (\<Sum>u\<in>?A. 1)" by (rule sum.cong [OF refl])
      then have "card ?A = (\<Sum>u\<in>?A. sel (?g u))" by simp
      also have "\<dots> \<le> (\<Sum>u\<in>T. sel (?g u))" using fin by (intro sum_mono2) auto
      finally show ?thesis by (simp add: sum_threads_def)
    qed
    have eq: "count_threads {u \<in> T. v u = k} br_counted ((br_pc x)(t := B_arrive_unlock)) =
      card {u \<in> T. v u = k \<and> (br_counted (br_pc x u) \<or> u = t)}" for k
      unfolding count_threads_def by (rule arg_cong [of _ _ card]) auto
    show "count_threads {u \<in> T. v u = LR} br_counted ((br_pc x)(t := B_arrive_unlock)) \<le> rd_holds T ?g"
      unfolding eq rd_holds_def by (rule card_le) (simp add: crossing_def)
    show "count_threads {u \<in> T. v u = RL} br_counted ((br_pc x)(t := B_arrive_unlock)) \<le> wr_holds T ?g"
      unfolding eq wr_holds_def by (rule card_le) (simp add: crossing_def)
  qed
  have excl: "(rd_holds T ?g = 0 \<or> wr_holds T ?g = 0) \<and> rd_holds T ?g \<le> unat mr \<and> wr_holds T ?g \<le> unat mw"
    using br_lib_inv(1) [OF assms(1) inv] by (auto simp: rwm_inv_def rwm_mode_def)
  define a where "a = count_threads {u \<in> T. v u = LR} br_counted ((br_pc x)(t := B_arrive_unlock))"
  define b where "b = count_threads {u \<in> T. v u = RL} br_counted ((br_pc x)(t := B_arrive_unlock))"
  have counts: "br_counts v T x" using inv by (simp add: br_inv_def)
  have "int a = br_n_LR x + (if v t = LR then 1 else 0)" "int b = br_n_RL x + (if v t = RL then 1 else 0)"
    using counts br_count_move [OF fin t(1), of v LR br_counted "br_pc x" B_arrive_unlock]
      br_count_move [OF fin t(1), of v RL br_counted "br_pc x" B_arrive_unlock] t(2)
    unfolding a_def b_def br_counts_def by (simp_all split: if_splits)
  then have n: "br_n_LR (br_count (v t) 1 x) = int a" "br_n_RL (br_count (v t) 1 x) = int b" by (simp_all split: if_splits)
  have "a = 0 \<and> b \<le> unat mw \<or> b = 0 \<and> a \<le> unat mr" using le [folded a_def b_def] excl by linarith
  then show ?thesis unfolding br_rule_def n uint_nat by (simp only: of_nat_le_iff of_nat_eq_0_iff)
qed

lemma br_rule_uncount: "br_rule mr mw x \<Longrightarrow> br_counts v T x \<Longrightarrow> br_rule mr mw (br_count k (- 1) x) \<or>
    (k = LR \<and> br_n_LR x = 0 \<or> k = RL \<and> br_n_RL x = 0)"
  by (cases k) (auto simp: br_rule_def br_counts_def)


lemma br_same_lib:
  assumes "br_inv v T mr mw x" "br_monitor y = br_monitor x"
  shows "reach (rwm_obj 1) True T (rwm_setup rwm_static mr mw) (0, 0) (br_monitor y)"
    and "ghost (br_monitor y) u = ghost (br_monitor x) u \<and> pending (status (br_monitor y) u) = pending (status (br_monitor x) u)"
  using assms by (simp_all add: br_inv_def)

text \<open>A step outside the lock.\<close>

lemma bridge_ok_rule:
  assumes "thread_ids T" "br_inv v T mr mw x"
  shows "bridge_ok x"
proof -
  have "rwm_n_max_readers (shared (br_monitor x)) = mr" "rwm_n_max_writers (shared (br_monitor x)) = mw"
    using br_lib_inv(1) [OF assms] by (auto simp: rwm_inv_def)
  then show ?thesis using assms(2) by (auto simp: bridge_ok_def br_inv_def br_rule_def br_counts_def)
qed

lemma br_local_pc:
  assumes "br_local v t (br_pc x t) x = Some y" "bridge_ok x"
  shows "br_monitor y = br_monitor x" "br_pc y = (br_pc x)(t := br_pc y t)" "br_failed y = br_failed x"
    and "br_thread v (br_pc x t) g w \<Longrightarrow> br_thread v (br_pc y t) g w"
    and "br_n_LR y = br_n_LR x + (if v \<noteq> LR \<or> br_counted (br_pc y t) = br_counted (br_pc x t) then 0 else if br_counted (br_pc y t) then 1 else - 1)"
    and "br_n_RL y = br_n_RL x + (if v \<noteq> RL \<or> br_counted (br_pc y t) = br_counted (br_pc x t) then 0 else if br_counted (br_pc y t) then 1 else - 1)"
    and "br_checks (br_pc y t) \<Longrightarrow> br_checks (br_pc x t) \<or> br_check_mutex x = None"
    and "br_check_mutex y = (if br_checks (br_pc y t) then (if br_checks (br_pc x t) then br_check_mutex x else Some t)
      else if br_checks (br_pc x t) then None else br_check_mutex x)"
  using assms
  by (cases "br_pc x t"; auto simp: br_lock_def br_unlock_def split: if_splits; fail)+

lemma br_inv_local:
  assumes T: "thread_ids T" "t \<in> T" and inv: "br_inv v T mr mw x" and y: "br_local (v t) t (br_pc x t) x = Some y"
  shows "br_inv v T mr mw y"
proof -
  note ok = bridge_ok_rule [OF T(1) inv]
  note step = br_local_pc [OF y ok]
  have fin: "finite T" using T(1) by auto
  have mutex: "br_mutex T x" and counts: "br_counts v T x" and rule: "br_rule mr mw x"
    using inv by (auto simp: br_inv_def)
  note own = br_owner [OF mutex T(2)]
  define l where "l = br_pc y t"
  note step = step [folded l_def]
  have thread: "br_thread (v t) (br_pc x t) (ghost (br_monitor x) t) (pending (status (br_monitor x) t))"
    using inv T(2) by (simp add: br_inv_def)
  have "br_rule mr mw y"
  proof (cases "br_pc x t = B_arrive_count \<or> br_pc x t = B_exit_count")
    case True
    then show ?thesis
    proof
      assume c: "br_pc x t = B_arrive_count"
      then show ?thesis using br_rule_count [OF T(1) inv T(2) c] y by (auto simp: br_rule_def)
    next
      assume c: "br_pc x t = B_exit_count"
      have mem: "t \<in> {u \<in> T. v u = v t}" using T(2) by simp
      have "0 < count_threads {u \<in> T. v u = v t} br_counted (br_pc x)"
        using count_threads_mem [OF _ mem, of br_counted "br_pc x"] fin c by simp
      then have "\<not> (v t = LR \<and> br_n_LR x = 0 \<or> v t = RL \<and> br_n_RL x = 0)" using counts by (auto simp: br_counts_def)
      then show ?thesis using br_rule_uncount [OF rule counts, of "v t"] y c by (auto simp: br_rule_def)
    qed
  next
    case False
    then have "br_n_LR y = br_n_LR x" "br_n_RL y = br_n_RL x"
      using y ok by (cases "br_pc x t"; auto simp: br_lock_def br_unlock_def split: if_splits)+
    then show ?thesis using rule by (simp add: br_rule_def)
  qed
  then show ?thesis
    using step inv thread own by (intro br_inv_move [OF inv fin T(2) step(2)]) (auto simp: br_inv_def)
qed

text \<open>A section of the lock.\<close>

lemma br_finish_others:
  assumes "finish ob t sec c d" "u \<noteq> t"
  shows "ghost d u = ghost c u \<and> pending (status d u) = pending (status c u)"
  using assms by (cases sec) (auto simp: wakes_pending)

lemma br_inv_section:
  assumes T: "thread_ids T" "t \<in> T" and inv: "br_inv v T mr mw x"
    and lib: "step (rwm_obj 1) True T (br_monitor x) d" and fin: "finish (rwm_obj 1) t sec (br_monitor x) d"
    and sec: "sec \<noteq> Aborted \<Longrightarrow> br_pc x t = B_arrive \<and> (v t = LR \<and> ((\<exists>s ss. sec = Unlocked s Rd_granted ss) \<or> (\<exists>s cv ss. sec = CvWait s cv Rd_wait ss)) \<or>
        v t = RL \<and> ((\<exists>s ss. sec = Unlocked s Wr_granted ss) \<or> (\<exists>s cv ss. sec = CvWait s cv Wr_wait ss))) \<or>
      br_pc x t = B_exit_release \<and> (\<exists>s ss. sec = Unlocked s Rw_released ss)"
  shows "br_inv v T mr mw (br_section t sec d x)"
proof -
  have reach: "reach (rwm_obj 1) True T (rwm_setup rwm_static mr mw) (0, 0) d"
    using inv lib by (auto simp: br_inv_def intro: reach_step)
  have "sec \<noteq> Aborted" using br_not_aborted [OF T(1) reach] fin by auto
  note sec = sec [OF this]
  let ?l = "br_after (br_pc x t) sec"
  have th: "br_thread (v t) (br_pc x t) (ghost (br_monitor x) t) (pending (status (br_monitor x) t))"
    using inv T(2) by (simp add: br_inv_def)
  have self: "br_thread (v t) ?l (ghost d t) (pending (status d t))"
    using sec th fin by (auto simp: crossing_def arriving_def wakes_pending split: vehicle_type.splits)
  have pc: "br_checks ?l = br_checks (br_pc x t)" "br_counted ?l = br_counted (br_pc x t)" using sec by auto
  have mutex: "br_mutex T x" and rule: "br_rule mr mw x" and ok: "\<not> br_failed x" using inv by (auto simp: br_inv_def)
  have fin': "finite T" using T(1) by auto
  show ?thesis
    unfolding br_section_def
    by (rule br_inv_move [OF inv fin' T(2), where l = ?l])
      (use reach self pc rule ok br_owner [OF mutex T(2)] br_finish_others [OF fin] in \<open>auto simp: br_rule_def\<close>)
qed


lemma br_inv_call:
  assumes T: "thread_ids T" "t \<in> T" and inv: "br_inv v T mr mw x" and run: "status (br_monitor x) t = Running"
    and op: "br_call (v t) (br_pc x t) = Some op" and sec: "sec = rwm_enter t op (shared (br_monitor x))"
    and fin: "finish (rwm_obj 1) t sec (br_monitor x) d"
  shows "br_inv v T mr mw (br_section t sec d x)"
proof -
  have th: "br_thread (v t) (br_pc x t) (ghost (br_monitor x) t) (pending (status (br_monitor x) t))"
    using inv T(2) by (simp add: br_inv_def)
  have "may_call (rwm_obj 1) (ghost (br_monitor x) t) op"
    using th op by (cases "br_pc x t"; cases "v t") (auto simp: crossing_def held_locks_def)
  then have "step (rwm_obj 1) True T (br_monitor x) d"
    using br_lib_inv(2) [OF T(1) inv] T(2) run sec fin by (intro step.call [where t = t and op = op]) (simp_all add: br_ended_def)
  moreover have "br_pc x t = B_arrive \<and> (v t = LR \<and> ((\<exists>s ss. sec = Unlocked s Rd_granted ss) \<or> (\<exists>s cv ss. sec = CvWait s cv Rd_wait ss)) \<or>
        v t = RL \<and> ((\<exists>s ss. sec = Unlocked s Wr_granted ss) \<or> (\<exists>s cv ss. sec = CvWait s cv Wr_wait ss))) \<or>
      br_pc x t = B_exit_release \<and> (\<exists>s ss. sec = Unlocked s Rw_released ss)" if "sec \<noteq> Aborted"
    using op sec rwm_outcomes(1,3,5) [OF _ that, of "shared (br_monitor x)"] by (cases "br_pc x t"; cases "v t") auto
  ultimately show ?thesis by (intro br_inv_section [OF T inv _ fin])
qed

lemma br_inv_resume:
  assumes T: "thread_ids T" "t \<in> T" and inv: "br_inv v T mr mw x" and run: "status (br_monitor x) t = Woken k"
    and sec: "sec = rwm_resume t k (shared (br_monitor x))" and fin: "finish (rwm_obj 1) t sec (br_monitor x) d"
  shows "br_inv v T mr mw (br_section t sec d x)"
proof -
  have "br_thread (v t) (br_pc x t) (ghost (br_monitor x) t) (pending (status (br_monitor x) t))"
    using inv T(2) by (simp add: br_inv_def)
  then have pc: "br_pc x t = B_arrive" "k = arriving (v t)" using run by (cases "br_pc x t"; simp)+
  have "step (rwm_obj 1) True T (br_monitor x) d"
    using br_lib_inv(2) [OF T(1) inv] T(2) run sec fin by (intro step.return_from_wait [where t = t and k = k]) (simp_all add: br_ended_def)
  moreover have "v t = LR \<and> ((\<exists>s ss. sec = Unlocked s Rd_granted ss) \<or> (\<exists>s cv ss. sec = CvWait s cv Rd_wait ss)) \<or>
        v t = RL \<and> ((\<exists>s ss. sec = Unlocked s Wr_granted ss) \<or> (\<exists>s cv ss. sec = CvWait s cv Wr_wait ss))" if "sec \<noteq> Aborted"
    using pc(2) sec rwm_outcomes(2,4) [OF _ that, of "shared (br_monitor x)"] by (cases "v t") (auto simp: arriving_def)
  ultimately show ?thesis using pc(1) by (intro br_inv_section [OF T inv _ fin]) auto
qed

lemma br_goto_same: "br_pc x t = l \<Longrightarrow> br_goto t l x = x"
  by (cases x) (auto simp: br_goto_def fun_upd_idem)

lemma br_inv_wake:
  assumes inv: "br_inv v T mr mw x" and t: "t \<in> T" "is_blocked (status (br_monitor x) t)" and ok: "\<not> br_ended x"
  shows "br_inv v T mr mw (x\<lparr>br_monitor := (br_monitor x)\<lparr>status := (status (br_monitor x))(t := wake (status (br_monitor x) t))\<rparr>\<rparr>)"
proof -
  let ?d = "(br_monitor x)\<lparr>status := (status (br_monitor x))(t := wake (status (br_monitor x) t))\<rparr>"
  have "step (rwm_obj 1) True T (br_monitor x) ?d" using ok t by (intro step.spurious) (auto simp: br_ended_def)
  then have "reach (rwm_obj 1) True T (rwm_setup rwm_static mr mw) (0, 0) ?d"
    using inv by (auto simp: br_inv_def intro: reach_step)
  moreover have "pending (status ?d u) = pending (status (br_monitor x) u)" for u by simp
  moreover have "br_rule mr mw (x\<lparr>br_monitor := ?d\<rparr>) = br_rule mr mw x" by (simp add: br_rule_def)
  ultimately show ?thesis using inv unfolding br_inv_def br_mutex_def br_counts_def by simp
qed

lemma br_inv_start: "thread_ids T \<Longrightarrow> br_inv v T mr mw (bridge_main mr mw)"
  using count_threads_eq_0 [of "{t \<in> T. v t = LR}" br_counted "\<lambda>_. B_arrive"] count_threads_eq_0 [of "{t \<in> T. v t = RL}" br_counted "\<lambda>_. B_arrive"]
    reach_start [of "rwm_obj 1" True T "rwm_setup rwm_static mr mw" "(0, 0)"]
  by (auto simp: br_inv_def bridge_main_def br_mutex_def br_counts_def br_rule_def start_def)

lemma br_inv_reach:
  assumes T: "thread_ids T" and "br_reach v T (bridge_main mr mw) x"
  shows "br_inv v T mr mw x"
  using assms(2)
proof (induction rule: br_reach.induct)
  case br_starts
  show ?case by (rule br_inv_start [OF T])
next
  case (br_steps x t y)
  from br_steps.hyps(2) show ?case
  proof cases
    case (br_calls op sec d)
    then show ?thesis using br_inv_call [OF T _ br_steps.IH] by simp
  next
    case (br_resumes k sec d)
    then show ?thesis using br_inv_resume [OF T _ br_steps.IH] by simp
  next
    case br_moves
    then show ?thesis using br_inv_local [OF T _ br_steps.IH] by simp
  qed
next
  case (br_wakes x t)
  then show ?case using br_inv_wake by blast
qed

section \<open>Properties\<close>

text \<open>C34. On the bridge vehicles go in one direction only, no more than the limit of that direction: in every
  execution of any vehicles, spurious wake-ups included, no assertion of \<^verbatim>\<open>bridge_access\<close> or of the lock
  fails, and the counters say at every moment how many vehicles are on the bridge.\<close>

theorem bridge_one_direction:
  assumes "thread_ids T" "br_reach v T (bridge_main mr mw) x"
  shows "\<not> br_ended x \<and> (br_n_LR x = 0 \<and> br_n_RL x \<le> uint mw \<or> br_n_RL x = 0 \<and> br_n_LR x \<le> uint mr) \<and>
    br_n_LR x = int (card {t \<in> T. v t = LR \<and> br_counted (br_pc x t)}) \<and>
    br_n_RL x = int (card {t \<in> T. v t = RL \<and> br_counted (br_pc x t)})"
proof -
  have inv: "br_inv v T mr mw x" by (rule br_inv_reach [OF assms])
  have "{t \<in> {t \<in> T. v t = k}. br_counted (br_pc x t)} = {t \<in> T. v t = k \<and> br_counted (br_pc x t)}" for k by auto
  then have "br_n_LR x = int (card {t \<in> T. v t = LR \<and> br_counted (br_pc x t)})"
    "br_n_RL x = int (card {t \<in> T. v t = RL \<and> br_counted (br_pc x t)})"
    using inv by (simp_all add: br_inv_def br_counts_def count_threads_def)
  moreover have "br_rule mr mw x" using inv by (simp add: br_inv_def)
  ultimately show ?thesis using br_lib_inv(2) [OF assms(1) inv] unfolding br_rule_def by blast
qed

text \<open>Whoever is not at the lock can move, or waits for the mutex of the counters, whose owner can move.\<close>

lemma br_can_move:
  assumes "\<not> br_ended x" "t \<in> T" "status (br_monitor x) t = Running" "br_checks (br_pc x t) \<or> br_check_mutex x = None"
  shows "\<exists>y. br_step v T t x y"
proof (cases "br_call (v t) (br_pc x t)")
  case (Some op)
  then show ?thesis using br_calls [where v = v, OF assms(1-3) Some refl] finish_some by blast
next
  case None
  then have "\<exists>y. br_local (v t) t (br_pc x t) x = Some y" using assms(4)
    by (cases "br_pc x t"; cases "v t") (auto simp: br_lock_def)
  then show ?thesis using br_moves [where v = v, OF assms(1-3)] by blast
qed

text \<open>The vehicles are not all asleep in the lock: it would be free then, and the lock has woken one.\<close>

lemma br_somebody_awake:
  assumes T: "thread_ids T" "T \<noteq> {}" "mr \<noteq> 0" "mw \<noteq> 0" and inv: "br_inv v T mr mw x"
  shows "\<exists>u\<in>T. status (br_monitor x) u = Running \<or> is_woken (status (br_monitor x) u)"
proof (rule ccontr)
  assume asleep: "\<not> ?thesis"
  have none: "ghost (br_monitor x) u = (0, 0)" if "u \<in> T" for u
  proof -
    have "br_thread (v u) (br_pc x u) (ghost (br_monitor x) u) (pending (status (br_monitor x) u))" using inv that by (simp add: br_inv_def)
    then show ?thesis using asleep that by (cases "br_pc x u") (auto simp: pending_None)
  qed
  let ?p = "(1, rwm_static, mr, mw)"
  have live: "rwm_live ?p T" using T by (simp add: rwm_live_def rwm_valid_def rwm_static_def)
  have "reach (rwm_run_obj ?p) True T (rwm_run_start ?p) (0, 0) (br_monitor x)"
    using inv by (simp add: br_inv_def rwm_run_obj_def rwm_run_start_def)
  from rwm_live.reachable_inv [OF live this]
  have gate: "rwm_gate T (shared (br_monitor x)) (status (br_monitor x))" by simp
  have "rd_holds T (ghost (br_monitor x)) = 0" "wr_holds T (ghost (br_monitor x)) = 0"
    using none T(1) by (auto simp: rd_holds_0 wr_holds_0)
  then have "rwm_free (shared (br_monitor x))"
    using br_lib_inv(1) [OF T(1) inv] by (auto simp: rwm_inv_def rwm_mode_def rwm_free_def)
  then have handed: "rwm_handed (shared (br_monitor x)) (status (br_monitor x))" and wa: "waits_as T rwm_cv_of (status (br_monitor x))"
    using gate by (auto simp: rwm_gate_def)
  obtain t where t: "t \<in> T" using T(2) by blast
  then obtain cv k where bl: "status (br_monitor x) t = Blocked cv k" using asleep by (cases "status (br_monitor x) t") auto
  have "blocked_on (rwm_cv_of k) (status (br_monitor x) t)" using waits_as_at [OF wa bl] bl by simp
  then have "rwm_dont_allow_readers (shared (br_monitor x)) \<or> rwm_dont_allow_writers (shared (br_monitor x))"
    using handed unfolding rwm_handed_def by (cases k) auto
  then obtain u k' where w: "status (br_monitor x) u = Woken k'" using handed unfolding rwm_handed_def by blast
  then have "u \<in> T" by (intro waits_as_mem [OF wa]) simp
  then show False using asleep w by auto
qed

text \<open>C35. The bridge is never stuck: with both limits positive, some vehicle can always make its next step.\<close>

theorem bridge_never_stuck:
  assumes "thread_ids T" "T \<noteq> {}" "mr \<noteq> 0" "mw \<noteq> 0" "br_reach v T (bridge_main mr mw) x"
  shows "\<exists>t\<in>T. \<exists>y. br_step v T t x y"
proof -
  have inv: "br_inv v T mr mw x" by (rule br_inv_reach [OF assms(1,5)])
  note ok = br_lib_inv(2) [OF assms(1) inv]
  have thread: "br_thread (v u) (br_pc x u) (ghost (br_monitor x) u) (pending (status (br_monitor x) u))" if "u \<in> T" for u
    using inv that by (simp add: br_inv_def)
  have run: "status (br_monitor x) u = Running" if "u \<in> T" "br_pc x u \<noteq> B_arrive" for u
    using thread [OF that(1)] that(2) by (cases "br_pc x u") (auto simp: pending_None)
  show ?thesis
  proof (cases "br_check_mutex x")
    case (Some u)
    then have u: "u \<in> T" "br_checks (br_pc x u)" using inv by (auto simp: br_inv_def br_mutex_def)
    then have "br_pc x u \<noteq> B_arrive" by auto
    from br_can_move [OF ok u(1) run [OF u(1) this]] u show ?thesis by blast
  next
    case None
    obtain u where u: "u \<in> T" "status (br_monitor x) u = Running \<or> is_woken (status (br_monitor x) u)"
      using br_somebody_awake [OF assms(1-4) inv] by blast
    show ?thesis
    proof (cases "status (br_monitor x) u")
      case Running
      then show ?thesis using br_can_move [OF ok u(1) Running] None u(1) by blast
    next
      case (Woken k)
      then show ?thesis using br_resumes [where v = v, OF ok u(1) Woken refl] finish_some u(1) by blast
    qed (use u in simp)
  qed
qed


section \<open>Runs\<close>

text \<open>A schedule: the vehicle that moves and whom its signals wake.\<close>

definition br_completes :: "tid list \<Rightarrow> tid \<Rightarrow> tid list \<Rightarrow> rwm_sect \<Rightarrow> bridge \<Rightarrow> bridge option" where
  "br_completes ts t picks sec x = map_option (\<lambda>d. br_section t sec d x) (complete (rwm_obj 1) ts t picks sec (br_monitor x))"

fun br_execute :: "(tid \<Rightarrow> vehicle_type) \<Rightarrow> tid list \<Rightarrow> (tid \<times> tid list) list \<Rightarrow> bridge \<Rightarrow> bridge option" where
  "br_execute v ts [] x = Some x"
| "br_execute v ts ((t, picks) # es) x =
     (if br_ended x \<or> t \<notin> set ts then None
      else Option.bind (case status (br_monitor x) t of
          Blocked cv k \<Rightarrow> None
        | Woken k \<Rightarrow> br_completes ts t picks (rwm_resume t k (shared (br_monitor x))) x
        | Running \<Rightarrow> (case br_call (v t) (br_pc x t) of
              Some op \<Rightarrow> br_completes ts t picks (rwm_enter t op (shared (br_monitor x))) x
            | None \<Rightarrow> br_local (v t) t (br_pc x t) x))
        (br_execute v ts es))"

lemma br_local_status: "br_local v t l x = Some y \<Longrightarrow> br_monitor y = br_monitor x"
  by (cases l) (auto simp: br_lock_def br_unlock_def split: if_splits)

lemma br_completes_step:
  assumes "only_in ts (status (br_monitor x))" "t \<in> set ts" "br_completes ts t picks sec x = Some y"
  obtains d where "y = br_section t sec d x" "finish (rwm_obj 1) t sec (br_monitor x) d" "only_in ts (status (br_monitor y))"
proof -
  obtain d where d: "complete (rwm_obj 1) ts t picks sec (br_monitor x) = Some d" "y = br_section t sec d x"
    using assms(3) unfolding br_completes_def map_option_eq_Some by blast
  then show thesis using that complete_finish [OF assms(1,2) d(1)] by (simp add: br_section_def)
qed

lemma br_execute_reach:
  "only_in ts (status (br_monitor x)) \<Longrightarrow> br_reach v (set ts) x0 x \<Longrightarrow> br_execute v ts es x = Some y \<Longrightarrow> br_reach v (set ts) x0 y"
proof (induction v ts es x rule: br_execute.induct)
  case (2 v ts t picks es x)
  have t: "\<not> br_ended x" "t \<in> set ts" using "2.prems"(3) by (auto split: if_splits)
  obtain z where z: "(case status (br_monitor x) t of
          Blocked cv k \<Rightarrow> None
        | Woken k \<Rightarrow> br_completes ts t picks (rwm_resume t k (shared (br_monitor x))) x
        | Running \<Rightarrow> (case br_call (v t) (br_pc x t) of
              Some op \<Rightarrow> br_completes ts t picks (rwm_enter t op (shared (br_monitor x))) x
            | None \<Rightarrow> br_local (v t) t (br_pc x t) x)) = Some z" "br_execute v ts es z = Some y"
    using "2.prems"(3) t by (auto simp: bind_eq_Some_conv)
  have "br_step v (set ts) t x z \<and> only_in ts (status (br_monitor z))"
  proof (cases "status (br_monitor x) t")
    case Running
    show ?thesis
    proof (cases "br_call (v t) (br_pc x t)")
      case None
      then have l: "br_local (v t) t (br_pc x t) x = Some z" using z(1) Running by simp
      then show ?thesis using br_moves [where v = v, OF t Running l] br_local_status [OF l] "2.prems"(1) by simp
    next
      case (Some op)
      then have "br_completes ts t picks (rwm_enter t op (shared (br_monitor x))) x = Some z" using z(1) Running by simp
      then show ?thesis by (rule br_completes_step [OF "2.prems"(1) t(2)])
          (use br_calls [where v = v, OF t Running Some refl] in blast)
    qed
  next
    case (Woken k)
    then have "br_completes ts t picks (rwm_resume t k (shared (br_monitor x))) x = Some z" using z(1) by simp
    then show ?thesis by (rule br_completes_step [OF "2.prems"(1) t(2)])
        (use br_resumes [where v = v, OF t Woken refl] in blast)
  qed (use z(1) in simp)
  then have "only_in ts (status (br_monitor z))" "br_reach v (set ts) x0 z" using "2.prems"(2) by (auto intro: br_steps)
  moreover have "\<not> (br_ended x \<or> t \<notin> set ts)" using t by simp
  ultimately show ?case using "2.IH" [OF _ z(1) _ _ z(2)] by blast
qed simp

lemma br_execute_shows:
  assumes "map_option view (br_execute v ts es (bridge_main mr mw)) = Some w"
  obtains x where "br_reach v (set ts) (bridge_main mr mw) x" "view x = w"
proof -
  obtain x where x: "br_execute v ts es (bridge_main mr mw) = Some x" "view x = w" using assms unfolding map_option_eq_Some by blast
  have "only_in ts (status (br_monitor (bridge_main mr mw)))" by (simp add: bridge_main_def start_def only_in_def)
  then show thesis by (intro that [OF br_execute_reach [OF _ br_starts x(1)] x(2)])
qed

text \<open>A vehicle from the left is on the bridge, one from the right waits.\<close>

definition br_meet :: "(tid \<times> tid list) list" where
  "br_meet = [(1, []), (2, []), (1, []), (1, []), (1, [])]"

definition br_vehicle :: "tid \<Rightarrow> vehicle_type" where
  "br_vehicle t = (if t = 1 then LR else RL)"

lemma br_meet_reach:
  "\<exists>x. br_reach br_vehicle {1, 2} (bridge_main 1 1) x \<and> br_n_LR x = 1 \<and> br_n_RL x = 0 \<and>
     status (br_monitor x) 2 = Blocked Cv_writer Wr_wait"
proof -
  have "map_option (\<lambda>x. (br_n_LR x, br_n_RL x, status (br_monitor x) 2)) (br_execute br_vehicle [1, 2] br_meet (bridge_main 1 1)) =
    Some (1, 0, Blocked Cv_writer Wr_wait)" by code_simp
  then obtain x where "br_reach br_vehicle (set [1, 2]) (bridge_main 1 1) x"
    "(br_n_LR x, br_n_RL x, status (br_monitor x) 2) = (1, 0, Blocked Cv_writer Wr_wait)" by (rule br_execute_shows)
  then show ?thesis by auto
qed

theorem bridge_one_direction_witness:
  "\<exists>x. br_reach br_vehicle {1, 2} (bridge_main 1 1) x \<and> br_n_LR x = 1 \<and> \<not> br_ended x \<and>
     br_n_LR x = int (card {t \<in> {1, 2}. br_vehicle t = LR \<and> br_counted (br_pc x t)})"
proof -
  obtain x where x: "br_reach br_vehicle {1, 2} (bridge_main 1 1) x" "br_n_LR x = 1" using br_meet_reach by blast
  have "thread_ids {1, 2}" by (simp add: thread_ids_def)
  from bridge_one_direction [OF this x(1)] x show ?thesis by blast
qed

theorem bridge_never_stuck_witness:
  "\<exists>x. br_reach br_vehicle {1, 2} (bridge_main 1 1) x \<and> status (br_monitor x) 2 = Blocked Cv_writer Wr_wait \<and>
     (\<exists>t y. t \<in> {1, 2} \<and> br_step br_vehicle {1, 2} t x y)"
proof -
  obtain x where x: "br_reach br_vehicle {1, 2} (bridge_main 1 1) x" "status (br_monitor x) 2 = Blocked Cv_writer Wr_wait"
    using br_meet_reach by blast
  have "thread_ids {1, 2}" by (simp add: thread_ids_def)
  from bridge_never_stuck [OF this _ _ _ x(1)] x show ?thesis by auto
qed

end
