(* ===== verification/WaitQueueGate.thy ===== *)
theory WaitQueueGate
  imports WaitQueue
begin

text \<open>
  The wait queue of \<open>WaitQueue\<close> on its own, as the gate of a program: threads call
  \<^verbatim>\<open>wait_queue_test_and_wait\<close> with a test that says whether the gate is closed, and the other calls
  set the gate, signal and broadcast, as the test program at the end of the section in
  \<^verbatim>\<open>ThreadSyncAdv/threadlib/threadlib.c\<close> does. The mutex of the application has the address \<open>1\<close>.
\<close>

section \<open>The gate\<close>

record wq_gate =
  wg_closed :: bool
  wg_wq :: wait_queue

datatype wg_call = Wg_pass | Wg_set bool | Wg_signal | Wg_broadcast

definition wg_put :: "wait_queue \<Rightarrow> wq_gate \<Rightarrow> wq_gate" where
  "wg_put wq s = s\<lparr>wg_wq := wq\<rparr>"

lemma wg_put_simps [simp]: "wg_wq (wg_put wq s) = wq" "wg_closed (wg_put wq s) = wg_closed s"
  by (simp_all add: wg_put_def)

definition wg_granted :: "wq_gate \<Rightarrow> (wq_gate, unit, wq_cv, unit) sect" where
  "wg_granted s = Unlocked s () []"

fun wg_enter :: "(tid \<Rightarrow> tid \<Rightarrow> int) \<Rightarrow> tid \<Rightarrow> wg_call \<Rightarrow> wq_gate \<Rightarrow> (wq_gate, unit, wq_cv, unit) sect" where
  "wg_enter cmp t Wg_pass s = wait_queue_test_and_wait wg_wq wg_put cmp 1 wg_closed wg_granted () t s"
| "wg_enter cmp t (Wg_set b) s = Unlocked (s\<lparr>wg_closed := b\<rparr>) () []"
| "wg_enter cmp t Wg_signal s = Unlocked s () (wait_queue_signal (wg_wq s))"
| "wg_enter cmp t Wg_broadcast s = Unlocked s () (wait_queue_broadcast (wg_wq s))"

definition wg_obj :: "(tid \<Rightarrow> tid \<Rightarrow> int) \<Rightarrow> (wq_gate, unit, wg_call, unit, wq_cv, unit) obj" where
  "wg_obj cmp = \<lparr>enter = wg_enter cmp, resume = (\<lambda>t k. wait_queue_resume wg_wq wg_put cmp wg_closed wg_granted k t),
     may_call = (\<lambda>g op. True), on_return = (\<lambda>r g. g)\<rparr>"

lemma wg_obj_simps [simp]:
  "enter (wg_obj cmp) = wg_enter cmp" "may_call (wg_obj cmp) g op" "on_return (wg_obj cmp) r g = g"
  "resume (wg_obj cmp) t k = wait_queue_resume wg_wq wg_put cmp wg_closed wg_granted k t"
  by (simp_all add: wg_obj_def)

definition wg_setup :: "bool \<Rightarrow> (tid \<Rightarrow> tid \<Rightarrow> int) \<Rightarrow> bool \<Rightarrow> wq_gate" where
  "wg_setup priority cmp closed = \<lparr>wg_closed = closed, wg_wq = the (wait_queue_init priority (Some cmp))\<rparr>"

section \<open>The invariant\<close>

text \<open>The count is that of the threads inside \<^verbatim>\<open>wait_queue_test_and_wait\<close>, woken or not, and in a
  priority queue they are the list, in the order of the comparison function.\<close>

definition wg_queue :: "bool \<Rightarrow> (tid \<Rightarrow> tid \<Rightarrow> int) \<Rightarrow> tid set \<Rightarrow> wait_queue \<Rightarrow> (tid \<Rightarrow> unit option) \<Rightarrow> bool" where
  "wg_queue priority cmp T wq w \<longleftrightarrow> wq_priority_flag wq = priority \<and> {t. w t \<noteq> None} \<subseteq> T \<and>
     wq_thread_wait_count wq = of_nat (waiters T (\<lambda>_. True) w) \<and>
     (if priority then distinct (wq_queue wq) \<and> set (wq_queue wq) = {t. w t \<noteq> None} \<and> ordered_by cmp (wq_queue wq)
      else wq_queue wq = []) \<and>
     wq_appln_mutex wq \<in> {0, 1} \<and> ({t. w t \<noteq> None} \<noteq> {} \<longrightarrow> wq_appln_mutex wq = 1)"

definition wg_on_own :: "bool \<Rightarrow> (tid \<Rightarrow> (wq_cv, unit) thread_status) \<Rightarrow> bool" where
  "wg_on_own priority f \<longleftrightarrow> (\<forall>t cv k. f t = Blocked cv k \<longrightarrow> cv = (if priority then Thread_cv t else Wq_cv))"

definition wg_inv :: "bool \<Rightarrow> (tid \<Rightarrow> tid \<Rightarrow> int) \<Rightarrow> tid set \<Rightarrow> wq_gate \<Rightarrow> (tid \<Rightarrow> unit) \<Rightarrow>
  (tid \<Rightarrow> (wq_cv, unit) thread_status) \<Rightarrow> bool" where
  "wg_inv priority cmp T s g f \<longleftrightarrow> wg_queue priority cmp T (wg_wq s) (\<lambda>t. pending (f t)) \<and> wg_on_own priority f"

text \<open>What the queue asks of the comparison function.\<close>

definition wq_order :: "(tid \<Rightarrow> tid \<Rightarrow> int) \<Rightarrow> bool" where
  "wq_order cmp \<longleftrightarrow> (\<forall>x y. cmp x y = -1 \<longrightarrow> cmp y x \<noteq> -1) \<and>
     (\<forall>x y z. cmp x y = -1 \<longrightarrow> cmp z y \<noteq> -1 \<longrightarrow> cmp z x \<noteq> -1)"

definition wg_valid :: "bool \<times> (tid \<Rightarrow> tid \<Rightarrow> int) \<times> bool \<Rightarrow> tid set \<Rightarrow> bool" where
  "wg_valid p T \<longleftrightarrow> finite T \<and> card T < 65536 \<and> wq_order (fst (snd p))"

lemma wq_order_insert: "wq_order cmp \<Longrightarrow> ordered_by cmp xs \<Longrightarrow> ordered_by cmp (insert_by cmp x xs)"
  unfolding wq_order_def by (rule insert_by_ordered) blast+

lemma ordered_by_remove1: "ordered_by cmp xs \<Longrightarrow> ordered_by cmp (remove1 x xs)"
  unfolding ordered_by_def
proof (induction xs)
  case (Cons a xs)
  have "set (remove1 x xs) \<subseteq> set xs" by (rule set_remove1_subset)
  then show ?case using Cons by auto
qed simp

lemma wg_queue_catch:
  "wg_queue p cmp T wq w \<Longrightarrow> wq_catch_mutex 1 wq = Some (wq\<lparr>wq_appln_mutex := 1\<rparr>) \<and> wg_queue p cmp T (wq\<lparr>wq_appln_mutex := 1\<rparr>) w"
  by (cases wq) (auto simp: wg_queue_def wq_catch_mutex_def)

lemma wg_queue_block:
  assumes "wg_queue p cmp T wq w" "wq_order cmp" "finite T" "t \<in> T" "w t = None" "wq_appln_mutex wq = 1"
  shows "wg_queue p cmp T (wq_block cmp t wq) (w(t := Some k))"
proof -
  have "{u. (w(t := Some k)) u \<noteq> None} = insert t {u. w u \<noteq> None}" by auto
  then show ?thesis using assms
    by (auto simp: wg_queue_def wq_block_def Let_def waiters_add wq_order_insert add.commute)
qed

lemma wg_queue_unblock:
  assumes "wg_queue p cmp T wq w" "finite T" "w t = Some k"
  shows "wg_queue p cmp T (wq_unblock t wq) (w(t := None)) \<and> wq_appln_mutex (wq_unblock t wq) = 1"
proof -
  have "{u. (w(t := None)) u \<noteq> None} = {u. w u \<noteq> None} - {t}" by auto
  moreover have t: "t \<in> T" using assms by (auto simp: wg_queue_def)
  moreover have "waiters T (\<lambda>_. True) w = Suc (waiters T (\<lambda>_. True) (w(t := None)))" using t assms by (auto simp: waiters_leave)
  ultimately show ?thesis using assms
    by (auto simp: wg_queue_def wq_unblock_def Let_def ordered_by_remove1)
qed

lemma wg_on_own_wakes: "wg_on_own p f \<Longrightarrow> wakes ss f h \<Longrightarrow> wg_on_own p h"
  unfolding wg_on_own_def by (metis is_blocked.simps(1) wakes_blocked_same)

lemma wg_on_own_upd: "wg_on_own p f \<Longrightarrow> \<not> is_blocked x \<Longrightarrow> wg_on_own p (f(t := x))"
  by (auto simp: wg_on_own_def)

lemma wg_on_own_block:
  assumes "wg_on_own p (f(t := Running))" "cv = (if p then Thread_cv t else Wq_cv)"
  shows "wg_on_own p (f(t := Blocked cv k))"
  unfolding wg_on_own_def
proof (intro allI impI)
  fix u cv' l assume "(f(t := Blocked cv k)) u = Blocked cv' l"
  then show "cv' = (if p then Thread_cv u else Wq_cv)"
    using assms by (cases "u = t") (auto simp: wg_on_own_def fun_upd_apply split del: if_split)
qed

text \<open>The loop of a thread that is not in the queue keeps the invariant, and so do the signals.\<close>

lemma wg_loop_keeps:
  assumes q: "wg_queue p cmp T (wg_wq s) (w(t := None))" and own: "wg_on_own p (f(t := Running))" and w: "w = (\<lambda>u. pending (f u))"
    and T: "wq_order cmp" "finite T" "t \<in> T" "wq_appln_mutex (wg_wq s) = 1"
  shows "keeps (wg_obj cmp) (wg_inv p cmp T) t g f (wq_test_loop wg_wq wg_put cmp wg_closed wg_granted k t s)"
proof -
  have run: "(\<lambda>u. pending ((f(t := Running)) u)) = w(t := None)" and blk: "(\<lambda>u. pending ((f(t := Blocked cv l)) u)) = w(t := Some l)" for cv l
    using w by auto
  have "wg_queue p cmp T (wq_block cmp t (wg_wq s)) (w(t := Some k))"
    using wg_queue_block [OF q T(1-3) _ T(4), of k] by simp
  moreover have "wg_on_own p (f(t := Blocked (wq_block_cv t (wg_wq s)) k))"
    using q by (intro wg_on_own_block [OF own]) (auto simp: wq_block_cv_def wg_queue_def)
  ultimately show ?thesis
    using q own T(4) by (auto simp: wq_test_loop_def wg_granted_def check_def wg_inv_def run blk simp del: fun_upd_apply)
qed

lemma wg_signals_keep:
  assumes "wg_inv p cmp T s g f" "f t = Running" "wg_wq s' = wg_wq s"
  shows "keeps (wg_obj cmp) (wg_inv p cmp T) t g f (Unlocked s' () ss)"
proof -
  have "f(t := Running) = f" using assms(2) by auto
  moreover have "(\<lambda>u. pending (h u)) = (\<lambda>u. pending (f u))" if "wakes ss f h" for h using wakes_pending [OF that] by auto
  ultimately show ?thesis using assms(1,3) by (auto simp: wg_inv_def wg_on_own_wakes)
qed

definition wg_start :: "bool \<times> (tid \<Rightarrow> tid \<Rightarrow> int) \<times> bool \<Rightarrow> wq_gate" where
  "wg_start p = wg_setup (fst p) (fst (snd p)) (snd (snd p))"

interpretation wg: sync_object wg_valid "\<lambda>p. wg_obj (fst (snd p))" True wg_start "()" "\<lambda>p. wg_inv (fst p) (fst (snd p))"
proof (unfold_locales, goal_cases)
  case (1 p T)
  then show ?case
    by (auto simp: wg_inv_def wg_queue_def wg_on_own_def wg_start_def wg_setup_def wait_queue_init_def ordered_by_def waiters_def count_threads_def)
next
  case (2 p T s g f t op)
  then have T: "finite T" "wq_order (fst (snd p))" by (auto simp: wg_valid_def)
  show ?case
  proof (cases op)
    case Wg_pass
    have f: "f(t := Running) = f" using 2 by auto
    let ?wq = "(wg_wq s)\<lparr>wq_appln_mutex := 1\<rparr>"
    have q: "wq_catch_mutex 1 (wg_wq s) = Some ?wq" "wg_queue (fst p) (fst (snd p)) T ?wq (\<lambda>u. pending (f u))"
      using 2 wg_queue_catch by (auto simp: wg_inv_def)
    moreover have "(\<lambda>u. pending (f u))(t := None) = (\<lambda>u. pending (f u))" using 2 by auto
    ultimately show ?thesis
      using Wg_pass 2 T f wg_loop_keeps [of "fst p" "fst (snd p)" T "wg_put ?wq s" "\<lambda>u. pending (f u)" t f g "()"]
      by (simp add: wait_queue_test_and_wait_def wg_inv_def)
  qed (use 2 wg_signals_keep in \<open>auto simp del: keeps.simps\<close>)
next
  case (3 p T s g f t k)
  then have T: "finite T" "wq_order (fst (snd p))" by (auto simp: wg_valid_def)
  have q: "wg_queue (fst p) (fst (snd p)) T (wq_unblock t (wg_wq s)) ((\<lambda>u. pending (f u))(t := None))"
    "wq_appln_mutex (wq_unblock t (wg_wq s)) = 1"
    using 3 T wg_queue_unblock [of "fst p" "fst (snd p)" T "wg_wq s" "\<lambda>u. pending (f u)" t k] by (auto simp: wg_inv_def)
  show ?case
    using 3 T q wg_loop_keeps [of "fst p" "fst (snd p)" T "wg_put (wq_unblock t (wg_wq s)) s" "\<lambda>u. pending (f u)" t f g k]
    by (simp add: wait_queue_resume_def wg_inv_def wg_on_own_upd)
next
  case (4 p T s g f t)
  have "(\<lambda>u. pending ((f(t := wake (f t))) u)) = (\<lambda>u. pending (f u))" by auto
  then show ?case using 4 by (simp add: wg_inv_def wg_on_own_upd del: fun_upd_apply)
qed


section \<open>Properties\<close>

text \<open>What signals wake: the first thread of a priority queue if it is still asleep, anybody in another.\<close>

definition wg_woken :: "bool \<Rightarrow> tid list \<Rightarrow> (tid \<Rightarrow> (wq_cv, unit) thread_status) \<Rightarrow> (tid \<Rightarrow> (wq_cv, unit) thread_status) \<Rightarrow> bool" where
  "wg_woken priority ts f h \<longleftrightarrow>
     (if priority then (case ts of [] \<Rightarrow> h = f | t # _ \<Rightarrow> h = f(t := wake (f t)))
      else if \<exists>t. is_blocked (f t) then \<exists>t. is_blocked (f t) \<and> h = f(t := wake (f t)) else h = f)"

lemma wg_count_zero:
  assumes "wg_queue p cmp T wq w" "finite T" "card T < 65536"
  shows "wq_thread_wait_count wq = 0 \<longleftrightarrow> w = (\<lambda>_. None)"
proof -
  have "waiters T (\<lambda>_. True) w < 65536" using waiters_le [OF assms(2), of "\<lambda>_. True" w] assms(3) by linarith
  then have "wq_thread_wait_count wq = 0 \<longleftrightarrow> waiters T (\<lambda>_. True) w = 0"
    using assms(1) of_nat_u32_inj [of "waiters T (\<lambda>_. True) w" 0] by (simp add: wg_queue_def)
  also have "\<dots> \<longleftrightarrow> w = (\<lambda>_. None)"
  proof
    assume "waiters T (\<lambda>_. True) w = 0"
    then have "w t = None" if "t \<in> T" for t using that waiters_pos [OF assms(2), of "\<lambda>_. True" w] by (cases "w t") auto
    moreover have "w t = None" if "t \<notin> T" for t using that assms(1) by (auto simp: wg_queue_def)
    ultimately show "w = (\<lambda>_. None)" by (meson ext)
  qed (simp add: waiters_def count_threads_def)
  finally show ?thesis .
qed

lemma wg_own_blocked: "wg_on_own True f \<Longrightarrow> blocked_on (Thread_cv t) (f u) \<longleftrightarrow> u = t \<and> is_blocked (f t)"
  by (cases "f u") (auto simp: wg_on_own_def is_blocked_iff blocked_on_iff)

lemma wake_not_blocked_same: "\<not> is_blocked x \<Longrightarrow> wake x = x"
  by (cases x) auto

lemma wg_signal_wakes:
  assumes "wg_inv p cmp T s g f" "finite T" "card T < 65536" "wakes (wait_queue_signal (wg_wq s)) f h"
  shows "wg_woken p (wq_queue (wg_wq s)) f h"
proof -
  note q = assms(1) [unfolded wg_inv_def, THEN conjunct1] and own = assms(1) [unfolded wg_inv_def, THEN conjunct2]
  note zero = wg_count_zero [OF q assms(2,3)]
  have flag: "wq_priority_flag (wg_wq s) = p" using q by (simp add: wg_queue_def)
  have none: "h = f \<and> \<not> is_blocked (f t)" if "wq_thread_wait_count (wg_wq s) = 0" for t
    using that zero assms(4) by (auto simp: wait_queue_signal_def fun_eq_iff pending_None)
  show ?thesis
  proof (cases p)
    case True
    then have own: "wg_on_own True f" using own by simp
    have "wg_woken True [] f h" if "wq_queue (wg_wq s) = []" using that assms(4) flag True
      by (auto simp: wait_queue_signal_def wg_woken_def split: if_splits)
    moreover have "wg_woken True (t # ts) f h" if "wq_queue (wg_wq s) = t # ts" for t ts
      using that assms(4) flag True none wg_own_blocked [OF own, of t]
      by (auto simp: wait_queue_signal_def wg_woken_def wake_one_upd wake_not_blocked_same split: if_splits)
    ultimately show ?thesis using True by (cases "wq_queue (wg_wq s)") auto
  next
    case False
    have "blocked_on Wq_cv (f t) \<longleftrightarrow> is_blocked (f t)" for t
      using own False by (cases "f t") (auto simp: wg_on_own_def)
    then show ?thesis using False assms(4) flag none
      by (auto simp: wait_queue_signal_def wg_woken_def wake_one_upd split: if_splits)
  qed
qed

lemma wg_broadcast_wakes:
  assumes "wg_inv p cmp T s g f" "finite T" "card T < 65536" "wakes (wait_queue_broadcast (wg_wq s)) f h"
  shows "\<not> is_blocked (h t)"
proof
  assume b: "is_blocked (h t)"
  note q = assms(1) [unfolded wg_inv_def, THEN conjunct1] and own = assms(1) [unfolded wg_inv_def, THEN conjunct2]
  have f: "is_blocked (f t)" "h t = f t" using b wakes_blocked_same [OF assms(4) b] by auto
  then have "pending (f t) \<noteq> None" by (cases "f t") auto
  then have nz: "wq_thread_wait_count (wg_wq s) \<noteq> 0" and t: "p \<Longrightarrow> t \<in> set (wq_queue (wg_wq s))"
    using wg_count_zero [OF q assms(2,3)] q by (auto simp: fun_eq_iff wg_queue_def)
  show False
  proof (cases p)
    case True
    then have own: "wg_on_own True f" using own by simp
    have "wakes (map (\<lambda>t. Signal (Thread_cv t)) (wq_queue (wg_wq s))) f h"
      using assms(4) nz q True by (simp add: wait_queue_broadcast_def wg_queue_def)
    from wakes_thread_signals [OF this _ t [OF True]] b f own
    show False by (auto simp: wg_on_own_def)
  next
    case False
    then have "wakes [Broadcast Wq_cv] f h" using assms(4) nz q by (simp add: wait_queue_broadcast_def wg_queue_def)
    from wakes_broadcast_all [OF this, of t] own False f show False
      by (cases "f t") (auto simp: wg_on_own_def)
  qed
qed

text \<open>C30. In every execution of a gate over a wait queue, spurious wake-ups included, no assertion fails, the
  count is the number of threads inside \<^verbatim>\<open>wait_queue_test_and_wait\<close>, and in a priority queue these threads
  are the list, each once, in an order that the comparison function allows. A signal wakes the first thread of a
  priority queue, and nobody if that thread is awake already; in another queue it wakes one sleeping thread if
  there is one. After a broadcast nobody sleeps.\<close>

theorem wait_queue_gate:
  assumes "finite T" "card T < 65536" "wq_order cmp" "reach (wg_obj cmp) True T (wg_setup p cmp closed) () c"
  shows "\<not> aborted c \<and> wg_queue p cmp T (wg_wq (shared c)) (\<lambda>t. pending (status c t)) \<and>
    (\<forall>t d. t \<in> T \<longrightarrow> status c t = Running \<longrightarrow> finish (wg_obj cmp) t (wg_enter cmp t Wg_signal (shared c)) c d \<longrightarrow>
       wg_woken p (wq_queue (wg_wq (shared c))) (status c) (status d)) \<and>
    (\<forall>t d u. t \<in> T \<longrightarrow> status c t = Running \<longrightarrow> finish (wg_obj cmp) t (wg_enter cmp t Wg_broadcast (shared c)) c d \<longrightarrow>
       \<not> is_blocked (status d u))"
proof -
  have v: "wg_valid (p, cmp, closed) T" using assms by (simp add: wg_valid_def)
  have r: "reach (wg_obj (fst (snd (p, cmp, closed)))) True T (wg_start (p, cmp, closed)) () c"
    using assms(4) by (simp add: wg_start_def)
  note inv = wg.reachable_inv [OF v r, simplified]
  have upd: "(status c)(t := Running) = status c" if "status c t = Running" for t using that by auto
  show ?thesis
    using wg.reachable_not_aborted [OF v r] inv wg_signal_wakes [OF inv assms(1,2)] wg_broadcast_wakes [OF inv assms(1,2)] upd
    by (auto simp: wg_inv_def)
qed

text \<open>A run that the code allows and its author did not mean: two threads wait, the gate is opened, and two signals
  come before the first thread runs. Both signals are for this thread, which is in the list until it has run;
  the second thread sleeps for ever at an open gate.\<close>

theorem wait_queue_signal_lost:
  "\<exists>c. reach (wg_obj priority_wq_insert_comp_fn) False {1, 2, 3} (wg_setup True priority_wq_insert_comp_fn True) () c \<and>
     \<not> wg_closed (shared c) \<and> map (status c) [1, 2, 3] = [Running, Blocked (Thread_cv 2) (), Running]"
proof -
  have "map_option (\<lambda>c. (wg_closed (shared c), map (status c) [1, 2, 3])) (execute (wg_obj priority_wq_insert_comp_fn) False [1, 2, 3]
      [Call 1 Wg_pass [], Call 2 Wg_pass [], Call 3 (Wg_set False) [], Call 3 Wg_signal [1], Call 3 Wg_signal [], Continue 1 []]
      (start (wg_setup True priority_wq_insert_comp_fn True) ())) =
    Some (False, [Running, Blocked (Thread_cv 2) (), Running])"
    by code_simp
  then obtain c where "reach (wg_obj priority_wq_insert_comp_fn) False (set [1, 2, 3]) (wg_setup True priority_wq_insert_comp_fn True) () c"
    "(wg_closed (shared c), map (status c) [1, 2, 3]) = (False, [Running, Blocked (Thread_cv 2) (), Running])"
    by (rule execute_shows)
  then show ?thesis by auto
qed

text \<open>With a comparison of thread numbers, the thread 1 that comes last is the first to be woken.\<close>

definition by_number :: "tid \<Rightarrow> tid \<Rightarrow> int" where
  "by_number x y = (if x < y then -1 else 1)"

theorem wait_queue_gate_witness:
  "\<exists>c. reach (wg_obj by_number) True {1, 2, 3} (wg_setup True by_number True) () c \<and> wq_queue (wg_wq (shared c)) = [1, 2] \<and>
     map (status c) [1, 2] = [Woken (), Blocked (Thread_cv 2) ()] \<and>
     wg_queue True by_number {1, 2, 3} (wg_wq (shared c)) (\<lambda>t. pending (status c t))"
proof -
  have "map_option (\<lambda>c. (wq_queue (wg_wq (shared c)), map (status c) [1, 2])) (execute (wg_obj by_number) True [1, 2, 3]
      [Call 2 Wg_pass [], Call 1 Wg_pass [], Call 3 Wg_signal [1]] (start (wg_setup True by_number True) ())) =
    Some ([1, 2], [Woken (), Blocked (Thread_cv 2) ()])"
    by code_simp
  then obtain c where c: "reach (wg_obj by_number) True (set [1, 2, 3]) (wg_setup True by_number True) () c"
    "(wq_queue (wg_wq (shared c)), map (status c) [1, 2]) = ([1, 2], [Woken (), Blocked (Thread_cv 2) ()])"
    by (rule execute_shows)
  have "wq_order by_number" by (auto simp: wq_order_def by_number_def split: if_splits)
  from wait_queue_gate [OF _ _ this c(1)] c show ?thesis by auto
qed

end
