(* ===== verification/WaitQueueV1.thy ===== *)
theory WaitQueueV1
  imports Pthreads
begin

text \<open>
  The first version of the wait queue, \<^verbatim>\<open>WaitQueues/wait_queue_v1.c\<close>. Unlike its successor
  (\<open>WaitQueue\<close>) it forgets the application's mutex when nobody waits any more, and a signal reads the cached
  pointer to the mutex before it has locked anything. So the steps here are finer than critical sections: a
  signal is three reads of \<^verbatim>\<open>wq->appln_mutex\<close>, each a step of its own. The application is a test
  that locks its mutex, as \<^verbatim>\<open>wait_queue.h\<close> asks for; the address of the mutex is 1.
\<close>

section \<open>The code\<close>

record wait_queue_v1 =
  v1_thread_wait_count :: u32
  v1_appln_mutex :: addr

datatype v1_call = V1_signal | V1_broadcast

text \<open>The points of a thread: outside the library, before the test of the loop with the result of the
  callback, in \<^verbatim>\<open>pthread_cond_wait\<close>, woken and before its mutex; and the points of a signal or broadcast:
  before the test of the pointer, before the call of \<^verbatim>\<open>pthread_mutex_lock\<close>, inside it, before the test of
  the count, and before the unlocking, which comes after the test (\<open>False\<close>) or after the signal (\<open>True\<close>).\<close>

datatype v1_pc = V_out | V_loop bool | V_waiting | V_woken
  | V_test v1_call | V_lock v1_call | V_acquire v1_call | V_count v1_call | V_unlock bool

record v1_app =
  v1_wq :: wait_queue_v1
  v1_appl_result :: bool
  v1_app_mutex :: "tid option"
  v1_pc :: "tid \<Rightarrow> v1_pc"
  v1_crash :: "v1_pc option"

definition wait_queue_init_v1 :: "wait_queue_v1" where
  "wait_queue_init_v1 = \<lparr>v1_thread_wait_count = 0, v1_appln_mutex = 0\<rparr>"

definition wait_queue_re_init :: "wait_queue_v1 \<Rightarrow> wait_queue_v1 option" where
  "wait_queue_re_init wq = (if v1_thread_wait_count wq = 0 then Some (wq\<lparr>v1_appln_mutex := 0\<rparr>) else None)"

definition v1_goto :: "tid \<Rightarrow> v1_pc \<Rightarrow> v1_app \<Rightarrow> v1_app" where
  "v1_goto t l x = x\<lparr>v1_pc := (v1_pc x)(t := l)\<rparr>"

text \<open>A NULL mutex is dereferenced, or an assertion fails, at the point where the thread \<open>t\<close> is.\<close>

definition v1_crashes :: "tid \<Rightarrow> v1_app \<Rightarrow> v1_app" where
  "v1_crashes t x = x\<lparr>v1_crash := Some (v1_pc x t)\<rparr>"

definition v1_locked :: "tid \<Rightarrow> v1_app \<Rightarrow> v1_app option" where
  "v1_locked t x = (if v1_app_mutex x = None then Some (x\<lparr>v1_app_mutex := Some t\<rparr>) else None)"

text \<open>\<^verbatim>\<open>wait_queue_test_and_wait\<close> up to the loop: the callback locks the mutex and tests, and the mutex
  is cached.\<close>

definition v1_enter :: "tid \<Rightarrow> v1_app \<Rightarrow> v1_app option" where
  "v1_enter t x =
     map_option (\<lambda>y. if v1_appln_mutex (v1_wq y) = 0
         then v1_goto t (V_loop (v1_appl_result y)) (y\<lparr>v1_wq := (v1_wq y)\<lparr>v1_appln_mutex := 1\<rparr>\<rparr>)
         else if v1_appln_mutex (v1_wq y) = 1 then v1_goto t (V_loop (v1_appl_result y)) y
         else v1_crashes t y)
       (v1_locked t x)"

text \<open>The steps of the thread \<open>t\<close> that need nobody else; \<open>None\<close> if it must wait for the mutex.\<close>

fun v1_next :: "tid \<Rightarrow> v1_pc \<Rightarrow> v1_app \<Rightarrow> v1_app option" where
  "v1_next t (V_loop True) x =
     Some (if v1_appln_mutex (v1_wq x) = 0 then v1_crashes t x
       else v1_goto t V_waiting (x\<lparr>v1_wq := (v1_wq x)\<lparr>v1_thread_wait_count := v1_thread_wait_count (v1_wq x) + 1\<rparr>, v1_app_mutex := None\<rparr>))"
| "v1_next t (V_loop False) x =
     Some (v1_goto t V_out
       (x\<lparr>v1_wq := (if v1_thread_wait_count (v1_wq x) = 0 then (v1_wq x)\<lparr>v1_appln_mutex := 0\<rparr> else v1_wq x), v1_app_mutex := None\<rparr>))"
| "v1_next t V_woken x =
     map_option (\<lambda>y. v1_goto t (V_loop (v1_appl_result y))
         (y\<lparr>v1_wq := (v1_wq y)\<lparr>v1_thread_wait_count := v1_thread_wait_count (v1_wq y) - 1\<rparr>\<rparr>))
       (v1_locked t x)"
| "v1_next t (V_test c) x = Some (if v1_appln_mutex (v1_wq x) = 0 then v1_goto t V_out x else v1_goto t (V_lock c) x)"
| "v1_next t (V_lock c) x = Some (if v1_appln_mutex (v1_wq x) = 0 then v1_crashes t x else v1_goto t (V_acquire c) x)"
| "v1_next t (V_acquire c) x = map_option (v1_goto t (V_count c)) (v1_locked t x)"
| "v1_next t (V_count c) x = (if v1_thread_wait_count (v1_wq x) = 0 then Some (v1_goto t (V_unlock False) x) else None)"
| "v1_next t (V_unlock b) x =
     Some (if v1_appln_mutex (v1_wq x) = 0 then v1_crashes t x else v1_goto t V_out (x\<lparr>v1_app_mutex := None\<rparr>))"
| "v1_next t V_out x = None"
| "v1_next t V_waiting x = None"

text \<open>The threads that a signal or a broadcast wakes.\<close>

fun v1_wakes :: "v1_call \<Rightarrow> v1_app \<Rightarrow> v1_app \<Rightarrow> bool" where
  "v1_wakes V1_signal x y \<longleftrightarrow> (if \<exists>u. v1_pc x u = V_waiting then \<exists>u. v1_pc x u = V_waiting \<and> y = v1_goto u V_woken x else y = x)"
| "v1_wakes V1_broadcast x y \<longleftrightarrow> y = x\<lparr>v1_pc := (\<lambda>u. if v1_pc x u = V_waiting then V_woken else v1_pc x u)\<rparr>"

inductive v1_step :: "tid set \<Rightarrow> v1_app \<Rightarrow> v1_app \<Rightarrow> bool" for T where
  v1_waits: "v1_crash x = None \<Longrightarrow> t \<in> T \<Longrightarrow> v1_pc x t = V_out \<Longrightarrow> v1_enter t x = Some y \<Longrightarrow> v1_step T x y"
| v1_calls: "v1_crash x = None \<Longrightarrow> t \<in> T \<Longrightarrow> v1_pc x t = V_out \<Longrightarrow> v1_step T x (v1_goto t (V_test c) x)"
| v1_sets: "v1_crash x = None \<Longrightarrow> v1_step T x (x\<lparr>v1_appl_result := b\<rparr>)"
| v1_moves: "v1_crash x = None \<Longrightarrow> t \<in> T \<Longrightarrow> v1_next t (v1_pc x t) x = Some y \<Longrightarrow> v1_step T x y"
| v1_signals: "v1_crash x = None \<Longrightarrow> t \<in> T \<Longrightarrow> v1_pc x t = V_count c \<Longrightarrow> v1_thread_wait_count (v1_wq x) \<noteq> 0 \<Longrightarrow>
    v1_wakes c x y \<Longrightarrow> v1_step T x (v1_goto t (V_unlock True) y)"
| v1_spurious: "v1_crash x = None \<Longrightarrow> t \<in> T \<Longrightarrow> v1_pc x t = V_waiting \<Longrightarrow> v1_step T x (v1_goto t V_woken x)"

definition v1_start :: "bool \<Rightarrow> v1_app" where
  "v1_start b = \<lparr>v1_wq = wait_queue_init_v1, v1_appl_result = b, v1_app_mutex = None, v1_pc = (\<lambda>_. V_out), v1_crash = None\<rparr>"

inductive v1_reach :: "tid set \<Rightarrow> v1_app \<Rightarrow> bool" for T where
  v1_init: "v1_reach T (v1_start b)"
| v1_more: "v1_reach T x \<Longrightarrow> v1_step T x y \<Longrightarrow> v1_reach T y"

section \<open>The invariant\<close>

fun v1_holds :: "v1_pc \<Rightarrow> bool" where
  "v1_holds (V_loop b) = True" | "v1_holds (V_count c) = True" | "v1_holds (V_unlock b) = True" | "v1_holds _ = False"

definition v1_inside :: "v1_pc \<Rightarrow> bool" where
  "v1_inside l \<longleftrightarrow> l = V_waiting \<or> l = V_woken"

text \<open>The points at which the mutex is known to be cached.\<close>

fun v1_cached :: "v1_pc \<Rightarrow> bool" where
  "v1_cached V_waiting = True" | "v1_cached V_woken = True" | "v1_cached (V_loop b) = True" | "v1_cached (V_unlock b) = b"
| "v1_cached _ = False"

definition v1_crash_points :: "v1_pc set" where
  "v1_crash_points = {V_lock V1_signal, V_lock V1_broadcast, V_unlock False}"

definition v1_inv :: "tid set \<Rightarrow> v1_app \<Rightarrow> bool" where
  "v1_inv T x \<longleftrightarrow>
     (\<forall>t. v1_app_mutex x = Some t \<longleftrightarrow> t \<in> T \<and> v1_holds (v1_pc x t)) \<and> (\<forall>t. t \<notin> T \<longrightarrow> v1_pc x t = V_out) \<and>
     v1_thread_wait_count (v1_wq x) = of_nat (count_threads T v1_inside (v1_pc x)) \<and>
     v1_appln_mutex (v1_wq x) \<in> {0, 1} \<and> (\<forall>t. v1_cached (v1_pc x t) \<longrightarrow> v1_appln_mutex (v1_wq x) = 1) \<and>
     set_option (v1_crash x) \<subseteq> v1_crash_points"


lemma v1_goto_simps [simp]:
  "v1_wq (v1_goto t l x) = v1_wq x" "v1_app_mutex (v1_goto t l x) = v1_app_mutex x" "v1_crash (v1_goto t l x) = v1_crash x"
  "v1_pc (v1_goto t l x) = (v1_pc x)(t := l)"
  by (simp_all add: v1_goto_def)

lemma v1_locked_Some: "v1_locked t x = Some y \<longleftrightarrow> v1_app_mutex x = None \<and> y = x\<lparr>v1_app_mutex := Some t\<rparr>"
  by (auto simp: v1_locked_def)

lemma v1_owner: "v1_inv T x \<Longrightarrow> u \<in> T \<Longrightarrow> v1_holds (v1_pc x u) \<Longrightarrow> v1_app_mutex x = Some u"
  by (simp add: v1_inv_def)

lemma v1_alone: "v1_inv T x \<Longrightarrow> v1_holds (v1_pc x t) \<Longrightarrow> t \<in> T \<Longrightarrow> u \<in> T \<Longrightarrow> v1_holds (v1_pc x u) \<Longrightarrow> u = t"
  using v1_owner [of T x t] v1_owner [of T x u] by simp

lemma v1_nobody: "v1_inv T x \<Longrightarrow> v1_app_mutex x = None \<Longrightarrow> u \<in> T \<Longrightarrow> \<not> v1_holds (v1_pc x u)"
  using v1_owner [of T x u] by auto

text \<open>A step of one thread keeps the invariant if it locks, unlocks, counts and caches as its points say.\<close>

lemma v1_inv_move:
  assumes inv: "v1_inv T x" and T: "finite T" "t \<in> T" and pc: "v1_pc y = (v1_pc x)(t := l)"
    and mutex: "v1_app_mutex y = (if v1_holds l then Some t else if v1_holds (v1_pc x t) then None else v1_app_mutex x)"
    and free: "v1_holds l \<Longrightarrow> v1_holds (v1_pc x t) \<or> v1_app_mutex x = None"
    and count: "v1_thread_wait_count (v1_wq y) = v1_thread_wait_count (v1_wq x) +
      (if v1_inside l = v1_inside (v1_pc x t) then 0 else if v1_inside l then 1 else - 1)"
    and appln: "v1_appln_mutex (v1_wq y) \<in> {0, 1}" "v1_cached l \<Longrightarrow> v1_appln_mutex (v1_wq y) = 1"
      "\<And>u. u \<noteq> t \<Longrightarrow> v1_cached (v1_pc x u) \<Longrightarrow> v1_appln_mutex (v1_wq y) = 1" and crash: "v1_crash y = None"
  shows "v1_inv T y"
proof -
  have own: "v1_app_mutex x = Some u \<longleftrightarrow> u \<in> T \<and> v1_holds (v1_pc x u)" for u using inv by (simp add: v1_inv_def)
  have "v1_app_mutex y = Some u \<longleftrightarrow> u \<in> T \<and> v1_holds (v1_pc y u)" for u
    using own [of u] own [of t] free T(2) unfolding pc mutex by (cases "u = t") auto
  moreover have "v1_thread_wait_count (v1_wq y) = of_nat (count_threads T v1_inside (v1_pc y))"
  proof -
    consider "v1_inside l = v1_inside (v1_pc x t)" | "v1_inside l" "\<not> v1_inside (v1_pc x t)" | "\<not> v1_inside l" "v1_inside (v1_pc x t)" by blast
    then show ?thesis
    proof cases
      case 3
      then have "count_threads T v1_inside (v1_pc x) = Suc (count_threads T v1_inside (v1_pc y))"
        using count_threads_del [OF T, of v1_inside "v1_pc x" l] pc by simp
      then show ?thesis using count inv 3 by (simp add: v1_inv_def)
    qed (use count inv T in \<open>simp_all add: v1_inv_def pc count_threads_keep count_threads_add\<close>)
  qed
  moreover have "v1_cached (v1_pc y u) \<Longrightarrow> v1_appln_mutex (v1_wq y) = 1" for u
    using appln(2) appln(3) [of u] pc by (cases "u = t") auto
  moreover have "v1_pc y u = V_out" if "u \<notin> T" for u using that T(2) inv unfolding pc v1_inv_def by auto
  ultimately show ?thesis using appln(1) crash unfolding v1_inv_def by simp
qed

lemma v1_count_zero:
  assumes "v1_inv T x" "finite T" "card T < 65536"
  shows "v1_thread_wait_count (v1_wq x) = 0 \<longleftrightarrow> (\<forall>t. \<not> v1_inside (v1_pc x t))"
proof -
  let ?n = "count_threads T v1_inside (v1_pc x)"
  have "?n < 65536" using count_threads_le [OF assms(2), of v1_inside "v1_pc x"] assms(3) by linarith
  then have "v1_thread_wait_count (v1_wq x) = 0 \<longleftrightarrow> ?n = 0"
    using assms(1) of_nat_u32_inj [of ?n 0] by (simp add: v1_inv_def)
  also have "\<dots> \<longleftrightarrow> (\<forall>t. \<not> v1_inside (v1_pc x t))"
    using assms(1) unfolding count_threads_eq_0 [OF assms(2)] v1_inv_def by (metis v1_inside_def v1_pc.distinct(3,5))
  finally show ?thesis .
qed

text \<open>The mutex is forgotten when nobody is inside, and nobody else holds it then.\<close>

lemma v1_reset_safe:
  assumes "v1_inv T x" "t \<in> T" "v1_holds (v1_pc x t)" "\<forall>u. \<not> v1_inside (v1_pc x u)" "u \<noteq> t"
  shows "\<not> v1_cached (v1_pc x u)"
proof (cases "u \<in> T")
  case True
  then have "\<not> v1_holds (v1_pc x u)" using v1_alone [OF assms(1,3,2)] assms(5) by blast
  moreover have "\<not> v1_inside (v1_pc x u)" using assms(4) ..
  ultimately show ?thesis by (cases "v1_pc x u") (auto simp: v1_inside_def)
next
  case False
  then show ?thesis using assms(1) by (simp add: v1_inv_def)
qed

lemma v1_next_inv:
  assumes inv: "v1_inv T x" and T: "finite T" "card T < 65536" "t \<in> T" and ok: "v1_crash x = None"
    and y: "v1_next t (v1_pc x t) x = Some y"
  shows "v1_inv T y"
proof -
  have cached: "v1_cached (v1_pc x u) \<Longrightarrow> v1_appln_mutex (v1_wq x) = 1" for u using inv unfolding v1_inv_def by blast
  have appln: "v1_appln_mutex (v1_wq x) = 0 \<or> v1_appln_mutex (v1_wq x) = 1" using inv by (auto simp: v1_inv_def)
  have crash: "v1_inv T (v1_crashes t x)" if "v1_pc x t \<in> v1_crash_points"
    using inv that by (auto simp: v1_inv_def v1_crashes_def)
  note move = v1_inv_move [OF inv T(1,3)]
  show ?thesis
  proof (cases "v1_pc x t")
    case (V_loop b)
    have "v1_inv T y" if b using y V_loop that cached [of t] ok by (intro move [of y V_waiting]) (auto simp: v1_inside_def cached)
    moreover have "v1_inv T y" if "\<not> b"
      using y V_loop that cached ok appln v1_count_zero [OF inv T(1,2)] v1_reset_safe [OF inv T(3)]
      by (intro move [of y V_out]) (auto simp: v1_inside_def split: if_splits)
    ultimately show ?thesis by blast
  next
    case V_woken
    then show ?thesis using y cached [of t] ok
      by (intro move [of y "V_loop (v1_appl_result x)"]) (auto simp: v1_inside_def v1_locked_Some)
  next
    case (V_test c)
    then show ?thesis using y cached appln ok
      by (cases "v1_appln_mutex (v1_wq x) = 0") (auto simp: v1_inside_def intro!: move)
  next
    case (V_lock c)
    then have "v1_pc x t \<in> v1_crash_points" by (cases c) (simp_all add: v1_crash_points_def)
    then show ?thesis using y V_lock cached appln ok crash
      by (cases "v1_appln_mutex (v1_wq x) = 0") (auto simp: v1_inside_def intro!: move)
  next
    case (V_acquire c)
    then show ?thesis using y cached appln ok
      by (intro move [of y "V_count c"]) (auto simp: v1_inside_def v1_locked_Some)
  next
    case (V_count c)
    then show ?thesis using y cached appln ok
      by (intro move [of y "V_unlock False"]) (auto simp: v1_inside_def v1_owner [OF inv T(3)] split: if_splits)
  next
    case (V_unlock b)
    then have "b \<longrightarrow> v1_appln_mutex (v1_wq x) = 1" using cached [of t] by simp
    then show ?thesis using y V_unlock cached appln ok crash
      by (cases "v1_appln_mutex (v1_wq x) = 0") (auto simp: v1_inside_def v1_crash_points_def intro!: move)
  qed (use y in simp_all)
qed


text \<open>The threads of a set \<open>W\<close> are woken.\<close>

lemma v1_wake_inv:
  assumes "v1_inv T x" "\<And>u. u \<in> W \<Longrightarrow> v1_pc x u = V_waiting"
  shows "v1_inv T (x\<lparr>v1_pc := (\<lambda>u. if u \<in> W then V_woken else v1_pc x u)\<rparr>)"
proof -
  let ?f = "\<lambda>u. if u \<in> W then V_woken else v1_pc x u"
  have same: "v1_holds (?f u) = v1_holds (v1_pc x u)" "v1_inside (?f u) = v1_inside (v1_pc x u)"
    "v1_cached (?f u) = v1_cached (v1_pc x u)" "?f u = V_out \<longleftrightarrow> v1_pc x u = V_out" for u
    using assms(2) [of u] by (auto simp: v1_inside_def)
  have "count_threads T v1_inside ?f = count_threads T v1_inside (v1_pc x)" by (rule count_threads_same) (rule same(2))
  then show ?thesis using assms(1) unfolding v1_inv_def by (simp add: same(1,3,4) del: if_split split del: if_split)
qed

lemma v1_wakes_set: "v1_wakes c x y \<Longrightarrow> \<exists>W. y = x\<lparr>v1_pc := (\<lambda>u. if u \<in> W then V_woken else v1_pc x u)\<rparr> \<and> (\<forall>u\<in>W. v1_pc x u = V_waiting)"
proof (cases c)
  case V1_signal
  assume "v1_wakes c x y"
  with V1_signal consider u where "v1_pc x u = V_waiting" "y = v1_goto u V_woken x" | "y = x" by (auto split: if_splits)
  then show ?thesis
  proof cases
    case 1
    then show ?thesis by (intro exI [of _ "{u}"]) (auto simp: v1_goto_def fun_upd_def)
  next
    case 2
    then show ?thesis by (intro exI [of _ "{}"]) simp
  qed
next
  case V1_broadcast
  assume "v1_wakes c x y"
  with V1_broadcast show ?thesis by (intro exI [of _ "{u. v1_pc x u = V_waiting}"]) simp
qed

lemma v1_signals_inv:
  assumes inv: "v1_inv T x" and T: "finite T" "card T < 65536" "t \<in> T" and at: "v1_pc x t = V_count c" "v1_thread_wait_count (v1_wq x) \<noteq> 0"
    and y: "v1_wakes c x y" and ok: "v1_crash x = None"
  shows "v1_inv T (v1_goto t (V_unlock True) y)"
proof -
  obtain W where W: "y = x\<lparr>v1_pc := (\<lambda>u. if u \<in> W then V_woken else v1_pc x u)\<rparr>" "\<And>u. u \<in> W \<Longrightarrow> v1_pc x u = V_waiting"
    using v1_wakes_set [OF y] by blast
  have inv': "v1_inv T y" using v1_wake_inv [OF inv W(2)] W(1) by simp
  have pc: "v1_pc y t = V_count c" using W at by auto
  obtain u where "v1_inside (v1_pc x u)" using v1_count_zero [OF inv T(1,2)] at(2) by blast
  then have "v1_cached (v1_pc x u)" by (auto simp: v1_inside_def)
  then have "v1_appln_mutex (v1_wq x) = 1" using inv unfolding v1_inv_def by blast
  then show ?thesis using W(1) pc v1_owner [OF inv T(3)] at(1) ok
    by (intro v1_inv_move [OF inv' T(1,3)]) (auto simp: v1_inside_def)
qed

lemma v1_step_inv:
  assumes "v1_step T x y" "v1_inv T x" "finite T" "card T < 65536"
  shows "v1_inv T y"
  using assms(1)
proof cases
  case (v1_waits t)
  have appln: "v1_appln_mutex (v1_wq x) = 0 \<or> v1_appln_mutex (v1_wq x) = 1" using assms(2) by (auto simp: v1_inv_def)
  then consider "v1_app_mutex x = None" "y = v1_goto t (V_loop (v1_appl_result x)) (x\<lparr>v1_app_mutex := Some t, v1_wq := (v1_wq x)\<lparr>v1_appln_mutex := 1\<rparr>\<rparr>)"
    | "v1_app_mutex x = None" "v1_appln_mutex (v1_wq x) = 1" "y = v1_goto t (V_loop (v1_appl_result x)) (x\<lparr>v1_app_mutex := Some t\<rparr>)"
    using v1_waits(4) by (auto simp: v1_enter_def v1_locked_Some)
  then show ?thesis
  proof cases
    case 1
    show ?thesis by (rule v1_inv_move [OF assms(2,3) v1_waits(2), of y "V_loop (v1_appl_result x)"]) (use 1 v1_waits in \<open>auto simp: v1_inside_def\<close>)
  next
    case 2
    show ?thesis by (rule v1_inv_move [OF assms(2,3) v1_waits(2), of y "V_loop (v1_appl_result x)"]) (use 2 v1_waits in \<open>auto simp: v1_inside_def\<close>)
  qed
next
  case (v1_calls t c)
  have "v1_cached (v1_pc x u) \<Longrightarrow> v1_appln_mutex (v1_wq x) = 1" for u using assms(2) unfolding v1_inv_def by blast
  then show ?thesis using v1_calls assms(2)
    by (intro v1_inv_move [OF assms(2,3) v1_calls(3), of y "V_test c"]) (auto simp: v1_inside_def v1_inv_def)
next
  case (v1_sets b)
  then show ?thesis using assms(2) by (simp add: v1_inv_def)
next
  case (v1_moves t)
  then show ?thesis using v1_next_inv assms by blast
next
  case (v1_signals t c z)
  then show ?thesis using v1_signals_inv assms by blast
next
  case (v1_spurious t)
  then have "y = x\<lparr>v1_pc := (\<lambda>u. if u \<in> {t} then V_woken else v1_pc x u)\<rparr>" by (auto simp: v1_goto_def fun_upd_def)
  then show ?thesis using v1_wake_inv [OF assms(2), of "{t}"] v1_spurious by simp
qed

lemma v1_reach_inv: "v1_reach T x \<Longrightarrow> finite T \<Longrightarrow> card T < 65536 \<Longrightarrow> v1_inv T x"
proof (induction rule: v1_reach.induct)
  case (v1_init b)
  then show ?case by (simp add: v1_inv_def v1_start_def wait_queue_init_v1_def count_threads_def v1_inside_def)
qed (blast intro: v1_step_inv)

section \<open>Runs\<close>

datatype v1_event = Ev_wait tid | Ev_call tid v1_call | Ev_move tid

fun v1_run :: "v1_event list \<Rightarrow> v1_app \<Rightarrow> v1_app option" where
  "v1_run [] x = Some x"
| "v1_run (e # es) x = (if v1_crash x \<noteq> None then None else Option.bind
     (case e of Ev_wait t \<Rightarrow> if v1_pc x t = V_out then v1_enter t x else None
       | Ev_call t c \<Rightarrow> if v1_pc x t = V_out then Some (v1_goto t (V_test c) x) else None
       | Ev_move t \<Rightarrow> v1_next t (v1_pc x t) x) (v1_run es))"

fun v1_actor :: "v1_event \<Rightarrow> tid" where
  "v1_actor (Ev_wait t) = t" | "v1_actor (Ev_call t c) = t" | "v1_actor (Ev_move t) = t"

lemma v1_run_reach: "v1_run es x = Some y \<Longrightarrow> v1_reach T x \<Longrightarrow> v1_actor ` set es \<subseteq> T \<Longrightarrow> v1_reach T y"
proof (induction es arbitrary: x)
  case (Cons e es)
  then obtain z where z: "v1_run es z = Some y" and ok: "v1_crash x = None" and
    e: "(case e of Ev_wait t \<Rightarrow> if v1_pc x t = V_out then v1_enter t x else None
       | Ev_call t c \<Rightarrow> if v1_pc x t = V_out then Some (v1_goto t (V_test c) x) else None
       | Ev_move t \<Rightarrow> v1_next t (v1_pc x t) x) = Some z" by (auto simp: bind_eq_Some_conv split: if_splits)
  have "v1_step T x z" using e ok Cons.prems(3)
    by (cases e) (auto intro: v1_waits v1_calls v1_moves split: if_splits)
  then show ?case using Cons z by (auto intro: v1_more)
qed simp

section \<open>Properties\<close>

text \<open>C31. In every execution of the first wait queue, with up to 65535 threads: the application's mutex
  protects, the count is the number of threads inside \<^verbatim>\<open>pthread_cond_wait\<close>, and the mutex is cached while there
  are any, so a thread that waits finds it. The process can crash at two points, and at no other: when a signal or
  a broadcast locks the mutex, and when it unlocks it after finding nobody, both times because another thread has
  set the pointer to NULL in between.\<close>

theorem wait_queue_v1_crashes:
  assumes "finite T" "card T < 65536" "{1, 2} \<subseteq> T"
  shows "{x. v1_reach T x} \<subseteq> Collect (v1_inv T) \<and>
    {p. \<exists>x. v1_reach T x \<and> v1_crash x = Some p} = {V_lock V1_signal, V_lock V1_broadcast, V_unlock False}"
proof -
  have inv: "{x. v1_reach T x} \<subseteq> Collect (v1_inv T)" using v1_reach_inv assms by blast
  have run: "\<exists>x. v1_reach T x \<and> v1_crash x = Some p"
    if es: "map_option v1_crash (v1_run es (v1_start False)) = Some (Some p)" and T': "v1_actor ` set es \<subseteq> {1, 2}" for es p
  proof -
    obtain z where z: "v1_run es (v1_start False) = Some z" "v1_crash z = Some p" using es by auto
    have "v1_reach T z" by (rule v1_run_reach [OF z(1) v1_init subset_trans [OF T' assms(3)]])
    then show ?thesis using z by blast
  qed
  have "\<exists>x. v1_reach T x \<and> v1_crash x = Some (V_lock c)" for c
  proof (rule run)
    show "map_option v1_crash (v1_run [Ev_wait 1, Ev_call 2 c, Ev_move 2, Ev_move 1, Ev_move 2] (v1_start False)) = Some (Some (V_lock c))"
      by (simp add: v1_start_def wait_queue_init_v1_def v1_enter_def v1_locked_def v1_goto_def v1_crashes_def)
  qed simp
  moreover have "\<exists>x. v1_reach T x \<and> v1_crash x = Some (V_unlock False)"
  proof (rule run)
    show "map_option v1_crash (v1_run [Ev_wait 1, Ev_call 2 V1_signal, Ev_move 2, Ev_move 2, Ev_move 1, Ev_move 2, Ev_move 2, Ev_move 2]
      (v1_start False)) = Some (Some (V_unlock False))"
      by (simp add: v1_start_def wait_queue_init_v1_def v1_enter_def v1_locked_def v1_goto_def v1_crashes_def)
  qed simp
  ultimately have "{V_lock V1_signal, V_lock V1_broadcast, V_unlock False} \<subseteq> {p. \<exists>x. v1_reach T x \<and> v1_crash x = Some p}"
    by blast
  moreover have "{p. \<exists>x. v1_reach T x \<and> v1_crash x = Some p} \<subseteq> v1_crash_points"
    using inv by (auto simp: v1_inv_def)
  ultimately show ?thesis using inv unfolding v1_crash_points_def by blast
qed

theorem wait_queue_v1_crashes_witness:
  "\<exists>x. v1_reach {1, 2} x \<and> v1_crash x = Some (V_unlock False)"
  using wait_queue_v1_crashes [of "{1, 2}"] by auto

end
