(* ===== verification/StrictCounter.thy ===== *)
theory StrictCounter
  imports Sema
begin

text \<open>
  The program \<^verbatim>\<open>Semaphores/semaphore_strict_counter.c\<close>, composed with the semaphore of \<open>Sema\<close>: two threads
  print the odd and the even numbers up to 15 and hand each other the turn through two semaphores. Each semaphore
  is a configuration of \<open>sema_obj\<close>; a thread makes its steps between its calls on its own.
\<close>

section \<open>The code\<close>

text \<open>Thread 1 prints odd numbers and waits on the semaphore 1, \<^verbatim>\<open>sema0_1\<close>; thread 2 prints even numbers and
  waits on the semaphore 2, \<^verbatim>\<open>sema0_2\<close>. Each posts to the other's.\<close>

datatype sc_pc = Sc_print | Sc_post | Sc_wait | Sc_done

type_synonym sc_config = "(sema, nat \<times> nat, sema_wait_point, sema_cv) config"

record strict_counter =
  sc_sema :: "tid \<Rightarrow> sc_config"
  sc_pc :: "tid \<Rightarrow> sc_pc"
  sc_i :: "tid \<Rightarrow> int"
  sc_printed :: "int list"

definition sc_other :: "tid \<Rightarrow> tid" where
  "sc_other t = (if t = 1 then 2 else 1)"

text \<open>The bodies of the loops: \<^verbatim>\<open>thread_fn_callback_odd\<close> prints, posts and waits,
  \<^verbatim>\<open>thread_fn_callback_even\<close> waits, prints and posts.\<close>

definition sc_first :: "tid \<Rightarrow> sc_pc" where
  "sc_first t = (if t = 1 then Sc_print else Sc_wait)"

definition sc_goto :: "tid \<Rightarrow> sc_pc \<Rightarrow> strict_counter \<Rightarrow> strict_counter" where
  "sc_goto t l x = x\<lparr>sc_pc := (sc_pc x)(t := l)\<rparr>"

definition sc_loop :: "tid \<Rightarrow> strict_counter \<Rightarrow> strict_counter" where
  "sc_loop t x = (let i = sc_i x t + 2 in sc_goto t (if i \<le> 15 then sc_first t else Sc_done) (x\<lparr>sc_i := (sc_i x)(t := i)\<rparr>))"

definition sc_print :: "tid \<Rightarrow> strict_counter \<Rightarrow> strict_counter" where
  "sc_print t x = sc_goto t Sc_post (x\<lparr>sc_printed := sc_printed x @ [sc_i x t]\<rparr>)"

definition sc_posted :: "tid \<Rightarrow> sc_config \<Rightarrow> strict_counter \<Rightarrow> strict_counter" where
  "sc_posted t d x =
     (let y = x\<lparr>sc_sema := (sc_sema x)(sc_other t := d)\<rparr> in if t = 1 then sc_goto t Sc_wait y else sc_loop t y)"

text \<open>After a section of the wait: it has returned, or the thread sleeps in it.\<close>

fun sc_waited :: "tid \<Rightarrow> sema_sect \<Rightarrow> sc_config \<Rightarrow> strict_counter \<Rightarrow> strict_counter" where
  "sc_waited t (Unlocked s r ss) d x =
     (let y = x\<lparr>sc_sema := (sc_sema x)(t := d)\<rparr> in if t = 1 then sc_loop t y else sc_goto t Sc_print y)"
| "sc_waited t sec d x = x\<lparr>sc_sema := (sc_sema x)(t := d)\<rparr>"

inductive sc_step :: "strict_counter \<Rightarrow> strict_counter \<Rightarrow> bool" where
  sc_prints: "t \<in> {1, 2} \<Longrightarrow> sc_pc x t = Sc_print \<Longrightarrow> sc_step x (sc_print t x)"
| sc_posts: "t \<in> {1, 2} \<Longrightarrow> sc_pc x t = Sc_post \<Longrightarrow> c = sc_sema x (sc_other t) \<Longrightarrow>
    finish sema_obj t (sema_enter t Sema_post (shared c)) c d \<Longrightarrow> sc_step x (sc_posted t d x)"
| sc_waits: "t \<in> {1, 2} \<Longrightarrow> sc_pc x t = Sc_wait \<Longrightarrow> c = sc_sema x t \<Longrightarrow> status c t = Running \<Longrightarrow>
    sec = sema_enter t Sema_wait (shared c) \<Longrightarrow> finish sema_obj t sec c d \<Longrightarrow> sc_step x (sc_waited t sec d x)"
| sc_resumes: "t \<in> {1, 2} \<Longrightarrow> c = sc_sema x t \<Longrightarrow> status c t = Woken k \<Longrightarrow>
    sec = sema_resume t k (shared c) \<Longrightarrow> finish sema_obj t sec c d \<Longrightarrow> sc_step x (sc_waited t sec d x)"

definition sc_main :: strict_counter where
  "sc_main = \<lparr>sc_sema = (\<lambda>_. start (sema_init 0 sema_get_new_semaphore) (0, 0)), sc_pc = sc_first,
     sc_i = (\<lambda>t. int t), sc_printed = []\<rparr>"

text \<open>\<open>main\<close> goes on when it has joined both threads.\<close>

definition sc_joined :: "strict_counter \<Rightarrow> bool" where
  "sc_joined x \<longleftrightarrow> sc_pc x 1 = Sc_done \<and> sc_pc x 2 = Sc_done"

inductive sc_reach :: "nat \<Rightarrow> strict_counter \<Rightarrow> bool" where
  sc_starts: "sc_reach 0 sc_main"
| sc_more: "sc_reach n x \<Longrightarrow> sc_step x y \<Longrightarrow> sc_reach (Suc n) y"

section \<open>The invariant\<close>

text \<open>The semaphore of \<open>t\<close> after \<open>a\<close> returned waits of \<open>t\<close> and \<open>g\<close> posts of the other thread.\<close>

definition sc_lib :: "tid \<Rightarrow> sc_config \<Rightarrow> nat \<Rightarrow> nat \<Rightarrow> bool" where
  "sc_lib t c a g \<longleftrightarrow> reach sema_obj False {1, 2} (sema_init 0 sema_get_new_semaphore) (0, 0) c \<and>
     status c (sc_other t) = Running \<and> ghost c t = (a, 0) \<and> ghost c (sc_other t) = (0, g)"

text \<open>What a thread in round \<open>k\<close> has taken, given and printed, by its point.\<close>

fun sc_taken :: "tid \<Rightarrow> sc_pc \<Rightarrow> nat \<Rightarrow> nat" where
  "sc_taken t l k = (if t = 2 \<and> (l = Sc_print \<or> l = Sc_post) then k + 1 else k)"

fun sc_given :: "tid \<Rightarrow> sc_pc \<Rightarrow> nat \<Rightarrow> nat" where
  "sc_given t l k = (if t = 1 \<and> l = Sc_wait then k + 1 else k)"

fun sc_prints_of :: "tid \<Rightarrow> sc_pc \<Rightarrow> nat \<Rightarrow> nat" where
  "sc_prints_of t l k = (if l = Sc_post \<or> t = 1 \<and> l = Sc_wait then k + 1 else k)"

definition sc_rounds :: "tid \<Rightarrow> nat" where
  "sc_rounds t = (if t = 1 then 8 else 7)"

text \<open>\<open>k1\<close> and \<open>k2\<close> are the rounds the threads have finished.\<close>

definition sc_thread :: "tid \<Rightarrow> nat \<Rightarrow> nat \<Rightarrow> strict_counter \<Rightarrow> bool" where
  "sc_thread t k g x \<longleftrightarrow> sc_lib t (sc_sema x t) (sc_taken t (sc_pc x t) k) g \<and> sc_i x t = 2 * int k + int t \<and>
     (if sc_pc x t = Sc_done then k = sc_rounds t else k < sc_rounds t) \<and> (status (sc_sema x t) t \<noteq> Running \<longrightarrow> sc_pc x t = Sc_wait)"

definition sc_upto :: "nat \<Rightarrow> int list" where
  "sc_upto n = [1..int n]"

definition sc_inv :: "nat \<Rightarrow> nat \<Rightarrow> strict_counter \<Rightarrow> bool" where
  "sc_inv k1 k2 x \<longleftrightarrow> sc_thread 1 k1 (sc_given 2 (sc_pc x 2) k2) x \<and> sc_thread 2 k2 (sc_given 1 (sc_pc x 1) k1) x \<and>
     sc_printed x = sc_upto (sc_prints_of 1 (sc_pc x 1) k1 + sc_prints_of 2 (sc_pc x 2) k2)"

lemma sc_other_simps [simp]: "sc_other (Suc 0) = 2" "sc_other 2 = 1" "t \<in> {1, 2} \<Longrightarrow> sc_other (sc_other t) = t"
  by (auto simp: sc_other_def)

lemma sc_other_neq: "t \<in> {1, 2} \<Longrightarrow> sc_other t \<in> {1, 2} \<and> sc_other t \<noteq> t"
  by (auto simp: sc_other_def)

text \<open>What the semaphore promises: nobody passes without a post, and who sleeps has used up all posts.\<close>

lemma sc_lib_sema:
  assumes "sc_lib t c a g" "t \<in> {1, 2}"
  shows "a \<le> g" and "is_blocked (status c t) \<Longrightarrow> a = g" and "\<not> aborted c"
proof -
  have r: "reach sema_obj False {1, 2} (sema_init 0 sema_get_new_semaphore) (0, 0) c" using assms(1) by (simp add: sc_lib_def)
  have "sema_inv 0 {1, 2} (shared c) (ghost c) (status c)" using sema.reachable_inv [of "{1, 2}" 0 c] r by simp
  note inv = this [unfolded sema_inv_def, THEN conjunct2]
  consider "t = 1" "sc_other t = 2" | "t = 2" "sc_other t = 1" using assms(2) by (auto simp: sc_other_def)
  then have "acquired {1, 2} (ghost c) = a \<and> posted {1, 2} (ghost c) = g \<and>
      blocked_threads {1, 2} (status c) = of_bool (is_blocked (status c t)) \<and> woken_threads {1, 2} (status c) = of_bool (is_woken (status c t))"
  proof cases
    case 1
    then have "{u \<in> {1, 2}. is_blocked (status c u)} = (if is_blocked (status c 1) then {1} else {})"
      "{u \<in> {1, 2}. is_woken (status c u)} = (if is_woken (status c 1) then {1} else {})" using assms(1) by (auto simp: sc_lib_def)
    with 1 assms(1) show ?thesis
      by (simp add: acquired_def posted_def sum_threads_def sc_lib_def blocked_threads_def woken_threads_def count_threads_def)
  next
    case 2
    then have "{u \<in> {1, 2}. is_blocked (status c u)} = (if is_blocked (status c 2) then {2} else {})"
      "{u \<in> {1, 2}. is_woken (status c u)} = (if is_woken (status c 2) then {2} else {})" using assms(1) by (auto simp: sc_lib_def)
    with 2 assms(1) show ?thesis
      by (simp add: acquired_def posted_def sum_threads_def sc_lib_def blocked_threads_def woken_threads_def count_threads_def)
  qed
  with inv show "a \<le> g" "is_blocked (status c t) \<Longrightarrow> a = g"
    by (cases "status c t"; auto)+
  show "\<not> aborted c" using sema.reachable_not_aborted [of "{1, 2}" 0 c] r by simp
qed

lemma sc_lib_step:
  assumes "sc_lib t c a g" "t \<in> {1, 2}" "step sema_obj False {1, 2} c d"
    and "status d (sc_other t) = Running" "ghost d t = (a', 0)" "ghost d (sc_other t) = (0, g')"
  shows "sc_lib t d a' g'"
  using assms unfolding sc_lib_def by (blast intro: reach.reach_step)

text \<open>A post of the other thread, and the wait of \<open>t\<close>, which returns or sleeps.\<close>

lemma sc_lib_post:
  assumes lib: "sc_lib t c a g" and t: "t \<in> {1, 2}" and fin: "finish sema_obj (sc_other t) (sema_enter (sc_other t) Sema_post (shared c)) c d"
  shows "sc_lib t d a (Suc g)" and "status d t = Running \<longleftrightarrow> status c t = Running"
proof -
  note o = sc_other_neq [OF t]
  have run: "status c (sc_other t) = Running" using lib by (simp add: sc_lib_def)
  obtain ss where w: "wakes ss ((status c)(sc_other t := Running)) (status d)"
    "ghost d = (ghost c)(sc_other t := sema_count Sema_posted (ghost c (sc_other t)))"
    using fin by (auto simp: sema_post_def Let_def)
  then show st: "status d t = Running \<longleftrightarrow> status c t = Running" using wakes_running [OF w(1), of t] o by simp
  have "step sema_obj False {1, 2} c d"
    by (rule step.call [of _ "sc_other t" _ _ Sema_post]) (use sc_lib_sema [OF lib t] o run fin in simp_all)
  then show "sc_lib t d a (Suc g)"
    using sc_lib_step [OF lib t, of d a "Suc g"] w o lib wakes_running [OF w(1), of "sc_other t"] by (simp add: sc_lib_def)
qed

lemma sc_lib_section:
  assumes lib: "sc_lib t c a g" and t: "t \<in> {1, 2}" and st: "step sema_obj False {1, 2} c d"
    and fin: "finish sema_obj t sec c d" and sec: "sec = sema_wait (shared c) \<or> sec = sema_wait_resume (shared c)"
  shows "(case sec of Unlocked s r ss \<Rightarrow> sc_lib t d (Suc a) g \<and> status d t = Running | CvWait s cv k ss \<Rightarrow> sc_lib t d a g \<and> is_blocked (status d t) | Aborted \<Rightarrow> False)"
proof -
  note o = sc_other_neq [OF t]
  from sec consider s where "sec = Unlocked s Sema_acquired []" | s where "sec = CvWait s Sema_cv Sema_wait_point []"
    by (auto simp: sync_defs Let_def split: if_splits)
  then show ?thesis
  proof cases
    case 1
    then show ?thesis using fin sc_lib_step [OF lib t st, of "Suc a" g] o lib by (auto simp: sc_lib_def)
  next
    case 2
    then show ?thesis using fin sc_lib_step [OF lib t st, of a g] o lib by (auto simp: sc_lib_def)
  qed
qed


section \<open>Steps keep the invariant and make progress\<close>

lemma sc_goto_simps [simp]:
  "sc_sema (sc_goto t l x) = sc_sema x" "sc_pc (sc_goto t l x) = (sc_pc x)(t := l)" "sc_i (sc_goto t l x) = sc_i x"
  "sc_printed (sc_goto t l x) = sc_printed x"
  by (simp_all add: sc_goto_def)

fun sc_phase :: "tid \<Rightarrow> sc_pc \<Rightarrow> bool \<Rightarrow> nat" where
  "sc_phase t Sc_print sleeps = (if t = 1 then 0 else 2)"
| "sc_phase t Sc_post sleeps = (if t = 1 then 1 else 3)"
| "sc_phase t Sc_wait sleeps = (if t = 1 then 2 else 0) + of_bool sleeps"
| "sc_phase t Sc_done sleeps = 0"

definition sc_progress :: "nat \<Rightarrow> nat \<Rightarrow> strict_counter \<Rightarrow> nat" where
  "sc_progress k1 k2 x = 4 * k1 + sc_phase 1 (sc_pc x 1) (status (sc_sema x 1) 1 \<noteq> Running) +
     4 * k2 + sc_phase 2 (sc_pc x 2) (status (sc_sema x 2) 2 \<noteq> Running)"

text \<open>The order of the prints comes from the order the semaphores enforce.\<close>

lemma sc_order:
  assumes "sc_inv k1 k2 x"
  shows "sc_taken 1 (sc_pc x 1) k1 \<le> k2 \<and> sc_taken 2 (sc_pc x 2) k2 \<le> sc_given 1 (sc_pc x 1) k1"
  using assms sc_lib_sema(1) [of 1] sc_lib_sema(1) [of 2] by (fastforce simp: sc_inv_def sc_thread_def)

lemma sc_upto_Suc: "sc_upto n @ [int n + 1] = sc_upto (Suc n)"
  using upto_rec2 [of 1 "int n + 1"] by (simp add: sc_upto_def ac_simps)

lemma exI2: "P a b \<Longrightarrow> \<exists>j1 j2. P j1 j2"
  by blast

lemma sc_print_inv:
  assumes "sc_inv k1 k2 x" "t \<in> {1, 2}" "sc_pc x t = Sc_print"
  shows "sc_inv k1 k2 (sc_print t x) \<and> sc_progress k1 k2 x < sc_progress k1 k2 (sc_print t x)"
proof -
  let ?n = "sc_prints_of 1 (sc_pc x 1) k1 + sc_prints_of 2 (sc_pc x 2) k2"
  have "sc_i x t = int ?n + 1"
  proof (cases "t = 1")
    case True
    then show ?thesis using assms sc_order [OF assms(1)] by (cases "sc_pc x 2") (auto simp: sc_inv_def sc_thread_def)
  next
    case False
    then have "t = 2" using assms(2) by simp
    then show ?thesis using assms sc_order [OF assms(1)] by (cases "sc_pc x 1") (auto simp: sc_inv_def sc_thread_def)
  qed
  then have "sc_printed (sc_print t x) = sc_upto (Suc ?n)"
    using assms(1) sc_upto_Suc [of ?n] by (simp add: sc_print_def sc_inv_def)
  then show ?thesis using assms
    by (auto simp: sc_print_def sc_inv_def sc_thread_def sc_progress_def split: if_splits)
qed

lemma sc_post_inv:
  assumes inv: "sc_inv k1 k2 x" and t: "t \<in> {1, 2}" "sc_pc x t = Sc_post"
    and fin: "finish sema_obj t (sema_enter t Sema_post (shared (sc_sema x (sc_other t)))) (sc_sema x (sc_other t)) d"
  shows "\<exists>j1 j2. sc_inv j1 j2 (sc_posted t d x) \<and> sc_progress k1 k2 x < sc_progress j1 j2 (sc_posted t d x)"
proof (cases "t = 1")
  case True
  have "sc_lib 2 (sc_sema x 2) (sc_taken 2 (sc_pc x 2) k2) k1" using inv t True by (simp add: sc_inv_def sc_thread_def)
  from sc_lib_post [OF this, of d] fin True
  have "sc_lib 2 d (sc_taken 2 (sc_pc x 2) k2) (Suc k1)" "status d 2 = Running \<longleftrightarrow> status (sc_sema x 2) 2 = Running" by simp_all
  then show ?thesis using inv t True
    by (intro exI2 [of _ k1 k2]) (auto simp: sc_posted_def sc_inv_def sc_thread_def sc_progress_def Let_def split: if_splits)
next
  case False
  then have t2: "t = 2" using t(1) by simp
  have "sc_lib 1 (sc_sema x 1) (sc_taken 1 (sc_pc x 1) k1) k2" using inv t t2 by (simp add: sc_inv_def sc_thread_def)
  from sc_lib_post [OF this, of d] fin t2
  have "sc_lib 1 d (sc_taken 1 (sc_pc x 1) k1) (Suc k2)" "status d 1 = Running \<longleftrightarrow> status (sc_sema x 1) 1 = Running" by simp_all
  then show ?thesis using inv t t2
    by (intro exI2 [of _ k1 "Suc k2"])
      (auto simp: sc_posted_def sc_loop_def sc_first_def sc_rounds_def sc_inv_def sc_thread_def sc_progress_def Let_def split: if_splits)
qed

lemma sc_wait_inv:
  assumes inv: "sc_inv k1 k2 x" and t: "t \<in> {1, 2}" "sc_pc x t = Sc_wait"
    and st: "step sema_obj False {1, 2} (sc_sema x t) d" and fin: "finish sema_obj t sec (sc_sema x t) d"
    and sec: "sec = sema_wait (shared (sc_sema x t)) \<and> status (sc_sema x t) t = Running \<or> sec = sema_wait_resume (shared (sc_sema x t))"
  shows "\<exists>j1 j2. sc_inv j1 j2 (sc_waited t sec d x) \<and> sc_progress k1 k2 x < sc_progress j1 j2 (sc_waited t sec d x)"
proof -
  have blocks: "status (sc_sema x t) t = Running" if "sec = CvWait s cv k ss" for s cv k ss using sec that by (auto simp: sema_wait_resume_def)
  show ?thesis
  proof (cases "t = 1")
    case True
    have "sc_lib 1 (sc_sema x 1) k1 k2" using inv t True by (simp add: sc_inv_def sc_thread_def)
    note lib = sc_lib_section [OF this _ st [unfolded True] fin [unfolded True]]
    show ?thesis
    proof (cases sec)
      case (Unlocked s r ss)
      then show ?thesis using inv t True lib sec
        by (intro exI2 [of _ "Suc k1" k2])
          (auto simp: sc_loop_def sc_first_def sc_rounds_def sc_inv_def sc_thread_def sc_progress_def Let_def split: if_splits)
    next
      case (CvWait s cv k ss)
      then show ?thesis using inv t True lib sec blocks
        by (intro exI2 [of _ k1 k2]) (auto simp: sc_inv_def sc_thread_def sc_progress_def split: if_splits)
    qed (use sec in \<open>auto simp: sync_defs Let_def split: if_splits\<close>)
  next
    case False
    then have t2: "t = 2" using t(1) by simp
    have "sc_lib 2 (sc_sema x 2) k2 (sc_given 1 (sc_pc x 1) k1)" using inv t t2 by (simp add: sc_inv_def sc_thread_def)
    note lib = sc_lib_section [OF this _ st [unfolded t2] fin [unfolded t2]]
    show ?thesis
    proof (cases sec)
      case (Unlocked s r ss)
      then show ?thesis using inv t t2 lib sec
        by (intro exI2 [of _ k1 k2]) (auto simp: sc_inv_def sc_thread_def sc_progress_def Let_def split: if_splits)
    next
      case (CvWait s cv k ss)
      then show ?thesis using inv t t2 lib sec blocks
        by (intro exI2 [of _ k1 k2]) (auto simp: sc_inv_def sc_thread_def sc_progress_def split: if_splits)
    qed (use sec in \<open>auto simp: sync_defs Let_def split: if_splits\<close>)
  qed
qed


lemma sc_step_inv:
  assumes inv: "sc_inv k1 k2 x" and step: "sc_step x y"
  shows "\<exists>j1 j2. sc_inv j1 j2 y \<and> sc_progress k1 k2 x < sc_progress j1 j2 y"
  using step
proof cases
  case (sc_prints t)
  then show ?thesis using sc_print_inv [OF inv] by blast
next
  case (sc_posts t c d)
  then show ?thesis using sc_post_inv [OF inv] by blast
next
  case (sc_waits t c sec d)
  have "\<not> aborted (sc_sema x t)" using sc_lib_sema(3) sc_waits(2) inv by (auto simp: sc_inv_def sc_thread_def)
  then have "step sema_obj False {1, 2} (sc_sema x t) d"
    using sc_waits by (intro step.call [of _ t _ _ Sema_wait]) auto
  from sc_wait_inv [OF inv sc_waits(2,3) this, of sec] sc_waits show ?thesis by simp
next
  case (sc_resumes t c k sec d)
  have "\<not> aborted (sc_sema x t)" using sc_lib_sema(3) sc_resumes(2) inv by (auto simp: sc_inv_def sc_thread_def)
  then have st: "step sema_obj False {1, 2} (sc_sema x t) d"
    using sc_resumes by (intro step.return_from_wait [of _ t _ k]) auto
  have "sc_pc x t = Sc_wait" using sc_resumes inv by (auto simp: sc_inv_def sc_thread_def)
  from sc_wait_inv [OF inv sc_resumes(2) this st, of sec] sc_resumes show ?thesis by (simp add: sema_resume_def)
qed

lemma sc_reach_inv: "sc_reach n x \<Longrightarrow> \<exists>k1 k2. sc_inv k1 k2 x \<and> n \<le> sc_progress k1 k2 x"
proof (induction rule: sc_reach.induct)
  case sc_starts
  have "sc_inv 0 0 sc_main"
    by (simp add: sc_inv_def sc_thread_def sc_lib_def sc_main_def sc_first_def sc_rounds_def sc_upto_def start_def
        reach.reach_start [unfolded start_def])
  then show ?case by blast
next
  case (sc_more n x y)
  then show ?case using sc_step_inv by (meson Suc_leI le_less_trans)
qed

lemma sc_progress_bound: "sc_inv k1 k2 x \<Longrightarrow> sc_progress k1 k2 x \<le> 60"
  by (cases "sc_pc x 1"; cases "sc_pc x 2") (auto simp: sc_inv_def sc_thread_def sc_progress_def sc_rounds_def)

lemma sc_prints_bound: "sc_inv k1 k2 x \<Longrightarrow> sc_prints_of 1 (sc_pc x 1) k1 + sc_prints_of 2 (sc_pc x 2) k2 \<le> 15"
  by (cases "sc_pc x 1"; cases "sc_pc x 2") (auto simp: sc_inv_def sc_thread_def sc_rounds_def)

text \<open>A thread that cannot go on has ended or sleeps, and only the odd thread can sleep for ever.\<close>

lemma sc_stuck_thread:
  assumes "\<nexists>y. sc_step x y" "t \<in> {1, 2}"
  shows "sc_pc x t = Sc_done \<or> sc_pc x t = Sc_wait \<and> is_blocked (status (sc_sema x t) t)"
proof (cases "sc_pc x t")
  case Sc_print
  from sc_prints [OF assms(2) this] assms(1) show ?thesis by blast
next
  case Sc_post
  obtain d where "finish sema_obj t (sema_enter t Sema_post (shared (sc_sema x (sc_other t)))) (sc_sema x (sc_other t)) d"
    using finish_some by blast
  from sc_posts [OF assms(2) Sc_post refl this] assms(1) show ?thesis by blast
next
  case Sc_wait
  show ?thesis
  proof (cases "status (sc_sema x t) t")
    case Running
    obtain d where "finish sema_obj t (sema_enter t Sema_wait (shared (sc_sema x t))) (sc_sema x t) d" using finish_some by blast
    from sc_waits [OF assms(2) Sc_wait refl Running refl this] assms(1) show ?thesis by blast
  next
    case (Woken k)
    obtain d where "finish sema_obj t (sema_resume t k (shared (sc_sema x t))) (sc_sema x t) d" using finish_some by blast
    from sc_resumes [OF assms(2) refl Woken refl this] assms(1) show ?thesis by blast
  qed (use Sc_wait in simp)
qed simp

lemma sc_stuck:
  assumes inv: "sc_inv k1 k2 x" and stuck: "\<nexists>y. sc_step x y"
  shows "sc_printed x = sc_upto 15 \<and> sc_pc x 2 = Sc_done \<and> is_blocked (status (sc_sema x 1) 1)"
proof -
  have lib: "sc_lib 1 (sc_sema x 1) (sc_taken 1 (sc_pc x 1) k1) k2" "sc_lib 2 (sc_sema x 2) (sc_taken 2 (sc_pc x 2) k2) (sc_given 1 (sc_pc x 1) k1)"
    using inv by (simp_all add: sc_inv_def sc_thread_def)
  note 1 = sc_lib_sema [OF lib(1)] and 2 = sc_lib_sema [OF lib(2)]
  note a = sc_stuck_thread [OF stuck, of 1, simplified] and b = sc_stuck_thread [OF stuck, of 2, simplified]
  have "k1 = 8" if "sc_pc x 1 = Sc_done" using inv that by (simp add: sc_inv_def sc_thread_def sc_rounds_def)
  moreover have "k2 = 7" if "sc_pc x 2 = Sc_done" using inv that by (simp add: sc_inv_def sc_thread_def sc_rounds_def)
  moreover have "k2 < 7" if "sc_pc x 2 = Sc_wait" using inv that by (simp add: sc_inv_def sc_thread_def sc_rounds_def)
  ultimately show ?thesis using a b 1 2 inv by (auto simp: sc_inv_def)
qed

section \<open>Properties\<close>

text \<open>C37. The two threads count strictly: in every execution without spurious wake-ups, what has been printed
  is an initial part of 1 to 15 in order; every execution ends after at most 60 steps; and it ends with all
  numbers printed, the even thread returned and the odd thread asleep in its last \<^verbatim>\<open>sema_wait\<close>, to which nobody
  will post: \<^verbatim>\<open>main\<close> never gets past its first \<^verbatim>\<open>pthread_join\<close>.\<close>

theorem strict_counter_counts:
  assumes "sc_reach n x"
  shows "n \<le> 60 \<and> (\<exists>m. m \<le> 15 \<and> sc_printed x = [1..int m]) \<and> \<not> sc_joined x \<and>
    ((\<nexists>y. sc_step x y) \<longrightarrow> sc_printed x = [1..15] \<and> sc_pc x 2 = Sc_done \<and> is_blocked (status (sc_sema x 1) 1))"
proof -
  obtain k1 k2 where inv: "sc_inv k1 k2 x" "n \<le> sc_progress k1 k2 x" using sc_reach_inv [OF assms] by blast
  have "sc_taken 1 (sc_pc x 1) k1 \<le> k2" using sc_order [OF inv(1)] by simp
  then have "\<not> sc_joined x" using inv(1) by (auto simp: sc_joined_def sc_inv_def sc_thread_def sc_rounds_def)
  moreover have "\<exists>m. m \<le> 15 \<and> sc_printed x = [1..int m]"
    using inv(1) sc_prints_bound [OF inv(1)] unfolding sc_inv_def sc_upto_def by blast
  moreover have "sc_upto 15 = [1..15]" by (simp add: sc_upto_def)
  ultimately show ?thesis
    using inv(2) sc_progress_bound [OF inv(1)] sc_stuck [OF inv(1)] by auto
qed

theorem strict_counter_counts_witness:
  "\<exists>n x. sc_reach n x \<and> sc_printed x = [1..15] \<and> is_blocked (status (sc_sema x 1) 1) \<and> \<not> sc_joined x"
proof -
  have "\<exists>n x. sc_reach n x \<and> (\<nexists>y. sc_step x y)"
  proof (rule ccontr)
    assume none: "\<not> ?thesis"
    have "\<exists>x. sc_reach n x" for n
      by (induction n) (use none in \<open>blast intro: sc_starts sc_more\<close>)+
    then obtain x where "sc_reach 61 x" by blast
    from strict_counter_counts [OF this] show False by simp
  qed
  then show ?thesis using strict_counter_counts by blast
qed

end
