(* ===== verification/ThreadCancel.thy ===== *)
theory ThreadCancel
  imports Prelude
begin

text \<open>
  The examples of thread cancellation in \<^verbatim>\<open>ThreadBasics/ThreadCancellation/\<close>. A slave thread owns the memory of its
  argument and, from \<^verbatim>\<open>fopen\<close> on, a file, and writes to the file for ever; the master cancels it at any moment.
  Three of the four programs differ in whether the thread pushes cleanup handlers and in the cancellation type (the
  fourth, \<^verbatim>\<open>master_slave1.c\<close>, cancels nothing). The slaves share nothing, so one of them is modelled.

  From POSIX: a new thread has cancellation enabled and deferred; an asynchronous cancellation takes place anywhere,
  a deferred one in a call that is a cancellation point, which then has had no effect; the handlers that are pushed
  then run, the last one first.
\<close>

section \<open>The code\<close>

datatype cn_program = Async_no_handlers | Async_handlers | Deferred_handlers

datatype cn_pc = Cn_setstate | Cn_settype | Cn_push_memory | Cn_fopen | Cn_push_file | Cn_error | Cn_write | Cn_flush | Cn_sleep | Cn_testcancel
  | Cn_returned | Cn_cancelled cn_pc

datatype cn_handler = Memory_cleanup_handler | File_cleanup_handler

text \<open>\<open>cn_frees\<close> and \<open>cn_closes\<close> count the calls of \<^verbatim>\<open>free\<close> for the argument and of \<^verbatim>\<open>fclose\<close> for the file.\<close>

record cn_slave =
  cn_pc :: cn_pc
  cn_asynchronous :: bool
  cn_requested :: bool
  cn_handlers :: "cn_handler list"
  cn_opened :: bool
  cn_frees :: nat
  cn_closes :: nat
  cn_count :: nat

definition cn_handles :: "cn_program \<Rightarrow> bool" where
  "cn_handles p \<longleftrightarrow> p \<noteq> Async_no_handlers"

fun cn_runs :: "cn_handler \<Rightarrow> cn_slave \<Rightarrow> cn_slave" where
  "cn_runs Memory_cleanup_handler x = x\<lparr>cn_frees := cn_frees x + 1\<rparr>"
| "cn_runs File_cleanup_handler x = x\<lparr>cn_closes := cn_closes x + 1\<rparr>"

definition cn_goto :: "cn_pc \<Rightarrow> cn_slave \<Rightarrow> cn_slave" where
  "cn_goto l x = x\<lparr>cn_pc := l\<rparr>"

text \<open>\<^verbatim>\<open>write_into_file\<close>, statement by statement; \<open>opens\<close> says whether \<^verbatim>\<open>fopen\<close> succeeds. The return
  after an error leaves the handlers pushed, and they do not run.\<close>

fun write_into_file :: "cn_program \<Rightarrow> bool \<Rightarrow> cn_pc \<Rightarrow> cn_slave \<Rightarrow> cn_slave option" where
  "write_into_file p opens Cn_setstate x = Some (cn_goto Cn_settype x)"
| "write_into_file p opens Cn_settype x =
     Some (cn_goto (if cn_handles p then Cn_push_memory else Cn_fopen) (x\<lparr>cn_asynchronous := (p \<noteq> Deferred_handlers)\<rparr>))"
| "write_into_file p opens Cn_push_memory x = Some (cn_goto Cn_fopen (x\<lparr>cn_handlers := Memory_cleanup_handler # cn_handlers x\<rparr>))"
| "write_into_file p opens Cn_fopen x =
     Some (if opens then cn_goto (if cn_handles p then Cn_push_file else Cn_write) (x\<lparr>cn_opened := True\<rparr>) else cn_goto Cn_error x)"
| "write_into_file p opens Cn_push_file x = Some (cn_goto Cn_write (x\<lparr>cn_handlers := File_cleanup_handler # cn_handlers x\<rparr>))"
| "write_into_file p opens Cn_error x = Some (cn_goto Cn_returned x)"
| "write_into_file p opens Cn_write x = Some (cn_goto Cn_flush (x\<lparr>cn_count := cn_count x + 1\<rparr>))"
| "write_into_file p opens Cn_flush x = Some (cn_goto Cn_sleep x)"
| "write_into_file p opens Cn_sleep x = Some (cn_goto (if p = Deferred_handlers then Cn_testcancel else Cn_write) x)"
| "write_into_file p opens Cn_testcancel x = Some (cn_goto Cn_write x)"
| "write_into_file p opens Cn_returned x = None"
| "write_into_file p opens (Cn_cancelled l) x = None"

text \<open>The calls in which a deferred cancellation may take place: \<^verbatim>\<open>fopen\<close>, \<^verbatim>\<open>printf\<close>,
  \<^verbatim>\<open>fwrite\<close>, \<^verbatim>\<open>fflush\<close>, \<^verbatim>\<open>sleep\<close> and \<^verbatim>\<open>pthread_testcancel\<close>.\<close>

definition cn_cancellation_point :: "cn_pc \<Rightarrow> bool" where
  "cn_cancellation_point l \<longleftrightarrow> l \<in> {Cn_fopen, Cn_error, Cn_write, Cn_flush, Cn_sleep, Cn_testcancel}"

fun cn_ended :: "cn_pc \<Rightarrow> bool" where
  "cn_ended Cn_returned = True"
| "cn_ended (Cn_cancelled l) = True"
| "cn_ended _ = False"

definition cn_can_cancel :: "cn_slave \<Rightarrow> bool" where
  "cn_can_cancel x \<longleftrightarrow> cn_requested x \<and> \<not> cn_ended (cn_pc x) \<and> (cn_asynchronous x \<or> cn_cancellation_point (cn_pc x))"

definition cn_cancels :: "cn_slave \<Rightarrow> cn_slave" where
  "cn_cancels x = (fold cn_runs (cn_handlers x) x)\<lparr>cn_handlers := [], cn_pc := Cn_cancelled (cn_pc x)\<rparr>"

inductive cn_step :: "cn_program \<Rightarrow> cn_slave \<Rightarrow> cn_slave \<Rightarrow> bool" for p where
  cn_moves: "write_into_file p opens (cn_pc x) x = Some y \<Longrightarrow> cn_step p x y"
| cn_requests: "cn_step p x (x\<lparr>cn_requested := True\<rparr>)"
| cn_is_cancelled: "cn_can_cancel x \<Longrightarrow> cn_step p x (cn_cancels x)"

text \<open>A slave as the master creates it, owning the memory of its argument.\<close>

definition cn_created :: cn_slave where
  "cn_created = \<lparr>cn_pc = Cn_setstate, cn_asynchronous = False, cn_requested = False, cn_handlers = [], cn_opened = False,
     cn_frees = 0, cn_closes = 0, cn_count = 0\<rparr>"

inductive cn_reach :: "cn_program \<Rightarrow> cn_slave \<Rightarrow> bool" for p where
  cn_starts: "cn_reach p cn_created"
| cn_more: "cn_reach p x \<Longrightarrow> cn_step p x y \<Longrightarrow> cn_reach p y"

section \<open>What a cancellation leaves behind\<close>

text \<open>The handlers pushed, and whether the file is open, at each point.\<close>

fun cn_pushed :: "cn_program \<Rightarrow> cn_pc \<Rightarrow> cn_handler list" where
  "cn_pushed p l = (if \<not> cn_handles p \<or> l \<in> {Cn_setstate, Cn_settype, Cn_push_memory} then []
     else if l \<in> {Cn_fopen, Cn_push_file, Cn_error, Cn_returned} then [Memory_cleanup_handler]
     else [File_cleanup_handler, Memory_cleanup_handler])"

fun cn_open_at :: "cn_pc \<Rightarrow> bool" where
  "cn_open_at l \<longleftrightarrow> l \<in> {Cn_push_file, Cn_write, Cn_flush, Cn_sleep, Cn_testcancel}"

fun cn_exists :: "cn_program \<Rightarrow> cn_pc \<Rightarrow> bool" where
  "cn_exists p l \<longleftrightarrow> (l \<in> {Cn_push_memory, Cn_push_file} \<longrightarrow> cn_handles p) \<and> (l = Cn_testcancel \<longrightarrow> p = Deferred_handlers)"

fun cn_at :: "cn_program \<Rightarrow> cn_pc \<Rightarrow> cn_slave \<Rightarrow> bool" where
  "cn_at p (Cn_cancelled l) x \<longleftrightarrow> cn_exists p l \<and> \<not> cn_ended l \<and>
     (p \<noteq> Deferred_handlers \<and> l \<notin> {Cn_setstate, Cn_settype} \<or> cn_cancellation_point l) \<and>
     cn_opened x = cn_open_at l \<and> cn_frees x = count_list (cn_pushed p l) Memory_cleanup_handler \<and>
     cn_closes x = count_list (cn_pushed p l) File_cleanup_handler"
| "cn_at p l x \<longleftrightarrow> cn_exists p l \<and> cn_asynchronous x = (p \<noteq> Deferred_handlers \<and> l \<notin> {Cn_setstate, Cn_settype}) \<and>
     cn_opened x = cn_open_at l \<and> cn_handlers x = cn_pushed p l \<and> cn_frees x = 0 \<and> cn_closes x = 0"

lemma cn_move_at: "cn_at p (cn_pc x) x \<Longrightarrow> write_into_file p opens (cn_pc x) x = Some y \<Longrightarrow> cn_at p (cn_pc y) y"
  by (cases "cn_pc x"; cases opens; cases p) (auto simp: cn_goto_def cn_handles_def)

lemma cn_cancel_at: "cn_at p (cn_pc x) x \<Longrightarrow> cn_can_cancel x \<Longrightarrow> cn_at p (cn_pc (cn_cancels x)) (cn_cancels x)"
  by (cases "cn_pc x") (auto simp: cn_cancels_def cn_can_cancel_def cn_cancellation_point_def cn_handles_def)

lemma cn_request_at: "cn_at p l (x\<lparr>cn_requested := b\<rparr>) = cn_at p l x"
  by (cases l) auto

lemma cn_reach_at: "cn_reach p x \<Longrightarrow> cn_at p (cn_pc x) x"
proof (induction rule: cn_reach.induct)
  case cn_starts
  show ?case by (simp add: cn_created_def cn_handles_def)
next
  case (cn_more x y)
  from cn_more.hyps(2) cn_more.IH show ?case
    by cases (simp_all add: cn_move_at cn_cancel_at cn_request_at)
qed

text \<open>A slave that has been cancelled and has not given back what it owned exactly once.\<close>

definition cn_leaks :: "cn_slave \<Rightarrow> bool" where
  "cn_leaks x \<longleftrightarrow> cn_frees x \<noteq> 1 \<or> cn_closes x \<noteq> of_bool (cn_opened x)"

section \<open>Runs\<close>

text \<open>A statement for every element of the list, which says whether \<^verbatim>\<open>fopen\<close> succeeds, and then the
  cancellation.\<close>

fun cn_statements :: "cn_program \<Rightarrow> bool list \<Rightarrow> cn_slave \<Rightarrow> cn_slave option" where
  "cn_statements p [] x = Some x"
| "cn_statements p (b # bs) x = Option.bind (write_into_file p b (cn_pc x) x) (cn_statements p bs)"

lemma cn_statements_reach: "cn_statements p bs x = Some y \<Longrightarrow> cn_reach p x \<Longrightarrow> cn_reach p y"
proof (induction bs arbitrary: x)
  case (Cons b bs)
  then obtain z where "write_into_file p b (cn_pc x) x = Some z" "cn_statements p bs z = Some y" by (auto simp: bind_eq_Some_conv)
  then show ?case using Cons cn_more cn_moves by blast
qed simp

fun cn_shows :: "cn_program \<Rightarrow> bool list \<Rightarrow> cn_pc \<Rightarrow> bool" where
  "cn_shows p bs l \<longleftrightarrow> (case cn_statements p bs cn_created of None \<Rightarrow> False
     | Some x \<Rightarrow> let y = x\<lparr>cn_requested := True\<rparr> in cn_can_cancel y \<and> cn_pc (cn_cancels y) = Cn_cancelled l \<and> cn_leaks (cn_cancels y))"

lemma cn_shows_leak:
  assumes "cn_shows p bs l"
  shows "\<exists>x. cn_reach p x \<and> cn_pc x = Cn_cancelled l \<and> cn_leaks x"
proof -
  obtain x where x: "cn_statements p bs cn_created = Some x" "cn_can_cancel (x\<lparr>cn_requested := True\<rparr>)"
    "cn_pc (cn_cancels (x\<lparr>cn_requested := True\<rparr>)) = Cn_cancelled l" "cn_leaks (cn_cancels (x\<lparr>cn_requested := True\<rparr>))"
    using assms by (auto simp: Let_def split: option.splits)
  have "cn_reach p (x\<lparr>cn_requested := True\<rparr>)"
    using cn_statements_reach [OF x(1) cn_starts] cn_more cn_requests by blast
  then have "cn_reach p (cn_cancels (x\<lparr>cn_requested := True\<rparr>))" using x(2) cn_more cn_is_cancelled by blast
  then show ?thesis using x(3,4) by blast
qed

section \<open>Properties\<close>

text \<open>The points at which a cancellation leaves the memory or the file behind, in each of the programs.\<close>

definition cn_leak_points :: "cn_program \<Rightarrow> cn_pc set" where
  "cn_leak_points p = (case p of Deferred_handlers \<Rightarrow> {} | Async_handlers \<Rightarrow> {Cn_push_memory, Cn_push_file}
     | Async_no_handlers \<Rightarrow> {Cn_fopen, Cn_error, Cn_write, Cn_flush, Cn_sleep})"

lemma cn_leak_points_reached:
  assumes "l \<in> cn_leak_points p"
  shows "\<exists>x. cn_reach p x \<and> cn_pc x = Cn_cancelled l \<and> cn_leaks x"
proof -
  let ?A = Async_handlers and ?N = Async_no_handlers
  have "cn_shows ?A [True, True] Cn_push_memory" "cn_shows ?A [True, True, True, True] Cn_push_file"
    "cn_shows ?N [True, True] Cn_fopen" "cn_shows ?N [True, True, False] Cn_error" "cn_shows ?N [True, True, True] Cn_write"
    "cn_shows ?N [True, True, True, True] Cn_flush" "cn_shows ?N [True, True, True, True, True] Cn_sleep" by code_simp+
  from this [THEN cn_shows_leak] assms show ?thesis by (cases p) (auto simp: cn_leak_points_def)
qed

text \<open>With cleanup handlers and deferred cancellation, every slave that is cancelled has freed its memory and
  closed its file, exactly once. With asynchronous cancellation there are two points, and no other, where a
  cancellation leaks: before the memory handler is pushed, and between \<^verbatim>\<open>fopen\<close> and the push of the file
  handler. Without handlers every cancellation leaks.\<close>

theorem cancellation_leaks_iff:
  "{l. \<exists>x. cn_reach p x \<and> cn_pc x = Cn_cancelled l \<and> cn_leaks x} = cn_leak_points p"
proof -
  have "l \<in> cn_leak_points p" if x: "cn_reach p x" "cn_pc x = Cn_cancelled l" "cn_leaks x" for l x
    using cn_reach_at [OF x(1)] x(2,3)
    by (cases p; cases l) (auto simp: cn_leaks_def cn_leak_points_def cn_cancellation_point_def cn_handles_def)
  then show ?thesis using cn_leak_points_reached by blast
qed

text \<open>A slave that cannot open its file returns with its memory handler still pushed: the memory is never freed.\<close>

theorem cancellation_error_leaks: "\<exists>x. cn_reach Deferred_handlers x \<and> cn_pc x = Cn_returned \<and> cn_frees x = 0"
proof -
  have "map_option (\<lambda>x. (cn_pc x, cn_frees x)) (cn_statements Deferred_handlers [True, True, True, False, True] cn_created) =
    Some (Cn_returned, 0)" by code_simp
  then show ?thesis using cn_statements_reach [OF _ cn_starts] by fastforce
qed

end
