(* ===== verification/Races.thy ===== *)
theory Races
  imports Prelude
begin

text \<open>
  Two small programs that show what goes wrong without discipline: \<^verbatim>\<open>Deadlock/DeadlockDemo1.c\<close>, where two threads
  lock two resources in opposite orders, and \<^verbatim>\<open>Atomic/atomic_demo.c\<close>, where a thread sums an array that another
  one changes. The programs \<^verbatim>\<open>ThreadBasics/MutexExample/\<close> are the second one without its atomic flag.
\<close>

section \<open>Two resources\<close>

text \<open>The threads are 1 and 2, the resources 1 and 2. A point says which statement of the loop comes next.\<close>

datatype dl_pc = Dl_lock_own | Dl_lock_other | Dl_unlock_r1 | Dl_unlock_r2

record dl_demo =
  dl_owner :: "nat \<Rightarrow> tid option"
  dl_pc :: "tid \<Rightarrow> dl_pc"

definition res_lock :: "tid \<Rightarrow> nat \<Rightarrow> dl_pc \<Rightarrow> dl_demo \<Rightarrow> dl_demo option" where
  "res_lock t r l x = (if dl_owner x r = None then Some (x\<lparr>dl_owner := (dl_owner x)(r := Some t), dl_pc := (dl_pc x)(t := l)\<rparr>) else None)"

definition res_unlock :: "tid \<Rightarrow> nat \<Rightarrow> dl_pc \<Rightarrow> dl_demo \<Rightarrow> dl_demo" where
  "res_unlock t r l x = x\<lparr>dl_owner := (dl_owner x)(r := None), dl_pc := (dl_pc x)(t := l)\<rparr>"

text \<open>\<^verbatim>\<open>thread1_fn\<close> locks \<^verbatim>\<open>r1\<close> first, \<^verbatim>\<open>thread2_fn\<close> \<^verbatim>\<open>r2\<close>; both unlock
  \<^verbatim>\<open>r1\<close> first.\<close>

definition dl_next :: "tid \<Rightarrow> dl_demo \<Rightarrow> dl_demo option" where
  "dl_next t x = (case dl_pc x t of
       Dl_lock_own \<Rightarrow> res_lock t t Dl_lock_other x
     | Dl_lock_other \<Rightarrow> res_lock t (3 - t) Dl_unlock_r1 x
     | Dl_unlock_r1 \<Rightarrow> Some (res_unlock t 1 Dl_unlock_r2 x)
     | Dl_unlock_r2 \<Rightarrow> Some (res_unlock t 2 Dl_lock_own x))"

definition dl_main :: dl_demo where
  "dl_main = \<lparr>dl_owner = (\<lambda>_. None), dl_pc = (\<lambda>_. Dl_lock_own)\<rparr>"

inductive dl_reach :: "dl_demo \<Rightarrow> bool" where
  dl_starts: "dl_reach dl_main"
| dl_steps: "dl_reach x \<Longrightarrow> t \<in> {1, 2} \<Longrightarrow> dl_next t x = Some y \<Longrightarrow> dl_reach y"

fun dl_holds :: "tid \<Rightarrow> dl_pc \<Rightarrow> nat \<Rightarrow> bool" where
  "dl_holds t Dl_lock_own r = False"
| "dl_holds t Dl_lock_other r = (r = t)"
| "dl_holds t Dl_unlock_r1 r = (r = 1 \<or> r = 2)"
| "dl_holds t Dl_unlock_r2 r = (r = 2)"

definition dl_owner_at :: "dl_pc \<Rightarrow> dl_pc \<Rightarrow> nat \<Rightarrow> tid option" where
  "dl_owner_at l1 l2 r = (if dl_holds 1 l1 r then Some 1 else if dl_holds 2 l2 r then Some 2 else None)"

definition dl_inv :: "dl_demo \<Rightarrow> bool" where
  "dl_inv x \<longleftrightarrow> dl_owner x 1 = dl_owner_at (dl_pc x 1) (dl_pc x 2) 1 \<and> dl_owner x 2 = dl_owner_at (dl_pc x 1) (dl_pc x 2) 2 \<and>
     \<not> (dl_holds 1 (dl_pc x 1) 1 \<and> dl_holds 2 (dl_pc x 2) 1) \<and> \<not> (dl_holds 1 (dl_pc x 1) 2 \<and> dl_holds 2 (dl_pc x 2) 2)"

lemma dl_next_inv:
  assumes "dl_inv x" "t \<in> {1, 2}" "dl_next t x = Some y"
  shows "dl_inv y"
proof -
  consider "t = 1" | "t = 2" using assms(2) by blast
  then show ?thesis
    using assms(1,3) by cases (cases "dl_pc x 1"; cases "dl_pc x 2";
      force simp: dl_next_def res_lock_def res_unlock_def dl_inv_def dl_owner_at_def split: if_splits)+
qed

lemma dl_reach_inv: "dl_reach x \<Longrightarrow> dl_inv x"
proof (induction rule: dl_reach.induct)
  case dl_starts
  show ?case by (simp add: dl_inv_def dl_main_def dl_owner_at_def)
qed (blast intro: dl_next_inv)

text \<open>The two threads exclude each other from every resource, and the program is deadlocked exactly where each
  holds its first resource and waits for the other's.\<close>

theorem deadlock_demo:
  assumes "dl_reach x"
  shows "\<not> (dl_holds 1 (dl_pc x 1) r \<and> dl_holds 2 (dl_pc x 2) r) \<and>
    (dl_next 1 x = None \<and> dl_next 2 x = None \<longleftrightarrow> dl_pc x 1 = Dl_lock_other \<and> dl_pc x 2 = Dl_lock_other)"
proof -
  have inv: "dl_inv x" by (rule dl_reach_inv [OF assms])
  have "dl_next 1 x = None \<and> dl_next 2 x = None \<longleftrightarrow> dl_pc x 1 = Dl_lock_other \<and> dl_pc x 2 = Dl_lock_other"
    using inv by (cases "dl_pc x 1"; cases "dl_pc x 2") (simp_all add: dl_next_def res_lock_def dl_owner_at_def dl_inv_def)
  moreover have "\<not> (dl_holds 1 (dl_pc x 1) r \<and> dl_holds 2 (dl_pc x 2) r)"
    using inv by (cases "dl_pc x 1"; cases "dl_pc x 2") (auto simp: dl_inv_def)
  ultimately show ?thesis by blast
qed

theorem deadlock_demo_witness: "\<exists>x. dl_reach x \<and> dl_next 1 x = None \<and> dl_next 2 x = None"
proof -
  have "map_option (\<lambda>x. map (dl_pc x) [1, 2]) (Option.bind (dl_next 1 dl_main) (dl_next 2)) = Some [Dl_lock_other, Dl_lock_other]" by code_simp
  then obtain x y where xy: "dl_next 1 dl_main = Some x" "dl_next 2 x = Some y" "map (dl_pc y) [1, 2] = [Dl_lock_other, Dl_lock_other]"
    unfolding map_option_eq_Some bind_eq_Some_conv by metis
  have "dl_reach x" by (rule dl_steps [OF dl_starts _ xy(1)]) simp
  then have "dl_reach y" by (rule dl_steps [OF _ _ xy(2)]) simp
  from deadlock_demo [OF this] xy(3) show ?thesis using \<open>dl_reach y\<close> by auto
qed

section \<open>A sum and a swap\<close>

text \<open>The steps are the accesses to the array. \<^verbatim>\<open>atomic_flag_test_and_set\<close> sets the flag and its result
  is ignored.\<close>

datatype sum_pc = Sm_start | Sm_add | Sm_assert | Sm_clear
datatype swap_pc = Sw_start | Sw_temp | Sw_first | Sw_last | Sw_clear

record atomic_demo =
  ad_arr :: "int list"
  ad_at_f :: bool
  ad_sum_pc :: sum_pc
  ad_i :: nat
  ad_sum :: int
  ad_swap_pc :: swap_pc
  ad_temp :: int
  ad_failed :: bool

definition thread_fn_callback_sum :: "atomic_demo \<Rightarrow> atomic_demo" where
  "thread_fn_callback_sum x = (case ad_sum_pc x of
       Sm_start \<Rightarrow> x\<lparr>ad_sum := 0, ad_i := 0, ad_at_f := True, ad_sum_pc := Sm_add\<rparr>
     | Sm_add \<Rightarrow> if ad_i x < length (ad_arr x) then x\<lparr>ad_sum := ad_sum x + ad_arr x ! ad_i x, ad_i := ad_i x + 1\<rparr>
         else x\<lparr>ad_sum_pc := Sm_assert\<rparr>
     | Sm_assert \<Rightarrow> if ad_sum x = 15 then x\<lparr>ad_sum_pc := Sm_clear\<rparr> else x\<lparr>ad_failed := True\<rparr>
     | Sm_clear \<Rightarrow> x\<lparr>ad_at_f := False, ad_sum_pc := Sm_start\<rparr>)"

definition thread_fn_callback_swap :: "atomic_demo \<Rightarrow> atomic_demo" where
  "thread_fn_callback_swap x = (case ad_swap_pc x of
       Sw_start \<Rightarrow> x\<lparr>ad_at_f := True, ad_swap_pc := Sw_temp\<rparr>
     | Sw_temp \<Rightarrow> x\<lparr>ad_temp := ad_arr x ! 0, ad_swap_pc := Sw_first\<rparr>
     | Sw_first \<Rightarrow> x\<lparr>ad_arr := (ad_arr x)[0 := ad_arr x ! (length (ad_arr x) - 1)], ad_swap_pc := Sw_last\<rparr>
     | Sw_last \<Rightarrow> x\<lparr>ad_arr := (ad_arr x)[length (ad_arr x) - 1 := ad_temp x], ad_swap_pc := Sw_clear\<rparr>
     | Sw_clear \<Rightarrow> x\<lparr>ad_at_f := False, ad_swap_pc := Sw_start\<rparr>)"

definition atomic_main :: atomic_demo where
  "atomic_main = \<lparr>ad_arr = [1, 2, 3, 4, 5], ad_at_f = False, ad_sum_pc = Sm_start, ad_i = 0, ad_sum = 0, ad_swap_pc = Sw_start,
     ad_temp = 0, ad_failed = False\<rparr>"

text \<open>\<open>True\<close> is a step of the summing thread.\<close>

definition ad_next :: "bool \<Rightarrow> atomic_demo \<Rightarrow> atomic_demo" where
  "ad_next b x = (if ad_failed x then x else if b then thread_fn_callback_sum x else thread_fn_callback_swap x)"

definition ad_run :: "bool list \<Rightarrow> atomic_demo" where
  "ad_run bs = fold ad_next bs atomic_main"

definition ad_ends :: "swap_pc \<Rightarrow> int \<Rightarrow> int \<Rightarrow> int \<Rightarrow> bool" where
  "ad_ends l a b temp \<longleftrightarrow> (case l of Sw_start \<Rightarrow> {a, b} = {1, 5} | Sw_temp \<Rightarrow> {a, b} = {1, 5} | Sw_clear \<Rightarrow> {a, b} = {1, 5}
     | Sw_first \<Rightarrow> temp = a \<and> {a, b} = {1, 5} | Sw_last \<Rightarrow> a = b \<and> {temp, b} = {1, 5})"

definition ad_partial :: "sum_pc \<Rightarrow> nat \<Rightarrow> int \<Rightarrow> bool" where
  "ad_partial l i s \<longleftrightarrow> (case l of Sm_start \<Rightarrow> True
     | Sm_add \<Rightarrow> (i, s) \<in> {(0, 0), (1, 1), (1, 5), (2, 3), (2, 7), (3, 6), (3, 10), (4, 10), (4, 14), (5, 11), (5, 15), (5, 19)}
     | _ \<Rightarrow> s \<in> {11, 15, 19})"

definition ad_inv :: "atomic_demo \<Rightarrow> bool" where
  "ad_inv x \<longleftrightarrow> (\<exists>a b. ad_arr x = [a, 2, 3, 4, b] \<and> ad_ends (ad_swap_pc x) a b (ad_temp x)) \<and>
     ad_partial (ad_sum_pc x) (ad_i x) (ad_sum x)"

lemma ad_ends_values: "ad_ends l a b temp \<Longrightarrow> a \<in> {1, 5} \<and> b \<in> {1, 5}"
  by (cases l) (auto simp: ad_ends_def doubleton_eq_iff)

lemma ad_partial_add:
  assumes "ad_partial Sm_add i s" "a \<in> {1, 5}" "b \<in> {1, 5}"
  shows "if i < 5 then ad_partial Sm_add (Suc i) (s + [a, 2, 3, 4, b] ! i) else ad_partial Sm_assert i s"
  using assms unfolding ad_partial_def by (simp only: sum_pc.case insert_iff empty_iff prod.inject simp_thms, elim disjE conjE; simp)

lemma ad_sum_inv:
  assumes "ad_inv x"
  shows "ad_inv (thread_fn_callback_sum x)"
proof -
  obtain a b where arr: "ad_arr x = [a, 2, 3, 4, b]" "ad_ends (ad_swap_pc x) a b (ad_temp x)" using assms by (auto simp: ad_inv_def)
  have part: "ad_partial (ad_sum_pc x) (ad_i x) (ad_sum x)" using assms by (simp add: ad_inv_def)
  have len: "length (ad_arr x) = 5" using arr(1) by simp
  show ?thesis
  proof (cases "ad_sum_pc x")
    case Sm_add
    have "if ad_i x < 5 then ad_partial Sm_add (Suc (ad_i x)) (ad_sum x + ad_arr x ! ad_i x) else ad_partial Sm_assert (ad_i x) (ad_sum x)"
      unfolding arr(1) by (rule ad_partial_add) (use part Sm_add ad_ends_values [OF arr(2)] in simp_all)
    then show ?thesis using Sm_add arr len by (cases "ad_i x < 5") (simp_all add: ad_inv_def thread_fn_callback_sum_def)
  qed (use arr part in \<open>auto simp: ad_inv_def ad_partial_def thread_fn_callback_sum_def\<close>)
qed

lemma ad_swap_inv:
  assumes "ad_inv x"
  shows "ad_inv (thread_fn_callback_swap x)"
proof -
  obtain a b where arr: "ad_arr x = [a, 2, 3, 4, b]" "ad_ends (ad_swap_pc x) a b (ad_temp x)" using assms by (auto simp: ad_inv_def)
  have part: "ad_partial (ad_sum_pc x) (ad_i x) (ad_sum x)" using assms by (simp add: ad_inv_def)
  show ?thesis
  proof (cases "ad_swap_pc x")
    case Sw_first
    then have "{ad_temp x, b} = {1, 5}" using arr(2) by (simp add: ad_ends_def)
    then show ?thesis using Sw_first arr(1) part by (simp add: ad_inv_def ad_ends_def thread_fn_callback_swap_def)
  next
    case Sw_last
    then have "{b, ad_temp x} = {1, 5}" "a = b" using arr(2) by (auto simp: ad_ends_def)
    then show ?thesis using Sw_last arr(1) part by (simp add: ad_inv_def ad_ends_def thread_fn_callback_swap_def)
  qed (use arr part in \<open>simp_all add: ad_inv_def ad_ends_def thread_fn_callback_swap_def\<close>)
qed

lemma ad_run_inv: "ad_inv (ad_run bs)"
proof (induction bs rule: rev_induct)
  case Nil
  show ?case by (auto simp: ad_inv_def ad_run_def atomic_main_def ad_ends_def ad_partial_def)
next
  case (snoc b bs)
  then show ?case by (simp add: ad_run_def ad_next_def ad_sum_inv ad_swap_inv)
qed

text \<open>The flag protects nothing: the sums that reach the assertion are exactly 11, 15 and 19, and the assertion
  of 15 fails in some interleavings.\<close>

theorem atomic_demo_sums: "{ad_sum (ad_run bs) |bs. ad_sum_pc (ad_run bs) = Sm_assert} = {11, 15, 19} \<and> (\<exists>bs. ad_failed (ad_run bs))"
proof -
  let ?sum = "replicate 7 True" and ?swap = "replicate 5 False"
  let ?mid = "[True, True] @ replicate 5 False @ replicate 5 True"
  have "(\<lambda>x. (ad_sum_pc x, ad_sum x)) (ad_run ?sum) = (Sm_assert, 15)"
    "(\<lambda>x. (ad_sum_pc x, ad_sum x)) (ad_run ?mid) = (Sm_assert, 11)"
    "(\<lambda>x. (ad_sum_pc x, ad_sum x)) (ad_run (?swap @ ?mid)) = (Sm_assert, 19)" "ad_failed (ad_run (?mid @ [True]))" by code_simp+
  then have "{11, 15, 19} \<subseteq> {ad_sum (ad_run bs) |bs. ad_sum_pc (ad_run bs) = Sm_assert}" "\<exists>bs. ad_failed (ad_run bs)"
    by (fastforce, blast)
  moreover have "ad_sum (ad_run bs) \<in> {11, 15, 19}" if "ad_sum_pc (ad_run bs) = Sm_assert" for bs
    using ad_run_inv [of bs] that by (simp add: ad_inv_def ad_partial_def)
  ultimately show ?thesis by blast
qed

end
