(* ===== verification/ThreadSafeFlag.thy ===== *)
theory ThreadSafeFlag
  imports Prelude
begin

unbundle bit_operations_syntax

text \<open>
  The flags of \<^verbatim>\<open>CRUD/threadSafeFlag.h\<close>: a word of flag bits under a spin lock. Every operation holds the lock
  from its first to its last access, so an execution of any threads is a sequence of operations.
\<close>

record tflag =
  tflag_flags :: u32

definition tflag_init :: "tflag \<Rightarrow> tflag" where
  "tflag_init f = f\<lparr>tflag_flags := 0\<rparr>"

definition tflag_deinit :: "tflag \<Rightarrow> tflag" where
  "tflag_deinit f = f\<lparr>tflag_flags := 0\<rparr>"

definition tflag_set :: "tflag \<Rightarrow> u32 \<Rightarrow> tflag" where
  "tflag_set f flag_bit = f\<lparr>tflag_flags := tflag_flags f OR flag_bit\<rparr>"

definition tflag_unset :: "tflag \<Rightarrow> u32 \<Rightarrow> tflag" where
  "tflag_unset f flag_bit = f\<lparr>tflag_flags := tflag_flags f AND NOT flag_bit\<rparr>"

definition tflag_check_state :: "tflag \<Rightarrow> (tflag \<Rightarrow> bool) \<Rightarrow> bool" where
  "tflag_check_state f state_check_fn = state_check_fn f"

datatype tflag_op = Tflag_set u32 | Tflag_unset u32

fun tflag_does :: "tflag_op \<Rightarrow> tflag \<Rightarrow> tflag" where
  "tflag_does (Tflag_set b) f = tflag_set f b"
| "tflag_does (Tflag_unset b) f = tflag_unset f b"

fun tflag_bits :: "tflag_op \<Rightarrow> u32" where
  "tflag_bits (Tflag_set b) = b"
| "tflag_bits (Tflag_unset b) = b"

fun tflag_sets :: "tflag_op \<Rightarrow> bool" where
  "tflag_sets (Tflag_set b) = True"
| "tflag_sets (Tflag_unset b) = False"

definition tflag_bit :: "nat \<Rightarrow> tflag \<Rightarrow> bool" where
  "tflag_bit n f = bit (tflag_flags f) n"

lemma tflag_does_bit:
  "n < 32 \<Longrightarrow> tflag_bit n (tflag_does op f) \<longleftrightarrow> (if bit (tflag_bits op) n then tflag_sets op else tflag_bit n f)"
  by (cases op) (auto simp: tflag_bit_def tflag_set_def tflag_unset_def bit_simps)

text \<open>After any operations of any threads a flag is what the last operation on it has made it.\<close>

theorem tflag_last_operation:
  assumes "n < 32"
  shows "tflag_check_state (fold tflag_does ops f) (tflag_bit n) \<longleftrightarrow>
     (case find (\<lambda>op. bit (tflag_bits op) n) (rev ops) of None \<Rightarrow> tflag_bit n f | Some op \<Rightarrow> tflag_sets op)"
  unfolding tflag_check_state_def by (induction ops rule: rev_induct) (simp_all add: tflag_does_bit [OF assms])

theorem tflag_last_operation_witness:
  "tflag_check_state (fold tflag_does [Tflag_set 6, Tflag_unset 4] (tflag_init \<lparr>tflag_flags = 1\<rparr>)) (tflag_bit 1)"
proof -
  have "bit (6 :: u32) 1" "\<not> bit (4 :: u32) 1" by code_simp+
  then show ?thesis by (subst tflag_last_operation) (simp_all del: One_nat_def)
qed

end
