(* ===== verification/Spec2Isabelle.thy ===== *)
theory Spec2Isabelle
  imports RecMutex RwLock RwMonitor RwCustom Sema Barrier FifoQueue PcQueue Glthread WaitQueue Monitor
    ThreadPool EventPair AslInvariant DiningPhil LinkedListSpec CrudSpec MapReduceSpec RtTableSpec NfcUtilsSpec
    CrudMgrSpec CrudAppSpec Vaccination OldMonitor ThreadPause StageLineSpec TrafficLight Bridge
    WaitQueueGate WaitQueueV1 StrictCounter ThreadCancel Races ThreadSafeFlag
begin

text \<open>
  Verification of the thread synchronisation library and of the programs of the repository.

  \<^bold>\<open>The program.\<close> The repository holds a library of synchronisation constructs over POSIX threads
  (\<^verbatim>\<open>ThreadSyncAdv/threadlib/\<close>: threads, thread pool, event pair, wait queue, barrier, monitor,
  assembly line), stand-alone constructs (\<^verbatim>\<open>recursive_mutex/\<close>, \<^verbatim>\<open>rw_locks/\<close>,
  \<^verbatim>\<open>rw_locks/monitor/\<close>, \<^verbatim>\<open>customizable_rw_locks/\<close>, \<^verbatim>\<open>Semaphores/\<close>), the data
  structures below them (\<^verbatim>\<open>gluethread/\<close>, \<^verbatim>\<open>ThreadSyncAdv/threadlib/Fifo_Queue.c\<close>,
  \<^verbatim>\<open>CRUD/LinkedList/\<close>) and classical problems solved with threads
  (\<^verbatim>\<open>ProducerConsumer/\<close>, \<^verbatim>\<open>DiningPhilosopherProblem/\<close>, \<^verbatim>\<open>CRUD/\<close>,
  \<^verbatim>\<open>rw_locks/monitor/covidVaccination/\<close>,
  \<^verbatim>\<open>ThreadBasics/NFC/\<close>), and a library in C++ that synchronises the creation, the deletion and
  the uses of an application's objects (\<^verbatim>\<open>ThreadSafeCruds/\<close>). First versions of the monitor and of the assembly line, with another design, are
  in \<^verbatim>\<open>Monitors/\<close> and \<^verbatim>\<open>AssemblyLine/\<close>. The map-reduce of the library is in
  \<^verbatim>\<open>ThreadSyncAdv/threadlib/CourseDev/section_thread_map_reduce/\<close>.

  \<^bold>\<open>How the code is modelled.\<close> The fields of an object are only accessed with its mutex held, so
  the stretch from the acquisition of the mutex to its release (or to a \<^verbatim>\<open>pthread_cond_wait\<close>) is
  one atomic step; threads are interleaved in every order between such steps. Two ways of putting
  steps together are used:
  \<^item> \<open>Pthreads\<close>: an object is given by its operations as \<open>sect\<close> values (the new fields, the result
    or the wait, the signals sent, or a failed assertion); one relation \<open>reach\<close>, shared by the recursive
    mutex, the three read-write locks, the semaphore, the barrier, the producers and consumers and the
    monitors, runs any number of threads over it, with signals that wake any one waiter and, where the
    flag \<open>sp\<close> is set, spurious wake-ups. Its locale \<open>sync_invariant\<close> proves an invariant of all
    executions from what each section does; every object interprets it. \<open>Schedules\<close> holds executable
    runs (\<open>execute\<close>), with which the witnesses are evaluated.
  \<^item> Where the threads have programs of their own (thread pool, event pair, assembly line,
    philosophers, container of students), a thread is a program counter and one function or relation gives the step from each
    of its points: \<open>tp_next\<close>, \<open>server_fn\<close>/\<open>client_fn\<close>, \<open>asl_next\<close>, \<open>philosopher_fn\<close>,
    \<open>crud_next\<close>, \<open>mr_next\<close>, \<open>line_next\<close>, \<open>pause_next\<close>.
  \<^item> Code without locks (linked list, routing table, utilities) is functions on the state.

  A failed \<^verbatim>\<open>assert\<close>, a dereferenced NULL and (for the linked list) a use after free are values
  (\<open>Aborted\<close>, \<open>Inl ()\<close>, \<open>Assert_fails\<close>, \<open>None\<close>), and it is proved that they do not occur or
  shown when they do. Pointers are natural numbers, NULL is 0. Integers have the width of the code
  (\<open>u16\<close>, \<open>u32\<close>) wherever they are counters. Loops over pointers are \<open>partial_function (option)\<close>, and it
  is proved that they return. No fuel is used.

  \<^bold>\<open>The theories.\<close>
  \<^item> \<open>Prelude\<close>: names of types, counting and summing over threads, counters in machine words.
    \<open>Pthreads\<close>, \<open>Schedules\<close>: the threads, see above.
  \<^item> \<open>RecMutex\<close> (\<^verbatim>\<open>recursive_mutex/rec_mutex.c\<close>): mutual exclusion with recursion, what the three
    fields say while the mutex is owned and while it is free, no lost wake-up, the ownership of the unlock, the overflow of the 16-bit depth.
  \<^item> \<open>RwSpec\<close>: what a client holds of a read-write lock and the totals over all threads, shared by the
    three locks. \<open>RwLock\<close> (\<^verbatim>\<open>rw_locks/rw_locks.c\<close>): exclusion with recursive writers, no lost
    wake-up, when a lock is granted, the field that is not initialised. \<open>RwMonitor\<close>
    (\<^verbatim>\<open>rw_locks/monitor/rw_locks.c\<close>): exclusion and bounds, the hand-over between readers and
    writers. \<open>RwCustom\<close> (\<^verbatim>\<open>customizable_rw_locks/rw_locks.c\<close>): the same for the neutral bias,
    and the assertions that fail with any other bias.
  \<^item> \<open>Sema\<close> (\<^verbatim>\<open>Semaphores/sema.c\<close>): permits, and what a spurious wake-up breaks. \<open>Barrier\<close>
    (\<open>thread_barrier_\<dots>\<close> of \<^verbatim>\<open>threadlib.c\<close>): complete rounds and no stall as long as nobody calls
    \<^verbatim>\<open>thread_barrier_signal_all\<close>, what such a call breaks, the threshold of one.
  \<^item> \<open>FifoSpec\<close>: the contract of a bounded FIFO queue, a locale. \<open>FifoQueue\<close>
    (\<^verbatim>\<open>Fifo_Queue.c\<close>) and \<open>PcQueue\<close> (\<^verbatim>\<open>ProducerConsumer/Queue.c\<close>) refine it;
    \<open>PcQueue\<close> also has the producer and consumer threads.
  \<^item> \<open>Glthread\<close> (\<^verbatim>\<open>gluethread/glthread.c\<close>): the intrusive doubly linked list on a heap refines
    lists: every operation, priority insertion, removal and deletion included.
  \<^item> \<open>WaitQueue\<close> (\<open>wait_queue_\<dots>\<close>), \<open>Thread\<close>, \<open>Monitor\<close> (\<open>monitor_\<dots>\<close>): the wait queue with
    its application as a parameter, and the monitor over two wait queues: without a shut-down, exclusion and
    bounds, which outlive the monitor (the code frees it at its first idle moment, and what then touches it lets
    nobody in); no lost wake-up without strict alternation until it is freed; and what goes wrong with strict
    alternation and at a shut-down.
  \<^item> \<open>ThreadPool\<close> (\<open>thread_pool_\<dots>\<close>): every dispatched task runs exactly once and in order; a
    blocking dispatch returns after its task; two races.
  \<^item> \<open>EventPair\<close> (\<open>event_pair_\<dots>\<close> with the example that uses it): strict alternation and the number
    of rounds.
  \<^item> \<open>AssemblyLine\<close> (the code and the machine) and \<open>AslInvariant\<close> (\<open>asl_\<dots>\<close>,
    \<open>assembly_line_\<dots>\<close>): while the applications respect the line (\<open>asl_client\<close>) and no wait returns
    spuriously, every object meets all workers once and in order, objects stay in the order of the pushes, no
    failed assertion, progress; what a push that does not respect the line can do, a race with the end of a
    round; a line of one slot.
  \<^item> \<open>DiningPhil\<close> (\<^verbatim>\<open>assignment_din_ph_soln.c\<close>): safety under all interleavings, and exactly
    when the five threads are deadlocked.
  \<^item> \<open>LinkedList\<close> (the code) and \<open>LinkedListSpec\<close> (\<^verbatim>\<open>CRUD/LinkedList/LinkedListApi.c\<close>):
    refinement of lists with allocation and deallocation, copy and union, ordered insertion; the locale
    \<open>node_remover\<close> is the interface of the operations by data to removal and deletion of a node.
  \<^item> \<open>Crud\<close> (the code), \<open>CrudInvariant\<close> and \<open>CrudSpec\<close> (\<^verbatim>\<open>CRUD/Crud_algo.c\<close>,
    \<^verbatim>\<open>refcount.c\<close>, \<^verbatim>\<open>student_list.c\<close>): any number of threads that read, update, create
    and delete reference-counted students: no use after free, no failed assertion, no leak, what the
    reference counts count and their bound, updates exclude other accesses, no deadlock. The list is
    what \<open>LinkedListSpec\<close> proves of its operations by data.
  \<^item> \<open>MapReduce\<close> (the code and the machine) and \<open>MapReduceSpec\<close> (\<open>map_reduce_\<dots>\<close>): every
    interleaving gives what the sequential execution gives, the reducer runs last, the call returns
    within a bounded number of steps; more than eight mappers overflow the arrays.
  \<^item> \<open>RtTable\<close> (the code) and \<open>RtTableSpec\<close> (\<^verbatim>\<open>ThreadBasics/NFC/rt.c\<close>, \<^verbatim>\<open>notif.c\<close>):
    the doubly linked table refines rows with distinct keys, the entries on the heap are well formed,
    which subscribers are called; what a second subscriber to a missing entry is told.
  \<^item> \<open>NfcUtils\<close> (the code) and \<open>NfcUtilsSpec\<close> (\<^verbatim>\<open>ThreadBasics/NFC/utils.c\<close>): round trips of
    type-length-value records (any type, values below 128 bytes) and of addresses, masks, the end of the search;
    what the signed characters do to larger types and lengths.

  \<^item> \<open>CrudMgr\<close> (the code), \<open>CrudMgrNode\<close>, \<open>CrudMgrRw\<close> and \<open>CrudMgrSpec\<close>
    (\<^verbatim>\<open>ThreadSafeCruds/CrudMgr.cpp\<close>): the state of a node refines nine counts, and initialisation and
    destruction undo each other; in executions without requests to create or to delete,
    readers and writers of any number of nodes exclude each other, and whom a release wakes; at most one node is created or deleted at a time. Five ways in which requests get
    lost: a deletion that waits where nobody wakes it, a reader and a writer that wait for each other, the
    gap in a deletion, the race at a release, and the 8-bit counters. Of a deletion, and of the release of
    a node that was created or deleted, the two halves are two calls.
  \<^item> \<open>Vaccination\<close> (\<^verbatim>\<open>covidVaccMonitor.c\<close>): the limits of the centre, progress when there is room for
    everybody, and how a waiting citizen is forgotten.
  \<^item> \<open>OldMonitor\<close> (\<^verbatim>\<open>Monitors/monitor.c\<close>): exclusion and no lost wake-up among writers; woken readers
    do not exclude writers.
  \<^item> \<open>ThreadPause\<close> (\<^verbatim>\<open>section_thread_pause/threadlib.c\<close>, \<^verbatim>\<open>ThreadPausing/thread_pause.c\<close>): the
    flags refine a machine of four states; in the other version a paused thread never goes on.
  \<^item> \<open>StageLine\<close> (the code and its steps) and \<open>StageLineSpec\<close> (\<^verbatim>\<open>AssemblyLine/asl.c\<close>,
    \<^verbatim>\<open>testapp.c\<close>): on a chain of stages that is not destroyed nothing is lost and the order is kept, the line
    empties within a bounded number of steps, the cars of the example are complete; the race of the destruction.
  \<^item> \<open>WaitQueueGate\<close>: the wait queue of \<open>WaitQueue\<close> on its own: its count, its order and whom a signal
    wakes; a signal that is lost. \<open>FifoWaitQueue\<close>
    (\<^verbatim>\<open>section_thread_wait_queues/threadlib.c\<close>, \<^verbatim>\<open>fifo_wait_q_demo.c\<close>): the wait queue with
    a condition variable for each thread refines a queue of threads. \<open>WaitQueueV1\<close>
    (\<^verbatim>\<open>WaitQueues/wait_queue_v1.c\<close>): the first version, in steps finer than critical sections, and the
    points at which it can crash.

  Programs composed with the model of the library they use:
  \<^item> \<open>CrudApp\<close> (the code) and \<open>CrudAppSpec\<close> (\<^verbatim>\<open>ThreadSafeCruds/testapp.cpp\<close>, over \<open>CrudMgr\<close>):
    up to the first deletion request nobody sees an address half written; behind it, the use of a student that
    has been freed.
  \<^item> \<open>TrafficLight\<close> (\<^verbatim>\<open>TrafficLightProblem/tr_light.c\<close>, over the queue of \<open>FifoWaitQueue\<close>): nobody sleeps at
    a green light of the one direction whose mutex is right; the wake-ups that the others lose.
  \<^item> \<open>Bridge\<close> (\<^verbatim>\<open>rw_locks/monitor/bridge.c\<close>, over \<open>RwMonitor\<close>): one direction at a time, within its
    limit; somebody can always go on.
  \<^item> \<open>StrictCounter\<close> (\<^verbatim>\<open>Semaphores/semaphore_strict_counter.c\<close>, over \<open>Sema\<close>): the numbers come in
    order, in at most 60 steps, and then one thread waits for ever.

  Small programs: \<open>ThreadCancel\<close> (\<^verbatim>\<open>ThreadBasics/ThreadCancellation/\<close>): the points where a cancellation
  leaks; \<open>Races\<close> (\<^verbatim>\<open>Deadlock/DeadlockDemo1.c\<close>, \<^verbatim>\<open>Atomic/atomic_demo.c\<close>): exactly when the
  first deadlocks and which sums the second computes; \<open>ThreadSafeFlag\<close>
  (\<^verbatim>\<open>CRUD/threadSafeFlag.h\<close>): a flag is what the last operation made it.

  \<^bold>\<open>Composition.\<close> In \<open>CrudApp\<close>, \<open>Bridge\<close> and \<open>StrictCounter\<close> the state of the program holds a configuration
  of the library's object. A thread calls the object, or comes back from a wait in it, by \<open>finish\<close>; other
  steps are its own. The program's invariant says that the configuration is one the object can reach, and so the
  facts of the object's interpretation (\<open>rwm\<close>, \<open>rwm_live\<close>, \<open>sema\<close>) hold of it; it adds what each thread
  holds of the object at each of its points.

  \<^bold>\<open>Bounds.\<close> The number of threads is any finite number; the counters of the code bound what is
  claimed (fewer than \<open>2^30\<close> threads on a student, at most 65535 holders of a lock whose counter is \<^verbatim>\<open>uint16_t\<close>, lists shorter than
  \<open>2^32\<close>, fewer than 256 threads on the nodes of a manager, fewer than \<open>2^16\<close> or \<open>2^32\<close> threads at a wait queue).
  The assembly line has at least two workers, the number of philosophers is that of the code, five. A signed
  \<^verbatim>\<open>int\<close> that only counts up to the size of something in memory or of a run (the indices of the linked list, the
  numbers of the producer, the permits of the semaphore) is a number without bound.

  \<^bold>\<open>Not modelled.\<close> Printing, sleeping and thread attributes, which do not change the state; the
  content of what applications pass through the library (objects, tasks, worker functions are
  addresses); signals and sockets (\<^verbatim>\<open>EventListeners\<close>), whose code is calls of the operating system;
  the publisher and subscribers of \<^verbatim>\<open>ThreadBasics/NFC\<close> and the pausing master of \<^verbatim>\<open>MasterSlave\<close>, which are menus over
  modelled code, and the example programs that only start threads; copies of modelled files in other directories, and the earlier
  thread pool, which differs from the modelled one in the comparison function; the
  sleeping barber and the exercises, which are incomplete sources. Real time and fairness of the scheduler: liveness is stated as the
  existence of a thread that can go on, never as a bound on the time. Accesses to memory are sequentially
  consistent; what C leaves undefined (a data race, a mutex that is unlocked by a thread that does not hold it) is
  listed as a finding where it occurs.
\<close>

end
